(* ===== verification/Prelude.thy ===== *)
theory Prelude
  imports "HOL-Library.Word"
begin

text \<open>
  Shared material of the Ventura kernel development: the machine integers of the target
  (x86\_64, so \<^verbatim>\<open>usize\<close> is 64 bits wide), the pieces of Rust's integer API the kernel
  calls, little-endian reads from byte buffers, and the generic lemmas on lists, words and
  finite sets that the component theories use through the collections declared here.

  Conventions of the whole development.
  \<^item> Addresses, page-table entries, flag words and bitmap words are machine words, so that
    \<open>+\<close>, \<open>*\<close> and the shifts wrap exactly as the release build does (the build script uses
    \<^verbatim>\<open>cargo build --release\<close>, where overflow checks are off).
  \<^item> Counters and array indices of type \<^verbatim>\<open>usize\<close> are \<^typ>\<open>nat\<close>; the invariants
    bound every one of them far below \<open>2 ^ 64\<close>.  Rust's saturating operations are written out.
  \<^item> A \<^verbatim>\<open>Result<T, E>\<close> is \<open>'e + 't\<close> with \<open>Inl\<close> the error.
\<close>

unbundle bit_operations_syntax

type_synonym u8 = "8 word"
type_synonym u16 = "16 word"
type_synonym u32 = "32 word"
type_synonym u64 = "64 word"

named_theorems kernel_consts \<open>numeric constants of the kernel sources\<close>
named_theorems bit_simps \<open>bits of the words the kernel builds\<close>

subsection \<open>Rust integer operations\<close>

definition usize_max :: nat where
  "usize_max = 2 ^ 64 - 1"

definition saturating_add :: "nat \<Rightarrow> nat \<Rightarrow> nat" where
  "saturating_add a b = min usize_max (a + b)"

definition saturating_sub :: "nat \<Rightarrow> nat \<Rightarrow> nat" where
  "saturating_sub a b = a - b"

definition checked_add :: "u64 \<Rightarrow> u64 \<Rightarrow> u64 option" where
  "checked_add a b = (if unat a + unat b < 2 ^ 64 then Some (a + b) else None)"

definition checked_mul :: "u64 \<Rightarrow> u64 \<Rightarrow> u64 option" where
  "checked_mul a b = (if unat a * unat b < 2 ^ 64 then Some (a * b) else None)"

definition trailing_zeros :: "u64 \<Rightarrow> nat" where
  "trailing_zeros w = length (takeWhile (\<lambda>i. \<not> bit w i) [0..<64])"

definition count_ones :: "u64 \<Rightarrow> nat" where
  "count_ones w = length (filter (bit w) [0..<64])"

lemma unat_u64_less: "unat (w :: u64) < 2 ^ 64"
  using unsigned_less [of w, where ?'a = nat] by simp

lemma unat_add_u64: "unat a + unat b < 2 ^ 64 \<Longrightarrow> unat (a + b) = unat a + unat b" for a b :: u64
  by (simp add: unat_word_ariths)

lemma unat_mult_u64: "unat a * unat b < 2 ^ 64 \<Longrightarrow> unat (a * b) = unat a * unat b" for a b :: u64
  by (simp add: unat_word_ariths)

lemma checked_add_SomeD:
  "checked_add a b = Some c \<Longrightarrow> c = a + b \<and> unat c = unat a + unat b"
  by (auto simp: checked_add_def unat_add_u64 split: if_splits)

lemma checked_mul_SomeD:
  "checked_mul a b = Some c \<Longrightarrow> c = a * b \<and> unat c = unat a * unat b"
  by (auto simp: checked_mul_def unat_mult_u64 split: if_splits)

subsection \<open>Results with state\<close>

text \<open>Rust's \<^verbatim>\<open>?\<close> on a fallible call that also changes the state: an error ends the
  caller, with the state the call left.\<close>

definition and_then :: "('e + 'a) \<times> 's \<Rightarrow> ('a \<Rightarrow> 's \<Rightarrow> ('e + 'b) \<times> 's) \<Rightarrow> ('e + 'b) \<times> 's" where
  "and_then r k = (case r of (Inl e, s) \<Rightarrow> (Inl e, s) | (Inr a, s) \<Rightarrow> k a s)"

lemma and_then_simps [simp]:
  "and_then (Inl e, s) k = (Inl e, s)" "and_then (Inr a, s) k = k a s"
  by (simp_all add: and_then_def)

lemma and_then_Inr:
  "and_then r k = (Inr b, s') \<longleftrightarrow> (\<exists>a s. r = (Inr a, s) \<and> k a s = (Inr b, s'))"
  by (cases r; cases "fst r") auto

lemma and_then_Inl:
  "and_then r k = (Inl e, s') \<longleftrightarrow> r = (Inl e, s') \<or> (\<exists>a s. r = (Inr a, s) \<and> k a s = (Inl e, s'))"
  by (cases r; cases "fst r") auto

subsection \<open>The lowest set bit and the number of set bits\<close>

lemma takeWhile_upt_first:
  assumes "\<exists>i<n. P i"
  defines "k \<equiv> length (takeWhile (\<lambda>i. \<not> P i) [0..<n])"
  shows "k < n" and "P k" and "\<And>j. j < k \<Longrightarrow> \<not> P j"
proof -
  have le: "k \<le> n"
    unfolding k_def using length_takeWhile_le [of "\<lambda>i. \<not> P i" "[0..<n]"] by simp
  show not_before: "\<not> P j" if "j < k" for j
  proof -
    have "j < n" using that le by simp
    then have "takeWhile (\<lambda>i. \<not> P i) [0..<n] ! j = j"
      using that unfolding k_def by (simp add: takeWhile_nth)
    moreover have "takeWhile (\<lambda>i. \<not> P i) [0..<n] ! j \<in> set (takeWhile (\<lambda>i. \<not> P i) [0..<n])"
      using that unfolding k_def by (rule nth_mem)
    ultimately show ?thesis by (metis set_takeWhileD)
  qed
  show lt: "k < n"
  proof (rule ccontr)
    assume "\<not> k < n"
    with le have "k = n" by simp
    with not_before assms(1) show False by blast
  qed
  show "P k"
    using nth_length_takeWhile [of "\<lambda>i. \<not> P i" "[0..<n]"] lt by (simp add: k_def)
qed

lemma word_nonzero_bit:
  fixes w :: u64
  assumes "w \<noteq> 0"
  shows "\<exists>i<64. bit w i"
proof (rule ccontr)
  assume "\<not> ?thesis"
  then have "w = 0" by (intro bit_word_eqI) auto
  with assms show False by simp
qed

lemma trailing_zeros_first:
  assumes "w \<noteq> 0"
  shows trailing_zeros_less: "trailing_zeros w < 64"
    and bit_trailing_zeros: "bit w (trailing_zeros w)"
    and not_bit_before_trailing_zeros: "j < trailing_zeros w \<Longrightarrow> \<not> bit w j"
  using takeWhile_upt_first [OF word_nonzero_bit [OF assms]]
  by (simp_all add: trailing_zeros_def)

lemma count_ones_card: "count_ones w = card {i. i < 64 \<and> bit w i}"
  unfolding count_ones_def
  by (subst distinct_card [symmetric]) (auto intro: arg_cong [where f = card])

subsection \<open>Lists of indices\<close>

lemma upt_split_prefix:
  assumes "[0..<n] = xs @ w # ys"
  shows "xs = [0..<w]"
proof -
  have len: "length xs < n" using arg_cong [OF assms, of length] by simp
  have "w = [0..<n] ! length xs" by (simp add: assms)
  with len have w: "w = length xs" by simp
  have "xs = take (length xs) [0..<n]" by (simp add: assms)
  with w len show ?thesis by (simp add: take_upt)
qed

subsection \<open>Single-bit updates\<close>

text \<open>The simplifier turns \<open>push_bit k 1\<close> (Rust's \<^verbatim>\<open>1u64 << k\<close>) into \<open>2 ^ k\<close>,
  so the facts are stated over the latter.\<close>

lemma bit_exp_u64 [bit_simps]: "bit (2 ^ k :: u64) i \<longleftrightarrow> i = k \<and> k < 64"
  by (auto simp: bit_exp_iff)

lemma bit_or_exp [bit_simps]:
  "bit (w OR 2 ^ k) i \<longleftrightarrow> bit w i \<or> (i = k \<and> k < 64)" for w :: u64
  by (auto simp: bit_or_iff bit_exp_u64)

lemma bit_andnot_exp [bit_simps]:
  "bit (w AND NOT (2 ^ k)) i \<longleftrightarrow> bit w i \<and> i \<noteq> k" for w :: u64
  by (auto simp: bit_and_iff bit_not_iff bit_exp_u64 dest: bit_imp_le_length)

lemma and_exp_eq_0 [bit_simps]:
  fixes w :: u64
  assumes "k < 64"
  shows "w AND 2 ^ k = 0 \<longleftrightarrow> \<not> bit w k"
proof -
  have bit: "bit (w AND 2 ^ k) i \<longleftrightarrow> i = k \<and> bit w k" for i
    using assms by (auto simp: bit_and_iff bit_exp_u64)
  show ?thesis
  proof
    assume "w AND 2 ^ k = 0"
    then show "\<not> bit w k" using bit [of k] by simp
  next
    assume "\<not> bit w k"
    then show "w AND 2 ^ k = 0" by (intro bit_word_eqI) (simp add: bit)
  qed
qed

subsection \<open>Little-endian reads\<close>

text \<open>\<^verbatim>\<open>core::ptr::read_unaligned\<close> on a byte buffer: \<open>n\<close> bytes from offset
  \<open>off\<close>, least significant byte first.\<close>

definition le_nat :: "u8 list \<Rightarrow> nat \<Rightarrow> nat \<Rightarrow> nat" where
  "le_nat bs off n = horner_sum unat 256 (take n (drop off bs))"

definition read_u32 :: "u8 list \<Rightarrow> nat \<Rightarrow> u32" where
  "read_u32 bs off = of_nat (le_nat bs off 4)"

definition read_u64 :: "u8 list \<Rightarrow> nat \<Rightarrow> u64" where
  "read_u64 bs off = of_nat (le_nat bs off 8)"

text \<open>The inverse direction, used to state what a buffer written by the firmware decodes to.\<close>

fun le_bytes :: "nat \<Rightarrow> nat \<Rightarrow> u8 list" where
  "le_bytes 0 v = []"
| "le_bytes (Suc n) v = of_nat (v mod 256) # le_bytes n (v div 256)"

lemma length_le_bytes [simp]: "length (le_bytes n v) = n"
  by (induction n arbitrary: v) simp_all

lemma horner_sum_le_bytes: "horner_sum unat 256 (le_bytes n v) = v mod 256 ^ n"
proof (induction n arbitrary: v)
  case (Suc n)
  have "v mod (256 * 256 ^ n) = 256 * (v div 256 mod 256 ^ n) + v mod 256"
    by (rule mod_mult2_eq)
  with Suc.IH [of "v div 256"] show ?case
    by (simp add: horner_sum_simps unat_of_nat take_bit_eq_mod)
qed simp

lemma le_nat_at:
  assumes "drop off bs = le_bytes n v @ rest" and "v < 256 ^ n"
  shows "le_nat bs off n = v"
  using assms by (simp add: le_nat_def horner_sum_le_bytes)

end
