(* ===== verification/Memory_Map.thy ===== *)
theory Memory_Map
  imports Prelude
begin

text \<open>
  The physical memory map (\<^verbatim>\<open>src/src/memory.rs\<close>): the UEFI memory descriptors, their
  classification and \<^verbatim>\<open>init_from_uefi\<close>, which decodes the raw descriptor buffer left by
  \<^verbatim>\<open>GetMemoryMap\<close> into at most 128 regions.  The table \<^verbatim>\<open>MEMORY_MAP\<close> is the record
  \<open>physical_memory_map\<close>; its fixed array is a list of length \<open>MAX_REGIONS\<close> of which the
  first \<open>region_count\<close> entries are live.
\<close>

abbreviation PAGE_SIZE :: u64 where
  "PAGE_SIZE \<equiv> 4096"

abbreviation PAGE_SIZE_nat :: nat where
  "PAGE_SIZE_nat \<equiv> 4096"

definition MAX_REGIONS :: nat where [kernel_consts]:
  "MAX_REGIONS = 128"

record efi_memory_descriptor =
  memory_type :: u32
  desc_pad :: u32
  desc_physical_start :: u64
  virtual_start :: u64
  number_of_pages :: u64
  attribute :: u64

definition EFI_DESCRIPTOR_BYTES :: nat where [kernel_consts]:
  "EFI_DESCRIPTOR_BYTES = 40"

datatype memory_type_kind =
    Usable | LoaderCode | LoaderData | BootServicesCode | BootServicesData
  | RuntimeServicesCode | RuntimeServicesData | AcpiReclaim | AcpiNvs | Mmio | Reserved

fun memory_type_name :: "memory_type_kind \<Rightarrow> string" where
  "memory_type_name Usable = ''USABLE''"
| "memory_type_name LoaderCode = ''LOADER_CODE''"
| "memory_type_name LoaderData = ''LOADER_DATA''"
| "memory_type_name BootServicesCode = ''BOOT_SERVICES_CODE''"
| "memory_type_name BootServicesData = ''BOOT_SERVICES_DATA''"
| "memory_type_name RuntimeServicesCode = ''RUNTIME_CODE''"
| "memory_type_name RuntimeServicesData = ''RUNTIME_DATA''"
| "memory_type_name AcpiReclaim = ''ACPI_RECLAIM''"
| "memory_type_name AcpiNvs = ''ACPI_NVS''"
| "memory_type_name Mmio = ''MMIO''"
| "memory_type_name Reserved = ''RESERVED''"

record memory_region =
  physical_start :: u64
  physical_end :: u64
  page_count :: u64
  region_type :: memory_type_kind
  is_usable :: bool

definition memory_region_empty :: memory_region where
  "memory_region_empty = \<lparr>physical_start = 0, physical_end = 0, page_count = 0,
     region_type = Reserved, is_usable = False\<rparr>"

definition region_size_bytes :: "memory_region \<Rightarrow> nat" where
  "region_size_bytes r = saturating_sub (unat (physical_end r)) (unat (physical_start r))"

record physical_memory_map =
  mm_regions :: "memory_region list"
  mm_region_count :: nat
  total_memory_bytes :: u64
  usable_memory_bytes :: u64
  reserved_memory_bytes :: u64

definition physical_memory_map_new :: physical_memory_map where
  "physical_memory_map_new = \<lparr>mm_regions = replicate MAX_REGIONS memory_region_empty,
     mm_region_count = 0, total_memory_bytes = 0, usable_memory_bytes = 0,
     reserved_memory_bytes = 0\<rparr>"

text \<open>The regions a reader of the table sees (every loop runs over \<^verbatim>\<open>0..region_count\<close>).\<close>

definition live_regions :: "physical_memory_map \<Rightarrow> memory_region list" where
  "live_regions m = take (mm_region_count m) (mm_regions m)"

subsection \<open>Decoding one descriptor\<close>

definition read_descriptor :: "u8 list \<Rightarrow> nat \<Rightarrow> efi_memory_descriptor" where
  "read_descriptor raw off = \<lparr>memory_type = read_u32 raw off, desc_pad = read_u32 raw (off + 4),
     desc_physical_start = read_u64 raw (off + 8), virtual_start = read_u64 raw (off + 16),
     number_of_pages = read_u64 raw (off + 24), attribute = read_u64 raw (off + 32)\<rparr>"

definition classify :: "u32 \<Rightarrow> memory_type_kind \<times> bool" where
  "classify t =
     (if t = 7 then (Usable, True)
      else if t = 1 then (LoaderCode, False)
      else if t = 2 then (LoaderData, False)
      else if t = 3 then (BootServicesCode, False)
      else if t = 4 then (BootServicesData, False)
      else if t = 5 then (RuntimeServicesCode, False)
      else if t = 6 then (RuntimeServicesData, False)
      else if t = 9 then (AcpiReclaim, False)
      else if t = 10 then (AcpiNvs, False)
      else if t = 11 \<or> t = 12 then (Mmio, False)
      else (Reserved, False))"

text \<open>The body of the loop after the bounds checks: a descriptor with no pages, or whose
  length or end overflows, is skipped (\<^verbatim>\<open>continue\<close>).\<close>

definition region_of_descriptor :: "efi_memory_descriptor \<Rightarrow> memory_region option" where
  "region_of_descriptor d =
     (if number_of_pages d = 0 then None
      else case checked_mul (number_of_pages d) PAGE_SIZE of
          None \<Rightarrow> None
        | Some len \<Rightarrow> (case checked_add (desc_physical_start d) len of
              None \<Rightarrow> None
            | Some end_addr \<Rightarrow>
                let (ty, usable) = classify (memory_type d)
                in Some \<lparr>physical_start = desc_physical_start d, physical_end = end_addr,
                     page_count = number_of_pages d, region_type = ty, is_usable = usable\<rparr>))"

definition push_region :: "memory_region \<Rightarrow> physical_memory_map \<Rightarrow> physical_memory_map" where
  "push_region r m =
     (let len = page_count r * PAGE_SIZE;
          m1 = m\<lparr>mm_regions := (mm_regions m)[mm_region_count m := r],
                 mm_region_count := mm_region_count m + 1,
                 total_memory_bytes := total_memory_bytes m + len\<rparr>
      in if is_usable r
         then m1\<lparr>usable_memory_bytes := usable_memory_bytes m1 + len\<rparr>
         else m1\<lparr>reserved_memory_bytes := reserved_memory_bytes m1 + len\<rparr>)"

fun parse_descriptors ::
    "u8 list \<Rightarrow> nat \<Rightarrow> nat \<Rightarrow> nat \<Rightarrow> physical_memory_map \<Rightarrow> physical_memory_map" where
  "parse_descriptors raw descriptor_size 0 current_offset m = m"
| "parse_descriptors raw descriptor_size (Suc n) current_offset m =
     (if current_offset + EFI_DESCRIPTOR_BYTES > length raw then m
      else if mm_region_count m \<ge> MAX_REGIONS then m
      else
        let desc = read_descriptor raw current_offset;
            next_offset = current_offset + descriptor_size
        in case region_of_descriptor desc of
             None \<Rightarrow> parse_descriptors raw descriptor_size n next_offset m
           | Some r \<Rightarrow> parse_descriptors raw descriptor_size n next_offset (push_region r m))"

definition init_from_uefi ::
    "u8 list \<Rightarrow> nat \<Rightarrow> nat \<Rightarrow> physical_memory_map \<Rightarrow> physical_memory_map" where
  "init_from_uefi raw descriptor_size descriptor_count m =
     parse_descriptors raw descriptor_size descriptor_count 0
       (m\<lparr>mm_region_count := 0, total_memory_bytes := 0, usable_memory_bytes := 0,
          reserved_memory_bytes := 0\<rparr>)"

subsection \<open>The table stays well formed\<close>

definition region_ok :: "memory_region \<Rightarrow> bool" where
  "region_ok r \<longleftrightarrow> 0 < unat (page_count r)
     \<and> unat (physical_end r) = unat (physical_start r) + unat (page_count r) * 4096
     \<and> (is_usable r \<longleftrightarrow> region_type r = Usable)"

definition sum_bytes :: "memory_region list \<Rightarrow> u64" where
  "sum_bytes rs = sum_list (map (\<lambda>r. page_count r * PAGE_SIZE) rs)"

definition memory_map_ok :: "physical_memory_map \<Rightarrow> bool" where
  "memory_map_ok m \<longleftrightarrow> length (mm_regions m) = MAX_REGIONS \<and> mm_region_count m \<le> MAX_REGIONS
     \<and> (\<forall>r \<in> set (live_regions m). region_ok r)
     \<and> total_memory_bytes m = sum_bytes (live_regions m)
     \<and> usable_memory_bytes m = sum_bytes (filter is_usable (live_regions m))
     \<and> reserved_memory_bytes m = sum_bytes (filter (\<lambda>r. \<not> is_usable r) (live_regions m))"

lemma classify_usable: "classify t = (k, u) \<Longrightarrow> u \<longleftrightarrow> k = Usable"
  by (auto simp: classify_def split: if_splits)

lemma region_of_descriptor_ok: "region_of_descriptor d = Some r \<Longrightarrow> region_ok r"
  by (auto simp: region_of_descriptor_def region_ok_def unat_gt_0 split: if_splits option.splits
      prod.splits dest!: checked_mul_SomeD checked_add_SomeD dest: classify_usable)

lemma live_push_region:
  assumes "length (mm_regions m) = MAX_REGIONS" and "mm_region_count m < MAX_REGIONS"
  shows "live_regions (push_region r m) = live_regions m @ [r]"
  using assms
  by (auto simp: live_regions_def push_region_def Let_def take_Suc_conv_app_nth)

lemma push_region_ok:
  assumes "memory_map_ok m" and "mm_region_count m < MAX_REGIONS" and "region_ok r"
  shows "memory_map_ok (push_region r m)"
proof -
  have live: "live_regions (push_region r m) = live_regions m @ [r]"
    using assms by (intro live_push_region) (auto simp: memory_map_ok_def)
  show ?thesis
    using assms unfolding memory_map_ok_def live
    by (auto simp: push_region_def Let_def sum_bytes_def)
qed

lemma parse_descriptors_ok:
  "memory_map_ok m \<Longrightarrow> memory_map_ok (parse_descriptors raw dsize n off m)"
proof (induction raw dsize n off m rule: parse_descriptors.induct)
  case (2 raw dsize n off m)
  then show ?case
    by (auto simp: Let_def push_region_ok region_of_descriptor_ok split: option.splits)
qed simp

lemma memory_map_ok_reset:
  "length (mm_regions m) = MAX_REGIONS \<Longrightarrow>
     memory_map_ok (m\<lparr>mm_region_count := 0, total_memory_bytes := 0, usable_memory_bytes := 0,
       reserved_memory_bytes := 0\<rparr>)"
  by (simp add: memory_map_ok_def live_regions_def sum_bytes_def)

lemma sum_bytes_split:
  "sum_bytes rs = sum_bytes (filter P rs) + sum_bytes (filter (\<lambda>r. \<not> P r) rs)"
  by (induction rs) (simp_all add: sum_bytes_def)

subsection \<open>Decoding is the inverse of the firmware's layout\<close>

text \<open>The bytes the firmware writes for one descriptor: the six fields of
  \<^verbatim>\<open>EfiMemoryDescriptor\<close> in order, then padding up to the descriptor size it reports.\<close>

definition encode_descriptor :: "nat \<Rightarrow> efi_memory_descriptor \<Rightarrow> u8 list" where
  "encode_descriptor dsize d =
     le_bytes 4 (unat (memory_type d)) @ le_bytes 4 (unat (desc_pad d))
     @ le_bytes 8 (unat (desc_physical_start d)) @ le_bytes 8 (unat (virtual_start d))
     @ le_bytes 8 (unat (number_of_pages d)) @ le_bytes 8 (unat (attribute d))
     @ replicate (dsize - EFI_DESCRIPTOR_BYTES) 0"

lemma length_encode_descriptor:
  "EFI_DESCRIPTOR_BYTES \<le> dsize \<Longrightarrow> length (encode_descriptor dsize d) = dsize"
  by (simp add: encode_descriptor_def kernel_consts)

lemma unat_u32_less: "unat (w :: u32) < 256 ^ 4"
  using unsigned_less [of w, where ?'a = nat] by simp

lemma unat_u64_less_bytes: "unat (w :: u64) < 256 ^ 8"
  using unat_u64_less [of w] by simp

lemma read_u32_at: "drop off bs = le_bytes 4 (unat w) @ rest \<Longrightarrow> read_u32 bs off = w"
  by (simp add: read_u32_def le_nat_at [OF _ unat_u32_less])

lemma read_u64_at: "drop off bs = le_bytes 8 (unat w) @ rest \<Longrightarrow> read_u64 bs off = w"
  by (simp add: read_u64_def le_nat_at [OF _ unat_u64_less_bytes])

lemma read_encoded_descriptor:
  assumes "drop off raw = encode_descriptor dsize d @ rest"
  shows "read_descriptor raw off = d"
proof -
  have at: "drop (off + k) raw = drop k (encode_descriptor dsize d @ rest)" for k
    by (simp flip: assms add: add.commute)
  have "read_u32 raw off = memory_type d"
    by (rule read_u32_at) (simp add: assms encode_descriptor_def)
  moreover have "read_u32 raw (off + 4) = desc_pad d"
    by (rule read_u32_at) (simp add: at encode_descriptor_def)
  moreover have "read_u64 raw (off + 8) = desc_physical_start d"
    by (rule read_u64_at) (simp add: at encode_descriptor_def)
  moreover have "read_u64 raw (off + 16) = virtual_start d"
    by (rule read_u64_at) (simp add: at encode_descriptor_def)
  moreover have "read_u64 raw (off + 24) = number_of_pages d"
    by (rule read_u64_at) (simp add: at encode_descriptor_def)
  moreover have "read_u64 raw (off + 32) = attribute d"
    by (rule read_u64_at) (simp add: at encode_descriptor_def)
  ultimately show ?thesis by (simp add: read_descriptor_def)
qed

lemma parse_encoded:
  assumes "EFI_DESCRIPTOR_BYTES \<le> dsize" and "length (mm_regions m) = MAX_REGIONS"
    and "mm_region_count m \<le> MAX_REGIONS"
    and "drop off raw = concat (map (encode_descriptor dsize) ds)" and "off \<le> length raw"
  shows "live_regions (parse_descriptors raw dsize (length ds) off m) =
    take MAX_REGIONS (live_regions m @ List.map_filter region_of_descriptor ds)"
  using assms
proof (induction ds arbitrary: off m)
  case Nil
  then show ?case by (simp add: List.map_filter_simps live_regions_def)
next
  case (Cons d ds)
  have len: "length (live_regions m) = mm_region_count m"
    using Cons.prems by (simp add: live_regions_def)
  have fits: "off + EFI_DESCRIPTOR_BYTES \<le> length raw"
    using arg_cong [OF Cons.prems(4), of length] Cons.prems(1,5)
    by (simp add: length_encode_descriptor)
  have read: "read_descriptor raw off = d"
    using Cons.prems(4) by (intro read_encoded_descriptor) simp
  have next_off: "drop (off + dsize) raw = concat (map (encode_descriptor dsize) ds)"
    using arg_cong [OF Cons.prems(4), of "drop dsize"] Cons.prems(1)
    by (simp add: length_encode_descriptor add.commute)
  have le: "off + dsize \<le> length raw"
    using arg_cong [OF Cons.prems(4), of length] Cons.prems(1,5)
    by (simp add: length_encode_descriptor)
  show ?case
  proof (cases "mm_region_count m < MAX_REGIONS")
    case False
    with Cons.prems fits len show ?thesis by (simp add: Let_def)
  next
    case True
    let ?m = "case region_of_descriptor d of None \<Rightarrow> m | Some r \<Rightarrow> push_region r m"
    have live: "live_regions ?m = live_regions m @ List.map_filter region_of_descriptor [d]"
      using Cons.prems(2) True
      by (simp add: live_push_region List.map_filter_simps split: option.split)
    have shape: "length (mm_regions ?m) = MAX_REGIONS" "mm_region_count ?m \<le> MAX_REGIONS"
      using Cons.prems(2) True by (auto simp: push_region_def Let_def split: option.split)
    have "parse_descriptors raw dsize (length (d # ds)) off m =
        parse_descriptors raw dsize (length ds) (off + dsize) ?m"
      using fits True read by (simp add: Let_def split: option.split)
    moreover have "List.map_filter region_of_descriptor (d # ds) =
        List.map_filter region_of_descriptor [d] @ List.map_filter region_of_descriptor ds"
      by (simp add: List.map_filter_simps split: option.split)
    ultimately show ?thesis
      using Cons.IH [OF Cons.prems(1) shape next_off le] live by (simp only: append_assoc)
  qed
qed

subsection \<open>Properties\<close>

text \<open>Whatever bytes the firmware leaves in the buffer, \<^verbatim>\<open>init_from_uefi\<close> builds a well-formed
  table: at most 128 regions, each with a nonempty page range whose end does not overflow and
  marked usable exactly when it is conventional memory, and byte totals that are the sums over
  the usable, the reserved and all regions (so total = usable + reserved).\<close>

theorem init_from_uefi_well_formed:
  fixes raw :: "u8 list" and descriptor_size descriptor_count :: nat
  assumes "length (mm_regions m) = MAX_REGIONS"
  defines "m' \<equiv> init_from_uefi raw descriptor_size descriptor_count m"
  shows "memory_map_ok m' \<and>
    total_memory_bytes m' = usable_memory_bytes m' + reserved_memory_bytes m'"
proof -
  have "memory_map_ok m'"
    unfolding m'_def init_from_uefi_def
    by (rule parse_descriptors_ok [OF memory_map_ok_reset [OF assms(1)]])
  then show ?thesis
    using sum_bytes_split [of "live_regions m'" is_usable] by (simp add: memory_map_ok_def)
qed

text \<open>Decoding inverts the firmware's layout: on a buffer holding descriptors of any reported
  size of at least 40 bytes, the live regions are the accepted descriptors in order (those with
  pages and without overflow), cut at 128.\<close>

theorem init_from_uefi_decodes:
  assumes "EFI_DESCRIPTOR_BYTES \<le> descriptor_size" and "length (mm_regions m) = MAX_REGIONS"
  shows "live_regions (init_from_uefi (concat (map (encode_descriptor descriptor_size) ds))
      descriptor_size (length ds) m) =
    take MAX_REGIONS (List.map_filter region_of_descriptor ds)"
  unfolding init_from_uefi_def
  by (subst parse_encoded) (use assms in \<open>simp_all add: live_regions_def\<close>)

subsection \<open>Witnesses\<close>

theorem init_from_uefi_well_formed_witness:
  "length (mm_regions physical_memory_map_new) = MAX_REGIONS
     \<and> memory_map_ok (init_from_uefi [1, 2, 3] 48 7 physical_memory_map_new)"
  using init_from_uefi_well_formed [of physical_memory_map_new "[1, 2, 3]" 48 7]
  by (simp add: physical_memory_map_new_def)

theorem init_from_uefi_decodes_witness:
  "live_regions (init_from_uefi (concat (map (encode_descriptor 48)
      [\<lparr>memory_type = 7, desc_pad = 0, desc_physical_start = 0x1000, virtual_start = 0,
        number_of_pages = 2, attribute = 15\<rparr>])) 48 1 physical_memory_map_new) =
    [\<lparr>physical_start = 0x1000, physical_end = 0x3000, page_count = 2, region_type = Usable,
      is_usable = True\<rparr>]"
proof -
  have "EFI_DESCRIPTOR_BYTES \<le> 48" and "length (mm_regions physical_memory_map_new) = MAX_REGIONS"
    by (simp_all add: kernel_consts physical_memory_map_new_def)
  from init_from_uefi_decodes [OF this, of "[\<lparr>memory_type = 7, desc_pad = 0,
      desc_physical_start = 0x1000, virtual_start = 0, number_of_pages = 2, attribute = 15\<rparr>]"]
  show ?thesis
    by (simp add: List.map_filter_simps region_of_descriptor_def checked_mul_def checked_add_def
        classify_def MAX_REGIONS_def)
qed

end
