(* ===== verification/Frame_Allocator.thy ===== *)
theory Frame_Allocator
  imports Prelude
begin

text \<open>
  The interface every client of the physical allocator relies on: the virtual memory manager
  takes page-table frames and backing frames from it, the heap takes the frames of an
  expansion, an address space takes its root.  The locale states what the provider promises
  about the set of free frames; the client lemmas cover the loop
  "allocate \<open>n\<close> frames or give back what was taken", which the kernel runs in
  \<^verbatim>\<open>vmm::allocate_and_map_region\<close> and \<^verbatim>\<open>heap::expand_heap\<close>.
\<close>

fun release_all :: "('f \<Rightarrow> 's \<Rightarrow> 'r \<times> 's) \<Rightarrow> 'f list \<Rightarrow> 's \<Rightarrow> 's" where
  "release_all release [] s = s"
| "release_all release (f # fs) s = release_all release fs (snd (release f s))"

fun alloc_loop ::
    "('s \<Rightarrow> 'f option \<times> 's) \<Rightarrow> ('f \<Rightarrow> 's \<Rightarrow> 'r \<times> 's) \<Rightarrow> nat \<Rightarrow> 'f list \<Rightarrow> 's \<Rightarrow> 'f list option \<times> 's"
  where
  "alloc_loop alloc release 0 acc s = (Some acc, s)"
| "alloc_loop alloc release (Suc n) acc s =
     (case alloc s of
        (Some f, s') \<Rightarrow> alloc_loop alloc release n (acc @ [f]) s'
      | (None, s') \<Rightarrow> (None, release_all release acc s'))"

locale frame_allocator =
  fixes alloc :: "'s \<Rightarrow> 'f option \<times> 's"
    and release :: "'f \<Rightarrow> 's \<Rightarrow> ('e + unit) \<times> 's"
    and frees :: "'s \<Rightarrow> 'f set"
    and managed :: "'s \<Rightarrow> 'f set"
    and invar :: "'s \<Rightarrow> bool"
  assumes alloc_Some: "invar s \<Longrightarrow> alloc s = (Some f, s') \<Longrightarrow>
      f \<in> frees s \<and> frees s' = frees s - {f} \<and> managed s' = managed s \<and> invar s'"
    and alloc_None: "invar s \<Longrightarrow> alloc s = (None, s') \<Longrightarrow> frees s = {} \<and> s' = s"
    and release_ok: "invar s \<Longrightarrow> f \<in> managed s \<Longrightarrow> f \<notin> frees s \<Longrightarrow>
      fst (release f s) = Inr ()"
    and release_Inr: "invar s \<Longrightarrow> release f s = (Inr (), s') \<Longrightarrow>
      f \<in> managed s \<and> f \<notin> frees s \<and> frees s' = insert f (frees s) \<and> managed s' = managed s
      \<and> invar s'"
    and release_Inl: "release f s = (Inl e, s') \<Longrightarrow> s' = s"
    and frees_managed: "invar s \<Longrightarrow> frees s \<subseteq> managed s"
    and finite_managed: "finite (managed s)"
begin

lemma finite_frees: "invar s \<Longrightarrow> finite (frees s)"
  using frees_managed finite_managed by (blast intro: finite_subset)

lemma release_step:
  assumes "invar s" and "f \<in> managed s" and "f \<notin> frees s"
  shows "frees (snd (release f s)) = insert f (frees s)"
    and "managed (snd (release f s)) = managed s"
    and "invar (snd (release f s))"
proof -
  from release_ok [OF assms] have "release f s = (Inr (), snd (release f s))"
    by (metis prod.collapse)
  from release_Inr [OF assms(1) this]
  show "frees (snd (release f s)) = insert f (frees s)"
    and "managed (snd (release f s)) = managed s" and "invar (snd (release f s))"
    by simp_all
qed

lemma release_all_frees:
  assumes "invar s" and "distinct fs" and "set fs \<subseteq> managed s" and "set fs \<inter> frees s = {}"
  shows "frees (release_all release fs s) = frees s \<union> set fs
    \<and> managed (release_all release fs s) = managed s \<and> invar (release_all release fs s)"
  using assms
proof (induction fs arbitrary: s)
  case Nil
  then show ?case by simp
next
  case (Cons f fs)
  then have f: "f \<in> managed s" "f \<notin> frees s" by auto
  note step = release_step [OF Cons.prems(1) f]
  have "set fs \<inter> frees (snd (release f s)) = {}"
    using Cons.prems step(1) by auto
  with Cons.IH [OF step(3)] Cons.prems step show ?case by auto
qed

lemma release_all_invar:
  "invar s \<Longrightarrow> invar (release_all release fs s) \<and> managed (release_all release fs s) = managed s
     \<and> frees s \<subseteq> frees (release_all release fs s)"
proof (induction fs arbitrary: s)
  case (Cons f fs)
  have "invar (snd (release f s)) \<and> managed (snd (release f s)) = managed s
      \<and> frees s \<subseteq> frees (snd (release f s))"
  proof (cases "release f s")
    case (Pair r s')
    then show ?thesis
      using Cons.prems release_Inr [of s f s'] release_Inl [of f s _ s'] by (cases r) auto
  qed
  with Cons.IH [of "snd (release f s)"] show ?case by auto
qed simp

lemma alloc_loop_Some:
  assumes "invar s" and "alloc_loop alloc release n acc s = (Some fs, s')"
  shows "\<exists>new. fs = acc @ new \<and> length new = n \<and> distinct new \<and> set new \<subseteq> frees s
    \<and> frees s' = frees s - set new \<and> managed s' = managed s \<and> invar s'"
  using assms
proof (induction n arbitrary: acc s)
  case 0
  then show ?case by (intro exI [of _ "[]"]) auto
next
  case (Suc n)
  then obtain f s1 where a: "alloc s = (Some f, s1)"
    and rest: "alloc_loop alloc release n (acc @ [f]) s1 = (Some fs, s')"
    by (auto split: prod.splits option.splits)
  note f = alloc_Some [OF Suc.prems(1) a]
  from Suc.IH [OF _ rest] f obtain new where
    new: "fs = (acc @ [f]) @ new" "length new = n" "distinct new" "set new \<subseteq> frees s1"
      "frees s' = frees s1 - set new" "managed s' = managed s1" "invar s'"
    by blast
  then show ?case using f by (intro exI [of _ "f # new"]) auto
qed

lemma alloc_loop_None:
  assumes "invar s" and "alloc_loop alloc release n acc s = (None, s')"
    and "distinct acc" and "set acc \<subseteq> managed s" and "set acc \<inter> frees s = {}"
  shows "frees s' = frees s \<union> set acc \<and> managed s' = managed s \<and> invar s' \<and> card (frees s) < n"
  using assms
proof (induction n arbitrary: acc s)
  case 0
  then show ?case by simp
next
  case (Suc n)
  show ?case
  proof (cases "alloc s")
    case (Pair r s1)
    show ?thesis
    proof (cases r)
      case None
      with Pair have a: "alloc s = (None, s1)" by simp
      with Suc.prems have "s' = release_all release acc s" using alloc_None [OF Suc.prems(1) a] by simp
      with release_all_frees [OF Suc.prems(1,3,4,5)] alloc_None [OF Suc.prems(1) a]
      show ?thesis by simp
    next
      case (Some f)
      with Pair have a: "alloc s = (Some f, s1)" by simp
      note f = alloc_Some [OF Suc.prems(1) a]
      have "f \<in> managed s" using f frees_managed Suc.prems(1) by blast
      moreover from a Suc.prems(2) have "alloc_loop alloc release n (acc @ [f]) s1 = (None, s')"
        by simp
      ultimately have "frees s' = frees s1 \<union> set (acc @ [f]) \<and> managed s' = managed s1
          \<and> invar s' \<and> card (frees s1) < n"
        using Suc.prems f by (intro Suc.IH) auto
      with f card_Diff_singleton [of f "frees s"] finite_frees [OF Suc.prems(1)]
      show ?thesis by (auto simp: card_gt_0_iff)
    qed
  qed
qed

lemma alloc_loop_progress:
  assumes "invar s" and "n \<le> card (frees s)"
  shows "\<exists>fs s'. alloc_loop alloc release n [] s = (Some fs, s')"
proof (cases "alloc_loop alloc release n [] s")
  case (Pair r s')
  then show ?thesis
    using alloc_loop_None [OF assms(1), of n "[]" s'] assms(2) by (cases r) auto
qed

end

end
