(* ===== verification/Pmm.thy ===== *)
theory Pmm
  imports Memory_Map Frame_Allocator
begin

text \<open>
  The physical page allocator (\<^verbatim>\<open>src/src/pmm.rs\<close>): a bitmap of 64-bit words, one bit per
  4 KiB frame (1 = used), with running statistics.  \<^verbatim>\<open>BITMAP\<close> and \<^verbatim>\<open>STATS\<close> are the two
  fields of the record \<open>pmm\<close>.  Each operation runs inside \<^verbatim>\<open>platform::without_interrupts\<close>
  and is therefore one atomic state transformer.
\<close>

definition MAX_MANAGED_PAGES :: nat where [kernel_consts]:
  "MAX_MANAGED_PAGES = 1048576"

definition BITMAP_WORDS :: nat where [kernel_consts]:
  "BITMAP_WORDS = MAX_MANAGED_PAGES div 64"

text \<open>\<^verbatim>\<open>PhysPage\<close> is a transparent wrapper of the frame's physical address.\<close>

type_synonym phys_page = u64

definition phys_page_from_addr :: "u64 \<Rightarrow> phys_page option" where
  "phys_page_from_addr a = (if a mod PAGE_SIZE = 0 then Some a else None)"

definition page_number :: "phys_page \<Rightarrow> nat" where
  "page_number p = unat (p div PAGE_SIZE)"

definition from_page_number :: "nat \<Rightarrow> phys_page" where
  "from_page_number n = of_nat n * PAGE_SIZE"

datatype page_free_error = UnalignedAddress | OutOfBounds | DoubleFree | ReservedMemory

record allocator_stats =
  total_managed_pages :: nat
  usable_pages :: nat
  free_pages :: nat
  used_pages :: nat

record pmm =
  bitmap :: "u64 list"
  pmm_stats :: allocator_stats

abbreviation pmm_total :: "pmm \<Rightarrow> nat" where
  "pmm_total p \<equiv> total_managed_pages (pmm_stats p)"

abbreviation pmm_free :: "pmm \<Rightarrow> nat" where
  "pmm_free p \<equiv> free_pages (pmm_stats p)"

abbreviation pmm_used :: "pmm \<Rightarrow> nat" where
  "pmm_used p \<equiv> used_pages (pmm_stats p)"

subsection \<open>Initialisation from the memory map\<close>

definition highest_addr :: "memory_region list \<Rightarrow> u64" where
  "highest_addr rs = fold (\<lambda>r h. if physical_end r > h then physical_end r else h) rs 0"

text \<open>The body of the inner loop of \<^verbatim>\<open>init\<close>: page 0 is never freed, pages beyond the
  managed range are ignored.\<close>

definition mark_page_free :: "nat \<Rightarrow> pmm \<Rightarrow> pmm" where
  "mark_page_free page_idx p =
     (if page_idx = 0 then p
      else if page_idx < pmm_total p then
        (let word_idx = page_idx div 64; bit_idx = page_idx mod 64; s = pmm_stats p
         in p\<lparr>bitmap := (bitmap p)[word_idx := bitmap p ! word_idx AND NOT (push_bit bit_idx 1)],
              pmm_stats := s\<lparr>free_pages := free_pages s + 1,
                             usable_pages := usable_pages s + 1\<rparr>\<rparr>)
      else p)"

definition region_pages :: "memory_region \<Rightarrow> nat list" where
  "region_pages r =
     [unat (physical_start r div PAGE_SIZE)..<unat (physical_end r div PAGE_SIZE)]"

definition mark_region_free :: "memory_region \<Rightarrow> pmm \<Rightarrow> pmm" where
  "mark_region_free r p = (if is_usable r then fold mark_page_free (region_pages r) p else p)"

definition pmm_init :: "physical_memory_map \<Rightarrow> pmm" where
  "pmm_init mm =
     (let regions = live_regions mm;
          max_pages = unat (highest_addr regions div PAGE_SIZE);
          total = (if max_pages > MAX_MANAGED_PAGES then MAX_MANAGED_PAGES else max_pages);
          p0 = \<lparr>bitmap = replicate BITMAP_WORDS (NOT 0),
                pmm_stats = \<lparr>total_managed_pages = total, usable_pages = 0, free_pages = 0,
                             used_pages = 0\<rparr>\<rparr>;
          p1 = fold mark_region_free regions p0;
          s = pmm_stats p1
      in p1\<lparr>pmm_stats := s\<lparr>used_pages :=
              saturating_sub (total_managed_pages s) (free_pages s)\<rparr>\<rparr>)"

subsection \<open>Allocation and release\<close>

text \<open>The search loop of \<^verbatim>\<open>allocate_physical_page\<close>: the first word with a clear bit whose
  lowest clear bit denotes a managed page.\<close>

fun scan_words :: "pmm \<Rightarrow> nat list \<Rightarrow> (nat \<times> nat) option" where
  "scan_words p [] = None"
| "scan_words p (w # ws) =
     (if bitmap p ! w \<noteq> NOT 0 then
        (let bit_idx = trailing_zeros (NOT (bitmap p ! w)); page_idx = w * 64 + bit_idx
         in if page_idx < pmm_total p then Some (w, bit_idx) else scan_words p ws)
      else scan_words p ws)"

definition words_to_scan :: "pmm \<Rightarrow> nat" where
  "words_to_scan p = (pmm_total p + 63) div 64"

definition allocate_physical_page :: "pmm \<Rightarrow> phys_page option \<times> pmm" where
  "allocate_physical_page p =
     (case scan_words p [0..<words_to_scan p] of
        None \<Rightarrow> (None, p)
      | Some (w, bit_idx) \<Rightarrow>
          (let s = pmm_stats p
           in (Some (from_page_number (w * 64 + bit_idx)),
               p\<lparr>bitmap := (bitmap p)[w := bitmap p ! w OR push_bit bit_idx 1],
                 pmm_stats := s\<lparr>free_pages := saturating_sub (free_pages s) 1,
                                used_pages := saturating_add (used_pages s) 1\<rparr>\<rparr>)))"

definition free_physical_page :: "phys_page \<Rightarrow> pmm \<Rightarrow> (page_free_error + unit) \<times> pmm" where
  "free_physical_page page p =
     (if page mod PAGE_SIZE \<noteq> 0 then (Inl UnalignedAddress, p)
      else
        let page_idx = page_number page
        in if page_idx = 0 then (Inl ReservedMemory, p)
           else if page_idx \<ge> pmm_total p then (Inl OutOfBounds, p)
           else
             let word_idx = page_idx div 64; bit_idx = page_idx mod 64
             in if bitmap p ! word_idx AND push_bit bit_idx 1 = 0 then (Inl DoubleFree, p)
                else
                  let s = pmm_stats p
                  in (Inr (),
                      p\<lparr>bitmap := (bitmap p)[word_idx :=
                           bitmap p ! word_idx AND NOT (push_bit bit_idx 1)],
                        pmm_stats := s\<lparr>free_pages := saturating_add (free_pages s) 1,
                                       used_pages := saturating_sub (used_pages s) 1\<rparr>\<rparr>))"

subsection \<open>The allocator's own consistency check\<close>

datatype pmm_violation = AccountingMismatch | PageZeroFree | FreeBitCountMismatch

definition word_free_bits :: "pmm \<Rightarrow> nat \<Rightarrow> nat" where
  "word_free_bits p w =
     (let word = bitmap p ! w
      in if w = words_to_scan p - 1 \<and> pmm_total p mod 64 \<noteq> 0 then
           (let valid_bits = pmm_total p mod 64; mask = push_bit valid_bits 1 - 1;
                valid_word = word OR NOT mask
            in count_ones (NOT valid_word))
         else count_ones (NOT word))"

definition pmm_verify_invariants :: "pmm \<Rightarrow> pmm_violation + unit" where
  "pmm_verify_invariants p =
     (if pmm_used p + pmm_free p \<noteq> pmm_total p then Inl AccountingMismatch
      else if bitmap p ! 0 AND 1 = 0 then Inl PageZeroFree
      else if fold (\<lambda>w actual_free. actual_free + word_free_bits p w) [0..<words_to_scan p] 0
                \<noteq> pmm_free p then Inl FreeBitCountMismatch
      else Inr ())"

subsection \<open>The boot-time self-test\<close>

text \<open>\<^verbatim>\<open>test_pmm_hardened\<close>: each failed check logs its message and halts the CPU, which is
  the value \<open>Inl\<close> of the message; the state is threaded through every call.\<close>

definition test_pmm_errors :: "nat \<Rightarrow> phys_page \<Rightarrow> pmm \<Rightarrow> (string + unit) \<times> pmm" where
  "test_pmm_errors initial_free page3 p6 =
     (case free_physical_page page3 p6 of
        (Inl DoubleFree, p7) \<Rightarrow>
          (case free_physical_page 0 p7 of
             (Inl ReservedMemory, p8) \<Rightarrow>
               (case free_physical_page 0xFFFFFFFFFFFFF000 p8 of
                  (Inl OutOfBounds, p9) \<Rightarrow>
                    (case free_physical_page 0x1001 p9 of
                       (Inl UnalignedAddress, p10) \<Rightarrow>
                         (if initial_free \<noteq> pmm_free p10
                          then (Inl ''Memory leak in PMM self-test!'', p10)
                          else case pmm_verify_invariants p10 of
                                 Inl _ \<Rightarrow> (Inl ''Invariant check failed after test'', p10)
                               | Inr _ \<Rightarrow> (Inr (), p10))
                     | (_, p10) \<Rightarrow> (Inl ''Unaligned page free was not rejected!'', p10))
                | (_, p9) \<Rightarrow> (Inl ''Out of bounds page free was not rejected!'', p9))
           | (_, p8) \<Rightarrow> (Inl ''Freeing reserved page 0 was not rejected!'', p8))
      | (_, p7) \<Rightarrow> (Inl ''Double-free was not rejected!'', p7))"

definition test_pmm_reuse ::
    "nat \<Rightarrow> phys_page \<Rightarrow> phys_page \<Rightarrow> pmm \<Rightarrow> (string + unit) \<times> pmm" where
  "test_pmm_reuse initial_free page1 page2 p2 =
     (case free_physical_page page1 p2 of
        (Inl _, p3) \<Rightarrow> (Inl ''Freeing valid page failed'', p3)
      | (Inr _, p3) \<Rightarrow>
          (case allocate_physical_page p3 of
             (None, p4) \<Rightarrow> (Inl ''Re-allocation failed'', p4)
           | (Some page3, p4) \<Rightarrow>
               (if page3 \<noteq> page1 then (Inl ''First-fit reuse expected same page!'', p4)
                else
                  let p5 = snd (free_physical_page page2 p4);
                      p6 = snd (free_physical_page page3 p5)
                  in test_pmm_errors initial_free page3 p6)))"

definition test_pmm_hardened :: "pmm \<Rightarrow> (string + unit) \<times> pmm" where
  "test_pmm_hardened p =
     (case pmm_verify_invariants p of
        Inl _ \<Rightarrow> (Inl ''Invariant check failed before test'', p)
      | Inr _ \<Rightarrow>
          (case allocate_physical_page p of
             (None, p1) \<Rightarrow> (Inl ''Allocation failed on available pool'', p1)
           | (Some page1, p1) \<Rightarrow>
               (case allocate_physical_page p1 of
                  (None, p2) \<Rightarrow> (Inl ''Second allocation failed'', p2)
                | (Some page2, p2) \<Rightarrow>
                    (if page1 = page2 then (Inl ''Allocated identical physical pages!'', p2)
                     else if page1 mod PAGE_SIZE \<noteq> 0 \<or> page2 mod PAGE_SIZE \<noteq> 0
                     then (Inl ''Unaligned physical allocation address!'', p2)
                     else test_pmm_reuse (pmm_free p) page1 page2 p2))))"

subsection \<open>Which frames are free\<close>

definition page_used :: "pmm \<Rightarrow> nat \<Rightarrow> bool" where
  "page_used p i \<longleftrightarrow> bit (bitmap p ! (i div 64)) (i mod 64)"

definition free_frames :: "pmm \<Rightarrow> nat set" where
  "free_frames p = {i. i < pmm_total p \<and> \<not> page_used p i}"

definition pmm_shape :: "pmm \<Rightarrow> bool" where
  "pmm_shape p \<longleftrightarrow> length (bitmap p) = BITMAP_WORDS \<and> pmm_total p \<le> MAX_MANAGED_PAGES"

definition pmm_inv :: "pmm \<Rightarrow> bool" where
  "pmm_inv p \<longleftrightarrow> pmm_shape p \<and> page_used p 0
     \<and> pmm_free p = card (free_frames p) \<and> pmm_used p + pmm_free p = pmm_total p"

lemma finite_free_frames [simp]: "finite (free_frames p)"
  by (simp add: free_frames_def)

lemma pmm_shape_index: "pmm_shape p \<Longrightarrow> i < pmm_total p \<Longrightarrow> i div 64 < length (bitmap p)"
  by (auto simp: pmm_shape_def kernel_consts)

lemma pmm_shape_scan_index:
  "pmm_shape p \<Longrightarrow> w < words_to_scan p \<Longrightarrow> w < length (bitmap p)"
  by (auto simp: pmm_shape_def words_to_scan_def kernel_consts)

lemma bit_index_inj: "i div 64 = j div 64 \<and> i mod 64 = j mod 64 \<longleftrightarrow> i = (j :: nat)"
  by (metis div_mult_mod_eq)

lemma page_used_set:
  assumes "j div 64 < length (bitmap p)"
  shows "page_used (p\<lparr>bitmap := (bitmap p)[j div 64 := bitmap p ! (j div 64) OR 2 ^ (j mod 64)],
      pmm_stats := s\<rparr>) i \<longleftrightarrow> page_used p i \<or> i = j"
  using assms bit_index_inj [of i j]
  by (auto simp: page_used_def nth_list_update bit_simps)

lemma page_used_clear:
  assumes "j div 64 < length (bitmap p)"
  shows "page_used (p\<lparr>bitmap := (bitmap p)[j div 64 :=
      bitmap p ! (j div 64) AND NOT (2 ^ (j mod 64))], pmm_stats := s\<rparr>) i
      \<longleftrightarrow> page_used p i \<and> i \<noteq> j"
  using assms bit_index_inj [of i j]
  by (auto simp: page_used_def nth_list_update bit_simps)

subsection \<open>The search loop\<close>

lemma free_bit_of_word:
  fixes w :: u64
  assumes "w \<noteq> NOT 0"
  shows "trailing_zeros (NOT w) < 64" and "\<not> bit w (trailing_zeros (NOT w))"
    and "j < trailing_zeros (NOT w) \<Longrightarrow> bit w j"
proof -
  have nz: "NOT w \<noteq> 0" using assms by (metis bit.double_compl)
  show lt: "trailing_zeros (NOT w) < 64" by (rule trailing_zeros_less [OF nz])
  show "\<not> bit w (trailing_zeros (NOT w))"
    using bit_trailing_zeros [OF nz] by (simp add: bit_not_iff)
  show "bit w j" if "j < trailing_zeros (NOT w)"
    using not_bit_before_trailing_zeros [OF nz that] lt that by (simp add: bit_not_iff)
qed

lemma full_word_used: "bitmap p ! w = NOT 0 \<Longrightarrow> b < 64 \<Longrightarrow> page_used p (w * 64 + b)"
  by (simp add: page_used_def)

lemma scan_words_None:
  assumes "scan_words p ws = None" and "w \<in> set ws" and "b < 64" and "w * 64 + b < pmm_total p"
  shows "page_used p (w * 64 + b)"
  using assms
proof (induction p ws rule: scan_words.induct)
  case (2 p v ws)
  show ?case
  proof (cases "bitmap p ! v = NOT 0")
    case True
    with 2 full_word_used show ?thesis by auto
  next
    case False
    let ?b = "trailing_zeros (NOT (bitmap p ! v))"
    from False 2 have ge: "\<not> v * 64 + ?b < pmm_total p" and rest: "scan_words p ws = None"
      by (auto simp: Let_def split: if_splits)
    show ?thesis
    proof (cases "w = v")
      case True
      with ge 2 have "b < ?b" by simp
      with free_bit_of_word(3) [OF False] have "bit (bitmap p ! v) b" by blast
      with True 2 show ?thesis by (simp add: page_used_def)
    next
      case neq: False
      with 2 rest False ge show ?thesis by (auto simp: Let_def)
    qed
  qed
qed simp

lemma scan_words_Some_split:
  assumes "scan_words p ws = Some (w, b)"
  shows "\<exists>xs ys. ws = xs @ w # ys \<and> scan_words p xs = None \<and> bitmap p ! w \<noteq> NOT 0
    \<and> b = trailing_zeros (NOT (bitmap p ! w)) \<and> w * 64 + b < pmm_total p"
  using assms
proof (induction ws)
  case (Cons v ws)
  let ?b = "trailing_zeros (NOT (bitmap p ! v))"
  show ?case
  proof (cases "bitmap p ! v \<noteq> NOT 0 \<and> v * 64 + ?b < pmm_total p")
    case True
    with Cons.prems have "w = v" "b = ?b" by (auto simp: Let_def)
    with True show ?thesis by (intro exI [of _ "[]"] exI [of _ ws]) auto
  next
    case False
    with Cons.prems have rest: "scan_words p ws = Some (w, b)" by (auto simp: Let_def split: if_splits)
    with Cons.IH obtain xs ys where "ws = xs @ w # ys" and "scan_words p xs = None"
        and found: "bitmap p ! w \<noteq> NOT 0" "b = trailing_zeros (NOT (bitmap p ! w))"
        "w * 64 + b < pmm_total p" by blast
    with False have "v # ws = (v # xs) @ w # ys \<and> scan_words p (v # xs) = None"
      by (auto simp: Let_def)
    with found show ?thesis by blast
  qed
qed simp

text \<open>The scan from word 0 finds exactly the least free frame.\<close>

lemma scan_words_least:
  assumes "scan_words p [0..<words_to_scan p] = Some (w, b)"
  shows "w < words_to_scan p" and "b < 64" and "w * 64 + b \<in> free_frames p"
    and "i \<in> free_frames p \<Longrightarrow> w * 64 + b \<le> i"
proof -
  from scan_words_Some_split [OF assms] obtain xs ys where
    split: "[0..<words_to_scan p] = xs @ w # ys" "scan_words p xs = None"
      "bitmap p ! w \<noteq> NOT 0" "b = trailing_zeros (NOT (bitmap p ! w))"
      "w * 64 + b < pmm_total p" by blast
  note bits = free_bit_of_word [OF split(3), folded split(4)]
  from split(1) have "w \<in> set [0..<words_to_scan p]" by simp
  then show "w < words_to_scan p" by simp
  show "b < 64" by (rule bits(1))
  then show free: "w * 64 + b \<in> free_frames p"
    using bits(2) split(5) by (simp add: free_frames_def page_used_def)
  note xs = upt_split_prefix [OF split(1)]
  show "w * 64 + b \<le> i" if i: "i \<in> free_frames p"
  proof (rule ccontr)
    assume lt: "\<not> ?thesis"
    have "page_used p (i div 64 * 64 + i mod 64)"
    proof (cases "i div 64 = w")
      case True
      with lt have "i mod 64 < b" by (metis add_le_cancel_left div_mult_mod_eq not_le)
      with bits(3) True show ?thesis by (simp add: page_used_def)
    next
      case False
      with lt \<open>b < 64\<close> have "i div 64 < w" by (simp add: less_mult_imp_div_less)
      with i show ?thesis
        by (intro scan_words_None [OF split(2)]) (auto simp: xs free_frames_def)
    qed
    with i show False by (simp add: free_frames_def)
  qed
qed

lemma scan_words_exhausted:
  assumes "scan_words p [0..<words_to_scan p] = None"
  shows "free_frames p = {}"
proof -
  have "page_used p i" if "i < pmm_total p" for i
    using scan_words_None [OF assms, of "i div 64" "i mod 64"] that
    by (auto simp: words_to_scan_def)
  then show ?thesis by (auto simp: free_frames_def)
qed

subsection \<open>Every operation keeps the invariant\<close>

lemma allocate_physical_page_None:
  "allocate_physical_page p = (None, p') \<Longrightarrow> p' = p \<and> free_frames p = {}"
  by (auto simp: allocate_physical_page_def Let_def scan_words_exhausted
      split: option.splits prod.splits)

lemma allocate_physical_page_Some:
  assumes "pmm_shape p" and "allocate_physical_page p = (Some f, p')"
  obtains i where "f = from_page_number i" and "i \<in> free_frames p"
    and "\<And>j. j \<in> free_frames p \<Longrightarrow> i \<le> j"
    and "free_frames p' = free_frames p - {i}" and "pmm_shape p'"
    and "\<And>j. page_used p' j \<longleftrightarrow> page_used p j \<or> j = i"
    and "pmm_stats p' = (pmm_stats p)\<lparr>free_pages := pmm_free p - 1,
           used_pages := saturating_add (pmm_used p) 1\<rparr>"
proof -
  from assms(2) obtain w b where scan: "scan_words p [0..<words_to_scan p] = Some (w, b)"
    by (auto simp: allocate_physical_page_def split: option.splits)
  note least = scan_words_least [OF scan]
  define i where "i = w * 64 + b"
  have w: "i div 64 = w" and b: "i mod 64 = b" using least(2) by (simp_all add: i_def)
  from assms(2) scan have p': "p' = p\<lparr>bitmap := (bitmap p)[w := bitmap p ! w OR 2 ^ b],
      pmm_stats := (pmm_stats p)\<lparr>free_pages := pmm_free p - 1,
        used_pages := saturating_add (pmm_used p) 1\<rparr>\<rparr>" and f: "f = from_page_number i"
    by (auto simp: allocate_physical_page_def Let_def saturating_sub_def i_def)
  have wl: "i div 64 < length (bitmap p)"
    using pmm_shape_scan_index [OF assms(1) least(1)] w by simp
  have used: "page_used p' j \<longleftrightarrow> page_used p j \<or> j = i" for j
    using page_used_set [OF wl] by (simp add: p' w b)
  have "free_frames p' = free_frames p - {i}"
    unfolding free_frames_def by (auto simp: used) (simp_all add: p')
  then show thesis
    using that [of i] least(3,4) f used assms(1) by (auto simp: p' i_def pmm_shape_def)
qed

lemma free_physical_page_Inl: "free_physical_page f p = (Inl e, p') \<Longrightarrow> p' = p"
  by (auto simp: free_physical_page_def Let_def split: if_splits)

lemma free_physical_page_Inr:
  assumes "pmm_shape p" and "free_physical_page f p = (Inr (), p')"
  defines "i \<equiv> page_number f"
  shows "f mod PAGE_SIZE = 0" and "0 < i" and "i < pmm_total p" and "page_used p i"
    and "page_used p' j \<longleftrightarrow> page_used p j \<and> j \<noteq> i"
    and "free_frames p' = insert i (free_frames p)" and "pmm_shape p'"
    and "pmm_stats p' = (pmm_stats p)\<lparr>free_pages := saturating_add (pmm_free p) 1,
           used_pages := pmm_used p - 1\<rparr>"
proof -
  from assms(2) show al: "f mod PAGE_SIZE = 0" and i0: "0 < i" and it: "i < pmm_total p"
    by (auto simp: free_physical_page_def Let_def i_def split: if_splits)
  from assms(2) al i0 it show u: "page_used p i"
    by (auto simp: free_physical_page_def Let_def i_def page_used_def bit_simps split: if_splits)
  from assms(2) al i0 it u have p': "p' = p\<lparr>bitmap := (bitmap p)[i div 64 :=
      bitmap p ! (i div 64) AND NOT (2 ^ (i mod 64))],
      pmm_stats := (pmm_stats p)\<lparr>free_pages := saturating_add (pmm_free p) 1,
        used_pages := pmm_used p - 1\<rparr>\<rparr>"
    by (auto simp: free_physical_page_def Let_def i_def page_used_def bit_simps
        saturating_sub_def split: if_splits)
  have il: "i div 64 < length (bitmap p)" using assms(1) it by (rule pmm_shape_index)
  show used: "page_used p' j \<longleftrightarrow> page_used p j \<and> j \<noteq> i" for j
    using page_used_clear [OF il] by (simp add: p')
  show "free_frames p' = insert i (free_frames p)"
    using it unfolding free_frames_def by (auto simp: used) (simp_all add: p')
  show "pmm_shape p'" using assms(1) by (simp add: p' pmm_shape_def)
  show "pmm_stats p' = (pmm_stats p)\<lparr>free_pages := saturating_add (pmm_free p) 1,
           used_pages := pmm_used p - 1\<rparr>" by (simp add: p')
qed

subsection \<open>Frame numbers and frame addresses\<close>

lemma page_number_conv: "page_number f = unat f div 4096"
  by (simp add: page_number_def unat_div)

lemma unat_from_page_number: "n < 2 ^ 52 \<Longrightarrow> unat (from_page_number n) = n * 4096"
  by (simp add: from_page_number_def unat_word_ariths unat_of_nat take_bit_eq_mod)

lemma page_number_from [simp]: "n < 2 ^ 52 \<Longrightarrow> page_number (from_page_number n) = n"
  by (simp add: page_number_conv unat_from_page_number)

lemma aligned_iff_dvd: "f mod PAGE_SIZE = 0 \<longleftrightarrow> 4096 dvd unat f" for f :: u64
  by (simp add: word_arith_nat_mod unat_eq_zero [symmetric] unat_of_nat take_bit_eq_mod
      mod_eq_0_iff_dvd)

lemma from_page_number_aligned: "n < 2 ^ 52 \<Longrightarrow> from_page_number n mod PAGE_SIZE = 0"
  by (simp add: aligned_iff_dvd unat_from_page_number)

lemma page_number_less: "page_number f < 2 ^ 52"
  using unat_u64_less [of f] by (simp add: page_number_conv less_mult_imp_div_less)

lemma from_page_number_number [simp]:
  assumes "f mod PAGE_SIZE = 0"
  shows "from_page_number (page_number f) = f"
proof -
  from assms have "4096 dvd unat f" by (simp add: aligned_iff_dvd)
  then have "unat (from_page_number (page_number f)) = unat f"
    by (simp add: unat_from_page_number [OF page_number_less]) (simp add: page_number_conv)
  then show ?thesis by (simp only: word_unat_eq_iff)
qed

lemma inj_from_page_number: "inj_on from_page_number {..<2 ^ 52}"
  by (rule inj_on_inverseI [of _ page_number]) simp

subsection \<open>The allocator implements the frame interface\<close>

definition free_addrs :: "pmm \<Rightarrow> phys_page set" where
  "free_addrs p = from_page_number ` free_frames p"

definition managed_addrs :: "pmm \<Rightarrow> phys_page set" where
  "managed_addrs p = from_page_number ` {1..<pmm_total p}"

lemma free_frames_bound: "pmm_shape p \<Longrightarrow> i \<in> free_frames p \<Longrightarrow> i < 2 ^ 52"
  by (auto simp: free_frames_def pmm_shape_def kernel_consts)

lemma pmm_inv_shape [dest]: "pmm_inv p \<Longrightarrow> pmm_shape p"
  by (simp add: pmm_inv_def)

lemma pmm_inv_free_pos: "pmm_inv p \<Longrightarrow> i \<in> free_frames p \<Longrightarrow> 0 < i"
  by (metis (mono_tags, lifting) free_frames_def gr0I mem_Collect_eq pmm_inv_def)

lemma saturating_add_small: "a + b \<le> usize_max \<Longrightarrow> saturating_add a b = a + b"
  by (simp add: saturating_add_def)

lemma pmm_inv_total: "pmm_inv p \<Longrightarrow> pmm_total p \<le> 1048576"
  by (simp add: pmm_inv_def pmm_shape_def kernel_consts)

lemma allocate_physical_page_inv:
  assumes inv: "pmm_inv p" and a: "allocate_physical_page p = (Some f, p')"
  shows "pmm_inv p' \<and> pmm_free p' + 1 = pmm_free p \<and> pmm_used p' = pmm_used p + 1
    \<and> pmm_total p' = pmm_total p"
proof -
  from allocate_physical_page_Some [OF pmm_inv_shape [OF inv] a] obtain i where
    i: "i \<in> free_frames p" "free_frames p' = free_frames p - {i}" "pmm_shape p'"
      "\<And>j. page_used p' j \<longleftrightarrow> page_used p j \<or> j = i"
      "pmm_stats p' = (pmm_stats p)\<lparr>free_pages := pmm_free p - 1,
           used_pages := saturating_add (pmm_used p) 1\<rparr>" by blast
  have pos: "0 < pmm_free p" using i(1) inv by (auto simp: pmm_inv_def card_gt_0_iff)
  have "saturating_add (pmm_used p) 1 = pmm_used p + 1"
    using inv pmm_inv_total [OF inv]
    by (intro saturating_add_small) (auto simp: pmm_inv_def usize_max_def)
  with i pos inv show ?thesis by (auto simp: pmm_inv_def card_Diff_singleton)
qed

lemma free_physical_page_inv:
  assumes inv: "pmm_inv p" and a: "free_physical_page f p = (Inr (), p')"
  shows "pmm_inv p' \<and> pmm_free p' = pmm_free p + 1 \<and> pmm_used p' + 1 = pmm_used p
    \<and> pmm_total p' = pmm_total p"
proof -
  note r = free_physical_page_Inr [OF pmm_inv_shape [OF inv] a]
  have notfree: "page_number f \<notin> free_frames p" using r(4) by (simp add: free_frames_def)
  have "insert (page_number f) (free_frames p) \<subseteq> {..<pmm_total p} - {0}"
    using r(2,3) inv by (auto simp: free_frames_def pmm_inv_def)
  then have "card (insert (page_number f) (free_frames p)) \<le> card ({..<pmm_total p} - {0})"
    by (intro card_mono) auto
  with notfree r(2,3) inv have used: "0 < pmm_used p" by (auto simp: pmm_inv_def)
  have "saturating_add (pmm_free p) 1 = pmm_free p + 1"
    using inv pmm_inv_total [OF inv]
    by (intro saturating_add_small) (auto simp: pmm_inv_def usize_max_def)
  with r notfree used inv show ?thesis by (auto simp: pmm_inv_def)
qed

lemma free_physical_page_ok:
  assumes "f mod PAGE_SIZE = 0" and "0 < page_number f" and "page_number f < pmm_total p"
    and "page_used p (page_number f)"
  shows "fst (free_physical_page f p) = Inr ()"
  using assms by (simp add: free_physical_page_def Let_def page_used_def bit_simps)

interpretation pmm_frames: frame_allocator
  allocate_physical_page free_physical_page free_addrs managed_addrs pmm_inv
proof unfold_locales
  fix p p' f
  assume inv: "pmm_inv p" and a: "allocate_physical_page p = (Some f, p')"
  from allocate_physical_page_Some [OF pmm_inv_shape [OF inv] a] obtain i where
    i: "f = from_page_number i" "i \<in> free_frames p" "free_frames p' = free_frames p - {i}"
    by blast
  have "inj_on from_page_number (free_frames p)"
    using free_frames_bound [OF pmm_inv_shape [OF inv]]
    by (intro inj_on_subset [OF inj_from_page_number]) auto
  then have "free_addrs p' = free_addrs p - {f}"
    using i by (auto simp: free_addrs_def inj_on_image_set_diff)
  with i allocate_physical_page_inv [OF inv a]
  show "f \<in> free_addrs p \<and> free_addrs p' = free_addrs p - {f}
      \<and> managed_addrs p' = managed_addrs p \<and> pmm_inv p'"
    by (auto simp: free_addrs_def managed_addrs_def)
next
  fix p p'
  assume "pmm_inv p" and "allocate_physical_page p = (None, p')"
  then show "free_addrs p = {} \<and> p' = p"
    using allocate_physical_page_None by (simp add: free_addrs_def)
next
  fix p f
  assume inv: "pmm_inv p" and m: "f \<in> managed_addrs p" and nf: "f \<notin> free_addrs p"
  then obtain i where i: "f = from_page_number i" "0 < i" "i < pmm_total p"
    by (auto simp: managed_addrs_def)
  moreover have "i < 2 ^ 52" using i(3) pmm_inv_total [OF inv] by simp
  ultimately show "fst (free_physical_page f p) = Inr ()"
    using nf by (intro free_physical_page_ok)
      (auto simp: from_page_number_aligned free_addrs_def free_frames_def)
next
  fix p p' f
  assume inv: "pmm_inv p" and a: "free_physical_page f p = (Inr (), p')"
  note r = free_physical_page_Inr [OF pmm_inv_shape [OF inv] a]
  from r(1) have f: "f = from_page_number (page_number f)" by simp
  have "f \<notin> free_addrs p"
    using r(1,4) free_frames_bound [OF pmm_inv_shape [OF inv]]
    by (auto simp: free_addrs_def free_frames_def)
  moreover have "f \<in> managed_addrs p"
    unfolding managed_addrs_def by (subst f) (use r(2,3) in auto)
  moreover have "free_addrs p' = insert f (free_addrs p)"
    using r(6) f by (auto simp: free_addrs_def)
  ultimately show "f \<in> managed_addrs p \<and> f \<notin> free_addrs p
      \<and> free_addrs p' = insert f (free_addrs p) \<and> managed_addrs p' = managed_addrs p \<and> pmm_inv p'"
    using free_physical_page_inv [OF inv a] by (simp add: managed_addrs_def)
next
  fix p p' f e
  assume "free_physical_page f p = (Inl e, p')"
  then show "p' = p" by (rule free_physical_page_Inl)
next
  fix p assume "pmm_inv p"
  then have "free_frames p \<subseteq> {1..<pmm_total p}"
    using pmm_inv_free_pos by (force simp: free_frames_def)
  then show "free_addrs p \<subseteq> managed_addrs p"
    unfolding free_addrs_def managed_addrs_def by (rule image_mono)
next
  fix p show "finite (managed_addrs p)" by (simp add: managed_addrs_def)
qed

subsection \<open>Initialisation frees exactly the usable pages\<close>

definition usable_page_list :: "memory_region list \<Rightarrow> nat list" where
  "usable_page_list rs = concat (map region_pages (filter is_usable rs))"

definition usable_nonoverlapping :: "memory_region list \<Rightarrow> bool" where
  "usable_nonoverlapping rs \<longleftrightarrow>
     sorted_wrt (\<lambda>r s. physical_end r \<le> physical_start s \<or> physical_end s \<le> physical_start r)
       (filter is_usable rs)"

lemma fold_mark_region_free:
  "fold mark_region_free rs p = fold mark_page_free (usable_page_list rs) p"
  by (induction rs arbitrary: p) (simp_all add: usable_page_list_def mark_region_free_def)

lemma mark_page_free_simps [simp]:
  "pmm_total (mark_page_free i p) = pmm_total p"
  "length (bitmap (mark_page_free i p)) = length (bitmap p)"
  "used_pages (pmm_stats (mark_page_free i p)) = used_pages (pmm_stats p)"
  by (simp_all add: mark_page_free_def Let_def)

lemma pmm_shape_mark [simp]: "pmm_shape (mark_page_free i p) = pmm_shape p"
  by (simp add: pmm_shape_def)

lemma page_used_mark:
  "pmm_shape p \<Longrightarrow>
     page_used (mark_page_free j p) i \<longleftrightarrow> page_used p i \<and> \<not> (i = j \<and> 0 < i \<and> i < pmm_total p)"
  using pmm_shape_index [of p j] page_used_clear [of j p]
  by (auto simp: mark_page_free_def Let_def)

lemma pmm_free_mark:
  "pmm_free (mark_page_free j p) = pmm_free p + (if 0 < j \<and> j < pmm_total p then 1 else 0)"
  by (simp add: mark_page_free_def Let_def)

lemma fold_mark_page_free:
  assumes "pmm_shape p"
  shows "pmm_shape (fold mark_page_free ns p)"
    and "pmm_total (fold mark_page_free ns p) = pmm_total p"
    and "page_used (fold mark_page_free ns p) i \<longleftrightarrow>
      page_used p i \<and> \<not> (i \<in> set ns \<and> 0 < i \<and> i < pmm_total p)"
    and "pmm_free (fold mark_page_free ns p) =
      pmm_free p + length (filter (\<lambda>i. 0 < i \<and> i < pmm_total p) ns)"
  using assms
  by (induction ns arbitrary: p) (auto simp: page_used_mark pmm_free_mark)

lemma distinct_concat_intervals:
  fixes f :: "'a \<Rightarrow> nat list"
  assumes "\<And>r. distinct (f r)" and "sorted_wrt (\<lambda>r s. set (f r) \<inter> set (f s) = {}) rs"
  shows "distinct (concat (map f rs))"
  using assms(2) by (induction rs) (auto simp: assms(1))

lemma usable_page_list_distinct:
  assumes "usable_nonoverlapping rs"
  shows "distinct (usable_page_list rs)"
proof -
  have disj: "set (region_pages r) \<inter> set (region_pages s) = {}"
    if "physical_end r \<le> physical_start s \<or> physical_end s \<le> physical_start r" for r s
  proof -
    have "unat (physical_end a div PAGE_SIZE) \<le> unat (physical_start b div PAGE_SIZE)"
      if "physical_end a \<le> physical_start b" for a b :: memory_region
      using that by (simp add: unat_div div_le_mono word_le_nat_alt)
    with that show ?thesis by (fastforce simp: region_pages_def)
  qed
  have "sorted_wrt (\<lambda>r s. set (region_pages r) \<inter> set (region_pages s) = {}) (filter is_usable rs)"
    using assms disj unfolding usable_nonoverlapping_def by (rule_tac sorted_wrt_mono_rel) auto
  then show ?thesis
    unfolding usable_page_list_def
    by (intro distinct_concat_intervals) (simp add: region_pages_def)
qed

definition managed_total :: "memory_region list \<Rightarrow> nat" where
  "managed_total rs = min MAX_MANAGED_PAGES (unat (highest_addr rs div PAGE_SIZE))"

definition pmm_blank :: "nat \<Rightarrow> pmm" where
  "pmm_blank n = \<lparr>bitmap = replicate BITMAP_WORDS (NOT 0),
     pmm_stats = \<lparr>total_managed_pages = n, usable_pages = 0, free_pages = 0,
       used_pages = 0\<rparr>\<rparr>"

lemma pmm_shape_blank: "pmm_shape (pmm_blank (managed_total rs))"
  by (simp add: pmm_blank_def pmm_shape_def managed_total_def)

lemma page_used_blank: "i < MAX_MANAGED_PAGES \<Longrightarrow> page_used (pmm_blank n) i"
  by (simp add: pmm_blank_def page_used_def kernel_consts)

lemma pmm_init_eq:
  "pmm_init mm =
     (let p = fold mark_page_free (usable_page_list (live_regions mm))
                (pmm_blank (managed_total (live_regions mm)))
      in p\<lparr>pmm_stats := (pmm_stats p)\<lparr>used_pages := pmm_total p - pmm_free p\<rparr>\<rparr>)"
proof -
  have total: "(if MAX_MANAGED_PAGES < n then MAX_MANAGED_PAGES else n) = min MAX_MANAGED_PAGES n"
    for n by simp
  show ?thesis
    unfolding pmm_init_def Let_def total managed_total_def [symmetric] pmm_blank_def [symmetric]
      fold_mark_region_free saturating_sub_def by simp
qed

lemma pmm_init_facts:
  fixes mm :: physical_memory_map
  defines "rs \<equiv> live_regions mm"
  shows pmm_init_shape: "pmm_shape (pmm_init mm)"
    and pmm_init_total: "pmm_total (pmm_init mm) = managed_total rs"
    and pmm_init_used: "i < MAX_MANAGED_PAGES \<Longrightarrow> page_used (pmm_init mm) i \<longleftrightarrow>
      \<not> (i \<in> set (usable_page_list rs) \<and> 0 < i \<and> i < managed_total rs)"
    and pmm_init_free: "pmm_free (pmm_init mm) =
      length (filter (\<lambda>i. 0 < i \<and> i < managed_total rs) (usable_page_list rs))"
    and pmm_init_used_count: "pmm_used (pmm_init mm) = managed_total rs - pmm_free (pmm_init mm)"
  using fold_mark_page_free [OF pmm_shape_blank [of rs], of "usable_page_list rs"] page_used_blank
  by (auto simp: pmm_init_eq Let_def pmm_shape_def page_used_def rs_def [symmetric]
      pmm_blank_def)

lemma pmm_init_free_frames:
  "free_frames (pmm_init mm) =
     {i \<in> set (usable_page_list (live_regions mm)). 0 < i \<and> i < managed_total (live_regions mm)}"
proof -
  have "managed_total (live_regions mm) \<le> MAX_MANAGED_PAGES" by (simp add: managed_total_def)
  then show ?thesis
    by (auto simp: free_frames_def pmm_init_total pmm_init_used)
qed

lemma pmm_init_inv:
  assumes "usable_nonoverlapping (live_regions mm)"
  shows "pmm_inv (pmm_init mm)"
proof -
  let ?t = "managed_total (live_regions mm)" and ?ns = "usable_page_list (live_regions mm)"
  let ?fs = "filter (\<lambda>i. 0 < i \<and> i < ?t) ?ns"
  have "distinct ?fs" using usable_page_list_distinct [OF assms] by simp
  moreover have "set ?fs = free_frames (pmm_init mm)" by (auto simp: pmm_init_free_frames)
  ultimately have free: "pmm_free (pmm_init mm) = card (free_frames (pmm_init mm))"
    by (metis distinct_card pmm_init_free)
  have "free_frames (pmm_init mm) \<subseteq> {..<?t}" by (auto simp: pmm_init_free_frames)
  then have "card (free_frames (pmm_init mm)) \<le> ?t"
    using card_mono [of "{..<?t}"] by simp
  moreover have "page_used (pmm_init mm) 0" by (simp add: pmm_init_used kernel_consts)
  ultimately show ?thesis
    by (simp add: pmm_inv_def pmm_init_shape pmm_init_total pmm_init_used_count free)
qed

subsection \<open>The consistency check counts the free frames\<close>

lemma word_free_bits_card:
  assumes "w < words_to_scan p"
  shows "word_free_bits p w = card {b. b < 64 \<and> w * 64 + b < pmm_total p \<and> \<not> bit (bitmap p ! w) b}"
proof (cases "w = words_to_scan p - 1 \<and> pmm_total p mod 64 \<noteq> 0")
  case True
  let ?k = "pmm_total p mod 64"
  have "(q * 64 + r + 63) div 64 = Suc q" if "r \<noteq> 0" and "r < 64" for q r :: nat
    using that by (intro div_nat_eqI) auto
  from this [of "pmm_total p mod 64" "pmm_total p div 64"]
  have w: "w = pmm_total p div 64" using True by (simp add: words_to_scan_def)
  have "w * 64 + b < pmm_total p \<longleftrightarrow> b < ?k" for b
    unfolding w by (metis add_less_cancel_left div_mult_mod_eq)
  moreover have "bit (NOT (bitmap p ! w OR NOT (2 ^ ?k - 1 :: u64))) b \<longleftrightarrow>
      b < 64 \<and> b < ?k \<and> \<not> bit (bitmap p ! w) b" for b
    by (auto simp: bit_not_iff bit_and_iff mask_eq_exp_minus_1 [symmetric] bit_mask_iff
        dest: bit_imp_le_length)
  ultimately show ?thesis
    using True by (simp add: word_free_bits_def Let_def count_ones_card)
next
  case False
  have "w * 64 + b < pmm_total p" if "b < 64" for b
    using False assms that by (auto simp: words_to_scan_def)
  then show ?thesis
    using False by (simp add: word_free_bits_def Let_def count_ones_card bit_not_iff cong: conj_cong)
qed

lemma card_free_prefix_Suc:
  "card {i \<in> free_frames p. i < Suc n * 64} =
     card {i \<in> free_frames p. i < n * 64}
     + card {b. b < 64 \<and> n * 64 + b < pmm_total p \<and> \<not> bit (bitmap p ! n) b}"
proof -
  let ?B = "{b. b < 64 \<and> n * 64 + b < pmm_total p \<and> \<not> bit (bitmap p ! n) b}"
  have "{i \<in> free_frames p. i < Suc n * 64} =
      {i \<in> free_frames p. i < n * 64} \<union> (\<lambda>b. n * 64 + b) ` ?B"
  proof (intro set_eqI iffI)
    fix i assume i: "i \<in> {i \<in> free_frames p. i < Suc n * 64}"
    show "i \<in> {i \<in> free_frames p. i < n * 64} \<union> (\<lambda>b. n * 64 + b) ` ?B"
    proof (cases "i < n * 64")
      case True with i show ?thesis by simp
    next
      case False
      with i have d: "i div 64 = n" by (auto intro: div_nat_eqI)
      then have "i = n * 64 + i mod 64" by (metis div_mult_mod_eq)
      with i d have "i mod 64 \<in> ?B" by (auto simp: free_frames_def page_used_def)
      with \<open>i = n * 64 + i mod 64\<close> show ?thesis by blast
    qed
  qed (auto simp: free_frames_def page_used_def)
  moreover have "card ((\<lambda>b. n * 64 + b) ` ?B) = card ?B"
    by (rule card_image) (simp add: inj_on_def)
  moreover have "{i \<in> free_frames p. i < n * 64} \<inter> (\<lambda>b. n * 64 + b) ` ?B = {}" by auto
  ultimately show ?thesis by (simp add: card_Un_disjoint)
qed

lemma fold_free_bits:
  "n \<le> words_to_scan p \<Longrightarrow>
     fold (\<lambda>w a. a + word_free_bits p w) [0..<n] 0 = card {i \<in> free_frames p. i < n * 64}"
proof (induction n)
  case (Suc n)
  then show ?case
    by (simp add: card_free_prefix_Suc word_free_bits_card del: mult_Suc)
qed simp

lemma fold_free_bits_all:
  "fold (\<lambda>w a. a + word_free_bits p w) [0..<words_to_scan p] 0 = card (free_frames p)"
proof -
  have "{i \<in> free_frames p. i < words_to_scan p * 64} = free_frames p"
    by (auto simp: free_frames_def words_to_scan_def)
  then show ?thesis by (simp add: fold_free_bits)
qed

lemma bitmap_bit0: "bitmap p ! 0 AND 1 = 0 \<longleftrightarrow> \<not> page_used p 0"
  using and_exp_eq_0 [of 0 "bitmap p ! 0"] by (simp add: page_used_def)

lemma pmm_verify_iff: "pmm_shape p \<Longrightarrow> pmm_verify_invariants p = Inr () \<longleftrightarrow> pmm_inv p"
  by (auto simp: pmm_verify_invariants_def pmm_inv_def fold_free_bits_all bitmap_bit0)

subsection \<open>Taking a frame and giving it back\<close>

lemma set_clear_word:
  fixes x :: u64
  assumes "\<not> bit x b"
  shows "(x OR 2 ^ b) AND NOT (2 ^ b) = x"
  using assms by (intro bit_word_eqI) (auto simp: bit_simps)

lemma allocate_free_restores:
  assumes inv: "pmm_inv p" and a: "allocate_physical_page p = (Some f, p1)"
  shows "free_physical_page f p1 = (Inr (), p)"
proof -
  from a obtain w b where scan: "scan_words p [0..<words_to_scan p] = Some (w, b)"
    by (auto simp: allocate_physical_page_def split: option.splits)
  note least = scan_words_least [OF scan]
  let ?i = "w * 64 + b"
  have i: "?i div 64 = w" "?i mod 64 = b" using least(2) by simp_all
  have pos: "0 < ?i" and it: "?i < pmm_total p" and nb: "\<not> bit (bitmap p ! w) b"
    using least(3) pmm_inv_free_pos [OF inv least(3)] i
    by (auto simp: free_frames_def page_used_def)
  have i52: "?i < 2 ^ 52" using it pmm_inv_total [OF inv] by simp
  have wl: "w < length (bitmap p)"
    using pmm_shape_scan_index [OF pmm_inv_shape [OF inv] least(1)] .
  have free: "0 < pmm_free p" using inv least(3) by (auto simp: pmm_inv_def card_gt_0_iff)
  have sat: "saturating_add (pmm_used p) 1 = pmm_used p + 1"
    "saturating_add (pmm_free p - 1) 1 = pmm_free p"
    using inv pmm_inv_total [OF inv] free
    by (auto simp: saturating_add_def pmm_inv_def usize_max_def)
  from a scan sat have f: "f = from_page_number ?i"
    and p1: "p1 = p\<lparr>bitmap := (bitmap p)[w := bitmap p ! w OR 2 ^ b],
      pmm_stats := (pmm_stats p)\<lparr>free_pages := pmm_free p - 1, used_pages := pmm_used p + 1\<rparr>\<rparr>"
    by (auto simp: allocate_physical_page_def Let_def saturating_sub_def)
  show ?thesis
    using i i52 pos it nb wl sat least(2)
    by (auto simp: free_physical_page_def Let_def f p1 from_page_number_aligned bit_simps
        set_clear_word saturating_sub_def)
qed

text \<open>The state is determined by the used pages and the statistics, so a sequence of calls whose
  net effect on the used pages is nil ends in the state it started from.\<close>

lemma pmm_eqI:
  assumes "pmm_shape p" and "pmm_shape q" and "pmm_stats p = pmm_stats q"
    and used: "\<And>i. page_used p i = page_used q i"
  shows "p = (q :: pmm)"
proof -
  have "bitmap p ! w = bitmap q ! w" for w
  proof (rule bit_word_eqI)
    fix b assume "b < LENGTH(64)"
    with used [of "w * 64 + b"] show "bit (bitmap p ! w) b = bit (bitmap q ! w) b"
      by (simp add: page_used_def)
  qed
  with assms(1,2) have "bitmap p = bitmap q" by (intro nth_equalityI) (auto simp: pmm_shape_def)
  with assms(3) show ?thesis by simp
qed

lemma alloc_Min:
  assumes inv: "pmm_inv p" and a: "allocate_physical_page p = (Some f, p')"
  defines "i \<equiv> Min (free_frames p)"
  shows "f = from_page_number i" and "i \<in> free_frames p" and "free_frames p' = free_frames p - {i}"
    and "page_used p' j \<longleftrightarrow> page_used p j \<or> j = i" and "page_number f = i"
    and "f mod PAGE_SIZE = 0"
proof -
  from allocate_physical_page_Some [OF pmm_inv_shape [OF inv] a] obtain k where
    k: "f = from_page_number k" "k \<in> free_frames p" "\<And>j. j \<in> free_frames p \<Longrightarrow> k \<le> j"
      "free_frames p' = free_frames p - {k}" "\<And>j. page_used p' j \<longleftrightarrow> page_used p j \<or> j = k"
    by blast
  have "k = i" unfolding i_def using k(2,3) by (intro Min_eqI [symmetric]) auto
  moreover have "k < 2 ^ 52" using free_frames_bound [OF pmm_inv_shape [OF inv] k(2)] .
  ultimately show "f = from_page_number i" "i \<in> free_frames p" "free_frames p' = free_frames p - {i}"
    "page_used p' j \<longleftrightarrow> page_used p j \<or> j = i" "page_number f = i" "f mod PAGE_SIZE = 0"
    using k by (simp_all add: from_page_number_aligned)
qed

lemma alloc_possible:
  assumes "pmm_inv p" and "free_frames p \<noteq> {}"
  obtains f p' where "allocate_physical_page p = (Some f, p')"
  using assms allocate_physical_page_None
  by (cases "allocate_physical_page p") (metis option.exhaust)

lemma pmm_stats_after_alloc:
  "pmm_inv p \<Longrightarrow> allocate_physical_page p = (Some f, p') \<Longrightarrow>
     pmm_stats p' = (pmm_stats p)\<lparr>free_pages := pmm_free p - 1, used_pages := pmm_used p + 1\<rparr>"
  using allocate_physical_page_Some [of p f p'] allocate_physical_page_inv [of p f p']
  by (metis add_diff_cancel_right' allocator_stats.select_convs(3,4) allocator_stats.surjective
      allocator_stats.update_convs(3,4) pmm_inv_shape)

lemma pmm_stats_after_free:
  "pmm_inv p \<Longrightarrow> free_physical_page f p = (Inr (), p') \<Longrightarrow>
     pmm_stats p' = (pmm_stats p)\<lparr>free_pages := pmm_free p + 1, used_pages := pmm_used p - 1\<rparr>"
  using free_physical_page_Inr(8) [of p f p'] free_physical_page_inv [of p f p']
  by (auto simp: pmm_inv_def)

lemma free_used_frame:
  assumes inv: "pmm_inv p" and f: "f mod PAGE_SIZE = 0" "0 < page_number f"
    "page_number f < pmm_total p" and u: "page_used p (page_number f)"
  obtains p' where "free_physical_page f p = (Inr (), p')" and "pmm_inv p'"
    and "\<And>j. page_used p' j \<longleftrightarrow> page_used p j \<and> j \<noteq> page_number f"
    and "pmm_stats p' = (pmm_stats p)\<lparr>free_pages := pmm_free p + 1, used_pages := pmm_used p - 1\<rparr>"
proof -
  obtain p' where r: "free_physical_page f p = (Inr (), p')"
    using free_physical_page_ok [OF f u] by (cases "free_physical_page f p") auto
  show thesis
    using that [OF r] free_physical_page_inv [OF inv r] pmm_stats_after_free [OF inv r]
      free_physical_page_Inr(5) [OF pmm_inv_shape [OF inv] r] by blast
qed

lemma free_rejects:
  shows "free_physical_page 0 p = (Inl ReservedMemory, p)"
    and "pmm_shape p \<Longrightarrow> free_physical_page 0xFFFFFFFFFFFFF000 p = (Inl OutOfBounds, p)"
    and "free_physical_page 0x1001 p = (Inl UnalignedAddress, p)"
    and "f mod PAGE_SIZE = 0 \<Longrightarrow> page_number f \<in> free_frames p \<Longrightarrow> 0 < page_number f \<Longrightarrow>
      free_physical_page f p = (Inl DoubleFree, p)"
  by (simp_all add: free_physical_page_def Let_def page_number_conv pmm_shape_def kernel_consts
      free_frames_def page_used_def bit_simps)

lemma test_pmm_errors_pass:
  assumes inv: "pmm_inv p" and f: "f mod PAGE_SIZE = 0" "page_number f \<in> free_frames p"
  shows "test_pmm_errors (pmm_free p) f p = (Inr (), p)"
proof -
  have "pmm_verify_invariants p = Inr ()" using inv pmm_verify_iff pmm_inv_shape by blast
  then show ?thesis
    using free_rejects(4) [OF f pmm_inv_free_pos [OF inv f(2)]]
    by (simp add: test_pmm_errors_def free_rejects pmm_inv_shape [OF inv])
qed

lemma test_pmm_reuse_pass:
  assumes inv: "pmm_inv p" and a1: "allocate_physical_page p = (Some f1, p1)"
    and a2: "allocate_physical_page p1 = (Some f2, p2)"
  shows "test_pmm_reuse (pmm_free p) f1 f2 p2 = (Inr (), p)"
proof -
  let ?i = "Min (free_frames p)"
  note A1 = alloc_Min [OF inv a1] and I1 = allocate_physical_page_inv [OF inv a1]
  from I1 have inv1: "pmm_inv p1" by simp
  note A2 = alloc_Min [OF inv1 a2] and I2 = allocate_physical_page_inv [OF inv1 a2]
  from I2 have inv2: "pmm_inv p2" by simp
  have pos: "0 < page_number f1" "page_number f1 < pmm_total p2"
    "0 < page_number f2" "page_number f2 < pmm_total p2"
    using A1 A2 I1 I2 pmm_inv_free_pos [OF inv] pmm_inv_free_pos [OF inv1]
    by (auto simp: free_frames_def)
  have ne: "page_number f1 \<noteq> page_number f2" using A1 A2 by (auto simp: free_frames_def)
  have u: "page_used p2 j \<longleftrightarrow> page_used p j \<or> j = page_number f1 \<or> j = page_number f2" for j
    using A1(4,5) A2(4,5) by auto
  obtain p3 where r3: "free_physical_page f1 p2 = (Inr (), p3)" and inv3: "pmm_inv p3"
    and u3: "\<And>j. page_used p3 j \<longleftrightarrow> page_used p2 j \<and> j \<noteq> page_number f1"
    and s3: "pmm_stats p3 = (pmm_stats p2)\<lparr>free_pages := pmm_free p2 + 1, used_pages := pmm_used p2 - 1\<rparr>"
    using free_used_frame [OF inv2 A1(6) pos(1,2)] u by blast
  have "Min (free_frames p3) = ?i"
  proof (rule Min_eqI)
    show "?i \<in> free_frames p3" using A1(2,5) I1 I2 s3 u3 by (auto simp: free_frames_def)
    fix j assume "j \<in> free_frames p3"
    then have "j \<in> free_frames p" using A1(2,5) I1 I2 s3 u3 u by (auto simp: free_frames_def)
    then show "?i \<le> j" by simp
  qed simp
  moreover have ne3: "free_frames p3 \<noteq> {}"
    using A1(2,5) I1 I2 s3 u3 by (auto simp: free_frames_def)
  moreover obtain f3 p4 where a4: "allocate_physical_page p3 = (Some f3, p4)"
    using alloc_possible [OF inv3 ne3] .
  ultimately have f3: "f3 = f1" using alloc_Min(1) [OF inv3 a4] A1(1) by simp
  have "p4 = p2"
    using alloc_Min(4,5) [OF inv3 a4] allocate_physical_page_inv [OF inv3 a4]
      pmm_stats_after_alloc [OF inv3 a4] pmm_inv_shape [OF inv2] s3 u3 u I2 f3
    by (intro pmm_eqI) (auto simp: pmm_inv_def)
  note a4 = a4 [unfolded f3 this]
  obtain p5 where r5: "free_physical_page f2 p2 = (Inr (), p5)" and inv5: "pmm_inv p5"
    and u5: "\<And>j. page_used p5 j \<longleftrightarrow> page_used p2 j \<and> j \<noteq> page_number f2"
    and s5: "pmm_stats p5 = (pmm_stats p2)\<lparr>free_pages := pmm_free p2 + 1, used_pages := pmm_used p2 - 1\<rparr>"
    using free_used_frame [OF inv2 A2(6) pos(3,4)] u by blast
  obtain p6 where r6: "free_physical_page f1 p5 = (Inr (), p6)" and inv6: "pmm_inv p6"
    and u6: "\<And>j. page_used p6 j \<longleftrightarrow> page_used p5 j \<and> j \<noteq> page_number f1"
    and s6: "pmm_stats p6 = (pmm_stats p5)\<lparr>free_pages := pmm_free p5 + 1, used_pages := pmm_used p5 - 1\<rparr>"
    using free_used_frame [OF inv5 A1(6) pos(1)] u u5 s5 pos ne by auto
  have "p6 = p"
  proof (rule pmm_eqI)
    show "pmm_shape p6" and "pmm_shape p" using inv6 inv by (simp_all add: pmm_inv_shape)
    show "pmm_stats p6 = pmm_stats p"
      using pmm_stats_after_alloc [OF inv a1] pmm_stats_after_alloc [OF inv1 a2] s5 s6 I1 I2
      by simp
    fix j
    have "\<not> page_used p (page_number f1)" and "\<not> page_used p (page_number f2)"
      using A1 A2 by (auto simp: free_frames_def)
    then show "page_used p6 j = page_used p j" using u5 u6 u by blast
  qed
  with r3 a4 r5 r6 test_pmm_errors_pass [OF inv A1(6)] A1(2,5)
  show ?thesis by (simp add: test_pmm_reuse_def f3)
qed

subsection \<open>Properties\<close>

text \<open>C12. First fit: on a consistent allocator, \<^verbatim>\<open>allocate_physical_page\<close> fails exactly when no
  frame is free and then changes nothing; otherwise it returns the address of the lowest free
  frame, removes exactly that frame from the free set and keeps the invariant (bitmap, counters
  and the reservation of page 0).\<close>

theorem allocate_physical_page_first_fit:
  assumes "pmm_inv p"
  shows "case allocate_physical_page p of
      (None, p') \<Rightarrow> free_frames p = {} \<and> p' = p
    | (Some f, p') \<Rightarrow> free_frames p \<noteq> {} \<and> f = from_page_number (Min (free_frames p))
        \<and> free_frames p' = free_frames p - {Min (free_frames p)} \<and> pmm_inv p'
        \<and> pmm_free p' + 1 = pmm_free p"
proof (cases "allocate_physical_page p")
  case (Pair r p')
  then show ?thesis
    using allocate_physical_page_None [of p p'] alloc_Min [OF assms, of _ p']
      allocate_physical_page_inv [OF assms, of _ p'] by (cases r) auto
qed

text \<open>C30. \<^verbatim>\<open>free_physical_page\<close> on every branch: the unaligned address, frame 0, a frame
  beyond the managed range and a frame that is already free are rejected with their own error
  and leave the allocator untouched; any other frame is added to the free set, with the
  invariant kept.\<close>

theorem free_physical_page_branches:
  assumes "pmm_inv p"
  shows "case free_physical_page f p of
      (Inl e, p') \<Rightarrow> p' = p \<and> e = (if f mod PAGE_SIZE \<noteq> 0 then UnalignedAddress
         else if page_number f = 0 then ReservedMemory
         else if page_number f \<ge> pmm_total p then OutOfBounds else DoubleFree)
         \<and> (e = DoubleFree \<longrightarrow> page_number f \<in> free_frames p)
    | (Inr _, p') \<Rightarrow> f \<in> managed_addrs p \<and> page_number f \<notin> free_frames p
         \<and> free_frames p' = insert (page_number f) (free_frames p) \<and> pmm_inv p'
         \<and> pmm_free p' = pmm_free p + 1"
proof (cases "free_physical_page f p")
  case (Pair r p')
  show ?thesis
  proof (cases r)
    case (Inl e)
    with Pair free_physical_page_Inl [of f p e p'] show ?thesis
      by (auto simp: free_physical_page_def Let_def free_frames_def page_used_def bit_simps
          split: if_splits)
  next
    case (Inr u)
    with Pair have r: "free_physical_page f p = (Inr (), p')" by simp
    from pmm_frames.release_Inr [OF assms r] free_physical_page_Inr [OF pmm_inv_shape [OF assms] r]
      free_physical_page_inv [OF assms r]
    show ?thesis using Pair Inr by (simp add: free_frames_def)
  qed
qed

text \<open>Allocating a frame and releasing it restores the whole allocator state: the bitmap word
  by word and every counter.\<close>

theorem allocate_then_free_roundtrip:
  assumes "pmm_inv p" and "allocate_physical_page p = (Some f, p1)"
  shows "free_physical_page f p1 = (Inr (), p)"
  by (rule allocate_free_restores [OF assms])

text \<open>C29. \<^verbatim>\<open>init\<close> frees exactly the usable pages: if the usable regions of the firmware's map do
  not overlap (the UEFI specification promises this of \<^verbatim>\<open>GetMemoryMap\<close>), the allocator it
  builds satisfies the invariant, and a frame is free iff it lies in a usable region, below the
  managed limit, and is not frame 0.\<close>

theorem pmm_init_correct:
  assumes "usable_nonoverlapping (live_regions mm)"
  shows "pmm_inv (pmm_init mm) \<and> free_frames (pmm_init mm) =
     {i. 0 < i \<and> i < managed_total (live_regions mm) \<and>
         (\<exists>r \<in> set (live_regions mm). is_usable r \<and> i \<in> set (region_pages r))}"
  using pmm_init_inv [OF assms] by (auto simp: pmm_init_free_frames usable_page_list_def)

text \<open>C34. \<^verbatim>\<open>verify_invariants\<close> is exact: on a well-shaped allocator it answers \<^verbatim>\<open>Ok\<close> if
  and only if the counters add up, page 0 is reserved and the free counter equals the number of
  free frames (including the masking of the last, partial bitmap word).\<close>

theorem pmm_verify_invariants_exact:
  assumes "pmm_shape p"
  shows "pmm_verify_invariants p = Inr () \<longleftrightarrow> pmm_inv p"
  by (rule pmm_verify_iff [OF assms])

text \<open>The boot-time self-test \<^verbatim>\<open>test_pmm_hardened\<close> passes on every consistent allocator with
  two free frames, and leaves it exactly as it found it.\<close>

theorem test_pmm_hardened_passes:
  assumes "pmm_inv p" and "2 \<le> card (free_frames p)"
  shows "test_pmm_hardened p = (Inr (), p)"
proof -
  from assms(2) have "free_frames p \<noteq> {}" by auto
  with assms(1) obtain f1 p1 where a1: "allocate_physical_page p = (Some f1, p1)"
    by (rule alloc_possible)
  note A1 = alloc_Min [OF assms(1) a1]
  have inv1: "pmm_inv p1" using allocate_physical_page_inv [OF assms(1) a1] by simp
  have "card (free_frames p1) \<noteq> 0" using A1(2,3) assms(2) by (simp add: card_Diff_singleton)
  then have "free_frames p1 \<noteq> {}" by auto
  with inv1 obtain f2 p2 where a2: "allocate_physical_page p1 = (Some f2, p2)"
    by (rule alloc_possible)
  note A2 = alloc_Min [OF inv1 a2]
  have "page_number f1 \<noteq> page_number f2" using A1(3,5) A2(2,5) by auto
  then have "f1 \<noteq> f2" by blast
  moreover have "pmm_verify_invariants p = Inr ()"
    using assms(1) pmm_verify_iff pmm_inv_shape by blast
  ultimately show ?thesis
    using test_pmm_reuse_pass [OF assms(1) a1 a2]
    by (simp add: test_pmm_hardened_def a1 a2 A1(6) A2(6))
qed

subsection \<open>Witnesses\<close>

text \<open>A small firmware map: two usable regions around one page of loader code, eight pages in
  all, so frames 1, 2 and 4 to 7 start out free.\<close>

definition sample_map :: physical_memory_map where
  "sample_map = \<lparr>mm_regions =
       \<lparr>physical_start = 0, physical_end = 0x3000, page_count = 3, region_type = Usable,
         is_usable = True\<rparr> #
       \<lparr>physical_start = 0x3000, physical_end = 0x4000, page_count = 1, region_type = LoaderCode,
         is_usable = False\<rparr> #
       \<lparr>physical_start = 0x4000, physical_end = 0x8000, page_count = 4, region_type = Usable,
         is_usable = True\<rparr> # replicate 125 memory_region_empty,
     mm_region_count = 3, total_memory_bytes = 0x8000, usable_memory_bytes = 0x7000,
     reserved_memory_bytes = 0x1000\<rparr>"

lemma sample_map_nonoverlapping: "usable_nonoverlapping (live_regions sample_map)"
  by (simp add: usable_nonoverlapping_def live_regions_def sample_map_def)

lemma sample_map_inv: "pmm_inv (pmm_init sample_map)"
  by (rule pmm_init_inv [OF sample_map_nonoverlapping])

lemma sample_map_total: "managed_total (live_regions sample_map) = 8"
  by (simp add: managed_total_def highest_addr_def live_regions_def sample_map_def kernel_consts)

lemma sample_map_free: "free_frames (pmm_init sample_map) = {1, 2, 4, 5, 6, 7}"
  unfolding pmm_init_free_frames sample_map_total
  by (auto simp: usable_page_list_def region_pages_def live_regions_def sample_map_def)

theorem allocate_physical_page_first_fit_witness:
  "\<exists>p'. pmm_inv (pmm_init sample_map)
     \<and> allocate_physical_page (pmm_init sample_map) = (Some 0x1000, p')
     \<and> free_frames p' = {2, 4, 5, 6, 7}"
proof (cases "allocate_physical_page (pmm_init sample_map)")
  case (Pair r p')
  then show ?thesis
    using allocate_physical_page_first_fit [OF sample_map_inv] sample_map_inv
    by (cases r) (auto simp: sample_map_free from_page_number_def)
qed

theorem free_physical_page_branches_witness:
  "\<exists>p'. pmm_inv (pmm_init sample_map)
     \<and> free_physical_page 0x3000 (pmm_init sample_map) = (Inr (), p')
     \<and> free_frames p' = {1, 2, 3, 4, 5, 6, 7}"
proof (cases "free_physical_page 0x3000 (pmm_init sample_map)")
  case (Pair r p')
  have "pmm_total (pmm_init sample_map) = 8" by (simp add: pmm_init_total sample_map_total)
  with Pair free_physical_page_branches [OF sample_map_inv, of "0x3000"] sample_map_inv show ?thesis
    by (cases r) (auto simp: sample_map_free page_number_conv)
qed

theorem allocate_then_free_roundtrip_witness:
  "\<exists>p1. pmm_inv (pmm_init sample_map)
     \<and> allocate_physical_page (pmm_init sample_map) = (Some 0x1000, p1)
     \<and> free_physical_page 0x1000 p1 = (Inr (), pmm_init sample_map)"
proof -
  obtain f p1 where a: "allocate_physical_page (pmm_init sample_map) = (Some f, p1)"
    using alloc_possible [OF sample_map_inv] by (auto simp: sample_map_free)
  moreover have "f = 0x1000"
    using alloc_Min(1) [OF sample_map_inv a] by (simp add: sample_map_free from_page_number_def)
  ultimately show ?thesis
    using allocate_then_free_roundtrip [OF sample_map_inv a] sample_map_inv by simp
qed

theorem pmm_init_correct_witness:
  "usable_nonoverlapping (live_regions sample_map) \<and> pmm_inv (pmm_init sample_map)
     \<and> free_frames (pmm_init sample_map) = {1, 2, 4, 5, 6, 7}"
  using conjunct1 [OF pmm_init_correct [OF sample_map_nonoverlapping]]
    sample_map_nonoverlapping sample_map_free by blast

theorem pmm_verify_invariants_exact_witness:
  "pmm_shape (pmm_init sample_map) \<and> pmm_verify_invariants (pmm_init sample_map) = Inr ()"
  using pmm_verify_invariants_exact [OF pmm_init_shape] pmm_init_shape sample_map_inv by blast

theorem test_pmm_hardened_passes_witness:
  "2 \<le> card (free_frames (pmm_init sample_map))
     \<and> test_pmm_hardened (pmm_init sample_map) = (Inr (), pmm_init sample_map)"
proof -
  have "2 \<le> card (free_frames (pmm_init sample_map))" by (simp add: sample_map_free)
  with test_pmm_hardened_passes [OF sample_map_inv this] show ?thesis by simp
qed

end
