(* ===== verification/Paging.thy ===== *)
theory Paging
  imports Pmm
begin

text \<open>
  Virtual addresses, page permissions and page-table entries (the first part of
  \<^verbatim>\<open>src/src/vmm.rs\<close>).  A \<^verbatim>\<open>VirtAddr\<close>, a \<^verbatim>\<open>PageTableFlags\<close> and a
  \<^verbatim>\<open>PageTableEntry\<close> are transparent wrappers of \<^verbatim>\<open>u64\<close> and are words here.  A table index
  is the 9-bit value the accessors extract, so a \<^verbatim>\<open>PageTable\<close> (512 entries) is a function
  on \<open>9 word\<close> and an index is in range by its type.
\<close>

type_synonym virt_addr = u64
type_synonym page_flags = u64
type_synonym pte = u64
type_synonym pt_index = "9 word"
type_synonym page_table = "pt_index \<Rightarrow> pte"

subsection \<open>Canonical addresses and table indices\<close>

definition is_canonical :: "u64 \<Rightarrow> bool" where
  "is_canonical addr =
     (let sign_ext = signed_drop_bit 47 addr in sign_ext = 0 \<or> sign_ext = - 1)"

definition canonical_virt :: "u64 \<Rightarrow> virt_addr" where
  "canonical_virt phys =
     (if phys AND push_bit 47 1 \<noteq> 0 then phys OR 0xFFFF000000000000
      else phys AND 0x0000FFFFFFFFFFFF)"

definition va_is_aligned :: "virt_addr \<Rightarrow> bool" where
  "va_is_aligned va = (va mod PAGE_SIZE = 0)"

definition pml4_index :: "virt_addr \<Rightarrow> pt_index" where
  "pml4_index va = ucast (drop_bit 39 va AND 0x1FF)"

definition pdpt_index :: "virt_addr \<Rightarrow> pt_index" where
  "pdpt_index va = ucast (drop_bit 30 va AND 0x1FF)"

definition pd_index :: "virt_addr \<Rightarrow> pt_index" where
  "pd_index va = ucast (drop_bit 21 va AND 0x1FF)"

definition pt_index_of :: "virt_addr \<Rightarrow> pt_index" where
  "pt_index_of va = ucast (drop_bit 12 va AND 0x1FF)"

definition page_offset :: "virt_addr \<Rightarrow> u64" where
  "page_offset va = va AND 0xFFF"

subsection \<open>Permissions and flags\<close>

definition FLAG_PRESENT :: page_flags where [kernel_consts]: "FLAG_PRESENT = push_bit 0 1"
definition FLAG_WRITABLE :: page_flags where [kernel_consts]: "FLAG_WRITABLE = push_bit 1 1"
definition FLAG_USER :: page_flags where [kernel_consts]: "FLAG_USER = push_bit 2 1"
definition FLAG_WRITE_THROUGH :: page_flags where [kernel_consts]: "FLAG_WRITE_THROUGH = push_bit 3 1"
definition FLAG_NO_CACHE :: page_flags where [kernel_consts]: "FLAG_NO_CACHE = push_bit 4 1"
definition FLAG_HUGE_PAGE :: page_flags where [kernel_consts]: "FLAG_HUGE_PAGE = push_bit 7 1"
definition FLAG_NO_EXECUTE :: page_flags where [kernel_consts]: "FLAG_NO_EXECUTE = push_bit 63 1"

definition FLAGS_MMIO :: page_flags where [kernel_consts]:
  "FLAGS_MMIO = FLAG_PRESENT OR FLAG_WRITABLE OR FLAG_NO_CACHE OR FLAG_WRITE_THROUGH
     OR FLAG_NO_EXECUTE"

record virt_permissions =
  readable :: bool
  writable :: bool
  executable :: bool
  user :: bool

definition PERM_KERNEL_CODE :: virt_permissions where
  "PERM_KERNEL_CODE = \<lparr>readable = True, writable = False, executable = True, user = False\<rparr>"

definition PERM_KERNEL_DATA :: virt_permissions where
  "PERM_KERNEL_DATA = \<lparr>readable = True, writable = True, executable = False, user = False\<rparr>"

definition PERM_KERNEL_RODATA :: virt_permissions where
  "PERM_KERNEL_RODATA = \<lparr>readable = True, writable = False, executable = False, user = False\<rparr>"

definition PERM_MMIO :: virt_permissions where
  "PERM_MMIO = \<lparr>readable = True, writable = True, executable = False, user = False\<rparr>"

definition to_page_flags :: "virt_permissions \<Rightarrow> page_flags" where
  "to_page_flags p =
     (let f0 = FLAG_PRESENT;
          f1 = (if writable p then f0 OR FLAG_WRITABLE else f0);
          f2 = (if user p then f1 OR FLAG_USER else f1);
          f3 = (if \<not> executable p then f2 OR FLAG_NO_EXECUTE else f2)
      in f3)"

subsection \<open>Page-table entries\<close>

definition is_present :: "pte \<Rightarrow> bool" where
  "is_present e \<longleftrightarrow> e AND FLAG_PRESENT \<noteq> 0"

definition pte_flags :: "pte \<Rightarrow> page_flags" where
  "pte_flags e = e AND (0xFFF0000000000FFF OR push_bit 63 1)"

definition pte_phys_addr :: "pte \<Rightarrow> u64" where
  "pte_phys_addr e = e AND 0x000FFFFFFFFFF000"

definition pte_set :: "u64 \<Rightarrow> page_flags \<Rightarrow> pte" where
  "pte_set phys flags = (phys AND 0x000FFFFFFFFFF000) OR flags"

definition is_huge :: "pte \<Rightarrow> bool" where
  "is_huge e \<longleftrightarrow> pte_flags e AND FLAG_HUGE_PAGE \<noteq> 0"

definition zero_table :: page_table where
  "zero_table = (\<lambda>_. 0)"

subsection \<open>Bits of the masks\<close>

lemma addr_mask: "(0x000FFFFFFFFFF000 :: u64) = push_bit 12 (mask 40)"
  by (simp add: mask_eq_exp_minus_1)

lemma flags_mask: "(0xFFF0000000000FFF OR push_bit 63 1 :: u64) = NOT (push_bit 12 (mask 40))"
  by (simp add: mask_eq_exp_minus_1)

lemma bit_addr_mask [bit_simps]: "bit (0x000FFFFFFFFFF000 :: u64) i \<longleftrightarrow> 12 \<le> i \<and> i < 52"
  unfolding addr_mask by (auto simp: bit_push_bit_iff bit_mask_iff)

lemma bit_phys_addr [bit_simps]: "bit (pte_phys_addr e) i \<longleftrightarrow> bit e i \<and> 12 \<le> i \<and> i < 52"
  unfolding pte_phys_addr_def addr_mask by (auto simp: bit_and_iff bit_push_bit_iff bit_mask_iff)

lemma bit_pte_flags [bit_simps]: "bit (pte_flags e) i \<longleftrightarrow> bit e i \<and> \<not> (12 \<le> i \<and> i < 52)"
  unfolding pte_flags_def flags_mask
  by (auto simp: bit_and_iff bit_not_iff bit_push_bit_iff bit_mask_iff dest: bit_imp_le_length)

lemma bit_pte_set [bit_simps]:
  "bit (pte_set a f) i \<longleftrightarrow> (bit a i \<and> 12 \<le> i \<and> i < 52) \<or> bit f i"
  unfolding pte_set_def addr_mask
  by (auto simp: bit_or_iff bit_and_iff bit_push_bit_iff bit_mask_iff)

lemma is_present_bit: "is_present e \<longleftrightarrow> bit e 0"
  using and_exp_eq_0 [of 0 e] by (simp add: is_present_def FLAG_PRESENT_def)

lemma is_huge_bit: "is_huge e \<longleftrightarrow> bit e 7"
  using and_exp_eq_0 [of 7 "pte_flags e"] by (simp add: is_huge_def FLAG_HUGE_PAGE_def bit_simps)

lemma bit_push_bit_1: "bit (push_bit k 1 :: u64) i \<longleftrightarrow> i = k \<and> k < 64"
  using bit_exp_u64 [of k i] by (simp only: push_bit_of_1)

lemma bit_FLAGS [bit_simps]:
  "bit FLAG_PRESENT i \<longleftrightarrow> i = 0" "bit FLAG_WRITABLE i \<longleftrightarrow> i = 1" "bit FLAG_USER i \<longleftrightarrow> i = 2"
  "bit FLAG_WRITE_THROUGH i \<longleftrightarrow> i = 3" "bit FLAG_NO_CACHE i \<longleftrightarrow> i = 4"
  "bit FLAG_HUGE_PAGE i \<longleftrightarrow> i = 7" "bit FLAG_NO_EXECUTE i \<longleftrightarrow> i = 63"
  unfolding FLAG_PRESENT_def FLAG_WRITABLE_def FLAG_USER_def FLAG_WRITE_THROUGH_def
    FLAG_NO_CACHE_def FLAG_HUGE_PAGE_def FLAG_NO_EXECUTE_def bit_push_bit_1
  by simp_all

lemma zero_entry [simp]: "\<not> is_present 0" "\<not> is_huge 0" "pte_phys_addr 0 = 0"
  by (simp_all add: is_present_bit is_huge_bit pte_phys_addr_def)

lemma zero_table_apply [simp]: "zero_table i = 0"
  by (simp add: zero_table_def)

subsection \<open>Reading back an entry\<close>

text \<open>The bits an entry reserves for the frame address.\<close>

definition flags_clean :: "page_flags \<Rightarrow> bool" where
  "flags_clean f \<longleftrightarrow> pte_phys_addr f = 0"

lemma flags_clean_bit: "flags_clean f \<Longrightarrow> 12 \<le> i \<Longrightarrow> i < 52 \<Longrightarrow> \<not> bit f i"
  using bit_phys_addr [of f i] by (simp add: flags_clean_def)

lemma flags_cleanI:
  assumes "\<And>i. 12 \<le> i \<Longrightarrow> i < 52 \<Longrightarrow> \<not> bit f i"
  shows "flags_clean f"
  unfolding flags_clean_def using assms by (intro bit_word_eqI) (auto simp: bit_phys_addr)

lemma flags_clean_or: "flags_clean f \<Longrightarrow> flags_clean g \<Longrightarrow> flags_clean (f OR g)"
  by (rule flags_cleanI) (auto simp: bit_or_iff dest: flags_clean_bit)

lemma flags_clean_consts [simp]:
  "flags_clean FLAG_PRESENT" "flags_clean FLAG_WRITABLE" "flags_clean FLAG_USER"
  "flags_clean FLAG_WRITE_THROUGH" "flags_clean FLAG_NO_CACHE" "flags_clean FLAG_HUGE_PAGE"
  "flags_clean FLAG_NO_EXECUTE" "flags_clean FLAGS_MMIO"
  unfolding FLAGS_MMIO_def by (auto intro!: flags_cleanI simp: bit_FLAGS bit_or_iff)

lemma to_page_flags_clean [simp]: "flags_clean (to_page_flags p)"
  by (simp add: to_page_flags_def flags_clean_or)

lemma bit_to_page_flags [bit_simps]:
  "bit (to_page_flags p) i \<longleftrightarrow>
     i = 0 \<or> (i = 1 \<and> writable p) \<or> (i = 2 \<and> user p) \<or> (i = 63 \<and> \<not> executable p)"
  by (auto simp: to_page_flags_def bit_or_iff bit_FLAGS)

lemma pte_phys_addr_set:
  "flags_clean f \<Longrightarrow> pte_phys_addr (pte_set a f) = pte_phys_addr a"
  by (rule bit_word_eqI) (auto simp: bit_phys_addr bit_pte_set dest: flags_clean_bit)

lemma pte_flags_set: "flags_clean f \<Longrightarrow> pte_flags (pte_set a f) = f"
  by (rule bit_word_eqI) (auto simp: bit_pte_flags bit_pte_set dest: flags_clean_bit)

lemma is_present_set: "is_present (pte_set a f) \<longleftrightarrow> is_present f"
  by (simp add: is_present_bit bit_pte_set)

lemma is_huge_set: "is_huge (pte_set a f) \<longleftrightarrow> is_huge f"
  by (simp add: is_huge_bit bit_pte_set)

lemma present_or: "is_present (f OR g) \<longleftrightarrow> is_present f \<or> is_present g"
  by (simp add: is_present_bit bit_or_iff)

lemma huge_or: "is_huge (f OR g) \<longleftrightarrow> is_huge f \<or> is_huge g"
  by (simp add: is_huge_bit bit_or_iff)

lemma flag_bits [simp]:
  "is_present FLAG_PRESENT" "\<not> is_present FLAG_WRITABLE" "\<not> is_present FLAG_HUGE_PAGE"
  "\<not> is_huge FLAG_PRESENT" "\<not> is_huge FLAG_WRITABLE" "is_huge FLAG_HUGE_PAGE"
  "is_present (to_page_flags p)" "\<not> is_huge (to_page_flags p)"
  by (simp_all add: is_present_bit is_huge_bit bit_FLAGS bit_to_page_flags)

text \<open>A frame address that fits the entry format: page aligned and below \<open>2 ^ 52\<close>.\<close>

definition frame_addr :: "u64 \<Rightarrow> bool" where
  "frame_addr a \<longleftrightarrow> pte_phys_addr a = a"

lemma frame_addr_pte [simp]: "frame_addr (pte_phys_addr e)"
  unfolding frame_addr_def by (rule bit_word_eqI) (auto simp: bit_phys_addr)

lemma aligned_bits: "a mod 4096 = 0 \<longleftrightarrow> (\<forall>i<12. \<not> bit (a :: u64) i)"
proof -
  have m: "a mod 4096 = take_bit 12 a" by (simp add: take_bit_eq_mod)
  show ?thesis
    unfolding m
  proof
    assume z: "take_bit 12 a = 0"
    show "\<forall>i<12. \<not> bit a i"
    proof (intro allI impI)
      fix i :: nat assume "i < 12"
      then have "bit (take_bit 12 a) i \<longleftrightarrow> bit a i" by (simp add: bit_take_bit_iff)
      then show "\<not> bit a i" by (simp add: z)
    qed
  next
    assume "\<forall>i<12. \<not> bit a i"
    then show "take_bit 12 a = 0" by (intro bit_word_eqI) (auto simp: bit_take_bit_iff)
  qed
qed

lemma frame_addrI:
  assumes "a mod 4096 = 0" and "unat a < 2 ^ 52"
  shows "frame_addr a"
proof -
  have "take_bit 52 a = a"
    using assms(2) by (intro word_unat_eq_iff [THEN iffD2]) (simp add: unsigned_take_bit_eq take_bit_nat_eq_self)
  then have "\<And>i. bit a i \<Longrightarrow> i < 52"
    by (metis bit_take_bit_iff)
  with assms(1) show ?thesis
    unfolding frame_addr_def aligned_bits
    by (intro bit_word_eqI) (auto simp: bit_phys_addr not_less)
qed

subsection \<open>Canonical addresses are determined by their indices\<close>

lemma bit_signed_drop: "i < 64 \<Longrightarrow> bit (signed_drop_bit 47 (a :: u64)) i \<longleftrightarrow> bit a (if i < 17 then 47 + i else 63)"
  by (auto simp: bit_signed_drop_bit_iff)

lemma is_canonical_bits: "is_canonical a \<longleftrightarrow> (\<forall>i. 47 \<le> i \<and> i < 64 \<longrightarrow> bit a i = bit a 47)"
proof
  assume "is_canonical a"
  then have "signed_drop_bit 47 a = 0 \<or> signed_drop_bit 47 a = - 1"
    by (simp add: is_canonical_def Let_def)
  then obtain c where c: "\<And>i. i < 64 \<Longrightarrow> bit (signed_drop_bit 47 a) i = c"
  proof
    assume "signed_drop_bit 47 a = 0"
    then show thesis by (intro that [of False]) simp
  next
    assume "signed_drop_bit 47 a = - 1"
    then show thesis by (intro that [of True]) simp
  qed
  have "bit a i = c" if "47 \<le> i" "i < 64" for i
  proof -
    have "i - 47 < 64" "i - 47 < 17" using that by simp_all
    with c [of "i - 47"] bit_signed_drop [of "i - 47" a] that(1) show ?thesis by simp
  qed
  from this this [of 47] show "\<forall>i. 47 \<le> i \<and> i < 64 \<longrightarrow> bit a i = bit a 47" by fastforce
next
  assume eq: "\<forall>i. 47 \<le> i \<and> i < 64 \<longrightarrow> bit a i = bit a 47"
  have b: "bit (signed_drop_bit 47 a) i = bit a 47" if "i < 64" for i
  proof -
    have "47 \<le> (if i < 17 then 47 + i else 63) \<and> (if i < 17 then 47 + i else 63) < 64" by auto
    with eq have "bit a (if i < 17 then 47 + i else 63) = bit a 47" by blast
    with bit_signed_drop [OF that, of a] show ?thesis by simp
  qed
  show "is_canonical a"
  proof (cases "bit a 47")
    case True
    with b have "signed_drop_bit 47 a = - 1" by (intro bit_word_eqI) simp
    then show ?thesis by (simp add: is_canonical_def)
  next
    case False
    with b have "signed_drop_bit 47 a = 0" by (intro bit_word_eqI) simp
    then show ?thesis by (simp add: is_canonical_def)
  qed
qed

lemma bit_mask9: "bit (0x1FF :: u64) i \<longleftrightarrow> i < 9"
proof -
  have "(0x1FF :: u64) = mask 9" by (simp add: mask_eq_exp_minus_1)
  then show ?thesis by (simp only: bit_mask_iff) auto
qed

lemma bit_index_slice:
  "bit (ucast (drop_bit k (va :: u64) AND 0x1FF) :: pt_index) i \<longleftrightarrow> i < 9 \<and> bit va (k + i)"
  unfolding bit_unsigned_iff bit_and_iff bit_mask9 bit_drop_bit_eq by auto

lemma bit_indices [bit_simps]:
  "bit (pml4_index va) i \<longleftrightarrow> i < 9 \<and> bit va (39 + i)"
  "bit (pdpt_index va) i \<longleftrightarrow> i < 9 \<and> bit va (30 + i)"
  "bit (pd_index va) i \<longleftrightarrow> i < 9 \<and> bit va (21 + i)"
  "bit (pt_index_of va) i \<longleftrightarrow> i < 9 \<and> bit va (12 + i)"
  unfolding pml4_index_def pdpt_index_def pd_index_def pt_index_of_def
  by (simp_all only: bit_index_slice)

text \<open>The indices of a virtual address, from the root downwards.\<close>

definition va_path :: "virt_addr \<Rightarrow> pt_index list" where
  "va_path va = [pml4_index va, pdpt_index va, pd_index va, pt_index_of va]"

definition same_page :: "virt_addr \<Rightarrow> virt_addr \<Rightarrow> bool" where
  "same_page a b \<longleftrightarrow> drop_bit 12 a = drop_bit 12 b"

lemma length_va_path [simp]: "length (va_path va) = 4"
  by (simp add: va_path_def)

lemma length_u64: "LENGTH(64) = 64"
  by simp

lemma same_page_bits: "same_page a b \<longleftrightarrow> (\<forall>i. 12 \<le> i \<and> i < 64 \<longrightarrow> bit a i = bit b i)"
proof
  assume "same_page a b"
  then have "bit (drop_bit 12 a) j = bit (drop_bit 12 b) j" for j by (simp add: same_page_def)
  then have "bit a (12 + j) = bit b (12 + j)" for j by (simp add: bit_drop_bit_eq)
  then show "\<forall>i. 12 \<le> i \<and> i < 64 \<longrightarrow> bit a i = bit b i" by (metis le_add_diff_inverse)
next
  assume "\<forall>i. 12 \<le> i \<and> i < 64 \<longrightarrow> bit a i = bit b i"
  then show "same_page a b"
    unfolding same_page_def
    by (intro bit_word_eqI) (simp add: bit_drop_bit_eq, metis bit_imp_le_length le_add1 length_u64)
qed

lemma va_path_bits:
  assumes "va_path a = va_path b" and "12 \<le> i" and "i < 48"
  shows "bit a i = bit b i"
proof -
  have eq: "bit (pml4_index a) j = bit (pml4_index b) j" "bit (pdpt_index a) j = bit (pdpt_index b) j"
    "bit (pd_index a) j = bit (pd_index b) j" "bit (pt_index_of a) j = bit (pt_index_of b) j" for j
    using assms(1) by (simp_all add: va_path_def)
  have slice: "bit a (k + j) = bit b (k + j)" if "k \<in> {12, 21, 30, 39}" "j < 9" for j k
    using that eq [of j] by (auto simp: bit_indices)
  consider j where "i = 12 + j" "j < 9" | j where "i = 21 + j" "j < 9"
    | j where "i = 30 + j" "j < 9" | j where "i = 39 + j" "j < 9"
    using assms(2,3) by (cases "i < 21"; cases "i < 30"; cases "i < 39")
      (force simp: le_iff_add not_less)+
  then show ?thesis using slice by cases simp_all
qed

lemma va_path_eq_iff:
  assumes "is_canonical a" and "is_canonical b"
  shows "va_path a = va_path b \<longleftrightarrow> same_page a b"
proof
  assume p: "va_path a = va_path b"
  have "bit a i = bit b i" if "12 \<le> i" "i < 64" for i
  proof (cases "i < 48")
    case True
    with p that show ?thesis by (intro va_path_bits)
  next
    case False
    then have "47 \<le> i" by simp
    with that assms have "bit a i = bit a 47" "bit b i = bit b 47"
      unfolding is_canonical_bits by blast+
    moreover have "bit a 47 = bit b 47" by (rule va_path_bits [OF p]) simp_all
    ultimately show ?thesis by simp
  qed
  then show "same_page a b" by (simp add: same_page_bits)
next
  assume "same_page a b"
  then have eq: "\<And>i. 12 \<le> i \<Longrightarrow> i < 64 \<Longrightarrow> bit a i = bit b i" by (simp add: same_page_bits)
  have "pml4_index a = pml4_index b" by (rule bit_word_eqI) (simp add: bit_indices eq)
  moreover have "pdpt_index a = pdpt_index b" by (rule bit_word_eqI) (simp add: bit_indices eq)
  moreover have "pd_index a = pd_index b" by (rule bit_word_eqI) (simp add: bit_indices eq)
  moreover have "pt_index_of a = pt_index_of b" by (rule bit_word_eqI) (simp add: bit_indices eq)
  ultimately show "va_path a = va_path b" by (simp add: va_path_def)
qed

lemma same_page_refl [simp]: "same_page a a"
  by (simp add: same_page_def)

lemma same_page_aligned:
  assumes "va_is_aligned a" and "va_is_aligned b"
  shows "same_page a b \<longleftrightarrow> a = b"
proof
  assume "same_page a b"
  then have hi: "\<And>i. 12 \<le> i \<Longrightarrow> i < 64 \<Longrightarrow> bit a i = bit b i" by (simp add: same_page_bits)
  have lo: "\<And>i. i < 12 \<Longrightarrow> \<not> bit a i \<and> \<not> bit b i"
    using assms by (simp add: va_is_aligned_def aligned_bits)
  show "a = b"
  proof (rule bit_word_eqI)
    fix i assume "i < LENGTH(64)"
    then show "bit a i = bit b i" using hi [of i] lo [of i] by (cases "i < 12") simp_all
  qed
qed simp

lemma canonical_virt_canonical: "is_canonical (canonical_virt a)"
proof -
  have hi: "(0xFFFF000000000000 :: u64) = NOT (mask 48)"
    and lo: "(0x0000FFFFFFFFFFFF :: u64) = mask 48"
    by (simp_all add: mask_eq_exp_minus_1)
  have c: "a AND push_bit 47 1 \<noteq> 0 \<longleftrightarrow> bit a 47"
    using and_exp_eq_0 [of 47 a] by (simp only: push_bit_of_1) simp
  show ?thesis
    unfolding is_canonical_bits canonical_virt_def c hi lo
    by (auto simp: bit_or_iff bit_and_iff bit_not_iff bit_mask_iff less_Suc_eq_le
        dest: le_antisym)
qed

subsection \<open>Properties\<close>

text \<open>A canonical address is determined by its four table indices and its page offset, so
  distinct canonical pages never share a page-table slot.\<close>
theorem canonical_address_determined:
  assumes "is_canonical a" and "is_canonical b"
  shows "a = b \<longleftrightarrow> pml4_index a = pml4_index b \<and> pdpt_index a = pdpt_index b
    \<and> pd_index a = pd_index b \<and> pt_index_of a = pt_index_of b \<and> page_offset a = page_offset b"
proof
  assume "pml4_index a = pml4_index b \<and> pdpt_index a = pdpt_index b
    \<and> pd_index a = pd_index b \<and> pt_index_of a = pt_index_of b \<and> page_offset a = page_offset b"
  then have p: "va_path a = va_path b" and o: "page_offset a = page_offset b"
    by (simp_all add: va_path_def)
  from p assms have hi: "\<And>i. 12 \<le> i \<Longrightarrow> i < 64 \<Longrightarrow> bit a i = bit b i"
    by (simp add: va_path_eq_iff same_page_bits)
  have m: "(0xFFF :: u64) = mask 12" by (simp add: mask_eq_exp_minus_1)
  have lo: "bit a i = bit b i" if "i < 12" for i
  proof -
    have "bit (a AND mask 12) i = bit (b AND mask 12) i"
      using o unfolding page_offset_def m by simp
    then show ?thesis using that by (simp add: bit_and_iff bit_mask_iff)
  qed
  show "a = b"
  proof (rule bit_word_eqI)
    fix i assume "i < LENGTH(64)"
    then show "bit a i = bit b i" using hi [of i] lo [of i] by (cases "i < 12") simp_all
  qed
qed simp

theorem canonical_address_determined_witness:
  "is_canonical 0xFFFF800000001000 \<and> is_canonical 0x1000
     \<and> pml4_index 0xFFFF800000001000 \<noteq> pml4_index 0x1000"
proof -
  have c: "is_canonical 0xFFFF800000001000" "is_canonical 0x1000"
    by (simp_all add: is_canonical_def Let_def)
  have "pdpt_index 0xFFFF800000001000 = pdpt_index 0x1000" "pd_index 0xFFFF800000001000 = pd_index 0x1000"
    "pt_index_of 0xFFFF800000001000 = pt_index_of 0x1000" "page_offset 0xFFFF800000001000 = page_offset 0x1000"
    by (simp_all add: pdpt_index_def pd_index_def pt_index_of_def page_offset_def)
  with canonical_address_determined [OF c] c show ?thesis by auto
qed

text \<open>Writing an entry and reading it back gives the frame address and the flags that were
  written, and the flags of a permission record say exactly what the record says.\<close>
theorem pte_set_reads_back:
  assumes "frame_addr a"
  shows "pte_phys_addr (pte_set a (to_page_flags p)) = a
    \<and> pte_flags (pte_set a (to_page_flags p)) = to_page_flags p
    \<and> is_present (pte_set a (to_page_flags p)) \<and> \<not> is_huge (pte_set a (to_page_flags p))
    \<and> (to_page_flags p AND FLAG_WRITABLE \<noteq> 0 \<longleftrightarrow> writable p)
    \<and> (to_page_flags p AND FLAG_USER \<noteq> 0 \<longleftrightarrow> user p)
    \<and> (to_page_flags p AND FLAG_NO_EXECUTE \<noteq> 0 \<longleftrightarrow> \<not> executable p)"
proof -
  have nz: "to_page_flags p AND push_bit k 1 \<noteq> 0 \<longleftrightarrow> bit (to_page_flags p) k" if "k < 64" for k
    using and_exp_eq_0 [OF that, of "to_page_flags p"] by (simp only: push_bit_of_1) simp
  show ?thesis
    using assms nz [of 1] nz [of 2] nz [of 63]
    unfolding FLAG_WRITABLE_def FLAG_USER_def FLAG_NO_EXECUTE_def
    by (simp add: pte_phys_addr_set pte_flags_set is_present_set is_huge_set frame_addr_def
        bit_to_page_flags del: push_bit_of_1)
qed

theorem pte_set_reads_back_witness:
  "frame_addr 0x5000 \<and> pte_phys_addr (pte_set 0x5000 (to_page_flags PERM_KERNEL_DATA)) = 0x5000"
proof -
  have f: "frame_addr 0x5000" by (simp add: frame_addr_def pte_phys_addr_def)
  with pte_set_reads_back [OF f] show ?thesis by blast
qed

end
