(* ===== verification/Page_Forest.thy ===== *)
theory Page_Forest
  imports Paging
begin

text \<open>
  The page tables in memory as a forest.  Physical memory, as far as the kernel uses it for
  page tables, maps the base address of a frame to the 512 entries stored there; the kernel
  reaches a table through its physical address (it runs on an identity mapping), and every
  address read from an entry is masked to a frame base.

  The theory holds what the hardware does with the tables (\<open>mmu_translate\<close>, which knows 1 GiB
  and 2 MiB pages), the separation invariant \<open>forest\<close> for a set of root tables that may share
  the subtrees of the kernel slots, and how the two elementary changes the kernel makes, writing
  one entry and linking a fresh zeroed table, act on every translation of every root.
\<close>

type_synonym phys_mem = "u64 \<Rightarrow> page_table"

definition write_entry :: "phys_mem \<Rightarrow> u64 \<Rightarrow> pt_index \<Rightarrow> pte \<Rightarrow> phys_mem" where
  "write_entry m t i e = m(t := (m t)(i := e))"

subsection \<open>The hardware walk\<close>

fun xlate :: "phys_mem \<Rightarrow> u64 \<Rightarrow> pt_index list \<Rightarrow> (pte \<times> pt_index list) option" where
  "xlate m t [] = None"
| "xlate m t (i # p) =
     (let e = m t i in
      if \<not> is_present e then None
      else if p = [] \<or> is_huge e then Some (e, p)
      else xlate m (pte_phys_addr e) p)"

text \<open>The result of the walk is a leaf entry with the indices that were not consumed: none for
  a 4 KiB page, one for a 2 MiB page and two for a 1 GiB page.  Bit 7 of a PML4 entry is reserved
  and faults.\<close>

definition mmu_translate :: "phys_mem \<Rightarrow> u64 \<Rightarrow> virt_addr \<Rightarrow> (u64 \<times> page_flags) option" where
  "mmu_translate m root va =
     (if \<not> is_canonical va then None
      else case xlate m root (va_path va) of
        None \<Rightarrow> None
      | Some (e, rest) \<Rightarrow>
          (if length rest = 3 then None
           else let k = 12 + 9 * length rest in
             Some ((pte_phys_addr e AND NOT (mask k)) OR (va AND mask k), pte_flags e)))"

text \<open>The table an entry refers to, when it refers to one.\<close>

definition pte_table :: "pte \<Rightarrow> u64 option" where
  "pte_table e = (if is_present e \<and> \<not> is_huge e then Some (pte_phys_addr e) else None)"

fun walk :: "phys_mem \<Rightarrow> u64 \<Rightarrow> pt_index list \<Rightarrow> u64 option" where
  "walk m t [] = Some t"
| "walk m t (i # p) =
     (case pte_table (m t i) of None \<Rightarrow> None | Some t' \<Rightarrow> walk m t' p)"

lemma pte_table_zero [simp]: "pte_table 0 = None"
  by (simp add: pte_table_def)

lemma walk_append:
  "walk m t (p @ q) = (case walk m t p of None \<Rightarrow> None | Some t' \<Rightarrow> walk m t' q)"
  by (induction p arbitrary: t) (auto split: option.splits)

lemma walk_snoc:
  "walk m t (p @ [i]) = (case walk m t p of None \<Rightarrow> None | Some t' \<Rightarrow> pte_table (m t' i))"
  by (auto simp: walk_append split: option.splits)

lemma walk_prefix: "walk m t (p @ q) = Some u \<Longrightarrow> \<exists>v. walk m t p = Some v \<and> walk m v q = Some u"
  by (auto simp: walk_append split: option.splits)

lemma xlate_walk:
  "walk m t p = Some u \<Longrightarrow> q \<noteq> [] \<Longrightarrow> xlate m t (p @ q) = xlate m u q"
  by (induction p arbitrary: t) (auto simp: pte_table_def split: option.splits if_splits)

text \<open>A walk reads one entry per table it passes; where those are unchanged, so is its
  result.\<close>

lemma walk_cong:
  assumes "\<And>u j v w. p = u @ j # v \<Longrightarrow> walk m t u = Some w \<Longrightarrow> m' w j = m w j"
  shows "walk m' t p = walk m t p"
  using assms
proof (induction p arbitrary: t)
  case (Cons i p)
  have head: "m' t i = m t i" using Cons.prems [of "[]" i p t] by simp
  show ?case
  proof (cases "pte_table (m t i)")
    case (Some t')
    have "walk m' t' p = walk m t' p"
    proof (rule Cons.IH)
      fix u j v w assume "p = u @ j # v" "walk m t' u = Some w"
      then show "m' w j = m w j" using Cons.prems [of "i # u" j v w] Some by simp
    qed
    with head Some show ?thesis by simp
  qed (simp add: head)
qed simp

lemma xlate_cong:
  assumes "\<And>u j v w. p = u @ j # v \<Longrightarrow> walk m t u = Some w \<Longrightarrow> m' w j = m w j"
  shows "xlate m' t p = xlate m t p"
  using assms
proof (induction p arbitrary: t)
  case (Cons i p)
  have head: "m' t i = m t i" using Cons.prems [of "[]" i p t] by simp
  show ?case
  proof (cases "pte_table (m t i)")
    case (Some t')
    have "xlate m' t' p = xlate m t' p"
    proof (rule Cons.IH)
      fix u j v w assume "p = u @ j # v" "walk m t' u = Some w"
      then show "m' w j = m w j" using Cons.prems [of "i # u" j v w] Some by simp
    qed
    with head Some show ?thesis by (simp add: pte_table_def Let_def split: if_splits)
  next
    case None
    with head show ?thesis by (auto simp: pte_table_def Let_def split: if_splits)
  qed
qed simp

subsection \<open>The separation invariant\<close>

text \<open>Every address space shares slot 0 (the identity map of low memory) and the kernel half
  with the kernel's own root.\<close>

definition shared_slot :: "pt_index \<Rightarrow> bool" where
  "shared_slot i \<longleftrightarrow> i = 0 \<or> 256 \<le> i"

definition same_subtree :: "u64 \<Rightarrow> u64 \<Rightarrow> pt_index list \<Rightarrow> bool" where
  "same_subtree r r' p \<longleftrightarrow> r = r' \<or> (p \<noteq> [] \<and> shared_slot (hd p))"

definition forest :: "phys_mem \<Rightarrow> u64 set \<Rightarrow> u64 set \<Rightarrow> bool" where
  "forest m R A \<longleftrightarrow>
     (\<forall>r\<in>R. \<forall>p t. length p \<le> 3 \<longrightarrow> walk m r p = Some t \<longrightarrow> t \<notin> A)
     \<and> (\<forall>r\<in>R. \<forall>r'\<in>R. \<forall>p q t. length p \<le> 3 \<longrightarrow> length q \<le> 3 \<longrightarrow>
          walk m r p = Some t \<longrightarrow> walk m r' q = Some t \<longrightarrow> p = q \<and> same_subtree r r' p)
     \<and> (\<forall>r\<in>R. \<forall>r'\<in>R. r \<noteq> r' \<longrightarrow> (\<forall>i. shared_slot i \<longrightarrow> m r i = m r' i \<and> is_present (m r i)))"

lemma forest_avoid:
  "forest m R A \<Longrightarrow> r \<in> R \<Longrightarrow> length p \<le> 3 \<Longrightarrow> walk m r p = Some t \<Longrightarrow> t \<notin> A"
  by (simp add: forest_def)

lemma forest_inj:
  assumes "forest m R A" and "r \<in> R" and "r' \<in> R" and "length p \<le> 3" and "length q \<le> 3"
    and "walk m r p = Some t" and "walk m r' q = Some t"
  shows "p = q \<and> same_subtree r r' p"
  using assms unfolding forest_def by blast

lemma forest_shared:
  "forest m R A \<Longrightarrow> r \<in> R \<Longrightarrow> r' \<in> R \<Longrightarrow> shared_slot i \<Longrightarrow> m r i = m r' i"
  unfolding forest_def by (cases "r = r'") blast+

lemma forest_shared_present:
  "forest m R A \<Longrightarrow> r \<in> R \<Longrightarrow> r' \<in> R \<Longrightarrow> r \<noteq> r' \<Longrightarrow> shared_slot i \<Longrightarrow> is_present (m r i)"
  unfolding forest_def by blast

lemma forestI:
  assumes "\<And>r p t. r \<in> R \<Longrightarrow> length p \<le> 3 \<Longrightarrow> walk m r p = Some t \<Longrightarrow> t \<notin> A"
    and "\<And>r r' p q t. r \<in> R \<Longrightarrow> r' \<in> R \<Longrightarrow> length p \<le> 3 \<Longrightarrow> length q \<le> 3 \<Longrightarrow>
      walk m r p = Some t \<Longrightarrow> walk m r' q = Some t \<Longrightarrow> p = q \<and> same_subtree r r' p"
    and "\<And>r r' i. r \<in> R \<Longrightarrow> r' \<in> R \<Longrightarrow> r \<noteq> r' \<Longrightarrow> shared_slot i \<Longrightarrow>
      m r i = m r' i \<and> is_present (m r i)"
  shows "forest m R A"
  unfolding forest_def
proof (intro conjI)
  show "\<forall>r\<in>R. \<forall>p t. length p \<le> 3 \<longrightarrow> walk m r p = Some t \<longrightarrow> t \<notin> A"
    using assms(1) by simp
  show "\<forall>r\<in>R. \<forall>r'\<in>R. \<forall>p q t. length p \<le> 3 \<longrightarrow> length q \<le> 3 \<longrightarrow>
      walk m r p = Some t \<longrightarrow> walk m r' q = Some t \<longrightarrow> p = q \<and> same_subtree r r' p"
    by (intro ballI allI impI) (rule assms(2))
  show "\<forall>r\<in>R. \<forall>r'\<in>R. r \<noteq> r' \<longrightarrow> (\<forall>i. shared_slot i \<longrightarrow> m r i = m r' i \<and> is_present (m r i))"
    by (intro ballI allI impI) (rule assms(3))
qed

lemma forest_mono:
  assumes "forest m R A" and "B \<subseteq> A" and "R' \<subseteq> R"
  shows "forest m R' B"
proof (rule forestI)
  show "t \<notin> B" if "r \<in> R'" "length p \<le> 3" "walk m r p = Some t" for r p t
    using forest_avoid [OF assms(1), of r p t] that assms(2,3) by blast
next
  show "p = q \<and> same_subtree r r' p"
    if "r \<in> R'" "r' \<in> R'" "length p \<le> 3" "length q \<le> 3" "walk m r p = Some t"
      "walk m r' q = Some t" for r r' p q t
    using forest_inj [OF assms(1), of r r' p q t] that assms(3) by blast
next
  show "m r i = m r' i \<and> is_present (m r i)" if "r \<in> R'" "r' \<in> R'" "r \<noteq> r'" "shared_slot i" for r r' i
    using forest_shared [OF assms(1), of r r' i] forest_shared_present [OF assms(1), of r r' i]
      that assms(3) by blast
qed

lemma walk_same_subtree:
  assumes "forest m R A" and "r \<in> R" and "r' \<in> R" and "same_subtree r r' p" and "p \<noteq> []"
  shows "walk m r' p = walk m r p"
proof (cases p)
  case (Cons i q)
  with assms have "m r' i = m r i"
    using forest_shared [of m R A r' r i] by (auto simp: same_subtree_def)
  with Cons show ?thesis by simp
qed (use assms in simp)

lemma same_subtree_sym: "same_subtree r r' p \<longleftrightarrow> same_subtree r' r p"
  by (auto simp: same_subtree_def)

lemma same_subtree_append: "same_subtree r r' p \<Longrightarrow> same_subtree r r' (p @ q)"
  by (auto simp: same_subtree_def)

subsection \<open>Writing one entry\<close>

lemma write_entry_apply: "write_entry m t i e u j = (if u = t \<and> j = i then e else m u j)"
  by (simp add: write_entry_def)

lemma write_entry_reads:
  assumes "forest m R A" and "r \<in> R" and "walk m r p = Some t" and "length p \<le> 3"
    and "r' \<in> R" and "length q \<le> 4" and "\<nexists>s. q = p @ i # s \<and> same_subtree r r' (p @ [i])"
    and "q = u @ j # v" and "walk m r' u = Some w"
  shows "write_entry m t i e w j = m w j"
proof (rule ccontr)
  assume "\<not> ?thesis"
  then have w: "w = t" "j = i" by (auto simp: write_entry_apply split: if_splits)
  have "length u \<le> 3" using assms(6,8) by simp
  then have "p = u \<and> same_subtree r r' p"
    using forest_inj [OF assms(1,2,5,4) _ assms(3)] assms(9) w(1) by blast
  with assms(7,8) w(2) show False by (auto dest: same_subtree_append)
qed

lemma xlate_write_other:
  assumes "forest m R A" and "r \<in> R" and "walk m r p = Some t" and "length p \<le> 3"
    and "r' \<in> R" and "length q \<le> 4" and "\<nexists>s. q = p @ i # s \<and> same_subtree r r' (p @ [i])"
  shows "xlate (write_entry m t i e) r' q = xlate m r' q"
  by (rule xlate_cong) (rule write_entry_reads [OF assms])

lemma walk_write_other:
  assumes "forest m R A" and "r \<in> R" and "walk m r p = Some t" and "length p \<le> 3"
    and "r' \<in> R" and "length q \<le> 4" and "\<nexists>s. q = p @ i # s \<and> same_subtree r r' (p @ [i])"
  shows "walk (write_entry m t i e) r' q = walk m r' q"
  by (rule walk_cong) (rule write_entry_reads [OF assms])

text \<open>The only entry that may be written in a root is one that no other root shares.\<close>

definition private_write :: "u64 set \<Rightarrow> u64 \<Rightarrow> pt_index list \<Rightarrow> pt_index \<Rightarrow> bool" where
  "private_write R r p i \<longleftrightarrow> p \<noteq> [] \<or> \<not> shared_slot i \<or> R \<subseteq> {r}"

lemma private_write_absent:
  assumes "forest m R A" and "r \<in> R" and "walk m r p = Some t" and "\<not> is_present (m t i)"
  shows "private_write R r p i"
proof (rule ccontr)
  assume "\<not> ?thesis"
  then obtain r' where "p = []" "shared_slot i" "r' \<in> R" "r' \<noteq> r"
    by (auto simp: private_write_def)
  with assms forest_shared_present [OF assms(1,2), of r' i] show False by simp
qed

lemma walk_to_write:
  assumes "forest m R A" and "r \<in> R" and "walk m r p = Some t"
    and "r' \<in> R" and "same_subtree r r' (p @ [i])" and "private_write R r p i"
  shows "walk m r' p = Some t"
proof (cases "p = []")
  case True
  with assms(4,5,6) have "r' = r" by (auto simp: private_write_def same_subtree_def)
  with assms(3) show ?thesis by simp
next
  case False
  then have "same_subtree r r' p" using assms(5) by (simp add: same_subtree_def)
  with walk_same_subtree [OF assms(1,2,4)] False assms(3) show ?thesis by simp
qed

lemma walk_written:
  assumes "forest m R A" and "r \<in> R" and "walk m r p = Some t" and "length p \<le> 3"
    and "r' \<in> R" and "same_subtree r r' (p @ [i])" and "private_write R r p i"
  shows "walk (write_entry m t i e) r' p = Some t"
  using walk_write_other [OF assms(1-4,5), of p i e] walk_to_write [OF assms(1-3,5-7)] assms(4)
  by simp

lemma xlate_written:
  assumes "forest m R A" and "r \<in> R" and "walk m r p = Some t" and "length p \<le> 3"
    and "r' \<in> R" and "same_subtree r r' (p @ [i])" and "private_write R r p i"
  shows "xlate (write_entry m t i e) r' (p @ i # s) = xlate (write_entry m t i e) t (i # s)"
  by (rule xlate_walk [OF walk_written [OF assms]]) simp

text \<open>Writing a leaf: the fourth-level entry decides the translation of its page in every root
  that shares the table, and of nothing else.\<close>

lemma xlate_leaf_write:
  assumes "forest m R A" and "r \<in> R" and "walk m r p = Some t" and "length p = 3"
    and "r' \<in> R" and "length q = 4"
  shows "xlate (write_entry m t i e) r' q =
    (if q = p @ [i] \<and> same_subtree r r' q
     then (if is_present e then Some (e, []) else None) else xlate m r' q)"
proof (cases "q = p @ [i] \<and> same_subtree r r' q")
  case True
  have "private_write R r p i" using assms(4) by (auto simp: private_write_def)
  with True assms xlate_written [of m R A r p t r' i e "[]"] show ?thesis
    by (auto simp: write_entry_apply)
next
  case False
  then have "\<nexists>s. q = p @ i # s \<and> same_subtree r r' (p @ [i])" using assms(4,6) by auto
  with False assms xlate_write_other [of m R A r p t r' q i e] show ?thesis by auto
qed

lemma walk_leaf_write:
  assumes "forest m R A" and "r \<in> R" and "walk m r p = Some t" and "length p = 3"
    and "r' \<in> R" and "length q \<le> 3"
  shows "walk (write_entry m t i e) r' q = walk m r' q"
  using assms by (intro walk_write_other [OF assms(1-3)]) auto

lemma forest_leaf_write:
  assumes "forest m R A" and "r \<in> R" and "walk m r p = Some t" and "length p = 3"
  shows "forest (write_entry m t i e) R A"
proof (rule forestI)
  note eq = walk_leaf_write [OF assms]
  show "u \<notin> A" if "r' \<in> R" "length q \<le> 3" "walk (write_entry m t i e) r' q = Some u" for r' q u
    using that eq forest_avoid [OF assms(1)] by simp
  show "q = q' \<and> same_subtree r1 r2 q"
    if "r1 \<in> R" "r2 \<in> R" "length q \<le> 3" "length q' \<le> 3"
      "walk (write_entry m t i e) r1 q = Some u" "walk (write_entry m t i e) r2 q' = Some u"
    for r1 r2 q q' u
    using that eq forest_inj [OF assms(1)] by simp
  show "write_entry m t i e r1 j = write_entry m t i e r2 j \<and> is_present (write_entry m t i e r1 j)"
    if "r1 \<in> R" "r2 \<in> R" "r1 \<noteq> r2" "shared_slot j" for r1 r2 j
  proof -
    have "r' \<noteq> t" if "r' \<in> R" for r'
      using forest_inj [OF assms(1) that assms(2), of "[]" p t] assms(3,4) by auto
    with that show ?thesis
      using forest_shared [OF assms(1), of r1 r2 j] forest_shared_present [OF assms(1), of r1 r2 j]
      by (simp add: write_entry_apply)
  qed
qed

subsection \<open>Memory that holds no table\<close>

text \<open>What is stored in the frames that no walk reaches does not matter to any translation.\<close>

lemma unreached_reads:
  assumes "forest m R A" and "\<And>t. t \<notin> A \<Longrightarrow> m' t = m t" and "r \<in> R" and "length q \<le> 4"
    and "q = u @ j # v" and "walk m r u = Some w"
  shows "m' w j = m w j"
  using forest_avoid [OF assms(1,3), of u w] assms by auto

lemma walk_unreached:
  "forest m R A \<Longrightarrow> (\<And>t. t \<notin> A \<Longrightarrow> m' t = m t) \<Longrightarrow> r \<in> R \<Longrightarrow> length q \<le> 4 \<Longrightarrow> walk m' r q = walk m r q"
  by (rule walk_cong) (rule unreached_reads)

lemma xlate_unreached:
  "forest m R A \<Longrightarrow> (\<And>t. t \<notin> A \<Longrightarrow> m' t = m t) \<Longrightarrow> r \<in> R \<Longrightarrow> length q \<le> 4 \<Longrightarrow> xlate m' r q = xlate m r q"
  by (rule xlate_cong) (rule unreached_reads)

lemma forest_unreached:
  assumes "forest m R A" and "\<And>t. t \<notin> A \<Longrightarrow> m' t = m t"
  shows "forest m' R A"
proof (rule forestI)
  note eq = walk_unreached [OF assms]
  show "t \<notin> A" if "r \<in> R" "length p \<le> 3" "walk m' r p = Some t" for r p t
    using that eq [of r p] forest_avoid [OF assms(1)] by simp
  show "p = q \<and> same_subtree r r' p"
    if "r \<in> R" "r' \<in> R" "length p \<le> 3" "length q \<le> 3"
      "walk m' r p = Some t" "walk m' r' q = Some t" for r r' p q t
    using that eq [of r p] eq [of r' q] forest_inj [OF assms(1), of r r' p q t] by auto
  show "m' r i = m' r' i \<and> is_present (m' r i)"
    if "r \<in> R" "r' \<in> R" "r \<noteq> r'" "shared_slot i" for r r' i
    using that unreached_reads [OF assms, of _ "[i]" "[]" i "[]"]
      forest_shared [OF assms(1), of r r' i] forest_shared_present [OF assms(1), of r r' i] by simp
qed

subsection \<open>Linking a fresh table\<close>

lemma walk_zero_frame:
  "forest m R A \<Longrightarrow> f \<in> A \<Longrightarrow> r \<in> R \<Longrightarrow> length q \<le> 4 \<Longrightarrow> walk (m(f := zero_table)) r q = walk m r q"
  by (rule walk_unreached) auto

lemma xlate_zero_frame:
  "forest m R A \<Longrightarrow> f \<in> A \<Longrightarrow> r \<in> R \<Longrightarrow> length q \<le> 4 \<Longrightarrow> xlate (m(f := zero_table)) r q = xlate m r q"
  by (rule xlate_unreached) auto

lemma forest_zero_frame: "forest m R A \<Longrightarrow> f \<in> A \<Longrightarrow> forest (m(f := zero_table)) R A"
  using forest_unreached [of m R A "m(f := zero_table)"] by fastforce

definition link_table :: "phys_mem \<Rightarrow> u64 \<Rightarrow> pt_index \<Rightarrow> u64 \<Rightarrow> pte \<Rightarrow> phys_mem" where
  "link_table m t i f e = write_entry (m(f := zero_table)) t i e"

lemma link_table_new: "f \<noteq> t \<Longrightarrow> link_table m t i f e f j = 0"
  by (simp add: link_table_def write_entry_apply)

lemma link_table_slot: "link_table m t i f e t i = e"
  by (simp add: link_table_def write_entry_apply)

lemma xlate_zero_table: "m f = zero_table \<Longrightarrow> xlate m f p = None"
  by (cases p) simp_all

lemma walk_zero_table: "m f = zero_table \<Longrightarrow> walk m f p = (if p = [] then Some f else None)"
  by (cases p) simp_all

lemma xlate_link:
  assumes fo: "forest m R A" and f: "f \<in> A" and r: "r \<in> R" and w: "walk m r p = Some t"
    and len: "length p \<le> 2" and abs: "\<not> is_present (m t i)" and e: "pte_table e = Some f"
    and r': "r' \<in> R" and q: "length q = 4"
  shows "xlate (link_table m t i f e) r' q = xlate m r' q"
proof -
  let ?m = "m(f := zero_table)"
  note fo' = forest_zero_frame [OF fo f]
  have w': "walk ?m r p = Some t" using walk_zero_frame [OF fo f r, of p] len w by simp
  have ft: "f \<noteq> t" using forest_avoid [OF fo r _ w] len f by auto
  have old: "xlate ?m r' q = xlate m r' q" using xlate_zero_frame [OF fo f r'] q by simp
  show ?thesis
  proof (cases "\<exists>s. q = p @ i # s \<and> same_subtree r r' (p @ [i])")
    case False
    then show ?thesis
      unfolding link_table_def using xlate_write_other [OF fo' r w' _ r', of q i e] len q old by simp
  next
    case True
    then obtain s where s: "q = p @ i # s" "same_subtree r r' (p @ [i])" by blast
    have pw: "private_write R r p i" by (rule private_write_absent [OF fo r w abs])
    have "s \<noteq> []" using s(1) len q by auto
    moreover have "write_entry ?m t i e f = zero_table"
      using ft by (auto simp: write_entry_def)
    ultimately have "xlate (write_entry ?m t i e) t (i # s) = None"
      using e xlate_zero_table [of "write_entry ?m t i e" f s]
      by (auto simp: write_entry_apply pte_table_def split: if_splits)
    then have "xlate (link_table m t i f e) r' q = None"
      unfolding link_table_def s(1) using xlate_written [OF fo' r w' _ r' s(2) pw] len by simp
    moreover have "xlate m r' q = None"
      unfolding s(1) using xlate_walk [OF walk_to_write [OF fo r w r' s(2) pw], of "i # s"] abs by simp
    ultimately show ?thesis by simp
  qed
qed

lemma walk_link:
  assumes fo: "forest m R A" and f: "f \<in> A" and r: "r \<in> R" and w: "walk m r p = Some t"
    and len: "length p \<le> 2" and abs: "\<not> is_present (m t i)" and e: "pte_table e = Some f"
    and r': "r' \<in> R" and q: "length q \<le> 3"
  shows "walk (link_table m t i f e) r' q =
    (if q = p @ [i] \<and> same_subtree r r' q then Some f else walk m r' q)"
proof -
  let ?m = "m(f := zero_table)"
  note fo' = forest_zero_frame [OF fo f]
  have w': "walk ?m r p = Some t" using walk_zero_frame [OF fo f r, of p] len w by simp
  have ft: "f \<noteq> t" using forest_avoid [OF fo r _ w] len f by auto
  have old: "walk ?m r' q = walk m r' q" using walk_zero_frame [OF fo f r'] q by simp
  show ?thesis
  proof (cases "\<exists>s. q = p @ i # s \<and> same_subtree r r' (p @ [i])")
    case False
    then show ?thesis
      unfolding link_table_def using walk_write_other [OF fo' r w' _ r', of q i e] len q old by auto
  next
    case True
    then obtain s where s: "q = p @ i # s" "same_subtree r r' (p @ [i])" by blast
    have pw: "private_write R r p i" by (rule private_write_absent [OF fo r w abs])
    have "write_entry ?m t i e f = zero_table"
      using ft by (auto simp: write_entry_def)
    then have "walk (write_entry ?m t i e) t (i # s) = (if s = [] then Some f else None)"
      using e walk_zero_table [of "write_entry ?m t i e" f s] by (simp add: write_entry_apply)
    then have "walk (link_table m t i f e) r' q = (if s = [] then Some f else None)"
      unfolding link_table_def s(1) walk_append
      using walk_written [OF fo' r w' _ r' s(2) pw, of e] len by simp
    moreover have "walk m r' q = None"
      unfolding s(1) walk_append using walk_to_write [OF fo r w r' s(2) pw] abs
      by (simp add: pte_table_def)
    ultimately show ?thesis using s by auto
  qed
qed

lemma forest_link:
  assumes fo: "forest m R A" and f: "f \<in> A" and r: "r \<in> R" and w: "walk m r p = Some t"
    and len: "length p \<le> 2" and abs: "\<not> is_present (m t i)" and e: "pte_table e = Some f"
  shows "forest (link_table m t i f e) R (A - {f})"
proof (rule forestI)
  note wl = walk_link [OF assms]
  show "u \<notin> A - {f}" if "r' \<in> R" "length q \<le> 3" "walk (link_table m t i f e) r' q = Some u" for r' q u
    using that wl [of r' q] forest_avoid [OF fo, of r' q u] by (auto split: if_splits)
  show "q = q' \<and> same_subtree r1 r2 q"
    if "r1 \<in> R" "r2 \<in> R" "length q \<le> 3" "length q' \<le> 3" "walk (link_table m t i f e) r1 q = Some u"
      "walk (link_table m t i f e) r2 q' = Some u" for r1 r2 q q' u
  proof -
    have "u \<noteq> f" if "walk m r' q0 = Some u" "r' \<in> R" "length q0 \<le> 3" for r' q0
      using forest_avoid [OF fo that(2,3,1)] f by blast
    moreover have "same_subtree r1 r2 (p @ [i])"
      if "same_subtree r r1 (p @ [i])" "same_subtree r r2 (p @ [i])"
      using that by (auto simp: same_subtree_def)
    ultimately show ?thesis
      using that wl [of r1 q] wl [of r2 q'] forest_inj [OF fo, of r1 r2 q q' u]
      by (auto split: if_splits)
  qed
  show "link_table m t i f e r1 j = link_table m t i f e r2 j \<and> is_present (link_table m t i f e r1 j)"
    if "r1 \<in> R" "r2 \<in> R" "r1 \<noteq> r2" "shared_slot j" for r1 r2 j
  proof -
    have "\<not> (r' = t \<and> j = i)" if "r' \<in> {r1, r2}" for r'
      using forest_shared_present [OF fo, of r1 r2 j] forest_shared_present [OF fo, of r2 r1 j]
        \<open>r1 \<in> R\<close> \<open>r2 \<in> R\<close> \<open>r1 \<noteq> r2\<close> \<open>shared_slot j\<close> that abs by auto
    moreover have "r' \<noteq> f" if "r' \<in> {r1, r2}" for r'
      using forest_avoid [OF fo, of r' "[]"] f that \<open>r1 \<in> R\<close> \<open>r2 \<in> R\<close> by auto
    ultimately have "link_table m t i f e r' j = m r' j" if "r' \<in> {r1, r2}" for r'
      using that unfolding link_table_def write_entry_apply by auto
    then show ?thesis
      using forest_shared [OF fo, of r1 r2 j] forest_shared_present [OF fo, of r1 r2 j] that by auto
  qed
qed

subsection \<open>Writing a 2 MiB entry\<close>

lemma xlate_huge_write:
  assumes "forest m R A" and "r \<in> R" and "walk m r p = Some t" and "length p = 2"
    and "r' \<in> R" and "length q = 4" and "is_present e" and "is_huge e"
  shows "xlate (write_entry m t i e) r' q =
    (if take 3 q = p @ [i] \<and> same_subtree r r' q then Some (e, drop 3 q) else xlate m r' q)"
proof (cases "take 3 q = p @ [i] \<and> same_subtree r r' q")
  case True
  then have q: "q = p @ i # drop 3 q" using append_take_drop_id [of 3 q] by simp
  have "private_write R r p i" using assms(4) by (auto simp: private_write_def)
  moreover have "hd (p @ [i]) = hd q" using True hd_take [of 3 q] by simp
  then have "same_subtree r r' (p @ [i])" using True by (auto simp: same_subtree_def)
  ultimately have "xlate (write_entry m t i e) r' (p @ i # drop 3 q) = Some (e, drop 3 q)"
    using xlate_written [OF assms(1-3) _ assms(5)] assms by (simp add: write_entry_apply)
  with True q show ?thesis by simp
next
  case False
  have "\<nexists>s. q = p @ i # s \<and> same_subtree r r' (p @ [i])"
    using False assms(4) by (cases p) (auto simp: same_subtree_def)
  with False assms xlate_write_other [of m R A r p t r' q i e] show ?thesis by auto
qed

lemma walk_huge_write:
  assumes "forest m R A" and "r \<in> R" and "walk m r p = Some t" and "length p = 2"
    and "r' \<in> R" and "length q \<le> 3" and "is_huge e"
    and "walk (write_entry m t i e) r' q = Some u"
  shows "walk m r' q = Some u"
proof (cases "\<exists>s. q = p @ i # s \<and> same_subtree r r' (p @ [i])")
  case True
  then obtain s where s: "q = p @ i # s" "same_subtree r r' (p @ [i])" by blast
  have "private_write R r p i" using assms(4) by (auto simp: private_write_def)
  from walk_written [OF assms(1-3) _ assms(5) s(2) this, of e] assms(4,7,8) s
  show ?thesis by (simp add: walk_append write_entry_apply pte_table_def)
next
  case False
  with assms walk_write_other [of m R A r p t r' q i e] show ?thesis by simp
qed

lemma forest_huge_write:
  assumes "forest m R A" and "r \<in> R" and "walk m r p = Some t" and "length p = 2"
    and "is_huge e"
  shows "forest (write_entry m t i e) R A"
proof (rule forestI)
  note sub = walk_huge_write [OF assms(1-4) _ _ assms(5)]
  show "u \<notin> A" if "r' \<in> R" "length q \<le> 3" "walk (write_entry m t i e) r' q = Some u" for r' q u
    using sub [OF that] that forest_avoid [OF assms(1)] by blast
  show "q = q' \<and> same_subtree r1 r2 q"
    if "r1 \<in> R" "r2 \<in> R" "length q \<le> 3" "length q' \<le> 3"
      "walk (write_entry m t i e) r1 q = Some u" "walk (write_entry m t i e) r2 q' = Some u"
    for r1 r2 q q' u
    using sub [OF that(1,3,5)] sub [OF that(2,4,6)] that forest_inj [OF assms(1)] by blast
  have "r' \<noteq> t" if "r' \<in> R" for r'
    using forest_inj [OF assms(1) that assms(2), of "[]" p t] assms(3,4) by auto
  then show "write_entry m t i e r1 j = write_entry m t i e r2 j \<and> is_present (write_entry m t i e r1 j)"
    if "r1 \<in> R" "r2 \<in> R" "r1 \<noteq> r2" "shared_slot j" for r1 r2 j
    using that forest_shared [OF assms(1), of r1 r2 j] forest_shared_present [OF assms(1), of r1 r2 j]
    by (simp add: write_entry_apply)
qed

end
