(* ===== verification/Vmm_Map.thy ===== *)
theory Vmm_Map
  imports Page_Forest
begin

text \<open>
  The page-table operations of \<^verbatim>\<open>src/src/vmm.rs\<close>: the bootstrap table pool, creating missing
  tables on the way down, mapping a 4 KiB or a 2 MiB page, unmapping and translating.

  The state \<open>vmm\<close> gathers the statics of the module (\<^verbatim>\<open>ROOT_PML4_PHYS\<close>, \<^verbatim>\<open>VMM_STATE\<close>,
  \<^verbatim>\<open>BOOTSTRAP_INDEX\<close>, \<^verbatim>\<open>IS_BOOTSTRAPPING\<close>), the address the linker gave
  \<^verbatim>\<open>BOOTSTRAP_POOL\<close>, the physical allocator it calls, the memory that holds the tables and the
  CR3 register.  Interrupts are masked around each operation, so each is one atomic step.
\<close>

subsection \<open>Regions and the state of the manager\<close>

datatype region_purpose =
  KernelBinary | KernelStack | DirectMappedRam | MmioRegion | DynamicKernel | ReservedRegion

record virt_region =
  vr_start :: virt_addr
  vr_size :: u64
  vr_permissions :: virt_permissions
  vr_purpose :: region_purpose
  owns_physical_pages :: bool

definition virt_region_empty :: virt_region where
  "virt_region_empty = \<lparr>vr_start = 0, vr_size = 0, vr_permissions = PERM_KERNEL_DATA,
     vr_purpose = ReservedRegion, owns_physical_pages = False\<rparr>"

definition MAX_VIRT_REGIONS :: nat where [kernel_consts]: "MAX_VIRT_REGIONS = 256"

definition DYNAMIC_VIRT_START :: u64 where [kernel_consts]: "DYNAMIC_VIRT_START = 0xFFFF800000000000"

definition DYNAMIC_VIRT_END :: u64 where [kernel_consts]: "DYNAMIC_VIRT_END = 0xFFFFFF8000000000"

definition KERNEL_PML4_START :: nat where [kernel_consts]: "KERNEL_PML4_START = 256"

datatype map_error =
  MapNonCanonicalAddress | MapUnalignedVirtualAddress | MapUnalignedPhysicalAddress
| FrameAllocationFailed | AlreadyMapped

datatype unmap_error =
  UnmapNonCanonicalAddress | UnmapUnalignedVirtualAddress | NotMapped | ParentTableMissing

record vmm =
  vmm_mem :: phys_mem
  vmm_pmm :: pmm
  pool_base :: u64
  bootstrap_index :: nat
  is_bootstrapping :: bool
  root_pml4_phys :: u64
  vmm_regions :: "virt_region list"
  vmm_region_count :: nat
  next_dynamic_addr :: u64
  cr3 :: u64

definition BOOTSTRAP_TABLE_COUNT :: nat where [kernel_consts]:
  "BOOTSTRAP_TABLE_COUNT = 512"

definition pool_table :: "vmm \<Rightarrow> nat \<Rightarrow> u64" where
  "pool_table s i = pool_base s + of_nat i * PAGE_SIZE"

definition allocate_bootstrap_table :: "vmm \<Rightarrow> phys_page option \<times> vmm" where
  "allocate_bootstrap_table s =
     (if bootstrap_index s \<ge> BOOTSTRAP_TABLE_COUNT then (None, s)
      else let t = pool_table s (bootstrap_index s) in
        (Some t, s\<lparr>bootstrap_index := bootstrap_index s + 1,
                   vmm_mem := (vmm_mem s)(t := zero_table)\<rparr>))"

definition vmm_allocate_page :: "vmm \<Rightarrow> phys_page option \<times> vmm" where
  "vmm_allocate_page s =
     (let (r, p) = allocate_physical_page (vmm_pmm s) in (r, s\<lparr>vmm_pmm := p\<rparr>))"

definition get_or_create_table :: "u64 \<Rightarrow> pt_index \<Rightarrow> vmm \<Rightarrow> (map_error + u64) \<times> vmm" where
  "get_or_create_table t i s =
     (let entry = vmm_mem s t i in
      if is_present entry then
        if is_huge entry then (Inl AlreadyMapped, s)
        else (Inr (pte_phys_addr entry), s)
      else
        case (if is_bootstrapping s then allocate_bootstrap_table s else vmm_allocate_page s) of
          (None, s') \<Rightarrow> (Inl FrameAllocationFailed, s')
        | (Some frame, s') \<Rightarrow>
            (Inr frame,
             s'\<lparr>vmm_mem := link_table (vmm_mem s') t i frame
                  (pte_set frame (FLAG_PRESENT OR FLAG_WRITABLE))\<rparr>))"

definition map_page ::
    "u64 \<Rightarrow> virt_addr \<Rightarrow> phys_page \<Rightarrow> page_flags \<Rightarrow> vmm \<Rightarrow> (map_error + unit) \<times> vmm" where
  "map_page root va pa flags s =
     (if \<not> is_canonical va then (Inl MapNonCanonicalAddress, s)
      else if \<not> va_is_aligned va then (Inl MapUnalignedVirtualAddress, s)
      else if pa mod PAGE_SIZE \<noteq> 0 then (Inl MapUnalignedPhysicalAddress, s)
      else
        and_then (get_or_create_table root (pml4_index va) s) (\<lambda>pdpt s.
        and_then (get_or_create_table pdpt (pdpt_index va) s) (\<lambda>pd s.
        and_then (get_or_create_table pd (pd_index va) s) (\<lambda>pt s.
          if is_present (vmm_mem s pt (pt_index_of va)) then (Inl AlreadyMapped, s)
          else (Inr (), s\<lparr>vmm_mem := write_entry (vmm_mem s) pt (pt_index_of va)
                                        (pte_set pa flags)\<rparr>)))))"

definition map_2mb_huge_page ::
    "u64 \<Rightarrow> virt_addr \<Rightarrow> phys_page \<Rightarrow> page_flags \<Rightarrow> vmm \<Rightarrow> (map_error + unit) \<times> vmm" where
  "map_2mb_huge_page root va pa flags s =
     (if \<not> is_canonical va then (Inl MapNonCanonicalAddress, s)
      else
        and_then (get_or_create_table root (pml4_index va) s) (\<lambda>pdpt s.
        and_then (get_or_create_table pdpt (pdpt_index va) s) (\<lambda>pd s.
          (Inr (), s\<lparr>vmm_mem := write_entry (vmm_mem s) pd (pd_index va)
                     (pte_set (pa AND NOT 0x1FFFFF) (flags OR FLAG_HUGE_PAGE))\<rparr>))))"

definition unmap_page :: "u64 \<Rightarrow> virt_addr \<Rightarrow> vmm \<Rightarrow> (unmap_error + phys_page) \<times> vmm" where
  "unmap_page root va s =
     (if \<not> is_canonical va then (Inl UnmapNonCanonicalAddress, s)
      else if \<not> va_is_aligned va then (Inl UnmapUnalignedVirtualAddress, s)
      else
        let m = vmm_mem s; pml4_entry = m root (pml4_index va) in
        if \<not> is_present pml4_entry then (Inl ParentTableMissing, s)
        else let pdpt_entry = m (pte_phys_addr pml4_entry) (pdpt_index va) in
        if \<not> is_present pdpt_entry then (Inl ParentTableMissing, s)
        else let pd_entry = m (pte_phys_addr pdpt_entry) (pd_index va) in
        if \<not> is_present pd_entry then (Inl ParentTableMissing, s)
        else let pt = pte_phys_addr pd_entry; pt_entry = m pt (pt_index_of va) in
        if \<not> is_present pt_entry then (Inl NotMapped, s)
        else (Inr (pte_phys_addr pt_entry),
              s\<lparr>vmm_mem := write_entry m pt (pt_index_of va) 0\<rparr>))"

definition translate :: "u64 \<Rightarrow> virt_addr \<Rightarrow> vmm \<Rightarrow> (phys_page \<times> page_flags) option" where
  "translate root va s =
     (if \<not> is_canonical va then None
      else
        let m = vmm_mem s; pml4_entry = m root (pml4_index va) in
        if \<not> is_present pml4_entry then None
        else let pdpt_entry = m (pte_phys_addr pml4_entry) (pdpt_index va) in
        if \<not> is_present pdpt_entry then None
        else let pd_entry = m (pte_phys_addr pdpt_entry) (pd_index va) in
        if \<not> is_present pd_entry then None
        else let pt_entry = m (pte_phys_addr pd_entry) (pt_index_of va) in
        if \<not> is_present pt_entry then None
        else Some (pte_phys_addr pt_entry + page_offset va, pte_flags pt_entry))"

subsection \<open>The invariant of the tables and the allocators behind them\<close>

definition pool_tail :: "vmm \<Rightarrow> u64 set" where
  "pool_tail s = pool_table s ` {bootstrap_index s ..< BOOTSTRAP_TABLE_COUNT}"

definition avail :: "vmm \<Rightarrow> u64 set" where
  "avail s = free_addrs (vmm_pmm s) \<union> (if is_bootstrapping s then pool_tail s else {})"

definition pool_ok :: "vmm \<Rightarrow> bool" where
  "pool_ok s \<longleftrightarrow> pool_base s mod PAGE_SIZE = 0
     \<and> unat (pool_base s) + BOOTSTRAP_TABLE_COUNT * PAGE_SIZE_nat \<le> 2 ^ 52
     \<and> (is_bootstrapping s \<longrightarrow> pool_tail s \<inter> free_addrs (vmm_pmm s) = {})"

text \<open>The invariant for a set \<open>R\<close> of live roots; \<open>X\<close> is a set of frames the caller holds, such
  as the data frames of a region under construction, which no table may occupy.\<close>

definition vm_ok :: "u64 set \<Rightarrow> u64 set \<Rightarrow> vmm \<Rightarrow> bool" where
  "vm_ok R X s \<longleftrightarrow> pmm_inv (vmm_pmm s) \<and> pool_ok s \<and> X \<inter> avail s = {}
     \<and> forest (vmm_mem s) R (avail s \<union> X)"

lemma unat_pool_table:
  assumes "pool_ok s" and "i < BOOTSTRAP_TABLE_COUNT"
  shows "unat (pool_table s i) = unat (pool_base s) + i * 4096"
proof -
  have i: "i < 512" using assms(2) by (simp add: kernel_consts)
  then have m: "unat (of_nat i * PAGE_SIZE :: u64) = i * 4096"
    by (subst unat_mult_u64) (simp_all add: unat_of_nat take_bit_nat_eq_self)
  have b: "unat (pool_base s) + 2097152 \<le> 2 ^ 52" using assms(1) by (simp add: pool_ok_def kernel_consts)
  with m i have "unat (pool_base s) + unat (of_nat i * PAGE_SIZE :: u64) < 2 ^ 64" by simp
  from unat_add_u64 [OF this] m show ?thesis by (simp add: pool_table_def)
qed

lemma frame_addr_pool:
  assumes "pool_ok s" and "i < BOOTSTRAP_TABLE_COUNT"
  shows "frame_addr (pool_table s i)"
proof (rule frame_addrI)
  note u = unat_pool_table [OF assms]
  have b: "unat (pool_base s) + 2097152 \<le> 2 ^ 52" using assms(1) by (simp add: pool_ok_def kernel_consts)
  with u assms(2) show "unat (pool_table s i) < 2 ^ 52" by (simp add: kernel_consts)
  have "4096 dvd unat (pool_base s)" using assms(1) by (simp add: pool_ok_def aligned_iff_dvd)
  with u have "4096 dvd unat (pool_table s i)" by simp
  then show "pool_table s i mod 4096 = 0" by (simp add: aligned_iff_dvd)
qed

lemma frame_addr_free:
  assumes "pmm_inv p" and "f \<in> free_addrs p"
  shows "frame_addr f"
proof -
  obtain n where n: "n \<in> free_frames p" "f = from_page_number n"
    using assms(2) by (auto simp: free_addrs_def)
  have "n < 1048576" using n(1) pmm_inv_total [OF assms(1)] by (auto simp: free_frames_def)
  then have lt: "n < 2 ^ 52" and b: "n * 4096 < 2 ^ 52" by simp_all
  from from_page_number_aligned [OF lt] have "f mod 4096 = 0" by (simp add: n(2))
  moreover have "unat f < 2 ^ 52" using unat_from_page_number [OF lt] b by (simp only: n(2))
  ultimately show ?thesis by (rule frame_addrI)
qed

lemma pool_table_inj:
  assumes "pool_ok s" and "i < BOOTSTRAP_TABLE_COUNT" and "j < BOOTSTRAP_TABLE_COUNT"
    and "pool_table s i = pool_table s j"
  shows "i = j"
proof -
  have "unat (pool_base s) + i * 4096 = unat (pool_base s) + j * 4096"
    using unat_pool_table [OF assms(1,2)] unat_pool_table [OF assms(1,3)]
    by (simp only: assms(4))
  then show ?thesis by simp
qed

subsection \<open>Taking a frame for a table\<close>

definition alloc_table :: "vmm \<Rightarrow> phys_page option \<times> vmm" where
  "alloc_table s = (if is_bootstrapping s then allocate_bootstrap_table s else vmm_allocate_page s)"

text \<open>The fields no page-table operation touches.\<close>

definition same_rest :: "vmm \<Rightarrow> vmm \<Rightarrow> bool" where
  "same_rest s s' \<longleftrightarrow> s' = s\<lparr>vmm_mem := vmm_mem s', vmm_pmm := vmm_pmm s',
     bootstrap_index := bootstrap_index s'\<rparr> \<and> managed_addrs (vmm_pmm s') = managed_addrs (vmm_pmm s)"

lemma same_rest_refl [simp]: "same_rest s s"
  by (simp add: same_rest_def)

lemma same_restD:
  assumes "same_rest s s'"
  shows "pool_base s' = pool_base s" "is_bootstrapping s' = is_bootstrapping s"
    "root_pml4_phys s' = root_pml4_phys s" "vmm_regions s' = vmm_regions s"
    "vmm_region_count s' = vmm_region_count s" "next_dynamic_addr s' = next_dynamic_addr s"
    "cr3 s' = cr3 s" "managed_addrs (vmm_pmm s') = managed_addrs (vmm_pmm s)"
  using assms unfolding same_rest_def
  by (metis (no_types, lifting) vmm.select_convs vmm.surjective vmm.update_convs)+

lemma same_rest_trans: "same_rest s s' \<Longrightarrow> same_rest s' s'' \<Longrightarrow> same_rest s s''"
  unfolding same_rest_def by (cases s; cases s'; cases s'') simp

lemma same_rest_mem [simp]: "same_rest s (s\<lparr>vmm_mem := m\<rparr>)"
  by (simp add: same_rest_def)

lemma same_rest_mem_iff [simp]: "same_rest s (s'\<lparr>vmm_mem := m\<rparr>) \<longleftrightarrow> same_rest s s'"
  unfolding same_rest_def by (cases s; cases s') auto

lemma bootstrap_table_Some:
  assumes "pool_ok s" and "is_bootstrapping s" and "allocate_bootstrap_table s = (Some f, s')"
  shows "f \<in> pool_tail s" and "frame_addr f" and "pool_tail s' = pool_tail s - {f}"
    and "vmm_mem s' = (vmm_mem s)(f := zero_table)" and "vmm_pmm s' = vmm_pmm s" and "same_rest s s'"
    and "pool_ok s'"
proof -
  let ?i = "bootstrap_index s"
  have i: "?i < BOOTSTRAP_TABLE_COUNT" and f: "f = pool_table s ?i"
    and s': "s' = s\<lparr>bootstrap_index := ?i + 1, vmm_mem := (vmm_mem s)(f := zero_table)\<rparr>"
    using assms(3) by (auto simp: allocate_bootstrap_table_def Let_def split: if_splits)
  show "f \<in> pool_tail s" using i by (auto simp: pool_tail_def f)
  show "frame_addr f" unfolding f by (rule frame_addr_pool [OF assms(1) i])
  have pt: "pool_table s' = pool_table s" by (rule ext) (simp add: s' pool_table_def)
  have "{?i ..< BOOTSTRAP_TABLE_COUNT} = insert ?i {?i + 1 ..< BOOTSTRAP_TABLE_COUNT}" using i by auto
  moreover have "pool_table s ?i \<notin> pool_table s ` {?i + 1 ..< BOOTSTRAP_TABLE_COUNT}"
    using pool_table_inj [OF assms(1) i] by fastforce
  ultimately show tail: "pool_tail s' = pool_tail s - {f}"
    unfolding pool_tail_def pt by (simp add: s' f)
  show "vmm_mem s' = (vmm_mem s)(f := zero_table)" "vmm_pmm s' = vmm_pmm s" "same_rest s s'"
    by (simp_all add: s' same_rest_def)
  show "pool_ok s'" using assms(1) tail by (auto simp: pool_ok_def s' pool_tail_def)
qed

lemma pmm_page_Some:
  assumes "pmm_inv (vmm_pmm s)" and "vmm_allocate_page s = (Some f, s')"
  shows "f \<in> free_addrs (vmm_pmm s)" and "free_addrs (vmm_pmm s') = free_addrs (vmm_pmm s) - {f}"
    and "pmm_inv (vmm_pmm s')" and "vmm_mem s' = vmm_mem s" and "same_rest s s'"
    and "bootstrap_index s' = bootstrap_index s"
proof -
  obtain p where p: "allocate_physical_page (vmm_pmm s) = (Some f, p)" "s' = s\<lparr>vmm_pmm := p\<rparr>"
    using assms(2) by (auto simp: vmm_allocate_page_def split: prod.splits)
  from pmm_frames.alloc_Some [OF assms(1) p(1)] p(2)
  show "f \<in> free_addrs (vmm_pmm s)" "free_addrs (vmm_pmm s') = free_addrs (vmm_pmm s) - {f}"
    "pmm_inv (vmm_pmm s')" "vmm_mem s' = vmm_mem s" "same_rest s s'"
    "bootstrap_index s' = bootstrap_index s"
    by (simp_all add: same_rest_def)
qed

lemma alloc_table_Some:
  assumes "vm_ok R X s" and "alloc_table s = (Some f, s')"
  shows "f \<in> avail s" and "frame_addr f" and "avail s' = avail s - {f}"
    and "pmm_inv (vmm_pmm s')" and "pool_ok s'" and "same_rest s s'"
    and "vmm_mem s' = vmm_mem s \<or> vmm_mem s' = (vmm_mem s)(f := zero_table)"
proof -
  have inv: "pmm_inv (vmm_pmm s)" "pool_ok s" using assms(1) by (simp_all add: vm_ok_def)
  have "f \<in> avail s \<and> frame_addr f \<and> avail s' = avail s - {f} \<and> pmm_inv (vmm_pmm s') \<and> pool_ok s'
    \<and> same_rest s s' \<and> (vmm_mem s' = vmm_mem s \<or> vmm_mem s' = (vmm_mem s)(f := zero_table))"
  proof (cases "is_bootstrapping s")
    case True
    note b = bootstrap_table_Some [OF inv(2) True]
    from assms(2) True have a: "allocate_bootstrap_table s = (Some f, s')" by (simp add: alloc_table_def)
    have "f \<notin> free_addrs (vmm_pmm s)" using b(1) [OF a] inv(2) True by (auto simp: pool_ok_def)
    with b [OF a] inv True same_restD [OF b(6) [OF a]] show ?thesis by (auto simp: avail_def)
  next
    case False
    from assms(2) False have a: "vmm_allocate_page s = (Some f, s')" by (simp add: alloc_table_def)
    note p = pmm_page_Some [OF inv(1) a]
    have "frame_addr f" by (rule frame_addr_free [OF inv(1) p(1)])
    moreover have "pool_ok s'"
      using inv(2) p(2) same_restD [OF p(5)] p(6) by (auto simp: pool_ok_def False)
    ultimately show ?thesis using p False same_restD [OF p(5)] by (auto simp: avail_def)
  qed
  then show "f \<in> avail s" "frame_addr f" "avail s' = avail s - {f}" "pmm_inv (vmm_pmm s')"
    "pool_ok s'" "same_rest s s'"
    "vmm_mem s' = vmm_mem s \<or> vmm_mem s' = (vmm_mem s)(f := zero_table)" by blast+
qed

lemma alloc_table_None:
  assumes "vm_ok R X s" and "alloc_table s = (None, s')"
  shows "s' = s" and "\<not> is_bootstrapping s \<Longrightarrow> free_addrs (vmm_pmm s) = {}"
proof -
  have inv: "pmm_inv (vmm_pmm s)" using assms(1) by (simp add: vm_ok_def)
  show "s' = s"
    using assms(2) pmm_frames.alloc_None [OF inv]
    by (auto simp: alloc_table_def allocate_bootstrap_table_def vmm_allocate_page_def Let_def
        split: if_splits prod.splits)
  show "free_addrs (vmm_pmm s) = {}" if "\<not> is_bootstrapping s"
    using assms(2) that pmm_frames.alloc_None [OF inv]
    by (auto simp: alloc_table_def vmm_allocate_page_def split: prod.splits)
qed

subsection \<open>Creating the missing tables\<close>

text \<open>What creating up to \<open>k\<close> tables may do: use up available frames and link empty tables, so that no
  translation of any root changes and every table reached before is still reached.\<close>

definition grows :: "u64 set \<Rightarrow> nat \<Rightarrow> vmm \<Rightarrow> vmm \<Rightarrow> bool" where
  "grows R k s s' \<longleftrightarrow> same_rest s s' \<and> avail s' \<subseteq> avail s \<and> card (avail s - avail s') \<le> k
     \<and> (\<forall>r\<in>R. \<forall>q. length q = 4 \<longrightarrow> xlate (vmm_mem s') r q = xlate (vmm_mem s) r q)
     \<and> (\<forall>r\<in>R. \<forall>q u. length q \<le> 3 \<longrightarrow> walk (vmm_mem s) r q = Some u \<longrightarrow>
          walk (vmm_mem s') r q = Some u)"

lemma grows_refl [simp]: "grows R k s s"
  by (simp add: grows_def)

lemma grows_weaken: "grows R k s s' \<Longrightarrow> k \<le> l \<Longrightarrow> grows R l s s'"
  by (simp add: grows_def)

lemma link_after_zero: "link_table (m(f := zero_table)) t i f e = link_table m t i f e"
  by (simp add: link_table_def)

lemma table_entry:
  assumes "frame_addr f"
  shows "pte_table (pte_set f (FLAG_PRESENT OR FLAG_WRITABLE)) = Some f"
proof -
  have "flags_clean (FLAG_PRESENT OR FLAG_WRITABLE)" by (simp add: flags_clean_or)
  with assms show ?thesis
    by (simp add: pte_table_def is_present_set is_huge_set present_or huge_or
        pte_phys_addr_set frame_addr_def)
qed

lemma get_or_create_cases:
  assumes "get_or_create_table t i s = (res, s')"
  obtains (present) "is_present (vmm_mem s t i)" "\<not> is_huge (vmm_mem s t i)" "s' = s"
      "res = Inr (pte_phys_addr (vmm_mem s t i))"
  | (huge) "is_present (vmm_mem s t i)" "is_huge (vmm_mem s t i)" "s' = s" "res = Inl AlreadyMapped"
  | (exhausted) "\<not> is_present (vmm_mem s t i)" "alloc_table s = (None, s')"
      "res = Inl FrameAllocationFailed"
  | (fresh) f s1 where "\<not> is_present (vmm_mem s t i)" "alloc_table s = (Some f, s1)" "res = Inr f"
      "s' = s1\<lparr>vmm_mem := link_table (vmm_mem s1) t i f
         (pte_set f (FLAG_PRESENT OR FLAG_WRITABLE))\<rparr>"
  using assms unfolding get_or_create_table_def alloc_table_def [symmetric]
  by (auto simp: Let_def split: if_splits prod.splits option.splits)

lemma get_or_create_fresh:
  assumes ok: "vm_ok R X s" and r: "r \<in> R" and w: "walk (vmm_mem s) r p = Some t"
    and len: "length p \<le> 2" and abs: "\<not> is_present (vmm_mem s t i)"
    and al: "alloc_table s = (Some f, s1)"
    and s': "s' = s1\<lparr>vmm_mem := link_table (vmm_mem s1) t i f
         (pte_set f (FLAG_PRESENT OR FLAG_WRITABLE))\<rparr>"
  shows "vm_ok R X s'" and "grows R 1 s s'" and "walk (vmm_mem s') r (p @ [i]) = Some f"
proof -
  note a = alloc_table_Some [OF ok al]
  let ?e = "pte_set f (FLAG_PRESENT OR FLAG_WRITABLE)"
  have fo: "forest (vmm_mem s) R (avail s \<union> X)" using ok by (simp add: vm_ok_def)
  have f: "f \<in> avail s \<union> X" using a(1) by simp
  note e = table_entry [OF a(2)]
  have m: "vmm_mem s' = link_table (vmm_mem s) t i f ?e"
    using a(7) by (auto simp: s' link_after_zero)
  have av: "avail s' = avail s - {f}" unfolding a(3) [symmetric] by (simp add: s' avail_def pool_tail_def pool_table_def)
  have fX: "f \<notin> X" using ok a(1) by (auto simp: vm_ok_def)
  have "avail s \<union> X - {f} = avail s' \<union> X" using av fX by auto
  with forest_link [OF fo f r w len abs e] have "forest (vmm_mem s') R (avail s' \<union> X)"
    by (simp add: m)
  moreover have "pool_ok s'" using a(5) by (simp add: s' pool_ok_def pool_tail_def pool_table_def)
  moreover have "X \<inter> avail s' = {}" using ok av by (auto simp: vm_ok_def)
  ultimately show "vm_ok R X s'" using a(4) by (simp add: vm_ok_def s')
  show wi: "walk (vmm_mem s') r (p @ [i]) = Some f"
    unfolding m using walk_link [OF fo f r w len abs e r, of "p @ [i]"] len by (simp add: same_subtree_def)
  have keep: "walk (vmm_mem s') r' q = Some u"
    if "r' \<in> R" "length q \<le> 3" "walk (vmm_mem s) r' q = Some u" for r' q u
  proof -
    have "walk (vmm_mem s) r' q = None" if "q = p @ [i]" "same_subtree r r' q"
      using walk_to_write [OF fo r w \<open>r' \<in> R\<close> _ private_write_absent [OF fo r w abs]] that abs
      by (simp add: walk_snoc pte_table_def)
    then show ?thesis unfolding m using walk_link [OF fo f r w len abs e that(1,2)] that(3) by auto
  qed
  have "avail s - avail s' \<subseteq> {f}" using av by auto
  then have "card (avail s - avail s') \<le> 1" using card_mono [of "{f}"] by fastforce
  moreover have "same_rest s s'" using a(6) by (simp add: s')
  moreover have "avail s' \<subseteq> avail s" using av by blast
  moreover have "\<forall>r'\<in>R. \<forall>q. length q = 4 \<longrightarrow> xlate (vmm_mem s') r' q = xlate (vmm_mem s) r' q"
    unfolding m using xlate_link [OF fo f r w len abs e] by blast
  ultimately show "grows R 1 s s'" unfolding grows_def using keep by blast
qed

lemma get_or_create_ok:
  assumes ok: "vm_ok R X s" and r: "r \<in> R" and w: "walk (vmm_mem s) r p = Some t"
    and len: "length p \<le> 2" and g: "get_or_create_table t i s = (res, s')"
  shows "vm_ok R X s'" and "grows R 1 s s'"
    and "res = Inr u \<Longrightarrow> walk (vmm_mem s') r (p @ [i]) = Some u"
proof -
  have "vm_ok R X s' \<and> grows R 1 s s' \<and> (res = Inr u \<longrightarrow> walk (vmm_mem s') r (p @ [i]) = Some u)"
    using g
  proof (cases rule: get_or_create_cases)
    case present
    then show ?thesis using ok w by (simp add: walk_snoc pte_table_def)
  next
    case exhausted
    then show ?thesis using alloc_table_None [OF ok exhausted(2)] ok by simp
  next
    case (fresh f s1)
    note get_or_create_fresh [OF ok r w len fresh(1,2,4)]
    with fresh(3) show ?thesis by simp
  qed (use ok in simp_all)
  then show "vm_ok R X s'" "grows R 1 s s'"
    "res = Inr u \<Longrightarrow> walk (vmm_mem s') r (p @ [i]) = Some u" by blast+
qed

lemma get_or_create_Inl:
  assumes ok: "vm_ok R X s" and w: "walk (vmm_mem s) r p = Some t"
    and g: "get_or_create_table t i s = (Inl e, s')"
  shows "s' = s"
    and "e = AlreadyMapped \<and> is_present (vmm_mem s t i) \<and> is_huge (vmm_mem s t i)
      \<or> e = FrameAllocationFailed \<and> \<not> is_present (vmm_mem s t i)
        \<and> (\<not> is_bootstrapping s \<longrightarrow> free_addrs (vmm_pmm s) = {})"
proof -
  have "s' = s \<and> (e = AlreadyMapped \<and> is_present (vmm_mem s t i) \<and> is_huge (vmm_mem s t i)
      \<or> e = FrameAllocationFailed \<and> \<not> is_present (vmm_mem s t i)
        \<and> (\<not> is_bootstrapping s \<longrightarrow> free_addrs (vmm_pmm s) = {}))"
    using g
  proof (cases rule: get_or_create_cases)
    case exhausted
    then show ?thesis using alloc_table_None [OF ok exhausted(2)] by simp
  qed simp_all
  then show "s' = s" and "e = AlreadyMapped \<and> is_present (vmm_mem s t i) \<and> is_huge (vmm_mem s t i)
      \<or> e = FrameAllocationFailed \<and> \<not> is_present (vmm_mem s t i)
        \<and> (\<not> is_bootstrapping s \<longrightarrow> free_addrs (vmm_pmm s) = {})" by blast+
qed

subsection \<open>Walking down and creating tables\<close>

text \<open>\<^verbatim>\<open>map_page\<close> and \<^verbatim>\<open>map_2mb_huge_page\<close> chain the same call along the indices of the
  address.\<close>

fun descend :: "u64 \<Rightarrow> pt_index list \<Rightarrow> vmm \<Rightarrow> (map_error + u64) \<times> vmm" where
  "descend t [] s = (Inr t, s)"
| "descend t (i # p) s = and_then (get_or_create_table t i s) (\<lambda>t' s'. descend t' p s')"

definition map_checks :: "virt_addr \<Rightarrow> phys_page \<Rightarrow> bool" where
  "map_checks va pa \<longleftrightarrow> is_canonical va \<and> va_is_aligned va \<and> pa mod PAGE_SIZE = 0"

lemma map_page_descend:
  "map_checks va pa \<Longrightarrow> map_page root va pa flags s =
     and_then (descend root [pml4_index va, pdpt_index va, pd_index va] s) (\<lambda>pt s.
        if is_present (vmm_mem s pt (pt_index_of va)) then (Inl AlreadyMapped, s)
        else (Inr (), s\<lparr>vmm_mem := write_entry (vmm_mem s) pt (pt_index_of va) (pte_set pa flags)\<rparr>))"
  by (auto simp: map_page_def map_checks_def and_then_def split: prod.splits sum.splits)

lemma map_2mb_descend:
  "is_canonical va \<Longrightarrow> map_2mb_huge_page root va pa flags s =
     and_then (descend root [pml4_index va, pdpt_index va] s) (\<lambda>pd s.
        (Inr (), s\<lparr>vmm_mem := write_entry (vmm_mem s) pd (pd_index va)
                   (pte_set (pa AND NOT 0x1FFFFF) (flags OR FLAG_HUGE_PAGE))\<rparr>))"
  by (auto simp: map_2mb_huge_page_def and_then_def split: prod.splits sum.splits)

lemma grows_trans:
  assumes "grows R k s s'" and "grows R l s' s''" and "finite (avail s)"
  shows "grows R (k + l) s s''"
proof -
  have "avail s - avail s'' \<subseteq> (avail s - avail s') \<union> (avail s' - avail s'')" by blast
  then have "card (avail s - avail s'') \<le> card ((avail s - avail s') \<union> (avail s' - avail s''))"
    using assms by (intro card_mono) (auto simp: grows_def intro: finite_subset)
  also have "\<dots> \<le> card (avail s - avail s') + card (avail s' - avail s'')" by (rule card_Un_le)
  also have "\<dots> \<le> k + l" using assms(1,2) by (simp add: grows_def add_mono)
  finally have "card (avail s - avail s'') \<le> k + l" .
  moreover have "same_rest s s''" using assms(1,2) unfolding grows_def by (blast intro: same_rest_trans)
  ultimately show ?thesis
    using assms(1,2) unfolding grows_def by (auto intro: subset_trans)
qed

lemma finite_avail: "vm_ok R X s \<Longrightarrow> finite (avail s)"
  by (simp add: vm_ok_def avail_def free_addrs_def pool_tail_def)

text \<open>Why a walk stops: either a large page covers the address, or no frame is left.\<close>

definition stopped :: "phys_mem \<Rightarrow> u64 \<Rightarrow> pt_index list \<Rightarrow> vmm \<Rightarrow> map_error \<Rightarrow> bool" where
  "stopped m t q s e \<longleftrightarrow> e = AlreadyMapped \<and> xlate m t q \<noteq> None
     \<or> e = FrameAllocationFailed \<and> xlate m t q = None
        \<and> (\<not> is_bootstrapping s \<longrightarrow> free_addrs (vmm_pmm s) = {})"

lemma get_or_create_stopped:
  assumes "vm_ok R X s" and "get_or_create_table t i s = (Inl e, s')" and "q \<noteq> []"
  shows "s' = s" and "stopped (vmm_mem s) t (i # q) s e"
  using get_or_create_Inl [OF assms(1) _ assms(2), of t "[]"] assms(3) by (auto simp: stopped_def)

lemma descend_ok:
  assumes "vm_ok R X s" and "r \<in> R" and "walk (vmm_mem s) r p = Some t"
    and "length p + length q \<le> 3" and "descend t q s = (res, s')" and "rest \<noteq> []"
  shows "vm_ok R X s' \<and>
    (case res of
       Inr u \<Rightarrow> grows R (length q) s s' \<and> walk (vmm_mem s') r (p @ q) = Some u
     | Inl e \<Rightarrow> q \<noteq> [] \<and> grows R (length q - 1) s s' \<and> stopped (vmm_mem s') r (p @ q @ rest) s' e)"
  using assms
proof (induction q arbitrary: s p t)
  case Nil
  then show ?case by auto
next
  case (Cons i q)
  obtain r1 s1 where g: "get_or_create_table t i s = (r1, s1)" by (cases "get_or_create_table t i s")
  have len: "length p \<le> 2" using Cons.prems(4) by simp
  note k = get_or_create_ok [OF Cons.prems(1-3) len g]
  show ?case
  proof (cases r1)
    case (Inl e)
    with g have g': "get_or_create_table t i s = (Inl e, s1)" by simp
    with Cons.prems(5) have r: "res = Inl e" "s' = s1" by simp_all
    have "q @ rest \<noteq> []" using Cons.prems(6) by simp
    note st = get_or_create_stopped [OF Cons.prems(1) g' this]
    moreover have "xlate (vmm_mem s) r (p @ i # q @ rest) = xlate (vmm_mem s) t (i # q @ rest)"
      by (rule xlate_walk [OF Cons.prems(3)]) simp
    ultimately show ?thesis using r Cons.prems(1) by (simp add: stopped_def)
  next
    case (Inr t1)
    with g Cons.prems(5) have d: "descend t1 q s1 = (res, s')" by simp
    have "length (p @ [i]) + length q \<le> 3" using Cons.prems(4) by simp
    from Cons.IH [OF k(1) Cons.prems(2) k(3) [OF Inr] this d Cons.prems(6)]
    show ?thesis
      using grows_trans [OF k(2) _ finite_avail [OF Cons.prems(1)], of "length q" s']
        grows_trans [OF k(2) _ finite_avail [OF Cons.prems(1)], of "length q - 1" s']
      by (cases res; cases q) simp_all
  qed
qed

subsection \<open>Mapping a page\<close>

lemma avail_mem [simp]: "avail (s\<lparr>vmm_mem := m\<rparr>) = avail s"
  by (simp add: avail_def pool_tail_def pool_table_def)

lemma pool_ok_mem [simp]: "pool_ok (s\<lparr>vmm_mem := m\<rparr>) = pool_ok s"
  by (simp add: pool_ok_def pool_tail_def pool_table_def)

lemma vm_ok_write:
  assumes "vm_ok R X s" and "forest m R (avail s \<union> X)"
  shows "vm_ok R X (s\<lparr>vmm_mem := m\<rparr>)"
  using assms by (simp add: vm_ok_def)

text \<open>The state in which the leaf is written, and the outcome in terms of it.\<close>

lemma map_page_descended:
  assumes ok: "vm_ok R X s" and r: "r \<in> R" and c: "map_checks va pa"
    and mp: "map_page r va pa flags s = (res, s')"
  obtains (mapped) s3 pt where "vm_ok R X s3" "grows R 3 s s3" "res = Inr ()"
      "walk (vmm_mem s3) r [pml4_index va, pdpt_index va, pd_index va] = Some pt"
      "\<not> is_present (vmm_mem s3 pt (pt_index_of va))"
      "s' = s3\<lparr>vmm_mem := write_entry (vmm_mem s3) pt (pt_index_of va) (pte_set pa flags)\<rparr>"
  | (failed) e where "vm_ok R X s'" "res = Inl e"
      "e \<noteq> AlreadyMapped \<Longrightarrow> grows R 2 s s'" "grows R 3 s s'"
      "stopped (vmm_mem s') r (va_path va) s' e"
proof -
  let ?p = "[pml4_index va, pdpt_index va, pd_index va]"
  obtain d s3 where d: "descend r ?p s = (d, s3)" by (cases "descend r ?p s")
  have "walk (vmm_mem s) r [] = Some r" by simp
  note dk = descend_ok [OF ok r this _ d, of "[pt_index_of va]"]
  have ok3: "vm_ok R X s3" using dk by simp
  show thesis
  proof (cases d)
    case (Inl e)
    then have "stopped (vmm_mem s3) r (va_path va) s3 e" and g: "grows R 2 s s3"
      using dk by (simp_all add: va_path_def eval_nat_numeral)
    then show thesis
      using Inl mp d ok3 grows_weaken [OF g]
      by (intro failed [of e]) (simp_all add: map_page_descend [OF c])
  next
    case (Inr pt)
    then have w: "walk (vmm_mem s3) r ?p = Some pt" and g3: "grows R 3 s s3"
      using dk by (simp_all add: eval_nat_numeral)
    show thesis
    proof (cases "is_present (vmm_mem s3 pt (pt_index_of va))")
      case True
      have "xlate (vmm_mem s3) r (va_path va) = xlate (vmm_mem s3) pt [pt_index_of va]"
        using xlate_walk [OF w, of "[pt_index_of va]"] by (simp add: va_path_def)
      then have "stopped (vmm_mem s3) r (va_path va) s3 AlreadyMapped"
        using True by (simp add: stopped_def)
      then show thesis
        using mp d Inr True ok3 g3
        by (intro failed [of AlreadyMapped]) (simp_all add: map_page_descend [OF c])
    next
      case False
      then show thesis
        using mp d Inr ok3 g3 w by (intro mapped [of s3 pt]) (simp_all add: map_page_descend [OF c])
    qed
  qed
qed

lemma va_path_split: "va_path va = [pml4_index va, pdpt_index va, pd_index va] @ [pt_index_of va]"
  by (simp add: va_path_def)

lemma growsD_xlate: "grows R k s s' \<Longrightarrow> r \<in> R \<Longrightarrow> length q = 4 \<Longrightarrow> xlate (vmm_mem s') r q = xlate (vmm_mem s) r q"
  by (simp add: grows_def)

lemma growsD_rest: "grows R k s s' \<Longrightarrow> same_rest s s'"
  by (simp add: grows_def)

lemma map_page_Inr:
  assumes ok: "vm_ok R X s" and r: "r \<in> R" and mp: "map_page r va pa flags s = (Inr (), s')"
    and fl: "is_present flags"
  shows "map_checks va pa" and "vm_ok R X s'" and "same_rest s s'" and "avail s' \<subseteq> avail s"
    and "xlate (vmm_mem s) r (va_path va) = None" and "card (avail s - avail s') \<le> 3"
    and "\<And>r' q. r' \<in> R \<Longrightarrow> length q = 4 \<Longrightarrow> xlate (vmm_mem s') r' q =
      (if q = va_path va \<and> same_subtree r r' q then Some (pte_set pa flags, [])
       else xlate (vmm_mem s) r' q)"
proof -
  show c: "map_checks va pa"
    using mp by (auto simp: map_page_def map_checks_def split: if_splits)
  from ok r c mp obtain s3 pt where
    ok3: "vm_ok R X s3" and g3: "grows R 3 s s3"
    and w: "walk (vmm_mem s3) r [pml4_index va, pdpt_index va, pd_index va] = Some pt"
    and np: "\<not> is_present (vmm_mem s3 pt (pt_index_of va))"
    and s': "s' = s3\<lparr>vmm_mem := write_entry (vmm_mem s3) pt (pt_index_of va) (pte_set pa flags)\<rparr>"
    by (cases rule: map_page_descended) auto
  have fo: "forest (vmm_mem s3) R (avail s3 \<union> X)" using ok3 by (simp add: vm_ok_def)
  have pres: "is_present (pte_set pa flags)" using fl by (simp add: is_present_set)
  show "vm_ok R X s'"
    unfolding s' by (rule vm_ok_write [OF ok3 forest_leaf_write [OF fo r w]]) simp
  show "same_rest s s'" using growsD_rest [OF g3] by (simp add: s')
  show "avail s' \<subseteq> avail s" "card (avail s - avail s') \<le> 3" using g3 by (simp_all add: s' grows_def)
  have "xlate (vmm_mem s3) r (va_path va) = None"
    using xlate_walk [OF w, of "[pt_index_of va]"] np by (simp add: va_path_split)
  then show "xlate (vmm_mem s) r (va_path va) = None" using growsD_xlate [OF g3 r] by simp
  show "xlate (vmm_mem s') r' q =
      (if q = va_path va \<and> same_subtree r r' q then Some (pte_set pa flags, [])
       else xlate (vmm_mem s) r' q)" if "r' \<in> R" "length q = 4" for r' q
  proof -
    have "vmm_mem s' = write_entry (vmm_mem s3) pt (pt_index_of va) (pte_set pa flags)"
      by (simp add: s')
    with xlate_leaf_write [OF fo r w _ that, of "pt_index_of va" "pte_set pa flags"]
      growsD_xlate [OF g3 that] pres show ?thesis
      unfolding va_path_split [symmetric] by auto
  qed
qed

lemma map_page_Inl:
  assumes ok: "vm_ok R X s" and r: "r \<in> R" and mp: "map_page r va pa flags s = (Inl e, s')"
  shows "vm_ok R X s'" and "grows R 3 s s'"
    and "map_checks va pa \<Longrightarrow> stopped (vmm_mem s) r (va_path va) s' e"
    and "map_checks va pa \<Longrightarrow> e \<noteq> AlreadyMapped \<Longrightarrow> grows R 2 s s'"
    and "\<not> map_checks va pa \<Longrightarrow> s' = s"
proof -
  have "vm_ok R X s' \<and> grows R 3 s s' \<and>
    (if map_checks va pa
     then stopped (vmm_mem s) r (va_path va) s' e \<and> (e \<noteq> AlreadyMapped \<longrightarrow> grows R 2 s s')
     else s' = s)"
  proof (cases "map_checks va pa")
    case False
    then have "s' = s" using mp by (auto simp: map_page_def map_checks_def split: if_splits)
    with False ok show ?thesis by simp
  next
    case True
    from ok r True mp show ?thesis
    proof (cases rule: map_page_descended)
      case (failed e')
      then show ?thesis using True growsD_xlate [OF failed(4) r] by (simp add: stopped_def)
    qed simp
  qed
  then show "vm_ok R X s'" "grows R 3 s s'"
    "map_checks va pa \<Longrightarrow> stopped (vmm_mem s) r (va_path va) s' e"
    "map_checks va pa \<Longrightarrow> e \<noteq> AlreadyMapped \<Longrightarrow> grows R 2 s s'"
    "\<not> map_checks va pa \<Longrightarrow> s' = s" by simp_all
qed

text \<open>With three frames free, an address that is not mapped can be mapped.\<close>

lemma map_page_possible:
  assumes ok: "vm_ok R X s" and r: "r \<in> R" and c: "map_checks va pa"
    and nb: "\<not> is_bootstrapping s" and fr: "3 \<le> card (free_addrs (vmm_pmm s))"
    and un: "xlate (vmm_mem s) r (va_path va) = None"
  shows "\<exists>s'. map_page r va pa flags s = (Inr (), s')"
proof (cases "map_page r va pa flags s")
  case (Pair res s')
  show ?thesis
  proof (cases res)
    case (Inl e)
    with Pair have mp: "map_page r va pa flags s = (Inl e, s')" by simp
    note k = map_page_Inl [OF ok r mp]
    have boot: "is_bootstrapping s' = is_bootstrapping s" using same_restD [OF growsD_rest [OF k(2)]] by simp
    with k(3) [OF c] un nb have "e \<noteq> AlreadyMapped" "free_addrs (vmm_pmm s') = {}"
      by (auto simp: stopped_def)
    with boot nb k(4) [OF c] have "avail s' = {}" "grows R 2 s s'" by (simp_all add: avail_def)
    then have "card (avail s) \<le> 2" by (simp add: grows_def)
    with fr nb show ?thesis by (simp add: avail_def)
  qed (use Pair in auto)
qed

subsection \<open>Unmapping and translating\<close>

text \<open>Neither function looks at the size bit, so both are right for addresses that no large
  page covers.\<close>

definition no_large_page :: "phys_mem \<Rightarrow> u64 \<Rightarrow> virt_addr \<Rightarrow> bool" where
  "no_large_page m r va \<longleftrightarrow> (\<forall>e rest. xlate m r (va_path va) = Some (e, rest) \<longrightarrow> rest = [])"

lemma xlate_va_path:
  "xlate m r (va_path va) =
     (let e1 = m r (pml4_index va); e2 = m (pte_phys_addr e1) (pdpt_index va);
          e3 = m (pte_phys_addr e2) (pd_index va); e4 = m (pte_phys_addr e3) (pt_index_of va) in
      if \<not> is_present e1 then None
      else if is_huge e1 then Some (e1, [pdpt_index va, pd_index va, pt_index_of va])
      else if \<not> is_present e2 then None
      else if is_huge e2 then Some (e2, [pd_index va, pt_index_of va])
      else if \<not> is_present e3 then None
      else if is_huge e3 then Some (e3, [pt_index_of va])
      else if \<not> is_present e4 then None else Some (e4, []))"
  by (simp add: va_path_def Let_def)

lemma page_offset_mask: "page_offset va = va AND mask 12"
  by (simp add: page_offset_def mask_eq_exp_minus_1)

lemma page_offset_aligned: "va_is_aligned va \<Longrightarrow> page_offset va = 0"
  by (simp add: page_offset_mask va_is_aligned_def take_bit_eq_mask [symmetric] take_bit_eq_mod)

lemma frame_plus_offset:
  "pte_phys_addr e + page_offset va = (pte_phys_addr e AND NOT (mask 12)) OR (va AND mask 12)"
proof -
  have d: "pte_phys_addr e AND NOT (mask 12) = pte_phys_addr e"
    by (rule bit_word_eqI) (auto simp: bit_and_iff bit_not_iff bit_mask_iff bit_phys_addr)
  have "pte_phys_addr e AND page_offset va = 0"
    unfolding page_offset_mask
    by (rule bit_word_eqI) (auto simp: bit_and_iff bit_mask_iff bit_phys_addr)
  then have "pte_phys_addr e + page_offset va = pte_phys_addr e OR page_offset va"
    by (rule disjunctive_add_eq_or)
  then show ?thesis by (simp only: d page_offset_mask)
qed

lemma translate_mmu:
  assumes "no_large_page (vmm_mem s) r va"
  shows "translate r va s = mmu_translate (vmm_mem s) r va"
  using assms frame_plus_offset [of _ va]
  unfolding no_large_page_def mmu_translate_def translate_def xlate_va_path
  by (auto simp: Let_def split: if_splits)

text \<open>Below a 2 MiB page both functions take the mapped frame for a table.\<close>

lemma translate_large_page:
  assumes "is_canonical va" and "xlate (vmm_mem s) r (va_path va) = Some (e, [j])"
  shows "translate r va s =
    (let d = vmm_mem s (pte_phys_addr e) (pt_index_of va) in
     if is_present d then Some (pte_phys_addr d + page_offset va, pte_flags d) else None)"
  using assms unfolding xlate_va_path translate_def by (auto simp: Let_def split: if_splits)

lemma unmap_page_walk:
  assumes "is_canonical va" and "va_is_aligned va" and "no_large_page (vmm_mem s) r va"
  obtains (missing) "unmap_page r va s = (Inl ParentTableMissing, s)"
      "xlate (vmm_mem s) r (va_path va) = None"
      "walk (vmm_mem s) r [pml4_index va, pdpt_index va, pd_index va] = None"
  | (absent) pt where "unmap_page r va s = (Inl NotMapped, s)"
      "xlate (vmm_mem s) r (va_path va) = None"
      "walk (vmm_mem s) r [pml4_index va, pdpt_index va, pd_index va] = Some pt"
  | (cleared) pt e where "xlate (vmm_mem s) r (va_path va) = Some (e, [])"
      "walk (vmm_mem s) r [pml4_index va, pdpt_index va, pd_index va] = Some pt"
      "unmap_page r va s = (Inr (pte_phys_addr e),
         s\<lparr>vmm_mem := write_entry (vmm_mem s) pt (pt_index_of va) 0\<rparr>)"
proof -
  let ?m = "vmm_mem s"
  define e1 where "e1 = ?m r (pml4_index va)"
  define e2 where "e2 = ?m (pte_phys_addr e1) (pdpt_index va)"
  define e3 where "e3 = ?m (pte_phys_addr e2) (pd_index va)"
  define e4 where "e4 = ?m (pte_phys_addr e3) (pt_index_of va)"
  note d = e1_def [symmetric] e2_def [symmetric] e3_def [symmetric] e4_def [symmetric]
  have big: "is_present e1 \<longrightarrow> \<not> is_huge e1" "is_present e1 \<longrightarrow> is_present e2 \<longrightarrow> \<not> is_huge e2"
    "is_present e1 \<longrightarrow> is_present e2 \<longrightarrow> is_present e3 \<longrightarrow> \<not> is_huge e3"
    using assms(3) unfolding no_large_page_def xlate_va_path Let_def d
    by (auto split: if_splits)
  have w: "walk ?m r [pml4_index va, pdpt_index va, pd_index va] =
      (if is_present e1 \<and> is_present e2 \<and> is_present e3 then Some (pte_phys_addr e3) else None)"
    using big by (auto simp: pte_table_def d)
  have x: "xlate ?m r (va_path va) = (if is_present e1 \<and> is_present e2 \<and> is_present e3 \<and> is_present e4
      then Some (e4, []) else None)"
    using big unfolding xlate_va_path Let_def d by auto
  have u: "unmap_page r va s =
     (if is_present e1 \<and> is_present e2 \<and> is_present e3
      then if is_present e4 then (Inr (pte_phys_addr e4),
             s\<lparr>vmm_mem := write_entry ?m (pte_phys_addr e3) (pt_index_of va) 0\<rparr>)
           else (Inl NotMapped, s)
      else (Inl ParentTableMissing, s))"
    unfolding unmap_page_def Let_def d using assms(1,2) by simp
  consider "is_present e1 \<and> is_present e2 \<and> is_present e3" "is_present e4"
    | "is_present e1 \<and> is_present e2 \<and> is_present e3" "\<not> is_present e4"
    | "\<not> (is_present e1 \<and> is_present e2 \<and> is_present e3)" by blast
  then show thesis
  proof cases
    case 1
    then show thesis by (intro cleared [of e4 "pte_phys_addr e3"]) (simp_all only: w x u if_True simp_thms)
  next
    case 2
    then show thesis by (intro absent [of "pte_phys_addr e3"]) (simp_all only: w x u if_True if_False simp_thms)
  next
    case 3
    then show thesis by (intro missing) (unfold w x u, auto)
  qed
qed

lemma unmap_page_Inl: "unmap_page r va s = (Inl e, s') \<Longrightarrow> s' = s"
  by (auto simp: unmap_page_def Let_def split: if_splits)

lemma unmap_page_Inr:
  assumes ok: "vm_ok R X s" and r: "r \<in> R" and nl: "no_large_page (vmm_mem s) r va"
    and um: "unmap_page r va s = (Inr f, s')"
  shows "is_canonical va" and "va_is_aligned va" and "vm_ok R X s'"
    and "s' = s\<lparr>vmm_mem := vmm_mem s'\<rparr>"
    and "\<exists>e. xlate (vmm_mem s) r (va_path va) = Some (e, []) \<and> f = pte_phys_addr e"
    and "\<And>r' q. r' \<in> R \<Longrightarrow> length q = 4 \<Longrightarrow> xlate (vmm_mem s') r' q =
      (if q = va_path va \<and> same_subtree r r' q then None else xlate (vmm_mem s) r' q)"
proof -
  show ca: "is_canonical va" "va_is_aligned va"
    using um by (auto simp: unmap_page_def split: if_splits)
  from ca nl obtain pt e where x: "xlate (vmm_mem s) r (va_path va) = Some (e, [])"
    and w: "walk (vmm_mem s) r [pml4_index va, pdpt_index va, pd_index va] = Some pt"
    and f: "f = pte_phys_addr e"
    and s': "s' = s\<lparr>vmm_mem := write_entry (vmm_mem s) pt (pt_index_of va) 0\<rparr>"
    using um by (cases rule: unmap_page_walk) auto
  have fo: "forest (vmm_mem s) R (avail s \<union> X)" using ok by (simp add: vm_ok_def)
  show "vm_ok R X s'"
    unfolding s' by (rule vm_ok_write [OF ok forest_leaf_write [OF fo r w]]) simp
  show "s' = s\<lparr>vmm_mem := vmm_mem s'\<rparr>" by (simp add: s')
  show "\<exists>e. xlate (vmm_mem s) r (va_path va) = Some (e, []) \<and> f = pte_phys_addr e"
    using x f by blast
  show "xlate (vmm_mem s') r' q =
      (if q = va_path va \<and> same_subtree r r' q then None else xlate (vmm_mem s) r' q)"
    if "r' \<in> R" "length q = 4" for r' q
  proof -
    have "vmm_mem s' = write_entry (vmm_mem s) pt (pt_index_of va) 0" by (simp add: s')
    with xlate_leaf_write [OF fo r w _ that, of "pt_index_of va" 0] show ?thesis
      unfolding va_path_split [symmetric] by auto
  qed
qed

lemma unmap_page_mapped:
  assumes "is_canonical va" and "va_is_aligned va" and "xlate (vmm_mem s) r (va_path va) = Some (e, [])"
  shows "\<exists>s'. unmap_page r va s = (Inr (pte_phys_addr e), s')"
proof -
  have "no_large_page (vmm_mem s) r va" using assms(3) by (simp add: no_large_page_def)
  from assms(1,2) this assms(3) show ?thesis by (cases rule: unmap_page_walk) auto
qed

subsection \<open>Mapping a 2 MiB page\<close>

lemma map_2mb_Inr:
  assumes ok: "vm_ok R X s" and r: "r \<in> R"
    and mp: "map_2mb_huge_page r va pa flags s = (Inr (), s')" and fl: "is_present flags"
  shows "is_canonical va" and "vm_ok R X s'" and "same_rest s s'" and "avail s' \<subseteq> avail s"
    and "\<And>r' q. r' \<in> R \<Longrightarrow> length q = 4 \<Longrightarrow> xlate (vmm_mem s') r' q =
      (if take 3 q = take 3 (va_path va) \<and> same_subtree r r' q
       then Some (pte_set (pa AND NOT 0x1FFFFF) (flags OR FLAG_HUGE_PAGE), drop 3 q)
       else xlate (vmm_mem s) r' q)"
proof -
  let ?p = "[pml4_index va, pdpt_index va]"
  let ?e = "pte_set (pa AND NOT 0x1FFFFF) (flags OR FLAG_HUGE_PAGE)"
  show c: "is_canonical va" using mp by (auto simp: map_2mb_huge_page_def split: if_splits)
  from mp obtain pd s2 where d: "descend r ?p s = (Inr pd, s2)"
    and s': "s' = s2\<lparr>vmm_mem := write_entry (vmm_mem s2) pd (pd_index va) ?e\<rparr>"
    by (auto simp: map_2mb_descend [OF c] and_then_Inr)
  have "walk (vmm_mem s) r [] = Some r" by simp
  note dk = descend_ok [OF ok r this _ d, of "[pd_index va]"]
  have ok2: "vm_ok R X s2" and g2: "grows R 2 s s2" and w: "walk (vmm_mem s2) r ?p = Some pd"
    using dk by (simp_all add: eval_nat_numeral)
  have fo: "forest (vmm_mem s2) R (avail s2 \<union> X)" using ok2 by (simp add: vm_ok_def)
  have e: "is_present ?e" "is_huge ?e"
    using fl by (simp_all add: is_present_set is_huge_set present_or huge_or)
  show "vm_ok R X s'"
    unfolding s' by (rule vm_ok_write [OF ok2 forest_huge_write [OF fo r w _ e(2)]]) simp
  show "same_rest s s'" using growsD_rest [OF g2] by (simp add: s')
  show "avail s' \<subseteq> avail s" using g2 by (simp add: s' grows_def)
  show "xlate (vmm_mem s') r' q = (if take 3 q = take 3 (va_path va) \<and> same_subtree r r' q
       then Some (?e, drop 3 q) else xlate (vmm_mem s) r' q)"
    if "r' \<in> R" "length q = 4" for r' q
  proof -
    have m: "vmm_mem s' = write_entry (vmm_mem s2) pd (pd_index va) ?e" by (simp add: s')
    have t: "take 3 (va_path va) = ?p @ [pd_index va]" by (simp add: va_path_def)
    show ?thesis
      unfolding m t using xlate_huge_write [OF fo r w _ that e] growsD_xlate [OF g2 that] by simp
  qed
qed

lemma map_2mb_possible:
  assumes ok: "vm_ok R X s" and r: "r \<in> R" and can: "is_canonical va"
    and nb: "\<not> is_bootstrapping s" and fr: "2 \<le> card (free_addrs (vmm_pmm s))"
    and un: "xlate (vmm_mem s) r (va_path va) = None"
  shows "\<exists>s'. map_2mb_huge_page r va pa flags s = (Inr (), s')"
proof -
  let ?p = "[pml4_index va, pdpt_index va]"
  obtain d s2 where d: "descend r ?p s = (d, s2)" by (cases "descend r ?p s")
  have "walk (vmm_mem s) r [] = Some r" by simp
  note dk = descend_ok [OF ok r this _ d, of "[pd_index va, pt_index_of va]"]
  show ?thesis
  proof (cases d)
    case (Inl e)
    then have st: "stopped (vmm_mem s2) r (va_path va) s2 e" and g: "grows R 1 s s2"
      using dk by (simp_all add: va_path_def)
    have boot: "is_bootstrapping s2 = is_bootstrapping s" using same_restD [OF growsD_rest [OF g]] by simp
    then have "free_addrs (vmm_pmm s2) = {}"
      using st growsD_xlate [OF g r, of "va_path va"] un nb by (auto simp: stopped_def)
    then have "avail s2 = {}" using boot nb by (simp add: avail_def)
    with g have "card (avail s) \<le> 1" by (simp add: grows_def)
    with fr nb show ?thesis by (simp add: avail_def)
  qed (use d in \<open>simp add: map_2mb_descend [OF can]\<close>)
qed

subsection \<open>What the operations do to the address spaces\<close>

lemma mmu_leaf:
  assumes "is_canonical va" and "xlate m r (va_path va) = Some (pte_set pa flags, [])"
    and "flags_clean flags" and "frame_addr pa"
  shows "mmu_translate m r va = Some (pa + page_offset va, flags)"
  using assms frame_plus_offset [of "pte_set pa flags" va]
  by (simp add: mmu_translate_def pte_phys_addr_set pte_flags_set frame_addr_def)

lemma mmu_cong: "xlate m' r (va_path va) = xlate m r (va_path va) \<Longrightarrow> mmu_translate m' r va = mmu_translate m r va"
  by (simp add: mmu_translate_def)

lemma same_subtree_va: "same_subtree r r' (va_path va) \<longleftrightarrow> r = r' \<or> shared_slot (pml4_index va)"
  by (simp add: same_subtree_def va_path_def)

lemma same_page_slot: "is_canonical a \<Longrightarrow> is_canonical b \<Longrightarrow> same_page a b \<Longrightarrow> pml4_index a = pml4_index b"
  using va_path_eq_iff [of a b] by (simp add: va_path_def)

text \<open>The address spaces in which a change made under root \<open>r\<close> at \<open>va\<close> is visible.\<close>

definition sees_change :: "u64 \<Rightarrow> virt_addr \<Rightarrow> u64 \<Rightarrow> virt_addr \<Rightarrow> bool" where
  "sees_change r va r' va' \<longleftrightarrow>
     is_canonical va' \<and> same_page va va' \<and> (r = r' \<or> shared_slot (pml4_index va))"

lemma sees_change_path:
  assumes "is_canonical va" and "is_canonical va'"
  shows "sees_change r va r' va' \<longleftrightarrow> va_path va' = va_path va \<and> same_subtree r r' (va_path va')"
  using va_path_eq_iff [OF assms] same_page_slot [OF assms] assms(2)
  by (auto simp: sees_change_def same_subtree_va)

lemma map_page_effect:
  assumes "vm_ok R X s" and "r \<in> R" and "is_present flags" and "flags_clean flags"
    and "frame_addr pa" and "map_page r va pa flags s = (Inr (), s')"
  shows "vm_ok R X s' \<and> mmu_translate (vmm_mem s) r va = None
    \<and> (\<forall>r'\<in>R. \<forall>va'. mmu_translate (vmm_mem s') r' va' =
        (if sees_change r va r' va' then Some (pa + page_offset va', flags)
         else mmu_translate (vmm_mem s) r' va'))"
proof (intro conjI ballI allI)
  note k = map_page_Inr [OF assms(1,2,6,3)]
  have can: "is_canonical va" using k(1) by (simp add: map_checks_def)
  show "vm_ok R X s'" by (rule k(2))
  show "mmu_translate (vmm_mem s) r va = None" using k(5) by (simp add: mmu_translate_def)
  fix r' va' assume r': "r' \<in> R"
  show "mmu_translate (vmm_mem s') r' va' =
      (if sees_change r va r' va' then Some (pa + page_offset va', flags)
       else mmu_translate (vmm_mem s) r' va')"
  proof (cases "is_canonical va'")
    case False
    then show ?thesis by (simp add: mmu_translate_def sees_change_def)
  next
    case True
    then show ?thesis
      using k(7) [OF r', of "va_path va'"] sees_change_path [OF can True, of r r']
        mmu_leaf [OF True _ assms(4,5)] mmu_cong [of "vmm_mem s'" r' va' "vmm_mem s"]
      by (auto split: if_splits)
  qed
qed

text \<open>C1. Mapping a page succeeds only where nothing was mapped; afterwards the hardware
  translates every address of that page to the given frame with the given flags, in the root that
  was changed and, for a slot that all address spaces share, in every root; every other address of
  every root translates as before, and the page tables stay separate from each other and from the
  free frames.\<close>
theorem map_page_maps_exactly:
  assumes "vm_ok R X s" and "r \<in> R" and "is_present flags" and "flags_clean flags"
    and "frame_addr pa" and "map_page r va pa flags s = (Inr (), s')"
  shows "vm_ok R X s' \<and> mmu_translate (vmm_mem s) r va = None
    \<and> (\<forall>r'\<in>R. \<forall>va'. mmu_translate (vmm_mem s') r' va' =
        (if sees_change r va r' va' then Some (pa + page_offset va', flags)
         else mmu_translate (vmm_mem s) r' va'))"
  by (rule map_page_effect [OF assms])

text \<open>C28. A mapping that fails changes no translation of any root, whatever the reason: bad
  arguments leave the state alone and report which one was bad, an address that is already covered
  (by a page of any size) reports \<^verbatim>\<open>AlreadyMapped\<close>, and otherwise the frames ran out.\<close>
theorem map_page_failure_harmless:
  assumes "vm_ok R X s" and "r \<in> R" and "map_page r va pa flags s = (Inl e, s')"
  shows "vm_ok R X s' \<and> (\<forall>r'\<in>R. \<forall>va'. mmu_translate (vmm_mem s') r' va' = mmu_translate (vmm_mem s) r' va')
    \<and> (e = MapNonCanonicalAddress \<longleftrightarrow> \<not> is_canonical va)
    \<and> (e = MapUnalignedVirtualAddress \<longleftrightarrow> is_canonical va \<and> \<not> va_is_aligned va)
    \<and> (e = MapUnalignedPhysicalAddress \<longleftrightarrow> is_canonical va \<and> va_is_aligned va \<and> pa mod PAGE_SIZE \<noteq> 0)
    \<and> (e = AlreadyMapped \<longleftrightarrow> map_checks va pa \<and> xlate (vmm_mem s) r (va_path va) \<noteq> None)
    \<and> (e = FrameAllocationFailed \<longleftrightarrow> map_checks va pa \<and> xlate (vmm_mem s) r (va_path va) = None)
    \<and> (e = FrameAllocationFailed \<longrightarrow> \<not> is_bootstrapping s \<longrightarrow> free_addrs (vmm_pmm s') = {})"
proof -
  note k = map_page_Inl [OF assms]
  have "mmu_translate (vmm_mem s') r' va' = mmu_translate (vmm_mem s) r' va'" if "r' \<in> R" for r' va'
    by (rule mmu_cong) (rule growsD_xlate [OF k(2) that], simp)
  moreover have boot: "is_bootstrapping s' = is_bootstrapping s"
    using same_restD [OF growsD_rest [OF k(2)]] by simp
  moreover have "e \<notin> {AlreadyMapped, FrameAllocationFailed}
      \<and> (e = MapNonCanonicalAddress \<longleftrightarrow> \<not> is_canonical va)
      \<and> (e = MapUnalignedVirtualAddress \<longleftrightarrow> is_canonical va \<and> \<not> va_is_aligned va)
      \<and> (e = MapUnalignedPhysicalAddress \<longleftrightarrow> is_canonical va \<and> va_is_aligned va \<and> pa mod PAGE_SIZE \<noteq> 0)"
    if "\<not> map_checks va pa"
    using assms(3) that by (auto simp: map_page_def map_checks_def split: if_splits)
  ultimately show ?thesis
    using k(1) k(3) unfolding stopped_def
    by (cases "map_checks va pa") (auto simp: map_checks_def)
qed

text \<open>Mapping cannot fail needlessly: with the arguments in order, the page unmapped and
  three frames free (one per table level that may be missing), it succeeds.\<close>
theorem map_page_succeeds:
  assumes "vm_ok R X s" and "r \<in> R" and "is_canonical va" and "va_is_aligned va"
    and "pa mod PAGE_SIZE = 0" and "\<not> is_bootstrapping s"
    and "3 \<le> card (free_addrs (vmm_pmm s))" and "xlate (vmm_mem s) r (va_path va) = None"
  shows "\<exists>s'. map_page r va pa flags s = (Inr (), s')"
  using map_page_possible [OF assms(1,2)] assms(3-8) by (simp add: map_checks_def)

text \<open>C27. At an address that no large page covers, unmapping a page that a 4 KiB entry maps returns the frame it was mapped to and
  removes that page from the root and from the roots that share its slot; every other address of
  every root translates as before and no frame changes hands.  Otherwise it changes nothing.\<close>
theorem unmap_page_removes_exactly:
  assumes "vm_ok R X s" and "r \<in> R" and "no_large_page (vmm_mem s) r va"
    and "unmap_page r va s = (res, s')"
  shows "vm_ok R X s' \<and> s' = s\<lparr>vmm_mem := vmm_mem s'\<rparr> \<and>
    (case res of
       Inl e \<Rightarrow> s' = s \<and> (is_canonical va \<longrightarrow> va_is_aligned va \<longrightarrow> mmu_translate (vmm_mem s) r va = None)
     | Inr f \<Rightarrow> (\<exists>flags. mmu_translate (vmm_mem s) r va = Some (f, flags))
        \<and> (\<forall>r'\<in>R. \<forall>va'. mmu_translate (vmm_mem s') r' va' =
             (if sees_change r va r' va' then None else mmu_translate (vmm_mem s) r' va')))"
proof (cases res)
  case (Inl e)
  have s': "s' = s" using unmap_page_Inl assms(4) Inl by simp
  moreover have "mmu_translate (vmm_mem s) r va = None" if "is_canonical va" "va_is_aligned va"
    using that(1,2) assms(3)
    by (cases rule: unmap_page_walk) (use assms(4) Inl in \<open>auto simp: mmu_translate_def\<close>)
  ultimately show ?thesis using assms(1) Inl by simp
next
  case (Inr f)
  note k = unmap_page_Inr [OF assms(1-3), of f s', OF assms(4) [unfolded Inr]]
  from k(5) obtain e where x: "xlate (vmm_mem s) r (va_path va) = Some (e, [])" "f = pte_phys_addr e" by blast
  from page_offset_aligned [OF k(2)] x k(1) frame_plus_offset [of e va] have old: "mmu_translate (vmm_mem s) r va = Some (f, pte_flags e)"
    by (simp add: mmu_translate_def)
  have new: "mmu_translate (vmm_mem s') r' va' =
      (if sees_change r va r' va' then None else mmu_translate (vmm_mem s) r' va')" if "r' \<in> R" for r' va'
  proof (cases "is_canonical va'")
    case False
    then show ?thesis by (simp add: mmu_translate_def sees_change_def)
  next
    case True
    then show ?thesis
      using k(6) [OF that, of "va_path va'"] sees_change_path [OF k(1) True, of r r']
        mmu_cong [of "vmm_mem s'" r' va' "vmm_mem s"]
      by (auto simp: mmu_translate_def split: if_splits)
  qed
  show ?thesis using k(3,4) Inr old new by auto
qed

text \<open>Mapping a page and unmapping it again returns the mapped frame and restores every
  translation of every root (the tables created on the way stay).\<close>
theorem map_unmap_roundtrip:
  assumes "vm_ok R X s" and "r \<in> R" and "is_present flags" and "flags_clean flags"
    and "frame_addr pa" and "map_page r va pa flags s = (Inr (), s')"
  shows "\<exists>s''. unmap_page r va s' = (Inr pa, s'') \<and> vm_ok R X s''
    \<and> (\<forall>r'\<in>R. \<forall>va'. mmu_translate (vmm_mem s'') r' va' = mmu_translate (vmm_mem s) r' va')"
proof -
  note k = map_page_Inr [OF assms(1,2,6,3)]
  have ca: "is_canonical va" "va_is_aligned va" using k(1) by (simp_all add: map_checks_def)
  have x: "xlate (vmm_mem s') r (va_path va) = Some (pte_set pa flags, [])"
    using k(7) [OF assms(2), of "va_path va"] by (simp add: same_subtree_def)
  then have nl: "no_large_page (vmm_mem s') r va" by (simp add: no_large_page_def)
  have pa: "pte_phys_addr (pte_set pa flags) = pa"
    using assms(4,5) by (simp add: pte_phys_addr_set frame_addr_def)
  obtain s'' where um: "unmap_page r va s' = (Inr pa, s'')" using unmap_page_mapped [OF ca x] pa by auto
  note u = unmap_page_Inr [OF k(2) assms(2) nl um]
  have "mmu_translate (vmm_mem s'') r' va' = mmu_translate (vmm_mem s) r' va'" if "r' \<in> R" for r' va'
  proof (rule mmu_cong)
    have "xlate (vmm_mem s) r' (va_path va) = None" if "same_subtree r r' (va_path va)"
    proof -
      have fo: "forest (vmm_mem s) R (avail s \<union> X)" using assms(1) by (simp add: vm_ok_def)
      have "r = r' \<or> vmm_mem s r' (pml4_index va) = vmm_mem s r (pml4_index va)"
        using forest_shared [OF fo \<open>r' \<in> R\<close> assms(2)] that by (auto simp: same_subtree_va)
      then show ?thesis using k(5) by (auto simp: va_path_def)
    qed
    then show "xlate (vmm_mem s'') r' (va_path va') = xlate (vmm_mem s) r' (va_path va')"
      using u(6) [OF that, of "va_path va'"] k(7) [OF that, of "va_path va'"] by (auto split: if_splits)
  qed
  with um u(3) show ?thesis by blast
qed

text \<open>C31. The software walk agrees with the hardware on every address that no large page
  covers.\<close>
theorem translate_agrees_with_mmu:
  assumes "no_large_page (vmm_mem s) r va"
  shows "translate r va s = mmu_translate (vmm_mem s) r va"
  by (rule translate_mmu [OF assms])

lemma mmu_large:
  assumes "is_canonical va" and "xlate m r (va_path va) = Some (pte_set b flags, [j])"
    and "flags_clean flags" and "frame_addr b" and "b AND NOT (mask 21) = b"
  shows "mmu_translate m r va = Some (b OR (va AND mask 21), flags)"
  using assms by (simp add: mmu_translate_def pte_phys_addr_set pte_flags_set frame_addr_def)

lemma large_page_base:
  assumes "frame_addr pa"
  shows "frame_addr (pa AND NOT (mask 21))" and "(pa AND NOT (mask 21)) AND NOT (mask 21) = pa AND NOT (mask 21)"
proof -
  have "bit pa i \<Longrightarrow> 12 \<le> i \<and> i < 52" for i
    using assms bit_phys_addr [of pa i] by (simp add: frame_addr_def)
  then show "frame_addr (pa AND NOT (mask 21))"
    unfolding frame_addr_def by (intro bit_word_eqI) (auto simp: bit_phys_addr bit_and_iff)
  show "(pa AND NOT (mask 21)) AND NOT (mask 21) = pa AND NOT (mask 21)"
    by (rule bit_word_eqI) (auto simp: bit_and_iff)
qed

lemma mask_2mib: "(0x1FFFFF :: u64) = mask 21"
  by (simp add: mask_eq_exp_minus_1)

text \<open>Mapping a 2 MiB page makes the hardware translate all of its addresses, in the
  changed root and in the roots that share the slot, and no other address; for the same addresses
  \<^verbatim>\<open>translate\<close> reads the mapped memory itself as if it were a page table, so its answer depends on
  the data stored there and not on the mapping.\<close>
theorem map_2mb_huge_page_effect:
  assumes "vm_ok R X s" and "r \<in> R" and "is_present flags" and "flags_clean flags"
    and "frame_addr pa" and "map_2mb_huge_page r va pa flags s = (Inr (), s')"
  shows "vm_ok R X s' \<and> (\<forall>r'\<in>R. \<forall>va'. is_canonical va' \<longrightarrow>
    (if take 3 (va_path va') = take 3 (va_path va) \<and> (r = r' \<or> shared_slot (pml4_index va))
     then mmu_translate (vmm_mem s') r' va' =
            Some ((pa AND NOT 0x1FFFFF) OR (va' AND 0x1FFFFF), flags OR FLAG_HUGE_PAGE)
        \<and> translate r' va' s' =
            (let d = vmm_mem s' (pa AND NOT 0x1FFFFF) (pt_index_of va') in
             if is_present d then Some (pte_phys_addr d + page_offset va', pte_flags d) else None)
     else mmu_translate (vmm_mem s') r' va' = mmu_translate (vmm_mem s) r' va'))"
proof (intro conjI ballI allI impI)
  note k = map_2mb_Inr [OF assms(1,2,6,3)]
  show "vm_ok R X s'" by (rule k(2))
  fix r' va' assume r': "r' \<in> R" and can: "is_canonical va'"
  define base where "base = pa AND NOT (0x1FFFFF :: u64)"
  let ?fl = "flags OR FLAG_HUGE_PAGE"
  have fb: "frame_addr base" and bb: "base AND NOT (mask 21) = base"
    unfolding base_def mask_2mib by (rule large_page_base [OF assms(5)])+
  have pb: "pte_phys_addr base = base" using fb by (simp add: frame_addr_def)
  have fl: "flags_clean ?fl" using assms(4) by (simp add: flags_clean_or)
  note k5 = k(5) [folded base_def]
  have slot: "take 3 (va_path va') = take 3 (va_path va) \<Longrightarrow> pml4_index va' = pml4_index va"
    by (simp add: va_path_def)
  have "if take 3 (va_path va') = take 3 (va_path va) \<and> (r = r' \<or> shared_slot (pml4_index va))
     then mmu_translate (vmm_mem s') r' va' = Some (base OR (va' AND 0x1FFFFF), ?fl)
        \<and> translate r' va' s' =
            (let d = vmm_mem s' base (pt_index_of va') in
             if is_present d then Some (pte_phys_addr d + page_offset va', pte_flags d) else None)
     else mmu_translate (vmm_mem s') r' va' = mmu_translate (vmm_mem s) r' va'"
  proof (cases "take 3 (va_path va') = take 3 (va_path va) \<and> (r = r' \<or> shared_slot (pml4_index va))")
    case True
    then have x: "xlate (vmm_mem s') r' (va_path va') = Some (pte_set base ?fl, [pt_index_of va'])"
      using k5 [OF r', of "va_path va'"] slot same_subtree_va [of r r' va'] by (simp add: va_path_def)
    have "mmu_translate (vmm_mem s') r' va' = Some (base OR (va' AND 0x1FFFFF), ?fl)"
      unfolding mask_2mib by (rule mmu_large [OF can x fl fb bb])
    with True translate_large_page [OF can x] show ?thesis by (simp add: pte_phys_addr_set fl pb)
  next
    case False
    then show ?thesis
      using k5 [OF r', of "va_path va'"] slot same_subtree_va [of r r' va']
      by (auto intro!: mmu_cong)
  qed
  then show "if take 3 (va_path va') = take 3 (va_path va) \<and> (r = r' \<or> shared_slot (pml4_index va))
     then mmu_translate (vmm_mem s') r' va' =
            Some ((pa AND NOT 0x1FFFFF) OR (va' AND 0x1FFFFF), ?fl)
        \<and> translate r' va' s' =
            (let d = vmm_mem s' (pa AND NOT 0x1FFFFF) (pt_index_of va') in
             if is_present d then Some (pte_phys_addr d + page_offset va', pte_flags d) else None)
     else mmu_translate (vmm_mem s') r' va' = mmu_translate (vmm_mem s) r' va'"
    by (unfold base_def)
qed

subsection \<open>Concrete instances\<close>

text \<open>A manager with an empty root table at 1 MiB and the allocator of the sample memory map.\<close>

definition sample_vm :: vmm where
  "sample_vm = \<lparr>vmm_mem = (\<lambda>_. zero_table), vmm_pmm = pmm_init sample_map, pool_base = 0x200000,
     bootstrap_index = 0, is_bootstrapping = False, root_pml4_phys = 0x100000,
     vmm_regions = replicate MAX_VIRT_REGIONS virt_region_empty, vmm_region_count = 0,
     next_dynamic_addr = DYNAMIC_VIRT_START, cr3 = 0x100000\<rparr>"

lemma walk_empty: "walk (\<lambda>_. zero_table) r p = Some t \<longleftrightarrow> p = [] \<and> t = r"
  by (cases p) auto

lemma sample_free_addrs:
  "free_addrs (pmm_init sample_map) = {0x1000, 0x2000, 0x4000, 0x5000, 0x6000, 0x7000}"
  unfolding free_addrs_def sample_map_free by (simp add: from_page_number_def)

lemma sample_vm_ok: "vm_ok {0x100000} {} sample_vm"
  unfolding vm_ok_def
proof (intro conjI)
  show "pmm_inv (vmm_pmm sample_vm)" by (simp add: sample_vm_def sample_map_inv)
  show "pool_ok sample_vm" by (simp add: pool_ok_def sample_vm_def kernel_consts)
  have "avail sample_vm = {0x1000, 0x2000, 0x4000, 0x5000, 0x6000, 0x7000}"
    using sample_free_addrs by (simp add: avail_def sample_vm_def)
  then show "forest (vmm_mem sample_vm) {0x100000} (avail sample_vm \<union> {})"
    by (intro forestI) (auto simp: sample_vm_def walk_empty same_subtree_def)
qed simp

lemma sample_vm_unmapped: "xlate (vmm_mem sample_vm) r p = None"
  by (cases p) (simp_all add: sample_vm_def)

lemma sample_addr_ok:
  "is_canonical 0x400000" "va_is_aligned 0x400000" "(0x7000 :: u64) mod PAGE_SIZE = 0"
  "frame_addr 0x7000" "is_canonical 0x400123" "same_page 0x400000 0x400123" "page_offset 0x400123 = 0x123"
  by (simp_all add: is_canonical_def Let_def va_is_aligned_def frame_addr_def pte_phys_addr_def
      same_page_def page_offset_def signed_drop_bit_word_numeral drop_bit_word_numeral)

abbreviation sample_flags :: page_flags where
  "sample_flags \<equiv> FLAG_PRESENT OR FLAG_WRITABLE"

lemma sample_flags_ok: "is_present sample_flags" "flags_clean sample_flags"
  by (simp_all add: present_or flags_clean_or)

lemma sample_vm_map:
  obtains s' where "map_page 0x100000 0x400000 0x7000 sample_flags sample_vm = (Inr (), s')"
proof -
  have "3 \<le> card (free_addrs (vmm_pmm sample_vm))"
    by (simp add: sample_vm_def sample_free_addrs)
  moreover have "\<not> is_bootstrapping sample_vm" by (simp add: sample_vm_def)
  moreover have "map_checks 0x400000 0x7000" using sample_addr_ok by (simp add: map_checks_def)
  ultimately show thesis
    using map_page_possible [OF sample_vm_ok, of "0x100000"] sample_vm_unmapped that by blast
qed

theorem map_page_maps_exactly_witness:
  "\<exists>s'. vm_ok {0x100000} {} sample_vm
     \<and> map_page 0x100000 0x400000 0x7000 sample_flags sample_vm = (Inr (), s')
     \<and> mmu_translate (vmm_mem s') 0x100000 0x400123 = Some (0x7123, sample_flags)"
proof -
  obtain s' where mp: "map_page 0x100000 0x400000 0x7000 sample_flags sample_vm = (Inr (), s')"
    by (rule sample_vm_map)
  have "sees_change 0x100000 0x400000 0x100000 0x400123"
    using sample_addr_ok by (simp add: sees_change_def)
  with map_page_maps_exactly [OF sample_vm_ok _ sample_flags_ok sample_addr_ok(4) mp]
  have "mmu_translate (vmm_mem s') 0x100000 0x400123 = Some (0x7123, sample_flags)"
    using sample_addr_ok(7) by simp
  with mp sample_vm_ok show ?thesis by blast
qed

theorem map_page_failure_harmless_witness:
  "vm_ok {0x100000} {} sample_vm
     \<and> map_page 0x100000 0x8000000000000000 0x7000 sample_flags sample_vm = (Inl MapNonCanonicalAddress, sample_vm)
     \<and> \<not> is_canonical 0x8000000000000000"
proof -
  have nc: "\<not> is_canonical 0x8000000000000000"
    by (simp add: is_canonical_def Let_def signed_drop_bit_word_numeral)
  then have mp: "map_page 0x100000 0x8000000000000000 0x7000 sample_flags sample_vm
      = (Inl MapNonCanonicalAddress, sample_vm)" by (simp add: map_page_def)
  from map_page_failure_harmless [OF sample_vm_ok _ mp] mp sample_vm_ok show ?thesis by simp
qed

theorem map_page_succeeds_witness:
  "vm_ok {0x100000} {} sample_vm
     \<and> (\<exists>s'. map_page 0x100000 0x400000 0x7000 sample_flags sample_vm = (Inr (), s'))"
proof -
  have "3 \<le> card (free_addrs (vmm_pmm sample_vm))" "\<not> is_bootstrapping sample_vm"
    by (simp_all add: sample_vm_def sample_free_addrs)
  with map_page_succeeds [OF sample_vm_ok _ sample_addr_ok(1-3), of "0x100000" sample_flags]
    sample_vm_unmapped sample_vm_ok show ?thesis by simp
qed

theorem unmap_page_removes_exactly_witness:
  "\<exists>s1 s2. map_page 0x100000 0x400000 0x7000 sample_flags sample_vm = (Inr (), s1)
     \<and> no_large_page (vmm_mem s1) 0x100000 0x400000
     \<and> unmap_page 0x100000 0x400000 s1 = (Inr 0x7000, s2)
     \<and> mmu_translate (vmm_mem s2) 0x100000 0x400123 = None"
proof -
  obtain s1 where mp: "map_page 0x100000 0x400000 0x7000 sample_flags sample_vm = (Inr (), s1)"
    by (rule sample_vm_map)
  note k = map_page_Inr [OF sample_vm_ok _ mp sample_flags_ok(1)]
  have x: "xlate (vmm_mem s1) 0x100000 (va_path 0x400000) = Some (pte_set 0x7000 sample_flags, [])"
    using k(7) [of "0x100000" "va_path 0x400000"] by (simp add: same_subtree_def)
  then have nl: "no_large_page (vmm_mem s1) 0x100000 0x400000" by (simp add: no_large_page_def)
  have "pte_phys_addr (pte_set 0x7000 sample_flags) = 0x7000"
    using sample_addr_ok(4) by (simp add: pte_phys_addr_set sample_flags_ok frame_addr_def)
  with unmap_page_mapped [OF sample_addr_ok(1,2) x] obtain s2 where
    um: "unmap_page 0x100000 0x400000 s1 = (Inr 0x7000, s2)" by auto
  have "sees_change 0x100000 0x400000 0x100000 0x400123"
    using sample_addr_ok by (simp add: sees_change_def)
  with unmap_page_removes_exactly [OF k(2) _ nl um]
  have "mmu_translate (vmm_mem s2) 0x100000 0x400123 = None" by simp
  with mp nl um show ?thesis by blast
qed

theorem map_unmap_roundtrip_witness:
  "\<exists>s1 s2. map_page 0x100000 0x400000 0x7000 sample_flags sample_vm = (Inr (), s1)
     \<and> unmap_page 0x100000 0x400000 s1 = (Inr 0x7000, s2) \<and> vm_ok {0x100000} {} s2"
proof -
  obtain s1 where mp: "map_page 0x100000 0x400000 0x7000 sample_flags sample_vm = (Inr (), s1)"
    by (rule sample_vm_map)
  from map_unmap_roundtrip [OF sample_vm_ok _ sample_flags_ok sample_addr_ok(4) mp] mp
  show ?thesis by auto
qed

theorem translate_agrees_with_mmu_witness:
  "no_large_page (vmm_mem sample_vm) 0x100000 0x400000
     \<and> translate 0x100000 0x400000 sample_vm = None"
proof -
  have nl: "no_large_page (vmm_mem sample_vm) 0x100000 0x400000"
    by (simp add: no_large_page_def sample_vm_unmapped)
  with translate_agrees_with_mmu [OF nl] show ?thesis
    by (simp add: mmu_translate_def sample_vm_unmapped)
qed

text \<open>With the frames of the sample allocator left for the two missing tables, the 2 MiB
  identity mapping of address 0, which the kernel sets up first, makes the hardware translate
  address 0 while \<^verbatim>\<open>translate\<close> reports it unmapped.\<close>

theorem map_2mb_huge_page_effect_witness:
  "\<exists>s'. map_2mb_huge_page 0x100000 0 0 sample_flags sample_vm = (Inr (), s')
     \<and> mmu_translate (vmm_mem s') 0x100000 0 = Some (0, sample_flags OR FLAG_HUGE_PAGE)"
proof -
  have can: "is_canonical 0" by (simp add: is_canonical_def)
  have "2 \<le> card (free_addrs (vmm_pmm sample_vm))" "\<not> is_bootstrapping sample_vm"
    by (simp_all add: sample_vm_def sample_free_addrs)
  then obtain s' where mp: "map_2mb_huge_page 0x100000 0 0 sample_flags sample_vm = (Inr (), s')"
    using map_2mb_possible [OF sample_vm_ok _ can, of "0x100000" 0 sample_flags] sample_vm_unmapped by auto
  have "frame_addr 0" by (simp add: frame_addr_def)
  from map_2mb_huge_page_effect [OF sample_vm_ok _ sample_flags_ok this mp] mp can
  show ?thesis by (auto simp: Let_def)
qed

end
