(* ===== verification/Vmm_Regions.thy ===== *)
theory Vmm_Regions
  imports Vmm_Map "HOL-Library.Multiset"
begin

text \<open>
  The virtual region table of \<^verbatim>\<open>src/src/vmm.rs\<close> (\<^verbatim>\<open>VirtualMemoryManager\<close>): registering,
  reserving from the dynamic range, looking up and removing regions.  The table is the array of 256
  slots with its live count; the live regions are its first \<open>vmm_region_count\<close> slots.

  \<^verbatim>\<open>VirtRegion::end\<close> adds without an overflow check, and so does the model; the theorems
  state where that matters.
\<close>

datatype vmm_error =
  VmmNonCanonicalAddress | VmmUnalignedVirtualAddress | VmmUnalignedPhysicalAddress | ZeroSize
| RegionTableFull | RegionOverlaps | AddressOverflow | PhysicalAllocationFailed
| PageTableMappingFailed | RegionNotFound

fun region_purpose_name :: "region_purpose \<Rightarrow> string" where
  "region_purpose_name KernelBinary = ''KERNEL_BINARY''"
| "region_purpose_name KernelStack = ''KERNEL_STACK''"
| "region_purpose_name DirectMappedRam = ''DIRECT_RAM''"
| "region_purpose_name MmioRegion = ''MMIO''"
| "region_purpose_name DynamicKernel = ''DYNAMIC_KERNEL''"
| "region_purpose_name ReservedRegion = ''RESERVED''"

definition vr_end :: "virt_region \<Rightarrow> virt_addr" where
  "vr_end r = vr_start r + vr_size r"

definition vr_contains :: "virt_region \<Rightarrow> virt_addr \<Rightarrow> bool" where
  "vr_contains r a \<longleftrightarrow> vr_start r \<le> a \<and> a < vr_end r"

definition vr_overlaps :: "virt_region \<Rightarrow> virt_addr \<Rightarrow> u64 \<Rightarrow> bool" where
  "vr_overlaps r other_start other_size =
     (let self_start = vr_start r; self_end = vr_end r; other_end = other_start + other_size in
      self_start < other_end \<and> other_start < self_end)"

definition live_vregions :: "vmm \<Rightarrow> virt_region list" where
  "live_vregions s = take (vmm_region_count s) (vmm_regions s)"

definition push_vregion :: "virt_region \<Rightarrow> vmm \<Rightarrow> vmm" where
  "push_vregion r s = s\<lparr>vmm_regions := (vmm_regions s)[vmm_region_count s := r],
     vmm_region_count := vmm_region_count s + 1\<rparr>"

definition advance_dynamic_cursor :: "u64 \<Rightarrow> vmm \<Rightarrow> vmm" where
  "advance_dynamic_cursor new_end s =
     (if new_end > next_dynamic_addr s then s\<lparr>next_dynamic_addr := new_end\<rparr> else s)"

definition register_region :: "virt_region \<Rightarrow> vmm \<Rightarrow> (vmm_error + unit) \<times> vmm" where
  "register_region region s =
     (if \<not> is_canonical (vr_start region) \<or> \<not> is_canonical (vr_end region)
      then (Inl VmmNonCanonicalAddress, s)
      else if \<not> va_is_aligned (vr_start region) then (Inl VmmUnalignedVirtualAddress, s)
      else if vr_size region = 0 \<or> vr_size region mod PAGE_SIZE \<noteq> 0 then (Inl ZeroSize, s)
      else if vmm_region_count s \<ge> MAX_VIRT_REGIONS then (Inl RegionTableFull, s)
      else if \<exists>r \<in> set (live_vregions s). vr_overlaps r (vr_start region) (vr_size region)
      then (Inl RegionOverlaps, s)
      else (Inr (), push_vregion region s))"

definition reserve_virtual_region ::
    "u64 \<Rightarrow> virt_permissions \<Rightarrow> region_purpose \<Rightarrow> vmm \<Rightarrow> (vmm_error + virt_region) \<times> vmm" where
  "reserve_virtual_region size_bytes permissions purpose s =
     (if size_bytes = 0 \<or> size_bytes mod PAGE_SIZE \<noteq> 0 then (Inl ZeroSize, s)
      else
        let start_addr = next_dynamic_addr s in
        case checked_add start_addr size_bytes of
          None \<Rightarrow> (Inl AddressOverflow, s)
        | Some end_addr \<Rightarrow>
            if end_addr > DYNAMIC_VIRT_END \<or> \<not> is_canonical end_addr then (Inl AddressOverflow, s)
            else if \<exists>r \<in> set (live_vregions s). vr_overlaps r start_addr size_bytes
            then (Inl RegionOverlaps, s)
            else
              let region = \<lparr>vr_start = start_addr, vr_size = size_bytes,
                    vr_permissions = permissions, vr_purpose = purpose, owns_physical_pages = False\<rparr> in
              if vmm_region_count s \<ge> MAX_VIRT_REGIONS then (Inl RegionTableFull, s)
              else (Inr region, (push_vregion region s)\<lparr>next_dynamic_addr := end_addr\<rparr>))"

fun first_index :: "('a \<Rightarrow> bool) \<Rightarrow> 'a list \<Rightarrow> nat option" where
  "first_index P [] = None"
| "first_index P (x # xs) = (if P x then Some 0 else map_option Suc (first_index P xs))"

definition unregister_region :: "virt_addr \<Rightarrow> vmm \<Rightarrow> (vmm_error + unit) \<times> vmm" where
  "unregister_region start s =
     (case first_index (\<lambda>r. vr_start r = start) (live_vregions s) of
        None \<Rightarrow> (Inl RegionOverlaps, s)
      | Some i \<Rightarrow>
          let last = vmm_region_count s - 1;
              rs = (vmm_regions s)[i := vmm_regions s ! last]
          in (Inr (), s\<lparr>vmm_regions := rs[last := virt_region_empty],
                        vmm_region_count := last\<rparr>))"

definition find_region_for_addr :: "virt_addr \<Rightarrow> vmm \<Rightarrow> virt_region option" where
  "find_region_for_addr addr s =
     map_option (\<lambda>i. vmm_regions s ! i) (first_index (\<lambda>r. vr_contains r addr) (live_vregions s))"

subsection \<open>The table invariant\<close>

text \<open>The addresses of a region, and the regions whose end does not wrap around.\<close>

definition vr_addrs :: "virt_region \<Rightarrow> nat set" where
  "vr_addrs r = {unat (vr_start r) ..< unat (vr_start r) + unat (vr_size r)}"

definition vr_valid :: "virt_region \<Rightarrow> bool" where
  "vr_valid r \<longleftrightarrow> va_is_aligned (vr_start r) \<and> vr_size r \<noteq> 0 \<and> vr_size r mod PAGE_SIZE = 0
     \<and> unat (vr_start r) + unat (vr_size r) < 2 ^ 64"

definition regions_inv :: "vmm \<Rightarrow> bool" where
  "regions_inv s \<longleftrightarrow> length (vmm_regions s) = MAX_VIRT_REGIONS \<and> vmm_region_count s \<le> MAX_VIRT_REGIONS
     \<and> (\<forall>r \<in> set (live_vregions s). vr_valid r)
     \<and> (\<forall>i j. i < j \<longrightarrow> j < vmm_region_count s \<longrightarrow>
          vr_addrs (vmm_regions s ! i) \<inter> vr_addrs (vmm_regions s ! j) = {})"

lemma unat_vr_end: "unat (vr_start r) + unat (vr_size r) < 2 ^ 64 \<Longrightarrow> unat (vr_end r) = unat (vr_start r) + unat (vr_size r)"
  by (simp add: vr_end_def unat_add_u64)

lemma vr_overlaps_iff:
  assumes "vr_valid r" and "unat st + unat sz < 2 ^ 64" and "sz \<noteq> 0"
  shows "vr_overlaps r st sz \<longleftrightarrow> vr_addrs r \<inter> {unat st ..< unat st + unat sz} \<noteq> {}"
proof -
  have "unat (vr_end r) = unat (vr_start r) + unat (vr_size r)"
    using assms(1) by (simp add: vr_valid_def unat_vr_end)
  moreover have "unat (st + sz) = unat st + unat sz" by (rule unat_add_u64 [OF assms(2)])
  moreover have "0 < unat (vr_size r)" "0 < unat sz"
    using assms(1,3) by (auto simp: vr_valid_def unat_gt_0)
  ultimately show ?thesis
    unfolding vr_overlaps_def Let_def word_less_nat_alt vr_addrs_def
    by (auto simp: disjoint_iff not_less)
qed

lemma vr_contains_iff: "vr_valid r \<Longrightarrow> vr_contains r a \<longleftrightarrow> unat a \<in> vr_addrs r"
  by (simp add: vr_contains_def vr_addrs_def vr_valid_def unat_vr_end word_le_nat_alt word_less_nat_alt)

lemma set_live: "vmm_region_count s \<le> length (vmm_regions s) \<Longrightarrow>
    set (live_vregions s) = (!) (vmm_regions s) ` {0..<vmm_region_count s}"
  by (simp add: live_vregions_def nth_image)

lemma live_push:
  "vmm_region_count s < length (vmm_regions s) \<Longrightarrow>
    live_vregions (push_vregion r s) = live_vregions s @ [r]"
  by (simp add: live_vregions_def push_vregion_def take_Suc_conv_app_nth)

lemma push_region_inv:
  assumes inv: "regions_inv s" and cnt: "vmm_region_count s < MAX_VIRT_REGIONS" and v: "vr_valid r"
    and no: "\<not> (\<exists>r' \<in> set (live_vregions s). vr_overlaps r' (vr_start r) (vr_size r))"
  shows "regions_inv (push_vregion r s)"
proof -
  let ?n = "vmm_region_count s"
  have len: "length (vmm_regions s) = MAX_VIRT_REGIONS" using inv by (simp add: regions_inv_def)
  have live: "live_vregions (push_vregion r s) = live_vregions s @ [r]"
    using live_push cnt len by simp
  have dis: "vr_addrs (vmm_regions s ! i) \<inter> vr_addrs r = {}" if "i < ?n" for i
  proof -
    have mem: "vmm_regions s ! i \<in> set (live_vregions s)" using set_live [of s] len cnt that by auto
    then have "vr_valid (vmm_regions s ! i)" using inv by (simp add: regions_inv_def)
    from vr_overlaps_iff [OF this, of "vr_start r" "vr_size r"] v no mem
    show ?thesis by (auto simp: vr_valid_def vr_addrs_def)
  qed
  have "vr_addrs (vmm_regions (push_vregion r s) ! i) \<inter> vr_addrs (vmm_regions (push_vregion r s) ! j) = {}"
    if "i < j" "j < Suc ?n" for i j
  proof (cases "j = ?n")
    case True
    then show ?thesis using dis [of i] that len cnt by (simp add: push_vregion_def)
  next
    case False
    then show ?thesis using inv that by (simp add: push_vregion_def regions_inv_def)
  qed
  with inv live v len cnt show ?thesis
    by (auto simp: regions_inv_def push_vregion_def)
qed

lemma live_cursor [simp]: "live_vregions (s\<lparr>next_dynamic_addr := a\<rparr>) = live_vregions s"
  by (simp add: live_vregions_def)

lemma regions_inv_cursor [simp]: "regions_inv (s\<lparr>next_dynamic_addr := a\<rparr>) = regions_inv s"
  by (simp add: regions_inv_def)

subsection \<open>Removing a region\<close>

lemma first_index_None: "first_index P xs = None \<longleftrightarrow> (\<forall>x \<in> set xs. \<not> P x)"
  by (induction xs) auto

lemma first_index_Some:
  "first_index P xs = Some i \<Longrightarrow> i < length xs \<and> P (xs ! i) \<and> (\<forall>j<i. \<not> P (xs ! j))"
proof (induction xs arbitrary: i)
  case (Cons x xs)
  then show ?case by (auto simp: less_Suc_eq_0_disj split: if_splits)
qed simp

text \<open>Overwriting a slot with the last one and dropping the last one removes exactly that
  slot's region.\<close>

lemma swap_remove_mset:
  assumes "i < n" and "n \<le> length xs"
  shows "mset (take (n - 1) (xs[i := xs ! (n - 1)])) = mset (take n xs) - {# xs ! i #}"
proof (cases "i = n - 1")
  case True
  have "take n xs = take (n - 1) xs @ [xs ! (n - 1)]"
    using assms take_Suc_conv_app_nth [of "n - 1" xs] by simp
  with True show ?thesis by simp
next
  case False
  with assms have i: "i < n - 1" by simp
  have split: "take n xs = take (n - 1) xs @ [xs ! (n - 1)]"
    using assms take_Suc_conv_app_nth [of "n - 1" xs] by simp
  have len: "i < length (take (n - 1) xs)" using i assms by simp
  have "mset (take (n - 1) (xs[i := xs ! (n - 1)])) = mset ((take (n - 1) xs)[i := xs ! (n - 1)])"
    by (simp add: take_update_swap)
  also have "\<dots> = add_mset (xs ! (n - 1)) (mset (take (n - 1) xs) - {# xs ! i #})"
    using mset_update [OF len, of "xs ! (n - 1)"] i by simp
  also have "\<dots> = mset (take n xs) - {# xs ! i #}"
  proof -
    have "xs ! i \<in># mset (take (n - 1) xs)" using len i by (metis nth_mem nth_take set_mset_mset)
    then show ?thesis unfolding split by simp
  qed
  finally show ?thesis .
qed

text \<open>The live regions after a removal, as a permutation of what remains.\<close>

lemma unregister_Inr:
  assumes inv: "regions_inv s" and u: "unregister_region st s = (Inr (), s')"
  obtains i where "i < vmm_region_count s" "vr_start (vmm_regions s ! i) = st"
    "s' = s\<lparr>vmm_regions := ((vmm_regions s)[i := vmm_regions s ! (vmm_region_count s - 1)])
        [vmm_region_count s - 1 := virt_region_empty], vmm_region_count := vmm_region_count s - 1\<rparr>"
    "mset (live_vregions s') = mset (live_vregions s) - {# vmm_regions s ! i #}"
proof -
  let ?n = "vmm_region_count s"
  from u obtain i where i: "first_index (\<lambda>r. vr_start r = st) (live_vregions s) = Some i"
    and s': "s' = s\<lparr>vmm_regions := ((vmm_regions s)[i := vmm_regions s ! (?n - 1)])
        [?n - 1 := virt_region_empty], vmm_region_count := ?n - 1\<rparr>"
    by (auto simp: unregister_region_def Let_def split: option.splits)
  have len: "?n \<le> length (vmm_regions s)" using inv by (simp add: regions_inv_def)
  from first_index_Some [OF i] len have lt: "i < ?n" and st: "vr_start (vmm_regions s ! i) = st"
    by (auto simp: live_vregions_def)
  have "mset (live_vregions s') = mset (live_vregions s) - {# vmm_regions s ! i #}"
    using swap_remove_mset [OF lt len] by (simp add: live_vregions_def s')
  with that lt st s' show thesis by blast
qed

lemma regions_inv_sym:
  assumes "regions_inv s" and "i < vmm_region_count s" and "j < vmm_region_count s" and "i \<noteq> j"
  shows "vr_addrs (vmm_regions s ! i) \<inter> vr_addrs (vmm_regions s ! j) = {}"
  using assms unfolding regions_inv_def by (metis inf_commute linorder_neqE_nat)

lemma unregister_inv:
  assumes inv: "regions_inv s" and u: "unregister_region st s = (r, s')"
  shows "regions_inv s'"
proof (cases r)
  case (Inl e)
  with u inv show ?thesis by (auto simp: unregister_region_def Let_def split: option.splits)
next
  case (Inr x)
  let ?n = "vmm_region_count s"
  from inv u Inr obtain i where lt: "i < ?n" and s': "s' = s\<lparr>vmm_regions :=
      ((vmm_regions s)[i := vmm_regions s ! (?n - 1)])[?n - 1 := virt_region_empty],
      vmm_region_count := ?n - 1\<rparr>"
    and ms: "mset (live_vregions s') = mset (live_vregions s) - {# vmm_regions s ! i #}"
    by (auto elim: unregister_Inr)
  have len: "?n \<le> length (vmm_regions s)" using inv by (simp add: regions_inv_def)
  define pick where "pick j = (if j = i then ?n - 1 else j)" for j
  have nth: "vmm_regions s' ! j = vmm_regions s ! pick j" if "j < ?n - 1" for j
    using that len lt by (auto simp: s' pick_def nth_list_update)
  have "set_mset (mset (live_vregions s')) \<subseteq> set_mset (mset (live_vregions s))"
    unfolding ms by (meson in_diffD subsetI)
  then have valid: "\<forall>r \<in> set (live_vregions s'). vr_valid r"
    using inv by (auto simp: regions_inv_def)
  have "vr_addrs (vmm_regions s' ! j) \<inter> vr_addrs (vmm_regions s' ! k) = {}"
    if "j < k" "k < ?n - 1" for j k
  proof -
    have "pick j \<noteq> pick k" "pick j < ?n" "pick k < ?n" using that lt by (auto simp: pick_def)
    with regions_inv_sym [OF inv] nth that show ?thesis by simp
  qed
  moreover have "?n - 1 \<le> MAX_VIRT_REGIONS" "length (vmm_regions s) = MAX_VIRT_REGIONS"
    using inv by (auto simp: regions_inv_def)
  ultimately show ?thesis using valid by (simp add: regions_inv_def s')
qed

lemma live_unique:
  assumes inv: "regions_inv s" and "r \<in> set (live_vregions s)" and "r' \<in> set (live_vregions s)"
    and "a \<in> vr_addrs r" and "a \<in> vr_addrs r'"
  shows "r = r'"
proof -
  have n: "vmm_region_count s \<le> length (vmm_regions s)" using inv by (simp add: regions_inv_def)
  from assms(2,3) obtain i j where "i < vmm_region_count s" "r = vmm_regions s ! i"
    "j < vmm_region_count s" "r' = vmm_regions s ! j"
    unfolding set_live [OF n] by auto
  with regions_inv_sym [OF inv, of i j] assms(4,5) show ?thesis by (cases "i = j") auto
qed

lemma start_in_addrs: "vr_valid r \<Longrightarrow> unat (vr_start r) \<in> vr_addrs r"
  by (simp add: vr_valid_def vr_addrs_def unat_gt_0)

lemma live_valid: "regions_inv s \<Longrightarrow> r \<in> set (live_vregions s) \<Longrightarrow> vr_valid r"
  by (simp add: regions_inv_def)

lemma live_vregions_distinct:
  assumes "regions_inv s"
  shows "distinct (live_vregions s)"
proof -
  have len: "vmm_region_count s \<le> length (vmm_regions s)" using assms by (simp add: regions_inv_def)
  show ?thesis
    unfolding distinct_conv_nth
  proof (intro allI impI)
    fix i j assume "i < length (live_vregions s)" "j < length (live_vregions s)" "i \<noteq> j"
    with len have ij: "i < vmm_region_count s" "j < vmm_region_count s" "i \<noteq> j"
      and nth: "live_vregions s ! i = vmm_regions s ! i" "live_vregions s ! j = vmm_regions s ! j"
      by (simp_all add: live_vregions_def)
    have "vmm_regions s ! i \<in> set (live_vregions s)" using ij(1) set_live [OF len] by auto
    from start_in_addrs [OF live_valid [OF assms this]] regions_inv_sym [OF assms ij]
    show "live_vregions s ! i \<noteq> live_vregions s ! j" unfolding nth by auto
  qed
qed

subsection \<open>Reserving from the dynamic range\<close>

definition cursor_ok :: "vmm \<Rightarrow> bool" where
  "cursor_ok s \<longleftrightarrow> va_is_aligned (next_dynamic_addr s) \<and> DYNAMIC_VIRT_START \<le> next_dynamic_addr s
     \<and> next_dynamic_addr s \<le> DYNAMIC_VIRT_END"

text \<open>Everything from the start of the dynamic range upwards is canonical.\<close>

lemma high_canonical:
  assumes "DYNAMIC_VIRT_START \<le> a"
  shows "is_canonical a"
proof -
  have lo: "2 ^ 64 - 2 ^ 47 \<le> unat a"
    using assms by (simp add: word_le_nat_alt DYNAMIC_VIRT_START_def)
  have "unat a div 2 ^ 47 = 131071" using lo unat_u64_less [of a] by (simp add: div_nat_eqI)
  then have "unat (drop_bit 47 a) = 131071"
    unfolding unsigned_drop_bit_eq by (simp add: drop_bit_eq_div take_bit_nat_eq_self)
  then have d: "drop_bit 47 a = mask 17"
    by (intro word_unat_eq_iff [THEN iffD2]) (simp add: mask_eq_exp_minus_1)
  have one: "bit a i" if "47 \<le> i" "i < 64" for i
  proof -
    have "i - 47 < 17" using that by simp
    then have "bit (drop_bit 47 a) (i - 47)" unfolding d by (simp add: bit_mask_iff)
    then show ?thesis using that(1) by (simp add: bit_drop_bit_eq)
  qed
  show ?thesis
    unfolding is_canonical_bits
  proof (intro allI impI)
    fix i :: nat assume "47 \<le> i \<and> i < 64"
    then have "bit a i" using one by blast
    moreover have "bit a 47" by (rule one) simp_all
    ultimately show "bit a i = bit a 47" by blast
  qed
qed

lemma reserve_cases:
  assumes "cursor_ok s"
    and "reserve_virtual_region n perms purpose s = (res, s')"
  defines "region \<equiv> \<lparr>vr_start = next_dynamic_addr s, vr_size = n, vr_permissions = perms,
      vr_purpose = purpose, owns_physical_pages = False\<rparr>"
  obtains (zero) "n = 0 \<or> n mod PAGE_SIZE \<noteq> 0" "res = Inl ZeroSize" "s' = s"
  | (overflow) "n \<noteq> 0" "n mod PAGE_SIZE = 0" "res = Inl AddressOverflow" "s' = s"
      "unat DYNAMIC_VIRT_END < unat (next_dynamic_addr s) + unat n"
  | (overlap) r where "n \<noteq> 0" "n mod PAGE_SIZE = 0" "res = Inl RegionOverlaps" "s' = s"
      "unat (next_dynamic_addr s) + unat n \<le> unat DYNAMIC_VIRT_END"
      "r \<in> set (live_vregions s)" "vr_overlaps r (next_dynamic_addr s) n"
  | (full) "n \<noteq> 0" "n mod PAGE_SIZE = 0" "res = Inl RegionTableFull" "s' = s"
      "unat (next_dynamic_addr s) + unat n \<le> unat DYNAMIC_VIRT_END"
      "\<not> (\<exists>r \<in> set (live_vregions s). vr_overlaps r (next_dynamic_addr s) n)"
      "MAX_VIRT_REGIONS \<le> vmm_region_count s"
  | (ok) "n \<noteq> 0" "n mod PAGE_SIZE = 0" "res = Inr region"
      "s' = (push_vregion region s)\<lparr>next_dynamic_addr := next_dynamic_addr s + n\<rparr>"
      "unat (next_dynamic_addr s) + unat n \<le> unat DYNAMIC_VIRT_END"
      "\<not> (\<exists>r \<in> set (live_vregions s). vr_overlaps r (next_dynamic_addr s) n)"
      "vmm_region_count s < MAX_VIRT_REGIONS"
proof (cases "n = 0 \<or> n mod PAGE_SIZE \<noteq> 0")
  case True
  with assms(2) show thesis by (intro zero) (auto simp: reserve_virtual_region_def)
next
  case False
  let ?c = "next_dynamic_addr s"
  have sz: "n \<noteq> 0" "n mod PAGE_SIZE = 0" using False by auto
  show thesis
  proof (cases "unat ?c + unat n \<le> unat DYNAMIC_VIRT_END")
    case le: True
    have lt: "unat ?c + unat n < 2 ^ 64" using le unat_u64_less [of DYNAMIC_VIRT_END] by linarith
    have u: "unat (?c + n) = unat ?c + unat n" by (rule unat_add_u64 [OF lt])
    have ca: "checked_add ?c n = Some (?c + n)" using lt by (simp add: checked_add_def)
    have "DYNAMIC_VIRT_START \<le> ?c" using assms(1) by (simp add: cursor_ok_def)
    then have "DYNAMIC_VIRT_START \<le> ?c + n" using u by (simp add: word_le_nat_alt)
    then have can: "is_canonical (?c + n)" by (rule high_canonical)
    have le': "\<not> DYNAMIC_VIRT_END < ?c + n" using le u by (simp add: word_less_nat_alt)
    note r = assms(2) [unfolded reserve_virtual_region_def Let_def ca]
    consider (a) "\<exists>r \<in> set (live_vregions s). vr_overlaps r ?c n"
      | (b) "\<not> (\<exists>r \<in> set (live_vregions s). vr_overlaps r ?c n)" "MAX_VIRT_REGIONS \<le> vmm_region_count s"
      | (c) "\<not> (\<exists>r \<in> set (live_vregions s). vr_overlaps r ?c n)" "vmm_region_count s < MAX_VIRT_REGIONS"
      by linarith
    then show thesis
    proof cases
      case a
      then obtain q where "q \<in> set (live_vregions s)" "vr_overlaps q ?c n" by blast
      moreover have "res = Inl RegionOverlaps \<and> s' = s" using r sz can le' a by (simp del: bex_simps)
      ultimately show thesis using sz le by (intro overlap [of q]) simp_all
    next
      case b
      moreover have "res = Inl RegionTableFull \<and> s' = s" using r sz can le' b by (simp del: bex_simps)
      ultimately show thesis using sz le by (intro full) simp_all
    next
      case c
      moreover have "res = Inr region \<and> s' = (push_vregion region s)\<lparr>next_dynamic_addr := ?c + n\<rparr>"
        using r sz can le' c by (simp add: region_def del: bex_simps)
      ultimately show thesis using sz le by (intro ok) simp_all
    qed
  next
    case gt: False
    have "checked_add ?c n = None \<or> checked_add ?c n = Some (?c + n) \<and> DYNAMIC_VIRT_END < ?c + n"
      using gt unat_add_u64 [of ?c n] by (auto simp: checked_add_def word_less_nat_alt)
    with assms(2) sz have "res = Inl AddressOverflow \<and> s' = s"
      by (auto simp: reserve_virtual_region_def Let_def)
    with sz gt show thesis by (intro overflow) simp_all
  qed
qed

subsection \<open>Properties of the region table\<close>

lemma reserve_facts:
  assumes "regions_inv s" and "cursor_ok s"
    and "reserve_virtual_region n perms purpose s = (res, s')"
  shows "regions_inv s' \<and> cursor_ok s' \<and>
    (case res of
       Inr r \<Rightarrow> r = \<lparr>vr_start = next_dynamic_addr s, vr_size = n, vr_permissions = perms,
                 vr_purpose = purpose, owns_physical_pages = False\<rparr>
         \<and> (\<forall>r' \<in> set (live_vregions s). vr_addrs r \<inter> vr_addrs r' = {})
         \<and> unat (next_dynamic_addr s') = unat (next_dynamic_addr s) + unat n
         \<and> live_vregions s' = live_vregions s @ [r]
     | Inl e \<Rightarrow> s' = s
         \<and> (e = ZeroSize \<longleftrightarrow> n = 0 \<or> n mod PAGE_SIZE \<noteq> 0)
         \<and> (e = AddressOverflow \<longrightarrow> unat DYNAMIC_VIRT_END < unat (next_dynamic_addr s) + unat n)
         \<and> (e = RegionTableFull \<longrightarrow> vmm_region_count s = MAX_VIRT_REGIONS)
         \<and> (e = RegionOverlaps \<longrightarrow> (\<exists>r \<in> set (live_vregions s).
              vr_addrs r \<inter> {unat (next_dynamic_addr s) ..< unat (next_dynamic_addr s) + unat n} \<noteq> {}))
         \<and> e \<in> {ZeroSize, AddressOverflow, RegionTableFull, RegionOverlaps})"
  using assms(2,3)
proof (cases rule: reserve_cases)
  case (overlap r)
  have "unat (next_dynamic_addr s) + unat n < 2 ^ 64"
    using overlap(5) unat_u64_less [of DYNAMIC_VIRT_END] by linarith
  with vr_overlaps_iff [OF live_valid [OF assms(1) overlap(6)] _ overlap(1)] overlap assms
  show ?thesis by auto
next
  case ok
  let ?c = "next_dynamic_addr s"
  let ?r = "\<lparr>vr_start = ?c, vr_size = n, vr_permissions = perms, vr_purpose = purpose,
     owns_physical_pages = False\<rparr>"
  have lt: "unat ?c + unat n < 2 ^ 64" using ok(5) unat_u64_less [of DYNAMIC_VIRT_END] by linarith
  have u: "unat (?c + n) = unat ?c + unat n" by (rule unat_add_u64 [OF lt])
  have v: "vr_valid ?r" using assms(2) ok(1,2) lt by (simp add: vr_valid_def cursor_ok_def)
  have inv: "regions_inv (push_vregion ?r s)" using push_region_inv [OF assms(1) ok(7) v] ok(6) by simp
  have "4096 dvd unat ?c" "4096 dvd unat n"
    using assms(2) ok(2) by (simp_all add: cursor_ok_def va_is_aligned_def aligned_iff_dvd)
  then have "va_is_aligned (?c + n)" by (simp add: va_is_aligned_def aligned_iff_dvd u)
  then have cur: "cursor_ok s'"
    using assms(2) ok(4,5) u by (simp add: cursor_ok_def word_le_nat_alt)
  have dis: "vr_addrs ?r \<inter> vr_addrs r' = {}" if "r' \<in> set (live_vregions s)" for r'
    using vr_overlaps_iff [OF live_valid [OF assms(1) that] lt ok(1)] ok(6) that
    by (auto simp: vr_addrs_def)
  have live: "live_vregions s' = live_vregions s @ [?r]"
    using ok(4) live_push [of s ?r] ok(7) assms(1) by (simp add: regions_inv_def)
  show ?thesis using inv cur dis live u ok(3,4) by simp
next
  case full
  then show ?thesis using assms by (auto simp: regions_inv_def)
qed (use assms in auto)

text \<open>Reserving a region either gives the block at the dynamic cursor, which lies inside the
  dynamic range and is disjoint from every live region, records it and moves the cursor to its
  end; or it fails with the first applicable error and changes nothing.  The table invariant and
  the cursor invariant are kept.\<close>
theorem reserve_virtual_region_correct:
  assumes "regions_inv s" and "cursor_ok s"
    and "reserve_virtual_region n perms purpose s = (res, s')"
  shows "regions_inv s' \<and> cursor_ok s' \<and>
    (case res of
       Inr r \<Rightarrow> r = \<lparr>vr_start = next_dynamic_addr s, vr_size = n, vr_permissions = perms,
                 vr_purpose = purpose, owns_physical_pages = False\<rparr>
         \<and> (\<forall>r' \<in> set (live_vregions s). vr_addrs r \<inter> vr_addrs r' = {})
         \<and> unat (next_dynamic_addr s') = unat (next_dynamic_addr s) + unat n
         \<and> live_vregions s' = live_vregions s @ [r]
     | Inl e \<Rightarrow> s' = s
         \<and> (e = ZeroSize \<longleftrightarrow> n = 0 \<or> n mod PAGE_SIZE \<noteq> 0)
         \<and> (e = AddressOverflow \<longrightarrow> unat DYNAMIC_VIRT_END < unat (next_dynamic_addr s) + unat n)
         \<and> (e = RegionTableFull \<longrightarrow> vmm_region_count s = MAX_VIRT_REGIONS)
         \<and> (e = RegionOverlaps \<longrightarrow> (\<exists>r \<in> set (live_vregions s).
              vr_addrs r \<inter> {unat (next_dynamic_addr s) ..< unat (next_dynamic_addr s) + unat n} \<noteq> {}))
         \<and> e \<in> {ZeroSize, AddressOverflow, RegionTableFull, RegionOverlaps})"
  by (rule reserve_facts [OF assms])

text \<open>Registering a region whose end does not wrap succeeds exactly when it is canonical,
  page aligned, of positive page-multiple size, the table has room and the region is disjoint from
  every live one; it then appends the region and keeps the table invariant.  On an error nothing
  changes.\<close>
theorem register_region_correct:
  assumes "regions_inv s" and "unat (vr_start r) + unat (vr_size r) < 2 ^ 64"
    and "register_region r s = (res, s')"
  shows "regions_inv s' \<and>
    (res = Inr () \<longleftrightarrow> is_canonical (vr_start r) \<and> is_canonical (vr_end r) \<and> vr_valid r
       \<and> vmm_region_count s < MAX_VIRT_REGIONS
       \<and> (\<forall>r' \<in> set (live_vregions s). vr_addrs r' \<inter> vr_addrs r = {}))
    \<and> (if res = Inr () then live_vregions s' = live_vregions s @ [r] else s' = s)"
proof (cases "vr_valid r \<and> is_canonical (vr_start r) \<and> is_canonical (vr_end r)
    \<and> vmm_region_count s < MAX_VIRT_REGIONS")
  case False
  then show ?thesis using assms by (auto simp: register_region_def vr_valid_def split: if_splits)
next
  case True
  then have v: "vr_valid r" by simp
  have iff: "vr_overlaps r' (vr_start r) (vr_size r) \<longleftrightarrow> vr_addrs r' \<inter> vr_addrs r \<noteq> {}"
    if "r' \<in> set (live_vregions s)" for r'
    using vr_overlaps_iff [OF live_valid [OF assms(1) that] assms(2)] v
    by (simp add: vr_valid_def vr_addrs_def)
  show ?thesis
  proof (cases "\<exists>r' \<in> set (live_vregions s). vr_overlaps r' (vr_start r) (vr_size r)")
    case ov: True
    then have "res = Inl RegionOverlaps" "s' = s"
      using assms(3) True unfolding register_region_def by (simp_all add: vr_valid_def)
    then show ?thesis using ov iff assms(1) by auto
  next
    case no: False
    then have r: "res = Inr ()" "s' = push_vregion r s"
      using assms(3) True unfolding register_region_def by (simp_all add: vr_valid_def)
    have "regions_inv s'" unfolding r using push_region_inv [OF assms(1) _ v no] True by simp
    moreover have "live_vregions s' = live_vregions s @ [r]"
      unfolding r using live_push [of s r] True assms(1) by (simp add: regions_inv_def)
    ultimately show ?thesis using r True no iff by auto
  qed
qed

lemma unregister_facts:
  assumes "regions_inv s" and "unregister_region st s = (res, s')"
  shows "regions_inv s' \<and>
    (case res of
       Inl e \<Rightarrow> s' = s \<and> e = RegionOverlaps \<and> (\<forall>r \<in> set (live_vregions s). vr_start r \<noteq> st)
     | Inr _ \<Rightarrow> \<exists>r. r \<in> set (live_vregions s) \<and> vr_start r = st
         \<and> mset (live_vregions s) = add_mset r (mset (live_vregions s'))
         \<and> (\<forall>r' \<in> set (live_vregions s'). vr_start r' \<noteq> st))"
proof (cases res)
  case (Inl e)
  then show ?thesis
    using assms by (auto simp: unregister_region_def first_index_None Let_def split: option.splits)
next
  case (Inr x)
  then have u: "unregister_region st s = (Inr (), s')" using assms(2) by simp
  from unregister_Inr [OF assms(1) u] obtain i where
    i: "i < vmm_region_count s" "vr_start (vmm_regions s ! i) = st"
    and ms: "mset (live_vregions s') = mset (live_vregions s) - {# vmm_regions s ! i #}" by metis
  let ?r = "vmm_regions s ! i"
  have mem: "?r \<in> set (live_vregions s)"
    using i(1) set_live [of s] assms(1) by (auto simp: regions_inv_def)
  then have full: "mset (live_vregions s) = add_mset ?r (mset (live_vregions s'))" unfolding ms by simp
  have inv: "regions_inv s'" by (rule unregister_inv [OF assms])
  have "vr_start r' \<noteq> st" if r': "r' \<in> set (live_vregions s')" for r'
  proof
    assume st: "vr_start r' = st"
    have r0: "r' \<in> set (live_vregions s)" using full r' by (metis insert_iff set_mset_add_mset_insert set_mset_mset)
    have "r' = ?r"
    proof (rule live_unique [OF assms(1) r0 mem])
      show "unat st \<in> vr_addrs r'" using start_in_addrs [OF live_valid [OF assms(1) r0]] st by simp
      show "unat st \<in> vr_addrs ?r" using start_in_addrs [OF live_valid [OF assms(1) mem]] i(2) by simp
    qed
    with r' have "?r \<in># mset (live_vregions s')" by simp
    then have "2 \<le> count (mset (live_vregions s)) ?r" unfolding full
      by (simp add: Suc_le_eq)
    moreover have "count (mset (live_vregions s)) ?r \<le> 1"
      using live_vregions_distinct [OF assms(1)] by (simp add: distinct_count_atmost_1)
    ultimately show False by simp
  qed
  with inv Inr mem i(2) full show ?thesis by auto
qed

text \<open>Unregistering removes exactly the live region that starts at the given address and
  keeps all others (in some order); with no such region it reports an error (the code
  \<^verbatim>\<open>RegionOverlaps\<close>) and changes nothing.\<close>
theorem unregister_region_exact:
  assumes "regions_inv s" and "unregister_region st s = (res, s')"
  shows "regions_inv s' \<and>
    (case res of
       Inl e \<Rightarrow> s' = s \<and> e = RegionOverlaps \<and> (\<forall>r \<in> set (live_vregions s). vr_start r \<noteq> st)
     | Inr _ \<Rightarrow> \<exists>r. r \<in> set (live_vregions s) \<and> vr_start r = st
         \<and> mset (live_vregions s) = add_mset r (mset (live_vregions s'))
         \<and> (\<forall>r' \<in> set (live_vregions s'). vr_start r' \<noteq> st))"
  by (rule unregister_facts [OF assms])

text \<open>Looking up an address finds the live region that contains it, and only that one.\<close>
theorem find_region_for_addr_exact:
  assumes "regions_inv s"
  shows "find_region_for_addr a s = Some r \<longleftrightarrow> r \<in> set (live_vregions s) \<and> unat a \<in> vr_addrs r"
proof -
  have len: "vmm_region_count s \<le> length (vmm_regions s)" using assms by (simp add: regions_inv_def)
  show ?thesis
  proof (cases "first_index (\<lambda>r. vr_contains r a) (live_vregions s)")
    case None
    then have "\<forall>r \<in> set (live_vregions s). \<not> vr_contains r a" by (simp add: first_index_None)
    with None vr_contains_iff [OF live_valid [OF assms]] show ?thesis
      by (auto simp: find_region_for_addr_def)
  next
    case (Some i)
    from first_index_Some [OF Some] len have i: "i < vmm_region_count s"
      and c: "vr_contains (vmm_regions s ! i) a" by (auto simp: live_vregions_def)
    have mem: "vmm_regions s ! i \<in> set (live_vregions s)" using i set_live [OF len] by auto
    have "unat a \<in> vr_addrs (vmm_regions s ! i)"
      using c vr_contains_iff [OF live_valid [OF assms mem]] by simp
    with mem live_unique [OF assms mem, of r] Some show ?thesis
      by (auto simp: find_region_for_addr_def)
  qed
qed

subsection \<open>Concrete instances\<close>

lemma sample_regions_inv: "regions_inv sample_vm"
  by (simp add: regions_inv_def sample_vm_def live_vregions_def)

lemma sample_cursor_ok: "cursor_ok sample_vm"
  by (simp add: cursor_ok_def sample_vm_def kernel_consts va_is_aligned_def)

definition sample_region :: virt_region where
  "sample_region = \<lparr>vr_start = 0x5000, vr_size = 0x2000, vr_permissions = PERM_KERNEL_DATA,
     vr_purpose = DirectMappedRam, owns_physical_pages = False\<rparr>"

lemma sample_region_ok:
  "is_canonical (vr_start sample_region)" "is_canonical (vr_end sample_region)" "vr_valid sample_region"
  "unat (vr_start sample_region) + unat (vr_size sample_region) < 2 ^ 64"
  by (simp_all add: sample_region_def vr_end_def is_canonical_def Let_def vr_valid_def va_is_aligned_def)

lemma sample_live: "live_vregions sample_vm = []"
  by (simp add: live_vregions_def sample_vm_def)

lemma sample_registered:
  obtains s' where "register_region sample_region sample_vm = (Inr (), s')" "regions_inv s'"
    "live_vregions s' = [sample_region]"
proof (cases "register_region sample_region sample_vm")
  case (Pair res s')
  have r: "res = Inr ()" "s' = push_vregion sample_region sample_vm"
    using Pair sample_region_ok sample_live
    by (simp_all add: register_region_def vr_valid_def) (simp_all add: sample_vm_def kernel_consts)
  have "regions_inv s'"
    unfolding r(2) using sample_live sample_region_ok(3)
    by (intro push_region_inv sample_regions_inv) (simp_all add: sample_vm_def kernel_consts)
  moreover have "live_vregions s' = [sample_region]"
    unfolding r(2) using live_push [of sample_vm sample_region] sample_live
    by (simp add: sample_vm_def kernel_consts)
  ultimately show thesis using that Pair r(1) by simp
qed

theorem reserve_virtual_region_correct_witness:
  "\<exists>r s'. regions_inv sample_vm \<and> cursor_ok sample_vm
     \<and> reserve_virtual_region 0x4000 PERM_KERNEL_DATA DynamicKernel sample_vm = (Inr r, s')
     \<and> vr_start r = DYNAMIC_VIRT_START \<and> live_vregions s' = [r]"
proof (cases "reserve_virtual_region 0x4000 PERM_KERNEL_DATA DynamicKernel sample_vm")
  case (Pair res s')
  note k = reserve_virtual_region_correct [OF sample_regions_inv sample_cursor_ok Pair]
  have c: "next_dynamic_addr sample_vm = DYNAMIC_VIRT_START" "vmm_region_count sample_vm = 0"
    by (simp_all add: sample_vm_def)
  have "\<exists>r. res = Inr r"
  proof (cases res)
    case (Inl e)
    with k show ?thesis by (auto simp: sample_live c kernel_consts)
  qed simp
  with Pair k sample_regions_inv sample_cursor_ok show ?thesis by (auto simp: sample_live c)
qed

theorem register_region_correct_witness:
  "\<exists>s'. regions_inv sample_vm \<and> register_region sample_region sample_vm = (Inr (), s')
     \<and> regions_inv s' \<and> live_vregions s' = [sample_region]"
proof (cases "register_region sample_region sample_vm")
  case (Pair res s')
  have "vmm_region_count sample_vm < MAX_VIRT_REGIONS" by (simp add: sample_vm_def kernel_consts)
  with register_region_correct [OF sample_regions_inv sample_region_ok(4) Pair] sample_region_ok
  have "res = Inr () \<and> regions_inv s' \<and> live_vregions s' = [sample_region]"
    by (simp add: sample_live)
  with Pair sample_regions_inv show ?thesis by blast
qed

theorem unregister_region_exact_witness:
  "\<exists>s1 s2. register_region sample_region sample_vm = (Inr (), s1)
     \<and> unregister_region 0x5000 s1 = (Inr (), s2) \<and> live_vregions s2 = []"
proof -
  obtain s1 where s1: "register_region sample_region sample_vm = (Inr (), s1)" "regions_inv s1"
    "live_vregions s1 = [sample_region]" by (rule sample_registered)
  obtain res s2 where u: "unregister_region 0x5000 s1 = (res, s2)" by (cases "unregister_region 0x5000 s1")
  have "res = Inr () \<and> live_vregions s2 = []"
    using unregister_region_exact [OF s1(2) u] s1(3)
    by (cases res) (auto simp: sample_region_def)
  with s1(1) u show ?thesis by blast
qed

theorem find_region_for_addr_exact_witness:
  "\<exists>s1. register_region sample_region sample_vm = (Inr (), s1) \<and> regions_inv s1
     \<and> find_region_for_addr 0x6abc s1 = Some sample_region"
proof -
  obtain s1 where s1: "register_region sample_region sample_vm = (Inr (), s1)" "regions_inv s1"
    "live_vregions s1 = [sample_region]" by (rule sample_registered)
  have "unat (0x6abc :: u64) \<in> vr_addrs sample_region" by (simp add: vr_addrs_def sample_region_def)
  with find_region_for_addr_exact [OF s1(2), of "0x6abc" sample_region] s1 show ?thesis by auto
qed

definition top_region :: virt_region where
  "top_region = \<lparr>vr_start = 0xFFFFFFFFFFFFF000, vr_size = 0x1000, vr_permissions = PERM_KERNEL_DATA,
     vr_purpose = ReservedRegion, owns_physical_pages = False\<rparr>"

text \<open>A region that ends at the top of the address space has the wrapped end 0, so it is
  accepted although it conflicts with a live region: the same region can be registered twice.\<close>
theorem register_region_wrapping_end:
  "\<exists>s1 s2. register_region top_region sample_vm = (Inr (), s1)
     \<and> register_region top_region s1 = (Inr (), s2) \<and> live_vregions s2 = [top_region, top_region]"
proof -
  have c: "is_canonical (vr_start top_region)" "is_canonical (vr_end top_region)"
    "va_is_aligned (vr_start top_region)" "vr_size top_region \<noteq> 0" "vr_size top_region mod PAGE_SIZE = 0"
    "\<not> vr_overlaps top_region (vr_start top_region) (vr_size top_region)"
    by (simp_all add: top_region_def vr_end_def is_canonical_def Let_def va_is_aligned_def vr_overlaps_def)
  let ?s1 = "push_vregion top_region sample_vm"
  have n: "length (vmm_regions sample_vm) = 256" "vmm_region_count sample_vm = 0"
    by (simp_all add: sample_vm_def kernel_consts)
  have n1: "length (vmm_regions ?s1) = 256" "vmm_region_count ?s1 = 1"
    by (simp_all add: push_vregion_def n)
  have l1: "live_vregions ?s1 = [top_region]" using live_push [of sample_vm top_region] n by (simp add: sample_live)
  have "register_region top_region sample_vm = (Inr (), ?s1)"
    using c by (simp add: register_region_def sample_live n kernel_consts)
  moreover have "register_region top_region ?s1 = (Inr (), push_vregion top_region ?s1)"
    using c by (simp add: register_region_def l1 n1 kernel_consts)
  moreover have "live_vregions (push_vregion top_region ?s1) = [top_region, top_region]"
    using live_push [of ?s1 top_region] n1 l1 by simp
  ultimately show ?thesis by blast
qed

end
