(* ===== verification/Vmm_Ops.thy ===== *)
theory Vmm_Ops
  imports Vmm_Regions
begin

text \<open>
  The operations of \<^verbatim>\<open>src/src/vmm.rs\<close> that map and unmap whole regions, with their
  rollback paths: \<^verbatim>\<open>map_region\<close>, \<^verbatim>\<open>allocate_and_map_region\<close> and \<^verbatim>\<open>unmap_region\<close>.
  The loops over pages are recursive functions; the loop that takes frames from the physical
  allocator is the generic one of the frame-allocator interface, so its facts come from the
  interpretation for the page allocator.
\<close>

definition region_page :: "virt_addr \<Rightarrow> nat \<Rightarrow> virt_addr" where
  "region_page base i = base + of_nat i * PAGE_SIZE"

definition unmap_pages :: "u64 \<Rightarrow> virt_addr \<Rightarrow> nat \<Rightarrow> vmm \<Rightarrow> vmm" where
  "unmap_pages root base n s =
     fold (\<lambda>j s. snd (unmap_page root (region_page base j) s)) [0..<n] s"

fun map_pages ::
    "u64 \<Rightarrow> virt_addr \<Rightarrow> page_flags \<Rightarrow> nat \<Rightarrow> phys_page list \<Rightarrow> vmm \<Rightarrow> bool \<times> vmm" where
  "map_pages root base flags i [] s = (True, s)"
| "map_pages root base flags i (p # ps) s =
     (case map_page root (region_page base i) p flags s of
        (Inl _, s') \<Rightarrow> (False, unmap_pages root base i s')
      | (Inr _, s') \<Rightarrow> map_pages root base flags (Suc i) ps s')"

definition map_region :: "virt_region \<Rightarrow> phys_page list \<Rightarrow> vmm \<Rightarrow> (vmm_error + unit) \<times> vmm" where
  "map_region region physical_pages s =
     (let expected_pages = unat (vr_size region div PAGE_SIZE) in
      if length physical_pages < expected_pages then (Inl PhysicalAllocationFailed, s)
      else case map_pages (root_pml4_phys s) (vr_start region) (to_page_flags (vr_permissions region))
              0 (take expected_pages physical_pages) s of
          (True, s') \<Rightarrow> (Inr (), s')
        | (False, s') \<Rightarrow> (Inl PageTableMappingFailed, s'))"

definition allocate_and_map_region ::
    "u64 \<Rightarrow> virt_permissions \<Rightarrow> region_purpose \<Rightarrow> vmm \<Rightarrow> (vmm_error + virt_region) \<times> vmm" where
  "allocate_and_map_region size_bytes permissions purpose s =
     and_then (reserve_virtual_region size_bytes permissions purpose s) (\<lambda>reserved s.
       let region = reserved\<lparr>owns_physical_pages := True\<rparr>;
           page_count = unat (size_bytes div PAGE_SIZE)
       in
       if page_count > 128 then (Inl PhysicalAllocationFailed, s)
       else case alloc_loop allocate_physical_page free_physical_page page_count [] (vmm_pmm s) of
         (None, p) \<Rightarrow> (Inl PhysicalAllocationFailed, s\<lparr>vmm_pmm := p\<rparr>)
       | (Some allocated_pages, p) \<Rightarrow>
           (case map_pages (root_pml4_phys s) (vr_start region) (to_page_flags permissions)
                   0 allocated_pages (s\<lparr>vmm_pmm := p\<rparr>) of
              (True, s') \<Rightarrow> (Inr region, s')
            | (False, s') \<Rightarrow>
                let s'' = s'\<lparr>vmm_pmm := release_all free_physical_page allocated_pages (vmm_pmm s')\<rparr>
                in (Inl PageTableMappingFailed, snd (unregister_region (vr_start region) s''))))"

definition unmap_owned_page :: "u64 \<Rightarrow> virt_region \<Rightarrow> nat \<Rightarrow> vmm \<Rightarrow> vmm" where
  "unmap_owned_page root region i s =
     (case unmap_page root (region_page (vr_start region) i) s of
        (Inr unmapped_phys, s') \<Rightarrow>
          if owns_physical_pages region
          then s'\<lparr>vmm_pmm := snd (free_physical_page unmapped_phys (vmm_pmm s'))\<rparr> else s'
      | (Inl _, s') \<Rightarrow> s')"

definition unmap_region :: "virt_region \<Rightarrow> vmm \<Rightarrow> (vmm_error + unit) \<times> vmm" where
  "unmap_region region s =
     (let page_count = unat (vr_size region div PAGE_SIZE) in
      unregister_region (vr_start region)
        (fold (unmap_owned_page (root_pml4_phys s) region) [0..<page_count] s))"

subsection \<open>Overlays\<close>

text \<open>The effect of a sequence of page operations under one root, relative to a base memory: a
  finite map from paths to the leaf entries written there, visible wherever the slot is shared.\<close>

definition overlay :: "u64 set \<Rightarrow> u64 \<Rightarrow> (pt_index list \<rightharpoonup> pte) \<Rightarrow> phys_mem \<Rightarrow> phys_mem \<Rightarrow> bool" where
  "overlay R root ov m0 m \<longleftrightarrow> (\<forall>r\<in>R. \<forall>q. length q = 4 \<longrightarrow> xlate m r q =
     (if same_subtree root r q \<and> ov q \<noteq> None then Some (the (ov q), []) else xlate m0 r q))"

lemma overlayD:
  "overlay R root ov m0 m \<Longrightarrow> r \<in> R \<Longrightarrow> length q = 4 \<Longrightarrow> xlate m r q =
     (if same_subtree root r q \<and> ov q \<noteq> None then Some (the (ov q), []) else xlate m0 r q)"
  by (simp add: overlay_def)

lemma overlay_refl: "overlay R root Map.empty m m"
  by (simp add: overlay_def)

lemma overlay_empty: "overlay R root Map.empty m0 m \<Longrightarrow> r \<in> R \<Longrightarrow> length q = 4 \<Longrightarrow> xlate m r q = xlate m0 r q"
  by (simp add: overlay_def)

lemma xlate_same_subtree:
  assumes "forest m R A" and "r \<in> R" and "r' \<in> R" and "same_subtree r r' q" and "q \<noteq> []"
  shows "xlate m r' q = xlate m r q"
proof (cases q)
  case (Cons i p)
  with assms have "m r' i = m r i"
    using forest_shared [of m R A r' r i] by (auto simp: same_subtree_def)
  with Cons show ?thesis by simp
qed (use assms in simp)

definition free_slots :: "u64 set \<Rightarrow> u64 \<Rightarrow> phys_mem \<Rightarrow> pt_index list \<Rightarrow> bool" where
  "free_slots R root m q \<longleftrightarrow> (\<forall>r\<in>R. same_subtree root r q \<longrightarrow> xlate m r q = None)"

lemma overlay_map:
  assumes ok: "vm_ok R X s" and r: "root \<in> R" and ov: "overlay R root ov m0 (vmm_mem s)"
    and mp: "map_page root va pa flags s = (Inr (), s')" and fl: "is_present flags"
  shows "overlay R root (ov(va_path va \<mapsto> pte_set pa flags)) m0 (vmm_mem s')"
    and "free_slots R root m0 (va_path va)"
proof -
  note k = map_page_Inr [OF ok r mp fl]
  show "overlay R root (ov(va_path va \<mapsto> pte_set pa flags)) m0 (vmm_mem s')"
    unfolding overlay_def using k(7) overlayD [OF ov] by auto
  have fo: "forest (vmm_mem s) R (avail s \<union> X)" using ok by (simp add: vm_ok_def)
  show "free_slots R root m0 (va_path va)"
    unfolding free_slots_def
  proof (intro ballI impI)
    fix r' assume r': "r' \<in> R" "same_subtree root r' (va_path va)"
    have "va_path va \<noteq> []" by (simp add: va_path_def)
    with xlate_same_subtree [OF fo r r'(1,2)] k(5) have "xlate (vmm_mem s) r' (va_path va) = None" by simp
    with overlayD [OF ov r'(1), of "va_path va"] show "xlate m0 r' (va_path va) = None"
      by (auto split: if_splits)
  qed
qed

lemma overlay_unmap:
  assumes ok: "vm_ok R X s" and r: "root \<in> R" and ov: "overlay R root ov m0 (vmm_mem s)"
    and fs: "free_slots R root m0 (va_path va)" and can: "is_canonical va" and al: "va_is_aligned va"
    and um: "unmap_page root va s = (res, s')"
  shows "overlay R root (ov(va_path va := None)) m0 (vmm_mem s')" and "vm_ok R X s'"
    and "s' = s\<lparr>vmm_mem := vmm_mem s'\<rparr>"
    and "res = (case ov (va_path va) of Some e \<Rightarrow> Inr (pte_phys_addr e) | None \<Rightarrow> res)"
    and "ov (va_path va) = None \<Longrightarrow> \<exists>e. res = Inl e"
proof -
  have x: "xlate (vmm_mem s) root (va_path va) =
      (case ov (va_path va) of Some e \<Rightarrow> Some (e, []) | None \<Rightarrow> None)"
    using overlayD [OF ov r, of "va_path va"] fs r
    by (auto simp: same_subtree_def free_slots_def split: option.splits)
  then have nl: "no_large_page (vmm_mem s) root va"
    by (auto simp: no_large_page_def split: option.splits)
  have "overlay R root (ov(va_path va := None)) m0 (vmm_mem s') \<and> vm_ok R X s'
    \<and> s' = s\<lparr>vmm_mem := vmm_mem s'\<rparr>
    \<and> res = (case ov (va_path va) of Some e \<Rightarrow> Inr (pte_phys_addr e) | None \<Rightarrow> res)
    \<and> (ov (va_path va) = None \<longrightarrow> (\<exists>e. res = Inl e))"
  proof (cases res)
    case (Inl e)
    then have s': "s' = s" using unmap_page_Inl um by simp
    have none: "ov (va_path va) = None"
    proof (rule ccontr)
      assume "ov (va_path va) \<noteq> None"
      then obtain e' where "xlate (vmm_mem s) root (va_path va) = Some (e', [])" using x by auto
      from unmap_page_mapped [OF can al this] um Inl show False by simp
    qed
    then have "ov(va_path va := None) = ov" by auto
    with ov ok s' none Inl show ?thesis by simp
  next
    case (Inr f)
    note k = unmap_page_Inr [OF ok r nl um [unfolded Inr]]
    from k(5) x obtain e where e: "ov (va_path va) = Some e" "f = pte_phys_addr e"
      by (auto split: option.splits)
    have "overlay R root (ov(va_path va := None)) m0 (vmm_mem s')"
      unfolding overlay_def using k(6) overlayD [OF ov] fs by (auto simp: free_slots_def)
    with k(3,4) e Inr show ?thesis by simp
  qed
  then show "overlay R root (ov(va_path va := None)) m0 (vmm_mem s')" "vm_ok R X s'"
    "s' = s\<lparr>vmm_mem := vmm_mem s'\<rparr>"
    "res = (case ov (va_path va) of Some e \<Rightarrow> Inr (pte_phys_addr e) | None \<Rightarrow> res)"
    "ov (va_path va) = None \<Longrightarrow> \<exists>e. res = Inl e" by blast+
qed

subsection \<open>The page loops\<close>

definition good_page :: "u64 set \<Rightarrow> u64 \<Rightarrow> phys_mem \<Rightarrow> virt_addr \<Rightarrow> bool" where
  "good_page R root m0 va \<longleftrightarrow> is_canonical va \<and> va_is_aligned va \<and> free_slots R root m0 (va_path va)"

abbreviation page_path :: "virt_addr \<Rightarrow> nat \<Rightarrow> pt_index list" where
  "page_path base j \<equiv> va_path (region_page base j)"

lemma unmap_pages_Suc:
  "unmap_pages root base (Suc n) s = snd (unmap_page root (region_page base n) (unmap_pages root base n s))"
  by (simp add: unmap_pages_def)

lemma unmap_pages_overlay:
  assumes "vm_ok R X s" and "root \<in> R" and "overlay R root ov m0 (vmm_mem s)"
    and "\<And>j. j < n \<Longrightarrow> good_page R root m0 (region_page base j)"
  shows "vm_ok R X (unmap_pages root base n s)
    \<and> unmap_pages root base n s = s\<lparr>vmm_mem := vmm_mem (unmap_pages root base n s)\<rparr>
    \<and> overlay R root (ov |` (- page_path base ` {..<n})) m0 (vmm_mem (unmap_pages root base n s))"
  using assms(4)
proof (induction n)
  case 0
  then show ?case using assms(1,3) by (simp add: unmap_pages_def)
next
  case (Suc n)
  let ?s = "unmap_pages root base n s"
  have IH: "vm_ok R X ?s" "?s = s\<lparr>vmm_mem := vmm_mem ?s\<rparr>"
    "overlay R root (ov |` (- page_path base ` {..<n})) m0 (vmm_mem ?s)"
    using Suc.IH Suc.prems by simp_all
  obtain res s' where um: "unmap_page root (region_page base n) ?s = (res, s')"
    by (cases "unmap_page root (region_page base n) ?s")
  have g: "good_page R root m0 (region_page base n)" using Suc.prems by simp
  note k = overlay_unmap [OF IH(1) assms(2) IH(3) _ _ _ um]
  have fin: "unmap_pages root base (Suc n) s = s'" using um by (simp add: unmap_pages_Suc)
  have ov: "(ov |` (- page_path base ` {..<n}))(page_path base n := None) =
      ov |` (- page_path base ` {..<Suc n})"
    by (auto simp: restrict_map_def lessThan_Suc)
  have "s' = s\<lparr>vmm_mem := vmm_mem s'\<rparr>"
    using k(3) g IH(2) by (metis good_page_def vmm.surjective vmm.update_convs(1) vmm.fold_congs(1))
  then show ?case unfolding fin using k(1,2) g ov by (simp add: good_page_def)
qed

fun leaf_map :: "virt_addr \<Rightarrow> page_flags \<Rightarrow> nat \<Rightarrow> phys_page list \<Rightarrow> (pt_index list \<rightharpoonup> pte) \<Rightarrow> (pt_index list \<rightharpoonup> pte)"
  where
  "leaf_map base flags i [] ov = ov"
| "leaf_map base flags i (p # ps) ov = leaf_map base flags (Suc i) ps (ov(page_path base i \<mapsto> pte_set p flags))"

lemma map_pages_overlay:
  assumes "vm_ok R X s" and "root \<in> R" and "is_present flags"
    and "overlay R root ov m0 (vmm_mem s)" and "dom ov \<subseteq> page_path base ` {..<i}"
    and "\<And>j. j < i \<Longrightarrow> good_page R root m0 (region_page base j)"
    and "map_pages root base flags i ps s = (b, s')"
  shows "vm_ok R X s' \<and> same_rest s s' \<and> avail s' \<subseteq> avail s \<and>
    (if b then overlay R root (leaf_map base flags i ps ov) m0 (vmm_mem s')
       \<and> (\<forall>j < i + length ps. good_page R root m0 (region_page base j))
     else overlay R root Map.empty m0 (vmm_mem s'))"
  using assms
proof (induction ps arbitrary: i s ov)
  case Nil
  then show ?case by simp
next
  case (Cons p ps)
  obtain res s1 where mp: "map_page root (region_page base i) p flags s = (res, s1)"
    by (cases "map_page root (region_page base i) p flags s")
  show ?case
  proof (cases res)
    case (Inr x)
    with mp have mp': "map_page root (region_page base i) p flags s = (Inr (), s1)" by simp
    note k = map_page_Inr [OF Cons.prems(1,2) mp' Cons.prems(3)]
    note o = overlay_map [OF Cons.prems(1,2,4) mp' Cons.prems(3)]
    have good: "good_page R root m0 (region_page base j)" if "j < Suc i" for j
      using that Cons.prems(6) k(1) o(2) by (auto simp: less_Suc_eq good_page_def map_checks_def)
    have dom: "dom (ov(page_path base i \<mapsto> pte_set p flags)) \<subseteq> page_path base ` {..<Suc i}"
      using Cons.prems(5) by (auto simp: lessThan_Suc)
    have rest: "map_pages root base flags (Suc i) ps s1 = (b, s')" using Cons.prems(7) mp Inr by simp
    from Cons.IH [OF k(2) Cons.prems(2,3) o(1) dom good rest] same_rest_trans [OF k(3)] k(4)
    show ?thesis by auto
  next
    case (Inl e)
    with mp have mp': "map_page root (region_page base i) p flags s = (Inl e, s1)" by simp
    note k = map_page_Inl [OF Cons.prems(1,2) mp']
    have ov1: "overlay R root ov m0 (vmm_mem s1)"
      unfolding overlay_def using growsD_xlate [OF k(2)] overlayD [OF Cons.prems(4)] by simp
    have b: "b = False" "s' = unmap_pages root base i s1" using Cons.prems(7) mp Inl by auto
    note u = unmap_pages_overlay [where n = i and base = base, OF k(1) Cons.prems(2) ov1 Cons.prems(6)]
    have "ov |` (- page_path base ` {..<i}) = Map.empty"
      using Cons.prems(5) by (intro ext) (auto simp: restrict_map_def dom_def)
    moreover have "same_rest s s'"
      using u growsD_rest [OF k(2)] by (metis b(2) same_rest_mem_iff)
    moreover have "avail s' \<subseteq> avail s"
    proof -
      have "avail s' = avail s1" using u unfolding b(2) by (metis avail_mem)
      then show ?thesis using k(2) by (simp add: grows_def)
    qed
    ultimately show ?thesis using u b by simp
  qed
qed

text \<open>The pages of a region are distinct, so the overlay of a completed loop is one entry per
  page.\<close>

lemma region_page_inj:
  assumes "region_page base i = region_page base j" and "i < 2 ^ 52" and "j < 2 ^ 52"
  shows "i = j"
proof -
  have "(of_nat i * 4096 :: u64) = of_nat j * 4096" using assms(1) by (simp add: region_page_def)
  then have "(of_nat (i * 4096) :: u64) = of_nat (j * 4096)" by simp
  then have "unat (of_nat (i * 4096) :: u64) = unat (of_nat (j * 4096) :: u64)" by (simp only:)
  then show ?thesis
    using assms(2,3) by (simp add: unat_of_nat take_bit_nat_eq_self del: of_nat_mult)
qed

lemma page_path_inj:
  assumes "good_page R root m0 (region_page base i)" and "good_page R root m0 (region_page base j)"
    and "page_path base i = page_path base j" and "i < 2 ^ 52" and "j < 2 ^ 52"
  shows "i = j"
proof -
  have "same_page (region_page base i) (region_page base j)"
    using assms(1-3) va_path_eq_iff by (simp add: good_page_def)
  then have "region_page base i = region_page base j"
    using assms(1,2) same_page_aligned by (simp add: good_page_def)
  with region_page_inj assms(4,5) show ?thesis by blast
qed

lemma leaf_map_other: "q \<notin> page_path base ` {i ..< i + length ps} \<Longrightarrow> leaf_map base flags i ps ov q = ov q"
proof (induction ps arbitrary: i ov)
  case (Cons p ps)
  have "q \<notin> page_path base ` {Suc i ..< Suc i + length ps}" "q \<noteq> page_path base i"
    using Cons.prems by auto
  with Cons.IH show ?case by simp
qed simp

lemma leaf_map_page:
  assumes "\<And>j. j < i + length ps \<Longrightarrow> good_page R root m0 (region_page base j)"
    and "i + length ps \<le> 2 ^ 52" and "k < length ps"
  shows "leaf_map base flags i ps ov (page_path base (i + k)) = Some (pte_set (ps ! k) flags)"
  using assms
proof (induction ps arbitrary: i k ov)
  case (Cons p ps)
  show ?case
  proof (cases k)
    case 0
    have "page_path base i \<notin> page_path base ` {Suc i ..< Suc i + length ps}"
    proof
      assume "page_path base i \<in> page_path base ` {Suc i ..< Suc i + length ps}"
      then obtain j where j: "page_path base i = page_path base j" "Suc i \<le> j" "j < Suc i + length ps" by auto
      have "i = j"
        by (rule page_path_inj [OF Cons.prems(1) Cons.prems(1) j(1)]) (use j Cons.prems(2) in auto)
      with j show False by simp
    qed
    from leaf_map_other [OF this] 0 show ?thesis by simp
  next
    case (Suc k')
    have "leaf_map base flags (Suc i) ps (ov(page_path base i \<mapsto> pte_set p flags))
        (page_path base (Suc i + k')) = Some (pte_set (ps ! k') flags)"
      by (rule Cons.IH) (use Cons.prems Suc in auto)
    with Suc show ?thesis by simp
  qed
qed simp

text \<open>What a completed loop does to the translations: each page of the region goes to its frame
  and nothing else changes.\<close>

definition maps_region ::
    "u64 set \<Rightarrow> u64 \<Rightarrow> virt_addr \<Rightarrow> phys_page list \<Rightarrow> page_flags \<Rightarrow> phys_mem \<Rightarrow> phys_mem \<Rightarrow> bool" where
  "maps_region R root base frames flags m0 m \<longleftrightarrow>
     (\<forall>r\<in>R. \<forall>va. is_canonical va \<longrightarrow>
        (\<forall>k < length frames. sees_change root (region_page base k) r va \<longrightarrow>
           mmu_translate m0 r va = None
           \<and> mmu_translate m r va = Some (frames ! k + page_offset va, flags))
        \<and> ((\<forall>k < length frames. \<not> sees_change root (region_page base k) r va) \<longrightarrow>
             mmu_translate m r va = mmu_translate m0 r va))"

lemma overlay_maps_region:
  assumes ov: "overlay R root (leaf_map base flags 0 frames Map.empty) m0 m"
    and good: "\<And>j. j < length frames \<Longrightarrow> good_page R root m0 (region_page base j)"
    and len: "length frames \<le> 2 ^ 52" and fl: "flags_clean flags"
    and fr: "\<And>f. f \<in> set frames \<Longrightarrow> frame_addr f"
  shows "maps_region R root base frames flags m0 m"
  unfolding maps_region_def
proof (intro ballI allI impI conjI)
  fix r va k
  assume r: "r \<in> R" and can: "is_canonical va" and k: "k < length frames"
    and see: "sees_change root (region_page base k) r va"
  have g: "good_page R root m0 (region_page base k)" using good k by simp
  have canp: "is_canonical (region_page base k)" using g by (simp add: good_page_def)
  from see have path: "va_path va = page_path base k" and sub: "same_subtree root r (va_path va)"
    using sees_change_path [OF canp can] by auto
  show "mmu_translate m0 r va = None"
    using g r sub path by (simp add: good_page_def free_slots_def mmu_translate_def)
  have "leaf_map base flags 0 frames Map.empty (va_path va) = Some (pte_set (frames ! k) flags)"
    unfolding path using leaf_map_page [of 0 frames R root m0 base k flags] good len k by simp
  with overlayD [OF ov r, of "va_path va"] sub
  have "xlate m r (va_path va) = Some (pte_set (frames ! k) flags, [])" by simp
  from mmu_leaf [OF can this fl fr] k show "mmu_translate m r va = Some (frames ! k + page_offset va, flags)"
    by simp
next
  fix r va
  assume r: "r \<in> R" and can: "is_canonical va"
    and no: "\<forall>k < length frames. \<not> sees_change root (region_page base k) r va"
  show "mmu_translate m r va = mmu_translate m0 r va"
  proof (rule mmu_cong)
    have "leaf_map base flags 0 frames Map.empty (va_path va) = None" if "same_subtree root r (va_path va)"
    proof -
      have "va_path va \<noteq> page_path base k" if k: "k < length frames" for k
      proof
        assume eq: "va_path va = page_path base k"
        have "is_canonical (region_page base k)" using good [OF k] by (simp add: good_page_def)
        from sees_change_path [OF this can, of root r] eq \<open>same_subtree root r (va_path va)\<close> no k
        show False by auto
      qed
      then have "va_path va \<notin> page_path base ` {0 ..< 0 + length frames}" by fastforce
      from leaf_map_other [OF this] show ?thesis by simp
    qed
    then show "xlate m r (va_path va) = xlate m0 r (va_path va)"
      using overlayD [OF ov r, of "va_path va"] by auto
  qed
qed

lemma map_pages_correct:
  assumes "vm_ok R X s" and "root \<in> R" and "is_present flags" and "flags_clean flags"
    and "length ps \<le> 2 ^ 52" and "\<And>f. f \<in> set ps \<Longrightarrow> frame_addr f"
    and "map_pages root base flags 0 ps s = (b, s')"
  shows "vm_ok R X s' \<and> same_rest s s' \<and> avail s' \<subseteq> avail s
    \<and> (if b then maps_region R root base ps flags (vmm_mem s) (vmm_mem s')
       else \<forall>r\<in>R. \<forall>va. mmu_translate (vmm_mem s') r va = mmu_translate (vmm_mem s) r va)"
proof -
  have k: "vm_ok R X s' \<and> same_rest s s' \<and> avail s' \<subseteq> avail s \<and>
    (if b then overlay R root (leaf_map base flags 0 ps Map.empty) (vmm_mem s) (vmm_mem s')
       \<and> (\<forall>j < length ps. good_page R root (vmm_mem s) (region_page base j))
     else overlay R root Map.empty (vmm_mem s) (vmm_mem s'))"
    using map_pages_overlay [OF assms(1-3) overlay_refl _ _ assms(7)] by simp
  show ?thesis
  proof (cases b)
    case True
    with k overlay_maps_region [OF _ _ assms(5,4,6)] show ?thesis by simp
  next
    case False
    with k have ov: "overlay R root Map.empty (vmm_mem s) (vmm_mem s')" by simp
    have "mmu_translate (vmm_mem s') r va = mmu_translate (vmm_mem s) r va" if "r \<in> R" for r va
      by (rule mmu_cong) (rule overlay_empty [OF ov that], simp)
    with k False show ?thesis by simp
  qed
qed

subsection \<open>Frames held by the caller\<close>

lemma vm_ok_cong:
  assumes "vmm_mem s' = vmm_mem s" "vmm_pmm s' = vmm_pmm s" "pool_base s' = pool_base s"
    "bootstrap_index s' = bootstrap_index s" "is_bootstrapping s' = is_bootstrapping s"
  shows "vm_ok R X s' = vm_ok R X s" and "avail s' = avail s"
proof -
  have t: "pool_tail s' = pool_tail s" using assms by (simp add: pool_tail_def pool_table_def)
  then show av: "avail s' = avail s" using assms by (simp add: avail_def)
  show "vm_ok R X s' = vm_ok R X s" using assms t av by (simp add: vm_ok_def pool_ok_def)
qed

lemma avail_pmm: "avail (s\<lparr>vmm_pmm := p\<rparr>) = free_addrs p \<union> (if is_bootstrapping s then pool_tail s else {})"
  by (simp add: avail_def pool_tail_def pool_table_def)

lemma pool_ok_pmm: "pool_ok (s\<lparr>vmm_pmm := p\<rparr>) \<longleftrightarrow> pool_base s mod PAGE_SIZE = 0
     \<and> unat (pool_base s) + BOOTSTRAP_TABLE_COUNT * PAGE_SIZE_nat \<le> 2 ^ 52
     \<and> (is_bootstrapping s \<longrightarrow> pool_tail s \<inter> free_addrs p = {})"
  by (simp add: pool_ok_def pool_tail_def pool_table_def)

lemma pool_tail_pmm [simp]: "pool_tail (s\<lparr>vmm_pmm := p\<rparr>) = pool_tail s"
  by (simp add: pool_tail_def pool_table_def)

lemma vm_ok_same_free:
  assumes "vm_ok R X s" and "pmm_inv p" and "free_addrs p = free_addrs (vmm_pmm s)"
  shows "vm_ok R X (s\<lparr>vmm_pmm := p\<rparr>)"
proof -
  have "avail (s\<lparr>vmm_pmm := p\<rparr>) = avail s" using assms(3) by (simp add: avail_def)
  then show ?thesis using assms by (simp add: vm_ok_def pool_ok_pmm) (simp add: pool_ok_def)
qed

lemma vm_ok_take_frames:
  assumes ok: "vm_ok R X s"
    and al: "alloc_loop allocate_physical_page free_physical_page n [] (vmm_pmm s) = (Some fs, p)"
  shows "vm_ok R (X \<union> set fs) (s\<lparr>vmm_pmm := p\<rparr>)" and "length fs = n" and "distinct fs"
    and "set fs \<subseteq> free_addrs (vmm_pmm s)" and "free_addrs p = free_addrs (vmm_pmm s) - set fs"
    and "managed_addrs p = managed_addrs (vmm_pmm s)" and "\<And>f. f \<in> set fs \<Longrightarrow> frame_addr f"
proof -
  have inv: "pmm_inv (vmm_pmm s)" using ok by (simp add: vm_ok_def)
  note loop = pmm_frames.alloc_loop_Some [OF inv al]
  then have p: "pmm_inv p" by auto
  from loop show f: "length fs = n" "distinct fs"
    "set fs \<subseteq> free_addrs (vmm_pmm s)" "free_addrs p = free_addrs (vmm_pmm s) - set fs"
    "managed_addrs p = managed_addrs (vmm_pmm s)" by auto
  show "frame_addr f" if "f \<in> set fs" for f using frame_addr_free [OF inv] f(3) that by blast
  let ?s = "s\<lparr>vmm_pmm := p\<rparr>"
  have pool: "pool_ok s" using ok by (simp add: vm_ok_def)
  have av: "avail ?s = avail s - set fs"
    unfolding avail_pmm using f(3,4) pool by (auto simp: avail_def pool_ok_def)
  have sub: "set fs \<subseteq> avail s" using f(3) by (auto simp: avail_def)
  have "avail ?s \<union> (X \<union> set fs) = avail s \<union> X" using av sub by auto
  then have "forest (vmm_mem ?s) R (avail ?s \<union> (X \<union> set fs))" using ok by (simp add: vm_ok_def)
  moreover have "(X \<union> set fs) \<inter> avail ?s = {}" using av ok by (auto simp: vm_ok_def)
  moreover have "pool_ok ?s" unfolding pool_ok_pmm using pool f(4) by (auto simp: pool_ok_def)
  ultimately show "vm_ok R (X \<union> set fs) ?s" using p by (simp add: vm_ok_def)
qed

lemma vm_ok_give_frames:
  assumes ok: "vm_ok R (X \<union> set fs) s" and "distinct fs" and "set fs \<subseteq> managed_addrs (vmm_pmm s)"
    and "set fs \<inter> X = {}"
  shows "vm_ok R X (s\<lparr>vmm_pmm := release_all free_physical_page fs (vmm_pmm s)\<rparr>)"
    and "free_addrs (release_all free_physical_page fs (vmm_pmm s)) = free_addrs (vmm_pmm s) \<union> set fs"
proof -
  let ?p = "release_all free_physical_page fs (vmm_pmm s)"
  let ?s = "s\<lparr>vmm_pmm := ?p\<rparr>"
  have inv: "pmm_inv (vmm_pmm s)" and pool: "pool_ok s" using ok by (simp_all add: vm_ok_def)
  have dis: "(X \<union> set fs) \<inter> avail s = {}" using ok by (simp add: vm_ok_def)
  then have "set fs \<inter> free_addrs (vmm_pmm s) = {}" by (auto simp: avail_def)
  from pmm_frames.release_all_frees [OF inv assms(2,3) this]
  show fr: "free_addrs ?p = free_addrs (vmm_pmm s) \<union> set fs" and "vm_ok R X ?s"
  proof -
    assume k: "free_addrs ?p = free_addrs (vmm_pmm s) \<union> set fs
      \<and> managed_addrs ?p = managed_addrs (vmm_pmm s) \<and> pmm_inv ?p"
    then show "free_addrs ?p = free_addrs (vmm_pmm s) \<union> set fs" by simp
    have av: "avail ?s = avail s \<union> set fs" unfolding avail_pmm using k by (auto simp: avail_def)
    have "avail ?s \<union> X = avail s \<union> (X \<union> set fs)" using av by auto
    then have "forest (vmm_mem ?s) R (avail ?s \<union> X)" using ok by (simp add: vm_ok_def)
    moreover have "X \<inter> avail ?s = {}" using av dis assms(4) by auto
    moreover have "pool_ok ?s"
      unfolding pool_ok_pmm using pool k dis by (auto simp: pool_ok_def avail_def)
    ultimately show "vm_ok R X ?s" using k by (simp add: vm_ok_def)
  qed
qed

lemma reserve_same_memory:
  assumes "reserve_virtual_region n perms purpose s = (res, s')"
  shows "vmm_mem s' = vmm_mem s" "vmm_pmm s' = vmm_pmm s" "pool_base s' = pool_base s"
    "bootstrap_index s' = bootstrap_index s" "is_bootstrapping s' = is_bootstrapping s"
    "root_pml4_phys s' = root_pml4_phys s"
  using assms by (auto simp: reserve_virtual_region_def push_vregion_def Let_def
      split: if_splits option.splits)

lemma unregister_same_memory:
  assumes "unregister_region st s = (res, s')"
  shows "vmm_mem s' = vmm_mem s" "vmm_pmm s' = vmm_pmm s" "pool_base s' = pool_base s"
    "bootstrap_index s' = bootstrap_index s" "is_bootstrapping s' = is_bootstrapping s"
    "next_dynamic_addr s' = next_dynamic_addr s"
  using assms by (auto simp: unregister_region_def Let_def split: option.splits)

lemma regions_cong:
  assumes "vmm_regions s' = vmm_regions s" "vmm_region_count s' = vmm_region_count s"
  shows "live_vregions s' = live_vregions s" "regions_inv s' = regions_inv s"
  using assms by (simp_all add: live_vregions_def regions_inv_def)

lemma cursor_cong: "next_dynamic_addr s' = next_dynamic_addr s \<Longrightarrow> cursor_ok s' = cursor_ok s"
  by (simp add: cursor_ok_def)

text \<open>The reservation part of \<^verbatim>\<open>allocate_and_map_region\<close>, in the form the later steps use.\<close>

lemma reserve_step:
  assumes ok: "vm_ok R X s" and inv: "regions_inv s" and cur: "cursor_ok s"
    and res: "reserve_virtual_region n perms purpose s = (Inr r, s1)"
  shows "vm_ok R X s1" and "regions_inv s1" and "cursor_ok s1" and "live_vregions s1 = live_vregions s @ [r]"
    and "vr_start r = next_dynamic_addr s" and "vr_size r = n" and "owns_physical_pages r = False"
    and "vmm_mem s1 = vmm_mem s" and "vmm_pmm s1 = vmm_pmm s" and "root_pml4_phys s1 = root_pml4_phys s"
  using reserve_facts [OF inv cur res] reserve_same_memory [OF res]
    vm_ok_cong(1) [OF reserve_same_memory(1-5) [OF res], of R X] ok by simp_all

text \<open>The result of the unregistration on the mapping-failure path: the region just reserved is
  gone and the others are as before.\<close>

lemma unregister_last:
  assumes inv: "regions_inv s" and live: "live_vregions s = rs @ [r]"
    and u: "unregister_region (vr_start r) s = (res, s')"
  shows "mset (live_vregions s') = mset rs" and "regions_inv s'"
proof -
  note k = unregister_facts [OF inv u]
  show "regions_inv s'" using k by simp
  have mem: "r \<in> set (live_vregions s)" using live by simp
  show "mset (live_vregions s') = mset rs"
  proof (cases res)
    case (Inl e)
    with k mem show ?thesis by auto
  next
    case (Inr x)
    with k obtain r' where r': "r' \<in> set (live_vregions s)" "vr_start r' = vr_start r"
      and ms: "mset (live_vregions s) = add_mset r' (mset (live_vregions s'))" by auto
    have "r' = r"
      using live_unique [OF inv r'(1) mem, of "unat (vr_start r)"] r'
        start_in_addrs [OF live_valid [OF inv mem]] start_in_addrs [OF live_valid [OF inv r'(1)]] by simp
    with ms live show ?thesis by simp
  qed
qed

subsection \<open>When the page loop succeeds\<close>

lemma map_page_leaves_free:
  assumes ok: "vm_ok R X s" and "root \<in> R" and "map_page root va pa flags s = (Inr (), s')"
    and "is_present flags" and nb: "\<not> is_bootstrapping s"
  shows "card (free_addrs (vmm_pmm s)) \<le> card (free_addrs (vmm_pmm s')) + 3"
proof -
  note k = map_page_Inr [OF assms(1-4)]
  have "is_bootstrapping s' = is_bootstrapping s" using same_restD [OF k(3)] by simp
  then have av: "avail s = free_addrs (vmm_pmm s)" "avail s' = free_addrs (vmm_pmm s')"
    using nb by (simp_all add: avail_def)
  have fin: "finite (avail s')" by (rule finite_avail [OF k(2)])
  have "card (avail s) = card (avail s') + card (avail s - avail s')"
    using card_Diff_subset [OF fin k(4)] card_mono [OF finite_avail [OF ok] k(4)] by simp
  with k(6) show ?thesis unfolding av by simp
qed

lemma map_pages_succeeds:
  assumes "vm_ok R X s" and r: "root \<in> R" and fl: "is_present flags" and "\<not> is_bootstrapping s"
    and "3 * length ps \<le> card (free_addrs (vmm_pmm s))" and "\<And>f. f \<in> set ps \<Longrightarrow> f mod PAGE_SIZE = 0"
    and "\<And>j. i \<le> j \<Longrightarrow> j < i + length ps \<Longrightarrow> is_canonical (region_page base j)
      \<and> va_is_aligned (region_page base j) \<and> xlate (vmm_mem s) root (page_path base j) = None"
    and "i + length ps \<le> 2 ^ 52"
  shows "\<exists>s'. map_pages root base flags i ps s = (True, s')"
  using assms(1,4-8)
proof (induction ps arbitrary: i s)
  case (Cons p ps)
  have here: "is_canonical (region_page base i)" "va_is_aligned (region_page base i)"
    "xlate (vmm_mem s) root (page_path base i) = None" using Cons.prems(5) [of i] by simp_all
  have "map_checks (region_page base i) p" using here Cons.prems(4) by (simp add: map_checks_def)
  moreover have "3 \<le> card (free_addrs (vmm_pmm s))" using Cons.prems(3) by simp
  ultimately obtain s1 where mp: "map_page root (region_page base i) p flags s = (Inr (), s1)"
    using map_page_possible [OF Cons.prems(1) r _ Cons.prems(2) _ here(3)] by blast
  note k = map_page_Inr [OF Cons.prems(1) r mp fl]
  have nb: "\<not> is_bootstrapping s1" using same_restD [OF k(3)] Cons.prems(2) by simp
  have "card (free_addrs (vmm_pmm s)) \<le> card (free_addrs (vmm_pmm s1)) + 3"
    by (rule map_page_leaves_free [OF Cons.prems(1) r mp fl Cons.prems(2)])
  then have room: "3 * length ps \<le> card (free_addrs (vmm_pmm s1))" using Cons.prems(3) by simp
  have later: "is_canonical (region_page base j) \<and> va_is_aligned (region_page base j)
      \<and> xlate (vmm_mem s1) root (page_path base j) = None" if j: "Suc i \<le> j" "j < Suc i + length ps" for j
  proof -
    have here_j: "is_canonical (region_page base j)" "va_is_aligned (region_page base j)"
      "xlate (vmm_mem s) root (page_path base j) = None" using Cons.prems(5) [of j] j by simp_all
    have "page_path base j \<noteq> page_path base i"
    proof
      assume "page_path base j = page_path base i"
      then have "region_page base j = region_page base i"
        using va_path_eq_iff [OF here_j(1) here(1)] same_page_aligned [OF here_j(2) here(2)] by simp
      then have "j = i" by (rule region_page_inj) (use j Cons.prems(6) in auto)
      with j show False by simp
    qed
    then show ?thesis using k(7) [OF r, of "page_path base j"] here_j by simp
  qed
  have "\<exists>s'. map_pages root base flags (Suc i) ps s1 = (True, s')"
    by (rule Cons.IH [OF k(2) nb room _ later]) (use Cons.prems in auto)
  with mp show ?case by simp
qed simp

subsection \<open>Unmapping an owned region\<close>

text \<open>The translations with the pages of a region taken out, in every root that shares their slots.\<close>

definition without_pages :: "u64 set \<Rightarrow> u64 \<Rightarrow> pt_index list set \<Rightarrow> phys_mem \<Rightarrow> phys_mem \<Rightarrow> bool" where
  "without_pages R root P m m' \<longleftrightarrow> (\<forall>r\<in>R. \<forall>q. length q = 4 \<longrightarrow> xlate m' r q =
     (if q \<in> P \<and> same_subtree root r q then None else xlate m r q))"

lemma without_pagesD:
  "without_pages R root P m m' \<Longrightarrow> r \<in> R \<Longrightarrow> length q = 4 \<Longrightarrow>
     xlate m' r q = (if q \<in> P \<and> same_subtree root r q then None else xlate m r q)"
  by (simp add: without_pages_def)

lemma without_pages_trans:
  "without_pages R root P m m' \<Longrightarrow> without_pages R root Q m' m'' \<Longrightarrow> without_pages R root (P \<union> Q) m m''"
  by (simp add: without_pages_def)

definition page_mapped :: "u64 \<Rightarrow> virt_addr \<Rightarrow> phys_page \<Rightarrow> page_flags \<Rightarrow> phys_mem \<Rightarrow> bool" where
  "page_mapped root va f flags m \<longleftrightarrow> is_canonical va \<and> va_is_aligned va
     \<and> xlate m root (va_path va) = Some (pte_set f flags, [])"

text \<open>Tables, once linked, stay linked: mapping adds tables, and unmapping clears leaf entries only.\<close>

definition keeps_tables :: "u64 set \<Rightarrow> vmm \<Rightarrow> vmm \<Rightarrow> bool" where
  "keeps_tables R s s' \<longleftrightarrow> (\<forall>r\<in>R. \<forall>q t. length q \<le> 3 \<longrightarrow> walk (vmm_mem s) r q = Some t \<longrightarrow> walk (vmm_mem s') r q = Some t)"

lemma keeps_tables_mem: "vmm_mem s' = vmm_mem s \<Longrightarrow> keeps_tables R s s'"
  by (simp add: keeps_tables_def)

lemma keeps_tables_trans: "keeps_tables R s s' \<Longrightarrow> keeps_tables R s' s'' \<Longrightarrow> keeps_tables R s s''"
  by (simp add: keeps_tables_def)

lemma map_page_keeps:
  assumes ok: "vm_ok R X s" and r: "r \<in> R" and mp: "map_page r va pa flags s = (Inr (), s')"
  shows "keeps_tables R s s'"
proof -
  have c: "map_checks va pa" using mp by (auto simp: map_page_def map_checks_def split: if_splits)
  from ok r c mp obtain s3 pt where ok3: "vm_ok R X s3" and g3: "grows R 3 s s3"
    and w: "walk (vmm_mem s3) r [pml4_index va, pdpt_index va, pd_index va] = Some pt"
    and s': "s' = s3\<lparr>vmm_mem := write_entry (vmm_mem s3) pt (pt_index_of va) (pte_set pa flags)\<rparr>"
    by (cases rule: map_page_descended) auto
  have fo: "forest (vmm_mem s3) R (avail s3 \<union> X)" using ok3 by (simp add: vm_ok_def)
  show ?thesis using g3 walk_leaf_write [OF fo r w] by (simp add: keeps_tables_def grows_def s')
qed

lemma map_pages_keeps:
  assumes "vm_ok R X s" and "root \<in> R" and "is_present flags" and "map_pages root base flags i ps s = (True, s')"
  shows "keeps_tables R s s'"
  using assms(1,4)
proof (induction ps arbitrary: i s)
  case (Cons p ps)
  obtain s1 where mp: "map_page root (region_page base i) p flags s = (Inr (), s1)"
    and rest: "map_pages root base flags (Suc i) ps s1 = (True, s')"
    using Cons.prems(2) by (auto split: prod.splits sum.splits)
  from Cons.IH [OF map_page_Inr(2) [OF Cons.prems(1) assms(2) mp assms(3)] rest]
  show ?case by (rule keeps_tables_trans [OF map_page_keeps [OF Cons.prems(1) assms(2) mp]])
qed (simp add: keeps_tables_mem)

lemma unmap_page_keeps:
  assumes ok: "vm_ok R X s" and r: "r \<in> R" and nl: "no_large_page (vmm_mem s) r va" and um: "unmap_page r va s = (Inr f, s')"
  shows "keeps_tables R s s'"
proof -
  have "is_canonical va" "va_is_aligned va" using um by (auto simp: unmap_page_def split: if_splits)
  from this nl obtain pt where w: "walk (vmm_mem s) r [pml4_index va, pdpt_index va, pd_index va] = Some pt"
    and s': "s' = s\<lparr>vmm_mem := write_entry (vmm_mem s) pt (pt_index_of va) 0\<rparr>"
    using um by (cases rule: unmap_page_walk) auto
  have fo: "forest (vmm_mem s) R (avail s \<union> X)" using ok by (simp add: vm_ok_def)
  show ?thesis using walk_leaf_write [OF fo r w] by (simp add: keeps_tables_def s')
qed

lemma unmap_owned_step:
  assumes ok: "vm_ok R X s" and r: "root \<in> R" and at: "page_mapped root (region_page (vr_start region) i) f flags (vmm_mem s)"
    and fl: "flags_clean flags" and fr: "frame_addr f" and own: "owns_physical_pages region"
    and held: "f \<in> X" and man: "f \<in> managed_addrs (vmm_pmm s)"
  defines "s' \<equiv> unmap_owned_page root region i s"
  shows "vm_ok R (X - {f}) s'" and "without_pages R root {page_path (vr_start region) i} (vmm_mem s) (vmm_mem s')"
    and "same_rest s s'" and "free_addrs (vmm_pmm s') = insert f (free_addrs (vmm_pmm s))" and "keeps_tables R s s'"
proof -
  let ?va = "region_page (vr_start region) i"
  have g: "is_canonical ?va" "va_is_aligned ?va" "xlate (vmm_mem s) root (va_path ?va) = Some (pte_set f flags, [])"
    using at by (simp_all add: page_mapped_def)
  obtain s1 where um: "unmap_page root ?va s = (Inr f, s1)"
    using unmap_page_mapped [OF g] fl fr by (auto simp: pte_phys_addr_set frame_addr_def)
  note k = unmap_page_Inr [OF ok r _ um]
  have nl: "no_large_page (vmm_mem s) root ?va" using g(3) by (simp add: no_large_page_def)
  have s1: "s1 = s\<lparr>vmm_mem := vmm_mem s1\<rparr>" and ok1: "vm_ok R ((X - {f}) \<union> set [f]) s1"
    using k(3,4) nl held by (simp_all add: insert_absorb)
  have s': "s' = s1\<lparr>vmm_pmm := release_all free_physical_page [f] (vmm_pmm s1)\<rparr>"
    using um own by (simp add: s'_def unmap_owned_page_def)
  have pm: "vmm_pmm s1 = vmm_pmm s" using arg_cong [OF s1, of vmm_pmm] by simp
  have "distinct [f]" "set [f] \<subseteq> managed_addrs (vmm_pmm s1)" "set [f] \<inter> (X - {f}) = {}" using man pm by auto
  note give = vm_ok_give_frames [OF ok1 this]
  show "vm_ok R (X - {f}) s'" unfolding s' by (rule give(1))
  show "free_addrs (vmm_pmm s') = insert f (free_addrs (vmm_pmm s))" using give(2) pm by (simp add: s')
  show "without_pages R root {page_path (vr_start region) i} (vmm_mem s) (vmm_mem s')"
    using k(6) [OF nl] by (simp add: s' without_pages_def)
  show "keeps_tables R s s'" using unmap_page_keeps [OF ok r nl um] by (simp add: s' keeps_tables_def)
  have "same_rest s s1" by (subst s1) (rule same_rest_mem)
  moreover have "managed_addrs (vmm_pmm s') = managed_addrs (vmm_pmm s1)"
    using pmm_frames.release_all_invar [of "vmm_pmm s1" "[f]"] ok1 by (simp add: s' vm_ok_def)
  ultimately show "same_rest s s'" unfolding same_rest_def s' by (cases s; cases s1) simp
qed

text \<open>Two pages with different frames have different paths.\<close>

lemma page_mapped_paths:
  assumes "page_mapped root va f flags m" and "page_mapped root va' f' flags' m" and "va_path va = va_path va'"
    and "flags_clean flags" "flags_clean flags'" and "frame_addr f" "frame_addr f'"
  shows "f = f'"
  using assms by (auto simp: page_mapped_def frame_addr_def dest: arg_cong [of _ _ pte_phys_addr] simp: pte_phys_addr_set)

lemma page_mapped_without:
  assumes "without_pages R root P m m'" and "root \<in> R" and "page_mapped root va f flags m" and "va_path va \<notin> P"
  shows "page_mapped root va f flags m'"
  using assms without_pagesD [OF assms(1,2), of "va_path va"] by (simp add: page_mapped_def)

lemma unmap_owned_fold:
  assumes "vm_ok R X s" and r: "root \<in> R"
    and "\<And>k. k < length fs \<Longrightarrow> page_mapped root (region_page (vr_start region) (i + k)) (fs ! k) flags (vmm_mem s)"
    and fl: "flags_clean flags" and "\<And>f. f \<in> set fs \<Longrightarrow> frame_addr f" and own: "owns_physical_pages region"
    and "distinct fs" and "set fs \<subseteq> X" and "set fs \<subseteq> managed_addrs (vmm_pmm s)"
  defines "s' \<equiv> fold (unmap_owned_page root region) [i ..< i + length fs] s"
  shows "vm_ok R (X - set fs) s' \<and> same_rest s s' \<and> free_addrs (vmm_pmm s') = free_addrs (vmm_pmm s) \<union> set fs
    \<and> without_pages R root (page_path (vr_start region) ` {i ..< i + length fs}) (vmm_mem s) (vmm_mem s') \<and> keeps_tables R s s'"
  using assms(1,3,5,7-9) unfolding s'_def
proof (induction fs arbitrary: i s X)
  case Nil
  then show ?case by (simp add: without_pages_def keeps_tables_mem)
next
  case (Cons f fs)
  let ?base = "vr_start region"
  let ?s1 = "unmap_owned_page root region i s"
  have here: "page_mapped root (region_page ?base i) f flags (vmm_mem s)" using Cons.prems(2) [of 0] by simp
  note k = unmap_owned_step [OF Cons.prems(1) r here fl Cons.prems(3) own]
  have k': "vm_ok R (X - {f}) ?s1" "without_pages R root {page_path ?base i} (vmm_mem s) (vmm_mem ?s1)" "same_rest s ?s1"
    "free_addrs (vmm_pmm ?s1) = insert f (free_addrs (vmm_pmm s))" "keeps_tables R s ?s1"
    using k Cons.prems(5,6) by simp_all
  have at1: "page_mapped root (region_page ?base (Suc i + j)) (fs ! j) flags (vmm_mem ?s1)" if j: "j < length fs" for j
  proof (rule page_mapped_without [OF k'(2) r])
    show m: "page_mapped root (region_page ?base (Suc i + j)) (fs ! j) flags (vmm_mem s)"
      using Cons.prems(2) [of "Suc j"] j by simp
    have "f \<noteq> fs ! j" "frame_addr f" "frame_addr (fs ! j)" using Cons.prems(3,4) j by auto
    then show "page_path ?base (Suc i + j) \<notin> {page_path ?base i}"
      using page_mapped_paths [OF here m _ fl fl] by auto
  qed
  have split: "[i ..< i + length (f # fs)] = i # [Suc i ..< Suc i + length fs]"
    using upt_conv_Cons [of i "i + length (f # fs)"] by (simp del: upt_Suc)
  have "{i ..< i + length (f # fs)} = insert i {Suc i ..< Suc i + length fs}" by auto
  then have pages: "{page_path ?base i} \<union> page_path ?base ` {Suc i ..< Suc i + length fs} = page_path ?base ` {i ..< i + length (f # fs)}"
    by simp
  let ?s2 = "fold (unmap_owned_page root region) [Suc i ..< Suc i + length fs] ?s1"
  have IH: "vm_ok R ((X - {f}) - set fs) ?s2 \<and> same_rest ?s1 ?s2
    \<and> free_addrs (vmm_pmm ?s2) = free_addrs (vmm_pmm ?s1) \<union> set fs
    \<and> without_pages R root (page_path ?base ` {Suc i ..< Suc i + length fs}) (vmm_mem ?s1) (vmm_mem ?s2) \<and> keeps_tables R ?s1 ?s2"
    by (rule Cons.IH [OF k'(1) at1]) (use Cons.prems same_restD(8) [OF k'(3)] in auto)
  then have "without_pages R root (page_path ?base ` {i ..< i + length (f # fs)}) (vmm_mem s) (vmm_mem ?s2)"
    using without_pages_trans [OF k'(2), of "page_path ?base ` {Suc i ..< Suc i + length fs}"] unfolding pages by blast
  moreover have "(X - {f}) - set fs = X - set (f # fs)" by auto
  moreover have "keeps_tables R s ?s2" using keeps_tables_trans [OF k'(5)] IH by blast
  ultimately show ?case using IH k'(3,4) unfolding split by (auto dest: same_rest_trans)
qed

text \<open>A page that is not mapped is left alone, so unmapping a region none of whose pages is mapped only unregisters it.\<close>

lemma unmap_unmapped_page:
  assumes "vm_ok R X s" and "root \<in> R" and "xlate (vmm_mem s) root (page_path (vr_start region) i) = None"
  shows "unmap_owned_page root region i s = s"
proof -
  let ?va = "region_page (vr_start region) i"
  have nl: "no_large_page (vmm_mem s) root ?va" using assms(3) by (simp add: no_large_page_def)
  obtain res s' where um: "unmap_page root ?va s = (res, s')" by fastforce
  show ?thesis
  proof (cases res)
    case (Inl e)
    then show ?thesis using unmap_page_Inl um by (simp add: unmap_owned_page_def)
  next
    case (Inr f)
    from unmap_page_Inr(5) [OF assms(1,2) nl um [unfolded Inr]] assms(3) show ?thesis by simp
  qed
qed

lemma unmap_unmapped_region:
  assumes "vm_ok R X s" and "root_pml4_phys s \<in> R"
    and "\<And>j. j < unat (vr_size region div PAGE_SIZE) \<Longrightarrow>
      xlate (vmm_mem s) (root_pml4_phys s) (page_path (vr_start region) j) = None"
  shows "unmap_region region s = unregister_region (vr_start region) s"
proof -
  have "fold (unmap_owned_page (root_pml4_phys s) region) is s = s"
    if "\<And>j. j \<in> set is \<Longrightarrow> xlate (vmm_mem s) (root_pml4_phys s) (page_path (vr_start region) j) = None" for "is"
    using that by (induction "is") (simp_all add: unmap_unmapped_page [OF assms(1,2)])
  from this [of "[0..<unat (vr_size region div PAGE_SIZE)]"] assms(3) show ?thesis by (simp add: unmap_region_def)
qed

subsection \<open>Properties of the region operations\<close>

text \<open>Mapping a region onto given frames is all or nothing: on success every page of the
  region goes to its frame with the region's permissions and nothing else changes; on failure no
  translation of any root has changed.\<close>
theorem map_region_all_or_nothing:
  assumes "vm_ok R X s" and "root_pml4_phys s \<in> R" and "\<And>f. f \<in> set frames \<Longrightarrow> frame_addr f"
    and "map_region region frames s = (res, s')"
  shows "vm_ok R X s' \<and>
    (case res of
       Inr _ \<Rightarrow> maps_region R (root_pml4_phys s) (vr_start region)
           (take (unat (vr_size region div PAGE_SIZE)) frames) (to_page_flags (vr_permissions region))
           (vmm_mem s) (vmm_mem s')
     | Inl e \<Rightarrow> (\<forall>r\<in>R. \<forall>va. mmu_translate (vmm_mem s') r va = mmu_translate (vmm_mem s) r va)
         \<and> (if length frames < unat (vr_size region div PAGE_SIZE) then e = PhysicalAllocationFailed
            else e = PageTableMappingFailed))"
proof (cases "length frames < unat (vr_size region div PAGE_SIZE)")
  case True
  then show ?thesis using assms(1,4) by (auto simp: map_region_def)
next
  case False
  let ?n = "unat (vr_size region div PAGE_SIZE)"
  let ?fl = "to_page_flags (vr_permissions region)"
  obtain b s1 where mp: "map_pages (root_pml4_phys s) (vr_start region) ?fl 0 (take ?n frames) s = (b, s1)"
    by (cases "map_pages (root_pml4_phys s) (vr_start region) ?fl 0 (take ?n frames) s")
  have "?n \<le> 2 ^ 52"
    using unat_u64_less [of "vr_size region"] by (simp add: unat_div_distrib)
  then have len: "length (take ?n frames) \<le> 2 ^ 52" by simp
  have fr: "\<And>f. f \<in> set (take ?n frames) \<Longrightarrow> frame_addr f" using assms(3) by (meson in_set_takeD)
  have k: "vm_ok R X s1 \<and> same_rest s s1 \<and> avail s1 \<subseteq> avail s
    \<and> (if b then maps_region R (root_pml4_phys s) (vr_start region) (take ?n frames) ?fl (vmm_mem s) (vmm_mem s1)
       else \<forall>r\<in>R. \<forall>va. mmu_translate (vmm_mem s1) r va = mmu_translate (vmm_mem s) r va)"
    by (rule map_pages_correct [OF assms(1,2) _ _ len fr mp]) simp_all
  have "res = (if b then Inr () else Inl PageTableMappingFailed)" "s' = s1"
    using assms(4) mp False by (auto simp: map_region_def Let_def split: bool.splits if_splits)
  with k False show ?thesis by (cases b) auto
qed

text \<open>The three ways \<^verbatim>\<open>allocate_and_map_region\<close> ends after a successful reservation.\<close>

lemma alloc_map_cases:
  assumes res: "reserve_virtual_region n perms purpose s = (Inr r, s1)"
    and am: "allocate_and_map_region n perms purpose s = (out, s')"
  obtains (nomem) p where "out = Inl PhysicalAllocationFailed" "s' = s1\<lparr>vmm_pmm := p\<rparr>"
      "p = vmm_pmm s1 \<or> alloc_loop allocate_physical_page free_physical_page
         (unat (n div PAGE_SIZE)) [] (vmm_pmm s1) = (None, p)"
  | (mapped) fs p where "unat (n div PAGE_SIZE) \<le> 128"
      "alloc_loop allocate_physical_page free_physical_page (unat (n div PAGE_SIZE)) [] (vmm_pmm s1) = (Some fs, p)"
      "map_pages (root_pml4_phys s1) (vr_start r) (to_page_flags perms) 0 fs (s1\<lparr>vmm_pmm := p\<rparr>) = (True, s')"
      "out = Inr (r\<lparr>owns_physical_pages := True\<rparr>)"
  | (failed) fs p s2 where "unat (n div PAGE_SIZE) \<le> 128"
      "alloc_loop allocate_physical_page free_physical_page (unat (n div PAGE_SIZE)) [] (vmm_pmm s1) = (Some fs, p)"
      "map_pages (root_pml4_phys s1) (vr_start r) (to_page_flags perms) 0 fs (s1\<lparr>vmm_pmm := p\<rparr>) = (False, s2)"
      "out = Inl PageTableMappingFailed"
      "s' = snd (unregister_region (vr_start r)
         (s2\<lparr>vmm_pmm := release_all free_physical_page fs (vmm_pmm s2)\<rparr>))"
proof (cases "128 < unat (n div PAGE_SIZE)")
  case True
  with res am show thesis by (intro nomem [of "vmm_pmm s1"]) (simp_all add: allocate_and_map_region_def)
next
  case False
  let ?loop = "alloc_loop allocate_physical_page free_physical_page (unat (n div PAGE_SIZE)) [] (vmm_pmm s1)"
  note d = am [unfolded allocate_and_map_region_def res and_then_simps Let_def]
  show thesis
  proof (cases ?loop)
    case (Pair fso p)
    show thesis
    proof (cases fso)
      case None
      with d Pair False show thesis by (intro nomem [of p]) simp_all
    next
      case (Some fs)
      obtain b s2 where mp: "map_pages (root_pml4_phys s1) (vr_start r) (to_page_flags perms) 0 fs
          (s1\<lparr>vmm_pmm := p\<rparr>) = (b, s2)"
        by (cases "map_pages (root_pml4_phys s1) (vr_start r) (to_page_flags perms) 0 fs (s1\<lparr>vmm_pmm := p\<rparr>)")
      show thesis
      proof (cases b)
        case True
        with d Pair Some False mp show thesis by (intro mapped [of fs p]) simp_all
      next
        case b: False
        with d Pair Some False mp show thesis by (intro failed [of fs p s2]) simp_all
      qed
    qed
  qed
qed

lemma map_frames_step:
  assumes ok: "vm_ok R X s1" and r: "root_pml4_phys s1 \<in> R"
    and al: "alloc_loop allocate_physical_page free_physical_page k [] (vmm_pmm s1) = (Some fs, p)"
    and k: "k \<le> 128"
    and mp: "map_pages (root_pml4_phys s1) base (to_page_flags perms) 0 fs (s1\<lparr>vmm_pmm := p\<rparr>) = (b, s2)"
  shows "vm_ok R (X \<union> set fs) s2" and "same_rest (s1\<lparr>vmm_pmm := p\<rparr>) s2"
    and "b \<Longrightarrow> maps_region R (root_pml4_phys s1) base fs (to_page_flags perms) (vmm_mem s1) (vmm_mem s2)"
    and "\<not> b \<Longrightarrow> r \<in> R \<Longrightarrow> mmu_translate (vmm_mem s2) r va = mmu_translate (vmm_mem s1) r va"
    and "set fs \<inter> free_addrs (vmm_pmm s2) = {}"
proof -
  note t = vm_ok_take_frames [OF ok al]
  have "length fs \<le> 2 ^ 52" using t(2) k by simp
  note c = map_pages_correct [OF t(1) r _ _ this t(7) mp]
  show ok2: "vm_ok R (X \<union> set fs) s2" and "same_rest (s1\<lparr>vmm_pmm := p\<rparr>) s2" using c by simp_all
  show "maps_region R (root_pml4_phys s1) base fs (to_page_flags perms) (vmm_mem s1) (vmm_mem s2)" if b
    using c that by simp
  show "mmu_translate (vmm_mem s2) r va = mmu_translate (vmm_mem s1) r va" if "\<not> b" "r \<in> R"
    using c that by simp
  show "set fs \<inter> free_addrs (vmm_pmm s2) = {}" using ok2 by (auto simp: vm_ok_def avail_def)
qed

lemma alloc_map_correct:
  assumes "vm_ok R X s" and "regions_inv s" and "cursor_ok s" and "root_pml4_phys s \<in> R"
    and "allocate_and_map_region n perms purpose s = (Inr r, s')"
  shows "\<exists>frames. length frames = unat (n div PAGE_SIZE) \<and> distinct frames
    \<and> set frames \<subseteq> free_addrs (vmm_pmm s) \<and> set frames \<inter> free_addrs (vmm_pmm s') = {}
    \<and> vm_ok R (X \<union> set frames) s'
    \<and> maps_region R (root_pml4_phys s) (vr_start r) frames (to_page_flags perms) (vmm_mem s) (vmm_mem s')
    \<and> vr_start r = next_dynamic_addr s \<and> vr_size r = n \<and> owns_physical_pages r
    \<and> live_vregions s' = live_vregions s @ [r\<lparr>owns_physical_pages := False\<rparr>]
    \<and> regions_inv s' \<and> cursor_ok s'"
proof -
  from assms(5) obtain r0 s1 where rs: "reserve_virtual_region n perms purpose s = (Inr r0, s1)"
    by (auto simp: allocate_and_map_region_def and_then_Inr)
  note k = reserve_step [OF assms(1-3) rs]
  from rs assms(5) show ?thesis
  proof (cases rule: alloc_map_cases)
    case (mapped fs p)
    have root: "root_pml4_phys s1 \<in> R" using assms(4) k(10) by simp
    note t = vm_ok_take_frames [OF k(1) mapped(2)]
    note f = map_frames_step [OF k(1) root mapped(2,1,3)]
    note sr = same_restD [OF f(2)]
    have r: "r = r0\<lparr>owns_physical_pages := True\<rparr>" using mapped(4) by simp
    have r0: "r\<lparr>owns_physical_pages := False\<rparr> = r0" using k(7) r by simp
    have "live_vregions s' = live_vregions s @ [r\<lparr>owns_physical_pages := False\<rparr>]" "regions_inv s'"
      using regions_cong [of s' s1] sr k(2,4) r0 by simp_all
    moreover have "cursor_ok s'" using cursor_cong [of s' s1] sr k(3) by simp
    moreover have "vr_start r = next_dynamic_addr s" "vr_size r = n" "owns_physical_pages r"
      using k(5,6) r by simp_all
    moreover have "maps_region R (root_pml4_phys s) (vr_start r) fs (to_page_flags perms) (vmm_mem s) (vmm_mem s')"
      using f(3) k(8,10) r by simp
    moreover have "set fs \<subseteq> free_addrs (vmm_pmm s)" using t(4) k(9) by simp
    ultimately show ?thesis using f(1,5) t(2,3) by blast
  qed simp_all
qed

lemma alloc_map_root:
  assumes "vm_ok R X s" and "regions_inv s" and "cursor_ok s" and "root_pml4_phys s \<in> R"
    and "allocate_and_map_region n perms purpose s = (Inr r, s')"
  shows "root_pml4_phys s' = root_pml4_phys s"
proof -
  from assms(5) obtain r0 s1 where rs: "reserve_virtual_region n perms purpose s = (Inr r0, s1)"
    by (auto simp: allocate_and_map_region_def and_then_Inr)
  note k = reserve_step [OF assms(1-3) rs]
  from rs assms(5) show ?thesis
  proof (cases rule: alloc_map_cases)
    case (mapped fs p)
    have root: "root_pml4_phys s1 \<in> R" using assms(4) k(10) by simp
    show ?thesis using same_restD [OF map_frames_step(2) [OF k(1) root mapped(2,1,3)]] k(10) by simp
  qed simp_all
qed

text \<open>C21. On success, \<^verbatim>\<open>allocate_and_map_region\<close> returns the block at the dynamic cursor, backed
  by frames that were free, are pairwise distinct, hold no page table and are free no longer; every
  page of the block translates to its frame with the requested permissions and no other
  translation changes.\<close>
theorem allocate_and_map_region_maps:
  assumes "vm_ok R X s" and "regions_inv s" and "cursor_ok s" and "root_pml4_phys s \<in> R"
    and "allocate_and_map_region n perms purpose s = (Inr r, s')"
  shows "\<exists>frames. length frames = unat (n div PAGE_SIZE) \<and> distinct frames
    \<and> set frames \<subseteq> free_addrs (vmm_pmm s) \<and> set frames \<inter> free_addrs (vmm_pmm s') = {}
    \<and> vm_ok R (X \<union> set frames) s'
    \<and> maps_region R (root_pml4_phys s) (vr_start r) frames (to_page_flags perms) (vmm_mem s) (vmm_mem s')
    \<and> vr_start r = next_dynamic_addr s \<and> vr_size r = n \<and> owns_physical_pages r
    \<and> live_vregions s' = live_vregions s @ [r\<lparr>owns_physical_pages := False\<rparr>]
    \<and> regions_inv s' \<and> cursor_ok s'"
  by (rule alloc_map_correct [OF assms])

text \<open>When \<^verbatim>\<open>allocate_and_map_region\<close> fails, no translation of any root has changed, every
  frame it took is free again except those now used by page tables, and the table invariant holds.
  If mapping failed the reservation is undone; if the frames ran out (or more than 128 pages were
  asked for) the reserved region stays in the table.\<close>
theorem allocate_and_map_region_failure:
  assumes "vm_ok R X s" and "regions_inv s" and "cursor_ok s" and "root_pml4_phys s \<in> R"
    and "allocate_and_map_region n perms purpose s = (Inl e, s')"
  shows "vm_ok R X s' \<and> regions_inv s' \<and> cursor_ok s'
    \<and> (\<forall>r\<in>R. \<forall>va. mmu_translate (vmm_mem s') r va = mmu_translate (vmm_mem s) r va)
    \<and> (if e = PageTableMappingFailed then mset (live_vregions s') = mset (live_vregions s)
       else if e = PhysicalAllocationFailed
       then free_addrs (vmm_pmm s') = free_addrs (vmm_pmm s)
         \<and> (\<exists>r. vr_start r = next_dynamic_addr s \<and> vr_size r = n
              \<and> live_vregions s' = live_vregions s @ [r])
       else s' = s)"
proof (cases "reserve_virtual_region n perms purpose s")
  case (Pair res s1)
  show ?thesis
  proof (cases res)
    case (Inl e')
    with Pair assms(5) have e: "e' = e" "s1 = s'" by (simp_all add: allocate_and_map_region_def)
    with Pair Inl have rs: "reserve_virtual_region n perms purpose s = (Inl e, s')" by simp
    from reserve_facts [OF assms(2,3) rs] assms(1-3) show ?thesis by auto
  next
    case (Inr r0)
    with Pair have rs: "reserve_virtual_region n perms purpose s = (Inr r0, s1)" by simp
    note k = reserve_step [OF assms(1-3) rs]
    have root: "root_pml4_phys s1 \<in> R" using assms(4) k(10) by simp
    from rs assms(5) show ?thesis
    proof (cases rule: alloc_map_cases)
      case (nomem p)
      have inv: "pmm_inv (vmm_pmm s1)" using k(1) by (simp add: vm_ok_def)
      have p: "pmm_inv p \<and> free_addrs p = free_addrs (vmm_pmm s1)"
        using nomem(3) inv pmm_frames.alloc_loop_None [OF inv] by fastforce
      then have "vm_ok R X s'" using vm_ok_same_free [OF k(1)] nomem(2) by simp
      moreover have "regions_inv s'" "cursor_ok s'" "live_vregions s' = live_vregions s @ [r0]"
        using k nomem(2) regions_cong [of s' s1] cursor_cong [of s' s1] by simp_all
      ultimately show ?thesis using nomem(1,2) k p by auto
    next
      case (failed fs p s2)
      note t = vm_ok_take_frames [OF k(1) failed(2)]
      note f = map_frames_step [OF k(1) root failed(2,1,3)]
      note sr = same_restD [OF f(2)]
      let ?s3 = "s2\<lparr>vmm_pmm := release_all free_physical_page fs (vmm_pmm s2)\<rparr>"
      have man: "set fs \<subseteq> managed_addrs (vmm_pmm s2)"
      proof -
        have "pmm_inv (vmm_pmm s1)" using k(1) by (simp add: vm_ok_def)
        from pmm_frames.frees_managed [OF this] t(4,6) sr(8) show ?thesis by auto
      qed
      have "set fs \<inter> X = {}" using t(4) k(1) by (auto simp: vm_ok_def avail_def)
      from vm_ok_give_frames [OF f(1) t(3) man this] have ok3: "vm_ok R X ?s3" by simp
      have reg3: "live_vregions ?s3 = live_vregions s @ [r0]" "regions_inv ?s3" "cursor_ok ?s3"
        using k regions_cong [of ?s3 s1] cursor_cong [of ?s3 s1] sr by simp_all
      obtain res4 s4 where u: "unregister_region (vr_start r0) ?s3 = (res4, s4)"
        by (cases "unregister_region (vr_start r0) ?s3")
      then have s': "s' = s4" using failed(5) by simp
      note um = unregister_same_memory [OF u]
      have "vm_ok R X s4" using vm_ok_cong(1) [OF um(1-5)] ok3 by simp
      moreover have "cursor_ok s4" using cursor_cong [OF um(6)] reg3(3) by simp
      moreover have "mmu_translate (vmm_mem s4) r va = mmu_translate (vmm_mem s) r va" if "r \<in> R" for r va
        using f(4) [of r va] that um(1) k(8) by simp
      ultimately show ?thesis
        using unregister_last [OF reg3(2,1) u] failed(4) s' by simp
    qed simp
  qed
qed

subsection \<open>Regions in use\<close>

text \<open>A region with the frames that back it, in terms of the present state only, so that several regions can be held at once
  and given back in any order: the frames are among those the memory manager has handed out and each page translates to its
  frame.\<close>

definition region_held :: "u64 set \<Rightarrow> u64 set \<Rightarrow> virt_region \<Rightarrow> phys_page list \<Rightarrow> vmm \<Rightarrow> bool" where
  "region_held R X r fs s \<longleftrightarrow> vm_ok R X s \<and> root_pml4_phys s \<in> R \<and> set fs \<subseteq> X \<and> set fs \<subseteq> managed_addrs (vmm_pmm s)
     \<and> distinct fs \<and> (\<forall>f \<in> set fs. frame_addr f) \<and> length fs = unat (vr_size r div PAGE_SIZE) \<and> owns_physical_pages r
     \<and> (\<forall>j < length fs. page_mapped (root_pml4_phys s) (region_page (vr_start r) j) (fs ! j)
          (to_page_flags (vr_permissions r)) (vmm_mem s))"

abbreviation region_paths :: "virt_region \<Rightarrow> pt_index list set" where
  "region_paths r \<equiv> page_path (vr_start r) ` {0 ..< unat (vr_size r div PAGE_SIZE)}"

lemma vm_ok_data:
  assumes "vm_ok R X s" and "\<And>t. t \<notin> X \<Longrightarrow> m t = vmm_mem s t"
  shows "vm_ok R X (s\<lparr>vmm_mem := m\<rparr>)"
    and "r \<in> R \<Longrightarrow> length q \<le> 4 \<Longrightarrow> xlate m r q = xlate (vmm_mem s) r q"
proof -
  have fo: "forest (vmm_mem s) R (avail s \<union> X)" using assms(1) by (simp add: vm_ok_def)
  have eq: "\<And>t. t \<notin> avail s \<union> X \<Longrightarrow> m t = vmm_mem s t" using assms(2) by simp
  from forest_unreached [OF fo eq] show "vm_ok R X (s\<lparr>vmm_mem := m\<rparr>)"
    using assms(1) by (simp add: vm_ok_def pool_ok_mem avail_mem)
  show "r \<in> R \<Longrightarrow> length q \<le> 4 \<Longrightarrow> xlate m r q = xlate (vmm_mem s) r q" by (rule xlate_unreached [OF fo eq])
qed

text \<open>What keeps a region held: its frames stay handed out and its pages stay mapped.\<close>

lemma region_held_step:
  assumes "region_held R X r fs s" and "vm_ok R X' s'" and "root_pml4_phys s' = root_pml4_phys s" and "set fs \<subseteq> X'"
    and "managed_addrs (vmm_pmm s') = managed_addrs (vmm_pmm s)"
    and "\<And>j. j < length fs \<Longrightarrow> xlate (vmm_mem s') (root_pml4_phys s) (page_path (vr_start r) j)
      = xlate (vmm_mem s) (root_pml4_phys s) (page_path (vr_start r) j)"
  shows "region_held R X' r fs s'"
  using assms by (simp add: region_held_def page_mapped_def)

lemma region_held_data:
  assumes "region_held R X r fs s" and "\<And>t. t \<notin> X \<Longrightarrow> m t = vmm_mem s t"
  shows "region_held R X r fs (s\<lparr>vmm_mem := m\<rparr>)"
proof (rule region_held_step [OF assms(1)])
  have ok: "vm_ok R X s" and root: "root_pml4_phys s \<in> R" and sub: "set fs \<subseteq> X" using assms(1) by (auto simp: region_held_def)
  show "vm_ok R X (s\<lparr>vmm_mem := m\<rparr>)" by (rule vm_ok_data(1) [OF ok assms(2)])
  show "set fs \<subseteq> X" by (rule sub)
  show "xlate (vmm_mem (s\<lparr>vmm_mem := m\<rparr>)) (root_pml4_phys s) (page_path (vr_start r) j)
      = xlate (vmm_mem s) (root_pml4_phys s) (page_path (vr_start r) j)" for j
    using vm_ok_data(2) [OF ok assms(2) root, of "page_path (vr_start r) j"] by simp
qed simp_all

lemma region_held_overlay:
  assumes ov: "overlay R root (leaf_map (vr_start r) flags 0 fs Map.empty) m0 m" and root: "root \<in> R"
    and good: "\<And>j. j < length fs \<Longrightarrow> good_page R root m0 (region_page (vr_start r) j)"
    and len: "length fs \<le> 2 ^ 52"
  shows "\<And>j. j < length fs \<Longrightarrow> page_mapped root (region_page (vr_start r) j) (fs ! j) flags m"
    and "without_pages R root (page_path (vr_start r) ` {0 ..< length fs}) m m0"
proof -
  let ?lm = "leaf_map (vr_start r) flags 0 fs Map.empty"
  show "page_mapped root (region_page (vr_start r) j) (fs ! j) flags m" if j: "j < length fs" for j
    using leaf_map_page [of 0 fs R root m0 "vr_start r" j flags Map.empty] overlayD [OF ov root, of "page_path (vr_start r) j"]
      good [OF j] good len j by (simp add: page_mapped_def good_page_def same_subtree_def)
  show "without_pages R root (page_path (vr_start r) ` {0 ..< length fs}) m m0"
    unfolding without_pages_def
  proof (intro ballI allI impI)
    fix r' and q :: "pt_index list" assume r': "r' \<in> R" and q: "length q = 4"
    show "xlate m0 r' q = (if q \<in> page_path (vr_start r) ` {0 ..< length fs} \<and> same_subtree root r' q then None else xlate m r' q)"
    proof (cases "q \<in> page_path (vr_start r) ` {0 ..< length fs}")
      case True
      then show ?thesis using good r' overlayD [OF ov r' q] by (auto simp: good_page_def free_slots_def)
    next
      case False
      then show ?thesis using leaf_map_other [of q "vr_start r" 0 fs flags Map.empty] overlayD [OF ov r' q] by auto
    qed
  qed
qed

lemma alloc_map_held:
  assumes "vm_ok R X s" and "regions_inv s" and "cursor_ok s" and "root_pml4_phys s \<in> R"
    and "allocate_and_map_region n perms purpose s = (Inr r, s1)"
  obtains fs where "region_held R (X \<union> set fs) r fs s1" and "set fs \<subseteq> free_addrs (vmm_pmm s)" and "set fs \<inter> X = {}"
    and "without_pages R (root_pml4_phys s) (region_paths r) (vmm_mem s1) (vmm_mem s)"
    and "root_pml4_phys s1 = root_pml4_phys s" and "cr3 s1 = cr3 s" and "is_bootstrapping s1 = is_bootstrapping s"
    and "managed_addrs (vmm_pmm s1) = managed_addrs (vmm_pmm s)"
    and "vr_start r = next_dynamic_addr s" and "vr_size r = n" and "vr_permissions r = perms"
    and "live_vregions s1 = live_vregions s @ [r\<lparr>owns_physical_pages := False\<rparr>]"
    and "regions_inv s1" and "cursor_ok s1" and "next_dynamic_addr s1 = next_dynamic_addr s + n"
proof -
  from assms(5) obtain r0 s0 where rs: "reserve_virtual_region n perms purpose s = (Inr r0, s0)"
    by (auto simp: allocate_and_map_region_def and_then_Inr)
  note k = reserve_step [OF assms(1-3) rs]
  from assms(3) rs have r0: "vr_permissions r0 = perms" "cr3 s0 = cr3 s" "next_dynamic_addr s0 = next_dynamic_addr s + n"
    by (cases rule: reserve_cases; auto simp: push_vregion_def)+
  from rs assms(5) obtain fs p where n: "unat (n div PAGE_SIZE) \<le> 128"
    and al: "alloc_loop allocate_physical_page free_physical_page (unat (n div PAGE_SIZE)) [] (vmm_pmm s0) = (Some fs, p)"
    and mp: "map_pages (root_pml4_phys s0) (vr_start r0) (to_page_flags perms) 0 fs (s0\<lparr>vmm_pmm := p\<rparr>) = (True, s1)"
    and r: "r = r0\<lparr>owns_physical_pages := True\<rparr>"
    by (cases rule: alloc_map_cases) auto
  let ?root = "root_pml4_phys s" let ?fl = "to_page_flags perms"
  have root: "root_pml4_phys s0 \<in> R" using assms(4) k(10) by simp
  note t = vm_ok_take_frames [OF k(1) al]
  have mo: "vm_ok R (X \<union> set fs) s1 \<and> same_rest (s0\<lparr>vmm_pmm := p\<rparr>) s1
    \<and> overlay R ?root (leaf_map (vr_start r) ?fl 0 fs Map.empty) (vmm_mem s) (vmm_mem s1)
    \<and> (\<forall>j < length fs. good_page R ?root (vmm_mem s) (region_page (vr_start r) j))"
    using map_pages_overlay [OF t(1) root _ _ _ _ mp, of Map.empty "vmm_mem s"] overlay_refl k(8,10) r by simp
  note sr = same_restD [OF conjunct1 [OF conjunct2 [OF mo]]]
  have len: "length fs \<le> 2 ^ 52" using t(2) n by simp
  note h = region_held_overlay [OF _ assms(4) _ len, of r ?fl "vmm_mem s" "vmm_mem s1"]
  have sz: "vr_size r = n" "owns_physical_pages r" "vr_permissions r = perms" "r\<lparr>owns_physical_pages := False\<rparr> = r0"
    using k(6,7) r r0 by simp_all
  have man: "set fs \<subseteq> managed_addrs (vmm_pmm s1)"
  proof -
    have "pmm_inv (vmm_pmm s0)" using k(1) by (simp add: vm_ok_def)
    from pmm_frames.frees_managed [OF this] t(4,6) sr(8) show ?thesis by auto
  qed
  have m1: "page_mapped ?root (region_page (vr_start r) j) (fs ! j) ?fl (vmm_mem s1)" if "j < length fs" for j
    using h(1) mo that by blast
  have m2: "without_pages R ?root (page_path (vr_start r) ` {0..<length fs}) (vmm_mem s1) (vmm_mem s)"
    using h(2) mo by blast
  have held: "region_held R (X \<union> set fs) r fs s1"
    unfolding region_held_def using mo assms(4) k(10) t(2,3,7) man sr(3) sz m1 by auto
  have live: "live_vregions s1 = live_vregions s @ [r\<lparr>owns_physical_pages := False\<rparr>]" "regions_inv s1" "cursor_ok s1"
    using regions_cong [of s1 s0] cursor_cong [of s1 s0] sr k(2-4) sz(4) by simp_all
  have dis: "set fs \<inter> X = {}" using t(4) k(1) by (auto simp: vm_ok_def avail_def)
  have mem0: "is_bootstrapping s0 = is_bootstrapping s" using reserve_same_memory(5) [OF rs] .
  show thesis
    by (rule that [OF held _ dis _ _ _ _ _ _ sz(1,3) live]) (use t(2,4,6) k(5,9,10) m2 sr r0 mem0 r sz in auto)
qed

lemma unregister_held:
  assumes inv: "regions_inv s" and mem: "r \<in> set (live_vregions s)"
  obtains s' where "unregister_region (vr_start r) s = (Inr (), s')" and "regions_inv s'"
    and "mset (live_vregions s) = add_mset r (mset (live_vregions s'))"
proof -
  obtain res s' where u: "unregister_region (vr_start r) s = (res, s')" by fastforce
  note k = unregister_facts [OF inv u]
  with mem obtain r' where r': "res = Inr ()" "r' \<in> set (live_vregions s)" "vr_start r' = vr_start r"
    "mset (live_vregions s) = add_mset r' (mset (live_vregions s'))" by (cases res) auto
  have "r' = r"
    using live_unique [OF inv r'(2) mem, of "unat (vr_start r)"] r'(3)
      start_in_addrs [OF live_valid [OF inv mem]] start_in_addrs [OF live_valid [OF inv r'(2)]] by simp
  then show thesis using that u k r' by simp
qed

lemma unmap_held:
  assumes h: "region_held R X r fs s" and inv: "regions_inv s" and live: "r\<lparr>owns_physical_pages := False\<rparr> \<in> set (live_vregions s)"
  obtains s' where "unmap_region r s = (Inr (), s')" and "vm_ok R (X - set fs) s'"
    and "free_addrs (vmm_pmm s') = free_addrs (vmm_pmm s) \<union> set fs"
    and "without_pages R (root_pml4_phys s) (region_paths r) (vmm_mem s) (vmm_mem s')"
    and "regions_inv s'" and "mset (live_vregions s) = add_mset (r\<lparr>owns_physical_pages := False\<rparr>) (mset (live_vregions s'))"
    and "root_pml4_phys s' = root_pml4_phys s" and "cr3 s' = cr3 s" and "is_bootstrapping s' = is_bootstrapping s"
    and "managed_addrs (vmm_pmm s') = managed_addrs (vmm_pmm s)" and "next_dynamic_addr s' = next_dynamic_addr s" and "keeps_tables R s s'"
proof -
  let ?fl = "to_page_flags (vr_permissions r)" and ?root = "root_pml4_phys s"
  let ?s1 = "fold (unmap_owned_page ?root r) [0 ..< length fs] s"
  note d = h [unfolded region_held_def]
  have f: "vm_ok R (X - set fs) ?s1 \<and> same_rest s ?s1 \<and> free_addrs (vmm_pmm ?s1) = free_addrs (vmm_pmm s) \<union> set fs
    \<and> without_pages R ?root (page_path (vr_start r) ` {0 ..< length fs}) (vmm_mem s) (vmm_mem ?s1) \<and> keeps_tables R s ?s1"
    using unmap_owned_fold [of R X s ?root fs r 0 ?fl] d by simp
  note sr = same_restD [OF conjunct1 [OF conjunct2 [OF f]]]
  have reg: "regions_inv ?s1" "live_vregions ?s1 = live_vregions s" using regions_cong [of ?s1 s] sr inv by simp_all
  obtain s' where u: "unregister_region (vr_start r) ?s1 = (Inr (), s')" "regions_inv s'"
    "mset (live_vregions s) = add_mset (r\<lparr>owns_physical_pages := False\<rparr>) (mset (live_vregions s'))"
    using unregister_held [OF reg(1), of "r\<lparr>owns_physical_pages := False\<rparr>"] live reg(2) by auto
  note um = unregister_same_memory [OF u(1)]
  have same: "root_pml4_phys s' = root_pml4_phys ?s1" "cr3 s' = cr3 ?s1"
    using u(1) by (auto simp: unregister_region_def Let_def split: option.splits)
  have "unmap_region r s = (Inr (), s')" using u(1) d by (simp add: unmap_region_def)
  moreover have "vm_ok R (X - set fs) s'" using vm_ok_cong(1) [OF um(1-5)] f by simp
  moreover have "keeps_tables R s s'" using f um(1) by (simp add: keeps_tables_def)
  ultimately show thesis using that f u(2,3) um same sr d by simp
qed

text \<open>C22. Unmapping a region that \<^verbatim>\<open>allocate_and_map_region\<close> gave out undoes it, whatever was stored in its
  frames meanwhile, except that page tables created for it stay allocated: the call succeeds, every translation of every root is as before, every backing frame is free again
  and the live regions are those from before.\<close>
theorem unmap_region_undoes_allocation:
  assumes "vm_ok R X s" and "regions_inv s" and "cursor_ok s" and "root_pml4_phys s \<in> R"
    and "allocate_and_map_region n perms purpose s = (Inr r, s1)"
  shows "\<exists>frames. length frames = unat (n div PAGE_SIZE) \<and> set frames \<subseteq> free_addrs (vmm_pmm s)
    \<and> (\<forall>m. (\<forall>t. t \<notin> set frames \<longrightarrow> m t = vmm_mem s1 t) \<longrightarrow> (\<exists>s2. unmap_region r (s1\<lparr>vmm_mem := m\<rparr>) = (Inr (), s2)
        \<and> free_addrs (vmm_pmm s2) = free_addrs (vmm_pmm s1) \<union> set frames
        \<and> vm_ok R X s2 \<and> regions_inv s2
        \<and> (\<forall>r\<in>R. \<forall>va. mmu_translate (vmm_mem s2) r va = mmu_translate (vmm_mem s) r va)
        \<and> mset (live_vregions s2) = mset (live_vregions s)))"
proof -
  obtain fs where h: "region_held R (X \<union> set fs) r fs s1" "set fs \<subseteq> free_addrs (vmm_pmm s)" "set fs \<inter> X = {}"
    "without_pages R (root_pml4_phys s) (region_paths r) (vmm_mem s1) (vmm_mem s)" "root_pml4_phys s1 = root_pml4_phys s"
    "vr_size r = n" "live_vregions s1 = live_vregions s @ [r\<lparr>owns_physical_pages := False\<rparr>]" "regions_inv s1"
    by (rule alloc_map_held [OF assms])
  have "\<exists>s2. unmap_region r (s1\<lparr>vmm_mem := m\<rparr>) = (Inr (), s2)
        \<and> free_addrs (vmm_pmm s2) = free_addrs (vmm_pmm s1) \<union> set fs \<and> vm_ok R X s2 \<and> regions_inv s2
        \<and> (\<forall>r\<in>R. \<forall>va. mmu_translate (vmm_mem s2) r va = mmu_translate (vmm_mem s) r va)
        \<and> mset (live_vregions s2) = mset (live_vregions s)" if m: "\<And>t. t \<notin> set fs \<Longrightarrow> m t = vmm_mem s1 t" for m
  proof -
    let ?s = "s1\<lparr>vmm_mem := m\<rparr>"
    have held: "region_held R (X \<union> set fs) r fs ?s" by (rule region_held_data [OF h(1)]) (use m in simp)
    have reg: "regions_inv ?s" "live_vregions ?s = live_vregions s1" using regions_cong [of ?s s1] h(8) by simp_all
    have "r\<lparr>owns_physical_pages := False\<rparr> \<in> set (live_vregions ?s)" using reg(2) h(7) by simp
    then obtain s2 where u: "unmap_region r ?s = (Inr (), s2)" "vm_ok R ((X \<union> set fs) - set fs) s2"
      "free_addrs (vmm_pmm s2) = free_addrs (vmm_pmm ?s) \<union> set fs"
      "without_pages R (root_pml4_phys ?s) (region_paths r) (vmm_mem ?s) (vmm_mem s2)" "regions_inv s2"
      "mset (live_vregions ?s) = add_mset (r\<lparr>owns_physical_pages := False\<rparr>) (mset (live_vregions s2))"
      by (rule unmap_held [OF held reg(1)])
    have "xlate (vmm_mem s2) r' q = xlate (vmm_mem s) r' q" if r': "r' \<in> R" "length q = 4" for r' q
    proof -
      have "xlate m r' q = xlate (vmm_mem s1) r' q"
        by (rule vm_ok_data(2) [of R "X \<union> set fs"]) (use h(1) m r' in \<open>simp_all add: region_held_def\<close>)
      then show ?thesis using without_pagesD [OF u(4) r'] without_pagesD [OF h(4) r'] h(5) by simp
    qed
    then have "\<forall>r\<in>R. \<forall>va. mmu_translate (vmm_mem s2) r va = mmu_translate (vmm_mem s) r va" by (intro ballI allI mmu_cong) simp
    moreover have "(X \<union> set fs) - set fs = X" using h(3) by auto
    moreover have "mset (live_vregions s2) = mset (live_vregions s)" using u(6) reg(2) h(7) by simp
    ultimately show ?thesis using u(1-3,5) by simp
  qed
  moreover have "length fs = unat (n div PAGE_SIZE)" using h(1,6) by (simp add: region_held_def)
  ultimately show ?thesis using h(2) by blast
qed

text \<open>The pages of a block inside the dynamic range are canonical and aligned.\<close>

lemma dynamic_page_ok:
  assumes "va_is_aligned base" and "DYNAMIC_VIRT_START \<le> base" and "unat base + n * 4096 < 2 ^ 64" and "j < n"
  shows "is_canonical (region_page base j)" and "va_is_aligned (region_page base j)"
    and "unat (region_page base j) = unat base + j * 4096"
proof -
  have j: "unat (of_nat j * PAGE_SIZE :: u64) = j * 4096"
    using assms(3,4) by (subst unat_mult_u64) (simp_all add: unat_of_nat take_bit_nat_eq_self)
  then have "unat base + unat (of_nat j * PAGE_SIZE :: u64) < 2 ^ 64" using assms(3,4) by simp
  from unat_add_u64 [OF this] j show u: "unat (region_page base j) = unat base + j * 4096"
    by (simp add: region_page_def)
  have "DYNAMIC_VIRT_START \<le> region_page base j" using assms(2) u by (simp add: word_le_nat_alt)
  then show "is_canonical (region_page base j)" by (rule high_canonical)
  show "va_is_aligned (region_page base j)"
    using assms(1) u by (simp add: va_is_aligned_def aligned_iff_dvd)
qed

lemma alloc_map_possible:
  assumes "vm_ok R X s" and "regions_inv s" and "cursor_ok s" and "root_pml4_phys s \<in> R"
    and "\<not> is_bootstrapping s" and "n \<noteq> 0" and "n mod PAGE_SIZE = 0" and "unat (n div PAGE_SIZE) \<le> 128"
    and "unat (next_dynamic_addr s) + unat n \<le> unat DYNAMIC_VIRT_END"
    and "\<forall>r \<in> set (live_vregions s). \<not> vr_overlaps r (next_dynamic_addr s) n"
    and "vmm_region_count s < MAX_VIRT_REGIONS"
    and "4 * unat (n div PAGE_SIZE) \<le> card (free_addrs (vmm_pmm s))"
    and "\<And>j. j < unat (n div PAGE_SIZE) \<Longrightarrow>
      xlate (vmm_mem s) (root_pml4_phys s) (va_path (region_page (next_dynamic_addr s) j)) = None"
  shows "\<exists>r s'. allocate_and_map_region n perms purpose s = (Inr r, s')"
proof -
  let ?k = "unat (n div PAGE_SIZE)"
  obtain res s1 where rs0: "reserve_virtual_region n perms purpose s = (res, s1)"
    by (cases "reserve_virtual_region n perms purpose s")
  from assms(3) rs0 obtain r0 where r0: "res = Inr r0"
    by (cases rule: reserve_cases) (use assms(6,7,9,10,11) in auto)
  then have rs: "reserve_virtual_region n perms purpose s = (Inr r0, s1)" using rs0 by simp
  note k = reserve_step [OF assms(1-3) rs]
  have inv: "pmm_inv (vmm_pmm s1)" using k(1) by (simp add: vm_ok_def)
  have "?k \<le> card (free_addrs (vmm_pmm s1))" using assms(12) k(9) by simp
  from pmm_frames.alloc_loop_progress [OF inv this] obtain fs p where
    al: "alloc_loop allocate_physical_page free_physical_page ?k [] (vmm_pmm s1) = (Some fs, p)" by blast
  note t = vm_ok_take_frames [OF k(1) al]
  have len: "length fs = ?k" by (rule t(2))
  have card: "3 * length fs \<le> card (free_addrs p)"
  proof -
    have "card (free_addrs p) = card (free_addrs (vmm_pmm s1)) - card (set fs)"
      unfolding t(5) by (rule card_Diff_subset) (use t(4) in auto)
    moreover have "card (set fs) = ?k" using t(3) len by (simp add: distinct_card)
    ultimately show ?thesis using assms(12) k(9) len by simp
  qed
  have unat_n: "unat n = ?k * 4096"
  proof -
    have "4096 dvd unat n" by (rule aligned_iff_dvd [THEN iffD1, OF assms(7)])
    then show ?thesis by (simp add: unat_div_distrib)
  qed
  have bound: "unat (vr_start r0) + ?k * 4096 < 2 ^ 64"
    using assms(9) unat_n unat_u64_less [of DYNAMIC_VIRT_END] unfolding k(5) by linarith
  have st: "va_is_aligned (vr_start r0)" "DYNAMIC_VIRT_START \<le> vr_start r0"
    using assms(3) k(5) by (simp_all add: cursor_ok_def)
  have "\<exists>s'. map_pages (root_pml4_phys s1) (vr_start r0) (to_page_flags perms) 0 fs (s1\<lparr>vmm_pmm := p\<rparr>) = (True, s')"
  proof (rule map_pages_succeeds [OF t(1)])
    show "root_pml4_phys s1 \<in> R" using assms(4) k(10) by simp
    show "\<not> is_bootstrapping (s1\<lparr>vmm_pmm := p\<rparr>)"
      using assms(5) reserve_same_memory(5) [OF rs] by simp
    show "3 * length fs \<le> card (free_addrs (vmm_pmm (s1\<lparr>vmm_pmm := p\<rparr>)))" using card by simp
    show "f mod PAGE_SIZE = 0" if "f \<in> set fs" for f
    proof -
      have "pte_phys_addr f = f" using t(7) [OF that] by (simp add: frame_addr_def)
      then have "\<not> bit f i" if "i < 12" for i using bit_phys_addr [of f i] that by simp
      then show ?thesis by (simp add: aligned_bits)
    qed
    show "is_canonical (region_page (vr_start r0) j) \<and> va_is_aligned (region_page (vr_start r0) j)
      \<and> xlate (vmm_mem (s1\<lparr>vmm_pmm := p\<rparr>)) (root_pml4_phys s1) (page_path (vr_start r0) j) = None"
      if "0 \<le> j" "j < 0 + length fs" for j
      using dynamic_page_ok [OF st bound] assms(13) that len k(5,8,10) by simp
  qed (use len assms(8) in simp_all)
  then obtain s' where "map_pages (root_pml4_phys s1) (vr_start r0) (to_page_flags perms) 0 fs
      (s1\<lparr>vmm_pmm := p\<rparr>) = (True, s')" by blast
  with rs al assms(8) show ?thesis by (simp add: allocate_and_map_region_def Let_def)
qed

text \<open>\<^verbatim>\<open>allocate_and_map_region\<close> does succeed: for a positive page-multiple size of at most
  128 pages that fits below the end of the dynamic range, conflicts with no live region, with a free
  table slot, the block unmapped and four frames free per page (its own and at most three tables).\<close>
theorem allocate_and_map_region_succeeds:
  assumes "vm_ok R X s" and "regions_inv s" and "cursor_ok s" and "root_pml4_phys s \<in> R"
    and "\<not> is_bootstrapping s" and "n \<noteq> 0" and "n mod PAGE_SIZE = 0" and "unat (n div PAGE_SIZE) \<le> 128"
    and "unat (next_dynamic_addr s) + unat n \<le> unat DYNAMIC_VIRT_END"
    and "\<forall>r \<in> set (live_vregions s). \<not> vr_overlaps r (next_dynamic_addr s) n"
    and "vmm_region_count s < MAX_VIRT_REGIONS"
    and "4 * unat (n div PAGE_SIZE) \<le> card (free_addrs (vmm_pmm s))"
    and "\<And>j. j < unat (n div PAGE_SIZE) \<Longrightarrow>
      xlate (vmm_mem s) (root_pml4_phys s) (va_path (region_page (next_dynamic_addr s) j)) = None"
  shows "\<exists>r s'. allocate_and_map_region n perms purpose s = (Inr r, s')"
  by (rule alloc_map_possible [OF assms])

subsection \<open>Concrete instances\<close>

lemma sample_vm_fields:
  "root_pml4_phys sample_vm = 0x100000" "next_dynamic_addr sample_vm = DYNAMIC_VIRT_START"
  "vmm_region_count sample_vm = 0" "is_bootstrapping sample_vm = False"
  "free_addrs (vmm_pmm sample_vm) = {0x1000, 0x2000, 0x4000, 0x5000, 0x6000, 0x7000}"
  by (simp_all add: sample_vm_def sample_free_addrs)

lemmas sample_vm_facts = sample_vm_ok sample_regions_inv sample_cursor_ok

lemma sample_room:
  "(0x1000 :: u64) \<noteq> 0" "(0x1000 :: u64) mod PAGE_SIZE = 0" "unat ((0x1000 :: u64) div PAGE_SIZE) = 1"
  "unat (next_dynamic_addr sample_vm) + unat (0x1000 :: u64) \<le> unat DYNAMIC_VIRT_END"
  "\<forall>r \<in> set (live_vregions sample_vm). \<not> vr_overlaps r (next_dynamic_addr sample_vm) 0x1000"
  "vmm_region_count sample_vm < MAX_VIRT_REGIONS" "root_pml4_phys sample_vm \<in> {0x100000}"
  "4 * unat ((0x1000 :: u64) div PAGE_SIZE) \<le> card (free_addrs (vmm_pmm sample_vm))"
  by (simp_all add: sample_vm_fields sample_live kernel_consts)

lemma sample_alloc_map:
  obtains r s' where "allocate_and_map_region 0x1000 PERM_KERNEL_DATA DynamicKernel sample_vm = (Inr r, s')"
  using alloc_map_possible [OF sample_vm_facts sample_room(7) _ sample_room(1,2) _ sample_room(4-6,8)]
    sample_room(3) sample_vm_unmapped sample_vm_fields(4) by (metis one_le_numeral)

theorem map_region_all_or_nothing_witness:
  "vm_ok {0x100000} {} sample_vm \<and> map_region sample_region [] sample_vm = (Inl PhysicalAllocationFailed, sample_vm)"
proof -
  have mr: "map_region sample_region [] sample_vm = (Inl PhysicalAllocationFailed, sample_vm)"
    by (simp add: map_region_def sample_region_def)
  from map_region_all_or_nothing [OF sample_vm_ok sample_room(7) _ mr] mr show ?thesis by simp
qed

theorem allocate_and_map_region_maps_witness:
  "\<exists>r s' frames. allocate_and_map_region 0x1000 PERM_KERNEL_DATA DynamicKernel sample_vm = (Inr r, s')
     \<and> length frames = 1 \<and> vr_start r = DYNAMIC_VIRT_START
     \<and> maps_region {0x100000} 0x100000 (vr_start r) frames (to_page_flags PERM_KERNEL_DATA)
         (vmm_mem sample_vm) (vmm_mem s')"
proof -
  obtain r s' where am: "allocate_and_map_region 0x1000 PERM_KERNEL_DATA DynamicKernel sample_vm = (Inr r, s')"
    by (rule sample_alloc_map)
  from allocate_and_map_region_maps [OF sample_vm_facts sample_room(7) am] am
  show ?thesis unfolding sample_room(3) sample_vm_fields by blast
qed

theorem allocate_and_map_region_failure_witness:
  "\<exists>s' r. allocate_and_map_region 0x81000 PERM_KERNEL_DATA DynamicKernel sample_vm = (Inl PhysicalAllocationFailed, s')
     \<and> live_vregions s' = [r]"
proof -
  obtain res s1 where rs: "reserve_virtual_region 0x81000 PERM_KERNEL_DATA DynamicKernel sample_vm = (res, s1)"
    by (cases "reserve_virtual_region 0x81000 PERM_KERNEL_DATA DynamicKernel sample_vm")
  from sample_cursor_ok rs obtain r0 where r0: "res = Inr r0"
    by (cases rule: reserve_cases) (auto simp: sample_vm_fields sample_live kernel_consts)
  have am: "allocate_and_map_region 0x81000 PERM_KERNEL_DATA DynamicKernel sample_vm
      = (Inl PhysicalAllocationFailed, s1)"
    using rs r0 by (simp add: allocate_and_map_region_def)
  from allocate_and_map_region_failure [OF sample_vm_facts sample_room(7) am] am
  show ?thesis by (auto simp: sample_live)
qed

theorem allocate_and_map_region_succeeds_witness:
  "\<exists>r s'. allocate_and_map_region 0x1000 PERM_KERNEL_DATA DynamicKernel sample_vm = (Inr r, s')"
  by (rule allocate_and_map_region_succeeds
      [OF sample_vm_facts sample_room(7) _ sample_room(1,2) _ sample_room(4-6,8)])
    (simp_all add: sample_vm_fields sample_vm_unmapped)

theorem unmap_region_undoes_allocation_witness:
  "\<exists>r s1 s2. allocate_and_map_region 0x1000 PERM_KERNEL_DATA DynamicKernel sample_vm = (Inr r, s1)
     \<and> unmap_region r s1 = (Inr (), s2) \<and> live_vregions s2 = []"
proof -
  obtain r s1 where am: "allocate_and_map_region 0x1000 PERM_KERNEL_DATA DynamicKernel sample_vm = (Inr r, s1)"
    by (rule sample_alloc_map)
  from unmap_region_undoes_allocation [OF sample_vm_facts sample_room(7) am] am
  show ?thesis by (auto simp: sample_live dest: spec [of _ "vmm_mem s1"])
qed

end
