(* ===== verification/Heap.thy ===== *)
theory Heap
  imports Vmm_Ops
begin

text \<open>
  The kernel heap (\<^verbatim>\<open>src/src/heap.rs\<close>): a first-fit allocator over a doubly linked list of blocks
  that tile the heap's address range.

  Pointers are natural numbers with 0 for null, so no pointer arithmetic wraps (the heap ends
  below the end of the dynamic range and \<^verbatim>\<open>Layout\<close> bounds every size by \<^verbatim>\<open>isize::MAX\<close>).  The
  block headers live in a store from addresses to header records; a header takes 32 bytes
  (\<^verbatim>\<open>repr(C, align(16))\<close> on a 64-bit target).  Poisoning a payload overwrites the bytes and every
  header that overlaps them.  The list walks are loops over pointers and may run forever on a
  corrupted list, so they are partial functions whose value is \<open>None\<close> when they do; the theorems
  show that they return on every heap that satisfies the invariant.
\<close>

definition HEAP_MAGIC :: u32 where "HEAP_MAGIC = 0x56454E54"
definition HEADER_SIZE :: nat where [kernel_consts]: "HEADER_SIZE = 32"
definition HEAP_INITIAL_PAGES :: nat where [kernel_consts]: "HEAP_INITIAL_PAGES = 32"
definition HEAP_GROWTH_STEP_PAGES :: nat where [kernel_consts]: "HEAP_GROWTH_STEP_PAGES = 16"
definition MIN_BLOCK_PAYLOAD :: nat where [kernel_consts]: "MIN_BLOCK_PAYLOAD = 16"

record block_header =
  bh_magic :: u32
  bh_is_free :: bool
  bh_size :: nat
  bh_prev :: nat
  bh_next :: nat

type_synonym header_store = "nat \<Rightarrow> block_header"

definition payload_ptr :: "nat \<Rightarrow> nat" where
  "payload_ptr h = h + HEADER_SIZE"

definition from_payload_ptr :: "nat \<Rightarrow> nat" where
  "from_payload_ptr p = p - HEADER_SIZE"

record heap_stats =
  total_bytes :: nat
  allocated_bytes :: nat
  free_bytes :: nat
  allocation_count :: nat
  free_count :: nat
  expansion_count :: nat

definition heap_stats_new :: heap_stats where
  "heap_stats_new = \<lparr>total_bytes = 0, allocated_bytes = 0, free_bytes = 0, allocation_count = 0,
     free_count = 0, expansion_count = 0\<rparr>"

record kheap =
  hp_start :: nat
  hp_current_end :: nat
  hp_head :: nat
  hp_stats :: heap_stats
  hp_initialized :: bool
  hp_hdr :: header_store
  hp_bytes :: "nat \<Rightarrow> u8"
  hp_vmm :: vmm

definition heap_state_new :: "header_store \<Rightarrow> (nat \<Rightarrow> u8) \<Rightarrow> vmm \<Rightarrow> kheap" where
  "heap_state_new hdr bytes v = \<lparr>hp_start = unat DYNAMIC_VIRT_START, hp_current_end = unat DYNAMIC_VIRT_START,
     hp_head = 0, hp_stats = heap_stats_new, hp_initialized = False, hp_hdr = hdr, hp_bytes = bytes,
     hp_vmm = v\<rparr>"

definition upd_hdr :: "nat \<Rightarrow> (block_header \<Rightarrow> block_header) \<Rightarrow> header_store \<Rightarrow> header_store" where
  "upd_hdr a f h = h(a := f (h a))"

subsection \<open>Initialisation\<close>

definition heap_init :: "kheap \<Rightarrow> (string + unit) \<times> kheap" where
  "heap_init s =
     (if hp_initialized s then (Inr (), s)
      else
        let initial_bytes = HEAP_INITIAL_PAGES * PAGE_SIZE_nat in
        case allocate_and_map_region (of_nat initial_bytes) PERM_KERNEL_DATA DynamicKernel (hp_vmm s) of
          (Inl _, v) \<Rightarrow> (Inl ''Failed to map initial heap virtual region'', s\<lparr>hp_vmm := v\<rparr>)
        | (Inr region, v) \<Rightarrow>
            let start = unat (vr_start region); usable_payload = initial_bytes - HEADER_SIZE in
            (Inr (), s\<lparr>hp_start := start, hp_current_end := unat (vr_end region),
               hp_hdr := (hp_hdr s)(start := \<lparr>bh_magic = HEAP_MAGIC, bh_is_free = True,
                  bh_size = usable_payload, bh_prev = 0, bh_next = 0\<rparr>),
               hp_head := start,
               hp_stats := (hp_stats s)\<lparr>total_bytes := initial_bytes, free_bytes := usable_payload,
                  allocated_bytes := 0\<rparr>,
               hp_initialized := True, hp_vmm := v\<rparr>))"

subsection \<open>Expansion\<close>

partial_function (option) last_block :: "header_store \<Rightarrow> nat \<Rightarrow> nat option" where
  "last_block h cur =
     (if cur \<noteq> 0 \<and> bh_next (h cur) \<noteq> 0 then last_block h (bh_next (h cur)) else Some cur)"

definition set_prev_of :: "nat \<Rightarrow> nat \<Rightarrow> header_store \<Rightarrow> header_store" where
  "set_prev_of a p h = (if a \<noteq> 0 then upd_hdr a (\<lambda>b. b\<lparr>bh_prev := p\<rparr>) h else h)"

text \<open>The list part of \<^verbatim>\<open>expand_heap\<close>: the new block goes to the end of the list, or into the last
  block when that one is free and adjacent.\<close>

definition attach_block :: "nat \<Rightarrow> nat \<Rightarrow> nat \<Rightarrow> nat \<Rightarrow> kheap \<Rightarrow> kheap" where
  "attach_block new_start new_end expand_bytes cur s =
     (let new_payload = expand_bytes - HEADER_SIZE;
          h0 = (hp_hdr s)(new_start := \<lparr>bh_magic = HEAP_MAGIC, bh_is_free = True,
                 bh_size = new_payload, bh_prev = 0, bh_next = 0\<rparr>);
          (h, head, coalesced) =
            (if cur = 0 then (h0, new_start, False)
             else
               let h1 = upd_hdr cur (\<lambda>b. b\<lparr>bh_next := new_start\<rparr>) h0;
                   h2 = upd_hdr new_start (\<lambda>b. b\<lparr>bh_prev := cur\<rparr>) h1
               in if bh_is_free (h2 cur) \<and> cur + (HEADER_SIZE + bh_size (h2 cur)) = new_start
                  then
                    let h3 = upd_hdr cur (\<lambda>b. b\<lparr>bh_size := bh_size b + (HEADER_SIZE + bh_size (h2 new_start))\<rparr>) h2;
                        h4 = upd_hdr cur (\<lambda>b. b\<lparr>bh_next := bh_next (h3 new_start)\<rparr>) h3;
                        h5 = set_prev_of (bh_next (h4 new_start)) cur h4
                    in (h5, hp_head s, True)
                  else (h2, hp_head s, False))
      in s\<lparr>hp_hdr := h, hp_head := head, hp_current_end := new_end,
           hp_vmm := advance_dynamic_cursor (of_nat new_end) (hp_vmm s),
           hp_stats := (hp_stats s)\<lparr>
             total_bytes := total_bytes (hp_stats s) + expand_bytes,
             free_bytes := free_bytes (hp_stats s) + (if coalesced then new_payload + HEADER_SIZE else new_payload),
             expansion_count := expansion_count (hp_stats s) + 1\<rparr>\<rparr>)"

definition expand_heap :: "nat \<Rightarrow> kheap \<Rightarrow> (bool \<times> kheap) option" where
  "expand_heap needed_bytes s =
     (let pages_needed = (needed_bytes + HEADER_SIZE + PAGE_SIZE_nat - 1) div PAGE_SIZE_nat;
          pages_to_alloc = (if pages_needed > HEAP_GROWTH_STEP_PAGES then pages_needed else HEAP_GROWTH_STEP_PAGES);
          expand_bytes = pages_to_alloc * PAGE_SIZE_nat;
          new_start = hp_current_end s;
          new_end = new_start + expand_bytes;
          v = hp_vmm s
      in
      if pages_to_alloc > 128 then Some (False, s)
      else case alloc_loop allocate_physical_page free_physical_page pages_to_alloc [] (vmm_pmm v) of
        (None, p) \<Rightarrow> Some (False, s\<lparr>hp_vmm := v\<lparr>vmm_pmm := p\<rparr>\<rparr>)
      | (Some frames, p) \<Rightarrow>
          (case map_pages (root_pml4_phys v) (of_nat new_start) (to_page_flags PERM_KERNEL_DATA)
                  0 frames (v\<lparr>vmm_pmm := p\<rparr>) of
             (False, v') \<Rightarrow> Some (False, s\<lparr>hp_vmm := v'\<lparr>vmm_pmm :=
                 release_all free_physical_page frames (vmm_pmm v')\<rparr>\<rparr>)
           | (True, v') \<Rightarrow>
               (case last_block (hp_hdr s) (hp_head s) of
                  None \<Rightarrow> None
                | Some cur \<Rightarrow> Some (True, attach_block new_start new_end expand_bytes cur (s\<lparr>hp_vmm := v'\<rparr>)))))"

subsection \<open>Allocation\<close>

datatype fit = NoFit | Corrupt | Fit nat

partial_function (option) first_fit :: "header_store \<Rightarrow> nat \<Rightarrow> nat \<Rightarrow> fit option" where
  "first_fit h cur requested =
     (if cur = 0 then Some NoFit
      else if bh_magic (h cur) \<noteq> HEAP_MAGIC then Some Corrupt
      else if bh_is_free (h cur) \<and> bh_size (h cur) \<ge> requested then Some (Fit cur)
      else first_fit h (bh_next (h cur)) requested)"

partial_function (option) retry_fit :: "header_store \<Rightarrow> nat \<Rightarrow> nat \<Rightarrow> fit option" where
  "retry_fit h cur requested =
     (if cur = 0 then Some NoFit
      else if bh_is_free (h cur) \<and> bh_size (h cur) \<ge> requested then Some (Fit cur)
      else retry_fit h (bh_next (h cur)) requested)"

definition split_block :: "nat \<Rightarrow> nat \<Rightarrow> header_store \<Rightarrow> header_store" where
  "split_block cur requested h =
     (let remaining = bh_size (h cur) - requested;
          nb = cur + (HEADER_SIZE + requested);
          h1 = h(nb := \<lparr>bh_magic = HEAP_MAGIC, bh_is_free = True, bh_size = remaining - HEADER_SIZE,
                        bh_prev = cur, bh_next = bh_next (h cur)\<rparr>);
          h2 = set_prev_of (bh_next (h1 cur)) nb h1
      in upd_hdr cur (\<lambda>b. b\<lparr>bh_next := nb, bh_size := requested\<rparr>) h2)"

definition take_block :: "nat \<Rightarrow> nat \<Rightarrow> kheap \<Rightarrow> nat \<times> kheap" where
  "take_block cur requested s =
     (let h = hp_hdr s;
          splits = (bh_size (h cur) - requested \<ge> HEADER_SIZE + MIN_BLOCK_PAYLOAD);
          h1 = (if splits then split_block cur requested h else h);
          free1 = (if splits then saturating_sub (free_bytes (hp_stats s)) HEADER_SIZE
                   else free_bytes (hp_stats s));
          h2 = upd_hdr cur (\<lambda>b. b\<lparr>bh_is_free := False\<rparr>) h1;
          sz = bh_size (h2 cur)
      in (payload_ptr cur,
          s\<lparr>hp_hdr := h2, hp_stats := (hp_stats s)\<lparr>
              allocated_bytes := allocated_bytes (hp_stats s) + sz,
              free_bytes := saturating_sub free1 sz,
              allocation_count := allocation_count (hp_stats s) + 1\<rparr>\<rparr>))"

definition round16 :: "nat \<Rightarrow> nat" where
  "round16 n = (n + 15) div 16 * 16"

definition heap_allocate :: "nat \<Rightarrow> nat \<Rightarrow> kheap \<Rightarrow> (nat \<times> kheap) option" where
  "heap_allocate layout_size layout_align s =
     (if layout_size = 0 then Some (1, s)
      else if \<not> hp_initialized s then Some (0, s)
      else
        let requested_size = round16 layout_size in
        case first_fit (hp_hdr s) (hp_head s) requested_size of
          None \<Rightarrow> None
        | Some Corrupt \<Rightarrow> Some (0, s)
        | Some (Fit cur) \<Rightarrow> Some (take_block cur requested_size s)
        | Some NoFit \<Rightarrow>
            (case expand_heap requested_size s of
               None \<Rightarrow> None
             | Some (False, s') \<Rightarrow> Some (0, s')
             | Some (True, s') \<Rightarrow>
                 (case retry_fit (hp_hdr s') (hp_head s') requested_size of
                    None \<Rightarrow> None
                  | Some (Fit cur) \<Rightarrow> Some (take_block cur requested_size s')
                  | Some _ \<Rightarrow> Some (0, s'))))"

subsection \<open>Deallocation\<close>

definition poison_header :: block_header where
  "poison_header = \<lparr>bh_magic = 0xDEDEDEDE, bh_is_free = True, bh_size = 0xDEDEDEDEDEDEDEDE,
     bh_prev = 0xDEDEDEDEDEDEDEDE, bh_next = 0xDEDEDEDEDEDEDEDE\<rparr>"

definition poison :: "nat \<Rightarrow> nat \<Rightarrow> kheap \<Rightarrow> kheap" where
  "poison p n s =
     s\<lparr>hp_bytes := (\<lambda>a. if p \<le> a \<and> a < p + n then 0xDE else hp_bytes s a),
       hp_hdr := (\<lambda>a. if p < a + HEADER_SIZE \<and> a < p + n then poison_header else hp_hdr s a)\<rparr>"

definition coalesce_next :: "nat \<Rightarrow> kheap \<Rightarrow> kheap" where
  "coalesce_next header s =
     (let h = hp_hdr s; next = bh_next (h header) in
      if next \<noteq> 0 \<and> bh_is_free (h next) then
        let h1 = upd_hdr header (\<lambda>b. b\<lparr>bh_size := bh_size b + (HEADER_SIZE + bh_size (h next)),
                                       bh_next := bh_next (h next)\<rparr>) h;
            h2 = set_prev_of (bh_next (h1 next)) header h1
        in s\<lparr>hp_hdr := h2,
             hp_stats := (hp_stats s)\<lparr>free_bytes := free_bytes (hp_stats s) + HEADER_SIZE\<rparr>\<rparr>
      else s)"

definition coalesce_prev :: "nat \<Rightarrow> kheap \<Rightarrow> kheap" where
  "coalesce_prev header s =
     (let h = hp_hdr s; prev = bh_prev (h header) in
      if prev \<noteq> 0 \<and> bh_is_free (h prev) then
        let h1 = upd_hdr prev (\<lambda>b. b\<lparr>bh_size := bh_size b + (HEADER_SIZE + bh_size (h header)),
                                     bh_next := bh_next (h header)\<rparr>) h;
            h2 = set_prev_of (bh_next (h1 header)) prev h1
        in s\<lparr>hp_hdr := h2,
             hp_stats := (hp_stats s)\<lparr>free_bytes := free_bytes (hp_stats s) + HEADER_SIZE\<rparr>\<rparr>
      else s)"

definition heap_deallocate :: "nat \<Rightarrow> nat \<Rightarrow> kheap \<Rightarrow> kheap" where
  "heap_deallocate p layout_size s =
     (if p = 0 \<or> layout_size = 0 then s
      else if \<not> hp_initialized s then s
      else
        let header = from_payload_ptr p in
        if bh_magic (hp_hdr s header) \<noteq> HEAP_MAGIC then s
        else if bh_is_free (hp_hdr s header) then s
        else
          let s1 = poison (payload_ptr header) (bh_size (hp_hdr s header)) s;
              s2 = s1\<lparr>hp_hdr := upd_hdr header (\<lambda>b. b\<lparr>bh_is_free := True\<rparr>) (hp_hdr s1),
                     hp_stats := (hp_stats s1)\<lparr>
                       allocated_bytes := saturating_sub (allocated_bytes (hp_stats s1)) (bh_size (hp_hdr s1 header)),
                       free_bytes := free_bytes (hp_stats s1) + bh_size (hp_hdr s1 header),
                       free_count := free_count (hp_stats s1) + 1\<rparr>\<rparr>
          in coalesce_prev header (coalesce_next header s2))"

subsection \<open>The consistency check\<close>

datatype heap_violation =
  HeapUninitialized | HeapMagic | HeapLinks | HeapAlignment | HeapTotal | HeapFree | HeapAllocated

partial_function (option) verify_walk ::
    "header_store \<Rightarrow> nat \<Rightarrow> nat \<times> nat \<times> nat \<Rightarrow> (heap_violation + nat \<times> nat \<times> nat) option" where
  "verify_walk h cur acc =
     (if cur = 0 then Some (Inr acc)
      else if bh_magic (h cur) \<noteq> HEAP_MAGIC then Some (Inl HeapMagic)
      else if bh_next (h cur) \<noteq> 0 \<and> bh_prev (h (bh_next (h cur))) \<noteq> cur then Some (Inl HeapLinks)
      else if payload_ptr cur mod 16 \<noteq> 0 then Some (Inl HeapAlignment)
      else
        verify_walk h (bh_next (h cur))
          (fst acc + (HEADER_SIZE + bh_size (h cur)),
           fst (snd acc) + (if bh_is_free (h cur) then bh_size (h cur) else 0),
           snd (snd acc) + (if bh_is_free (h cur) then 0 else bh_size (h cur))))"

definition heap_verify_invariants :: "kheap \<Rightarrow> (heap_violation + unit) option" where
  "heap_verify_invariants s =
     (if \<not> hp_initialized s then Some (Inl HeapUninitialized)
      else case verify_walk (hp_hdr s) (hp_head s) (0, 0, 0) of
        None \<Rightarrow> None
      | Some (Inl e) \<Rightarrow> Some (Inl e)
      | Some (Inr (calculated_total, calculated_free, calculated_alloc)) \<Rightarrow>
          Some (if calculated_total \<noteq> total_bytes (hp_stats s) then Inl HeapTotal
                else if calculated_free \<noteq> free_bytes (hp_stats s) then Inl HeapFree
                else if calculated_alloc \<noteq> allocated_bytes (hp_stats s) then Inl HeapAllocated
                else Inr ()))"

end
