(* ===== verification/Heap_Lists.thy ===== *)
theory Heap_Lists
  imports Heap
begin

text \<open>
  The abstract view of the heap: a list of blocks that tile the heap's range, with first-fit
  allocation and coalescing release as functions on lists, and the correspondence between such a
  list and the linked headers in the store.
\<close>

record block =
  bk_addr :: nat
  bk_free :: bool
  bk_size :: nat

subsection \<open>Abstract operations\<close>

definition fits :: "nat \<Rightarrow> block \<Rightarrow> bool" where
  "fits n b \<longleftrightarrow> bk_free b \<and> n \<le> bk_size b"

definition carve :: "nat \<Rightarrow> block \<Rightarrow> block list" where
  "carve n b =
     (if HEADER_SIZE + MIN_BLOCK_PAYLOAD \<le> bk_size b - n
      then [b\<lparr>bk_size := n, bk_free := False\<rparr>,
            \<lparr>bk_addr = bk_addr b + (HEADER_SIZE + n), bk_free = True, bk_size = bk_size b - n - HEADER_SIZE\<rparr>]
      else [b\<lparr>bk_free := False\<rparr>])"

fun list_alloc :: "nat \<Rightarrow> block list \<Rightarrow> (nat \<times> block list) option" where
  "list_alloc n [] = None"
| "list_alloc n (b # bs) =
     (if fits n b then Some (payload_ptr (bk_addr b), carve n b @ bs)
      else map_option (\<lambda>(p, bs'). (p, b # bs')) (list_alloc n bs))"

definition merge :: "block \<Rightarrow> block \<Rightarrow> block" where
  "merge b c = b\<lparr>bk_size := bk_size b + (HEADER_SIZE + bk_size c)\<rparr>"

fun coalesce :: "block list \<Rightarrow> block list" where
  "coalesce (b # c # bs) =
     (if bk_free b \<and> bk_free c then coalesce (merge b c # bs) else b # coalesce (c # bs))"
| "coalesce bs = bs"

definition mark_free :: "nat \<Rightarrow> block list \<Rightarrow> block list" where
  "mark_free a = map (\<lambda>b. if bk_addr b = a then b\<lparr>bk_free := True\<rparr> else b)"

definition list_free :: "nat \<Rightarrow> block list \<Rightarrow> block list" where
  "list_free a bs = coalesce (mark_free a bs)"

subsection \<open>Well-formed block lists\<close>

fun tiles :: "nat \<Rightarrow> block list \<Rightarrow> nat \<Rightarrow> bool" where
  "tiles a [] e \<longleftrightarrow> a = e"
| "tiles a (b # bs) e \<longleftrightarrow> bk_addr b = a \<and> tiles (a + (HEADER_SIZE + bk_size b)) bs e"

fun no_adjacent_free :: "block list \<Rightarrow> bool" where
  "no_adjacent_free (b # c # bs) \<longleftrightarrow> \<not> (bk_free b \<and> bk_free c) \<and> no_adjacent_free (c # bs)"
| "no_adjacent_free bs \<longleftrightarrow> True"

definition size_ok :: "block \<Rightarrow> bool" where
  "size_ok b \<longleftrightarrow> 16 \<le> bk_size b \<and> bk_size b mod 16 = 0"

definition free_sum :: "block list \<Rightarrow> nat" where
  "free_sum bs = sum_list (map bk_size (filter bk_free bs))"

definition alloc_sum :: "block list \<Rightarrow> nat" where
  "alloc_sum bs = sum_list (map bk_size (filter (\<lambda>b. \<not> bk_free b) bs))"

lemma sum_simps [simp]:
  "free_sum [] = 0" "free_sum (b # bs) = (if bk_free b then bk_size b else 0) + free_sum bs"
  "free_sum (xs @ ys) = free_sum xs + free_sum ys"
  "alloc_sum [] = 0" "alloc_sum (b # bs) = (if bk_free b then 0 else bk_size b) + alloc_sum bs"
  "alloc_sum (xs @ ys) = alloc_sum xs + alloc_sum ys"
  by (simp_all add: free_sum_def alloc_sum_def)

lemma tiles_append: "tiles a (xs @ ys) e \<longleftrightarrow> (\<exists>m. tiles a xs m \<and> tiles m ys e)"
  by (induction xs arbitrary: a) auto

lemma tiles_le: "tiles a bs e \<Longrightarrow> a \<le> e"
  by (induction bs arbitrary: a) (force dest: add_leD1)+

lemma tiles_range: "tiles a bs e \<Longrightarrow> b \<in> set bs \<Longrightarrow> a \<le> bk_addr b \<and> bk_addr b + (HEADER_SIZE + bk_size b) \<le> e"
proof (induction bs arbitrary: a)
  case (Cons c bs)
  from Cons.prems(1) have t: "bk_addr c = a" "tiles (a + (HEADER_SIZE + bk_size c)) bs e" by simp_all
  show ?case
  proof (cases "b = c")
    case True
    then show ?thesis using t tiles_le [OF t(2)] by simp
  next
    case False
    then show ?thesis using Cons.IH [OF t(2)] Cons.prems(2) by fastforce
  qed
qed simp

lemma tiles_middle:
  assumes "tiles a (xs @ b # ys) e"
  shows "tiles a xs (bk_addr b)" and "tiles (bk_addr b + (HEADER_SIZE + bk_size b)) ys e"
  using assms by (auto simp: tiles_append)

lemma header_pos [simp]: "0 < HEADER_SIZE" "HEADER_SIZE \<noteq> 0"
  by (simp_all add: HEADER_SIZE_def)

text \<open>Blocks of a tiling are disjoint, in particular their addresses are distinct.\<close>

lemma tiles_disjoint:
  assumes "tiles a (xs @ b # ys) e" and "c \<in> set xs \<union> set ys"
  shows "bk_addr c + (HEADER_SIZE + bk_size c) \<le> bk_addr b \<or> bk_addr b + (HEADER_SIZE + bk_size b) \<le> bk_addr c"
  using tiles_middle [OF assms(1)] tiles_range assms(2) by blast

lemma tiles_other_addr:
  assumes "tiles a (xs @ b # ys) e" and "c \<in> set xs \<union> set ys"
  shows "bk_addr c \<noteq> bk_addr b"
  using tiles_disjoint [OF assms] header_pos by linarith

lemma tiles_total: "tiles a bs e \<Longrightarrow> a + (sum_list (map (\<lambda>b. HEADER_SIZE + bk_size b) bs)) = e"
  by (induction bs arbitrary: a) force+

lemma coalesce_id: "no_adjacent_free bs \<Longrightarrow> coalesce bs = bs"
  by (induction bs rule: no_adjacent_free.induct) auto

lemma tiles_aligned:
  "tiles a bs e \<Longrightarrow> a mod 16 = 0 \<Longrightarrow> (\<forall>b \<in> set bs. bk_size b mod 16 = 0) \<Longrightarrow> b \<in> set bs \<Longrightarrow> bk_addr b mod 16 = 0"
proof (induction bs arbitrary: a)
  case (Cons c bs)
  then have "(a + (HEADER_SIZE + bk_size c)) mod 16 = 0"
    by (auto simp: HEADER_SIZE_def mod_add_eq [symmetric])
  with Cons show ?case by auto
qed simp

subsection \<open>The linked headers\<close>

definition first_addr :: "block list \<Rightarrow> nat \<Rightarrow> nat" where
  "first_addr bs n = (case bs of [] \<Rightarrow> n | b # _ \<Rightarrow> bk_addr b)"

definition last_addr :: "nat \<Rightarrow> block list \<Rightarrow> nat" where
  "last_addr p bs = (if bs = [] then p else bk_addr (last bs))"

definition hdr_of :: "block \<Rightarrow> nat \<Rightarrow> nat \<Rightarrow> block_header" where
  "hdr_of b p n = \<lparr>bh_magic = HEAP_MAGIC, bh_is_free = bk_free b, bh_size = bk_size b, bh_prev = p, bh_next = n\<rparr>"

fun seg :: "header_store \<Rightarrow> nat \<Rightarrow> block list \<Rightarrow> nat \<Rightarrow> bool" where
  "seg h p [] n \<longleftrightarrow> True"
| "seg h p (b # bs) n \<longleftrightarrow> h (bk_addr b) = hdr_of b p (first_addr bs n) \<and> seg h (bk_addr b) bs n"

lemma addr_simps [simp]:
  "first_addr [] n = n" "first_addr (b # bs) n = bk_addr b"
  "first_addr (xs @ ys) n = first_addr xs (first_addr ys n)"
  "last_addr p [] = p" "last_addr p (xs @ [b]) = bk_addr b" "last_addr p (b # bs) = last_addr (bk_addr b) bs"
  by (simp_all add: first_addr_def last_addr_def split: list.splits)

lemma last_addr_append [simp]: "last_addr p (xs @ ys) = last_addr (last_addr p xs) ys"
  by (simp add: last_addr_def)

lemma hdr_of_simps [simp]:
  "bh_magic (hdr_of b p n) = HEAP_MAGIC" "bh_is_free (hdr_of b p n) = bk_free b"
  "bh_size (hdr_of b p n) = bk_size b" "bh_prev (hdr_of b p n) = p" "bh_next (hdr_of b p n) = n"
  by (simp_all add: hdr_of_def)

lemma seg_append: "seg h p (xs @ ys) n \<longleftrightarrow> seg h p xs (first_addr ys n) \<and> seg h (last_addr p xs) ys n"
  by (induction xs arbitrary: p) auto

lemma seg_cong:
  assumes "\<And>b. b \<in> set bs \<Longrightarrow> h' (bk_addr b) = h (bk_addr b)"
  shows "seg h' p bs n \<longleftrightarrow> seg h p bs n"
  using assms by (induction bs arbitrary: p) auto

text \<open>Redirecting the back pointer of the first block of a segment.\<close>

lemma seg_set_prev:
  assumes "seg h p bs 0" and "distinct (map bk_addr bs)" and "0 \<notin> bk_addr ` set bs"
  shows "seg (set_prev_of (first_addr bs 0) q h) q bs 0"
proof (cases bs)
  case (Cons b cs)
  have ne: "bk_addr c \<noteq> bk_addr b" if "c \<in> set cs" for c
    using assms(2) Cons that by (metis distinct.simps(2) image_eqI list.simps(9) list.set_map)
  have "seg (set_prev_of (bk_addr b) q h) (bk_addr b) cs 0 \<longleftrightarrow> seg h (bk_addr b) cs 0"
    by (rule seg_cong) (simp add: set_prev_of_def upd_hdr_def ne)
  with assms Cons show ?thesis by (auto simp: set_prev_of_def upd_hdr_def hdr_of_def)
qed simp

text \<open>Redirecting the forward pointer of a segment's last block.\<close>

lemma seg_next:
  assumes "seg h p (xs @ [b]) n" and "h' (bk_addr b) = hdr_of b (last_addr p xs) m"
    and "\<And>c. c \<in> set xs \<Longrightarrow> h' (bk_addr c) = h (bk_addr c)"
  shows "seg h' p (xs @ [b]) m"
  using assms seg_cong [of xs h' h p "bk_addr b"] by (simp add: seg_append)

subsection \<open>The list walks\<close>

lemma first_fit_seg:
  assumes "seg h p bs 0" and "0 \<notin> bk_addr ` set bs"
  shows "first_fit h (first_addr bs 0) n = Some (case find (fits n) bs of None \<Rightarrow> NoFit | Some b \<Rightarrow> Fit (bk_addr b))"
  using assms
proof (induction bs arbitrary: p)
  case Nil
  then show ?case by (simp add: first_fit.simps)
next
  case (Cons b bs)
  then show ?case by (subst first_fit.simps) (auto simp: fits_def [of n b])
qed

lemma retry_fit_seg:
  assumes "seg h p bs 0" and "0 \<notin> bk_addr ` set bs"
  shows "retry_fit h (first_addr bs 0) n = Some (case find (fits n) bs of None \<Rightarrow> NoFit | Some b \<Rightarrow> Fit (bk_addr b))"
  using assms
proof (induction bs arbitrary: p)
  case Nil
  then show ?case by (simp add: retry_fit.simps)
next
  case (Cons b bs)
  then show ?case by (subst retry_fit.simps) (auto simp: fits_def [of n b])
qed

lemma last_block_seg:
  assumes "seg h p bs 0" and "0 \<notin> bk_addr ` set bs"
  shows "last_block h (first_addr bs 0) = Some (last_addr 0 bs)"
  using assms
proof (induction bs arbitrary: p)
  case Nil
  then show ?case by (simp add: last_block.simps)
next
  case (Cons b bs)
  then have IH: "last_block h (first_addr bs 0) = Some (last_addr 0 bs)" by auto
  show ?case
  proof (cases bs)
    case Nil
    then show ?thesis using Cons.prems by (subst last_block.simps) simp
  next
    case (Cons c cs)
    have "last_addr 0 bs = last_addr (bk_addr b) bs" using Cons by (simp add: last_addr_def)
    then show ?thesis using Cons.prems IH Cons by (subst last_block.simps) auto
  qed
qed

lemma verify_walk_seg:
  assumes "seg h p bs 0" and "0 \<notin> bk_addr ` set bs" and "\<forall>b \<in> set bs. bk_addr b mod 16 = 0"
  shows "verify_walk h (first_addr bs 0) (t, f, a) =
    Some (Inr (t + sum_list (map (\<lambda>b. HEADER_SIZE + bk_size b) bs), f + free_sum bs, a + alloc_sum bs))"
  using assms
proof (induction bs arbitrary: p t f a)
  case Nil
  then show ?case by (simp add: verify_walk.simps)
next
  case (Cons b bs)
  have links: "first_addr bs 0 \<noteq> 0 \<Longrightarrow> bh_prev (h (first_addr bs 0)) = bk_addr b"
    using Cons.prems(1) by (cases bs) auto
  have "payload_ptr (bk_addr b) mod 16 = 0"
    using Cons.prems(3) by (simp add: payload_ptr_def HEADER_SIZE_def mod_add_eq [symmetric])
  with Cons links show ?case by (subst verify_walk.simps) (auto simp: algebra_simps)
qed

subsection \<open>First fit on lists\<close>

lemma list_alloc_find:
  "list_alloc n bs = (case find (fits n) bs of None \<Rightarrow> None | Some b \<Rightarrow> list_alloc n bs)"
  by (induction bs) (auto split: option.splits)

lemma find_split:
  "find P bs = Some b \<Longrightarrow> \<exists>xs ys. bs = xs @ b # ys \<and> P b \<and> (\<forall>c \<in> set xs. \<not> P c)"
proof (induction bs)
  case (Cons c bs)
  show ?case
  proof (cases "P c")
    case True
    with Cons.prems have "c # bs = [] @ b # bs \<and> P b \<and> (\<forall>c \<in> set []. \<not> P c)" by simp
    then show ?thesis by blast
  next
    case False
    with Cons obtain xs ys where "bs = xs @ b # ys" "P b" "\<forall>c \<in> set xs. \<not> P c" by auto
    with False have "c # bs = (c # xs) @ b # ys \<and> P b \<and> (\<forall>d \<in> set (c # xs). \<not> P d)" by simp
    then show ?thesis by blast
  qed
qed simp

lemma list_alloc_at:
  assumes "fits n b" and "\<forall>c \<in> set xs. \<not> fits n c"
  shows "list_alloc n (xs @ b # ys) = Some (payload_ptr (bk_addr b), xs @ carve n b @ ys)"
  using assms by (induction xs) auto

lemma list_alloc_None: "list_alloc n bs = None \<longleftrightarrow> find (fits n) bs = None"
  by (induction bs) auto

lemma list_alloc_SomeE:
  assumes "list_alloc n bs = Some (p, bs')"
  obtains xs b ys where "bs = xs @ b # ys" "fits n b" "\<forall>c \<in> set xs. \<not> fits n c"
    "p = payload_ptr (bk_addr b)" "bs' = xs @ carve n b @ ys" "find (fits n) bs = Some b"
proof -
  from assms obtain b where f: "find (fits n) bs = Some b" using list_alloc_None [of n bs] by fastforce
  from find_split [OF this] obtain xs ys where
    "bs = xs @ b # ys" "fits n b" "\<forall>c \<in> set xs. \<not> fits n c" by blast
  with assms f that show thesis using list_alloc_at [of n b xs ys] by auto
qed

end
