(* ===== verification/Heap_Refine.thy ===== *)
theory Heap_Refine
  imports Heap_Lists
begin

text \<open>
  The heap refines its block list: the invariant relates the headers, the statistics and the
  bounds to a list of blocks, allocation and release act on the headers as the list functions act
  on the list, and every list walk returns.
\<close>

definition blocks_wf :: "nat \<Rightarrow> block list \<Rightarrow> nat \<Rightarrow> bool" where
  "blocks_wf start bs stop \<longleftrightarrow> bs \<noteq> [] \<and> 0 < start \<and> start mod 16 = 0 \<and> tiles start bs stop
     \<and> (\<forall>b \<in> set bs. size_ok b)"

definition blocks_ok :: "nat \<Rightarrow> block list \<Rightarrow> nat \<Rightarrow> bool" where
  "blocks_ok start bs stop \<longleftrightarrow> bs \<noteq> [] \<and> 0 < start \<and> start mod 16 = 0 \<and> tiles start bs stop
     \<and> (\<forall>b \<in> set bs. size_ok b) \<and> no_adjacent_free bs"

text \<open>The representation relation, and the invariant: also no two neighbours are free.\<close>

definition heap_rel :: "kheap \<Rightarrow> block list \<Rightarrow> bool" where
  "heap_rel s bs \<longleftrightarrow> hp_initialized s \<and> hp_head s = first_addr bs 0 \<and> seg (hp_hdr s) 0 bs 0
     \<and> blocks_wf (hp_start s) bs (hp_current_end s)
     \<and> total_bytes (hp_stats s) = hp_current_end s - hp_start s
     \<and> free_bytes (hp_stats s) = free_sum bs \<and> allocated_bytes (hp_stats s) = alloc_sum bs"

definition heap_inv :: "kheap \<Rightarrow> block list \<Rightarrow> bool" where
  "heap_inv s bs \<longleftrightarrow> heap_rel s bs \<and> no_adjacent_free bs"

lemma heap_inv_alt:
  "heap_inv s bs \<longleftrightarrow> hp_initialized s \<and> hp_head s = first_addr bs 0 \<and> seg (hp_hdr s) 0 bs 0
     \<and> blocks_ok (hp_start s) bs (hp_current_end s)
     \<and> total_bytes (hp_stats s) = hp_current_end s - hp_start s
     \<and> free_bytes (hp_stats s) = free_sum bs \<and> allocated_bytes (hp_stats s) = alloc_sum bs"
  by (auto simp: heap_inv_def heap_rel_def blocks_wf_def blocks_ok_def)

lemma tiles_distinct:
  assumes "tiles a bs e"
  shows "distinct (map bk_addr bs)"
  using assms
proof (induction bs arbitrary: a)
  case (Cons b bs)
  have t: "tiles (a + (HEADER_SIZE + bk_size b)) bs e" "bk_addr b = a" using Cons.prems by simp_all
  have "bk_addr b \<notin> bk_addr ` set bs"
  proof
    assume "bk_addr b \<in> bk_addr ` set bs"
    then obtain c where "c \<in> set bs" "bk_addr c = a" using t(2) by auto
    with tiles_range [OF t(1), of c] header_pos show False by simp
  qed
  with Cons.IH [OF t(1)] show ?case by simp
qed simp

lemma tiles_nonzero: "tiles a bs e \<Longrightarrow> 0 < a \<Longrightarrow> 0 \<notin> bk_addr ` set bs"
  using tiles_range by fastforce

lemma blocks_nonzero: "blocks_ok a bs e \<Longrightarrow> 0 \<notin> bk_addr ` set bs"
  by (auto simp: blocks_ok_def dest: tiles_nonzero)

text \<open>The facts about a block in the middle of a tiling that the header updates need.\<close>

lemma middle_facts:
  assumes "tiles a (xs @ b # ys) e" and "0 < a"
  shows "\<And>c. c \<in> set xs \<Longrightarrow> bk_addr c + HEADER_SIZE \<le> bk_addr b"
    and "\<And>c. c \<in> set ys \<Longrightarrow> bk_addr b + (HEADER_SIZE + bk_size b) \<le> bk_addr c"
    and "distinct (map bk_addr ys)" and "0 \<notin> bk_addr ` set ys" and "0 < bk_addr b"
proof -
  note m = tiles_middle [OF assms(1)]
  show "bk_addr c + HEADER_SIZE \<le> bk_addr b" if "c \<in> set xs" for c
    using tiles_range [OF m(1) that] by simp
  show "bk_addr b + (HEADER_SIZE + bk_size b) \<le> bk_addr c" if "c \<in> set ys" for c
    using tiles_range [OF m(2) that] by simp
  show "distinct (map bk_addr ys)" by (rule tiles_distinct [OF m(2)])
  show "0 < bk_addr b" using tiles_le [OF m(1)] assms(2) by simp
  then show "0 \<notin> bk_addr ` set ys" using tiles_nonzero [OF m(2)] by simp
qed

lemma first_addr_cases: "first_addr ys 0 = 0 \<or> first_addr ys 0 \<in> bk_addr ` set ys"
  by (cases ys) auto

lemma set_prev_of_other: "a \<noteq> b \<Longrightarrow> set_prev_of a q h b = h b"
  by (simp add: set_prev_of_def upd_hdr_def)

subsection \<open>Allocation\<close>

lemma seg_split:
  assumes sg: "seg h 0 (xs @ b # ys) 0" and t: "tiles a (xs @ b # ys) e" and pos: "0 < a"
    and room: "HEADER_SIZE + MIN_BLOCK_PAYLOAD \<le> bk_size b - n"
  shows "seg (split_block (bk_addr b) n h) 0
    (xs @ [b\<lparr>bk_size := n\<rparr>, \<lparr>bk_addr = bk_addr b + (HEADER_SIZE + n), bk_free = True,
       bk_size = bk_size b - n - HEADER_SIZE\<rparr>] @ ys) 0"
proof -
  note mf = middle_facts [OF t pos]
  let ?nb = "bk_addr b + (HEADER_SIZE + n)"
  let ?nh = "\<lparr>bh_magic = HEAP_MAGIC, bh_is_free = True, bh_size = bk_size b - n - HEADER_SIZE,
      bh_prev = bk_addr b, bh_next = first_addr ys 0\<rparr>"
  have hb: "h (bk_addr b) = hdr_of b (last_addr 0 xs) (first_addr ys 0)" using sg by (simp add: seg_append)
  have ne: "?nb \<noteq> bk_addr b" using header_pos by simp
  define h1 where "h1 = h(?nb := ?nh)"
  define h2 where "h2 = set_prev_of (first_addr ys 0) ?nb h1"
  define h3 where "h3 = upd_hdr (bk_addr b) (\<lambda>c. c\<lparr>bh_next := ?nb, bh_size := n\<rparr>) h2"
  have eq: "split_block (bk_addr b) n h = h3"
    unfolding split_block_def Let_def h3_def h2_def h1_def hb using ne by (simp add: hb)
  have inside: "?nb < bk_addr b + (HEADER_SIZE + bk_size b)"
    using room by (simp add: HEADER_SIZE_def MIN_BLOCK_PAYLOAD_def)
  have ys1: "bk_addr c \<noteq> ?nb \<and> bk_addr c \<noteq> bk_addr b" if "c \<in> set ys" for c
    using mf(2) [OF that] inside header_pos by linarith
  have xs1: "bk_addr c \<noteq> ?nb \<and> bk_addr c \<noteq> bk_addr b" if "c \<in> set xs" for c
    using mf(1) [OF that] header_pos by linarith
  have fst: "first_addr ys 0 \<noteq> bk_addr c" if "c \<in> insert b (set xs)" for c
    using first_addr_cases [of ys] mf that header_pos tiles_nonzero [OF t pos] by fastforce
  have "seg h1 (bk_addr b) ys 0"
    using sg seg_cong [of ys h1 h] ys1 by (simp add: h1_def seg_append)
  then have "seg h2 ?nb ys 0" unfolding h2_def by (rule seg_set_prev [OF _ mf(3,4)])
  then have "seg h3 ?nb ys 0" using seg_cong [of ys h3 h2 ?nb 0] ys1 by (simp add: h3_def upd_hdr_def)
  moreover have "seg h3 0 xs (bk_addr b)"
    using sg seg_cong [of xs h3 h 0 "bk_addr b"] xs1 fst
    by (simp add: h3_def h2_def h1_def upd_hdr_def set_prev_of_other seg_append)
  moreover have "h3 (bk_addr b) = hdr_of (b\<lparr>bk_size := n\<rparr>) (last_addr 0 xs) ?nb"
    using hb ne fst by (auto simp: h3_def h2_def h1_def upd_hdr_def set_prev_of_other hdr_of_def)
  moreover have "first_addr ys 0 \<noteq> ?nb" using first_addr_cases [of ys] ys1 header_pos by auto
  then have "h3 ?nb = ?nh"
    using ne by (simp add: h3_def h2_def h1_def upd_hdr_def set_prev_of_def)
  ultimately show ?thesis
    unfolding eq by (simp add: seg_append hdr_of_def)
qed

lemma seg_mark:
  assumes sg: "seg h 0 (xs @ b # ys) 0" and t: "tiles a (xs @ b # ys) e"
  shows "seg (upd_hdr (bk_addr b) (\<lambda>c. c\<lparr>bh_is_free := v\<rparr>) h) 0 (xs @ b\<lparr>bk_free := v\<rparr> # ys) 0"
proof -
  let ?h = "upd_hdr (bk_addr b) (\<lambda>c. c\<lparr>bh_is_free := v\<rparr>) h"
  have o: "?h (bk_addr c) = h (bk_addr c)" if "c \<in> set xs \<union> set ys" for c
    using tiles_other_addr [OF t that] by (simp add: upd_hdr_def)
  have "seg ?h 0 xs (bk_addr b)" "seg ?h (bk_addr b) ys 0"
    using sg o seg_cong [of xs ?h h] seg_cong [of ys ?h h] by (simp_all add: seg_append)
  moreover have "?h (bk_addr b) = hdr_of (b\<lparr>bk_free := v\<rparr>) (last_addr 0 xs) (first_addr ys 0)"
    using sg by (simp add: upd_hdr_def seg_append hdr_of_def)
  ultimately show ?thesis by (simp add: seg_append)
qed

text \<open>The carved list is again a tiling with the same sums.\<close>

lemma carve_facts:
  assumes "fits n b" and "16 \<le> n" and "n mod 16 = 0" and "size_ok b"
  shows "tiles (bk_addr b) (carve n b @ ys) e \<longleftrightarrow> tiles (bk_addr b) (b # ys) e"
    and "\<forall>c \<in> set (carve n b). size_ok c"
    and "free_sum (carve n b) + (if HEADER_SIZE + MIN_BLOCK_PAYLOAD \<le> bk_size b - n then HEADER_SIZE + n
           else bk_size b) = bk_size b"
    and "alloc_sum (carve n b) = (if HEADER_SIZE + MIN_BLOCK_PAYLOAD \<le> bk_size b - n then n else bk_size b)"
    and "\<exists>c cs. carve n b = c # cs \<and> bk_addr c = bk_addr b \<and> \<not> bk_free c \<and> n \<le> bk_size c
      \<and> (\<forall>d \<in> set cs. bk_free d) \<and> length cs \<le> 1"
proof -
  have le: "n \<le> bk_size b" using assms(1) by (simp add: fits_def)
  have m: "(bk_size b - n - HEADER_SIZE) mod 16 = 0" if "HEADER_SIZE + MIN_BLOCK_PAYLOAD \<le> bk_size b - n"
  proof -
    have "16 dvd bk_size b" "16 dvd n" "16 dvd HEADER_SIZE"
      using assms(3,4) by (auto simp: size_ok_def HEADER_SIZE_def)
    then have "16 dvd bk_size b - n - HEADER_SIZE" by (simp add: dvd_diff_nat)
    then show ?thesis by simp
  qed
  show "tiles (bk_addr b) (carve n b @ ys) e \<longleftrightarrow> tiles (bk_addr b) (b # ys) e"
    using le by (auto simp: carve_def)
  show "\<forall>c \<in> set (carve n b). size_ok c"
    using assms(2-4) m by (auto simp: carve_def size_ok_def HEADER_SIZE_def MIN_BLOCK_PAYLOAD_def)
  show "free_sum (carve n b) + (if HEADER_SIZE + MIN_BLOCK_PAYLOAD \<le> bk_size b - n then HEADER_SIZE + n
           else bk_size b) = bk_size b"
    using le by (auto simp: carve_def)
  show "alloc_sum (carve n b) = (if HEADER_SIZE + MIN_BLOCK_PAYLOAD \<le> bk_size b - n then n else bk_size b)"
    by (simp add: carve_def)
  show "\<exists>c cs. carve n b = c # cs \<and> bk_addr c = bk_addr b \<and> \<not> bk_free c \<and> n \<le> bk_size c
      \<and> (\<forall>d \<in> set cs. bk_free d) \<and> length cs \<le> 1"
    using le by (simp add: carve_def)
qed

text \<open>No two neighbours are free, in terms of the two halves of a list.\<close>

lemma no_adjacent_append:
  "no_adjacent_free (xs @ ys) \<longleftrightarrow> no_adjacent_free xs \<and> no_adjacent_free ys
     \<and> (xs \<noteq> [] \<longrightarrow> ys \<noteq> [] \<longrightarrow> \<not> (bk_free (last xs) \<and> bk_free (hd ys)))"
proof (induction xs)
  case (Cons x xs)
  then show ?case by (cases xs; cases ys) auto
qed simp

lemma no_adjacent_carve:
  assumes "no_adjacent_free (xs @ b # ys)" and "bk_free b"
  shows "no_adjacent_free (xs @ carve n b @ ys)"
  using assms by (cases ys) (auto simp: carve_def no_adjacent_append split: if_splits)

lemma blocks_ok_carve:
  assumes "blocks_ok a (xs @ b # ys) e" and "fits n b" and "16 \<le> n" and "n mod 16 = 0"
  shows "blocks_ok a (xs @ carve n b @ ys) e"
proof -
  have sz: "size_ok b" using assms(1) by (simp add: blocks_ok_def)
  note c = carve_facts [OF assms(2-4) sz]
  have "carve n b \<noteq> []" using c(5) by auto
  moreover have "tiles a (xs @ carve n b @ ys) e"
    using assms(1) c(1) by (auto simp: blocks_ok_def tiles_append)
  moreover have "no_adjacent_free (xs @ carve n b @ ys)"
    using assms(1,2) by (intro no_adjacent_carve) (auto simp: blocks_ok_def fits_def)
  ultimately show ?thesis using assms(1) c(2) by (auto simp: blocks_ok_def)
qed

lemma first_addr_carve: "first_addr (xs @ carve n b @ ys) 0 = first_addr (xs @ b # ys) 0"
  by (cases xs) (simp_all add: carve_def)

lemma take_block_refines:
  assumes inv: "heap_inv s (xs @ b # ys)" and fit: "fits n b" and n: "16 \<le> n" "n mod 16 = 0"
  shows "fst (take_block (bk_addr b) n s) = payload_ptr (bk_addr b)"
    and "heap_inv (snd (take_block (bk_addr b) n s)) (xs @ carve n b @ ys)"
    and "hp_vmm (snd (take_block (bk_addr b) n s)) = hp_vmm s"
    and "hp_bytes (snd (take_block (bk_addr b) n s)) = hp_bytes s"
proof -
  let ?s' = "snd (take_block (bk_addr b) n s)"
  show "fst (take_block (bk_addr b) n s) = payload_ptr (bk_addr b)" by (simp add: take_block_def Let_def)
  show "hp_vmm ?s' = hp_vmm s" "hp_bytes ?s' = hp_bytes s" by (simp_all add: take_block_def Let_def)
  have ok: "blocks_ok (hp_start s) (xs @ b # ys) (hp_current_end s)" and sg: "seg (hp_hdr s) 0 (xs @ b # ys) 0"
    using inv by (simp_all add: heap_inv_alt)
  then have t: "tiles (hp_start s) (xs @ b # ys) (hp_current_end s)" and pos: "0 < hp_start s"
    and sz: "size_ok b" by (simp_all add: blocks_ok_def)
  have hb: "hp_hdr s (bk_addr b) = hdr_of b (last_addr 0 xs) (first_addr ys 0)" using sg by (simp add: seg_append)
  note cf = carve_facts [OF fit n sz]
  let ?splits = "HEADER_SIZE + MIN_BLOCK_PAYLOAD \<le> bk_size b - n"
  let ?h1 = "if ?splits then split_block (bk_addr b) n (hp_hdr s) else hp_hdr s"
  let ?h2 = "upd_hdr (bk_addr b) (\<lambda>c. c\<lparr>bh_is_free := False\<rparr>) ?h1"
  have sg': "seg ?h2 0 (xs @ carve n b @ ys) 0"
  proof (cases ?splits)
    case True
    let ?b = "b\<lparr>bk_size := n\<rparr>"
    let ?r = "\<lparr>bk_addr = bk_addr b + (HEADER_SIZE + n), bk_free = True, bk_size = bk_size b - n - HEADER_SIZE\<rparr>"
    have sp: "seg (split_block (bk_addr b) n (hp_hdr s)) 0 (xs @ ?b # ?r # ys) 0"
      using seg_split [OF sg t pos True] by simp
    have "HEADER_SIZE + n + (HEADER_SIZE + (bk_size b - (HEADER_SIZE + n))) = HEADER_SIZE + bk_size b"
      using True by (simp add: HEADER_SIZE_def MIN_BLOCK_PAYLOAD_def)
    then have "tiles (hp_start s) (xs @ ?b # ?r # ys) (hp_current_end s)"
      using t by (auto simp: tiles_append algebra_simps)
    from seg_mark [OF sp this, of False] True show ?thesis by (simp add: carve_def)
  next
    case False
    with seg_mark [OF sg t, of False] show ?thesis by (simp add: carve_def)
  qed
  have hdr: "hp_hdr ?s' = ?h2" by (simp add: take_block_def Let_def hb)
  have size: "bh_size (?h2 (bk_addr b)) = (if ?splits then n else bk_size b)"
    using sg' unfolding seg_append by (auto simp: carve_def split: if_splits)
  have st: "free_bytes (hp_stats s) = free_sum (xs @ b # ys)" "allocated_bytes (hp_stats s) = alloc_sum (xs @ b # ys)"
    using inv by (simp_all add: heap_inv_alt)
  have fb: "bk_free b" "n \<le> bk_size b" using fit by (simp_all add: fits_def)
  have "free_bytes (hp_stats ?s') = free_sum (xs @ carve n b @ ys)"
    using size st fb cf(3) by (simp add: take_block_def Let_def hb saturating_sub_def split: if_splits)
  moreover have "allocated_bytes (hp_stats ?s') = alloc_sum (xs @ carve n b @ ys)"
    using size st fb cf(4) by (simp add: take_block_def Let_def hb split: if_splits)
  moreover have "hp_initialized ?s' = hp_initialized s" "hp_head ?s' = hp_head s" "hp_start ?s' = hp_start s"
    "hp_current_end ?s' = hp_current_end s" "total_bytes (hp_stats ?s') = total_bytes (hp_stats s)"
    by (simp_all add: take_block_def Let_def)
  ultimately show "heap_inv ?s' (xs @ carve n b @ ys)"
    using inv sg' blocks_ok_carve [OF ok fit n] first_addr_carve [of xs n b ys]
    unfolding heap_inv_alt hdr by (simp del: addr_simps)
qed

subsection \<open>Release\<close>

lemma merge_simps [simp]:
  "bk_addr (merge b c) = bk_addr b" "bk_free (merge b c) = bk_free b"
  "bk_size (merge b c) = bk_size b + (HEADER_SIZE + bk_size c)"
  by (simp_all add: merge_def)

lemma tiles_merge:
  "tiles a (xs @ b # c # ys) e \<Longrightarrow> tiles a (xs @ merge b c # ys) e"
  by (auto simp: tiles_append algebra_simps)

text \<open>Both coalescing steps of \<^verbatim>\<open>deallocate\<close>, and the one of \<^verbatim>\<open>expand_heap\<close>, absorb a block into the one
  before it.\<close>

definition absorb :: "nat \<Rightarrow> nat \<Rightarrow> header_store \<Rightarrow> header_store" where
  "absorb a c h =
     (let h1 = upd_hdr a (\<lambda>b. b\<lparr>bh_size := bh_size b + (HEADER_SIZE + bh_size (h c)), bh_next := bh_next (h c)\<rparr>) h
      in set_prev_of (bh_next (h1 c)) a h1)"

lemma seg_absorb:
  assumes sg: "seg h 0 (xs @ b # c # ys) 0" and t: "tiles a (xs @ b # c # ys) e" and pos: "0 < a"
  shows "seg (absorb (bk_addr b) (bk_addr c) h) 0 (xs @ merge b c # ys) 0"
proof -
  note mb = middle_facts [of a xs b "c # ys", OF t pos]
  have t': "tiles a ((xs @ [b]) @ c # ys) e" using t by simp
  note mc = middle_facts [OF t' pos]
  have ne: "bk_addr c \<noteq> bk_addr b" using mb(2) [OF list.set_intros(1)] header_pos(1) by linarith
  have hb: "h (bk_addr b) = hdr_of b (last_addr 0 xs) (bk_addr c)"
    and hc: "h (bk_addr c) = hdr_of c (bk_addr b) (first_addr ys 0)"
    and sx: "seg h 0 xs (bk_addr b)" and sy: "seg h (bk_addr c) ys 0"
    using sg by (simp_all add: seg_append)
  define h1 where "h1 = upd_hdr (bk_addr b) (\<lambda>x. x\<lparr>bh_size := bh_size x + (HEADER_SIZE + bk_size c),
      bh_next := first_addr ys 0\<rparr>) h"
  define h2 where "h2 = set_prev_of (first_addr ys 0) (bk_addr b) h1"
  have eq: "absorb (bk_addr b) (bk_addr c) h = h2"
    using ne by (simp add: absorb_def Let_def hc h2_def h1_def upd_hdr_def)
  have ys1: "bk_addr d \<noteq> bk_addr b" if "d \<in> set ys" for d using mb(2) [OF list.set_intros(2) [OF that]] header_pos(1) by linarith
  have xs1: "bk_addr d \<noteq> bk_addr b" if "d \<in> set xs" for d using mb(1) [OF that] header_pos(1) by linarith
  have fst: "first_addr ys 0 \<noteq> bk_addr d" if "d \<in> insert b (set xs)" for d
  proof -
    have "bk_addr d \<noteq> bk_addr y" if "y \<in> set ys" for y
      using mb(1) [of d] mb(2) [OF list.set_intros(2) [OF that]] \<open>d \<in> insert b (set xs)\<close> header_pos(1) by fastforce
    moreover have "bk_addr d \<noteq> 0" using tiles_nonzero [OF t pos] that by force
    ultimately show ?thesis by (cases ys) force+
  qed
  have "seg h1 (bk_addr c) ys 0" using sy seg_cong [of ys h1 h] ys1 by (simp add: h1_def upd_hdr_def)
  then have "seg h2 (bk_addr b) ys 0" unfolding h2_def by (rule seg_set_prev [OF _ mc(3,4)])
  moreover have "seg h2 0 xs (bk_addr b)"
    using sx seg_cong [of xs h2 h 0 "bk_addr b"] xs1 fst
    by (simp add: h2_def h1_def upd_hdr_def set_prev_of_other)
  moreover have "h2 (bk_addr b) = hdr_of (merge b c) (last_addr 0 xs) (first_addr ys 0)"
    using hb fst by (simp add: h2_def h1_def upd_hdr_def set_prev_of_other hdr_of_def)
  ultimately show ?thesis unfolding eq by (simp add: seg_append)
qed

text \<open>Absorbing a free block into a free block keeps the representation.\<close>

lemma absorb_refines:
  assumes rel: "heap_rel s (xs @ b # c # ys)" and free: "bk_free b" "bk_free c"
  shows "heap_rel (s\<lparr>hp_hdr := absorb (bk_addr b) (bk_addr c) (hp_hdr s),
      hp_stats := (hp_stats s)\<lparr>free_bytes := free_bytes (hp_stats s) + HEADER_SIZE\<rparr>\<rparr>) (xs @ merge b c # ys)"
proof -
  have wf: "blocks_wf (hp_start s) (xs @ b # c # ys) (hp_current_end s)"
    and sg: "seg (hp_hdr s) 0 (xs @ b # c # ys) 0"
    using rel by (simp_all add: heap_rel_def)
  have t: "tiles (hp_start s) (xs @ b # c # ys) (hp_current_end s)" and pos: "0 < hp_start s"
    using wf by (simp_all add: blocks_wf_def)
  have "size_ok (merge b c)"
    using wf by (auto simp: blocks_wf_def size_ok_def HEADER_SIZE_def mod_add_eq [symmetric])
  then have "blocks_wf (hp_start s) (xs @ merge b c # ys) (hp_current_end s)"
    using wf tiles_merge [OF t] by (simp add: blocks_wf_def)
  then show ?thesis
    using rel seg_absorb [OF sg t pos] free by (simp add: heap_rel_def)
qed

lemma heap_rel_next:
  assumes "heap_rel s (xs @ b # ys)"
  shows "bh_next (hp_hdr s (bk_addr b)) = first_addr ys 0" and "bh_prev (hp_hdr s (bk_addr b)) = last_addr 0 xs"
    and "bh_is_free (hp_hdr s (bk_addr b)) = bk_free b" and "bh_size (hp_hdr s (bk_addr b)) = bk_size b"
    and "bh_magic (hp_hdr s (bk_addr b)) = HEAP_MAGIC" and "bk_addr b \<noteq> 0"
  using assms middle_facts(5) by (fastforce simp: heap_rel_def seg_append blocks_wf_def)+

fun join_next :: "block \<Rightarrow> block list \<Rightarrow> block list" where
  "join_next b (c # ys) = (if bk_free c then merge b c # ys else b # c # ys)"
| "join_next b [] = [b]"

lemma coalesce_next_refines:
  assumes rel: "heap_rel s (xs @ b # ys)" and free: "bk_free b"
  shows "heap_rel (coalesce_next (bk_addr b) s) (xs @ join_next b ys)"
proof (cases ys)
  case Nil
  then show ?thesis using rel heap_rel_next [OF rel] by (simp add: coalesce_next_def Let_def)
next
  case (Cons c zs)
  have rel': "heap_rel s ((xs @ [b]) @ c # zs)" using rel Cons by simp
  note nb = heap_rel_next [OF rel] and nc = heap_rel_next [OF rel']
  show ?thesis
  proof (cases "bk_free c")
    case True
    have "coalesce_next (bk_addr b) s = s\<lparr>hp_hdr := absorb (bk_addr b) (bk_addr c) (hp_hdr s),
      hp_stats := (hp_stats s)\<lparr>free_bytes := free_bytes (hp_stats s) + HEADER_SIZE\<rparr>\<rparr>"
      using True Cons nb(1) nc(3,6) by (simp add: coalesce_next_def Let_def absorb_def)
    then show ?thesis using absorb_refines [of s xs b c zs] rel Cons free True by simp
  next
    case False
    then show ?thesis using rel Cons nb(1) nc(3) by (simp add: coalesce_next_def Let_def)
  qed
qed

lemma coalesce_prev_refines:
  assumes rel: "heap_rel s (xs @ a # b # ys)" and free: "bk_free b"
  shows "heap_rel (coalesce_prev (bk_addr b) s) (xs @ (if bk_free a then [merge a b] else [a, b]) @ ys)"
proof -
  have rel': "heap_rel s ((xs @ [a]) @ b # ys)" using rel by simp
  note na = heap_rel_next [OF rel] and nb = heap_rel_next [OF rel']
  show ?thesis
  proof (cases "bk_free a")
    case True
    have "coalesce_prev (bk_addr b) s = s\<lparr>hp_hdr := absorb (bk_addr a) (bk_addr b) (hp_hdr s),
      hp_stats := (hp_stats s)\<lparr>free_bytes := free_bytes (hp_stats s) + HEADER_SIZE\<rparr>\<rparr>"
      using True nb(2) na(3,6) by (simp add: coalesce_prev_def Let_def absorb_def)
    then show ?thesis using absorb_refines [OF rel True free] True by simp
  next
    case False
    then show ?thesis using rel nb(2) na(3) by (simp add: coalesce_prev_def Let_def)
  qed
qed

lemma coalesce_prev_first:
  assumes rel: "heap_rel s (b # ys)"
  shows "coalesce_prev (bk_addr b) s = s"
  using heap_rel_next(2) [of s "[]" b ys] rel by (simp add: coalesce_prev_def Let_def)

text \<open>Poisoning the payload of a block touches no block's header.\<close>

lemma poison_refines:
  assumes rel: "heap_rel s (xs @ b # ys)"
  shows "heap_rel (poison (payload_ptr (bk_addr b)) (bk_size b) s) (xs @ b # ys)"
proof -
  let ?h = "hp_hdr (poison (payload_ptr (bk_addr b)) (bk_size b) s)"
  have t: "tiles (hp_start s) (xs @ b # ys) (hp_current_end s)" "0 < hp_start s"
    using rel by (simp_all add: heap_rel_def blocks_wf_def)
  note m = middle_facts [OF t]
  have "?h (bk_addr c) = hp_hdr s (bk_addr c)" if "c \<in> set (xs @ b # ys)" for c
  proof -
    from that consider "c = b" | "c \<in> set xs" | "c \<in> set ys" by auto
    then show ?thesis
    proof cases
      case 2
      with m(1) [OF 2] show ?thesis by (simp add: poison_def payload_ptr_def)
    next
      case 3
      with m(2) [OF 3] show ?thesis by (simp add: poison_def payload_ptr_def)
    qed (simp add: poison_def payload_ptr_def)
  qed
  then have "seg ?h 0 (xs @ b # ys) 0 \<longleftrightarrow> seg (hp_hdr s) 0 (xs @ b # ys) 0" by (rule seg_cong)
  then show ?thesis using rel by (simp add: heap_rel_def) (simp add: poison_def)
qed

lemma mark_refines:
  assumes rel: "heap_rel s (xs @ b # ys)" and live: "\<not> bk_free b"
  shows "heap_rel (s\<lparr>hp_hdr := upd_hdr (bk_addr b) (\<lambda>c. c\<lparr>bh_is_free := True\<rparr>) (hp_hdr s),
      hp_stats := (hp_stats s)\<lparr>
        allocated_bytes := saturating_sub (allocated_bytes (hp_stats s)) (bk_size b),
        free_bytes := free_bytes (hp_stats s) + bk_size b,
        free_count := free_count (hp_stats s) + 1\<rparr>\<rparr>) (xs @ b\<lparr>bk_free := True\<rparr> # ys)"
proof -
  have sg: "seg (hp_hdr s) 0 (xs @ b # ys) 0"
    and t: "tiles (hp_start s) (xs @ b # ys) (hp_current_end s)"
    using rel by (simp_all add: heap_rel_def blocks_wf_def)
  then have "tiles (hp_start s) (xs @ b\<lparr>bk_free := True\<rparr> # ys) (hp_current_end s)" by (simp add: tiles_append)
  then show ?thesis
    using rel seg_mark [OF sg t, of True] live
    by (simp add: heap_rel_def blocks_wf_def saturating_sub_def size_ok_def)
qed

subsection \<open>Coalescing on lists\<close>

lemma coalesce_prefix:
  assumes "no_adjacent_free (xs @ [y])"
  shows "coalesce (xs @ y # r) = xs @ coalesce (y # r)"
  using assms
proof (induction xs)
  case (Cons x xs)
  then show ?case by (cases xs) auto
qed simp

lemma coalesce_join:
  assumes "bk_free m" and "no_adjacent_free ys"
  shows "coalesce (m # ys) = join_next m ys"
proof (cases ys)
  case (Cons c zs)
  with assms(2) have "coalesce (c # zs) = c # zs" by (intro coalesce_id) simp
  moreover have "bk_free c \<Longrightarrow> coalesce (merge m c # zs) = merge m c # zs"
    using assms Cons by (intro coalesce_id) (cases zs, auto)
  ultimately show ?thesis using Cons assms(1) by simp
qed simp

lemma merge_assoc: "merge (merge a b) c = merge a (merge b c)"
  by (simp add: merge_def)

lemma no_adjacent_join:
  assumes "no_adjacent_free ys" and "bk_free m" and "no_adjacent_free xs"
    and "xs \<noteq> [] \<Longrightarrow> \<not> bk_free (last xs)"
  shows "no_adjacent_free (xs @ join_next m ys)"
  using assms by (cases ys; cases "tl ys") (auto simp: no_adjacent_append)

lemma join_next_merge: "join_next (merge a b) ys = merge a (hd (join_next b ys)) # tl (join_next b ys)"
  by (cases ys) (simp_all add: merge_assoc)

lemma join_next_shape: "join_next b ys = hd (join_next b ys) # tl (join_next b ys)"
  "bk_addr (hd (join_next b ys)) = bk_addr b" "bk_free (hd (join_next b ys)) = bk_free b"
  by (cases ys; simp)+

lemma mark_free_at:
  assumes "tiles a (xs @ b # ys) e"
  shows "mark_free (bk_addr b) (xs @ b # ys) = xs @ b\<lparr>bk_free := True\<rparr> # ys"
proof -
  have "map (\<lambda>c. if bk_addr c = bk_addr b then c\<lparr>bk_free := True\<rparr> else c) zs = zs"
    if "set zs \<subseteq> set xs \<union> set ys" for zs
    using tiles_other_addr [OF assms] that by (intro map_idI) auto
  then show ?thesis by (simp add: mark_free_def)
qed

text \<open>Releasing a block on lists: at most the two neighbours are absorbed.\<close>

lemma list_free_at:
  assumes t: "tiles st (xs @ b # ys) e" and na: "no_adjacent_free (xs @ b # ys)"
    and eq: "b' = b\<lparr>bk_free := True\<rparr>"
  shows "list_free (bk_addr b) (xs @ b # ys) =
    (if xs \<noteq> [] \<and> bk_free (last xs) then butlast xs @ join_next (merge (last xs) b') ys else xs @ join_next b' ys)"
    and "no_adjacent_free (list_free (bk_addr b) (xs @ b # ys))"
proof -
  have nys: "no_adjacent_free ys" and nxs: "no_adjacent_free xs" using na by (cases ys; simp add: no_adjacent_append)+
  have fr: "bk_free b'" using eq by simp
  have st: "list_free (bk_addr b) (xs @ b # ys) = coalesce (xs @ b' # ys)"
    by (simp add: list_free_def mark_free_at [OF t] eq)
  show "list_free (bk_addr b) (xs @ b # ys) =
    (if xs \<noteq> [] \<and> bk_free (last xs) then butlast xs @ join_next (merge (last xs) b') ys else xs @ join_next b' ys)"
    and "no_adjacent_free (list_free (bk_addr b) (xs @ b # ys))"
  proof (atomize (full), cases "xs \<noteq> [] \<and> bk_free (last xs)")
    case True
    then obtain zs a where xs: "xs = zs @ [a]" and a: "bk_free a" by (cases xs rule: rev_cases) auto
    have "coalesce (xs @ b' # ys) = zs @ coalesce (a # b' # ys)"
      using coalesce_prefix [of zs a "b' # ys"] nxs xs by simp
    also have "\<dots> = zs @ join_next (merge a b') ys"
      using coalesce_join [of "merge a b'" ys] nys a fr by simp
    finally have e: "coalesce (xs @ b' # ys) = zs @ join_next (merge a b') ys" .
    moreover have "no_adjacent_free (zs @ join_next (merge a b') ys)"
      using nxs xs a nys by (intro no_adjacent_join) (auto simp: no_adjacent_append)
    ultimately show "list_free (bk_addr b) (xs @ b # ys) =
      (if xs \<noteq> [] \<and> bk_free (last xs) then butlast xs @ join_next (merge (last xs) b') ys else xs @ join_next b' ys)
      \<and> no_adjacent_free (list_free (bk_addr b) (xs @ b # ys))"
      unfolding st using True xs by simp
  next
    case False
    have "no_adjacent_free (xs @ [b'])" using nxs False by (auto simp: no_adjacent_append)
    then have e: "coalesce (xs @ b' # ys) = xs @ join_next b' ys"
      using coalesce_prefix coalesce_join [OF fr nys] by simp
    moreover have "no_adjacent_free (xs @ join_next b' ys)" using no_adjacent_join [OF nys fr nxs] False by blast
    ultimately show "list_free (bk_addr b) (xs @ b # ys) =
      (if xs \<noteq> [] \<and> bk_free (last xs) then butlast xs @ join_next (merge (last xs) b') ys else xs @ join_next b' ys)
      \<and> no_adjacent_free (list_free (bk_addr b) (xs @ b # ys))"
      unfolding st using False by auto
  qed
qed

lemma coalesce_keeps:
  "hp_bytes (coalesce_next a s) = hp_bytes s" "hp_vmm (coalesce_next a s) = hp_vmm s"
  "hp_start (coalesce_next a s) = hp_start s" "hp_current_end (coalesce_next a s) = hp_current_end s"
  "hp_bytes (coalesce_prev a s) = hp_bytes s" "hp_vmm (coalesce_prev a s) = hp_vmm s"
  "hp_start (coalesce_prev a s) = hp_start s" "hp_current_end (coalesce_prev a s) = hp_current_end s"
  by (simp_all add: coalesce_next_def coalesce_prev_def Let_def)

lemma deallocate_refines:
  assumes inv: "heap_inv s (xs @ b # ys)" and live: "\<not> bk_free b" and n: "n \<noteq> 0"
  defines "s' \<equiv> heap_deallocate (payload_ptr (bk_addr b)) n s"
  shows "heap_inv s' (list_free (bk_addr b) (xs @ b # ys))"
    and "hp_bytes s' = (\<lambda>a. if payload_ptr (bk_addr b) \<le> a \<and> a < payload_ptr (bk_addr b) + bk_size b
           then 0xDE else hp_bytes s a)"
    and "hp_vmm s' = hp_vmm s" and "hp_start s' = hp_start s" and "hp_current_end s' = hp_current_end s"
proof -
  let ?b = "b\<lparr>bk_free := True\<rparr>"
  have rel: "heap_rel s (xs @ b # ys)" and na: "no_adjacent_free (xs @ b # ys)"
    using inv by (simp_all add: heap_inv_def)
  note hb = heap_rel_next [OF rel]
  let ?s1 = "poison (payload_ptr (bk_addr b)) (bk_size b) s"
  note r1 = poison_refines [OF rel]
  note hb1 = heap_rel_next [OF r1]
  define s2 where "s2 = ?s1\<lparr>hp_hdr := upd_hdr (bk_addr b) (\<lambda>c. c\<lparr>bh_is_free := True\<rparr>) (hp_hdr ?s1),
      hp_stats := (hp_stats ?s1)\<lparr>
        allocated_bytes := saturating_sub (allocated_bytes (hp_stats ?s1)) (bk_size b),
        free_bytes := free_bytes (hp_stats ?s1) + bk_size b,
        free_count := free_count (hp_stats ?s1) + 1\<rparr>\<rparr>"
  have eq: "s' = coalesce_prev (bk_addr b) (coalesce_next (bk_addr b) s2)"
    using rel hb hb1 live n
    by (simp add: s'_def heap_deallocate_def s2_def Let_def from_payload_ptr_def payload_ptr_def heap_rel_def)
  show "hp_bytes s' = (\<lambda>a. if payload_ptr (bk_addr b) \<le> a \<and> a < payload_ptr (bk_addr b) + bk_size b
           then 0xDE else hp_bytes s a)" "hp_vmm s' = hp_vmm s" "hp_start s' = hp_start s"
    "hp_current_end s' = hp_current_end s"
    unfolding eq by (simp_all add: coalesce_keeps s2_def poison_def)
  have "heap_rel s2 (xs @ ?b # ys)" using mark_refines [OF r1 live] by (simp add: s2_def)
  then have r3: "heap_rel (coalesce_next (bk_addr b) s2) (xs @ join_next ?b ys)"
    using coalesce_next_refines [of s2 xs ?b ys] by simp
  let ?m = "hd (join_next ?b ys)" and ?zs = "tl (join_next ?b ys)"
  have m: "bk_addr ?m = bk_addr b" "bk_free ?m" and shape: "join_next ?b ys = ?m # ?zs"
    using join_next_shape [where b = ?b and ys = ys] by simp_all
  have t: "tiles (hp_start s) (xs @ b # ys) (hp_current_end s)" using rel by (simp add: heap_rel_def blocks_wf_def)
  note lf = list_free_at [OF t na refl]
  have "heap_rel s' (list_free (bk_addr b) (xs @ b # ys))"
  proof (cases xs rule: rev_cases)
    case Nil
    then have "coalesce_prev (bk_addr b) (coalesce_next (bk_addr b) s2) = coalesce_next (bk_addr b) s2"
      using coalesce_prev_first [of _ ?m ?zs] r3 m shape by (metis append_Nil)
    then show ?thesis using r3 lf(1) Nil by (simp add: eq)
  next
    case (snoc zs a)
    have "heap_rel (coalesce_next (bk_addr b) s2) (zs @ a # ?m # ?zs)"
      using r3 shape snoc by (metis append.assoc append_Cons append_Nil)
    from coalesce_prev_refines [OF this m(2)] have
      "heap_rel s' (zs @ (if bk_free a then [merge a ?m] else [a, ?m]) @ ?zs)" using m(1) by (simp add: eq)
    moreover have "zs @ (if bk_free a then [merge a ?m] else [a, ?m]) @ ?zs = list_free (bk_addr b) (xs @ b # ys)"
      using lf(1) snoc shape join_next_merge [of a ?b ys] by (auto simp del: join_next.simps)
    ultimately show ?thesis by simp
  qed
  then show "heap_inv s' (list_free (bk_addr b) (xs @ b # ys))" using lf(2) by (simp add: heap_inv_def)
qed

end
