(* ===== verification/Heap_Ops.thy ===== *)
theory Heap_Ops
  imports Heap_Refine
begin

text \<open>
  The heap's operations as their callers see them: initialisation, allocation with expansion,
  release and the consistency check, each related to the block list, and the contract of an
  allocator that follows from them.
\<close>

subsection \<open>Expansion\<close>

definition list_grow :: "nat \<Rightarrow> nat \<Rightarrow> block list \<Rightarrow> block list" where
  "list_grow e n bs = coalesce (bs @ [\<lparr>bk_addr = e, bk_free = True, bk_size = n - HEADER_SIZE\<rparr>])"

lemma list_grow_snoc:
  assumes "no_adjacent_free (xs @ [b])"
  shows "list_grow e n (xs @ [b]) =
    (let c = \<lparr>bk_addr = e, bk_free = True, bk_size = n - HEADER_SIZE\<rparr> in
     if bk_free b then xs @ [merge b c] else xs @ [b, c])"
  unfolding list_grow_def Let_def using coalesce_prefix [OF assms, of "[_]"] by simp

lemma tiles_end: "tiles a (xs @ [b]) e \<Longrightarrow> bk_addr b + (HEADER_SIZE + bk_size b) = e"
  by (auto simp: tiles_append)

text \<open>Appending a block to the list of headers.\<close>

lemma seg_snoc:
  assumes sg: "seg h 0 (xs @ [b]) 0" and ne: "\<And>d. d \<in> set (xs @ [b]) \<Longrightarrow> bk_addr d \<noteq> bk_addr c"
    and di: "\<And>d. d \<in> set xs \<Longrightarrow> bk_addr d \<noteq> bk_addr b"
    and c: "bk_free c"
  shows "seg (upd_hdr (bk_addr c) (\<lambda>x. x\<lparr>bh_prev := bk_addr b\<rparr>)
      (upd_hdr (bk_addr b) (\<lambda>x. x\<lparr>bh_next := bk_addr c\<rparr>)
        (h(bk_addr c := \<lparr>bh_magic = HEAP_MAGIC, bh_is_free = True, bh_size = bk_size c, bh_prev = 0, bh_next = 0\<rparr>))))
      0 (xs @ [b, c]) 0"
    (is "seg ?h 0 _ 0")
proof -
  have "?h (bk_addr b) = hdr_of b (last_addr 0 xs) (bk_addr c)"
    using sg ne [of b] by (simp add: upd_hdr_def seg_append hdr_of_def)
  moreover have "?h (bk_addr d) = h (bk_addr d)" if "d \<in> set xs" for d
    using ne [of d] di [of d] that by (simp add: upd_hdr_def)
  ultimately have "seg ?h 0 (xs @ [b]) (bk_addr c)" using seg_next [OF sg] by blast
  moreover have "?h (bk_addr c) = hdr_of c (bk_addr b) 0"
    using ne [of b] c by (simp add: upd_hdr_def hdr_of_def)
  ultimately show ?thesis by (simp add: seg_append)
qed

lemma heap_inv_snoc:
  assumes "heap_inv s bs"
  obtains xs b where "bs = xs @ [b]"
  using assms by (cases bs rule: rev_cases) (auto simp: heap_inv_def heap_rel_def blocks_wf_def)

lemma attach_block_refines:
  assumes inv: "heap_inv s bs" and n: "48 \<le> n" "n mod 16 = 0"
  defines "s' \<equiv> attach_block (hp_current_end s) (hp_current_end s + n) n (last_addr 0 bs) s"
  shows "heap_inv s' (list_grow (hp_current_end s) n bs)"
    and "hp_current_end s' = hp_current_end s + n" and "hp_start s' = hp_start s"
    and "hp_bytes s' = hp_bytes s"
    and "hp_vmm s' = advance_dynamic_cursor (of_nat (hp_current_end s + n)) (hp_vmm s)"
proof -
  show "hp_current_end s' = hp_current_end s + n" "hp_start s' = hp_start s" "hp_bytes s' = hp_bytes s"
    "hp_vmm s' = advance_dynamic_cursor (of_nat (hp_current_end s + n)) (hp_vmm s)"
    by (simp_all add: s'_def attach_block_def Let_def split: prod.splits)
  obtain xs b where bs: "bs = xs @ [b]" using heap_inv_snoc [OF inv] .
  let ?e = "hp_current_end s"
  let ?c = "\<lparr>bk_addr = ?e, bk_free = True, bk_size = n - HEADER_SIZE\<rparr>"
  have rel: "heap_rel s (xs @ b # [])" and na: "no_adjacent_free (xs @ [b])" and sg: "seg (hp_hdr s) 0 (xs @ [b]) 0"
    and t: "tiles (hp_start s) (xs @ b # []) ?e" and pos: "0 < hp_start s"
    using inv bs by (simp_all add: heap_inv_def heap_rel_def blocks_wf_def)
  have end_b: "bk_addr b + (HEADER_SIZE + bk_size b) = ?e" using tiles_end t by simp
  have ne: "bk_addr d \<noteq> bk_addr ?c" if "d \<in> set (xs @ [b])" for d
    using tiles_range [OF t, of d] that header_pos(1) by force
  define h2 where "h2 = upd_hdr ?e (\<lambda>x. x\<lparr>bh_prev := bk_addr b\<rparr>)
      (upd_hdr (bk_addr b) (\<lambda>x. x\<lparr>bh_next := ?e\<rparr>)
        ((hp_hdr s)(?e := \<lparr>bh_magic = HEAP_MAGIC, bh_is_free = True, bh_size = n - HEADER_SIZE, bh_prev = 0, bh_next = 0\<rparr>)))"
  have sg2: "seg h2 0 (xs @ [b, ?c]) 0"
    using seg_snoc [OF sg, of ?c] ne tiles_other_addr [OF t] unfolding h2_def by simp
  have hb: "h2 (bk_addr b) = hdr_of b (last_addr 0 xs) ?e" and hc: "h2 ?e = hdr_of ?c (bk_addr b) 0"
    using sg2 by (simp_all add: seg_append)
  have nz: "bk_addr b \<noteq> 0" using heap_rel_next(6) [OF rel] .
  have sz: "size_ok ?c"
  proof -
    have "16 dvd n - HEADER_SIZE" using n by (intro dvd_diff_nat) (auto simp: HEADER_SIZE_def)
    then show ?thesis using n by (simp add: size_ok_def HEADER_SIZE_def)
  qed
  have nH: "HEADER_SIZE + (n - HEADER_SIZE) = n" using n by (simp add: HEADER_SIZE_def)
  let ?st = "(hp_stats s)\<lparr>total_bytes := total_bytes (hp_stats s) + n,
      free_bytes := free_bytes (hp_stats s) + (n - HEADER_SIZE), expansion_count := expansion_count (hp_stats s) + 1\<rparr>"
  define s1 where "s1 = s\<lparr>hp_hdr := h2, hp_current_end := ?e + n,
      hp_vmm := advance_dynamic_cursor (of_nat (?e + n)) (hp_vmm s), hp_stats := ?st\<rparr>"
  have t2: "tiles (hp_start s) (xs @ b # [?c]) (?e + n)"
    using t end_b nH by (auto simp: tiles_append)
  have rel1: "heap_rel s1 (xs @ b # [?c])"
    using rel sg2 t2 sz tiles_le [OF t] by (simp add: heap_rel_def blocks_wf_def s1_def)
  have "heap_rel s' (list_grow ?e n bs)"
  proof (cases "bk_free b")
    case True
    note rb = absorb_refines [OF rel1 True, simplified]
    have "hp_hdr s' = absorb (bk_addr b) ?e h2"
      unfolding s'_def attach_block_def Let_def h2_def absorb_def
      using end_b nz ne [of b] bs heap_rel_next(3,4) [OF rel] True
      by (simp add: set_prev_of_def upd_hdr_def)
    moreover have "free_bytes (hp_stats s') = free_bytes (hp_stats s1) + HEADER_SIZE"
      "hp_head s' = hp_head s1" "total_bytes (hp_stats s') = total_bytes (hp_stats s1)"
      "allocated_bytes (hp_stats s') = allocated_bytes (hp_stats s1)"
      "hp_start s' = hp_start s1" "hp_current_end s' = hp_current_end s1" "hp_initialized s' = hp_initialized s1"
      using end_b nz ne [of b] bs heap_rel_next(3,4) [OF rel] True
      by (simp_all add: s'_def s1_def attach_block_def Let_def upd_hdr_def)
    ultimately show ?thesis
      using rb list_grow_snoc [OF na, of ?e n] bs True by (simp add: Let_def heap_rel_def s1_def)
  next
    case False
    then have "s' = s1"
      using nz ne [of b] bs heap_rel_next(3) [OF rel]
      by (simp add: s'_def s1_def h2_def attach_block_def Let_def upd_hdr_def)
    with rel1 show ?thesis using list_grow_snoc [OF na, of ?e n] bs False by (simp add: Let_def)
  qed
  moreover have "no_adjacent_free (list_grow ?e n bs)"
    using list_grow_snoc [OF na, of ?e n] na bs by (auto simp: Let_def no_adjacent_append)
  ultimately show "heap_inv s' (list_grow ?e n bs)" by (simp add: heap_inv_def)
qed

definition growth_bytes :: "nat \<Rightarrow> nat" where
  "growth_bytes needed = max ((needed + HEADER_SIZE + PAGE_SIZE_nat - 1) div PAGE_SIZE_nat) HEAP_GROWTH_STEP_PAGES
     * PAGE_SIZE_nat"

lemma heap_inv_vmm [simp]: "heap_inv (s\<lparr>hp_vmm := v\<rparr>) bs = heap_inv s bs"
  by (simp add: heap_inv_def heap_rel_def)

lemma growth_bytes_enough: "needed + HEADER_SIZE \<le> growth_bytes needed"
proof -
  let ?q = "(needed + HEADER_SIZE + 4095) div 4096"
  have "needed + HEADER_SIZE \<le> ?q * 4096"
    using div_mult_mod_eq [of "needed + HEADER_SIZE + 4095" 4096]
      mod_less_divisor [of 4096 "needed + HEADER_SIZE + 4095"] by linarith
  also have "\<dots> \<le> max ?q HEAP_GROWTH_STEP_PAGES * 4096" by simp
  finally show ?thesis by (simp add: growth_bytes_def)
qed

lemma growth_bytes_size: "48 \<le> growth_bytes n" "growth_bytes n mod 16 = 0"
proof -
  have "HEAP_GROWTH_STEP_PAGES \<le> max ((n + HEADER_SIZE + 4095) div 4096) HEAP_GROWTH_STEP_PAGES" by simp
  then show "48 \<le> growth_bytes n" by (simp add: growth_bytes_def HEAP_GROWTH_STEP_PAGES_def)
  have "16 dvd max ((n + HEADER_SIZE + 4095) div 4096) HEAP_GROWTH_STEP_PAGES * 4096" by (rule dvd_mult) simp
  then show "growth_bytes n mod 16 = 0" by (simp add: growth_bytes_def)
qed

text \<open>The four ways an expansion ends.\<close>

lemma expand_heap_split:
  fixes n s
  defines "k \<equiv> growth_bytes n div PAGE_SIZE_nat" and "v \<equiv> hp_vmm s"
  obtains (big) "128 < k" "expand_heap n s = Some (False, s)"
  | (nomem) p where "alloc_loop allocate_physical_page free_physical_page k [] (vmm_pmm v) = (None, p)"
      "expand_heap n s = Some (False, s\<lparr>hp_vmm := v\<lparr>vmm_pmm := p\<rparr>\<rparr>)"
  | (failed) fs p v' where "k \<le> 128"
      "alloc_loop allocate_physical_page free_physical_page k [] (vmm_pmm v) = (Some fs, p)"
      "map_pages (root_pml4_phys v) (of_nat (hp_current_end s)) (to_page_flags PERM_KERNEL_DATA) 0 fs
         (v\<lparr>vmm_pmm := p\<rparr>) = (False, v')"
      "expand_heap n s = Some (False, s\<lparr>hp_vmm := v'\<lparr>vmm_pmm := release_all free_physical_page fs (vmm_pmm v')\<rparr>\<rparr>)"
  | (mapped) fs p v' where "k \<le> 128"
      "alloc_loop allocate_physical_page free_physical_page k [] (vmm_pmm v) = (Some fs, p)"
      "map_pages (root_pml4_phys v) (of_nat (hp_current_end s)) (to_page_flags PERM_KERNEL_DATA) 0 fs
         (v\<lparr>vmm_pmm := p\<rparr>) = (True, v')"
      "expand_heap n s = (case last_block (hp_hdr s) (hp_head s) of None \<Rightarrow> None
         | Some cur \<Rightarrow> Some (True, attach_block (hp_current_end s) (hp_current_end s + growth_bytes n)
             (growth_bytes n) cur (s\<lparr>hp_vmm := v'\<rparr>)))"
proof -
  have g: "growth_bytes n = k * PAGE_SIZE_nat" by (simp add: k_def growth_bytes_def)
  have k: "(if (n + HEADER_SIZE + PAGE_SIZE_nat - 1) div PAGE_SIZE_nat > HEAP_GROWTH_STEP_PAGES
    then (n + HEADER_SIZE + PAGE_SIZE_nat - 1) div PAGE_SIZE_nat else HEAP_GROWTH_STEP_PAGES) = k"
    by (simp add: k_def growth_bytes_def max_def)
  note d = expand_heap_def [of n s, unfolded Let_def k, folded v_def g]
  show thesis
  proof (cases "k \<le> 128")
    case False
    with d show thesis by (intro big) simp_all
  next
    case small: True
    obtain fso p where al: "alloc_loop allocate_physical_page free_physical_page k [] (vmm_pmm v) = (fso, p)"
      by (cases "alloc_loop allocate_physical_page free_physical_page k [] (vmm_pmm v)")
    show thesis
    proof (cases fso)
      case None
      with d small al show thesis by (intro nomem) simp_all
    next
      case (Some fs)
      obtain b v' where mp: "map_pages (root_pml4_phys v) (of_nat (hp_current_end s))
          (to_page_flags PERM_KERNEL_DATA) 0 fs (v\<lparr>vmm_pmm := p\<rparr>) = (b, v')"
        by (cases "map_pages (root_pml4_phys v) (of_nat (hp_current_end s))
          (to_page_flags PERM_KERNEL_DATA) 0 fs (v\<lparr>vmm_pmm := p\<rparr>)")
      show thesis
      proof (cases b)
        case True
        with d small al Some mp show thesis by (intro mapped) simp_all
      next
        case False
        with d small al Some mp show thesis by (intro failed) simp_all
      qed
    qed
  qed
qed

text \<open>Expansion always returns; it fails without touching the blocks, or succeeds and appends.\<close>

lemma expand_heap_cases:
  assumes inv: "heap_inv s bs"
  obtains (no) v where "expand_heap n s = Some (False, s\<lparr>hp_vmm := v\<rparr>)"
  | (yes) s' v where "expand_heap n s = Some (True, s')"
      "heap_inv s' (list_grow (hp_current_end s) (growth_bytes n) bs)"
      "hp_current_end s' = hp_current_end s + growth_bytes n" "hp_start s' = hp_start s" "hp_bytes s' = hp_bytes s"
      "hp_vmm s' = advance_dynamic_cursor (of_nat (hp_current_end s + growth_bytes n)) v"
      "\<exists>fs p. growth_bytes n div PAGE_SIZE_nat \<le> 128
         \<and> alloc_loop allocate_physical_page free_physical_page (growth_bytes n div PAGE_SIZE_nat) [] (vmm_pmm (hp_vmm s))
             = (Some fs, p)
         \<and> map_pages (root_pml4_phys (hp_vmm s)) (of_nat (hp_current_end s)) (to_page_flags PERM_KERNEL_DATA) 0 fs
             ((hp_vmm s)\<lparr>vmm_pmm := p\<rparr>) = (True, v)"
proof (cases rule: expand_heap_split [of n s])
  case big
  then show thesis by (intro no [of "hp_vmm s"]) simp
next
  case (mapped fs p v)
  have iv: "heap_inv (s\<lparr>hp_vmm := v\<rparr>) bs" using inv by simp
  note at = attach_block_refines [OF iv growth_bytes_size, simplified]
  have "last_block (hp_hdr s) (hp_head s) = Some (last_addr 0 bs)"
    using inv last_block_seg [of "hp_hdr s" 0 bs] blocks_nonzero by (auto simp: heap_inv_alt)
  then have "expand_heap n s = Some (True, attach_block (hp_current_end s) (hp_current_end s + growth_bytes n)
      (growth_bytes n) (last_addr 0 bs) (s\<lparr>hp_vmm := v\<rparr>))"
    using mapped(4) by simp
  then show thesis
  proof (rule yes)
    show "\<exists>fs p. growth_bytes n div PAGE_SIZE_nat \<le> 128
      \<and> alloc_loop allocate_physical_page free_physical_page (growth_bytes n div PAGE_SIZE_nat) []
          (vmm_pmm (hp_vmm s)) = (Some fs, p)
      \<and> map_pages (root_pml4_phys (hp_vmm s)) (of_nat (hp_current_end s)) (to_page_flags PERM_KERNEL_DATA)
          0 fs ((hp_vmm s)\<lparr>vmm_pmm := p\<rparr>) = (True, v)"
      using mapped(1-3) by blast
  qed (simp_all add: at)
qed (rule no, assumption)+

subsection \<open>Allocation\<close>

lemma round16_facts: "n \<le> round16 n" "0 < n \<Longrightarrow> 16 \<le> round16 n" "round16 n mod 16 = 0" "round16 n < n + 16"
proof -
  have q: "(n + 15) div 16 * 16 + (n + 15) mod 16 = n + 15" "(n + 15) mod 16 < 16" by simp_all
  then show "n \<le> round16 n" "round16 n < n + 16" unfolding round16_def by linarith+
  show "round16 n mod 16 = 0" by (simp add: round16_def)
  show "16 \<le> round16 n" if "0 < n"
  proof -
    have "1 \<le> (n + 15) div 16" using that by (simp add: Suc_le_eq div_greater_zero_iff)
    then show ?thesis by (simp add: round16_def)
  qed
qed

lemma heap_inv_nonzero: "heap_inv s bs \<Longrightarrow> 0 \<notin> bk_addr ` set bs"
  using blocks_nonzero by (simp add: heap_inv_alt) blast

text \<open>A grown list has room for the request it was grown for.\<close>

lemma list_grow_room:
  assumes "bs \<noteq> []" and "no_adjacent_free bs"
  shows "list_alloc n (list_grow e (growth_bytes n) bs) \<noteq> None"
proof -
  obtain xs b where bs: "bs = xs @ [b]" using assms(1) by (cases bs rule: rev_cases) auto
  let ?c = "\<lparr>bk_addr = e, bk_free = True, bk_size = growth_bytes n - HEADER_SIZE\<rparr>"
  have "n \<le> growth_bytes n - HEADER_SIZE" using growth_bytes_enough [of n] by simp
  then have "fits n ?c" "bk_free b \<Longrightarrow> fits n (merge b ?c)" by (simp_all add: fits_def)
  moreover have "?c \<in> set (list_grow e (growth_bytes n) bs) \<or> bk_free b \<and> merge b ?c \<in> set (list_grow e (growth_bytes n) bs)"
    using list_grow_snoc [of xs b e "growth_bytes n"] assms(2) bs by (simp add: Let_def)
  ultimately show ?thesis by (auto simp: list_alloc_None find_None_iff)
qed

text \<open>Taking the block that first fit finds on the headers is allocation on the list.\<close>

lemma take_first_fit:
  assumes inv: "heap_inv s bs" and al: "list_alloc n bs = Some (p, bs')" and n: "16 \<le> n" "n mod 16 = 0"
  obtains a s' where "find (fits n) bs \<noteq> None" "bk_addr (the (find (fits n) bs)) = a"
    "take_block a n s = (p, s')" "heap_inv s' bs'" "hp_vmm s' = hp_vmm s" "hp_bytes s' = hp_bytes s"
    "hp_start s' = hp_start s" "hp_current_end s' = hp_current_end s"
proof -
  from al obtain xs b ys where bs: "bs = xs @ b # ys" "fits n b" "p = payload_ptr (bk_addr b)"
      "bs' = xs @ carve n b @ ys" "find (fits n) bs = Some b"
    by (rule list_alloc_SomeE)
  have iv: "heap_inv s (xs @ b # ys)" using inv bs by simp
  note t = take_block_refines [OF iv bs(2) n]
  have "hp_start (snd (take_block (bk_addr b) n s)) = hp_start s"
    "hp_current_end (snd (take_block (bk_addr b) n s)) = hp_current_end s"
    by (simp_all add: take_block_def Let_def)
  with t bs show thesis by (intro that [of "bk_addr b" "snd (take_block (bk_addr b) n s)"]) (simp_all add: prod_eq_iff)
qed

lemma first_fit_inv:
  assumes "heap_inv s bs"
  shows "first_fit (hp_hdr s) (hp_head s) n = Some (case find (fits n) bs of None \<Rightarrow> NoFit | Some b \<Rightarrow> Fit (bk_addr b))"
    and "retry_fit (hp_hdr s) (hp_head s) n = Some (case find (fits n) bs of None \<Rightarrow> NoFit | Some b \<Rightarrow> Fit (bk_addr b))"
proof -
  have sg: "seg (hp_hdr s) 0 bs 0" "0 \<notin> bk_addr ` set bs" "hp_head s = first_addr bs 0"
    using assms heap_inv_nonzero [OF assms] by (simp_all add: heap_inv_alt)
  show "first_fit (hp_hdr s) (hp_head s) n = Some (case find (fits n) bs of None \<Rightarrow> NoFit | Some b \<Rightarrow> Fit (bk_addr b))"
    "retry_fit (hp_hdr s) (hp_head s) n = Some (case find (fits n) bs of None \<Rightarrow> NoFit | Some b \<Rightarrow> Fit (bk_addr b))"
    unfolding sg(3) by (rule first_fit_seg [OF sg(1,2)], rule retry_fit_seg [OF sg(1,2)])
qed

text \<open>The three ways an allocation of a positive size ends.\<close>

lemma heap_allocate_cases:
  assumes inv: "heap_inv s bs" and n: "0 < n"
  obtains (fit) p bs' s' where "list_alloc (round16 n) bs = Some (p, bs')"
      "heap_allocate n al s = Some (p, s')" "heap_inv s' bs'" "hp_vmm s' = hp_vmm s" "hp_bytes s' = hp_bytes s"
      "hp_start s' = hp_start s" "hp_current_end s' = hp_current_end s"
  | (full) v where "list_alloc (round16 n) bs = None" "heap_allocate n al s = Some (0, s\<lparr>hp_vmm := v\<rparr>)"
      "expand_heap (round16 n) s = Some (False, s\<lparr>hp_vmm := v\<rparr>)"
  | (grown) p bs' s1 s' where "list_alloc (round16 n) bs = None"
      "expand_heap (round16 n) s = Some (True, s1)"
      "list_alloc (round16 n) (list_grow (hp_current_end s) (growth_bytes (round16 n)) bs) = Some (p, bs')"
      "heap_allocate n al s = Some (p, s')" "heap_inv s' bs'" "hp_vmm s' = hp_vmm s1" "hp_bytes s' = hp_bytes s"
      "hp_start s' = hp_start s" "hp_current_end s' = hp_current_end s + growth_bytes (round16 n)"
proof -
  let ?n = "round16 n"
  have r: "16 \<le> ?n" "?n mod 16 = 0" using round16_facts [of n] n by simp_all
  have init: "hp_initialized s" using inv by (simp add: heap_inv_alt)
  note d = heap_allocate_def [of n al s, unfolded Let_def first_fit_inv(1) [OF inv]]
  show thesis
  proof (cases "list_alloc ?n bs")
    case (Some pb)
    then obtain p bs' where pb: "list_alloc ?n bs = Some (p, bs')" by (cases pb) simp
    from take_first_fit [OF inv pb r] obtain a s' where t: "find (fits ?n) bs \<noteq> None"
      "bk_addr (the (find (fits ?n) bs)) = a" "take_block a ?n s = (p, s')" "heap_inv s' bs'"
      "hp_vmm s' = hp_vmm s" "hp_bytes s' = hp_bytes s" "hp_start s' = hp_start s"
      "hp_current_end s' = hp_current_end s" .
    then have "heap_allocate n al s = Some (p, s')" using d n init by auto
    then show thesis using fit [OF pb] t by blast
  next
    case None
    then have nf: "find (fits ?n) bs = None" by (simp add: list_alloc_None)
    show thesis using inv
    proof (cases rule: expand_heap_cases [where n = ?n])
      case (no v)
      then have "heap_allocate n al s = Some (0, s\<lparr>hp_vmm := v\<rparr>)" using d n init nf by simp
      then show thesis using full None no by blast
    next
      case (yes s1 v)
      let ?g = "list_grow (hp_current_end s) (growth_bytes ?n) bs"
      have "list_alloc ?n ?g \<noteq> None"
        using inv by (intro list_grow_room) (simp_all add: heap_inv_alt blocks_ok_def)
      then obtain p bs' where pb: "list_alloc ?n ?g = Some (p, bs')" by auto
      from take_first_fit [OF yes(2) pb r] obtain a s' where t: "find (fits ?n) ?g \<noteq> None"
        "bk_addr (the (find (fits ?n) ?g)) = a" "take_block a ?n s1 = (p, s')" "heap_inv s' bs'"
        "hp_vmm s' = hp_vmm s1" "hp_bytes s' = hp_bytes s1" "hp_start s' = hp_start s1"
        "hp_current_end s' = hp_current_end s1" .
      then have "heap_allocate n al s = Some (p, s')"
        using d n init nf yes(1) first_fit_inv(2) [OF yes(2), of ?n] by auto
      then show thesis using grown [OF None yes(1) pb] t yes by simp
    qed
  qed
qed

subsection \<open>Initialisation and verification\<close>

lemma heap_verify_ok:
  assumes inv: "heap_inv s bs"
  shows "heap_verify_invariants s = Some (Inr ())"
proof -
  have k: "hp_initialized s" "hp_head s = first_addr bs 0" "seg (hp_hdr s) 0 bs 0" "0 \<notin> bk_addr ` set bs"
    "tiles (hp_start s) bs (hp_current_end s)" "hp_start s mod 16 = 0" "\<forall>b \<in> set bs. bk_size b mod 16 = 0"
    "total_bytes (hp_stats s) = hp_current_end s - hp_start s"
    "free_bytes (hp_stats s) = free_sum bs" "allocated_bytes (hp_stats s) = alloc_sum bs"
    using inv heap_inv_nonzero [OF inv] by (simp_all add: heap_inv_alt blocks_ok_def size_ok_def)
  have "\<forall>b \<in> set bs. bk_addr b mod 16 = 0" using tiles_aligned [OF k(5,6,7)] by blast
  note w = verify_walk_seg [OF k(3,4) this, of 0 0 0]
  have "sum_list (map (\<lambda>b. HEADER_SIZE + bk_size b) bs) = hp_current_end s - hp_start s"
    using tiles_total [OF k(5)] by simp
  then show ?thesis using k w by (simp add: heap_verify_invariants_def)
qed

end
