(* ===== verification/Heap_Allocator.thy ===== *)
theory Heap_Allocator
  imports Heap_Ops
begin

text \<open>
  The contract of a block allocator, what follows from it for its clients, and the kernel heap as
  an instance: the live blocks of a heap are read off its headers.
\<close>

lemma fst_imageE:
  assumes "x \<in> fst ` B"
  obtains y where "(x, y) \<in> B"
  using assms by auto

subsection \<open>The contract\<close>

locale block_allocator =
  fixes invar :: "'s \<Rightarrow> bool"
    and blocks :: "'s \<Rightarrow> (nat \<times> nat) set"
    and alloc :: "nat \<Rightarrow> 's \<Rightarrow> (nat \<times> 's) option"
    and dealloc :: "nat \<Rightarrow> nat \<Rightarrow> 's \<Rightarrow> 's"
  assumes alloc_total: "invar s \<Longrightarrow> 0 < n \<Longrightarrow> \<exists>p s'. alloc n s = Some (p, s') \<and> invar s'
      \<and> (p = 0 \<and> blocks s' = blocks s
         \<or> (\<exists>m. n \<le> m \<and> (p, m) \<notin> blocks s \<and> blocks s' = insert (p, m) (blocks s)))"
    and dealloc_removes: "invar s \<Longrightarrow> (p, m) \<in> blocks s \<Longrightarrow> 0 < n \<Longrightarrow>
      invar (dealloc p n s) \<and> blocks (dealloc p n s) = blocks s - {(p, m)}"
    and blocks_apart: "invar s \<Longrightarrow> (p, m) \<in> blocks s \<Longrightarrow> (q, l) \<in> blocks s \<Longrightarrow> (p, m) \<noteq> (q, l) \<Longrightarrow>
      p + m < q \<or> q + l < p"
    and blocks_nonnull: "invar s \<Longrightarrow> (p, m) \<in> blocks s \<Longrightarrow> p \<noteq> 0"
begin

text \<open>A client that serves a list of requests one after the other, then returns what it was given.\<close>

fun serve :: "nat list \<Rightarrow> 's \<Rightarrow> (nat list \<times> 's) option" where
  "serve [] s = Some ([], s)"
| "serve (n # ns) s =
     (case alloc n s of
        None \<Rightarrow> None
      | Some (p, s') \<Rightarrow> map_option (\<lambda>(ps, s''). (p # ps, s'')) (serve ns s'))"

fun give_back :: "nat list \<Rightarrow> nat list \<Rightarrow> 's \<Rightarrow> 's" where
  "give_back (p # ps) (n # ns) s = give_back ps ns (if p = 0 then s else dealloc p n s)"
| "give_back _ _ s = s"

lemma block_unique: "invar s \<Longrightarrow> (p, m) \<in> blocks s \<Longrightarrow> (p, l) \<in> blocks s \<Longrightarrow> m = l"
  using blocks_apart [of s p m p l] by fastforce

text \<open>Every list of requests is served, and the non-null answers are new live blocks.\<close>

lemma serve_total:
  assumes "invar s" and "\<forall>n \<in> set ns. 0 < n"
  shows "\<exists>ps s'. serve ns s = Some (ps, s') \<and> invar s' \<and> length ps = length ns
    \<and> blocks s \<subseteq> blocks s' \<and> fst ` (blocks s' - blocks s) = set ps - {0}
    \<and> distinct (filter (\<lambda>p. p \<noteq> 0) ps)"
  using assms
proof (induction ns arbitrary: s)
  case (Cons n ns)
  from alloc_total [of s n] Cons.prems obtain p s1 where a: "alloc n s = Some (p, s1)" and i: "invar s1"
    and b: "p = 0 \<and> blocks s1 = blocks s \<or> (\<exists>m. n \<le> m \<and> (p, m) \<notin> blocks s \<and> blocks s1 = insert (p, m) (blocks s))"
    by auto
  from Cons.IH [OF i] Cons.prems obtain ps s2 where r: "serve ns s1 = Some (ps, s2)" "invar s2"
    "length ps = length ns" "blocks s1 \<subseteq> blocks s2" "fst ` (blocks s2 - blocks s1) = set ps - {0}"
    "distinct (filter (\<lambda>p. p \<noteq> 0) ps)" by auto
  have sv: "serve (n # ns) s = Some (p # ps, s2)" using a r(1) by simp
  show ?case
  proof (cases "p = 0 \<and> blocks s1 = blocks s")
    case True
    with sv r show ?thesis by auto
  next
    case False
    with b obtain m where m: "(p, m) \<notin> blocks s" "blocks s1 = insert (p, m) (blocks s)" by blast
    have pn: "p \<noteq> 0" using blocks_nonnull [OF i, of p m] m(2) by simp
    have new: "p \<notin> set ps"
    proof
      assume "p \<in> set ps"
      with pn have "p \<in> fst ` (blocks s2 - blocks s1)" unfolding r(5) by simp
      from fst_imageE [OF this] obtain l where l: "(p, l) \<in> blocks s2 - blocks s1" .
      moreover have "(p, m) \<in> blocks s2" using m(2) r(4) by auto
      ultimately have "m = l" using block_unique [OF r(2)] by blast
      with l m(2) show False by simp
    qed
    have "blocks s2 - blocks s = insert (p, m) (blocks s2 - blocks s1)" using m r(4) by auto
    then have "fst ` (blocks s2 - blocks s) = set (p # ps) - {0}"
      using r(5) pn by (simp add: insert_Diff_if)
    moreover have "blocks s \<subseteq> blocks s2" using m r(4) by auto
    ultimately show ?thesis using sv r(2,3,6) new pn by auto
  qed
qed auto

text \<open>Giving back distinct live pointers removes exactly their blocks.\<close>

lemma give_back_blocks:
  assumes "invar s" and "length ps = length ns" and "\<forall>n \<in> set ns. 0 < n"
    and "distinct (filter (\<lambda>p. p \<noteq> 0) ps)" and "set ps - {0} \<subseteq> fst ` blocks s"
  shows "invar (give_back ps ns s) \<and> blocks (give_back ps ns s) = {b \<in> blocks s. fst b \<notin> set ps}"
  using assms
proof (induction ps ns s rule: give_back.induct)
  case (1 p ps n ns s)
  show ?case
  proof (cases "p = 0")
    case True
    then have "0 \<notin> fst ` blocks s" using blocks_nonnull [OF "1.prems"(1)] by force
    then have "{b \<in> blocks s. fst b \<notin> set ps} = {b \<in> blocks s. fst b \<notin> set (p # ps)}" using True by force
    moreover have "distinct (filter (\<lambda>p. p \<noteq> 0) ps)" "set ps - {0} \<subseteq> fst ` blocks s"
      using "1.prems"(4,5) True by auto
    ultimately show ?thesis using "1.IH" "1.prems"(1-3) True by simp
  next
    case False
    then obtain m where m: "(p, m) \<in> blocks s" using "1.prems"(5) by auto
    have d: "invar (dealloc p n s)" "blocks (dealloc p n s) = blocks s - {(p, m)}"
      using dealloc_removes [OF "1.prems"(1) m, of n] "1.prems"(3) by simp_all
    have "p \<notin> set ps" using "1.prems"(4) False by auto
    then have "set ps - {0} \<subseteq> fst ` (blocks s - {(p, m)})" using "1.prems"(5) by force
    moreover have "b = (p, m) \<longleftrightarrow> fst b = p" if "b \<in> blocks s" for b
      using block_unique [OF "1.prems"(1) m, of "snd b"] that by (cases b) auto
    then have "{b \<in> blocks s - {(p, m)}. fst b \<notin> set ps} = {b \<in> blocks s. fst b \<notin> set (p # ps)}"
      by (intro Collect_cong) auto
    ultimately show ?thesis using "1.IH" "1.prems"(2-4) False d by simp
  qed
qed auto

text \<open>A client that gives back everything it was given leaves the live blocks as they were.\<close>

lemma serve_give_back:
  assumes "invar s" and "\<forall>n \<in> set ns. 0 < n" and "serve ns s = Some (ps, s')"
  shows "invar (give_back ps ns s') \<and> blocks (give_back ps ns s') = blocks s"
proof -
  from serve_total [OF assms(1,2)] assms(3) have k: "invar s'" "length ps = length ns" "blocks s \<subseteq> blocks s'"
    "fst ` (blocks s' - blocks s) = set ps - {0}" "distinct (filter (\<lambda>p. p \<noteq> 0) ps)" by auto
  have sub: "set ps - {0} \<subseteq> fst ` blocks s'" using k(4) by auto
  have "{b \<in> blocks s'. fst b \<notin> set ps} = blocks s"
  proof (intro set_eqI iffI)
    fix b assume b: "b \<in> blocks s"
    then have "b \<in> blocks s'" using k(3) by auto
    moreover have "fst b \<notin> set ps"
    proof
      assume "fst b \<in> set ps"
      moreover have "fst b \<noteq> 0" using blocks_nonnull [OF assms(1), of "fst b" "snd b"] b by simp
      ultimately have "fst b \<in> fst ` (blocks s' - blocks s)" unfolding k(4) by simp
      from fst_imageE [OF this] obtain l where l: "(fst b, l) \<in> blocks s' - blocks s" .
      with block_unique [OF k(1), of "fst b" l "snd b"] \<open>b \<in> blocks s'\<close> b show False by auto
    qed
    ultimately show "b \<in> {b \<in> blocks s'. fst b \<notin> set ps}" by simp
  next
    fix b assume b: "b \<in> {b \<in> blocks s'. fst b \<notin> set ps}"
    show "b \<in> blocks s"
    proof (rule ccontr)
      assume "b \<notin> blocks s"
      with b have "fst b \<in> set ps - {0}" using k(4) by blast
      with b show False by simp
    qed
  qed
  with give_back_blocks [OF k(1,2) assms(2) k(5) sub] show ?thesis by simp
qed

end

subsection \<open>The live blocks of a heap\<close>

partial_function (option) read_blocks :: "header_store \<Rightarrow> nat \<Rightarrow> block list option" where
  "read_blocks h cur =
     (if cur = 0 then Some []
      else Option.bind (read_blocks h (bh_next (h cur)))
        (\<lambda>bs. Some (\<lparr>bk_addr = cur, bk_free = bh_is_free (h cur), bk_size = bh_size (h cur)\<rparr> # bs)))"

definition heap_blocks :: "kheap \<Rightarrow> block list" where
  "heap_blocks s = (case read_blocks (hp_hdr s) (hp_head s) of None \<Rightarrow> [] | Some bs \<Rightarrow> bs)"

definition heap_ok :: "kheap \<Rightarrow> bool" where
  "heap_ok s \<longleftrightarrow> heap_inv s (heap_blocks s)"

definition list_live :: "block list \<Rightarrow> (nat \<times> nat) set" where
  "list_live bs = (\<lambda>b. (payload_ptr (bk_addr b), bk_size b)) ` {b \<in> set bs. \<not> bk_free b}"

definition heap_live :: "kheap \<Rightarrow> (nat \<times> nat) set" where
  "heap_live s = list_live (heap_blocks s)"

lemma read_blocks_seg:
  assumes "seg h p bs 0" and "0 \<notin> bk_addr ` set bs"
  shows "read_blocks h (first_addr bs 0) = Some bs"
  using assms
proof (induction bs arbitrary: p)
  case Nil
  then show ?case by (simp add: read_blocks.simps)
next
  case (Cons b bs)
  then show ?case by (subst read_blocks.simps) auto
qed

lemma heap_blocks_inv: "heap_inv s bs \<Longrightarrow> heap_blocks s = bs"
  using read_blocks_seg [of "hp_hdr s" 0 bs] heap_inv_nonzero [of s bs]
  by (simp add: heap_blocks_def heap_inv_alt)

lemma heap_okI: "heap_inv s bs \<Longrightarrow> heap_ok s"
  using heap_blocks_inv [of s bs] by (simp add: heap_ok_def)

lemma heap_live_inv: "heap_inv s bs \<Longrightarrow> heap_live s = list_live bs"
  using heap_blocks_inv [of s bs] by (simp add: heap_live_def)

lemma list_live_simps [simp]:
  "list_live [] = {}"
  "list_live (b # bs) = (if bk_free b then {} else {(payload_ptr (bk_addr b), bk_size b)}) \<union> list_live bs"
  "list_live (xs @ ys) = list_live xs \<union> list_live ys"
  by (auto simp: list_live_def)

lemma live_block:
  assumes "heap_inv s bs" and "(p, m) \<in> list_live bs"
  obtains xs b ys where "bs = xs @ b # ys" "\<not> bk_free b" "p = payload_ptr (bk_addr b)" "m = bk_size b"
  using assms(2) by (auto simp: list_live_def dest: split_list)

lemma payload_inj [simp]: "payload_ptr a = payload_ptr b \<longleftrightarrow> a = b" "0 < payload_ptr a" "payload_ptr a \<noteq> 0"
  by (simp_all add: payload_ptr_def)

text \<open>Live blocks are disjoint, lie inside the heap and start at multiples of 16.\<close>

lemma live_apart:
  assumes inv: "heap_inv s bs" and "(p, m) \<in> list_live bs" "(q, l) \<in> list_live bs" "(p, m) \<noteq> (q, l)"
  shows "p + m < q \<or> q + l < p"
proof -
  obtain xs b ys where b: "bs = xs @ b # ys" "p = payload_ptr (bk_addr b)" "m = bk_size b"
    using live_block [OF inv assms(2)] by metis
  from assms(3) obtain c where c: "c \<in> set bs" "q = payload_ptr (bk_addr c)" "l = bk_size c"
    by (auto simp: list_live_def)
  have "c \<noteq> b" using assms(4) b c by auto
  with b c have "c \<in> set xs \<union> set ys" by auto
  moreover have "tiles (hp_start s) (xs @ b # ys) (hp_current_end s)" using inv b by (simp add: heap_inv_alt blocks_ok_def)
  ultimately show ?thesis
    using tiles_disjoint [of "hp_start s" xs b ys "hp_current_end s" c] header_pos(1)
    unfolding b(2,3) c(2,3) payload_ptr_def by linarith
qed

lemma live_in_heap:
  assumes inv: "heap_inv s bs" and "(p, m) \<in> list_live bs"
  shows "hp_start s < p" "p + m \<le> hp_current_end s" "p mod 16 = 0" "16 \<le> m"
proof -
  obtain b where b: "b \<in> set bs" "p = payload_ptr (bk_addr b)" "m = bk_size b"
    using assms(2) by (auto simp: list_live_def)
  have t: "tiles (hp_start s) bs (hp_current_end s)" "hp_start s mod 16 = 0" "\<forall>b \<in> set bs. size_ok b"
    using inv by (simp_all add: heap_inv_alt blocks_ok_def)
  show "hp_start s < p" "p + m \<le> hp_current_end s"
    using tiles_range [OF t(1) b(1)] header_pos(1) unfolding b(2,3) payload_ptr_def by linarith+
  have "bk_addr b mod 16 = 0" using tiles_aligned [OF t(1,2)] t(3) b(1) by (auto simp: size_ok_def)
  then show "p mod 16 = 0" using b by (simp add: payload_ptr_def HEADER_SIZE_def mod_add_eq [symmetric])
  show "16 \<le> m" using t(3) b by (simp add: size_ok_def)
qed

text \<open>What the list operations do to the live blocks.\<close>

lemma list_alloc_live:
  assumes inv: "heap_inv s bs" and al: "list_alloc n bs = Some (p, bs')" and n: "16 \<le> n" "n mod 16 = 0"
  shows "\<exists>m. n \<le> m \<and> (p, m) \<notin> list_live bs \<and> list_live bs' = insert (p, m) (list_live bs)"
proof -
  from al obtain xs b ys where bs: "bs = xs @ b # ys" "fits n b" "p = payload_ptr (bk_addr b)"
      "bs' = xs @ carve n b @ ys" by (rule list_alloc_SomeE)
  have t: "tiles (hp_start s) (xs @ b # ys) (hp_current_end s)" and sz: "size_ok b"
    using inv bs by (simp_all add: heap_inv_alt blocks_ok_def)
  from carve_facts(5) [OF bs(2) n sz] obtain c cs where c: "carve n b = c # cs" "bk_addr c = bk_addr b"
    "\<not> bk_free c" "n \<le> bk_size c" "\<forall>d \<in> set cs. bk_free d" by auto
  have cs: "list_live cs = {}" using c(5) by (auto simp: list_live_def)
  have fb: "bk_free b" using bs(2) by (simp add: fits_def)
  have "(p, bk_size c) \<notin> list_live bs"
    using tiles_other_addr [OF t] fb bs by (fastforce simp: list_live_def)
  moreover have "list_live bs' = insert (p, bk_size c) (list_live bs)" using bs c cs fb by auto
  ultimately show ?thesis using c(4) by blast
qed

lemma list_grow_live:
  assumes "bs \<noteq> []" and "no_adjacent_free bs"
  shows "list_live (list_grow e n bs) = list_live bs"
proof -
  obtain xs b where bs: "bs = xs @ [b]" using assms(1) by (cases bs rule: rev_cases) auto
  then show ?thesis using list_grow_snoc [of xs b e n] assms(2) by (simp add: Let_def)
qed

lemma join_next_live: "bk_free b \<Longrightarrow> list_live (join_next b ys) = list_live ys"
  by (cases ys) auto

lemma list_free_live:
  assumes inv: "heap_inv s (xs @ b # ys)" and live: "\<not> bk_free b"
  shows "list_live (list_free (bk_addr b) (xs @ b # ys))
    = list_live (xs @ b # ys) - {(payload_ptr (bk_addr b), bk_size b)}"
proof -
  have t: "tiles (hp_start s) (xs @ b # ys) (hp_current_end s)" and na: "no_adjacent_free (xs @ b # ys)"
    using inv by (simp_all add: heap_inv_alt blocks_ok_def)
  have "(payload_ptr (bk_addr b), bk_size b) \<notin> list_live xs \<union> list_live ys"
    using tiles_other_addr [OF t] by (fastforce simp: list_live_def)
  then have r: "list_live (xs @ b # ys) - {(payload_ptr (bk_addr b), bk_size b)} = list_live xs \<union> list_live ys"
    using live by auto
  have "list_live xs = list_live (butlast xs)" if "xs \<noteq> []" "bk_free (last xs)"
    using that by (cases xs rule: rev_cases) auto
  then show ?thesis unfolding r list_free_at(1) [OF t na refl] by (auto simp: join_next_live)
qed

interpretation kernel_heap: block_allocator heap_ok heap_live "\<lambda>n. heap_allocate n al" heap_deallocate
  for al :: nat
proof unfold_locales
  fix s and n :: nat assume ok: "heap_ok s" and n: "0 < n"
  let ?bs = "heap_blocks s"
  have inv: "heap_inv s ?bs" using ok by (simp add: heap_ok_def)
  have r: "16 \<le> round16 n" "round16 n mod 16 = 0" "n \<le> round16 n" using round16_facts [of n] n by simp_all
  have ne: "?bs \<noteq> []" "no_adjacent_free ?bs" using inv by (simp_all add: heap_inv_alt blocks_ok_def)
  from inv n show "\<exists>p s'. heap_allocate n al s = Some (p, s') \<and> heap_ok s'
      \<and> (p = 0 \<and> heap_live s' = heap_live s
         \<or> (\<exists>m\<ge>n. (p, m) \<notin> heap_live s \<and> heap_live s' = insert (p, m) (heap_live s)))"
  proof (cases rule: heap_allocate_cases [where al = al])
    case (fit p bs' s')
    from list_alloc_live [OF inv fit(1) r(1,2)] r(3) fit(3) show ?thesis
      using fit(2) heap_okI [OF fit(3)] heap_live_inv [OF fit(3)] by (auto simp: heap_live_def intro: le_trans)
  next
    case (full v)
    have "heap_inv (s\<lparr>hp_vmm := v\<rparr>) ?bs" using inv by simp
    from heap_okI [OF this] heap_live_inv [OF this] show ?thesis using full(2) by (auto simp: heap_live_def)
  next
    case (grown p bs' s1 s')
    have "list_live (list_grow (hp_current_end s) (growth_bytes (round16 n)) ?bs) = list_live ?bs"
      by (rule list_grow_live [OF ne])
    moreover from inv grown(2) have g: "heap_inv s1 (list_grow (hp_current_end s) (growth_bytes (round16 n)) ?bs)"
      by (cases rule: expand_heap_cases [where n = "round16 n"]) auto
    ultimately show ?thesis
      using list_alloc_live [OF g grown(3) r(1,2)] r(3) grown(4) heap_okI [OF grown(5)] heap_live_inv [OF grown(5)]
      by (auto simp: heap_live_def intro: le_trans)
  qed
next
  fix s p m and n :: nat assume ok: "heap_ok s" and l: "(p, m) \<in> heap_live s" and n: "0 < n"
  have inv: "heap_inv s (heap_blocks s)" using ok by (simp add: heap_ok_def)
  from live_block [OF inv] l obtain xs b ys where b: "heap_blocks s = xs @ b # ys" "\<not> bk_free b"
    "p = payload_ptr (bk_addr b)" "m = bk_size b" unfolding heap_live_def by metis
  have iv: "heap_inv s (xs @ b # ys)" using inv b by simp
  note d = deallocate_refines(1) [OF iv b(2), of n]
  show "heap_ok (heap_deallocate p n s) \<and> heap_live (heap_deallocate p n s) = heap_live s - {(p, m)}"
    using heap_okI [OF d] heap_live_inv [OF d] heap_live_inv [OF iv] n b list_free_live [OF iv b(2)] by simp
next
  fix s p m q l assume "heap_ok s" "(p, m) \<in> heap_live s" "(q, l) \<in> heap_live s" "(p, m) \<noteq> (q, l)"
  then show "p + m < q \<or> q + l < p" using live_apart by (simp add: heap_ok_def heap_live_def)
next
  fix s p m assume "heap_ok s" "(p, m) \<in> heap_live s"
  then show "p \<noteq> 0" by (auto simp: heap_live_def list_live_def)
qed

end
