(* ===== verification/Vmm_Boot.thy ===== *)
theory Vmm_Boot
  imports Vmm_Ops
begin

text \<open>
  Bringing up the virtual memory manager (\<^verbatim>\<open>vmm::init\<close>): the 2 MiB identity map of the low
  4 GiB, the identity map of the firmware's regions and of the device registers, the switch of CR3
  and the creation of the kernel-half tables, together with the consistency checks
  \<^verbatim>\<open>verify_page_tables\<close>, \<^verbatim>\<open>verify_null_page_unmapped\<close> and \<^verbatim>\<open>shares_kernel_half\<close>.

  The addresses of the interrupt controllers and of the framebuffer are arguments.  A halt or a
  panic is an error result.  Both ends of every page loop are page aligned, so a loop
  \<^verbatim>\<open>while curr < end { ..; curr += PAGE_SIZE }\<close> visits the addresses of \<open>page_span\<close>
  (\<open>page_span_unfold\<close> is its recursion).  Setting EFER.NXE has no counterpart in the state.
\<close>

subsection \<open>Consistency checks\<close>

definition all_indices :: "pt_index list" where
  "all_indices = map of_nat [0..<512]"

fun first_error :: "('a \<Rightarrow> 'e option) \<Rightarrow> 'a list \<Rightarrow> 'e option" where
  "first_error f [] = None"
| "first_error f (x # xs) = (case f x of Some e \<Rightarrow> Some e | None \<Rightarrow> first_error f xs)"

definition check_entry :: "pte \<Rightarrow> string \<Rightarrow> (u64 \<Rightarrow> string option) \<Rightarrow> string option" where
  "check_entry e msg below =
     (if is_present e then
        if pte_phys_addr e mod PAGE_SIZE \<noteq> 0 then Some msg else below (pte_phys_addr e)
      else None)"

definition check_pt :: "phys_mem \<Rightarrow> u64 \<Rightarrow> string option" where
  "check_pt m t = first_error (\<lambda>i. check_entry (m t i)
     ''PT leaf entry physical address is unaligned'' (\<lambda>_. None)) all_indices"

definition check_pd :: "phys_mem \<Rightarrow> u64 \<Rightarrow> string option" where
  "check_pd m t = first_error (\<lambda>i. check_entry (m t i)
     ''PD entry physical address is unaligned'' (check_pt m)) all_indices"

definition check_pdpt :: "phys_mem \<Rightarrow> u64 \<Rightarrow> string option" where
  "check_pdpt m t = first_error (\<lambda>i. check_entry (m t i)
     ''PDPT entry physical address is unaligned'' (check_pd m)) all_indices"

definition check_pml4 :: "phys_mem \<Rightarrow> u64 \<Rightarrow> string option" where
  "check_pml4 m t = first_error (\<lambda>i. check_entry (m t i)
     ''PML4 entry physical address is unaligned'' (check_pdpt m)) all_indices"

definition verify_page_tables :: "vmm \<Rightarrow> string + unit" where
  "verify_page_tables s =
     (if root_pml4_phys s = 0 then Inl ''VMM Root PML4 is NULL''
      else case check_pml4 (vmm_mem s) (root_pml4_phys s) of None \<Rightarrow> Inr () | Some e \<Rightarrow> Inl e)"

definition verify_null_page_unmapped :: "vmm \<Rightarrow> bool" where
  "verify_null_page_unmapped s \<longleftrightarrow> translate (root_pml4_phys s) 0 s = None"

definition kernel_slots :: "pt_index list" where
  "kernel_slots = map of_nat [KERNEL_PML4_START..<512]"

definition shares_kernel_half :: "u64 \<Rightarrow> vmm \<Rightarrow> bool" where
  "shares_kernel_half root s =
     list_all (\<lambda>i. is_present (vmm_mem s (root_pml4_phys s) i)
       \<and> pte_phys_addr (vmm_mem s root i) = pte_phys_addr (vmm_mem s (root_pml4_phys s) i)) kernel_slots"

subsection \<open>Initialisation\<close>

definition page_floor :: "u64 \<Rightarrow> u64" where
  "page_floor a = a AND NOT (PAGE_SIZE - 1)"

definition page_span :: "u64 \<Rightarrow> u64 \<Rightarrow> u64 list" where
  "page_span start end =
     (if start < end then map (\<lambda>i. start + of_nat i * PAGE_SIZE) [0..<unat ((end - start) div PAGE_SIZE)]
      else [])"

definition map_low_4gb :: "u64 \<Rightarrow> nat \<Rightarrow> vmm \<Rightarrow> vmm" where
  "map_low_4gb root n s =
     fold (\<lambda>i s. snd (map_2mb_huge_page root (of_nat i * 0x200000) (of_nat i * 0x200000)
       (FLAG_PRESENT OR FLAG_WRITABLE) s)) [0..<n] s"

definition identity_map_region :: "u64 \<Rightarrow> memory_region \<Rightarrow> vmm \<Rightarrow> vmm" where
  "identity_map_region root r s =
     (let (flags, perms, purpose) =
            (if region_type r = Mmio then (FLAGS_MMIO, PERM_MMIO, MmioRegion)
             else (FLAG_PRESENT OR FLAG_WRITABLE, PERM_KERNEL_DATA, DirectMappedRam));
          start_page = page_floor (physical_start r);
          end_page = page_floor (physical_end r + PAGE_SIZE - 1);
          s' = fold (\<lambda>curr s. snd (map_page root (canonical_virt curr) curr flags s))
                 (page_span start_page end_page) s
      in snd (register_region \<lparr>vr_start = canonical_virt start_page, vr_size = end_page - start_page,
           vr_permissions = perms, vr_purpose = purpose, owns_physical_pages = False\<rparr> s'))"

fun mmio_loop :: "u64 \<Rightarrow> u64 list \<Rightarrow> vmm \<Rightarrow> bool \<times> vmm" where
  "mmio_loop root [] s = (True, s)"
| "mmio_loop root (c # cs) s =
     (case map_page root c c FLAGS_MMIO s of
        (Inl e, s') \<Rightarrow> if e \<noteq> AlreadyMapped then (False, s') else mmio_loop root cs s'
      | (Inr _, s') \<Rightarrow> mmio_loop root cs s')"

definition identity_map_mmio :: "u64 \<Rightarrow> u64 \<Rightarrow> u64 \<Rightarrow> vmm \<Rightarrow> vmm" where
  "identity_map_mmio root phys_start size_bytes s =
     (let start = page_floor phys_start;
          stop = page_floor (phys_start + size_bytes + PAGE_SIZE - 1)
      in case mmio_loop root (page_span start stop) s of
           (False, s') \<Rightarrow> s'
         | (True, s') \<Rightarrow> snd (register_region \<lparr>vr_start = start, vr_size = stop - start,
             vr_permissions = PERM_MMIO, vr_purpose = MmioRegion, owns_physical_pages = False\<rparr> s'))"

fun create_slots :: "u64 \<Rightarrow> pt_index list \<Rightarrow> vmm \<Rightarrow> nat option \<times> vmm" where
  "create_slots root [] s = (Some 0, s)"
| "create_slots root (i # is) s =
     (let was_present = is_present (vmm_mem s root i) in
      case get_or_create_table root i s of
        (Inl _, s') \<Rightarrow> (None, s')
      | (Inr _, s') \<Rightarrow>
          (let (created, s'') = create_slots root is s'
           in (map_option (\<lambda>n. if was_present then n else n + 1) created, s'')))"

definition boot_mappings ::
    "u64 \<Rightarrow> physical_memory_map \<Rightarrow> u64 \<Rightarrow> u64 \<Rightarrow> (u64 \<times> u64) option \<Rightarrow> vmm \<Rightarrow> vmm" where
  "boot_mappings root mm lapic_base ioapic_base fb s =
     (let s1 = map_low_4gb root 2048 s;
          s2 = fold (identity_map_region root) (live_regions mm) s1;
          s3 = identity_map_mmio root lapic_base PAGE_SIZE s2;
          s4 = identity_map_mmio root ioapic_base PAGE_SIZE s3
      in case fb of None \<Rightarrow> s4 | Some (base, len) \<Rightarrow> identity_map_mmio root base len s4)"

definition vmm_init ::
    "physical_memory_map \<Rightarrow> u64 \<Rightarrow> u64 \<Rightarrow> (u64 \<times> u64) option \<Rightarrow> vmm \<Rightarrow> (string + unit) \<times> vmm" where
  "vmm_init mm lapic_base ioapic_base fb s =
     (case allocate_bootstrap_table (s\<lparr>is_bootstrapping := True\<rparr>) of
        (None, s1) \<Rightarrow> (Inl ''failed to allocate root PML4'', s1)
      | (Some root, s1) \<Rightarrow>
          (let s2 = boot_mappings root mm lapic_base ioapic_base fb (s1\<lparr>root_pml4_phys := root\<rparr>);
               s3 = s2\<lparr>cr3 := root, is_bootstrapping := False\<rparr>
           in case create_slots root kernel_slots s3 of
                (None, s4) \<Rightarrow> (Inl ''Failed to pre-allocate kernel-half PML4 entries'', s4)
              | (Some n, s4) \<Rightarrow> (Inr (), s4)))"

subsection \<open>The page loop\<close>

lemma page_span_unfold:
  assumes "4096 dvd unat a" and "4096 dvd unat b"
  shows "page_span a b = (if a < b then a # page_span (a + PAGE_SIZE) b else [])"
proof (cases "a < b")
  case True
  obtain k l where k: "unat a = 4096 * k" and l: "unat b = 4096 * l"
    using assms by (auto elim!: dvdE)
  have kl: "k < l" using True k l by (simp add: word_less_nat_alt)
  have "4096 * l < 2 ^ 64" using unat_u64_less [of b] l by simp
  with kl have "unat a + unat (PAGE_SIZE :: u64) < 2 ^ 64" using k by simp
  from unat_add_u64 [OF this] have a': "unat (a + PAGE_SIZE) = 4096 * Suc k" using k by simp
  have d: "unat ((b - a) div PAGE_SIZE) = l - k"
  proof -
    have "unat (b - a) = unat b - unat a" using True by (simp add: unat_sub less_imp_le)
    then show ?thesis using k l by (simp add: unat_div_distrib diff_mult_distrib2 [symmetric])
  qed
  have d': "unat ((b - (a + PAGE_SIZE)) div PAGE_SIZE) = l - Suc k" if "a + PAGE_SIZE < b"
  proof -
    have "unat (b - (a + PAGE_SIZE)) = unat b - unat (a + PAGE_SIZE)"
      using that by (simp add: unat_sub less_imp_le)
    then have "unat (b - (a + PAGE_SIZE)) = 4096 * (l - Suc k)"
      unfolding a' l by (simp only: diff_mult_distrib2)
    then show ?thesis by (simp add: unat_div_distrib)
  qed
  have less: "a + PAGE_SIZE < b \<longleftrightarrow> Suc k < l" unfolding word_less_nat_alt a' l by (simp del: mult_Suc_right)
  have range: "[0..<l - k] = 0 # map Suc [0..<l - Suc k]"
    using kl by (metis Suc_diff_Suc map_Suc_upt upt_conv_Cons zero_less_Suc)
  have "page_span a b = a # map (\<lambda>i. a + of_nat (Suc i) * PAGE_SIZE) [0..<l - Suc k]"
    using True by (simp add: page_span_def d range del: upt_Suc)
  also have "map (\<lambda>i. a + of_nat (Suc i) * PAGE_SIZE) [0..<l - Suc k] = page_span (a + PAGE_SIZE) b"
    using d' less kl by (auto simp: page_span_def algebra_simps)
  finally show ?thesis using True by simp
qed (simp add: page_span_def)

subsection \<open>The page-table check\<close>

lemma phys_addr_aligned: "pte_phys_addr e mod PAGE_SIZE = 0"
  by (simp add: aligned_bits bit_phys_addr)

lemma first_error_None: "(\<And>x. f x = None) \<Longrightarrow> first_error f xs = None"
  by (induction xs) simp_all

lemma check_entry_None: "(\<And>t. below t = None) \<Longrightarrow> check_entry e msg below = None"
  using phys_addr_aligned [of e] by (simp add: check_entry_def)

lemma check_pml4_None: "check_pml4 m t = None"
proof -
  have pt: "check_pt m t = None" for t unfolding check_pt_def by (intro first_error_None check_entry_None) simp
  have pd: "check_pd m t = None" for t
    unfolding check_pd_def by (intro first_error_None check_entry_None) (rule pt)
  have pdpt: "check_pdpt m t = None" for t
    unfolding check_pdpt_def by (intro first_error_None check_entry_None) (rule pd)
  show ?thesis unfolding check_pml4_def by (intro first_error_None check_entry_None) (rule pdpt)
qed

text \<open>\<^verbatim>\<open>verify_page_tables\<close> only tests whether the root is null: the addresses it examines
  come from \<^verbatim>\<open>phys_addr\<close>, which masks the offset bits, so none of its alignment tests can fail
  whatever the tables contain.\<close>
theorem verify_page_tables_only_checks_root:
  "verify_page_tables s = (if root_pml4_phys s = 0 then Inl ''VMM Root PML4 is NULL'' else Inr ())"
  by (simp add: verify_page_tables_def check_pml4_None)

subsection \<open>Steps that keep what is mapped\<close>

text \<open>No large page above the 2 MiB level.\<close>

definition no_huge_tables :: "u64 \<Rightarrow> phys_mem \<Rightarrow> bool" where
  "no_huge_tables r m \<longleftrightarrow> (\<forall>q e rest. length q = 4 \<longrightarrow> xlate m r q = Some (e, rest) \<longrightarrow> length rest \<le> 1)"

text \<open>While bootstrapping, tables come from the pool and the page allocator is left alone.\<close>

lemma get_or_create_pmm:
  assumes "is_bootstrapping s"
  shows "vmm_pmm (snd (get_or_create_table t i s)) = vmm_pmm s \<and> is_bootstrapping (snd (get_or_create_table t i s))"
  using assms by (auto simp: get_or_create_table_def allocate_bootstrap_table_def Let_def)

lemma descend_pmm:
  "is_bootstrapping s \<Longrightarrow> vmm_pmm (snd (descend t p s)) = vmm_pmm s \<and> is_bootstrapping (snd (descend t p s))"
proof (induction p arbitrary: t s)
  case (Cons i p)
  obtain r s1 where g: "get_or_create_table t i s = (r, s1)" by (cases "get_or_create_table t i s")
  with get_or_create_pmm [OF Cons.prems, of t i] Cons.IH show ?case by (cases r) auto
qed simp

lemma map_page_pmm:
  assumes "is_bootstrapping s"
  shows "vmm_pmm (snd (map_page r va pa flags s)) = vmm_pmm s"
proof (cases "map_checks va pa")
  case True
  obtain d s1 where d: "descend r [pml4_index va, pdpt_index va, pd_index va] s = (d, s1)"
    by (cases "descend r [pml4_index va, pdpt_index va, pd_index va] s")
  with descend_pmm [OF assms, of r "[pml4_index va, pdpt_index va, pd_index va]"] show ?thesis
    unfolding map_page_descend [OF True] d by (cases d) auto
next
  case False
  then show ?thesis by (auto simp: map_page_def map_checks_def)
qed

lemma map_2mb_pmm:
  assumes "is_bootstrapping s"
  shows "vmm_pmm (snd (map_2mb_huge_page r va pa flags s)) = vmm_pmm s"
proof (cases "is_canonical va")
  case True
  obtain d s1 where d: "descend r [pml4_index va, pdpt_index va] s = (d, s1)"
    by (cases "descend r [pml4_index va, pdpt_index va] s")
  with descend_pmm [OF assms, of r "[pml4_index va, pdpt_index va]"] show ?thesis
    unfolding map_2mb_descend [OF True] d by (cases d) auto
qed (simp add: map_2mb_huge_page_def)

definition keeps :: "u64 set \<Rightarrow> vmm \<Rightarrow> vmm \<Rightarrow> bool" where
  "keeps R s s' \<longleftrightarrow> vm_ok R {} s' \<and> is_bootstrapping s' = is_bootstrapping s
     \<and> root_pml4_phys s' = root_pml4_phys s \<and> pool_base s' = pool_base s \<and> cr3 s' = cr3 s
     \<and> (is_bootstrapping s \<longrightarrow> vmm_pmm s' = vmm_pmm s)
     \<and> (\<forall>r\<in>R. no_huge_tables r (vmm_mem s) \<longrightarrow> no_huge_tables r (vmm_mem s'))
     \<and> (\<forall>r\<in>R. \<forall>q. length q = 4 \<longrightarrow> xlate (vmm_mem s) r q \<noteq> None \<longrightarrow>
          xlate (vmm_mem s') r q = xlate (vmm_mem s) r q)"

lemma keeps_ok: "keeps R s s' \<Longrightarrow> vm_ok R {} s'"
  by (simp add: keeps_def)

lemma keeps_refl: "vm_ok R {} s \<Longrightarrow> keeps R s s"
  by (simp add: keeps_def)

lemma keeps_trans: "keeps R s s' \<Longrightarrow> keeps R s' s'' \<Longrightarrow> keeps R s s''"
  unfolding keeps_def by auto

lemma keeps_fold:
  assumes "\<And>x s. vm_ok R {} s \<Longrightarrow> keeps R s (f x s)" and "vm_ok R {} s"
  shows "keeps R s (fold f xs s)"
  using assms(2)
proof (induction xs arbitrary: s)
  case Nil
  then show ?case by (simp add: keeps_refl)
next
  case (Cons x xs)
  have step: "keeps R s (f x s)" by (rule assms(1) [OF Cons.prems])
  from keeps_trans [OF step Cons.IH [OF keeps_ok [OF step]]] show ?case by simp
qed

lemma keeps_map_page:
  assumes ok: "vm_ok R {} s" and r: "r \<in> R" and fl: "is_present flags"
  shows "keeps R s (snd (map_page r va pa flags s))"
proof (cases "map_page r va pa flags s")
  case (Pair res s')
  show ?thesis
  proof (cases res)
    case (Inl e)
    then have "map_page r va pa flags s = (Inl e, s')" using Pair by simp
    note k = map_page_Inl [OF ok r this]
    show ?thesis
      using k(1) growsD_xlate [OF k(2)] same_restD [OF growsD_rest [OF k(2)]] Pair
        map_page_pmm [of s r va pa flags]
      by (simp add: keeps_def no_huge_tables_def)
  next
    case (Inr x)
    then have mp: "map_page r va pa flags s = (Inr (), s')" using Pair by simp
    note k = map_page_Inr [OF ok r mp fl]
    have fo: "forest (vmm_mem s) R (avail s \<union> {})" using ok by (simp add: vm_ok_def)
    have "xlate (vmm_mem s) r' (va_path va) = None" if "r' \<in> R" "same_subtree r r' (va_path va)" for r'
      using xlate_same_subtree [OF fo r that] k(5) by (simp add: va_path_def)
    then have "xlate (vmm_mem s') r' q = xlate (vmm_mem s) r' q"
      if "r' \<in> R" "length q = 4" "xlate (vmm_mem s) r' q \<noteq> None" for r' q
      using k(7) [OF that(1,2)] that by auto
    moreover have "no_huge_tables r' (vmm_mem s')" if "r' \<in> R" "no_huge_tables r' (vmm_mem s)" for r'
      unfolding no_huge_tables_def using k(7) [OF that(1)] that(2)
      by (auto simp: no_huge_tables_def split: if_splits)
    ultimately show ?thesis
      using k(2) same_restD [OF k(3)] Pair map_page_pmm [of s r va pa flags] by (simp add: keeps_def)
  qed
qed

lemma register_same_memory:
  "vmm_mem (snd (register_region r s)) = vmm_mem s" "vmm_pmm (snd (register_region r s)) = vmm_pmm s"
  "pool_base (snd (register_region r s)) = pool_base s"
  "bootstrap_index (snd (register_region r s)) = bootstrap_index s"
  "is_bootstrapping (snd (register_region r s)) = is_bootstrapping s"
  "root_pml4_phys (snd (register_region r s)) = root_pml4_phys s" "cr3 (snd (register_region r s)) = cr3 s"
  by (simp_all add: register_region_def push_vregion_def)

lemma keeps_register: "vm_ok R {} s \<Longrightarrow> keeps R s (snd (register_region r s))"
  using vm_ok_cong(1) [OF register_same_memory(1-5)] by (simp add: keeps_def register_same_memory)

lemma present_consts [simp]: "is_present FLAGS_MMIO" "is_present (FLAG_PRESENT OR FLAG_WRITABLE)"
  by (simp_all add: FLAGS_MMIO_def present_or)

lemma keeps_identity_map_region:
  assumes ok: "vm_ok R {} s" and r: "root \<in> R"
  shows "keeps R s (identity_map_region root rg s)"
proof -
  obtain flags perms purpose where c: "(if region_type rg = Mmio then (FLAGS_MMIO, PERM_MMIO, MmioRegion)
     else (FLAG_PRESENT OR FLAG_WRITABLE, PERM_KERNEL_DATA, DirectMappedRam)) = (flags, perms, purpose)"
    by (metis prod_cases3)
  then have fl: "is_present flags" by (auto split: if_splits)
  let ?s = "fold (\<lambda>curr s. snd (map_page root (canonical_virt curr) curr flags s))
      (page_span (page_floor (physical_start rg)) (page_floor (physical_end rg + PAGE_SIZE - 1))) s"
  have k: "keeps R s ?s" by (rule keeps_fold [OF _ ok]) (rule keeps_map_page [OF _ r fl])
  show ?thesis
    unfolding identity_map_region_def c Let_def prod.case
    by (rule keeps_trans [OF k keeps_register [OF keeps_ok [OF k]]])
qed

lemma keeps_mmio_loop:
  assumes "vm_ok R {} s" and r: "root \<in> R"
  shows "keeps R s (snd (mmio_loop root cs s))"
  using assms(1)
proof (induction cs arbitrary: s)
  case Nil
  then show ?case by (simp add: keeps_refl)
next
  case (Cons c cs)
  have step: "keeps R s (snd (map_page root c c FLAGS_MMIO s))"
    by (rule keeps_map_page [OF Cons.prems r]) simp
  note rest = keeps_trans [OF step Cons.IH [OF keeps_ok [OF step]]]
  show ?case using step rest by (auto split: prod.splits sum.splits)
qed

lemma keeps_identity_map_mmio:
  assumes ok: "vm_ok R {} s" and r: "root \<in> R"
  shows "keeps R s (identity_map_mmio root a n s)"
proof -
  let ?span = "page_span (page_floor a) (page_floor (a + n + PAGE_SIZE - 1))"
  obtain b s' where ml: "mmio_loop root ?span s = (b, s')" by (cases "mmio_loop root ?span s")
  have k: "keeps R s s'" using keeps_mmio_loop [OF ok r, of ?span] ml by simp
  show ?thesis
    using k keeps_trans [OF k keeps_register [OF keeps_ok [OF k]]]
    unfolding identity_map_mmio_def Let_def ml prod.case by (cases b) simp_all
qed

text \<open>Creating the kernel-half tables leaves every slot of the list with a table.\<close>

lemma keeps_get_or_create:
  assumes ok: "vm_ok R {} s" and r: "root \<in> R" and g: "get_or_create_table root i s = (res, s')"
  shows "keeps R s s'" and "\<And>u. res = Inr u \<Longrightarrow> walk (vmm_mem s') root [i] = Some u"
    and "\<And>j u. walk (vmm_mem s) root [j] = Some u \<Longrightarrow> walk (vmm_mem s') root [j] = Some u"
proof -
  have "walk (vmm_mem s) root [] = Some root" by simp
  note k = get_or_create_ok [OF ok r this _ g]
  have g1: "grows R 1 s s'" using k(2) by simp
  show "keeps R s s'"
    using k(1) growsD_xlate [OF g1] same_restD [OF growsD_rest [OF g1]] g get_or_create_pmm [of s root i]
    by (simp add: keeps_def no_huge_tables_def)
  show "walk (vmm_mem s') root [i] = Some u" if "res = Inr u" for u using k(3) [OF _ that] by simp
  show "walk (vmm_mem s') root [j] = Some u" if "walk (vmm_mem s) root [j] = Some u" for j u
    using g1 r that unfolding grows_def by (auto simp del: walk.simps)
qed

lemma create_slots_ok:
  assumes "vm_ok R {} s" and r: "root \<in> R" and "create_slots root js s = (Some n, s')"
  shows "keeps R s s' \<and> (\<forall>j u. walk (vmm_mem s) root [j] = Some u \<longrightarrow> walk (vmm_mem s') root [j] = Some u)
    \<and> (\<forall>j \<in> set js. \<exists>u. walk (vmm_mem s') root [j] = Some u)"
  using assms(1,3)
proof (induction js arbitrary: s n)
  case Nil
  then show ?case by (simp add: keeps_refl del: walk.simps)
next
  case (Cons j js)
  obtain res s1 where g: "get_or_create_table root j s = (res, s1)" by (cases "get_or_create_table root j s")
  note k = keeps_get_or_create [OF Cons.prems(1) r g]
  from Cons.prems(2) g obtain u m where res: "res = Inr u" and rest: "create_slots root js s1 = (Some m, s')"
    by (auto simp: Let_def split: sum.splits prod.splits)
  from Cons.IH [OF keeps_ok [OF k(1)] rest] k res keeps_trans [OF k(1)]
  show ?case by (auto simp del: walk.simps)
qed

subsection \<open>The low 4 GiB\<close>

text \<open>The five tables below the root that the identity map of the low 4 GiB needs, and how many
  of them are still missing.\<close>

definition low_tables :: "pt_index list set" where
  "low_tables = {[0], [0, 0], [0, 1], [0, 2], [0, 3]}"

definition missing_tables :: "u64 \<Rightarrow> phys_mem \<Rightarrow> nat" where
  "missing_tables root m = card {p \<in> low_tables. walk m root p = None}"

definition only_2mb :: "u64 \<Rightarrow> phys_mem \<Rightarrow> bool" where
  "only_2mb root m \<longleftrightarrow> (\<forall>q e rest. length q = 4 \<longrightarrow> xlate m root q = Some (e, rest) \<longrightarrow> length rest = 1)"

definition low_inv :: "u64 \<Rightarrow> vmm \<Rightarrow> bool" where
  "low_inv root s \<longleftrightarrow> vm_ok {root} {} s \<and> is_bootstrapping s \<and> only_2mb root (vmm_mem s)
     \<and> bootstrap_index s + missing_tables root (vmm_mem s) \<le> 6"

lemma finite_low: "finite {p \<in> low_tables. Q p}"
  by (simp add: low_tables_def)

lemma missing_mono:
  assumes "\<And>p u. p \<in> low_tables \<Longrightarrow> walk m root p = Some u \<Longrightarrow> walk m' root p = Some u"
  shows "missing_tables root m' \<le> missing_tables root m"
  unfolding missing_tables_def
  by (rule card_mono [OF finite_low]) (use assms in fastforce)

lemma missing_less:
  assumes "\<And>p u. p \<in> low_tables \<Longrightarrow> walk m root p = Some u \<Longrightarrow> walk m' root p = Some u"
    and "p \<in> low_tables" and "walk m root p = None" and "walk m' root p = Some t"
  shows "missing_tables root m' < missing_tables root m"
  unfolding missing_tables_def
proof (rule psubset_card_mono [OF finite_low], rule psubsetI)
  show "{p \<in> low_tables. walk m' root p = None} \<subseteq> {p \<in> low_tables. walk m root p = None}"
    using assms(1) by fastforce
  show "{p \<in> low_tables. walk m' root p = None} \<noteq> {p \<in> low_tables. walk m root p = None}"
    using assms(2-4) by (metis (mono_tags, lifting) mem_Collect_eq option.distinct(1))
qed

lemma low_step:
  assumes inv: "low_inv root s" and w: "walk (vmm_mem s) root p = Some t" and need: "p @ [i] \<in> low_tables"
  obtains u s' where "get_or_create_table t i s = (Inr u, s')" "low_inv root s'"
    "walk (vmm_mem s') root (p @ [i]) = Some u" "grows {root} 1 s s'"
proof -
  have ok: "vm_ok {root} {} s" and boot: "is_bootstrapping s" and o2: "only_2mb root (vmm_mem s)"
    and cnt: "bootstrap_index s + missing_tables root (vmm_mem s) \<le> 6"
    using inv by (simp_all add: low_inv_def)
  have len: "length p \<le> 1" using need by (auto simp: low_tables_def)
  obtain res s' where g: "get_or_create_table t i s = (res, s')" by (cases "get_or_create_table t i s")
  have len2: "length p \<le> 2" using len by simp
  note k = get_or_create_ok [OF ok _ w len2 g]
  have gr: "grows {root} 1 s s'" and ok': "vm_ok {root} {} s'" using k by simp_all
  have keep: "walk (vmm_mem s') root q = Some u" if "q \<in> low_tables" "walk (vmm_mem s) root q = Some u" for q u
    using gr that unfolding grows_def low_tables_def by (auto simp del: walk.simps)
  have o2': "only_2mb root (vmm_mem s')" using o2 growsD_xlate [OF gr] by (simp add: only_2mb_def)
  have boot': "is_bootstrapping s'" using boot same_restD [OF growsD_rest [OF gr]] by simp
  have "\<exists>u. res = Inr u \<and> bootstrap_index s' + missing_tables root (vmm_mem s') \<le> 6"
    using g
  proof (cases rule: get_or_create_cases)
    case huge
    define q where "q = p @ i # replicate (3 - length p) 0"
    have ql: "length q = 4" using len by (simp add: q_def)
    have ne: "replicate (3 - length p) (0 :: pt_index) \<noteq> []" using len by simp
    have "xlate (vmm_mem s) root q = xlate (vmm_mem s) t (i # replicate (3 - length p) 0)"
      unfolding q_def by (rule xlate_walk [OF w]) simp
    also have "\<dots> = Some (vmm_mem s t i, replicate (3 - length p) 0)" using huge by simp
    finally have "length (replicate (3 - length p) (0 :: pt_index)) = 1"
      using o2 ql unfolding only_2mb_def by blast
    with len show ?thesis by simp
  next
    case present
    then show ?thesis using cnt by simp
  next
    case exhausted
    have "bootstrap_index s < BOOTSTRAP_TABLE_COUNT" using cnt by (simp add: kernel_consts)
    then show ?thesis using exhausted(2) boot by (simp add: alloc_table_def allocate_bootstrap_table_def Let_def)
  next
    case (fresh f s1)
    have "bootstrap_index s' = bootstrap_index s + 1"
      using fresh(2,4) boot
      by (auto simp: alloc_table_def allocate_bootstrap_table_def Let_def split: if_splits)
    moreover have "missing_tables root (vmm_mem s') < missing_tables root (vmm_mem s)"
    proof (rule missing_less [OF keep need])
      show "walk (vmm_mem s) root (p @ [i]) = None"
        using w fresh(1) by (simp add: walk_snoc pte_table_def)
      show "walk (vmm_mem s') root (p @ [i]) = Some f" using k(3) [of f] fresh(3) by simp
    qed
    ultimately show ?thesis using cnt fresh(3) by simp
  qed
  then obtain u where u: "res = Inr u" "bootstrap_index s' + missing_tables root (vmm_mem s') \<le> 6" by blast
  show thesis
    using that [of u s'] g u ok' boot' o2' k(3) [OF _ u(1)] gr by (simp add: low_inv_def)
qed

text \<open>The first three indices of an address are its bits 21 to 47.\<close>

lemma take3_bits:
  "take 3 (va_path a) = take 3 (va_path b) \<longleftrightarrow> (\<forall>i. 21 \<le> i \<and> i < 48 \<longrightarrow> bit a i = bit b i)"
proof
  assume t: "take 3 (va_path a) = take 3 (va_path b)"
  have eq: "bit (pml4_index a) j = bit (pml4_index b) j" "bit (pdpt_index a) j = bit (pdpt_index b) j"
    "bit (pd_index a) j = bit (pd_index b) j" for j
    using t by (simp_all add: va_path_def)
  have slice: "bit a (k + j) = bit b (k + j)" if "k \<in> {21, 30, 39}" "j < 9" for j k
    using that eq [of j] by (auto simp: bit_indices)
  show "\<forall>i. 21 \<le> i \<and> i < 48 \<longrightarrow> bit a i = bit b i"
  proof (intro allI impI)
    fix i :: nat assume i: "21 \<le> i \<and> i < 48"
    then consider j where "i = 21 + j" "j < 9" | j where "i = 30 + j" "j < 9" | j where "i = 39 + j" "j < 9"
      by (cases "i < 30"; cases "i < 39") (force simp: le_iff_add not_less)+
    then show "bit a i = bit b i" using slice by cases simp_all
  qed
next
  assume eq: "\<forall>i. 21 \<le> i \<and> i < 48 \<longrightarrow> bit a i = bit b i"
  have "pml4_index a = pml4_index b" by (rule bit_word_eqI) (simp add: bit_indices eq)
  moreover have "pdpt_index a = pdpt_index b" by (rule bit_word_eqI) (simp add: bit_indices eq)
  moreover have "pd_index a = pd_index b" by (rule bit_word_eqI) (simp add: bit_indices eq)
  ultimately show "take 3 (va_path a) = take 3 (va_path b)" by (simp add: va_path_def)
qed

definition low_block :: "nat \<Rightarrow> u64" where
  "low_block i = of_nat i * 0x200000"

lemma unat_low_block: "i < 2048 \<Longrightarrow> unat (low_block i) = i * 2097152"
  unfolding low_block_def by (subst unat_mult_u64) (simp_all add: unat_of_nat take_bit_nat_eq_self)

lemma bit_unat: "bit (a :: u64) i = bit (unat a) i"
  by (simp add: bit_unsigned_iff bit_imp_le_length)

lemma take3_low:
  assumes "unat a < 2 ^ 32" and "unat b < 2 ^ 32"
  shows "take 3 (va_path a) = take 3 (va_path b) \<longleftrightarrow> unat a div 2 ^ 21 = unat b div 2 ^ 21"
proof -
  have hi: "\<not> bit (unat w) i" if "unat w < 2 ^ 32" "48 \<le> i" for w :: u64 and i
  proof -
    have "(2 :: nat) ^ 32 \<le> 2 ^ i" by (rule power_increasing) (use that(2) in simp_all)
    then have "unat w < 2 ^ i" by (rule less_le_trans [OF that(1)])
    then show ?thesis by (simp add: bit_iff_odd)
  qed
  have "(\<forall>i. 21 \<le> i \<and> i < 48 \<longrightarrow> bit a i = bit b i) \<longleftrightarrow> (\<forall>i. 21 \<le> i \<longrightarrow> bit (unat a) i = bit (unat b) i)"
    using hi [OF assms(1)] hi [OF assms(2)] by (metis bit_unat not_less)
  also have "\<dots> \<longleftrightarrow> drop_bit 21 (unat a) = drop_bit 21 (unat b)"
    by (auto simp: bit_eq_iff bit_drop_bit_eq) (metis le_add_diff_inverse)+
  also have "\<dots> \<longleftrightarrow> unat a div 2 ^ 21 = unat b div 2 ^ 21" by (simp add: drop_bit_eq_div)
  finally show ?thesis unfolding take3_bits .
qed

lemma high_bit_low:
  assumes "unat a < 2 ^ 32" and "32 \<le> i"
  shows "\<not> bit (a :: u64) i"
proof -
  have "(2 :: nat) ^ 32 \<le> 2 ^ i" by (rule power_increasing) (use assms(2) in simp_all)
  then have "unat a < 2 ^ i" by (rule less_le_trans [OF assms(1)])
  then show ?thesis by (simp add: bit_unat bit_iff_odd)
qed

lemma low_indices:
  assumes "unat a < 2 ^ 32"
  shows "pml4_index a = 0" and "[0, pdpt_index a] \<in> low_tables"
proof -
  note hi = high_bit_low [OF assms]
  show "pml4_index a = 0" by (rule bit_word_eqI) (simp add: bit_indices hi)
  have "pdpt_index a = (if bit a 30 then 1 else 0) OR (if bit a 31 then 2 else 0)"
  proof (rule bit_word_eqI)
    fix j assume j: "j < LENGTH(9)"
    consider "j = 0" | "j = 1" | n where "j = Suc (Suc n)" by (metis One_nat_def not0_implies_Suc)
    then show "bit (pdpt_index a) j = bit ((if bit a 30 then 1 else 0) OR (if bit a 31 then 2 else 0) :: pt_index) j"
      by cases (auto simp: bit_indices bit_or_iff bit_1_iff hi)
  qed
  then show "[0, pdpt_index a] \<in> low_tables" by (auto simp: low_tables_def)
qed

abbreviation low_flags :: page_flags where
  "low_flags \<equiv> FLAG_PRESENT OR FLAG_WRITABLE"

lemma low_map_step:
  assumes inv: "low_inv root s" and a: "unat a < 2 ^ 32" and can: "is_canonical a"
  obtains s' where "map_2mb_huge_page root a a low_flags s = (Inr (), s')" "low_inv root s'" "same_rest s s'"
    "\<And>q. length q = 4 \<Longrightarrow> xlate (vmm_mem s') root q =
       (if take 3 q = take 3 (va_path a)
        then Some (pte_set (a AND NOT 0x1FFFFF) (low_flags OR FLAG_HUGE_PAGE), drop 3 q)
        else xlate (vmm_mem s) root q)"
proof -
  note ix = low_indices [OF a]
  have "walk (vmm_mem s) root [] = Some root" by simp
  moreover have "[] @ [pml4_index a] \<in> low_tables" by (simp add: ix(1) low_tables_def)
  ultimately obtain u1 s1 where g1: "get_or_create_table root (pml4_index a) s = (Inr u1, s1)"
    and l1: "low_inv root s1" and w1: "walk (vmm_mem s1) root [pml4_index a] = Some u1"
    using low_step [OF inv, of "[]" root] by (metis append_Nil)
  have "[pml4_index a] @ [pdpt_index a] \<in> low_tables" using ix by simp
  from low_step [OF l1 w1 this] obtain u2 s2 where
    g2: "get_or_create_table u1 (pdpt_index a) s1 = (Inr u2, s2)" and l2: "low_inv root s2"
    and w2: "walk (vmm_mem s2) root ([pml4_index a] @ [pdpt_index a]) = Some u2" by metis
  let ?e = "pte_set (a AND NOT 0x1FFFFF) (low_flags OR FLAG_HUGE_PAGE)"
  define s' where "s' = s2\<lparr>vmm_mem := write_entry (vmm_mem s2) u2 (pd_index a) ?e\<rparr>"
  have mp: "map_2mb_huge_page root a a low_flags s = (Inr (), s')"
    using can g1 g2 by (simp add: map_2mb_huge_page_def s'_def)
  have ok: "vm_ok {root} {} s" and boot: "is_bootstrapping s" and o2: "only_2mb root (vmm_mem s)"
    using inv by (simp_all add: low_inv_def)
  note k = map_2mb_Inr [OF ok _ mp]
  have x: "xlate (vmm_mem s') root q =
       (if take 3 q = take 3 (va_path a) then Some (?e, drop 3 q) else xlate (vmm_mem s) root q)"
    if "length q = 4" for q
    using k(5) [OF _ _ _ that, of root] by (simp add: same_subtree_def)
  have "only_2mb root (vmm_mem s')" using o2 x unfolding only_2mb_def by auto
  moreover have "missing_tables root (vmm_mem s') = missing_tables root (vmm_mem s2)"
  proof -
    have fo: "forest (vmm_mem s2) {root} (avail s2 \<union> {})" using l2 by (simp add: low_inv_def vm_ok_def)
    have "walk (vmm_mem s') root q = walk (vmm_mem s2) root q" if "q \<in> low_tables" for q
    proof -
      have "vmm_mem s' = write_entry (vmm_mem s2) u2 (pd_index a) ?e" by (simp add: s'_def)
      moreover have len: "length q \<le> 2" using that by (auto simp: low_tables_def)
      then have "\<nexists>t. q = ([pml4_index a] @ [pdpt_index a]) @ pd_index a # t
          \<and> same_subtree root root (([pml4_index a] @ [pdpt_index a]) @ [pd_index a])" by auto
      note walk_write_other [OF fo _ w2 _ _ _ this, of ?e]
      ultimately show ?thesis using len by simp
    qed
    then show ?thesis unfolding missing_tables_def by (metis (mono_tags, lifting))
  qed
  moreover have "bootstrap_index s' = bootstrap_index s2" by (simp add: s'_def)
  moreover have "vm_ok {root} {} s'" "same_rest s s'" using k(2,3) by simp_all
  moreover have "is_bootstrapping s'" using same_restD(2) [OF \<open>same_rest s s'\<close>] boot by simp
  ultimately have "low_inv root s'" using l2 by (simp add: low_inv_def)
  with that mp \<open>same_rest s s'\<close> x show thesis by blast
qed

definition low_entry :: "virt_addr \<Rightarrow> pte" where
  "low_entry a = pte_set (low_block (unat a div 2 ^ 21) AND NOT 0x1FFFFF) (low_flags OR FLAG_HUGE_PAGE)"

lemma low_canonical:
  assumes "unat a < 2 ^ 32"
  shows "is_canonical a"
  unfolding is_canonical_bits using high_bit_low [OF assms] by simp

lemma map_low_4gb_inv:
  assumes "low_inv root s" and "n \<le> 2048"
  shows "low_inv root (map_low_4gb root n s) \<and> same_rest s (map_low_4gb root n s)
    \<and> (\<forall>a. unat a < 2 ^ 32 \<longrightarrow> unat a div 2 ^ 21 < n \<longrightarrow>
         xlate (vmm_mem (map_low_4gb root n s)) root (va_path a) = Some (low_entry a, [pt_index_of a]))"
  using assms(2)
proof (induction n)
  case 0
  then show ?case using assms(1) by (simp add: map_low_4gb_def)
next
  case (Suc n)
  let ?s = "map_low_4gb root n s"
  have IH: "low_inv root ?s" "same_rest s ?s"
    "\<And>a. unat a < 2 ^ 32 \<Longrightarrow> unat a div 2 ^ 21 < n \<Longrightarrow>
       xlate (vmm_mem ?s) root (va_path a) = Some (low_entry a, [pt_index_of a])"
    using Suc by simp_all
  have n: "n < 2048" using Suc.prems by simp
  have ub: "unat (low_block n) = n * 2 ^ 21" using unat_low_block [OF n] by simp
  then have b: "unat (low_block n) < 2 ^ 32" using n by simp
  obtain s' where mp: "map_2mb_huge_page root (low_block n) (low_block n) low_flags ?s = (Inr (), s')"
    and l: "low_inv root s'" and sr: "same_rest ?s s'"
    and x: "\<And>q. length q = 4 \<Longrightarrow> xlate (vmm_mem s') root q =
       (if take 3 q = take 3 (va_path (low_block n))
        then Some (pte_set (low_block n AND NOT 0x1FFFFF) (low_flags OR FLAG_HUGE_PAGE), drop 3 q)
        else xlate (vmm_mem ?s) root q)"
    using low_map_step [OF IH(1) b low_canonical [OF b]] by metis
  have step: "map_low_4gb root (Suc n) s = s'"
    using mp by (simp add: map_low_4gb_def low_block_def)
  have "xlate (vmm_mem s') root (va_path a) = Some (low_entry a, [pt_index_of a])"
    if a: "unat a < 2 ^ 32" "unat a div 2 ^ 21 < Suc n" for a
  proof -
    have iff: "take 3 (va_path a) = take 3 (va_path (low_block n)) \<longleftrightarrow> unat a div 2 ^ 21 = n"
      using take3_low [OF a(1) b] ub by simp
    show ?thesis
    proof (cases "unat a div 2 ^ 21 = n")
      case True
      have "drop 3 (va_path a) = [pt_index_of a]" by (simp add: va_path_def)
      with True iff x [of "va_path a"] show ?thesis by (simp add: low_entry_def)
    next
      case False
      with iff x [of "va_path a"] IH(3) [OF a(1)] a(2) show ?thesis by simp
    qed
  qed
  with l IH(2) sr show ?case unfolding step by (blast intro: same_rest_trans)
qed

text \<open>A fresh root table.\<close>

lemma fresh_root:
  assumes pm: "pmm_inv (vmm_pmm s)" and pool: "pool_ok s" and boot: "is_bootstrapping s"
    and idx: "bootstrap_index s = 0" and al: "allocate_bootstrap_table s = (Some root, s1)"
  shows "low_inv root (s1\<lparr>root_pml4_phys := root\<rparr>)" and "root = pool_base s"
proof -
  note b = bootstrap_table_Some [OF pool boot al]
  let ?s = "s1\<lparr>root_pml4_phys := root\<rparr>"
  have eq: "vmm_mem ?s = vmm_mem s1" "vmm_pmm ?s = vmm_pmm s1" "pool_base ?s = pool_base s1"
    "bootstrap_index ?s = bootstrap_index s1" "is_bootstrapping ?s = is_bootstrapping s1" by simp_all
  show "root = pool_base s"
    using al idx by (auto simp: allocate_bootstrap_table_def Let_def pool_table_def split: if_splits)
  have i1: "bootstrap_index s1 = 1"
    using al idx by (auto simp: allocate_bootstrap_table_def Let_def split: if_splits)
  have boot1: "is_bootstrapping s1" using boot same_restD [OF b(6)] by simp
  have zero: "vmm_mem s1 root = zero_table" using b(4) by simp
  have notin: "root \<notin> avail s1"
    using b(1,3,5) boot1 pool boot by (auto simp: avail_def pool_ok_def)
  have "forest (vmm_mem s1) {root} (avail s1 \<union> {})"
    using walk_zero_table [of "vmm_mem s1" root, OF zero] notin
    by (intro forestI) (auto simp: same_subtree_def split: if_splits)
  then have "vm_ok {root} {} s1" using pm b(5,7) by (simp add: vm_ok_def)
  then have "vm_ok {root} {} ?s" using vm_ok_cong(1) [OF eq] by simp
  moreover have "only_2mb root (vmm_mem ?s)" using xlate_zero_table [of "vmm_mem s1" root, OF zero] by (simp add: only_2mb_def)
  moreover have "missing_tables root (vmm_mem ?s) \<le> 5"
  proof -
    have "missing_tables root (vmm_mem ?s) \<le> card low_tables"
      unfolding missing_tables_def by (rule card_mono) (auto simp: low_tables_def)
    also have "\<dots> \<le> 5" by (simp add: low_tables_def card_insert_if)
    finally show ?thesis .
  qed
  ultimately show "low_inv root ?s" using i1 boot1 by (simp add: low_inv_def)
qed

lemma vm_ok_end_bootstrap:
  assumes "vm_ok R X s"
  shows "vm_ok R X (s\<lparr>cr3 := c, is_bootstrapping := False\<rparr>)"
proof -
  let ?s = "s\<lparr>cr3 := c, is_bootstrapping := False\<rparr>"
  have "avail ?s \<subseteq> avail s" by (auto simp: avail_def)
  then have "avail ?s \<union> X \<subseteq> avail s \<union> X" "X \<inter> avail ?s = {}" using assms by (auto simp: vm_ok_def)
  with assms forest_mono [of "vmm_mem s" R "avail s \<union> X" "avail ?s \<union> X" R] show ?thesis
    by (simp add: vm_ok_def pool_ok_def)
qed

lemma low_block_base:
  assumes "unat a < 2 ^ 32"
  shows "low_block (unat a div 2 ^ 21) AND NOT (mask 21) = a AND NOT (mask 21)"
proof -
  have k: "unat a div 2 ^ 21 < 2048" using assms by simp
  have "unat (low_block (unat a div 2 ^ 21)) = unat a div 2 ^ 21 * 2 ^ 21"
    using unat_low_block [OF k] by simp
  also have "\<dots> = push_bit 21 (drop_bit 21 (unat a))" by (simp add: push_bit_eq_mult drop_bit_eq_div)
  finally have u: "unat (low_block (unat a div 2 ^ 21)) = push_bit 21 (drop_bit 21 (unat a))" .
  have hi: "bit (low_block (unat a div 2 ^ 21)) i = bit a i" if "21 \<le> i" for i
    using that unfolding bit_unat u by (simp add: bit_push_bit_iff bit_drop_bit_eq)
  show ?thesis
  proof (rule bit_word_eqI)
    fix i assume "i < LENGTH(64)"
    then show "bit (low_block (unat a div 2 ^ 21) AND NOT (mask 21)) i = bit (a AND NOT (mask 21)) i"
      unfolding bit_and_iff bit_not_iff bit_mask_iff using hi [of i] by (cases "21 \<le> i") auto
  qed
qed

lemma low_mmu:
  assumes "unat a < 2 ^ 32" and "xlate m root (va_path a) = Some (low_entry a, [pt_index_of a])"
  shows "mmu_translate m root a = Some (a, low_flags OR FLAG_HUGE_PAGE)"
proof -
  let ?b = "low_block (unat a div 2 ^ 21) AND NOT (mask 21)"
  have b: "?b = a AND NOT (mask 21)" by (rule low_block_base [OF assms(1)])
  have fa: "frame_addr ?b"
    unfolding b frame_addr_def
  proof (rule bit_word_eqI)
    fix i assume "i < LENGTH(64)"
    then show "bit (pte_phys_addr (a AND NOT (mask 21))) i = bit (a AND NOT (mask 21)) i"
      unfolding bit_phys_addr bit_and_iff bit_not_iff bit_mask_iff
      using high_bit_low [OF assms(1), of i] by (cases "32 \<le> i") auto
  qed
  have idem: "?b AND NOT (mask 21) = ?b" by (rule bit_word_eqI) (auto simp: bit_and_iff)
  have cl: "flags_clean (low_flags OR FLAG_HUGE_PAGE)" by (simp add: flags_clean_or)
  have x: "xlate m root (va_path a) = Some (pte_set ?b (low_flags OR FLAG_HUGE_PAGE), [pt_index_of a])"
    using assms(2) unfolding low_entry_def mask_2mib .
  have "?b OR (a AND mask 21) = a"
    unfolding b by (rule bit_word_eqI) (auto simp: bit_and_iff bit_or_iff bit_not_iff bit_mask_iff)
  with mmu_large [OF low_canonical [OF assms(1)] x cl fa idem] show ?thesis by simp
qed

lemma map_low_4gb_pmm:
  assumes "low_inv root s" and "n \<le> 2048"
  shows "vmm_pmm (map_low_4gb root n s) = vmm_pmm s"
  using assms(2)
proof (induction n)
  case (Suc n)
  have "low_inv root (map_low_4gb root n s)" using map_low_4gb_inv [OF assms(1), of n] Suc.prems by simp
  then have "is_bootstrapping (map_low_4gb root n s)" by (simp add: low_inv_def)
  from map_2mb_pmm [OF this] Suc show ?case by (simp add: map_low_4gb_def)
qed (simp add: map_low_4gb_def)

lemma boot_mappings_ok:
  fixes mm :: physical_memory_map and lapic ioapic :: u64 and fb :: "(u64 \<times> u64) option"
  assumes l: "low_inv root s"
  defines "s' \<equiv> boot_mappings root mm lapic ioapic fb s"
  shows "vm_ok {root} {} s'" and "root_pml4_phys s' = root_pml4_phys s" and "pool_base s' = pool_base s"
    and "vmm_pmm s' = vmm_pmm s" and "no_huge_tables root (vmm_mem s')"
    and "\<And>a. unat a < 2 ^ 32 \<Longrightarrow> xlate (vmm_mem s') root (va_path a) = Some (low_entry a, [pt_index_of a])"
proof -
  define s1 where "s1 = map_low_4gb root 2048 s"
  define s2 where "s2 = fold (identity_map_region root) (live_regions mm) s1"
  define s3 where "s3 = identity_map_mmio root lapic PAGE_SIZE s2"
  define s4 where "s4 = identity_map_mmio root ioapic PAGE_SIZE s3"
  have s': "s' = (case fb of None \<Rightarrow> s4 | Some (base, len) \<Rightarrow> identity_map_mmio root base len s4)"
    unfolding s'_def boot_mappings_def Let_def s1_def s2_def s3_def s4_def ..
  note low = map_low_4gb_inv [OF l, of 2048, folded s1_def]
  have ok1: "vm_ok {root} {} s1" and o2: "only_2mb root (vmm_mem s1)" and b1: "is_bootstrapping s1"
    and sr: "same_rest s s1" using low by (simp_all add: low_inv_def)
  have k2: "keeps {root} s1 s2"
    unfolding s2_def by (rule keeps_fold [OF _ ok1]) (rule keeps_identity_map_region, simp_all)
  have k3: "keeps {root} s2 s3" unfolding s3_def by (rule keeps_identity_map_mmio [OF keeps_ok [OF k2]]) simp
  have k4: "keeps {root} s3 s4" unfolding s4_def by (rule keeps_identity_map_mmio [OF keeps_ok [OF k3]]) simp
  have k5: "keeps {root} s4 s'"
    unfolding s' using keeps_identity_map_mmio [OF keeps_ok [OF k4]] keeps_refl [OF keeps_ok [OF k4]]
    by (auto split: option.splits)
  have k: "keeps {root} s1 s'" using k2 k3 k4 k5 by (blast intro: keeps_trans)
  show "vm_ok {root} {} s'" by (rule keeps_ok [OF k])
  show "root_pml4_phys s' = root_pml4_phys s" "pool_base s' = pool_base s"
    using k same_restD [OF sr] by (simp_all add: keeps_def)
  have "vmm_pmm s1 = vmm_pmm s" using map_low_4gb_pmm [OF l, of 2048] by (simp add: s1_def)
  then show "vmm_pmm s' = vmm_pmm s" using k b1 by (simp add: keeps_def)
  have "no_huge_tables root (vmm_mem s1)" using o2 unfolding only_2mb_def no_huge_tables_def
    by (metis order_refl)
  then show "no_huge_tables root (vmm_mem s')" using k by (simp add: keeps_def)
  show "xlate (vmm_mem s') root (va_path a) = Some (low_entry a, [pt_index_of a])" if a: "unat a < 2 ^ 32" for a
  proof -
    have "unat a div 2 ^ 21 < 2048" using a by simp
    then have "xlate (vmm_mem s1) root (va_path a) = Some (low_entry a, [pt_index_of a])" using low a by simp
    then show ?thesis using k by (simp add: keeps_def)
  qed
qed

lemma vmm_init_ok:
  assumes "pmm_inv (vmm_pmm s)" and "pool_ok (s\<lparr>is_bootstrapping := True\<rparr>)" and "bootstrap_index s = 0"
    and "vmm_init mm lapic ioapic fb s = (Inr (), s')"
  shows "vm_ok {pool_base s} {} s' \<and> root_pml4_phys s' = pool_base s \<and> cr3 s' = pool_base s
    \<and> \<not> is_bootstrapping s'
    \<and> (\<forall>a. unat a < 2 ^ 32 \<longrightarrow>
         mmu_translate (vmm_mem s') (pool_base s) a = Some (a, low_flags OR FLAG_HUGE_PAGE))
    \<and> (\<forall>i \<in> set kernel_slots. \<exists>t. walk (vmm_mem s') (pool_base s) [i] = Some t)"
    and "unat a < 2 ^ 32 \<Longrightarrow> xlate (vmm_mem s') (pool_base s) (va_path a) = Some (low_entry a, [pt_index_of a])"
proof -
  let ?s0 = "s\<lparr>is_bootstrapping := True\<rparr>"
  from assms(4) obtain root s1 where al: "allocate_bootstrap_table ?s0 = (Some root, s1)"
    by (auto simp: vmm_init_def split: prod.splits option.splits)
  define s2 where "s2 = boot_mappings root mm lapic ioapic fb (s1\<lparr>root_pml4_phys := root\<rparr>)"
  define s3 where "s3 = s2\<lparr>cr3 := root, is_bootstrapping := False\<rparr>"
  from assms(4) obtain n where cs: "create_slots root kernel_slots s3 = (Some n, s')"
    unfolding vmm_init_def al option.case prod.case Let_def s2_def [symmetric] s3_def [symmetric]
    by (auto split: prod.splits option.splits)
  have fr: "low_inv root (s1\<lparr>root_pml4_phys := root\<rparr>)" and root: "root = pool_base s"
    using fresh_root [OF _ assms(2) _ _ al] assms(1,3) by simp_all
  note b = boot_mappings_ok [where mm = mm and lapic = lapic and ioapic = ioapic and fb = fb, OF fr, folded s2_def]
  have ok3: "vm_ok {root} {} s3" unfolding s3_def by (rule vm_ok_end_bootstrap [OF b(1)])
  note c = create_slots_ok [OF ok3 _ cs]
  have kc: "keeps {root} s3 s'" using c by simp
  have low: "xlate (vmm_mem s') root (va_path a) = Some (low_entry a, [pt_index_of a])" if "unat a < 2 ^ 32" for a
    using b(6) [OF that] kc by (simp add: keeps_def s3_def)
  have mmu: "\<forall>a. unat a < 2 ^ 32 \<longrightarrow> mmu_translate (vmm_mem s') root a = Some (a, low_flags OR FLAG_HUGE_PAGE)"
    using low_mmu low by blast
  have "root_pml4_phys s' = root" "cr3 s' = root" "\<not> is_bootstrapping s'" "vm_ok {root} {} s'"
    using kc b(2) by (simp_all add: keeps_def s3_def)
  then show "vm_ok {pool_base s} {} s' \<and> root_pml4_phys s' = pool_base s \<and> cr3 s' = pool_base s \<and> \<not> is_bootstrapping s'
    \<and> (\<forall>a. unat a < 2 ^ 32 \<longrightarrow> mmu_translate (vmm_mem s') (pool_base s) a = Some (a, low_flags OR FLAG_HUGE_PAGE))
    \<and> (\<forall>i \<in> set kernel_slots. \<exists>t. walk (vmm_mem s') (pool_base s) [i] = Some t)"
    using mmu c root by (simp del: walk.simps)
  show "unat a < 2 ^ 32 \<Longrightarrow> xlate (vmm_mem s') (pool_base s) (va_path a) = Some (low_entry a, [pt_index_of a])"
    using low root by simp
qed

text \<open>C19. After a successful \<^verbatim>\<open>vmm::init\<close> the kernel runs on its own root table: the page tables
  are well formed and apart from the free frames, every address below 4 GiB (address 0 included)
  is identity mapped by the hardware, every kernel-half slot of the root holds a table, and the
  bootstrap phase is over.\<close>
theorem vmm_init_establishes:
  assumes "pmm_inv (vmm_pmm s)" and "pool_ok (s\<lparr>is_bootstrapping := True\<rparr>)" and "bootstrap_index s = 0"
    and "vmm_init mm lapic ioapic fb s = (Inr (), s')"
  shows "vm_ok {pool_base s} {} s' \<and> root_pml4_phys s' = pool_base s \<and> cr3 s' = pool_base s
    \<and> \<not> is_bootstrapping s'
    \<and> (\<forall>a. unat a < 2 ^ 32 \<longrightarrow>
         mmu_translate (vmm_mem s') (pool_base s) a = Some (a, low_flags OR FLAG_HUGE_PAGE))
    \<and> (\<forall>i \<in> set kernel_slots. \<exists>t. walk (vmm_mem s') (pool_base s) [i] = Some t)"
  by (rule vmm_init_ok(1) [OF assms])

lemma create_slots_succeeds:
  assumes "vm_ok {root} {} s" and "\<not> is_bootstrapping s" and "no_huge_tables root (vmm_mem s)"
    and "length js \<le> card (free_addrs (vmm_pmm s))"
  shows "\<exists>n s'. create_slots root js s = (Some n, s')
    \<and> card (free_addrs (vmm_pmm s)) \<le> card (free_addrs (vmm_pmm s')) + length js"
  using assms
proof (induction js arbitrary: s)
  case (Cons j js)
  obtain res s1 where g: "get_or_create_table root j s = (res, s1)" by (cases "get_or_create_table root j s")
  have w: "walk (vmm_mem s) root [] = Some root" by simp
  note k = get_or_create_ok [OF Cons.prems(1) _ w _ g] and kk = keeps_get_or_create [OF Cons.prems(1) _ g]
  have gr: "grows {root} 1 s s1" using k(2) by simp
  have ne: "free_addrs (vmm_pmm s) \<noteq> {}" using Cons.prems(4) by auto
  have "\<exists>u. res = Inr u"
  proof (cases res)
    case (Inl e)
    then have g': "get_or_create_table root j s = (Inl e, s1)" using g by simp
    have "is_present (vmm_mem s root j) \<and> is_huge (vmm_mem s root j)"
      using get_or_create_Inl(2) [OF Cons.prems(1) w g'] Cons.prems(2) ne by auto
    then have "xlate (vmm_mem s) root [j, 0, 0, 0] = Some (vmm_mem s root j, [0, 0, 0])" by simp
    moreover have "length [j, 0, 0, 0 :: pt_index] = 4" by simp
    ultimately have "length [0, 0, 0 :: pt_index] \<le> 1"
      using Cons.prems(3) unfolding no_huge_tables_def by blast
    then show ?thesis by simp
  qed simp
  then obtain u where u: "res = Inr u" by blast
  have nb: "\<not> is_bootstrapping s1" using same_restD [OF growsD_rest [OF gr]] Cons.prems(2) by simp
  have le: "card (avail s) \<le> card (avail s1) + 1"
  proof -
    have sub: "avail s1 \<subseteq> avail s" and c: "card (avail s - avail s1) \<le> 1" using gr by (simp_all add: grows_def)
    have "card (avail s) = card (avail s1) + card (avail s - avail s1)"
      using card_Diff_subset [OF finite_subset [OF sub finite_avail [OF Cons.prems(1)]] sub]
        card_mono [OF finite_avail [OF Cons.prems(1)] sub] by simp
    with c show ?thesis by simp
  qed
  then have "length js \<le> card (free_addrs (vmm_pmm s1))"
    using Cons.prems(2,4) nb by (simp add: avail_def)
  moreover have "vm_ok {root} {} s1" using k(1) by simp
  moreover have "no_huge_tables root (vmm_mem s1)" using kk(1) Cons.prems(3) by (simp add: keeps_def)
  ultimately obtain n s' where "create_slots root js s1 = (Some n, s')"
    "card (free_addrs (vmm_pmm s1)) \<le> card (free_addrs (vmm_pmm s')) + length js" using Cons.IH [OF _ nb] by blast
  with g u le nb Cons.prems(2) show ?case by (simp add: Let_def avail_def)
qed simp

lemma length_kernel_slots: "length kernel_slots = 256"
  by (simp add: kernel_slots_def KERNEL_PML4_START_def)

lemma init_completes:
  assumes "pmm_inv (vmm_pmm s)" and "pool_ok (s\<lparr>is_bootstrapping := True\<rparr>)" and "bootstrap_index s = 0"
    and "256 \<le> card (free_addrs (vmm_pmm s))"
  shows "\<exists>s'. vmm_init mm lapic ioapic fb s = (Inr (), s')
    \<and> card (free_addrs (vmm_pmm s)) \<le> card (free_addrs (vmm_pmm s')) + 256"
proof -
  let ?s0 = "s\<lparr>is_bootstrapping := True\<rparr>"
  have "\<exists>root s1. allocate_bootstrap_table ?s0 = (Some root, s1)"
    using assms(3) by (simp add: allocate_bootstrap_table_def Let_def kernel_consts)
  then obtain root s1 where al: "allocate_bootstrap_table ?s0 = (Some root, s1)" by blast
  define s2 where "s2 = boot_mappings root mm lapic ioapic fb (s1\<lparr>root_pml4_phys := root\<rparr>)"
  define s3 where "s3 = s2\<lparr>cr3 := root, is_bootstrapping := False\<rparr>"
  have fr: "low_inv root (s1\<lparr>root_pml4_phys := root\<rparr>)"
    using fresh_root [OF _ assms(2) _ _ al] assms(1,3) by simp
  note b = boot_mappings_ok [where mm = mm and lapic = lapic and ioapic = ioapic and fb = fb, OF fr, folded s2_def]
  have "vmm_pmm s1 = vmm_pmm s" using bootstrap_table_Some(5) [OF assms(2) _ al] by simp
  then have c: "card (free_addrs (vmm_pmm s3)) = card (free_addrs (vmm_pmm s))" using b(4) by (simp add: s3_def)
  have "256 \<le> card (free_addrs (vmm_pmm s3))" using c assms(4) by simp
  moreover have "vm_ok {root} {} s3" unfolding s3_def by (rule vm_ok_end_bootstrap [OF b(1)])
  moreover have "\<not> is_bootstrapping s3" "no_huge_tables root (vmm_mem s3)" using b(5) by (simp_all add: s3_def)
  ultimately obtain n s4 where "create_slots root kernel_slots s3 = (Some n, s4)"
    "card (free_addrs (vmm_pmm s3)) \<le> card (free_addrs (vmm_pmm s4)) + 256"
    using create_slots_succeeds [of root s3 kernel_slots] length_kernel_slots by auto
  then show ?thesis
    unfolding vmm_init_def al option.case prod.case Let_def s2_def [symmetric] s3_def [symmetric] using c by simp
qed

text \<open>\<^verbatim>\<open>vmm::init\<close> does not halt: with a page-aligned bootstrap pool apart from the free
  frames and 256 frames free for the kernel-half tables, it completes, whatever the memory map and
  the device addresses.\<close>
theorem vmm_init_succeeds:
  assumes "pmm_inv (vmm_pmm s)" and "pool_ok (s\<lparr>is_bootstrapping := True\<rparr>)" and "bootstrap_index s = 0"
    and "256 \<le> card (free_addrs (vmm_pmm s))"
  shows "\<exists>s'. vmm_init mm lapic ioapic fb s = (Inr (), s')"
  using init_completes [OF assms] by blast

subsection \<open>Concrete instances\<close>

text \<open>A machine with 2 MiB of usable memory and the bootstrap pool at 16 MiB.\<close>

definition boot_map :: physical_memory_map where
  "boot_map = \<lparr>mm_regions = \<lparr>physical_start = 0, physical_end = 0x200000, page_count = 512,
       region_type = Usable, is_usable = True\<rparr> # replicate 127 memory_region_empty,
     mm_region_count = 1, total_memory_bytes = 0x200000, usable_memory_bytes = 0x200000,
     reserved_memory_bytes = 0\<rparr>"

definition boot_vm :: vmm where
  "boot_vm = sample_vm\<lparr>vmm_pmm := pmm_init boot_map, pool_base := 0x1000000, is_bootstrapping := True,
     root_pml4_phys := 0, cr3 := 0\<rparr>"

lemma boot_live: "live_regions boot_map = [\<lparr>physical_start = 0, physical_end = 0x200000, page_count = 512,
     region_type = Usable, is_usable = True\<rparr>]"
  by (simp add: live_regions_def boot_map_def)

lemma boot_inv: "pmm_inv (pmm_init boot_map)"
  by (rule pmm_init_inv) (simp add: boot_live usable_nonoverlapping_def)

lemma boot_free_frames: "free_frames (pmm_init boot_map) = {1..<512}"
proof -
  have "managed_total (live_regions boot_map) = 512"
    by (simp add: managed_total_def highest_addr_def boot_live kernel_consts)
  moreover have "set (usable_page_list (live_regions boot_map)) = {0..<512}"
    by (simp add: usable_page_list_def region_pages_def boot_live)
  ultimately show ?thesis unfolding pmm_init_free_frames by auto
qed

lemma boot_free_card: "card (free_addrs (pmm_init boot_map)) = 511"
proof -
  have "inj_on from_page_number {1..<512}" by (rule inj_on_subset [OF inj_from_page_number]) auto
  then show ?thesis unfolding free_addrs_def boot_free_frames by (simp add: card_image)
qed

lemma boot_free_below:
  assumes "f \<in> free_addrs (pmm_init boot_map)"
  shows "unat f < 0x200000"
proof -
  from assms obtain n where n: "n < 512" "f = from_page_number n"
    by (auto simp: free_addrs_def boot_free_frames)
  then have "n < 2 ^ 52" by simp
  from unat_from_page_number [OF this] n show ?thesis by simp
qed

lemma boot_pool_any:
  assumes "\<And>f. f \<in> free_addrs p \<Longrightarrow> unat f < 0x1000000"
  shows "pool_ok (boot_vm\<lparr>vmm_pmm := p, is_bootstrapping := True\<rparr>)"
proof -
  let ?s = "boot_vm\<lparr>vmm_pmm := p, is_bootstrapping := True\<rparr>"
  have base: "pool_base ?s = 0x1000000" by (simp add: boot_vm_def)
  have ge: "0x1000000 \<le> unat (pool_table ?s i)" if "i < 512" for i
  proof -
    have "unat (of_nat i * PAGE_SIZE :: u64) = i * 4096"
      using that by (subst unat_mult_u64) (simp_all add: unat_of_nat take_bit_nat_eq_self)
    with that show ?thesis unfolding pool_table_def base by (subst unat_add_u64) simp_all
  qed
  have "pool_tail ?s \<inter> free_addrs (vmm_pmm ?s) = {}"
    using assms ge by (fastforce simp: pool_tail_def boot_vm_def kernel_consts)
  then show ?thesis by (simp add: pool_ok_def base kernel_consts)
qed

lemma boot_pool: "pool_ok (boot_vm\<lparr>is_bootstrapping := True\<rparr>)"
proof -
  have "pool_ok (boot_vm\<lparr>vmm_pmm := pmm_init boot_map, is_bootstrapping := True\<rparr>)"
    by (rule boot_pool_any) (use boot_free_below in force)
  moreover have "boot_vm\<lparr>vmm_pmm := pmm_init boot_map\<rparr> = boot_vm" by (simp add: boot_vm_def)
  ultimately show ?thesis by simp
qed

lemma boot_vm_fields: "vmm_pmm boot_vm = pmm_init boot_map" "bootstrap_index boot_vm = 0" "pool_base boot_vm = 0x1000000"
  by (simp_all add: boot_vm_def sample_vm_def)

lemma boot_completes:
  obtains s' where "vmm_init boot_map 0xFEE00000 0xFEC00000 None boot_vm = (Inr (), s')"
    and "255 \<le> card (free_addrs (vmm_pmm s'))"
  using init_completes [OF _ boot_pool, where mm = boot_map and lapic = "0xFEE00000" and ioapic = "0xFEC00000" and fb = None] that
  by (auto simp: boot_vm_fields boot_inv boot_free_card)

theorem vmm_init_succeeds_witness:
  "\<exists>s'. vmm_init boot_map 0xFEE00000 0xFEC00000 None boot_vm = (Inr (), s')"
  by (rule vmm_init_succeeds [OF _ boot_pool]) (simp_all add: boot_vm_fields boot_inv boot_free_card)

theorem vmm_init_establishes_witness:
  "\<exists>s'. vmm_init boot_map 0xFEE00000 0xFEC00000 None boot_vm = (Inr (), s')
     \<and> mmu_translate (vmm_mem s') 0x1000000 0 = Some (0, low_flags OR FLAG_HUGE_PAGE)"
proof -
  obtain s' where i: "vmm_init boot_map 0xFEE00000 0xFEC00000 None boot_vm = (Inr (), s')" by (rule boot_completes)
  have "pmm_inv (vmm_pmm boot_vm)" by (simp add: boot_vm_fields boot_inv)
  from vmm_init_establishes [OF this boot_pool boot_vm_fields(2) i] i show ?thesis
    by (simp add: boot_vm_fields)
qed

text \<open>The same memory with a kernel root table in place and nothing mapped.\<close>

definition large_vm :: vmm where
  "large_vm = sample_vm\<lparr>vmm_pmm := pmm_init boot_map, root_pml4_phys := 0x300000, cr3 := 0x300000\<rparr>"

lemma large_vm_ok: "vm_ok {0x300000} {} large_vm"
  unfolding vm_ok_def
proof (intro conjI)
  show "pmm_inv (vmm_pmm large_vm)" by (simp add: large_vm_def boot_inv)
  show "pool_ok large_vm" by (simp add: pool_ok_def large_vm_def sample_vm_def kernel_consts)
  have "0x300000 \<notin> avail large_vm"
    using boot_free_below [of "0x300000"] by (auto simp: avail_def large_vm_def sample_vm_def)
  then show "forest (vmm_mem large_vm) {0x300000} (avail large_vm \<union> {})"
    by (intro forestI) (auto simp: large_vm_def sample_vm_def walk_empty same_subtree_def)
qed simp

lemma large_vm_regions: "regions_inv large_vm" "cursor_ok large_vm" "root_pml4_phys large_vm \<in> {0x300000}"
  "live_vregions large_vm = []" "next_dynamic_addr large_vm = DYNAMIC_VIRT_START"
  using regions_cong [of large_vm sample_vm] cursor_cong [of large_vm sample_vm] sample_vm_facts sample_live
  by (simp_all add: large_vm_def sample_vm_fields)

lemma large_region_possible:
  assumes "n \<noteq> 0" and "n mod PAGE_SIZE = 0" and "unat (n div PAGE_SIZE) \<le> 32" and "unat n \<le> 131072"
  shows "\<exists>r s'. allocate_and_map_region n perms purpose large_vm = (Inr r, s')"
proof (rule alloc_map_possible [OF large_vm_ok large_vm_regions(1-3) _ assms(1,2)])
  show "\<not> is_bootstrapping large_vm" by (simp add: large_vm_def sample_vm_def)
  show "unat (next_dynamic_addr large_vm) + unat n \<le> unat DYNAMIC_VIRT_END"
    unfolding large_vm_regions using assms(4) by (simp add: kernel_consts)
  show "vmm_region_count large_vm < MAX_VIRT_REGIONS" by (simp add: large_vm_def sample_vm_def kernel_consts)
  show "4 * unat (n div PAGE_SIZE) \<le> card (free_addrs (vmm_pmm large_vm))"
    using assms(3) by (simp add: large_vm_def boot_free_card)
  show "xlate (vmm_mem large_vm) (root_pml4_phys large_vm) (va_path (region_page (next_dynamic_addr large_vm) j)) = None"
    for j using sample_vm_unmapped by (simp add: large_vm_def)
qed (use assms(3) in \<open>simp_all add: large_vm_regions\<close>)

lemma index_less: "unat (i :: pt_index) < 512"
  using unsigned_less [of i] by simp

lemma set_kernel_slots: "set (0 # kernel_slots) = {i. shared_slot i}"
proof -
  have "i \<in> of_nat ` {256..<512}" if "256 \<le> i" for i :: pt_index
  proof -
    have "unat i \<in> {256..<512}" using that index_less [of i] by (simp add: word_le_nat_alt)
    then show ?thesis by (intro image_eqI [of _ _ "unat i"]) simp_all
  qed
  moreover have "(256 :: pt_index) \<le> of_nat k" if "k \<in> {256..<512}" for k
    using that by (simp add: word_le_nat_alt unat_of_nat)
  ultimately have "of_nat ` {256..<512} = {i :: pt_index. 256 \<le> i}" by blast
  moreover have "set kernel_slots = of_nat ` {256..<512}"
    by (simp only: kernel_slots_def KERNEL_PML4_START_def set_map set_upt)
  ultimately show ?thesis by (auto simp: shared_slot_def)
qed

end
