(* ===== verification/Heap_Run.thy ===== *)
theory Heap_Run
  imports Heap_Allocator Vmm_Boot
begin

text \<open>
  The kernel heap from initialisation on: what \<^verbatim>\<open>init\<close> sets up, the runs of a heap under
  allocation, release and writes of its clients, and the properties of the heap.
\<close>

subsection \<open>Initialisation\<close>

definition initial_block :: "nat \<Rightarrow> block" where
  "initial_block a = \<lparr>bk_addr = a, bk_free = True, bk_size = HEAP_INITIAL_PAGES * PAGE_SIZE_nat - HEADER_SIZE\<rparr>"

lemma dynamic_start_facts: "0 < unat DYNAMIC_VIRT_START"
  by (simp add: kernel_consts)

lemma heap_init_inv:
  assumes vm: "vm_ok R X v" "regions_inv v" "cursor_ok v" "root_pml4_phys v \<in> R"
    and init: "heap_init (heap_state_new hdr bytes v) = (Inr (), s)"
  shows "heap_inv s [initial_block (unat (next_dynamic_addr v))]"
    and "hp_start s = unat (next_dynamic_addr v)" and "hp_current_end s = unat (next_dynamic_addr v) + 131072"
    and "\<exists>frames. length frames = 32 \<and> distinct frames \<and> set frames \<subseteq> free_addrs (vmm_pmm v)
      \<and> vm_ok R (X \<union> set frames) (hp_vmm s)
      \<and> maps_region R (root_pml4_phys v) (next_dynamic_addr v) frames (to_page_flags PERM_KERNEL_DATA)
          (vmm_mem v) (vmm_mem (hp_vmm s))"
proof -
  have n: "(of_nat (HEAP_INITIAL_PAGES * PAGE_SIZE_nat) :: u64) = 0x20000" by (simp add: kernel_consts)
  from init obtain r v' where am: "allocate_and_map_region 0x20000 PERM_KERNEL_DATA DynamicKernel v = (Inr r, v')"
    and s: "s = (heap_state_new hdr bytes v)\<lparr>hp_start := unat (vr_start r), hp_current_end := unat (vr_end r),
               hp_hdr := hdr(unat (vr_start r) := \<lparr>bh_magic = HEAP_MAGIC, bh_is_free = True,
                  bh_size = 131072 - HEADER_SIZE, bh_prev = 0, bh_next = 0\<rparr>),
               hp_head := unat (vr_start r),
               hp_stats := heap_stats_new\<lparr>total_bytes := 131072, free_bytes := 131072 - HEADER_SIZE,
                  allocated_bytes := 0\<rparr>,
               hp_initialized := True, hp_vmm := v'\<rparr>"
    by (auto simp: heap_init_def heap_state_new_def Let_def n [simplified] kernel_consts split: prod.splits sum.splits)
  note c = alloc_map_correct [OF vm am]
  from c obtain frames where fr: "length frames = 32" "distinct frames" "set frames \<subseteq> free_addrs (vmm_pmm v)"
    "vm_ok R (X \<union> set frames) v'"
    "maps_region R (root_pml4_phys v) (vr_start r) frames (to_page_flags PERM_KERNEL_DATA) (vmm_mem v) (vmm_mem v')"
    by (auto simp: kernel_consts)
  have r: "vr_start r = next_dynamic_addr v" "vr_size r = 0x20000" using c by auto
  have val: "vr_valid (r\<lparr>owns_physical_pages := False\<rparr>)" using c live_valid [of v'] by auto
  then have e: "unat (vr_end r) = unat (vr_start r) + 131072"
    using unat_vr_end [of r] r(2) by (simp add: vr_valid_def)
  have al: "va_is_aligned (next_dynamic_addr v)" "DYNAMIC_VIRT_START \<le> next_dynamic_addr v"
    using vm(3) by (simp_all add: cursor_ok_def)
  have m: "unat (next_dynamic_addr v) mod 16 = 0"
  proof -
    have "4096 dvd unat (next_dynamic_addr v)" using al(1) by (simp add: va_is_aligned_def aligned_iff_dvd)
    then have "16 dvd unat (next_dynamic_addr v)" by (rule dvd_trans [rotated]) simp
    then show ?thesis by simp
  qed
  have pos: "0 < unat (next_dynamic_addr v)"
    using al(2) dynamic_start_facts by (simp add: word_le_nat_alt)
  show "hp_start s = unat (next_dynamic_addr v)" "hp_current_end s = unat (next_dynamic_addr v) + 131072"
    by (simp_all add: s e r(1))
  show "heap_inv s [initial_block (unat (next_dynamic_addr v))]"
    using m pos by (simp add: heap_inv_alt blocks_ok_def s r(1) e initial_block_def hdr_of_def size_ok_def
      heap_stats_new_def kernel_consts)
  show "\<exists>frames. length frames = 32 \<and> distinct frames \<and> set frames \<subseteq> free_addrs (vmm_pmm v)
      \<and> vm_ok R (X \<union> set frames) (hp_vmm s)
      \<and> maps_region R (root_pml4_phys v) (next_dynamic_addr v) frames (to_page_flags PERM_KERNEL_DATA)
          (vmm_mem v) (vmm_mem (hp_vmm s))"
    using fr r(1) by (auto simp: s)
qed

subsection \<open>Runs\<close>

text \<open>A run of the heap: it starts from \<^verbatim>\<open>init\<close>; then clients allocate, release blocks they hold with
  the size they asked for, and write into blocks they hold.  The second component is the set of the
  pointers handed out and not yet released, each with the requested size.  A client's write may
  change every header record that overlaps the bytes it owns.\<close>

inductive heap_run :: "kheap \<Rightarrow> (nat \<times> nat) set \<Rightarrow> bool" where
  start: "vm_ok R X v \<Longrightarrow> regions_inv v \<Longrightarrow> cursor_ok v \<Longrightarrow> root_pml4_phys v \<in> R \<Longrightarrow>
    heap_init (heap_state_new hdr bytes v) = (Inr (), s) \<Longrightarrow> heap_run s {}"
| alloc: "heap_run s P \<Longrightarrow> 0 < n \<Longrightarrow> heap_allocate n al s = Some (p, s') \<Longrightarrow>
    heap_run s' (if p = 0 then P else insert (p, n) P)"
| release: "heap_run s P \<Longrightarrow> (p, n) \<in> P \<Longrightarrow> heap_run (heap_deallocate p n s) (P - {(p, n)})"
| client: "heap_run s P \<Longrightarrow> (p, n) \<in> P \<Longrightarrow>
    (\<And>a. \<not> (p \<le> a \<and> a < p + n) \<Longrightarrow> bytes a = hp_bytes s a) \<Longrightarrow>
    (\<And>a. \<not> (p < a + HEADER_SIZE \<and> a < p + n) \<Longrightarrow> hdr a = hp_hdr s a) \<Longrightarrow>
    heap_run (s\<lparr>hp_bytes := bytes, hp_hdr := hdr\<rparr>) P"

text \<open>The pointers held by the clients are the live blocks.\<close>

definition holds :: "(nat \<times> nat) set \<Rightarrow> (nat \<times> nat) set \<Rightarrow> bool" where
  "holds P L \<longleftrightarrow> fst ` P = fst ` L \<and> inj_on fst P \<and> (\<forall>(p, n) \<in> P. \<exists>m. (p, m) \<in> L \<and> n \<le> m \<and> 0 < n)"

lemma holdsD: "holds P L \<Longrightarrow> (p, n) \<in> P \<Longrightarrow> \<exists>m. (p, m) \<in> L \<and> n \<le> m \<and> 0 < n"
  by (auto simp: holds_def)

lemma holds_insert:
  assumes "holds P L" and "0 < n" and "n \<le> m" and "p \<notin> fst ` L"
  shows "holds (insert (p, n) P) (insert (p, m) L)"
  using assms by (auto simp: holds_def)

lemma holds_remove:
  assumes "holds P L" and "(p, n) \<in> P" and "(p, m) \<in> L" and "inj_on fst L"
  shows "holds (P - {(p, n)}) (L - {(p, m)})"
proof -
  have "fst ` (P - {(p, n)}) = fst ` P - {p}" "fst ` (L - {(p, m)}) = fst ` L - {p}"
    using assms inj_on_image_set_diff [of fst P P "{(p, n)}"] inj_on_image_set_diff [of fst L L "{(p, m)}"]
    by (simp_all add: holds_def)
  moreover have "\<exists>l. (q, l) \<in> L - {(p, m)} \<and> k \<le> l \<and> 0 < k" if "(q, k) \<in> P - {(p, n)}" for q k
  proof -
    have "q \<noteq> p" using assms(1,2) that inj_onD [of fst P "(p, n)" "(q, k)"] by (auto simp: holds_def)
    then show ?thesis using holdsD [OF assms(1), of q k] that by auto
  qed
  ultimately show ?thesis using assms(1) by (auto simp: holds_def inj_on_def)
qed

lemma live_inj: "heap_ok s \<Longrightarrow> inj_on fst (heap_live s)"
  using kernel_heap.block_unique by (auto simp: inj_on_def)

text \<open>A write inside a live block keeps every header of the list.\<close>

lemma client_write_ok:
  assumes ok: "heap_ok s" and live: "(p, m) \<in> heap_live s" and n: "n \<le> m"
    and hdr: "\<And>a. \<not> (p < a + HEADER_SIZE \<and> a < p + n) \<Longrightarrow> hdr a = hp_hdr s a"
  shows "heap_inv (s\<lparr>hp_bytes := bytes, hp_hdr := hdr\<rparr>) (heap_blocks s)"
proof -
  let ?bs = "heap_blocks s"
  have inv: "heap_inv s ?bs" using ok by (simp add: heap_ok_def)
  from live_block [OF inv live [unfolded heap_live_def]] obtain xs b ys where b: "?bs = xs @ b # ys"
    "p = payload_ptr (bk_addr b)" "m = bk_size b" by metis
  have t: "tiles (hp_start s) (xs @ b # ys) (hp_current_end s)" using inv b(1) by (simp add: heap_inv_alt blocks_ok_def)
  have "hdr (bk_addr c) = hp_hdr s (bk_addr c)" if "c \<in> set ?bs" for c
  proof (cases "c = b")
    case True
    then show ?thesis by (intro hdr) (simp add: b(2) payload_ptr_def)
  next
    case False
    then have "c \<in> set xs \<union> set ys" using that b(1) by auto
    from tiles_disjoint [OF t this] n show ?thesis by (intro hdr) (simp add: b(2,3) payload_ptr_def, linarith)
  qed
  then have "seg hdr 0 ?bs 0 \<longleftrightarrow> seg (hp_hdr s) 0 ?bs 0" by (rule seg_cong)
  then show ?thesis using inv by (simp add: heap_inv_alt)
qed

lemma heap_run_holds:
  assumes "heap_run s P"
  shows "heap_ok s \<and> holds P (heap_live s)"
  using assms
proof induction
  case (start R X v hdr bytes s)
  note i = heap_init_inv(1) [OF start]
  have "heap_live s = {}" using heap_live_inv [OF i] by (simp add: initial_block_def)
  then show ?case using heap_okI [OF i] by (simp add: holds_def)
next
  case (alloc s P n al p s')
  from alloc.IH have ok: "heap_ok s" and h: "holds P (heap_live s)" by auto
  from kernel_heap.alloc_total [OF ok alloc.hyps(2), of al] alloc.hyps(3) have ok': "heap_ok s'"
    and c: "p = 0 \<and> heap_live s' = heap_live s
      \<or> (\<exists>m\<ge>n. (p, m) \<notin> heap_live s \<and> heap_live s' = insert (p, m) (heap_live s))" by auto
  show ?case
  proof (cases "p = 0")
    case True
    then have "heap_live s' = heap_live s" using c kernel_heap.blocks_nonnull [OF ok'] by auto
    then show ?thesis using ok' h True by simp
  next
    case False
    with c obtain m where m: "n \<le> m" "(p, m) \<notin> heap_live s" "heap_live s' = insert (p, m) (heap_live s)" by auto
    have "p \<notin> fst ` heap_live s"
    proof
      assume "p \<in> fst ` heap_live s"
      then obtain l where l: "(p, l) \<in> heap_live s" by (rule fst_imageE)
      then have "m = l" using kernel_heap.block_unique [OF ok', of p m l] m(3) by simp
      with l m(2) show False by simp
    qed
    then show ?thesis using holds_insert [OF h alloc.hyps(2) m(1)] ok' m(3) False by simp
  qed
next
  case (release s P p n)
  from release.IH have ok: "heap_ok s" and h: "holds P (heap_live s)" by auto
  from holdsD [OF h release.hyps(2)] obtain m where m: "(p, m) \<in> heap_live s" "n \<le> m" "0 < n" by blast
  from kernel_heap.dealloc_removes [OF ok m(1,3)] holds_remove [OF h release.hyps(2) m(1) live_inj [OF ok]]
  show ?case by simp
next
  case (client s P p n bytes hdr)
  from client.IH have ok: "heap_ok s" and h: "holds P (heap_live s)" by auto
  from holdsD [OF h client.hyps(2)] obtain m where m: "(p, m) \<in> heap_live s" "n \<le> m" by blast
  have w: "heap_inv (s\<lparr>hp_bytes := bytes, hp_hdr := hdr\<rparr>) (heap_blocks s)"
    by (rule client_write_ok [OF ok m client.hyps(4)])
  show ?case using h heap_okI [OF w] heap_live_inv [OF w] by (simp add: heap_live_def)
qed

subsection \<open>Allocation followed by release\<close>

lemma list_free_alloc:
  assumes ok: "blocks_ok a bs e" and al: "list_alloc n bs = Some (p, bs')" and n: "16 \<le> n" "n mod 16 = 0"
  shows "list_free (from_payload_ptr p) bs' = bs"
proof -
  from al obtain xs b ys where b: "bs = xs @ b # ys" "fits n b" "p = payload_ptr (bk_addr b)"
    "bs' = xs @ carve n b @ ys" by (rule list_alloc_SomeE)
  have fb: "bk_free b" "n \<le> bk_size b" using b(2) by (simp_all add: fits_def)
  have ok': "blocks_ok a (xs @ carve n b @ ys) e" using blocks_ok_carve [of a xs b ys e n] ok b n by simp
  have na: "no_adjacent_free (xs @ b # ys)" using ok b by (simp add: blocks_ok_def)
  have last: "\<not> (xs \<noteq> [] \<and> bk_free (last xs))" using na fb(1) by (auto simp: no_adjacent_append)
  have hd_ys: "ys = [] \<or> \<not> bk_free (hd ys)" using na fb(1) by (cases ys) (auto simp: no_adjacent_append)
  have addr: "from_payload_ptr p = bk_addr b" by (simp add: b(3) from_payload_ptr_def payload_ptr_def)
  show ?thesis
  proof (cases "HEADER_SIZE + MIN_BLOCK_PAYLOAD \<le> bk_size b - n")
    case True
    let ?b = "b\<lparr>bk_size := n, bk_free := False\<rparr>"
    let ?r = "\<lparr>bk_addr = bk_addr b + (HEADER_SIZE + n), bk_free = True, bk_size = bk_size b - n - HEADER_SIZE\<rparr>"
    have c: "bs' = xs @ ?b # ?r # ys" using b(4) True by (simp add: carve_def)
    have t: "tiles a (xs @ ?b # ?r # ys) e" "no_adjacent_free (xs @ ?b # ?r # ys)"
      using ok' unfolding b(4) [symmetric] c by (simp_all add: blocks_ok_def)
    have "merge (?b\<lparr>bk_free := True\<rparr>) ?r = b" using fb True by (cases b) (simp add: merge_def)
    then show ?thesis using list_free_at(1) [OF t refl] c addr last b(1) by simp
  next
    case False
    have c: "bs' = xs @ b\<lparr>bk_free := False\<rparr> # ys" using b(4) False by (simp add: carve_def)
    have t: "tiles a (xs @ b\<lparr>bk_free := False\<rparr> # ys) e" "no_adjacent_free (xs @ b\<lparr>bk_free := False\<rparr> # ys)"
      using ok' unfolding b(4) [symmetric] c by (simp_all add: blocks_ok_def)
    have "join_next b ys = b # ys" using hd_ys by (cases ys) auto
    moreover have "b\<lparr>bk_free := False\<rparr>\<lparr>bk_free := True\<rparr> = b" using fb(1) by (cases b) simp
    ultimately show ?thesis using list_free_at(1) [OF t refl] c addr last b(1) by simp
  qed
qed

lemma list_alloc_live_block:
  assumes "list_alloc n bs = Some (p, bs')"
  obtains xs c ys where "bs' = xs @ c # ys" "\<not> bk_free c" "p = payload_ptr (bk_addr c)"
proof -
  from assms obtain xs b ys where b: "p = payload_ptr (bk_addr b)" "bs' = xs @ carve n b @ ys"
    by (rule list_alloc_SomeE)
  show thesis
  proof (cases "HEADER_SIZE + MIN_BLOCK_PAYLOAD \<le> bk_size b - n")
    case True
    then show thesis
      using b by (intro that [of xs "b\<lparr>bk_size := n, bk_free := False\<rparr>"]) (simp_all add: carve_def)
  next
    case False
    then show thesis using b by (intro that [of xs "b\<lparr>bk_free := False\<rparr>" ys]) (simp_all add: carve_def)
  qed
qed

lemma coalesce_flags:
  "bh_magic (hp_hdr (coalesce_next a s) x) = bh_magic (hp_hdr s x)"
  "bh_is_free (hp_hdr (coalesce_next a s) x) = bh_is_free (hp_hdr s x)"
  "bh_magic (hp_hdr (coalesce_prev a s) x) = bh_magic (hp_hdr s x)"
  "bh_is_free (hp_hdr (coalesce_prev a s) x) = bh_is_free (hp_hdr s x)"
  by (simp_all add: coalesce_next_def coalesce_prev_def Let_def upd_hdr_def set_prev_of_def)

text \<open>After a release the header in front of the pointer is still recognisable and marked free.\<close>

lemma freed_header:
  assumes inv: "heap_inv s (xs @ b # ys)" and live: "\<not> bk_free b" and n: "n \<noteq> 0"
  defines "h \<equiv> hp_hdr (heap_deallocate (payload_ptr (bk_addr b)) n s) (bk_addr b)"
  shows "bh_magic h = HEAP_MAGIC" and "bh_is_free h"
proof -
  have rel: "heap_rel s (xs @ b # ys)" using inv by (simp add: heap_inv_def)
  note hb = heap_rel_next [OF rel]
  show "bh_magic h = HEAP_MAGIC" "bh_is_free h"
    using rel hb live n
    by (simp_all add: h_def heap_deallocate_def Let_def from_payload_ptr_def payload_ptr_def heap_rel_def
        coalesce_flags poison_def upd_hdr_def)
qed

subsection \<open>Expansion and the page tables\<close>

lemma advance_cursor_same:
  "vmm_mem (advance_dynamic_cursor a v) = vmm_mem v" "vmm_pmm (advance_dynamic_cursor a v) = vmm_pmm v"
  "vm_ok R X (advance_dynamic_cursor a v) = vm_ok R X v"
proof -
  show "vmm_mem (advance_dynamic_cursor a v) = vmm_mem v" "vmm_pmm (advance_dynamic_cursor a v) = vmm_pmm v"
    by (simp_all add: advance_dynamic_cursor_def)
  show "vm_ok R X (advance_dynamic_cursor a v) = vm_ok R X v"
    by (rule vm_ok_cong(1)) (simp_all add: advance_dynamic_cursor_def)
qed

lemma expand_failure_vm:
  assumes ok: "vm_ok R X (hp_vmm s)" and root: "root_pml4_phys (hp_vmm s) \<in> R"
    and ex: "expand_heap n s = Some (False, s')"
  shows "vm_ok R X (hp_vmm s')"
    and "r \<in> R \<Longrightarrow> mmu_translate (vmm_mem (hp_vmm s')) r va = mmu_translate (vmm_mem (hp_vmm s)) r va"
proof -
  let ?v = "hp_vmm s"
  have inv: "pmm_inv (vmm_pmm ?v)" using ok by (simp add: vm_ok_def)
  have "vm_ok R X (hp_vmm s') \<and>
    (r \<in> R \<longrightarrow> mmu_translate (vmm_mem (hp_vmm s')) r va = mmu_translate (vmm_mem ?v) r va)"
  proof (cases rule: expand_heap_split [of n s])
    case big
    then show ?thesis using ok ex by simp
  next
    case (nomem p)
    from pmm_frames.alloc_loop_None [OF inv nomem(1)] have "pmm_inv p" "free_addrs p = free_addrs (vmm_pmm ?v)" by auto
    from vm_ok_same_free [OF ok this] nomem(2) ex show ?thesis by auto
  next
    case (failed fs p v')
    note t = vm_ok_take_frames [OF ok failed(2)] and f = map_frames_step [OF ok root failed(2,1,3)]
    have man: "set fs \<subseteq> managed_addrs (vmm_pmm v')"
      using pmm_frames.frees_managed [OF inv] t(4,6) same_restD(8) [OF f(2)] by auto
    have "set fs \<inter> X = {}" using t(4) ok by (auto simp: vm_ok_def avail_def)
    from vm_ok_give_frames(1) [OF f(1) t(3) man this] show ?thesis using f(4) failed(4) ex by auto
  next
    case (mapped fs p v')
    then show ?thesis using ex by (simp split: option.splits)
  qed
  then show "vm_ok R X (hp_vmm s')"
    and "r \<in> R \<Longrightarrow> mmu_translate (vmm_mem (hp_vmm s')) r va = mmu_translate (vmm_mem (hp_vmm s)) r va" by auto
qed

lemma expand_success_vm:
  assumes ok: "vm_ok R X (hp_vmm s)" and root: "root_pml4_phys (hp_vmm s) \<in> R" and inv: "heap_inv s bs"
    and ex: "expand_heap n s = Some (True, s')"
  shows "\<exists>frames. length frames = growth_bytes n div PAGE_SIZE_nat \<and> distinct frames
    \<and> set frames \<subseteq> free_addrs (vmm_pmm (hp_vmm s)) \<and> set frames \<inter> free_addrs (vmm_pmm (hp_vmm s')) = {}
    \<and> vm_ok R (X \<union> set frames) (hp_vmm s')
    \<and> maps_region R (root_pml4_phys (hp_vmm s)) (of_nat (hp_current_end s)) frames (to_page_flags PERM_KERNEL_DATA)
        (vmm_mem (hp_vmm s)) (vmm_mem (hp_vmm s'))"
  using inv
proof (cases rule: expand_heap_cases [where n = n])
  case (yes s2 v)
  then have s2: "s2 = s'" using ex by simp
  from yes(7) obtain fs p where k: "growth_bytes n div PAGE_SIZE_nat \<le> 128"
    and al: "alloc_loop allocate_physical_page free_physical_page (growth_bytes n div PAGE_SIZE_nat) []
      (vmm_pmm (hp_vmm s)) = (Some fs, p)"
    and mp: "map_pages (root_pml4_phys (hp_vmm s)) (of_nat (hp_current_end s)) (to_page_flags PERM_KERNEL_DATA) 0 fs
      ((hp_vmm s)\<lparr>vmm_pmm := p\<rparr>) = (True, v)" by blast
  note t = vm_ok_take_frames [OF ok al] and f = map_frames_step [OF ok root al k mp]
  have "hp_vmm s' = advance_dynamic_cursor (of_nat (hp_current_end s + growth_bytes n)) v" using yes(6) s2 by simp
  then show ?thesis using t(2,3,4) f(1,3,5) by (metis advance_cursor_same)
qed (use ex in simp)

subsection \<open>Properties\<close>

text \<open>C3. Every state of every run of the heap, from initialisation through any sequence of
  allocations, releases and client writes, passes \<^verbatim>\<open>verify_invariants\<close> (whose list walk returns);
  the pointers the clients hold are exactly the live blocks, they are aligned to 16 bytes, lie inside
  the heap, and the memory asked for by different clients is disjoint.\<close>
theorem heap_run_safe:
  assumes "heap_run s P"
  shows "heap_verify_invariants s = Some (Inr ())
    \<and> fst ` P = fst ` heap_live s
    \<and> (\<forall>(p, n) \<in> P. p mod 16 = 0 \<and> hp_start s < p \<and> p + n \<le> hp_current_end s)
    \<and> (\<forall>(p, n) \<in> P. \<forall>(q, m) \<in> P. (p, n) \<noteq> (q, m) \<longrightarrow> p + n < q \<or> q + m < p)"
proof -
  from heap_run_holds [OF assms] have ok: "heap_ok s" and h: "holds P (heap_live s)" by auto
  have inv: "heap_inv s (heap_blocks s)" using ok by (simp add: heap_ok_def)
  have "p mod 16 = 0 \<and> hp_start s < p \<and> p + n \<le> hp_current_end s" if "(p, n) \<in> P" for p n
  proof -
    from holdsD [OF h that] obtain m where m: "(p, m) \<in> list_live (heap_blocks s)" "n \<le> m" by (auto simp: heap_live_def)
    from live_in_heap [OF inv m(1)] m(2) show ?thesis by linarith
  qed
  moreover have "p + n < q \<or> q + m < p" if m: "(p, n) \<in> P" "(q, m) \<in> P" "(p, n) \<noteq> (q, m)" for p n q m
  proof -
    from holdsD [OF h m(1)] holdsD [OF h m(2)] obtain k l where
      kl: "(p, k) \<in> heap_live s" "n \<le> k" "(q, l) \<in> heap_live s" "m \<le> l" by blast
    have "p \<noteq> q" using h m inj_onD [of fst P "(p, n)" "(q, m)"] by (auto simp: holds_def)
    then have "p + k < q \<or> q + l < p" using kernel_heap.blocks_apart [OF ok kl(1,3)] by simp
    then show ?thesis using kl by linarith
  qed
  ultimately have "\<forall>(p, n) \<in> P. p mod 16 = 0 \<and> hp_start s < p \<and> p + n \<le> hp_current_end s"
    and "\<forall>(p, n) \<in> P. \<forall>(q, m) \<in> P. (p, n) \<noteq> (q, m) \<longrightarrow> p + n < q \<or> q + m < p"
    by blast+
  then show ?thesis using heap_verify_ok [OF inv] h unfolding holds_def by blast
qed

text \<open>C15. \<^verbatim>\<open>allocate\<close> refines first fit on the block list, and always returns: if some free block is
  large enough the first one is taken (split when enough is left over); otherwise, if the heap can be
  extended, the extended list is served; otherwise the result is null and no block has changed.\<close>
theorem heap_allocate_refines:
  assumes "heap_inv s bs" and "0 < n"
  shows "\<exists>p s'. heap_allocate n al s = Some (p, s') \<and>
    (case list_alloc (round16 n) bs of
       Some (q, bs') \<Rightarrow> p = q \<and> heap_inv s' bs' \<and> hp_vmm s' = hp_vmm s
     | None \<Rightarrow>
         (if fst (the (expand_heap (round16 n) s))
          then \<exists>bs'. list_alloc (round16 n) (list_grow (hp_current_end s) (growth_bytes (round16 n)) bs) = Some (p, bs')
                 \<and> heap_inv s' bs' \<and> hp_current_end s' = hp_current_end s + growth_bytes (round16 n)
          else p = 0 \<and> heap_inv s' bs \<and> hp_hdr s' = hp_hdr s \<and> hp_current_end s' = hp_current_end s))"
  using assms
proof (cases rule: heap_allocate_cases [where al = al])
  case (full v)
  then show ?thesis using assms(1) by simp
qed auto

text \<open>C17. \<^verbatim>\<open>deallocate\<close> of a live block refines release on the block list, which marks the block free and
  merges free neighbours; it fills the payload with 0xDE and touches no other byte.\<close>
theorem heap_deallocate_refines:
  assumes "heap_inv s (xs @ b # ys)" and "\<not> bk_free b" and "n \<noteq> 0"
  shows "heap_inv (heap_deallocate (payload_ptr (bk_addr b)) n s) (list_free (bk_addr b) (xs @ b # ys))
    \<and> hp_vmm (heap_deallocate (payload_ptr (bk_addr b)) n s) = hp_vmm s
    \<and> (\<forall>a. hp_bytes (heap_deallocate (payload_ptr (bk_addr b)) n s) a =
         (if payload_ptr (bk_addr b) \<le> a \<and> a < payload_ptr (bk_addr b) + bk_size b then 0xDE else hp_bytes s a))"
  using deallocate_refines [OF assms] by simp

text \<open>Releasing a block right after it was allocated from the existing heap restores the block
  list: the remainder that was split off is merged back, so no fragmentation is left.\<close>
theorem allocate_then_deallocate:
  assumes "heap_inv s bs" and "0 < n" and "heap_allocate n al s = Some (p, s')"
    and "list_alloc (round16 n) bs \<noteq> None"
  shows "heap_inv (heap_deallocate p n s') bs"
  using assms(1,2)
proof (cases rule: heap_allocate_cases [where al = al])
  case (fit q bs' s2)
  then have s2: "s2 = s'" "q = p" using assms(3) by simp_all
  obtain xs c ys where c: "bs' = xs @ c # ys" "\<not> bk_free c" "p = payload_ptr (bk_addr c)"
    using list_alloc_live_block [OF fit(1)] s2 by metis
  have "list_free (from_payload_ptr p) bs' = bs"
    using list_free_alloc [of "hp_start s" bs "hp_current_end s" "round16 n"] fit(1) s2 assms(1,2) round16_facts [of n]
    by (simp add: heap_inv_alt)
  moreover have "from_payload_ptr p = bk_addr c" using c by (simp add: from_payload_ptr_def payload_ptr_def)
  ultimately show ?thesis using deallocate_refines(1) [of s' xs c ys n] fit(3) c s2 assms(2) by simp
qed (use assms(4) in simp_all)

text \<open>A double free has no effect: a second \<^verbatim>\<open>deallocate\<close> of the same pointer, whatever layout it
  carries, leaves the heap as the first one left it, even when the block was merged into its
  neighbours.\<close>
theorem double_free_ignored:
  assumes "heap_inv s bs" and "b \<in> set bs" and "\<not> bk_free b" and "n \<noteq> 0"
  shows "heap_deallocate (payload_ptr (bk_addr b)) m (heap_deallocate (payload_ptr (bk_addr b)) n s)
    = heap_deallocate (payload_ptr (bk_addr b)) n s"
proof -
  obtain xs ys where bs: "bs = xs @ b # ys" using assms(2) by (auto dest: split_list)
  then have "heap_inv s (xs @ b # ys)" using assms(1) by simp
  note f = freed_header [OF this assms(3,4)]
  show ?thesis
    using f by (simp add: heap_deallocate_def [of _ m] Let_def from_payload_ptr_def payload_ptr_def)
qed

text \<open>An allocation touches the page tables only to extend the heap.  If the heap's end has moved,
  the new range is backed by frames that were free, are pairwise distinct and are free no longer, every
  new page translates to its frame with the kernel-data flags and no other translation has changed;
  if it has not moved, no translation of any root has changed.\<close>
theorem heap_allocate_maps_growth:
  assumes "heap_inv s bs" and "vm_ok R X (hp_vmm s)" and "root_pml4_phys (hp_vmm s) \<in> R"
    and "0 < n" and "heap_allocate n al s = Some (p, s')"
  shows "if hp_current_end s' = hp_current_end s
    then vm_ok R X (hp_vmm s')
      \<and> (\<forall>r\<in>R. \<forall>va. mmu_translate (vmm_mem (hp_vmm s')) r va = mmu_translate (vmm_mem (hp_vmm s)) r va)
    else p \<noteq> 0 \<and> (\<exists>frames. hp_current_end s' = hp_current_end s + length frames * PAGE_SIZE_nat \<and> distinct frames
      \<and> set frames \<subseteq> free_addrs (vmm_pmm (hp_vmm s)) \<and> set frames \<inter> free_addrs (vmm_pmm (hp_vmm s')) = {}
      \<and> vm_ok R (X \<union> set frames) (hp_vmm s')
      \<and> maps_region R (root_pml4_phys (hp_vmm s)) (of_nat (hp_current_end s)) frames (to_page_flags PERM_KERNEL_DATA)
          (vmm_mem (hp_vmm s)) (vmm_mem (hp_vmm s')))"
  using assms(1,4)
proof (cases rule: heap_allocate_cases [where al = al])
  case (full v)
  then show ?thesis using expand_failure_vm [OF assms(2,3) full(3)] assms(5) by simp
next
  case (grown q bs' s1 s2)
  then have s2: "s2 = s'" "q = p" using assms(5) by simp_all
  have len: "length frames = growth_bytes (round16 n) div PAGE_SIZE_nat \<Longrightarrow>
      hp_current_end s' = hp_current_end s + length frames * PAGE_SIZE_nat" for frames :: "phys_page list"
    using grown(9) s2 by (simp add: growth_bytes_def)
  have "p \<noteq> 0" using grown(3) s2 by (auto elim: list_alloc_SomeE simp: payload_ptr_def)
  moreover have "hp_current_end s' \<noteq> hp_current_end s" using grown(9) s2 growth_bytes_size(1) [of "round16 n"] by simp
  moreover from expand_success_vm [OF assms(2,3,1) grown(2)] obtain frames where
    f: "length frames = growth_bytes (round16 n) div PAGE_SIZE_nat" "distinct frames"
      "set frames \<subseteq> free_addrs (vmm_pmm (hp_vmm s))" "set frames \<inter> free_addrs (vmm_pmm (hp_vmm s')) = {}"
      "vm_ok R (X \<union> set frames) (hp_vmm s')"
      "maps_region R (root_pml4_phys (hp_vmm s)) (of_nat (hp_current_end s)) frames (to_page_flags PERM_KERNEL_DATA)
        (vmm_mem (hp_vmm s)) (vmm_mem (hp_vmm s'))" using grown(6) s2 by auto
  ultimately show ?thesis using len [OF f(1)] f(2-6) unfolding if_not_P [OF \<open>hp_current_end s' \<noteq> hp_current_end s\<close>] by blast
qed (use assms in auto)

text \<open>\<^verbatim>\<open>init\<close> reserves 32 pages at the dynamic cursor, backs them with fresh frames and leaves one
  free block that spans them; the heap then passes its own check.\<close>
theorem heap_init_establishes:
  assumes "vm_ok R X v" and "regions_inv v" and "cursor_ok v" and "root_pml4_phys v \<in> R"
    and "heap_init (heap_state_new hdr bytes v) = (Inr (), s)"
  shows "heap_inv s [initial_block (unat (next_dynamic_addr v))]
    \<and> heap_verify_invariants s = Some (Inr ())
    \<and> hp_start s = unat (next_dynamic_addr v) \<and> hp_current_end s = hp_start s + HEAP_INITIAL_PAGES * PAGE_SIZE_nat
    \<and> (\<exists>frames. length frames = HEAP_INITIAL_PAGES \<and> distinct frames \<and> set frames \<subseteq> free_addrs (vmm_pmm v)
      \<and> vm_ok R (X \<union> set frames) (hp_vmm s)
      \<and> maps_region R (root_pml4_phys v) (next_dynamic_addr v) frames (to_page_flags PERM_KERNEL_DATA)
          (vmm_mem v) (vmm_mem (hp_vmm s)))"
proof -
  note i = heap_init_inv [OF assms]
  have n: "HEAP_INITIAL_PAGES = 32" by (simp add: kernel_consts)
  show ?thesis using i heap_verify_ok [OF i(1)] unfolding n by simp
qed

text \<open>A client that serves any list of requests and gives back every pointer it was given leaves the
  live blocks of the heap as they were: nothing leaks and nothing of another client is touched.\<close>
theorem heap_clients_do_not_leak:
  assumes "heap_ok s" and "\<forall>n \<in> set ns. 0 < n"
  shows "\<exists>ps s'. kernel_heap.serve al ns s = Some (ps, s') \<and> heap_ok s' \<and> heap_live s \<subseteq> heap_live s'
    \<and> heap_live (kernel_heap.give_back ps ns s') = heap_live s"
proof -
  from kernel_heap.serve_total [OF assms, of al] obtain ps s' where
    sv: "kernel_heap.serve al ns s = Some (ps, s')" "heap_ok s'" "heap_live s \<subseteq> heap_live s'" by auto
  from kernel_heap.serve_give_back [OF assms sv(1)] sv show ?thesis by blast
qed

text \<open>\<^verbatim>\<open>allocate\<close> ignores the alignment its caller asks for: the first block of a fresh heap starts 32
  bytes after a page boundary for every size and every alignment, also for 64 or 4096.\<close>
theorem heap_allocate_ignores_alignment:
  assumes "heap_inv s [initial_block a]" and "a mod 4096 = 0" and "0 < n" and "n \<le> 1024"
  shows "\<exists>s'. heap_allocate n al s = Some (a + 32, s') \<and> (a + 32) mod 64 = 32"
proof -
  have "round16 n \<le> 131040" using round16_facts(4) [of n] assms(4) by simp
  then have "list_alloc (round16 n) [initial_block a] = Some (a + 32, carve (round16 n) (initial_block a) @ [])"
    by (simp add: fits_def initial_block_def payload_ptr_def kernel_consts)
  moreover have "(a + 32) mod 64 = 32"
  proof -
    have "4096 dvd a" using assms(2) by (rule mod_0_imp_dvd)
    then have "64 dvd a" by (rule dvd_trans [rotated]) simp
    then obtain k where "a = 64 * k" by (rule dvdE)
    then show ?thesis by simp
  qed
  ultimately show ?thesis
    by (cases rule: heap_allocate_cases [OF assms(1,3), of al]) auto
qed

subsection \<open>Concrete instances\<close>

text \<open>The heap of a machine with 2 MiB of free memory.\<close>

lemma large_heap:
  obtains s where "heap_init (heap_state_new (\<lambda>_. poison_header) (\<lambda>_. 0) large_vm) = (Inr (), s)"
    "heap_inv s [initial_block (unat DYNAMIC_VIRT_START)]"
proof -
  have n: "(0x20000 :: u64) \<noteq> 0" "(0x20000 :: u64) mod PAGE_SIZE = 0" "unat ((0x20000 :: u64) div PAGE_SIZE) = 32"
    "unat (0x20000 :: u64) = 131072" by simp_all
  have "\<exists>r s'. allocate_and_map_region 0x20000 PERM_KERNEL_DATA DynamicKernel large_vm = (Inr r, s')"
    by (rule large_region_possible) (simp_all add: n)
  then obtain r v where "allocate_and_map_region 0x20000 PERM_KERNEL_DATA DynamicKernel large_vm = (Inr r, v)" by blast
  then obtain s where i: "heap_init (heap_state_new (\<lambda>_. poison_header) (\<lambda>_. 0) large_vm) = (Inr (), s)"
    by (simp add: heap_init_def heap_state_new_def Let_def kernel_consts)
  from heap_init_inv(1) [OF large_vm_ok large_vm_regions(1-3) i] i that show thesis by (simp add: large_vm_regions)
qed

lemma large_list_alloc:
  "list_alloc (round16 100) [initial_block a] = Some (payload_ptr a,
     [\<lparr>bk_addr = a, bk_free = False, bk_size = 112\<rparr>,
      \<lparr>bk_addr = a + 144, bk_free = True, bk_size = 130896\<rparr>])"
  by (simp add: initial_block_def fits_def carve_def round16_def kernel_consts)

lemma large_heap_alloc:
  assumes "heap_inv s [initial_block a]"
  obtains s' where "heap_allocate 100 8 s = Some (payload_ptr a, s')"
    "heap_inv s' [\<lparr>bk_addr = a, bk_free = False, bk_size = 112\<rparr>, \<lparr>bk_addr = a + 144, bk_free = True, bk_size = 130896\<rparr>]"
  by (cases rule: heap_allocate_cases [OF assms, of 100 8]) (use large_list_alloc [of a] that in auto)

theorem heap_run_safe_witness:
  "\<exists>s p. heap_run s {(p, 100)} \<and> heap_verify_invariants s = Some (Inr ()) \<and> fst ` heap_live s = {p}"
proof -
  obtain s0 where s0: "heap_init (heap_state_new (\<lambda>_. poison_header) (\<lambda>_. 0) large_vm) = (Inr (), s0)"
    "heap_inv s0 [initial_block (unat DYNAMIC_VIRT_START)]" by (rule large_heap)
  obtain s where s: "heap_allocate 100 8 s0 = Some (payload_ptr (unat DYNAMIC_VIRT_START), s)"
    using large_heap_alloc [OF s0(2)] .
  have "heap_run s0 {}" by (rule start [OF large_vm_ok large_vm_regions(1-3) s0(1)])
  from alloc [OF this _ s] have r: "heap_run s {(payload_ptr (unat DYNAMIC_VIRT_START), 100)}" by simp
  from heap_run_safe [OF r] r show ?thesis by auto
qed

theorem heap_allocate_refines_witness:
  "\<exists>s s' bs'. heap_inv s [initial_block (unat DYNAMIC_VIRT_START)]
     \<and> heap_allocate 100 8 s = Some (payload_ptr (unat DYNAMIC_VIRT_START), s') \<and> heap_inv s' bs'"
proof -
  obtain s where s: "heap_inv s [initial_block (unat DYNAMIC_VIRT_START)]" by (rule large_heap)
  from heap_allocate_refines [OF s, of 100 8] s show ?thesis unfolding large_list_alloc by auto
qed

theorem heap_deallocate_refines_witness:
  "\<exists>s' a. heap_inv (heap_deallocate (payload_ptr a) 100 s') [initial_block a]
     \<and> hp_bytes (heap_deallocate (payload_ptr a) 100 s') (payload_ptr a) = 0xDE"
proof -
  let ?a = "unat DYNAMIC_VIRT_START"
  obtain s where s: "heap_inv s [initial_block ?a]" by (rule large_heap)
  let ?b = "\<lparr>bk_addr = ?a, bk_free = False, bk_size = 112\<rparr>"
  obtain s' where s': "heap_inv s' ([] @ ?b # [\<lparr>bk_addr = ?a + 144, bk_free = True, bk_size = 130896\<rparr>])"
    using large_heap_alloc [OF s] by auto
  have "list_free ?a ([] @ ?b # [\<lparr>bk_addr = ?a + 144, bk_free = True, bk_size = 130896\<rparr>]) = [initial_block ?a]"
    by (simp add: list_free_def mark_free_def merge_def initial_block_def kernel_consts)
  with heap_deallocate_refines [OF s', of 100] show ?thesis by fastforce
qed

theorem allocate_then_deallocate_witness:
  "\<exists>s s' p. heap_allocate 100 8 s = Some (p, s')
     \<and> heap_inv (heap_deallocate p 100 s') [initial_block (unat DYNAMIC_VIRT_START)]"
proof -
  let ?a = "unat DYNAMIC_VIRT_START"
  obtain s where s: "heap_inv s [initial_block ?a]" by (rule large_heap)
  obtain s' where s': "heap_allocate 100 8 s = Some (payload_ptr ?a, s')" using large_heap_alloc [OF s] .
  from allocate_then_deallocate [OF s _ s'] s' show ?thesis using large_list_alloc [of ?a] by auto
qed

theorem double_free_ignored_witness:
  "\<exists>s a. hp_initialized s \<and> heap_deallocate (payload_ptr a) 100 (heap_deallocate (payload_ptr a) 100 s)
     = heap_deallocate (payload_ptr a) 100 s \<and> heap_deallocate (payload_ptr a) 100 s \<noteq> s"
proof -
  let ?a = "unat DYNAMIC_VIRT_START"
  obtain s0 where s0: "heap_inv s0 [initial_block ?a]" by (rule large_heap)
  let ?b = "\<lparr>bk_addr = ?a, bk_free = False, bk_size = 112\<rparr>"
  obtain s where s: "heap_inv s [?b, \<lparr>bk_addr = ?a + 144, bk_free = True, bk_size = 130896\<rparr>]"
    using large_heap_alloc [OF s0] by auto
  have "heap_inv s ([] @ ?b # [\<lparr>bk_addr = ?a + 144, bk_free = True, bk_size = 130896\<rparr>])" using s by simp
  from freed_header(2) [OF this, of 100] have "heap_deallocate (payload_ptr ?a) 100 s \<noteq> s"
    using s by (auto simp: heap_inv_alt)
  with double_free_ignored [OF s, of ?b 100 100] s show ?thesis by (auto simp: heap_inv_alt)
qed

theorem heap_allocate_maps_growth_witness:
  "\<exists>s p s'. heap_allocate 100 8 s = Some (p, s') \<and> vm_ok {0x300000} {} (hp_vmm s')"
proof -
  define s where "s = \<lparr>hp_start = 4096, hp_current_end = 8192, hp_head = 4096,
    hp_stats = heap_stats_new\<lparr>total_bytes := 4096, free_bytes := 4064\<rparr>, hp_initialized = True,
    hp_hdr = (\<lambda>_. \<lparr>bh_magic = HEAP_MAGIC, bh_is_free = True, bh_size = 4064, bh_prev = 0, bh_next = 0\<rparr>),
    hp_bytes = (\<lambda>_. 0), hp_vmm = large_vm\<rparr>"
  have inv: "heap_inv s [\<lparr>bk_addr = 4096, bk_free = True, bk_size = 4064\<rparr>]"
    by (simp add: s_def heap_inv_alt blocks_ok_def hdr_of_def size_ok_def heap_stats_new_def kernel_consts)
  have ok: "vm_ok {0x300000} {} (hp_vmm s)" "root_pml4_phys (hp_vmm s) \<in> {0x300000}"
    using large_vm_ok large_vm_regions by (simp_all add: s_def)
  have "list_alloc (round16 100) [\<lparr>bk_addr = 4096, bk_free = True, bk_size = 4064\<rparr>] \<noteq> None"
    by (simp add: fits_def round16_def)
  then obtain p s' where s': "heap_allocate 100 8 s = Some (p, s')" "hp_current_end s' = hp_current_end s"
    by (cases rule: heap_allocate_cases [OF inv, of 100 8]) auto
  from heap_allocate_maps_growth [OF inv ok _ s'(1)] s' show ?thesis by auto
qed

theorem heap_init_establishes_witness:
  "\<exists>s. heap_init (heap_state_new (\<lambda>_. poison_header) (\<lambda>_. 0) large_vm) = (Inr (), s)
     \<and> hp_current_end s = hp_start s + 131072"
proof -
  obtain s where s: "heap_init (heap_state_new (\<lambda>_. poison_header) (\<lambda>_. 0) large_vm) = (Inr (), s)"
    by (rule large_heap)
  from heap_init_establishes [OF large_vm_ok large_vm_regions(1-3) s] s show ?thesis by (auto simp: kernel_consts)
qed

theorem heap_clients_do_not_leak_witness:
  "\<exists>s ps s'. kernel_heap.serve 8 [100, 200] s = Some (ps, s')
     \<and> heap_live (kernel_heap.give_back ps [100, 200] s') = {}"
proof -
  obtain s where s: "heap_inv s [initial_block (unat DYNAMIC_VIRT_START)]" by (rule large_heap)
  have "heap_live s = {}" using heap_live_inv [OF s] by (simp add: initial_block_def)
  with heap_clients_do_not_leak [OF heap_okI [OF s], of "[100, 200]" 8] show ?thesis by auto
qed

theorem heap_allocate_ignores_alignment_witness:
  "\<exists>s s'. heap_allocate 64 4096 s = Some (unat DYNAMIC_VIRT_START + 32, s')"
proof -
  obtain s where s: "heap_inv s [initial_block (unat DYNAMIC_VIRT_START)]" by (rule large_heap)
  have "unat DYNAMIC_VIRT_START mod 4096 = 0" by (simp add: kernel_consts)
  from heap_allocate_ignores_alignment [OF s this, of 64 4096] show ?thesis by auto
qed

end
