(* ===== verification/Machine.thy ===== *)
theory Machine
  imports Prelude
begin

text \<open>
  The processor as the kernel's assembly sees it: a byte-addressed memory with little-endian 64-bit
  accesses, the registers the code names, and the instructions that occur in the naked functions of
  \<^verbatim>\<open>src/src/context.rs\<close> and the entry stubs of \<^verbatim>\<open>src/src/idt.rs\<close>.  Addresses are virtual and wrap at \<open>2 ^ 64\<close>.

  \<open>pushfq\<close> and \<open>popfq\<close> move the whole flags word; in ring 0 with RF and VM clear that is what they
  do.  Interrupts between two instructions are not part of this machine: their handlers write below
  the stack pointer only and restore what they use (shown for the entry stubs in \<open>Idt_Stubs\<close>).
\<close>

subsection \<open>Byte memory\<close>

type_synonym bytes = "u64 \<Rightarrow> u8"

definition span :: "u64 \<Rightarrow> nat \<Rightarrow> u64 set" where
  "span a n = {x. unat (x - a) < n}"

definition store64 :: "bytes \<Rightarrow> u64 \<Rightarrow> u64 \<Rightarrow> bytes" where
  "store64 m a v = (\<lambda>x. if unat (x - a) < 8 then ucast (drop_bit (8 * unat (x - a)) v) else m x)"

definition load64 :: "bytes \<Rightarrow> u64 \<Rightarrow> u64" where
  "load64 m a = word_rcat (rev (map (\<lambda>k. m (a + of_nat k)) [0..<8]))"

subsection \<open>Registers and instructions\<close>

datatype reg = RAX | RBX | RCX | RDX | RSI | RDI | RBP | RSP | R8 | R9 | R10 | R11 | R12 | R13 | R14 | R15

record cpu =
  regs :: "reg \<Rightarrow> u64"
  cpu_rflags :: u64
  cpu_rip :: u64
  cpu_cs :: u16
  cpu_ss :: u16
  cpu_mem :: bytes

datatype instr =
  MovReg reg reg
| MovImm reg u64
| MovLoad reg reg u64
| MovStore reg u64 reg
| MovByte reg u64 u8
| SubImm reg u64
| AddImm reg u64
| Push reg
| PushImm u64
| Pop reg
| Pushfq
| Popfq
| Call u64 u64
| Ret
| Iretq

definition put_reg :: "reg \<Rightarrow> u64 \<Rightarrow> cpu \<Rightarrow> cpu" where
  "put_reg r v c = c\<lparr>regs := (regs c)(r := v)\<rparr>"

definition push_word :: "u64 \<Rightarrow> cpu \<Rightarrow> cpu" where
  "push_word v c = (let sp = regs c RSP - 8 in put_reg RSP sp (c\<lparr>cpu_mem := store64 (cpu_mem c) sp v\<rparr>))"

definition top_word :: "cpu \<Rightarrow> u64" where
  "top_word c = load64 (cpu_mem c) (regs c RSP)"

definition drop_word :: "cpu \<Rightarrow> cpu" where
  "drop_word c = put_reg RSP (regs c RSP + 8) c"

text \<open>The status flags of a subtraction and of an addition: carry, parity, adjust, zero, sign and overflow.\<close>

definition put_flag :: "nat \<Rightarrow> bool \<Rightarrow> u64 \<Rightarrow> u64" where
  "put_flag n b f = (if b then f OR push_bit n 1 else f AND NOT (push_bit n 1))"

definition sub_flags :: "u64 \<Rightarrow> u64 \<Rightarrow> u64 \<Rightarrow> u64" where
  "sub_flags a b f =
     (let r = a - b in
      put_flag 0 (a < b)
       (put_flag 2 (even (length (filter (bit r) [0..<8])))
        (put_flag 4 (a AND 0xF < b AND 0xF)
         (put_flag 6 (r = 0)
          (put_flag 7 (bit r 63)
           (put_flag 11 (bit a 63 \<noteq> bit b 63 \<and> bit r 63 \<noteq> bit a 63) f))))))"

definition add_flags :: "u64 \<Rightarrow> u64 \<Rightarrow> u64 \<Rightarrow> u64" where
  "add_flags a b f =
     (let r = a + b in
      put_flag 0 (r < a)
       (put_flag 2 (even (length (filter (bit r) [0..<8])))
        (put_flag 4 (r AND 0xF < a AND 0xF)
         (put_flag 6 (r = 0)
          (put_flag 7 (bit r 63)
           (put_flag 11 (bit a 63 = bit b 63 \<and> bit r 63 \<noteq> bit a 63) f))))))"

text \<open>\<open>iretq\<close> takes rip, cs, rflags, rsp and ss from the stack; \<open>push\<close> of an immediate stores it sign-extended.\<close>

fun exec1 :: "instr \<Rightarrow> cpu \<Rightarrow> cpu" where
  "exec1 (MovReg d s) c = put_reg d (regs c s) c"
| "exec1 (MovImm d v) c = put_reg d v c"
| "exec1 (MovLoad d b off) c = put_reg d (load64 (cpu_mem c) (regs c b + off)) c"
| "exec1 (MovStore b off s) c = c\<lparr>cpu_mem := store64 (cpu_mem c) (regs c b + off) (regs c s)\<rparr>"
| "exec1 (MovByte b off v) c = c\<lparr>cpu_mem := (cpu_mem c)(regs c b + off := v)\<rparr>"
| "exec1 (SubImm d v) c = put_reg d (regs c d - v) (c\<lparr>cpu_rflags := sub_flags (regs c d) v (cpu_rflags c)\<rparr>)"
| "exec1 (AddImm d v) c = put_reg d (regs c d + v) (c\<lparr>cpu_rflags := add_flags (regs c d) v (cpu_rflags c)\<rparr>)"
| "exec1 (Push r) c = push_word (regs c r) c"
| "exec1 (PushImm v) c = push_word v c"
| "exec1 (Pop r) c = put_reg r (top_word c) (drop_word c)"
| "exec1 Pushfq c = push_word (cpu_rflags c) c"
| "exec1 Popfq c = (drop_word c)\<lparr>cpu_rflags := top_word c\<rparr>"
| "exec1 (Call target ret) c = (push_word ret c)\<lparr>cpu_rip := target\<rparr>"
| "exec1 Ret c = (drop_word c)\<lparr>cpu_rip := top_word c\<rparr>"
| "exec1 Iretq c =
     (let sp = regs c RSP; m = cpu_mem c in
      put_reg RSP (load64 m (sp + 24))
        (c\<lparr>cpu_rip := load64 m sp, cpu_cs := ucast (load64 m (sp + 8)), cpu_rflags := load64 m (sp + 16),
           cpu_ss := ucast (load64 m (sp + 32))\<rparr>))"

fun exec :: "instr list \<Rightarrow> cpu \<Rightarrow> cpu" where
  "exec [] c = c"
| "exec (i # is) c = exec is (exec1 i c)"

lemma exec_append [simp]: "exec (is @ js) c = exec js (exec is c)"
  by (induction "is" arbitrary: c) simp_all

subsection \<open>Loads and stores\<close>

lemma span_0 [simp]: "span a 0 = {}"
  by (simp add: span_def)

lemma span_at: "k < n \<Longrightarrow> n \<le> 2 ^ 64 \<Longrightarrow> a + of_nat k \<in> span a n"
  by (simp add: span_def unat_of_nat take_bit_nat_eq_self)

lemma mem_span_offset:
  assumes "i + n \<le> 2 ^ 64"
  shows "x \<in> span (a + of_nat i) n \<longleftrightarrow> i \<le> unat (x - a) \<and> unat (x - a) < i + n"
proof (cases "n = 0")
  case False
  let ?e = "x - (a + of_nat i)"
  have d: "x - a = ?e + of_nat i" by (simp add: algebra_simps)
  have i: "unat (of_nat i :: u64) = i" using assms False by (simp add: unat_of_nat take_bit_nat_eq_self)
  show ?thesis
  proof (cases "unat ?e + i < 2 ^ 64")
    case True
    then have "unat (x - a) = unat ?e + i" unfolding d using i by (subst unat_add_u64) simp_all
    then show ?thesis by (auto simp: span_def)
  next
    case no: False
    have "unat (x - a) = (unat ?e + i) mod 2 ^ 64" unfolding d unat_word_ariths(1) i by simp
    also have "\<dots> = unat ?e + i - 2 ^ 64"
      using no unat_u64_less [of ?e] assms False by (simp add: le_mod_geq)
    finally have "unat (x - a) < i" using no unat_u64_less [of ?e] by simp
    then show ?thesis using no assms by (simp add: span_def)
  qed
qed simp

lemma mem_span_numeral:
  "numeral k + n \<le> (2 :: nat) ^ 64 \<Longrightarrow>
     x \<in> span (a + numeral k) n \<longleftrightarrow> numeral k \<le> unat (x - a) \<and> unat (x - a) < numeral k + n"
  using mem_span_offset [of "numeral k" n x a] by simp

lemma span_sub: "x \<in> span (a + of_nat i) n \<Longrightarrow> i + n \<le> k \<Longrightarrow> k \<le> 2 ^ 64 \<Longrightarrow> x \<in> span a k"
  using mem_span_offset [of i n x a] by (auto simp: span_def)

lemma store64_other: "x \<notin> span a 8 \<Longrightarrow> store64 m a v x = m x"
  by (simp add: store64_def span_def)

lemma bit_load64: "bit (load64 m a) n \<longleftrightarrow> n < 64 \<and> bit (m (a + of_nat (n div 8))) (n mod 8)"
proof -
  let ?ws = "map (\<lambda>k. m (a + of_nat k)) [0..<8]"
  have "load64 m a = word_of_int (horner_sum uint (2 ^ LENGTH(8)) ?ws)"
    unfolding load64_def word_rcat_def comp_apply rev_rev_ident ..
  then have "bit (load64 m a) n \<longleftrightarrow> n < 64 \<and> bit (horner_sum uint (2 ^ LENGTH(8)) ?ws) n"
    by (simp only: bit_word_of_int_iff) simp
  moreover have "n div 8 < 8" if "n < 64" using that by (simp add: less_mult_imp_div_less)
  moreover have "bit (horner_sum uint (2 ^ LENGTH(8)) ?ws) n \<longleftrightarrow> n div 8 < 8 \<and> bit (?ws ! (n div 8)) (n mod 8)"
    by (simp only: bit_horner_sum_uint_exp_iff) simp
  ultimately show ?thesis by auto
qed

lemma load64_cong:
  assumes "\<And>x. x \<in> span a 8 \<Longrightarrow> m x = m' x"
  shows "load64 m a = load64 m' a"
proof (rule bit_word_eqI)
  fix n assume "n < LENGTH(64)"
  then have "n div 8 < 8" by (simp add: less_mult_imp_div_less)
  then have "m (a + of_nat (n div 8)) = m' (a + of_nat (n div 8))" by (intro assms span_at) simp_all
  then show "bit (load64 m a) n = bit (load64 m' a) n" by (simp add: bit_load64)
qed

lemma load64_store64 [simp]: "load64 (store64 m a v) a = v"
proof (rule bit_word_eqI)
  fix n assume n: "n < LENGTH(64)"
  then have d: "n div 8 < 8" by (simp add: less_mult_imp_div_less)
  then have u: "unat (of_nat (n div 8) :: u64) = n div 8" by (simp add: unat_of_nat take_bit_nat_eq_self)
  have "bit (load64 (store64 m a v) a) n \<longleftrightarrow> bit (ucast (drop_bit (8 * (n div 8)) v) :: u8) (n mod 8)"
    using n d by (simp add: bit_load64 store64_def u)
  also have "\<dots> \<longleftrightarrow> bit v (8 * (n div 8) + n mod 8)" by (simp add: bit_ucast_iff bit_drop_bit_eq)
  finally show "bit (load64 (store64 m a v) a) n = bit v n" by simp
qed

lemma load64_store64_other [simp]: "span a 8 \<inter> span b 8 = {} \<Longrightarrow> load64 (store64 m b v) a = load64 m a"
  by (rule load64_cong) (auto intro: store64_other)

lemma load64_byte_other [simp]: "b \<notin> span a 8 \<Longrightarrow> load64 (m(b := v)) a = load64 m a"
  by (rule load64_cong) auto

lemma span_disjoint: "n \<le> unat (a - b) \<Longrightarrow> k \<le> unat (b - a) \<Longrightarrow> span a k \<inter> span b n = {}"
proof (rule ccontr)
  assume n: "n \<le> unat (a - b)" and k: "k \<le> unat (b - a)" and "span a k \<inter> span b n \<noteq> {}"
  then obtain x where x: "unat (x - a) < k" "unat (x - b) < n" by (auto simp: span_def)
  have pos: "a - b \<noteq> 0" using x(2) n by auto
  have "(unat (b - a) + unat (a - b)) mod 2 ^ 64 = 0" using unat_word_ariths(1) [of "b - a" "a - b"] by simp
  then have "unat (b - a) + unat (a - b) = 0 \<or> unat (b - a) + unat (a - b) = 2 ^ 64"
    using unat_u64_less [of "b - a"] unat_u64_less [of "a - b"] by (auto simp: mod_eq_0_iff_dvd elim!: dvdE)
  then have "unat (x - a) + unat (a - b) < 2 ^ 64" using x(1) k by auto
  from unat_add_u64 [OF this] have "unat (x - b) = unat (x - a) + unat (a - b)" by simp
  then show False using x(2) n by simp
qed

lemma words_disjoint: "8 \<le> unat (a - b) \<Longrightarrow> 8 \<le> unat (b - a) \<Longrightarrow> span a 8 \<inter> span b 8 = {}"
  by (rule span_disjoint)

lemmas machine_simps = put_reg_def push_word_def top_word_def drop_word_def Let_def

lemma load64_agree:
  assumes "\<And>x. x \<in> span f n \<Longrightarrow> m x = m' x" and "i + 8 \<le> n" and "n \<le> 2 ^ 64"
  shows "load64 m (f + of_nat i) = load64 m' (f + of_nat i)"
  by (rule load64_cong, rule assms(1), erule span_sub, rule assms(2), rule assms(3))

subsection \<open>The stack\<close>

definition stack_words :: "bytes \<Rightarrow> u64 \<Rightarrow> u64 list \<Rightarrow> bool" where
  "stack_words m sp ws \<longleftrightarrow> (\<forall>k < length ws. load64 m (sp + of_nat (8 * k)) = ws ! k)"

lemma stack_words_Nil [simp]: "stack_words m sp []"
  by (simp add: stack_words_def)

lemma stack_words_Cons: "stack_words m sp (w # ws) \<longleftrightarrow> load64 m sp = w \<and> stack_words m (sp + 8) ws"
proof -
  have "(\<forall>k < Suc n. P k) \<longleftrightarrow> P 0 \<and> (\<forall>k < n. P (Suc k))" for P :: "nat \<Rightarrow> bool" and n using less_Suc_eq_0_disj by auto
  then show ?thesis by (simp add: stack_words_def add.assoc)
qed

lemma stack_words_append:
  "stack_words m sp (ws @ vs) \<longleftrightarrow> stack_words m sp ws \<and> stack_words m (sp + of_nat (8 * length ws)) vs"
  by (induction ws arbitrary: sp) (auto simp: stack_words_Cons add.assoc)

lemma stack_words_cong:
  assumes "\<And>x. x \<in> span sp (8 * length ws) \<Longrightarrow> m x = m' x" and "8 * length ws \<le> 2 ^ 64"
  shows "stack_words m sp ws \<longleftrightarrow> stack_words m' sp ws"
proof -
  have "load64 m (sp + of_nat (8 * k)) = load64 m' (sp + of_nat (8 * k))" if "k < length ws" for k
    using that assms by (intro load64_agree [where n = "8 * length ws"]) auto
  then show ?thesis by (auto simp: stack_words_def)
qed

lemma fold_push_word:
  fixes c :: cpu
  assumes "8 * length ws \<le> 2 ^ 64"
  defines "sp \<equiv> regs c RSP - of_nat (8 * length ws)"
  shows "\<exists>m. fold push_word ws c = c\<lparr>regs := (regs c)(RSP := sp), cpu_mem := m\<rparr>
    \<and> stack_words m sp (rev ws) \<and> (\<forall>x. x \<notin> span sp (8 * length ws) \<longrightarrow> m x = cpu_mem c x)"
  using assms(1) unfolding sp_def
proof (induction ws rule: rev_induct)
  case Nil
  show ?case by (rule exI [of _ "cpu_mem c"]) simp
next
  case (snoc w ws)
  let ?sp = "regs c RSP - of_nat (8 * length ws)"
  have "8 * length ws \<le> 2 ^ 64" using snoc.prems by simp
  from snoc.IH [OF this] obtain m where m: "fold push_word ws c = c\<lparr>regs := (regs c)(RSP := ?sp), cpu_mem := m\<rparr>"
    "stack_words m ?sp (rev ws)" "\<And>x. x \<notin> span ?sp (8 * length ws) \<Longrightarrow> m x = cpu_mem c x" by blast
  let ?sp' = "regs c RSP - of_nat (8 * length (ws @ [w]))" and ?m = "store64 m (?sp - 8) w"
  have sp: "?sp' = ?sp - 8" "?sp' + 8 = ?sp" by (simp_all add: algebra_simps)
  have out: "x \<notin> span ?sp' 8" if "x \<in> span (?sp' + 8) (8 * length ws)" for x
    using that snoc.prems mem_span_offset [of 8 "8 * length ws" x ?sp'] by (auto simp: span_def)
  have "stack_words ?m ?sp (rev ws)"
    using m(2) stack_words_cong [of ?sp "rev ws" ?m m] out snoc.prems unfolding sp by (simp add: store64_other)
  then have "stack_words ?m ?sp' (rev (ws @ [w]))"
    unfolding rev_append rev.simps append.simps stack_words_Cons sp(2) unfolding sp(1) by simp
  moreover have "?m x = cpu_mem c x" if "x \<notin> span ?sp' (8 * length (ws @ [w]))" for x
  proof -
    have "x \<notin> span ?sp' 8" using that span_sub [of x ?sp' 0 8 "8 * length (ws @ [w])"] snoc.prems by auto
    moreover have "x \<notin> span ?sp (8 * length ws)"
      using that span_sub [of x ?sp' 8 "8 * length ws" "8 * length (ws @ [w])"] snoc.prems sp(2) by auto
    ultimately show ?thesis using m(3) store64_other [of x ?sp' m w] unfolding sp(1) by simp
  qed
  moreover have "fold push_word (ws @ [w]) c = c\<lparr>regs := (regs c)(RSP := ?sp'), cpu_mem := ?m\<rparr>"
    by (simp only: fold_append comp_apply m(1)) (simp add: push_word_def put_reg_def Let_def sp algebra_simps)
  ultimately show ?case by blast
qed

lemma exec_pushes: "RSP \<notin> set rs \<Longrightarrow> exec (map Push rs) c = fold push_word (map (regs c) rs) c"
proof (induction rs arbitrary: c)
  case (Cons r rs)
  have "map (regs (push_word v c)) rs = map (regs c) rs" for v
    using Cons.prems by (auto simp: push_word_def put_reg_def Let_def)
  then have "map (regs (push_word (regs c r) c)) rs = map (regs c) rs" .
  then show ?case using Cons.IH [of "push_word (regs c r) c"] Cons.prems by (simp del: map_eq_conv)
qed simp

lemma exec_pops:
  assumes "RSP \<notin> set rs" and "stack_words (cpu_mem c) (regs c RSP) (map f rs)"
  shows "exec (map Pop rs) c =
    c\<lparr>regs := (\<lambda>r. if r = RSP then regs c RSP + of_nat (8 * length rs) else if r \<in> set rs then f r else regs c r)\<rparr>"
  using assms
proof (induction rs arbitrary: c)
  case Nil
  show ?case by (auto intro!: cpu.equality)
next
  case (Cons r rs)
  let ?c = "exec1 (Pop r) c"
  have v: "load64 (cpu_mem c) (regs c RSP) = f r" "stack_words (cpu_mem c) (regs c RSP + 8) (map f rs)"
    using Cons.prems(2) by (simp_all add: stack_words_Cons)
  have c: "?c = c\<lparr>regs := (regs c)(RSP := regs c RSP + 8, r := f r)\<rparr>"
    using v(1) by (simp add: put_reg_def drop_word_def top_word_def)
  have "exec (map Pop (r # rs)) c = exec (map Pop rs) ?c" by simp
  also have "\<dots> = ?c\<lparr>regs := (\<lambda>x. if x = RSP then regs ?c RSP + of_nat (8 * length rs) else if x \<in> set rs then f x else regs ?c x)\<rparr>"
    using Cons.IH [of ?c] Cons.prems(1) v(2) unfolding c by simp
  also have "\<dots> = c\<lparr>regs := (\<lambda>x. if x = RSP then regs c RSP + of_nat (8 * length (r # rs)) else if x \<in> set (r # rs) then f x else regs c x)\<rparr>"
    using Cons.prems(1) unfolding c by (intro cpu.equality ext) (auto simp: add.assoc)
  finally show ?case .
qed

end
