(* ===== verification/Acpi.thy ===== *)
theory Acpi
  imports Machine "HOL-Library.Monad_Syntax"
begin

text \<open>
  The ACPI tables (\<^verbatim>\<open>src/src/acpi.rs\<close>): the root pointer, the root table, and the MADT with its
  variable-length entries, read from identity-mapped memory.  The module's statics \<^verbatim>\<open>MADT\<close> and
  \<^verbatim>\<open>MADT_VALID\<close> are the state.

  The walk over the MADT adds lengths to an address; with a table at the end of the address space the sum
  may wrap, so the loop is a partial function, with \<^const>\<open>None\<close> for a loop that does not end, and
  termination is proved where the table does not wrap.  Logging is not modelled.
\<close>

subsection \<open>Unaligned reads\<close>

definition load_list :: "bytes \<Rightarrow> u64 \<Rightarrow> nat \<Rightarrow> u8 list" where
  "load_list m a n = map (\<lambda>i. m (a + of_nat i)) [0..<n]"

definition load16 :: "bytes \<Rightarrow> u64 \<Rightarrow> u16" where
  "load16 m a = word_rcat (rev (load_list m a 2))"

definition load32 :: "bytes \<Rightarrow> u64 \<Rightarrow> u32" where
  "load32 m a = word_rcat (rev (load_list m a 4))"

subsection \<open>Data\<close>

definition MAX_CPUS :: nat where
  "MAX_CPUS = 64"

definition MAX_IOAPICS :: nat where
  "MAX_IOAPICS = 4"

definition MAX_OVERRIDES :: nat where
  "MAX_OVERRIDES = 16"

definition MADT_LOCAL_APIC :: u8 where
  "MADT_LOCAL_APIC = 0"

definition MADT_IO_APIC :: u8 where
  "MADT_IO_APIC = 1"

definition MADT_INTERRUPT_OVERRIDE :: u8 where
  "MADT_INTERRUPT_OVERRIDE = 2"

definition MADT_LOCAL_APIC_ADDRESS_OVERRIDE :: u8 where
  "MADT_LOCAL_APIC_ADDRESS_OVERRIDE = 5"

lemmas acpi_consts = MAX_CPUS_def MAX_IOAPICS_def MAX_OVERRIDES_def MADT_LOCAL_APIC_def MADT_IO_APIC_def
  MADT_INTERRUPT_OVERRIDE_def MADT_LOCAL_APIC_ADDRESS_OVERRIDE_def

datatype acpi_error = NoRsdp | BadRsdpChecksum | BadTableChecksum | NoMadt

record io_apic =
  io_id :: u8
  io_address :: u64
  gsi_base :: u32

record interrupt_override =
  isa_irq :: u8
  ov_gsi :: u32
  ov_flags :: u16

record madt_info =
  lapic_address :: u64
  pcat_compat :: bool
  cpu_apic_ids :: "u8 list"
  cpu_count :: nat
  ioapics :: "io_apic list"
  ioapic_count :: nat
  overrides :: "interrupt_override list"
  override_count :: nat

definition madt_info_new :: madt_info where
  "madt_info_new = \<lparr>lapic_address = 0, pcat_compat = False, cpu_apic_ids = replicate MAX_CPUS 0, cpu_count = 0,
     ioapics = replicate MAX_IOAPICS \<lparr>io_id = 0, io_address = 0, gsi_base = 0\<rparr>, ioapic_count = 0,
     overrides = replicate MAX_OVERRIDES \<lparr>isa_irq = 0, ov_gsi = 0, ov_flags = 0\<rparr>, override_count = 0\<rparr>"

record acpi_state =
  rsdp_address :: u64
  madt_static :: madt_info
  madt_valid :: bool

definition madt :: "acpi_state \<Rightarrow> madt_info option" where
  "madt s = (if madt_valid s then Some (madt_static s) else None)"

definition set_rsdp :: "u64 \<Rightarrow> acpi_state \<Rightarrow> acpi_state" where
  "set_rsdp a s = s\<lparr>rsdp_address := a\<rparr>"

text \<open>The byte offsets of the packed structures: \<^verbatim>\<open>Rsdp\<close> has its revision at 15, the RSDT address at 16 and the XSDT
  address at 24; \<^verbatim>\<open>SdtHeader\<close> has the signature at 0, the length at 4 and 36 bytes in all.\<close>

definition SDT_HEADER_SIZE :: u64 where
  "SDT_HEADER_SIZE = 36"

definition checksum_ok :: "bytes \<Rightarrow> u64 \<Rightarrow> nat \<Rightarrow> bool" where
  "checksum_ok m addr len \<longleftrightarrow> fold (\<lambda>b acc. acc + b) (load_list m addr len) 0 = 0"

definition sdt_signature :: "bytes \<Rightarrow> u64 \<Rightarrow> u8 list" where
  "sdt_signature m addr = load_list m addr 4"

definition sdt_length :: "bytes \<Rightarrow> u64 \<Rightarrow> u32" where
  "sdt_length m addr = load32 m (addr + 4)"

definition ascii_bytes :: "string \<Rightarrow> u8 list" where
  "ascii_bytes s = map of_char s"

subsection \<open>The MADT\<close>

definition madt_entry_step :: "bytes \<Rightarrow> u64 \<Rightarrow> madt_info \<Rightarrow> madt_info" where
  "madt_entry_step m entry info =
     (let kind = m entry in
      if kind = MADT_LOCAL_APIC then
        let apic_id = m (entry + 3); flags = load32 m (entry + 4) in
        if flags AND 1 \<noteq> 0 \<and> cpu_count info < MAX_CPUS
        then info\<lparr>cpu_apic_ids := (cpu_apic_ids info)[cpu_count info := apic_id], cpu_count := cpu_count info + 1\<rparr>
        else info
      else if kind = MADT_IO_APIC then
        if ioapic_count info < MAX_IOAPICS
        then info\<lparr>ioapics := (ioapics info)[ioapic_count info :=
                   \<lparr>io_id = m (entry + 2), io_address = ucast (load32 m (entry + 4)), gsi_base = load32 m (entry + 8)\<rparr>],
                  ioapic_count := ioapic_count info + 1\<rparr>
        else info
      else if kind = MADT_INTERRUPT_OVERRIDE then
        if override_count info < MAX_OVERRIDES
        then info\<lparr>overrides := (overrides info)[override_count info :=
                   \<lparr>isa_irq = m (entry + 3), ov_gsi = load32 m (entry + 4), ov_flags = load16 m (entry + 8)\<rparr>],
                  override_count := override_count info + 1\<rparr>
        else info
      else if kind = MADT_LOCAL_APIC_ADDRESS_OVERRIDE then info\<lparr>lapic_address := load64 m (entry + 4)\<rparr>
      else info)"

partial_function (option) madt_loop :: "bytes \<Rightarrow> u64 \<Rightarrow> u64 \<Rightarrow> madt_info \<Rightarrow> madt_info option" where
  "madt_loop m end_addr entry info =
     (if \<not> entry + 2 \<le> end_addr then Some info
      else
        let len = ucast (m (entry + 1)) in
        if len < 2 \<or> entry + len > end_addr then Some info
        else madt_loop m end_addr (entry + len) (madt_entry_step m entry info))"

definition parse_madt :: "bytes \<Rightarrow> u64 \<Rightarrow> acpi_state \<Rightarrow> ((acpi_error + unit) \<times> acpi_state) option" where
  "parse_madt m addr s =
     (let len = sdt_length m addr in
      if \<not> checksum_ok m addr (unat len) then Some (Inl BadTableChecksum, s)
      else
        let body = addr + SDT_HEADER_SIZE;
            info = (madt_static s)\<lparr>lapic_address := ucast (load32 m body),
                     pcat_compat := (load32 m (body + 4) AND 1 \<noteq> 0)\<rparr>
        in do {
          info \<leftarrow> madt_loop m (addr + ucast len) (body + 8) info;
          Some (Inr (), s\<lparr>madt_static := info, madt_valid := True\<rparr>)
        })"

subsection \<open>Finding the MADT\<close>

definition table_address :: "bytes \<Rightarrow> bool \<Rightarrow> u64 \<Rightarrow> nat \<Rightarrow> u64" where
  "table_address m use_xsdt entries i =
     (if use_xsdt then load64 m (entries + of_nat (i * 8)) else ucast (load32 m (entries + of_nat (i * 4))))"

definition find_madt :: "bytes \<Rightarrow> bool \<Rightarrow> u64 \<Rightarrow> nat \<Rightarrow> u64" where
  "find_madt m use_xsdt entries entry_count =
     fold (\<lambda>i madt_addr.
         let table_addr = table_address m use_xsdt entries i in
         if sdt_signature m table_addr = ascii_bytes ''APIC'' then table_addr else madt_addr)
       [0..<entry_count] 0"

definition root_entry_count :: "bool \<Rightarrow> u32 \<Rightarrow> nat" where
  "root_entry_count use_xsdt len =
     unat (((ucast len :: u64) - SDT_HEADER_SIZE) div (if use_xsdt then 8 else 4))"

definition acpi_init :: "bytes \<Rightarrow> acpi_state \<Rightarrow> ((acpi_error + unit) \<times> acpi_state) option" where
  "acpi_init m s =
     (let rsdp_addr = rsdp_address s in
      if rsdp_addr = 0 then Some (Inl NoRsdp, s)
      else if load_list m rsdp_addr 8 \<noteq> ascii_bytes ''RSD PTR '' \<or> \<not> checksum_ok m rsdp_addr 20
      then Some (Inl BadRsdpChecksum, s)
      else
        let revision = m (rsdp_addr + 15);
            xsdt_address = load64 m (rsdp_addr + 24);
            use_xsdt = (revision \<ge> 2 \<and> xsdt_address \<noteq> 0);
            root_addr = (if use_xsdt then xsdt_address else ucast (load32 m (rsdp_addr + 16)))
        in
        if \<not> checksum_ok m root_addr (unat (sdt_length m root_addr)) then Some (Inl BadTableChecksum, s)
        else
          let madt_addr = find_madt m use_xsdt (root_addr + SDT_HEADER_SIZE)
                (root_entry_count use_xsdt (sdt_length m root_addr))
          in if madt_addr = 0 then Some (Inl NoMadt, s) else parse_madt m madt_addr s)"

definition isa_irq_to_gsi :: "u8 \<Rightarrow> acpi_state \<Rightarrow> u32 \<times> u16" where
  "isa_irq_to_gsi irq s =
     (case madt s of
        Some info \<Rightarrow>
          (case find (\<lambda>o'. isa_irq o' = irq) (take (override_count info) (overrides info)) of
             Some o' \<Rightarrow> (ov_gsi o', ov_flags o')
           | None \<Rightarrow> (ucast irq, 0))
      | None \<Rightarrow> (ucast irq, 0))"

end
