(* ===== verification/Acpi_Parse.thy ===== *)
theory Acpi_Parse
  imports Acpi
begin

text \<open>
  The MADT parser against the table format: entries are encoded as the ACPI specification lays them out,
  and the parser recovers them.  For arbitrary memory, the parser ends and stays within its arrays.
\<close>

subsection \<open>Little-endian words\<close>

definition le_word :: "nat \<Rightarrow> 'a :: len word \<Rightarrow> u8 list" where
  "le_word n w = map (\<lambda>i. ucast (drop_bit (8 * i) w)) [0..<n]"

lemma length_le_word [simp]: "length (le_word n w) = n"
  by (simp add: le_word_def)

lemma bit_rcat_rev:
  "bit (word_rcat (rev bs) :: 'b :: len word) n \<longleftrightarrow> n < LENGTH('b) \<and> n div 8 < length bs \<and> bit (bs ! (n div 8)) (n mod 8)"
  for bs :: "u8 list"
proof -
  have "word_rcat (rev bs) = (word_of_int (horner_sum uint (2 ^ LENGTH(8)) bs) :: 'b word)"
    unfolding word_rcat_def comp_apply rev_rev_ident ..
  then have "bit (word_rcat (rev bs) :: 'b word) n \<longleftrightarrow> n < LENGTH('b) \<and> bit (horner_sum uint (2 ^ LENGTH(8)) bs) n"
    by (simp only: bit_word_of_int_iff)
  moreover have "bit (horner_sum uint (2 ^ LENGTH(8)) bs) n \<longleftrightarrow> n div 8 < length bs \<and> bit (bs ! (n div 8)) (n mod 8)"
    by (simp only: bit_horner_sum_uint_exp_iff) simp
  ultimately show ?thesis by simp
qed

lemma rcat_le_word:
  assumes "LENGTH('b :: len) \<le> 8 * n"
  shows "word_rcat (rev (le_word n (w :: 'b word))) = w"
proof (rule bit_word_eqI)
  fix k assume k: "k < LENGTH('b)"
  then have d: "k div 8 < n" using assms by (simp add: less_mult_imp_div_less mult.commute)
  then have "bit (le_word n w ! (k div 8)) (k mod 8) \<longleftrightarrow> bit w (8 * (k div 8) + k mod 8)"
    by (simp add: le_word_def bit_ucast_iff bit_drop_bit_eq)
  then show "bit (word_rcat (rev (le_word n w)) :: 'b word) k \<longleftrightarrow> bit w k"
    using k d by (simp add: bit_rcat_rev)
qed

text \<open>Memory that holds a list of bytes from an address on.\<close>

definition holds :: "bytes \<Rightarrow> u64 \<Rightarrow> u8 list \<Rightarrow> bool" where
  "holds m a bs \<longleftrightarrow> load_list m a (length bs) = bs"

lemma load_list_append: "load_list m a (j + k) = load_list m a j @ load_list m (a + of_nat j) k"
  by (rule nth_equalityI) (auto simp: load_list_def nth_append add.assoc)

lemma holds_append: "holds m a (xs @ ys) \<longleftrightarrow> holds m a xs \<and> holds m (a + of_nat (length xs)) ys"
proof -
  have "length (load_list m a (length xs)) = length xs" by (simp add: load_list_def)
  then show ?thesis by (simp add: holds_def load_list_append)
qed

lemma holds_Cons: "holds m a (b # bs) \<longleftrightarrow> m a = b \<and> holds m (a + 1) bs"
  using holds_append [of m a "[b]" bs] by (simp add: holds_def load_list_def)

lemma holds_Nil [simp]: "holds m a []"
  by (simp add: holds_def load_list_def)

lemma holds_words:
  "holds m a (le_word 2 v) \<Longrightarrow> load16 m a = v" "holds m a (le_word 4 w) \<Longrightarrow> load32 m a = w"
  "holds m a (le_word 8 x) \<Longrightarrow> load64 m a = x"
  by (simp_all add: holds_def load16_def load32_def load64_def load_list_def [symmetric] rcat_le_word del: upt_rec_numeral)

subsection \<open>The table format\<close>

datatype madt_entry =
  LocalApic u8 u8 u32
| IoApicEntry u8 u8 u32 u32
| SourceOverride u8 u8 u32 u16
| LapicAddress u16 u64
| OtherEntry u8 "u8 list"

fun encode :: "madt_entry \<Rightarrow> u8 list" where
  "encode (LocalApic uid apic_id flags) = [0, 8, uid, apic_id] @ le_word 4 flags"
| "encode (IoApicEntry i reserved a gsi) = [1, 12, i, reserved] @ le_word 4 a @ le_word 4 gsi"
| "encode (SourceOverride bus irq gsi flags) = [2, 10, bus, irq] @ le_word 4 gsi @ le_word 2 flags"
| "encode (LapicAddress reserved a) = [5, 12] @ le_word 2 reserved @ le_word 8 a"
| "encode (OtherEntry kind data) = [kind, of_nat (length data + 2)] @ data"

fun entry_ok :: "madt_entry \<Rightarrow> bool" where
  "entry_ok (OtherEntry kind data) = (kind \<notin> {0, 1, 2, 5} \<and> length data + 2 < 256)"
| "entry_ok _ = True"

text \<open>What each entry contributes.\<close>

fun entry_cpu :: "madt_entry \<Rightarrow> u8 list" where
  "entry_cpu (LocalApic uid apic_id flags) = (if flags AND 1 \<noteq> 0 then [apic_id] else [])"
| "entry_cpu _ = []"

fun entry_ioapic :: "madt_entry \<Rightarrow> io_apic list" where
  "entry_ioapic (IoApicEntry i reserved a gsi) = [\<lparr>io_id = i, io_address = ucast a, gsi_base = gsi\<rparr>]"
| "entry_ioapic _ = []"

fun entry_override :: "madt_entry \<Rightarrow> interrupt_override list" where
  "entry_override (SourceOverride bus irq gsi flags) = [\<lparr>isa_irq = irq, ov_gsi = gsi, ov_flags = flags\<rparr>]"
| "entry_override _ = []"

fun entry_lapic :: "madt_entry \<Rightarrow> u64 \<Rightarrow> u64" where
  "entry_lapic (LapicAddress reserved a) _ = a"
| "entry_lapic _ a = a"

subsection \<open>The arrays as lists\<close>

definition cpus :: "madt_info \<Rightarrow> u8 list" where
  "cpus info = take (cpu_count info) (cpu_apic_ids info)"

definition ioapic_list :: "madt_info \<Rightarrow> io_apic list" where
  "ioapic_list info = take (ioapic_count info) (ioapics info)"

definition override_list :: "madt_info \<Rightarrow> interrupt_override list" where
  "override_list info = take (override_count info) (overrides info)"

definition madt_wf :: "madt_info \<Rightarrow> bool" where
  "madt_wf info \<longleftrightarrow> length (cpu_apic_ids info) = MAX_CPUS \<and> cpu_count info \<le> MAX_CPUS
     \<and> length (ioapics info) = MAX_IOAPICS \<and> ioapic_count info \<le> MAX_IOAPICS
     \<and> length (overrides info) = MAX_OVERRIDES \<and> override_count info \<le> MAX_OVERRIDES"

lemma madt_wf_new: "madt_wf madt_info_new"
  by (simp add: madt_wf_def madt_info_new_def)

lemma take_push: "n < length xs \<Longrightarrow> take (Suc n) (xs[n := x]) = take n xs @ [x]"
  by (simp add: take_Suc_conv_app_nth)

lemma madt_wf_step: "madt_wf info \<Longrightarrow> madt_wf (madt_entry_step m p info)"
  by (auto simp: madt_wf_def madt_entry_step_def Let_def)

text \<open>The bytes of an entry as the parser reads them.\<close>

lemma read_entry:
  assumes "holds m p (encode e)"
  shows "e = LocalApic uid apic_id flags \<Longrightarrow> m p = 0 \<and> m (p + 3) = apic_id \<and> load32 m (p + 4) = flags"
    and "e = IoApicEntry i r a gsi \<Longrightarrow> m p = 1 \<and> m (p + 2) = i \<and> load32 m (p + 4) = a \<and> load32 m (p + 8) = gsi"
    and "e = SourceOverride bus irq gsi fl \<Longrightarrow> m p = 2 \<and> m (p + 3) = irq \<and> load32 m (p + 4) = gsi \<and> load16 m (p + 8) = fl"
    and "e = LapicAddress rr aa \<Longrightarrow> m p = 5 \<and> load64 m (p + 4) = aa"
    and "e = OtherEntry kind data \<Longrightarrow> m p = kind"
    and "m (p + 1) = of_nat (length (encode e))"
  using assms by (cases e; auto simp: holds_append holds_Cons add.assoc intro: holds_words)+

lemma entry_step:
  assumes h: "holds m p (encode e)" and ok: "entry_ok e" and wf: "madt_wf info"
  defines "info' \<equiv> madt_entry_step m p info"
  shows "cpus info' = take MAX_CPUS (cpus info @ entry_cpu e)
    \<and> ioapic_list info' = take MAX_IOAPICS (ioapic_list info @ entry_ioapic e)
    \<and> override_list info' = take MAX_OVERRIDES (override_list info @ entry_override e)
    \<and> lapic_address info' = entry_lapic e (lapic_address info) \<and> pcat_compat info' = pcat_compat info"
proof -
  have l: "length (cpu_apic_ids info) = MAX_CPUS" "cpu_count info \<le> MAX_CPUS"
    "length (ioapics info) = MAX_IOAPICS" "ioapic_count info \<le> MAX_IOAPICS"
    "length (overrides info) = MAX_OVERRIDES" "override_count info \<le> MAX_OVERRIDES" using wf by (simp_all add: madt_wf_def)
  note step = madt_entry_step_def Let_def cpus_def ioapic_list_def override_list_def take_push min_absorb2
    MADT_LOCAL_APIC_def MADT_IO_APIC_def MADT_INTERRUPT_OVERRIDE_def MADT_LOCAL_APIC_ADDRESS_OVERRIDE_def
  show ?thesis
  proof (cases e)
    case (LocalApic uid apic_id flags)
    show ?thesis using read_entry(1) [OF h LocalApic] l by (auto simp: LocalApic info'_def step)
  next
    case (IoApicEntry i r a gsi)
    show ?thesis using read_entry(2) [OF h IoApicEntry] l by (auto simp: IoApicEntry info'_def step)
  next
    case (SourceOverride bus irq gsi fl)
    show ?thesis using read_entry(3) [OF h SourceOverride] l by (auto simp: SourceOverride info'_def step)
  next
    case (LapicAddress rr aa)
    show ?thesis using read_entry(4) [OF h LapicAddress] l by (simp add: LapicAddress info'_def step)
  next
    case (OtherEntry kind data)
    show ?thesis using read_entry(5) [OF h OtherEntry] l ok by (simp add: OtherEntry info'_def step)
  qed
qed

subsection \<open>The loop\<close>

lemma madt_loop_wf:
  "madt_loop m e p info = Some info' \<Longrightarrow> madt_wf info \<Longrightarrow> madt_wf info'"
proof (induction rule: madt_loop.raw_induct [rotated 1, consumes 1, case_names step])
  case (step loop m e p info info')
  then show ?case by (auto simp: Let_def split: if_splits) (metis madt_wf_step)
qed

lemma unat_ucast_byte: "unat (ucast b :: u64) = unat b" "unat b < 256" for b :: u8
proof -
  show l: "unat b < 256" using unsigned_less [of b, where ?'a = nat] by simp
  show "unat (ucast b :: u64) = unat b" using l by (simp add: unsigned_ucast_eq take_bit_nat_eq_self)
qed

lemma madt_loop_terminates:
  assumes "unat e + 256 \<le> 2 ^ 64" and "unat p + 2 < 2 ^ 64"
  shows "\<exists>info'. madt_loop m e p info = Some info'"
  using assms(2)
proof (induction "unat e - unat p" arbitrary: p info rule: less_induct)
  case less
  let ?len = "ucast (m (p + 1)) :: u64"
  have len: "unat ?len < 256" by (simp add: unat_ucast_byte)
  show ?case
  proof (cases "p + 2 \<le> e \<and> \<not> (?len < 2 \<or> p + ?len > e)")
    case False
    then show ?thesis by (subst madt_loop.simps) (auto simp: Let_def)
  next
    case True
    have "unat (p + 2) = unat p + 2" using less.prems by (subst unat_add_u64) simp_all
    then have pe: "unat p + 2 \<le> unat e" using True by (simp add: word_le_nat_alt)
    have "unat (p + ?len) = unat p + unat ?len" using pe len assms(1) by (subst unat_add_u64) simp_all
    moreover have "2 \<le> unat ?len" using True by (simp add: word_less_nat_alt not_less)
    moreover have "unat (p + ?len) \<le> unat e" using True by (simp add: word_le_nat_alt not_less)
    ultimately have "unat e - unat (p + ?len) < unat e - unat p" "unat (p + ?len) + 2 < 2 ^ 64"
      using pe assms(1) by simp_all
    from less.hyps [OF this] show ?thesis using True by (subst madt_loop.simps) (auto simp: Let_def)
  qed
qed

lemma length_encode: "entry_ok e \<Longrightarrow> 2 \<le> length (encode e) \<and> length (encode e) < 256"
  by (cases e) simp_all

lemma take_take_append: "take n (take n xs @ ys) = take n (xs @ ys)"
  by (auto simp: min_def)

definition decoded :: "madt_entry list \<Rightarrow> madt_info \<Rightarrow> madt_info \<Rightarrow> bool" where
  "decoded es info info' \<longleftrightarrow> cpus info' = take MAX_CPUS (cpus info @ concat (map entry_cpu es))
     \<and> ioapic_list info' = take MAX_IOAPICS (ioapic_list info @ concat (map entry_ioapic es))
     \<and> override_list info' = take MAX_OVERRIDES (override_list info @ concat (map entry_override es))
     \<and> lapic_address info' = fold entry_lapic es (lapic_address info) \<and> pcat_compat info' = pcat_compat info"

lemma decoded_Nil: "madt_wf info \<Longrightarrow> decoded [] info info"
  by (simp add: decoded_def madt_wf_def cpus_def ioapic_list_def override_list_def min_absorb2)

lemma decoded_Cons:
  assumes "holds m p (encode e)" and "entry_ok e" and "madt_wf info"
    and "decoded es (madt_entry_step m p info) info'"
  shows "decoded (e # es) info info'"
  using entry_step [OF assms(1-3)] assms(4) by (simp add: decoded_def take_take_append del: take_append)

lemma madt_loop_entries:
  assumes "unat p + length (concat (map encode es)) = unat e" and "unat e + 256 \<le> 2 ^ 64"
    and "holds m p (concat (map encode es))" and "\<forall>x \<in> set es. entry_ok x" and "madt_wf info"
  shows "\<exists>info'. madt_loop m e p info = Some info' \<and> decoded es info info'"
  using assms(1,3,4,5)
proof (induction es arbitrary: p info)
  case Nil
  then have p: "p = e" by (simp add: word_unat_eq_iff)
  have "unat (e + 2) = unat e + 2" using assms(2) by (subst unat_add_u64) simp_all
  then have "\<not> e + 2 \<le> e" by (simp add: word_le_nat_alt)
  then have "madt_loop m e e info = Some info" by (subst madt_loop.simps) simp
  then show ?case using p decoded_Nil [OF Nil.prems(4)] by simp
next
  case (Cons x es)
  let ?len = "ucast (m (p + 1)) :: u64"
  have x: "entry_ok x" "holds m p (encode x)" and r: "holds m (p + of_nat (length (encode x))) (concat (map encode es))"
    using Cons.prems(2,3) by (simp_all add: holds_append)
  note n = length_encode [OF x(1)]
  have len: "unat ?len = length (encode x)"
    using n by (simp add: unat_ucast_byte read_entry(6) [OF x(2)] unat_of_nat take_bit_nat_eq_self)
  then have len': "?len = of_nat (length (encode x))" using n by (simp add: word_unat_eq_iff unat_of_nat take_bit_nat_eq_self)
  have pl: "unat (p + ?len) = unat p + length (encode x)"
    using Cons.prems(1) assms(2) len by (subst unat_add_u64) simp_all
  have "unat (p + 2) = unat p + 2" using Cons.prems(1) assms(2) n by (subst unat_add_u64) simp_all
  then have go: "p + 2 \<le> e" "\<not> (?len < 2 \<or> p + ?len > e)"
    using Cons.prems(1) n len pl by (simp_all add: word_le_nat_alt word_less_nat_alt not_less)
  have "\<exists>info'. madt_loop m e (p + ?len) (madt_entry_step m p info) = Some info' \<and> decoded es (madt_entry_step m p info) info'"
    by (rule Cons.IH) (use Cons.prems pl r len' madt_wf_step in simp_all)
  then obtain info' where "madt_loop m e (p + ?len) (madt_entry_step m p info) = Some info'"
    and d: "decoded es (madt_entry_step m p info) info'" by blast
  then have "madt_loop m e p info = Some info'" using go by (subst madt_loop.simps) (simp add: Let_def)
  then show ?case using decoded_Cons [OF x(2,1) Cons.prems(4) d] by blast
qed

definition no_wrap :: "bytes \<Rightarrow> u64 \<Rightarrow> bool" where
  "no_wrap m a \<longleftrightarrow> unat a + unat (sdt_length m a) + 256 \<le> 2 ^ 64"

lemma unat_ucast_u32: "unat (ucast b :: u64) = unat b" "unat b < 2 ^ 32" for b :: u32
proof -
  show l: "unat b < 2 ^ 32" using unsigned_less [of b, where ?'a = nat] by simp
  show "unat (ucast b :: u64) = unat b" using l by (simp add: unsigned_ucast_eq take_bit_nat_eq_self)
qed

lemma table_end:
  assumes "no_wrap m a"
  shows "unat (a + ucast (sdt_length m a)) = unat a + unat (sdt_length m a)"
    and "unat (a + SDT_HEADER_SIZE + 8) = unat a + 44"
proof -
  show "unat (a + ucast (sdt_length m a)) = unat a + unat (sdt_length m a)"
    using assms by (subst unat_add_u64) (simp_all add: no_wrap_def unat_ucast_u32)
  have "unat (a + 44) = unat a + 44" using assms by (subst unat_add_u64) (simp_all add: no_wrap_def)
  then show "unat (a + SDT_HEADER_SIZE + 8) = unat a + 44" by (simp add: SDT_HEADER_SIZE_def add.assoc)
qed

lemma parse_madt_total:
  assumes "no_wrap m a"
  obtains (bad) "\<not> checksum_ok m a (unat (sdt_length m a))" "parse_madt m a s = Some (Inl BadTableChecksum, s)"
  | (good) info where "checksum_ok m a (unat (sdt_length m a))"
      "parse_madt m a s = Some (Inr (), s\<lparr>madt_static := info, madt_valid := True\<rparr>)"
      "madt_wf (madt_static s) \<longrightarrow> madt_wf info"
      "madt_loop m (a + ucast (sdt_length m a)) (a + SDT_HEADER_SIZE + 8)
         ((madt_static s)\<lparr>lapic_address := ucast (load32 m (a + SDT_HEADER_SIZE)),
            pcat_compat := (load32 m (a + SDT_HEADER_SIZE + 4) AND 1 \<noteq> 0)\<rparr>) = Some info"
proof (cases "checksum_ok m a (unat (sdt_length m a))")
  case True
  let ?i = "(madt_static s)\<lparr>lapic_address := ucast (load32 m (a + SDT_HEADER_SIZE)),
            pcat_compat := (load32 m (a + SDT_HEADER_SIZE + 4) AND 1 \<noteq> 0)\<rparr>"
  have "unat (a + ucast (sdt_length m a)) + 256 \<le> 2 ^ 64" "unat (a + SDT_HEADER_SIZE + 8) + 2 < 2 ^ 64"
    using assms by (simp_all add: table_end no_wrap_def)
  then obtain info where l: "madt_loop m (a + ucast (sdt_length m a)) (a + SDT_HEADER_SIZE + 8) ?i = Some info"
    using madt_loop_terminates by blast
  have "madt_wf info" if "madt_wf (madt_static s)"
    by (rule madt_loop_wf [OF l]) (use that in \<open>simp add: madt_wf_def\<close>)
  then show thesis using good [OF True _ _ l] True l by (simp add: parse_madt_def Let_def)
qed (use bad in \<open>simp add: parse_madt_def Let_def\<close>)

subsection \<open>Properties\<close>

text \<open>C35. Parsing a well-formed MADT recovers its contents: the identities of the enabled processors, the I/O APICs and the
  interrupt overrides in table order, cut off at 64, 4 and 16, and the last local APIC address given.
  Afterwards a legacy interrupt maps to the global interrupt of its first override, or to itself.\<close>
theorem parse_madt_decodes:
  assumes "no_wrap m a" and "checksum_ok m a (unat (sdt_length m a))"
    and "unat (sdt_length m a) = 44 + length (concat (map encode es))"
    and "holds m (a + 44) (concat (map encode es))" and "\<forall>e \<in> set es. entry_ok e" and "madt_static s = madt_info_new"
  shows "\<exists>s' info. parse_madt m a s = Some (Inr (), s') \<and> madt s' = Some info
    \<and> cpus info = take 64 (concat (map entry_cpu es)) \<and> ioapic_list info = take 4 (concat (map entry_ioapic es))
    \<and> override_list info = take 16 (concat (map entry_override es))
    \<and> lapic_address info = fold entry_lapic es (ucast (load32 m (a + 36)))
    \<and> (\<forall>irq. isa_irq_to_gsi irq s' =
        (case find (\<lambda>x. isa_irq x = irq) (take 16 (concat (map entry_override es))) of
           Some x \<Rightarrow> (ov_gsi x, ov_flags x) | None \<Rightarrow> (ucast irq, 0)))"
  using assms(1)
proof (cases rule: parse_madt_total [where s = s])
  case (good info)
  let ?i = "madt_info_new\<lparr>lapic_address := ucast (load32 m (a + SDT_HEADER_SIZE)),
      pcat_compat := (load32 m (a + SDT_HEADER_SIZE + 4) AND 1 \<noteq> 0)\<rparr>"
  have h: "holds m (a + SDT_HEADER_SIZE + 8) (concat (map encode es))"
    using assms(4) by (simp add: SDT_HEADER_SIZE_def add.assoc)
  have "\<exists>info'. madt_loop m (a + ucast (sdt_length m a)) (a + SDT_HEADER_SIZE + 8) ?i = Some info' \<and> decoded es ?i info'"
  proof (rule madt_loop_entries [OF _ _ h assms(5)])
    show "unat (a + SDT_HEADER_SIZE + 8) + length (concat (map encode es)) = unat (a + ucast (sdt_length m a))"
      unfolding table_end [OF assms(1)] using assms(3) by simp
    show "unat (a + ucast (sdt_length m a)) + 256 \<le> 2 ^ 64"
      unfolding table_end [OF assms(1)] using assms(1) by (simp add: no_wrap_def)
    show "madt_wf ?i" using madt_wf_new by (simp add: madt_wf_def)
  qed
  then have d: "decoded es ?i info" using good(4) assms(6) by simp
  have v: "cpus ?i = []" "ioapic_list ?i = []" "override_list ?i = []"
    by (simp_all add: cpus_def ioapic_list_def override_list_def madt_info_new_def)
  have c: "cpus info = take 64 (concat (map entry_cpu es))" "ioapic_list info = take 4 (concat (map entry_ioapic es))"
    "override_list info = take 16 (concat (map entry_override es))"
    "lapic_address info = fold entry_lapic es (ucast (load32 m (a + 36)))"
    using d unfolding decoded_def v by (simp_all add: acpi_consts SDT_HEADER_SIZE_def)
  have "isa_irq_to_gsi irq (s\<lparr>madt_static := info, madt_valid := True\<rparr>) =
      (case find (\<lambda>x. isa_irq x = irq) (take 16 (concat (map entry_override es))) of
         Some x \<Rightarrow> (ov_gsi x, ov_flags x) | None \<Rightarrow> (ucast irq, 0))" for irq
    unfolding c(3) [symmetric] by (simp add: isa_irq_to_gsi_def madt_def override_list_def)
  then show ?thesis using good(2) c by (simp add: madt_def)
qed (use assms(2) in simp)

text \<open>C40. Whatever the memory holds, parsing a table that does not reach the top of the address space ends, reports a bad
  checksum with no effect or succeeds, and never stores beyond the arrays of the result.\<close>
theorem parse_madt_terminates:
  assumes "no_wrap m a" and "madt_wf (madt_static s)"
  shows "\<exists>r s'. parse_madt m a s = Some (r, s') \<and> madt_wf (madt_static s')
    \<and> (if checksum_ok m a (unat (sdt_length m a)) then r = Inr () \<and> madt_valid s'
       else r = Inl BadTableChecksum \<and> s' = s)"
  using assms(1)
proof (cases rule: parse_madt_total [where s = s])
  case (good info)
  then show ?thesis using assms(2) by auto
qed (use assms(2) in auto)

text \<open>With an ACPI 1.0 root pointer every table lies below 4 GiB, and \<^verbatim>\<open>acpi::init\<close> ends for every content of
  memory.\<close>
theorem acpi_init_terminates:
  assumes "m (rsdp_address s + 15) < 2"
  shows "\<exists>r. acpi_init m s = Some r"
proof -
  have "no_wrap m (ucast (x :: u32))" for x
    using unat_ucast_u32 [of x] unat_ucast_u32(2) [of "sdt_length m (ucast x)"] by (simp add: no_wrap_def)
  then have p: "\<exists>r. parse_madt m (ucast (x :: u32)) s = Some r" for x
    by (metis parse_madt_total)
  have f: "\<exists>x :: u32. find_madt m False b n = ucast x" for b n
    unfolding find_madt_def
    by (induction n) (auto simp: table_address_def Let_def intro: exI [of _ 0])
  have "\<exists>r. parse_madt m (find_madt m False b n) s = Some r" for b n using f [of b n] p by metis
  moreover have "\<not> 2 \<le> m (rsdp_address s + 15)" using assms by simp
  ultimately show ?thesis by (simp add: acpi_init_def Let_def)
qed

text \<open>A root table whose length field is zero passes the checksum test, and the number of its entries wraps around.\<close>

lemma root_length_zero:
  "checksum_ok m a 0" "root_entry_count True 0 = 2 ^ 61 - 5" "root_entry_count False 0 = 2 ^ 62 - 9"
  by (simp_all add: checksum_ok_def load_list_def root_entry_count_def SDT_HEADER_SIZE_def unat_div)

subsection \<open>Concrete instances\<close>

text \<open>A table at address 0 with one enabled processor and one override, and zero elsewhere but for its length and
  checksum.\<close>

definition sample_entries :: "madt_entry list" where
  "sample_entries = [LocalApic 0 7 1, SourceOverride 0 0 2 0]"

definition sample_table :: "u8 list" where
  "sample_table = replicate 4 0 @ le_word 4 (62 :: u32) @ [0, 164] @ replicate 34 0 @ concat (map encode sample_entries)"

definition sample_bytes :: bytes where
  "sample_bytes a = (if unat a < length sample_table then sample_table ! unat a else 0)"

lemma sample_holds: "load_list sample_bytes 0 62 = sample_table"
proof -
  have len: "length sample_table = 62" by (simp add: sample_table_def sample_entries_def)
  have "sample_bytes (of_nat i) = sample_table ! i" if "i < 62" for i
    using that by (simp add: sample_bytes_def len unat_of_nat take_bit_nat_eq_self)
  then show ?thesis by (intro nth_equalityI) (simp_all add: load_list_def len)
qed

definition acpi_new :: acpi_state where
  "acpi_new = \<lparr>rsdp_address = 0, madt_static = madt_info_new, madt_valid = False\<rparr>"

lemma sample_facts:
  "sdt_length sample_bytes 0 = 62" "checksum_ok sample_bytes 0 62" "holds sample_bytes 44 (concat (map encode sample_entries))"
proof -
  have h: "holds sample_bytes 0 sample_table" using sample_holds by (simp add: holds_def sample_table_def sample_entries_def)
  show "sdt_length sample_bytes 0 = 62"
    using h holds_words(2) [of sample_bytes 4 62] unfolding sample_table_def holds_append by (simp add: sdt_length_def)
  show "holds sample_bytes 44 (concat (map encode sample_entries))"
    using h unfolding sample_table_def holds_append by simp
  show "checksum_ok sample_bytes 0 62"
    unfolding checksum_ok_def sample_holds by code_simp
qed

theorem parse_madt_decodes_witness:
  "\<exists>s' info. parse_madt sample_bytes 0 acpi_new = Some (Inr (), s') \<and> madt s' = Some info \<and> cpus info = [7]
     \<and> isa_irq_to_gsi 0 s' = (2, 0) \<and> isa_irq_to_gsi 1 s' = (1, 0)"
  using parse_madt_decodes [of sample_bytes 0 sample_entries acpi_new] sample_facts
  by (auto simp: no_wrap_def sample_entries_def acpi_new_def)

theorem parse_madt_terminates_witness:
  "\<exists>r s'. parse_madt sample_bytes 0 acpi_new = Some (r, s') \<and> madt_wf (madt_static s')"
  using parse_madt_terminates [of sample_bytes 0 acpi_new] sample_facts madt_wf_new
  by (auto simp: no_wrap_def acpi_new_def)

theorem acpi_init_terminates_witness:
  "\<exists>r. acpi_init (\<lambda>_. 1) acpi_new = Some r"
  using acpi_init_terminates [of "\<lambda>_. 1" acpi_new] by simp

end
