(* ===== verification/Console.thy ===== *)
theory Console
  imports Prelude
begin

text \<open>
  The framebuffer console (\<^verbatim>\<open>src/src/framebuffer.rs\<close> and the font of \<^verbatim>\<open>src/src/font.rs\<close>): a cursor on a grid
  of 8 by 16 pixel cells.  The framebuffer is a map from pixel indices (from \<^verbatim>\<open>phys_base\<close> on) to colours, total
  so that a write outside the screen would show.  \<^verbatim>\<open>usize\<close> subtraction wraps, as in a release build.
\<close>

definition usize_sub :: "nat \<Rightarrow> nat \<Rightarrow> nat" where
  "usize_sub a b = (if b \<le> a then a - b else 2 ^ 64 + a - b)"

subsection \<open>The font\<close>

definition GLYPH_WIDTH :: nat where
  "GLYPH_WIDTH = 8"

definition GLYPH_HEIGHT :: nat where
  "GLYPH_HEIGHT = 8"

definition FIRST_CHAR :: u8 where
  "FIRST_CHAR = 0x20"

definition LAST_CHAR :: u8 where
  "LAST_CHAR = 0x7E"

definition FONT :: "u8 list list" where
  "FONT =
    [[0x00, 0x00, 0x00, 0x00, 0x00, 0x00, 0x00, 0x00],
     [0x18, 0x3C, 0x3C, 0x18, 0x18, 0x00, 0x18, 0x00],
     [0x36, 0x36, 0x00, 0x00, 0x00, 0x00, 0x00, 0x00],
     [0x36, 0x36, 0x7F, 0x36, 0x7F, 0x36, 0x36, 0x00],
     [0x0C, 0x3E, 0x03, 0x1E, 0x30, 0x1F, 0x0C, 0x00],
     [0x00, 0x63, 0x33, 0x18, 0x0C, 0x66, 0x63, 0x00],
     [0x1C, 0x36, 0x1C, 0x6E, 0x3B, 0x33, 0x6E, 0x00],
     [0x06, 0x06, 0x03, 0x00, 0x00, 0x00, 0x00, 0x00],
     [0x18, 0x0C, 0x06, 0x06, 0x06, 0x0C, 0x18, 0x00],
     [0x06, 0x0C, 0x18, 0x18, 0x18, 0x0C, 0x06, 0x00],
     [0x00, 0x66, 0x3C, 0xFF, 0x3C, 0x66, 0x00, 0x00],
     [0x00, 0x0C, 0x0C, 0x3F, 0x0C, 0x0C, 0x00, 0x00],
     [0x00, 0x00, 0x00, 0x00, 0x00, 0x0C, 0x0C, 0x06],
     [0x00, 0x00, 0x00, 0x3F, 0x00, 0x00, 0x00, 0x00],
     [0x00, 0x00, 0x00, 0x00, 0x00, 0x0C, 0x0C, 0x00],
     [0x60, 0x30, 0x18, 0x0C, 0x06, 0x03, 0x01, 0x00],
     [0x3E, 0x63, 0x73, 0x7B, 0x6F, 0x67, 0x3E, 0x00],
     [0x0C, 0x0E, 0x0C, 0x0C, 0x0C, 0x0C, 0x3F, 0x00],
     [0x1E, 0x33, 0x30, 0x1C, 0x06, 0x33, 0x3F, 0x00],
     [0x1E, 0x33, 0x30, 0x1C, 0x30, 0x33, 0x1E, 0x00],
     [0x38, 0x3C, 0x36, 0x33, 0x7F, 0x30, 0x78, 0x00],
     [0x3F, 0x03, 0x1F, 0x30, 0x30, 0x33, 0x1E, 0x00],
     [0x1C, 0x06, 0x03, 0x1F, 0x33, 0x33, 0x1E, 0x00],
     [0x3F, 0x33, 0x30, 0x18, 0x0C, 0x0C, 0x0C, 0x00],
     [0x1E, 0x33, 0x33, 0x1E, 0x33, 0x33, 0x1E, 0x00],
     [0x1E, 0x33, 0x33, 0x3E, 0x30, 0x18, 0x0E, 0x00],
     [0x00, 0x0C, 0x0C, 0x00, 0x00, 0x0C, 0x0C, 0x00],
     [0x00, 0x0C, 0x0C, 0x00, 0x00, 0x0C, 0x0C, 0x06],
     [0x18, 0x0C, 0x06, 0x03, 0x06, 0x0C, 0x18, 0x00],
     [0x00, 0x00, 0x3F, 0x00, 0x00, 0x3F, 0x00, 0x00],
     [0x06, 0x0C, 0x18, 0x30, 0x18, 0x0C, 0x06, 0x00],
     [0x1E, 0x33, 0x30, 0x18, 0x0C, 0x00, 0x0C, 0x00],
     [0x3E, 0x63, 0x7B, 0x7B, 0x7B, 0x03, 0x1E, 0x00],
     [0x0C, 0x1E, 0x33, 0x33, 0x3F, 0x33, 0x33, 0x00],
     [0x3F, 0x66, 0x66, 0x3E, 0x66, 0x66, 0x3F, 0x00],
     [0x3C, 0x66, 0x03, 0x03, 0x03, 0x66, 0x3C, 0x00],
     [0x1F, 0x36, 0x66, 0x66, 0x66, 0x36, 0x1F, 0x00],
     [0x7F, 0x46, 0x16, 0x1E, 0x16, 0x46, 0x7F, 0x00],
     [0x7F, 0x46, 0x16, 0x1E, 0x16, 0x06, 0x0F, 0x00],
     [0x3C, 0x66, 0x03, 0x03, 0x73, 0x66, 0x7C, 0x00],
     [0x33, 0x33, 0x33, 0x3F, 0x33, 0x33, 0x33, 0x00],
     [0x1E, 0x0C, 0x0C, 0x0C, 0x0C, 0x0C, 0x1E, 0x00],
     [0x78, 0x30, 0x30, 0x30, 0x33, 0x33, 0x1E, 0x00],
     [0x67, 0x66, 0x36, 0x1E, 0x36, 0x66, 0x67, 0x00],
     [0x0F, 0x06, 0x06, 0x06, 0x46, 0x66, 0x7F, 0x00],
     [0x63, 0x77, 0x7F, 0x7F, 0x6B, 0x63, 0x63, 0x00],
     [0x63, 0x67, 0x6F, 0x7B, 0x73, 0x63, 0x63, 0x00],
     [0x1C, 0x36, 0x63, 0x63, 0x63, 0x36, 0x1C, 0x00],
     [0x3F, 0x66, 0x66, 0x3E, 0x06, 0x06, 0x0F, 0x00],
     [0x1E, 0x33, 0x33, 0x33, 0x3B, 0x1E, 0x38, 0x00],
     [0x3F, 0x66, 0x66, 0x3E, 0x36, 0x66, 0x67, 0x00],
     [0x1E, 0x33, 0x07, 0x0E, 0x38, 0x33, 0x1E, 0x00],
     [0x3F, 0x2D, 0x0C, 0x0C, 0x0C, 0x0C, 0x1E, 0x00],
     [0x33, 0x33, 0x33, 0x33, 0x33, 0x33, 0x3F, 0x00],
     [0x33, 0x33, 0x33, 0x33, 0x33, 0x1E, 0x0C, 0x00],
     [0x63, 0x63, 0x63, 0x6B, 0x7F, 0x77, 0x63, 0x00],
     [0x63, 0x63, 0x36, 0x1C, 0x1C, 0x36, 0x63, 0x00],
     [0x33, 0x33, 0x33, 0x1E, 0x0C, 0x0C, 0x1E, 0x00],
     [0x7F, 0x63, 0x31, 0x18, 0x4C, 0x66, 0x7F, 0x00],
     [0x1E, 0x06, 0x06, 0x06, 0x06, 0x06, 0x1E, 0x00],
     [0x03, 0x06, 0x0C, 0x18, 0x30, 0x60, 0x40, 0x00],
     [0x1E, 0x18, 0x18, 0x18, 0x18, 0x18, 0x1E, 0x00],
     [0x08, 0x1C, 0x36, 0x63, 0x00, 0x00, 0x00, 0x00],
     [0x00, 0x00, 0x00, 0x00, 0x00, 0x00, 0x00, 0xFF],
     [0x0C, 0x0C, 0x18, 0x00, 0x00, 0x00, 0x00, 0x00],
     [0x00, 0x00, 0x1E, 0x30, 0x3E, 0x33, 0x6E, 0x00],
     [0x07, 0x06, 0x06, 0x3E, 0x66, 0x66, 0x3B, 0x00],
     [0x00, 0x00, 0x1E, 0x33, 0x03, 0x33, 0x1E, 0x00],
     [0x38, 0x30, 0x30, 0x3E, 0x33, 0x33, 0x6E, 0x00],
     [0x00, 0x00, 0x1E, 0x33, 0x3F, 0x03, 0x1E, 0x00],
     [0x1C, 0x36, 0x06, 0x0F, 0x06, 0x06, 0x0F, 0x00],
     [0x00, 0x00, 0x6E, 0x33, 0x33, 0x3E, 0x30, 0x1F],
     [0x07, 0x06, 0x36, 0x6E, 0x66, 0x66, 0x67, 0x00],
     [0x0C, 0x00, 0x0E, 0x0C, 0x0C, 0x0C, 0x1E, 0x00],
     [0x30, 0x00, 0x30, 0x30, 0x30, 0x33, 0x33, 0x1E],
     [0x07, 0x06, 0x66, 0x36, 0x1E, 0x36, 0x67, 0x00],
     [0x0E, 0x0C, 0x0C, 0x0C, 0x0C, 0x0C, 0x1E, 0x00],
     [0x00, 0x00, 0x33, 0x7F, 0x7F, 0x6B, 0x63, 0x00],
     [0x00, 0x00, 0x1F, 0x33, 0x33, 0x33, 0x33, 0x00],
     [0x00, 0x00, 0x1E, 0x33, 0x33, 0x33, 0x1E, 0x00],
     [0x00, 0x00, 0x3B, 0x66, 0x66, 0x3E, 0x06, 0x0F],
     [0x00, 0x00, 0x6E, 0x33, 0x33, 0x3E, 0x30, 0x78],
     [0x00, 0x00, 0x3B, 0x6E, 0x66, 0x06, 0x0F, 0x00],
     [0x00, 0x00, 0x3E, 0x03, 0x1E, 0x30, 0x1F, 0x00],
     [0x08, 0x0C, 0x3E, 0x0C, 0x0C, 0x2C, 0x18, 0x00],
     [0x00, 0x00, 0x33, 0x33, 0x33, 0x33, 0x6E, 0x00],
     [0x00, 0x00, 0x33, 0x33, 0x33, 0x1E, 0x0C, 0x00],
     [0x00, 0x00, 0x63, 0x6B, 0x7F, 0x7F, 0x36, 0x00],
     [0x00, 0x00, 0x63, 0x36, 0x1C, 0x36, 0x63, 0x00],
     [0x00, 0x00, 0x33, 0x33, 0x33, 0x3E, 0x30, 0x1F],
     [0x00, 0x00, 0x3F, 0x19, 0x0C, 0x26, 0x3F, 0x00],
     [0x38, 0x0C, 0x0C, 0x07, 0x0C, 0x0C, 0x38, 0x00],
     [0x18, 0x18, 0x18, 0x00, 0x18, 0x18, 0x18, 0x00],
     [0x07, 0x0C, 0x0C, 0x38, 0x0C, 0x0C, 0x07, 0x00],
     [0x6E, 0x3B, 0x00, 0x00, 0x00, 0x00, 0x00, 0x00]]"

definition glyph :: "u8 \<Rightarrow> u8 list" where
  "glyph byte =
     (if FIRST_CHAR \<le> byte \<and> byte \<le> LAST_CHAR then FONT ! unat (byte - FIRST_CHAR)
      else FONT ! unat (0x3F - FIRST_CHAR))"

subsection \<open>Console state\<close>

definition CELL_WIDTH :: nat where
  "CELL_WIDTH = GLYPH_WIDTH"

definition CELL_HEIGHT :: nat where
  "CELL_HEIGHT = GLYPH_HEIGHT * 2"

definition FG_COLOR :: u32 where
  "FG_COLOR = 0x00CCCCCC"

definition BG_COLOR :: u32 where
  "BG_COLOR = 0"

lemmas cell_consts = CELL_WIDTH_def CELL_HEIGHT_def GLYPH_WIDTH_def GLYPH_HEIGHT_def

datatype pixel_format = Rgb | Bgr | Bitmask | BltOnly

definition pixel_format_from_uefi :: "u32 \<Rightarrow> pixel_format" where
  "pixel_format_from_uefi v = (if v = 0 then Rgb else if v = 1 then Bgr else if v = 2 then Bitmask else BltOnly)"

fun pixel_format_name :: "pixel_format \<Rightarrow> string" where
  "pixel_format_name Rgb = ''RGBX-8888''"
| "pixel_format_name Bgr = ''BGRX-8888''"
| "pixel_format_name Bitmask = ''BITMASK''"
| "pixel_format_name BltOnly = ''BLT_ONLY''"

record framebuffer_info =
  fb_phys_base :: u64
  fb_size_bytes :: u64
  fb_width :: nat
  fb_height :: nat
  fb_stride :: nat
  fb_format :: pixel_format

type_synonym pixels = "nat \<Rightarrow> u32"

record console =
  con_info :: "framebuffer_info option"
  con_cols :: nat
  con_rows :: nat
  con_col :: nat
  con_row :: nat
  con_active :: bool
  con_fb :: pixels

definition set_info :: "framebuffer_info \<Rightarrow> console \<Rightarrow> console" where
  "set_info info s = s\<lparr>con_info := Some info\<rparr>"

definition console_size :: "console \<Rightarrow> nat \<times> nat" where
  "console_size s = (con_cols s, con_rows s)"

definition fill_pixels :: "nat list \<Rightarrow> pixels \<Rightarrow> pixels" where
  "fill_pixels is fb = fold (\<lambda>i fb. fb(i := BG_COLOR)) is fb"

definition console_init :: "console \<Rightarrow> bool \<times> console" where
  "console_init s =
     (case con_info s of
        None \<Rightarrow> (False, s)
      | Some info \<Rightarrow>
          if fb_format info \<noteq> BltOnly \<and> fb_width info > 0 \<and> fb_height info > 0 then
            (True, s\<lparr>con_cols := fb_width info div CELL_WIDTH, con_rows := fb_height info div CELL_HEIGHT,
                     con_col := 0, con_row := 0,
                     con_fb := fill_pixels [0..<fb_stride info * fb_height info] (con_fb s),
                     con_active := True\<rparr>)
          else (False, s))"

definition draw_glyph :: "framebuffer_info \<Rightarrow> nat \<Rightarrow> nat \<Rightarrow> u8 \<Rightarrow> pixels \<Rightarrow> pixels" where
  "draw_glyph info col row byte fb =
     (let g = glyph byte; x0 = col * CELL_WIDTH; y0 = row * CELL_HEIGHT in
      fold (\<lambda>gy fb.
        let bits = g ! gy in
        fold (\<lambda>dy fb.
          let line = (y0 + gy * 2 + dy) * fb_stride info + x0 in
          fold (\<lambda>gx fb. fb(line + gx := (if bit bits gx then FG_COLOR else BG_COLOR))) [0..<GLYPH_WIDTH] fb)
        [0..<2] fb)
      [0..<GLYPH_HEIGHT] fb)"

text \<open>\<^verbatim>\<open>ptr::copy\<close> is a move: every pixel is read before any is written.\<close>

definition scroll :: "framebuffer_info \<Rightarrow> nat \<Rightarrow> pixels \<Rightarrow> pixels" where
  "scroll info rows fb =
     (let row_pixels = fb_stride info * CELL_HEIGHT;
          text_pixels = row_pixels * rows;
          kept = usize_sub text_pixels row_pixels;
          fb1 = (\<lambda>i. if i < kept then fb (row_pixels + i) else fb i)
      in fill_pixels [kept..<text_pixels] fb1)"

definition scroll_if_needed :: "framebuffer_info \<Rightarrow> console \<Rightarrow> console" where
  "scroll_if_needed info s =
     (if con_row s \<ge> con_rows s
      then s\<lparr>con_fb := scroll info (con_rows s) (con_fb s), con_row := usize_sub (con_rows s) 1\<rparr> else s)"

definition console_write_byte :: "u8 \<Rightarrow> console \<Rightarrow> console" where
  "console_write_byte byte s =
     (if \<not> con_active s then s
      else case con_info s of
        None \<Rightarrow> s
      | Some info \<Rightarrow>
          let s1 =
            (if byte = 0x0A then s\<lparr>con_col := 0, con_row := con_row s + 1\<rparr>
             else if byte = 0x0D then s\<lparr>con_col := 0\<rparr>
             else
               let s1 = (if con_col s \<ge> con_cols s then s\<lparr>con_col := 0, con_row := con_row s + 1\<rparr> else s);
                   s2 = scroll_if_needed info s1
               in s2\<lparr>con_fb := draw_glyph info (con_col s2) (con_row s2) byte (con_fb s2),
                     con_col := con_col s2 + 1\<rparr>)
          in scroll_if_needed info s1)"

subsection \<open>Pixels by coordinates\<close>

definition at :: "nat \<Rightarrow> nat \<Rightarrow> nat \<Rightarrow> nat" where
  "at stride y x = y * stride + x"

lemma at_eq: "x < stride \<Longrightarrow> x' < stride \<Longrightarrow> at stride y x = at stride y' x' \<longleftrightarrow> y = y' \<and> x = x'"
  unfolding at_def by (metis div_mult_self3 div_less add.right_neutral add_left_cancel less_nat_zero_code)

lemma at_less: "x < stride \<Longrightarrow> at stride y x < k * stride \<longleftrightarrow> y < k"
proof
  assume "x < stride" "at stride y x < k * stride"
  then have "y * stride < k * stride" unfolding at_def by linarith
  then show "y < k" by simp
next
  assume x: "x < stride" and "y < k"
  then have "(y + 1) * stride \<le> k * stride" by (intro mult_le_mono1) simp
  then show "at stride y x < k * stride" using x by (simp add: at_def)
qed

lemma fill_pixels_apply: "fill_pixels is fb i = (if i \<in> set is then BG_COLOR else fb i)"
  unfolding fill_pixels_def by (induction "is" arbitrary: fb) auto

end
