(* ===== verification/Console_Text.thy ===== *)
theory Console_Text
  imports Console
begin

text \<open>
  The console shows text: an abstract console is a grid of characters with a cursor, and the pixels are at
  every moment the rendering of that grid.  Pixels outside the text area keep their values.
\<close>

subsection \<open>The drawing operations by coordinates\<close>

lemma draw_line:
  assumes "x0 + n \<le> stride" and "x < stride"
  shows "fold (\<lambda>gx fb. fb(at stride y0 x0 + gx := col gx)) [0..<n] fb (at stride y x) =
    (if y = y0 \<and> x0 \<le> x \<and> x < x0 + n then col (x - x0) else fb (at stride y x))"
  using assms(1)
proof (induction n)
  case (Suc n)
  have "at stride y x = at stride y0 x0 + n \<longleftrightarrow> y = y0 \<and> x = x0 + n"
    using at_eq [of x stride "x0 + n" y y0] Suc.prems assms(2) by (simp add: at_def add.assoc)
  then show ?case using Suc by auto
qed auto

lemma draw_rows:
  assumes x0: "x0 + 8 \<le> stride" and x: "x < stride"
  shows "fold (\<lambda>gy fb. fold (\<lambda>dy fb. fold (\<lambda>gx fb. fb(at stride (ytop + gy * 2 + dy) x0 + gx := col gy gx)) [0..<8] fb) [0..<2] fb)
      [0..<n] fb (at stride y x) =
    (if ytop \<le> y \<and> y < ytop + 2 * n \<and> x0 \<le> x \<and> x < x0 + 8 then col ((y - ytop) div 2) (x - x0) else fb (at stride y x))"
proof (induction n)
  case (Suc n)
  let ?F = "\<lambda>gy fb. fold (\<lambda>dy fb. fold (\<lambda>gx fb. fb(at stride (ytop + gy * 2 + dy) x0 + gx := col gy gx)) [0..<8] fb) [0..<2] fb"
  have two: "[0..<2] = [0, 1 :: nat]" by (simp add: upt_rec)
  have F: "?F gy fb (at stride y x) = (if y = ytop + gy * 2 \<or> y = ytop + gy * 2 + 1 then
      (if x0 \<le> x \<and> x < x0 + 8 then col gy (x - x0) else fb (at stride y x)) else fb (at stride y x))" for gy fb
    unfolding two by (simp add: draw_line [OF x0 x] del: upt_rec_numeral)
  have "fold ?F [0..<Suc n] fb = ?F n (fold ?F [0..<n] fb)" by simp
  then show ?case
    unfolding \<open>fold ?F [0..<Suc n] fb = ?F n (fold ?F [0..<n] fb)\<close> F Suc.IH by auto
qed auto

subsection \<open>Rendering\<close>

type_synonym grid = "nat \<Rightarrow> nat \<Rightarrow> u8 option"

fun cell_pixel :: "u8 option \<Rightarrow> nat \<Rightarrow> nat \<Rightarrow> u32" where
  "cell_pixel None y x = BG_COLOR"
| "cell_pixel (Some b) y x = (if bit (glyph b ! (y div 2)) x then FG_COLOR else BG_COLOR)"

text \<open>The framebuffer that shows a grid of \<open>rows\<close> by \<open>cols\<close> cells, blank around it, over the memory \<open>fb0\<close>.\<close>

definition render :: "framebuffer_info \<Rightarrow> nat \<Rightarrow> nat \<Rightarrow> pixels \<Rightarrow> grid \<Rightarrow> pixels" where
  "render info cols rows fb0 g i =
     (if i < fb_stride info * fb_height info then
        let y = i div fb_stride info; x = i mod fb_stride info in
        if y < rows * 16 \<and> x < cols * 8 then cell_pixel (g (y div 16) (x div 8)) (y mod 16) (x mod 8) else BG_COLOR
      else fb0 i)"

definition fits_screen :: "framebuffer_info \<Rightarrow> nat \<Rightarrow> nat \<Rightarrow> bool" where
  "fits_screen info cols rows \<longleftrightarrow> 0 < cols \<and> 0 < rows \<and> rows * 16 \<le> fb_height info \<and> cols * 8 \<le> fb_stride info"

lemma render_at:
  assumes "x < fb_stride info"
  shows "render info cols rows fb0 g (at (fb_stride info) y x) =
    (if y < fb_height info then
       if y < rows * 16 \<and> x < cols * 8 then cell_pixel (g (y div 16) (x div 8)) (y mod 16) (x mod 8) else BG_COLOR
     else fb0 (at (fb_stride info) y x))"
proof -
  have "at (fb_stride info) y x div fb_stride info = y" "at (fb_stride info) y x mod fb_stride info = x"
    using assms by (simp_all add: at_def)
  moreover have "at (fb_stride info) y x < fb_stride info * fb_height info \<longleftrightarrow> y < fb_height info"
    using at_less [OF assms, of y "fb_height info"] by (simp add: mult.commute)
  ultimately show ?thesis by (simp add: render_def Let_def)
qed

lemma pixels_eqI:
  assumes "0 < stride" and "\<And>y x. x < stride \<Longrightarrow> f (at stride y x) = g (at stride y x)"
  shows "f = (g :: pixels)"
proof
  fix i
  have "i = at stride (i div stride) (i mod stride)" by (simp add: at_def)
  then show "f i = g i" using assms by (metis mod_less_divisor)
qed

definition put_cell :: "nat \<Rightarrow> nat \<Rightarrow> u8 \<Rightarrow> grid \<Rightarrow> grid" where
  "put_cell r c b g = g(r := (g r)(c := Some b))"

definition shift_rows :: "nat \<Rightarrow> grid \<Rightarrow> grid" where
  "shift_rows rows g = (\<lambda>r c. if r + 1 < rows then g (r + 1) c else None)"

lemma draw_render:
  assumes f: "fits_screen info cols rows" and r: "r < rows" and c: "c < cols"
  shows "draw_glyph info c r b (render info cols rows fb0 g) = render info cols rows fb0 (put_cell r c b g)"
proof (rule pixels_eqI)
  let ?s = "fb_stride info"
  have "(c + 1) * 8 \<le> cols * 8" "(r + 1) * 16 \<le> rows * 16" using r c by (intro mult_le_mono1; simp)+
  then have x0: "c * 8 + 8 \<le> ?s" and y0: "r * 16 + 16 \<le> fb_height info" and x1: "c * 8 + 8 \<le> cols * 8" "r * 16 + 16 \<le> rows * 16"
    using f by (simp_all add: fits_screen_def)
  show "0 < ?s" using x0 by simp
  fix y x assume x: "x < ?s"
  have d: "draw_glyph info c r b fb (at ?s y x) =
      (if r * 16 \<le> y \<and> y < r * 16 + 16 \<and> c * 8 \<le> x \<and> x < c * 8 + 8
       then (if bit (glyph b ! ((y - r * 16) div 2)) (x - c * 8) then FG_COLOR else BG_COLOR) else fb (at ?s y x))" for fb
    using draw_rows [OF x0 x, where n = 8 and ytop = "r * 16" and y = y and fb = fb
        and col = "\<lambda>gy gx. if bit (glyph b ! gy) gx then FG_COLOR else BG_COLOR"]
    by (simp add: draw_glyph_def Let_def cell_consts at_def del: upt_rec_numeral)
  show "draw_glyph info c r b (render info cols rows fb0 g) (at ?s y x) =
      render info cols rows fb0 (put_cell r c b g) (at ?s y x)"
  proof (cases "y div 16 = r \<and> x div 8 = c")
    case True
    then have "r * 16 \<le> y" "y < r * 16 + 16" "c * 8 \<le> x" "x < c * 8 + 8" "y - r * 16 = y mod 16" "x - c * 8 = x mod 8"
      by (auto simp: modulo_nat_def)
    then show ?thesis using True x1 y0 by (simp add: d render_at [OF x] put_cell_def)
  next
    case False
    then have "\<not> (r * 16 \<le> y \<and> y < r * 16 + 16 \<and> c * 8 \<le> x \<and> x < c * 8 + 8)" by auto
    moreover have "put_cell r c b g (y div 16) (x div 8) = g (y div 16) (x div 8)" using False by (auto simp: put_cell_def)
    ultimately show ?thesis by (simp only: d render_at [OF x] if_False)
  qed
qed

lemma scroll_render:
  assumes f: "fits_screen info cols rows"
  shows "scroll info rows (render info cols rows fb0 g) = render info cols rows fb0 (shift_rows rows g)"
proof (rule pixels_eqI)
  let ?s = "fb_stride info"
  have s: "0 < ?s" and h: "rows * 16 \<le> fb_height info" and n: "0 < rows" using f by (auto simp: fits_screen_def)
  show "0 < ?s" by (rule s)
  fix y x assume x: "x < ?s"
  have kept: "usize_sub ((rows * 16) * ?s) (?s * 16) = ((rows - 1) * 16) * ?s" and tot: "?s * 16 * rows = (rows * 16) * ?s"
    using n by (simp_all add: usize_sub_def algebra_simps)
  have le: "at ?s y x < ((rows - 1) * 16) * ?s \<longleftrightarrow> y < (rows - 1) * 16" "at ?s y x < (rows * 16) * ?s \<longleftrightarrow> y < rows * 16"
    by (rule at_less [OF x])+
  have up: "?s * 16 + at ?s y x = at ?s (y + 16) x" by (simp add: at_def algebra_simps)
  have CH: "CELL_HEIGHT = 16" by (simp add: cell_consts)
  have sc: "scroll info rows fb (at ?s y x) =
      (if y < (rows - 1) * 16 then fb (at ?s (y + 16) x) else if y < rows * 16 then BG_COLOR else fb (at ?s y x))" for fb
    unfolding scroll_def Let_def CH fill_pixels_apply set_upt atLeastLessThan_iff tot kept le up not_less [symmetric]
    by auto
  show "scroll info rows (render info cols rows fb0 g) (at ?s y x) = render info cols rows fb0 (shift_rows rows g) (at ?s y x)"
    using h n div_add_self2 [of 16 y] unfolding sc render_at [OF x] by (auto simp: shift_rows_def)
qed

subsection \<open>The text console\<close>

record text_console =
  t_grid :: grid
  t_col :: nat
  t_row :: nat

definition text_blank :: text_console where
  "text_blank = \<lparr>t_grid = (\<lambda>_ _. None), t_col = 0, t_row = 0\<rparr>"

definition text_newline :: "nat \<Rightarrow> text_console \<Rightarrow> text_console" where
  "text_newline rows t =
     (if t_row t + 1 < rows then t\<lparr>t_col := 0, t_row := t_row t + 1\<rparr>
      else t\<lparr>t_col := 0, t_grid := shift_rows rows (t_grid t)\<rparr>)"

definition text_write :: "nat \<Rightarrow> nat \<Rightarrow> u8 \<Rightarrow> text_console \<Rightarrow> text_console" where
  "text_write cols rows b t =
     (if b = 0x0A then text_newline rows t
      else if b = 0x0D then t\<lparr>t_col := 0\<rparr>
      else
        let t = (if t_col t = cols then text_newline rows t else t)
        in t\<lparr>t_grid := put_cell (t_row t) (t_col t) b (t_grid t), t_col := t_col t + 1\<rparr>)"

text \<open>The console displays a text: the cursor agrees and the framebuffer is its rendering.\<close>

definition displays :: "framebuffer_info \<Rightarrow> pixels \<Rightarrow> text_console \<Rightarrow> console \<Rightarrow> bool" where
  "displays info fb0 t s \<longleftrightarrow> con_info s = Some info \<and> con_active s \<and> fits_screen info (con_cols s) (con_rows s)
     \<and> con_col s = t_col t \<and> con_row s = t_row t \<and> t_col t \<le> con_cols s \<and> t_row t < con_rows s
     \<and> con_fb s = render info (con_cols s) (con_rows s) fb0 (t_grid t)"

lemma newline_displays:
  assumes d: "displays info fb0 t s"
  shows "displays info fb0 (text_newline (con_rows s) t) (scroll_if_needed info (s\<lparr>con_col := 0, con_row := con_row s + 1\<rparr>))"
  using d by (auto simp: displays_def text_newline_def scroll_if_needed_def scroll_render usize_sub_def)

lemma no_scroll: "displays info fb0 t s \<Longrightarrow> scroll_if_needed info s = s"
  by (simp add: displays_def scroll_if_needed_def)

lemma write_displays:
  assumes d: "displays info fb0 t s"
  shows "displays info fb0 (text_write (con_cols s) (con_rows s) b t) (console_write_byte b s)"
proof -
  have s: "con_active s" "con_info s = Some info" "con_col s = t_col t" using d by (simp_all add: displays_def)
  consider (nl) "b = 0x0A" | (cr) "b = 0x0D" | (char) "b \<noteq> 0x0A" "b \<noteq> 0x0D" by blast
  then show ?thesis
  proof cases
    case nl
    then show ?thesis using newline_displays [OF d] s by (simp add: console_write_byte_def text_write_def)
  next
    case cr
    have "displays info fb0 (t\<lparr>t_col := 0\<rparr>) (s\<lparr>con_col := 0\<rparr>)" using d by (simp add: displays_def)
    then show ?thesis using cr s no_scroll by (simp add: console_write_byte_def text_write_def)
  next
    case char
    define t1 where "t1 = (if t_col t = con_cols s then text_newline (con_rows s) t else t)"
    define s1 where "s1 = scroll_if_needed info (if con_col s \<ge> con_cols s then s\<lparr>con_col := 0, con_row := con_row s + 1\<rparr> else s)"
    have same: "con_cols s1 = con_cols s" "con_rows s1 = con_rows s" by (simp_all add: s1_def scroll_if_needed_def)
    have d1: "displays info fb0 t1 s1"
      using d newline_displays [OF d] no_scroll [OF d] by (auto simp: t1_def s1_def displays_def)
    have c: "t_col t1 < con_cols s" using d by (auto simp: t1_def text_newline_def displays_def fits_screen_def)
    let ?s2 = "s1\<lparr>con_fb := draw_glyph info (con_col s1) (con_row s1) b (con_fb s1), con_col := con_col s1 + 1\<rparr>"
    have d2: "displays info fb0 (t1\<lparr>t_grid := put_cell (t_row t1) (t_col t1) b (t_grid t1), t_col := t_col t1 + 1\<rparr>) ?s2"
      using d1 c same draw_render by (simp add: displays_def)
    have "console_write_byte b s = scroll_if_needed info ?s2"
      using char s by (simp add: console_write_byte_def Let_def s1_def)
    then have "console_write_byte b s = ?s2" using no_scroll [OF d2] by simp
    then show ?thesis using d2 char by (simp add: text_write_def Let_def t1_def [symmetric])
  qed
qed

lemma write_sizes:
  assumes "displays info fb0 t s"
  shows "con_cols (console_write_byte b s) = con_cols s" "con_rows (console_write_byte b s) = con_rows s"
  using assms by (auto simp: console_write_byte_def scroll_if_needed_def Let_def displays_def)

lemma init_displays:
  assumes "con_info s = Some info" and "fb_format info \<noteq> BltOnly" and "8 \<le> fb_width info" and "16 \<le> fb_height info"
    and "fb_width info \<le> fb_stride info"
  obtains s' where "console_init s = (True, s')" and "displays info (con_fb s) text_blank s'"
    and "con_cols s' = fb_width info div 8" and "con_rows s' = fb_height info div 16"
proof -
  let ?fb = "fill_pixels [0..<fb_stride info * fb_height info] (con_fb s)"
  have fits: "fits_screen info (fb_width info div 8) (fb_height info div 16)"
  proof -
    have "fb_width info div 8 * 8 \<le> fb_width info" "fb_height info div 16 * 16 \<le> fb_height info" by simp_all
    moreover have "0 < fb_width info div 8" "0 < fb_height info div 16" using assms(3,4) by (simp_all add: div_greater_zero_iff)
    ultimately show ?thesis using assms(5) by (simp add: fits_screen_def)
  qed
  have "?fb = render info cols rows (con_fb s) (\<lambda>_ _. None)" for cols rows
    by (rule ext) (simp add: fill_pixels_apply render_def Let_def)
  then have "displays info (con_fb s) text_blank (s\<lparr>con_cols := fb_width info div 8, con_rows := fb_height info div 16,
      con_col := 0, con_row := 0, con_fb := ?fb, con_active := True\<rparr>)"
    using fits assms(1) by (simp add: displays_def text_blank_def fits_screen_def)
  then show thesis using that assms by (simp add: console_init_def cell_consts)
qed

subsection \<open>Properties\<close>

text \<open>C37. The console shows the text written to it: after initialisation on a screen of at least one cell, whatever bytes are
  written, the framebuffer is exactly the rendering of the text grid, with line breaks, wrapping and scrolling,
  and no pixel outside the screen has changed.\<close>
theorem console_displays_text:
  assumes "con_info s = Some info" and "fb_format info \<noteq> BltOnly" and "8 \<le> fb_width info" and "16 \<le> fb_height info"
    and "fb_width info \<le> fb_stride info" and "console_init s = (ok, s0)"
  defines "cols \<equiv> fb_width info div 8" and "rows \<equiv> fb_height info div 16"
  shows "ok \<and> con_fb (fold console_write_byte bs s0) =
      render info cols rows (con_fb s) (t_grid (fold (text_write cols rows) bs text_blank))
    \<and> (\<forall>i. i \<ge> fb_stride info * fb_height info \<longrightarrow> con_fb (fold console_write_byte bs s0) i = con_fb s i)"
proof -
  obtain s' where i: "console_init s = (True, s')" "displays info (con_fb s) text_blank s'" "con_cols s' = cols" "con_rows s' = rows"
    using init_displays [OF assms(1-5)] unfolding cols_def rows_def by blast
  have "displays info (con_fb s) (fold (text_write cols rows) bs t) (fold console_write_byte bs x)
      \<and> con_cols (fold console_write_byte bs x) = cols \<and> con_rows (fold console_write_byte bs x) = rows"
    if "displays info (con_fb s) t x" "con_cols x = cols" "con_rows x = rows" for t x
    using that
  proof (induction bs arbitrary: t x)
    case (Cons b bs)
    then show ?case using write_displays [OF Cons.prems(1), of b] write_sizes [OF Cons.prems(1), of b] by simp
  qed simp
  from this [OF i(2-4)] have fb: "con_fb (fold console_write_byte bs s') =
      render info cols rows (con_fb s) (t_grid (fold (text_write cols rows) bs text_blank))"
    by (simp add: displays_def)
  then show ?thesis using i(1) assms(6) by (simp add: render_def)
qed

text \<open>On a screen less than one cell high the number of rows is zero, and the first line feed moves almost the whole
  address space.\<close>

lemma scroll_without_rows:
  assumes "0 < fb_stride info" and "fb_stride info * 16 < 2 ^ 64" and "i < 2 ^ 64 - fb_stride info * 16"
  shows "scroll info 0 fb i = fb (fb_stride info * 16 + i)"
  using assms by (simp add: scroll_def Let_def usize_sub_def fill_pixels_apply cell_consts)

subsection \<open>Concrete instances\<close>

definition small_info :: framebuffer_info where
  "small_info = \<lparr>fb_phys_base = 0x80000000, fb_size_bytes = 2048, fb_width = 16, fb_height = 32, fb_stride = 16, fb_format = Rgb\<rparr>"

definition small_screen :: console where
  "small_screen = \<lparr>con_info = Some small_info, con_cols = 0, con_rows = 0, con_col = 0, con_row = 0, con_active = False,
     con_fb = (\<lambda>_. 1)\<rparr>"

theorem console_displays_text_witness:
  "\<exists>s0. console_init small_screen = (True, s0)
     \<and> con_fb (fold console_write_byte [0x41, 0x0A, 0x42] s0) =
         render small_info 2 2 (\<lambda>_. 1) (t_grid (fold (text_write 2 2) [0x41, 0x0A, 0x42] text_blank))"
proof -
  obtain ok s0 where i: "console_init small_screen = (ok, s0)" by (cases "console_init small_screen")
  have r: "ok \<and> con_fb (fold console_write_byte bs s0) = render small_info 2 2 (\<lambda>_. 1) (t_grid (fold (text_write 2 2) bs text_blank))" for bs
    using console_displays_text [of small_screen small_info ok s0 bs] i by (simp add: small_screen_def small_info_def)
  have "ok = True" using r by blast
  then show ?thesis using i r [of "[0x41, 0x0A, 0x42]"] by blast
qed

end
