(* ===== verification/Address_Space.thy ===== *)
theory Address_Space
  imports Vmm_Boot
begin

text \<open>
  Process address spaces (\<^verbatim>\<open>src/src/address_space.rs\<close>): creating a root table that shares the kernel
  slots, activating it, mapping and unmapping in the private slots, and the teardown that gives back
  every private page table.

  The state adds the two counters \<^verbatim>\<open>NEXT_ASID\<close> and \<^verbatim>\<open>CURRENT_ASID\<close> to the memory manager; CR3 is part of
  the manager's state.  \<^verbatim>\<open>Drop\<close> calls \<^verbatim>\<open>destroy\<close>.
\<close>

datatype address_space_error =
  RootPageAllocationFailed | MappingFailed map_error | UnmappingFailed unmap_error | InvalidVirtualAddress

record address_space =
  as_id :: u64
  root_page :: phys_page
  owns_root :: bool

record as_state =
  as_vmm :: vmm
  next_asid :: u64
  current_asid :: u64

definition as_bootstrap :: "as_state \<Rightarrow> address_space" where
  "as_bootstrap s = \<lparr>as_id = 0, root_page = root_pml4_phys (as_vmm s), owns_root = False\<rparr>"

definition copy_kernel_slots :: "u64 \<Rightarrow> u64 \<Rightarrow> phys_mem \<Rightarrow> phys_mem" where
  "copy_kernel_slots root kernel_root m =
     fold (\<lambda>i m. write_entry m root i (m kernel_root i)) (0 # kernel_slots) m"

definition as_new :: "as_state \<Rightarrow> (address_space_error + address_space) \<times> as_state" where
  "as_new s =
     (case allocate_physical_page (vmm_pmm (as_vmm s)) of
        (None, p) \<Rightarrow> (Inl RootPageAllocationFailed, s\<lparr>as_vmm := (as_vmm s)\<lparr>vmm_pmm := p\<rparr>\<rparr>)
      | (Some root, p) \<Rightarrow>
          let v = as_vmm s;
              m1 = (vmm_mem v)(root := zero_table);
              m2 = copy_kernel_slots root (root_pml4_phys v) m1
          in (Inr \<lparr>as_id = next_asid s, root_page = root, owns_root = True\<rparr>,
              s\<lparr>as_vmm := v\<lparr>vmm_pmm := p, vmm_mem := m2\<rparr>, next_asid := next_asid s + 1\<rparr>))"

definition as_activate :: "address_space \<Rightarrow> as_state \<Rightarrow> as_state" where
  "as_activate a s =
     (if root_page a = 0 then s
      else
        let s1 = (if cr3 (as_vmm s) \<noteq> root_page a
                  then s\<lparr>as_vmm := (as_vmm s)\<lparr>cr3 := root_page a\<rparr>\<rparr> else s)
        in s1\<lparr>current_asid := as_id a\<rparr>)"

definition is_private_addr :: "virt_addr \<Rightarrow> bool" where
  "is_private_addr va \<longleftrightarrow> (let slot = unat (pml4_index va) in slot \<noteq> 0 \<and> slot < KERNEL_PML4_START)"

definition as_map_page ::
    "address_space \<Rightarrow> virt_addr \<Rightarrow> phys_page \<Rightarrow> page_flags \<Rightarrow> as_state
      \<Rightarrow> (address_space_error + unit) \<times> as_state" where
  "as_map_page a va pa flags s =
     (if \<not> is_private_addr va then (Inl InvalidVirtualAddress, s)
      else case map_page (root_page a) va pa flags (as_vmm s) of
        (Inl e, v) \<Rightarrow> (Inl (MappingFailed e), s\<lparr>as_vmm := v\<rparr>)
      | (Inr _, v) \<Rightarrow> (Inr (), s\<lparr>as_vmm := v\<rparr>))"

definition as_unmap_page ::
    "address_space \<Rightarrow> virt_addr \<Rightarrow> as_state \<Rightarrow> (address_space_error + phys_page) \<times> as_state" where
  "as_unmap_page a va s =
     (if \<not> is_private_addr va then (Inl InvalidVirtualAddress, s)
      else case unmap_page (root_page a) va (as_vmm s) of
        (Inl e, v) \<Rightarrow> (Inl (UnmappingFailed e), s\<lparr>as_vmm := v\<rparr>)
      | (Inr p, v) \<Rightarrow> (Inr p, s\<lparr>as_vmm := v\<rparr>))"

definition as_translate :: "address_space \<Rightarrow> virt_addr \<Rightarrow> as_state \<Rightarrow> (phys_page \<times> page_flags) option" where
  "as_translate a va s = translate (root_page a) va (as_vmm s)"

subsection \<open>Teardown\<close>

definition is_table :: "pte \<Rightarrow> bool" where
  "is_table e \<longleftrightarrow> is_present e \<and> \<not> is_huge e"

definition free_frame :: "phys_page \<Rightarrow> vmm \<Rightarrow> vmm" where
  "free_frame f s = s\<lparr>vmm_pmm := snd (free_physical_page f (vmm_pmm s))\<rparr>"

definition table_entries :: "vmm \<Rightarrow> u64 \<Rightarrow> pte list" where
  "table_entries s t = map (vmm_mem s t) all_indices"

definition free_pd_entry :: "pte \<Rightarrow> nat \<times> nat \<times> vmm \<Rightarrow> nat \<times> nat \<times> vmm" where
  "free_pd_entry pd_e st =
     (case st of (freed, leaves, s) \<Rightarrow>
        if \<not> is_table pd_e then (freed, leaves + (if is_present pd_e then 1 else 0), s)
        else (freed + 1, leaves + length (filter is_present (table_entries s (pte_phys_addr pd_e))),
              free_frame (pte_phys_addr pd_e) s))"

definition free_pdpt_entry :: "pte \<Rightarrow> nat \<times> nat \<times> vmm \<Rightarrow> nat \<times> nat \<times> vmm" where
  "free_pdpt_entry pdpt_e st =
     (case st of (freed, leaves, s) \<Rightarrow>
        if \<not> is_table pdpt_e then (freed, leaves + (if is_present pdpt_e then 1 else 0), s)
        else
          case fold free_pd_entry (table_entries s (pte_phys_addr pdpt_e)) (freed, leaves, s) of
            (freed, leaves, s) \<Rightarrow> (freed + 1, leaves, free_frame (pte_phys_addr pdpt_e) s))"

definition free_pml4_slot :: "u64 \<Rightarrow> pt_index \<Rightarrow> nat \<times> nat \<times> vmm \<Rightarrow> nat \<times> nat \<times> vmm" where
  "free_pml4_slot root i st =
     (case st of (freed, leaves, s) \<Rightarrow>
        let pml4_e = vmm_mem s root i in
        if \<not> is_present pml4_e then (freed, leaves, s)
        else
          case fold free_pdpt_entry (table_entries s (pte_phys_addr pml4_e)) (freed, leaves, s) of
            (freed, leaves, s) \<Rightarrow>
              let s = free_frame (pte_phys_addr pml4_e) s
              in (freed + 1, leaves, s\<lparr>vmm_mem := write_entry (vmm_mem s) root i 0\<rparr>))"

definition private_slots :: "pt_index list" where
  "private_slots = map of_nat [1..<KERNEL_PML4_START]"

definition free_private_tables :: "u64 \<Rightarrow> vmm \<Rightarrow> (nat \<times> nat) \<times> vmm" where
  "free_private_tables root s =
     (case fold (free_pml4_slot root) private_slots (0, 0, s) of (freed, leaves, s) \<Rightarrow> ((freed, leaves), s))"

definition as_destroy :: "address_space \<Rightarrow> as_state \<Rightarrow> address_space \<times> as_state" where
  "as_destroy a s =
     (if \<not> owns_root a \<or> root_page a = 0 then (a, s)
      else
        let current_cr3 = cr3 (as_vmm s) AND NOT 0xFFF;
            s1 = (if current_cr3 = root_page a then as_activate (as_bootstrap s) s else s);
            v = snd (free_private_tables (root_page a) (as_vmm s1));
            s2 = s1\<lparr>as_vmm := free_frame (root_page a) v\<rparr>
        in (a\<lparr>root_page := 0, owns_root := False\<rparr>, s2))"

end
