(* ===== verification/Context.thy ===== *)
theory Context
  imports Machine Address_Space
begin

text \<open>
  Execution contexts (\<^verbatim>\<open>src/src/context.rs\<close>): kernel stacks, the saved context of a thread of
  control, the initial frame that \<^verbatim>\<open>create_context_raw\<close> builds on a fresh stack, and the two naked
  functions \<^verbatim>\<open>initial_context_entry\<close> and \<^verbatim>\<open>switch_context\<close> as instruction lists of the machine.

  The kernel state collects what the rest of the kernel shares: the address spaces, the counters that
  hand out identities, the bytes of kernel memory, and the two code addresses that the linker decides.
\<close>

definition STACK_SIZE_BYTES :: u64 where
  "STACK_SIZE_BYTES = PAGE_SIZE * 4"

datatype context_state =
  Uninitialized | Initialized | CtxReady | CtxRunning | Suspended | CtxTerminated

fun context_state_code :: "context_state \<Rightarrow> u8" where
  "context_state_code Uninitialized = 0"
| "context_state_code Initialized = 1"
| "context_state_code CtxReady = 2"
| "context_state_code CtxRunning = 3"
| "context_state_code Suspended = 4"
| "context_state_code CtxTerminated = 5"

fun context_state_name :: "context_state \<Rightarrow> string" where
  "context_state_name Uninitialized = ''UNINITIALIZED''"
| "context_state_name Initialized = ''INITIALIZED''"
| "context_state_name CtxReady = ''READY''"
| "context_state_name CtxRunning = ''RUNNING''"
| "context_state_name Suspended = ''SUSPENDED''"
| "context_state_name CtxTerminated = ''TERMINATED''"

datatype context_error = InvalidEntryPoint | InvalidStackPointer | StackAllocationFailed

record kernel_stack =
  stack_region :: virt_region

record execution_context =
  ctx_rsp :: u64
  ctx_r15 :: u64
  ctx_r14 :: u64
  ctx_r13 :: u64
  ctx_r12 :: u64
  ctx_rbx :: u64
  ctx_rbp :: u64
  ctx_rip :: u64
  ctx_rflags :: u64
  ctx_state :: context_state
  ctx_id :: u64

record kernel =
  k_as :: as_state
  k_bytes :: bytes
  next_context_id :: u64
  next_thread_id :: u64
  next_pid :: u64
  initial_context_entry :: u64

definition lift_vmm :: "(vmm \<Rightarrow> 'r \<times> vmm) \<Rightarrow> kernel \<Rightarrow> 'r \<times> kernel" where
  "lift_vmm f s = (case f (as_vmm (k_as s)) of (r, v) \<Rightarrow> (r, s\<lparr>k_as := (k_as s)\<lparr>as_vmm := v\<rparr>\<rparr>))"

subsection \<open>Kernel stacks\<close>

definition kernel_stack_allocate :: "kernel \<Rightarrow> (vmm_error + kernel_stack) \<times> kernel" where
  "kernel_stack_allocate s =
     and_then (lift_vmm (allocate_and_map_region STACK_SIZE_BYTES PERM_KERNEL_DATA DynamicKernel) s)
       (\<lambda>region s. (Inr \<lparr>stack_region = region\<rparr>, s))"

definition stack_top :: "kernel_stack \<Rightarrow> u64" where
  "stack_top k = vr_end (stack_region k)"

definition stack_bottom :: "kernel_stack \<Rightarrow> u64" where
  "stack_bottom k = vr_start (stack_region k)"

subsection \<open>Fresh contexts\<close>

definition empty_context :: execution_context where
  "empty_context = \<lparr>ctx_rsp = 0, ctx_r15 = 0, ctx_r14 = 0, ctx_r13 = 0, ctx_r12 = 0, ctx_rbx = 0, ctx_rbp = 0,
     ctx_rip = 0, ctx_rflags = 0x202, ctx_state = Uninitialized, ctx_id = 0\<rparr>"

fun store_words :: "bytes \<Rightarrow> u64 \<Rightarrow> u64 list \<Rightarrow> bytes" where
  "store_words m p [] = m"
| "store_words m p (w # ws) = store_words (store64 m p w) (p + 8) ws"

definition create_context_raw :: "u64 \<Rightarrow> kernel_stack \<Rightarrow> kernel \<Rightarrow> (context_error + execution_context) \<times> kernel" where
  "create_context_raw entry_addr stack s =
     (if entry_addr = 0 \<or> \<not> is_canonical entry_addr then (Inl InvalidEntryPoint, s)
      else if stack_top stack = 0 \<or> \<not> is_canonical (stack_top stack) then (Inl InvalidStackPointer, s)
      else
        let id = next_context_id s;
            initial_sp = (stack_top stack AND NOT 0xF) - 80;
            m = store_words (k_bytes s) initial_sp
                  [0, 0, 0, 0, id, entry_addr, 0, 0, 0x202, initial_context_entry s]
        in (Inr \<lparr>ctx_rsp = initial_sp, ctx_r15 = 0, ctx_r14 = 0, ctx_r13 = id, ctx_r12 = entry_addr,
                 ctx_rbx = 0, ctx_rbp = 0, ctx_rip = initial_context_entry s, ctx_rflags = 0x202,
                 ctx_state = Initialized, ctx_id = id\<rparr>,
            s\<lparr>k_bytes := m, next_context_id := id + 1\<rparr>))"

subsection \<open>The naked functions\<close>

definition initial_context_entry_code :: "u64 \<Rightarrow> u64 \<Rightarrow> instr list" where
  "initial_context_entry_code trampoline after =
     [MovReg RCX R12, MovReg RDX R13, SubImm RSP 32, Call trampoline after]"

definition save_code :: "instr list" where
  "save_code =
     [MovLoad RAX RSP 0, MovStore RCX 56 RAX,
      Pushfq, Push RBX, Push RBP, Push R12, Push R13, Push R14, Push R15, Push RDI, Push RSI,
      MovStore RCX 0 RSP, MovByte RCX 72 4, MovByte RDX 72 3]"

definition restore_code :: "instr list" where
  "restore_code =
     [MovLoad RSP RDX 0, Pop RSI, Pop RDI, Pop R15, Pop R14, Pop R13, Pop R12, Pop RBP, Pop RBX,
      Popfq, Ret]"

definition switch_context :: "cpu \<Rightarrow> cpu" where
  "switch_context c = exec (save_code @ restore_code) c"

text \<open>What a switch does to the two context structures: the saved stack pointer is below the nine words
  pushed, the resume address is the caller's return address.\<close>

definition suspend_context :: "u64 \<Rightarrow> u64 \<Rightarrow> execution_context \<Rightarrow> execution_context" where
  "suspend_context ret sp x = x\<lparr>ctx_rip := ret, ctx_rsp := sp - 72, ctx_state := Suspended\<rparr>"

definition resume_context :: "execution_context \<Rightarrow> execution_context" where
  "resume_context x = x\<lparr>ctx_state := CtxRunning\<rparr>"

text \<open>The \<^verbatim>\<open>#[repr(C)]\<close> layout of \<^verbatim>\<open>ExecutionContext\<close> at an address.\<close>

definition ctx_at :: "bytes \<Rightarrow> u64 \<Rightarrow> execution_context \<Rightarrow> bool" where
  "ctx_at m p x \<longleftrightarrow> load64 m p = ctx_rsp x \<and> load64 m (p + 8) = ctx_r15 x \<and> load64 m (p + 16) = ctx_r14 x
     \<and> load64 m (p + 24) = ctx_r13 x \<and> load64 m (p + 32) = ctx_r12 x \<and> load64 m (p + 40) = ctx_rbx x
     \<and> load64 m (p + 48) = ctx_rbp x \<and> load64 m (p + 56) = ctx_rip x \<and> load64 m (p + 64) = ctx_rflags x
     \<and> m (p + 72) = context_state_code (ctx_state x) \<and> load64 m (p + 80) = ctx_id x"

end
