(* ===== verification/Context_Switch.thy ===== *)
theory Context_Switch
  imports Context
begin

text \<open>
  What the context switch does: every callee-saved register, the flags, the stack pointer and the
  resume address survive a suspension, and a fresh context starts in the entry stub with its entry point
  and identity in place.
\<close>

subsection \<open>Saving and restoring\<close>

lemma restore_effect:
  fixes c :: cpu
  defines "f \<equiv> load64 (cpu_mem c) (regs c RDX)"
  shows "exec restore_code c = c\<lparr>regs := (regs c)(RSP := f + 80, RSI := load64 (cpu_mem c) f,
      RDI := load64 (cpu_mem c) (f + 8), R15 := load64 (cpu_mem c) (f + 16), R14 := load64 (cpu_mem c) (f + 24),
      R13 := load64 (cpu_mem c) (f + 32), R12 := load64 (cpu_mem c) (f + 40), RBP := load64 (cpu_mem c) (f + 48),
      RBX := load64 (cpu_mem c) (f + 56)), cpu_rflags := load64 (cpu_mem c) (f + 64),
      cpu_rip := load64 (cpu_mem c) (f + 72)\<rparr>"
  by (auto simp: restore_code_def machine_simps f_def add.assoc intro!: cpu.equality)

lemma save_regs:
  "regs (exec save_code c) = (regs c)(RAX := load64 (cpu_mem c) (regs c RSP), RSP := regs c RSP - 72)"
  "cpu_rflags (exec save_code c) = cpu_rflags c" "cpu_cs (exec save_code c) = cpu_cs c" "cpu_ss (exec save_code c) = cpu_ss c"
  by (auto simp: save_code_def machine_simps)

text \<open>The ten words that describe a suspended processor state.\<close>

definition saved_frame :: "bytes \<Rightarrow> u64 \<Rightarrow> cpu \<Rightarrow> bool" where
  "saved_frame m f c \<longleftrightarrow> load64 m f = regs c RSI \<and> load64 m (f + 8) = regs c RDI \<and> load64 m (f + 16) = regs c R15
     \<and> load64 m (f + 24) = regs c R14 \<and> load64 m (f + 32) = regs c R13 \<and> load64 m (f + 40) = regs c R12
     \<and> load64 m (f + 48) = regs c RBP \<and> load64 m (f + 56) = regs c RBX \<and> load64 m (f + 64) = cpu_rflags c
     \<and> load64 m (f + 72) = top_word c"

lemma saved_frame_cong:
  assumes "\<And>x. x \<in> span f 80 \<Longrightarrow> m x = m' x"
  shows "saved_frame m f c \<longleftrightarrow> saved_frame m' f c"
proof -
  have a: "load64 m (f + of_nat i) = load64 m' (f + of_nat i)" if "i \<le> 72" for i
    by (rule load64_agree [where n = 80]) (use assms that in simp_all)
  show ?thesis
    using a [of 0] a [of 8] a [of 16] a [of 24] a [of 32] a [of 40] a [of 48] a [of 56] a [of 64] a [of 72]
    by (simp add: saved_frame_def)
qed

text \<open>The bytes a suspension may write outside the stack: the saved stack pointer and resume address of the
  suspended context and the state bytes of both.\<close>

definition touched :: "u64 \<Rightarrow> u64 \<Rightarrow> u64 set" where
  "touched prev nxt = span prev 8 \<union> span (prev + 56) 8 \<union> {prev + 72, nxt + 72}"

lemma save_memory:
  fixes c :: cpu
  defines "f \<equiv> regs c RSP - 72" and "p \<equiv> regs c RCX"
  shows "cpu_mem (exec save_code c) = (store64 (store64 (store64 (store64 (store64 (store64 (store64 (store64 (store64
    (store64 (store64 (cpu_mem c) (p + 56) (top_word c)) (f + 64) (cpu_rflags c)) (f + 56) (regs c RBX))
    (f + 48) (regs c RBP)) (f + 40) (regs c R12)) (f + 32) (regs c R13)) (f + 24) (regs c R14)) (f + 16) (regs c R15))
    (f + 8) (regs c RDI)) f (regs c RSI)) p f)(p + 72 := 4, regs c RDX + 72 := 3)"
  by (simp add: f_def p_def save_code_def machine_simps)

lemma save_untouched:
  assumes "x \<notin> span (regs c RSP - 72) 72" and "x \<notin> touched (regs c RCX) (regs c RDX)"
  shows "cpu_mem (exec save_code c) x = cpu_mem c x"
proof -
  let ?f = "regs c RSP - 72"
  have o: "x \<notin> span (?f + of_nat i) 8" if "i \<le> 64" for i
    using span_sub [of x ?f i 8 72] that assms(1) by auto
  show ?thesis
    using o [of 0] o [of 8] o [of 16] o [of 24] o [of 32] o [of 40] o [of 48] o [of 56] o [of 64] assms(2)
    unfolding save_memory touched_def by (simp add: store64_other)
qed

lemma save_frame:
  assumes dis: "span (regs c RSP - 72) 80 \<inter> touched (regs c RCX) (regs c RDX) = {}"
  shows "saved_frame (cpu_mem (exec save_code c)) (regs c RSP - 72) c"
proof -
  let ?f = "regs c RSP - 72" and ?p = "regs c RCX" and ?n = "regs c RDX"
  have out: "x \<notin> span ?p 8" "x \<notin> span (?p + 56) 8" "x \<noteq> ?p + 72" "x \<noteq> ?n + 72" if "x \<in> span ?f 80" for x
    using that dis unfolding touched_def by blast+
  define m1 where "m1 = store64 (cpu_mem c) (?p + 56) (top_word c)"
  define m2 where "m2 = store64 (store64 (store64 (store64 (store64 (store64 (store64 (store64 (store64 m1
    (?f + 64) (cpu_rflags c)) (?f + 56) (regs c RBX)) (?f + 48) (regs c RBP)) (?f + 40) (regs c R12))
    (?f + 32) (regs c R13)) (?f + 24) (regs c R14)) (?f + 16) (regs c R15)) (?f + 8) (regs c RDI)) ?f (regs c RSI)"
  have top: "load64 m1 (regs c RSP) = top_word c"
    using load64_agree [of ?f 80 m1 "cpu_mem c" 72] out by (simp add: top_word_def m1_def store64_other)
  have "cpu_mem (exec save_code c) x = m2 x" if "x \<in> span ?f 80" for x
    using out [OF that] by (simp add: save_memory m2_def m1_def store64_other)
  moreover have "saved_frame m2 ?f c" by (simp add: saved_frame_def m2_def words_disjoint top)
  ultimately show ?thesis using saved_frame_cong by blast
qed

lemma save_pointer:
  assumes "regs c RDX + 72 \<notin> span (regs c RCX) 8"
  shows "load64 (cpu_mem (exec save_code c)) (regs c RCX) = regs c RSP - 72"
  using assms mem_span_numeral [of _ 1] unfolding save_memory by (simp add: span_def)

lemma switch_restores:
  assumes "load64 (cpu_mem (exec save_code c)) (regs c RDX) = f" and "saved_frame (cpu_mem (exec save_code c)) f c0"
  shows "switch_context c = c\<lparr>regs := (regs c)(RAX := top_word c, RSP := f + 80, RSI := regs c0 RSI, RDI := regs c0 RDI,
      R15 := regs c0 R15, R14 := regs c0 R14, R13 := regs c0 R13, R12 := regs c0 R12, RBP := regs c0 RBP, RBX := regs c0 RBX),
      cpu_rflags := cpu_rflags c0, cpu_rip := top_word c0, cpu_mem := cpu_mem (exec save_code c)\<rparr>"
  using assms unfolding switch_context_def exec_append restore_effect
  by (auto simp: save_regs saved_frame_def top_word_def intro!: cpu.equality)

lemma switch_memory: "cpu_mem (switch_context c) = cpu_mem (exec save_code c)"
  by (simp add: switch_context_def restore_effect)

lemma store_words_other: "x \<notin> span p (8 * length ws) \<Longrightarrow> 8 * length ws \<le> 2 ^ 64 \<Longrightarrow> store_words m p ws x = m x"
proof (induction ws arbitrary: m p)
  case (Cons w ws)
  have "x \<notin> span p 8" using Cons.prems span_sub [of x p 0 8 "8 * length (w # ws)"] by auto
  moreover have "x \<notin> span (p + 8) (8 * length ws)"
    using Cons.prems span_sub [of x p 8 "8 * length ws" "8 * length (w # ws)"] by auto
  ultimately show ?case using Cons.IH [of "p + 8" "store64 m p w"] Cons.prems(2) by (simp add: store64_other)
qed simp

lemma load_store_words:
  assumes "k < length ws" and "8 * length ws \<le> 2 ^ 64"
  shows "load64 (store_words m p ws) (p + of_nat (8 * k)) = ws ! k"
  using assms
proof (induction ws arbitrary: m p k)
  case (Cons w ws)
  show ?case
  proof (cases k)
    case 0
    have "load64 (store_words (store64 m p w) (p + 8) ws) p = load64 (store64 m p w) p"
      using Cons.prems(2) mem_span_offset [of 8 "8 * length ws" _ p]
      by (intro load64_cong store_words_other) (auto simp: span_def)
    then show ?thesis by (simp add: 0)
  next
    case (Suc j)
    then show ?thesis using Cons.IH [of j "store64 m p w" "p + 8"] Cons.prems by (simp add: add.assoc)
  qed
qed simp

lemma ctx_at_cong:
  assumes "\<And>x. x \<in> span p 88 \<Longrightarrow> m x = m' x"
  shows "ctx_at m p y \<longleftrightarrow> ctx_at m' p y"
proof -
  have a: "load64 m (p + of_nat i) = load64 m' (p + of_nat i)" if "i \<le> 80" for i
    by (rule load64_agree [where n = 88]) (use assms that in simp_all)
  have "p + 72 \<in> span p 88" by (simp add: span_def)
  then show ?thesis
    using a [of 0] a [of 8] a [of 16] a [of 24] a [of 32] a [of 40] a [of 48] a [of 56] a [of 64] a [of 80] assms
    by (simp add: ctx_at_def)
qed

text \<open>Writing the three fields of a structure that a switch updates.\<close>

lemma byte_not_in_word: "8 \<le> unat (b - a) \<Longrightarrow> b \<notin> span a 8"
  by (simp add: span_def)

lemma ctx_at_suspend:
  assumes "ctx_at m p y"
  shows "ctx_at ((store64 (store64 m (p + 56) ret) p (sp - 72))(p + 72 := 4)) p (suspend_context ret sp y)"
  using assms by (simp add: ctx_at_def suspend_context_def words_disjoint byte_not_in_word)

lemma ctx_at_resume:
  assumes "ctx_at m p y"
  shows "ctx_at (m(p + 72 := 3)) p (resume_context y)"
  using assms by (simp add: ctx_at_def resume_context_def byte_not_in_word)

lemma trampoline_alignment: "((t AND NOT 0xF) - 40) mod 16 = (8 :: u64)"
proof -
  define a where "a = t AND NOT (mask 4)"
  have "take_bit 4 a = 0" 
    by (rule bit_word_eqI) (auto simp: a_def bit_take_bit_iff bit_and_iff bit_not_iff bit_mask_iff)
  then have "unat a mod 16 = 0" using unsigned_take_bit_eq [of 4 a, where ?'a = nat] by (simp add: take_bit_eq_mod)
  then have "(unat a + (2 ^ 64 - 40)) mod 16 = 8" by (simp add: mod_add_eq [symmetric])
  then have "(unat a + (2 ^ 64 - 40)) mod 2 ^ 64 mod 16 = 8" by (subst mod_mod_cancel) simp_all
  moreover have "unat (a - 40) = (unat a + (2 ^ 64 - 40)) mod 2 ^ 64"
    using unat_word_ariths(1) [of a "- 40"] by simp
  ultimately have "unat ((a - 40) mod 16) = unat (8 :: u64)" by (simp add: unat_mod)
  then have "(a - 40) mod 16 = 8" by (simp only: word_unat_eq_iff)
  moreover have "a = t AND NOT 0xF" by (simp add: a_def mask_eq_exp_minus_1)
  ultimately show ?thesis by simp
qed

subsection \<open>Properties\<close>

text \<open>C9. A suspended context resumes where it stopped: if the frame and the saved stack pointer of a context are left
  alone while others run, then the switch back to it restores every callee-saved register, the flags and the
  stack pointer, and continues at the caller's return address.\<close>
theorem switch_context_resumes:
  fixes c c2 :: cpu
  defines "frame \<equiv> span (regs c RSP - 72) 80" and "ptr \<equiv> span (regs c RCX) 8"
  assumes "frame \<inter> touched (regs c RCX) (regs c RDX) = {}" and "regs c RDX + 72 \<notin> ptr"
    and "regs c2 RDX = regs c RCX" and "\<And>x. x \<in> frame \<union> ptr \<Longrightarrow> cpu_mem c2 x = cpu_mem (switch_context c) x"
    and "(frame \<union> ptr) \<inter> (span (regs c2 RSP - 72) 72 \<union> touched (regs c2 RCX) (regs c2 RDX)) = {}"
  shows "(\<forall>r \<in> {RBX, RBP, RSI, RDI, R12, R13, R14, R15}. regs (switch_context c2) r = regs c r)
    \<and> regs (switch_context c2) RSP = regs c RSP + 8 \<and> cpu_rflags (switch_context c2) = cpu_rflags c
    \<and> cpu_rip (switch_context c2) = top_word c"
proof -
  have same: "cpu_mem (exec save_code c2) x = cpu_mem (exec save_code c) x" if "x \<in> frame \<union> ptr" for x
    using save_untouched [of x c2] assms(6) [OF that] that assms(7) by (auto simp: switch_memory)
  have "load64 (cpu_mem (exec save_code c2)) (regs c2 RDX) = regs c RSP - 72"
    using save_pointer [OF assms(4) [unfolded ptr_def]] load64_cong [of "regs c RCX" "cpu_mem (exec save_code c2)" "cpu_mem (exec save_code c)"]
      same assms(5) by (simp add: ptr_def)
  moreover have "saved_frame (cpu_mem (exec save_code c2)) (regs c RSP - 72) c"
    using save_frame [OF assms(3) [unfolded frame_def]] saved_frame_cong [of "regs c RSP - 72" "cpu_mem (exec save_code c2)"]
      same by (simp add: frame_def)
  ultimately show ?thesis by (simp add: switch_restores)
qed

text \<open>On the two context structures in memory, a switch does exactly what the structures' contract says: the
  suspended one records the resume address, the stack pointer below its frame and the state Suspended, the
  resumed one becomes Running.\<close>
theorem switch_context_updates_structures:
  fixes c :: cpu
  defines "p \<equiv> regs c RCX" and "n \<equiv> regs c RDX"
  assumes "ctx_at (cpu_mem c) p prev" and "ctx_at (cpu_mem c) n nxt" and "span p 88 \<inter> span n 88 = {}"
    and "(span p 88 \<union> span n 88) \<inter> span (regs c RSP - 72) 72 = {}"
  shows "ctx_at (cpu_mem (switch_context c)) p (suspend_context (top_word c) (regs c RSP) prev)
    \<and> ctx_at (cpu_mem (switch_context c)) n (resume_context nxt)"
proof -
  let ?f = "regs c RSP - 72" and ?m = "cpu_mem (switch_context c)"
  have out: "x \<notin> span (?f + of_nat i) 8" if "i \<le> 64" "x \<in> span p 88 \<union> span n 88" for i x
    using span_sub [of x ?f i 8 72] that assms(6) by auto
  have n72: "n + 72 \<in> span n 88" and pw: "span p 8 \<subseteq> span p 88" "span (p + 56) 8 \<subseteq> span p 88" "p + 72 \<in> span p 88"
    using span_sub [of _ p 0 8 88] span_sub [of _ p 56 8 88] by (auto simp: span_def)
  have P: "?m x = ((store64 (store64 (cpu_mem c) (p + 56) (top_word c)) p ?f)(p + 72 := 4)) x" if x: "x \<in> span p 88" for x
    using x n72 assms(5) out [of 0 x] out [of 8 x] out [of 16 x] out [of 24 x] out [of 32 x] out [of 40 x] out [of 48 x] out [of 56 x] out [of 64 x]
    unfolding switch_memory save_memory p_def [symmetric] n_def [symmetric]
    by (auto simp: store64_def span_def)
  have N: "?m x = ((cpu_mem c)(n + 72 := 3)) x" if x: "x \<in> span n 88" for x
  proof (cases "x = n + 72")
    case True
    then show ?thesis unfolding switch_memory save_memory n_def by simp
  next
    case False
    then have "x \<notin> touched p n" using x pw assms(5) by (auto simp: touched_def)
    moreover have "x \<notin> span ?f 72" using x assms(6) by blast
    ultimately show ?thesis using False save_untouched [of x c] by (simp add: switch_memory p_def n_def)
  qed
  show ?thesis
    using ctx_at_suspend [OF assms(3)] ctx_at_resume [OF assms(4)] ctx_at_cong [of p ?m] ctx_at_cong [of n ?m] P N by blast
qed

text \<open>C26. A context made by \<^verbatim>\<open>create_context_raw\<close> starts as intended: the first switch to it arrives at the entry stub
  with the whole stack free, interrupts enabled and the entry point and identity in r12 and r13; the stub
  passes them to the trampoline as its two arguments, with the stack aligned as the calling convention
  demands.\<close>
theorem fresh_context_starts:
  fixes c :: cpu
  assumes "create_context_raw entry stack s = (Inr x, s')"
    and "load64 (cpu_mem c) (regs c RDX) = ctx_rsp x"
    and "\<And>a. a \<in> span (ctx_rsp x) 80 \<Longrightarrow> cpu_mem c a = k_bytes s' a"
    and "(span (ctx_rsp x) 80 \<union> span (regs c RDX) 8) \<inter> (span (regs c RSP - 72) 72 \<union> touched (regs c RCX) (regs c RDX)) = {}"
  shows "cpu_rip (switch_context c) = initial_context_entry s \<and> cpu_rflags (switch_context c) = 0x202
    \<and> regs (switch_context c) RSP = stack_top stack AND NOT 0xF
    \<and> regs (switch_context c) R12 = entry \<and> regs (switch_context c) R13 = ctx_id x
    \<and> (\<forall>r \<in> {RBX, RBP, RSI, RDI, R14, R15}. regs (switch_context c) r = 0)
    \<and> (let c' = exec (initial_context_entry_code trampoline after) (switch_context c) in
         cpu_rip c' = trampoline \<and> regs c' RCX = entry \<and> regs c' RDX = ctx_id x \<and> regs c' RSP mod 16 = 8)"
proof -
  let ?f = "ctx_rsp x" and ?m = "cpu_mem (exec save_code c)"
  define ws where "ws = [0, 0, 0, 0, next_context_id s, entry, 0, 0, 0x202, initial_context_entry s]"
  from assms(1) have f: "?f = (stack_top stack AND NOT 0xF) - 80" and id: "ctx_id x = next_context_id s"
    and b: "k_bytes s' = store_words (k_bytes s) ?f ws"
    by (auto simp: create_context_raw_def Let_def ws_def split: if_splits)
  have same: "?m a = cpu_mem c a" if "a \<in> span ?f 80 \<union> span (regs c RDX) 8" for a
    using save_untouched [of a c] that assms(4) by blast
  then have ptr: "load64 ?m (regs c RDX) = ?f" using assms(2) load64_cong [of "regs c RDX" ?m "cpu_mem c"] by simp
  have "load64 ?m (?f + of_nat (8 * k)) = ws ! k" if "k < 10" for k
  proof -
    have "load64 ?m (?f + of_nat (8 * k)) = load64 (k_bytes s') (?f + of_nat (8 * k))"
      using same assms(3) that by (intro load64_agree [where n = 80]) auto
    then show ?thesis using load_store_words [of k ws "k_bytes s" ?f] that by (simp add: b ws_def)
  qed
  note w = this
  have frame: "load64 ?m ?f = 0" "load64 ?m (?f + 8) = 0" "load64 ?m (?f + 16) = 0" "load64 ?m (?f + 24) = 0"
    "load64 ?m (?f + 32) = next_context_id s" "load64 ?m (?f + 40) = entry" "load64 ?m (?f + 48) = 0"
    "load64 ?m (?f + 56) = 0" "load64 ?m (?f + 64) = 0x202" "load64 ?m (?f + 72) = initial_context_entry s"
    using w [of 0] w [of 1] w [of 2] w [of 3] w [of 4] w [of 5] w [of 6] w [of 7] w [of 8] w [of 9]
    by (simp_all add: ws_def)
  have al: "((stack_top stack AND NOT 0xF) - 40) mod 16 = 8" by (rule trampoline_alignment)
  have sw: "switch_context c = exec restore_code (exec save_code c)" by (simp add: switch_context_def)
  show ?thesis
    unfolding sw restore_effect save_regs using ptr frame f id al
    by (simp add: initial_context_entry_code_def machine_simps Let_def)
qed

subsection \<open>Concrete instances\<close>

text \<open>Two contexts at 0x1000 and 0x2000 with stacks at 0x8000 and 0x9000.\<close>

definition sample_cpu :: "bytes \<Rightarrow> cpu" where
  "sample_cpu m = \<lparr>regs = (\<lambda>_. 7)(RSP := 0x8000, RCX := 0x1000, RDX := 0x2000), cpu_rflags = 0x202, cpu_rip = 0, cpu_cs = 8, cpu_ss = 0x10, cpu_mem = m\<rparr>"

lemma sample_cpu_regs [simp]:
  "regs (sample_cpu m) RSP = 0x8000" "regs (sample_cpu m) RCX = 0x1000" "regs (sample_cpu m) RDX = 0x2000"
  "regs (sample_cpu m) RBX = 7" "cpu_mem (sample_cpu m) = m" "cpu_rflags (sample_cpu m) = 0x202"
  by (simp_all add: sample_cpu_def)

lemma not_in_span: "n \<le> unat (b - a) \<Longrightarrow> b \<notin> span a n"
  by (simp add: span_def)

lemmas disjoint_simps = touched_def Int_Un_distrib Int_Un_distrib2 span_disjoint not_in_span

theorem switch_context_resumes_witness:
  "\<exists>c2. regs (switch_context c2) RBX = 7 \<and> regs (switch_context c2) RSP = 0x8008 \<and> cpu_rflags (switch_context c2) = 0x202"
proof -
  let ?c = "sample_cpu (\<lambda>_. 0)"
  let ?c2 = "(switch_context ?c)\<lparr>regs := (\<lambda>_. 0)(RSP := 0x9000, RCX := 0x2000, RDX := 0x1000)\<rparr>"
  from switch_context_resumes [of ?c ?c2] have "regs (switch_context ?c2) RBX = 7" "regs (switch_context ?c2) RSP = 0x8008"
    "cpu_rflags (switch_context ?c2) = 0x202" by (simp_all add: disjoint_simps)
  then show ?thesis by blast
qed

lemma zero_memory [simp]: "load64 (\<lambda>_. 0) a = 0"
  by (rule bit_word_eqI) (simp add: bit_load64)

definition zero_context :: execution_context where
  "zero_context = empty_context\<lparr>ctx_rflags := 0\<rparr>"

theorem switch_context_updates_structures_witness:
  "ctx_at (cpu_mem (switch_context (sample_cpu (\<lambda>_. 0)))) 0x1000 (suspend_context 0 0x8000 zero_context)"
proof -
  have "ctx_at (\<lambda>_. 0) p zero_context" for p by (simp add: ctx_at_def zero_context_def empty_context_def)
  then show ?thesis
    using switch_context_updates_structures [of "sample_cpu (\<lambda>_. 0)" zero_context zero_context]
    by (simp add: disjoint_simps top_word_def)
qed

definition sample_stack :: kernel_stack where
  "sample_stack = \<lparr>stack_region = \<lparr>vr_start = DYNAMIC_VIRT_START, vr_size = 0x4000, vr_permissions = PERM_KERNEL_DATA,
     vr_purpose = DynamicKernel, owns_physical_pages = True\<rparr>\<rparr>"

definition sample_kernel :: kernel where
  "sample_kernel = \<lparr>k_as = \<lparr>as_vmm = large_vm, next_asid = 1, current_asid = 0\<rparr>, k_bytes = (\<lambda>_. 0),
     next_context_id = 1, next_thread_id = 1, next_pid = 1, initial_context_entry = 0x140001000\<rparr>"

theorem fresh_context_starts_witness:
  "\<exists>x s' c. create_context_raw 0x140002000 sample_stack sample_kernel = (Inr x, s')
     \<and> cpu_rip (switch_context c) = 0x140001000 \<and> regs (switch_context c) R12 = 0x140002000"
proof -
  have top: "stack_top sample_stack = DYNAMIC_VIRT_START + 0x4000" by (simp add: stack_top_def vr_end_def sample_stack_def)
  have v: "is_canonical 0x140002000" "is_canonical (stack_top sample_stack)" "stack_top sample_stack \<noteq> 0"
    "(stack_top sample_stack AND NOT 0xF) - 80 = DYNAMIC_VIRT_START + 0x3FB0"
    unfolding top by (simp_all add: is_canonical_def Let_def kernel_consts signed_drop_bit_word_numeral)
  then obtain x s' where x: "create_context_raw 0x140002000 sample_stack sample_kernel = (Inr x, s')"
    and sp: "ctx_rsp x = DYNAMIC_VIRT_START + 0x3FB0" by (auto simp: create_context_raw_def Let_def)
  let ?c = "sample_cpu (store64 (k_bytes s') 0x2000 (ctx_rsp x))"
  have "k_bytes s' a = store64 (k_bytes s') 0x2000 (ctx_rsp x) a" if "a \<in> span (ctx_rsp x) 80" for a
  proof -
    have "span (ctx_rsp x) 80 \<inter> span 0x2000 8 = {}" by (rule span_disjoint) (simp_all add: sp kernel_consts)
    then have "a \<notin> span 0x2000 8" using that by blast
    then show ?thesis by (rule store64_other [symmetric])
  qed
  moreover have "(span (ctx_rsp x) 80 \<union> span (regs ?c RDX) 8)
      \<inter> (span (regs ?c RSP - 72) 72 \<union> touched (regs ?c RCX) (regs ?c RDX)) = {}"
    by (simp add: disjoint_simps sp kernel_consts)
  ultimately have "cpu_rip (switch_context ?c) = initial_context_entry sample_kernel \<and> regs (switch_context ?c) R12 = 0x140002000"
    using fresh_context_starts [OF x, of ?c] by simp
  then show ?thesis using x by (auto simp: sample_kernel_def)
qed

end
