(* ===== verification/Registry.thy ===== *)
theory Registry
  imports Prelude "HOL-Library.Multiset"
begin

text \<open>
  The fixed-size registries of \<^verbatim>\<open>src/src/thread.rs\<close> and \<^verbatim>\<open>src/src/process.rs\<close>: an array of optional
  entries with a live count, and a registration that fills the first empty slot.  The locale states what
  both promise; the interpretations are in the theories of the two components.
\<close>

text \<open>The loop over the slots: the first empty one takes the value.\<close>

fun fill_slot :: "'a \<Rightarrow> 'a option list \<Rightarrow> 'a option list option" where
  "fill_slot t [] = None"
| "fill_slot t (None # xs) = Some (Some t # xs)"
| "fill_slot t (Some u # xs) = map_option ((#) (Some u)) (fill_slot t xs)"

definition slot_values :: "'a option list \<Rightarrow> 'a list" where
  "slot_values xs = map the (filter (\<lambda>x. x \<noteq> None) xs)"

lemma slot_values_simps [simp]:
  "slot_values [] = []" "slot_values (None # xs) = slot_values xs" "slot_values (Some u # xs) = u # slot_values xs"
  by (simp_all add: slot_values_def)

lemma slot_values_empty [simp]: "slot_values (replicate n None) = []"
  by (simp add: slot_values_def)

lemma slot_values_length: "length (slot_values xs) \<le> length xs"
  by (simp add: slot_values_def)

lemma fill_slot_Some:
  "fill_slot t xs = Some ys \<Longrightarrow> length ys = length xs \<and> mset (slot_values ys) = add_mset t (mset (slot_values xs))"
  by (induction t xs arbitrary: ys rule: fill_slot.induct) auto

lemma fill_slot_None: "fill_slot t xs = None \<longleftrightarrow> length (slot_values xs) = length xs"
proof (induction t xs rule: fill_slot.induct)
  case (2 t xs)
  show ?case using slot_values_length [of xs] by simp
qed simp_all

subsection \<open>The contract\<close>

locale slot_registry =
  fixes slots :: "'r \<Rightarrow> 'a option list"
    and count :: "'r \<Rightarrow> nat"
    and enter :: "'a \<Rightarrow> 'r \<Rightarrow> ('e + 'i) \<times> 'r"
    and ident :: "'a \<Rightarrow> 'i"
    and full :: 'e
    and capacity :: nat
    and fresh :: 'r
  assumes fresh_slots: "slots fresh = replicate capacity None" and fresh_count: "count fresh = 0"
    and enter_full: "capacity \<le> count r \<or> fill_slot x (slots r) = None \<Longrightarrow> enter x r = (Inl full, r)"
    and enter_free: "count r < capacity \<Longrightarrow> fill_slot x (slots r) = Some xs \<Longrightarrow>
      \<exists>r'. enter x r = (Inr (ident x), r') \<and> slots r' = xs \<and> count r' = count r + 1"
begin

definition ok :: "'r \<Rightarrow> bool" where
  "ok r \<longleftrightarrow> length (slots r) = capacity \<and> count r = length (slot_values (slots r))"

definition entries :: "'r \<Rightarrow> 'a multiset" where
  "entries r = mset (slot_values (slots r))"

definition enter_all :: "'a list \<Rightarrow> 'r \<Rightarrow> 'r" where
  "enter_all xs r = fold (\<lambda>x r. snd (enter x r)) xs r"

lemma fresh_ok: "ok fresh" "entries fresh = {#}"
  by (simp_all add: ok_def entries_def fresh_slots fresh_count)

lemma count_entries: "ok r \<Longrightarrow> count r = size (entries r) \<and> count r \<le> capacity"
  using slot_values_length [of "slots r"] by (simp add: ok_def entries_def)

lemma enter_cases:
  assumes "ok r"
  shows "if count r < capacity
    then \<exists>r'. enter x r = (Inr (ident x), r') \<and> ok r' \<and> entries r' = add_mset x (entries r) \<and> count r' = count r + 1
    else enter x r = (Inl full, r)"
proof (cases "count r < capacity")
  case True
  then obtain xs where f: "fill_slot x (slots r) = Some xs"
    using assms fill_slot_None [of x "slots r"] by (cases "fill_slot x (slots r)") (auto simp: ok_def)
  obtain r' where r': "enter x r = (Inr (ident x), r')" "slots r' = xs" "count r' = count r + 1"
    using enter_free [OF True f] by blast
  have "size (mset (slot_values xs)) = Suc (size (mset (slot_values (slots r))))"
    unfolding conjunct2 [OF fill_slot_Some [OF f]] by simp
  then have "length (slot_values xs) = Suc (length (slot_values (slots r)))" by simp
  with r' True assms fill_slot_Some [OF f] show ?thesis by (simp add: ok_def entries_def)
qed (simp add: enter_full)

lemma enter_all_holds:
  assumes "ok r"
  shows "ok (enter_all xs r) \<and> entries (enter_all xs r) = entries r + mset (take (capacity - count r) xs)"
  using assms
proof (induction xs arbitrary: r)
  case (Cons x xs)
  show ?case
  proof (cases "count r < capacity")
    case True
    then obtain r' where r': "enter x r = (Inr (ident x), r')" "ok r'" "entries r' = add_mset x (entries r)"
      "count r' = count r + 1" using enter_cases [OF Cons.prems, of x] by auto
    moreover have "capacity - count r = Suc (capacity - count r')" using True r'(4) by simp
    ultimately show ?thesis using Cons.IH [OF r'(2)] by (simp add: enter_all_def)
  next
    case False
    then show ?thesis using Cons enter_cases [OF Cons.prems, of x] by (simp add: enter_all_def)
  qed
qed (simp add: enter_all_def)

end

end
