(* ===== verification/Thread.thy ===== *)
theory Thread
  imports Context_Switch Registry
begin

text \<open>
  Kernel threads (\<^verbatim>\<open>src/src/thread.rs\<close>): creation, the checked switch between two threads, and the
  thread registry.

  \<open>switch_to\<close> takes the return address and the stack pointer of its call of \<^verbatim>\<open>switch_context\<close>; on the two
  contexts it has the effect that the machine-level switch was shown to have on their structures.  Its
  \<open>Ok\<close> is what the caller sees once it is resumed; the two updated threads are the state right after the
  stack has been switched.
\<close>

definition MAX_THREADS :: nat where
  "MAX_THREADS = 32"

datatype thread_state = TCreated | TReady | TRunning | TBlocked | TTerminated

fun thread_state_name :: "thread_state \<Rightarrow> string" where
  "thread_state_name TCreated = ''CREATED''"
| "thread_state_name TReady = ''READY''"
| "thread_state_name TRunning = ''RUNNING''"
| "thread_state_name TBlocked = ''BLOCKED''"
| "thread_state_name TTerminated = ''TERMINATED''"

datatype thread_error =
  ThreadInvalidEntryPoint | ThreadStackAllocationFailed | ContextCreationFailed | ThreadRegistryFull

datatype switch_error =
  NullContext | SameThread | TargetTerminated | InvalidState | SwitchInvalidStackPointer | InvalidInstructionPointer

record kernel_thread =
  t_id :: u64
  process_id :: u64
  t_name :: string
  t_state :: thread_state
  t_context :: execution_context
  t_stack :: kernel_stack
  t_entry :: u64
  t_arg :: u64

definition thread_new_raw :: "string \<Rightarrow> u64 \<Rightarrow> u64 \<Rightarrow> kernel \<Rightarrow> (thread_error + kernel_thread) \<times> kernel" where
  "thread_new_raw name entry_addr arg s =
     (if entry_addr = 0 \<or> \<not> is_canonical entry_addr then (Inl ThreadInvalidEntryPoint, s)
      else case kernel_stack_allocate s of
        (Inl _, s) \<Rightarrow> (Inl ThreadStackAllocationFailed, s)
      | (Inr stack, s) \<Rightarrow>
          (case create_context_raw entry_addr stack s of
             (Inl _, s) \<Rightarrow> (Inl ContextCreationFailed, snd (lift_vmm (unmap_region (stack_region stack)) s))
           | (Inr ctx, s) \<Rightarrow>
               let id = next_thread_id s in
               (Inr \<lparr>t_id = id, process_id = 0, t_name = name, t_state = TCreated, t_context = ctx,
                     t_stack = stack, t_entry = entry_addr, t_arg = arg\<rparr>,
                s\<lparr>next_thread_id := id + 1\<rparr>)))"

definition bootstrap_thread :: kernel_thread where
  "bootstrap_thread = \<lparr>t_id = 0, process_id = 0, t_name = ''bootstrap'', t_state = TRunning,
     t_context = empty_context,
     t_stack = \<lparr>stack_region = \<lparr>vr_start = DYNAMIC_VIRT_START, vr_size = 0x4000, vr_permissions = PERM_KERNEL_DATA,
       vr_purpose = DynamicKernel, owns_physical_pages = False\<rparr>\<rparr>,
     t_entry = 0, t_arg = 0\<rparr>"

definition switch_to ::
    "u64 \<Rightarrow> u64 \<Rightarrow> kernel_thread \<Rightarrow> kernel_thread \<Rightarrow> switch_error + (kernel_thread \<times> kernel_thread)" where
  "switch_to ret sp current target =
     (if t_id current = t_id target then Inl SameThread
      else if t_state target = TTerminated then Inl TargetTerminated
      else if ctx_rsp (t_context target) = 0 \<or> \<not> is_canonical (ctx_rsp (t_context target))
      then Inl SwitchInvalidStackPointer
      else if ctx_rip (t_context target) = 0 \<or> \<not> is_canonical (ctx_rip (t_context target))
      then Inl InvalidInstructionPointer
      else Inr (current\<lparr>t_state := TReady, t_context := suspend_context ret sp (t_context current)\<rparr>,
                target\<lparr>t_state := TRunning, t_context := resume_context (t_context target)\<rparr>))"

subsection \<open>The registry\<close>

record thread_registry =
  reg_threads :: "kernel_thread option list"
  reg_count :: nat

definition thread_registry_new :: thread_registry where
  "thread_registry_new = \<lparr>reg_threads = replicate MAX_THREADS None, reg_count = 0\<rparr>"

definition register_thread :: "kernel_thread \<Rightarrow> thread_registry \<Rightarrow> (thread_error + u64) \<times> thread_registry" where
  "register_thread thread reg =
     (if reg_count reg \<ge> MAX_THREADS then (Inl ThreadRegistryFull, reg)
      else case fill_slot thread (reg_threads reg) of
        Some ts \<Rightarrow> (Inr (t_id thread), reg\<lparr>reg_threads := ts, reg_count := reg_count reg + 1\<rparr>)
      | None \<Rightarrow> (Inl ThreadRegistryFull, reg))"

definition active_thread_count :: "thread_registry \<Rightarrow> nat" where
  "active_thread_count reg = reg_count reg"

interpretation thread_table: slot_registry reg_threads reg_count register_thread t_id ThreadRegistryFull MAX_THREADS thread_registry_new
  by unfold_locales (auto simp: thread_registry_new_def register_thread_def)

subsection \<open>Creation\<close>

lemma lift_vmm_eq: "lift_vmm f s = (r, s') \<longleftrightarrow>
    (\<exists>v. f (as_vmm (k_as s)) = (r, v) \<and> s' = s\<lparr>k_as := (k_as s)\<lparr>as_vmm := v\<rparr>\<rparr>)"
  by (auto simp: lift_vmm_def split: prod.splits)

abbreviation k_vmm :: "kernel \<Rightarrow> vmm" where
  "k_vmm s \<equiv> as_vmm (k_as s)"

lemma stack_allocate_cases:
  assumes "kernel_stack_allocate s = (res, s')"
  obtains (none) e v where "allocate_and_map_region STACK_SIZE_BYTES PERM_KERNEL_DATA DynamicKernel (k_vmm s) = (Inl e, v)"
      "res = Inl e" "s' = s\<lparr>k_as := (k_as s)\<lparr>as_vmm := v\<rparr>\<rparr>"
  | (some) r v where "allocate_and_map_region STACK_SIZE_BYTES PERM_KERNEL_DATA DynamicKernel (k_vmm s) = (Inr r, v)"
      "res = Inr \<lparr>stack_region = r\<rparr>" "s' = s\<lparr>k_as := (k_as s)\<lparr>as_vmm := v\<rparr>\<rparr>"
proof -
  obtain res0 v where a: "allocate_and_map_region STACK_SIZE_BYTES PERM_KERNEL_DATA DynamicKernel (k_vmm s) = (res0, v)"
    by (cases "allocate_and_map_region STACK_SIZE_BYTES PERM_KERNEL_DATA DynamicKernel (k_vmm s)")
  with assms show thesis by (cases res0) (auto simp: kernel_stack_allocate_def lift_vmm_def intro: none some)
qed

lemma page_aligned_16: "va_is_aligned a \<Longrightarrow> a AND NOT 0xF = a"
proof (rule bit_word_eqI)
  fix n assume al: "va_is_aligned a"
  have m: "(0xF :: u64) = mask 4" by (simp add: mask_eq_exp_minus_1)
  have "take_bit 12 a = 0" using al by (simp add: va_is_aligned_def take_bit_eq_mod)
  then have "\<not> bit a n" if "n < 12" using that bit_take_bit_iff [of 12 a n] by simp
  then show "bit (a AND NOT 0xF) n = bit a n" unfolding m by (auto simp: bit_and_iff bit_not_iff bit_mask_iff dest: bit_imp_le_length)
qed

text \<open>A stack obtained from the memory manager always has room for the initial frame and a valid top, so
  the error branch behind it is never taken.\<close>

lemma new_stack_top:
  assumes "vm_ok R X v" and "regions_inv v" and "cursor_ok v" and "root_pml4_phys v \<in> R"
    and "allocate_and_map_region STACK_SIZE_BYTES PERM_KERNEL_DATA DynamicKernel v = (Inr r, v')"
  shows "unat (vr_end r) = unat (vr_start r) + 0x4000" and "vr_start r = next_dynamic_addr v"
    and "is_canonical (vr_end r)" and "vr_end r \<noteq> 0" and "vr_end r AND NOT 0xF = vr_end r"
    and "vr_addrs r = {unat (vr_start r) ..< unat (vr_start r) + 0x4000}"
    and "\<And>q. q \<in> set (live_vregions v) \<Longrightarrow> vr_addrs q \<inter> vr_addrs r = {}"
    and "vr_end r - 80 = vr_start r + of_nat 0x3FB0" and "DYNAMIC_VIRT_START \<le> vr_end r - 80"
proof -
  have sz: "unat STACK_SIZE_BYTES = 0x4000" by (simp add: STACK_SIZE_BYTES_def kernel_consts)
  from assms(5) obtain r0 v1 where rs: "reserve_virtual_region STACK_SIZE_BYTES PERM_KERNEL_DATA DynamicKernel v = (Inr r0, v1)"
    by (auto simp: allocate_and_map_region_def and_then_Inr)
  note k = reserve_facts [OF assms(2,3) rs, simplified]
  from rs assms(5) have r: "r = r0\<lparr>owns_physical_pages := True\<rparr>" by (cases rule: alloc_map_cases) auto
  have c: "cursor_ok v1" and st: "vr_start r = next_dynamic_addr v" "vr_size r = STACK_SIZE_BYTES"
    and e: "unat (next_dynamic_addr v1) = unat (vr_start r) + 0x4000" using k r sz by auto
  have "vr_end r = next_dynamic_addr v1"
    using e unat_u64_less [of "next_dynamic_addr v1"] unat_vr_end [of r] st(2) sz by (simp add: word_unat_eq_iff)
  then show "unat (vr_end r) = unat (vr_start r) + 0x4000" "vr_start r = next_dynamic_addr v"
    "is_canonical (vr_end r)" "vr_end r \<noteq> 0" "vr_end r AND NOT 0xF = vr_end r"
    using e st c high_canonical page_aligned_16 by (auto simp: cursor_ok_def)
  show "vr_addrs r = {unat (vr_start r) ..< unat (vr_start r) + 0x4000}" by (simp add: vr_addrs_def st(2) sz)
  show "vr_addrs q \<inter> vr_addrs r = {}" if "q \<in> set (live_vregions v)" for q
    using k that r by (auto simp: vr_addrs_def)
  show f: "vr_end r - 80 = vr_start r + of_nat 0x3FB0"
    using st(2) by (simp add: vr_end_def STACK_SIZE_BYTES_def kernel_consts)
  have "unat (vr_start r + of_nat 0x3FB0) = unat (vr_start r) + 0x3FB0"
    using e unat_u64_less [of "next_dynamic_addr v1"] by (subst unat_add_u64) simp_all
  then have "vr_start r \<le> vr_end r - 80" unfolding f word_le_nat_alt by simp
  then show "DYNAMIC_VIRT_START \<le> vr_end r - 80"
    using assms(3) unfolding cursor_ok_def st(1) by (blast intro: order_trans)
qed

definition memory_ok :: "u64 set \<Rightarrow> u64 set \<Rightarrow> kernel \<Rightarrow> bool" where
  "memory_ok R X s \<longleftrightarrow> vm_ok R X (k_vmm s) \<and> regions_inv (k_vmm s) \<and> cursor_ok (k_vmm s) \<and> root_pml4_phys (k_vmm s) \<in> R"

lemma thread_new_cases:
  assumes ok: "memory_ok R X s" and new: "thread_new_raw name entry arg s = (res, s')"
  obtains (entry) "entry = 0 \<or> \<not> is_canonical entry" "res = Inl ThreadInvalidEntryPoint" "s' = s"
  | (memory) e v where "res = Inl ThreadStackAllocationFailed" "s' = s\<lparr>k_as := (k_as s)\<lparr>as_vmm := v\<rparr>\<rparr>"
      "allocate_and_map_region STACK_SIZE_BYTES PERM_KERNEL_DATA DynamicKernel (k_vmm s) = (Inl e, v)"
  | (made) r v ctx s2 where "entry \<noteq> 0" "is_canonical entry"
      "allocate_and_map_region STACK_SIZE_BYTES PERM_KERNEL_DATA DynamicKernel (k_vmm s) = (Inr r, v)"
      "create_context_raw entry \<lparr>stack_region = r\<rparr> (s\<lparr>k_as := (k_as s)\<lparr>as_vmm := v\<rparr>\<rparr>) = (Inr ctx, s2)"
      "res = Inr \<lparr>t_id = next_thread_id s, process_id = 0, t_name = name, t_state = TCreated, t_context = ctx,
         t_stack = \<lparr>stack_region = r\<rparr>, t_entry = entry, t_arg = arg\<rparr>"
      "s' = s2\<lparr>next_thread_id := next_thread_id s + 1\<rparr>"
proof (cases "entry = 0 \<or> \<not> is_canonical entry")
  case True
  then show thesis using new entry by (auto simp: thread_new_raw_def)
next
  case False
  obtain sres s1 where st: "kernel_stack_allocate s = (sres, s1)" by (cases "kernel_stack_allocate s")
  from st show thesis
  proof (cases rule: stack_allocate_cases)
    case (none e v)
    then show thesis using new False st memory by (auto simp: thread_new_raw_def)
  next
    case (some r v)
    note t = new_stack_top [OF _ _ _ _ some(1)]
    have "is_canonical (vr_end r)" "vr_end r \<noteq> 0" using t(3,4) ok by (auto simp: memory_ok_def)
    then obtain ctx s2 where c: "create_context_raw entry \<lparr>stack_region = r\<rparr> s1 = (Inr ctx, s2)"
      and "next_thread_id s2 = next_thread_id s1" using False by (auto simp: create_context_raw_def Let_def stack_top_def)
    moreover have "next_thread_id s1 = next_thread_id s" by (simp add: some(3))
    ultimately show thesis using made [OF _ _ some(1)] new False st some(2,3) by (auto simp: thread_new_raw_def Let_def)
  qed
qed

lemma thread_created:
  assumes "memory_ok R X s" and "thread_new_raw name entry arg s = (Inr t, s')"
  shows "(\<exists>frames. length frames = 4 \<and> distinct frames \<and> set frames \<subseteq> free_addrs (vmm_pmm (k_vmm s))
        \<and> memory_ok R (X \<union> set frames) s'
        \<and> maps_region R (root_pml4_phys (k_vmm s)) (stack_bottom (t_stack t)) frames (to_page_flags PERM_KERNEL_DATA)
            (vmm_mem (k_vmm s)) (vmm_mem (k_vmm s')))
    \<and> (\<forall>q \<in> set (live_vregions (k_vmm s)). vr_addrs q \<inter> vr_addrs (stack_region (t_stack t)) = {})
    \<and> unat (stack_top (t_stack t)) = unat (stack_bottom (t_stack t)) + 0x4000
    \<and> ctx_rsp (t_context t) = stack_top (t_stack t) - 80
    \<and> (\<forall>x. x \<notin> span (stack_bottom (t_stack t)) 0x4000 \<longrightarrow> k_bytes s' x = k_bytes s x)
    \<and> t_id t = next_thread_id s \<and> next_thread_id s' = next_thread_id s + 1 \<and> t_state t = TCreated \<and> process_id t = 0
    \<and> (initial_context_entry s \<noteq> 0 \<and> is_canonical (initial_context_entry s) \<longrightarrow>
         (\<forall>u ret sp. t_id u \<noteq> t_id t \<longrightarrow> (\<exists>u' t'. switch_to ret sp u t = Inr (u', t'))))"
  using assms
proof (cases rule: thread_new_cases)
  case (made r v ctx s2)
  note inv = assms(1) [unfolded memory_ok_def]
  note top = new_stack_top [OF _ _ _ _ made(3), of R X]
  obtain frames where f: "length frames = 4" "distinct frames" "set frames \<subseteq> free_addrs (vmm_pmm (k_vmm s))"
    "vm_ok R (X \<union> set frames) v" "regions_inv v" "cursor_ok v"
    "maps_region R (root_pml4_phys (k_vmm s)) (vr_start r) frames (to_page_flags PERM_KERNEL_DATA) (vmm_mem (k_vmm s)) (vmm_mem v)"
    using alloc_map_correct [OF _ _ _ _ made(3), of R X] inv by (auto simp: STACK_SIZE_BYTES_def kernel_consts)
  have root: "root_pml4_phys v = root_pml4_phys (k_vmm s)"
    using alloc_map_root [OF _ _ _ _ made(3), of R X] inv by simp
  let ?b = "vr_start r"
  define ws where "ws = [0, 0, 0, 0, next_context_id s, entry, 0, 0, 0x202, initial_context_entry s]"
  have e: "vr_end r AND NOT 0xF = vr_end r" "unat (vr_end r) = unat ?b + 0x4000" "vr_end r - 80 = ?b + of_nat 0x3FB0"
    and low: "DYNAMIC_VIRT_START \<le> vr_end r - 80"
    and disj: "\<forall>q \<in> set (live_vregions (k_vmm s)). vr_addrs q \<inter> vr_addrs r = {}" using top inv by auto
  have ctx: "ctx_rsp ctx = vr_end r - 80" "ctx_rip ctx = initial_context_entry s"
    "k_bytes s2 = store_words (k_bytes s) (vr_end r - 80) ws" "k_as s2 = (k_as s)\<lparr>as_vmm := v\<rparr>"
    using made(4) e(1) by (auto simp: create_context_raw_def Let_def ws_def stack_top_def split: if_splits)
  have bytes: "k_bytes s2 x = k_bytes s x" if "x \<notin> span ?b 0x4000" for x
    using that span_sub [of x ?b "0x3FB0" 80 "0x4000"] unfolding ctx(3) e(3)
    by (intro store_words_other) (auto simp: ws_def)
  have "vr_end r - 80 \<noteq> 0" using low by (auto simp: kernel_consts)
  then have "\<exists>u' t'. switch_to ret sp u t = Inr (u', t')"
    if "initial_context_entry s \<noteq> 0" "is_canonical (initial_context_entry s)" "t_id u \<noteq> t_id t" for u ret sp
    using that made(5) ctx(1,2) high_canonical [OF low] by (simp add: switch_to_def)
  moreover have "memory_ok R (X \<union> set frames) s'"
    using f(4-6) root inv ctx(4) made(6) by (simp add: memory_ok_def)
  ultimately show ?thesis
    using made(5,6) f(1-3,7) disj e(2) ctx(1,4) bytes by (auto simp: stack_bottom_def stack_top_def)
qed simp_all

subsection \<open>Properties\<close>

text \<open>C25. A new thread owns a fresh 16 KiB stack: its region is disjoint from every live region and mapped to four fresh
  frames, its initial frame lies inside that region and nothing outside it is written, and once the entry
  stub has a valid address every other thread can switch to it.  The identity counters advance by one.\<close>
theorem thread_new_raw_correct:
  assumes "memory_ok R X s" and "thread_new_raw name entry arg s = (Inr t, s')"
  shows "(\<exists>frames. length frames = 4 \<and> distinct frames \<and> set frames \<subseteq> free_addrs (vmm_pmm (k_vmm s))
        \<and> memory_ok R (X \<union> set frames) s'
        \<and> maps_region R (root_pml4_phys (k_vmm s)) (stack_bottom (t_stack t)) frames (to_page_flags PERM_KERNEL_DATA)
            (vmm_mem (k_vmm s)) (vmm_mem (k_vmm s')))
    \<and> (\<forall>q \<in> set (live_vregions (k_vmm s)). vr_addrs q \<inter> vr_addrs (stack_region (t_stack t)) = {})
    \<and> unat (stack_top (t_stack t)) = unat (stack_bottom (t_stack t)) + 0x4000
    \<and> ctx_rsp (t_context t) = stack_top (t_stack t) - 80
    \<and> (\<forall>x. x \<notin> span (stack_bottom (t_stack t)) 0x4000 \<longrightarrow> k_bytes s' x = k_bytes s x)
    \<and> t_id t = next_thread_id s \<and> next_thread_id s' = next_thread_id s + 1 \<and> t_state t = TCreated \<and> process_id t = 0
    \<and> (initial_context_entry s \<noteq> 0 \<and> is_canonical (initial_context_entry s) \<longrightarrow>
         (\<forall>u ret sp. t_id u \<noteq> t_id t \<longrightarrow> (\<exists>u' t'. switch_to ret sp u t = Inr (u', t'))))"
  by (rule thread_created [OF assms])

text \<open>The errors of thread creation: an entry point that is null or not canonical is refused with no effect, any
  other failure is a failed stack allocation, which consumes no identity and writes no kernel memory.  The
  context-creation error of the source cannot occur.\<close>
theorem thread_new_raw_errors:
  assumes "memory_ok R X s" and "thread_new_raw name entry arg s = (Inl e, s')"
  shows "if entry = 0 \<or> \<not> is_canonical entry then e = ThreadInvalidEntryPoint \<and> s' = s
    else e = ThreadStackAllocationFailed \<and> next_thread_id s' = next_thread_id s
      \<and> next_context_id s' = next_context_id s \<and> k_bytes s' = k_bytes s
      \<and> (\<exists>x. fst (allocate_and_map_region STACK_SIZE_BYTES PERM_KERNEL_DATA DynamicKernel (k_vmm s)) = Inl x)"
proof (cases "entry = 0 \<or> \<not> is_canonical entry")
  case True
  then show ?thesis using assms(2) by (auto simp: thread_new_raw_def)
next
  case False
  from assms show ?thesis by (cases rule: thread_new_cases) (use False in auto)
qed

text \<open>A thread that switched away can be switched back to, if its stack pointer and resume address are valid: the
  switch back is accepted and makes it the running thread again, with its stack pointer and resume address
  as saved.  This holds whatever state the thread was in when it left, a terminated thread included.\<close>
theorem switch_back_accepted:
  assumes "switch_to ret sp a b = Inr (a', b')"
    and "sp \<noteq> 72" "is_canonical (sp - 72)" "ret \<noteq> 0" "is_canonical ret"
  shows "\<exists>b'' a''. switch_to ret' sp' b' a' = Inr (b'', a'') \<and> t_state a'' = TRunning \<and> t_state b'' = TReady
    \<and> ctx_rsp (t_context a'') = sp - 72 \<and> ctx_rip (t_context a'') = ret
    \<and> t_state a' = TReady \<and> t_state b' = TRunning"
  using assms by (auto simp: switch_to_def suspend_context_def resume_context_def split: if_splits)

text \<open>The registry keeps the first 32 threads registered with it, in any order of slots, and refuses the rest without
  losing any; its count is the number of threads it holds.\<close>
theorem thread_registry_keeps_first:
  fixes ts :: "kernel_thread list"
  defines "reg \<equiv> fold (\<lambda>t r. snd (register_thread t r)) ts thread_registry_new"
  shows "mset (slot_values (reg_threads reg)) = mset (take 32 ts) \<and> active_thread_count reg = min 32 (length ts)
    \<and> fst (register_thread t reg) = (if length ts < 32 then Inr (t_id t) else Inl ThreadRegistryFull)"
proof -
  have reg: "reg = thread_table.enter_all ts thread_registry_new" by (simp add: reg_def thread_table.enter_all_def)
  have c0: "reg_count thread_registry_new = 0" by (simp add: thread_registry_new_def)
  note h = thread_table.enter_all_holds [OF thread_table.fresh_ok(1), of ts, folded reg, unfolded c0 thread_table.fresh_ok(2)]
  have cap: "MAX_THREADS = 32" by (simp add: MAX_THREADS_def)
  have ok: "thread_table.ok reg" using h by simp
  have e: "mset (slot_values (reg_threads reg)) = mset (take 32 ts)" using h by (simp add: thread_table.entries_def cap)
  have "reg_count reg = size (mset (slot_values (reg_threads reg)))"
    using thread_table.count_entries [OF ok] by (simp add: thread_table.entries_def)
  also have "\<dots> = min 32 (length ts)" unfolding e by simp
  finally have c: "reg_count reg = min 32 (length ts)" .
  show ?thesis using thread_table.enter_cases [OF ok, of t] c e by (auto simp: active_thread_count_def cap split: if_splits)
qed

subsection \<open>Concrete instances\<close>

lemma sample_kernel_ok: "memory_ok {0x300000} {} sample_kernel"
  using large_vm_ok large_vm_regions by (simp add: memory_ok_def sample_kernel_def)

lemma sample_entry: "is_canonical 0x140002000" "is_canonical 0x140001000"
  by (simp_all add: is_canonical_def Let_def signed_drop_bit_word_numeral)

lemma sample_thread:
  obtains t s' where "thread_new_raw ''worker'' 0x140002000 0 sample_kernel = (Inr t, s')"
proof -
  obtain res s' where n: "thread_new_raw ''worker'' 0x140002000 0 sample_kernel = (res, s')"
    by (cases "thread_new_raw ''worker'' 0x140002000 0 sample_kernel")
  have "\<exists>r v. allocate_and_map_region STACK_SIZE_BYTES PERM_KERNEL_DATA DynamicKernel large_vm = (Inr r, v)"
    by (rule large_region_possible) (simp_all add: STACK_SIZE_BYTES_def kernel_consts)
  then obtain r v where "allocate_and_map_region STACK_SIZE_BYTES PERM_KERNEL_DATA DynamicKernel (k_vmm sample_kernel) = (Inr r, v)"
    by (auto simp: sample_kernel_def)
  with sample_kernel_ok n show thesis by (cases rule: thread_new_cases) (use sample_entry that n in auto)
qed

theorem thread_new_raw_correct_witness:
  "\<exists>t s'. thread_new_raw ''worker'' 0x140002000 0 sample_kernel = (Inr t, s')
     \<and> (\<exists>u' t'. switch_to 0x140003000 0x8000 bootstrap_thread t = Inr (u', t'))"
proof -
  obtain t s' where t: "thread_new_raw ''worker'' 0x140002000 0 sample_kernel = (Inr t, s')" by (rule sample_thread)
  from thread_new_raw_correct [OF sample_kernel_ok t] t sample_entry show ?thesis
    by (auto simp: sample_kernel_def bootstrap_thread_def)
qed

theorem thread_new_raw_errors_witness:
  "thread_new_raw ''bad'' 0 0 sample_kernel = (Inl ThreadInvalidEntryPoint, sample_kernel)"
proof -
  obtain e s' where e: "thread_new_raw ''bad'' 0 0 sample_kernel = (Inl e, s')" by (simp add: thread_new_raw_def)
  from thread_new_raw_errors [OF sample_kernel_ok e] e show ?thesis by simp
qed

theorem switch_back_accepted_witness:
  "\<exists>t a b a' b'. switch_to 0x140003000 0x8000 bootstrap_thread t = Inr (a, b)
     \<and> switch_to 0x140004000 0x9000 b a = Inr (b', a') \<and> t_state a' = TRunning"
proof -
  let ?t = "bootstrap_thread\<lparr>t_id := 1, t_context := empty_context\<lparr>ctx_rsp := 0x9000, ctx_rip := 0x140001000\<rparr>\<rparr>"
  have c: "is_canonical 0x9000" "is_canonical (0x8000 - 72)" "is_canonical 0x140003000"
    by (simp_all add: is_canonical_def Let_def signed_drop_bit_word_numeral)
  then obtain a b where s: "switch_to 0x140003000 0x8000 bootstrap_thread ?t = Inr (a, b)"
    using sample_entry by (simp add: switch_to_def bootstrap_thread_def)
  from switch_back_accepted [OF s _ c(2) _ c(3)] s show ?thesis by fastforce
qed

end
