(* ===== verification/Process.thy ===== *)
theory Process
  imports Thread
begin

text \<open>
  Processes (\<^verbatim>\<open>src/src/process.rs\<close>): an address space with its threads, termination, the consistency
  check \<^verbatim>\<open>verify\<close>, and the process registry.
\<close>

definition MAX_PROCESSES :: nat where
  "MAX_PROCESSES = 16"

datatype process_state = PCreated | PReady | PRunning | PTerminating | PTerminated

fun process_state_name :: "process_state \<Rightarrow> string" where
  "process_state_name PCreated = ''CREATED''"
| "process_state_name PReady = ''READY''"
| "process_state_name PRunning = ''RUNNING''"
| "process_state_name PTerminating = ''TERMINATING''"
| "process_state_name PTerminated = ''TERMINATED''"

datatype process_error =
  InvalidPid | ProcessRegistryFull | ThreadCreationFailed thread_error | AddressSpaceCreationFailed
| ProcessIsTerminated | InvariantViolation

record process =
  p_id :: u64
  p_name :: string
  p_state :: process_state
  p_threads :: "kernel_thread list"
  p_space :: address_space

definition process_new :: "string \<Rightarrow> kernel \<Rightarrow> (process_error + process) \<times> kernel" where
  "process_new name s =
     (case as_new (k_as s) of
        (Inl _, a) \<Rightarrow> (Inl AddressSpaceCreationFailed, s\<lparr>k_as := a\<rparr>)
      | (Inr address_space, a) \<Rightarrow>
          let id = next_pid s in
          (Inr \<lparr>p_id = id, p_name = name, p_state = PCreated, p_threads = [], p_space = address_space\<rparr>,
           s\<lparr>k_as := a, next_pid := id + 1\<rparr>))"

definition bootstrap_process :: "kernel \<Rightarrow> process" where
  "bootstrap_process s = \<lparr>p_id = 0, p_name = ''kernel_bootstrap'', p_state = PRunning,
     p_threads = [bootstrap_thread\<lparr>process_id := 0\<rparr>], p_space = as_bootstrap (k_as s)\<rparr>"

definition create_thread ::
    "string \<Rightarrow> u64 \<Rightarrow> u64 \<Rightarrow> process \<Rightarrow> kernel \<Rightarrow> (process_error + u64) \<times> process \<times> kernel" where
  "create_thread name entry arg p s =
     (if p_state p = PTerminated then (Inl ProcessIsTerminated, p, s)
      else case thread_new_raw name entry arg s of
        (Inl e, s) \<Rightarrow> (Inl (ThreadCreationFailed e), p, s)
      | (Inr t, s) \<Rightarrow>
          let t = t\<lparr>process_id := p_id p\<rparr> in
          (Inr (t_id t), p\<lparr>p_threads := p_threads p @ [t]\<rparr>, s))"

definition get_thread_mut :: "nat \<Rightarrow> process \<Rightarrow> kernel_thread option" where
  "get_thread_mut i p = (if i < length (p_threads p) then Some (p_threads p ! i) else None)"

text \<open>\<^verbatim>\<open>split_at_mut\<close> at the larger index gives the two disjoint halves the pair is taken from.\<close>

definition get_two_threads_mut :: "nat \<Rightarrow> nat \<Rightarrow> process \<Rightarrow> (kernel_thread \<times> kernel_thread) option" where
  "get_two_threads_mut idx1 idx2 p =
     (if idx1 = idx2 \<or> idx1 \<ge> length (p_threads p) \<or> idx2 \<ge> length (p_threads p) then None
      else if idx1 < idx2 then
        let first = take idx2 (p_threads p); second = drop idx2 (p_threads p)
        in Some (first ! idx1, second ! 0)
      else
        let first = take idx1 (p_threads p); second = drop idx1 (p_threads p)
        in Some (second ! 0, first ! idx2))"

definition terminate :: "process \<Rightarrow> process" where
  "terminate p =
     (let p = p\<lparr>p_state := PTerminating\<rparr>;
          p = p\<lparr>p_threads := map (\<lambda>t. t\<lparr>t_state := TTerminated\<rparr>) (p_threads p)\<rparr>
      in p\<lparr>p_state := PTerminated\<rparr>)"

fun duplicate_ids :: "kernel_thread list \<Rightarrow> bool" where
  "duplicate_ids [] = False"
| "duplicate_ids (t # ts) = (list_ex (\<lambda>u. t_id t = t_id u) ts \<or> duplicate_ids ts)"

definition verify :: "process \<Rightarrow> process_error + unit" where
  "verify p =
     (if p_id p = 0 \<and> p_name p \<noteq> ''kernel_bootstrap'' then Inl InvariantViolation
      else if p_state p = PTerminated \<and> list_ex (\<lambda>t. t_state t = TRunning) (p_threads p) then Inl InvariantViolation
      else if list_ex (\<lambda>t. process_id t \<noteq> p_id p) (p_threads p) then Inl InvariantViolation
      else if duplicate_ids (p_threads p) then Inl InvariantViolation
      else Inr ())"

text \<open>Dropping a process drops its address space; kernel stacks have no destructor.\<close>

definition drop_process :: "process \<Rightarrow> kernel \<Rightarrow> kernel" where
  "drop_process p s = s\<lparr>k_as := snd (as_destroy (p_space p) (k_as s))\<rparr>"

subsection \<open>The registry\<close>

record process_registry =
  reg_processes :: "process option list"
  reg_pcount :: nat

definition process_registry_new :: process_registry where
  "process_registry_new = \<lparr>reg_processes = replicate MAX_PROCESSES None, reg_pcount = 0\<rparr>"

definition register_process :: "process \<Rightarrow> process_registry \<Rightarrow> (process_error + u64) \<times> process_registry" where
  "register_process p reg =
     (if reg_pcount reg \<ge> MAX_PROCESSES then (Inl ProcessRegistryFull, reg)
      else case fill_slot p (reg_processes reg) of
        Some ps \<Rightarrow> (Inr (p_id p), reg\<lparr>reg_processes := ps, reg_pcount := reg_pcount reg + 1\<rparr>)
      | None \<Rightarrow> (Inl ProcessRegistryFull, reg))"

definition active_process_count :: "process_registry \<Rightarrow> nat" where
  "active_process_count reg = reg_pcount reg"

interpretation process_table: slot_registry reg_processes reg_pcount register_process p_id ProcessRegistryFull
    MAX_PROCESSES process_registry_new
  by unfold_locales (auto simp: process_registry_new_def register_process_def)

subsection \<open>The check\<close>

lemma duplicate_ids_iff: "duplicate_ids ts \<longleftrightarrow> \<not> distinct (map t_id ts)"
  by (induction ts) (auto simp: list_ex_iff)

lemma verify_iff:
  "verify p = Inr () \<longleftrightarrow> (p_id p = 0 \<longrightarrow> p_name p = ''kernel_bootstrap'')
     \<and> (p_state p = PTerminated \<longrightarrow> (\<forall>t \<in> set (p_threads p). t_state t \<noteq> TRunning))
     \<and> (\<forall>t \<in> set (p_threads p). process_id t = p_id p) \<and> distinct (map t_id (p_threads p))"
  unfolding verify_def duplicate_ids_iff by (auto simp: list_ex_iff)

lemma two_threads_nth:
  "get_two_threads_mut i j p =
     (if i \<noteq> j \<and> i < length (p_threads p) \<and> j < length (p_threads p)
      then Some (p_threads p ! i, p_threads p ! j) else None)"
  by (auto simp: get_two_threads_mut_def Let_def)

end
