(* ===== verification/Process_Run.thy ===== *)
theory Process_Run
  imports Process
begin

text \<open>
  Runs of the process and thread layer: processes are created, get threads, are terminated and dropped, and the
  thread on the processor hands it over with \<^verbatim>\<open>switch_to\<close>.  Any process may be terminated at any time, that of the running thread
  included, and any may be dropped.  Rule induction over the runs shows what stays true of threads and processes, and exactly when
  \<^verbatim>\<open>Process::verify\<close> succeeds.
\<close>

text \<open>A process is named by the variable that owns it, a thread by its process and its position there.  \<open>running\<close> is the thread on the
  processor; it is \<^const>\<open>None\<close> once the record of that thread has been dropped, and then nothing can be handed to \<^verbatim>\<open>switch_to\<close> as the
  current thread.\<close>

type_synonym thread_pos = "nat \<times> nat"

type_synonym process_table = "nat \<rightharpoonup> process"

record system =
  sys_kernel :: kernel
  procs :: process_table
  running :: "thread_pos option"

definition present :: "process_table \<Rightarrow> thread_pos \<Rightarrow> bool" where
  "present ps x \<longleftrightarrow> (case ps (fst x) of None \<Rightarrow> False | Some p \<Rightarrow> snd x < length (p_threads p))"

definition owner :: "process_table \<Rightarrow> thread_pos \<Rightarrow> process" where
  "owner ps x = the (ps (fst x))"

definition thread_at :: "process_table \<Rightarrow> thread_pos \<Rightarrow> kernel_thread" where
  "thread_at ps x = p_threads (owner ps x) ! snd x"

definition put_thread :: "thread_pos \<Rightarrow> kernel_thread \<Rightarrow> process_table \<Rightarrow> process_table" where
  "put_thread x t ps = ps(fst x \<mapsto> (owner ps x)\<lparr>p_threads := (p_threads (owner ps x))[snd x := t]\<rparr>)"

definition runs_process :: "nat \<Rightarrow> system \<Rightarrow> bool" where
  "runs_process i s \<longleftrightarrow> (case running s of None \<Rightarrow> False | Some x \<Rightarrow> fst x = i)"

text \<open>\<open>sys_run D n s\<close>: \<open>s\<close> is reachable after at most \<open>n\<close> identities of each kind were handed out, and \<open>D\<close> holds the identities of the processes whose
  last termination was by their own thread.\<close>

inductive sys_run :: "u64 set \<Rightarrow> nat \<Rightarrow> system \<Rightarrow> bool" where
  boot: "next_thread_id k = 1 \<Longrightarrow> next_pid k = 1 \<Longrightarrow>
    sys_run {} 1 \<lparr>sys_kernel = k, procs = [0 \<mapsto> bootstrap_process k], running = Some (0, 0)\<rparr>"
| spawn: "sys_run D n s \<Longrightarrow> procs s i = None \<Longrightarrow> process_new name (sys_kernel s) = (Inr p, k) \<Longrightarrow>
    sys_run D (n + 1) (s\<lparr>sys_kernel := k, procs := (procs s)(i \<mapsto> p)\<rparr>)"
| spawn_fails: "sys_run D n s \<Longrightarrow> process_new name (sys_kernel s) = (Inl e, k) \<Longrightarrow> sys_run D n (s\<lparr>sys_kernel := k\<rparr>)"
| attach: "sys_run D n s \<Longrightarrow> procs s i = Some p \<Longrightarrow> create_thread name entry arg p (sys_kernel s) = (res, p', k) \<Longrightarrow>
    sys_run D (n + 1) (s\<lparr>sys_kernel := k, procs := (procs s)(i \<mapsto> p')\<rparr>)"
| switch: "sys_run D n s \<Longrightarrow> running s = Some cur \<Longrightarrow> present (procs s) x \<Longrightarrow>
    switch_to ret sp (thread_at (procs s) cur) (thread_at (procs s) x) = Inr (a, b) \<Longrightarrow>
    sys_run D n (s\<lparr>procs := put_thread x b (put_thread cur a (procs s)), running := Some x\<rparr>)"
| stop: "sys_run D n s \<Longrightarrow> procs s i = Some p \<Longrightarrow>
    sys_run (if runs_process i s then insert (p_id p) D else D - {p_id p}) n (s\<lparr>procs := (procs s)(i \<mapsto> terminate p)\<rparr>)"
| release: "sys_run D n s \<Longrightarrow> procs s i = Some p \<Longrightarrow>
    sys_run D n (s\<lparr>sys_kernel := drop_process p (sys_kernel s), procs := (procs s)(i := None),
      running := (if runs_process i s then None else running s)\<rparr>)"

subsection \<open>The invariant\<close>

definition thread_inv :: "u64 set \<Rightarrow> u64 \<Rightarrow> thread_pos option \<Rightarrow> process_table \<Rightarrow> bool" where
  "thread_inv D n cur ps \<longleftrightarrow>
     (\<forall>x y. present ps x \<longrightarrow> present ps y \<longrightarrow> t_id (thread_at ps x) = t_id (thread_at ps y) \<longrightarrow> x = y)
     \<and> (\<forall>x. present ps x \<longrightarrow> t_id (thread_at ps x) < n \<and> process_id (thread_at ps x) = p_id (owner ps x)
          \<and> (t_state (thread_at ps x) = TRunning \<longrightarrow> cur = Some x)
          \<and> (p_state (owner ps x) = PTerminated \<longrightarrow> p_id (owner ps x) \<notin> D \<longrightarrow> t_state (thread_at ps x) = TTerminated))
     \<and> (\<forall>x. cur = Some x \<longrightarrow> present ps x \<and> (t_state (thread_at ps x) = TRunning \<or> p_id (owner ps x) \<in> D))"

lemma thread_invD:
  assumes "thread_inv D n cur ps"
  shows "cur = Some x \<Longrightarrow> present ps x"
    and "cur = Some x \<Longrightarrow> t_state (thread_at ps x) = TRunning \<or> p_id (owner ps x) \<in> D"
    and "\<And>x y. present ps x \<Longrightarrow> present ps y \<Longrightarrow> t_id (thread_at ps x) = t_id (thread_at ps y) \<Longrightarrow> x = y"
    and "\<And>x. present ps x \<Longrightarrow> t_id (thread_at ps x) < n"
    and "\<And>x. present ps x \<Longrightarrow> process_id (thread_at ps x) = p_id (owner ps x)"
    and "\<And>x. present ps x \<Longrightarrow> t_state (thread_at ps x) = TRunning \<Longrightarrow> cur = Some x"
    and "\<And>x. present ps x \<Longrightarrow> p_state (owner ps x) = PTerminated \<Longrightarrow> p_id (owner ps x) \<notin> D \<Longrightarrow> t_state (thread_at ps x) = TTerminated"
  using assms unfolding thread_inv_def by blast+

lemma thread_invI:
  assumes "\<And>x. cur = Some x \<Longrightarrow> present ps x \<and> (t_state (thread_at ps x) = TRunning \<or> p_id (owner ps x) \<in> D)"
    and "\<And>x y. present ps x \<Longrightarrow> present ps y \<Longrightarrow> t_id (thread_at ps x) = t_id (thread_at ps y) \<Longrightarrow> x = y"
    and "\<And>x. present ps x \<Longrightarrow> t_id (thread_at ps x) < n"
    and "\<And>x. present ps x \<Longrightarrow> process_id (thread_at ps x) = p_id (owner ps x)"
    and "\<And>x. present ps x \<Longrightarrow> t_state (thread_at ps x) = TRunning \<Longrightarrow> cur = Some x"
    and "\<And>x. present ps x \<Longrightarrow> p_state (owner ps x) = PTerminated \<Longrightarrow> p_id (owner ps x) \<notin> D \<Longrightarrow> t_state (thread_at ps x) = TTerminated"
  shows "thread_inv D n cur ps"
  using assms unfolding thread_inv_def by blast

definition process_inv :: "u64 \<Rightarrow> process_table \<Rightarrow> bool" where
  "process_inv n ps \<longleftrightarrow> (\<forall>i j p q. ps i = Some p \<longrightarrow> ps j = Some q \<longrightarrow> p_id p = p_id q \<longrightarrow> i = j)
     \<and> (\<forall>i p. ps i = Some p \<longrightarrow> p_id p < n \<and> (p_id p = 0 \<longrightarrow> p_name p = ''kernel_bootstrap''))"

definition sys_inv :: "u64 set \<Rightarrow> nat \<Rightarrow> system \<Rightarrow> bool" where
  "sys_inv D n s \<longleftrightarrow> thread_inv D (next_thread_id (sys_kernel s)) (running s) (procs s) \<and> process_inv (next_pid (sys_kernel s)) (procs s)
     \<and> unat (next_thread_id (sys_kernel s)) \<le> n \<and> unat (next_pid (sys_kernel s)) \<le> n \<and> next_pid (sys_kernel s) \<noteq> 0"

lemma word_less_succ:
  assumes "unat (n :: u64) + 1 < 2 ^ 64"
  shows "n < n + 1" and "x < n \<Longrightarrow> x < n + 1" and "unat (n + 1) = unat n + 1" and "n + 1 \<noteq> 0"
proof -
  show u: "unat (n + 1) = unat n + 1" using assms by (simp add: unat_word_ariths)
  then show "n < n + 1" "x < n \<Longrightarrow> x < n + 1" by (simp_all add: word_less_nat_alt)
  show "n + 1 \<noteq> 0" using u by (metis add_eq_0_iff_both_eq_0 unat_0 zero_neq_one)
qed

subsection \<open>Steps\<close>

lemma thread_new_counters:
  assumes "thread_new_raw name entry arg s = (res, s')"
  shows "next_pid s' = next_pid s"
    and "case res of Inl _ \<Rightarrow> next_thread_id s' = next_thread_id s
         | Inr t \<Rightarrow> t_id t = next_thread_id s \<and> next_thread_id s' = next_thread_id s + 1 \<and> t_state t = TCreated"
  using assms
  by (auto simp: thread_new_raw_def kernel_stack_allocate_def create_context_raw_def lift_vmm_def and_then_def Let_def
      split: if_splits prod.splits sum.splits)

lemma create_thread_cases:
  assumes "create_thread name entry arg p s = (res, p', s')"
  obtains (failed) "p' = p" "next_thread_id s' = next_thread_id s" "next_pid s' = next_pid s"
  | (made) t where "p_state p \<noteq> PTerminated" "p' = p\<lparr>p_threads := p_threads p @ [t]\<rparr>" "t_id t = next_thread_id s" "process_id t = p_id p"
      "t_state t = TCreated" "next_thread_id s' = next_thread_id s + 1" "next_pid s' = next_pid s"
proof (cases "p_state p = PTerminated")
  case False
  obtain tres s1 where n: "thread_new_raw name entry arg s = (tres, s1)" by (cases "thread_new_raw name entry arg s")
  note c = thread_new_counters [OF n]
  show thesis
  proof (cases tres)
    case (Inl e)
    then show thesis using assms n False c failed by (auto simp: create_thread_def)
  next
    case (Inr t)
    then show thesis using assms n False c made [of "t\<lparr>process_id := p_id p\<rparr>"] by (auto simp: create_thread_def)
  qed
qed (use assms failed in \<open>auto simp: create_thread_def\<close>)

text \<open>Replacing one process by another of the same name and identity whose threads correspond one to one.\<close>

lemma table_update:
  assumes "ps i = Some p" and "length (p_threads p') = length (p_threads p)" and "p_id p' = p_id p"
  shows "present (ps(i \<mapsto> p')) x \<longleftrightarrow> present ps x" and "p_id (owner (ps(i \<mapsto> p')) x) = p_id (owner ps x)"
    and "owner (ps(i \<mapsto> p')) x = (if fst x = i then p' else owner ps x)"
  using assms by (auto simp: present_def owner_def)

lemma process_inv_same:
  assumes "process_inv n ps" and "ps i = Some p" and "p_id p' = p_id p" and "p_name p' = p_name p"
  shows "process_inv n (ps(i \<mapsto> p'))"
proof -
  have "\<exists>q. ps j = Some q \<and> p_id r = p_id q \<and> p_name r = p_name q" if "(ps(i \<mapsto> p')) j = Some r" for j r
    using that assms(2-4) by (cases "j = i") auto
  note old = this
  show ?thesis unfolding process_inv_def
  proof (intro conjI allI impI)
    fix j k q r assume q: "(ps(i \<mapsto> p')) j = Some q" and r: "(ps(i \<mapsto> p')) k = Some r" and "p_id q = p_id r"
    with old [OF q] old [OF r] show "j = k" using assms(1) unfolding process_inv_def by auto
  next
    fix j q assume q: "(ps(i \<mapsto> p')) j = Some q"
    with old [OF q] assms(1) show "p_id q < n" "p_id q = 0 \<Longrightarrow> p_name q = ''kernel_bootstrap''" unfolding process_inv_def by auto
  qed
qed

lemma boot_inv_sys:
  assumes "next_thread_id k = 1" and "next_pid k = 1"
  shows "sys_inv {} 1 \<lparr>sys_kernel = k, procs = [0 \<mapsto> bootstrap_process k], running = Some (0, 0)\<rparr>"
proof -
  define ps where "ps = [0 :: nat \<mapsto> bootstrap_process k]"
  have pr: "present ps x \<longleftrightarrow> x = (0, 0)" for x by (cases x) (simp add: ps_def present_def bootstrap_process_def)
  have "t_id (thread_at ps (0, 0)) = 0" "process_id (thread_at ps (0, 0)) = 0" "t_state (thread_at ps (0, 0)) = TRunning"
    "p_id (owner ps (0, 0)) = 0" "p_state (owner ps (0, 0)) = PRunning"
    by (simp_all add: ps_def thread_at_def owner_def bootstrap_process_def bootstrap_thread_def)
  then have "thread_inv {} 1 (Some (0, 0)) ps" by (intro thread_invI) (simp_all add: pr)
  moreover have "process_inv 1 ps" by (simp add: ps_def process_inv_def bootstrap_process_def)
  ultimately show ?thesis using assms by (simp add: sys_inv_def ps_def)
qed

lemma process_inv_new:
  assumes "process_inv n ps" and "p_id p = n" and "unat n + 1 < 2 ^ 64" and "n \<noteq> 0"
  shows "process_inv (n + 1) (ps(i \<mapsto> p))"
proof -
  have l: "p_id q < n" if "ps j = Some q" for j q using assms(1) that by (auto simp: process_inv_def)
  have ne: "p_id q \<noteq> p_id p" if "ps j = Some q" for j q using l [OF that] assms(2) by auto
  have "j = k" if "(ps(i \<mapsto> p)) j = Some q" "(ps(i \<mapsto> p)) k = Some q'" "p_id q = p_id q'" for j k q q'
    using that ne assms(1) unfolding process_inv_def by (cases "j = i"; cases "k = i") (simp_all, metis+)
  moreover have "p_id q < n + 1 \<and> (p_id q = 0 \<longrightarrow> p_name q = ''kernel_bootstrap'')" if "(ps(i \<mapsto> p)) j = Some q" for j q
    using that assms word_less_succ(1,2) [OF assms(3)] unfolding process_inv_def by (cases "j = i") auto
  ultimately show ?thesis unfolding process_inv_def by blast
qed

text \<open>Processes that come without threads, or go, concern no other thread.\<close>

lemma thread_inv_cong:
  assumes inv: "thread_inv D n cur ps"
    and ps: "\<And>x. present ps' x \<Longrightarrow> present ps x \<and> thread_at ps' x = thread_at ps x \<and> owner ps' x = owner ps x"
    and cur: "\<And>x. cur' = Some x \<longleftrightarrow> cur = Some x \<and> present ps' x"
  shows "thread_inv D n cur' ps'"
proof (rule thread_invI)
  note d = thread_invD [OF inv]
  show "present ps' x \<and> (t_state (thread_at ps' x) = TRunning \<or> p_id (owner ps' x) \<in> D)" if "cur' = Some x" for x
    using cur [of x] ps [of x] d(2) [of x] that by auto
  show "x = y" if "present ps' x" "present ps' y" "t_id (thread_at ps' x) = t_id (thread_at ps' y)" for x y
    by (rule d(3)) (use ps [OF that(1)] ps [OF that(2)] that(3) in simp_all)
  fix x assume x: "present ps' x"
  show "t_id (thread_at ps' x) < n" "process_id (thread_at ps' x) = p_id (owner ps' x)" using ps [OF x] d(4,5) [of x] by simp_all
  show "cur' = Some x" if "t_state (thread_at ps' x) = TRunning" using that ps [OF x] d(6) [of x] cur [of x] x by simp
  show "t_state (thread_at ps' x) = TTerminated" if "p_state (owner ps' x) = PTerminated" "p_id (owner ps' x) \<notin> D"
    using that ps [OF x] d(7) [of x] by simp
qed

lemma thread_inv_new_process:
  assumes "thread_inv D n cur ps" and "p_threads p = []" and "ps i = None"
  shows "thread_inv D n cur (ps(i \<mapsto> p))"
proof -
  have pr: "present (ps(i \<mapsto> p)) x \<longleftrightarrow> present ps x" for x
    using assms(2,3) by (auto simp: present_def)
  have "thread_at (ps(i \<mapsto> p)) x = thread_at ps x" "owner (ps(i \<mapsto> p)) x = owner ps x" if "present ps x" for x
    using that assms(3) by (auto simp: present_def thread_at_def owner_def)
  then show ?thesis by (intro thread_inv_cong [OF assms(1)]) (auto simp: pr dest: thread_invD(1) [OF assms(1)])
qed

lemma thread_inv_dropped:
  assumes "thread_inv D n cur ps"
  shows "thread_inv D n (case cur of None \<Rightarrow> None | Some x \<Rightarrow> if fst x = i then None else Some x) (ps(i := None))"
proof -
  have pr: "present (ps(i := None)) x \<longleftrightarrow> present ps x \<and> fst x \<noteq> i" for x by (simp add: present_def)
  have "thread_at (ps(i := None)) x = thread_at ps x" "owner (ps(i := None)) x = owner ps x" if "fst x \<noteq> i" for x
    using that by (simp_all add: thread_at_def owner_def)
  then show ?thesis by (intro thread_inv_cong [OF assms]) (auto simp: pr dest: thread_invD(1) [OF assms] split: option.splits if_splits)
qed

lemma thread_inv_attach:
  assumes inv: "thread_inv D n cur ps" and p: "ps i = Some p" and st: "p_state p \<noteq> PTerminated"
    and t: "t_id t = n" "process_id t = p_id p" "t_state t = TCreated" and n: "unat n + 1 < 2 ^ 64"
  shows "thread_inv D (n + 1) cur (ps(i \<mapsto> p\<lparr>p_threads := p_threads p @ [t]\<rparr>))"
proof -
  let ?ps = "ps(i \<mapsto> p\<lparr>p_threads := p_threads p @ [t]\<rparr>)" and ?new = "(i, length (p_threads p))"
  have pr: "present ?ps x \<longleftrightarrow> present ps x \<or> x = ?new" for x
    using p by (cases x) (auto simp: present_def)
  have nn: "\<not> present ps ?new" using p by (simp add: present_def)
  have at: "thread_at ?ps x = (if x = ?new then t else thread_at ps x)" if "present ?ps x" for x
    using that p by (cases x) (auto simp: present_def thread_at_def owner_def nth_append less_Suc_eq)
  have pp: "p_id (owner ?ps x) = p_id (owner ps x)" "p_state (owner ?ps x) = p_state (owner ps x)" for x
    using p by (simp_all add: owner_def)
  have new: "owner ps ?new = p" using p by (simp add: owner_def)
  note d = thread_invD [OF inv]
  show ?thesis
  proof (rule thread_invI)
    show "present ?ps x \<and> (t_state (thread_at ?ps x) = TRunning \<or> p_id (owner ?ps x) \<in> D)" if "cur = Some x" for x
      using d(1,2) [OF that] pr [of x] at [of x] nn pp by auto
    show "x = y" if "present ?ps x" "present ?ps y" "t_id (thread_at ?ps x) = t_id (thread_at ?ps y)" for x y
      using that pr at [OF that(1)] at [OF that(2)] d(3,4) t(1) by (metis order_less_irrefl)
    fix x assume x: "present ?ps x"
    show "t_id (thread_at ?ps x) < n + 1" using at [OF x] x pr [of x] d(4) [of x] t(1) word_less_succ [OF n] by auto
    show "process_id (thread_at ?ps x) = p_id (owner ?ps x)" using at [OF x] x pr [of x] d(5) [of x] t(2) pp new by auto
    show "cur = Some x" if "t_state (thread_at ?ps x) = TRunning" using that at [OF x] x pr [of x] d(6) [of x] t(3) by (auto split: if_splits)
    show "t_state (thread_at ?ps x) = TTerminated" if "p_state (owner ?ps x) = PTerminated" "p_id (owner ?ps x) \<notin> D"
      using that at [OF x] x pr [of x] d(7) [of x] st pp new by auto
  qed
qed

lemma put_thread_facts:
  assumes x: "present ps x"
  shows "present (put_thread x t ps) y \<longleftrightarrow> present ps y"
    and "thread_at (put_thread x t ps) y = (if y = x then t else thread_at ps y)"
    and "p_id (owner (put_thread x t ps) y) = p_id (owner ps y)" and "p_state (owner (put_thread x t ps) y) = p_state (owner ps y)"
    and "process_inv n ps \<Longrightarrow> process_inv n (put_thread x t ps)"
proof -
  obtain p where p: "ps (fst x) = Some p" and j: "snd x < length (p_threads p)" using x by (auto simp: present_def split: option.splits)
  have put: "put_thread x t ps = ps(fst x \<mapsto> p\<lparr>p_threads := (p_threads p)[snd x := t]\<rparr>)" using p by (simp add: put_thread_def owner_def)
  show "present (put_thread x t ps) y \<longleftrightarrow> present ps y" "p_id (owner (put_thread x t ps) y) = p_id (owner ps y)"
    unfolding put using p table_update(1,2) [where ps = ps and i = "fst x" and p = p and p' = "p\<lparr>p_threads := (p_threads p)[snd x := t]\<rparr>"] by simp_all
  show "p_state (owner (put_thread x t ps) y) = p_state (owner ps y)" unfolding put using p by (simp add: owner_def)
  show "thread_at (put_thread x t ps) y = (if y = x then t else thread_at ps y)"
    unfolding put using p j by (cases x; cases y) (auto simp: thread_at_def owner_def nth_list_update)
  show "process_inv n ps \<Longrightarrow> process_inv n (put_thread x t ps)" unfolding put by (rule process_inv_same [where ps = ps and i = "fst x", OF _ p]) simp_all
qed

lemma switch_to_Inr:
  assumes "switch_to ret sp a b = Inr (a', b')"
  shows "t_id a \<noteq> t_id b" and "t_state b \<noteq> TTerminated" and "t_id a' = t_id a" and "t_id b' = t_id b"
    and "process_id a' = process_id a" and "process_id b' = process_id b" and "t_state a' = TReady" and "t_state b' = TRunning"
  using assms by (auto simp: switch_to_def split: if_splits)

text \<open>The table after a switch.\<close>

lemma switched_table:
  fixes a b :: kernel_thread
  assumes cur: "present ps cur" and x: "present ps x" and ne: "cur \<noteq> x"
  defines "ps' \<equiv> put_thread x b (put_thread cur a ps)"
  shows "present ps' y \<longleftrightarrow> present ps y" and "thread_at ps' y = (if y = x then b else if y = cur then a else thread_at ps y)"
    and "p_id (owner ps' y) = p_id (owner ps y)" and "p_state (owner ps' y) = p_state (owner ps y)"
    and "process_inv n ps \<Longrightarrow> process_inv n ps'"
proof -
  have x1: "present (put_thread cur a ps) x" using put_thread_facts(1) [OF cur] x by simp
  note f = put_thread_facts [OF cur] put_thread_facts [OF x1]
  show "present ps' y \<longleftrightarrow> present ps y" "thread_at ps' y = (if y = x then b else if y = cur then a else thread_at ps y)"
    "p_id (owner ps' y) = p_id (owner ps y)" "p_state (owner ps' y) = p_state (owner ps y)" "process_inv n ps \<Longrightarrow> process_inv n ps'"
    by (simp_all add: ps'_def f)
qed

lemma thread_inv_switch:
  assumes inv: "thread_inv D n (Some cur) ps" and x: "present ps x"
    and sw: "switch_to ret sp (thread_at ps cur) (thread_at ps x) = Inr (a, b)"
  shows "thread_inv D n (Some x) (put_thread x b (put_thread cur a ps))"
proof -
  note d = thread_invD [OF inv] and k = switch_to_Inr [OF sw]
  have cur: "present ps cur" and run: "t_state (thread_at ps cur) = TRunning \<or> p_id (owner ps cur) \<in> D" using d(1,2) by simp_all
  have ne: "cur \<noteq> x" using k(1) by auto
  let ?ps = "put_thread x b (put_thread cur a ps)"
  note f = switched_table [OF cur x ne, where a = a and b = b]
  have ids: "t_id (thread_at ?ps y) = t_id (thread_at ps y)" "process_id (thread_at ?ps y) = process_id (thread_at ps y)" for y
    using f(2) [of y] k ne by auto
  have live: "p_state (owner ps y) \<noteq> PTerminated \<or> p_id (owner ps y) \<in> D" if "y = cur \<or> y = x" for y
    using that run d(7) [OF cur] d(7) [OF x] k(2) by fastforce
  show ?thesis
  proof (rule thread_invI)
    show "present ?ps y \<and> (t_state (thread_at ?ps y) = TRunning \<or> p_id (owner ?ps y) \<in> D)" if "Some x = Some y" for y
      using that x f(1,2) k(8) by simp
    fix y assume "present ?ps y"
    then have y: "present ps y" using f(1) by simp
    show "t_id (thread_at ?ps y) < n" "process_id (thread_at ?ps y) = p_id (owner ?ps y)" using d(4,5) [OF y] ids f(3) by simp_all
    show "Some x = Some y" if "t_state (thread_at ?ps y) = TRunning"
      using that d(6) [OF y] f(2) [of y] k(7) by (auto split: if_splits)
    show "t_state (thread_at ?ps y) = TTerminated" if "p_state (owner ?ps y) = PTerminated" "p_id (owner ?ps y) \<notin> D"
      using that d(7) [OF y] f(2-4) [of y] live [of y] by auto
  qed (use f(1) d(3) ids in auto)
qed

lemma terminated_table:
  assumes p: "ps i = Some p"
  shows "present (ps(i \<mapsto> terminate p)) y \<longleftrightarrow> present ps y"
    and "present ps y \<Longrightarrow> thread_at (ps(i \<mapsto> terminate p)) y = (if fst y = i then (thread_at ps y)\<lparr>t_state := TTerminated\<rparr> else thread_at ps y)"
    and "p_id (owner (ps(i \<mapsto> terminate p)) y) = p_id (owner ps y)"
    and "p_state (owner (ps(i \<mapsto> terminate p)) y) = (if fst y = i then PTerminated else p_state (owner ps y))"
  using p by (auto simp: present_def thread_at_def owner_def terminate_def split: option.splits)

lemma thread_inv_stop:
  assumes inv: "thread_inv D n cur ps" and u: "process_inv m ps" and p: "ps i = Some p"
  shows "thread_inv (if \<exists>j. cur = Some (i, j) then insert (p_id p) D else D - {p_id p}) n cur (ps(i \<mapsto> terminate p))"
    (is "thread_inv ?D n cur ?ps")
proof -
  note d = thread_invD [OF inv] and f = terminated_table [where ps = ps and i = i, OF p]
  have ids: "t_id (thread_at ?ps y) = t_id (thread_at ps y)" "process_id (thread_at ?ps y) = process_id (thread_at ps y)" if "present ps y" for y
    using f(2) [OF that] by auto
  have own: "p_id (owner ps y) = p_id p \<longleftrightarrow> fst y = i" if "present ps y" for y
    using that u p unfolding process_inv_def present_def owner_def by (auto split: option.splits)
  show ?thesis
  proof (rule thread_invI)
    show "present ?ps y \<and> (t_state (thread_at ?ps y) = TRunning \<or> p_id (owner ?ps y) \<in> ?D)" if c: "cur = Some y" for y
      using d(1,2) [OF c] f [of y] own [OF d(1) [OF c]] c by (cases y) auto
    fix y assume "present ?ps y"
    then have y: "present ps y" using f(1) by simp
    show "t_id (thread_at ?ps y) < n" "process_id (thread_at ?ps y) = p_id (owner ?ps y)"
      using d(4,5) [OF y] ids [OF y] f(3) by simp_all
    show "cur = Some y" if "t_state (thread_at ?ps y) = TRunning" using that d(6) [OF y] f(2) [OF y] by (auto split: if_splits)
    show "t_state (thread_at ?ps y) = TTerminated" if "p_state (owner ?ps y) = PTerminated" "p_id (owner ?ps y) \<notin> ?D"
      using that d(7) [OF y] f(2) [OF y] f(3,4) [of y] own [OF y] by (auto split: if_splits)
  qed (use f(1) d(3) ids in auto)
qed

lemma sys_run_inv: "sys_run D n s \<Longrightarrow> n < 2 ^ 64 \<Longrightarrow> sys_inv D n s"
proof (induction rule: sys_run.induct)
  case (boot k)
  then show ?case using boot_inv_sys by simp
next
  case (spawn D n s i name p k)
  have p: "p_id p = next_pid (sys_kernel s)" "p_threads p = []" "next_pid k = next_pid (sys_kernel s) + 1"
    "next_thread_id k = next_thread_id (sys_kernel s)"
    using spawn.hyps(3) by (auto simp: process_new_def Let_def split: prod.splits sum.splits)
  have inv: "sys_inv D n s" using spawn.IH spawn.prems by simp
  then have n: "unat (next_pid (sys_kernel s)) + 1 < 2 ^ 64" using spawn.prems by (simp add: sys_inv_def)
  show ?case
    using inv p thread_inv_new_process [where ps = "procs s" and i = i, OF _ p(2) spawn.hyps(2)] process_inv_new [OF _ p(1) n] word_less_succ(3,4) [OF n]
    by (auto simp: sys_inv_def)
next
  case (spawn_fails D n s name e k)
  then have "next_pid k = next_pid (sys_kernel s)" "next_thread_id k = next_thread_id (sys_kernel s)"
    by (auto simp: process_new_def Let_def split: prod.splits sum.splits)
  then show ?case using spawn_fails by (simp add: sys_inv_def)
next
  case (attach D n s i p name entry arg res p' k)
  have inv: "sys_inv D n s" using attach.IH attach.prems by simp
  then have n: "unat (next_thread_id (sys_kernel s)) + 1 < 2 ^ 64" using attach.prems by (simp add: sys_inv_def)
  from attach.hyps(3) show ?case
  proof (cases rule: create_thread_cases)
    case failed
    then show ?thesis using inv attach.hyps(2) by (simp add: sys_inv_def fun_upd_idem)
  next
    case (made t)
    then show ?thesis
      using inv thread_inv_attach [where ps = "procs s" and i = i, OF _ attach.hyps(2) made(1) made(3-5) n] process_inv_same [where ps = "procs s" and i = i and p' = p', OF _ attach.hyps(2)] word_less_succ(3) [OF n]
      by (auto simp: sys_inv_def)
  qed
next
  case (switch D n s cur x ret sp a b)
  have inv: "sys_inv D n s" using switch.IH switch.prems by simp
  then have t: "thread_inv D (next_thread_id (sys_kernel s)) (Some cur) (procs s)" using switch.hyps(2) by (simp add: sys_inv_def)
  have "cur \<noteq> x" using switch_to_Inr(1) [OF switch.hyps(4)] by auto
  with inv t show ?case
    using thread_inv_switch [OF t switch.hyps(3,4)] switched_table(5) [OF thread_invD(1) [OF t refl] switch.hyps(3)] by (simp add: sys_inv_def)
next
  case (stop D n s i p)
  have r: "runs_process i s \<longleftrightarrow> (\<exists>j. running s = Some (i, j))" by (auto simp: runs_process_def split: option.splits)
  have inv: "sys_inv D n s" using stop.IH stop.prems by simp
  then have "thread_inv D (next_thread_id (sys_kernel s)) (running s) (procs s)" "process_inv (next_pid (sys_kernel s)) (procs s)"
    by (simp_all add: sys_inv_def)
  note t = thread_inv_stop [where ps = "procs s" and i = i, OF this stop.hyps(2)]
    and u = process_inv_same [where ps = "procs s" and i = i and p' = "terminate p", OF this(2) stop.hyps(2)]
  show ?case using t u inv unfolding r sys_inv_def by (simp add: terminate_def)
next
  case (release D n s i p)
  have r: "(if runs_process i s then None else running s) = (case running s of None \<Rightarrow> None | Some x \<Rightarrow> if fst x = i then None else Some x)"
    by (simp add: runs_process_def split: option.splits)
  have "next_thread_id (drop_process p (sys_kernel s)) = next_thread_id (sys_kernel s)" "next_pid (drop_process p (sys_kernel s)) = next_pid (sys_kernel s)"
    by (simp_all add: drop_process_def)
  moreover have "process_inv m ((procs s)(i := None))" if "process_inv m (procs s)" for m
    using that unfolding process_inv_def by (auto split: if_splits) 
  ultimately show ?case using release.IH release.prems thread_inv_dropped unfolding r by (simp add: sys_inv_def)
qed

subsection \<open>Properties\<close>

text \<open>A process passes its check unless it was terminated and yet its thread is on the processor as Running.\<close>

lemma verify_exact:
  assumes inv: "sys_inv D n s" and p: "procs s i = Some p"
  shows "verify p = Inr () \<longleftrightarrow>
    \<not> (p_state p = PTerminated \<and> (\<exists>j. running s = Some (i, j) \<and> t_state (thread_at (procs s) (i, j)) = TRunning))"
proof -
  have t: "thread_inv D (next_thread_id (sys_kernel s)) (running s) (procs s)"
    and q: "process_inv (next_pid (sys_kernel s)) (procs s)" using inv by (simp_all add: sys_inv_def)
  note d = thread_invD [OF t]
  have pr: "present (procs s) (i, j) \<longleftrightarrow> j < length (p_threads p)" "thread_at (procs s) (i, j) = p_threads p ! j" "owner (procs s) (i, j) = p" for j
    using p by (simp_all add: present_def thread_at_def owner_def)
  have "\<forall>u \<in> set (p_threads p). process_id u = p_id p" using d(5) pr by (metis in_set_conv_nth)
  moreover have "distinct (map t_id (p_threads p))" unfolding distinct_conv_nth using d(3) pr by (metis length_map nth_map snd_conv)
  moreover have "p_id p = 0 \<longrightarrow> p_name p = ''kernel_bootstrap''" using q p by (auto simp: process_inv_def)
  moreover have "(\<forall>u \<in> set (p_threads p). t_state u \<noteq> TRunning) \<longleftrightarrow> \<not> (\<exists>j. running s = Some (i, j) \<and> t_state (thread_at (procs s) (i, j)) = TRunning)"
    using d(1,6) pr by (metis in_set_conv_nth)
  ultimately show ?thesis unfolding verify_iff by blast
qed

text \<open>C4. In every state the process and thread layer can reach with fewer than \<open>2 ^ 64\<close> identities, by any sequence of creations,
  switches, terminations and drops: a process fails \<^verbatim>\<open>Process::verify\<close> exactly when it is terminated and its thread is
  on the processor as Running, and this happens only to a process that was terminated by its own thread (a member of \<open>D\<close>); every
  other process passes, and once terminated has Terminated threads only.  At most one thread of the whole system is Running, the one on the processor, which
  is Running unless its process is in \<open>D\<close>; thread identities are unique across processes, and so are process identities.\<close>
theorem sys_run_consistent:
  assumes "sys_run D n s" and "n < 2 ^ 64"
  shows "(\<forall>i p. procs s i = Some p \<longrightarrow>
        (verify p = Inr () \<longleftrightarrow> \<not> (p_state p = PTerminated \<and> (\<exists>j. running s = Some (i, j) \<and> t_state (thread_at (procs s) (i, j)) = TRunning)))
        \<and> (p_id p \<notin> D \<longrightarrow> verify p = Inr () \<and> (p_state p = PTerminated \<longrightarrow> (\<forall>t \<in> set (p_threads p). t_state t = TTerminated))))
    \<and> (\<forall>x. present (procs s) x \<longrightarrow> t_state (thread_at (procs s) x) = TRunning \<longrightarrow> running s = Some x)
    \<and> (\<forall>x. running s = Some x \<longrightarrow> present (procs s) x \<and> (t_state (thread_at (procs s) x) = TRunning \<or> p_id (owner (procs s) x) \<in> D))
    \<and> (\<forall>x y. present (procs s) x \<longrightarrow> present (procs s) y
          \<longrightarrow> t_id (thread_at (procs s) x) = t_id (thread_at (procs s) y) \<longrightarrow> x = y)
    \<and> (\<forall>i j p q. procs s i = Some p \<longrightarrow> procs s j = Some q \<longrightarrow> p_id p = p_id q \<longrightarrow> i = j)"
proof -
  have inv: "sys_inv D n s" by (rule sys_run_inv [OF assms])
  then have t: "thread_inv D (next_thread_id (sys_kernel s)) (running s) (procs s)"
    and q: "process_inv (next_pid (sys_kernel s)) (procs s)" by (simp_all add: sys_inv_def)
  note d = thread_invD [OF t]
  have fin: "\<forall>u \<in> set (p_threads p). t_state u = TTerminated" if "procs s i = Some p" "p_id p \<notin> D" "p_state p = PTerminated" for i p
  proof
    fix u assume "u \<in> set (p_threads p)"
    then obtain j where "j < length (p_threads p)" "u = p_threads p ! j" by (auto simp: in_set_conv_nth)
    then show "t_state u = TTerminated" using d(7) [of "(i, j)"] that by (simp add: present_def thread_at_def owner_def)
  qed
  have ok: "verify p = Inr ()" if p: "procs s i = Some p" "p_id p \<notin> D" for i p
  proof -
    have "t_state (thread_at (procs s) (i, j)) \<noteq> TRunning" if "running s = Some (i, j)" "p_state p = PTerminated" for j
      using d(1) [OF that(1)] d(7) [of "(i, j)"] p that(2) by (simp add: owner_def)
    then show ?thesis using verify_exact [OF inv p(1)] by blast
  qed
  show ?thesis
    using verify_exact [OF inv] fin ok d(1-3,6) q unfolding process_inv_def by (intro conjI allI impI) (blast | metis)+
qed

text \<open>Terminating the process of the running thread is not final.\<close>

lemma switched_to:
  assumes "switch_to ret sp a b = Inr (a', b')"
  shows "a' = a\<lparr>t_state := TReady, t_context := suspend_context ret sp (t_context a)\<rparr>"
    and "b' = b\<lparr>t_state := TRunning, t_context := resume_context (t_context b)\<rparr>"
  using assms by (auto simp: switch_to_def split: if_splits)

lemma switch_to_suspended:
  assumes "t_id a \<noteq> t_id b" and "t_state b \<noteq> TTerminated" and "t_context b = suspend_context ret sp c"
    and "sp \<noteq> 72" "is_canonical (sp - 72)" "ret \<noteq> 0" "is_canonical ret"
  shows "\<exists>a' b'. switch_to ret' sp' a b = Inr (a', b')"
  using assms by (simp add: switch_to_def suspend_context_def)

lemma verify_cases: "verify p = Inr () \<or> verify p = Inl InvariantViolation"
  by (simp add: verify_def)

text \<open>C39. Termination is not final for the thread on the processor.  In any reachable state whose running thread can switch to a thread of
  another process: once its own process is terminated the running thread is Terminated, but the switch is still accepted and turns its state into
  Ready; the other thread may then switch back, which makes it Running again, in a process that is still terminated and now fails its own
  check.  All the states in between are reachable.\<close>
theorem terminated_thread_revived:
  assumes run: "sys_run D n s" "n < 2 ^ 64" and cur: "running s = Some (i, j)" and p: "procs s i = Some p"
    and x: "present (procs s) x" "fst x \<noteq> i" and sw: "switch_to ret sp (thread_at (procs s) (i, j)) (thread_at (procs s) x) = Inr ab"
    and frame: "sp \<noteq> 72" "is_canonical (sp - 72)" "ret \<noteq> 0" "is_canonical ret"
  shows "\<exists>a b a' b'. let s1 = s\<lparr>procs := (procs s)(i \<mapsto> terminate p)\<rparr>;
        s2 = s1\<lparr>procs := put_thread x b (put_thread (i, j) a (procs s1)), running := Some x\<rparr>;
        s3 = s2\<lparr>procs := put_thread (i, j) b' (put_thread x a' (procs s2)), running := Some (i, j)\<rparr> in
      sys_run (insert (p_id p) D) n s1 \<and> t_state (thread_at (procs s1) (i, j)) = TTerminated
    \<and> switch_to ret sp (thread_at (procs s1) (i, j)) (thread_at (procs s1) x) = Inr (a, b)
    \<and> sys_run (insert (p_id p) D) n s2 \<and> t_state (thread_at (procs s2) (i, j)) = TReady
    \<and> switch_to ret' sp' (thread_at (procs s2) x) (thread_at (procs s2) (i, j)) = Inr (a', b')
    \<and> sys_run (insert (p_id p) D) n s3 \<and> t_state (thread_at (procs s3) (i, j)) = TRunning
    \<and> p_state (owner (procs s3) (i, j)) = PTerminated \<and> verify (owner (procs s3) (i, j)) = Inl InvariantViolation"
proof -
  define s1 where "s1 = s\<lparr>procs := (procs s)(i \<mapsto> terminate p)\<rparr>"
  let ?D = "insert (p_id p) D" and ?t = "(i, j)"
  have r1: "sys_run ?D n s1" using stop [OF run(1) p] cur by (simp add: s1_def runs_process_def)
  have c: "present (procs s) ?t" using sys_run_inv [OF run] cur by (auto simp: sys_inv_def dest: thread_invD(1))
  note f = terminated_table [where ps = "procs s" and i = i, OF p]
  have t1: "thread_at (procs s1) ?t = (thread_at (procs s) ?t)\<lparr>t_state := TTerminated\<rparr>" "thread_at (procs s1) x = thread_at (procs s) x"
    "present (procs s1) ?t" "present (procs s1) x" "p_state (owner (procs s1) ?t) = PTerminated" "running s1 = Some ?t"
    using f(1,4) f(2) [OF c] f(2) [OF x(1)] c x cur by (simp_all add: s1_def)
  have id: "t_id (thread_at (procs s) ?t) \<noteq> t_id (thread_at (procs s) x)" using sw by (auto simp: switch_to_def split: if_splits)
  obtain a b where ab: "switch_to ret sp (thread_at (procs s1) ?t) (thread_at (procs s1) x) = Inr (a, b)"
    using sw t1(1,2) by (auto simp: switch_to_def split: if_splits)
  define s2 where "s2 = s1\<lparr>procs := put_thread x b (put_thread ?t a (procs s1)), running := Some x\<rparr>"
  have ne: "?t \<noteq> x" using x(2) by auto
  note g = switched_table [OF t1(3,4) ne, where a = a and b = b]
  have r2: "sys_run ?D n s2" unfolding s2_def by (rule switch [OF r1 t1(6,4) ab])
  have t2: "thread_at (procs s2) ?t = a" "thread_at (procs s2) x = b" "present (procs s2) ?t" "present (procs s2) x"
    "p_state (owner (procs s2) ?t) = PTerminated" "running s2 = Some x"
    using g t1 ne by (simp_all add: s2_def)
  have "\<exists>a' b'. switch_to ret' sp' (thread_at (procs s2) x) (thread_at (procs s2) ?t) = Inr (a', b')"
    by (rule switch_to_suspended [where c = "t_context (thread_at (procs s) ?t)", OF _ _ _ frame])
      (use id t2(1,2) t1(1,2) switched_to [OF ab] in simp_all)
  then obtain a' b' where ab': "switch_to ret' sp' (thread_at (procs s2) x) (thread_at (procs s2) ?t) = Inr (a', b')" by blast
  define s3 where "s3 = s2\<lparr>procs := put_thread ?t b' (put_thread x a' (procs s2)), running := Some ?t\<rparr>"
  have r3: "sys_run ?D n s3" unfolding s3_def by (rule switch [OF r2 t2(6,3) ab'])
  have t3: "thread_at (procs s3) ?t = b'" "p_state (owner (procs s3) ?t) = PTerminated" "present (procs s3) ?t" "running s3 = Some ?t"
    using switched_table [OF t2(4,3) ne [symmetric], where a = a' and b = b'] t2(3,5) by (simp_all add: s3_def)
  have st: "t_state a = TReady" "t_state b' = TRunning" using switched_to [OF ab] switched_to [OF ab'] by simp_all
  have "procs s3 i = Some (owner (procs s3) ?t)" using t3(3) by (auto simp: present_def owner_def split: option.splits)
  from verify_exact [OF sys_run_inv [OF r3 run(2)] this] have "verify (owner (procs s3) ?t) = Inl InvariantViolation"
    using t3 st(2) verify_cases by metis
  then show ?thesis
    using r1 r2 r3 ab ab' t1(1) t2(1) t3(1,2) st unfolding s3_def s2_def s1_def Let_def
    by (intro exI [of _ a] exI [of _ b] exI [of _ a'] exI [of _ b']) simp
qed

end
