(* ===== verification/Coroutine.thy ===== *)
theory Coroutine
  imports Main
begin

text \<open>
  Code that hands the processor over by explicit switches, as the self-tests of contexts, threads and processes do.  A function is a list
  of actions; a switch names its call site, the context it saves into and the context it resumes.  What remains of the running code is
  what the saved return address stands for: that resuming a context continues exactly there, with the registers and the stack as they were, is the
  property \<open>switch_context_resumes\<close> of the assembly, and that a fresh one starts its function is \<open>fresh_context_starts\<close>.

  The locale \<open>handover\<close> is the contract of a switch operation: from the running context to any other it is accepted and changes none of
  the data that the functions work on.  Under it, code that behaves on the data alone behaves on the whole state.
\<close>

text \<open>The tests use three contexts: the one that runs the test and two others.\<close>

datatype tid = MainT | FirstT | SecondT

datatype 's action = Do "'s \<Rightarrow> string + 's" | Switch nat tid tid

type_synonym 's code = "'s action list"

text \<open>The functions of the test: a halt is the left result with its message; a function that returns to the trampoline halts the processor.\<close>

definition kernel_context_trampoline :: "'s code \<Rightarrow> 's code" where
  "kernel_context_trampoline entry_fn = entry_fn @ [Do (\<lambda>_. Inl ''Execution completed safely - entering halt loop'')]"

definition check :: "('s \<Rightarrow> bool) \<Rightarrow> string \<Rightarrow> 's action" where
  "check ok msg = Do (\<lambda>s. if ok s then Inr s else Inl msg)"

definition assign :: "('s \<Rightarrow> 's) \<Rightarrow> 's action" where
  "assign f = Do (\<lambda>s. Inr (f s))"

definition code_left :: "(tid \<Rightarrow> 's code) \<Rightarrow> nat" where
  "code_left k = length (k MainT) + length (k FirstT) + length (k SecondT)"

lemma code_left_upd: "code_left (k(a := c)) + length (k a) = code_left k + length c"
  by (cases a) (simp_all add: code_left_def)

function run_co :: "(nat \<Rightarrow> tid \<Rightarrow> tid \<Rightarrow> 's \<Rightarrow> string + 's) \<Rightarrow> (tid \<Rightarrow> 's code) \<Rightarrow> 's code \<Rightarrow> 's \<Rightarrow> string + 's" where
  "run_co sw k [] s = Inr s"
| "run_co sw k (Do f # c) s = (case f s of Inl e \<Rightarrow> Inl e | Inr s' \<Rightarrow> run_co sw k c s')"
| "run_co sw k (Switch n a b # c) s =
     (case sw n a b s of
        Inl e \<Rightarrow> Inl e
      | Inr s' \<Rightarrow> run_co sw (k(a := c, b := [])) ((k(a := c)) b) s')"
  by pat_completeness auto
termination
proof (relation "measure (\<lambda>(sw, k, c, s). code_left k + length c)")
  fix sw :: "nat \<Rightarrow> tid \<Rightarrow> tid \<Rightarrow> 's \<Rightarrow> string + 's" and k :: "tid \<Rightarrow> 's code" and n a b c s s'
  show "((sw, k(a := c, b := []), (k(a := c)) b, s'), sw, k, Switch n a b # c, s) \<in> measure (\<lambda>(sw, k, c, s). code_left k + length c)"
    using code_left_upd [of "k(a := c)" b "[]"] code_left_upd [of k a c] by simp
qed simp_all

text \<open>The code each context still has to run when the test gives the processor away.\<close>

definition pending :: "'m code \<Rightarrow> 'm code \<Rightarrow> tid \<Rightarrow> 'm code" where
  "pending a b t = (case t of MainT \<Rightarrow> [] | FirstT \<Rightarrow> kernel_context_trampoline a | SecondT \<Rightarrow> kernel_context_trampoline b)"

definition bind_sum :: "'e + 'a \<Rightarrow> ('a \<Rightarrow> 'e + 'b) \<Rightarrow> 'e + 'b" where
  "bind_sum r f = (case r of Inl e \<Rightarrow> Inl e | Inr a \<Rightarrow> f a)"

lemma bind_sum_simps [simp]: "bind_sum (Inl e) f = Inl e" "bind_sum (Inr a) f = f a"
  by (simp_all add: bind_sum_def)

subsection \<open>The contract of a switch\<close>

text \<open>Code on the data, placed into the whole state.\<close>

fun place :: "('s \<Rightarrow> 'm) \<Rightarrow> ('m \<Rightarrow> 's \<Rightarrow> 's) \<Rightarrow> 'm action \<Rightarrow> 's action" where
  "place get put (Do f) = Do (\<lambda>s. case f (get s) of Inl e \<Rightarrow> Inl e | Inr m \<Rightarrow> Inr (put m s))"
| "place get put (Switch n a b) = Switch n a b"

abbreviation place_code :: "('s \<Rightarrow> 'm) \<Rightarrow> ('m \<Rightarrow> 's \<Rightarrow> 's) \<Rightarrow> 'm code \<Rightarrow> 's code" where
  "place_code get put \<equiv> map (place get put)"

text \<open>The switch of the specification: it records which context runs, and only the running one can give the processor away.\<close>

definition spec_switch :: "nat \<Rightarrow> tid \<Rightarrow> tid \<Rightarrow> tid \<times> 'm \<Rightarrow> string + (tid \<times> 'm)" where
  "spec_switch n a b rm = (if fst rm = a \<and> a \<noteq> b then Inr (b, snd rm) else Inl ''not the running context'')"

lemma spec_switch_accepted [simp]: "a \<noteq> b \<Longrightarrow> spec_switch n a b (a, m) = Inr (b, m)"
  by (simp add: spec_switch_def)

abbreviation spec_code :: "'m code \<Rightarrow> (tid \<times> 'm) code" where
  "spec_code \<equiv> place_code snd (\<lambda>m rm. (fst rm, m))"

lemmas co_simps = check_def assign_def kernel_context_trampoline_def pending_def

definition pair_spec :: "'m code \<Rightarrow> 'm code \<Rightarrow> 'm code \<Rightarrow> 'm \<Rightarrow> string + (tid \<times> 'm)" where
  "pair_spec a b main m = run_co spec_switch (\<lambda>t. spec_code (pending a b t)) (spec_code main) (MainT, m)"

locale handover =
  fixes sw :: "nat \<Rightarrow> tid \<Rightarrow> tid \<Rightarrow> 's \<Rightarrow> string + 's" and inv :: "tid \<Rightarrow> 's \<Rightarrow> bool"
    and get :: "'s \<Rightarrow> 'm" and put :: "'m \<Rightarrow> 's \<Rightarrow> 's"
  assumes accepted_switch: "inv a s \<Longrightarrow> a \<noteq> b \<Longrightarrow> \<exists>s'. sw n a b s = Inr s' \<and> inv b s' \<and> get s' = get s"
    and get_put: "get (put m s) = m"
    and inv_put: "inv r s \<Longrightarrow> inv r (put m s)"
begin

text \<open>A run of the specification is a run of the code.\<close>

lemma run_spec:
  assumes "run_co spec_switch (\<lambda>t. spec_code (k t)) (spec_code c) (r, m) = Inr (r', m')"
    and "inv r s" and "get s = m"
  shows "\<exists>s'. run_co sw (\<lambda>t. place_code get put (k t)) (place_code get put c) s = Inr s' \<and> inv r' s' \<and> get s' = m'"
proof -
  have "\<exists>s'. run_co sw (\<lambda>t. place_code get put (k t)) (place_code get put c) s = Inr s' \<and> inv r' s' \<and> get s' = m'"
    if "n = code_left k + length c" "run_co spec_switch (\<lambda>t. spec_code (k t)) (spec_code c) (r, m) = Inr (r', m')" "inv r s" "get s = m"
    for n k c r m s
    using that
  proof (induction n arbitrary: k c r m s rule: less_induct)
    case (less n)
    note prems = less.prems
    show ?case
    proof (cases c)
      case Nil
      then show ?thesis using prems by simp
    next
      case (Cons x c')
      show ?thesis
      proof (cases x)
        case (Do f)
        then obtain m1 where f: "f m = Inr m1" and r: "run_co spec_switch (\<lambda>t. spec_code (k t)) (spec_code c') (r, m1) = Inr (r', m')"
          using prems(2) Cons by (auto split: sum.splits)
        have "code_left k + length c' < n" using prems(1) Cons by simp
        from less.IH [OF this refl r inv_put [OF prems(3)] get_put] show ?thesis using Cons Do f prems(4) by simp
      next
        case (Switch i a b)
        let ?k = "k(a := c', b := [])" and ?c = "(k(a := c')) b"
        have ab: "r = a" "a \<noteq> b" using prems(2) Cons Switch by (auto simp: spec_switch_def split: if_splits)
        have kk: "(\<lambda>t. spec_code (k t))(a := spec_code c', b := []) = (\<lambda>t. spec_code (?k t))"
          "(\<lambda>t. place_code get put (k t))(a := place_code get put c', b := []) = (\<lambda>t. place_code get put (?k t))"
          "((\<lambda>t. spec_code (k t))(a := spec_code c')) b = spec_code ?c"
          "((\<lambda>t. place_code get put (k t))(a := place_code get put c')) b = place_code get put ?c"
          by auto
        have r: "run_co spec_switch (\<lambda>t. spec_code (?k t)) (spec_code ?c) (b, m) = Inr (r', m')"
          using prems(2) Cons Switch ab by (simp add: kk del: fun_upd_apply)
        obtain s1 where s1: "sw i a b s = Inr s1" "inv b s1" "get s1 = m" using accepted_switch prems(3,4) ab by blast
        have "code_left ?k + length ?c < n"
          using code_left_upd [of "k(a := c')" b "[]"] code_left_upd [of k a c'] prems(1) Cons by simp
        from less.IH [OF this refl r s1(2,3)] show ?thesis using Cons Switch s1(1) kk by (simp del: fun_upd_apply)
      qed
    qed
  qed
  from this [OF refl assms] show ?thesis .
qed

end

end
