(* ===== verification/Address_Space_Tables.thy ===== *)
theory Address_Space_Tables
  imports Address_Space
begin

text \<open>
  The page tables behind address spaces: what a fresh root does to the forest of tables, which
  tables a mapping adds, and which frames the teardown of a root gives back.
\<close>

subsection \<open>Slots\<close>

lemma index_pos: "0 < unat (i :: pt_index) \<longleftrightarrow> i \<noteq> 0"
  by (metis gr0I less_irrefl unat_0 unsigned_eq_0_iff)

lemma private_slot_iff: "is_private_addr va \<longleftrightarrow> \<not> shared_slot (pml4_index va)"
  by (auto simp: is_private_addr_def Let_def shared_slot_def KERNEL_PML4_START_def word_le_nat_alt index_pos)

lemma set_private_slots: "set private_slots = {i. \<not> shared_slot i}"
proof -
  have "i \<in> of_nat ` {1..<256}" if "\<not> shared_slot i" for i :: pt_index
  proof -
    have "unat i \<in> {1..<256}" using that by (auto simp: shared_slot_def word_le_nat_alt index_pos Suc_le_eq)
    then show ?thesis by (intro image_eqI [of _ _ "unat i"]) simp_all
  qed
  moreover have "\<not> shared_slot (of_nat k)" if "k \<in> {1..<256}" for k
  proof -
    have "unat (of_nat k :: pt_index) = k" using that by (simp add: unat_of_nat)
    then show ?thesis using that by (auto simp: shared_slot_def word_le_nat_alt)
  qed
  ultimately have "of_nat ` {1..<256} = {i :: pt_index. \<not> shared_slot i}" by blast
  then show ?thesis by (simp only: private_slots_def KERNEL_PML4_START_def set_map set_upt)
qed

lemma distinct_private_slots: "distinct private_slots"
proof -
  have "inj_on (of_nat :: nat \<Rightarrow> pt_index) {1..<256}"
    by (rule inj_onI) (auto dest!: arg_cong [of _ _ unat] simp: unat_of_nat)
  then show ?thesis by (simp add: private_slots_def distinct_map KERNEL_PML4_START_def)
qed

lemma all_indices_facts: "set all_indices = UNIV" "distinct all_indices"
proof -
  have "i \<in> of_nat ` {0..<512}" for i :: pt_index
  proof -
    have "unat i \<in> {0..<512}" using index_less [of i] by simp
    then show ?thesis by (intro image_eqI [of _ _ "unat i"]) simp_all
  qed
  then show "set all_indices = UNIV" by (auto simp: all_indices_def)
  have "inj_on (of_nat :: nat \<Rightarrow> pt_index) {0..<512}"
    by (rule inj_onI) (auto dest!: arg_cong [of _ _ unat] simp: unat_of_nat)
  then show "distinct all_indices" by (simp add: all_indices_def distinct_map)
qed

subsection \<open>A fresh root\<close>

lemma fold_copy:
  assumes "root \<noteq> k"
  shows "fold (\<lambda>i m. write_entry m root i (m k i)) is m t i
    = (if t = root \<and> i \<in> set is then m k i else m t i)"
  using assms by (induction "is" arbitrary: m) (auto simp: write_entry_apply)

lemma copy_kernel_slots_apply:
  "root \<noteq> k \<Longrightarrow> copy_kernel_slots root k m t i = (if t = root \<and> shared_slot i then m k i else m t i)"
  unfolding copy_kernel_slots_def using fold_copy [of root k "0 # kernel_slots" m t i] set_kernel_slots by auto

lemma fresh_frame_reads:
  assumes "forest m R A" and "f \<in> A" and "r \<in> R" and "length p \<le> 4"
    and "p = u @ j # v" and "walk m r u = Some w"
  shows "w \<noteq> f"
proof -
  have "length u \<le> 3" using assms(4,5) by simp
  from forest_avoid [OF assms(1,3) this assms(6)] assms(2) show ?thesis by blast
qed

text \<open>The memory after a free frame has become a root that shares the slots of the root \<open>k\<close>.\<close>

definition fresh_copy :: "phys_mem \<Rightarrow> u64 set \<Rightarrow> u64 set \<Rightarrow> u64 \<Rightarrow> u64 \<Rightarrow> phys_mem \<Rightarrow> bool" where
  "fresh_copy m R A k f m' \<longleftrightarrow> forest m R A \<and> k \<in> R \<and> f \<in> A
     \<and> (\<forall>i. shared_slot i \<longrightarrow> is_present (m k i))
     \<and> (\<forall>t. t \<noteq> f \<longrightarrow> m' t = m t)
     \<and> (\<forall>i. m' f i = (if shared_slot i then m k i else 0))"

lemma fresh_copyD:
  assumes "fresh_copy m R A k f m'"
  shows "forest m R A" and "k \<in> R" and "f \<in> A" and "\<And>i. shared_slot i \<Longrightarrow> is_present (m k i)"
    and "\<And>t. t \<noteq> f \<Longrightarrow> m' t = m t" and "\<And>i. m' f i = (if shared_slot i then m k i else 0)" and "m' k = m k"
proof -
  show "forest m R A" "k \<in> R" "f \<in> A" "\<And>i. shared_slot i \<Longrightarrow> is_present (m k i)"
    "\<And>t. t \<noteq> f \<Longrightarrow> m' t = m t" "\<And>i. m' f i = (if shared_slot i then m k i else 0)"
    using assms unfolding fresh_copy_def by blast+
  then show "m' k = m k" using forest_avoid [of m R A k "[]" k] by fastforce
qed

lemma fresh_old_walk: "fresh_copy m R A k f m' \<Longrightarrow> r \<in> R \<Longrightarrow> length p \<le> 4 \<Longrightarrow> walk m' r p = walk m r p"
  using fresh_frame_reads fresh_copyD(1,3,5) by (intro walk_cong) metis

lemma fresh_old_xlate: "fresh_copy m R A k f m' \<Longrightarrow> r \<in> R \<Longrightarrow> length p \<le> 4 \<Longrightarrow> xlate m' r p = xlate m r p"
  using fresh_frame_reads fresh_copyD(1,3,5) by (intro xlate_cong) metis

lemma fresh_new_walk:
  assumes F: "fresh_copy m R A k f m'" and "length p \<le> 4" and "p \<noteq> []"
  shows "walk m' f p = (if shared_slot (hd p) then walk m k p else None)"
proof (cases p)
  case (Cons i q)
  have "walk m' k p = walk m k p" by (rule fresh_old_walk [OF F fresh_copyD(2) [OF F] assms(2)])
  then show ?thesis using Cons fresh_copyD(6) [OF F, of i] fresh_copyD(7) [OF F] by (simp split: option.splits)
qed (use assms in simp)

lemma fresh_new_xlate:
  assumes F: "fresh_copy m R A k f m'" and "length p \<le> 4" and "p \<noteq> []"
  shows "xlate m' f p = (if shared_slot (hd p) then xlate m k p else None)"
proof (cases p)
  case (Cons i q)
  have "xlate m' k p = xlate m k p" by (rule fresh_old_xlate [OF F fresh_copyD(2) [OF F] assms(2)])
  then show ?thesis
    using Cons fresh_copyD(6) [OF F, of i] fresh_copyD(7) [OF F] by (auto simp: Let_def split: if_splits)
qed (use assms in simp)

lemma fresh_unreached: "fresh_copy m R A k f m' \<Longrightarrow> r \<in> R \<Longrightarrow> length p \<le> 3 \<Longrightarrow> walk m r p \<noteq> Some f"
  using forest_avoid fresh_copyD(1,3) by metis

text \<open>Every walk of the extended forest is the empty walk at the new root or a walk of the old
  forest.\<close>

lemma fresh_walk_cases:
  assumes F: "fresh_copy m R A k f m'" and "r \<in> insert f R" and "length p \<le> 3" and "walk m' r p = Some t"
  obtains (new) "r = f" "p = []" "t = f"
  | (old) r0 where "r0 \<in> R" "walk m r0 p = Some t" "same_subtree r r0 p" "r \<noteq> f \<Longrightarrow> r0 = r"
proof (cases "r = f")
  case True
  show thesis
  proof (cases "p = []")
    case True
    with assms(4) \<open>r = f\<close> show thesis by (intro new) simp_all
  next
    case False
    with assms(3,4) \<open>r = f\<close> fresh_new_walk [OF F, of p] have "shared_slot (hd p)" "walk m k p = Some t"
      by (auto split: if_splits)
    with False \<open>r = f\<close> fresh_copyD(2) [OF F] show thesis by (intro old [of k]) (auto simp: same_subtree_def)
  qed
next
  case False
  with assms have "r \<in> R" by simp
  with assms fresh_old_walk [OF F, of r p] show thesis by (intro old [of r]) (auto simp: same_subtree_def)
qed

lemma fresh_forest:
  assumes F: "fresh_copy m R A k f m'"
  shows "forest m' (insert f R) (A - {f})"
proof (rule forestI)
  note fo = fresh_copyD(1) [OF F]
  show "t \<notin> A - {f}" if "r \<in> insert f R" "length p \<le> 3" "walk m' r p = Some t" for r p t
    using F that by (cases rule: fresh_walk_cases) (use forest_avoid [OF fo] that(2) in auto)
next
  note fo = fresh_copyD(1) [OF F]
  fix r r' p q t
  assume a: "r \<in> insert f R" "r' \<in> insert f R" "length p \<le> 3" "length q \<le> 3" "walk m' r p = Some t" "walk m' r' q = Some t"
  from F a(1,3,5) show "p = q \<and> same_subtree r r' p"
  proof (cases rule: fresh_walk_cases)
    case new
    from F a(2,4,6) show ?thesis
      by (cases rule: fresh_walk_cases) (use new fresh_unreached [OF F] a(4) in \<open>auto simp: same_subtree_def\<close>)
  next
    case (old r0)
    note o = old
    from F a(2,4,6) show ?thesis
    proof (cases rule: fresh_walk_cases)
      case new
      with o fresh_unreached [OF F] a(3) show ?thesis by blast
    next
      case (old r1)
      from forest_inj [OF fo o(1) old(1) a(3,4) o(2) old(2)] have "p = q" "same_subtree r0 r1 p" by auto
      then show ?thesis using o(3,4) old(3,4) by (auto simp: same_subtree_def)
    qed
  qed
next
  fix r r' i assume a: "r \<in> insert f R" "r' \<in> insert f R" "r \<noteq> r'" "shared_slot i"
  have eq: "m' x i = m k i" if "x \<in> insert f R" for x
  proof (cases "x = f")
    case True
    then show ?thesis using fresh_copyD(6) [OF F] a(4) by simp
  next
    case False
    then show ?thesis
      using that fresh_copyD(5) [OF F, of x] forest_shared [OF fresh_copyD(1) [OF F] _ fresh_copyD(2) [OF F] a(4), of x]
      by simp
  qed
  show "m' r i = m' r' i \<and> is_present (m' r i)" using eq [OF a(1)] eq [OF a(2)] fresh_copyD(4) [OF F a(4)] by simp
qed

subsection \<open>The tables below an entry\<close>

text \<open>The tables the teardown frees and the leaves it counts, as functions of the memory.\<close>

fun tables_below :: "phys_mem \<Rightarrow> nat \<Rightarrow> u64 \<Rightarrow> u64 list" where
  "tables_below m 0 t = []"
| "tables_below m (Suc k) t = concat (map (\<lambda>i.
     case pte_table (m t i) of None \<Rightarrow> [] | Some u \<Rightarrow> tables_below m k u @ [u]) all_indices)"

definition entry_tables :: "phys_mem \<Rightarrow> nat \<Rightarrow> pte \<Rightarrow> u64 list" where
  "entry_tables m k e = (case pte_table e of None \<Rightarrow> [] | Some u \<Rightarrow> tables_below m k u @ [u])"

fun leaves_below :: "phys_mem \<Rightarrow> nat \<Rightarrow> u64 \<Rightarrow> nat" where
  "leaves_below m 0 t = length (filter is_present (map (m t) all_indices))"
| "leaves_below m (Suc k) t = sum_list (map (\<lambda>i.
     case pte_table (m t i) of None \<Rightarrow> (if is_present (m t i) then 1 else 0) | Some u \<Rightarrow> leaves_below m k u) all_indices)"

definition entry_leaves :: "phys_mem \<Rightarrow> nat \<Rightarrow> pte \<Rightarrow> nat" where
  "entry_leaves m k e =
     (case pte_table e of None \<Rightarrow> (if is_present e then 1 else 0) | Some u \<Rightarrow> leaves_below m k u)"

definition give :: "u64 list \<Rightarrow> vmm \<Rightarrow> vmm" where
  "give ts s = s\<lparr>vmm_pmm := release_all free_physical_page ts (vmm_pmm s)\<rparr>"

lemma release_all_append: "release_all r (xs @ ys) s = release_all r ys (release_all r xs s)"
  by (induction xs arbitrary: s) simp_all

lemma give_simps [simp]:
  "give [] s = s" "vmm_mem (give ts s) = vmm_mem s" "give ys (give xs s) = give (xs @ ys) s"
  "free_frame f (give ts s) = give (ts @ [f]) s"
  by (simp_all add: give_def release_all_append free_frame_def)

lemma below_entry:
  "tables_below m (Suc k) t = concat (map (entry_tables m k) (map (m t) all_indices))"
  "leaves_below m (Suc k) t = sum_list (map (entry_leaves m k) (map (m t) all_indices))"
  by (simp_all add: entry_tables_def entry_leaves_def comp_def)

text \<open>A loop whose steps release frames and leave the memory alone.\<close>

lemma fold_release:
  fixes N :: "'e \<Rightarrow> nat"
  assumes "\<And>e f l s. vmm_mem s = m \<Longrightarrow> step e (f, l, s) = (f + length (T e), l + N e, give (T e) s)"
    and "vmm_mem s = m"
  shows "fold step es (f, l, s) = (f + length (concat (map T es)), l + sum_list (map N es), give (concat (map T es)) s)"
  using assms(2) by (induction es arbitrary: f l s) (simp_all add: assms(1))

lemma free_pd_entry_eq:
  "vmm_mem s = m \<Longrightarrow> free_pd_entry e (f, l, s)
     = (f + length (entry_tables m 0 e), l + entry_leaves m 0 e, give (entry_tables m 0 e) s)"
  by (auto simp: free_pd_entry_def entry_tables_def entry_leaves_def pte_table_def is_table_def table_entries_def
      free_frame_def give_def)

lemma free_pdpt_entry_eq:
  assumes "vmm_mem s = m"
  shows "free_pdpt_entry e (f, l, s)
     = (f + length (entry_tables m (Suc 0) e), l + entry_leaves m (Suc 0) e, give (entry_tables m (Suc 0) e) s)"
proof (cases "is_table e")
  case True
  let ?t = "pte_phys_addr e"
  have "fold free_pd_entry (table_entries s ?t) (f, l, s) =
    (f + length (tables_below m (Suc 0) ?t), l + leaves_below m (Suc 0) ?t, give (tables_below m (Suc 0) ?t) s)"
    unfolding below_entry table_entries_def assms by (rule fold_release [OF free_pd_entry_eq assms])
  then show ?thesis using True
    by (simp add: free_pdpt_entry_def entry_tables_def entry_leaves_def pte_table_def is_table_def
        del: tables_below.simps leaves_below.simps)
next
  case False
  then show ?thesis
    by (auto simp: free_pdpt_entry_def entry_tables_def entry_leaves_def pte_table_def is_table_def)
qed

lemma free_pml4_slot_eq:
  fixes root :: u64 and i :: pt_index and f l :: nat
  assumes "vmm_mem s = m" and "is_present (m root i) \<Longrightarrow> \<not> is_huge (m root i)"
  defines "e \<equiv> m root i"
  shows "free_pml4_slot root i (f, l, s) =
    (f + length (entry_tables m 2 e), l + entry_leaves m 2 e,
     if is_present e then (give (entry_tables m 2 e) s)\<lparr>vmm_mem := write_entry m root i 0\<rparr> else s)"
proof (cases "is_present e")
  case True
  let ?t = "pte_phys_addr e"
  have tab: "pte_table e = Some ?t" using True assms(2) by (simp add: pte_table_def e_def)
  have "fold free_pdpt_entry (table_entries s ?t) (f, l, s) =
    (f + length (tables_below m 2 ?t), l + leaves_below m 2 ?t, give (tables_below m 2 ?t) s)"
    unfolding below_entry numeral_2_eq_2 table_entries_def assms(1)
    by (rule fold_release [OF free_pdpt_entry_eq assms(1)])
  then show ?thesis using True tab assms(1)
    by (simp add: free_pml4_slot_def Let_def entry_tables_def entry_leaves_def e_def)
next
  case False
  then show ?thesis
    using assms(1) by (simp add: free_pml4_slot_def Let_def entry_tables_def entry_leaves_def pte_table_def e_def)
qed

text \<open>The tables and leaves below an entry depend only on the tables below it.\<close>

lemma below_cong:
  assumes "\<And>p w. walk m t p = Some w \<Longrightarrow> length p \<le> k \<Longrightarrow> m' w = m w"
  shows "tables_below m' k t = tables_below m k t" and "leaves_below m' k t = leaves_below m k t"
proof -
  have "tables_below m' k t = tables_below m k t \<and> leaves_below m' k t = leaves_below m k t"
    using assms
  proof (induction k arbitrary: t)
    case 0
    then show ?case using "0.prems" [of "[]" t] by simp
  next
    case (Suc k)
    have here: "m' t = m t" using Suc.prems [of "[]" t] by simp
    have IH: "tables_below m' k u = tables_below m k u \<and> leaves_below m' k u = leaves_below m k u"
      if u: "pte_table (m t i) = Some u" for i u
    proof (rule Suc.IH)
      fix p w assume "walk m u p = Some w" "length p \<le> k"
      then show "m' w = m w" using Suc.prems [of "i # p" w] u by simp
    qed
    have "(case pte_table (m' t i) of None \<Rightarrow> [] | Some u \<Rightarrow> tables_below m' k u @ [u])
        = (case pte_table (m t i) of None \<Rightarrow> [] | Some u \<Rightarrow> tables_below m k u @ [u])" for i
      using here IH [of i] by (simp split: option.splits)
    moreover have "(case pte_table (m' t i) of None \<Rightarrow> (if is_present (m' t i) then 1 else 0) | Some u \<Rightarrow> leaves_below m' k u)
        = (case pte_table (m t i) of None \<Rightarrow> (if is_present (m t i) then 1 else 0) | Some u \<Rightarrow> leaves_below m k u)" for i
      using here IH [of i] by (simp split: option.splits)
    ultimately show ?case by simp
  qed
  then show "tables_below m' k t = tables_below m k t" "leaves_below m' k t = leaves_below m k t" by simp_all
qed

lemma set_tables_below:
  "set (tables_below m k t) = {u. \<exists>p. p \<noteq> [] \<and> length p \<le> k \<and> walk m t p = Some u}"
proof (induction k arbitrary: t)
  case (Suc k)
  show ?case
  proof (intro set_eqI iffI)
    fix u assume "u \<in> set (tables_below m (Suc k) t)"
    then obtain i where i: "u \<in> set (case pte_table (m t i) of None \<Rightarrow> [] | Some u \<Rightarrow> tables_below m k u @ [u])"
      by auto
    then obtain v where iv: "pte_table (m t i) = Some v" "u \<in> set (tables_below m k v) \<or> u = v"
      by (cases "pte_table (m t i)") auto
    from iv(2) show "u \<in> {u. \<exists>p. p \<noteq> [] \<and> length p \<le> Suc k \<and> walk m t p = Some u}"
    proof
      assume "u \<in> set (tables_below m k v)"
      then obtain p where "p \<noteq> []" "length p \<le> k" "walk m v p = Some u" unfolding Suc.IH by blast
      with iv(1) have "i # p \<noteq> [] \<and> length (i # p) \<le> Suc k \<and> walk m t (i # p) = Some u" by simp
      then show ?thesis by blast
    next
      assume "u = v"
      with iv(1) have "[i] \<noteq> [] \<and> length [i] \<le> Suc k \<and> walk m t [i] = Some u" by simp
      then show ?thesis by blast
    qed
  next
    fix u assume "u \<in> {u. \<exists>p. p \<noteq> [] \<and> length p \<le> Suc k \<and> walk m t p = Some u}"
    then obtain i p where p: "length p \<le> k" "walk m t (i # p) = Some u" by (auto simp: neq_Nil_conv)
    then obtain v where v: "pte_table (m t i) = Some v" "walk m v p = Some u" by (auto split: option.splits)
    have "u \<in> set (tables_below m k v) \<or> u = v" unfolding Suc.IH using p v by (cases "p = []") auto
    then have "u \<in> set (case pte_table (m t i) of None \<Rightarrow> [] | Some u \<Rightarrow> tables_below m k u @ [u])" using v by auto
    then show "u \<in> set (tables_below m (Suc k) t)" using all_indices_facts by auto
  qed
qed simp

lemma set_entry_tables:
  "set (entry_tables m k (m t i)) = {u. \<exists>p. length p \<le> k \<and> walk m t (i # p) = Some u}"
proof (cases "pte_table (m t i)")
  case (Some v)
  then have "set (entry_tables m k (m t i)) = insert v {u. \<exists>p. p \<noteq> [] \<and> length p \<le> k \<and> walk m v p = Some u}"
    by (simp add: entry_tables_def set_tables_below)
  also have "\<dots> = {u. \<exists>p. length p \<le> k \<and> walk m v p = Some u}"
  proof (intro set_eqI iffI)
    fix u assume "u \<in> {u. \<exists>p. length p \<le> k \<and> walk m v p = Some u}"
    then obtain p where "length p \<le> k" "walk m v p = Some u" by blast
    then show "u \<in> insert v {u. \<exists>p. p \<noteq> [] \<and> length p \<le> k \<and> walk m v p = Some u}" by (cases "p = []") auto
  next
    fix u assume "u \<in> insert v {u. \<exists>p. p \<noteq> [] \<and> length p \<le> k \<and> walk m v p = Some u}"
    moreover have "length ([] :: pt_index list) \<le> k \<and> walk m v [] = Some v" by simp
    ultimately show "u \<in> {u. \<exists>p. length p \<le> k \<and> walk m v p = Some u}" by blast
  qed
  finally show ?thesis using Some by simp
qed (simp add: entry_tables_def)

text \<open>Where every table is reached by one path only, no table is listed twice.\<close>

lemma distinct_concat_map:
  assumes "distinct xs" and "\<And>x. x \<in> set xs \<Longrightarrow> distinct (g x)"
    and "\<And>x y. x \<in> set xs \<Longrightarrow> y \<in> set xs \<Longrightarrow> x \<noteq> y \<Longrightarrow> set (g x) \<inter> set (g y) = {}"
  shows "distinct (concat (map g xs))"
  using assms by (induction xs) auto

lemma distinct_tables_below:
  assumes "\<And>p q u. length p \<le> k \<Longrightarrow> length q \<le> k \<Longrightarrow> walk m t p = Some u \<Longrightarrow> walk m t q = Some u \<Longrightarrow> p = q"
  shows "distinct (tables_below m k t)"
  using assms
proof (induction k arbitrary: t)
  case (Suc k)
  have "distinct (concat (map (\<lambda>i. entry_tables m k (m t i)) all_indices))"
  proof (rule distinct_concat_map [OF all_indices_facts(2)])
    fix i
    show "distinct (entry_tables m k (m t i))"
    proof (cases "pte_table (m t i)")
      case (Some u)
      have inj: "p = q" if "length p \<le> k" "length q \<le> k" "walk m u p = Some v" "walk m u q = Some v" for p q v
        using Suc.prems [of "i # p" "i # q" v] that Some by simp
      have "distinct (tables_below m k u)" by (rule Suc.IH) (rule inj)
      moreover have "u \<notin> set (tables_below m k u)"
        unfolding set_tables_below using inj [of "[]" _ u] by auto
      ultimately show ?thesis by (simp add: entry_tables_def Some)
    qed (simp add: entry_tables_def)
  next
    fix i j :: pt_index assume "i \<noteq> j"
    then show "set (entry_tables m k (m t i)) \<inter> set (entry_tables m k (m t j)) = {}"
      unfolding set_entry_tables using Suc.prems [of "i # _" "j # _"] by fastforce
  qed
  then show ?case by (simp add: entry_tables_def)
qed simp

subsection \<open>Teardown of a root\<close>

definition slot_tables :: "phys_mem \<Rightarrow> u64 \<Rightarrow> pt_index list \<Rightarrow> u64 list" where
  "slot_tables m root is = concat (map (\<lambda>i. entry_tables m 2 (m root i)) is)"

definition slot_leaves :: "phys_mem \<Rightarrow> u64 \<Rightarrow> pt_index list \<Rightarrow> nat" where
  "slot_leaves m root is = sum_list (map (\<lambda>i. entry_leaves m 2 (m root i)) is)"

definition clear_slots :: "u64 \<Rightarrow> pt_index list \<Rightarrow> phys_mem \<Rightarrow> phys_mem" where
  "clear_slots root is m = (\<lambda>t i. if t = root \<and> i \<in> set is \<and> is_present (m root i) then 0 else m t i)"

text \<open>Below a root's entries the root itself is not found, so clearing entries of the root does not
  disturb the rest of the teardown.\<close>

definition own_tables :: "phys_mem \<Rightarrow> u64 \<Rightarrow> bool" where
  "own_tables m root \<longleftrightarrow> (\<forall>i p. length p \<le> 2 \<longrightarrow> walk m root (i # p) \<noteq> Some root)"

lemma entry_below_cong:
  assumes own: "own_tables m root" and eq: "\<And>t. t \<noteq> root \<Longrightarrow> m' t = m t"
  shows "entry_tables m' 2 (m root i) = entry_tables m 2 (m root i)"
    and "entry_leaves m' 2 (m root i) = entry_leaves m 2 (m root i)"
proof -
  have b: "tables_below m' 2 u = tables_below m 2 u \<and> leaves_below m' 2 u = leaves_below m 2 u"
    if u: "pte_table (m root i) = Some u" for u
  proof -
    have "m' w = m w" if "walk m u p = Some w" "length p \<le> 2" for p w
    proof (rule eq)
      have "walk m root (i # p) = Some w" using u that by simp
      then show "w \<noteq> root" using own that(2) unfolding own_tables_def by blast
    qed
    with below_cong [of m u 2 m'] show ?thesis by blast
  qed
  show "entry_tables m' 2 (m root i) = entry_tables m 2 (m root i)"
    "entry_leaves m' 2 (m root i) = entry_leaves m 2 (m root i)"
    using b by (simp_all add: entry_tables_def entry_leaves_def split: option.splits)
qed

lemma fold_free_slots:
  assumes own: "own_tables m root" and dis: "distinct is"
    and plain: "\<And>i. i \<in> set is \<Longrightarrow> is_present (m root i) \<Longrightarrow> \<not> is_huge (m root i)"
    and eq: "\<And>t. t \<noteq> root \<Longrightarrow> vmm_mem s t = m t" "\<And>i. i \<in> set is \<Longrightarrow> vmm_mem s root i = m root i"
  shows "fold (free_pml4_slot root) is (f, l, s) =
    (f + length (slot_tables m root is), l + slot_leaves m root is,
     (give (slot_tables m root is) s)\<lparr>vmm_mem := clear_slots root is (vmm_mem s)\<rparr>)"
  using dis plain eq
proof (induction "is" arbitrary: f l s)
  case Nil
  have "clear_slots root [] (vmm_mem s) = vmm_mem s" by (simp add: clear_slots_def)
  then show ?case by (simp add: slot_tables_def slot_leaves_def)
next
  case (Cons i "is")
  let ?e = "m root i"
  have e: "vmm_mem s root i = ?e" using Cons.prems(4) by simp
  note below = entry_below_cong [OF own Cons.prems(3), of i]
  let ?s1 = "if is_present ?e then (give (entry_tables m 2 ?e) s)\<lparr>vmm_mem := write_entry (vmm_mem s) root i 0\<rparr> else s"
  have step: "free_pml4_slot root i (f, l, s) = (f + length (entry_tables m 2 ?e), l + entry_leaves m 2 ?e, ?s1)"
    using free_pml4_slot_eq [OF refl, of s root i f l] Cons.prems(2) [of i] below unfolding e by simp
  have mem: "vmm_mem ?s1 t j = (if t = root \<and> j = i \<and> is_present ?e then 0 else vmm_mem s t j)" for t j
    by (simp add: write_entry_apply)
  have dist: "distinct is" and ni: "i \<notin> set is" using Cons.prems(1) by simp_all
  have IH: "fold (free_pml4_slot root) is (f', l', ?s1) = (f' + length (slot_tables m root is), l' + slot_leaves m root is,
     (give (slot_tables m root is) ?s1)\<lparr>vmm_mem := clear_slots root is (vmm_mem ?s1)\<rparr>)" for f' l'
  proof (rule Cons.IH [OF dist])
    show "vmm_mem ?s1 t = m t" if "t \<noteq> root" for t using Cons.prems(3) [OF that] mem that by (intro ext) simp
    show "vmm_mem ?s1 root j = m root j" if "j \<in> set is" for j using Cons.prems(4) [of j] mem that ni by auto
  qed (use Cons.prems(2) in simp)
  have np: "entry_tables m 2 ?e = []" if "\<not> is_present ?e" using that by (simp add: entry_tables_def pte_table_def)
  have clr: "clear_slots root is (vmm_mem ?s1) = clear_slots root (i # is) (vmm_mem s)"
    using ni e by (auto simp: clear_slots_def write_entry_apply fun_eq_iff)
  have "give (slot_tables m root is) ?s1\<lparr>vmm_mem := x\<rparr> = (give (slot_tables m root (i # is)) s)\<lparr>vmm_mem := x\<rparr>" for x
    using np by (simp add: slot_tables_def give_def release_all_append)
  then show ?case using step IH clr by (simp add: slot_tables_def slot_leaves_def del: fold.simps(2)) (simp add: step)
qed

end
