(* ===== verification/Address_Space_Ops.thy ===== *)
theory Address_Space_Ops
  imports Address_Space_Tables
begin

text \<open>
  What the address-space operations promise: a new space sees the kernel's mappings and nothing
  else, a mapping in one space is invisible in every other, and the teardown gives back exactly the
  frames of the private tables and the root.
\<close>

subsection \<open>The tables of a space\<close>

definition private_tables :: "phys_mem \<Rightarrow> u64 \<Rightarrow> u64 set" where
  "private_tables m root = {t. \<exists>i p. \<not> shared_slot i \<and> length p \<le> 2 \<and> walk m root (i # p) = Some t}"

definition plain_slots :: "phys_mem \<Rightarrow> u64 \<Rightarrow> bool" where
  "plain_slots m root \<longleftrightarrow> (\<forall>i. \<not> shared_slot i \<longrightarrow> is_present (m root i) \<longrightarrow> \<not> is_huge (m root i))"

text \<open>A live space: its root is one of the live roots, not the kernel's; its tables are frames of the
  physical allocator; no private top-level entry has the page-size bit.\<close>

definition space_ok :: "u64 set \<Rightarrow> vmm \<Rightarrow> address_space \<Rightarrow> bool" where
  "space_ok R v a \<longleftrightarrow> owns_root a \<and> root_page a \<noteq> 0 \<and> root_page a \<in> R \<and> root_page a \<noteq> root_pml4_phys v
     \<and> insert (root_page a) (private_tables (vmm_mem v) (root_page a)) \<subseteq> managed_addrs (vmm_pmm v)
     \<and> plain_slots (vmm_mem v) (root_page a)"

text \<open>The kernel's own root is live and every shared slot of it is filled, as \<^verbatim>\<open>vmm::init\<close> leaves it.\<close>

definition kernel_ok :: "u64 set \<Rightarrow> vmm \<Rightarrow> bool" where
  "kernel_ok R v \<longleftrightarrow> root_pml4_phys v \<in> R \<and> root_pml4_phys v \<noteq> 0 \<and> \<not> is_bootstrapping v
     \<and> (\<forall>i. shared_slot i \<longrightarrow> is_present (vmm_mem v (root_pml4_phys v) i))"

lemma set_slot_tables:
  "set (slot_tables m root private_slots) = private_tables m root"
  by (auto simp: slot_tables_def set_entry_tables private_tables_def set_private_slots)

lemma forest_root_inj:
  assumes "forest m R A" and "r \<in> R" and "length p \<le> 3" and "length q \<le> 3"
    and "walk m r p = Some u" and "walk m r q = Some u"
  shows "p = q"
  using forest_inj [OF assms(1,2,2,3-6)] by simp

lemma forest_own_tables:
  assumes "forest m R A" and "r \<in> R"
  shows "own_tables m r"
  unfolding own_tables_def
  using forest_root_inj [OF assms, of "[]" "_ # _" r] by fastforce

lemma distinct_slot_tables:
  assumes fo: "forest m R A" and r: "r \<in> R"
  shows "distinct (slot_tables m r private_slots)"
  unfolding slot_tables_def
proof (rule distinct_concat_map [OF distinct_private_slots])
  fix i
  show "distinct (entry_tables m 2 (m r i))"
  proof (cases "pte_table (m r i)")
    case (Some u)
    have inj: "p = q" if "length p \<le> 2" "length q \<le> 2" "walk m u p = Some v" "walk m u q = Some v" for p q v
      using forest_root_inj [OF fo r, of "i # p" "i # q" v] that Some by simp
    have "distinct (tables_below m 2 u)" by (rule distinct_tables_below) (rule inj)
    moreover have "u \<notin> set (tables_below m 2 u)" unfolding set_tables_below using inj [of "[]" _ u] by auto
    ultimately show ?thesis by (simp add: entry_tables_def Some)
  qed (simp add: entry_tables_def)
next
  fix i j :: pt_index assume "i \<noteq> j"
  then show "set (entry_tables m 2 (m r i)) \<inter> set (entry_tables m 2 (m r j)) = {}"
    unfolding set_entry_tables using forest_root_inj [OF fo r, of "i # _" "j # _"] by fastforce
qed

subsection \<open>Creating a space\<close>

lemma zero_not_free:
  assumes "pmm_inv p"
  shows "0 \<notin> free_addrs p"
proof
  assume "0 \<in> free_addrs p"
  then obtain n where n: "n \<in> free_frames p" "from_page_number n = 0" by (auto simp: free_addrs_def)
  have "n < 2 ^ 52" using free_frames_bound [OF pmm_inv_shape [OF assms] n(1)] by simp
  then have "n = 0" using unat_from_page_number [of n] n(2) by simp
  with n(1) assms show False by (auto simp: pmm_inv_def free_frames_def)
qed

lemma as_new_Inr:
  assumes ok: "vm_ok R X (as_vmm s)" and kern: "kernel_ok R (as_vmm s)"
    and new: "as_new s = (Inr a, s')"
  defines "v \<equiv> as_vmm s" and "v' \<equiv> as_vmm s'"
  shows "vm_ok (insert (root_page a) R) X v'" and "kernel_ok (insert (root_page a) R) v'"
    and "space_ok (insert (root_page a) R) v' a" and "root_page a \<in> free_addrs (vmm_pmm v)"
    and "free_addrs (vmm_pmm v') = free_addrs (vmm_pmm v) - {root_page a}" and "root_page a \<notin> R"
    and "as_id a = next_asid s" and "next_asid s' = next_asid s + 1" and "current_asid s' = current_asid s"
    and "cr3 v' = cr3 v"
    and "\<And>r q. r \<in> R \<Longrightarrow> length q = 4 \<Longrightarrow> xlate (vmm_mem v') r q = xlate (vmm_mem v) r q"
    and "\<And>q. length q = 4 \<Longrightarrow> xlate (vmm_mem v') (root_page a) q =
      (if shared_slot (hd q) then xlate (vmm_mem v) (root_pml4_phys v) q else None)"
    and "private_tables (vmm_mem v') (root_page a) = {}"
    and "\<And>r q. r \<in> R \<Longrightarrow> length q \<le> 4 \<Longrightarrow> walk (vmm_mem v') r q = walk (vmm_mem v) r q"
    and "managed_addrs (vmm_pmm v') = managed_addrs (vmm_pmm v)"
    and "\<And>t. t \<noteq> root_page a \<Longrightarrow> vmm_mem v' t = vmm_mem v t"
proof -
  let ?k = "root_pml4_phys v"
  from new obtain f p where al: "allocate_physical_page (vmm_pmm v) = (Some f, p)"
    and a: "a = \<lparr>as_id = next_asid s, root_page = f, owns_root = True\<rparr>"
    and s': "s' = s\<lparr>as_vmm := v\<lparr>vmm_pmm := p, vmm_mem := copy_kernel_slots f ?k ((vmm_mem v)(f := zero_table))\<rparr>,
       next_asid := next_asid s + 1\<rparr>"
    by (auto simp: as_new_def v_def Let_def split: prod.splits option.splits)
  have inv: "pmm_inv (vmm_pmm v)" and fo: "forest (vmm_mem v) R (avail v \<union> X)" and pool: "pool_ok v"
    and X: "X \<inter> avail v = {}" using ok by (simp_all add: vm_ok_def v_def)
  have k: "?k \<in> R" and nb: "\<not> is_bootstrapping v" and pres: "\<And>i. shared_slot i \<Longrightarrow> is_present (vmm_mem v ?k i)"
    using kern by (simp_all add: kernel_ok_def v_def)
  note A = pmm_frames.alloc_Some [OF inv al]
  have av: "avail v = free_addrs (vmm_pmm v)" using nb by (simp add: avail_def)
  have f: "f \<in> avail v \<union> X" using A av by simp
  have fk: "f \<noteq> ?k" using forest_avoid [OF fo k, of "[]" ?k] f by auto
  have mem: "vmm_mem v' t i = (if t = f then (if shared_slot i then vmm_mem v ?k i else 0) else vmm_mem v t i)" for t i
    using copy_kernel_slots_apply [OF fk] fk by (simp add: v'_def s')
  have F: "fresh_copy (vmm_mem v) R (avail v \<union> X) ?k f (vmm_mem v')"
    unfolding fresh_copy_def using fo k f pres mem by (auto simp: fun_eq_iff)
  have p: "pmm_inv p" "free_addrs p = free_addrs (vmm_pmm v) - {f}" "managed_addrs p = managed_addrs (vmm_pmm v)"
    using A by auto
  have v': "vmm_pmm v' = p" "root_pml4_phys v' = ?k" "is_bootstrapping v' = is_bootstrapping v" "pool_base v' = pool_base v"
    by (simp_all add: v'_def s')
  have fX: "f \<notin> X" using A av X by auto
  have av': "avail v' = avail v - {f}" using nb v' p av by (simp add: avail_def)
  then have "avail v \<union> X - {f} = avail v' \<union> X" using fX by auto
  with fresh_forest [OF F] have "forest (vmm_mem v') (insert f R) (avail v' \<union> X)" by simp
  moreover have "pool_ok v'" using pool nb v' by (simp add: pool_ok_def)
  ultimately show ok': "vm_ok (insert (root_page a) R) X v'"
    using p v' X av' a by (auto simp: vm_ok_def)
  show "kernel_ok (insert (root_page a) R) v'"
    using kern k nb v' pres fk mem by (auto simp: kernel_ok_def v_def)
  show "root_page a \<in> free_addrs (vmm_pmm v)" "as_id a = next_asid s" "next_asid s' = next_asid s + 1"
    "free_addrs (vmm_pmm v') = free_addrs (vmm_pmm v) - {root_page a}"
    "current_asid s' = current_asid s" "cr3 v' = cr3 v" using A a v' p by (simp_all add: s' v'_def)
  show "root_page a \<notin> R" using forest_avoid [OF fo, of f "[]" f] f a by auto
  show "walk (vmm_mem v') r q = walk (vmm_mem v) r q" if "r \<in> R" "length q \<le> 4" for r q by (rule fresh_old_walk [OF F that])
  show "managed_addrs (vmm_pmm v') = managed_addrs (vmm_pmm v)" using p v' by simp
  show "vmm_mem v' t = vmm_mem v t" if "t \<noteq> root_page a" for t using that mem a by (simp add: fun_eq_iff)
  show "xlate (vmm_mem v') r q = xlate (vmm_mem v) r q" if "r \<in> R" "length q = 4" for r q
    using fresh_old_xlate [OF F that(1)] that(2) by simp
  show "xlate (vmm_mem v') (root_page a) q =
      (if shared_slot (hd q) then xlate (vmm_mem v) (root_pml4_phys v) q else None)" if "length q = 4" for q
    using fresh_new_xlate [OF F, of q] that a by fastforce
  have "walk (vmm_mem v') f (i # q) = None" if "\<not> shared_slot i" "length q \<le> 2" for i q
    using fresh_new_walk [OF F, of "i # q"] that by simp
  then show pt: "private_tables (vmm_mem v') (root_page a) = {}"
    using a unfolding private_tables_def by fastforce
  have "f \<noteq> 0" using A inv zero_not_free by blast
  moreover have "f \<in> managed_addrs p" using A pmm_frames.frees_managed [OF inv] by auto
  ultimately show "space_ok (insert (root_page a) R) v' a"
    unfolding space_ok_def pt using a v' fk mem by (auto simp: plain_slots_def)
qed

subsection \<open>Mapping in a space\<close>

text \<open>Which tables a walk may newly reach: only frames that were available before.\<close>

definition tables_from :: "u64 set \<Rightarrow> vmm \<Rightarrow> vmm \<Rightarrow> bool" where
  "tables_from R s s' \<longleftrightarrow> (\<forall>r\<in>R. \<forall>q u. length q \<le> 3 \<longrightarrow> walk (vmm_mem s') r q = Some u \<longrightarrow>
     walk (vmm_mem s) r q = Some u \<or> u \<in> avail s)"

lemma tables_from_refl [simp]: "tables_from R s s"
  by (simp add: tables_from_def)

lemma tables_from_trans:
  "tables_from R s s' \<Longrightarrow> tables_from R s' s'' \<Longrightarrow> avail s' \<subseteq> avail s \<Longrightarrow> tables_from R s s''"
  unfolding tables_from_def by blast

lemma get_or_create_tables:
  assumes ok: "vm_ok R X s" and r: "r \<in> R" and w: "walk (vmm_mem s) r p = Some t"
    and len: "length p \<le> 2" and g: "get_or_create_table t i s = (res, s')"
  shows "tables_from R s s'"
  using g
proof (cases rule: get_or_create_cases)
  case exhausted
  then show ?thesis using alloc_table_None [OF ok exhausted(2)] by simp
next
  case (fresh f s1)
  note a = alloc_table_Some [OF ok fresh(2)]
  let ?e = "pte_set f (FLAG_PRESENT OR FLAG_WRITABLE)"
  have fo: "forest (vmm_mem s) R (avail s \<union> X)" using ok by (simp add: vm_ok_def)
  have f: "f \<in> avail s \<union> X" using a(1) by simp
  have m: "vmm_mem s' = link_table (vmm_mem s) t i f ?e" using a(7) by (auto simp: fresh(4) link_after_zero)
  show ?thesis
    unfolding tables_from_def m using walk_link [OF fo f r w len fresh(1) table_entry [OF a(2)]] a(1)
    by (auto split: if_splits)
qed simp_all

lemma descend_tables:
  assumes "vm_ok R X s" and "r \<in> R" and "walk (vmm_mem s) r p = Some t"
    and "length p + length q \<le> 3" and "descend t q s = (res, s')"
  shows "tables_from R s s'"
  using assms
proof (induction q arbitrary: s p t)
  case (Cons i q)
  obtain r1 s1 where g: "get_or_create_table t i s = (r1, s1)" by (cases "get_or_create_table t i s")
  have len: "length p \<le> 2" using Cons.prems(4) by simp
  note k = get_or_create_ok [OF Cons.prems(1-3) len g] and t = get_or_create_tables [OF Cons.prems(1-3) len g]
  show ?case
  proof (cases r1)
    case (Inl e)
    with Cons.prems(5) g t show ?thesis by simp
  next
    case (Inr t1)
    with Cons.prems(5) g have d: "descend t1 q s1 = (res, s')" by simp
    have "tables_from R s1 s'"
      by (rule Cons.IH [OF k(1) Cons.prems(2) k(3) [OF Inr] _ d]) (use Cons.prems(4) in simp)
    then show ?thesis using tables_from_trans [OF t] k(2) by (simp add: grows_def)
  qed
qed simp

lemma map_page_tables:
  assumes ok: "vm_ok R X s" and r: "r \<in> R" and mp: "map_page r va pa flags s = (res, s')"
  shows "tables_from R s s'"
proof (cases "map_checks va pa")
  case False
  then have "s' = s" using mp by (auto simp: map_page_def map_checks_def split: if_splits)
  then show ?thesis by simp
next
  case True
  let ?p = "[pml4_index va, pdpt_index va, pd_index va]"
  obtain d s3 where d: "descend r ?p s = (d, s3)" by (cases "descend r ?p s")
  have "walk (vmm_mem s) r [] = Some r" by simp
  note t3 = descend_tables [OF ok r this _ d] and k3 = descend_ok [OF ok r this _ d, of "[pt_index_of va]"]
  show ?thesis
  proof (cases d)
    case (Inl e)
    then have "s' = s3" using mp d by (simp add: map_page_descend [OF True])
    then show ?thesis using t3 by simp
  next
    case (Inr pt)
    have w: "walk (vmm_mem s3) r ?p = Some pt" and ok3: "vm_ok R X s3" using k3 Inr by simp_all
    have fo: "forest (vmm_mem s3) R (avail s3 \<union> X)" using ok3 by (simp add: vm_ok_def)
    have "s' = s3 \<or> s' = s3\<lparr>vmm_mem := write_entry (vmm_mem s3) pt (pt_index_of va) (pte_set pa flags)\<rparr>"
      using mp d Inr by (auto simp: map_page_descend [OF True] split: if_splits)
    then show ?thesis
    proof
      assume "s' = s3\<lparr>vmm_mem := write_entry (vmm_mem s3) pt (pt_index_of va) (pte_set pa flags)\<rparr>"
      then have "walk (vmm_mem s') r' q = walk (vmm_mem s3) r' q" if "r' \<in> R" "length q \<le> 3" for r' q
        using walk_leaf_write [OF fo r w _ that] by simp
      then show ?thesis using t3 unfolding tables_from_def by simp
    qed (use t3 in simp)
  qed
qed

text \<open>Conversely, every frame a mapping takes is a table on the way to the mapped page, and no table is
  lost.\<close>

lemma get_or_create_used:
  assumes ok: "vm_ok R X s" and r: "r \<in> R" and w: "walk (vmm_mem s) r p = Some t"
    and len: "length p \<le> 2" and g: "get_or_create_table t i s = (res, s')" and u: "u \<in> avail s - avail s'"
  shows "walk (vmm_mem s') r (p @ [i]) = Some u"
  using g
proof (cases rule: get_or_create_cases)
  case exhausted
  then show ?thesis using alloc_table_None [OF ok exhausted(2)] u by simp
next
  case (fresh f s1)
  note a = alloc_table_Some [OF ok fresh(2)]
  have "avail s' = avail s - {f}"
    unfolding a(3) [symmetric] by (simp add: fresh(4) avail_def pool_tail_def pool_table_def)
  then have "u = f" using u by auto
  then show ?thesis using get_or_create_fresh(3) [OF ok r w len fresh(1,2,4)] by simp
qed (use u in simp_all)

lemma descend_grows:
  assumes "vm_ok R X s" and "r \<in> R" and "walk (vmm_mem s) r p = Some t"
    and "length p + length q \<le> 3" and "descend t q s = (res, s')"
  shows "grows R 3 s s'"
proof -
  have "[undefined :: pt_index] \<noteq> []" by simp
  note k = descend_ok [OF assms this]
  then show ?thesis using assms(4) by (cases res) (auto intro: grows_weaken)
qed

lemma descend_used:
  assumes "vm_ok R X s" and "r \<in> R" and "walk (vmm_mem s) r p = Some t"
    and "length p + length q \<le> 3" and "descend t q s = (res, s')" and "u \<in> avail s - avail s'"
  shows "\<exists>q1 q2. q = q1 @ q2 \<and> q1 \<noteq> [] \<and> walk (vmm_mem s') r (p @ q1) = Some u"
  using assms
proof (induction q arbitrary: s p t)
  case (Cons i q)
  obtain r1 s1 where g: "get_or_create_table t i s = (r1, s1)" by (cases "get_or_create_table t i s")
  have len: "length p \<le> 2" using Cons.prems(4) by simp
  note k = get_or_create_ok [OF Cons.prems(1-3) len g]
  note used = get_or_create_used [OF Cons.prems(1-3) len g]
  show ?case
  proof (cases r1)
    case (Inl e)
    with Cons.prems(5,6) g have "walk (vmm_mem s') r (p @ [i]) = Some u" using used by simp
    then show ?thesis by (metis append_Cons append_Nil list.distinct(1))
  next
    case (Inr t1)
    with Cons.prems(5) g have d: "descend t1 q s1 = (res, s')" by simp
    have w1: "walk (vmm_mem s1) r (p @ [i]) = Some t1" by (rule k(3) [OF Inr])
    have le: "length (p @ [i]) + length q \<le> 3" using Cons.prems(4) by simp
    show ?thesis
    proof (cases "u \<in> avail s1")
      case True
      with Cons.prems(6) have "u \<in> avail s1 - avail s'" by blast
      from Cons.IH [OF k(1) Cons.prems(2) w1 le d this] obtain q1 q2 where
        "q = q1 @ q2" "walk (vmm_mem s') r ((p @ [i]) @ q1) = Some u" by blast
      then have "i # q = (i # q1) @ q2 \<and> i # q1 \<noteq> [] \<and> walk (vmm_mem s') r (p @ i # q1) = Some u" by simp
      then show ?thesis by blast
    next
      case False
      with Cons.prems(6) used have "walk (vmm_mem s1) r (p @ [i]) = Some u" by blast
      moreover have "length (p @ [i]) \<le> 3" using len by simp
      ultimately have "walk (vmm_mem s') r (p @ [i]) = Some u"
        using descend_grows [OF k(1) Cons.prems(2) w1 le d] Cons.prems(2) unfolding grows_def by blast
      then show ?thesis by (metis append_Cons append_Nil list.distinct(1))
    qed
  qed
qed simp

lemma map_page_used:
  assumes ok: "vm_ok R X s" and r: "r \<in> R" and mp: "map_page r va pa flags s = (res, s')"
  shows "\<And>u. u \<in> avail s - avail s' \<Longrightarrow> \<exists>p. length p \<le> 2 \<and> walk (vmm_mem s') r (pml4_index va # p) = Some u"
    and "\<And>r' q u. r' \<in> R \<Longrightarrow> length q \<le> 3 \<Longrightarrow> walk (vmm_mem s) r' q = Some u \<Longrightarrow> walk (vmm_mem s') r' q = Some u"
    and "avail s' \<subseteq> avail s"
proof -
  have "(\<forall>u \<in> avail s - avail s'. \<exists>p. length p \<le> 2 \<and> walk (vmm_mem s') r (pml4_index va # p) = Some u)
    \<and> (\<forall>r'\<in>R. \<forall>q u. length q \<le> 3 \<longrightarrow> walk (vmm_mem s) r' q = Some u \<longrightarrow> walk (vmm_mem s') r' q = Some u)
    \<and> avail s' \<subseteq> avail s"
  proof (cases "map_checks va pa")
    case False
    then have "s' = s" using mp by (auto simp: map_page_def map_checks_def split: if_splits)
    then show ?thesis by simp
  next
    case True
    let ?p = "[pml4_index va, pdpt_index va, pd_index va]"
    obtain d s3 where d: "descend r ?p s = (d, s3)" by (cases "descend r ?p s")
    have w0: "walk (vmm_mem s) r [] = Some r" and l0: "length ([] :: pt_index list) + length ?p \<le> 3" by simp_all
    note g = descend_grows [OF ok r w0 l0 d] and us = descend_used [OF ok r w0 l0 d]
      and k3 = descend_ok [OF ok r w0 l0 d, of "[pt_index_of va]"]
    have used: "\<exists>p. length p \<le> 2 \<and> walk (vmm_mem s3) r (pml4_index va # p) = Some u" if "u \<in> avail s - avail s3" for u
    proof -
      from us [OF that] obtain q1 q2 where q: "?p = q1 @ q2" "q1 \<noteq> []" "walk (vmm_mem s3) r q1 = Some u" by auto
      then obtain p where "q1 = pml4_index va # p" by (cases q1) auto
      moreover have "length p \<le> 2" using q(1) calculation by (auto dest: arg_cong [of _ _ length])
      ultimately show ?thesis using q(3) by blast
    qed
    have walks: "walk (vmm_mem s') r' q = walk (vmm_mem s3) r' q" if "r' \<in> R" "length q \<le> 3" for r' q
    proof (cases d)
      case (Inl e)
      then have "s' = s3" using mp d by (simp add: map_page_descend [OF True])
      then show ?thesis by simp
    next
      case (Inr pt)
      have w: "walk (vmm_mem s3) r ?p = Some pt" and fo: "forest (vmm_mem s3) R (avail s3 \<union> X)"
        using k3 Inr by (simp_all add: vm_ok_def)
      have "s' = s3 \<or> s' = s3\<lparr>vmm_mem := write_entry (vmm_mem s3) pt (pt_index_of va) (pte_set pa flags)\<rparr>"
        using mp d Inr by (auto simp: map_page_descend [OF True] split: if_splits)
      then show ?thesis using walk_leaf_write [OF fo r w _ that] by auto
    qed
    have "s' = s3\<lparr>vmm_mem := vmm_mem s'\<rparr>"
      using mp d by (cases d) (auto simp: map_page_descend [OF True] split: if_splits)
    then have av: "avail s' = avail s3" by (metis avail_mem)
    have sub: "avail s3 \<subseteq> avail s" using g by (simp add: grows_def)
    have "\<exists>p. length p \<le> 2 \<and> walk (vmm_mem s') r (pml4_index va # p) = Some u" if "u \<in> avail s - avail s'" for u
      using used [of u] that walks [OF r, of "pml4_index va # _"] av by fastforce
    moreover have "walk (vmm_mem s') r' q = Some u" if "r' \<in> R" "length q \<le> 3" "walk (vmm_mem s) r' q = Some u" for r' q u
      using walks [OF that(1,2)] that g unfolding grows_def by simp
    ultimately show ?thesis using av sub by blast
  qed
  then show "\<And>u. u \<in> avail s - avail s' \<Longrightarrow> \<exists>p. length p \<le> 2 \<and> walk (vmm_mem s') r (pml4_index va # p) = Some u"
    and "\<And>r' q u. r' \<in> R \<Longrightarrow> length q \<le> 3 \<Longrightarrow> walk (vmm_mem s) r' q = Some u \<Longrightarrow> walk (vmm_mem s') r' q = Some u"
    and "avail s' \<subseteq> avail s" by blast+
qed

lemma xlate_rest_less: "xlate m t p = Some (e, rest) \<Longrightarrow> length rest < length p"
proof (induction p arbitrary: t)
  case (Cons i p)
  then show ?case by (auto simp: Let_def split: if_splits) (metis less_SucI)
qed simp

text \<open>The page-size bit of a top-level entry shows in the translations.\<close>

lemma plain_slots_xlate:
  "plain_slots m root \<longleftrightarrow> (\<forall>q e rest. length q = 4 \<longrightarrow> \<not> shared_slot (hd q) \<longrightarrow> xlate m root q = Some (e, rest) \<longrightarrow> length rest < 3)"
  (is "_ \<longleftrightarrow> ?r")
proof
  assume p: "plain_slots m root"
  show ?r
  proof (intro allI impI)
    fix q e rest assume q: "length q = 4" "\<not> shared_slot (hd q)" "xlate m root q = Some (e, rest)"
    then obtain i p where ip: "q = i # p" "length p = 3" by (cases q) auto
    then have "xlate m (pte_phys_addr (m root i)) p = Some (e, rest)"
      using q p by (auto simp: plain_slots_def Let_def split: if_splits)
    then show "length rest < 3" using xlate_rest_less ip(2) by metis
  qed
next
  assume r: ?r
  show "plain_slots m root"
    unfolding plain_slots_def
  proof (intro allI impI notI)
    fix i assume i: "\<not> shared_slot i" "is_present (m root i)" "is_huge (m root i)"
    then have "xlate m root [i, 0, 0, 0] = Some (m root i, [0, 0, 0])" by simp
    from r [rule_format, OF _ _ this] i(1) show False by simp
  qed
qed

lemma same_restD_root: "same_rest s s' \<Longrightarrow> root_pml4_phys s' = root_pml4_phys s \<and> is_bootstrapping s' = is_bootstrapping s
    \<and> managed_addrs (vmm_pmm s') = managed_addrs (vmm_pmm s)"
  using same_restD by metis

text \<open>Any step that links only available frames as tables and adds only 4 KiB leaves keeps every
  space intact.\<close>

lemma space_ok_step:
  assumes sp: "space_ok R s b" and inv: "pmm_inv (vmm_pmm s)" and nb: "\<not> is_bootstrapping s"
    and rest: "same_rest s s'" and tab: "tables_from R s s'"
    and leaf: "\<And>q e rest. length q = 4 \<Longrightarrow> xlate (vmm_mem s') (root_page b) q = Some (e, rest) \<Longrightarrow>
      rest = [] \<or> xlate (vmm_mem s) (root_page b) q = Some (e, rest)"
  shows "space_ok R s' b"
proof -
  note sr = same_restD_root [OF rest]
  have b: "root_page b \<in> R" using sp by (simp add: space_ok_def)
  have "avail s \<subseteq> managed_addrs (vmm_pmm s)" using pmm_frames.frees_managed [OF inv] nb by (simp add: avail_def)
  moreover have "private_tables (vmm_mem s') (root_page b) \<subseteq> private_tables (vmm_mem s) (root_page b) \<union> avail s"
    unfolding private_tables_def
  proof safe
    fix t i p assume a: "\<not> shared_slot i" "length p \<le> 2" "walk (vmm_mem s') (root_page b) (i # p) = Some t" "t \<notin> avail s"
    have "length (i # p) \<le> 3" using a(2) by simp
    then have "walk (vmm_mem s) (root_page b) (i # p) = Some t"
      using tab b a(3,4) unfolding tables_from_def by blast
    then show "\<exists>i p. \<not> shared_slot i \<and> length p \<le> 2 \<and> walk (vmm_mem s) (root_page b) (i # p) = Some t" using a by blast
  qed
  moreover have "plain_slots (vmm_mem s') (root_page b)"
    unfolding plain_slots_xlate
  proof (intro allI impI)
    fix q e rest assume q: "length q = 4" "\<not> shared_slot (hd q)" "xlate (vmm_mem s') (root_page b) q = Some (e, rest)"
    have "plain_slots (vmm_mem s) (root_page b)" using sp by (simp add: space_ok_def)
    then show "length rest < 3" using leaf [OF q(1,3)] q(1,2) unfolding plain_slots_xlate by auto
  qed
  ultimately show ?thesis using sp sr unfolding space_ok_def by auto
qed

text \<open>With a second root alive, the agreement of the shared slots already says that they are filled.\<close>

lemma kernel_ok_shared:
  assumes "vm_ok R X v" and "space_ok R v a" and "root_pml4_phys v \<in> R" "root_pml4_phys v \<noteq> 0" "\<not> is_bootstrapping v"
  shows "kernel_ok R v"
  using assms unfolding kernel_ok_def vm_ok_def forest_def space_ok_def by metis

lemma space_map_page:
  assumes ok: "vm_ok R X s" and sp: "space_ok R s b" and nb: "\<not> is_bootstrapping s" and r: "r \<in> R"
    and mp: "map_page r va pa flags s = (res, s')" and fl: "is_present flags"
  shows "space_ok R s' b" and "vm_ok R X s'"
proof -
  have inv: "pmm_inv (vmm_pmm s)" using ok by (simp add: vm_ok_def)
  have b: "root_page b \<in> R" using sp by (simp add: space_ok_def)
  have "vm_ok R X s' \<and> same_rest s s' \<and> (\<forall>q e rest. length q = 4 \<longrightarrow> xlate (vmm_mem s') (root_page b) q = Some (e, rest) \<longrightarrow>
      rest = [] \<or> xlate (vmm_mem s) (root_page b) q = Some (e, rest))"
  proof (cases res)
    case (Inl e)
    with map_page_Inl [OF ok r, of va pa flags e s'] mp show ?thesis
      using growsD_rest [of R 3 s s'] growsD_xlate [OF _ b, of 3 s s'] by simp
  next
    case (Inr u)
    then have mp': "map_page r va pa flags s = (Inr (), s')" using mp by simp
    note k = map_page_Inr [OF ok r mp' fl]
    show ?thesis using k(2,3) k(7) [OF b] by (auto split: if_splits)
  qed
  then show "vm_ok R X s'" "space_ok R s' b"
    using space_ok_step [OF sp inv nb _ map_page_tables [OF ok r mp]] by blast+
qed

subsection \<open>Teardown\<close>

text \<open>A root whose table is changed or dropped: no other root reads it, and its private tables
  are reached from nowhere else.\<close>

lemma removed_root:
  assumes fo: "forest m R A" and r: "r \<in> R" and other: "\<And>t. t \<noteq> r \<Longrightarrow> m' t = m t"
  shows "\<And>r' q. r' \<in> R - {r} \<Longrightarrow> length q \<le> 4 \<Longrightarrow> xlate m' r' q = xlate m r' q"
    and "\<And>r' q. r' \<in> R - {r} \<Longrightarrow> length q \<le> 4 \<Longrightarrow> walk m' r' q = walk m r' q"
    and "forest m' (R - {r}) (A \<union> insert r (private_tables m r))"
proof -
  have reads: "m' w j = m w j" if "r' \<in> R - {r}" "length q \<le> 4" "q = u @ j # x" "walk m r' u = Some w" for r' q u j x w
  proof -
    have "length u \<le> 3" using that(2,3) by simp
    from forest_inj [OF fo _ r this, of r' "[]" w] that(1,4) have "w \<noteq> r" by (auto simp: same_subtree_def)
    then show ?thesis using other by simp
  qed
  show "xlate m' r' q = xlate m r' q" if "r' \<in> R - {r}" "length q \<le> 4" for r' q
    by (rule xlate_cong) (rule reads [OF that])
  show walks: "walk m' r' q = walk m r' q" if "r' \<in> R - {r}" "length q \<le> 4" for r' q
    by (rule walk_cong) (rule reads [OF that])
  show "forest m' (R - {r}) (A \<union> insert r (private_tables m r))"
  proof (rule forestI)
    fix r' p t assume a: "r' \<in> R - {r}" "length p \<le> 3" "walk m' r' p = Some t"
    have w: "walk m r' p = Some t" using walks [OF a(1), of p] a(2,3) by simp
    have "t \<noteq> r" using forest_inj [OF fo _ r a(2) _ w, of "[]"] a(1) by (auto simp: same_subtree_def)
    moreover have "t \<notin> private_tables m r"
    proof
      assume "t \<in> private_tables m r"
      then obtain i q where q: "\<not> shared_slot i" "length q \<le> 2" "walk m r (i # q) = Some t" by (auto simp: private_tables_def)
      have "length (i # q) \<le> 3" using q(2) by simp
      from forest_inj [OF fo _ r a(2) this w q(3)] a(1) q(1) show False by (auto simp: same_subtree_def)
    qed
    moreover have "t \<notin> A" using forest_avoid [OF fo _ a(2) w] a(1) by simp
    ultimately show "t \<notin> A \<union> insert r (private_tables m r)" by simp
  next
    fix r1 r2 p q t assume a: "r1 \<in> R - {r}" "r2 \<in> R - {r}" "length p \<le> 3" "length q \<le> 3"
      "walk m' r1 p = Some t" "walk m' r2 q = Some t"
    have "walk m r1 p = Some t" "walk m r2 q = Some t" using a walks [OF a(1), of p] walks [OF a(2), of q] by simp_all
    then show "p = q \<and> same_subtree r1 r2 p" using forest_inj [OF fo _ _ a(3,4)] a(1,2) by blast
  next
    fix r1 r2 i assume "r1 \<in> R - {r}" "r2 \<in> R - {r}" "r1 \<noteq> r2" "shared_slot i"
    then show "m' r1 i = m' r2 i \<and> is_present (m' r1 i)"
      using forest_shared [OF fo, of r1 r2 i] forest_shared_present [OF fo, of r1 r2 i] other [of r1] other [of r2] by simp
  qed
qed

lemma destroy_tables:
  assumes ok: "vm_ok R X v" and sp: "space_ok R v a" and nb: "\<not> is_bootstrapping v"
    and fp: "free_private_tables (root_page a) v = ((freed, leaves), v1)"
  defines "r \<equiv> root_page a" and "v' \<equiv> free_frame (root_page a) v1"
  shows "vm_ok (R - {r}) X v'" and "freed = card (private_tables (vmm_mem v) r)"
    and "leaves = slot_leaves (vmm_mem v) r private_slots"
    and "free_addrs (vmm_pmm v') = free_addrs (vmm_pmm v) \<union> insert r (private_tables (vmm_mem v) r)"
    and "v' = v\<lparr>vmm_mem := vmm_mem v', vmm_pmm := vmm_pmm v'\<rparr>"
    and "managed_addrs (vmm_pmm v') = managed_addrs (vmm_pmm v)"
    and "\<And>t. t \<noteq> r \<Longrightarrow> vmm_mem v' t = vmm_mem v t"
    and "\<And>r' q. r' \<in> R - {r} \<Longrightarrow> length q \<le> 4 \<Longrightarrow> xlate (vmm_mem v') r' q = xlate (vmm_mem v) r' q"
    and "\<And>r' q. r' \<in> R - {r} \<Longrightarrow> length q \<le> 4 \<Longrightarrow> walk (vmm_mem v') r' q = walk (vmm_mem v) r' q"
proof -
  let ?m = "vmm_mem v" and ?ts = "slot_tables (vmm_mem v) r private_slots"
  have inv: "pmm_inv (vmm_pmm v)" and fo: "forest ?m R (avail v \<union> X)" and pool: "pool_ok v" and X: "X \<inter> avail v = {}"
    using ok by (simp_all add: vm_ok_def)
  have r: "r \<in> R" and plain: "plain_slots ?m r" and man: "insert r (private_tables ?m r) \<subseteq> managed_addrs (vmm_pmm v)"
    using sp by (simp_all add: space_ok_def r_def)
  note own = forest_own_tables [OF fo r] and dist = distinct_slot_tables [OF fo r]
  have fold: "fold (free_pml4_slot r) private_slots (0, 0, v) = (0 + length ?ts, 0 + slot_leaves ?m r private_slots,
      (give ?ts v)\<lparr>vmm_mem := clear_slots r private_slots ?m\<rparr>)"
    by (rule fold_free_slots [OF own distinct_private_slots])
      (use plain set_private_slots in \<open>auto simp: plain_slots_def\<close>)
  then have f: "freed = length ?ts" "leaves = slot_leaves ?m r private_slots"
    and v1: "v1 = (give ?ts v)\<lparr>vmm_mem := clear_slots r private_slots ?m\<rparr>"
    using fp by (simp_all add: free_private_tables_def r_def)
  show "leaves = slot_leaves ?m r private_slots" by (rule f(2))
  show "freed = card (private_tables ?m r)" using f(1) dist distinct_card set_slot_tables by metis
  have v': "v' = v\<lparr>vmm_mem := clear_slots r private_slots ?m, vmm_pmm := release_all free_physical_page (?ts @ [r]) (vmm_pmm v)\<rparr>"
    by (simp add: v'_def v1 free_frame_def give_def release_all_append r_def)
  show other: "vmm_mem v' t = ?m t" if "t \<noteq> r" for t using that by (simp add: v' clear_slots_def fun_eq_iff)
  show "v' = v\<lparr>vmm_mem := vmm_mem v', vmm_pmm := vmm_pmm v'\<rparr>" by (simp add: v')
  have nr: "r \<notin> private_tables ?m r" using own by (auto simp: own_tables_def private_tables_def simp del: walk.simps)
  have fresh: "insert r (private_tables ?m r) \<inter> (avail v \<union> X) = {}"
  proof -
    have "t \<notin> avail v \<union> X" if "t \<in> private_tables ?m r" for t
    proof -
      from that obtain i p where "length (i # p) \<le> 3" "walk ?m r (i # p) = Some t"
        unfolding private_tables_def by fastforce
      then show ?thesis by (rule forest_avoid [OF fo r])
    qed
    moreover have "r \<notin> avail v \<union> X" using forest_avoid [OF fo r, of "[]" r] by simp
    ultimately show ?thesis by blast
  qed
  have st: "set (?ts @ [r]) = insert r (private_tables ?m r)" using set_slot_tables by auto
  have "set (?ts @ [r]) \<inter> free_addrs (vmm_pmm v) = {}" unfolding st using fresh by (auto simp: avail_def)
  moreover have "distinct (?ts @ [r])" using dist nr set_slot_tables by auto
  ultimately have rel: "free_addrs (vmm_pmm v') = free_addrs (vmm_pmm v) \<union> insert r (private_tables ?m r)
      \<and> managed_addrs (vmm_pmm v') = managed_addrs (vmm_pmm v) \<and> pmm_inv (vmm_pmm v')"
    using pmm_frames.release_all_frees [OF inv, of "?ts @ [r]"] man unfolding st by (simp add: v' st [simplified])
  then show "free_addrs (vmm_pmm v') = free_addrs (vmm_pmm v) \<union> insert r (private_tables ?m r)"
    "managed_addrs (vmm_pmm v') = managed_addrs (vmm_pmm v)" by simp_all
  note d = removed_root [OF fo r, of "vmm_mem v'", OF other]
  show "xlate (vmm_mem v') r' q = xlate ?m r' q" "walk (vmm_mem v') r' q = walk ?m r' q"
    if "r' \<in> R - {r}" "length q \<le> 4" for r' q using d(1,2) that by simp_all
  have av: "avail v' = avail v \<union> insert r (private_tables ?m r)" using rel nb by (simp add: avail_def v')
  have "forest (vmm_mem v') (R - {r}) (avail v' \<union> X)"
    by (rule forest_mono [OF d(3)]) (auto simp: av)
  moreover have "pool_ok v'" using pool nb by (simp add: pool_ok_def v')
  moreover have "X \<inter> avail v' = {}" using X fresh av by auto
  ultimately show "vm_ok (R - {r}) X v'" using rel by (simp add: vm_ok_def)
qed

subsection \<open>Accounting\<close>

text \<open>The frames a space holds, its tables and its root, together with the free frames.\<close>

definition held_frames :: "vmm \<Rightarrow> address_space \<Rightarrow> u64 set" where
  "held_frames v a = insert (root_page a) (private_tables (vmm_mem v) (root_page a))"

lemma map_page_rest:
  assumes ok: "vm_ok R X s" and r: "r \<in> R" and mp: "map_page r va pa flags s = (res, s')" and fl: "is_present flags"
  shows "same_rest s s'"
proof (cases res)
  case (Inl e)
  then show ?thesis using map_page_Inl(2) [OF ok r] mp growsD_rest by blast
next
  case (Inr u)
  then have "map_page r va pa flags s = (Inr (), s')" using mp by simp
  then show ?thesis using map_page_Inr(3) [OF ok r _ fl] by blast
qed

lemma map_page_balance:
  assumes ok: "vm_ok R X s" and sp: "space_ok R s a" and nb: "\<not> is_bootstrapping s"
    and mp: "map_page (root_page a) va pa flags s = (res, s')" and pr: "is_private_addr va" and fl: "is_present flags"
  shows "free_addrs (vmm_pmm s') \<union> held_frames s' a = free_addrs (vmm_pmm s) \<union> held_frames s a"
proof -
  let ?r = "root_page a"
  have r: "?r \<in> R" using sp by (simp add: space_ok_def)
  note us = map_page_used [OF ok r mp] and tf = map_page_tables [OF ok r mp]
  have sp': "space_ok R s' a" "vm_ok R X s'" using space_map_page [OF ok sp nb r mp fl] by simp_all
  have "same_rest s s'" by (rule map_page_rest [OF ok r mp fl])
  then have nb': "\<not> is_bootstrapping s'" using nb same_restD_root by metis
  have av: "free_addrs (vmm_pmm s) = avail s" "free_addrs (vmm_pmm s') = avail s'"
    using nb nb' by (simp_all add: avail_def)
  have "private_tables (vmm_mem s') ?r \<subseteq> private_tables (vmm_mem s) ?r \<union> avail s"
  proof
    fix t assume "t \<in> private_tables (vmm_mem s') ?r"
    then obtain i p where ip: "\<not> shared_slot i" "length p \<le> 2" "walk (vmm_mem s') ?r (i # p) = Some t"
      unfolding private_tables_def by blast
    then have "walk (vmm_mem s) ?r (i # p) = Some t \<or> t \<in> avail s"
      using tf r unfolding tables_from_def by (metis Suc_le_mono length_Cons numeral_2_eq_2 numeral_3_eq_3)
    then show "t \<in> private_tables (vmm_mem s) ?r \<union> avail s" using ip unfolding private_tables_def by blast
  qed
  moreover have "private_tables (vmm_mem s) ?r \<subseteq> private_tables (vmm_mem s') ?r"
  proof
    fix t assume "t \<in> private_tables (vmm_mem s) ?r"
    then obtain i p where ip: "\<not> shared_slot i" "length p \<le> 2" "walk (vmm_mem s) ?r (i # p) = Some t"
      unfolding private_tables_def by blast
    then have "walk (vmm_mem s') ?r (i # p) = Some t" by (intro us(2) [OF r]) simp_all
    then show "t \<in> private_tables (vmm_mem s') ?r" using ip unfolding private_tables_def by blast
  qed
  moreover have "avail s - avail s' \<subseteq> private_tables (vmm_mem s') ?r"
  proof
    fix u assume "u \<in> avail s - avail s'"
    from us(1) [OF this] show "u \<in> private_tables (vmm_mem s') ?r"
      using pr unfolding private_tables_def private_slot_iff by blast
  qed
  ultimately show ?thesis using us(3) unfolding av held_frames_def by blast
qed

text \<open>A space that is used for any sequence of mappings.\<close>

fun map_all :: "address_space \<Rightarrow> (virt_addr \<times> phys_page \<times> page_flags) list \<Rightarrow> as_state \<Rightarrow> as_state" where
  "map_all a [] s = s"
| "map_all a ((va, pa, flags) # reqs) s = map_all a reqs (snd (as_map_page a va pa flags s))"

lemma as_map_page_cases:
  assumes "as_map_page a va pa flags s = (res, s')"
  obtains (shared) "\<not> is_private_addr va" "res = Inl InvalidVirtualAddress" "s' = s"
  | (own) mres where "is_private_addr va" "map_page (root_page a) va pa flags (as_vmm s) = (mres, as_vmm s')"
      "s' = s\<lparr>as_vmm := as_vmm s'\<rparr>" "res = (case mres of Inl e \<Rightarrow> Inl (MappingFailed e) | Inr _ \<Rightarrow> Inr ())"
  using assms by (auto simp: as_map_page_def split: if_splits prod.splits sum.splits)

lemma map_all_balance:
  assumes "vm_ok R X (as_vmm s)" and "space_ok R (as_vmm s) a" and "\<not> is_bootstrapping (as_vmm s)"
    and "\<forall>(va, pa, flags) \<in> set reqs. is_present flags"
  shows "vm_ok R X (as_vmm (map_all a reqs s)) \<and> space_ok R (as_vmm (map_all a reqs s)) a
    \<and> same_rest (as_vmm s) (as_vmm (map_all a reqs s))
    \<and> free_addrs (vmm_pmm (as_vmm (map_all a reqs s))) \<union> held_frames (as_vmm (map_all a reqs s)) a
      = free_addrs (vmm_pmm (as_vmm s)) \<union> held_frames (as_vmm s) a"
  using assms
proof (induction reqs arbitrary: s)
  case (Cons q reqs)
  obtain va pa flags where q: "q = (va, pa, flags)" by (cases q)
  have fl: "is_present flags" using Cons.prems(4) q by simp
  have r: "root_page a \<in> R" using Cons.prems(2) by (simp add: space_ok_def)
  obtain res s1 where m: "as_map_page a va pa flags s = (res, s1)" by (cases "as_map_page a va pa flags s")
  have step: "vm_ok R X (as_vmm s1) \<and> space_ok R (as_vmm s1) a \<and> same_rest (as_vmm s) (as_vmm s1)
    \<and> free_addrs (vmm_pmm (as_vmm s1)) \<union> held_frames (as_vmm s1) a
      = free_addrs (vmm_pmm (as_vmm s)) \<union> held_frames (as_vmm s) a"
    using m
  proof (cases rule: as_map_page_cases)
    case shared
    then show ?thesis using Cons.prems by simp
  next
    case (own mres)
    show ?thesis
      using space_map_page [OF Cons.prems(1-3) r own(2) fl] map_page_rest [OF Cons.prems(1) r own(2) fl]
        map_page_balance [OF Cons.prems(1-3) own(2,1) fl] by simp
  qed
  have nb: "\<not> is_bootstrapping (as_vmm s1)" using step Cons.prems(3) same_restD_root by metis
  have "\<forall>(va, pa, flags) \<in> set reqs. is_present flags" using Cons.prems(4) by simp
  note IH = Cons.IH [OF conjunct1 [OF step] _ nb this]
  have "map_all a (q # reqs) s = map_all a reqs s1" using m q by simp
  then show ?case using IH step same_rest_trans by auto
qed simp

lemma held_not_free:
  assumes ok: "vm_ok R X v" and sp: "space_ok R v a"
  shows "held_frames v a \<inter> free_addrs (vmm_pmm v) = {}"
proof -
  have fo: "forest (vmm_mem v) R (avail v \<union> X)" and r: "root_page a \<in> R"
    using ok sp by (simp_all add: vm_ok_def space_ok_def)
  have "t \<notin> avail v" if t: "t \<in> held_frames v a" for t
  proof -
    have "\<exists>p. length p \<le> 3 \<and> walk (vmm_mem v) (root_page a) p = Some t"
    proof (cases "t = root_page a")
      case True
      then have "length ([] :: pt_index list) \<le> 3 \<and> walk (vmm_mem v) (root_page a) [] = Some t" by simp
      then show ?thesis by blast
    next
      case False
      with t obtain i p where "length p \<le> 2" "walk (vmm_mem v) (root_page a) (i # p) = Some t"
        unfolding held_frames_def private_tables_def by blast
      then have "length (i # p) \<le> 3 \<and> walk (vmm_mem v) (root_page a) (i # p) = Some t" by simp
      then show ?thesis by blast
    qed
    then obtain p where "length p \<le> 3" "walk (vmm_mem v) (root_page a) p = Some t" by blast
    from forest_avoid [OF fo r this] show ?thesis by simp
  qed
  then show ?thesis by (auto simp: avail_def)
qed

text \<open>What \<^verbatim>\<open>destroy\<close> does to the state.\<close>

lemma destroy_space:
  assumes ok: "vm_ok R X (as_vmm s)" and sp: "space_ok R (as_vmm s) a" and nb: "\<not> is_bootstrapping (as_vmm s)"
    and kr: "root_pml4_phys (as_vmm s) \<noteq> 0" and ds: "as_destroy a s = (a', s')"
  shows "a' = a\<lparr>root_page := 0, owns_root := False\<rparr>" and "vm_ok (R - {root_page a}) X (as_vmm s')"
    and "free_addrs (vmm_pmm (as_vmm s')) = free_addrs (vmm_pmm (as_vmm s)) \<union> held_frames (as_vmm s) a"
    and "\<And>r q. r \<in> R - {root_page a} \<Longrightarrow> length q \<le> 4 \<Longrightarrow>
      xlate (vmm_mem (as_vmm s')) r q = xlate (vmm_mem (as_vmm s)) r q"
    and "cr3 (as_vmm s') = (if cr3 (as_vmm s) AND NOT 0xFFF = root_page a then root_pml4_phys (as_vmm s) else cr3 (as_vmm s))"
    and "as_vmm s' = (as_vmm s)\<lparr>vmm_mem := vmm_mem (as_vmm s'), vmm_pmm := vmm_pmm (as_vmm s'), cr3 := cr3 (as_vmm s')\<rparr>"
    and "managed_addrs (vmm_pmm (as_vmm s')) = managed_addrs (vmm_pmm (as_vmm s))"
    and "\<And>t. t \<noteq> root_page a \<Longrightarrow> vmm_mem (as_vmm s') t = vmm_mem (as_vmm s) t"
    and "\<And>r q. r \<in> R - {root_page a} \<Longrightarrow> length q \<le> 4 \<Longrightarrow> walk (vmm_mem (as_vmm s')) r q = walk (vmm_mem (as_vmm s)) r q"
    and "next_asid s' = next_asid s"
proof -
  let ?v = "as_vmm s"
  let ?on = "cr3 ?v AND NOT 0xFFF = root_page a"
  have own: "owns_root a" "root_page a \<noteq> 0" using sp by (simp_all add: space_ok_def)
  define s1 where "s1 = (if ?on then as_activate (as_bootstrap s) s else s)"
  have v1: "as_vmm s1 = ?v\<lparr>cr3 := if ?on then root_pml4_phys ?v else cr3 ?v\<rparr>"
    using kr by (simp add: s1_def as_activate_def as_bootstrap_def Let_def)
  have ok1: "vm_ok R X (as_vmm s1)" using vm_ok_cong(1) [of "as_vmm s1" ?v] ok by (simp add: v1)
  have sp1: "space_ok R (as_vmm s1) a" using sp by (simp add: v1 space_ok_def)
  have nb1: "\<not> is_bootstrapping (as_vmm s1)" using nb by (simp add: v1)
  obtain freed leaves v2 where fp: "free_private_tables (root_page a) (as_vmm s1) = ((freed, leaves), v2)"
    by (metis prod.collapse)
  note d = destroy_tables [OF ok1 sp1 nb1 fp]
  have eq: "as_destroy a s = (a\<lparr>root_page := 0, owns_root := False\<rparr>, s1\<lparr>as_vmm := free_frame (root_page a) v2\<rparr>)"
    unfolding as_destroy_def Let_def s1_def [symmetric] using own fp by simp
  then show "a' = a\<lparr>root_page := 0, owns_root := False\<rparr>" using ds by simp
  have s': "as_vmm s' = free_frame (root_page a) v2" using ds eq by auto
  show "vm_ok (R - {root_page a}) X (as_vmm s')" using d(1) s' by simp
  show "free_addrs (vmm_pmm (as_vmm s')) = free_addrs (vmm_pmm ?v) \<union> held_frames ?v a"
    using d(4) by (simp add: s' v1 held_frames_def)
  show "xlate (vmm_mem (as_vmm s')) r q = xlate (vmm_mem ?v) r q" if "r \<in> R - {root_page a}" "length q \<le> 4" for r q
    using d(8) [OF that] by (simp add: s' v1)
  show c: "cr3 (as_vmm s') = (if ?on then root_pml4_phys ?v else cr3 ?v)"
    unfolding s' by (subst d(5)) (simp add: v1)
  have e: "as_vmm s' = (as_vmm s1)\<lparr>vmm_mem := vmm_mem (as_vmm s'), vmm_pmm := vmm_pmm (as_vmm s')\<rparr>"
    unfolding s' by (rule d(5))
  show "as_vmm s' = ?v\<lparr>vmm_mem := vmm_mem (as_vmm s'), vmm_pmm := vmm_pmm (as_vmm s'), cr3 := cr3 (as_vmm s')\<rparr>"
    unfolding c by (subst e) (simp add: v1)
  show "managed_addrs (vmm_pmm (as_vmm s')) = managed_addrs (vmm_pmm ?v)" using d(6) by (simp add: s' v1)
  show "vmm_mem (as_vmm s') t = vmm_mem ?v t" if "t \<noteq> root_page a" for t using d(7) [OF that] by (simp add: s' v1)
  show "walk (vmm_mem (as_vmm s')) r q = walk (vmm_mem ?v) r q" if "r \<in> R - {root_page a}" "length q \<le> 4" for r q
    using d(9) [OF that] by (simp add: s' v1)
  show "next_asid s' = next_asid s" using ds eq by (auto simp: s1_def as_activate_def as_bootstrap_def Let_def)
qed

end
