(* ===== verification/Isolation.thy ===== *)
theory Isolation
  imports Address_Space_Ops
begin

text \<open>
  The guarantees of process address spaces: a new space starts with the kernel's mappings only,
  mappings in one space are invisible in every other, and destroying a space gives back exactly what it
  held, so that no sequence of uses leaks a frame.
\<close>

subsection \<open>Properties\<close>

text \<open>C18. A new address space takes one free frame for its root.  It translates every address of a shared slot
  (slot 0 and the kernel half) as the kernel does and no private address at all; no existing
  translation changes, and the page tables stay separate.\<close>
theorem as_new_shares_kernel:
  assumes "vm_ok R X (as_vmm s)" and "kernel_ok R (as_vmm s)" and "as_new s = (Inr a, s')"
  shows "vm_ok (insert (root_page a) R) X (as_vmm s') \<and> space_ok (insert (root_page a) R) (as_vmm s') a
    \<and> kernel_ok (insert (root_page a) R) (as_vmm s')
    \<and> root_page a \<in> free_addrs (vmm_pmm (as_vmm s))
    \<and> free_addrs (vmm_pmm (as_vmm s')) = free_addrs (vmm_pmm (as_vmm s)) - {root_page a}
    \<and> (\<forall>va. mmu_translate (vmm_mem (as_vmm s')) (root_page a) va =
         (if is_private_addr va then None else mmu_translate (vmm_mem (as_vmm s)) (root_pml4_phys (as_vmm s)) va))
    \<and> (\<forall>r\<in>R. \<forall>va. mmu_translate (vmm_mem (as_vmm s')) r va = mmu_translate (vmm_mem (as_vmm s)) r va)
    \<and> as_id a = next_asid s \<and> next_asid s' = as_id a + 1"
proof -
  note k = as_new_Inr [OF assms]
  have "mmu_translate (vmm_mem (as_vmm s')) (root_page a) va =
      (if is_private_addr va then None else mmu_translate (vmm_mem (as_vmm s)) (root_pml4_phys (as_vmm s)) va)" for va
    using k(12) [of "va_path va"] unfolding private_slot_iff by (simp add: mmu_translate_def va_path_def)
  moreover have "mmu_translate (vmm_mem (as_vmm s')) r va = mmu_translate (vmm_mem (as_vmm s)) r va" if "r \<in> R" for r va
    using k(11) [OF that] by (intro mmu_cong) simp
  ultimately show ?thesis using k(1-5,7,8) by simp
qed

text \<open>C2. Mapping through an address space is isolated: an address of a shared slot is refused; otherwise the
  only translations that can change are those of the mapped page in this very space, all other
  addresses and all other roots, the kernel's included, translate as before, and every other space
  stays well formed.\<close>
theorem as_map_page_isolated:
  assumes "vm_ok R X (as_vmm s)" and "kernel_ok R (as_vmm s)" and "space_ok R (as_vmm s) a"
    and "is_present flags" and "flags_clean flags" and "frame_addr pa"
    and "as_map_page a va pa flags s = (res, s')"
  shows "vm_ok R X (as_vmm s') \<and> kernel_ok R (as_vmm s') \<and> (\<forall>b. space_ok R (as_vmm s) b \<longrightarrow> space_ok R (as_vmm s') b)
    \<and> (\<not> is_private_addr va \<longrightarrow> res = Inl InvalidVirtualAddress \<and> s' = s)
    \<and> (\<forall>r\<in>R. \<forall>va'. mmu_translate (vmm_mem (as_vmm s')) r va' =
        (if res = Inr () \<and> r = root_page a \<and> is_canonical va' \<and> same_page va va' then Some (pa + page_offset va', flags)
         else mmu_translate (vmm_mem (as_vmm s)) r va'))"
  using assms(7)
proof (cases rule: as_map_page_cases)
  case shared
  then show ?thesis using assms(1,2) by simp
next
  case (own mres)
  have r: "root_page a \<in> R" using assms(3) by (simp add: space_ok_def)
  have nb: "\<not> is_bootstrapping (as_vmm s)" using assms(2) by (simp add: kernel_ok_def)
  have sp: "space_ok R (as_vmm s') b" if "space_ok R (as_vmm s) b" for b
    by (rule space_map_page(1) [OF assms(1) that nb r own(2) assms(4)])
  have vm: "vm_ok R X (as_vmm s')" by (rule space_map_page(2) [OF assms(1,3) nb r own(2) assms(4)])
  have ke: "kernel_ok R (as_vmm s')"
    using kernel_ok_shared [OF vm sp [OF assms(3)]] assms(2) same_restD_root [OF map_page_rest [OF assms(1) r own(2) assms(4)]]
    by (simp add: kernel_ok_def)
  show ?thesis
  proof (cases mres)
    case (Inl e)
    have "mmu_translate (vmm_mem (as_vmm s')) r' va' = mmu_translate (vmm_mem (as_vmm s)) r' va'" if "r' \<in> R" for r' va'
      using map_page_Inl(2) [OF assms(1) r, of va pa flags e "as_vmm s'"] own(2) Inl growsD_xlate [OF _ that]
      by (intro mmu_cong) fastforce
    then show ?thesis using own(1,4) Inl sp vm ke by simp
  next
    case (Inr u)
    then have "map_page (root_page a) va pa flags (as_vmm s) = (Inr (), as_vmm s')" using own(2) by simp
    from map_page_effect [OF assms(1) r assms(4,5,6) this] own(1)
    have "mmu_translate (vmm_mem (as_vmm s')) r' va' =
        (if r' = root_page a \<and> is_canonical va' \<and> same_page va va' then Some (pa + page_offset va', flags)
         else mmu_translate (vmm_mem (as_vmm s)) r' va')" if "r' \<in> R" for r' va'
      using that unfolding private_slot_iff sees_change_def by auto
    then show ?thesis using own(1,4) Inr sp vm ke by simp
  qed
qed

text \<open>Destroying an address space frees exactly its root and its private page tables; the frames it maps are not
  freed.  No translation of any other root changes, the processor is switched to the kernel's root if
  it was running on the space, and the handle no longer owns anything, so that a second destroy has no
  effect.\<close>
theorem as_destroy_returns_tables:
  assumes "vm_ok R X (as_vmm s)" and "kernel_ok R (as_vmm s)" and "space_ok R (as_vmm s) a"
    and "as_destroy a s = (a', s')"
  shows "vm_ok (R - {root_page a}) X (as_vmm s')
    \<and> free_addrs (vmm_pmm (as_vmm s')) = free_addrs (vmm_pmm (as_vmm s)) \<union> held_frames (as_vmm s) a
    \<and> held_frames (as_vmm s) a \<inter> free_addrs (vmm_pmm (as_vmm s)) = {}
    \<and> (\<forall>r \<in> R - {root_page a}. \<forall>va.
         mmu_translate (vmm_mem (as_vmm s')) r va = mmu_translate (vmm_mem (as_vmm s)) r va)
    \<and> cr3 (as_vmm s') = (if cr3 (as_vmm s) AND NOT 0xFFF = root_page a then root_pml4_phys (as_vmm s) else cr3 (as_vmm s))
    \<and> as_destroy a' s' = (a', s')"
proof -
  have nb: "\<not> is_bootstrapping (as_vmm s)" "root_pml4_phys (as_vmm s) \<noteq> 0"
    using assms(2) by (simp_all add: kernel_ok_def)
  note d = destroy_space [OF assms(1,3) nb assms(4)]
  have "as_destroy a' s' = (a', s')" by (simp add: d(1) as_destroy_def)
  moreover have "mmu_translate (vmm_mem (as_vmm s')) r va = mmu_translate (vmm_mem (as_vmm s)) r va"
    if "r \<in> R - {root_page a}" for r va using d(4) [OF that, of "va_path va"] by (intro mmu_cong) simp
  ultimately show ?thesis using d(2,3,5) held_not_free [OF assms(1,3)] by blast
qed

text \<open>C14. No leak: whatever pages are mapped into a new address space, destroying it makes exactly the frames free
  that were free before it was created.\<close>
theorem address_space_leaks_nothing:
  assumes "vm_ok R X (as_vmm s)" and "kernel_ok R (as_vmm s)" and "as_new s = (Inr a, s1)"
    and "\<forall>(va, pa, flags) \<in> set reqs. is_present flags"
  shows "free_addrs (vmm_pmm (as_vmm (snd (as_destroy a (map_all a reqs s1))))) = free_addrs (vmm_pmm (as_vmm s))"
proof -
  let ?R = "insert (root_page a) R" and ?s2 = "map_all a reqs s1"
  note n = as_new_Inr [OF assms(1-3)]
  have nb1: "\<not> is_bootstrapping (as_vmm s1)" using n(2) by (simp add: kernel_ok_def)
  note b = map_all_balance [OF n(1,3) nb1 assms(4)]
  have sr: "same_rest (as_vmm s1) (as_vmm ?s2)" using b by blast
  have nb2: "\<not> is_bootstrapping (as_vmm ?s2)" using nb1 same_restD_root [OF sr] by simp
  have "held_frames (as_vmm s1) a = {root_page a}" using n(13) by (simp add: held_frames_def)
  then have bal: "free_addrs (vmm_pmm (as_vmm ?s2)) \<union> held_frames (as_vmm ?s2) a = free_addrs (vmm_pmm (as_vmm s))"
    using b n(4,5) by auto
  have kr: "root_pml4_phys (as_vmm ?s2) \<noteq> 0"
    using n(2) same_restD_root [OF sr] by (simp add: kernel_ok_def)
  have ok2: "vm_ok ?R X (as_vmm ?s2)" "space_ok ?R (as_vmm ?s2) a" using b by blast+
  obtain a' s' where ds: "as_destroy a ?s2 = (a', s')" by (cases "as_destroy a ?s2")
  from destroy_space(3) [OF ok2 nb2 kr ds] bal ds show ?thesis by simp
qed

subsection \<open>After bring-up\<close>

text \<open>What \<^verbatim>\<open>vmm::init\<close> leaves behind meets the requirements above.\<close>

lemma kernel_after_init:
  assumes "pmm_inv (vmm_pmm s)" and "pool_ok (s\<lparr>is_bootstrapping := True\<rparr>)" and "bootstrap_index s = 0"
    and "pool_base s \<noteq> 0" and "vmm_init mm lapic ioapic fb s = (Inr (), s')"
  shows "vm_ok {pool_base s} {} s'" and "kernel_ok {pool_base s} s'"
proof -
  note i = vmm_init_ok(1) [OF assms(1-3,5)]
  have "is_present (vmm_mem s' (pool_base s) j)" if "shared_slot j" for j
  proof (cases "j = 0")
    case True
    have "mmu_translate (vmm_mem s') (pool_base s) 0 \<noteq> None" using i by simp
    moreover have "pml4_index 0 = 0" by (simp add: pml4_index_def)
    ultimately show ?thesis
      using True by (auto simp: mmu_translate_def va_path_def Let_def split: if_splits option.splits)
  next
    case False
    then have "j \<in> set kernel_slots" using that set_kernel_slots by auto
    then obtain t where "walk (vmm_mem s') (pool_base s) [j] = Some t" using i by blast
    then show ?thesis by (auto simp: pte_table_def split: if_splits option.splits)
  qed
  then show "kernel_ok {pool_base s} s'" using i assms(4) by (simp add: kernel_ok_def)
  show "vm_ok {pool_base s} {} s'" using i by simp
qed

definition booted :: "vmm \<Rightarrow> as_state" where
  "booted v = \<lparr>as_vmm = v, next_asid = 1, current_asid = 0\<rparr>"

lemma new_space_possible:
  assumes "vm_ok R X (as_vmm s)" and "free_addrs (vmm_pmm (as_vmm s)) \<noteq> {}"
  shows "\<exists>a s'. as_new s = (Inr a, s')"
proof -
  have inv: "pmm_inv (vmm_pmm (as_vmm s))" using assms(1) by (simp add: vm_ok_def)
  obtain r p where al: "allocate_physical_page (vmm_pmm (as_vmm s)) = (r, p)" by (cases "allocate_physical_page (vmm_pmm (as_vmm s))")
  then obtain f where "r = Some f" using pmm_frames.alloc_None [OF inv] assms(2) by (cases r) auto
  with al show ?thesis by (simp add: as_new_def Let_def)
qed

text \<open>The kernel of the sample machine, brought up, with one new space.\<close>

lemma booted_space:
  obtains s a s1 where "vm_ok {0x1000000} {} (as_vmm s)" and "kernel_ok {0x1000000} (as_vmm s)"
    and "as_new s = (Inr a, s1)" and "3 \<le> card (free_addrs (vmm_pmm (as_vmm s1)))"
    and "\<exists>v. vmm_init boot_map 0xFEE00000 0xFEC00000 None boot_vm = (Inr (), v) \<and> s = booted v"
proof -
  obtain v where v: "vmm_init boot_map 0xFEE00000 0xFEC00000 None boot_vm = (Inr (), v)"
    and c: "255 \<le> card (free_addrs (vmm_pmm v))" by (rule boot_completes)
  have "pmm_inv (vmm_pmm boot_vm)" "pool_base boot_vm \<noteq> 0" by (simp_all add: boot_vm_fields boot_inv)
  note k = kernel_after_init [OF this(1) boot_pool boot_vm_fields(2) this(2) v, unfolded boot_vm_fields]
  have k': "vm_ok {0x1000000} {} (as_vmm (booted v))" "kernel_ok {0x1000000} (as_vmm (booted v))"
    using k by (simp_all add: booted_def)
  have "free_addrs (vmm_pmm (as_vmm (booted v))) \<noteq> {}" using c by (auto simp: booted_def)
  then obtain a s1 where a: "as_new (booted v) = (Inr a, s1)" using new_space_possible [OF k'(1)] by blast
  have "card (free_addrs (vmm_pmm v)) \<le> Suc (card (free_addrs (vmm_pmm v) - {root_page a}))"
    by (simp add: card_Diff_singleton_if) arith
  then have "3 \<le> card (free_addrs (vmm_pmm (as_vmm s1)))"
    using c as_new_Inr(5) [OF k' a] by (simp add: booted_def)
  then show thesis using that k' a v by blast
qed

lemma slot_one: "is_private_addr 0x8000000000" "is_canonical 0x8000000000" "va_is_aligned 0x8000000000"
  "same_page 0x8000000000 0x8000000000" "page_offset 0x8000000000 = 0" "map_checks 0x8000000000 0x7000"
  by (simp_all add: is_private_addr_def pml4_index_def KERNEL_PML4_START_def is_canonical_def Let_def va_is_aligned_def
      same_page_def page_offset_def map_checks_def signed_drop_bit_word_numeral drop_bit_word_numeral)

lemma slot_one_mapped:
  assumes "vm_ok {0x1000000} {} (as_vmm s)" and "kernel_ok {0x1000000} (as_vmm s)"
    and "as_new s = (Inr a, s1)" and "3 \<le> card (free_addrs (vmm_pmm (as_vmm s1)))"
  shows "\<exists>s2. as_map_page a 0x8000000000 0x7000 sample_flags s1 = (Inr (), s2)"
proof -
  note k = as_new_Inr [OF assms(1-3)]
  have "xlate (vmm_mem (as_vmm s1)) (root_page a) (va_path 0x8000000000) = None"
    using k(12) [of "va_path 0x8000000000"] slot_one(1) unfolding private_slot_iff by (simp add: va_path_def)
  moreover have "\<not> is_bootstrapping (as_vmm s1)" using k(2) by (simp add: kernel_ok_def)
  ultimately obtain v where "map_page (root_page a) 0x8000000000 0x7000 sample_flags (as_vmm s1) = (Inr (), v)"
    using map_page_possible [OF k(1) _ slot_one(6) _ assms(4)] by blast
  then show ?thesis by (simp add: as_map_page_def slot_one)
qed

theorem as_new_shares_kernel_witness:
  "\<exists>s a s'. as_new s = (Inr a, s') \<and> root_page a \<in> free_addrs (vmm_pmm (as_vmm s))
     \<and> mmu_translate (vmm_mem (as_vmm s')) (root_page a) 0x8000000000 = None"
proof -
  obtain s a s1 where k: "vm_ok {0x1000000} {} (as_vmm s)" "kernel_ok {0x1000000} (as_vmm s)"
    "as_new s = (Inr a, s1)" by (rule booted_space)
  from as_new_shares_kernel [OF k] slot_one(1) k(3) show ?thesis by metis
qed

theorem as_map_page_isolated_witness:
  "\<exists>s a s1 s2. as_new s = (Inr a, s1) \<and> as_map_page a 0x8000000000 0x7000 sample_flags s1 = (Inr (), s2)
     \<and> mmu_translate (vmm_mem (as_vmm s2)) (root_page a) 0x8000000000 = Some (0x7000, sample_flags)
     \<and> mmu_translate (vmm_mem (as_vmm s2)) 0x1000000 = mmu_translate (vmm_mem (as_vmm s1)) 0x1000000"
proof -
  obtain s a s1 where k: "vm_ok {0x1000000} {} (as_vmm s)" "kernel_ok {0x1000000} (as_vmm s)"
    "as_new s = (Inr a, s1)" "3 \<le> card (free_addrs (vmm_pmm (as_vmm s1)))" by (rule booted_space)
  obtain s2 where m: "as_map_page a 0x8000000000 0x7000 sample_flags s1 = (Inr (), s2)" using slot_one_mapped [OF k] by blast
  note n = as_new_Inr [OF k(1-3)]
  have r: "root_page a \<noteq> 0x1000000" using n(6) by auto
  from as_map_page_isolated [OF n(1,2,3) sample_flags_ok sample_addr_ok(4) m]
  have "mmu_translate (vmm_mem (as_vmm s2)) (root_page a) 0x8000000000 = Some (0x7000, sample_flags)"
    "\<forall>va. mmu_translate (vmm_mem (as_vmm s2)) 0x1000000 va = mmu_translate (vmm_mem (as_vmm s1)) 0x1000000 va"
    using r by (simp_all add: slot_one)
  then show ?thesis using k(3) m by blast
qed

theorem as_destroy_returns_tables_witness:
  "\<exists>s a s1 s2. as_new s = (Inr a, s1) \<and> as_map_page a 0x8000000000 0x7000 sample_flags s1 = (Inr (), s2)
     \<and> free_addrs (vmm_pmm (as_vmm (snd (as_destroy a s2)))) = free_addrs (vmm_pmm (as_vmm s2)) \<union> held_frames (as_vmm s2) a"
proof -
  obtain s a s1 where k: "vm_ok {0x1000000} {} (as_vmm s)" "kernel_ok {0x1000000} (as_vmm s)"
    "as_new s = (Inr a, s1)" "3 \<le> card (free_addrs (vmm_pmm (as_vmm s1)))" by (rule booted_space)
  obtain s2 where m: "as_map_page a 0x8000000000 0x7000 sample_flags s1 = (Inr (), s2)" using slot_one_mapped [OF k] by blast
  note n = as_new_Inr [OF k(1-3)]
  have nb: "\<not> is_bootstrapping (as_vmm s1)" and kr: "root_pml4_phys (as_vmm s1) = 0x1000000"
    using n(2) n(6) k(2) n(3) by (auto simp: kernel_ok_def space_ok_def)
  have "vm_ok {root_page a, 0x1000000} {} (as_vmm s2)" "space_ok {root_page a, 0x1000000} (as_vmm s2) a"
    "same_rest (as_vmm s1) (as_vmm s2)"
    using map_all_balance [OF n(1,3) nb, of "[(0x8000000000, 0x7000, sample_flags)]"] m by auto
  moreover from this have "kernel_ok {root_page a, 0x1000000} (as_vmm s2)"
    by (intro kernel_ok_shared) (use nb kr in \<open>auto dest: same_restD_root\<close>)
  ultimately have q: "vm_ok {root_page a, 0x1000000} {} (as_vmm s2)" "kernel_ok {root_page a, 0x1000000} (as_vmm s2)"
    "space_ok {root_page a, 0x1000000} (as_vmm s2) a" by blast+
  from as_destroy_returns_tables [OF q] k(3) m show ?thesis by (metis prod.collapse)
qed

theorem address_space_leaks_nothing_witness:
  "\<exists>s a s1. as_new s = (Inr a, s1) \<and> free_addrs (vmm_pmm (as_vmm s1)) \<noteq> free_addrs (vmm_pmm (as_vmm s))
     \<and> free_addrs (vmm_pmm (as_vmm (snd (as_destroy a (map_all a [(0x8000000000, 0x7000, sample_flags)] s1)))))
       = free_addrs (vmm_pmm (as_vmm s))"
proof -
  obtain s a s1 where k: "vm_ok {0x1000000} {} (as_vmm s)" "kernel_ok {0x1000000} (as_vmm s)"
    "as_new s = (Inr a, s1)" by (rule booted_space)
  from address_space_leaks_nothing [OF k, of "[(0x8000000000, 0x7000, sample_flags)]"] as_new_Inr(4,5) [OF k] k(3)
  show ?thesis by force
qed

end
