(* ===== verification/Vmm_Use.thy ===== *)
theory Vmm_Use
  imports Vmm_Boot
begin

text \<open>
  The memory manager in use after boot: accesses of the kernel through virtual addresses, and the state in which the next
  region can be taken from the dynamic range.  \<open>vm_ready\<close> is kept by reserving, allocating, writing and unmapping in any
  order, so that sequences of these operations compose.
\<close>

subsection \<open>Memory accesses\<close>

text \<open>An aligned 64-bit access through the page tables that CR3 points to.  \<^const>\<open>None\<close> is a page fault; a write needs
  the writable bit (CR0.WP is set).\<close>

definition phys_frame :: "u64 \<Rightarrow> u64" where
  "phys_frame pa = pa AND NOT 0xFFF"

definition word_index :: "u64 \<Rightarrow> pt_index" where
  "word_index pa = ucast (drop_bit 3 pa AND 0x1FF)"

definition read_volatile :: "virt_addr \<Rightarrow> vmm \<Rightarrow> u64 option" where
  "read_volatile va s =
     (case mmu_translate (vmm_mem s) (cr3 s) va of
        None \<Rightarrow> None
      | Some (pa, flags) \<Rightarrow> Some (vmm_mem s (phys_frame pa) (word_index pa)))"

definition write_volatile :: "virt_addr \<Rightarrow> u64 \<Rightarrow> vmm \<Rightarrow> vmm option" where
  "write_volatile va v s =
     (case mmu_translate (vmm_mem s) (cr3 s) va of
        None \<Rightarrow> None
      | Some (pa, flags) \<Rightarrow>
          if flags AND FLAG_WRITABLE = 0 then None
          else Some (s\<lparr>vmm_mem := write_entry (vmm_mem s) (phys_frame pa) (word_index pa) v\<rparr>))"

lemma frame_addr_bits: "frame_addr f \<Longrightarrow> bit f i \<Longrightarrow> 12 \<le> i \<and> i < 52"
  using bit_phys_addr [of f i] by (auto simp: frame_addr_def)

lemma phys_frame_frame: "frame_addr f \<Longrightarrow> phys_frame f = f"
proof (rule bit_word_eqI)
  fix n assume f: "frame_addr f" and n: "n < LENGTH(64)"
  have m: "(0xFFF :: u64) = mask 12" by (simp add: mask_eq_exp_minus_1)
  show "bit (phys_frame f) n = bit f n"
    using frame_addr_bits [OF f, of n] n unfolding phys_frame_def m by (auto simp: bit_and_iff bit_not_iff bit_mask_iff)
qed

lemma word_index_frame: "frame_addr f \<Longrightarrow> word_index f = 0"
proof (rule bit_word_eqI)
  fix n assume f: "frame_addr f" and n: "n < LENGTH(9)"
  have m: "(0x1FF :: u64) = mask 9" by (simp add: mask_eq_exp_minus_1)
  have "\<not> bit f (n + 3)" using frame_addr_bits [OF f, of "n + 3"] n by auto
  then show "bit (word_index f) n = bit (0 :: 9 word) n"
    unfolding word_index_def m by (simp add: bit_unsigned_iff bit_and_iff bit_drop_bit_eq add.commute)
qed

lemma page_access:
  assumes "page_mapped (cr3 s) va f flags (vmm_mem s)" and "flags_clean flags" and "frame_addr f"
  shows "read_volatile va s = Some (vmm_mem s f 0)"
    and "flags AND FLAG_WRITABLE \<noteq> 0 \<Longrightarrow> write_volatile va v s = Some (s\<lparr>vmm_mem := write_entry (vmm_mem s) f 0 v\<rparr>)"
proof -
  have p: "is_canonical va" "page_offset va = 0" "xlate (vmm_mem s) (cr3 s) (va_path va) = Some (pte_set f flags, [])"
    using assms(1) page_offset_aligned by (auto simp: page_mapped_def)
  have t: "mmu_translate (vmm_mem s) (cr3 s) va = Some (f, flags)"
    using mmu_leaf [OF p(1,3) assms(2,3)] p(2) by simp
  show "read_volatile va s = Some (vmm_mem s f 0)"
    "flags AND FLAG_WRITABLE \<noteq> 0 \<Longrightarrow> write_volatile va v s = Some (s\<lparr>vmm_mem := write_entry (vmm_mem s) f 0 v\<rparr>)"
    using t phys_frame_frame [OF assms(3)] word_index_frame [OF assms(3)] by (simp_all add: read_volatile_def write_volatile_def)
qed

subsection \<open>Room for the next region\<close>

definition vm_ready :: "u64 set \<Rightarrow> u64 set \<Rightarrow> vmm \<Rightarrow> bool" where
  "vm_ready R X s \<longleftrightarrow> vm_ok R X s \<and> regions_inv s \<and> cursor_ok s \<and> root_pml4_phys s \<in> R \<and> \<not> is_bootstrapping s
     \<and> (\<forall>r \<in> set (live_vregions s). unat (vr_start r) + unat (vr_size r) \<le> unat (next_dynamic_addr s))
     \<and> (\<forall>va. is_canonical va \<longrightarrow> next_dynamic_addr s \<le> va \<longrightarrow> va < DYNAMIC_VIRT_END \<longrightarrow>
          xlate (vmm_mem s) (root_pml4_phys s) (va_path va) = None)
     \<and> (\<forall>i. shared_slot i \<longrightarrow> walk (vmm_mem s) (root_pml4_phys s) [i] \<noteq> None)"

lemma region_count_length: "regions_inv s \<Longrightarrow> vmm_region_count s = length (live_vregions s)"
  by (simp add: regions_inv_def live_vregions_def)

lemma vm_readyD:
  assumes "vm_ready R X s"
  shows "vm_ok R X s" and "regions_inv s" and "cursor_ok s" and "root_pml4_phys s \<in> R" and "\<not> is_bootstrapping s"
    and "r \<in> set (live_vregions s) \<Longrightarrow> unat (vr_start r) + unat (vr_size r) \<le> unat (next_dynamic_addr s)"
    and "is_canonical va \<Longrightarrow> next_dynamic_addr s \<le> va \<Longrightarrow> va < DYNAMIC_VIRT_END \<Longrightarrow>
      xlate (vmm_mem s) (root_pml4_phys s) (va_path va) = None"
    and "shared_slot i \<Longrightarrow> walk (vmm_mem s) (root_pml4_phys s) [i] \<noteq> None"
  using assms unfolding vm_ready_def by blast+

lemma keeps_slots:
  assumes "vm_ready R X s" and "keeps_tables R s s'" and "shared_slot i"
  shows "walk (vmm_mem s') (root_pml4_phys s) [i] \<noteq> None"
proof -
  obtain t where "walk (vmm_mem s) (root_pml4_phys s) [i] = Some t" using vm_readyD(8) [OF assms(1,3)] by blast
  moreover have "length [i] \<le> 3" by simp
  ultimately have "walk (vmm_mem s') (root_pml4_phys s) [i] = Some t"
    using assms(2) vm_readyD(4) [OF assms(1)] unfolding keeps_tables_def by blast
  then show ?thesis by simp
qed

abbreviation frames_left :: "vmm \<Rightarrow> nat" where
  "frames_left s \<equiv> card (free_addrs (vmm_pmm s))"

text \<open>The pages of the block at the cursor.\<close>

lemma cursor_page:
  assumes "cursor_ok s" and "n mod PAGE_SIZE = 0" and "unat (next_dynamic_addr s) + unat n \<le> unat DYNAMIC_VIRT_END"
    and "j < unat (n div PAGE_SIZE)"
  shows "is_canonical (region_page (next_dynamic_addr s) j)"
    and "unat (region_page (next_dynamic_addr s) j) = unat (next_dynamic_addr s) + j * 4096"
    and "unat (region_page (next_dynamic_addr s) j) + 4096 \<le> unat (next_dynamic_addr s) + unat n"
proof -
  have n: "unat n = unat (n div PAGE_SIZE) * 4096"
    using assms(2) by (simp add: unat_div_distrib aligned_iff_dvd)
  have "unat (next_dynamic_addr s) + unat (n div PAGE_SIZE) * 4096 < 2 ^ 64"
    using assms(3) n unat_u64_less [of DYNAMIC_VIRT_END] by linarith
  note d = dynamic_page_ok [OF _ _ this assms(4)]
  show "is_canonical (region_page (next_dynamic_addr s) j)" and u: "unat (region_page (next_dynamic_addr s) j) = unat (next_dynamic_addr s) + j * 4096"
    using d(1,3) assms(1) by (simp_all add: cursor_ok_def)
  have "(j + 1) * 4096 \<le> unat (n div PAGE_SIZE) * 4096" using assms(4) by (intro mult_right_mono) auto
  then show "unat (region_page (next_dynamic_addr s) j) + 4096 \<le> unat (next_dynamic_addr s) + unat n" using u n by simp
qed

lemma unat_cursor:
  assumes "unat (next_dynamic_addr s) + unat n \<le> unat DYNAMIC_VIRT_END"
  shows "unat (next_dynamic_addr s + n) = unat (next_dynamic_addr s) + unat n"
  using assms unat_u64_less [of DYNAMIC_VIRT_END] by (intro unat_add_u64) linarith

lemma region_path_below:
  assumes "cursor_ok s" and "n mod PAGE_SIZE = 0" and "unat (next_dynamic_addr s) + unat n \<le> unat DYNAMIC_VIRT_END"
    and "is_canonical va" and "next_dynamic_addr s + n \<le> va"
  shows "va_path va \<notin> page_path (next_dynamic_addr s) ` {0 ..< unat (n div PAGE_SIZE)}"
proof
  assume "va_path va \<in> page_path (next_dynamic_addr s) ` {0 ..< unat (n div PAGE_SIZE)}"
  then obtain j where j: "j < unat (n div PAGE_SIZE)" "va_path va = page_path (next_dynamic_addr s) j" by auto
  note p = cursor_page [OF assms(1-3) j(1)]
  have "same_page va (region_page (next_dynamic_addr s) j)" using va_path_eq_iff [OF assms(4) p(1)] j(2) by simp
  then have "unat (drop_bit 12 va) = unat (drop_bit 12 (region_page (next_dynamic_addr s) j))" by (simp add: same_page_def)
  then have "unat va div 4096 = unat (region_page (next_dynamic_addr s) j) div 4096"
    unfolding unat_drop_bit_eq by (simp add: drop_bit_eq_div)
  moreover have "4096 dvd unat (next_dynamic_addr s)" using assms(1) by (simp add: cursor_ok_def va_is_aligned_def aligned_iff_dvd)
  then have "4096 dvd unat (region_page (next_dynamic_addr s) j)" unfolding p(2) by simp
  ultimately have "unat va < unat (region_page (next_dynamic_addr s) j) + 4096"
    by (metis div_mult_mod_eq dvd_div_mult_self mod_less_divisor nat_add_left_cancel_less zero_less_numeral)
  moreover have "unat (next_dynamic_addr s) + unat n \<le> unat va"
    using assms(5) unat_cursor [OF assms(3)] by (simp add: word_le_nat_alt)
  ultimately show False using p(3) by simp
qed

lemma ready_no_overlap:
  assumes "vm_ready R X s" and "n \<noteq> 0" and "unat (next_dynamic_addr s) + unat n \<le> unat DYNAMIC_VIRT_END"
  shows "\<forall>r \<in> set (live_vregions s). \<not> vr_overlaps r (next_dynamic_addr s) n"
proof
  fix r assume r: "r \<in> set (live_vregions s)"
  have v: "vr_valid r" by (rule live_valid [OF vm_readyD(2) [OF assms(1)] r])
  have "unat (next_dynamic_addr s) + unat n < 2 ^ 64" using assms(3) unat_u64_less [of DYNAMIC_VIRT_END] by linarith
  then show "\<not> vr_overlaps r (next_dynamic_addr s) n"
    using vr_overlaps_iff [OF v _ assms(2)] vm_readyD(6) [OF assms(1) r] by (auto simp: vr_addrs_def)
qed

lemma ready_reserve:
  assumes ready: "vm_ready R X s" and n: "n \<noteq> 0" "n mod PAGE_SIZE = 0"
    and room: "unat (next_dynamic_addr s) + unat n \<le> unat DYNAMIC_VIRT_END" "vmm_region_count s < MAX_VIRT_REGIONS"
  obtains r s1 where "reserve_virtual_region n perms purpose s = (Inr r, s1)" and "vm_ready R X s1"
    and "live_vregions s1 = live_vregions s @ [r]" and "vr_start r = next_dynamic_addr s" and "vr_size r = n"
    and "next_dynamic_addr s1 = next_dynamic_addr s + n" and "vmm_mem s1 = vmm_mem s" and "vmm_pmm s1 = vmm_pmm s"
    and "root_pml4_phys s1 = root_pml4_phys s" and "cr3 s1 = cr3 s" and "\<not> owns_physical_pages r"
    and "vmm_region_count s1 = vmm_region_count s + 1"
proof -
  note d = vm_readyD [OF ready]
  obtain res s1 where rs: "reserve_virtual_region n perms purpose s = (res, s1)" by fastforce
  from d(3) rs obtain r where r: "res = Inr r" "s1 = (push_vregion r s)\<lparr>next_dynamic_addr := next_dynamic_addr s + n\<rparr>"
    by (cases rule: reserve_cases) (use n room ready_no_overlap [OF ready n(1) room(1)] in auto)
  note k = reserve_step [OF d(1-3) rs [unfolded r(1)]]
  have f: "next_dynamic_addr s1 = next_dynamic_addr s + n" "cr3 s1 = cr3 s" "is_bootstrapping s1 = is_bootstrapping s"
    "vmm_region_count s1 = vmm_region_count s + 1"
    by (simp_all add: r(2) push_vregion_def)
  have "next_dynamic_addr s \<le> next_dynamic_addr s + n"
    unfolding word_le_nat_alt unat_cursor [OF room(1)] by simp
  then have "vm_ready R X s1"
    unfolding vm_ready_def using k d f unat_cursor [OF room(1)] by (auto simp: trans_le_add1 simp del: walk.simps)
  then show thesis using that rs r k f by simp
qed

lemma map_pages_frames_left:
  assumes "vm_ok R X s" and "root \<in> R" and "is_present flags" and "\<not> is_bootstrapping s"
    and "map_pages root base flags i ps s = (True, s')"
  shows "frames_left s \<le> frames_left s' + 3 * length ps"
  using assms(1,4,5)
proof (induction ps arbitrary: i s)
  case (Cons p ps)
  obtain s1 where mp: "map_page root (region_page base i) p flags s = (Inr (), s1)"
    and rest: "map_pages root base flags (Suc i) ps s1 = (True, s')"
    using Cons.prems(3) by (auto split: prod.splits sum.splits)
  note k = map_page_Inr [OF Cons.prems(1) assms(2) mp assms(3)]
  have "\<not> is_bootstrapping s1" using same_restD(2) [OF k(3)] Cons.prems(2) by simp
  from Cons.IH [OF k(2) this rest] map_page_leaves_free [OF Cons.prems(1) assms(2) mp assms(3) Cons.prems(2)]
  show ?case by simp
qed simp

lemma alloc_map_frames_left:
  assumes "vm_ok R X s" and "regions_inv s" and "cursor_ok s" and "root_pml4_phys s \<in> R" and "\<not> is_bootstrapping s"
    and "allocate_and_map_region n perms purpose s = (Inr r, s1)"
  shows "frames_left s \<le> frames_left s1 + 4 * unat (n div PAGE_SIZE)"
proof -
  from assms(6) obtain r0 s0 where rs: "reserve_virtual_region n perms purpose s = (Inr r0, s0)"
    by (auto simp: allocate_and_map_region_def and_then_Inr)
  note k = reserve_step [OF assms(1-3) rs]
  from rs assms(6) obtain fs p where
    al: "alloc_loop allocate_physical_page free_physical_page (unat (n div PAGE_SIZE)) [] (vmm_pmm s0) = (Some fs, p)"
    and mp: "map_pages (root_pml4_phys s0) (vr_start r0) (to_page_flags perms) 0 fs (s0\<lparr>vmm_pmm := p\<rparr>) = (True, s1)"
    by (cases rule: alloc_map_cases) auto
  note t = vm_ok_take_frames [OF k(1) al]
  have "\<not> is_bootstrapping (s0\<lparr>vmm_pmm := p\<rparr>)" using reserve_same_memory(5) [OF rs] assms(5) by simp
  moreover have "root_pml4_phys s0 \<in> R" using assms(4) k(10) by simp
  ultimately have "card (free_addrs p) \<le> frames_left s1 + 3 * length fs"
    using map_pages_frames_left [OF t(1) _ _ _ mp] by simp
  moreover have "frames_left s = card (free_addrs p) + length fs"
    using card_Diff_subset [of "set fs" "free_addrs (vmm_pmm s0)"] card_mono [of "free_addrs (vmm_pmm s0)" "set fs"]
      t(3,4,5) k(9) by (simp add: distinct_card free_addrs_def)
  ultimately show ?thesis using t(2) by simp
qed

lemma alloc_map_keeps:
  assumes "vm_ok R X s" and "regions_inv s" and "cursor_ok s" and "root_pml4_phys s \<in> R"
    and "allocate_and_map_region n perms purpose s = (Inr r, s1)"
  shows "keeps_tables R s s1"
proof -
  from assms(5) obtain r0 s0 where rs: "reserve_virtual_region n perms purpose s = (Inr r0, s0)"
    by (auto simp: allocate_and_map_region_def and_then_Inr)
  note k = reserve_step [OF assms(1-3) rs]
  from rs assms(5) obtain fs p where
    al: "alloc_loop allocate_physical_page free_physical_page (unat (n div PAGE_SIZE)) [] (vmm_pmm s0) = (Some fs, p)"
    and mp: "map_pages (root_pml4_phys s0) (vr_start r0) (to_page_flags perms) 0 fs (s0\<lparr>vmm_pmm := p\<rparr>) = (True, s1)"
    by (cases rule: alloc_map_cases) auto
  note t = vm_ok_take_frames [OF k(1) al]
  have "root_pml4_phys s0 \<in> R" using assms(4) k(10) by simp
  then have "keeps_tables R (s0\<lparr>vmm_pmm := p\<rparr>) s1" using map_pages_keeps [OF t(1) _ _ mp] by simp
  then show ?thesis using k(8) by (simp add: keeps_tables_def)
qed

text \<open>The pages above the cursor stay unmapped when only pages below it change.\<close>

lemma ready_above:
  assumes "vm_ready R X s" and "root_pml4_phys s' = root_pml4_phys s" and "next_dynamic_addr s \<le> next_dynamic_addr s'"
    and "\<And>va. is_canonical va \<Longrightarrow> next_dynamic_addr s' \<le> va \<Longrightarrow> xlate (vmm_mem s) (root_pml4_phys s) (va_path va) = None \<Longrightarrow>
      xlate (vmm_mem s') (root_pml4_phys s) (va_path va) = None"
    and "vm_ok R X' s'" and "regions_inv s'" and "cursor_ok s'" and "is_bootstrapping s' = is_bootstrapping s"
    and "\<And>r. r \<in> set (live_vregions s') \<Longrightarrow> unat (vr_start r) + unat (vr_size r) \<le> unat (next_dynamic_addr s')"
    and "keeps_tables R s s'"
  shows "vm_ready R X' s'"
  unfolding vm_ready_def
proof (intro conjI ballI allI impI)
  fix va assume va: "is_canonical va" "next_dynamic_addr s' \<le> va" "va < DYNAMIC_VIRT_END"
  have "xlate (vmm_mem s) (root_pml4_phys s) (va_path va) = None"
    by (rule vm_readyD(7) [OF assms(1) va(1) _ va(3)]) (use assms(3) va(2) in simp)
  then show "xlate (vmm_mem s') (root_pml4_phys s') (va_path va) = None" using assms(2,4) va(1,2) by simp
next
  show "walk (vmm_mem s') (root_pml4_phys s') [i] \<noteq> None" if "shared_slot i" for i
    unfolding assms(2) by (rule keeps_slots [OF assms(1,10) that])
qed (use assms vm_readyD [OF assms(1)] in simp_all)

lemma ready_alloc:
  assumes ready: "vm_ready R X s" and n: "n \<noteq> 0" "n mod PAGE_SIZE = 0" "unat (n div PAGE_SIZE) \<le> 128"
    and room: "unat (next_dynamic_addr s) + unat n \<le> unat DYNAMIC_VIRT_END" "vmm_region_count s < MAX_VIRT_REGIONS"
      "4 * unat (n div PAGE_SIZE) \<le> frames_left s"
  obtains r s1 fs where "allocate_and_map_region n perms purpose s = (Inr r, s1)" and "vm_ready R (X \<union> set fs) s1"
    and "region_held R (X \<union> set fs) r fs s1" and "set fs \<subseteq> free_addrs (vmm_pmm s)" and "set fs \<inter> X = {}"
    and "without_pages R (root_pml4_phys s) (region_paths r) (vmm_mem s1) (vmm_mem s)"
    and "root_pml4_phys s1 = root_pml4_phys s" and "cr3 s1 = cr3 s"
    and "managed_addrs (vmm_pmm s1) = managed_addrs (vmm_pmm s)"
    and "vr_start r = next_dynamic_addr s" and "vr_size r = n" and "vr_permissions r = perms"
    and "live_vregions s1 = live_vregions s @ [r\<lparr>owns_physical_pages := False\<rparr>]"
    and "next_dynamic_addr s1 = next_dynamic_addr s + n" and "frames_left s \<le> frames_left s1 + 4 * unat (n div PAGE_SIZE)"
proof -
  note d = vm_readyD [OF ready]
  have free: "xlate (vmm_mem s) (root_pml4_phys s) (va_path (region_page (next_dynamic_addr s) j)) = None"
    if j: "j < unat (n div PAGE_SIZE)" for j
    by (rule d(7)) (use cursor_page [OF d(3) n(2) room(1) j] room(1) in \<open>simp_all add: word_le_nat_alt word_less_nat_alt\<close>)
  obtain r s1 where a: "allocate_and_map_region n perms purpose s = (Inr r, s1)"
    using alloc_map_possible [OF d(1-5) n room(1) ready_no_overlap [OF ready n(1) room(1)] room(2,3) free] by blast
  obtain fs where h: "region_held R (X \<union> set fs) r fs s1" "set fs \<subseteq> free_addrs (vmm_pmm s)" "set fs \<inter> X = {}"
    "without_pages R (root_pml4_phys s) (region_paths r) (vmm_mem s1) (vmm_mem s)"
    "root_pml4_phys s1 = root_pml4_phys s" "cr3 s1 = cr3 s" "is_bootstrapping s1 = is_bootstrapping s"
    "managed_addrs (vmm_pmm s1) = managed_addrs (vmm_pmm s)"
    "vr_start r = next_dynamic_addr s" "vr_size r = n" "vr_permissions r = perms"
    "live_vregions s1 = live_vregions s @ [r\<lparr>owns_physical_pages := False\<rparr>]" "regions_inv s1" "cursor_ok s1"
    "next_dynamic_addr s1 = next_dynamic_addr s + n" by (rule alloc_map_held [OF d(1-4) a])
  have above: "next_dynamic_addr s \<le> next_dynamic_addr s1"
    unfolding h(15) word_le_nat_alt unat_cursor [OF room(1)] by simp
  have "xlate (vmm_mem s1) (root_pml4_phys s) (va_path va) = None"
    if va: "is_canonical va" "next_dynamic_addr s1 \<le> va" "xlate (vmm_mem s) (root_pml4_phys s) (va_path va) = None" for va
  proof -
    have "va_path va \<notin> region_paths r"
      using region_path_below [OF d(3) n(2) room(1) va(1)] va(2) h(9,10,15) by simp
    then show ?thesis using without_pagesD [OF h(4) d(4), of "va_path va"] va(3) by simp
  qed
  moreover have "unat (vr_start q) + unat (vr_size q) \<le> unat (next_dynamic_addr s1)" if q: "q \<in> set (live_vregions s1)" for q
    using q d(6) [of q] h(9,10,12,15) unat_cursor [OF room(1)] by auto
  ultimately have "vm_ready R (X \<union> set fs) s1"
    using ready_above [OF ready h(5) above _ _ h(13,14,7) _ alloc_map_keeps [OF d(1-4) a]] h(1) by (auto simp: region_held_def)
  then show thesis
    using that [OF a] h alloc_map_frames_left [OF d(1-5) a] by blast
qed

text \<open>Unmapping in any order.\<close>

lemma ready_unmap:
  assumes ready: "vm_ready R X s" and held: "region_held R X r fs s"
    and live: "r\<lparr>owns_physical_pages := False\<rparr> \<in> set (live_vregions s)"
  obtains s' where "unmap_region r s = (Inr (), s')" and "vm_ready R (X - set fs) s'"
    and "free_addrs (vmm_pmm s') = free_addrs (vmm_pmm s) \<union> set fs" and "frames_left s' = frames_left s + length fs"
    and "without_pages R (root_pml4_phys s) (region_paths r) (vmm_mem s) (vmm_mem s')"
    and "mset (live_vregions s) = add_mset (r\<lparr>owns_physical_pages := False\<rparr>) (mset (live_vregions s'))"
    and "root_pml4_phys s' = root_pml4_phys s" and "cr3 s' = cr3 s"
    and "managed_addrs (vmm_pmm s') = managed_addrs (vmm_pmm s)" and "next_dynamic_addr s' = next_dynamic_addr s"
proof -
  note d = vm_readyD [OF ready]
  obtain s' where u: "unmap_region r s = (Inr (), s')" "vm_ok R (X - set fs) s'"
    "free_addrs (vmm_pmm s') = free_addrs (vmm_pmm s) \<union> set fs"
    "without_pages R (root_pml4_phys s) (region_paths r) (vmm_mem s) (vmm_mem s')" "regions_inv s'"
    "mset (live_vregions s) = add_mset (r\<lparr>owns_physical_pages := False\<rparr>) (mset (live_vregions s'))"
    "root_pml4_phys s' = root_pml4_phys s" "cr3 s' = cr3 s" "is_bootstrapping s' = is_bootstrapping s"
    "managed_addrs (vmm_pmm s') = managed_addrs (vmm_pmm s)" "next_dynamic_addr s' = next_dynamic_addr s" "keeps_tables R s s'"
    by (rule unmap_held [OF held d(2) live])
  have sub: "set (live_vregions s') \<subseteq> set (live_vregions s)" using u(6) by (metis set_mset_add_mset_insert set_mset_mset subset_insertI)
  have "vm_ready R (X - set fs) s'"
  proof (rule ready_above [OF ready u(7) _ _ u(2,5)])
    show "xlate (vmm_mem s') (root_pml4_phys s) (va_path va) = None"
      if "xlate (vmm_mem s) (root_pml4_phys s) (va_path va) = None" for va
      using without_pagesD [OF u(4) d(4), of "va_path va"] that by simp
    show "cursor_ok s'" using cursor_cong [of s' s] u(11) d(3) by simp
    show "unat (vr_start q) + unat (vr_size q) \<le> unat (next_dynamic_addr s')" if "q \<in> set (live_vregions s')" for q
      using d(6) [of q] sub that u(11) by auto
  qed (use u in simp_all)
  moreover have "frames_left s' = frames_left s + length fs"
  proof -
    have "set fs \<inter> free_addrs (vmm_pmm s) = {}" "distinct fs"
      using held by (auto simp: region_held_def vm_ok_def avail_def)
    then show ?thesis unfolding u(3) by (subst card_Un_disjoint) (auto simp: distinct_card free_addrs_def)
  qed
  ultimately show thesis using that u by blast
qed

lemma ready_data:
  assumes ready: "vm_ready R X s" and m: "\<And>t. t \<notin> X \<Longrightarrow> m t = vmm_mem s t"
  shows "vm_ready R X (s\<lparr>vmm_mem := m\<rparr>)"
proof (rule ready_above [OF ready])
  note d = vm_readyD [OF ready]
  show "vm_ok R X (s\<lparr>vmm_mem := m\<rparr>)" by (rule vm_ok_data(1) [OF d(1) m])
  show "regions_inv (s\<lparr>vmm_mem := m\<rparr>)" using regions_cong [of "s\<lparr>vmm_mem := m\<rparr>" s] d(2) by simp
  show "cursor_ok (s\<lparr>vmm_mem := m\<rparr>)" using cursor_cong [of "s\<lparr>vmm_mem := m\<rparr>" s] d(3) by simp
  show "unat (vr_start q) + unat (vr_size q) \<le> unat (next_dynamic_addr (s\<lparr>vmm_mem := m\<rparr>))"
    if "q \<in> set (live_vregions (s\<lparr>vmm_mem := m\<rparr>))" for q
    using d(6) [of q] that regions_cong [of "s\<lparr>vmm_mem := m\<rparr>" s] by simp
  show "xlate (vmm_mem (s\<lparr>vmm_mem := m\<rparr>)) (root_pml4_phys s) (va_path va) = None"
    if "xlate (vmm_mem s) (root_pml4_phys s) (va_path va) = None" for va
    using vm_ok_data(2) [OF d(1) m d(4), of "va_path va"] that by simp
  have "forest (vmm_mem s) R (avail s \<union> X)" using d(1) by (simp add: vm_ok_def)
  from walk_unreached [OF this, of m] m show "keeps_tables R s (s\<lparr>vmm_mem := m\<rparr>)" by (simp add: keeps_tables_def)
qed simp_all

text \<open>A region that is allocated, written to and unmapped again.\<close>

definition same_translations :: "u64 set \<Rightarrow> vmm \<Rightarrow> vmm \<Rightarrow> bool" where
  "same_translations R s s' \<longleftrightarrow> (\<forall>r\<in>R. \<forall>q. length q = 4 \<longrightarrow> xlate (vmm_mem s') r q = xlate (vmm_mem s) r q)"

lemma same_translations_data:
  assumes "vm_ok R X s" and "\<And>t. t \<notin> X \<Longrightarrow> m t = vmm_mem s t"
  shows "same_translations R s (s\<lparr>vmm_mem := m\<rparr>)"
  using vm_ok_data(2) [OF assms] by (simp add: same_translations_def)

lemma ready_use:
  assumes ready: "vm_ready R X s" and ready1: "vm_ready R (X \<union> set fs) s1" and held: "region_held R (X \<union> set fs) r fs s1"
    and dis: "set fs \<inter> X = {}"
    and undo: "without_pages R (root_pml4_phys s) (region_paths r) (vmm_mem s1) (vmm_mem s)" and root: "root_pml4_phys s1 = root_pml4_phys s"
    and live: "live_vregions s1 = live_vregions s @ [r\<lparr>owns_physical_pages := False\<rparr>]" and m: "\<And>t. t \<notin> set fs \<Longrightarrow> m t = vmm_mem s1 t"
  obtains s' where "unmap_region r (s1\<lparr>vmm_mem := m\<rparr>) = (Inr (), s')" and "vm_ready R X s'" and "same_translations R s s'"
    and "mset (live_vregions s') = mset (live_vregions s)" and "frames_left s' = frames_left s1 + length fs"
    and "root_pml4_phys s' = root_pml4_phys s" and "cr3 s' = cr3 s1" and "next_dynamic_addr s' = next_dynamic_addr s1"
    and "managed_addrs (vmm_pmm s') = managed_addrs (vmm_pmm s1)"
proof -
  let ?s = "s1\<lparr>vmm_mem := m\<rparr>"
  have m': "\<And>t. t \<notin> X \<union> set fs \<Longrightarrow> m t = vmm_mem s1 t" using m by simp
  have ready': "vm_ready R (X \<union> set fs) ?s" by (rule ready_data [OF ready1 m'])
  have held': "region_held R (X \<union> set fs) r fs ?s" by (rule region_held_data [OF held m'])
  have live': "live_vregions ?s = live_vregions s1" using regions_cong [of ?s s1] by simp
  then have "r\<lparr>owns_physical_pages := False\<rparr> \<in> set (live_vregions ?s)" using live by simp
  then obtain s' where u: "unmap_region r ?s = (Inr (), s')" "vm_ready R ((X \<union> set fs) - set fs) s'"
    "free_addrs (vmm_pmm s') = free_addrs (vmm_pmm ?s) \<union> set fs" "frames_left s' = frames_left ?s + length fs"
    "without_pages R (root_pml4_phys ?s) (region_paths r) (vmm_mem ?s) (vmm_mem s')"
    "mset (live_vregions ?s) = add_mset (r\<lparr>owns_physical_pages := False\<rparr>) (mset (live_vregions s'))"
    "root_pml4_phys s' = root_pml4_phys ?s" "cr3 s' = cr3 ?s" "managed_addrs (vmm_pmm s') = managed_addrs (vmm_pmm ?s)"
    "next_dynamic_addr s' = next_dynamic_addr ?s"
    by (rule ready_unmap [OF ready' held'])
  have "xlate (vmm_mem s') r' q = xlate (vmm_mem s) r' q" if r': "r' \<in> R" "length q = 4" for r' q
    using without_pagesD [OF u(5) r'] without_pagesD [OF undo r'] root
      vm_ok_data(2) [OF vm_readyD(1) [OF ready1] m' r'(1), of q] r'(2) by simp
  then have "same_translations R s s'" by (simp add: same_translations_def)
  moreover have "(X \<union> set fs) - set fs = X" using dis by auto
  ultimately show thesis using that u live live' root by simp
qed

text \<open>A reservation that is never mapped is given back by unregistering it.\<close>

lemma ready_unregister:
  assumes ready: "vm_ready R X s" and mem: "r \<in> set (live_vregions s)"
  obtains s' where "unregister_region (vr_start r) s = (Inr (), s')" and "vm_ready R X s'"
    and "mset (live_vregions s) = add_mset r (mset (live_vregions s'))"
    and "vmm_mem s' = vmm_mem s" and "vmm_pmm s' = vmm_pmm s" and "root_pml4_phys s' = root_pml4_phys s" and "cr3 s' = cr3 s"
    and "next_dynamic_addr s' = next_dynamic_addr s"
proof -
  note d = vm_readyD [OF ready]
  obtain s' where u: "unregister_region (vr_start r) s = (Inr (), s')" "regions_inv s'"
    "mset (live_vregions s) = add_mset r (mset (live_vregions s'))" by (rule unregister_held [OF d(2) mem])
  note um = unregister_same_memory [OF u(1)]
  have same: "root_pml4_phys s' = root_pml4_phys s" "cr3 s' = cr3 s"
    using u(1) by (auto simp: unregister_region_def Let_def split: option.splits)
  have "set (live_vregions s') \<subseteq> set (live_vregions s)" using u(3) by (metis set_mset_add_mset_insert set_mset_mset subset_insertI)
  then have "vm_ready R X s'"
    using d um same u(2) vm_ok_cong(1) [OF um(1-5)] cursor_cong [OF um(6)] by (auto simp: vm_ready_def simp del: walk.simps)
  then show thesis using that u um same by simp
qed

lemma ready_unmap_reserved:
  assumes ready: "vm_ready R X s" and mem: "r \<in> set (live_vregions s)"
    and unmapped: "\<And>j. j < unat (vr_size r div PAGE_SIZE) \<Longrightarrow> xlate (vmm_mem s) (root_pml4_phys s) (page_path (vr_start r) j) = None"
  obtains s' where "unmap_region r s = (Inr (), s')" and "vm_ready R X s'"
    and "mset (live_vregions s) = add_mset r (mset (live_vregions s'))"
    and "vmm_mem s' = vmm_mem s" and "vmm_pmm s' = vmm_pmm s" and "root_pml4_phys s' = root_pml4_phys s" and "cr3 s' = cr3 s"
    and "next_dynamic_addr s' = next_dynamic_addr s"
proof -
  note d = vm_readyD [OF ready]
  obtain s' where u: "unregister_region (vr_start r) s = (Inr (), s')" "vm_ready R X s'"
    "mset (live_vregions s) = add_mset r (mset (live_vregions s'))"
    "vmm_mem s' = vmm_mem s" "vmm_pmm s' = vmm_pmm s" "root_pml4_phys s' = root_pml4_phys s" "cr3 s' = cr3 s" "next_dynamic_addr s' = next_dynamic_addr s"
    by (rule ready_unregister [OF ready mem])
  then show thesis using that unmap_unmapped_region [OF d(1,4) unmapped] by simp
qed

subsection \<open>Several regions in use\<close>

text \<open>Regions that the kernel holds at the same time, each with its frames.\<close>

definition in_use :: "u64 set \<Rightarrow> u64 set \<Rightarrow> (virt_region \<times> phys_page list) list \<Rightarrow> vmm \<Rightarrow> bool" where
  "in_use R X hs s \<longleftrightarrow> vm_ready R X s \<and> distinct (concat (map snd hs))
     \<and> (\<forall>(r, fs) \<in> set hs. fs \<noteq> [] \<and> region_held R X r fs s \<and> r\<lparr>owns_physical_pages := False\<rparr> \<in> set (live_vregions s))"

lemma in_useD:
  assumes "in_use R X hs s"
  shows "vm_ready R X s" and "distinct (concat (map snd hs))"
    and "(r, fs) \<in> set hs \<Longrightarrow> fs \<noteq> []" and "(r, fs) \<in> set hs \<Longrightarrow> region_held R X r fs s"
    and "(r, fs) \<in> set hs \<Longrightarrow> r\<lparr>owns_physical_pages := False\<rparr> \<in> set (live_vregions s)"
  using assms by (auto simp: in_use_def)

lemma in_use_Nil [simp]: "in_use R X [] s \<longleftrightarrow> vm_ready R X s"
  by (simp add: in_use_def)

lemma held_xlate:
  assumes "region_held R X r fs s" and "j < length fs"
  shows "xlate (vmm_mem s) (root_pml4_phys s) (page_path (vr_start r) j) = Some (pte_set (fs ! j) (to_page_flags (vr_permissions r)), [])"
  using assms by (simp add: region_held_def page_mapped_def)

lemma held_frame: "region_held R X r fs s \<Longrightarrow> j < length fs \<Longrightarrow> frame_addr (fs ! j)"
  by (simp add: region_held_def)

lemma held_paths_apart:
  assumes h: "region_held R X r fs s" "region_held R X r' fs' s" and apart: "set fs \<inter> set fs' = {}" and j: "j < length fs"
  shows "page_path (vr_start r) j \<notin> region_paths r'"
proof
  assume "page_path (vr_start r) j \<in> region_paths r'"
  then obtain j' where j': "j' < length fs'" "page_path (vr_start r) j = page_path (vr_start r') j'"
    using h(2) by (auto simp: region_held_def)
  have "pte_set (fs ! j) (to_page_flags (vr_permissions r)) = pte_set (fs' ! j') (to_page_flags (vr_permissions r'))"
    using held_xlate [OF h(1) j] held_xlate [OF h(2) j'(1)] j'(2) by simp
  from arg_cong [OF this, of pte_phys_addr] have "fs ! j = fs' ! j'"
    using held_frame [OF h(1) j] held_frame [OF h(2) j'(1)] by (simp add: pte_phys_addr_set frame_addr_def)
  then show False using apart j j'(1) nth_mem by (metis IntI empty_iff)
qed

lemma in_use_alloc:
  assumes use: "in_use R X hs s" and n: "n \<noteq> 0" "n mod PAGE_SIZE = 0" "unat (n div PAGE_SIZE) \<le> 128" "unat (n div PAGE_SIZE) \<noteq> 0"
    and room: "unat (next_dynamic_addr s) + unat n \<le> unat DYNAMIC_VIRT_END" "vmm_region_count s < MAX_VIRT_REGIONS"
      "4 * unat (n div PAGE_SIZE) \<le> frames_left s"
  obtains r s1 fs where "allocate_and_map_region n perms purpose s = (Inr r, s1)" and "in_use R (X \<union> set fs) ((r, fs) # hs) s1" and "set fs \<inter> X = {}"
    and "without_pages R (root_pml4_phys s) (region_paths r) (vmm_mem s1) (vmm_mem s)" and "root_pml4_phys s1 = root_pml4_phys s" and "cr3 s1 = cr3 s"
    and "vr_start r = next_dynamic_addr s" and "vr_size r = n" and "vr_permissions r = perms"
    and "live_vregions s1 = live_vregions s @ [r\<lparr>owns_physical_pages := False\<rparr>]"
    and "next_dynamic_addr s1 = next_dynamic_addr s + n" and "frames_left s \<le> frames_left s1 + 4 * unat (n div PAGE_SIZE)"
    and "length fs = unat (n div PAGE_SIZE)" and "set fs \<subseteq> free_addrs (vmm_pmm s)"
proof -
  note u = in_useD [OF use]
  note d = vm_readyD [OF u(1)]
  obtain r s1 fs where a: "allocate_and_map_region n perms purpose s = (Inr r, s1)" "vm_ready R (X \<union> set fs) s1"
    "region_held R (X \<union> set fs) r fs s1" "set fs \<subseteq> free_addrs (vmm_pmm s)" "set fs \<inter> X = {}"
    "without_pages R (root_pml4_phys s) (region_paths r) (vmm_mem s1) (vmm_mem s)"
    "root_pml4_phys s1 = root_pml4_phys s" "cr3 s1 = cr3 s" "managed_addrs (vmm_pmm s1) = managed_addrs (vmm_pmm s)"
    "vr_start r = next_dynamic_addr s" "vr_size r = n" "vr_permissions r = perms"
    "live_vregions s1 = live_vregions s @ [r\<lparr>owns_physical_pages := False\<rparr>]"
    "next_dynamic_addr s1 = next_dynamic_addr s + n" "frames_left s \<le> frames_left s1 + 4 * unat (n div PAGE_SIZE)"
    by (rule ready_alloc [OF u(1) n(1-3) room])
  have len: "length fs = unat (n div PAGE_SIZE)" and dis: "distinct fs" and ok1: "vm_ok R (X \<union> set fs) s1"
    using a(3,11) by (auto simp: region_held_def)
  have old: "region_held R (X \<union> set fs) r' fs' s1" if "(r', fs') \<in> set hs" for r' fs'
  proof (rule region_held_step [OF u(4) [OF that] ok1 a(7) _ a(9)])
    show "set fs' \<subseteq> X \<union> set fs" using u(4) [OF that] by (auto simp: region_held_def)
    fix j assume j: "j < length fs'"
    note x = held_xlate [OF u(4) [OF that] j]
    then show "xlate (vmm_mem s1) (root_pml4_phys s) (page_path (vr_start r') j) = xlate (vmm_mem s) (root_pml4_phys s) (page_path (vr_start r') j)"
      using without_pagesD [OF a(6) d(4), of "page_path (vr_start r') j"] by (auto split: if_splits simp del: xlate.simps)
  qed
  have "set (concat (map snd hs)) \<subseteq> X" using u(4) by (force simp: region_held_def)
  then have "distinct (concat (map snd ((r, fs) # hs)))" using u(2) dis a(5) by auto
  moreover have "fs \<noteq> []" using len n(4) by auto
  ultimately have "in_use R (X \<union> set fs) ((r, fs) # hs) s1"
    unfolding in_use_def using a(2,3,13) old u(3,5) by auto
  then show thesis using that a len by blast
qed

lemma in_use_unmap:
  assumes use: "in_use R X (hs @ (r, fs) # hs') s"
  obtains s' where "unmap_region r s = (Inr (), s')" and "in_use R (X - set fs) (hs @ hs') s'"
    and "frames_left s' = frames_left s + length fs" and "without_pages R (root_pml4_phys s) (region_paths r) (vmm_mem s) (vmm_mem s')"
    and "mset (live_vregions s) = add_mset (r\<lparr>owns_physical_pages := False\<rparr>) (mset (live_vregions s'))"
    and "root_pml4_phys s' = root_pml4_phys s" and "cr3 s' = cr3 s" and "next_dynamic_addr s' = next_dynamic_addr s"
proof -
  note u = in_useD [OF use]
  note d = vm_readyD [OF u(1)]
  have h: "region_held R X r fs s" "r\<lparr>owns_physical_pages := False\<rparr> \<in> set (live_vregions s)" using u(4,5) [of r fs] by simp_all
  obtain s' where a: "unmap_region r s = (Inr (), s')" "vm_ready R (X - set fs) s'"
    "free_addrs (vmm_pmm s') = free_addrs (vmm_pmm s) \<union> set fs" "frames_left s' = frames_left s + length fs"
    "without_pages R (root_pml4_phys s) (region_paths r) (vmm_mem s) (vmm_mem s')"
    "mset (live_vregions s) = add_mset (r\<lparr>owns_physical_pages := False\<rparr>) (mset (live_vregions s'))"
    "root_pml4_phys s' = root_pml4_phys s" "cr3 s' = cr3 s" "managed_addrs (vmm_pmm s') = managed_addrs (vmm_pmm s)" "next_dynamic_addr s' = next_dynamic_addr s"
    by (rule ready_unmap [OF u(1) h])
  have other: "region_held R (X - set fs) r' fs' s' \<and> r'\<lparr>owns_physical_pages := False\<rparr> \<in> set (live_vregions s')" if m: "(r', fs') \<in> set (hs @ hs')" for r' fs'
  proof
    have m': "(r', fs') \<in> set (hs @ (r, fs) # hs')" using m by auto
    have apart: "set fs' \<inter> set fs = {}" using m u(2) by fastforce
    note h' = u(4) [OF m']
    show "region_held R (X - set fs) r' fs' s'"
    proof (rule region_held_step [OF h' vm_readyD(1) [OF a(2)] a(7) _ a(9)])
      show "set fs' \<subseteq> X - set fs" using h' apart by (auto simp: region_held_def)
      show "xlate (vmm_mem s') (root_pml4_phys s) (page_path (vr_start r') j) = xlate (vmm_mem s) (root_pml4_phys s) (page_path (vr_start r') j)"
        if "j < length fs'" for j
        using without_pagesD [OF a(5) d(4), of "page_path (vr_start r') j"] held_paths_apart [OF h' h(1) apart that] by simp
    qed
    have "0 < length fs" "0 < length fs'" using u(3) [of r fs] u(3) [OF m'] by simp_all
    moreover have "length fs = unat (vr_size r div PAGE_SIZE)" using h(1) unfolding region_held_def by blast
    ultimately have "page_path (vr_start r) 0 \<in> region_paths r" by (intro imageI) simp
    then have "vr_start r' \<noteq> vr_start r" using held_paths_apart [OF h' h(1) apart \<open>0 < length fs'\<close>] by auto
    then have "r'\<lparr>owns_physical_pages := False\<rparr> \<noteq> r\<lparr>owns_physical_pages := False\<rparr>" by (metis virt_region.select_convs(1) virt_region.surjective virt_region.update_convs(5))
    then show "r'\<lparr>owns_physical_pages := False\<rparr> \<in> set (live_vregions s')"
      using u(5) [OF m'] a(6) by (metis insert_iff set_mset_add_mset_insert set_mset_mset)
  qed
  have "in_use R (X - set fs) (hs @ hs') s'"
    unfolding in_use_def using a(2) u(2,3) other by auto
  then show thesis using that a by blast
qed

end
