(* ===== verification/Memory_Start.thy ===== *)
theory Memory_Start
  imports Vmm_Use Heap_Run
begin

text \<open>
  The memory bring-up as a whole: the frame allocator from the firmware's map (\<^verbatim>\<open>pmm::init\<close>), the kernel's page tables on
  its frames (\<^verbatim>\<open>vmm::init\<close>) and the heap in the dynamic range of those tables (\<^verbatim>\<open>heap::init\<close>), in the order of
  \<^verbatim>\<open>kernel_main\<close>.  What the heap needs of the bring-up before it is that everything the latter maps and registers lies in the lower
  half of the address space, so that the dynamic range is free.
\<close>

subsection \<open>Addresses of the lower half\<close>

lemma unat_pml4_index: "unat (pml4_index a) = unat a div 2 ^ 39 mod 512"
proof -
  have d: "unat (drop_bit 39 a) = unat a div 2 ^ 39" unfolding unat_drop_bit_eq by (simp add: drop_bit_eq_div)
  have "pml4_index a = ucast (take_bit 9 (drop_bit 39 a))" by (simp add: pml4_index_def take_bit_eq_mask mask_eq_exp_minus_1)
  then have "unat (pml4_index a) = unat (drop_bit 39 a) mod 512"
    by (simp only: unsigned_ucast_eq unsigned_take_bit_eq) (simp add: take_bit_eq_mod mod_mod_cancel)
  then show ?thesis unfolding d .
qed

lemma low_pml4: "unat a < 2 ^ 47 \<Longrightarrow> unat (pml4_index a) < 256"
  unfolding unat_pml4_index by (rule le_less_trans [OF mod_less_eq_dividend]) simp

lemma canonical_low: "unat a < 2 ^ 47 \<Longrightarrow> canonical_virt a = a"
proof -
  assume "unat a < 2 ^ 47"
  then have "take_bit 47 (unat a) = unat a" by (simp add: take_bit_eq_mod)
  then have t: "take_bit 47 a = a" unfolding word_unat_eq_iff unsigned_take_bit_eq .
  have b: "\<not> bit a i" if "47 \<le> i" for i using that by (subst t [symmetric]) (simp add: bit_take_bit_iff)
  have "a AND push_bit 47 1 = 0" by (rule bit_word_eqI) (auto simp: bit_and_iff bit_push_bit_iff bit_1_iff b simp del: push_bit_of_1)
  moreover have "a AND 0xFFFFFFFFFFFF = a"
  proof -
    have "a AND 0xFFFFFFFFFFFF = take_bit 48 a" by (simp add: take_bit_eq_mask mask_eq_exp_minus_1)
    also have "\<dots> = a"
    proof (rule bit_word_eqI)
      show "bit (take_bit 48 a) n = bit a n" if "n < LENGTH(64)" for n using b [of n] by (cases "n < 48") (simp_all add: bit_take_bit_iff)
    qed
    finally show ?thesis .
  qed
  ultimately show ?thesis by (simp add: canonical_virt_def)
qed

lemma page_span_below: "c \<in> set (page_span a b) \<Longrightarrow> unat c < unat b"
proof -
  assume "c \<in> set (page_span a b)"
  then obtain i where ab: "a < b" and i: "i < unat ((b - a) div PAGE_SIZE)" and c: "c = a + of_nat i * PAGE_SIZE"
    by (auto simp: page_span_def split: if_splits)
  have s: "unat (b - a) = unat b - unat a" "unat a < unat b" using ab by (simp_all add: unat_sub less_imp_le word_less_nat_alt)
  then have "i < (unat b - unat a) div 4096" using i by (simp add: unat_div_distrib)
  then have ib: "unat a + i * 4096 < unat b" using s(2) by linarith
  then have "unat c = unat a + i * 4096" unfolding c
    using unat_u64_less [of b] by (simp add: unat_word_ariths unat_of_nat mod_mult_right_eq)
  then show ?thesis using ib by simp
qed

lemma unat_page_floor: "unat (page_floor a) = unat a - unat a mod 4096"
proof -
  have "page_floor a = push_bit 12 (drop_bit 12 a)"
  proof (rule bit_word_eqI)
    have m: "(PAGE_SIZE - 1 :: u64) = mask 12" by (simp add: mask_eq_exp_minus_1)
    show "bit (page_floor a) n = bit (push_bit 12 (drop_bit 12 a)) n" if "n < LENGTH(64)" for n
      using that unfolding page_floor_def m
      by (auto simp: bit_and_iff bit_not_iff bit_mask_iff bit_push_bit_iff bit_drop_bit_eq)
  qed
  then have e: "page_floor a = a - take_bit 12 a" using bits_ident [of 12 a] by (metis add_diff_cancel_right')
  have t: "unat (take_bit 12 a) = unat a mod 4096" unfolding unsigned_take_bit_eq by (simp add: take_bit_eq_mod)
  have "take_bit 12 a \<le> a" unfolding word_le_nat_alt t by simp
  then show ?thesis unfolding e using t by (simp only: unat_sub)
qed

lemma page_floor_le: "unat (page_floor a) \<le> unat a"
  by (simp add: unat_page_floor)

subsection \<open>The dynamic range stays free\<close>

definition low_start :: "u64 \<Rightarrow> nat \<Rightarrow> vmm \<Rightarrow> bool" where
  "low_start root n s \<longleftrightarrow> vm_ok {root} {} s \<and> regions_inv s \<and> vmm_region_count s \<le> n \<and> next_dynamic_addr s = DYNAMIC_VIRT_START
     \<and> (\<forall>r \<in> set (live_vregions s). unat (vr_start r) + unat (vr_size r) \<le> 2 ^ 47)
     \<and> (\<forall>q. length q = 4 \<longrightarrow> 256 \<le> unat (hd q) \<longrightarrow> xlate (vmm_mem s) root q = None)"

lemma low_start_memory:
  assumes "low_start root n s" and "vm_ok {root} {} s'" and "same_rest s s'"
    and "\<And>q. length q = 4 \<Longrightarrow> 256 \<le> unat (hd q) \<Longrightarrow> xlate (vmm_mem s') root q = xlate (vmm_mem s) root q"
  shows "low_start root n s'"
  using assms(1,2,4) same_restD [OF assms(3)] unfolding low_start_def by (simp add: regions_inv_def live_vregions_def)

lemma low_start_map_page:
  assumes l: "low_start root n s" and a: "unat va < 2 ^ 47" and fl: "is_present flags"
  shows "low_start root n (snd (map_page root va pa flags s))"
proof (cases "map_page root va pa flags s")
  case (Pair res s')
  have ok: "vm_ok {root} {} s" using l by (simp add: low_start_def)
  show ?thesis
  proof (cases res)
    case (Inl e)
    then have "map_page root va pa flags s = (Inl e, s')" using Pair by simp
    note k = map_page_Inl [OF ok _ this]
    show ?thesis using low_start_memory [OF l k(1) growsD_rest [OF k(2)] growsD_xlate [OF k(2)]] Pair by simp
  next
    case (Inr x)
    then have mp: "map_page root va pa flags s = (Inr (), s')" using Pair by simp
    note k = map_page_Inr [OF ok _ mp fl]
    have "q \<noteq> va_path va" if "256 \<le> unat (hd q)" for q using that low_pml4 [OF a] by (auto simp: va_path_def)
    then show ?thesis using low_start_memory [OF l k(2,3)] k(7) Pair by simp
  qed
qed

lemma low_start_fold:
  assumes "low_start root n s" and "\<And>x s. x \<in> set xs \<Longrightarrow> low_start root n s \<Longrightarrow> low_start root n (f x s)"
  shows "low_start root n (fold f xs s)"
  using assms by (induction xs arbitrary: s) simp_all

lemma low_start_register:
  assumes l: "low_start root n s" and b: "unat (vr_start r) + unat (vr_size r) \<le> 2 ^ 47"
  shows "low_start root (Suc n) (snd (register_region r s))"
proof (cases "fst (register_region r s)")
  case (Inl e)
  then have "snd (register_region r s) = s"
    unfolding register_region_def by (simp only: fst_conv snd_conv sum.distinct simp_thms split: if_splits)
  then show ?thesis using l by (simp add: low_start_def)
next
  case (Inr u)
  then have c: "va_is_aligned (vr_start r)" "vr_size r \<noteq> 0" "vr_size r mod PAGE_SIZE = 0" "vmm_region_count s < MAX_VIRT_REGIONS"
    "\<not> (\<exists>r' \<in> set (live_vregions s). vr_overlaps r' (vr_start r) (vr_size r))" and p: "snd (register_region r s) = push_vregion r s"
    by (auto simp: register_region_def mod_eq_0_iff_dvd split: if_splits)
  have inv: "regions_inv s" using l by (simp add: low_start_def)
  have "regions_inv (push_vregion r s)"
    by (rule push_region_inv [OF inv c(4) _ c(5)]) (use c b in \<open>simp add: vr_valid_def\<close>)
  moreover have "live_vregions (push_vregion r s) = live_vregions s @ [r]"
    using inv c(4) by (intro live_push) (simp add: regions_inv_def)
  moreover have "vm_ok {root} {} (push_vregion r s)"
    using keeps_ok [OF keeps_register [of "{root}" s r]] l unfolding p by (simp add: low_start_def)
  ultimately show ?thesis using l b unfolding p low_start_def by (auto simp: push_vregion_def)
qed

text \<open>A range of whole pages around an interval of the lower half.\<close>

lemma page_range:
  assumes "unat a \<le> unat b" and "unat b \<le> 2 ^ 46"
  defines "e \<equiv> page_floor (b + PAGE_SIZE - 1)"
  shows "unat e \<le> 2 ^ 47" and "unat (page_floor a) + unat (e - page_floor a) \<le> 2 ^ 47"
proof -
  have "unat (b + PAGE_SIZE) = unat b + 4096" by (rule trans [OF unat_add_u64]) (use assms(2) in simp_all)
  then have "unat (b + PAGE_SIZE - 1) = unat b + 4095" by (subst unat_sub) (simp_all add: word_le_nat_alt)
  note u = this
  then have le: "unat e \<le> unat b + 4095" using page_floor_le [of "b + PAGE_SIZE - 1"] by (simp add: e_def)
  then show "unat e \<le> 2 ^ 47" using assms(2) by simp
  have "unat b - unat b mod 4096 \<le> unat e" unfolding e_def unat_page_floor u by linarith
  moreover have "unat a - unat a mod 4096 \<le> unat b - unat b mod 4096"
    using assms(1) by (simp add: minus_mod_eq_mult_div div_le_mono)
  ultimately have "page_floor a \<le> e" by (simp add: word_le_nat_alt unat_page_floor)
  then show "unat (page_floor a) + unat (e - page_floor a) \<le> 2 ^ 47"
    using le assms(2) by (simp add: unat_sub word_le_nat_alt)
qed

lemma low_start_mono: "low_start root n s \<Longrightarrow> n \<le> k \<Longrightarrow> low_start root k s"
  by (simp add: low_start_def)

lemma low_start_identity_map_region:
  assumes l: "low_start root n s" and b: "unat (physical_start r) \<le> unat (physical_end r)" "unat (physical_end r) \<le> 2 ^ 46"
  shows "low_start root (Suc n) (identity_map_region root r s)"
proof -
  obtain flags perms purpose where c: "(if region_type r = Mmio then (FLAGS_MMIO, PERM_MMIO, MmioRegion)
     else (FLAG_PRESENT OR FLAG_WRITABLE, PERM_KERNEL_DATA, DirectMappedRam)) = (flags, perms, purpose)"
    by (metis prod_cases3)
  then have fl: "is_present flags" by (auto split: if_splits)
  let ?a = "page_floor (physical_start r)" and ?e = "page_floor (physical_end r + PAGE_SIZE - 1)"
  let ?s = "fold (\<lambda>curr s. snd (map_page root (canonical_virt curr) curr flags s)) (page_span ?a ?e) s"
  note pr = page_range [OF b]
  have "unat c < 2 ^ 47" if "c \<in> set (page_span ?a ?e)" for c using page_span_below [OF that] pr(1) by simp
  then have m: "low_start root n ?s"
    by (intro low_start_fold [OF l]) (simp add: canonical_low low_start_map_page fl)
  have "unat ?a \<le> 2 ^ 46" using page_floor_le [of "physical_start r"] b by simp
  then have "canonical_virt ?a = ?a" by (intro canonical_low) simp
  then show ?thesis unfolding identity_map_region_def c Let_def prod.case
    by (intro low_start_register [OF m]) (use pr(2) in simp)
qed

lemma low_start_mmio_loop:
  assumes "low_start root n s" and "\<And>c. c \<in> set cs \<Longrightarrow> unat c < 2 ^ 47"
  shows "low_start root n (snd (mmio_loop root cs s))"
  using assms
proof (induction cs arbitrary: s)
  case (Cons c cs)
  have "low_start root n (snd (map_page root c c FLAGS_MMIO s))"
    by (rule low_start_map_page [OF Cons.prems(1)]) (use Cons.prems(2) in simp_all)
  then show ?case using Cons.IH Cons.prems(2) by (auto split: prod.splits sum.splits)
qed simp

lemma low_start_identity_map_mmio:
  assumes l: "low_start root n s" and b: "unat a + unat len \<le> 2 ^ 46"
  shows "low_start root (Suc n) (identity_map_mmio root a len s)"
proof -
  have u: "unat (a + len) = unat a + unat len" by (rule unat_add_u64) (use b in simp)
  let ?span = "page_span (page_floor a) (page_floor (a + len + PAGE_SIZE - 1))"
  note pr = page_range [of a "a + len", unfolded u, OF _ b]
  obtain ok s' where ml: "mmio_loop root ?span s = (ok, s')" by fastforce
  have m: "low_start root n s'"
    using low_start_mmio_loop [OF l, of ?span] page_span_below pr(1) ml by (metis le_add1 less_le_trans snd_conv)
  show ?thesis unfolding identity_map_mmio_def Let_def ml prod.case
    using low_start_register [OF m] low_start_mono [OF m] pr(2) by (cases ok) simp_all
qed

lemma low_start_map_low_4gb:
  assumes "low_start root n s" and "low_inv root s" and "k \<le> 2048"
  shows "low_start root n (map_low_4gb root k s)"
  using assms(3)
proof (induction k)
  case 0
  then show ?case using assms(1) by (simp add: map_low_4gb_def)
next
  case (Suc k)
  let ?s = "map_low_4gb root k s"
  have IH: "low_start root n ?s" "low_inv root ?s" using Suc map_low_4gb_inv [OF assms(2), of k] by simp_all
  have k: "k < 2048" using Suc.prems by simp
  have b: "unat (low_block k) < 2 ^ 32" using unat_low_block [OF k] k by simp
  obtain s' where mp: "map_2mb_huge_page root (low_block k) (low_block k) low_flags ?s = (Inr (), s')"
    and l: "low_inv root s'" and sr: "same_rest ?s s'"
    and x: "\<And>q. length q = 4 \<Longrightarrow> xlate (vmm_mem s') root q =
       (if take 3 q = take 3 (va_path (low_block k))
        then Some (pte_set (low_block k AND NOT 0x1FFFFF) (low_flags OR FLAG_HUGE_PAGE), drop 3 q)
        else xlate (vmm_mem ?s) root q)"
    using low_map_step [OF IH(2) b low_canonical [OF b]] by metis
  have step: "map_low_4gb root (Suc k) s = s'" using mp by (simp add: map_low_4gb_def low_block_def)
  have "take 3 q \<noteq> take 3 (va_path (low_block k))" if "length q = 4" "256 \<le> unat (hd q)" for q
    using that low_indices(1) [OF b] by (cases q) (auto simp: va_path_def numeral_3_eq_3)
  then show ?case unfolding step
    using low_start_memory [OF IH(1) _ sr] l x by (simp add: low_inv_def)
qed

lemma low_start_regions:
  assumes "low_start root n s" and "\<And>r. r \<in> set rs \<Longrightarrow> unat (physical_start r) \<le> unat (physical_end r) \<and> unat (physical_end r) \<le> 2 ^ 46"
  shows "low_start root (n + length rs) (fold (identity_map_region root) rs s)"
  using assms
proof (induction rs arbitrary: s n)
  case (Cons r rs)
  have "low_start root (Suc n) (identity_map_region root r s)"
    by (rule low_start_identity_map_region [OF Cons.prems(1)]) (use Cons.prems(2) in simp_all)
  from Cons.IH [OF this] Cons.prems(2) show ?case by simp
qed simp

definition low_devices :: "u64 \<Rightarrow> u64 \<Rightarrow> (u64 \<times> u64) option \<Rightarrow> bool" where
  "low_devices lapic ioapic fb \<longleftrightarrow> unat lapic + 4096 \<le> 2 ^ 46 \<and> unat ioapic + 4096 \<le> 2 ^ 46
     \<and> (case fb of None \<Rightarrow> True | Some (base, len) \<Rightarrow> unat base + unat len \<le> 2 ^ 46)"

definition low_regions :: "physical_memory_map \<Rightarrow> bool" where
  "low_regions mm \<longleftrightarrow> list_all (\<lambda>r. unat (physical_end r) \<le> 2 ^ 46) (live_regions mm)"

lemma low_start_boot_mappings:
  assumes l: "low_start root 0 s" "low_inv root s" and mm: "memory_map_ok mm" "low_regions mm" and d: "low_devices lapic ioapic fb"
  shows "low_start root 131 (boot_mappings root mm lapic ioapic fb s)"
proof -
  define s1 where "s1 = map_low_4gb root 2048 s"
  define s2 where "s2 = fold (identity_map_region root) (live_regions mm) s1"
  define s3 where "s3 = identity_map_mmio root lapic PAGE_SIZE s2"
  define s4 where "s4 = identity_map_mmio root ioapic PAGE_SIZE s3"
  have "length (live_regions mm) \<le> 128" using mm(1) by (simp add: memory_map_ok_def live_regions_def kernel_consts)
  moreover have "low_start root (0 + length (live_regions mm)) s2"
    unfolding s2_def s1_def
    by (rule low_start_regions [OF low_start_map_low_4gb [OF l]])
      (use mm in \<open>auto simp: memory_map_ok_def region_ok_def low_regions_def list_all_iff\<close>)
  ultimately have "low_start root 128 s2" using low_start_mono by fastforce
  then have "low_start root 129 s3" unfolding s3_def
    using low_start_identity_map_mmio [of root 128 s2 lapic PAGE_SIZE] d by (simp add: low_devices_def)
  then have 4: "low_start root 130 s4" unfolding s4_def
    using low_start_identity_map_mmio [of root 129 s3 ioapic PAGE_SIZE] d by (simp add: low_devices_def)
  show ?thesis
    unfolding boot_mappings_def Let_def s1_def [symmetric] s2_def [symmetric] s3_def [symmetric] s4_def [symmetric]
    using 4 low_start_mono [OF 4] low_start_identity_map_mmio [OF 4] d by (auto simp: low_devices_def split: option.splits)
qed

lemma low_start_create_slots:
  assumes "low_start root n s" and "create_slots root js s = (res, s')"
  shows "low_start root n s'"
  using assms
proof (induction js arbitrary: s res)
  case (Cons j js)
  obtain res0 s1 where g: "get_or_create_table root j s = (res0, s1)" by fastforce
  have ok: "vm_ok {root} {} s" using Cons.prems(1) by (simp add: low_start_def)
  have "walk (vmm_mem s) root [] = Some root" by simp
  note k = get_or_create_ok [OF ok _ this _ g]
  have gr: "grows {root} 1 s s1" and ok1: "vm_ok {root} {} s1" using k(1,2) by simp_all
  have "low_start root n s1" by (rule low_start_memory [OF Cons.prems(1) ok1 growsD_rest [OF gr]]) (use growsD_xlate [OF gr] in simp)
  then show ?case using Cons.IH Cons.prems(2) g by (auto simp: Let_def split: sum.splits prod.splits)
qed simp

lemma low_start_root:
  assumes "pmm_inv (vmm_pmm s)" and pool: "pool_ok (s\<lparr>is_bootstrapping := True\<rparr>)" and "bootstrap_index s = 0"
    and regions: "length (vmm_regions s) = MAX_VIRT_REGIONS" "vmm_region_count s = 0" "next_dynamic_addr s = DYNAMIC_VIRT_START"
    and al: "allocate_bootstrap_table (s\<lparr>is_bootstrapping := True\<rparr>) = (Some root, s1)"
  shows "low_start root 0 (s1\<lparr>root_pml4_phys := root\<rparr>)" and "low_inv root (s1\<lparr>root_pml4_phys := root\<rparr>)"
proof -
  show l: "low_inv root (s1\<lparr>root_pml4_phys := root\<rparr>)" using fresh_root(1) [OF _ pool _ _ al] assms(1,3) by simp
  note b = bootstrap_table_Some [OF pool _ al]
  have "vmm_mem s1 root = zero_table" using b(4) by simp
  then have z: "xlate (vmm_mem s1) root q = None" if "length q = 4" for q using xlate_zero_table [of "vmm_mem s1" root] that by simp
  have "same_rest (s\<lparr>is_bootstrapping := True\<rparr>) s1" using b(6) by simp
  from same_restD [OF this] regions have "vmm_regions s1 = vmm_regions s" "vmm_region_count s1 = 0" "next_dynamic_addr s1 = DYNAMIC_VIRT_START"
    by simp_all
  then show "low_start root 0 (s1\<lparr>root_pml4_phys := root\<rparr>)"
    using l z regions(1) by (simp add: low_start_def low_inv_def regions_inv_def live_vregions_def)
qed

lemma vmm_init_low_start:
  assumes "pmm_inv (vmm_pmm s)" and pool: "pool_ok (s\<lparr>is_bootstrapping := True\<rparr>)" and "bootstrap_index s = 0"
    and regions: "length (vmm_regions s) = MAX_VIRT_REGIONS" "vmm_region_count s = 0" "next_dynamic_addr s = DYNAMIC_VIRT_START"
    and low: "memory_map_ok mm" "low_regions mm" "low_devices lapic ioapic fb"
    and init: "vmm_init mm lapic ioapic fb s = (Inr (), s')"
  shows "low_start (pool_base s) 131 s'"
proof -
  let ?s0 = "s\<lparr>is_bootstrapping := True\<rparr>"
  from init obtain root s1 where al: "allocate_bootstrap_table ?s0 = (Some root, s1)"
    by (auto simp: vmm_init_def split: prod.splits option.splits)
  define s2 where "s2 = boot_mappings root mm lapic ioapic fb (s1\<lparr>root_pml4_phys := root\<rparr>)"
  define s3 where "s3 = s2\<lparr>cr3 := root, is_bootstrapping := False\<rparr>"
  from init obtain n where cs: "create_slots root kernel_slots s3 = (Some n, s')"
    unfolding vmm_init_def al option.case prod.case Let_def s2_def [symmetric] s3_def [symmetric]
    by (auto split: prod.splits option.splits)
  have "root = pool_base s" using fresh_root(2) [OF _ pool _ _ al] assms(1,3) by simp
  have 2: "low_start root 131 s2"
    unfolding s2_def by (rule low_start_boot_mappings [OF low_start_root [OF assms(1-6) al] low])
  have "vm_ok {root} {} s3" unfolding s3_def by (rule vm_ok_end_bootstrap) (use 2 in \<open>simp add: low_start_def\<close>)
  then have "low_start root 131 s3" using 2 by (simp add: s3_def low_start_def regions_inv_def live_vregions_def)
  from low_start_create_slots [OF this cs] show ?thesis using \<open>root = pool_base s\<close> by simp
qed

lemma dynamic_range_high:
  assumes "DYNAMIC_VIRT_START \<le> va"
  shows "256 \<le> unat (hd (va_path va))"
proof -
  have "0xFFFF800000000000 \<le> unat va" using assms by (simp add: word_le_nat_alt kernel_consts)
  moreover have "unat va < 2 ^ 64" by (rule unat_u64_less)
  ultimately have d: "0x1FFFF00 \<le> unat va div 2 ^ 39" "unat va div 2 ^ 39 < 0x2000000" by auto
  have "256 \<le> n mod 512" if "0x1FFFF00 \<le> n" "n < 0x2000000" for n :: nat
  proof -
    have k: "n = 512 * 65535 + (n - 0x1FFFE00)" "256 \<le> n - 0x1FFFE00" "n - 0x1FFFE00 < 512" using that by auto
    have "n mod 512 = (n - 0x1FFFE00) mod 512" by (subst k(1)) (rule mod_mult_self4)
    then show ?thesis using k(2,3) by simp
  qed
  then show ?thesis using d unat_pml4_index [of va] by (simp add: va_path_def)
qed

lemma heap_region_possible:
  assumes l: "low_start root 131 s" and "root_pml4_phys s = root" and "\<not> is_bootstrapping s" and "128 \<le> card (free_addrs (vmm_pmm s))"
  shows "\<exists>r s'. allocate_and_map_region 0x20000 perms purpose s = (Inr r, s')"
proof (rule alloc_map_possible [where R = "{root}" and X = "{}"])
  show "vm_ok {root} {} s" "regions_inv s" "root_pml4_phys s \<in> {root}" "cursor_ok s" "vmm_region_count s < MAX_VIRT_REGIONS"
    using l assms(2) by (auto simp: low_start_def cursor_ok_def kernel_consts va_is_aligned_def)
  show "unat (next_dynamic_addr s) + unat (0x20000 :: u64) \<le> unat DYNAMIC_VIRT_END" using l by (simp add: low_start_def kernel_consts)
  show "\<forall>r \<in> set (live_vregions s). \<not> vr_overlaps r (next_dynamic_addr s) 0x20000"
  proof
    fix r assume r: "r \<in> set (live_vregions s)"
    then have b: "unat (vr_start r) + unat (vr_size r) \<le> 2 ^ 47" and d: "next_dynamic_addr s = DYNAMIC_VIRT_START" using l by (auto simp: low_start_def)
    have "unat (vr_end r) = unat (vr_start r) + unat (vr_size r)" by (rule unat_vr_end) (use b in simp)
    then have "\<not> DYNAMIC_VIRT_START < vr_end r" using b by (simp add: word_less_nat_alt kernel_consts)
    then show "\<not> vr_overlaps r (next_dynamic_addr s) 0x20000" by (simp add: vr_overlaps_def d Let_def)
  qed
  show "4 * unat ((0x20000 :: u64) div PAGE_SIZE) \<le> card (free_addrs (vmm_pmm s))" using assms(4) by simp
  show "xlate (vmm_mem s) (root_pml4_phys s) (va_path (region_page (next_dynamic_addr s) j)) = None"
    if "j < unat ((0x20000 :: u64) div PAGE_SIZE)" for j
  proof -
    have "j < 32" using that by simp
    have "length (va_path (region_page DYNAMIC_VIRT_START j)) = 4" by (simp add: va_path_def)
    moreover have "DYNAMIC_VIRT_START \<le> region_page DYNAMIC_VIRT_START j"
      using \<open>j < 32\<close> unfolding region_page_def word_le_nat_alt by (simp add: kernel_consts unat_word_ariths unat_of_nat)
    ultimately show ?thesis using l assms(2) dynamic_range_high by (simp add: low_start_def)
  qed
qed (use assms in simp_all)

lemma low_start_ready:
  assumes l: "low_start root n v" and root: "root_pml4_phys v = root" and "\<not> is_bootstrapping v"
    and slots: "\<And>i. shared_slot i \<Longrightarrow> walk (vmm_mem v) root [i] \<noteq> None"
  shows "vm_ready {root} {} v"
  unfolding vm_ready_def
proof (intro conjI ballI allI impI)
  show "vm_ok {root} {} v" "regions_inv v" "cursor_ok v" "root_pml4_phys v \<in> {root}" "\<not> is_bootstrapping v"
    using assms(1-3) by (auto simp: low_start_def cursor_ok_def kernel_consts va_is_aligned_def)
  show "unat (vr_start r) + unat (vr_size r) \<le> unat (next_dynamic_addr v)" if "r \<in> set (live_vregions v)" for r
    using l that by (fastforce simp: low_start_def kernel_consts)
  show "walk (vmm_mem v) (root_pml4_phys v) [i] \<noteq> None" if "shared_slot i" for i unfolding root by (rule slots [OF that])
  show "xlate (vmm_mem v) (root_pml4_phys v) (va_path va) = None" if "next_dynamic_addr v \<le> va" for va
  proof -
    have "length (va_path va) = 4" by (simp add: va_path_def)
    moreover have "256 \<le> unat (hd (va_path va))" using that l by (intro dynamic_range_high) (simp add: low_start_def)
    ultimately show ?thesis using l root by (simp add: low_start_def)
  qed
qed

text \<open>The bring-up leaves a table in every shared slot, and the invariant of the regions with it.\<close>

lemma init_slots_linked:
  assumes "pmm_inv (vmm_pmm s)" and "pool_ok (s\<lparr>is_bootstrapping := True\<rparr>)" and "bootstrap_index s = 0"
    and "vmm_init mm lapic ioapic fb s = (Inr (), s')" and "shared_slot i"
  shows "walk (vmm_mem s') (pool_base s) [i] \<noteq> None"
proof (cases "i = 0")
  case True
  have "xlate (vmm_mem s') (pool_base s) (va_path 0) = Some (low_entry 0, [pt_index_of 0])" by (rule vmm_init_ok(2) [OF assms(1-4)]) simp
  moreover have "pml4_index 0 = 0" by (simp add: pml4_index_def)
  ultimately show ?thesis using True by (auto simp: va_path_def pte_table_def Let_def split: if_splits)
next
  case False
  then have "i \<in> set kernel_slots" using assms(5) set_kernel_slots by auto
  then obtain t where "walk (vmm_mem s') (pool_base s) [i] = Some t" using vmm_init_ok(1) [OF assms(1-4)] by blast
  then show ?thesis by simp
qed

lemma init_ready:
  assumes "pmm_inv (vmm_pmm s)" and "pool_ok (s\<lparr>is_bootstrapping := True\<rparr>)" and "bootstrap_index s = 0"
    and "length (vmm_regions s) = MAX_VIRT_REGIONS" and "vmm_region_count s = 0" and "next_dynamic_addr s = DYNAMIC_VIRT_START"
    and "memory_map_ok mm" and "low_regions mm" and "low_devices lapic ioapic fb" and "vmm_init mm lapic ioapic fb s = (Inr (), s')"
  shows "vm_ready {pool_base s} {} s'" and "root_pml4_phys s' = pool_base s" and "cr3 s' = pool_base s" and "vmm_region_count s' \<le> 131"
    and "next_dynamic_addr s' = DYNAMIC_VIRT_START"
proof -
  note k = vmm_init_ok(1) [OF assms(1-3,10)] and l = vmm_init_low_start [OF assms]
  show "vm_ready {pool_base s} {} s'" by (rule low_start_ready [OF l]) (use k init_slots_linked [OF assms(1-3,10)] in simp_all)
  show "root_pml4_phys s' = pool_base s" "cr3 s' = pool_base s" "vmm_region_count s' \<le> 131" "next_dynamic_addr s' = DYNAMIC_VIRT_START"
    using k l by (simp_all add: low_start_def)
qed

text \<open>The sample machine after \<^verbatim>\<open>vmm::init\<close>.\<close>

lemma boot_ready:
  obtains v where "vmm_init boot_map 0xFEE00000 0xFEC00000 None boot_vm = (Inr (), v)" and "vm_ready {0x1000000} {} v" and "255 \<le> frames_left v"
    and "root_pml4_phys v = 0x1000000" and "cr3 v = 0x1000000" and "vmm_region_count v \<le> 131" and "next_dynamic_addr v = DYNAMIC_VIRT_START"
proof -
  obtain v where v: "vmm_init boot_map 0xFEE00000 0xFEC00000 None boot_vm = (Inr (), v)" "255 \<le> frames_left v" by (rule boot_completes)
  have inv: "pmm_inv (vmm_pmm boot_vm)" by (simp add: boot_vm_fields boot_inv)
  have m: "memory_map_ok boot_map" "low_regions boot_map"
    using boot_live by (simp_all add: memory_map_ok_def low_regions_def region_ok_def sum_bytes_def) (simp_all add: boot_map_def kernel_consts)
  have d: "low_devices 0xFEE00000 0xFEC00000 None" by (simp add: low_devices_def)
  have r: "length (vmm_regions boot_vm) = MAX_VIRT_REGIONS" "vmm_region_count boot_vm = 0" "next_dynamic_addr boot_vm = DYNAMIC_VIRT_START"
    by (simp_all add: boot_vm_def sample_vm_def kernel_consts)
  note l = init_ready [OF inv boot_pool boot_vm_fields(2) r m d v(1), unfolded boot_vm_fields]
  show thesis by (rule that [OF v(1) l(1) v(2) l(2-5)])
qed

subsection \<open>Properties\<close>

text \<open>Memory comes up: on a well-formed firmware map whose usable regions do not overlap, with everything it describes and the device
  registers below 64 TiB and 384 usable frames, \<^verbatim>\<open>pmm::init\<close>, \<^verbatim>\<open>vmm::init\<close> and \<^verbatim>\<open>heap::init\<close> succeed one after the other from the initial
  statics; afterwards the kernel runs on its own well-formed tables, and the heap is one free block of 32 mapped pages at the
  start of the dynamic range that passes its own check.\<close>
theorem memory_comes_up:
  fixes v :: vmm and mm :: physical_memory_map
  assumes "memory_map_ok mm" and "usable_nonoverlapping (live_regions mm)" and "low_regions mm" and "low_devices lapic ioapic fb"
    and "384 \<le> card (free_addrs (pmm_init mm))" and "pool_ok (v\<lparr>vmm_pmm := pmm_init mm, is_bootstrapping := True\<rparr>)" and "bootstrap_index v = 0"
    and "length (vmm_regions v) = MAX_VIRT_REGIONS" and "vmm_region_count v = 0" and "next_dynamic_addr v = DYNAMIC_VIRT_START"
  shows "\<exists>v' h. vmm_init mm lapic ioapic fb (v\<lparr>vmm_pmm := pmm_init mm\<rparr>) = (Inr (), v') \<and> cr3 v' = pool_base v \<and> vm_ok {pool_base v} {} v'
    \<and> heap_init (heap_state_new hdr bytes v') = (Inr (), h) \<and> heap_verify_invariants h = Some (Inr ())
    \<and> heap_inv h [initial_block (unat DYNAMIC_VIRT_START)] \<and> hp_current_end h = unat DYNAMIC_VIRT_START + 32 * 4096"
proof -
  let ?v = "v\<lparr>vmm_pmm := pmm_init mm\<rparr>"
  have inv: "pmm_inv (vmm_pmm ?v)" using pmm_init_inv [OF assms(2)] by simp
  have pool: "pool_ok (?v\<lparr>is_bootstrapping := True\<rparr>)" using assms(6) by simp
  have idx: "bootstrap_index ?v = 0" using assms(7) by simp
  obtain v' where i: "vmm_init mm lapic ioapic fb ?v = (Inr (), v')" "card (free_addrs (pmm_init mm)) \<le> card (free_addrs (vmm_pmm v')) + 256"
    using init_completes [OF inv pool idx, of mm lapic ioapic fb] assms(5) by auto
  note k = vmm_init_ok(1) [OF inv pool idx i(1)]
  have l: "low_start (pool_base v) 131 v'" using vmm_init_low_start [OF inv pool idx _ _ _ assms(1,3,4) i(1)] assms(8-10) by simp
  then have vm: "vm_ok {pool_base v} {} v'" "regions_inv v'" "cursor_ok v'" "next_dynamic_addr v' = DYNAMIC_VIRT_START"
    by (simp_all add: low_start_def cursor_ok_def kernel_consts va_is_aligned_def)
  have root: "root_pml4_phys v' \<in> {pool_base v}" using k by simp
  have "\<exists>r v2. allocate_and_map_region 0x20000 PERM_KERNEL_DATA DynamicKernel v' = (Inr r, v2)"
    by (rule heap_region_possible [OF l]) (use k i(2) assms(5) in auto)
  then obtain h where h: "heap_init (heap_state_new hdr bytes v') = (Inr (), h)"
    by (auto simp: heap_init_def heap_state_new_def Let_def kernel_consts)
  note hi = heap_init_inv [OF vm(1-3) root h]
  show ?thesis using i(1) k vm(1) h heap_verify_ok [OF hi(1)] hi(1,3) vm(4) by (auto simp del: walk.simps)
qed

text \<open>The machine of \<open>boot_map\<close>: 2 MiB of usable memory and the pool at 16 MiB.\<close>

theorem memory_comes_up_witness:
  "\<exists>v' h. vmm_init boot_map 0xFEE00000 0xFEC00000 None boot_vm = (Inr (), v')
     \<and> heap_init (heap_state_new (\<lambda>_. poison_header) (\<lambda>_. 0) v') = (Inr (), h) \<and> heap_verify_invariants h = Some (Inr ())"
proof -
  have v: "boot_vm\<lparr>vmm_pmm := pmm_init boot_map\<rparr> = boot_vm" by (simp add: boot_vm_def)
  have m: "memory_map_ok boot_map" "usable_nonoverlapping (live_regions boot_map)" "low_regions boot_map"
    using boot_live by (simp_all add: memory_map_ok_def low_regions_def region_ok_def sum_bytes_def usable_nonoverlapping_def)
      (simp_all add: boot_map_def kernel_consts)
  have d: "low_devices 0xFEE00000 0xFEC00000 None" by (simp add: low_devices_def)
  have r: "length (vmm_regions boot_vm) = MAX_VIRT_REGIONS" "vmm_region_count boot_vm = 0" "next_dynamic_addr boot_vm = DYNAMIC_VIRT_START"
    "bootstrap_index boot_vm = 0"
    by (simp_all add: boot_vm_def sample_vm_def kernel_consts)
  have pool: "pool_ok (boot_vm\<lparr>vmm_pmm := pmm_init boot_map, is_bootstrapping := True\<rparr>)" using boot_pool unfolding v .
  have "384 \<le> card (free_addrs (pmm_init boot_map))" by (simp add: boot_free_card)
  from memory_comes_up [OF m d this pool r(4,1-3), of "\<lambda>_. poison_header" "\<lambda>_. 0"] show ?thesis unfolding v by blast
qed

end
