(* ===== verification/Context_Tests.thy ===== *)
theory Context_Tests
  imports Coroutine Thread Isolation Memory_Start
begin

text \<open>
  The boot-time test of execution contexts, \<^verbatim>\<open>run_self_tests\<close> of \<^verbatim>\<open>src/src/context.rs\<close>: invalid entry points are refused, two contexts on stacks of
  their own and the test hand the processor to each other with \<^verbatim>\<open>switch_context\<close>, and the stacks are given back.

  Parameters: the return address and the stack pointer at each call of \<^verbatim>\<open>switch_context\<close>, the addresses of the two functions, how much
  of its stack each function uses where it reads its stack pointer, and the registers of the inline assembly: the compiler decides them.
  A halt or a panic is the left result with its message.
\<close>

subsection \<open>The two contexts\<close>

record context_marks =
  test_stage :: u32
  ctx_a_sp_seen :: u64
  ctx_b_sp_seen :: u64

record test_contexts =
  ct_kernel :: kernel
  ct_context :: "tid \<Rightarrow> execution_context"
  ct_marks :: context_marks

definition test_contexts_init :: "kernel \<Rightarrow> test_contexts" where
  "test_contexts_init k = \<lparr>ct_kernel = k, ct_context = (\<lambda>_. empty_context),
     ct_marks = \<lparr>test_stage = 0, ctx_a_sp_seen = 0, ctx_b_sp_seen = 0\<rparr>\<rparr>"

text \<open>\<^verbatim>\<open>switch_context\<close> has no checks.  Resuming a context without a saved frame would pop ten words from address 0 or from a stack in use; the
  model makes it a failure, so a test that passes never does it.\<close>

definition switch_test_context :: "(nat \<Rightarrow> u64 \<times> u64) \<Rightarrow> nat \<Rightarrow> tid \<Rightarrow> tid \<Rightarrow> test_contexts \<Rightarrow> string + test_contexts" where
  "switch_test_context sites n prev next s =
     (if ctx_state (ct_context s next) \<in> {Initialized, Suspended}
      then Inr (s\<lparr>ct_context := (ct_context s)(prev := suspend_context (fst (sites n)) (snd (sites n)) (ct_context s prev),
                   next := resume_context (ct_context s next))\<rparr>)
      else Inl ''no frame to resume'')"

definition test_context_a_fn :: "u64 \<Rightarrow> context_marks code" where
  "test_context_a_fn sp =
     [assign (\<lambda>m. m\<lparr>ctx_a_sp_seen := sp\<rparr>),
      assign (\<lambda>m. m\<lparr>test_stage := 1\<rparr>),
      Switch 0 FirstT SecondT]"

definition test_context_b_fn :: "u64 \<Rightarrow> context_marks code" where
  "test_context_b_fn sp =
     [assign (\<lambda>m. m\<lparr>ctx_b_sp_seen := sp\<rparr>),
      check (\<lambda>m. test_stage m = 1) ''Context B executed out of order!'',
      assign (\<lambda>m. m\<lparr>test_stage := 2\<rparr>),
      Switch 1 SecondT MainT]"

definition context_main :: "kernel_stack \<Rightarrow> kernel_stack \<Rightarrow> context_marks code" where
  "context_main stack_a stack_b =
     [Switch 2 MainT FirstT,
      check (\<lambda>m. test_stage m = 2) ''Return from context switch did not reach stage 2!'',
      check (\<lambda>m. \<not> (ctx_a_sp_seen m < stack_bottom stack_a \<or> stack_top stack_a < ctx_a_sp_seen m)) ''Context A RSP was outside Stack A bounds!'',
      check (\<lambda>m. \<not> (ctx_b_sp_seen m < stack_bottom stack_b \<or> stack_top stack_b < ctx_b_sp_seen m)) ''Context B RSP was outside Stack B bounds!'']"

abbreviation context_code :: "context_marks code \<Rightarrow> test_contexts code" where
  "context_code \<equiv> place_code ct_marks (\<lambda>m s. s\<lparr>ct_marks := m\<rparr>)"

subsection \<open>The test\<close>

definition expect :: "string \<Rightarrow> ('e + 'a) \<times> kernel \<Rightarrow> string + ('a \<times> kernel)" where
  "expect msg r = (case r of (Inl _, _) \<Rightarrow> Inl msg | (Inr a, k) \<Rightarrow> Inr (a, k))"

lemma expect_simps [simp]: "expect msg (Inl e, k) = Inl msg" "expect msg (Inr a, k) = Inr (a, k)"
  by (simp_all add: expect_def)

definition refuse_entry :: "u64 \<Rightarrow> kernel_stack \<Rightarrow> string \<Rightarrow> kernel \<Rightarrow> string + kernel" where
  "refuse_entry entry stack msg k =
     (case create_context_raw entry stack k of (Inl InvalidEntryPoint, k) \<Rightarrow> Inr k | _ \<Rightarrow> Inl msg)"

definition switch_test :: "(nat \<Rightarrow> u64 \<times> u64) \<Rightarrow> (nat \<Rightarrow> u64) \<Rightarrow> (nat \<Rightarrow> u64) \<Rightarrow> kernel_stack \<Rightarrow> kernel_stack \<Rightarrow> test_contexts
    \<Rightarrow> string + test_contexts" where
  "switch_test sites entry depth stack_a stack_b s =
     bind_sum (expect ''failed ctx A'' (create_context_raw (entry 0) stack_a (ct_kernel s))) (\<lambda>(a, k).
     bind_sum (expect ''failed ctx B'' (create_context_raw (entry 1) stack_b k)) (\<lambda>(b, k).
     run_co (switch_test_context sites)
       (\<lambda>t. context_code (pending (test_context_a_fn (stack_top stack_a - depth 0)) (test_context_b_fn (stack_top stack_b - depth 1)) t))
       (context_code (context_main stack_a stack_b))
       (s\<lparr>ct_kernel := k, ct_context := (ct_context s)(FirstT := a, SecondT := b)\<rparr>)))"

text \<open>The inline assembly of the last step, with the two registers the compiler chose for the outputs.\<close>

definition preserved_registers :: "u64 \<Rightarrow> u64 \<Rightarrow> reg \<Rightarrow> reg \<Rightarrow> cpu \<Rightarrow> bool" where
  "preserved_registers v w out1 out2 c =
     (let c = exec [MovImm R12 v, MovImm R13 w, MovReg out1 R12, MovReg out2 R13] c in regs c out1 = v \<and> regs c out2 = w)"

definition release_stack :: "kernel_stack \<Rightarrow> kernel \<Rightarrow> kernel" where
  "release_stack stack k = snd (lift_vmm (unmap_region (stack_region stack)) k)"

definition context_self_tests :: "(nat \<Rightarrow> u64 \<times> u64) \<Rightarrow> (nat \<Rightarrow> u64) \<Rightarrow> (nat \<Rightarrow> u64) \<Rightarrow> reg \<Rightarrow> reg \<Rightarrow> cpu \<Rightarrow> test_contexts \<Rightarrow> string + test_contexts" where
  "context_self_tests sites entry depth out1 out2 c s =
     bind_sum (expect ''Failed to allocate dummy stack!'' (kernel_stack_allocate (ct_kernel s))) (\<lambda>(dummy_stack, k).
     bind_sum (refuse_entry 0 dummy_stack ''Null entry point was not rejected!'' k) (\<lambda>k.
     bind_sum (refuse_entry 0xDEAD000000000000 dummy_stack ''Non-canonical entry point was not rejected!'' k) (\<lambda>k.
     bind_sum (expect ''failed stack A allocation'' (kernel_stack_allocate k)) (\<lambda>(stack_a, k).
     bind_sum (expect ''failed stack B allocation'' (kernel_stack_allocate k)) (\<lambda>(stack_b, k).
     if stack_bottom stack_a = stack_bottom stack_b then Inl ''Context A and B shared identical stack addresses!''
     else bind_sum (switch_test sites entry depth stack_a stack_b (s\<lparr>ct_kernel := k\<rparr>)) (\<lambda>s.
       if \<not> preserved_registers 0x1212121212121212 0x1313131313131313 out1 out2 c then Inl ''Register preservation check failed!''
       else Inr (s\<lparr>ct_kernel := release_stack stack_b (release_stack stack_a (release_stack dummy_stack (ct_kernel s)))\<rparr>)))))))"

subsection \<open>A switch is a handover\<close>

definition contexts_ready :: "tid \<Rightarrow> test_contexts \<Rightarrow> bool" where
  "contexts_ready r s \<longleftrightarrow> (\<forall>t. t \<noteq> r \<longrightarrow> ctx_state (ct_context s t) \<in> {Initialized, Suspended})"

interpretation context_switch: handover "switch_test_context sites" "\<lambda>r s. ct_kernel s = k \<and> contexts_ready r s" ct_marks "\<lambda>m s. s\<lparr>ct_marks := m\<rparr>"
  by unfold_locales (auto simp: switch_test_context_def contexts_ready_def suspend_context_def resume_context_def)

lemma preserved_registers_ok: "out1 \<noteq> R13 \<Longrightarrow> out1 \<noteq> out2 \<Longrightarrow> preserved_registers v w out1 out2 c"
  by (simp add: preserved_registers_def Let_def put_reg_def)

definition valid_site :: "u64 \<times> u64 \<Rightarrow> bool" where
  "valid_site p \<longleftrightarrow> fst p \<noteq> 0 \<and> is_canonical (fst p) \<and> snd p \<noteq> 72 \<and> is_canonical (snd p - 72)"

subsection \<open>Stacks\<close>

definition entry_ok :: "u64 \<Rightarrow> bool" where
  "entry_ok a \<longleftrightarrow> a \<noteq> 0 \<and> is_canonical a"

text \<open>Room for \<open>n\<close> stacks.\<close>

definition stack_room :: "nat \<Rightarrow> kernel \<Rightarrow> bool" where
  "stack_room n k \<longleftrightarrow> unat (next_dynamic_addr (k_vmm k)) + n * 0x4000 \<le> unat DYNAMIC_VIRT_END
     \<and> vmm_region_count (k_vmm k) + n \<le> MAX_VIRT_REGIONS \<and> 16 * n \<le> frames_left (k_vmm k)"

text \<open>What taking up to \<open>n\<close> stacks changes at most, and what it does not change.\<close>

definition stacks_taken :: "nat \<Rightarrow> kernel \<Rightarrow> kernel \<Rightarrow> bool" where
  "stacks_taken n k k' \<longleftrightarrow> root_pml4_phys (k_vmm k') = root_pml4_phys (k_vmm k) \<and> cr3 (k_vmm k') = cr3 (k_vmm k)
     \<and> frames_left (k_vmm k) \<le> frames_left (k_vmm k') + 16 * n
     \<and> next_pid k' = next_pid k \<and> next_asid (k_as k') = next_asid (k_as k) \<and> initial_context_entry k' = initial_context_entry k"

lemma stacks_taken_trans: "stacks_taken n k k' \<Longrightarrow> stacks_taken m k' k'' \<Longrightarrow> stacks_taken (n + m) k k''"
  by (simp add: stacks_taken_def)

lemma stack_size: "STACK_SIZE_BYTES = 0x4000" "(0x4000 :: u64) \<noteq> 0" "(0x4000 :: u64) mod PAGE_SIZE = 0" "unat ((0x4000 :: u64) div PAGE_SIZE) = 4"
  by (simp_all add: STACK_SIZE_BYTES_def kernel_consts)

lemma stack_in_use:
  assumes use: "in_use R X hs (k_vmm s)" and room: "stack_room (Suc n) s"
  obtains r v fs where "allocate_and_map_region STACK_SIZE_BYTES PERM_KERNEL_DATA DynamicKernel (k_vmm s) = (Inr r, v)"
    and "in_use R (X \<union> set fs) ((r, fs) # hs) v" and "set fs \<inter> X = {}" and "stack_room n (s\<lparr>k_as := (k_as s)\<lparr>as_vmm := v\<rparr>\<rparr>)"
    and "without_pages R (root_pml4_phys (k_vmm s)) (region_paths r) (vmm_mem v) (vmm_mem (k_vmm s))"
    and "root_pml4_phys v = root_pml4_phys (k_vmm s)" and "cr3 v = cr3 (k_vmm s)"
    and "live_vregions v = live_vregions (k_vmm s) @ [r\<lparr>owns_physical_pages := False\<rparr>]"
    and "unat (next_dynamic_addr v) = unat (next_dynamic_addr (k_vmm s)) + 0x4000" and "frames_left (k_vmm s) \<le> frames_left v + 16"
proof -
  note rm = room [unfolded stack_room_def] and u = in_useD [OF use]
  obtain r v fs where a: "allocate_and_map_region 0x4000 PERM_KERNEL_DATA DynamicKernel (k_vmm s) = (Inr r, v)"
    "in_use R (X \<union> set fs) ((r, fs) # hs) v" "set fs \<inter> X = {}"
    "without_pages R (root_pml4_phys (k_vmm s)) (region_paths r) (vmm_mem v) (vmm_mem (k_vmm s))" "root_pml4_phys v = root_pml4_phys (k_vmm s)"
    "cr3 v = cr3 (k_vmm s)" "live_vregions v = live_vregions (k_vmm s) @ [r\<lparr>owns_physical_pages := False\<rparr>]"
    "next_dynamic_addr v = next_dynamic_addr (k_vmm s) + 0x4000" "frames_left (k_vmm s) \<le> frames_left v + 4 * unat ((0x4000 :: u64) div PAGE_SIZE)"
    by (rule in_use_alloc [OF use stack_size(2,3), of PERM_KERNEL_DATA DynamicKernel]) (use rm stack_size(4) in auto)
  have c: "vmm_region_count v = vmm_region_count (k_vmm s) + 1"
    using region_count_length [OF vm_readyD(2) [OF in_useD(1) [OF a(2)]]] region_count_length [OF vm_readyD(2) [OF u(1)]] a(7) by simp
  have cur: "unat (next_dynamic_addr v) = unat (next_dynamic_addr (k_vmm s)) + 0x4000"
    unfolding a(8) using rm unat_u64_less [of DYNAMIC_VIRT_END] by (intro unat_add_u64 [THEN trans]) auto
  then have "stack_room n (s\<lparr>k_as := (k_as s)\<lparr>as_vmm := v\<rparr>\<rparr>)" using rm c a(9) stack_size(4) by (simp add: stack_room_def)
  moreover have "frames_left (k_vmm s) \<le> frames_left v + 16" using a(9) stack_size(4) by simp
  ultimately show thesis using that [OF a(1) [folded stack_size(1)] a(2,3) _ a(4-7) cur] by blast
qed

lemma kernel_stack_in_use:
  assumes use: "in_use R X hs (k_vmm s)" and room: "stack_room (Suc n) s"
  obtains stack s' fs where "kernel_stack_allocate s = (Inr stack, s')" and "in_use R (X \<union> set fs) ((stack_region stack, fs) # hs) (k_vmm s')"
    and "set fs \<inter> X = {}" and "stack_room n s'"
    and "without_pages R (root_pml4_phys (k_vmm s)) (region_paths (stack_region stack)) (vmm_mem (k_vmm s')) (vmm_mem (k_vmm s))"
    and "root_pml4_phys (k_vmm s') = root_pml4_phys (k_vmm s)" and "cr3 (k_vmm s') = cr3 (k_vmm s)"
    and "live_vregions (k_vmm s') = live_vregions (k_vmm s) @ [(stack_region stack)\<lparr>owns_physical_pages := False\<rparr>]"
    and "unat (stack_bottom stack) = unat (next_dynamic_addr (k_vmm s))" and "unat (next_dynamic_addr (k_vmm s')) = unat (next_dynamic_addr (k_vmm s)) + 0x4000"
    and "unat (stack_top stack) = unat (stack_bottom stack) + 0x4000" and "stack_top stack \<noteq> 0" and "is_canonical (stack_top stack)"
    and "s' = s\<lparr>k_as := (k_as s)\<lparr>as_vmm := k_vmm s'\<rparr>\<rparr>" and "stacks_taken 1 s s'" and "next_thread_id s' = next_thread_id s"
proof -
  note d = vm_readyD [OF in_useD(1) [OF use]]
  obtain r v fs where a: "allocate_and_map_region STACK_SIZE_BYTES PERM_KERNEL_DATA DynamicKernel (k_vmm s) = (Inr r, v)"
    "in_use R (X \<union> set fs) ((r, fs) # hs) v" "set fs \<inter> X = {}" "stack_room n (s\<lparr>k_as := (k_as s)\<lparr>as_vmm := v\<rparr>\<rparr>)"
    "without_pages R (root_pml4_phys (k_vmm s)) (region_paths r) (vmm_mem v) (vmm_mem (k_vmm s))"
    "root_pml4_phys v = root_pml4_phys (k_vmm s)" "cr3 v = cr3 (k_vmm s)"
    "live_vregions v = live_vregions (k_vmm s) @ [r\<lparr>owns_physical_pages := False\<rparr>]"
    "unat (next_dynamic_addr v) = unat (next_dynamic_addr (k_vmm s)) + 0x4000" "frames_left (k_vmm s) \<le> frames_left v + 16"
    by (rule stack_in_use [OF use room])
  note top = new_stack_top [OF d(1-4) a(1)]
  have "kernel_stack_allocate s = (Inr \<lparr>stack_region = r\<rparr>, s\<lparr>k_as := (k_as s)\<lparr>as_vmm := v\<rparr>\<rparr>)"
    using a(1) by (simp add: kernel_stack_allocate_def lift_vmm_def)
  then show thesis
    using a(2-10) top(1-4) by (intro that [of "\<lparr>stack_region = r\<rparr>" "s\<lparr>k_as := (k_as s)\<lparr>as_vmm := v\<rparr>\<rparr>" fs])
      (simp_all add: stack_bottom_def stack_top_def stacks_taken_def)
qed

lemma release_stack_in_use:
  assumes "in_use R X (hs @ (stack_region stack, fs) # hs') (k_vmm s)"
  shows "in_use R (X - set fs) (hs @ hs') (k_vmm (release_stack stack s))"
    and "without_pages R (root_pml4_phys (k_vmm s)) (region_paths (stack_region stack)) (vmm_mem (k_vmm s)) (vmm_mem (k_vmm (release_stack stack s)))"
    and "mset (live_vregions (k_vmm s)) = add_mset ((stack_region stack)\<lparr>owns_physical_pages := False\<rparr>) (mset (live_vregions (k_vmm (release_stack stack s))))"
    and "root_pml4_phys (k_vmm (release_stack stack s)) = root_pml4_phys (k_vmm s)" and "stacks_taken 0 s (release_stack stack s)"
    and "stack_room n s \<Longrightarrow> stack_room n (release_stack stack s)" and "next_thread_id (release_stack stack s) = next_thread_id s"
proof -
  obtain v where a: "unmap_region (stack_region stack) (k_vmm s) = (Inr (), v)" "in_use R (X - set fs) (hs @ hs') v"
    "without_pages R (root_pml4_phys (k_vmm s)) (region_paths (stack_region stack)) (vmm_mem (k_vmm s)) (vmm_mem v)"
    "mset (live_vregions (k_vmm s)) = add_mset ((stack_region stack)\<lparr>owns_physical_pages := False\<rparr>) (mset (live_vregions v))"
    "root_pml4_phys v = root_pml4_phys (k_vmm s)" "frames_left v = frames_left (k_vmm s) + length fs" "cr3 v = cr3 (k_vmm s)"
    "next_dynamic_addr v = next_dynamic_addr (k_vmm s)"
    by (rule in_use_unmap [OF assms])
  have e: "release_stack stack s = s\<lparr>k_as := (k_as s)\<lparr>as_vmm := v\<rparr>\<rparr>" using a(1) by (simp add: release_stack_def lift_vmm_def)
  have "vmm_region_count (k_vmm s) = vmm_region_count v + 1"
    using region_count_length [OF vm_readyD(2) [OF in_useD(1) [OF assms]]] region_count_length [OF vm_readyD(2) [OF in_useD(1) [OF a(2)]]]
      arg_cong [OF a(4), of size] by simp
  then show "stack_room n s \<Longrightarrow> stack_room n (release_stack stack s)" using a(6,8) by (simp add: stack_room_def e)
  show "stacks_taken 0 s (release_stack stack s)" "next_thread_id (release_stack stack s) = next_thread_id s" using a(5-7) by (simp_all add: stacks_taken_def e)
  have "k_vmm (release_stack stack s) = v" by (simp add: e)
  then show "in_use R (X - set fs) (hs @ hs') (k_vmm (release_stack stack s))"
    "without_pages R (root_pml4_phys (k_vmm s)) (region_paths (stack_region stack)) (vmm_mem (k_vmm s)) (vmm_mem (k_vmm (release_stack stack s)))"
    "mset (live_vregions (k_vmm s)) = add_mset ((stack_region stack)\<lparr>owns_physical_pages := False\<rparr>) (mset (live_vregions (k_vmm (release_stack stack s))))"
    "root_pml4_phys (k_vmm (release_stack stack s)) = root_pml4_phys (k_vmm s)"
    using a(2-5) by simp_all
qed

subsection \<open>The test passes\<close>

lemma context_spec:
  assumes "\<not> (sp_a < stack_bottom stack_a \<or> stack_top stack_a < sp_a)" and "\<not> (sp_b < stack_bottom stack_b \<or> stack_top stack_b < sp_b)"
  shows "pair_spec (test_context_a_fn sp_a) (test_context_b_fn sp_b) (context_main stack_a stack_b) m
    = Inr (MainT, m\<lparr>test_stage := 2, ctx_a_sp_seen := sp_a, ctx_b_sp_seen := sp_b\<rparr>)"
  using assms by (simp add: pair_spec_def co_simps test_context_a_fn_def test_context_b_fn_def context_main_def)

text \<open>The stack pointer inside a stack of 16 KiB.\<close>

lemma sp_inside:
  assumes "unat (stack_top stack) = unat (stack_bottom stack) + 0x4000" and "unat depth \<le> 0x4000"
  shows "\<not> (stack_top stack - depth < stack_bottom stack \<or> stack_top stack < stack_top stack - depth)"
proof -
  have "depth \<le> stack_top stack" using assms by (simp add: word_le_nat_alt)
  then have "unat (stack_top stack - depth) = unat (stack_top stack) - unat depth" by (simp add: unat_sub)
  then show ?thesis using assms unfolding word_less_nat_alt by linarith
qed

lemma create_context_ok:
  assumes "entry_ok entry" and "stack_top stack \<noteq> 0" and "is_canonical (stack_top stack)"
  obtains ctx k' where "create_context_raw entry stack k = (Inr ctx, k')" and "ctx_state ctx = Initialized" and "k_as k' = k_as k"
    and "next_thread_id k' = next_thread_id k" and "stacks_taken 0 k k'"
  using assms by (auto simp: create_context_raw_def entry_ok_def Let_def stacks_taken_def)

lemma switch_test_passes:
  assumes e: "entry_ok (entry 0)" "entry_ok (entry 1)" and depth: "unat (depth 0) \<le> 0x4000" "unat (depth 1) \<le> 0x4000"
    and a: "unat (stack_top stack_a) = unat (stack_bottom stack_a) + 0x4000" "stack_top stack_a \<noteq> 0" "is_canonical (stack_top stack_a)"
    and b: "unat (stack_top stack_b) = unat (stack_bottom stack_b) + 0x4000" "stack_top stack_b \<noteq> 0" "is_canonical (stack_top stack_b)"
  obtains s' where "switch_test sites entry depth stack_a stack_b s = Inr s'" and "k_as (ct_kernel s') = k_as (ct_kernel s)" and "test_stage (ct_marks s') = 2"
    and "next_thread_id (ct_kernel s') = next_thread_id (ct_kernel s)" and "stacks_taken 0 (ct_kernel s) (ct_kernel s')"
proof -
  obtain x k1 where x: "create_context_raw (entry 0) stack_a (ct_kernel s) = (Inr x, k1)" "ctx_state x = Initialized" "k_as k1 = k_as (ct_kernel s)"
    "next_thread_id k1 = next_thread_id (ct_kernel s)" "stacks_taken 0 (ct_kernel s) k1"
    by (rule create_context_ok [OF e(1) a(2,3)])
  obtain y k2 where y: "create_context_raw (entry 1) stack_b k1 = (Inr y, k2)" "ctx_state y = Initialized" "k_as k2 = k_as k1"
    "next_thread_id k2 = next_thread_id k1" "stacks_taken 0 k1 k2"
    by (rule create_context_ok [OF e(2) b(2,3)])
  let ?s = "s\<lparr>ct_kernel := k2, ct_context := (ct_context s)(FirstT := x, SecondT := y)\<rparr>"
  have "ct_kernel ?s = k2 \<and> contexts_ready MainT ?s"
    using x(2) y(2) by (auto simp: contexts_ready_def intro: tid.exhaust)
  from context_switch.run_spec [where sites = sites, OF context_spec [OF sp_inside [OF a(1) depth(1)] sp_inside [OF b(1) depth(2)], unfolded pair_spec_def] this refl]
  obtain s' where "run_co (switch_test_context sites)
       (\<lambda>t. context_code (pending (test_context_a_fn (stack_top stack_a - depth 0)) (test_context_b_fn (stack_top stack_b - depth 1)) t))
       (context_code (context_main stack_a stack_b)) ?s = Inr s'" "ct_kernel s' = k2" "test_stage (ct_marks s') = 2"
    by auto
  then show thesis using x(1,3,4) y(1,3,4) stacks_taken_trans [OF x(5) y(5)] by (intro that [of s']) (simp_all add: switch_test_def)
qed

lemma refuse_entries:
  "refuse_entry 0 stack msg k = Inr k" "refuse_entry 0xDEAD000000000000 stack msg k = Inr k"
proof -
  have "\<not> is_canonical 0xDEAD000000000000" by (simp add: is_canonical_def Let_def signed_drop_bit_word_numeral)
  then show "refuse_entry 0 stack msg k = Inr k" "refuse_entry 0xDEAD000000000000 stack msg k = Inr k"
    by (simp_all add: refuse_entry_def create_context_raw_def)
qed

lemma context_tests_run:
  assumes vm: "vm_ready R X (k_vmm (ct_kernel s))" and room: "stack_room (n + 3) (ct_kernel s)"
    and e: "\<And>i. entry_ok (entry i)" and depth: "\<And>i. unat (depth i) \<le> 0x4000" and regs: "out1 \<notin> {R12, R13}" "out2 \<notin> {R12, R13}" "out1 \<noteq> out2"
  obtains s' where "context_self_tests sites entry depth out1 out2 c s = Inr s'" and "test_stage (ct_marks s') = 2"
    and "vm_ready R X (k_vmm (ct_kernel s'))" and "same_translations R (k_vmm (ct_kernel s)) (k_vmm (ct_kernel s'))"
    and "mset (live_vregions (k_vmm (ct_kernel s'))) = mset (live_vregions (k_vmm (ct_kernel s)))"
    and "stack_room n (ct_kernel s')" and "stacks_taken 3 (ct_kernel s) (ct_kernel s')" and "next_thread_id (ct_kernel s') = next_thread_id (ct_kernel s)"
proof -
  let ?k = "ct_kernel s"
  have root: "root_pml4_phys (k_vmm ?k) \<in> R" using vm_readyD(4) [OF vm] .
  have room3: "stack_room (Suc (n + 2)) ?k" using room by (simp add: numeral_eq_Suc)
  obtain d k1 f0 where d: "kernel_stack_allocate ?k = (Inr d, k1)" "in_use R (X \<union> set f0) [(stack_region d, f0)] (k_vmm k1)" "set f0 \<inter> X = {}"
    "stack_room (n + 2) k1" "without_pages R (root_pml4_phys (k_vmm ?k)) (region_paths (stack_region d)) (vmm_mem (k_vmm k1)) (vmm_mem (k_vmm ?k))"
    "root_pml4_phys (k_vmm k1) = root_pml4_phys (k_vmm ?k)"
    "live_vregions (k_vmm k1) = live_vregions (k_vmm ?k) @ [(stack_region d)\<lparr>owns_physical_pages := False\<rparr>]"
    "stacks_taken 1 ?k k1" "next_thread_id k1 = next_thread_id ?k"
    by (rule kernel_stack_in_use [of R X "[]" ?k, OF _ room3]) (use vm in simp_all)
  have room2: "stack_room (Suc (n + 1)) k1" using d(4) by (simp add: numeral_2_eq_2)
  obtain a k2 f1 where a: "kernel_stack_allocate k1 = (Inr a, k2)"
    "in_use R ((X \<union> set f0) \<union> set f1) [(stack_region a, f1), (stack_region d, f0)] (k_vmm k2)" "set f1 \<inter> (X \<union> set f0) = {}"
    "stack_room (n + 1) k2" "without_pages R (root_pml4_phys (k_vmm k1)) (region_paths (stack_region a)) (vmm_mem (k_vmm k2)) (vmm_mem (k_vmm k1))"
    "root_pml4_phys (k_vmm k2) = root_pml4_phys (k_vmm k1)"
    "live_vregions (k_vmm k2) = live_vregions (k_vmm k1) @ [(stack_region a)\<lparr>owns_physical_pages := False\<rparr>]"
    "unat (stack_bottom a) = unat (next_dynamic_addr (k_vmm k1))" "unat (next_dynamic_addr (k_vmm k2)) = unat (next_dynamic_addr (k_vmm k1)) + 0x4000"
    "unat (stack_top a) = unat (stack_bottom a) + 0x4000" "stack_top a \<noteq> 0" "is_canonical (stack_top a)"
    "stacks_taken 1 k1 k2" "next_thread_id k2 = next_thread_id k1"
    by (rule kernel_stack_in_use [OF d(2) room2])
  have room1: "stack_room (Suc n) k2" using a(4) by simp
  obtain b k3 f2 where b: "kernel_stack_allocate k2 = (Inr b, k3)"
    "in_use R (((X \<union> set f0) \<union> set f1) \<union> set f2) [(stack_region b, f2), (stack_region a, f1), (stack_region d, f0)] (k_vmm k3)"
    "set f2 \<inter> ((X \<union> set f0) \<union> set f1) = {}"
    "without_pages R (root_pml4_phys (k_vmm k2)) (region_paths (stack_region b)) (vmm_mem (k_vmm k3)) (vmm_mem (k_vmm k2))"
    "root_pml4_phys (k_vmm k3) = root_pml4_phys (k_vmm k2)"
    "live_vregions (k_vmm k3) = live_vregions (k_vmm k2) @ [(stack_region b)\<lparr>owns_physical_pages := False\<rparr>]"
    "unat (stack_bottom b) = unat (next_dynamic_addr (k_vmm k2))"
    "unat (stack_top b) = unat (stack_bottom b) + 0x4000" "stack_top b \<noteq> 0" "is_canonical (stack_top b)"
    "stacks_taken 1 k2 k3" "next_thread_id k3 = next_thread_id k2" "stack_room n k3"
    by (rule kernel_stack_in_use [OF a(2) room1])
  have ne: "stack_bottom a \<noteq> stack_bottom b" using a(8,9) b(7) by auto
  obtain s4 where t: "switch_test sites entry depth a b (s\<lparr>ct_kernel := k3\<rparr>) = Inr s4" "k_as (ct_kernel s4) = k_as (ct_kernel (s\<lparr>ct_kernel := k3\<rparr>))"
    "test_stage (ct_marks s4) = 2" "next_thread_id (ct_kernel s4) = next_thread_id (ct_kernel (s\<lparr>ct_kernel := k3\<rparr>))" "stacks_taken 0 (ct_kernel (s\<lparr>ct_kernel := k3\<rparr>)) (ct_kernel s4)"
    by (rule switch_test_passes [OF e e depth depth a(10-12) b(8-10)])
  let ?k5 = "release_stack d (ct_kernel s4)" and ?k6 = "release_stack a (release_stack d (ct_kernel s4))"
    and ?k7 = "release_stack b (release_stack a (release_stack d (ct_kernel s4)))"
  have "in_use R (((X \<union> set f0) \<union> set f1) \<union> set f2) ([(stack_region b, f2), (stack_region a, f1)] @ (stack_region d, f0) # []) (k_vmm (ct_kernel s4))"
    using b(2) t(2) by simp
  note r5 = release_stack_in_use [OF this]
  have "in_use R (((X \<union> set f0) \<union> set f1) \<union> set f2 - set f0) ([(stack_region b, f2)] @ (stack_region a, f1) # []) (k_vmm ?k5)" using r5(1) by simp
  note r6 = release_stack_in_use [OF this]
  have "in_use R (((X \<union> set f0) \<union> set f1) \<union> set f2 - set f0 - set f1) ([] @ (stack_region b, f2) # []) (k_vmm ?k6)" using r6(1) by simp
  note r7 = release_stack_in_use [OF this]
  have X: "((X \<union> set f0) \<union> set f1) \<union> set f2 - set f0 - set f1 - set f2 = X" using d(3) a(3) b(3) by blast
  let ?root = "root_pml4_phys (k_vmm ?k)"
  have roots: "root_pml4_phys (k_vmm (ct_kernel s4)) = ?root" "root_pml4_phys (k_vmm k2) = ?root" using t(2) d(6) a(6) b(5) by simp_all
  note w = d(5) a(5) [unfolded d(6)] b(4) [unfolded roots(2)] r5(2) [unfolded roots(1)] r6(2) [unfolded r5(4) roots(1)] r7(2) [unfolded r6(4) r5(4) roots(1)]
  have same: "same_translations R (k_vmm ?k) (k_vmm ?k7)"
    unfolding same_translations_def
  proof (intro ballI allI impI)
    fix r' and q :: "pt_index list" assume q: "r' \<in> R" "length q = 4"
    note x = w [THEN without_pagesD [OF _ q]]
    have "vmm_mem (k_vmm (ct_kernel s4)) = vmm_mem (k_vmm k3)" using t(2) by simp
    then show "xlate (vmm_mem (k_vmm ?k7)) r' q = xlate (vmm_mem (k_vmm ?k)) r' q"
      unfolding x(1) x(2) x(3) x(4) x(5) x(6) by simp
  qed
  have run: "context_self_tests sites entry depth out1 out2 c s = Inr (s4\<lparr>ct_kernel := ?k7\<rparr>)"
    using d(1) a(1) b(1) ne t(1) refuse_entries preserved_registers_ok [of out1 out2] regs by (simp add: context_self_tests_def)
  have live: "mset (live_vregions (k_vmm ?k7)) = mset (live_vregions (k_vmm ?k))"
    using r5(3) r6(3) r7(3) d(7) a(7) b(6) t(2) by simp
  have "stack_room n (ct_kernel s4)" using b(13) t(2) by (simp add: stack_room_def)
  then have room': "stack_room n ?k7" by (intro r7(6) r6(6) r5(6))
  have st: "stacks_taken (1 + (1 + (1 + (0 + (0 + (0 + 0)))))) ?k ?k7"
    by (intro stacks_taken_trans [OF d(8)] stacks_taken_trans [OF a(13)] stacks_taken_trans [OF b(11)] stacks_taken_trans [OF t(5) [simplified]]
        stacks_taken_trans [OF r5(5)] stacks_taken_trans [OF r6(5) r7(5)])
  have n: "next_thread_id ?k7 = next_thread_id ?k" using r5(7) r6(7) r7(7) t(4) b(12) a(14) d(9) by simp
  have vm7: "vm_ready R X (k_vmm ?k7)" using r7(1) X by simp
  show thesis by (rule that [OF run]) (use vm7 same live room' st n t(3) in \<open>simp_all add: numeral_3_eq_3\<close>)
qed

text \<open>The context self-test passes on every machine with room for three stacks, as long as its functions keep to their stacks: it sees the stages
  in order and the stack pointers inside the right stacks.  It leaves no trace in the memory manager: the regions, the frames in use and
  every translation are as before.\<close>
theorem context_self_tests_pass:
  assumes vm: "vm_ready R X (k_vmm (ct_kernel s))" and room: "stack_room 3 (ct_kernel s)"
    and e: "\<And>i. entry_ok (entry i)" and depth: "\<And>i. unat (depth i) \<le> 0x4000" and regs: "out1 \<notin> {R12, R13}" "out2 \<notin> {R12, R13}" "out1 \<noteq> out2"
  shows "\<exists>s'. context_self_tests sites entry depth out1 out2 c s = Inr s' \<and> test_stage (ct_marks s') = 2
    \<and> vm_ready R X (k_vmm (ct_kernel s')) \<and> same_translations R (k_vmm (ct_kernel s)) (k_vmm (ct_kernel s'))
    \<and> mset (live_vregions (k_vmm (ct_kernel s'))) = mset (live_vregions (k_vmm (ct_kernel s)))"
proof -
  have "stack_room (0 + 3) (ct_kernel s)" using room by simp
  then obtain s' where "context_self_tests sites entry depth out1 out2 c s = Inr s'" "test_stage (ct_marks s') = 2"
    "vm_ready R X (k_vmm (ct_kernel s'))" "same_translations R (k_vmm (ct_kernel s)) (k_vmm (ct_kernel s'))"
    "mset (live_vregions (k_vmm (ct_kernel s'))) = mset (live_vregions (k_vmm (ct_kernel s)))"
    by (rule context_tests_run [where n = 0, OF vm _ e depth regs])
  then show ?thesis by blast
qed

text \<open>A kernel on the sample machine after \<^verbatim>\<open>vmm::init\<close>.\<close>

definition booted_kernel :: "vmm \<Rightarrow> kernel" where
  "booted_kernel v = sample_kernel\<lparr>k_as := booted v\<rparr>"

lemma booted_kernel_simps [simp]:
  "k_vmm (booted_kernel v) = v" "k_as (booted_kernel v) = booted v" "as_vmm (booted v) = v" "next_thread_id (booted_kernel v) = 1" "next_pid (booted_kernel v) = 1"
  by (simp_all add: booted_kernel_def booted_def sample_kernel_def)

lemma sample_entries: "entry_ok (initial_context_entry (booted_kernel v))" "entry_ok 0x140002000"
  using sample_entry by (simp_all add: booted_kernel_def sample_kernel_def entry_ok_def)

lemma booted_stack_room:
  assumes "255 \<le> frames_left v" and "vmm_region_count v \<le> 131" and "next_dynamic_addr v = DYNAMIC_VIRT_START" and "n \<le> 15"
  shows "stack_room n (booted_kernel v)"
  using assms by (simp add: stack_room_def kernel_consts)

theorem context_self_tests_pass_witness:
  "\<exists>v s'. vmm_init boot_map 0xFEE00000 0xFEC00000 None boot_vm = (Inr (), v)
     \<and> context_self_tests (\<lambda>_. (0x140002010, 0x8000)) (\<lambda>_. 0x140002000) (\<lambda>_. 0x200) RAX RCX (sample_cpu (\<lambda>_. 0)) (test_contexts_init (booted_kernel v)) = Inr s'
     \<and> test_stage (ct_marks s') = 2 \<and> vm_ready {0x1000000} {} (k_vmm (ct_kernel s'))"
proof -
  obtain v where v: "vmm_init boot_map 0xFEE00000 0xFEC00000 None boot_vm = (Inr (), v)" "vm_ready {0x1000000} {} v" "255 \<le> frames_left v"
    "vmm_region_count v \<le> 131" "next_dynamic_addr v = DYNAMIC_VIRT_START" by (rule boot_ready)
  let ?s = "test_contexts_init (booted_kernel v)"
  have k: "ct_kernel ?s = booted_kernel v" by (simp add: test_contexts_init_def)
  moreover have "stack_room 3 (booted_kernel v)" using booted_stack_room [OF v(3-5)] by simp
  ultimately show ?thesis
    using context_self_tests_pass [of "{0x1000000}" "{}" ?s "\<lambda>_. 0x140002000" "\<lambda>_. 0x200" RAX RCX "\<lambda>_. (0x140002010, 0x8000)" "sample_cpu (\<lambda>_. 0)"]
      sample_entries v by auto
qed

end
