(* ===== verification/Thread_Tests.thy ===== *)
theory Thread_Tests
  imports Context_Tests
begin

text \<open>
  The boot-time test of kernel threads, \<^verbatim>\<open>run_self_tests\<close> of \<^verbatim>\<open>src/src/thread.rs\<close>: two pairs of threads are created, and the test and the threads
  hand the processor to each other with \<^verbatim>\<open>switch_or_halt\<close>.  The statics of the test are its three threads and two counters.

  Parameters: the return address and the stack pointer at each call of \<^verbatim>\<open>switch_to\<close>, which the compiler decides, and the addresses of the
  thread functions.  A halt or a panic is the left result with its message.
\<close>

record thread_marks =
  resume_marker :: u32
  switch_count :: u32

record test_threads =
  tt_kernel :: kernel
  tt_thread :: "tid \<Rightarrow> kernel_thread"
  tt_marks :: thread_marks

text \<open>The initial values of the statics.\<close>

definition static_thread :: "string \<Rightarrow> thread_state \<Rightarrow> kernel_thread" where
  "static_thread name state = \<lparr>t_id = 0, process_id = 0, t_name = name, t_state = state, t_context = empty_context,
     t_stack = \<lparr>stack_region = \<lparr>vr_start = DYNAMIC_VIRT_START, vr_size = 0x4000, vr_permissions = PERM_KERNEL_DATA,
       vr_purpose = DynamicKernel, owns_physical_pages = False\<rparr>\<rparr>,
     t_entry = 0, t_arg = 0\<rparr>"

definition test_threads_init :: "kernel \<Rightarrow> test_threads" where
  "test_threads_init k = \<lparr>tt_kernel = k,
     tt_thread = (\<lambda>t. case t of MainT \<Rightarrow> static_thread ''bootstrap'' TRunning | FirstT \<Rightarrow> static_thread ''thread_a'' TCreated
       | SecondT \<Rightarrow> static_thread ''thread_b'' TCreated),
     tt_marks = \<lparr>resume_marker = 0, switch_count = 0\<rparr>\<rparr>"

definition switch_or_halt :: "(nat \<Rightarrow> u64 \<times> u64) \<Rightarrow> nat \<Rightarrow> tid \<Rightarrow> tid \<Rightarrow> test_threads \<Rightarrow> string + test_threads" where
  "switch_or_halt sites n current target s =
     (case switch_to (fst (sites n)) (snd (sites n)) (tt_thread s current) (tt_thread s target) of
        Inl e \<Rightarrow> Inl ''switch rejected''
      | Inr (c, t) \<Rightarrow> Inr (s\<lparr>tt_thread := (tt_thread s)(current := c, target := t)\<rparr>))"

subsection \<open>The thread functions\<close>

definition test_resume_thread_a :: "thread_marks code" where
  "test_resume_thread_a =
     [assign (\<lambda>m. m\<lparr>resume_marker := 1\<rparr>),
      Switch 0 FirstT SecondT,
      check (\<lambda>m. resume_marker m = 2) ''Thread A resumed with wrong marker'',
      assign (\<lambda>m. m\<lparr>resume_marker := 3\<rparr>),
      Switch 1 FirstT MainT]"

definition test_resume_thread_b :: "thread_marks code" where
  "test_resume_thread_b =
     [check (\<lambda>m. resume_marker m = 1) ''Thread B started with wrong marker'',
      assign (\<lambda>m. m\<lparr>resume_marker := 2\<rparr>),
      Switch 2 SecondT FirstT]"

definition test_loop_thread_a :: "thread_marks code" where
  "test_loop_thread_a =
     concat (replicate 5 [assign (\<lambda>m. m\<lparr>switch_count := switch_count m + 1\<rparr>), Switch 3 FirstT SecondT]) @ [Switch 4 FirstT MainT]"

definition test_loop_thread_b :: "thread_marks code" where
  "test_loop_thread_b =
     concat (replicate 5 [assign (\<lambda>m. m\<lparr>switch_count := switch_count m + 1\<rparr>), Switch 5 SecondT FirstT])"

subsection \<open>The test\<close>

abbreviation thread_code :: "thread_marks code \<Rightarrow> test_threads code" where
  "thread_code \<equiv> place_code tt_marks (\<lambda>m s. s\<lparr>tt_marks := m\<rparr>)"

definition new_threads :: "string \<Rightarrow> u64 \<Rightarrow> u64 \<Rightarrow> string \<Rightarrow> u64 \<Rightarrow> u64 \<Rightarrow> test_threads \<Rightarrow> string + test_threads" where
  "new_threads name_a entry_a arg_a name_b entry_b arg_b s =
     (case thread_new_raw name_a entry_a arg_a (tt_kernel s) of
        (Inl _, _) \<Rightarrow> Inl ''failed thread A''
      | (Inr a, k) \<Rightarrow>
          (case thread_new_raw name_b entry_b arg_b k of
             (Inl _, _) \<Rightarrow> Inl ''failed thread B''
           | (Inr b, k) \<Rightarrow> Inr (s\<lparr>tt_kernel := k, tt_thread := (tt_thread s)(FirstT := a, SecondT := b)\<rparr>)))"

definition run_pair :: "(nat \<Rightarrow> u64 \<times> u64) \<Rightarrow> thread_marks code \<Rightarrow> thread_marks code \<Rightarrow> thread_marks code \<Rightarrow> test_threads \<Rightarrow> string + test_threads" where
  "run_pair sites a b main s = run_co (switch_or_halt sites) (\<lambda>t. thread_code (pending a b t)) (thread_code main) s"

definition resume_main :: "thread_marks code" where
  "resume_main = [assign (\<lambda>m. m\<lparr>resume_marker := 0\<rparr>), Switch 6 MainT FirstT,
     check (\<lambda>m. resume_marker m = 3) ''Resume marker progression failed!'']"

definition resume_test :: "(nat \<Rightarrow> u64 \<times> u64) \<Rightarrow> (nat \<Rightarrow> u64) \<Rightarrow> test_threads \<Rightarrow> string + test_threads" where
  "resume_test sites entry s =
     bind_sum (new_threads ''thread_a'' (entry 0) 100 ''thread_b'' (entry 1) 200 s)
       (run_pair sites test_resume_thread_a test_resume_thread_b resume_main)"

definition loop_main :: "thread_marks code" where
  "loop_main = [assign (\<lambda>m. m\<lparr>switch_count := 0\<rparr>), Switch 7 MainT FirstT,
     check (\<lambda>m. switch_count m = 10) ''Expected 10 switches'']"

definition loop_test :: "(nat \<Rightarrow> u64 \<times> u64) \<Rightarrow> (nat \<Rightarrow> u64) \<Rightarrow> test_threads \<Rightarrow> string + test_threads" where
  "loop_test sites entry s =
     bind_sum (new_threads ''thread_loop_a'' (entry 2) 1 ''thread_loop_b'' (entry 3) 2 s)
       (run_pair sites test_loop_thread_a test_loop_thread_b loop_main)"

definition thread_self_tests :: "(nat \<Rightarrow> u64 \<times> u64) \<Rightarrow> (nat \<Rightarrow> u64) \<Rightarrow> reg \<Rightarrow> reg \<Rightarrow> cpu \<Rightarrow> test_threads \<Rightarrow> string + test_threads" where
  "thread_self_tests sites entry out1 out2 c s =
     (let s = s\<lparr>tt_thread := (tt_thread s)(MainT := bootstrap_thread)\<rparr> in
      if switch_to (fst (sites 8)) (snd (sites 8)) (tt_thread s MainT) (tt_thread s MainT) \<noteq> Inl SameThread
      then Inl ''Switch to self was not rejected!''
      else bind_sum (resume_test sites entry s) (\<lambda>s.
           bind_sum (loop_test sites entry s) (\<lambda>s.
           if preserved_registers 0x123456789ABCDEF0 0x0FEDCBA987654321 out1 out2 c then Inr s
           else Inl ''Register preservation check failed!'')))"

subsection \<open>A switch is a handover\<close>

definition switchable :: "kernel_thread \<Rightarrow> bool" where
  "switchable t \<longleftrightarrow> t_state t \<noteq> TTerminated \<and> ctx_rsp (t_context t) \<noteq> 0 \<and> is_canonical (ctx_rsp (t_context t))
     \<and> ctx_rip (t_context t) \<noteq> 0 \<and> is_canonical (ctx_rip (t_context t))"

definition threads_ready :: "tid \<Rightarrow> (tid \<Rightarrow> kernel_thread) \<Rightarrow> bool" where
  "threads_ready r th \<longleftrightarrow> (\<forall>t u. t_id (th t) = t_id (th u) \<longrightarrow> t = u) \<and> (\<forall>t. t \<noteq> r \<longrightarrow> switchable (th t))
     \<and> (\<forall>t. t_state (th t) = TRunning \<longleftrightarrow> t = r)"

lemma switch_to_accepted:
  assumes "t_id c \<noteq> t_id t" and "switchable t"
  shows "switch_to ret sp c t = Inr (c\<lparr>t_state := TReady, t_context := suspend_context ret sp (t_context c)\<rparr>,
    t\<lparr>t_state := TRunning, t_context := resume_context (t_context t)\<rparr>)"
  using assms by (simp add: switch_to_def switchable_def)

lemma threads_ready_switch:
  assumes "threads_ready a th" and "a \<noteq> b" and "valid_site p"
  shows "\<exists>c t. switch_to (fst p) (snd p) (th a) (th b) = Inr (c, t) \<and> threads_ready b (th(a := c, b := t))
    \<and> (\<forall>u. t_id ((th(a := c, b := t)) u) = t_id (th u))"
proof -
  have ids: "t_id (th t) = t_id (th u) \<longleftrightarrow> t = u" for t u using assms(1) by (auto simp: threads_ready_def)
  have sw: "switchable (th t)" if "t \<noteq> a" for t using assms(1) that by (simp add: threads_ready_def)
  have st: "t_state (th t) = TRunning \<longleftrightarrow> t = a" for t using assms(1) by (simp add: threads_ready_def)
  let ?c = "(th a)\<lparr>t_state := TReady, t_context := suspend_context (fst p) (snd p) (t_context (th a))\<rparr>"
  let ?t = "(th b)\<lparr>t_state := TRunning, t_context := resume_context (t_context (th b))\<rparr>"
  have "switch_to (fst p) (snd p) (th a) (th b) = Inr (?c, ?t)" by (rule switch_to_accepted) (use ids sw assms(2) in auto)
  moreover have "switchable ?c" using assms(3) by (simp add: switchable_def valid_site_def suspend_context_def)
  then have "threads_ready b (th(a := ?c, b := ?t))"
    using ids sw st assms(2) by (auto simp: threads_ready_def)
  moreover have "\<forall>u. t_id ((th(a := ?c, b := ?t)) u) = t_id (th u)" by simp
  ultimately show ?thesis by blast
qed

definition test_ready :: "(nat \<Rightarrow> u64 \<times> u64) \<Rightarrow> kernel \<Rightarrow> (tid \<Rightarrow> u64) \<Rightarrow> tid \<Rightarrow> test_threads \<Rightarrow> bool" where
  "test_ready sites k ids r s \<longleftrightarrow> (\<forall>n. valid_site (sites n)) \<and> tt_kernel s = k \<and> threads_ready r (tt_thread s)
     \<and> (\<forall>t. t_id (tt_thread s t) = ids t)"

interpretation thread_switch: handover "switch_or_halt sites" "test_ready sites k ids" tt_marks "\<lambda>m s. s\<lparr>tt_marks := m\<rparr>"
proof
  fix a b n s assume r: "test_ready sites k ids a s" and ab: "a \<noteq> b"
  then have "threads_ready a (tt_thread s)" "valid_site (sites n)" by (simp_all add: test_ready_def)
  from threads_ready_switch [OF this(1) ab this(2)] obtain c t
    where "switch_to (fst (sites n)) (snd (sites n)) (tt_thread s a) (tt_thread s b) = Inr (c, t)"
      "threads_ready b ((tt_thread s)(a := c, b := t))" "\<forall>u. t_id (((tt_thread s)(a := c, b := t)) u) = t_id (tt_thread s u)" by blast
  then show "\<exists>s'. switch_or_halt sites n a b s = Inr s' \<and> test_ready sites k ids b s' \<and> tt_marks s' = tt_marks s"
    using r by (auto simp: switch_or_halt_def test_ready_def)
qed (simp_all add: test_ready_def)

subsection \<open>The threads of the test\<close>

lemma resume_spec: "pair_spec test_resume_thread_a test_resume_thread_b resume_main m = Inr (MainT, m\<lparr>resume_marker := 3\<rparr>)"
  by (simp add: pair_spec_def co_simps test_resume_thread_a_def test_resume_thread_b_def resume_main_def)

lemma loop_spec: "pair_spec test_loop_thread_a test_loop_thread_b loop_main m = Inr (MainT, m\<lparr>switch_count := 10\<rparr>)"
  by (simp add: pair_spec_def co_simps test_loop_thread_a_def test_loop_thread_b_def loop_main_def numeral_eq_Suc)

lemma run_pair_spec:
  assumes "pair_spec a b main (tt_marks s) = Inr (MainT, m')" and "test_ready sites k ids MainT s"
  obtains s' where "run_pair sites a b main s = Inr s'" and "test_ready sites k ids MainT s'" and "tt_marks s' = m'"
  using thread_switch.run_spec [OF assms(1) [unfolded pair_spec_def] assms(2) refl] unfolding run_pair_def by blast

subsection \<open>Creating the threads\<close>

lemma thread_new_ready:
  assumes ready: "vm_ready R X (k_vmm s)" and room: "stack_room (Suc n) s" and e: "entry_ok entry" "entry_ok (initial_context_entry s)"
  obtains t s' Y where "thread_new_raw name entry arg s = (Inr t, s')" and "vm_ready R (X \<union> Y) (k_vmm s')" and "stack_room n s'"
    and "t_id t = next_thread_id s" and "switchable t" and "t_state t = TCreated" and "process_id t = 0" and "next_thread_id s' = next_thread_id s + 1"
    and "vmm_region_count (k_vmm s') = vmm_region_count (k_vmm s) + 1" and "initial_context_entry s' = initial_context_entry s"
    and "root_pml4_phys (k_vmm s') = root_pml4_phys (k_vmm s)" and "cr3 (k_vmm s') = cr3 (k_vmm s)"
    and "next_pid s' = next_pid s" and "next_asid (k_as s') = next_asid (k_as s)" and "current_asid (k_as s') = current_asid (k_as s)"
    and "k_as s' = (k_as s)\<lparr>as_vmm := k_vmm s'\<rparr>" and "\<exists>r. allocate_and_map_region STACK_SIZE_BYTES PERM_KERNEL_DATA DynamicKernel (k_vmm s) = (Inr r, k_vmm s')"
    and "stacks_taken 1 s s'"
proof -
  note d = vm_readyD [OF ready]
  have "in_use R X [] (k_vmm s)" using ready by simp
  then obtain r v fs where a: "allocate_and_map_region STACK_SIZE_BYTES PERM_KERNEL_DATA DynamicKernel (k_vmm s) = (Inr r, v)"
    "in_use R (X \<union> set fs) [(r, fs)] v" "stack_room n (s\<lparr>k_as := (k_as s)\<lparr>as_vmm := v\<rparr>\<rparr>)"
    "root_pml4_phys v = root_pml4_phys (k_vmm s)" "cr3 v = cr3 (k_vmm s)"
    "live_vregions v = live_vregions (k_vmm s) @ [r\<lparr>owns_physical_pages := False\<rparr>]" "frames_left (k_vmm s) \<le> frames_left v + 16"
    by (rule stack_in_use [OF _ room])
  note ready1 = in_useD(1) [OF a(2)]
  have cnt: "vmm_region_count v = vmm_region_count (k_vmm s) + 1"
    using region_count_length [OF vm_readyD(2) [OF ready1]] region_count_length [OF d(2)] a(6) by simp
  have ok: "memory_ok R X s" using d by (simp add: memory_ok_def)
  obtain res s' where nw: "thread_new_raw name entry arg s = (res, s')" by (cases "thread_new_raw name entry arg s")
  note top = new_stack_top [OF d(1-4) a(1)]
  have low: "vr_end r - 80 \<noteq> 0" "is_canonical (vr_end r - 80)" using top(9) high_canonical [OF top(9)] by (auto simp: kernel_consts)
  from ok nw show thesis
  proof (cases rule: thread_new_cases)
    case (made r' v' ctx s2)
    have rv: "r' = r" "v' = v" using made(3) a(1) by simp_all
    have ctx: "ctx_rsp ctx = vr_end r - 80" "ctx_rip ctx = initial_context_entry s" "k_as s2 = (k_as s)\<lparr>as_vmm := v\<rparr>"
      "initial_context_entry s2 = initial_context_entry s" "next_pid s2 = next_pid s"
      using made(4) top(5) rv by (auto simp: create_context_raw_def Let_def stack_top_def split: if_splits)
    show thesis
      by (rule that [OF nw [unfolded made(5)], of "set fs"])
        (use made(6) ctx a(1,3-5,7) ready1 cnt low e in \<open>simp_all add: switchable_def entry_ok_def stack_room_def stacks_taken_def\<close>)
  qed (use e a(1) in \<open>auto simp: entry_ok_def\<close>)
qed

lemma new_threads_ready:
  assumes ready: "vm_ready R X (k_vmm (tt_kernel s))" and room: "stack_room (Suc (Suc n)) (tt_kernel s)"
    and e: "entry_ok entry_a" "entry_ok entry_b" "entry_ok (initial_context_entry (tt_kernel s))"
    and main: "t_id (tt_thread s MainT) = 0" "t_state (tt_thread s MainT) = TRunning"
    and ids: "next_thread_id (tt_kernel s) \<noteq> 0" "next_thread_id (tt_kernel s) + 1 \<noteq> 0"
  obtains s' Y where "new_threads name_a entry_a arg_a name_b entry_b arg_b s = Inr s'" and "threads_ready MainT (tt_thread s')"
    and "vm_ready R (X \<union> Y) (k_vmm (tt_kernel s'))" and "stack_room n (tt_kernel s')" and "tt_thread s' MainT = tt_thread s MainT"
    and "next_thread_id (tt_kernel s') = next_thread_id (tt_kernel s) + 2"
    and "vmm_region_count (k_vmm (tt_kernel s')) = vmm_region_count (k_vmm (tt_kernel s)) + 2"
    and "initial_context_entry (tt_kernel s') = initial_context_entry (tt_kernel s)" and "tt_marks s' = tt_marks s"
    and "stacks_taken 2 (tt_kernel s) (tt_kernel s')"
proof -
  obtain a k Y where a: "thread_new_raw name_a entry_a arg_a (tt_kernel s) = (Inr a, k)" "vm_ready R (X \<union> Y) (k_vmm k)" "stack_room (Suc n) k"
    "t_id a = next_thread_id (tt_kernel s)" "switchable a" "t_state a = TCreated" "next_thread_id k = next_thread_id (tt_kernel s) + 1"
    "vmm_region_count (k_vmm k) = vmm_region_count (k_vmm (tt_kernel s)) + 1" "initial_context_entry k = initial_context_entry (tt_kernel s)"
    "stacks_taken 1 (tt_kernel s) k"
    by (rule thread_new_ready [OF ready room e(1,3)])
  have e': "entry_ok (initial_context_entry k)" using e(3) a(9) by simp
  obtain b k' Z where b: "thread_new_raw name_b entry_b arg_b k = (Inr b, k')" "vm_ready R ((X \<union> Y) \<union> Z) (k_vmm k')" "stack_room n k'"
    "t_id b = next_thread_id k" "switchable b" "t_state b = TCreated" "next_thread_id k' = next_thread_id k + 1"
    "vmm_region_count (k_vmm k') = vmm_region_count (k_vmm k) + 1" "initial_context_entry k' = initial_context_entry k"
    "stacks_taken 1 k k'"
    by (rule thread_new_ready [OF a(2,3) e(2) e'])
  let ?s = "s\<lparr>tt_kernel := k', tt_thread := (tt_thread s)(FirstT := a, SecondT := b)\<rparr>"
  have i: "t_id (tt_thread ?s MainT) = 0" "t_id (tt_thread ?s FirstT) = next_thread_id (tt_kernel s)"
    "t_id (tt_thread ?s SecondT) = next_thread_id (tt_kernel s) + 1"
    using a(4,7) b(4) main by simp_all
  have "t = u" if "t_id (tt_thread ?s t) = t_id (tt_thread ?s u)" for t u
    using that i ids by (cases t; cases u) auto
  moreover have "switchable (tt_thread ?s t)" if "t \<noteq> MainT" for t using that a(5) b(5) by (cases t) auto
  moreover have "t_state (tt_thread ?s t) = TRunning \<longleftrightarrow> t = MainT" for t using a(6) b(6) main by (cases t) auto
  ultimately have "threads_ready MainT (tt_thread ?s)" unfolding threads_ready_def by blast
  moreover have "new_threads name_a entry_a arg_a name_b entry_b arg_b s = Inr ?s" using a(1) b(1) by (simp add: new_threads_def)
  moreover have "stacks_taken 2 (tt_kernel s) k'" using stacks_taken_trans [OF a(10) b(10)] by (simp add: numeral_2_eq_2)
  ultimately show thesis
    using a b by (intro that [of ?s "Y \<union> Z"]) (simp_all add: Un_assoc)
qed

subsection \<open>The test passes\<close>

lemma pair_test_passes:
  assumes sites: "\<And>n. valid_site (sites n)" and ready: "vm_ready R X (k_vmm (tt_kernel s))" and room: "stack_room (Suc (Suc n)) (tt_kernel s)"
    and e: "entry_ok entry_a" "entry_ok entry_b" "entry_ok (initial_context_entry (tt_kernel s))"
    and main: "t_id (tt_thread s MainT) = 0" "t_state (tt_thread s MainT) = TRunning"
    and ids: "next_thread_id (tt_kernel s) \<noteq> 0" "next_thread_id (tt_kernel s) + 1 \<noteq> 0"
    and spec: "pair_spec a b c (tt_marks s) = Inr (MainT, m')"
  obtains s' Y where "bind_sum (new_threads name_a entry_a arg_a name_b entry_b arg_b s) (run_pair sites a b c) = Inr s'"
    and "threads_ready MainT (tt_thread s')" and "t_id (tt_thread s' MainT) = 0"
    and "vm_ready R (X \<union> Y) (k_vmm (tt_kernel s'))" and "stack_room n (tt_kernel s')" and "tt_marks s' = m'"
    and "next_thread_id (tt_kernel s') = next_thread_id (tt_kernel s) + 2"
    and "vmm_region_count (k_vmm (tt_kernel s')) = vmm_region_count (k_vmm (tt_kernel s)) + 2"
    and "initial_context_entry (tt_kernel s') = initial_context_entry (tt_kernel s)" and "stacks_taken 2 (tt_kernel s) (tt_kernel s')"
proof -
  obtain s1 Y where n: "new_threads name_a entry_a arg_a name_b entry_b arg_b s = Inr s1" "threads_ready MainT (tt_thread s1)"
    "vm_ready R (X \<union> Y) (k_vmm (tt_kernel s1))" "stack_room n (tt_kernel s1)" "tt_thread s1 MainT = tt_thread s MainT"
    "next_thread_id (tt_kernel s1) = next_thread_id (tt_kernel s) + 2"
    "vmm_region_count (k_vmm (tt_kernel s1)) = vmm_region_count (k_vmm (tt_kernel s)) + 2"
    "initial_context_entry (tt_kernel s1) = initial_context_entry (tt_kernel s)" "tt_marks s1 = tt_marks s"
    "stacks_taken 2 (tt_kernel s) (tt_kernel s1)"
    by (rule new_threads_ready [OF ready room e main ids])
  have "pair_spec a b c (tt_marks s1) = Inr (MainT, m')" using spec n(9) by simp
  moreover have "test_ready sites (tt_kernel s1) (\<lambda>t. t_id (tt_thread s1 t)) MainT s1" using sites n(2) by (simp add: test_ready_def)
  ultimately obtain s' where r: "run_pair sites a b c s1 = Inr s'" "test_ready sites (tt_kernel s1) (\<lambda>t. t_id (tt_thread s1 t)) MainT s'" "tt_marks s' = m'"
    by (rule run_pair_spec)
  have k: "tt_kernel s' = tt_kernel s1" "threads_ready MainT (tt_thread s')" "t_id (tt_thread s' MainT) = 0"
    using r(2) n(5) main by (simp_all add: test_ready_def)
  show thesis using n r(1,3) k by (intro that [of s' Y]) simp_all
qed

lemma thread_tests_run:
  assumes "\<And>n. valid_site (sites n)" and "vm_ready R X (k_vmm (tt_kernel s))" and "stack_room (n + 4) (tt_kernel s)"
    and "\<And>i. entry_ok (entry i)" and "entry_ok (initial_context_entry (tt_kernel s))"
    and "next_thread_id (tt_kernel s) \<noteq> 0" and "unat (next_thread_id (tt_kernel s)) + 4 \<le> 2 ^ 64"
    and "out1 \<notin> {R12, R13}" and "out2 \<notin> {R12, R13}" and "out1 \<noteq> out2"
  obtains s' Y where "thread_self_tests sites entry out1 out2 c s = Inr s'" and "resume_marker (tt_marks s') = 3" and "switch_count (tt_marks s') = 10"
    and "\<forall>t. t_state (tt_thread s' t) = TRunning \<longleftrightarrow> t = MainT" and "vm_ready R (X \<union> Y) (k_vmm (tt_kernel s'))"
    and "vmm_region_count (k_vmm (tt_kernel s')) = vmm_region_count (k_vmm (tt_kernel s)) + 4"
    and "stack_room n (tt_kernel s')" and "stacks_taken 4 (tt_kernel s) (tt_kernel s')" and "next_thread_id (tt_kernel s') = next_thread_id (tt_kernel s) + 4"
proof -
  let ?s = "s\<lparr>tt_thread := (tt_thread s)(MainT := bootstrap_thread)\<rparr>" and ?i = "next_thread_id (tt_kernel s)"
  have wrap: "?i + 1 \<noteq> 0" "?i + 2 \<noteq> 0" "?i + 3 \<noteq> 0"
  proof -
    have "unat (?i + 3) = unat ?i + 3" "unat (?i + 2) = unat ?i + 2" "unat (?i + 1) = unat ?i + 1"
      using assms(7) by (simp_all add: unat_word_ariths)
    then show "?i + 1 \<noteq> 0" "?i + 2 \<noteq> 0" "?i + 3 \<noteq> 0" by (metis add_is_0 unat_0 zero_neq_numeral zero_neq_one)+
  qed
  have room: "stack_room (Suc (Suc (n + 2))) (tt_kernel ?s)" using assms(3) by (simp add: numeral_eq_Suc)
  have vm: "vm_ready R X (k_vmm (tt_kernel ?s))" and ic: "entry_ok (initial_context_entry (tt_kernel ?s))" using assms(2,5) by simp_all
  have main: "t_id (tt_thread ?s MainT) = 0" "t_state (tt_thread ?s MainT) = TRunning" by (simp_all add: bootstrap_thread_def)
  have ids: "next_thread_id (tt_kernel ?s) \<noteq> 0" "next_thread_id (tt_kernel ?s) + 1 \<noteq> 0" using assms(6) wrap by simp_all
  obtain s1 Y where 1: "bind_sum (new_threads ''thread_a'' (entry 0) 100 ''thread_b'' (entry 1) 200 ?s)
      (run_pair sites test_resume_thread_a test_resume_thread_b resume_main) = Inr s1"
    "threads_ready MainT (tt_thread s1)" "t_id (tt_thread s1 MainT) = 0" "vm_ready R (X \<union> Y) (k_vmm (tt_kernel s1))" "stack_room (n + 2) (tt_kernel s1)"
    "tt_marks s1 = (tt_marks ?s)\<lparr>resume_marker := 3\<rparr>" "next_thread_id (tt_kernel s1) = next_thread_id (tt_kernel ?s) + 2"
    "vmm_region_count (k_vmm (tt_kernel s1)) = vmm_region_count (k_vmm (tt_kernel ?s)) + 2"
    "initial_context_entry (tt_kernel s1) = initial_context_entry (tt_kernel ?s)" "stacks_taken 2 (tt_kernel ?s) (tt_kernel s1)"
    by (rule pair_test_passes [OF assms(1) vm room assms(4) assms(4) ic main ids resume_spec])
  have room1: "stack_room (Suc (Suc n)) (tt_kernel s1)" using 1(5) by (simp add: numeral_2_eq_2)
  have ic1: "entry_ok (initial_context_entry (tt_kernel s1))" using ic 1(9) by simp
  have run1: "t_state (tt_thread s1 MainT) = TRunning" using 1(2) by (simp add: threads_ready_def)
  have ids1: "next_thread_id (tt_kernel s1) \<noteq> 0" "next_thread_id (tt_kernel s1) + 1 \<noteq> 0" using 1(7) wrap by (simp_all add: add.assoc)
  obtain s2 Z where 2: "bind_sum (new_threads ''thread_loop_a'' (entry 2) 1 ''thread_loop_b'' (entry 3) 2 s1)
      (run_pair sites test_loop_thread_a test_loop_thread_b loop_main) = Inr s2"
    "threads_ready MainT (tt_thread s2)" "t_id (tt_thread s2 MainT) = 0" "vm_ready R ((X \<union> Y) \<union> Z) (k_vmm (tt_kernel s2))" "stack_room n (tt_kernel s2)"
    "tt_marks s2 = (tt_marks s1)\<lparr>switch_count := 10\<rparr>" "next_thread_id (tt_kernel s2) = next_thread_id (tt_kernel s1) + 2"
    "vmm_region_count (k_vmm (tt_kernel s2)) = vmm_region_count (k_vmm (tt_kernel s1)) + 2" "stacks_taken 2 (tt_kernel s1) (tt_kernel s2)"
    by (rule pair_test_passes [OF assms(1) 1(4) room1 assms(4) assms(4) ic1 1(3) run1 ids1 loop_spec])
  have run: "thread_self_tests sites entry out1 out2 c s = Inr s2"
    using 1(1) 2(1) preserved_registers_ok [of out1 out2] assms(8-10)
    by (simp add: thread_self_tests_def resume_test_def loop_test_def switch_to_def)
  have st: "\<forall>t. t_state (tt_thread s2 t) = TRunning \<longleftrightarrow> t = MainT" using 2(2) by (simp add: threads_ready_def)
  have "stacks_taken (2 + 2) (tt_kernel s) (tt_kernel s2)" by (rule stacks_taken_trans [OF 1(10) [simplified] 2(9)])
  then show thesis by (intro that [OF run _ _ st, of "Y \<union> Z"]) (use 1(6-8) 2(4-8) in \<open>simp_all add: Un_assoc add.assoc\<close>)
qed

text \<open>C38. The thread self-test passes on every machine with room for four stacks: the markers go 1, 2, 3 and the loop counts ten
  switches, so every resume continues where its thread had switched away; afterwards the test runs again, its thread is the only one
  in state Running, and the four stacks of the test are still allocated.\<close>
theorem thread_self_tests_pass:
  assumes "\<And>n. valid_site (sites n)" and "vm_ready R X (k_vmm (tt_kernel s))" and "stack_room 4 (tt_kernel s)"
    and "\<And>i. entry_ok (entry i)" and "entry_ok (initial_context_entry (tt_kernel s))"
    and "next_thread_id (tt_kernel s) \<noteq> 0" and "unat (next_thread_id (tt_kernel s)) + 4 \<le> 2 ^ 64"
    and "out1 \<notin> {R12, R13}" and "out2 \<notin> {R12, R13}" and "out1 \<noteq> out2"
  shows "\<exists>s' Y. thread_self_tests sites entry out1 out2 c s = Inr s' \<and> resume_marker (tt_marks s') = 3 \<and> switch_count (tt_marks s') = 10
    \<and> (\<forall>t. t_state (tt_thread s' t) = TRunning \<longleftrightarrow> t = MainT) \<and> vm_ready R (X \<union> Y) (k_vmm (tt_kernel s'))
    \<and> vmm_region_count (k_vmm (tt_kernel s')) = vmm_region_count (k_vmm (tt_kernel s)) + 4"
proof -
  have "stack_room (0 + 4) (tt_kernel s)" using assms(3) by simp
  then obtain s' Y where "thread_self_tests sites entry out1 out2 c s = Inr s'" "resume_marker (tt_marks s') = 3" "switch_count (tt_marks s') = 10"
    "\<forall>t. t_state (tt_thread s' t) = TRunning \<longleftrightarrow> t = MainT" "vm_ready R (X \<union> Y) (k_vmm (tt_kernel s'))"
    "vmm_region_count (k_vmm (tt_kernel s')) = vmm_region_count (k_vmm (tt_kernel s)) + 4"
    by (rule thread_tests_run [where n = 0, OF assms(1,2) _ assms(4-10)])
  then show ?thesis by blast
qed

theorem thread_self_tests_pass_witness:
  "\<exists>v s'. vmm_init boot_map 0xFEE00000 0xFEC00000 None boot_vm = (Inr (), v)
     \<and> thread_self_tests (\<lambda>_. (0x140002010, 0x8000)) (\<lambda>_. 0x140002000) RAX RCX (sample_cpu (\<lambda>_. 0)) (test_threads_init (booted_kernel v)) = Inr s'
     \<and> switch_count (tt_marks s') = 10"
proof -
  obtain v where v: "vmm_init boot_map 0xFEE00000 0xFEC00000 None boot_vm = (Inr (), v)" "vm_ready {0x1000000} {} v" "255 \<le> frames_left v"
    "vmm_region_count v \<le> 131" "next_dynamic_addr v = DYNAMIC_VIRT_START" by (rule boot_ready)
  let ?s = "test_threads_init (booted_kernel v)"
  have "valid_site (0x140002010, 0x8000)"
    by (simp add: valid_site_def is_canonical_def Let_def signed_drop_bit_word_numeral)
  moreover have "tt_kernel ?s = booted_kernel v" by (simp add: test_threads_init_def)
  moreover have "stack_room 4 (booted_kernel v)" using booted_stack_room [OF v(3-5)] by simp
  ultimately show ?thesis
    using thread_self_tests_pass [of "\<lambda>_. (0x140002010, 0x8000)" "{0x1000000}" "{}" ?s "\<lambda>_. 0x140002000" RAX RCX "sample_cpu (\<lambda>_. 0)"] sample_entries v
    by auto
qed

end
