(* ===== verification/Address_Space_Use.thy ===== *)
theory Address_Space_Use
  imports Isolation Vmm_Use Memory_Start
begin

text \<open>
  Several address spaces in use beside the kernel's own root: what creating, activating and destroying a space and mapping a kernel
  region keep of the kernel and of the other spaces.
\<close>

definition spaces_in_use :: "u64 set \<Rightarrow> u64 set \<Rightarrow> address_space list \<Rightarrow> as_state \<Rightarrow> bool" where
  "spaces_in_use R X as s \<longleftrightarrow> vm_ready R X (as_vmm s) \<and> kernel_ok R (as_vmm s) \<and> distinct (map root_page as)
     \<and> (\<forall>a \<in> set as. space_ok R (as_vmm s) a)"

lemma spaces_in_useD:
  assumes "spaces_in_use R X as s"
  shows "vm_ready R X (as_vmm s)" and "kernel_ok R (as_vmm s)" and "distinct (map root_page as)" and "a \<in> set as \<Longrightarrow> space_ok R (as_vmm s) a"
  using assms by (simp_all add: spaces_in_use_def)

lemma vm_ready_roots:
  assumes ready: "vm_ready R X v" and ok: "vm_ok R' X v'" and root: "root_pml4_phys v \<in> R'"
    and rest: "v' = v\<lparr>vmm_mem := vmm_mem v', vmm_pmm := vmm_pmm v', cr3 := cr3 v'\<rparr>"
    and same: "\<And>q. length q = 4 \<Longrightarrow> xlate (vmm_mem v') (root_pml4_phys v) q = xlate (vmm_mem v) (root_pml4_phys v) q"
    and tab: "\<And>q. length q \<le> 3 \<Longrightarrow> walk (vmm_mem v') (root_pml4_phys v) q = walk (vmm_mem v) (root_pml4_phys v) q"
  shows "vm_ready R' X v'"
proof -
  note d = vm_readyD [OF ready]
  have f: "root_pml4_phys v' = root_pml4_phys v" "next_dynamic_addr v' = next_dynamic_addr v" "is_bootstrapping v' = is_bootstrapping v"
    "vmm_regions v' = vmm_regions v" "vmm_region_count v' = vmm_region_count v"
    by (subst rest, simp)+
  have l: "length (va_path va) = 4" for va by (simp add: va_path_def)
  have "regions_inv v'" "live_vregions v' = live_vregions v" "cursor_ok v'"
    using regions_cong [of v' v] cursor_cong [of v' v] f d(2,3) by simp_all
  moreover have "walk (vmm_mem v') (root_pml4_phys v) [i] \<noteq> None" if "shared_slot i" for i using d(8) [OF that] tab [of "[i]"] by simp
  ultimately show ?thesis using ok root d f same [OF l] by (auto simp: vm_ready_def simp del: walk.simps)
qed

text \<open>A kernel that is ready for regions is ready for address spaces.\<close>

lemma ready_kernel_ok:
  assumes "vm_ready R X v" and "root_pml4_phys v \<noteq> 0"
  shows "kernel_ok R v"
proof -
  note d = vm_readyD [OF assms(1)]
  have "is_present (vmm_mem v (root_pml4_phys v) i)" if "shared_slot i" for i
    using d(8) [OF that] by (auto simp: pte_table_def split: if_splits)
  then show ?thesis using d(4,5) assms(2) by (simp add: kernel_ok_def)
qed

text \<open>A space is intact when its tables are read as before.\<close>

lemma space_ok_same:
  assumes "space_ok R v b" and "root_page b \<in> R'" and "root_pml4_phys v' = root_pml4_phys v"
    and "managed_addrs (vmm_pmm v') = managed_addrs (vmm_pmm v)" and "vmm_mem v' (root_page b) = vmm_mem v (root_page b)"
    and "\<And>q. length q \<le> 4 \<Longrightarrow> walk (vmm_mem v') (root_page b) q = walk (vmm_mem v) (root_page b) q"
  shows "space_ok R' v' b"
proof -
  have "walk (vmm_mem v') (root_page b) (i # p) = walk (vmm_mem v) (root_page b) (i # p)" if "length p \<le> 2" for i p
    by (rule assms(6)) (use that in simp)
  then have "private_tables (vmm_mem v') (root_page b) = private_tables (vmm_mem v) (root_page b)"
    unfolding private_tables_def by (intro Collect_cong ex_cong1 conj_cong refl) simp
  then show ?thesis using assms(1-5) by (simp add: space_ok_def plain_slots_def)
qed

text \<open>Creating a space.\<close>

lemma as_new_in_use:
  assumes use: "spaces_in_use R X as s" and room: "0 < frames_left (as_vmm s)"
  obtains a s' where "as_new s = (Inr a, s')" and "spaces_in_use (insert (root_page a) R) X (a # as) s'"
    and "frames_left (as_vmm s') = frames_left (as_vmm s) - 1" and "as_id a = next_asid s" and "next_asid s' = next_asid s + 1"
    and "current_asid s' = current_asid s" and "root_page a \<notin> R"
    and "as_vmm s' = (as_vmm s)\<lparr>vmm_mem := vmm_mem (as_vmm s'), vmm_pmm := vmm_pmm (as_vmm s')\<rparr>"
    and "root_page a \<in> free_addrs (vmm_pmm (as_vmm s))" and "free_addrs (vmm_pmm (as_vmm s')) = free_addrs (vmm_pmm (as_vmm s)) - {root_page a}"
    and "private_tables (vmm_mem (as_vmm s')) (root_page a) = {}"
    and "same_translations R (as_vmm s) (as_vmm s')"
    and "\<forall>q. length q = 4 \<longrightarrow> xlate (vmm_mem (as_vmm s')) (root_page a) q =
      (if shared_slot (hd q) then xlate (vmm_mem (as_vmm s)) (root_pml4_phys (as_vmm s)) q else None)"
proof -
  note u = spaces_in_useD [OF use]
  have ok: "vm_ok R X (as_vmm s)" using vm_readyD(1) [OF u(1)] .
  have "free_addrs (vmm_pmm (as_vmm s)) \<noteq> {}" using room by auto
  then obtain a s' where n: "as_new s = (Inr a, s')" using new_space_possible [OF ok] by blast
  note k = as_new_Inr [OF ok u(2) n]
  have rest: "as_vmm s' = (as_vmm s)\<lparr>vmm_mem := vmm_mem (as_vmm s'), vmm_pmm := vmm_pmm (as_vmm s')\<rparr>"
    using n by (auto simp: as_new_def Let_def split: prod.splits option.splits)
  then have rest': "as_vmm s' = (as_vmm s)\<lparr>vmm_mem := vmm_mem (as_vmm s'), vmm_pmm := vmm_pmm (as_vmm s'), cr3 := cr3 (as_vmm s')\<rparr>"
    using k(10) by simp
  have kr: "root_pml4_phys (as_vmm s) \<in> R" using u(2) by (simp add: kernel_ok_def)
  have ready: "vm_ready (insert (root_page a) R) X (as_vmm s')"
    by (rule vm_ready_roots [OF u(1) k(1) _ rest' k(11)]) (use kr k(14) in simp_all)
  have root: "root_pml4_phys (as_vmm s') = root_pml4_phys (as_vmm s)" by (subst rest) simp
  have old: "root_page b \<in> R" "root_page b \<noteq> root_page a" if "b \<in> set as" for b using u(4) [OF that] k(6) by (auto simp: space_ok_def)
  have sp: "space_ok (insert (root_page a) R) (as_vmm s') b" if "b \<in> set as" for b
    by (rule space_ok_same [OF u(4) [OF that] _ root k(15) k(16) k(14)]) (use old [OF that] in simp_all)
  have "root_page a \<notin> set (map root_page as)" using old(2) by (metis imageE set_map)
  then have "spaces_in_use (insert (root_page a) R) X (a # as) s'"
    using ready k(2,3) sp u(3) by (auto simp: spaces_in_use_def)
  moreover have "frames_left (as_vmm s') = frames_left (as_vmm s) - 1" using k(4,5) by (simp add: card_Diff_singleton)
  moreover have "same_translations R (as_vmm s) (as_vmm s')" using k(11) by (simp add: same_translations_def)
  ultimately show thesis using that [OF n] k(4-9,12,13) rest by blast
qed

text \<open>Destroying one of them.\<close>

lemma as_destroy_in_use:
  assumes use: "spaces_in_use R X (as @ a # as') s"
  obtains a' s' where "as_destroy a s = (a', s')" and "spaces_in_use (R - {root_page a}) X (as @ as') s'"
    and "free_addrs (vmm_pmm (as_vmm s')) = free_addrs (vmm_pmm (as_vmm s)) \<union> held_frames (as_vmm s) a" and "next_asid s' = next_asid s"
    and "frames_left (as_vmm s) \<le> frames_left (as_vmm s')"
    and "as_vmm s' = (as_vmm s)\<lparr>vmm_mem := vmm_mem (as_vmm s'), vmm_pmm := vmm_pmm (as_vmm s'), cr3 := cr3 (as_vmm s')\<rparr>"
    and "same_translations (R - {root_page a}) (as_vmm s) (as_vmm s')"
    and "cr3 (as_vmm s') = (if cr3 (as_vmm s) AND NOT 0xFFF = root_page a then root_pml4_phys (as_vmm s) else cr3 (as_vmm s))"
proof -
  note u = spaces_in_useD [OF use]
  have ok: "vm_ok R X (as_vmm s)" using vm_readyD(1) [OF u(1)] .
  have sp: "space_ok R (as_vmm s) a" using u(4) [of a] by simp
  have nb: "\<not> is_bootstrapping (as_vmm s)" and kr: "root_pml4_phys (as_vmm s) \<noteq> 0" "root_pml4_phys (as_vmm s) \<in> R"
    using u(2) by (simp_all add: kernel_ok_def)
  obtain a' s' where ds: "as_destroy a s = (a', s')" by fastforce
  note d = destroy_space [OF ok sp nb kr(1) ds]
  have ka: "root_page a \<noteq> root_pml4_phys (as_vmm s)" using sp by (simp add: space_ok_def)
  then have kR: "root_pml4_phys (as_vmm s) \<in> R - {root_page a}" using kr by auto
  have root: "root_pml4_phys (as_vmm s') = root_pml4_phys (as_vmm s)" "is_bootstrapping (as_vmm s') = is_bootstrapping (as_vmm s)"
    by (subst d(6), simp)+
  have ready: "vm_ready (R - {root_page a}) X (as_vmm s')"
    by (rule vm_ready_roots [OF u(1) d(2) kR d(6)]) (use d(4,9) [OF kR] in simp_all)
  have ke: "kernel_ok (R - {root_page a}) (as_vmm s')"
    using u(2) kR ka d(8) [of "root_pml4_phys (as_vmm s)"] root by (simp add: kernel_ok_def)
  have "space_ok (R - {root_page a}) (as_vmm s') b" if b: "b \<in> set (as @ as')" for b
  proof -
    have sb: "space_ok R (as_vmm s) b" using u(4) b by auto
    have "root_page b \<in> root_page ` set as \<or> root_page b \<in> root_page ` set as'" using b by auto
    moreover have "root_page a \<notin> root_page ` set as" "root_page a \<notin> root_page ` set as'" using u(3) by auto
    ultimately have ne: "root_page b \<noteq> root_page a" by metis
    then have rb: "root_page b \<in> R - {root_page a}" using sb by (simp add: space_ok_def)
    show ?thesis by (rule space_ok_same [OF sb rb root(1) d(7) d(8) [OF ne] d(9) [OF rb]])
  qed
  then have "spaces_in_use (R - {root_page a}) X (as @ as') s'" using ready ke u(3) by (simp add: spaces_in_use_def)
  moreover have "frames_left (as_vmm s) \<le> frames_left (as_vmm s')" unfolding d(3)
    by (rule card_mono) (use d(3) [symmetric] in \<open>auto simp: free_addrs_def\<close>)
  moreover have "same_translations (R - {root_page a}) (as_vmm s) (as_vmm s')" using d(4) by (simp add: same_translations_def)
  ultimately show thesis using that [OF ds] d(3,5,6,10) by blast
qed

text \<open>Activating any root.\<close>

lemma as_activate_in_use:
  assumes "spaces_in_use R X as s"
  shows "spaces_in_use R X as (as_activate a s)" and "next_asid (as_activate a s) = next_asid s"
    and "as_vmm (as_activate a s) = (as_vmm s)\<lparr>cr3 := cr3 (as_vmm (as_activate a s))\<rparr>"
    and "root_page a \<noteq> 0 \<Longrightarrow> cr3 (as_vmm (as_activate a s)) = root_page a"
proof -
  have v: "as_vmm (as_activate a s) = (as_vmm s)\<lparr>cr3 := cr3 (as_vmm (as_activate a s))\<rparr>" by (simp add: as_activate_def Let_def)
  have f: "vmm_mem (as_vmm (as_activate a s)) = vmm_mem (as_vmm s)" "vmm_pmm (as_vmm (as_activate a s)) = vmm_pmm (as_vmm s)"
    "root_pml4_phys (as_vmm (as_activate a s)) = root_pml4_phys (as_vmm s)" "is_bootstrapping (as_vmm (as_activate a s)) = is_bootstrapping (as_vmm s)"
    by (subst v, simp)+
  note u = spaces_in_useD [OF assms]
  have ok: "vm_ok R X (as_vmm (as_activate a s))"
    using vm_ok_cong(1) [of "as_vmm (as_activate a s)" "as_vmm s"] vm_readyD(1) [OF u(1)] by (simp add: f as_activate_def Let_def)
  have "vm_ready R X (as_vmm (as_activate a s))"
    by (rule vm_ready_roots [OF u(1) ok vm_readyD(4) [OF u(1)]]) (use f v in simp_all)
  then show "spaces_in_use R X as (as_activate a s)"
    using u(2-4) f by (auto simp: spaces_in_use_def kernel_ok_def space_ok_def)
  show "next_asid (as_activate a s) = next_asid s" "root_page a \<noteq> 0 \<Longrightarrow> cr3 (as_vmm (as_activate a s)) = root_page a"
    by (simp_all add: as_activate_def Let_def)
  show "as_vmm (as_activate a s) = (as_vmm s)\<lparr>cr3 := cr3 (as_vmm (as_activate a s))\<rparr>" by (rule v)
qed

text \<open>Mapping a kernel region.\<close>

lemma map_pages_space:
  assumes "vm_ok R X s" and "space_ok R s b" and "\<not> is_bootstrapping s" and "root \<in> R" and "is_present flags"
    and "map_pages root base flags i ps s = (True, s')"
  shows "space_ok R s' b"
  using assms(1-3,6)
proof (induction ps arbitrary: i s)
  case (Cons p ps)
  obtain s1 where mp: "map_page root (region_page base i) p flags s = (Inr (), s1)"
    and rest: "map_pages root base flags (Suc i) ps s1 = (True, s')"
    using Cons.prems(4) by (auto split: prod.splits sum.splits)
  note k = space_map_page [OF Cons.prems(1-3) assms(4) mp assms(5)]
  have "\<not> is_bootstrapping s1" using same_restD(2) [OF map_page_rest [OF Cons.prems(1) assms(4) mp assms(5)]] Cons.prems(3) by simp
  from Cons.IH [OF k(2,1) this rest] show ?case .
qed simp

lemma alloc_map_space:
  assumes ready: "vm_ready R X s" and sp: "space_ok R s b" and am: "allocate_and_map_region n perms purpose s = (Inr r, s1)"
  shows "space_ok R s1 b"
proof -
  note d = vm_readyD [OF ready]
  from am obtain r0 s0 where rs: "reserve_virtual_region n perms purpose s = (Inr r0, s0)"
    by (auto simp: allocate_and_map_region_def and_then_Inr)
  note k = reserve_step [OF d(1-3) rs]
  from rs am obtain fs p where
    al: "alloc_loop allocate_physical_page free_physical_page (unat (n div PAGE_SIZE)) [] (vmm_pmm s0) = (Some fs, p)"
    and mp: "map_pages (root_pml4_phys s0) (vr_start r0) (to_page_flags perms) 0 fs (s0\<lparr>vmm_pmm := p\<rparr>) = (True, s1)"
    by (cases rule: alloc_map_cases) auto
  note t = vm_ok_take_frames [OF k(1) al]
  have nb: "\<not> is_bootstrapping (s0\<lparr>vmm_pmm := p\<rparr>)" and root: "root_pml4_phys s0 \<in> R" using reserve_same_memory(5) [OF rs] d(4,5) k(10) by simp_all
  have "space_ok R (s0\<lparr>vmm_pmm := p\<rparr>) b" using sp k(8-10) t(6) by (simp add: space_ok_def)
  from map_pages_space [OF t(1) this nb root _ mp] show ?thesis by simp
qed

lemma alloc_map_in_use:
  assumes use: "spaces_in_use R X as s" and ne: "as \<noteq> []" and am: "allocate_and_map_region n perms purpose (as_vmm s) = (Inr r, v)"
    and ready: "vm_ready R Y v" and root: "root_pml4_phys v = root_pml4_phys (as_vmm s)"
  shows "spaces_in_use R Y as (s\<lparr>as_vmm := v\<rparr>)" and "frames_left (as_vmm s) \<le> frames_left v + 4 * unat (n div PAGE_SIZE)"
proof -
  note u = spaces_in_useD [OF use] and d = vm_readyD [OF spaces_in_useD(1) [OF use]]
  have sp: "space_ok R v a" if "a \<in> set as" for a by (rule alloc_map_space [OF u(1) u(4) [OF that] am])
  obtain a where a: "a \<in> set as" using ne by (cases as) auto
  have "kernel_ok R v"
    by (rule kernel_ok_shared [OF vm_readyD(1) [OF ready] sp [OF a] vm_readyD(4) [OF ready] _ vm_readyD(5) [OF ready]])
      (use u(2) root in \<open>simp add: kernel_ok_def\<close>)
  then show "spaces_in_use R Y as (s\<lparr>as_vmm := v\<rparr>)" using ready sp u(3) by (simp add: spaces_in_use_def)
  show "frames_left (as_vmm s) \<le> frames_left v + 4 * unat (n div PAGE_SIZE)"
    by (rule alloc_map_frames_left [OF d(1-5) am])
qed

text \<open>What the kernel maps is mapped in every space: code and stacks stay where they are when CR3 changes.\<close>

lemma space_sees_kernel:
  assumes "spaces_in_use R X as s" and "a \<in> set as" and "\<not> is_private_addr va"
  shows "mmu_translate (vmm_mem (as_vmm s)) (root_page a) va = mmu_translate (vmm_mem (as_vmm s)) (root_pml4_phys (as_vmm s)) va"
proof -
  note u = spaces_in_useD [OF assms(1)]
  have "vm_ok R X (as_vmm s)" by (rule vm_readyD(1) [OF u(1)])
  then have fo: "forest (vmm_mem (as_vmm s)) R (avail (as_vmm s) \<union> X)" by (simp add: vm_ok_def)
  have "root_page a \<in> R" "root_pml4_phys (as_vmm s) \<in> R" using u(2) u(4) [OF assms(2)] by (simp_all add: kernel_ok_def space_ok_def)
  moreover have "shared_slot (pml4_index va)" using assms(3) unfolding private_slot_iff by simp
  ultimately have "vmm_mem (as_vmm s) (root_page a) (pml4_index va) = vmm_mem (as_vmm s) (root_pml4_phys (as_vmm s)) (pml4_index va)"
    by (rule forest_shared [OF fo])
  then show ?thesis by (simp add: mmu_translate_def va_path_def)
qed

subsection \<open>Steps that leave the tables alone\<close>

text \<open>The roots and the tables below them are the same; leaf entries and data may differ.\<close>

definition same_tables :: "u64 set \<Rightarrow> vmm \<Rightarrow> vmm \<Rightarrow> bool" where
  "same_tables R v v' \<longleftrightarrow> root_pml4_phys v' = root_pml4_phys v \<and> managed_addrs (vmm_pmm v') = managed_addrs (vmm_pmm v)
     \<and> (\<forall>r\<in>R. vmm_mem v' r = vmm_mem v r) \<and> (\<forall>r\<in>R. \<forall>q. length q \<le> 3 \<longrightarrow> walk (vmm_mem v') r q = walk (vmm_mem v) r q)"

lemma same_tables_refl: "same_tables R v v"
  by (simp add: same_tables_def)

lemma same_tables_trans: "same_tables R v v' \<Longrightarrow> same_tables R v' v'' \<Longrightarrow> same_tables R v v''"
  by (simp add: same_tables_def)

lemma same_tables_mem:
  "vmm_mem v' = vmm_mem v \<Longrightarrow> root_pml4_phys v' = root_pml4_phys v \<Longrightarrow> managed_addrs (vmm_pmm v') = managed_addrs (vmm_pmm v) \<Longrightarrow> same_tables R v v'"
  by (simp add: same_tables_def)

lemma space_ok_tables:
  assumes "space_ok R v b" and "same_tables R v v'"
  shows "space_ok R v' b"
proof -
  have b: "root_page b \<in> R" using assms(1) by (simp add: space_ok_def)
  have t: "root_pml4_phys v' = root_pml4_phys v" "managed_addrs (vmm_pmm v') = managed_addrs (vmm_pmm v)" "vmm_mem v' (root_page b) = vmm_mem v (root_page b)"
    and w: "\<And>q. length q \<le> 3 \<Longrightarrow> walk (vmm_mem v') (root_page b) q = walk (vmm_mem v) (root_page b) q"
    using assms(2) b by (auto simp: same_tables_def)
  have "walk (vmm_mem v') (root_page b) (i # p) = walk (vmm_mem v) (root_page b) (i # p)" if "length p \<le> 2" for i p
    by (rule w) (use that in simp)
  then have "private_tables (vmm_mem v') (root_page b) = private_tables (vmm_mem v) (root_page b)"
    unfolding private_tables_def by (intro Collect_cong ex_cong1 conj_cong refl) simp
  then show ?thesis using assms(1) t by (simp add: space_ok_def plain_slots_def)
qed

lemma held_frames_tables:
  assumes "same_tables R v v'" and "root_page a \<in> R"
  shows "held_frames v' a = held_frames v a"
proof -
  have "walk (vmm_mem v') (root_page a) (i # p) = walk (vmm_mem v) (root_page a) (i # p)" if "length p \<le> 2" for i p
    using assms that by (simp add: same_tables_def del: walk.simps)
  then have "private_tables (vmm_mem v') (root_page a) = private_tables (vmm_mem v) (root_page a)"
    unfolding private_tables_def by (intro Collect_cong ex_cong1 conj_cong refl) simp
  then show ?thesis by (simp add: held_frames_def)
qed

lemma spaces_same_tables:
  assumes use: "spaces_in_use R X as s" and ready: "vm_ready R Y (as_vmm s')" and same: "same_tables R (as_vmm s) (as_vmm s')"
  shows "spaces_in_use R Y as s'"
proof -
  note u = spaces_in_useD [OF use]
  have "kernel_ok R (as_vmm s')" using u(2) same vm_readyD(5) [OF ready] by (auto simp: kernel_ok_def same_tables_def)
  then show ?thesis using ready u(3) space_ok_tables [OF u(4) same] by (simp add: spaces_in_use_def)
qed

lemma same_tables_data:
  assumes "vm_ok R X v" and "\<And>t. t \<notin> X \<Longrightarrow> m t = vmm_mem v t"
  shows "same_tables R v (v\<lparr>vmm_mem := m\<rparr>)"
proof -
  have fo: "forest (vmm_mem v) R (avail v \<union> X)" using assms(1) by (simp add: vm_ok_def)
  have eq: "\<And>t. t \<notin> avail v \<union> X \<Longrightarrow> m t = vmm_mem v t" using assms(2) by simp
  have "m r = vmm_mem v r" if "r \<in> R" for r using forest_avoid [OF fo that, of "[]" r] eq by simp
  then show ?thesis using walk_unreached [OF fo eq] by (simp add: same_tables_def)
qed

lemma same_tables_unmap_page:
  assumes ok: "vm_ok R X v" and r: "r \<in> R" and nl: "no_large_page (vmm_mem v) r va" and um: "unmap_page r va v = (Inr f, v')"
  shows "same_tables R v v'"
proof -
  have ca: "is_canonical va" "va_is_aligned va" using um by (auto simp: unmap_page_def split: if_splits)
  from ca nl obtain pt where w: "walk (vmm_mem v) r [pml4_index va, pdpt_index va, pd_index va] = Some pt"
    and v': "v' = v\<lparr>vmm_mem := write_entry (vmm_mem v) pt (pt_index_of va) 0\<rparr>"
    using um by (cases rule: unmap_page_walk) auto
  have fo: "forest (vmm_mem v) R (avail v \<union> X)" using ok by (simp add: vm_ok_def)
  have "pt \<noteq> r'" if r': "r' \<in> R" for r'
    using forest_inj [OF fo r r', of "[pml4_index va, pdpt_index va, pd_index va]" "[]" pt] w by auto
  then have "write_entry (vmm_mem v) pt (pt_index_of va) 0 r' = vmm_mem v r'" if "r' \<in> R" for r' using that by (auto simp: write_entry_def)
  then show ?thesis using walk_leaf_write [OF fo r w] by (simp add: same_tables_def v')
qed

subsection \<open>Pages of a space\<close>

lemma private_subtree:
  assumes "is_private_addr va" and "q = va_path va"
  shows "same_subtree r r' q \<longleftrightarrow> r = r'"
  using assms unfolding private_slot_iff by (auto simp: same_subtree_def va_path_def)

lemma private_below_cursor:
  assumes "is_private_addr va" and "DYNAMIC_VIRT_START \<le> va'"
  shows "va_path va' \<noteq> va_path va"
proof
  assume "va_path va' = va_path va"
  then have "256 \<le> unat (pml4_index va)" using dynamic_range_high [OF assms(2)] by (simp add: va_path_def)
  then show False using assms(1) by (simp add: is_private_addr_def Let_def KERNEL_PML4_START_def)
qed

lemma space_map_in_use:
  assumes use: "spaces_in_use R X as s" and a: "a \<in> set as" and priv: "is_private_addr va" and c: "map_checks va f" and fl: "is_present flags"
    and room: "3 \<le> frames_left (as_vmm s)" and un: "xlate (vmm_mem (as_vmm s)) (root_page a) (va_path va) = None"
  obtains s' where "as_map_page a va f flags s = (Inr (), s')" and "spaces_in_use R X as s'"
    and "\<forall>r\<in>R. \<forall>q. length q = 4 \<longrightarrow> xlate (vmm_mem (as_vmm s')) r q =
      (if q = va_path va \<and> r = root_page a then Some (pte_set f flags, []) else xlate (vmm_mem (as_vmm s)) r q)"
    and "frames_left (as_vmm s) \<le> frames_left (as_vmm s') + 3" and "s' = s\<lparr>as_vmm := as_vmm s'\<rparr>"
    and "as_vmm s' = (as_vmm s)\<lparr>vmm_mem := vmm_mem (as_vmm s'), vmm_pmm := vmm_pmm (as_vmm s'), bootstrap_index := bootstrap_index (as_vmm s')\<rparr>"
    and "free_addrs (vmm_pmm (as_vmm s')) \<union> held_frames (as_vmm s') a = free_addrs (vmm_pmm (as_vmm s)) \<union> held_frames (as_vmm s) a"
    and "managed_addrs (vmm_pmm (as_vmm s')) = managed_addrs (vmm_pmm (as_vmm s))"
proof -
  let ?v = "as_vmm s"
  note u = spaces_in_useD [OF use] and d = vm_readyD [OF spaces_in_useD(1) [OF use]]
  have r: "root_page a \<in> R" and ne: "root_page a \<noteq> root_pml4_phys ?v" using u(4) [OF a] by (simp_all add: space_ok_def)
  obtain v' where mp: "map_page (root_page a) va f flags ?v = (Inr (), v')" using map_page_possible [OF d(1) r c d(5) room un] by blast
  note k = map_page_Inr [OF d(1) r mp fl]
  have x: "xlate (vmm_mem v') r' q = (if q = va_path va \<and> r' = root_page a then Some (pte_set f flags, []) else xlate (vmm_mem ?v) r' q)"
    if "r' \<in> R" "length q = 4" for r' q
    using k(7) [OF that] private_subtree [OF priv] by auto
  have rest: "v' = ?v\<lparr>vmm_mem := vmm_mem v', vmm_pmm := vmm_pmm v', bootstrap_index := bootstrap_index v'\<rparr>" using k(3) by (simp add: same_rest_def)
  have f: "root_pml4_phys v' = root_pml4_phys ?v" "next_dynamic_addr v' = next_dynamic_addr ?v" "is_bootstrapping v' = is_bootstrapping ?v"
    "vmm_regions v' = vmm_regions ?v" "vmm_region_count v' = vmm_region_count ?v"
    by (subst rest, simp)+
  have l: "length (va_path va') = 4" for va' by (simp add: va_path_def)
  have reg: "regions_inv v'" "live_vregions v' = live_vregions ?v" "cursor_ok v'"
    using regions_cong [of v' ?v] cursor_cong [of v' ?v] f d(2,3) by simp_all
  have ready: "vm_ready R X v'"
    using k(2) reg f d x [OF d(4) l] ne keeps_slots [OF u(1) map_page_keeps [OF d(1) r mp]] by (auto simp: vm_ready_def simp del: walk.simps)
  have sp: "space_ok R v' b" if "b \<in> set as" for b by (rule space_map_page(1) [OF d(1) u(4) [OF that] d(5) r mp fl])
  have "kernel_ok R v'"
    by (rule kernel_ok_shared [OF k(2) sp [OF a]]) (use u(2) f in \<open>auto simp: kernel_ok_def\<close>)
  then have "spaces_in_use R X as (s\<lparr>as_vmm := v'\<rparr>)" using ready sp u(3) by (simp add: spaces_in_use_def)
  moreover have "as_map_page a va f flags s = (Inr (), s\<lparr>as_vmm := v'\<rparr>)" using priv mp by (simp add: as_map_page_def)
  moreover have "frames_left ?v \<le> frames_left v' + 3" by (rule map_page_leaves_free [OF d(1) r mp fl d(5)])
  moreover have "managed_addrs (vmm_pmm v') = managed_addrs (vmm_pmm ?v)" using k(3) by (simp add: same_rest_def)
  moreover have "free_addrs (vmm_pmm v') \<union> held_frames v' a = free_addrs (vmm_pmm ?v) \<union> held_frames ?v a"
    by (rule map_page_balance [OF d(1) u(4) [OF a] d(5) mp priv fl])
  ultimately show thesis using x rest by (intro that [of "s\<lparr>as_vmm := v'\<rparr>"]) simp_all
qed

lemma space_unmap_in_use:
  assumes use: "spaces_in_use R X as s" and a: "a \<in> set as" and priv: "is_private_addr va"
    and at: "page_mapped (root_page a) va f flags (vmm_mem (as_vmm s))" and fl: "flags_clean flags" and fr: "frame_addr f"
  obtains s' where "as_unmap_page a va s = (Inr f, s')" and "spaces_in_use R X as s'"
    and "\<forall>r\<in>R. \<forall>q. length q = 4 \<longrightarrow> xlate (vmm_mem (as_vmm s')) r q =
      (if q = va_path va \<and> r = root_page a then None else xlate (vmm_mem (as_vmm s)) r q)"
    and "s' = s\<lparr>as_vmm := as_vmm s'\<rparr>" and "as_vmm s' = (as_vmm s)\<lparr>vmm_mem := vmm_mem (as_vmm s')\<rparr>"
    and "same_tables R (as_vmm s) (as_vmm s')"
proof -
  let ?v = "as_vmm s"
  note u = spaces_in_useD [OF use] and d = vm_readyD [OF spaces_in_useD(1) [OF use]]
  have r: "root_page a \<in> R" and ne: "root_page a \<noteq> root_pml4_phys ?v" using u(4) [OF a] by (simp_all add: space_ok_def)
  have g: "is_canonical va" "va_is_aligned va" "xlate (vmm_mem ?v) (root_page a) (va_path va) = Some (pte_set f flags, [])"
    using at by (simp_all add: page_mapped_def)
  obtain v' where um: "unmap_page (root_page a) va ?v = (Inr f, v')"
    using unmap_page_mapped [OF g] fl fr by (auto simp: pte_phys_addr_set frame_addr_def)
  have nl: "no_large_page (vmm_mem ?v) (root_page a) va" using g(3) by (simp add: no_large_page_def)
  note k = unmap_page_Inr [OF d(1) r nl um]
  have x: "xlate (vmm_mem v') r' q = (if q = va_path va \<and> r' = root_page a then None else xlate (vmm_mem ?v) r' q)"
    if "r' \<in> R" "length q = 4" for r' q
    using k(6) [OF that] private_subtree [OF priv] by auto
  have f: "root_pml4_phys v' = root_pml4_phys ?v" "next_dynamic_addr v' = next_dynamic_addr ?v" "is_bootstrapping v' = is_bootstrapping ?v"
    "vmm_regions v' = vmm_regions ?v" "vmm_region_count v' = vmm_region_count ?v"
    by (subst k(4), simp)+
  have l: "length (va_path va') = 4" for va' by (simp add: va_path_def)
  have reg: "regions_inv v'" "live_vregions v' = live_vregions ?v" "cursor_ok v'"
    using regions_cong [of v' ?v] cursor_cong [of v' ?v] f d(2,3) by simp_all
  have "vm_ready R X v'"
    using k(3) reg f d x [OF d(4) l] ne keeps_slots [OF u(1) unmap_page_keeps [OF d(1) r nl um]] by (auto simp: vm_ready_def simp del: walk.simps)
  note st = same_tables_unmap_page [OF d(1) r nl um]
  have "spaces_in_use R X as (s\<lparr>as_vmm := v'\<rparr>)"
    by (rule spaces_same_tables [OF use]) (use st \<open>vm_ready R X v'\<close> in simp_all)
  moreover have "as_unmap_page a va s = (Inr f, s\<lparr>as_vmm := v'\<rparr>)" using priv um by (simp add: as_unmap_page_def)
  ultimately show thesis using x k(4) st by (intro that [of "s\<lparr>as_vmm := v'\<rparr>"]) simp_all
qed

end
