(* ===== verification/Heap_Space.thy ===== *)
theory Heap_Space
  imports Heap_Run Vmm_Use
begin

text \<open>
  When the kernel heap cannot refuse a request: a bound on fragmentation (between two blocks in use there is at most one free
  block, so the free space is in at most one piece more than there are blocks), and an expansion that the memory manager can
  carry out.
\<close>

subsection \<open>A bound on fragmentation\<close>

definition used_space :: "(nat \<times> nat) set \<Rightarrow> nat" where
  "used_space L = (\<Sum>(p, m) \<in> L. m + HEADER_SIZE)"

lemma free_pieces_head:
  "no_adjacent_free bs \<Longrightarrow> length (filter bk_free bs)
     \<le> length (filter (\<lambda>b. \<not> bk_free b) bs) + (if bs \<noteq> [] \<and> bk_free (hd bs) then 1 else 0)"
proof (induction bs)
  case (Cons b bs)
  then show ?case by (cases bs) auto
qed simp

lemma free_pieces: "no_adjacent_free bs \<Longrightarrow> length (filter bk_free bs) \<le> length (filter (\<lambda>b. \<not> bk_free b) bs) + 1"
  using free_pieces_head [of bs] by (simp split: if_splits)

lemma unfit_space:
  assumes "list_alloc n bs = None"
  shows "sum_list (map (\<lambda>b. HEADER_SIZE + bk_size b) bs)
    \<le> length (filter bk_free bs) * (HEADER_SIZE + n) + sum_list (map (\<lambda>b. HEADER_SIZE + bk_size b) (filter (\<lambda>b. \<not> bk_free b) bs))"
  using assms
proof (induction bs)
  case (Cons b bs)
  have "list_alloc n bs = None" "\<not> fits n b" using Cons.prems by (auto simp: list_alloc_None split: if_splits)
  then show ?case using Cons.IH by (auto simp: fits_def)
qed simp

lemma live_facts:
  assumes "heap_inv s bs"
  shows "card (heap_live s) = length (filter (\<lambda>b. \<not> bk_free b) bs)" and "finite (heap_live s)"
    and "used_space (heap_live s) = sum_list (map (\<lambda>b. HEADER_SIZE + bk_size b) (filter (\<lambda>b. \<not> bk_free b) bs))"
proof -
  let ?us = "filter (\<lambda>b. \<not> bk_free b) bs" and ?f = "\<lambda>b. (payload_ptr (bk_addr b), bk_size b)"
  have l: "heap_live s = ?f ` set ?us" using heap_live_inv [OF assms] by (auto simp: list_live_def)
  have "tiles (hp_start s) bs (hp_current_end s)" using assms by (simp add: heap_inv_alt blocks_ok_def)
  from tiles_distinct [OF this] have d: "distinct (map bk_addr ?us)" by (simp add: distinct_map_filter)
  then have dus: "distinct ?us" by (simp add: distinct_map)
  have inj: "inj_on ?f (set ?us)" using d by (auto simp: distinct_map inj_on_def)
  show "finite (heap_live s)" by (simp add: l)
  show "card (heap_live s) = length ?us" unfolding l card_image [OF inj] by (rule distinct_card [OF dus])
  show "used_space (heap_live s) = sum_list (map (\<lambda>b. HEADER_SIZE + bk_size b) ?us)"
    unfolding used_space_def l sum.reindex [OF inj] using sum_list_distinct_conv_sum_set [OF dus, of "\<lambda>b. HEADER_SIZE + bk_size b"]
    by (simp add: comp_def add.commute)
qed

lemma fits_by_space:
  assumes inv: "heap_inv s bs"
    and room: "(card (heap_live s) + 1) * (HEADER_SIZE + n) + used_space (heap_live s) < hp_current_end s - hp_start s"
  shows "list_alloc n bs \<noteq> None"
proof
  assume "list_alloc n bs = None"
  note u = unfit_space [OF this] and l = live_facts [OF inv]
  have ok: "tiles (hp_start s) bs (hp_current_end s)" "no_adjacent_free bs" using inv by (simp_all add: heap_inv_alt blocks_ok_def)
  have "length (filter bk_free bs) * (HEADER_SIZE + n) \<le> (card (heap_live s) + 1) * (HEADER_SIZE + n)"
    unfolding l(1) by (rule mult_right_mono [OF free_pieces [OF ok(2)]]) simp
  with u l(3) tiles_total [OF ok(1)] room show False by linarith
qed

lemma carve_live_size:
  assumes "list_alloc n bs = Some (p, bs')" and "heap_inv s bs" and "16 \<le> n" and "n mod 16 = 0"
  obtains m where "n \<le> m" and "m < n + (HEADER_SIZE + MIN_BLOCK_PAYLOAD)" and "(p, m) \<notin> list_live bs" and "list_live bs' = insert (p, m) (list_live bs)"
proof -
  from assms(1) obtain xs b ys where b: "bs = xs @ b # ys" "fits n b" "p = payload_ptr (bk_addr b)" "bs' = xs @ carve n b @ ys"
    by (rule list_alloc_SomeE)
  let ?m = "if HEADER_SIZE + MIN_BLOCK_PAYLOAD \<le> bk_size b - n then n else bk_size b"
  have "tiles (hp_start s) (xs @ b # ys) (hp_current_end s)" using assms(2) b(1) by (simp add: heap_inv_alt blocks_ok_def)
  from tiles_other_addr [OF this] have "(p, m) \<notin> list_live xs \<union> list_live ys" for m
    using b(3) by (fastforce simp: list_live_def)
  moreover have "list_live (carve n b) = {(p, ?m)}" using b(3) by (simp add: carve_def)
  moreover have "list_live bs = list_live xs \<union> list_live ys" using b(1,2) by (simp add: fits_def)
  ultimately show thesis using b(2,4) by (intro that [of ?m]) (auto simp: fits_def)
qed

lemma alloc_by_space:
  assumes ok: "heap_ok s" and n: "0 < n"
    and room: "(card (heap_live s) + 1) * (HEADER_SIZE + round16 n) + used_space (heap_live s) < hp_current_end s - hp_start s"
  obtains p m s' where "heap_allocate n al s = Some (p, s')" and "p \<noteq> 0" and "n \<le> m" and "m < round16 n + 48"
    and "(p, m) \<notin> heap_live s" and "heap_live s' = insert (p, m) (heap_live s)" and "heap_ok s'"
    and "hp_bytes s' = hp_bytes s" and "hp_start s' = hp_start s" and "hp_current_end s' = hp_current_end s" and "hp_vmm s' = hp_vmm s"
proof -
  have inv: "heap_inv s (heap_blocks s)" using ok by (simp add: heap_ok_def)
  have f: "list_alloc (round16 n) (heap_blocks s) \<noteq> None" by (rule fits_by_space [OF inv]) (use room in simp)
  have r: "16 \<le> round16 n" "round16 n mod 16 = 0" "n \<le> round16 n" using round16_facts [of n] n by simp_all
  from inv n show thesis
  proof (cases rule: heap_allocate_cases [where al = al])
    case (fit p bs' s')
    obtain m where m: "round16 n \<le> m" "m < round16 n + (HEADER_SIZE + MIN_BLOCK_PAYLOAD)" "(p, m) \<notin> list_live (heap_blocks s)"
      "list_live bs' = insert (p, m) (list_live (heap_blocks s))" by (rule carve_live_size [OF fit(1) inv r(1,2)])
    have live: "heap_live s' = insert (p, m) (heap_live s)" using m(4) heap_live_inv [OF fit(3)] by (simp add: heap_live_def)
    show thesis
      using m r(3) live heap_okI [OF fit(3)] fit kernel_heap.blocks_nonnull [OF heap_okI [OF fit(3)], of p m]
      by (intro that [OF fit(2)]) (auto simp: heap_live_def kernel_consts)
  qed (use f in simp_all)
qed

subsection \<open>Room to grow\<close>

lemma advance_cursor_facts:
  "root_pml4_phys (advance_dynamic_cursor a v) = root_pml4_phys v" "cr3 (advance_dynamic_cursor a v) = cr3 v"
  "is_bootstrapping (advance_dynamic_cursor a v) = is_bootstrapping v"
  "live_vregions (advance_dynamic_cursor a v) = live_vregions v" "regions_inv (advance_dynamic_cursor a v) = regions_inv v"
  "unat (next_dynamic_addr (advance_dynamic_cursor a v)) = max (unat (next_dynamic_addr v)) (unat a)"
  using regions_cong [of "advance_dynamic_cursor a v" v]
  by (auto simp: advance_dynamic_cursor_def word_less_nat_alt)

text \<open>The heap's end is a page boundary of the dynamic range, not above the cursor, and nothing is mapped from there on.\<close>

definition heap_ready :: "u64 set \<Rightarrow> u64 set \<Rightarrow> kheap \<Rightarrow> bool" where
  "heap_ready R X s \<longleftrightarrow> heap_ok s \<and> vm_ready R X (hp_vmm s) \<and> hp_current_end s mod 4096 = 0
     \<and> unat DYNAMIC_VIRT_START \<le> hp_current_end s \<and> hp_current_end s \<le> unat (next_dynamic_addr (hp_vmm s))
     \<and> (\<forall>va. is_canonical va \<longrightarrow> hp_current_end s \<le> unat va \<longrightarrow> va < DYNAMIC_VIRT_END \<longrightarrow>
          xlate (vmm_mem (hp_vmm s)) (root_pml4_phys (hp_vmm s)) (va_path va) = None)"

lemma heap_readyD:
  assumes "heap_ready R X s"
  shows "heap_ok s" and "vm_ready R X (hp_vmm s)" and "hp_current_end s mod 4096 = 0"
    and "unat DYNAMIC_VIRT_START \<le> hp_current_end s" and "hp_current_end s \<le> unat (next_dynamic_addr (hp_vmm s))"
    and "is_canonical va \<Longrightarrow> hp_current_end s \<le> unat va \<Longrightarrow> va < DYNAMIC_VIRT_END \<Longrightarrow>
      xlate (vmm_mem (hp_vmm s)) (root_pml4_phys (hp_vmm s)) (va_path va) = None"
  using assms by (auto simp: heap_ready_def)

text \<open>The block behind the heap, seen as a block at the cursor of a state whose cursor is there.\<close>

lemma heap_end_cursor:
  assumes "heap_ready R X s" and "hp_current_end s \<le> unat DYNAMIC_VIRT_END"
  defines "v \<equiv> (hp_vmm s)\<lparr>next_dynamic_addr := of_nat (hp_current_end s)\<rparr>"
  shows "cursor_ok v" and "unat (next_dynamic_addr v) = hp_current_end s"
proof -
  have u: "unat (of_nat (hp_current_end s) :: u64) = hp_current_end s"
    using assms(2) unat_u64_less [of DYNAMIC_VIRT_END] by (simp add: unat_of_nat take_bit_nat_eq_self)
  then show "unat (next_dynamic_addr v) = hp_current_end s" by (simp add: v_def)
  show "cursor_ok v"
    using heap_readyD(3,4) [OF assms(1)] assms(2) u
    by (simp add: v_def cursor_ok_def va_is_aligned_def aligned_iff_dvd word_le_nat_alt dvd_eq_mod_eq_0)
qed

lemma expand_possible:
  assumes ready: "heap_ready R X s" and small: "growth_bytes n div PAGE_SIZE_nat \<le> 128"
    and room: "hp_current_end s + growth_bytes n \<le> unat DYNAMIC_VIRT_END" "4 * (growth_bytes n div PAGE_SIZE_nat) \<le> frames_left (hp_vmm s)"
  shows "expand_heap n s \<noteq> Some (False, s')"
proof -
  let ?v = "hp_vmm s" and ?k = "growth_bytes n div PAGE_SIZE_nat"
  note h = heap_readyD [OF ready] and d = vm_readyD [OF heap_readyD(2) [OF ready]]
  have inv: "heap_inv s (heap_blocks s)" and pi: "pmm_inv (vmm_pmm ?v)" using h(1) d(1) by (simp_all add: heap_ok_def vm_ok_def)
  have end_le: "hp_current_end s \<le> unat DYNAMIC_VIRT_END" using room(1) by simp
  let ?w = "?v\<lparr>next_dynamic_addr := of_nat (hp_current_end s)\<rparr>"
  note c = heap_end_cursor [OF ready end_le]
  have g: "growth_bytes n = ?k * 4096" by (simp add: growth_bytes_def kernel_consts)
  define z :: u64 where "z = of_nat (growth_bytes n)"
  have gl: "growth_bytes n < 2 ^ 64" using room(1) unat_u64_less [of DYNAMIC_VIRT_END] by linarith
  then have z: "unat z = growth_bytes n" by (simp add: z_def unat_of_nat take_bit_nat_eq_self)
  have "4096 dvd growth_bytes n" by (simp add: growth_bytes_def)
  then have zk: "z mod PAGE_SIZE = 0" "unat (z div PAGE_SIZE) = ?k" using z by (simp_all add: aligned_iff_dvd unat_div_distrib)
  note page = cursor_page [OF c(1) zk(1), unfolded zk(2)]
  show ?thesis
  proof (cases rule: expand_heap_split [of n s])
    case (nomem p)
    have "?k \<le> card (free_addrs (vmm_pmm ?v))" using room(2) by simp
    from pmm_frames.alloc_loop_progress [OF pi this] nomem(1) show ?thesis by auto
  next
    case (failed fs p v')
    note t = vm_ok_take_frames [OF d(1) failed(2)]
    have "frames_left ?v = card (free_addrs p) + length fs"
      using card_Diff_subset [of "set fs" "free_addrs (vmm_pmm ?v)"] card_mono [of "free_addrs (vmm_pmm ?v)" "set fs"]
        t(3,4,5) by (simp add: distinct_card free_addrs_def)
    then have fr: "3 * length fs \<le> frames_left (?v\<lparr>vmm_pmm := p\<rparr>)" using room(2) t(2) by simp
    have "\<exists>s''. map_pages (root_pml4_phys ?v) (of_nat (hp_current_end s)) (to_page_flags PERM_KERNEL_DATA) 0 fs (?v\<lparr>vmm_pmm := p\<rparr>) = (True, s'')"
    proof (rule map_pages_succeeds [OF t(1) d(4)])
      show "f mod PAGE_SIZE = 0" if "f \<in> set fs" for f
        using frame_addr_bits [OF t(7) [OF that]] by (force simp: aligned_bits)
      show "is_canonical (region_page (of_nat (hp_current_end s)) j) \<and> va_is_aligned (region_page (of_nat (hp_current_end s)) j)
        \<and> xlate (vmm_mem (?v\<lparr>vmm_pmm := p\<rparr>)) (root_pml4_phys ?v) (page_path (of_nat (hp_current_end s)) j) = None"
        if "0 \<le> j" "j < 0 + length fs" for j
      proof -
        have j: "j < ?k" using that t(2) by simp
        have fit: "unat (next_dynamic_addr ?w) + unat z \<le> unat DYNAMIC_VIRT_END" using c(2) z room(1) by simp
        note pg = page [OF fit j]
        have "xlate (vmm_mem ?v) (root_pml4_phys ?v) (page_path (of_nat (hp_current_end s)) j) = None"
          by (rule h(6)) (use pg c(2) z room(1) in \<open>simp_all add: word_less_nat_alt\<close>)
        moreover have "va_is_aligned (region_page (of_nat (hp_current_end s)) j)"
          using dynamic_page_ok(2) [of "next_dynamic_addr ?w" ?k j] c z zk(2) g room(1) unat_u64_less [of DYNAMIC_VIRT_END] j
          by (simp add: cursor_ok_def)
        ultimately show ?thesis using pg(1) by simp
      qed
    qed (use d(5) fr t(2) failed(1) in simp_all)
    with failed(3) show ?thesis by simp
  qed (use small in \<open>auto split: option.splits\<close>)
qed

text \<open>After an expansion the heap can grow again from its new end.\<close>

lemma expand_ready:
  assumes ready: "heap_ready R X s" and room: "hp_current_end s + growth_bytes n \<le> unat DYNAMIC_VIRT_END"
    and ex: "expand_heap n s = Some (True, s1)"
  obtains fs where "vm_ready R (X \<union> set fs) (hp_vmm s1)" and "set fs \<inter> X = {}"
    and "hp_current_end s1 = hp_current_end s + growth_bytes n"
    and "\<forall>va. is_canonical va \<longrightarrow> hp_current_end s1 \<le> unat va \<longrightarrow> va < DYNAMIC_VIRT_END \<longrightarrow>
      xlate (vmm_mem (hp_vmm s1)) (root_pml4_phys (hp_vmm s1)) (va_path va) = None"
    and "frames_left (hp_vmm s) \<le> frames_left (hp_vmm s1) + 4 * (growth_bytes n div PAGE_SIZE_nat)"
    and "root_pml4_phys (hp_vmm s1) = root_pml4_phys (hp_vmm s)" and "cr3 (hp_vmm s1) = cr3 (hp_vmm s)"
    and "live_vregions (hp_vmm s1) = live_vregions (hp_vmm s)"
    and "unat (next_dynamic_addr (hp_vmm s1)) = max (unat (next_dynamic_addr (hp_vmm s))) (hp_current_end s1)"
proof -
  let ?v = "hp_vmm s" and ?k = "growth_bytes n div PAGE_SIZE_nat" and ?b = "of_nat (hp_current_end s) :: u64"
  note h = heap_readyD [OF ready] and d = vm_readyD [OF heap_readyD(2) [OF ready]]
  have inv: "heap_inv s (heap_blocks s)" using h(1) by (simp add: heap_ok_def)
  from inv ex obtain v fs p where e: "hp_current_end s1 = hp_current_end s + growth_bytes n"
    "hp_vmm s1 = advance_dynamic_cursor (of_nat (hp_current_end s1)) v" "?k \<le> 128"
    "alloc_loop allocate_physical_page free_physical_page ?k [] (vmm_pmm ?v) = (Some fs, p)"
    "map_pages (root_pml4_phys ?v) ?b (to_page_flags PERM_KERNEL_DATA) 0 fs (?v\<lparr>vmm_pmm := p\<rparr>) = (True, v)"
    by (cases rule: expand_heap_cases [where n = n]) auto
  note t = vm_ok_take_frames [OF d(1) e(4)]
  have mo: "vm_ok R (X \<union> set fs) v \<and> same_rest (?v\<lparr>vmm_pmm := p\<rparr>) v
    \<and> overlay R (root_pml4_phys ?v) (leaf_map ?b (to_page_flags PERM_KERNEL_DATA) 0 fs Map.empty) (vmm_mem ?v) (vmm_mem v)
    \<and> (\<forall>j < length fs. good_page R (root_pml4_phys ?v) (vmm_mem ?v) (region_page ?b j))"
    using map_pages_overlay [OF t(1) d(4) _ _ _ _ e(5), of Map.empty "vmm_mem ?v"] overlay_refl by simp
  note sr = same_restD [OF conjunct1 [OF conjunct2 [OF mo]]]
  have wp: "without_pages R (root_pml4_phys ?v) (page_path ?b ` {0 ..< ?k}) (vmm_mem v) (vmm_mem ?v)"
    using region_held_overlay(2) [of R _ "virt_region_empty\<lparr>vr_start := ?b\<rparr>" _ fs "vmm_mem ?v" "vmm_mem v"] mo d(4) t(2) e(3) by auto
  let ?w = "?v\<lparr>next_dynamic_addr := ?b\<rparr>"
  have end_le: "hp_current_end s \<le> unat DYNAMIC_VIRT_END" using room by simp
  note c = heap_end_cursor [OF ready end_le]
  have gl: "hp_current_end s1 < 2 ^ 64" "growth_bytes n < 2 ^ 64" using room e(1) unat_u64_less [of DYNAMIC_VIRT_END] by linarith+
  then have z: "unat (of_nat (growth_bytes n) :: u64) = growth_bytes n" "unat (of_nat (hp_current_end s1) :: u64) = hp_current_end s1"
    by (simp_all add: unat_of_nat take_bit_nat_eq_self)
  have "4096 dvd growth_bytes n" by (simp add: growth_bytes_def)
  then have zk: "of_nat (growth_bytes n) mod PAGE_SIZE = (0 :: u64)" "unat (of_nat (growth_bytes n) div PAGE_SIZE :: u64) = ?k"
    using z by (simp_all add: aligned_iff_dvd unat_div_distrib)
  have fit: "unat (next_dynamic_addr ?w) + unat (of_nat (growth_bytes n) :: u64) \<le> unat DYNAMIC_VIRT_END" using c(2) z room by simp
  have unmapped: "xlate (vmm_mem v) (root_pml4_phys ?v) (va_path va) = None"
    if va: "is_canonical va" "hp_current_end s1 \<le> unat va" "xlate (vmm_mem ?v) (root_pml4_phys ?v) (va_path va) = None" for va
  proof -
    have "next_dynamic_addr ?w + of_nat (growth_bytes n) \<le> va"
      unfolding word_le_nat_alt unat_cursor [OF fit] using c(2) z va(2) e(1) by simp
    from region_path_below [OF c(1) zk(1) fit va(1) this] zk(2) have "va_path va \<notin> page_path ?b ` {0 ..< ?k}" by simp
    then show ?thesis using without_pagesD [OF wp d(4), of "va_path va"] va(3) by simp
  qed
  note adv = advance_cursor_facts [of "of_nat (hp_current_end s1)" v, folded e(2)] and same = advance_cursor_same [where a = "of_nat (hp_current_end s1)" and v = v, folded e(2)]
  have next1: "unat (next_dynamic_addr (hp_vmm s1)) = max (unat (next_dynamic_addr ?v)) (hp_current_end s1)"
    unfolding adv(6) z(2) using sr(6) by simp
  have live: "live_vregions (hp_vmm s1) = live_vregions ?v" "regions_inv (hp_vmm s1)"
    using adv(4,5) regions_cong [of v ?v] sr d(2) by simp_all
  have al: "4096 dvd hp_current_end s1" using h(3) \<open>4096 dvd growth_bytes n\<close> e(1) by (auto simp: dvd_eq_mod_eq_0)
  have cur: "cursor_ok (hp_vmm s1)"
    using d(3) next1 al room e(1) h(4)
    by (auto simp: cursor_ok_def word_le_nat_alt va_is_aligned_def aligned_iff_dvd max_def)
  have ready1: "vm_ready R (X \<union> set fs) (hp_vmm s1)"
  proof (rule ready_above [OF h(2) _ _ _ _ live(2) cur])
    show "xlate (vmm_mem (hp_vmm s1)) (root_pml4_phys ?v) (va_path va) = None"
      if "is_canonical va" "next_dynamic_addr (hp_vmm s1) \<le> va" "xlate (vmm_mem ?v) (root_pml4_phys ?v) (va_path va) = None" for va
      using unmapped [OF that(1) _ that(3)] that(2) next1 same(1) by (simp add: word_le_nat_alt)
    show "unat (vr_start q) + unat (vr_size q) \<le> unat (next_dynamic_addr (hp_vmm s1))" if "q \<in> set (live_vregions (hp_vmm s1))" for q
      using d(6) [of q] that live next1 by auto
    show "keeps_tables R ?v (hp_vmm s1)" using map_pages_keeps [OF t(1) d(4) _ e(5)] same(1) by (simp add: keeps_tables_def)
  qed (use adv same sr mo next1 in \<open>simp_all add: word_le_nat_alt\<close>)
  have "frames_left ?v = card (free_addrs p) + length fs"
    using card_Diff_subset [of "set fs" "free_addrs (vmm_pmm ?v)"] card_mono [of "free_addrs (vmm_pmm ?v)" "set fs"]
      t(3,4,5) by (simp add: distinct_card free_addrs_def)
  then have "frames_left ?v \<le> frames_left (hp_vmm s1) + 4 * ?k"
    using map_pages_frames_left [OF t(1) d(4) _ _ e(5)] d(5) t(2) same(2) by simp
  moreover have "set fs \<inter> X = {}" using t(4) d(1) by (auto simp: vm_ok_def avail_def)
  moreover have "\<forall>va. is_canonical va \<longrightarrow> hp_current_end s1 \<le> unat va \<longrightarrow> va < DYNAMIC_VIRT_END \<longrightarrow>
      xlate (vmm_mem (hp_vmm s1)) (root_pml4_phys (hp_vmm s1)) (va_path va) = None"
    using unmapped h(6) e(1) adv(1) same(1) sr(3) by auto
  ultimately show thesis using that [OF ready1 _ e(1)] live next1 adv sr by simp
qed

subsection \<open>The bound as a guarantee\<close>

text \<open>C16. The heap never refuses a request that its fragmentation bound leaves room for: with \<open>k\<close> blocks in use, \<open>k + 1\<close> pieces
  of the requested size (rounded up to 16, with a header each) and the used space together need only be smaller than the heap.  The block handed out is new,
  less than 48 bytes larger than the rounded request, and nothing else of the heap or its memory changes.\<close>
theorem heap_allocate_guaranteed:
  assumes "heap_ok s" and "0 < n"
    and "(card (heap_live s) + 1) * (HEADER_SIZE + round16 n) + used_space (heap_live s) < hp_current_end s - hp_start s"
  shows "\<exists>p m s'. heap_allocate n al s = Some (p, s') \<and> p \<noteq> 0 \<and> n \<le> m \<and> m < round16 n + 48 \<and> (p, m) \<notin> heap_live s
    \<and> heap_live s' = insert (p, m) (heap_live s) \<and> heap_ok s' \<and> hp_bytes s' = hp_bytes s \<and> hp_current_end s' = hp_current_end s
    \<and> hp_vmm s' = hp_vmm s"
proof -
  obtain p m s' where "heap_allocate n al s = Some (p, s')" "p \<noteq> 0" "n \<le> m" "m < round16 n + 48" "(p, m) \<notin> heap_live s"
    "heap_live s' = insert (p, m) (heap_live s)" "heap_ok s'" "hp_bytes s' = hp_bytes s" "hp_current_end s' = hp_current_end s" "hp_vmm s' = hp_vmm s"
    by (rule alloc_by_space [OF assms])
  then show ?thesis by blast
qed

theorem heap_allocate_guaranteed_witness:
  "\<exists>s p m s'. heap_ok s \<and> heap_allocate 100000 16 s = Some (p, s') \<and> p \<noteq> 0 \<and> 100000 \<le> m \<and> heap_live s' = {(p, m)}"
proof -
  obtain s where s: "heap_inv s [initial_block (unat DYNAMIC_VIRT_START)]" by (rule large_heap)
  then have "hp_current_end s - hp_start s = 131072"
    by (auto simp: heap_inv_alt blocks_ok_def initial_block_def kernel_consts)
  moreover have "heap_live s = {}" using heap_live_inv [OF s] by (simp add: initial_block_def)
  moreover have "used_space {} = 0" by (simp add: used_space_def)
  moreover have "round16 100000 = 100000" by (simp add: round16_def)
  ultimately show ?thesis
    using heap_allocate_guaranteed [OF heap_okI [OF s], of 100000 16] heap_okI [OF s] by (auto simp: kernel_consts)
qed

end
