(* ===== verification/Heap_Tests.thy ===== *)
theory Heap_Tests
  imports Heap_Space
begin

text \<open>
  The boot-time test of the kernel heap, \<^verbatim>\<open>test_heap_hardened\<close> (\<^verbatim>\<open>src/src/heap.rs\<close>), with the growable arrays of the standard
  library that it exercises: \<^verbatim>\<open>Box\<close>, \<^verbatim>\<open>Vec\<close> and \<^verbatim>\<open>String\<close> call the global allocator, reallocation is the default one (allocate, copy,
  release) and the capacity grows to at least twice the old one.  A failed check halts the machine: the left result with
  the message.  \<^const>\<open>None\<close> would be a walk over the block list that does not end.
\<close>

type_synonym 'a heap_step = "((string + 'a) \<times> kheap) option"

definition heap_then :: "'a heap_step \<Rightarrow> ('a \<Rightarrow> kheap \<Rightarrow> 'b heap_step) \<Rightarrow> 'b heap_step" where
  "heap_then r k = (case r of None \<Rightarrow> None | Some (Inl e, s) \<Rightarrow> Some (Inl e, s) | Some (Inr a, s) \<Rightarrow> k a s)"

lemma heap_then_simps [simp]:
  "heap_then None k = None" "heap_then (Some (Inl e, s)) k = Some (Inl e, s)" "heap_then (Some (Inr a, s)) k = k a s"
  by (simp_all add: heap_then_def)

definition heap_ensure :: "bool \<Rightarrow> string \<Rightarrow> kheap \<Rightarrow> unit heap_step" where
  "heap_ensure ok msg s = Some (if ok then Inr () else Inl msg, s)"

definition alloc_or_halt :: "nat \<Rightarrow> nat \<Rightarrow> string \<Rightarrow> kheap \<Rightarrow> nat heap_step" where
  "alloc_or_halt n al msg s =
     (case heap_allocate n al s of None \<Rightarrow> None | Some (p, s') \<Rightarrow> Some (if p = 0 then Inl msg else Inr p, s'))"

definition verify_or_halt :: "string \<Rightarrow> kheap \<Rightarrow> unit heap_step" where
  "verify_or_halt msg s =
     (case heap_verify_invariants s of None \<Rightarrow> None | Some (Inl _) \<Rightarrow> Some (Inl msg, s) | Some (Inr _) \<Rightarrow> Some (Inr (), s))"

subsection \<open>A client's memory\<close>

text \<open>Writing bytes of a payload; the headers one would read across them change in a way that depends on the bytes around, \<open>junk\<close>.\<close>

definition client_write :: "(nat \<Rightarrow> block_header) \<Rightarrow> nat \<Rightarrow> u8 list \<Rightarrow> kheap \<Rightarrow> kheap" where
  "client_write junk p bs s = s\<lparr>
     hp_bytes := (\<lambda>a. if p \<le> a \<and> a < p + length bs then bs ! (a - p) else hp_bytes s a),
     hp_hdr := (\<lambda>a. if p < a + HEADER_SIZE \<and> a < p + length bs then junk a else hp_hdr s a)\<rparr>"

definition client_read :: "nat \<Rightarrow> nat \<Rightarrow> kheap \<Rightarrow> u8 list" where
  "client_read p n s = map (hp_bytes s) [p ..< p + n]"

subsection \<open>Growable arrays\<close>

record raw_vec =
  rv_ptr :: nat
  rv_cap :: nat
  rv_len :: nat

definition vec_new :: "nat \<Rightarrow> raw_vec" where
  "vec_new al = \<lparr>rv_ptr = al, rv_cap = 0, rv_len = 0\<rparr>"

definition grow_amortized ::
    "(nat \<Rightarrow> block_header) \<Rightarrow> nat \<Rightarrow> nat \<Rightarrow> nat \<Rightarrow> nat \<Rightarrow> raw_vec \<Rightarrow> kheap \<Rightarrow> raw_vec heap_step" where
  "grow_amortized junk elem al min_cap additional v s =
     (let cap = max min_cap (max (2 * rv_cap v) (rv_len v + additional)) in
      heap_then (alloc_or_halt (elem * cap) al ''memory allocation failed'' s) (\<lambda>p s.
        Some (Inr (v\<lparr>rv_ptr := p, rv_cap := cap\<rparr>),
          if rv_cap v = 0 then s
          else heap_deallocate (rv_ptr v) (elem * rv_cap v)
                 (client_write junk p (client_read (rv_ptr v) (elem * rv_cap v) s) s))))"

definition vec_append ::
    "(nat \<Rightarrow> block_header) \<Rightarrow> nat \<Rightarrow> nat \<Rightarrow> nat \<Rightarrow> u8 list \<Rightarrow> raw_vec \<Rightarrow> kheap \<Rightarrow> raw_vec heap_step" where
  "vec_append junk elem al min_cap xs v s =
     (let k = length xs div elem in
      heap_then (if rv_cap v - rv_len v < k then grow_amortized junk elem al min_cap k v s else Some (Inr v, s)) (\<lambda>v s.
        Some (Inr (v\<lparr>rv_len := rv_len v + k\<rparr>), client_write junk (rv_ptr v + elem * rv_len v) xs s)))"

definition vec_drop :: "nat \<Rightarrow> raw_vec \<Rightarrow> kheap \<Rightarrow> kheap" where
  "vec_drop elem v s = (if rv_cap v = 0 then s else heap_deallocate (rv_ptr v) (elem * rv_cap v) s)"

fun push_all :: "(nat \<Rightarrow> block_header) \<Rightarrow> u32 list \<Rightarrow> raw_vec \<Rightarrow> kheap \<Rightarrow> raw_vec heap_step" where
  "push_all junk [] v s = Some (Inr v, s)"
| "push_all junk (x # xs) v s =
     heap_then (vec_append junk 4 4 4 (le_bytes 4 (unat x)) v s) (\<lambda>v s. push_all junk xs v s)"

definition vec_index_u32 :: "raw_vec \<Rightarrow> nat \<Rightarrow> kheap \<Rightarrow> u32" where
  "vec_index_u32 v i s = read_u32 (client_read (rv_ptr v + 4 * i) 4 s) 0"

definition string_from :: "(nat \<Rightarrow> block_header) \<Rightarrow> u8 list \<Rightarrow> kheap \<Rightarrow> raw_vec heap_step" where
  "string_from junk bs s =
     heap_then (alloc_or_halt (length bs) 1 ''memory allocation failed'' s) (\<lambda>p s.
       Some (Inr \<lparr>rv_ptr = p, rv_cap = length bs, rv_len = length bs\<rparr>, client_write junk p bs s))"

definition string_push_str :: "(nat \<Rightarrow> block_header) \<Rightarrow> u8 list \<Rightarrow> raw_vec \<Rightarrow> kheap \<Rightarrow> raw_vec heap_step" where
  "string_push_str junk bs v s = vec_append junk 1 1 8 bs v s"

subsection \<open>The test\<close>

definition ascii :: "string \<Rightarrow> u8 list" where
  "ascii cs = map of_char cs"

definition test_heap_blocks :: "(nat \<Rightarrow> block_header) \<Rightarrow> kheap \<Rightarrow> unit heap_step" where
  "test_heap_blocks junk s =
     heap_then (alloc_or_halt 64 16 ''64-byte allocation returned null!'' s) (\<lambda>p1 s.
     let s = client_write junk p1 (replicate 64 0xAA) s in
     heap_then (heap_ensure (hp_bytes s p1 = 0xAA) ''Memory write/read test failed on p1!'' s) (\<lambda>_ s.
     heap_then (alloc_or_halt 1024 16 ''1024-byte allocation returned null!'' s) (\<lambda>p2 s.
     let s = client_write junk p2 (replicate 1024 0xBB) s in
     heap_then (heap_ensure (hp_bytes s p2 = 0xBB) ''Memory write/read test failed on p2!'' s) (\<lambda>_ s.
     let s = heap_deallocate p1 64 s in
     heap_then (heap_ensure (hp_bytes s p1 = 0xDE) ''Freed block payload was not poisoned with 0xDE!'' s) (\<lambda>_ s.
     heap_then (alloc_or_halt 32 16 ''Re-allocation p3 returned null!'' s) (\<lambda>p3 s.
     let s = heap_deallocate p3 32 (heap_deallocate p2 1024 s) in
     case heap_allocate 0 8 s of
       None \<Rightarrow> None
     | Some (p_zero, s) \<Rightarrow> Some (Inr (), heap_deallocate p_zero 0 s)))))))"

definition test_heap_growth :: "(nat \<Rightarrow> block_header) \<Rightarrow> kheap \<Rightarrow> unit heap_step" where
  "test_heap_growth junk s =
     heap_then (alloc_or_halt (256 * 1024) 16 ''Large heap expansion allocation returned null!'' s) (\<lambda>p_large s.
     let s = client_write junk p_large [0x55] s in
     heap_then (heap_ensure (hp_bytes s p_large = 0x55) ''Large allocation write/read failed!'' s) (\<lambda>_ s.
     Some (Inr (), heap_deallocate p_large (256 * 1024) s)))"

definition test_heap_box :: "(nat \<Rightarrow> block_header) \<Rightarrow> kheap \<Rightarrow> unit heap_step" where
  "test_heap_box junk s =
     heap_then (alloc_or_halt 8 8 ''memory allocation failed'' s) (\<lambda>boxed s.
     let s = client_write junk boxed (le_bytes 8 0x123456789ABCDEF0) s in
     heap_then (heap_ensure (read_u64 (client_read boxed 8 s) 0 = 0x123456789ABCDEF0) ''Box<u64> value mismatch!'' s) (\<lambda>_ s.
     Some (Inr (), heap_deallocate boxed 8 s)))"

definition test_heap_vec :: "(nat \<Rightarrow> block_header) \<Rightarrow> kheap \<Rightarrow> unit heap_step" where
  "test_heap_vec junk s =
     heap_then (push_all junk (map (\<lambda>i. of_nat i * 10) [0..<100]) (vec_new 4) s) (\<lambda>v s.
     heap_then (heap_ensure (rv_len v = 100 \<and> vec_index_u32 v 50 s = 500) ''Vec<u32> push/indexing test failed!'' s) (\<lambda>_ s.
     Some (Inr (), vec_drop 4 v s)))"

definition test_heap_string :: "(nat \<Rightarrow> block_header) \<Rightarrow> kheap \<Rightarrow> unit heap_step" where
  "test_heap_string junk s =
     heap_then (string_from junk (ascii ''VenturaOS Memory Hardening'') s) (\<lambda>v s.
     heap_then (string_push_str junk (ascii '' M3.6'') v s) (\<lambda>v s.
     heap_then (heap_ensure (rv_len v = 31) ''String manipulation failed!'' s) (\<lambda>_ s.
     Some (Inr (), vec_drop 1 v s))))"

definition test_heap_hardened :: "(nat \<Rightarrow> block_header) \<Rightarrow> kheap \<Rightarrow> unit heap_step" where
  "test_heap_hardened junk s =
     heap_then (verify_or_halt ''Invariant check failed before test'' s) (\<lambda>_ s.
     let initial_alloc_bytes = allocated_bytes (hp_stats s) in
     heap_then (test_heap_blocks junk s) (\<lambda>_ s.
     heap_then (test_heap_growth junk s) (\<lambda>_ s.
     heap_then (test_heap_box junk s) (\<lambda>_ s.
     heap_then (test_heap_vec junk s) (\<lambda>_ s.
     heap_then (test_heap_string junk s) (\<lambda>_ s.
     heap_then (heap_ensure (initial_alloc_bytes = allocated_bytes (hp_stats s)) ''Memory leak in Heap self-test!'' s) (\<lambda>_ s.
     verify_or_halt ''Invariant check failed after test'' s)))))))"

subsection \<open>An empty heap is one block\<close>

definition whole_heap :: "nat \<Rightarrow> nat \<Rightarrow> block" where
  "whole_heap start stop = \<lparr>bk_addr = start, bk_free = True, bk_size = stop - start - HEADER_SIZE\<rparr>"

lemma all_free_single: "no_adjacent_free bs \<Longrightarrow> \<forall>b \<in> set bs. bk_free b \<Longrightarrow> bs \<noteq> [] \<Longrightarrow> \<exists>b. bs = [b]"
  by (cases bs rule: no_adjacent_free.cases) auto

lemma empty_heap_is_whole:
  assumes "heap_ok s" and "heap_live s = {}"
  shows "heap_inv s [whole_heap (hp_start s) (hp_current_end s)]"
proof -
  let ?bs = "heap_blocks s"
  have inv: "heap_inv s ?bs" using assms(1) by (simp add: heap_ok_def)
  then have ok: "?bs \<noteq> []" "no_adjacent_free ?bs" "tiles (hp_start s) ?bs (hp_current_end s)" by (simp_all add: heap_inv_alt blocks_ok_def)
  have "\<forall>b \<in> set ?bs. bk_free b" using assms(2) by (auto simp: heap_live_def list_live_def)
  then obtain b where b: "?bs = [b]" using all_free_single [OF ok(2) _ ok(1)] by blast
  moreover have "bk_free b" using assms(2) b by (auto simp: heap_live_def split: if_splits)
  moreover have "bk_addr b = hp_start s" "bk_size b = hp_current_end s - hp_start s - HEADER_SIZE" using ok(3) b by auto
  ultimately have "?bs = [whole_heap (hp_start s) (hp_current_end s)]" by (simp add: whole_heap_def)
  then show ?thesis using inv by simp
qed

subsection \<open>Steps of a client\<close>

lemma release_effect:
  assumes ok: "heap_ok s" and l: "(p, m) \<in> heap_live s" and n: "0 < n"
  shows "hp_bytes (heap_deallocate p n s) a = (if p \<le> a \<and> a < p + m then 0xDE else hp_bytes s a)"
    and "hp_start (heap_deallocate p n s) = hp_start s" and "hp_current_end (heap_deallocate p n s) = hp_current_end s"
proof -
  have inv: "heap_inv s (heap_blocks s)" using ok by (simp add: heap_ok_def)
  from live_block [OF inv] l obtain xs b ys where b: "heap_blocks s = xs @ b # ys" "\<not> bk_free b"
    "p = payload_ptr (bk_addr b)" "m = bk_size b" unfolding heap_live_def by metis
  note d = deallocate_refines [OF inv [unfolded b(1)] b(2), of n]
  show "hp_bytes (heap_deallocate p n s) a = (if p \<le> a \<and> a < p + m then 0xDE else hp_bytes s a)"
    "hp_start (heap_deallocate p n s) = hp_start s" "hp_current_end (heap_deallocate p n s) = hp_current_end s"
    using d(2,4,5) n b(3,4) by simp_all
qed

lemma release_vmm: "hp_vmm (heap_deallocate p n s) = hp_vmm s"
proof -
  have c: "hp_vmm (coalesce_prev h t) = hp_vmm t" "hp_vmm (coalesce_next h t) = hp_vmm t" for h t
    by (simp_all add: coalesce_prev_def coalesce_next_def Let_def)
  show ?thesis by (simp add: heap_deallocate_def Let_def c poison_def)
qed

text \<open>The heap as it was in \<open>s\<^sub>0\<close>, up to the blocks in use, which are \<open>L\<close>.\<close>

definition settled :: "kheap \<Rightarrow> (nat \<times> nat) set \<Rightarrow> kheap \<Rightarrow> bool" where
  "settled s\<^sub>0 L s \<longleftrightarrow> heap_ok s \<and> heap_live s = L \<and> hp_start s = hp_start s\<^sub>0 \<and> hp_current_end s = hp_current_end s\<^sub>0
     \<and> hp_vmm s = hp_vmm s\<^sub>0"

lemma used_space_simps [simp]:
  "used_space {} = 0" "used_space {(p, m)} = m + HEADER_SIZE"
  "(p, m) \<noteq> (q, l) \<Longrightarrow> used_space {(p, m), (q, l)} = m + HEADER_SIZE + (l + HEADER_SIZE)"
  by (simp_all add: used_space_def)

lemma alloc_settled:
  assumes "settled s\<^sub>0 L s" and "0 < n" and "(card L + 1) * (HEADER_SIZE + round16 n) + used_space L < hp_current_end s\<^sub>0 - hp_start s\<^sub>0"
  obtains p m s' where "alloc_or_halt n al msg s = Some (Inr p, s')" and "settled s\<^sub>0 (insert (p, m) L) s'" and "(p, m) \<notin> L"
    and "n \<le> m" and "m < round16 n + 48" and "hp_bytes s' = hp_bytes s"
proof -
  have d: "heap_ok s" "heap_live s = L" "hp_start s = hp_start s\<^sub>0" "hp_current_end s = hp_current_end s\<^sub>0" "hp_vmm s = hp_vmm s\<^sub>0"
    using assms(1) by (simp_all add: settled_def)
  obtain p m s' where a: "heap_allocate n al s = Some (p, s')" "p \<noteq> 0" "n \<le> m" "m < round16 n + 48" "(p, m) \<notin> heap_live s"
    "heap_live s' = insert (p, m) (heap_live s)" "heap_ok s'" "hp_bytes s' = hp_bytes s" "hp_start s' = hp_start s"
    "hp_current_end s' = hp_current_end s" "hp_vmm s' = hp_vmm s"
    by (rule alloc_by_space [OF d(1) assms(2), where al = al]) (use assms(3) d in auto)
  then show thesis using d by (intro that [of p s' m]) (simp_all add: alloc_or_halt_def settled_def)
qed

lemma write_settled:
  assumes "settled s\<^sub>0 L s" and "(p, m) \<in> L" and "off + length bs \<le> m"
  shows "settled s\<^sub>0 L (client_write junk (p + off) bs s)"
    and "\<not> (p + off \<le> a \<and> a < p + off + length bs) \<Longrightarrow> hp_bytes (client_write junk (p + off) bs s) a = hp_bytes s a"
    and "client_read (p + off) (length bs) (client_write junk (p + off) bs s) = bs"
proof -
  have ok: "heap_ok s" "(p, m) \<in> heap_live s" using assms(1,2) by (simp_all add: settled_def)
  have "heap_inv (client_write junk (p + off) bs s) (heap_blocks s)"
    unfolding client_write_def by (rule client_write_ok [OF ok assms(3)]) auto
  from heap_okI [OF this] heap_live_inv [OF this] show "settled s\<^sub>0 L (client_write junk (p + off) bs s)"
    using assms(1) by (simp add: settled_def client_write_def heap_live_def)
  show "\<not> (p + off \<le> a \<and> a < p + off + length bs) \<Longrightarrow> hp_bytes (client_write junk (p + off) bs s) a = hp_bytes s a"
    by (auto simp: client_write_def)
  show "client_read (p + off) (length bs) (client_write junk (p + off) bs s) = bs"
    by (rule nth_equalityI) (simp_all add: client_read_def client_write_def)
qed

lemma free_settled:
  assumes "settled s\<^sub>0 L s" and "(p, m) \<in> L" and "0 < n"
  shows "settled s\<^sub>0 (L - {(p, m)}) (heap_deallocate p n s)"
    and "hp_bytes (heap_deallocate p n s) a = (if p \<le> a \<and> a < p + m then 0xDE else hp_bytes s a)"
proof -
  have ok: "heap_ok s" "(p, m) \<in> heap_live s" using assms(1,2) by (simp_all add: settled_def)
  note e = release_effect [OF ok assms(3)]
  show "settled s\<^sub>0 (L - {(p, m)}) (heap_deallocate p n s)"
    using kernel_heap.dealloc_removes [OF ok assms(3)] e(2,3) assms(1) by (simp add: settled_def release_vmm)
  show "hp_bytes (heap_deallocate p n s) a = (if p \<le> a \<and> a < p + m then 0xDE else hp_bytes s a)" by (rule e(1))
qed

lemma settled_apart:
  assumes "settled s\<^sub>0 L s" and "(p, m) \<in> L" and "(q, l) \<in> L" and "(p, m) \<noteq> (q, l)"
  shows "p + m < q \<or> q + l < p"
  using kernel_heap.blocks_apart [of s p m q l] assms by (simp add: settled_def)

subsection \<open>The parts of the test pass\<close>

lemma round16_values: "round16 8 = 16" "round16 32 = 32" "round16 64 = 64" "round16 1024 = 1024" "round16 26 = 32" "round16 52 = 64"
  by (simp_all add: round16_def)

lemma pair_remove: "x \<noteq> y \<Longrightarrow> {x, y} - {y} = {x}"
  by auto

lemma test_heap_blocks_passes:
  assumes s: "settled s\<^sub>0 {} s" and room: "8192 \<le> hp_current_end s\<^sub>0 - hp_start s\<^sub>0"
  obtains s' where "test_heap_blocks junk s = Some (Inr (), s')" and "settled s\<^sub>0 {} s'"
proof -
  obtain p1 m1 s1 where a1: "alloc_or_halt 64 16 ''64-byte allocation returned null!'' s = Some (Inr p1, s1)"
    "settled s\<^sub>0 {(p1, m1)} s1" "64 \<le> m1" "m1 < 112"
    by (rule alloc_settled [OF s, of 64 16]) (use room in \<open>auto simp: round16_values kernel_consts\<close>)
  let ?s2 = "client_write junk p1 (replicate 64 0xAA) s1"
  have v1: "hp_bytes ?s2 p1 = 0xAA" by (simp add: client_write_def)
  have set2: "settled s\<^sub>0 {(p1, m1)} ?s2"
    using write_settled(1) [OF a1(2), of p1 m1 0 "replicate 64 0xAA" junk] a1(3) by simp
  obtain p2 m2 s3 where a2: "alloc_or_halt 1024 16 ''1024-byte allocation returned null!'' ?s2 = Some (Inr p2, s3)"
    "settled s\<^sub>0 {(p2, m2), (p1, m1)} s3" "(p2, m2) \<noteq> (p1, m1)" "1024 \<le> m2" "m2 < 1072"
    by (rule alloc_settled [OF set2, of 1024 16]) (use room a1(4) in \<open>auto simp: round16_values kernel_consts\<close>)
  let ?s4 = "client_write junk p2 (replicate 1024 0xBB) s3"
  have set4: "settled s\<^sub>0 {(p2, m2), (p1, m1)} ?s4"
    using write_settled(1) [OF a2(2), of p2 m2 0 "replicate 1024 0xBB" junk] a2(4) by simp
  have v2: "hp_bytes ?s4 p2 = 0xBB" by (simp add: client_write_def)
  let ?s5 = "heap_deallocate p1 64 ?s4"
  note f1 = free_settled [OF set4, of p1 m1 64]
  have set5: "settled s\<^sub>0 {(p2, m2)} ?s5" using f1(1) pair_remove [OF a2(3)] by simp
  have v3: "hp_bytes ?s5 p1 = 0xDE" using f1(2) [of p1] a1(3) by simp
  obtain p3 m3 s6 where a3: "alloc_or_halt 32 16 ''Re-allocation p3 returned null!'' ?s5 = Some (Inr p3, s6)"
    "settled s\<^sub>0 {(p3, m3), (p2, m2)} s6" "(p3, m3) \<noteq> (p2, m2)"
    by (rule alloc_settled [OF set5, of 32 16]) (use room a2(5) in \<open>auto simp: round16_values kernel_consts\<close>)
  have set7: "settled s\<^sub>0 {(p3, m3)} (heap_deallocate p2 1024 s6)"
    using free_settled(1) [OF a3(2), of p2 m2 1024] pair_remove [OF a3(3)] by simp
  have set8: "settled s\<^sub>0 {} (heap_deallocate p3 32 (heap_deallocate p2 1024 s6))"
    using free_settled(1) [OF set7, of p3 m3 32] by simp
  have z: "heap_allocate 0 8 t = Some (1, t)" "heap_deallocate q 0 t = t" for q t
    by (simp_all add: heap_allocate_def heap_deallocate_def)
  have "test_heap_blocks junk s = Some (Inr (), heap_deallocate p3 32 (heap_deallocate p2 1024 s6))"
    unfolding test_heap_blocks_def using a1(1) a2(1) a3(1) v1 v2 v3 by (simp add: Let_def heap_ensure_def z)
  then show thesis using that set8 by blast
qed

lemma test_heap_box_passes:
  assumes s: "settled s\<^sub>0 {} s" and room: "8192 \<le> hp_current_end s\<^sub>0 - hp_start s\<^sub>0"
  obtains s' where "test_heap_box junk s = Some (Inr (), s')" and "settled s\<^sub>0 {} s'"
proof -
  obtain p m s1 where a: "alloc_or_halt 8 8 ''memory allocation failed'' s = Some (Inr p, s1)" "settled s\<^sub>0 {(p, m)} s1" "8 \<le> m"
    by (rule alloc_settled [OF s, of 8 8]) (use room in \<open>auto simp: round16_values kernel_consts\<close>)
  let ?s2 = "client_write junk p (le_bytes 8 0x123456789ABCDEF0) s1"
  note w = write_settled [OF a(2), of p m 0 "le_bytes 8 0x123456789ABCDEF0"]
  have set2: "settled s\<^sub>0 {(p, m)} ?s2" using w(1) a(3) by simp
  have r: "client_read p 8 ?s2 = le_bytes 8 0x123456789ABCDEF0" using w(3) a(3) by simp
  have "read_u64 (client_read p 8 ?s2) 0 = 0x123456789ABCDEF0"
    unfolding r using read_u64_at [of 0 "le_bytes 8 0x123456789ABCDEF0" "0x123456789ABCDEF0" "[]"] by simp
  then have "test_heap_box junk s = Some (Inr (), heap_deallocate p 8 ?s2)"
    unfolding test_heap_box_def using a(1) by (simp add: Let_def heap_ensure_def)
  moreover have "settled s\<^sub>0 {} (heap_deallocate p 8 ?s2)" using free_settled(1) [OF set2, of p m 8] by simp
  ultimately show thesis using that by blast
qed

text \<open>A growable array that holds the bytes \<open>data\<close>, alone in the heap.\<close>

definition vec_state :: "kheap \<Rightarrow> nat \<Rightarrow> raw_vec \<Rightarrow> u8 list \<Rightarrow> kheap \<Rightarrow> bool" where
  "vec_state s\<^sub>0 elem v data s \<longleftrightarrow> length data = elem * rv_len v \<and> rv_len v \<le> rv_cap v
     \<and> (if rv_cap v = 0 then settled s\<^sub>0 {} s
        else \<exists>m. settled s\<^sub>0 {(rv_ptr v, m)} s \<and> elem * rv_cap v \<le> m \<and> m < round16 (elem * rv_cap v) + 48)
     \<and> client_read (rv_ptr v) (length data) s = data"

lemma vec_state_used:
  assumes "vec_state s\<^sub>0 elem v data s"
  obtains L where "settled s\<^sub>0 L s" and "card L \<le> 1" and "used_space L \<le> round16 (elem * rv_cap v) + 80"
    and "rv_cap v = 0 \<Longrightarrow> L = {}" and "rv_cap v \<noteq> 0 \<Longrightarrow> \<exists>m. L = {(rv_ptr v, m)} \<and> elem * rv_cap v \<le> m"
  using assms by (auto simp: vec_state_def kernel_consts split: if_splits)

lemma client_read_cong: "(\<And>a. p \<le> a \<Longrightarrow> a < p + n \<Longrightarrow> hp_bytes s' a = hp_bytes s a) \<Longrightarrow> client_read p n s' = client_read p n s"
  by (simp add: client_read_def)

lemma client_read_take: "k \<le> n \<Longrightarrow> take k (client_read p n s) = client_read p k s"
  by (simp add: client_read_def take_map)

lemma grow_passes:
  fixes min_cap additional :: nat and v :: raw_vec
  assumes v: "vec_state s\<^sub>0 elem v data s" and e: "0 < elem" and more: "0 < additional"
  defines "cap \<equiv> max min_cap (max (2 * rv_cap v) (rv_len v + additional))"
  assumes room: "2 * (HEADER_SIZE + round16 (elem * cap)) + round16 (elem * rv_cap v) + 80 < hp_current_end s\<^sub>0 - hp_start s\<^sub>0"
  obtains p s' where "grow_amortized junk elem al min_cap additional v s = Some (Inr (v\<lparr>rv_ptr := p, rv_cap := cap\<rparr>), s')"
    and "vec_state s\<^sub>0 elem (v\<lparr>rv_ptr := p, rv_cap := cap\<rparr>) data s'"
proof -
  obtain L where L: "settled s\<^sub>0 L s" "card L \<le> 1" "used_space L \<le> round16 (elem * rv_cap v) + 80"
    "rv_cap v = 0 \<Longrightarrow> L = {}" "rv_cap v \<noteq> 0 \<Longrightarrow> \<exists>m. L = {(rv_ptr v, m)} \<and> elem * rv_cap v \<le> m"
    using vec_state_used [OF v] by blast
  have cap: "0 < cap" "rv_len v \<le> cap" "rv_cap v \<le> cap" using more by (simp_all add: cap_def)
  have "(card L + 1) * (HEADER_SIZE + round16 (elem * cap)) \<le> 2 * (HEADER_SIZE + round16 (elem * cap))"
    using L(2) by (intro mult_right_mono) auto
  then have space: "(card L + 1) * (HEADER_SIZE + round16 (elem * cap)) + used_space L < hp_current_end s\<^sub>0 - hp_start s\<^sub>0"
    using room L(3) by linarith
  have "0 < elem * cap" using e cap(1) by simp
  then obtain p m s1 where a: "alloc_or_halt (elem * cap) al ''memory allocation failed'' s = Some (Inr p, s1)"
    "settled s\<^sub>0 (insert (p, m) L) s1" "(p, m) \<notin> L" "elem * cap \<le> m" "m < round16 (elem * cap) + 48" "hp_bytes s1 = hp_bytes s"
    by (rule alloc_settled [OF L(1) _ space])
  note grow = grow_amortized_def [of junk elem al min_cap additional v s, folded cap_def, unfolded Let_def]
  let ?v = "v\<lparr>rv_ptr := p, rv_cap := cap\<rparr>"
  have len: "length data = elem * rv_len v" "rv_len v \<le> rv_cap v" "client_read (rv_ptr v) (length data) s = data"
    using v unfolding vec_state_def by blast+
  show thesis
  proof (cases "rv_cap v = 0")
    case True
    then have "L = {}" "data = []" using L(4) len by simp_all
    then have "vec_state s\<^sub>0 elem ?v data s1" using a cap len by (auto simp: vec_state_def client_read_def)
    then show thesis using that [of p s1] a(1) True by (simp add: grow)
  next
    case False
    then obtain l where l: "L = {(rv_ptr v, l)}" "elem * rv_cap v \<le> l" using L(5) by blast
    let ?old = "client_read (rv_ptr v) (elem * rv_cap v) s1"
    let ?s2 = "client_write junk p ?old s1"
    have lo: "length ?old = elem * rv_cap v" by (simp add: client_read_def)
    have "elem * rv_cap v \<le> m" using a(4) cap(3) mult_le_mono2 [of "rv_cap v" cap elem] by linarith
    note w = write_settled [OF a(2), of p m 0 ?old, unfolded lo]
    have set2: "settled s\<^sub>0 {(p, m), (rv_ptr v, l)} ?s2" using w(1) \<open>elem * rv_cap v \<le> m\<close> l(1) by simp
    let ?s3 = "heap_deallocate (rv_ptr v) (elem * rv_cap v) ?s2"
    have pos: "0 < elem * rv_cap v" using e False by simp
    note f = free_settled [OF set2 _ pos, of "rv_ptr v" l]
    have ne: "(p, m) \<noteq> (rv_ptr v, l)" using a(3) l(1) by auto
    have set3: "settled s\<^sub>0 {(p, m)} ?s3" using f(1) pair_remove [OF ne] by simp
    have apart: "p + m < rv_ptr v \<or> rv_ptr v + l < p" using settled_apart [OF set2 _ _ ne] by simp
    have le: "length data \<le> elem * rv_cap v" using len(1,2) by simp
    have "client_read p (length data) ?s3 = client_read p (length data) ?s2"
      by (rule client_read_cong) (use f(2) apart le \<open>elem * rv_cap v \<le> m\<close> in auto)
    also have "\<dots> = take (length data) (client_read p (elem * rv_cap v) ?s2)" using client_read_take [OF le] by simp
    also have "client_read p (elem * rv_cap v) ?s2 = ?old" using w(3) \<open>elem * rv_cap v \<le> m\<close> by simp
    also have "take (length data) ?old = client_read (rv_ptr v) (length data) s1" by (rule client_read_take [OF le])
    also have "\<dots> = data" using len(3) a(6) by (simp add: client_read_def)
    finally have "client_read p (length data) ?s3 = data" .
    then have "vec_state s\<^sub>0 elem ?v data ?s3" using set3 a(4,5) cap len(1) by (auto simp: vec_state_def)
    then show thesis using that [of p ?s3] a(1) False by (simp add: grow)
  qed
qed

lemma write_at_end:
  assumes v: "vec_state s\<^sub>0 elem v data s" and e: "0 < elem" and k: "length xs = elem * k" "0 < k" "rv_len v + k \<le> rv_cap v"
  shows "vec_state s\<^sub>0 elem (v\<lparr>rv_len := rv_len v + k\<rparr>) (data @ xs) (client_write junk (rv_ptr v + elem * rv_len v) xs s)"
proof -
  obtain m where m: "settled s\<^sub>0 {(rv_ptr v, m)} s" "elem * rv_cap v \<le> m" "m < round16 (elem * rv_cap v) + 48"
    and len: "length data = elem * rv_len v" and data: "client_read (rv_ptr v) (length data) s = data"
    using v k by (auto simp: vec_state_def split: if_splits)
  have fit: "length data + length xs \<le> m"
    using len k(1) m(2) mult_le_mono2 [OF k(3), of elem] by (simp add: algebra_simps)
  let ?s = "client_write junk (rv_ptr v + length data) xs s"
  have w: "settled s\<^sub>0 {(rv_ptr v, m)} ?s" "client_read (rv_ptr v + length data) (length xs) ?s = xs"
    by (rule write_settled [OF m(1) _ fit]; simp)+
  have keep: "a < rv_ptr v + length data \<Longrightarrow> hp_bytes ?s a = hp_bytes s a" for a
    by (rule write_settled(2) [OF m(1) _ fit]) simp_all
  have "client_read (rv_ptr v) (length data) ?s = data"
    using data client_read_cong [of "rv_ptr v" "length data" ?s s] keep by simp
  moreover have "client_read (rv_ptr v) (length data + length xs) ?s
      = client_read (rv_ptr v) (length data) ?s @ client_read (rv_ptr v + length data) (length xs) ?s"
    unfolding client_read_def add.assoc [symmetric] upt_add_eq_append [OF le_add1] by simp
  ultimately have "client_read (rv_ptr v) (length (data @ xs)) ?s = data @ xs" using w(2) by simp
  then show ?thesis using w(1) m k len by (auto simp: vec_state_def algebra_simps)
qed

lemma vec_append_passes:
  fixes min_cap :: nat and v :: raw_vec
  assumes v: "vec_state s\<^sub>0 elem v data s" and e: "0 < elem" and k: "length xs = elem * k" "0 < k"
    and room: "2 * (HEADER_SIZE + round16 (elem * max min_cap (max (2 * rv_cap v) (rv_len v + k)))) + round16 (elem * rv_cap v) + 80
      < hp_current_end s\<^sub>0 - hp_start s\<^sub>0"
  obtains v' s' where "vec_append junk elem al min_cap xs v s = Some (Inr v', s')" and "vec_state s\<^sub>0 elem v' (data @ xs) s'"
    and "rv_len v' = rv_len v + k" and "rv_cap v' \<le> max (rv_cap v) (max min_cap (max (2 * rv_cap v) (rv_len v + k)))"
    and "rv_cap v' = rv_cap v \<or> rv_cap v < rv_len v + k"
proof -
  have n: "length xs div elem = k" using k(1) e by simp
  have le: "rv_len v \<le> rv_cap v" using v by (simp add: vec_state_def)
  show thesis
  proof (cases "rv_cap v - rv_len v < k")
    case True
    obtain p s1 where g: "grow_amortized junk elem al min_cap k v s
        = Some (Inr (v\<lparr>rv_ptr := p, rv_cap := max min_cap (max (2 * rv_cap v) (rv_len v + k))\<rparr>), s1)"
      "vec_state s\<^sub>0 elem (v\<lparr>rv_ptr := p, rv_cap := max min_cap (max (2 * rv_cap v) (rv_len v + k))\<rparr>) data s1"
      by (rule grow_passes [OF v e k(2) room])
    from write_at_end [OF g(2) e k] g(1) True n le show thesis
      by (intro that) (auto simp: vec_append_def)
  next
    case False
    then have "rv_len v + k \<le> rv_cap v" using le by simp
    from write_at_end [OF v e k this] False n show thesis by (intro that) (auto simp: vec_append_def)
  qed
qed

lemma array_room: "a < 1648 \<Longrightarrow> b < 832 \<Longrightarrow> 8192 \<le> c \<Longrightarrow> 2 * (HEADER_SIZE + a) + b + 80 < c"
  by (simp add: kernel_consts)

lemma push_all_passes:
  assumes "vec_state s\<^sub>0 4 v data s" and "rv_cap v \<le> 2 * rv_len v + 4" and "rv_len v + length xs \<le> 100"
    and "8192 \<le> hp_current_end s\<^sub>0 - hp_start s\<^sub>0"
  shows "\<exists>v' s'. push_all junk xs v s = Some (Inr v', s') \<and> rv_len v' = rv_len v + length xs
    \<and> vec_state s\<^sub>0 4 v' (data @ concat (map (\<lambda>x. le_bytes 4 (unat x)) xs)) s'"
  using assms(1-3)
proof (induction xs arbitrary: v data s)
  case (Cons x xs)
  let ?cap = "max 4 (max (2 * rv_cap v) (rv_len v + 1))"
  have le: "rv_len v \<le> rv_cap v" using Cons.prems(1) by (simp add: vec_state_def)
  have cap: "rv_cap v \<le> 204" "?cap \<le> 408" "?cap * 4 \<le> 1632" using Cons.prems(2,3) by auto
  have "round16 (4 * ?cap) < 4 * ?cap + 16" "round16 (4 * rv_cap v) < 4 * rv_cap v + 16" by (rule round16_facts)+
  then have "round16 (4 * ?cap) < 1648" "round16 (4 * rv_cap v) < 832" using cap by linarith+
  then have room: "2 * (HEADER_SIZE + round16 (4 * ?cap)) + round16 (4 * rv_cap v) + 80 < hp_current_end s\<^sub>0 - hp_start s\<^sub>0"
    by (rule array_room [OF _ _ assms(4)])
  obtain v1 s1 where a: "vec_append junk 4 4 4 (le_bytes 4 (unat x)) v s = Some (Inr v1, s1)"
    "vec_state s\<^sub>0 4 v1 (data @ le_bytes 4 (unat x)) s1" "rv_len v1 = rv_len v + 1"
    "rv_cap v1 \<le> max (rv_cap v) ?cap" "rv_cap v1 = rv_cap v \<or> rv_cap v < rv_len v + 1"
    by (rule vec_append_passes [OF Cons.prems(1) _ _ _ room, of "le_bytes 4 (unat x)"]) simp_all
  have "rv_cap v1 \<le> 2 * rv_len v1 + 4" using a(3,4,5) le Cons.prems(2) by auto
  moreover have "rv_len v1 + length xs \<le> 100" using Cons.prems(3) a(3) by simp
  ultimately show ?case using Cons.IH [OF a(2)] a(1,3) by simp
qed simp

lemma concat_le_bytes: "i < length xs \<Longrightarrow> \<exists>rest. drop (4 * i) (concat (map (\<lambda>x. le_bytes 4 (f x)) xs)) = le_bytes 4 (f (xs ! i)) @ rest"
proof (induction xs arbitrary: i)
  case (Cons x xs)
  then show ?case by (cases i) auto
qed simp

lemma vec_drop_settled: "vec_state s\<^sub>0 elem v data s \<Longrightarrow> 0 < elem \<Longrightarrow> settled s\<^sub>0 {} (vec_drop elem v s)"
  using free_settled(1) [of s\<^sub>0 "{(rv_ptr v, m)}" s "rv_ptr v" m "elem * rv_cap v" for m]
  by (auto simp: vec_state_def vec_drop_def split: if_splits)

lemma test_heap_vec_passes:
  assumes s: "settled s\<^sub>0 {} s" and room: "8192 \<le> hp_current_end s\<^sub>0 - hp_start s\<^sub>0"
  obtains s' where "test_heap_vec junk s = Some (Inr (), s')" and "settled s\<^sub>0 {} s'"
proof -
  let ?xs = "map (\<lambda>i. of_nat i * 10) [0..<100] :: u32 list"
  let ?data = "concat (map (\<lambda>x. le_bytes 4 (unat x)) ?xs)"
  have "vec_state s\<^sub>0 4 (vec_new 4) [] s" using s by (simp add: vec_state_def vec_new_def client_read_def)
  moreover have "rv_cap (vec_new 4) \<le> 2 * rv_len (vec_new 4) + 4" "rv_len (vec_new 4) + length ?xs \<le> 100" by (simp_all add: vec_new_def)
  ultimately obtain v s1 where p: "push_all junk ?xs (vec_new 4) s = Some (Inr v, s1)" "rv_len v = rv_len (vec_new 4) + length ?xs"
    "vec_state s\<^sub>0 4 v ([] @ ?data) s1"
    using push_all_passes [OF _ _ _ room] by blast
  have len: "rv_len v = 100" using p(2) by (simp add: vec_new_def)
  have vd: "client_read (rv_ptr v) (length ?data) s1 = ?data" "length ?data = 400"
    using p(3) len unfolding vec_state_def append_Nil by (blast, linarith)
  have "client_read (rv_ptr v + 200) 4 s1 = take 4 (drop 200 (client_read (rv_ptr v) 400 s1))"
    by (simp add: client_read_def drop_map take_map)
  also have "\<dots> = take 4 (drop (4 * 50) ?data)" using vd by simp
  also obtain rest where "drop (4 * 50) ?data = le_bytes 4 (unat (?xs ! 50)) @ rest" using concat_le_bytes [of 50 ?xs unat] by auto
  finally have "client_read (rv_ptr v + 200) 4 s1 = le_bytes 4 (unat (500 :: u32))" by simp
  then have "vec_index_u32 v 50 s1 = 500"
    using read_u32_at [of 0 _ "500" "[]"] by (simp add: vec_index_u32_def)
  then have "test_heap_vec junk s = Some (Inr (), vec_drop 4 v s1)"
    unfolding test_heap_vec_def using p(1) len by (simp add: heap_ensure_def del: upt_conv_Cons)
  then show thesis using that vec_drop_settled [OF p(3)] by simp
qed

lemma test_heap_string_passes:
  assumes s: "settled s\<^sub>0 {} s" and room: "8192 \<le> hp_current_end s\<^sub>0 - hp_start s\<^sub>0"
  obtains s' where "test_heap_string junk s = Some (Inr (), s')" and "settled s\<^sub>0 {} s'"
proof -
  let ?a = "ascii ''VenturaOS Memory Hardening''" and ?b = "ascii '' M3.6''"
  have len: "length ?a = 26" "length ?b = 5" by (simp_all add: ascii_def)
  obtain p m s1 where a: "alloc_or_halt 26 1 ''memory allocation failed'' s = Some (Inr p, s1)" "settled s\<^sub>0 {(p, m)} s1" "26 \<le> m" "m < 80"
    by (rule alloc_settled [OF s, of 26 1]) (use room in \<open>auto simp: round16_values kernel_consts\<close>)
  let ?v = "\<lparr>rv_ptr = p, rv_cap = 26, rv_len = 26\<rparr>" and ?s2 = "client_write junk p ?a s1"
  note w = write_settled [OF a(2), of p m 0 ?a, unfolded len]
  have "settled s\<^sub>0 {(p, m)} ?s2" "client_read p 26 ?s2 = ?a" using w(1,3) a(3) by simp_all
  then have v: "vec_state s\<^sub>0 1 ?v ?a ?s2" using a(3,4) len by (auto simp: vec_state_def round16_values)
  have f: "string_from junk ?a s = Some (Inr ?v, ?s2)" using a(1) len by (simp add: string_from_def)
  obtain v' s3 where p: "vec_append junk 1 1 8 ?b ?v ?s2 = Some (Inr v', s3)" "vec_state s\<^sub>0 1 v' (?a @ ?b) s3" "rv_len v' = rv_len ?v + 5"
    by (rule vec_append_passes [OF v, of ?b 5 8]) (use len room in \<open>auto simp: round16_values kernel_consts\<close>)
  have "test_heap_string junk s = Some (Inr (), vec_drop 1 v' s3)"
    unfolding test_heap_string_def f using p(1,3) by (simp add: string_push_str_def heap_ensure_def)
  then show thesis using that vec_drop_settled [OF p(2)] by simp
qed

subsection \<open>Growing the heap\<close>

lemma list_alloc_nonnull: "list_alloc n bs = Some (p, bs') \<Longrightarrow> p \<noteq> 0"
  by (erule list_alloc_SomeE) (simp add: payload_ptr_def kernel_consts)

text \<open>A request is served from the heap or, with the frames and the addresses for it, by growing the heap.\<close>

lemma alloc_or_grow:
  assumes ready: "heap_ready R X s" and n: "0 < n" and small: "growth_bytes (round16 n) div PAGE_SIZE_nat \<le> 128"
    and room: "hp_current_end s + growth_bytes (round16 n) \<le> unat DYNAMIC_VIRT_END"
      "4 * (growth_bytes (round16 n) div PAGE_SIZE_nat) \<le> frames_left (hp_vmm s)"
  obtains p m s' Y where "heap_allocate n al s = Some (p, s')" and "p \<noteq> 0" and "n \<le> m" and "(p, m) \<notin> heap_live s"
    and "heap_live s' = insert (p, m) (heap_live s)" and "heap_ready R (X \<union> Y) s'" and "hp_bytes s' = hp_bytes s" and "hp_start s' = hp_start s"
    and "hp_current_end s \<le> hp_current_end s'" and "hp_current_end s' \<le> hp_current_end s + growth_bytes (round16 n)"
    and "frames_left (hp_vmm s) \<le> frames_left (hp_vmm s') + 4 * (growth_bytes (round16 n) div PAGE_SIZE_nat)"
    and "root_pml4_phys (hp_vmm s') = root_pml4_phys (hp_vmm s)" and "cr3 (hp_vmm s') = cr3 (hp_vmm s)"
    and "live_vregions (hp_vmm s') = live_vregions (hp_vmm s)"
    and "unat (next_dynamic_addr (hp_vmm s')) \<le> max (unat (next_dynamic_addr (hp_vmm s))) (hp_current_end s + growth_bytes (round16 n))"
proof -
  let ?g = "growth_bytes (round16 n)"
  note h = heap_readyD [OF ready]
  have inv: "heap_inv s (heap_blocks s)" using h(1) by (simp add: heap_ok_def)
  obtain p s' where a: "heap_allocate n al s = Some (p, s')" "heap_ok s'"
    and l: "p = 0 \<and> heap_live s' = heap_live s \<or> (\<exists>m\<ge>n. (p, m) \<notin> heap_live s \<and> heap_live s' = insert (p, m) (heap_live s))"
    using kernel_heap.alloc_total [OF h(1) n, of al] by blast
  note goal = that
  have fin: thesis if p: "p \<noteq> 0" and r: "heap_ready R (X \<union> Y) s'" and b: "hp_bytes s' = hp_bytes s" "hp_start s' = hp_start s"
      "hp_current_end s \<le> hp_current_end s'" "hp_current_end s' \<le> hp_current_end s + ?g"
      "frames_left (hp_vmm s) \<le> frames_left (hp_vmm s') + 4 * (?g div PAGE_SIZE_nat)"
      "root_pml4_phys (hp_vmm s') = root_pml4_phys (hp_vmm s)" "cr3 (hp_vmm s') = cr3 (hp_vmm s)"
      "live_vregions (hp_vmm s') = live_vregions (hp_vmm s)"
      "unat (next_dynamic_addr (hp_vmm s')) \<le> max (unat (next_dynamic_addr (hp_vmm s))) (hp_current_end s + ?g)" for Y
  proof -
    obtain m where m: "n \<le> m" "(p, m) \<notin> heap_live s" "heap_live s' = insert (p, m) (heap_live s)" using l p by blast
    show thesis by (rule goal [OF a(1) p m r b])
  qed
  from inv n show thesis
  proof (cases rule: heap_allocate_cases [where al = al])
    case (fit q bs' t)
    have e: "q = p" "t = s'" using fit(2) a(1) by simp_all
    have "heap_ready R (X \<union> {}) s'" using ready a(2) fit(4,7) e by (simp add: heap_ready_def)
    then show thesis by (rule fin [OF list_alloc_nonnull [OF fit(1) [unfolded e]]]) (use fit e in simp_all)
  next
    case (full v)
    then show thesis using expand_possible [OF ready small room] by blast
  next
    case (grown q bs' s1 t)
    have e: "q = p" "t = s'" using grown(4) a(1) by simp_all
    obtain fs where x: "vm_ready R (X \<union> set fs) (hp_vmm s1)" "set fs \<inter> X = {}"
      "hp_current_end s1 = hp_current_end s + ?g"
      "\<forall>va. is_canonical va \<longrightarrow> hp_current_end s1 \<le> unat va \<longrightarrow> va < DYNAMIC_VIRT_END \<longrightarrow>
        xlate (vmm_mem (hp_vmm s1)) (root_pml4_phys (hp_vmm s1)) (va_path va) = None"
      "frames_left (hp_vmm s) \<le> frames_left (hp_vmm s1) + 4 * (?g div PAGE_SIZE_nat)"
      "root_pml4_phys (hp_vmm s1) = root_pml4_phys (hp_vmm s)" "cr3 (hp_vmm s1) = cr3 (hp_vmm s)"
      "live_vregions (hp_vmm s1) = live_vregions (hp_vmm s)"
      "unat (next_dynamic_addr (hp_vmm s1)) = max (unat (next_dynamic_addr (hp_vmm s))) (hp_current_end s1)"
      by (rule expand_ready [OF ready room(1) grown(2)])
    have "4096 dvd ?g" by (simp add: growth_bytes_def)
    moreover have "4096 dvd hp_current_end s" using h(3) by (simp add: dvd_eq_mod_eq_0)
    ultimately have "(hp_current_end s + ?g) mod 4096 = 0" by (simp add: dvd_add flip: dvd_eq_mod_eq_0)
    then have "heap_ready R (X \<union> set fs) s'"
      using a(2) x(1,3,4,9) h(4) grown(6,9) e unfolding heap_ready_def by (intro conjI) simp_all
    then show thesis by (rule fin [OF list_alloc_nonnull [OF grown(3) [unfolded e]]]) (use grown x e in simp_all)
  qed
qed

lemma settled_ready: "heap_ready R X s\<^sub>0 \<Longrightarrow> settled s\<^sub>0 L s \<Longrightarrow> heap_ready R X s"
  by (simp add: heap_ready_def settled_def)

lemma growth_256K: "growth_bytes (round16 262144) = 266240"
  by (simp add: growth_bytes_def round16_def kernel_consts)

text \<open>How the memory manager is left when the heap grew by at most the 65 pages of the large request.\<close>

definition grown_vmm :: "kheap \<Rightarrow> kheap \<Rightarrow> bool" where
  "grown_vmm s s' \<longleftrightarrow> hp_start s' = hp_start s \<and> hp_current_end s \<le> hp_current_end s'
     \<and> frames_left (hp_vmm s) \<le> frames_left (hp_vmm s') + 260
     \<and> root_pml4_phys (hp_vmm s') = root_pml4_phys (hp_vmm s) \<and> cr3 (hp_vmm s') = cr3 (hp_vmm s)
     \<and> live_vregions (hp_vmm s') = live_vregions (hp_vmm s)
     \<and> unat (next_dynamic_addr (hp_vmm s')) \<le> max (unat (next_dynamic_addr (hp_vmm s))) (hp_current_end s + 266240)"

lemma test_heap_growth_passes:
  assumes ready: "heap_ready R X s" and empty: "heap_live s = {}"
    and room: "hp_current_end s + 266240 \<le> unat DYNAMIC_VIRT_END" "260 \<le> frames_left (hp_vmm s)"
  obtains Y s' where "test_heap_growth junk s = Some (Inr (), s')" and "heap_ready R (X \<union> Y) s'" and "heap_live s' = {}"
    and "grown_vmm s s'"
proof -
  obtain p m s1 Y where a: "heap_allocate (256 * 1024) 16 s = Some (p, s1)" "p \<noteq> 0" "256 * 1024 \<le> m"
    "heap_live s1 = insert (p, m) (heap_live s)" "heap_ready R (X \<union> Y) s1" "hp_start s1 = hp_start s"
    "hp_current_end s \<le> hp_current_end s1"
    "frames_left (hp_vmm s) \<le> frames_left (hp_vmm s1) + 4 * (growth_bytes (round16 (256 * 1024)) div PAGE_SIZE_nat)"
    "root_pml4_phys (hp_vmm s1) = root_pml4_phys (hp_vmm s)" "cr3 (hp_vmm s1) = cr3 (hp_vmm s)"
    "live_vregions (hp_vmm s1) = live_vregions (hp_vmm s)"
    "unat (next_dynamic_addr (hp_vmm s1)) \<le> max (unat (next_dynamic_addr (hp_vmm s))) (hp_current_end s + growth_bytes (round16 (256 * 1024)))"
    by (rule alloc_or_grow [OF ready, of "256 * 1024" 16]) (use room in \<open>auto simp: growth_256K\<close>)
  let ?s2 = "client_write junk p [0x55] s1" and ?s3 = "heap_deallocate p (256 * 1024) (client_write junk p [0x55] s1)"
  have set1: "settled s1 {(p, m)} s1" using a(4) empty heap_readyD(1) [OF a(5)] by (simp add: settled_def)
  have set2: "settled s1 {(p, m)} ?s2" using write_settled(1) [OF set1, of p m 0 "[0x55]"] a(3) by simp
  have set3: "settled s1 {} ?s3" using free_settled(1) [OF set2, of p m "256 * 1024"] by simp
  have "test_heap_growth junk s = Some (Inr (), ?s3)"
    unfolding test_heap_growth_def using a(1,2) by (simp add: alloc_or_halt_def heap_ensure_def Let_def client_write_def)
  moreover have "grown_vmm s ?s3" using a(6-12) set3 by (simp add: grown_vmm_def settled_def growth_256K)
  ultimately show thesis using that settled_ready [OF a(5) set3] set3 by (auto simp: settled_def)
qed

text \<open>\<^verbatim>\<open>test_heap_hardened\<close> passes on every heap with no block in use that can grow by 65 pages, and the heap is empty
  again afterwards; it keeps the size it grew to.\<close>

lemma test_heap_hardened_ok:
  assumes ready: "heap_ready R X s" and empty: "heap_live s = {}" and size: "8192 \<le> hp_current_end s - hp_start s"
    and room: "hp_current_end s + 266240 \<le> unat DYNAMIC_VIRT_END" "260 \<le> frames_left (hp_vmm s)"
  obtains Y s' where "test_heap_hardened junk s = Some (Inr (), s')" and "heap_ready R (X \<union> Y) s'" and "heap_live s' = {}"
    and "grown_vmm s s'"
proof -
  have base: "settled t {} t" if "heap_ready R Z t" "heap_live t = {}" for t Z
    using heap_readyD(1) [OF that(1)] that(2) by (simp add: settled_def)
  have verified: "verify_or_halt msg t = Some (Inr (), t)" if "settled t' L t" for msg t t' L
    using that heap_verify_ok [of t "heap_blocks t"] by (simp add: settled_def heap_ok_def verify_or_halt_def)
  have none: "allocated_bytes (hp_stats t) = 0" if "settled t' {} t" for t t'
    using that empty_heap_is_whole [of t] by (simp add: settled_def heap_inv_alt whole_heap_def)
  note set0 = base [OF ready empty]
  obtain s1 where t1: "test_heap_blocks junk s = Some (Inr (), s1)" "settled s {} s1" by (rule test_heap_blocks_passes [OF set0 size])
  have r1: "heap_ready R X s1" "heap_live s1 = {}" "hp_current_end s1 = hp_current_end s" "hp_start s1 = hp_start s" "hp_vmm s1 = hp_vmm s"
    using settled_ready [OF ready t1(2)] t1(2) by (simp_all add: settled_def)
  obtain Y s2 where t2: "test_heap_growth junk s1 = Some (Inr (), s2)" "heap_ready R (X \<union> Y) s2" "heap_live s2 = {}" "grown_vmm s1 s2"
    by (rule test_heap_growth_passes [OF r1(1,2)]) (use room r1 in simp_all)
  have size2: "8192 \<le> hp_current_end s2 - hp_start s2"
    using t2(4) size r1(3,4) diff_le_mono [of "hp_current_end s" "hp_current_end s2" "hp_start s"] by (simp add: grown_vmm_def)
  obtain s3 where t3: "test_heap_box junk s2 = Some (Inr (), s3)" "settled s2 {} s3"
    by (rule test_heap_box_passes [OF base [OF t2(2,3)] size2])
  obtain s4 where t4: "test_heap_vec junk s3 = Some (Inr (), s4)" "settled s2 {} s4" by (rule test_heap_vec_passes [OF t3(2) size2])
  obtain s5 where t5: "test_heap_string junk s4 = Some (Inr (), s5)" "settled s2 {} s5" by (rule test_heap_string_passes [OF t4(2) size2])
  have "test_heap_hardened junk s = Some (Inr (), s5)"
    by (simp add: test_heap_hardened_def verified [OF set0] verified [OF t5(2)] t1(1) t2(1) t3(1) t4(1) t5(1) heap_ensure_def
        none [OF set0] none [OF t5(2)])
  moreover have "grown_vmm s s5" using t2(4) t5(2) r1(3-5) by (simp add: grown_vmm_def settled_def)
  ultimately show thesis using that settled_ready [OF t2(2) t5(2)] t5(2) by (auto simp: settled_def)
qed

end
