(* ===== verification/Vmm_Tests.thy ===== *)
theory Vmm_Tests
  imports Vmm_Use
begin

text \<open>
  The boot-time test of the memory manager, \<^verbatim>\<open>test_vmm_hardened\<close> (\<^verbatim>\<open>src/src/vmm.rs\<close>).  A failed check halts the machine: the
  test ends with the left result and the message.  A page fault ends in the exception handler, which halts as well.
\<close>

definition ensure :: "bool \<Rightarrow> string \<Rightarrow> 's \<Rightarrow> (string + unit) \<times> 's" where
  "ensure ok msg s = (if ok then Inr () else Inl msg, s)"

definition or_halt :: "string \<Rightarrow> ('e + 'a) \<times> 's \<Rightarrow> (string + 'a) \<times> 's" where
  "or_halt msg r = (case r of (Inl _, s) \<Rightarrow> (Inl msg, s) | (Inr a, s) \<Rightarrow> (Inr a, s))"

lemma ensure_simps [simp]: "ensure True msg s = (Inr (), s)" "ensure False msg s = (Inl msg, s)"
  by (simp_all add: ensure_def)

lemma or_halt_simps [simp]: "or_halt msg (Inl e, s) = (Inl msg, s)" "or_halt msg (Inr a, s) = (Inr a, s)"
  by (simp_all add: or_halt_def)

definition load_word :: "virt_addr \<Rightarrow> vmm \<Rightarrow> (string + u64) \<times> vmm" where
  "load_word va s = (case read_volatile va s of None \<Rightarrow> (Inl ''page fault'', s) | Some v \<Rightarrow> (Inr v, s))"

definition store_word :: "virt_addr \<Rightarrow> u64 \<Rightarrow> vmm \<Rightarrow> (string + unit) \<times> vmm" where
  "store_word va v s = (case write_volatile va v s of None \<Rightarrow> (Inl ''page fault'', s) | Some s' \<Rightarrow> (Inr (), s'))"

text \<open>Steps 1 to 3 of the test, before anything is allocated.\<close>

definition test_vmm_checks :: "vmm \<Rightarrow> (string + unit) \<times> vmm" where
  "test_vmm_checks s =
     and_then (case verify_page_tables s of Inl msg \<Rightarrow> (Inl (''Page table verification error: '' @ msg), s) | Inr _ \<Rightarrow> (Inr (), s)) (\<lambda>_ s.
     and_then (ensure (verify_null_page_unmapped s) ''Virtual address 0 (NULL page) is mapped!'' s) (\<lambda>_ s.
     and_then (ensure (\<not> is_canonical 0xDEAD000000000000) ''Non-canonical address returned true!'' s) (\<lambda>_ s.
     ensure (is_canonical 0x00007FFFFFFFF000) ''Canonical lower address returned false!'' s)))"

text \<open>Step 6: a word written to each of the two pages is read back.\<close>

definition test_vmm_memory :: "virt_region \<Rightarrow> vmm \<Rightarrow> (string + unit) \<times> vmm" where
  "test_vmm_memory dyn_region s =
     (let ptr1 = vr_start dyn_region; ptr2 = vr_start dyn_region + PAGE_SIZE;
          msg = ''Read/write verification failed in dynamic region!'' in
      and_then (store_word ptr1 0x1122334455667788 s) (\<lambda>_ s.
      and_then (store_word ptr2 0x8877665544332211 s) (\<lambda>_ s.
      and_then (load_word ptr1 s) (\<lambda>v1 s.
      and_then (ensure (v1 = 0x1122334455667788) msg s) (\<lambda>_ s.
      and_then (load_word ptr2 s) (\<lambda>v2 s.
      ensure (v2 = 0x8877665544332211) msg s))))))"

text \<open>Steps 5 to 9: a region of two pages comes and goes.\<close>

definition test_vmm_region :: "vmm \<Rightarrow> (string + unit) \<times> vmm" where
  "test_vmm_region s =
     and_then (or_halt ''allocate_and_map_region failed!'' (allocate_and_map_region (PAGE_SIZE * 2) PERM_KERNEL_DATA DynamicKernel s)) (\<lambda>dyn_region s.
     and_then (test_vmm_memory dyn_region s) (\<lambda>_ s.
     and_then (ensure (find_region_for_addr (vr_start dyn_region) s \<noteq> None) ''find_region_for_addr failed to find active region!'' s) (\<lambda>_ s.
     and_then (or_halt ''unmap_region returned error!'' (unmap_region dyn_region s)) (\<lambda>_ s.
     ensure (translate (root_pml4_phys s) (vr_start dyn_region) s = None) ''Address still mapped after unmap_region!'' s))))"

definition test_vmm_hardened :: "vmm \<Rightarrow> (string + unit) \<times> vmm" where
  "test_vmm_hardened s =
     and_then (test_vmm_checks s) (\<lambda>_ s.
     let initial_region_count = vmm_region_count s in
     and_then (or_halt ''reserve_virtual_region failed!'' (reserve_virtual_region (PAGE_SIZE * 4) PERM_KERNEL_DATA DynamicKernel s)) (\<lambda>region s.
     and_then (ensure (va_is_aligned (vr_start region) \<and> vr_size region = PAGE_SIZE * 4) ''Reserved region alignment or size mismatch!'' s) (\<lambda>_ s.
     and_then (test_vmm_region s) (\<lambda>_ s.
     let s = snd (unmap_region region s) in
     ensure (initial_region_count = vmm_region_count s) ''Region count leak detected!'' s))))"

subsection \<open>It passes\<close>

lemma test_vmm_checks_pass:
  assumes "root_pml4_phys s \<noteq> 0" and "verify_null_page_unmapped s"
  shows "test_vmm_checks s = (Inr (), s)"
proof -
  have c: "\<not> is_canonical 0xDEAD000000000000" "is_canonical 0x00007FFFFFFFF000" by (simp_all add: is_canonical_def Let_def signed_drop_bit_word_numeral)
  show ?thesis using assms c by (simp add: test_vmm_checks_def verify_page_tables_only_checks_root)
qed

lemma held_page:
  assumes "region_held R X r fs s" and "cr3 s = root_pml4_phys s" and "vr_permissions r = PERM_KERNEL_DATA" and "j < length fs"
  shows "load_word (region_page (vr_start r) j) s = (Inr (vmm_mem s (fs ! j) 0), s)"
    and "store_word (region_page (vr_start r) j) v s = (Inr (), s\<lparr>vmm_mem := write_entry (vmm_mem s) (fs ! j) 0 v\<rparr>)"
    and "region_held R X r fs (s\<lparr>vmm_mem := write_entry (vmm_mem s) (fs ! j) 0 v\<rparr>)"
proof -
  note h = assms(1) [unfolded region_held_def]
  have m: "page_mapped (cr3 s) (region_page (vr_start r) j) (fs ! j) (to_page_flags PERM_KERNEL_DATA) (vmm_mem s)"
    using h assms(2,3,4) by auto
  have w: "to_page_flags PERM_KERNEL_DATA AND FLAG_WRITABLE \<noteq> 0"
    by (simp add: to_page_flags_def PERM_KERNEL_DATA_def kernel_consts)
  have f: "frame_addr (fs ! j)" "fs ! j \<in> X" using h assms(4) nth_mem by blast+
  note a = page_access [OF m _ f(1)]
  show "load_word (region_page (vr_start r) j) s = (Inr (vmm_mem s (fs ! j) 0), s)" using a(1) by (simp add: load_word_def)
  show "store_word (region_page (vr_start r) j) v s = (Inr (), s\<lparr>vmm_mem := write_entry (vmm_mem s) (fs ! j) 0 v\<rparr>)"
    using a(2) [OF _ w] by (simp add: store_word_def)
  show "region_held R X r fs (s\<lparr>vmm_mem := write_entry (vmm_mem s) (fs ! j) 0 v\<rparr>)"
    by (rule region_held_data [OF assms(1)]) (use f(2) in \<open>auto simp: write_entry_def\<close>)
qed

lemma test_vmm_memory_passes:
  assumes h: "region_held R X r fs s" and c: "cr3 s = root_pml4_phys s" and p: "vr_permissions r = PERM_KERNEL_DATA"
    and n: "vr_size r = PAGE_SIZE * 2"
  obtains m where "test_vmm_memory r s = (Inr (), s\<lparr>vmm_mem := m\<rparr>)" and "\<forall>t. t \<notin> set fs \<longrightarrow> m t = vmm_mem s t"
proof -
  have len: "length fs = 2" and d: "distinct fs" using h n by (auto simp: region_held_def)
  then have ne: "fs ! 0 \<noteq> fs ! 1" by (simp add: nth_eq_iff_index_eq)
  have pages: "region_page (vr_start r) 0 = vr_start r" "region_page (vr_start r) 1 = vr_start r + PAGE_SIZE"
    by (simp_all add: region_page_def)
  define s1 where "s1 = s\<lparr>vmm_mem := write_entry (vmm_mem s) (fs ! 0) 0 0x1122334455667788\<rparr>"
  define s2 where "s2 = s1\<lparr>vmm_mem := write_entry (vmm_mem s1) (fs ! 1) 0 0x8877665544332211\<rparr>"
  have c1: "cr3 s1 = root_pml4_phys s1" "cr3 s2 = root_pml4_phys s2" using c by (simp_all add: s1_def s2_def)
  note a = held_page(2,3) [OF h c p, where j = 0 and v = "0x1122334455667788", folded s1_def]
  have h1: "region_held R X r fs s1" using a(2) len by simp
  note b = held_page(2,3) [OF h1 c1(1) p, where j = 1 and v = "0x8877665544332211", folded s2_def]
  have h2: "region_held R X r fs s2" using b(2) len by simp
  note r0 = held_page(1) [OF h2 c1(2) p, of 0] and r1 = held_page(1) [OF h2 c1(2) p, of 1]
  have v: "vmm_mem s2 (fs ! 0) 0 = 0x1122334455667788" "vmm_mem s2 (fs ! 1) 0 = 0x8877665544332211"
    using ne by (simp_all add: s1_def s2_def write_entry_def)
  have "test_vmm_memory r s = (Inr (), s2)"
    using a(1) b(1) r0 r1 v len unfolding pages by (simp add: test_vmm_memory_def)
  moreover have "s2 = s\<lparr>vmm_mem := vmm_mem s2\<rparr>" by (simp add: s1_def s2_def)
  moreover have "vmm_mem s2 t = vmm_mem s t" if "t \<notin> set fs" for t
    using that nth_mem [of 0 fs] nth_mem [of 1 fs] len by (auto simp: s1_def s2_def write_entry_def)
  ultimately show thesis using that by metis
qed

lemma live_count: "regions_inv s \<Longrightarrow> vmm_region_count s = length (live_vregions s)"
  by (simp add: regions_inv_def live_vregions_def)

lemma same_live_count:
  assumes "regions_inv s" and "regions_inv s'" and "mset (live_vregions s') = mset (live_vregions s)"
  shows "vmm_region_count s' = vmm_region_count s"
  using mset_eq_length [OF assms(3)] live_count [OF assms(1)] live_count [OF assms(2)] by simp

lemma test_vmm_region_passes:
  assumes ready: "vm_ready R X s" and c: "cr3 s = root_pml4_phys s"
    and room: "unat (next_dynamic_addr s) + 8192 \<le> unat DYNAMIC_VIRT_END" "vmm_region_count s < MAX_VIRT_REGIONS" "8 \<le> frames_left s"
  obtains s' where "test_vmm_region s = (Inr (), s')" and "vm_ready R X s'" and "same_translations R s s'"
    and "mset (live_vregions s') = mset (live_vregions s)" and "frames_left s \<le> frames_left s' + 6"
    and "root_pml4_phys s' = root_pml4_phys s" and "cr3 s' = cr3 s" and "next_dynamic_addr s' = next_dynamic_addr s + 8192"
proof -
  note d = vm_readyD [OF ready]
  have n2: "(PAGE_SIZE * 2 :: u64) \<noteq> 0" "(PAGE_SIZE * 2 :: u64) mod PAGE_SIZE = 0" "unat ((PAGE_SIZE * 2 :: u64) div PAGE_SIZE) = 2"
    "unat (next_dynamic_addr s) + unat (PAGE_SIZE * 2 :: u64) \<le> unat DYNAMIC_VIRT_END" using room(1) by simp_all
  obtain dyn s1 fs where a: "allocate_and_map_region (PAGE_SIZE * 2) PERM_KERNEL_DATA DynamicKernel s = (Inr dyn, s1)"
    "vm_ready R (X \<union> set fs) s1" "region_held R (X \<union> set fs) dyn fs s1" "set fs \<subseteq> free_addrs (vmm_pmm s)" "set fs \<inter> X = {}"
    "without_pages R (root_pml4_phys s) (region_paths dyn) (vmm_mem s1) (vmm_mem s)"
    "root_pml4_phys s1 = root_pml4_phys s" "cr3 s1 = cr3 s" "managed_addrs (vmm_pmm s1) = managed_addrs (vmm_pmm s)"
    "vr_start dyn = next_dynamic_addr s" "vr_size dyn = PAGE_SIZE * 2" "vr_permissions dyn = PERM_KERNEL_DATA"
    "live_vregions s1 = live_vregions s @ [dyn\<lparr>owns_physical_pages := False\<rparr>]"
    "next_dynamic_addr s1 = next_dynamic_addr s + PAGE_SIZE * 2" "frames_left s \<le> frames_left s1 + 4 * unat ((PAGE_SIZE * 2 :: u64) div PAGE_SIZE)"
    by (rule ready_alloc [OF ready n2(1,2) _ n2(4) room(2)]) (use n2(3) room(3) in auto)
  have c1: "cr3 s1 = root_pml4_phys s1" and len: "length fs = 2" using a(3,7,8,11) c by (simp_all add: region_held_def)
  obtain m where m: "test_vmm_memory dyn s1 = (Inr (), s1\<lparr>vmm_mem := m\<rparr>)" "\<forall>t. t \<notin> set fs \<longrightarrow> m t = vmm_mem s1 t"
    by (rule test_vmm_memory_passes [OF a(3) c1 a(12,11)])
  let ?s = "s1\<lparr>vmm_mem := m\<rparr>"
  obtain s' where u: "unmap_region dyn ?s = (Inr (), s')" "vm_ready R X s'" "same_translations R s s'"
    "mset (live_vregions s') = mset (live_vregions s)" "frames_left s' = frames_left s1 + length fs"
    "root_pml4_phys s' = root_pml4_phys s" "cr3 s' = cr3 s1" "next_dynamic_addr s' = next_dynamic_addr s1"
    by (rule ready_use [OF ready a(2,3,5,6,7,13) m(2) [rule_format]])
  have reg: "regions_inv ?s" "dyn\<lparr>owns_physical_pages := False\<rparr> \<in> set (live_vregions ?s)"
    using regions_cong [of ?s s1] vm_readyD(2) [OF a(2)] a(13) by simp_all
  have found: "find_region_for_addr (vr_start dyn) ?s \<noteq> None"
    using find_region_for_addr_exact [OF reg(1), of "vr_start dyn" "dyn\<lparr>owns_physical_pages := False\<rparr>"] reg(2)
      start_in_addrs [OF live_valid [OF reg]] by simp
  have "xlate (vmm_mem s) (root_pml4_phys s) (va_path (vr_start dyn)) = None"
    unfolding a(10) by (rule d(7)) (use d(3) room(1) in \<open>auto simp: cursor_ok_def word_less_nat_alt intro: high_canonical\<close>)
  then have x: "xlate (vmm_mem s') (root_pml4_phys s') (va_path (vr_start dyn)) = None"
    using u(3,6) d(4) by (simp add: same_translations_def)
  then have "translate (root_pml4_phys s') (vr_start dyn) s' = None"
    using translate_mmu [of s' "root_pml4_phys s'" "vr_start dyn"] by (simp add: no_large_page_def mmu_translate_def)
  then have "test_vmm_region s = (Inr (), s')" using a(1) m(1) found u(1) by (simp add: test_vmm_region_def)
  then show thesis using that u a(7,8,14,15) len n2(3) by simp
qed

text \<open>The memory manager's boot test passes on every state that has a root table, two free entries in the region table, six
  pages of dynamic range and eight free frames, while CR3 is the kernel's root: the page tables are consistent, a reservation
  and a mapped region are made and the words written through it are read back; afterwards every translation of every root is as
  before and so are the live regions, and at most six frames have become page tables.\<close>

theorem test_vmm_hardened_passes:
  assumes ready: "vm_ready R X s" and c: "cr3 s = root_pml4_phys s" and root: "root_pml4_phys s \<noteq> 0"
    and null: "verify_null_page_unmapped s"
    and room: "unat (next_dynamic_addr s) + 24576 \<le> unat DYNAMIC_VIRT_END" "vmm_region_count s + 2 \<le> MAX_VIRT_REGIONS" "8 \<le> frames_left s"
  shows "\<exists>s'. test_vmm_hardened s = (Inr (), s') \<and> vm_ready R X s' \<and> mset (live_vregions s') = mset (live_vregions s)
    \<and> same_translations R s s' \<and> frames_left s \<le> frames_left s' + 6 \<and> cr3 s' = cr3 s \<and> root_pml4_phys s' = root_pml4_phys s
    \<and> next_dynamic_addr s' = next_dynamic_addr s + 24576"
proof -
  note d = vm_readyD [OF ready]
  have n4: "(PAGE_SIZE * 4 :: u64) \<noteq> 0" "(PAGE_SIZE * 4 :: u64) mod PAGE_SIZE = 0" "unat (PAGE_SIZE * 4 :: u64) = 16384" by simp_all
  have room4: "unat (next_dynamic_addr s) + unat (PAGE_SIZE * 4 :: u64) \<le> unat DYNAMIC_VIRT_END" using room(1) n4(3) by simp
  obtain region s1 where r: "reserve_virtual_region (PAGE_SIZE * 4) PERM_KERNEL_DATA DynamicKernel s = (Inr region, s1)" "vm_ready R X s1"
    "live_vregions s1 = live_vregions s @ [region]" "vr_start region = next_dynamic_addr s" "vr_size region = PAGE_SIZE * 4"
    "next_dynamic_addr s1 = next_dynamic_addr s + PAGE_SIZE * 4" "vmm_mem s1 = vmm_mem s" "vmm_pmm s1 = vmm_pmm s"
    "root_pml4_phys s1 = root_pml4_phys s" "cr3 s1 = cr3 s" "\<not> owns_physical_pages region"
    "vmm_region_count s1 = vmm_region_count s + 1"
    by (rule ready_reserve [OF ready n4(1,2) room4]) (use room(2) in auto)
  have "unat (next_dynamic_addr s1) = unat (next_dynamic_addr s) + 16384" unfolding r(6) unat_cursor [OF room4] n4(3) ..
  then obtain s2 where t: "test_vmm_region s1 = (Inr (), s2)" "vm_ready R X s2" "same_translations R s1 s2"
    "mset (live_vregions s2) = mset (live_vregions s1)" "frames_left s1 \<le> frames_left s2 + 6"
    "root_pml4_phys s2 = root_pml4_phys s1" "cr3 s2 = cr3 s1" "next_dynamic_addr s2 = next_dynamic_addr s1 + 8192"
    using test_vmm_region_passes [OF r(2)] r(8,9,10,12) c room by auto
  have "xlate (vmm_mem s2) (root_pml4_phys s2) (page_path (vr_start region) j) = None" if j: "j < unat (vr_size region div PAGE_SIZE)" for j
  proof -
    have "xlate (vmm_mem s) (root_pml4_phys s) (page_path (next_dynamic_addr s) j) = None"
      by (rule d(7)) (use cursor_page [OF d(3) n4(2) room4, of j] j room4 r(5) in \<open>simp_all add: word_le_nat_alt word_less_nat_alt\<close>)
    then show ?thesis using t(3,6) r(4,7,9) d(4) by (simp add: same_translations_def)
  qed
  moreover have "region \<in> set (live_vregions s2)" using t(4) r(3) by (metis in_set_conv_decomp set_mset_mset)
  ultimately obtain s3 where u: "unmap_region region s2 = (Inr (), s3)" "vm_ready R X s3"
    "mset (live_vregions s2) = add_mset region (mset (live_vregions s3))" "vmm_mem s3 = vmm_mem s2" "vmm_pmm s3 = vmm_pmm s2"
    "root_pml4_phys s3 = root_pml4_phys s2" "cr3 s3 = cr3 s2" "next_dynamic_addr s3 = next_dynamic_addr s2"
    using ready_unmap_reserved [OF t(2)] by metis
  have live: "mset (live_vregions s3) = mset (live_vregions s)" using u(3) t(4) r(3) by simp
  then have "vmm_region_count s3 = vmm_region_count s" using same_live_count vm_readyD(2) [OF u(2)] d(2) by blast
  moreover have "va_is_aligned (vr_start region)" using d(3) r(4) by (simp add: cursor_ok_def)
  ultimately have "test_vmm_hardened s = (Inr (), s3)"
    using test_vmm_checks_pass [OF root null] r(1,5) t(1) u(1) by (simp add: test_vmm_hardened_def)
  then show ?thesis using u live t r by (simp add: same_translations_def)
qed

end
