(* ===== verification/Memory_Tests.thy ===== *)
theory Memory_Tests
  imports Heap_Tests Vmm_Tests Memory_Start
begin

text \<open>
  The boot-time tests of the memory subsystem (\<^verbatim>\<open>src/src/memory.rs\<close>): \<^verbatim>\<open>run_rollback_tests\<close> over the page tables and the
  frame allocator, \<^verbatim>\<open>run_stress_test\<close> over the heap, and \<^verbatim>\<open>run_self_tests\<close>, which runs them after the tests of the frame allocator, the page
  tables and the heap.  A failed test halts the machine, here the left result with the message.  That the stress test passes rests on
  a property of the heap: once every block is released, the free space is one block again.
\<close>

subsection \<open>The tests\<close>

definition run_rollback_tests :: "vmm \<Rightarrow> (string + unit) \<times> vmm" where
  "run_rollback_tests s =
     (let initial_pmm_free = pmm_free (vmm_pmm s) in
      case allocate_physical_page (vmm_pmm s) of
        (None, p) \<Rightarrow> (Inl ''failed to allocate test page for rollback'', s\<lparr>vmm_pmm := p\<rparr>)
      | (Some phys_page, p) \<Rightarrow>
          let s1 = s\<lparr>vmm_pmm := snd (free_physical_page phys_page p)\<rparr> in
          if initial_pmm_free \<noteq> pmm_free (vmm_pmm s1) then (Inl ''PMM page rollback failed!'', s1)
          else case verify_page_tables s1 of
                 Inl _ \<Rightarrow> (Inl ''Page table verification failed in rollback test!'', s1)
               | Inr _ \<Rightarrow>
                   (case reserve_virtual_region (PAGE_SIZE * 2) PERM_KERNEL_DATA DynamicKernel s1 of
                      (Inr r, s2) \<Rightarrow> (Inr (), snd (unregister_region (vr_start r) s2))
                    | (Inl _, s2) \<Rightarrow> (Inl ''Reserve virtual region failed in rollback test!'', s2)))"

text \<open>A client's write of one byte: the headers one would read across it change in a way that depends on the bytes around, \<open>junk\<close>.\<close>

definition write_byte :: "(nat \<Rightarrow> block_header) \<Rightarrow> nat \<Rightarrow> u8 \<Rightarrow> kheap \<Rightarrow> kheap" where
  "write_byte junk p v s = s\<lparr>hp_bytes := (hp_bytes s)(p := v),
     hp_hdr := (\<lambda>a. if p < a + HEADER_SIZE \<and> a < p + 1 then junk a else hp_hdr s a)\<rparr>"

definition layouts :: "nat list" where
  "layouts = [16, 64, 128, 256, 512, 1024, 2048, 4096]"

definition layout_of :: "nat \<Rightarrow> nat \<Rightarrow> nat" where
  "layout_of round i = layouts ! ((round + i) mod length layouts)"

definition canary :: "nat \<Rightarrow> u8" where
  "canary i = of_nat i XOR 0x5A"

fun stress_allocate :: "(nat \<Rightarrow> block_header) \<Rightarrow> nat \<Rightarrow> nat list \<Rightarrow> kheap \<Rightarrow> ((string + nat list) \<times> kheap) option" where
  "stress_allocate junk round [] s = Some (Inr [], s)"
| "stress_allocate junk round (i # is) s =
     (case heap_allocate (layout_of round i) 16 s of
        None \<Rightarrow> None
      | Some (p, s1) \<Rightarrow>
          if p = 0 then Some (Inl ''Allocation returned null'', s1)
          else map_option (\<lambda>(res, s'). (case res of Inl e \<Rightarrow> Inl e | Inr ps \<Rightarrow> Inr (p # ps), s'))
                 (stress_allocate junk round is (write_byte junk p (canary i) s1)))"

fun stress_release :: "nat \<Rightarrow> nat list \<Rightarrow> nat list \<Rightarrow> kheap \<Rightarrow> (string + unit) \<times> kheap" where
  "stress_release round (i # is) (p # ps) s =
     (if hp_bytes s p \<noteq> canary i then (Inl ''Memory verification mismatch'', s)
      else stress_release round is ps (heap_deallocate p (layout_of round i) s))"
| "stress_release round _ _ s = (Inr (), s)"

fun stress_rounds :: "(nat \<Rightarrow> block_header) \<Rightarrow> nat list \<Rightarrow> kheap \<Rightarrow> ((string + unit) \<times> kheap) option" where
  "stress_rounds junk [] s = Some (Inr (), s)"
| "stress_rounds junk (round # rounds) s =
     (case stress_allocate junk round [0..<32] s of
        None \<Rightarrow> None
      | Some (Inl e, s1) \<Rightarrow> Some (Inl e, s1)
      | Some (Inr ptrs, s1) \<Rightarrow>
          (case stress_release round [0..<32] ptrs s1 of
             (Inl e, s2) \<Rightarrow> Some (Inl e, s2)
           | (Inr _, s2) \<Rightarrow> stress_rounds junk rounds s2))"

definition run_stress_test :: "(nat \<Rightarrow> block_header) \<Rightarrow> kheap \<Rightarrow> ((string + unit) \<times> kheap) option" where
  "run_stress_test junk s =
     (let initial_heap_alloc = allocated_bytes (hp_stats s) in
      case stress_rounds junk [0..<10] s of
        None \<Rightarrow> None
      | Some (Inl e, s') \<Rightarrow> Some (Inl e, s')
      | Some (Inr _, s') \<Rightarrow>
          if initial_heap_alloc \<noteq> allocated_bytes (hp_stats s') then Some (Inl ''Memory leak during stress test!'', s')
          else Some (Inr (), s'))"

subsection \<open>Filling the end of the heap\<close>

lemma allocate_at_end:
  assumes inv: "heap_inv s (us @ [f])" and used: "\<forall>u \<in> set us. \<not> bk_free u" and f: "bk_free f"
    and n: "0 < n" "round16 n + (HEADER_SIZE + MIN_BLOCK_PAYLOAD) \<le> bk_size f"
  obtains s' where "heap_allocate n al s = Some (payload_ptr (bk_addr f), s')"
    and "heap_inv s' ((us @ [f\<lparr>bk_size := round16 n, bk_free := False\<rparr>]) @
      [\<lparr>bk_addr = bk_addr f + (HEADER_SIZE + round16 n), bk_free = True, bk_size = bk_size f - round16 n - HEADER_SIZE\<rparr>])"
    and "hp_bytes s' = hp_bytes s" and "hp_start s' = hp_start s" and "hp_current_end s' = hp_current_end s" and "hp_vmm s' = hp_vmm s"
proof -
  have "list_alloc (round16 n) (us @ f # []) = Some (payload_ptr (bk_addr f), us @ carve (round16 n) f @ [])"
    by (rule list_alloc_at) (use used f n in \<open>auto simp: fits_def\<close>)
  then have la: "list_alloc (round16 n) (us @ [f]) = Some (payload_ptr (bk_addr f), us @ carve (round16 n) f)" by simp
  have c: "carve (round16 n) f = [f\<lparr>bk_size := round16 n, bk_free := False\<rparr>,
      \<lparr>bk_addr = bk_addr f + (HEADER_SIZE + round16 n), bk_free = True, bk_size = bk_size f - round16 n - HEADER_SIZE\<rparr>]"
    using n(2) by (simp add: carve_def)
  show thesis
    by (cases rule: heap_allocate_cases [OF inv n(1), of al]) (use la c that in auto)
qed

lemma write_byte_inv:
  assumes inv: "heap_inv s bs" and b: "b \<in> set bs" "\<not> bk_free b"
  shows "heap_inv (write_byte junk (payload_ptr (bk_addr b)) v s) bs"
proof -
  have ok: "heap_ok s" "heap_blocks s = bs" using heap_okI [OF inv] heap_blocks_inv [OF inv] by simp_all
  have "(payload_ptr (bk_addr b), bk_size b) \<in> heap_live s" using b ok by (auto simp: heap_live_def list_live_def)
  moreover have "1 \<le> bk_size b" using inv b(1) by (auto simp: heap_inv_alt blocks_ok_def size_ok_def)
  ultimately show ?thesis
    unfolding write_byte_def ok(2) [symmetric] by (intro client_write_ok [OF ok(1), where n = 1]) auto
qed

definition stress_cost :: "nat \<Rightarrow> nat list \<Rightarrow> nat" where
  "stress_cost round is = sum_list (map (\<lambda>i. round16 (layout_of round i) + HEADER_SIZE) is)"

lemma layout_pos: "0 < layout_of round i"
proof -
  have "layout_of round i \<in> set layouts" unfolding layout_of_def by (rule nth_mem) (simp add: layouts_def)
  then show ?thesis by (auto simp: layouts_def)
qed

text \<open>The allocations of a round line up behind the blocks in use, each with its canary.\<close>

lemma stress_allocate_ok:
  assumes "heap_inv s (us @ [f])" and "\<forall>u \<in> set us. \<not> bk_free u" and "bk_free f"
    and "stress_cost round is + MIN_BLOCK_PAYLOAD \<le> bk_size f"
  shows "\<exists>vs g s'. stress_allocate junk round is s = Some (Inr (map (\<lambda>v. payload_ptr (bk_addr v)) vs), s')
    \<and> heap_inv s' ((us @ vs) @ [g]) \<and> (\<forall>v \<in> set vs. \<not> bk_free v) \<and> bk_free g
    \<and> list_all2 (\<lambda>i v. hp_bytes s' (payload_ptr (bk_addr v)) = canary i) is vs
    \<and> (\<forall>a < payload_ptr (bk_addr f). hp_bytes s' a = hp_bytes s a)
    \<and> hp_start s' = hp_start s \<and> hp_current_end s' = hp_current_end s \<and> hp_vmm s' = hp_vmm s"
  using assms
proof (induction "is" arbitrary: us f s)
  case Nil
  then show ?case by (intro exI [of _ "[]"] exI [of _ f] exI [of _ s]) simp
next
  case (Cons i "is")
  let ?n = "layout_of round i" and ?p = "payload_ptr (bk_addr f)"
  let ?u = "f\<lparr>bk_size := round16 ?n, bk_free := False\<rparr>"
  let ?f = "\<lparr>bk_addr = bk_addr f + (HEADER_SIZE + round16 ?n), bk_free = True, bk_size = bk_size f - round16 ?n - HEADER_SIZE\<rparr>"
  have c: "round16 ?n + HEADER_SIZE + stress_cost round is + MIN_BLOCK_PAYLOAD \<le> bk_size f"
    using Cons.prems(4) by (simp add: stress_cost_def)
  obtain s1 where a: "heap_allocate ?n 16 s = Some (?p, s1)" "heap_inv s1 ((us @ [?u]) @ [?f])"
    "hp_bytes s1 = hp_bytes s" "hp_start s1 = hp_start s" "hp_current_end s1 = hp_current_end s" "hp_vmm s1 = hp_vmm s"
    by (rule allocate_at_end [OF Cons.prems(1-3) layout_pos]) (use c in auto)
  define s2 where "s2 = write_byte junk ?p (canary i) s1"
  have inv2: "heap_inv s2 ((us @ [?u]) @ [?f])"
    unfolding s2_def using write_byte_inv [OF a(2), of ?u junk "canary i"] by simp
  have s2: "hp_bytes s2 = (hp_bytes s)(?p := canary i)" "hp_start s2 = hp_start s" "hp_current_end s2 = hp_current_end s" "hp_vmm s2 = hp_vmm s"
    by (simp_all add: s2_def write_byte_def a)
  have "\<forall>u \<in> set (us @ [?u]). \<not> bk_free u" using Cons.prems(2) by simp
  moreover have "stress_cost round is + MIN_BLOCK_PAYLOAD \<le> bk_size ?f" using c by simp
  ultimately obtain vs g s' where r: "stress_allocate junk round is s2 = Some (Inr (map (\<lambda>v. payload_ptr (bk_addr v)) vs), s')"
    "heap_inv s' (((us @ [?u]) @ vs) @ [g])" "\<forall>v \<in> set vs. \<not> bk_free v" "bk_free g"
    "list_all2 (\<lambda>i v. hp_bytes s' (payload_ptr (bk_addr v)) = canary i) is vs"
    "\<And>a. a < payload_ptr (bk_addr ?f) \<Longrightarrow> hp_bytes s' a = hp_bytes s2 a" "hp_start s' = hp_start s2" "hp_current_end s' = hp_current_end s2"
    "hp_vmm s' = hp_vmm s2"
    using Cons.IH [OF inv2] by auto
  have "hp_bytes s' a = hp_bytes s2 a" if "a \<le> ?p" for a
    by (rule r(6)) (use that in \<open>simp add: payload_ptr_def kernel_consts\<close>)
  then have "hp_bytes s' ?p = canary i" "\<forall>a < ?p. hp_bytes s' a = hp_bytes s a" using s2(1) by auto
  moreover have "stress_allocate junk round (i # is) s = Some (Inr (map (\<lambda>v. payload_ptr (bk_addr v)) (?u # vs)), s')"
    using a(1) r(1) by (simp add: s2_def [symmetric])
  ultimately show ?case using r(2-5,7-9) s2(2-4) by (intro exI [of _ "?u # vs"] exI [of _ g] exI [of _ s']) simp
qed

subsection \<open>Releasing what a round allocated\<close>

lemma stress_release_ok:
  assumes "heap_ok s" and "heap_live s = set bl" and "distinct bl" and "list_all2 (\<lambda>i pm. hp_bytes s (fst pm) = canary i) is bl"
  shows "\<exists>s'. stress_release round is (map fst bl) s = (Inr (), s') \<and> heap_ok s' \<and> heap_live s' = {}
    \<and> hp_start s' = hp_start s \<and> hp_current_end s' = hp_current_end s \<and> hp_vmm s' = hp_vmm s"
  using assms
proof (induction bl arbitrary: s "is")
  case Nil
  then show ?case by simp
next
  case (Cons pm bl)
  obtain p m where pm: "pm = (p, m)" by fastforce
  obtain i is' where i: "is = i # is'" "hp_bytes s p = canary i" "list_all2 (\<lambda>i pm. hp_bytes s (fst pm) = canary i) is' bl"
    using Cons.prems(4) by (auto simp: pm list_all2_Cons2)
  let ?s = "heap_deallocate p (layout_of round i) s"
  have l: "(p, m) \<in> heap_live s" using Cons.prems(2) by (simp add: pm)
  note d = kernel_heap.dealloc_removes [OF Cons.prems(1) l layout_pos, of round i] and e = release_effect [OF Cons.prems(1) l layout_pos, of round i]
  have live: "heap_live ?s = set bl" using d Cons.prems(2,3) by (auto simp: pm)
  have keep: "hp_bytes ?s (fst qm) = hp_bytes s (fst qm)" if "qm \<in> set bl" for qm
  proof -
    have "qm \<in> heap_live s" "qm \<noteq> (p, m)" using that Cons.prems(2,3) by (auto simp: pm)
    then show ?thesis using kernel_heap.blocks_apart [OF Cons.prems(1) l, of "fst qm" "snd qm"] e(1) by auto
  qed
  have "list_all2 (\<lambda>i pm. hp_bytes ?s (fst pm) = canary i) is' bl"
    by (rule list.rel_mono_strong [OF i(3)]) (use keep in simp)
  with Cons.IH [of ?s is'] d live Cons.prems(3) e(2,3) i(1,2) show ?case by (simp add: pm release_vmm)
qed

subsection \<open>The rounds\<close>

definition empty_heap :: "kheap \<Rightarrow> nat \<Rightarrow> nat \<Rightarrow> vmm \<Rightarrow> bool" where
  "empty_heap s start stop v \<longleftrightarrow> heap_ok s \<and> heap_live s = {} \<and> hp_start s = start \<and> hp_current_end s = stop \<and> hp_vmm s = v"

lemma stress_round_ok:
  assumes e: "empty_heap s start stop v" and room: "stress_cost round [0..<32] + HEADER_SIZE + MIN_BLOCK_PAYLOAD \<le> stop - start"
  shows "\<exists>ps s1 s2. stress_allocate junk round [0..<32] s = Some (Inr ps, s1) \<and> stress_release round [0..<32] ps s1 = (Inr (), s2)
    \<and> empty_heap s2 start stop v"
proof -
  let ?f = "whole_heap start stop"
  have inv: "heap_inv s ([] @ [?f])" using empty_heap_is_whole [of s] e by (simp add: empty_heap_def)
  have fits: "stress_cost round [0..<32] + MIN_BLOCK_PAYLOAD \<le> bk_size ?f" using room by (simp add: whole_heap_def)
  obtain vs g s1 where a: "stress_allocate junk round [0..<32] s = Some (Inr (map (\<lambda>v. payload_ptr (bk_addr v)) vs), s1)"
    "heap_inv s1 (([] @ vs) @ [g])" "\<forall>v \<in> set vs. \<not> bk_free v" "bk_free g"
    "list_all2 (\<lambda>i v. hp_bytes s1 (payload_ptr (bk_addr v)) = canary i) [0..<32] vs"
    "hp_start s1 = hp_start s" "hp_current_end s1 = hp_current_end s" "hp_vmm s1 = hp_vmm s"
    using stress_allocate_ok [OF inv _ _ fits, of junk] by (auto simp: whole_heap_def)
  let ?bl = "map (\<lambda>v. (payload_ptr (bk_addr v), bk_size v)) vs"
  have "heap_live s1 = set ?bl" using heap_live_inv [OF a(2)] a(3,4) by (auto simp: list_live_def)
  moreover have "tiles (hp_start s1) (vs @ [g]) (hp_current_end s1)" using a(2) by (simp add: heap_inv_alt blocks_ok_def)
  then have "distinct ?bl" using tiles_distinct [of "hp_start s1" "vs @ [g]" "hp_current_end s1"]
    by (auto simp: distinct_map inj_on_def comp_def)
  moreover have "list_all2 (\<lambda>i pm. hp_bytes s1 (fst pm) = canary i) [0..<32] ?bl" using a(5) by (simp add: list_all2_map2)
  ultimately obtain s2 where "stress_release round [0..<32] (map fst ?bl) s1 = (Inr (), s2)" "heap_ok s2" "heap_live s2 = {}"
    "hp_start s2 = hp_start s1" "hp_current_end s2 = hp_current_end s1" "hp_vmm s2 = hp_vmm s1"
    using stress_release_ok [OF heap_okI [OF a(2)]] by blast
  then show ?thesis using a(1,6,7,8) e
    by (intro exI [of _ "map (\<lambda>v. payload_ptr (bk_addr v)) vs"] exI [of _ s1] exI [of _ s2]) (simp add: empty_heap_def comp_def)
qed

lemma stress_rounds_ok:
  assumes "empty_heap s start stop v" and "\<And>r. r \<in> set rounds \<Longrightarrow> stress_cost r [0..<32] + HEADER_SIZE + MIN_BLOCK_PAYLOAD \<le> stop - start"
  shows "\<exists>s'. stress_rounds junk rounds s = Some (Inr (), s') \<and> empty_heap s' start stop v"
  using assms
proof (induction rounds arbitrary: s)
  case (Cons r rounds)
  obtain ps s1 s2 where "stress_allocate junk r [0..<32] s = Some (Inr ps, s1)" "stress_release r [0..<32] ps s1 = (Inr (), s2)"
    "empty_heap s2 start stop v"
    using stress_round_ok [OF Cons.prems(1), of r junk] Cons.prems(2) by auto
  then show ?case using Cons.IH [of s2] Cons.prems(2) by (simp del: upt_conv_Cons)
qed simp

text \<open>Every round asks for each of the eight sizes four times.\<close>

lemma layout_costs:
  "map (\<lambda>k. round16 (layouts ! k) + HEADER_SIZE) [0, 1, 2, 3, 4, 5, 6, 7] = [48, 96, 160, 288, 544, 1056, 2080, 4128]"
  by (simp add: layouts_def round16_def HEADER_SIZE_def)

lemma stress_cost_value:
  assumes "r < 10"
  shows "stress_cost r [0..<32] = 33600"
proof -
  define g where "g k = round16 (layouts ! k) + HEADER_SIZE" for k
  have g: "g 0 = 48" "g 1 = 96" "g 2 = 160" "g 3 = 288" "g 4 = 544" "g 5 = 1056" "g 6 = 2080" "g 7 = 4128"
    "g (Suc (Suc 0)) = 160"
    using layout_costs by (simp_all add: g_def numeral_2_eq_2)
  have "stress_cost r [0..<32] = sum_list (map (\<lambda>i. g ((r + i) mod 8)) [0..<32])"
    by (simp add: stress_cost_def layout_of_def g_def layouts_def del: upt_conv_Cons)
  moreover have "[0..<32] = [0, 1, 2, 3, 4, 5, 6, 7, 8, 9, 10, 11, 12, 13, 14, 15, 16, 17, 18, 19, 20, 21, 22, 23, 24, 25, 26, 27, 28, 29, 30, 31]"
    by (simp add: upt_rec)
  ultimately have e: "stress_cost r [0..<32] = sum_list (map (\<lambda>i. g ((r + i) mod 8))
      [0, 1, 2, 3, 4, 5, 6, 7, 8, 9, 10, 11, 12, 13, 14, 15, 16, 17, 18, 19, 20, 21, 22, 23, 24, 25, 26, 27, 28, 29, 30, 31])" by simp
  have "r = 0 \<or> r = 1 \<or> r = 2 \<or> r = 3 \<or> r = 4 \<or> r = 5 \<or> r = 6 \<or> r = 7 \<or> r = 8 \<or> r = 9" using assms by presburger
  then show ?thesis unfolding e by (elim disjE) (simp_all add: g [simplified])
qed

subsection \<open>The properties\<close>

text \<open>The heap does not stay fragmented: whatever was allocated, released, grown and written in between, once the
  clients have released everything the free list is one block over the whole heap.\<close>

theorem heap_defragments:
  assumes "heap_run s {}"
  shows "heap_inv s [whole_heap (hp_start s) (hp_current_end s)]"
proof -
  from heap_run_holds [OF assms] have "heap_ok s" "heap_live s = {}" by (auto simp: holds_def)
  then show ?thesis by (rule empty_heap_is_whole)
qed

theorem heap_defragments_witness:
  "\<exists>s. heap_run s {} \<and> heap_inv s [whole_heap (hp_start s) (hp_current_end s)]"
proof -
  obtain s where s: "heap_init (heap_state_new (\<lambda>_. poison_header) (\<lambda>_. 0) large_vm) = (Inr (), s)" by (rule large_heap)
  then have "heap_run s {}" by (rule start [OF large_vm_ok large_vm_regions(1-3)])
  with heap_defragments [OF this] show ?thesis by blast
qed

text \<open>\<^verbatim>\<open>run_stress_test\<close> passes on every heap with no block in use and room for one round: none of its 320
  allocations returns null, each canary is read back, and afterwards no block is in use, the heap has the size it had
  and \<^verbatim>\<open>verify_invariants\<close> accepts it.\<close>

theorem run_stress_test_passes:
  assumes "heap_ok s" and "heap_live s = {}" and "33680 \<le> hp_current_end s - hp_start s"
  shows "\<exists>s'. run_stress_test junk s = Some (Inr (), s') \<and> heap_live s' = {} \<and> heap_verify_invariants s' = Some (Inr ())
    \<and> hp_start s' = hp_start s \<and> hp_current_end s' = hp_current_end s \<and> heap_ok s' \<and> hp_vmm s' = hp_vmm s"
proof -
  have e: "empty_heap s (hp_start s) (hp_current_end s) (hp_vmm s)" using assms by (simp add: empty_heap_def)
  have "stress_cost r [0..<32] + HEADER_SIZE + MIN_BLOCK_PAYLOAD \<le> hp_current_end s - hp_start s" if "r \<in> set [0..<10]" for r
    using that assms(3) stress_cost_value [of r] by (simp add: kernel_consts)
  from stress_rounds_ok [OF e this] obtain s' where r: "stress_rounds junk [0..<10] s = Some (Inr (), s')"
    and e': "empty_heap s' (hp_start s) (hp_current_end s) (hp_vmm s)" by blast
  have "allocated_bytes (hp_stats t) = 0" if "heap_ok t" "heap_live t = {}" for t
    using empty_heap_is_whole [OF that] by (simp add: heap_inv_alt whole_heap_def)
  then have "allocated_bytes (hp_stats s') = allocated_bytes (hp_stats s)" using assms e' by (simp add: empty_heap_def)
  moreover have "heap_verify_invariants s' = Some (Inr ())" using e' heap_verify_ok by (auto simp: empty_heap_def heap_ok_def)
  ultimately show ?thesis using r e' by (simp add: run_stress_test_def empty_heap_def del: upt_conv_Cons)
qed

theorem run_stress_test_passes_witness:
  "\<exists>s s'. heap_ok s \<and> run_stress_test (\<lambda>_. poison_header) s = Some (Inr (), s') \<and> heap_live s' = {}"
proof -
  obtain s where s: "heap_inv s [initial_block (unat DYNAMIC_VIRT_START)]" by (rule large_heap)
  then have "hp_current_end s - hp_start s = 131072"
    by (auto simp: heap_inv_alt blocks_ok_def initial_block_def kernel_consts)
  moreover have "heap_live s = {}" using heap_live_inv [OF s] by (simp add: initial_block_def)
  ultimately show ?thesis
    using run_stress_test_passes [OF heap_okI [OF s], of "\<lambda>_. poison_header"] heap_okI [OF s] by auto
qed

text \<open>What \<^verbatim>\<open>run_rollback_tests\<close> leaves behind: with a free frame, a root table, room in the region table and two pages
  of dynamic range it passes, the frame allocator and the page tables are as before and so are the regions, but the cursor
  of the dynamic range stays two pages further on.\<close>

theorem run_rollback_tests_effect:
  assumes vm: "vm_ok R X s" "regions_inv s" "cursor_ok s" and root: "root_pml4_phys s \<noteq> 0"
    and frame: "free_frames (vmm_pmm s) \<noteq> {}"
    and room: "unat (next_dynamic_addr s) + 8192 \<le> unat DYNAMIC_VIRT_END" "vmm_region_count s < MAX_VIRT_REGIONS"
      "\<forall>r \<in> set (live_vregions s). \<not> vr_overlaps r (next_dynamic_addr s) (PAGE_SIZE * 2)"
  shows "\<exists>s'. run_rollback_tests s = (Inr (), s') \<and> vmm_pmm s' = vmm_pmm s \<and> vmm_mem s' = vmm_mem s
    \<and> mset (live_vregions s') = mset (live_vregions s) \<and> next_dynamic_addr s' = next_dynamic_addr s + 8192"
proof -
  have inv: "pmm_inv (vmm_pmm s)" using vm(1) by (simp add: vm_ok_def)
  obtain f p where a: "allocate_physical_page (vmm_pmm s) = (Some f, p)"
    by (rule alloc_possible [OF inv frame])
  note restored = allocate_free_restores [OF inv a]
  have n: "unat (PAGE_SIZE * 2) = 8192" "PAGE_SIZE * 2 = (8192 :: u64)" by (simp_all add: kernel_consts)
  obtain res s2 where r: "reserve_virtual_region (PAGE_SIZE * 2) PERM_KERNEL_DATA DynamicKernel s = (res, s2)" by fastforce
  then obtain reg where reg: "res = Inr reg" and cur: "next_dynamic_addr s2 = next_dynamic_addr s + 8192"
    by (cases rule: reserve_cases [OF vm(3) r]) (use room n in \<open>auto simp: kernel_consts push_vregion_def\<close>)
  note k = reserve_step [OF vm r [unfolded reg]]
  obtain w s3 where u: "unregister_region (vr_start reg) s2 = (w, s3)" by fastforce
  have "mset (live_vregions s3) = mset (live_vregions s)" by (rule unregister_last(1) [OF k(2,4) u])
  moreover have "vmm_pmm s3 = vmm_pmm s2" "vmm_mem s3 = vmm_mem s2" "next_dynamic_addr s3 = next_dynamic_addr s2"
    using unregister_same_memory [OF u] by simp_all
  moreover have "run_rollback_tests s = (Inr (), s3)"
    using a restored root r reg u by (simp add: run_rollback_tests_def verify_page_tables_only_checks_root)
  ultimately show ?thesis using k(8,9) cur by simp
qed

theorem run_rollback_tests_effect_witness:
  "\<exists>s'. run_rollback_tests large_vm = (Inr (), s') \<and> next_dynamic_addr s' = DYNAMIC_VIRT_START + 8192"
proof -
  have "root_pml4_phys large_vm \<noteq> 0" "vmm_region_count large_vm < MAX_VIRT_REGIONS"
    by (simp_all add: large_vm_def sample_vm_def kernel_consts)
  moreover have "free_frames (vmm_pmm large_vm) \<noteq> {}"
    using boot_free_card by (auto simp: large_vm_def free_addrs_def)
  moreover have "unat (next_dynamic_addr large_vm) + 8192 \<le> unat DYNAMIC_VIRT_END"
    unfolding large_vm_regions by (simp add: kernel_consts)
  ultimately show ?thesis
    using run_rollback_tests_effect [OF large_vm_ok large_vm_regions(1,2)] by (auto simp: large_vm_regions)
qed

lemma rollback_ready:
  assumes ready: "vm_ready R X s" and root: "root_pml4_phys s \<noteq> 0" and frame: "free_frames (vmm_pmm s) \<noteq> {}"
    and room: "unat (next_dynamic_addr s) + 8192 \<le> unat DYNAMIC_VIRT_END" "vmm_region_count s < MAX_VIRT_REGIONS"
  obtains s' where "run_rollback_tests s = (Inr (), s')" and "vm_ready R X s'" and "vmm_pmm s' = vmm_pmm s" and "vmm_mem s' = vmm_mem s"
    and "mset (live_vregions s') = mset (live_vregions s)" and "next_dynamic_addr s' = next_dynamic_addr s + 8192"
    and "root_pml4_phys s' = root_pml4_phys s" and "cr3 s' = cr3 s"
proof -
  have inv: "pmm_inv (vmm_pmm s)" using vm_readyD(1) [OF ready] by (simp add: vm_ok_def)
  obtain f p where a: "allocate_physical_page (vmm_pmm s) = (Some f, p)" by (rule alloc_possible [OF inv frame])
  note restored = allocate_free_restores [OF inv a]
  have n: "PAGE_SIZE * 2 \<noteq> 0" "PAGE_SIZE * 2 mod PAGE_SIZE = 0" by (simp_all add: kernel_consts)
  have room1: "unat (next_dynamic_addr s) + unat (PAGE_SIZE * 2) \<le> unat DYNAMIC_VIRT_END" using room(1) by (simp add: kernel_consts)
  obtain r s1 where r: "reserve_virtual_region (PAGE_SIZE * 2) PERM_KERNEL_DATA DynamicKernel s = (Inr r, s1)" "vm_ready R X s1"
    "live_vregions s1 = live_vregions s @ [r]" "next_dynamic_addr s1 = next_dynamic_addr s + PAGE_SIZE * 2" "vmm_mem s1 = vmm_mem s" "vmm_pmm s1 = vmm_pmm s"
    "root_pml4_phys s1 = root_pml4_phys s" "cr3 s1 = cr3 s"
    by (rule ready_reserve [OF ready n room1 room(2)])
  have mem: "r \<in> set (live_vregions s1)" using r(3) by simp
  obtain s2 where u: "unregister_region (vr_start r) s1 = (Inr (), s2)" "vm_ready R X s2" "mset (live_vregions s1) = add_mset r (mset (live_vregions s2))"
    "vmm_mem s2 = vmm_mem s1" "vmm_pmm s2 = vmm_pmm s1" "root_pml4_phys s2 = root_pml4_phys s1" "cr3 s2 = cr3 s1" "next_dynamic_addr s2 = next_dynamic_addr s1"
    by (rule ready_unregister [OF r(2) mem])
  have "run_rollback_tests s = (Inr (), s2)"
    using a restored root r(1) u(1) by (simp add: run_rollback_tests_def verify_page_tables_only_checks_root)
  moreover have "mset (live_vregions s2) = mset (live_vregions s)" using u(3) r(3) by simp
  ultimately show thesis using that u(2,4-8) r(4-8) by (simp add: kernel_consts)
qed

subsection \<open>All of the tests\<close>

definition on_vmm :: "(vmm \<Rightarrow> (string + unit) \<times> vmm) \<Rightarrow> kheap \<Rightarrow> unit heap_step" where
  "on_vmm f s = (case f (hp_vmm s) of (r, v) \<Rightarrow> Some (r, s\<lparr>hp_vmm := v\<rparr>))"

definition on_pmm :: "(pmm \<Rightarrow> (string + unit) \<times> pmm) \<Rightarrow> vmm \<Rightarrow> (string + unit) \<times> vmm" where
  "on_pmm f v = (case f (vmm_pmm v) of (r, p) \<Rightarrow> (r, v\<lparr>vmm_pmm := p\<rparr>))"

definition memory_self_tests :: "(nat \<Rightarrow> block_header) \<Rightarrow> kheap \<Rightarrow> unit heap_step" where
  "memory_self_tests junk s =
     heap_then (on_vmm (on_pmm test_pmm_hardened) s) (\<lambda>_ s.
     heap_then (on_vmm test_vmm_hardened s) (\<lambda>_ s.
     heap_then (test_heap_hardened junk s) (\<lambda>_ s.
     heap_then (on_vmm run_rollback_tests s) (\<lambda>_ s.
     run_stress_test junk s))))"

lemma heap_ready_vmm:
  assumes r: "heap_ready R X s" and v: "vm_ready R X v" and c: "next_dynamic_addr (hp_vmm s) \<le> next_dynamic_addr v"
    and same: "same_translations R (hp_vmm s) v" "root_pml4_phys v = root_pml4_phys (hp_vmm s)"
  shows "heap_ready R X (s\<lparr>hp_vmm := v\<rparr>)" and "heap_live (s\<lparr>hp_vmm := v\<rparr>) = heap_live s"
proof -
  note h = heap_readyD [OF r]
  have inv: "heap_inv (s\<lparr>hp_vmm := v\<rparr>) (heap_blocks s)" using h(1) by (simp add: heap_ok_def)
  then show "heap_live (s\<lparr>hp_vmm := v\<rparr>) = heap_live s" using heap_live_inv by (metis heap_live_def)
  have x: "xlate (vmm_mem v) (root_pml4_phys v) (va_path va) = xlate (vmm_mem (hp_vmm s)) (root_pml4_phys (hp_vmm s)) (va_path va)" for va
  proof -
    have "length (va_path va) = 4" by (simp add: va_path_def)
    then show ?thesis using same vm_readyD(4) [OF h(2)] by (simp add: same_translations_def)
  qed
  have "unat (next_dynamic_addr (hp_vmm s)) \<le> unat (next_dynamic_addr v)" using c by (simp add: word_le_nat_alt)
  then show "heap_ready R X (s\<lparr>hp_vmm := v\<rparr>)"
    using r v heap_okI [OF inv] h(5) x by (auto simp: heap_ready_def)
qed

text \<open>What the tests ask of the machine: the tables in force are the kernel's own, and there are frames, addresses and entries of the
  region table for the largest of them.\<close>

definition test_room :: "kheap \<Rightarrow> bool" where
  "test_room s \<longleftrightarrow> cr3 (hp_vmm s) = root_pml4_phys (hp_vmm s) \<and> root_pml4_phys (hp_vmm s) \<noteq> 0
     \<and> unat (next_dynamic_addr (hp_vmm s)) + 0x50000 \<le> unat DYNAMIC_VIRT_END \<and> vmm_region_count (hp_vmm s) + 2 \<le> MAX_VIRT_REGIONS
     \<and> 267 \<le> frames_left (hp_vmm s) \<and> 33680 \<le> hp_current_end s - hp_start s"

lemma memory_tests_pass:
  assumes ready: "heap_ready R X s" and empty: "heap_live s = {}" and room: "test_room s" and null: "verify_null_page_unmapped (hp_vmm s)"
  obtains s' where "memory_self_tests junk s = Some (Inr (), s')" and "heap_live s' = {}" and "heap_verify_invariants s' = Some (Inr ())"
    and "hp_start s' = hp_start s" and "hp_current_end s \<le> hp_current_end s'"
    and "\<exists>Y. heap_ready R (X \<union> Y) s'" and "frames_left (hp_vmm s) \<le> frames_left (hp_vmm s') + 266"
    and "root_pml4_phys (hp_vmm s') = root_pml4_phys (hp_vmm s)" and "cr3 (hp_vmm s') = cr3 (hp_vmm s)"
    and "vmm_region_count (hp_vmm s') = vmm_region_count (hp_vmm s)" and "unat (next_dynamic_addr (hp_vmm s')) \<le> unat (next_dynamic_addr (hp_vmm s)) + 274432"
proof -
  let ?v = "hp_vmm s"
  note h = heap_readyD [OF ready] and d = vm_readyD [OF heap_readyD(2) [OF ready]] and rm = room [unfolded test_room_def]
  have pi: "pmm_inv (vmm_pmm ?v)" using d(1) by (simp add: vm_ok_def)
  have "card (free_addrs (vmm_pmm ?v)) \<le> card (free_frames (vmm_pmm ?v))"
    unfolding free_addrs_def by (rule card_image_le) simp
  then have t1: "on_vmm (on_pmm test_pmm_hardened) s = Some (Inr (), s)"
    using test_pmm_hardened_passes [OF pi] rm by (simp add: on_vmm_def on_pmm_def)
  obtain v where t2: "test_vmm_hardened ?v = (Inr (), v)" "vm_ready R X v" "mset (live_vregions v) = mset (live_vregions ?v)"
    "same_translations R ?v v" "frames_left ?v \<le> frames_left v + 6" "cr3 v = cr3 ?v" "root_pml4_phys v = root_pml4_phys ?v"
    "next_dynamic_addr v = next_dynamic_addr ?v + 24576"
    using test_vmm_hardened_passes [OF h(2) _ _ null] rm by auto
  have cur: "unat (next_dynamic_addr v) = unat (next_dynamic_addr ?v) + 24576"
    unfolding t2(8) using rm unat_u64_less [of DYNAMIC_VIRT_END] by (intro unat_add_u64 [THEN trans]) auto
  let ?s2 = "s\<lparr>hp_vmm := v\<rparr>"
  have r2: "heap_ready R X ?s2" "heap_live ?s2 = {}"
    using heap_ready_vmm [OF ready t2(2) _ t2(4,7)] cur empty by (simp_all add: word_le_nat_alt)
  obtain Y s3 where t3: "test_heap_hardened junk ?s2 = Some (Inr (), s3)" "heap_ready R (X \<union> Y) s3" "heap_live s3 = {}" "grown_vmm ?s2 s3"
    by (rule test_heap_hardened_ok [OF r2]) (use rm h(5) t2(5) in auto)
  note g = t3(4) [unfolded grown_vmm_def, simplified] and d3 = vm_readyD [OF heap_readyD(2) [OF t3(2)]]
  have cur3: "unat (next_dynamic_addr (hp_vmm s3)) + 8192 \<le> unat DYNAMIC_VIRT_END" using g cur rm h(5) by (auto simp: max_def split: if_splits)
  have cnt: "vmm_region_count (hp_vmm s3) = vmm_region_count ?v"
    using region_count_length [OF d3(2)] region_count_length [OF d(2)] g mset_eq_length [OF t2(3)] by simp
  have rb: "root_pml4_phys (hp_vmm s3) \<noteq> 0" "free_frames (vmm_pmm (hp_vmm s3)) \<noteq> {}" "vmm_region_count (hp_vmm s3) < MAX_VIRT_REGIONS"
    using g t2(5,7) rm cnt by (auto simp: free_addrs_def)
  obtain v4 where t4: "run_rollback_tests (hp_vmm s3) = (Inr (), v4)" "vm_ready R (X \<union> Y) v4" "vmm_pmm v4 = vmm_pmm (hp_vmm s3)" "vmm_mem v4 = vmm_mem (hp_vmm s3)"
    "mset (live_vregions v4) = mset (live_vregions (hp_vmm s3))" "next_dynamic_addr v4 = next_dynamic_addr (hp_vmm s3) + 8192"
    "root_pml4_phys v4 = root_pml4_phys (hp_vmm s3)" "cr3 v4 = cr3 (hp_vmm s3)"
    by (rule rollback_ready [OF heap_readyD(2) [OF t3(2)] rb(1,2) cur3 rb(3)])
  have cur4: "unat (next_dynamic_addr v4) = unat (next_dynamic_addr (hp_vmm s3)) + 8192"
    unfolding t4(6) using cur3 unat_u64_less [of DYNAMIC_VIRT_END] by (intro unat_add_u64 [THEN trans]) auto
  let ?s4 = "s3\<lparr>hp_vmm := v4\<rparr>"
  have same4: "same_translations R (hp_vmm s3) v4" by (simp add: same_translations_def t4(4))
  have r4: "heap_ready R (X \<union> Y) ?s4" and e4: "heap_live ?s4 = {}"
    using heap_ready_vmm [OF t3(2) t4(2) _ same4 t4(7)] cur4 t3(3) by (simp_all add: word_le_nat_alt)
  have big4: "33680 \<le> hp_current_end ?s4 - hp_start ?s4"
    using rm g diff_le_mono [of "hp_current_end s" "hp_current_end s3" "hp_start s"] by simp
  obtain s5 where t5: "run_stress_test junk ?s4 = Some (Inr (), s5)" "heap_live s5 = {}" "heap_verify_invariants s5 = Some (Inr ())"
    "hp_start s5 = hp_start ?s4" "hp_current_end s5 = hp_current_end ?s4" "heap_ok s5" "hp_vmm s5 = hp_vmm ?s4"
    using run_stress_test_passes [OF heap_readyD(1) [OF r4] e4 big4, of junk] by blast
  have run: "memory_self_tests junk s = Some (Inr (), s5)"
    using t1 t2(1) t3(1) t4(1) t5(1) by (simp add: memory_self_tests_def on_vmm_def)
  have "heap_ready R (X \<union> Y) s5" using r4 t5(4-7) by (simp add: heap_ready_def)
  moreover have "vmm_region_count v4 = vmm_region_count ?v"
    using region_count_length [OF vm_readyD(2) [OF t4(2)]] region_count_length [OF d3(2)] cnt mset_eq_length [OF t4(5)] by simp
  moreover have "unat (next_dynamic_addr v4) \<le> unat (next_dynamic_addr ?v) + 274432"
    using cur4 g cur h(5) by (auto simp: max_def split: if_splits)
  ultimately show thesis
    by (intro that [OF run]) (use t5(2-5,7) t4(3,7,8) t2(5-7) g in \<open>auto simp del: walk.simps\<close>)
qed

subsection \<open>After the boot\<close>

lemma heap_init_ready:
  assumes ready: "vm_ready R X v" and room: "unat (next_dynamic_addr v) + 131072 \<le> unat DYNAMIC_VIRT_END"
      "vmm_region_count v < MAX_VIRT_REGIONS" "128 \<le> frames_left v"
  obtains Y s where "heap_init (heap_state_new hdr bytes v) = (Inr (), s)" and "heap_ready R (X \<union> Y) s" and "heap_live s = {}"
    and "hp_start s = unat (next_dynamic_addr v)" and "hp_current_end s = hp_start s + 131072" and "unat (next_dynamic_addr (hp_vmm s)) = unat (next_dynamic_addr v) + 131072"
    and "frames_left v \<le> frames_left (hp_vmm s) + 128" and "root_pml4_phys (hp_vmm s) = root_pml4_phys v" and "cr3 (hp_vmm s) = cr3 v"
    and "vmm_region_count (hp_vmm s) = vmm_region_count v + 1"
    and "\<forall>q e. length q = 4 \<longrightarrow> xlate (vmm_mem v) (root_pml4_phys v) q = Some e \<longrightarrow> xlate (vmm_mem (hp_vmm s)) (root_pml4_phys v) q = Some e"
proof -
  have n: "(0x20000 :: u64) \<noteq> 0" "(0x20000 :: u64) mod PAGE_SIZE = 0" "unat ((0x20000 :: u64) div PAGE_SIZE) \<le> 128" by simp_all
  note d = vm_readyD [OF ready]
  obtain r v1 fs where a: "allocate_and_map_region 0x20000 PERM_KERNEL_DATA DynamicKernel v = (Inr r, v1)" "vm_ready R (X \<union> set fs) v1"
    "without_pages R (root_pml4_phys v) (region_paths r) (vmm_mem v1) (vmm_mem v)"
    "root_pml4_phys v1 = root_pml4_phys v" "cr3 v1 = cr3 v" "live_vregions v1 = live_vregions v @ [r\<lparr>owns_physical_pages := False\<rparr>]"
    "next_dynamic_addr v1 = next_dynamic_addr v + 0x20000" "frames_left v \<le> frames_left v1 + 4 * unat ((0x20000 :: u64) div PAGE_SIZE)"
    by (rule ready_alloc [OF ready n, of PERM_KERNEL_DATA DynamicKernel]) (use room in simp_all)
  obtain s where i: "heap_init (heap_state_new hdr bytes v) = (Inr (), s)" and sv: "hp_vmm s = v1"
    using a(1) by (auto simp: heap_init_def heap_state_new_def Let_def kernel_consts)
  note hi = heap_init_inv [OF d(1-4) i]
  have cur: "unat (next_dynamic_addr v1) = unat (next_dynamic_addr v) + 131072"
    unfolding a(7) using room(1) unat_u64_less [of DYNAMIC_VIRT_END] by (intro unat_add_u64 [THEN trans]) auto
  have al: "unat (next_dynamic_addr v) mod 4096 = 0" "unat DYNAMIC_VIRT_START \<le> unat (next_dynamic_addr v)"
    using d(3) by (simp_all add: cursor_ok_def va_is_aligned_def aligned_iff_dvd word_le_nat_alt dvd_eq_mod_eq_0)
  have "4096 dvd unat (next_dynamic_addr v) + 131072" using al(1) by (simp add: dvd_eq_mod_eq_0 [symmetric])
  then have m: "(unat (next_dynamic_addr v) + 131072) mod 4096 = 0" by (simp add: dvd_eq_mod_eq_0)
  have "heap_ready R (X \<union> set fs) s"
    unfolding heap_ready_def sv hi(3)
    using heap_okI [OF hi(1)] a(2) m al(2) cur vm_readyD(7) [OF a(2)] by (simp add: word_le_nat_alt)
  moreover have "heap_live s = {}" using heap_live_inv [OF hi(1)] by (simp add: initial_block_def)
  moreover have "vmm_region_count v1 = vmm_region_count v + 1"
    using region_count_length [OF vm_readyD(2) [OF a(2)]] region_count_length [OF d(2)] a(6) by simp
  moreover have "\<forall>q e. length q = 4 \<longrightarrow> xlate (vmm_mem v) (root_pml4_phys v) q = Some e \<longrightarrow> xlate (vmm_mem v1) (root_pml4_phys v) q = Some e"
    using without_pagesD [OF a(3) d(4)] by (metis option.distinct(1))
  ultimately show thesis using that [OF i] hi(2,3) cur a(4,5,8) sv by simp
qed

text \<open>What the null-page check reads: the walk goes through the 2 MiB entry at address 0 as if it were a table, so the answer is the
  lowest bit of the word stored at physical address 0.\<close>

lemma null_check_reads_memory:
  assumes "xlate (vmm_mem s) (root_pml4_phys s) (va_path 0) = Some (low_entry 0, [pt_index_of 0])"
  shows "verify_null_page_unmapped s \<longleftrightarrow> \<not> is_present (vmm_mem s 0 0)"
proof -
  have "is_canonical 0" by (simp add: is_canonical_def)
  moreover have "pte_phys_addr (low_entry 0) = 0" "pt_index_of 0 = 0" by (simp_all add: low_entry_def pt_index_of_def low_block_def pte_set_def pte_phys_addr_def kernel_consts)
  ultimately show ?thesis
    using translate_large_page [OF _ assms] by (simp add: verify_null_page_unmapped_def Let_def)
qed

lemma memory_tests_null:
  assumes "heap_ready R X s" and "2 \<le> frames_left (hp_vmm s)" and "root_pml4_phys (hp_vmm s) \<noteq> 0" and "\<not> verify_null_page_unmapped (hp_vmm s)"
  shows "memory_self_tests junk s = Some (Inl ''Virtual address 0 (NULL page) is mapped!'', s)"
proof -
  let ?v = "hp_vmm s"
  have pi: "pmm_inv (vmm_pmm ?v)" using vm_readyD(1) [OF heap_readyD(2) [OF assms(1)]] by (simp add: vm_ok_def)
  have "card (free_addrs (vmm_pmm ?v)) \<le> card (free_frames (vmm_pmm ?v))"
    unfolding free_addrs_def by (rule card_image_le) simp
  then have "on_vmm (on_pmm test_pmm_hardened) s = Some (Inr (), s)"
    using test_pmm_hardened_passes [OF pi] assms(2) by (simp add: on_vmm_def on_pmm_def)
  then show ?thesis
    using assms(3,4) by (simp add: memory_self_tests_def on_vmm_def test_vmm_hardened_def test_vmm_checks_def
        verify_page_tables_only_checks_root ensure_def and_then_def)
qed

text \<open>The heap after the bring-up, and what the check of the null page reads there.\<close>

lemma heap_at_boot:
  fixes v :: vmm and mm :: physical_memory_map
  assumes mm: "memory_map_ok mm" "usable_nonoverlapping (live_regions mm)" "low_regions mm" and dev: "low_devices lapic ioapic fb"
    and frames: "652 \<le> card (free_addrs (pmm_init mm))"
    and pool: "pool_ok (v\<lparr>vmm_pmm := pmm_init mm, is_bootstrapping := True\<rparr>)" "bootstrap_index v = 0" "pool_base v \<noteq> 0"
    and init: "length (vmm_regions v) = MAX_VIRT_REGIONS" "vmm_region_count v = 0" "next_dynamic_addr v = DYNAMIC_VIRT_START"
  obtains v' h Y where "vmm_init mm lapic ioapic fb (v\<lparr>vmm_pmm := pmm_init mm\<rparr>) = (Inr (), v')" and "heap_init (heap_state_new hdr bytes v') = (Inr (), h)"
    and "heap_ready {pool_base v} Y h" and "heap_live h = {}" and "test_room h" and "card (free_addrs (pmm_init mm)) \<le> frames_left (hp_vmm h) + 384"
    and "verify_null_page_unmapped (hp_vmm h) \<longleftrightarrow> even (vmm_mem (hp_vmm h) 0 0)"
    and "root_pml4_phys (hp_vmm h) = pool_base v" and "cr3 (hp_vmm h) = pool_base v" and "hp_start h = unat DYNAMIC_VIRT_START" and "hp_current_end h = hp_start h + 131072"
    and "unat (next_dynamic_addr (hp_vmm h)) = unat DYNAMIC_VIRT_START + 131072" and "vmm_region_count (hp_vmm h) \<le> 132"
proof -
  let ?v = "v\<lparr>vmm_pmm := pmm_init mm\<rparr>"
  have inv: "pmm_inv (vmm_pmm ?v)" using pmm_init_inv [OF mm(2)] by simp
  have po: "pool_ok (?v\<lparr>is_bootstrapping := True\<rparr>)" "bootstrap_index ?v = 0" using pool by simp_all
  obtain v' where i: "vmm_init mm lapic ioapic fb ?v = (Inr (), v')" "card (free_addrs (pmm_init mm)) \<le> frames_left v' + 256"
    using init_completes [OF inv po, of mm lapic ioapic fb] frames by auto
  note k = vmm_init_ok(1) [OF inv po i(1)]
  have st: "length (vmm_regions ?v) = MAX_VIRT_REGIONS" "vmm_region_count ?v = 0" "next_dynamic_addr ?v = DYNAMIC_VIRT_START" using init by simp_all
  note l = init_ready [OF inv po st mm(1,3) dev i(1)]
  have cnt: "vmm_region_count v' \<le> 131" "next_dynamic_addr v' = DYNAMIC_VIRT_START" and ready: "vm_ready {pool_base v} {} v'" using l by simp_all
  obtain Y h where h: "heap_init (heap_state_new hdr bytes v') = (Inr (), h)" "heap_ready {pool_base v} ({} \<union> Y) h" "heap_live h = {}"
    "hp_current_end h = hp_start h + 131072" "unat (next_dynamic_addr (hp_vmm h)) = unat (next_dynamic_addr v') + 131072"
    "frames_left v' \<le> frames_left (hp_vmm h) + 128" "root_pml4_phys (hp_vmm h) = root_pml4_phys v'" "cr3 (hp_vmm h) = cr3 v'"
    "vmm_region_count (hp_vmm h) = vmm_region_count v' + 1" "hp_start h = unat (next_dynamic_addr v')"
    "\<forall>q e. length q = 4 \<longrightarrow> xlate (vmm_mem v') (root_pml4_phys v') q = Some e \<longrightarrow> xlate (vmm_mem (hp_vmm h)) (root_pml4_phys v') q = Some e"
    by (rule heap_init_ready [OF ready, of hdr bytes]) (use cnt i(2) frames in \<open>auto simp: kernel_consts\<close>)
  have fr: "267 \<le> frames_left (hp_vmm h)" using frames i(2) h(6) by linarith
  have room: "test_room h"
    using k cnt h(4,5,7,8,9) pool(3) fr by (simp add: test_room_def kernel_consts del: walk.simps)
  have "xlate (vmm_mem v') (pool_base v) (va_path 0) = Some (low_entry 0, [pt_index_of 0])" using vmm_init_ok(2) [OF inv po i(1), of 0] by simp
  moreover have "length (va_path 0) = 4" by (simp add: va_path_def)
  ultimately have "xlate (vmm_mem (hp_vmm h)) (root_pml4_phys (hp_vmm h)) (va_path 0) = Some (low_entry 0, [pt_index_of 0])"
    using h(7,11) k by simp
  from null_check_reads_memory [OF this] have null: "verify_null_page_unmapped (hp_vmm h) \<longleftrightarrow> even (vmm_mem (hp_vmm h) 0 0)"
    by (simp add: is_present_def kernel_consts and_one_eq even_iff_mod_2_eq_zero)
  have f: "card (free_addrs (pmm_init mm)) \<le> frames_left (hp_vmm h) + 384" using i(2) h(6) by linarith
  show thesis
    by (rule that [OF i(1) h(1) _ h(3) room f null]) (use h(2,4,5,7-10) l(2,3) cnt in simp_all)
qed

text \<open>The boot-time tests of the memory subsystem: on a well-formed firmware map with 652 usable frames below 64 TiB, from the initial statics,
  \<^verbatim>\<open>pmm::init\<close>, \<^verbatim>\<open>vmm::init\<close> and \<^verbatim>\<open>heap::init\<close> succeed, and then the whole of \<^verbatim>\<open>run_self_tests\<close> of \<^verbatim>\<open>memory.rs\<close> passes (the tests of the frame
  allocator, of the page tables and regions, of the heap with its growth by 65 pages, of the rollback and the stress test) and leaves no
  block in use, if and only if the word at physical address 0 is even.  Otherwise the machine halts in the null-page check.\<close>

theorem memory_self_tests_at_boot:
  fixes v :: vmm and mm :: physical_memory_map
  assumes mm: "memory_map_ok mm" "usable_nonoverlapping (live_regions mm)" "low_regions mm" and dev: "low_devices lapic ioapic fb"
    and frames: "652 \<le> card (free_addrs (pmm_init mm))"
    and pool: "pool_ok (v\<lparr>vmm_pmm := pmm_init mm, is_bootstrapping := True\<rparr>)" "bootstrap_index v = 0" "pool_base v \<noteq> 0"
    and init: "length (vmm_regions v) = MAX_VIRT_REGIONS" "vmm_region_count v = 0" "next_dynamic_addr v = DYNAMIC_VIRT_START"
  shows "\<exists>v' h. vmm_init mm lapic ioapic fb (v\<lparr>vmm_pmm := pmm_init mm\<rparr>) = (Inr (), v')
    \<and> heap_init (heap_state_new hdr bytes v') = (Inr (), h)
    \<and> (if even (vmm_mem (hp_vmm h) 0 0)
        then \<exists>h'. memory_self_tests junk h = Some (Inr (), h') \<and> heap_live h' = {} \<and> heap_verify_invariants h' = Some (Inr ())
        else memory_self_tests junk h = Some (Inl ''Virtual address 0 (NULL page) is mapped!'', h))"
proof -
  obtain v' h Y where h: "vmm_init mm lapic ioapic fb (v\<lparr>vmm_pmm := pmm_init mm\<rparr>) = (Inr (), v')" "heap_init (heap_state_new hdr bytes v') = (Inr (), h)"
    "heap_ready {pool_base v} Y h" "heap_live h = {}" "test_room h" "verify_null_page_unmapped (hp_vmm h) \<longleftrightarrow> even (vmm_mem (hp_vmm h) 0 0)"
    by (rule heap_at_boot [OF assms])
  show ?thesis
  proof (cases "even (vmm_mem (hp_vmm h) 0 0)")
    case True
    obtain h' where "memory_self_tests junk h = Some (Inr (), h')" "heap_live h' = {}" "heap_verify_invariants h' = Some (Inr ())"
      by (rule memory_tests_pass [OF h(3-5)]) (use h(6) True in simp)
    then show ?thesis using h(1,2) True by auto
  next
    case False
    then have "memory_self_tests junk h = Some (Inl ''Virtual address 0 (NULL page) is mapped!'', h)"
      using memory_tests_null [OF h(3), of junk] h(5,6) by (simp add: test_room_def)
    then show ?thesis using h(1,2) False by auto
  qed
qed

text \<open>A machine with 4 MiB of usable memory and the bootstrap pool at 16 MiB.\<close>

definition test_map :: physical_memory_map where
  "test_map = \<lparr>mm_regions = \<lparr>physical_start = 0, physical_end = 0x400000, page_count = 1024,
       region_type = Usable, is_usable = True\<rparr> # replicate 127 memory_region_empty,
     mm_region_count = 1, total_memory_bytes = 0x400000, usable_memory_bytes = 0x400000,
     reserved_memory_bytes = 0\<rparr>"

lemma test_map_live: "live_regions test_map = [\<lparr>physical_start = 0, physical_end = 0x400000, page_count = 1024,
     region_type = Usable, is_usable = True\<rparr>]"
  by (simp add: live_regions_def test_map_def)

lemma test_map_frames: "free_frames (pmm_init test_map) = {1..<1024}"
proof -
  have "managed_total (live_regions test_map) = 1024"
    by (simp add: managed_total_def highest_addr_def test_map_live kernel_consts)
  moreover have "set (usable_page_list (live_regions test_map)) = {0..<1024}"
    by (simp add: usable_page_list_def region_pages_def test_map_live)
  ultimately show ?thesis unfolding pmm_init_free_frames by auto
qed

lemma test_map_free:
  "card (free_addrs (pmm_init test_map)) = 1023" "f \<in> free_addrs (pmm_init test_map) \<Longrightarrow> unat f < 0x400000"
proof -
  have "inj_on from_page_number {1..<1024}" by (rule inj_on_subset [OF inj_from_page_number]) auto
  then show "card (free_addrs (pmm_init test_map)) = 1023" unfolding free_addrs_def test_map_frames by (simp add: card_image)
  assume "f \<in> free_addrs (pmm_init test_map)"
  then obtain n where n: "n < 1024" "f = from_page_number n" by (auto simp: free_addrs_def test_map_frames)
  then have "n < 2 ^ 52" by simp
  from unat_from_page_number [OF this] n show "unat f < 0x400000" by simp
qed

theorem memory_self_tests_at_boot_witness:
  "\<exists>v' h. vmm_init test_map 0xFEE00000 0xFEC00000 None (boot_vm\<lparr>vmm_pmm := pmm_init test_map\<rparr>) = (Inr (), v')
     \<and> heap_init (heap_state_new (\<lambda>_. poison_header) (\<lambda>_. 0) v') = (Inr (), h)
     \<and> (if even (vmm_mem (hp_vmm h) 0 0)
         then \<exists>h'. memory_self_tests (\<lambda>_. poison_header) h = Some (Inr (), h') \<and> heap_live h' = {} \<and> heap_verify_invariants h' = Some (Inr ())
         else memory_self_tests (\<lambda>_. poison_header) h = Some (Inl ''Virtual address 0 (NULL page) is mapped!'', h))"
proof -
  have m: "memory_map_ok test_map" "usable_nonoverlapping (live_regions test_map)" "low_regions test_map"
    using test_map_live by (simp_all add: memory_map_ok_def low_regions_def region_ok_def sum_bytes_def usable_nonoverlapping_def)
      (simp_all add: test_map_def kernel_consts)
  have d: "low_devices 0xFEE00000 0xFEC00000 None" by (simp add: low_devices_def)
  have r: "length (vmm_regions boot_vm) = MAX_VIRT_REGIONS" "vmm_region_count boot_vm = 0" "next_dynamic_addr boot_vm = DYNAMIC_VIRT_START"
    "bootstrap_index boot_vm = 0" "pool_base boot_vm \<noteq> 0"
    by (simp_all add: boot_vm_def sample_vm_def kernel_consts)
  have pool: "pool_ok (boot_vm\<lparr>vmm_pmm := pmm_init test_map, is_bootstrapping := True\<rparr>)"
    by (rule boot_pool_any) (use test_map_free(2) in force)
  have "652 \<le> card (free_addrs (pmm_init test_map))" by (simp add: test_map_free)
  from memory_self_tests_at_boot [OF m d this pool r(4,5,1-3), of "\<lambda>_. poison_header" "\<lambda>_. 0" "\<lambda>_. poison_header"] show ?thesis .
qed

end
