(* ===== verification/Process_Tests.thy ===== *)
theory Process_Tests
  imports Process_Run Thread_Tests Address_Space_Use Memory_Tests
begin

text \<open>
  The boot-time test of processes, \<^verbatim>\<open>run_self_tests\<close> of \<^verbatim>\<open>src/src/process.rs\<close>: processes with address spaces of their own are created, two
  threads of one process and then threads of two processes hand the processor to each other, the latter with a change of CR3, and a
  process is terminated.  The statics of the test are three processes and the stage counter.

  Assigning to a static drops the process it held, which gives back its address space; the two local processes are dropped at the end, the
  second first.  Parameters: the return address and the stack pointer at each call of \<^verbatim>\<open>switch_to\<close> and the addresses of the thread functions.
  A halt or a panic is the left result with its message.
\<close>

datatype proc_static = MAIN_PROC | PROC_A | PROC_B

record test_procs =
  tp_kernel :: kernel
  tp_proc :: "proc_static \<Rightarrow> process"
  test_switch_stage :: u32

text \<open>The static's initial value, and an assignment to a static.\<close>

definition static_process :: "string \<Rightarrow> process_state \<Rightarrow> process" where
  "static_process name state = \<lparr>p_id = 0, p_name = name, p_state = state, p_threads = [],
     p_space = \<lparr>as_id = 0, root_page = 0, owns_root = False\<rparr>\<rparr>"

definition test_procs_init :: "kernel \<Rightarrow> test_procs" where
  "test_procs_init k = \<lparr>tp_kernel = k,
     tp_proc = (\<lambda>x. case x of MAIN_PROC \<Rightarrow> static_process ''kernel_bootstrap'' PRunning
       | PROC_A \<Rightarrow> static_process ''proc_a'' PCreated | PROC_B \<Rightarrow> static_process ''proc_b'' PCreated),
     test_switch_stage = 0\<rparr>"

definition assign_process :: "proc_static \<Rightarrow> process \<Rightarrow> test_procs \<Rightarrow> test_procs" where
  "assign_process x p s = s\<lparr>tp_kernel := drop_process (tp_proc s x) (tp_kernel s), tp_proc := (tp_proc s)(x := p)\<rparr>"

definition new_static :: "proc_static \<Rightarrow> string \<Rightarrow> string \<Rightarrow> test_procs \<Rightarrow> string + test_procs" where
  "new_static x name msg s =
     bind_sum (expect msg (process_new name (tp_kernel s))) (\<lambda>(p, k). Inr (assign_process x p (s\<lparr>tp_kernel := k\<rparr>)))"

definition attach_thread :: "proc_static \<Rightarrow> string \<Rightarrow> u64 \<Rightarrow> u64 \<Rightarrow> test_procs \<Rightarrow> test_procs" where
  "attach_thread x name entry arg s =
     (case create_thread name entry arg (tp_proc s x) (tp_kernel s) of
        (_, p, k) \<Rightarrow> s\<lparr>tp_kernel := k, tp_proc := (tp_proc s)(x := p)\<rparr>)"

definition verify_static :: "proc_static \<Rightarrow> string \<Rightarrow> test_procs \<Rightarrow> string + test_procs" where
  "verify_static x msg s = (case verify (tp_proc s x) of Inl _ \<Rightarrow> Inl msg | Inr _ \<Rightarrow> Inr s)"

subsection \<open>Switching\<close>

text \<open>The position of each of the three threads: its process and its index there.\<close>

definition same_pos :: "tid \<Rightarrow> proc_static \<times> nat" where
  "same_pos t = (case t of MainT \<Rightarrow> (MAIN_PROC, 0) | FirstT \<Rightarrow> (PROC_A, 0) | SecondT \<Rightarrow> (PROC_A, 1))"

definition cross_pos :: "tid \<Rightarrow> proc_static \<times> nat" where
  "cross_pos t = (case t of MainT \<Rightarrow> (MAIN_PROC, 0) | FirstT \<Rightarrow> (PROC_A, 0) | SecondT \<Rightarrow> (PROC_B, 0))"

text \<open>Two threads of one process come from \<^verbatim>\<open>get_two_threads_mut\<close>, asked for the lower index first; threads of two processes from \<^verbatim>\<open>get_thread_mut\<close>.\<close>

definition pick_threads :: "proc_static \<times> nat \<Rightarrow> proc_static \<times> nat \<Rightarrow> test_procs \<Rightarrow> (kernel_thread \<times> kernel_thread) option" where
  "pick_threads x y s =
     (if fst x = fst y
      then if snd x < snd y then get_two_threads_mut (snd x) (snd y) (tp_proc s (fst x))
           else map_option (\<lambda>(t, u). (u, t)) (get_two_threads_mut (snd y) (snd x) (tp_proc s (fst x)))
      else case get_thread_mut (snd x) (tp_proc s (fst x)) of
             None \<Rightarrow> None
           | Some t \<Rightarrow> map_option (Pair t) (get_thread_mut (snd y) (tp_proc s (fst y))))"

definition store_thread :: "proc_static \<times> nat \<Rightarrow> kernel_thread \<Rightarrow> test_procs \<Rightarrow> test_procs" where
  "store_thread x t s = s\<lparr>tp_proc := (tp_proc s)(fst x :=
     (tp_proc s (fst x))\<lparr>p_threads := (p_threads (tp_proc s (fst x)))[snd x := t]\<rparr>)\<rparr>"

definition switch_procs :: "(nat \<Rightarrow> u64 \<times> u64) \<Rightarrow> (tid \<Rightarrow> proc_static \<times> nat) \<Rightarrow> nat \<Rightarrow> tid \<Rightarrow> tid \<Rightarrow> test_procs \<Rightarrow> string + test_procs" where
  "switch_procs sites pos n current target s =
     (case pick_threads (pos current) (pos target) s of
        None \<Rightarrow> Inl ''called unwrap on a None value''
      | Some (c, t) \<Rightarrow>
          (case switch_to (fst (sites n)) (snd (sites n)) c t of
             Inl e \<Rightarrow> Inl ''switch rejected''
           | Inr (c, t) \<Rightarrow> Inr (store_thread (pos target) t (store_thread (pos current) c s))))"

subsection \<open>The thread functions\<close>

text \<open>What the functions read and write: the stage, the address spaces of the statics, and the state that \<^verbatim>\<open>activate\<close> changes.\<close>

record proc_view =
  pv_stage :: u32
  pv_as :: as_state
  pv_space :: "proc_static \<Rightarrow> address_space"

definition view :: "test_procs \<Rightarrow> proc_view" where
  "view s = \<lparr>pv_stage = test_switch_stage s, pv_as = k_as (tp_kernel s), pv_space = (\<lambda>x. p_space (tp_proc s x))\<rparr>"

definition put_view :: "proc_view \<Rightarrow> test_procs \<Rightarrow> test_procs" where
  "put_view m s = s\<lparr>test_switch_stage := pv_stage m, tp_kernel := (tp_kernel s)\<lparr>k_as := pv_as m\<rparr>,
     tp_proc := (\<lambda>x. (tp_proc s x)\<lparr>p_space := pv_space m x\<rparr>)\<rparr>"

definition set_stage :: "u32 \<Rightarrow> proc_view action" where
  "set_stage n = assign (\<lambda>m. m\<lparr>pv_stage := n\<rparr>)"

definition activate_static :: "proc_static \<Rightarrow> proc_view action" where
  "activate_static x = assign (\<lambda>m. m\<lparr>pv_as := as_activate (pv_space m x) (pv_as m)\<rparr>)"

definition test_same_proc_thread_a2 :: "proc_view code" where
  "test_same_proc_thread_a2 = [Switch 0 SecondT FirstT]"

definition test_same_proc_thread_a1 :: "proc_view code" where
  "test_same_proc_thread_a1 = [Switch 1 FirstT SecondT, set_stage 1, Switch 2 FirstT MainT]"

definition test_cross_proc_thread_b1 :: "proc_view code" where
  "test_cross_proc_thread_b1 = [activate_static PROC_A, set_stage 2, Switch 3 SecondT FirstT]"

definition test_cross_proc_thread_a1 :: "proc_view code" where
  "test_cross_proc_thread_a1 =
     [activate_static PROC_B, Switch 4 FirstT SecondT, set_stage 3, activate_static MAIN_PROC, Switch 5 FirstT MainT]"

definition same_main :: "proc_view code" where
  "same_main = [set_stage 0, Switch 6 MainT FirstT, check (\<lambda>m. pv_stage m = 1) ''Same-process switch failed to reach stage 1!'']"

definition cross_main :: "proc_view code" where
  "cross_main = [activate_static PROC_A, set_stage 0, Switch 7 MainT FirstT,
     check (\<lambda>m. pv_stage m = 3) ''Cross-process switch failed to reach stage 3!'']"

subsection \<open>The test\<close>

abbreviation proc_code :: "proc_view code \<Rightarrow> test_procs code" where
  "proc_code \<equiv> place_code view put_view"

definition ownership_test :: "(nat \<Rightarrow> u64) \<Rightarrow> test_procs \<Rightarrow> string + test_procs" where
  "ownership_test entry s =
     bind_sum (new_static PROC_A ''proc_a_multithread'' ''Process proc_a_multithread creation failed'' s) (\<lambda>s.
     let s = attach_thread PROC_A ''thread_a1'' (entry 0) 10 s;
         s = attach_thread PROC_A ''thread_a2'' (entry 1) 20 s;
         pa = tp_proc s PROC_A
     in if length (p_threads pa) \<noteq> 2 then Inl ''Expected 2 threads in Process A''
        else if process_id (p_threads pa ! 0) \<noteq> p_id pa \<or> process_id (p_threads pa ! 1) \<noteq> p_id pa then Inl ''Threads do not match Process A PID!''
        else verify_static PROC_A ''Process A verification failed'' s)"

definition same_process_test :: "(nat \<Rightarrow> u64 \<times> u64) \<Rightarrow> test_procs \<Rightarrow> string + test_procs" where
  "same_process_test sites s =
     run_co (switch_procs sites same_pos) (\<lambda>t. proc_code (pending test_same_proc_thread_a1 test_same_proc_thread_a2 t)) (proc_code same_main)
       (assign_process MAIN_PROC (bootstrap_process (tp_kernel s)) s)"

definition cross_process_test :: "(nat \<Rightarrow> u64 \<times> u64) \<Rightarrow> (nat \<Rightarrow> u64) \<Rightarrow> test_procs \<Rightarrow> string + test_procs" where
  "cross_process_test sites entry s =
     bind_sum (new_static PROC_A ''proc_a'' ''Process proc_a creation failed'' s) (\<lambda>s.
     bind_sum (new_static PROC_B ''proc_b'' ''Process proc_b creation failed'' s) (\<lambda>s.
     let s = attach_thread PROC_A ''thread_a1'' (entry 2) 100 s;
         s = attach_thread PROC_B ''thread_b1'' (entry 3) 200 s
     in bind_sum (verify_static PROC_A ''Process A verification failed'' s) (\<lambda>s.
        bind_sum (verify_static PROC_B ''Process B verification failed'' s) (\<lambda>s.
        run_co (switch_procs sites cross_pos) (\<lambda>t. proc_code (pending test_cross_proc_thread_a1 test_cross_proc_thread_b1 t)) (proc_code cross_main) s))))"

definition termination_test :: "test_procs \<Rightarrow> string + test_procs" where
  "termination_test s =
     (let s = s\<lparr>tp_proc := (tp_proc s)(PROC_B := terminate (tp_proc s PROC_B))\<rparr>
      in if p_state (tp_proc s PROC_B) \<noteq> PTerminated then Inl ''Process B termination state invalid!''
         else verify_static PROC_B ''Process B post-termination verification failed'' s)"

definition process_self_tests :: "(nat \<Rightarrow> u64 \<times> u64) \<Rightarrow> (nat \<Rightarrow> u64) \<Rightarrow> test_procs \<Rightarrow> string + test_procs" where
  "process_self_tests sites entry s =
     bind_sum (expect ''Process process_alpha creation failed'' (process_new ''process_alpha'' (tp_kernel s))) (\<lambda>(proc_a, k).
     bind_sum (expect ''Process process_beta creation failed'' (process_new ''process_beta'' k)) (\<lambda>(proc_b, k).
     if p_id proc_a = p_id proc_b then Inl ''Process Alpha and Beta share identical PIDs!''
     else
       bind_sum (ownership_test entry (s\<lparr>tp_kernel := k\<rparr>)) (\<lambda>s.
       bind_sum (same_process_test sites s) (\<lambda>s.
       bind_sum (cross_process_test sites entry s) (\<lambda>s.
       bind_sum (termination_test s) (\<lambda>s.
       Inr (s\<lparr>tp_kernel := drop_process proc_a (drop_process proc_b (tp_kernel s))\<rparr>)))))))"

subsection \<open>A switch between processes is a handover\<close>

definition threads_at :: "(tid \<Rightarrow> proc_static \<times> nat) \<Rightarrow> test_procs \<Rightarrow> tid \<Rightarrow> kernel_thread" where
  "threads_at pos s t = p_threads (tp_proc s (fst (pos t))) ! snd (pos t)"

text \<open>What neither a switch nor the functions change.\<close>

definition same_shape :: "test_procs \<Rightarrow> test_procs \<Rightarrow> bool" where
  "same_shape s s' \<longleftrightarrow> tp_kernel s' = (tp_kernel s)\<lparr>k_as := k_as (tp_kernel s')\<rparr>
     \<and> (\<forall>x. p_id (tp_proc s' x) = p_id (tp_proc s x) \<and> p_name (tp_proc s' x) = p_name (tp_proc s x) \<and> p_state (tp_proc s' x) = p_state (tp_proc s x)
          \<and> map t_id (p_threads (tp_proc s' x)) = map t_id (p_threads (tp_proc s x))
          \<and> map process_id (p_threads (tp_proc s' x)) = map process_id (p_threads (tp_proc s x)))"

lemma same_shapeD:
  assumes "same_shape s s'"
  shows "tp_kernel s' = (tp_kernel s)\<lparr>k_as := k_as (tp_kernel s')\<rparr>"
    and "p_id (tp_proc s' x) = p_id (tp_proc s x)" and "p_name (tp_proc s' x) = p_name (tp_proc s x)" and "p_state (tp_proc s' x) = p_state (tp_proc s x)"
    and "map t_id (p_threads (tp_proc s' x)) = map t_id (p_threads (tp_proc s x))"
    and "map process_id (p_threads (tp_proc s' x)) = map process_id (p_threads (tp_proc s x))"
    and "length (p_threads (tp_proc s' x)) = length (p_threads (tp_proc s x))"
  using assms map_eq_imp_length_eq unfolding same_shape_def by blast+

lemma same_shape_refl [simp]: "same_shape s s"
  by (simp add: same_shape_def)

lemma same_shape_trans: "same_shape s s' \<Longrightarrow> same_shape s' s'' \<Longrightarrow> same_shape s s''"
  unfolding same_shape_def by (metis kernel.surjective kernel.update_convs(1))

definition places :: "(tid \<Rightarrow> proc_static \<times> nat) \<Rightarrow> test_procs \<Rightarrow> bool" where
  "places pos s \<longleftrightarrow> inj pos \<and> (\<forall>t. snd (pos t) < length (p_threads (tp_proc s (fst (pos t)))))"

lemma store_thread_shape:
  assumes "places pos s" and "t_id t = t_id (threads_at pos s a)" and "process_id t = process_id (threads_at pos s a)"
  shows "same_shape s (store_thread (pos a) t s)" and "threads_at pos (store_thread (pos a) t s) = (threads_at pos s)(a := t)"
    and "view (store_thread (pos a) t s) = view s"
proof -
  have len: "snd (pos b) < length (p_threads (tp_proc s (fst (pos b))))" for b using assms(1) by (simp add: places_def)
  have "map f ((p_threads (tp_proc s (fst (pos a))))[snd (pos a) := t]) = map f (p_threads (tp_proc s (fst (pos a))))"
    if "f t = f (threads_at pos s a)" for f :: "kernel_thread \<Rightarrow> u64"
    using that len [of a] by (simp add: map_update threads_at_def list_update_same_conv)
  then show "same_shape s (store_thread (pos a) t s)"
    using assms(2,3) by (simp add: same_shape_def store_thread_def)
  show "threads_at pos (store_thread (pos a) t s) = (threads_at pos s)(a := t)"
  proof
    fix b
    have "a \<noteq> b \<Longrightarrow> fst (pos a) = fst (pos b) \<Longrightarrow> snd (pos a) \<noteq> snd (pos b)" using assms(1) by (metis injD places_def prod_eqI)
    then show "threads_at pos (store_thread (pos a) t s) b = ((threads_at pos s)(a := t)) b"
      using len [of b] by (auto simp: threads_at_def store_thread_def)
  qed
  show "view (store_thread (pos a) t s) = view s" by (auto simp: view_def store_thread_def)
qed

lemma places_shape: "places pos s \<Longrightarrow> same_shape s s' \<Longrightarrow> places pos s'"
  using same_shapeD(7) by (simp add: places_def)

lemma pick_threads_places:
  assumes "places pos s" and "a \<noteq> b"
  shows "pick_threads (pos a) (pos b) s = Some (threads_at pos s a, threads_at pos s b)"
proof -
  have len: "snd (pos t) < length (p_threads (tp_proc s (fst (pos t))))" for t using assms(1) by (simp add: places_def)
  have "pos a \<noteq> pos b" using assms by (simp add: places_def inj_eq)
  then have "fst (pos a) = fst (pos b) \<Longrightarrow> snd (pos a) \<noteq> snd (pos b) \<and> snd (pos a) < length (p_threads (tp_proc s (fst (pos b))))"
    using len [of a] by (simp add: prod_eq_iff)
  then show ?thesis
    using len [of a] len [of b] by (auto simp: pick_threads_def two_threads_nth get_thread_mut_def threads_at_def)
qed

definition procs_ready :: "(nat \<Rightarrow> u64 \<times> u64) \<Rightarrow> (tid \<Rightarrow> proc_static \<times> nat) \<Rightarrow> test_procs \<Rightarrow> tid \<Rightarrow> test_procs \<Rightarrow> bool" where
  "procs_ready sites pos s0 r s \<longleftrightarrow> (\<forall>n. valid_site (sites n)) \<and> places pos s \<and> threads_ready r (threads_at pos s) \<and> same_shape s0 s"

interpretation proc_switch: handover "switch_procs sites pos" "procs_ready sites pos s0" view put_view
proof
  fix a b n s assume r: "procs_ready sites pos s0 a s" and ab: "a \<noteq> b"
  then have th: "threads_ready a (threads_at pos s)" and site: "valid_site (sites n)" and pl: "places pos s" and sh: "same_shape s0 s"
    by (simp_all add: procs_ready_def)
  from threads_ready_switch [OF th ab site] obtain c t
    where sw: "switch_to (fst (sites n)) (snd (sites n)) (threads_at pos s a) (threads_at pos s b) = Inr (c, t)"
      and rd: "threads_ready b ((threads_at pos s)(a := c, b := t))" by blast
  note k = switch_to_Inr [OF sw]
  let ?s1 = "store_thread (pos a) c s"
  note 1 = store_thread_shape [OF pl k(3,5)]
  note pl1 = places_shape [OF pl 1(1)]
  have "t_id t = t_id (threads_at pos ?s1 b)" "process_id t = process_id (threads_at pos ?s1 b)" using k(4,6) 1(2) ab by simp_all
  note 2 = store_thread_shape [OF pl1 this]
  have "procs_ready sites pos s0 b (store_thread (pos b) t ?s1)"
    using r rd 1 2 same_shape_trans [OF sh same_shape_trans [OF 1(1) 2(1)]] places_shape [OF pl1 2(1)] by (simp add: procs_ready_def)
  then show "\<exists>s'. switch_procs sites pos n a b s = Inr s' \<and> procs_ready sites pos s0 b s' \<and> view s' = view s"
    using pick_threads_places [OF pl ab] sw 1(3) 2(3) by (simp add: switch_procs_def)
next
  show "view (put_view m s) = m" for m s by (simp add: view_def put_view_def)
  show "procs_ready sites pos s0 r (put_view m s)" if "procs_ready sites pos s0 r s" for r s m
  proof -
    have "same_shape s (put_view m s)" by (simp add: same_shape_def put_view_def)
    moreover have "threads_at pos (put_view m s) = threads_at pos s" by (auto simp: threads_at_def put_view_def)
    ultimately show ?thesis using that same_shape_trans places_shape unfolding procs_ready_def by metis
  qed
qed

subsection \<open>The functions on their own data\<close>

lemma same_process_spec:
  "pair_spec test_same_proc_thread_a1 test_same_proc_thread_a2 same_main m = Inr (MainT, m\<lparr>pv_stage := 1\<rparr>)"
  by (simp add: pair_spec_def co_simps test_same_proc_thread_a1_def test_same_proc_thread_a2_def same_main_def set_stage_def)

lemma cross_process_spec:
  "pair_spec test_cross_proc_thread_a1 test_cross_proc_thread_b1 cross_main m = Inr (MainT, m\<lparr>pv_stage := 3,
     pv_as := as_activate (pv_space m MAIN_PROC) (as_activate (pv_space m PROC_A) (as_activate (pv_space m PROC_B) (as_activate (pv_space m PROC_A) (pv_as m))))\<rparr>)"
  by (simp add: pair_spec_def co_simps test_cross_proc_thread_a1_def test_cross_proc_thread_b1_def cross_main_def set_stage_def activate_static_def)

subsection \<open>The kernel under the test\<close>

text \<open>Room for \<open>n\<close> stacks and \<open>m\<close> root tables.\<close>

definition process_room :: "nat \<Rightarrow> nat \<Rightarrow> kernel \<Rightarrow> bool" where
  "process_room n m k \<longleftrightarrow> stack_room n k \<and> 16 * n + m \<le> frames_left (k_vmm k)"

text \<open>The kernel runs on its own root \<open>root\<close>, with the address spaces \<open>as\<close> alive.\<close>

definition test_kernel :: "u64 set \<Rightarrow> u64 set \<Rightarrow> address_space list \<Rightarrow> nat \<Rightarrow> nat \<Rightarrow> u64 \<Rightarrow> kernel \<Rightarrow> bool" where
  "test_kernel R X as n m root k \<longleftrightarrow> spaces_in_use R X as (k_as k) \<and> process_room n m k \<and> entry_ok (initial_context_entry k)
     \<and> root_pml4_phys (k_vmm k) = root \<and> cr3 (k_vmm k) = root"

lemma test_kernelD:
  assumes "test_kernel R X as n m root k"
  shows "spaces_in_use R X as (k_as k)" and "process_room n m k" and "entry_ok (initial_context_entry k)" and "root_pml4_phys (k_vmm k) = root"
    and "cr3 (k_vmm k) = root"
  using assms by (simp_all add: test_kernel_def)

lemma room_same:
  assumes "next_dynamic_addr (k_vmm k') = next_dynamic_addr (k_vmm k)" and "vmm_region_count (k_vmm k') = vmm_region_count (k_vmm k)"
    and "process_room n m k" and "16 * n + m' \<le> frames_left (k_vmm k')"
  shows "process_room n m' k'"
  using assms by (simp add: process_room_def stack_room_def)

lemma process_new_test:
  assumes tk: "test_kernel R X as n (Suc m) root k"
  obtains p k' where "process_new name k = (Inr p, k')" and "test_kernel (insert (root_page (p_space p)) R) X (p_space p # as) n m root k'"
    and "root_page (p_space p) \<notin> R" and "p_id p = next_pid k" and "p_name p = name" and "p_state p = PCreated" and "p_threads p = []"
    and "next_pid k' = next_pid k + 1" and "next_thread_id k' = next_thread_id k"
proof -
  note t = test_kernelD [OF tk]
  have room: "0 < frames_left (as_vmm (k_as k))" using t(2) by (simp add: process_room_def)
  obtain a s' where a: "as_new (k_as k) = (Inr a, s')" "spaces_in_use (insert (root_page a) R) X (a # as) s'"
    "frames_left (as_vmm s') = frames_left (k_vmm k) - 1" "root_page a \<notin> R"
    "as_vmm s' = (k_vmm k)\<lparr>vmm_mem := vmm_mem (as_vmm s'), vmm_pmm := vmm_pmm (as_vmm s')\<rparr>"
    by (rule as_new_in_use [OF t(1) room])
  have f: "next_dynamic_addr (as_vmm s') = next_dynamic_addr (k_vmm k)" "vmm_region_count (as_vmm s') = vmm_region_count (k_vmm k)"
    "root_pml4_phys (as_vmm s') = root_pml4_phys (k_vmm k)" "cr3 (as_vmm s') = cr3 (k_vmm k)"
    by (subst a(5), simp)+
  let ?k = "k\<lparr>k_as := s', next_pid := next_pid k + 1\<rparr>"
  have "16 * n + m \<le> frames_left (as_vmm s')" using a(3) t(2) unfolding process_room_def by linarith
  then have "process_room n m ?k" by (intro room_same [OF _ _ t(2)]) (use f in simp_all)
  then have "test_kernel (insert (root_page a) R) X (a # as) n m root ?k" using a(2) f t by (simp add: test_kernel_def)
  moreover have "process_new name k = (Inr \<lparr>p_id = next_pid k, p_name = name, p_state = PCreated, p_threads = [], p_space = a\<rparr>, ?k)"
    using a(1) by (simp add: process_new_def Let_def)
  ultimately show thesis using that a(4) by simp
qed

lemma drop_process_test:
  assumes tk: "test_kernel R X (as @ p_space p # as') n m root k"
  shows "test_kernel (R - {root_page (p_space p)}) X (as @ as') n m root (drop_process p k)"
    and "next_pid (drop_process p k) = next_pid k" and "next_thread_id (drop_process p k) = next_thread_id k"
proof -
  note t = test_kernelD [OF tk]
  obtain a' s' where d: "as_destroy (p_space p) (k_as k) = (a', s')" "spaces_in_use (R - {root_page (p_space p)}) X (as @ as') s'"
    "frames_left (k_vmm k) \<le> frames_left (as_vmm s')"
    "as_vmm s' = (k_vmm k)\<lparr>vmm_mem := vmm_mem (as_vmm s'), vmm_pmm := vmm_pmm (as_vmm s'), cr3 := cr3 (as_vmm s')\<rparr>"
    "cr3 (as_vmm s') = (if cr3 (k_vmm k) AND NOT 0xFFF = root_page (p_space p) then root_pml4_phys (k_vmm k) else cr3 (k_vmm k))"
    by (rule as_destroy_in_use [OF t(1)])
  have f: "next_dynamic_addr (as_vmm s') = next_dynamic_addr (k_vmm k)" "vmm_region_count (as_vmm s') = vmm_region_count (k_vmm k)"
    "root_pml4_phys (as_vmm s') = root_pml4_phys (k_vmm k)"
    by (subst d(4), simp)+
  have k: "drop_process p k = k\<lparr>k_as := s'\<rparr>" by (simp add: drop_process_def d(1))
  have "process_room n m (drop_process p k)"
    by (rule room_same [OF _ _ t(2)]) (use f d(3) t(2) in \<open>simp_all add: k process_room_def\<close>)
  moreover have "cr3 (as_vmm s') = root" using d(5) t(4,5) by simp
  ultimately show "test_kernel (R - {root_page (p_space p)}) X (as @ as') n m root (drop_process p k)"
    using d(2) f t by (simp add: test_kernel_def k)
  show "next_pid (drop_process p k) = next_pid k" "next_thread_id (drop_process p k) = next_thread_id k" by (simp_all add: k)
qed

lemma drop_nothing: "\<not> owns_root (p_space p) \<Longrightarrow> drop_process p k = k"
  by (simp add: drop_process_def as_destroy_def)

lemma attach_thread_test:
  assumes tk: "test_kernel R X as (Suc n) m root (tp_kernel s)" and ne: "as \<noteq> []" and e: "entry_ok entry" and st: "p_state (tp_proc s x) \<noteq> PTerminated"
  obtains t k Y where "attach_thread x name entry arg s = s\<lparr>tp_kernel := k, tp_proc := (tp_proc s)(x := (tp_proc s x)\<lparr>p_threads := p_threads (tp_proc s x) @ [t]\<rparr>)\<rparr>"
    and "test_kernel R (X \<union> Y) as n m root k" and "t_id t = next_thread_id (tp_kernel s)" and "process_id t = p_id (tp_proc s x)" and "switchable t"
    and "t_state t = TCreated" and "next_thread_id k = next_thread_id (tp_kernel s) + 1" and "next_pid k = next_pid (tp_kernel s)"
proof -
  let ?k = "tp_kernel s"
  note t = test_kernelD [OF tk]
  have room: "stack_room (Suc n) ?k" using t(2) by (simp add: process_room_def)
  obtain u k Y where u: "thread_new_raw name entry arg ?k = (Inr u, k)" "vm_ready R (X \<union> Y) (k_vmm k)" "stack_room n k"
    "t_id u = next_thread_id ?k" "switchable u" "t_state u = TCreated" "next_thread_id k = next_thread_id ?k + 1"
    "initial_context_entry k = initial_context_entry ?k" "root_pml4_phys (k_vmm k) = root_pml4_phys (k_vmm ?k)" "cr3 (k_vmm k) = cr3 (k_vmm ?k)"
    "next_pid k = next_pid ?k" "k_as k = (k_as ?k)\<lparr>as_vmm := k_vmm k\<rparr>"
    "\<exists>r. allocate_and_map_region STACK_SIZE_BYTES PERM_KERNEL_DATA DynamicKernel (k_vmm ?k) = (Inr r, k_vmm k)"
    by (rule thread_new_ready [OF spaces_in_useD(1) [OF t(1)] room e t(3)])
  from u(13) obtain r where am: "allocate_and_map_region STACK_SIZE_BYTES PERM_KERNEL_DATA DynamicKernel (k_vmm ?k) = (Inr r, k_vmm k)" by blast
  note i = alloc_map_in_use [OF t(1) ne am u(2,9)]
  have "process_room n m k"
    using u(3) i(2) t(2) by (simp add: process_room_def stack_size)
  moreover have "spaces_in_use R (X \<union> Y) as (k_as k)" using i(1) u(12) by simp
  ultimately have "test_kernel R (X \<union> Y) as n m root k" using t u(8-10) by (simp add: test_kernel_def)
  then show thesis
    using u by (intro that [where t = "u\<lparr>process_id := p_id (tp_proc s x)\<rparr>" and k = k and Y = Y]) (simp_all add: attach_thread_def create_thread_def st switchable_def)
qed

lemma new_static_test:
  assumes tk: "test_kernel R X as n (Suc m) root (tp_kernel s)"
  obtains p k where "new_static x name msg s = Inr (s\<lparr>tp_kernel := drop_process (tp_proc s x) k, tp_proc := (tp_proc s)(x := p)\<rparr>)"
    and "test_kernel (insert (root_page (p_space p)) R) X (p_space p # as) n m root k" and "root_page (p_space p) \<notin> R"
    and "p_id p = next_pid (tp_kernel s)" and "p_state p = PCreated" and "p_threads p = []"
    and "next_pid k = next_pid (tp_kernel s) + 1" and "next_thread_id k = next_thread_id (tp_kernel s)"
proof -
  obtain p k where p: "process_new name (tp_kernel s) = (Inr p, k)" "test_kernel (insert (root_page (p_space p)) R) X (p_space p # as) n m root k"
    "root_page (p_space p) \<notin> R" "p_id p = next_pid (tp_kernel s)" "p_state p = PCreated" "p_threads p = []"
    "next_pid k = next_pid (tp_kernel s) + 1" "next_thread_id k = next_thread_id (tp_kernel s)"
    by (rule process_new_test [OF tk])
  then show thesis by (intro that [of p k]) (simp_all add: new_static_def assign_process_def)
qed

text \<open>A thread as the test creates it.\<close>

definition made_thread :: "kernel_thread \<Rightarrow> u64 \<Rightarrow> u64 \<Rightarrow> bool" where
  "made_thread t i pid \<longleftrightarrow> t_id t = i \<and> process_id t = pid \<and> switchable t \<and> t_state t = TCreated"

lemma ownership_test_passes:
  assumes tk: "test_kernel R X as (Suc (Suc n)) (Suc m) root (tp_kernel s)" and own: "\<not> owns_root (p_space (tp_proc s PROC_A))"
    and e: "\<And>i. entry_ok (entry i)" and pid: "next_pid (tp_kernel s) \<noteq> 0"
  obtains s' p t u Y where "ownership_test entry s = Inr s'" and "tp_proc s' = (tp_proc s)(PROC_A := p)" and "p_threads p = [t, u]"
    and "made_thread t (next_thread_id (tp_kernel s)) (p_id p)" and "made_thread u (next_thread_id (tp_kernel s) + 1) (p_id p)"
    and "test_kernel (insert (root_page (p_space p)) R) (X \<union> Y) (p_space p # as) n m root (tp_kernel s')" and "root_page (p_space p) \<notin> R"
    and "next_thread_id (tp_kernel s') = next_thread_id (tp_kernel s) + 2" and "next_pid (tp_kernel s') = next_pid (tp_kernel s) + 1"
proof -
  obtain p k where p: "new_static PROC_A ''proc_a_multithread'' ''Process proc_a_multithread creation failed'' s
      = Inr (s\<lparr>tp_kernel := drop_process (tp_proc s PROC_A) k, tp_proc := (tp_proc s)(PROC_A := p)\<rparr>)"
    "test_kernel (insert (root_page (p_space p)) R) X (p_space p # as) (Suc (Suc n)) m root k" "root_page (p_space p) \<notin> R"
    "p_id p = next_pid (tp_kernel s)" "p_state p = PCreated" "p_threads p = []" "next_pid k = next_pid (tp_kernel s) + 1" "next_thread_id k = next_thread_id (tp_kernel s)"
    by (rule new_static_test [OF tk])
  let ?s = "s\<lparr>tp_kernel := k, tp_proc := (tp_proc s)(PROC_A := p)\<rparr>"
  have tk1: "test_kernel (insert (root_page (p_space p)) R) X (p_space p # as) (Suc (Suc n)) m root (tp_kernel ?s)" and st1: "p_state (tp_proc ?s PROC_A) \<noteq> PTerminated"
    using p(2,5) by simp_all
  obtain t k1 Y where t: "attach_thread PROC_A ''thread_a1'' (entry 0) 10 ?s = ?s\<lparr>tp_kernel := k1, tp_proc := (tp_proc ?s)(PROC_A := (tp_proc ?s PROC_A)\<lparr>p_threads := p_threads (tp_proc ?s PROC_A) @ [t]\<rparr>)\<rparr>"
    "test_kernel (insert (root_page (p_space p)) R) (X \<union> Y) (p_space p # as) (Suc n) m root k1" "t_id t = next_thread_id (tp_kernel ?s)"
    "process_id t = p_id (tp_proc ?s PROC_A)" "switchable t" "t_state t = TCreated" "next_thread_id k1 = next_thread_id (tp_kernel ?s) + 1" "next_pid k1 = next_pid (tp_kernel ?s)"
    by (rule attach_thread_test [OF tk1 _ e st1]) simp
  let ?s1 = "s\<lparr>tp_kernel := k1, tp_proc := (tp_proc s)(PROC_A := p\<lparr>p_threads := [t]\<rparr>)\<rparr>"
  have tk2: "test_kernel (insert (root_page (p_space p)) R) (X \<union> Y) (p_space p # as) (Suc n) m root (tp_kernel ?s1)" and st2: "p_state (tp_proc ?s1 PROC_A) \<noteq> PTerminated"
    using t(2) p(5) by simp_all
  obtain u k2 Z where u: "attach_thread PROC_A ''thread_a2'' (entry 1) 20 ?s1 = ?s1\<lparr>tp_kernel := k2, tp_proc := (tp_proc ?s1)(PROC_A := (tp_proc ?s1 PROC_A)\<lparr>p_threads := p_threads (tp_proc ?s1 PROC_A) @ [u]\<rparr>)\<rparr>"
    "test_kernel (insert (root_page (p_space p)) R) ((X \<union> Y) \<union> Z) (p_space p # as) n m root k2" "t_id u = next_thread_id (tp_kernel ?s1)"
    "process_id u = p_id (tp_proc ?s1 PROC_A)" "switchable u" "t_state u = TCreated" "next_thread_id k2 = next_thread_id (tp_kernel ?s1) + 1" "next_pid k2 = next_pid (tp_kernel ?s1)"
    by (rule attach_thread_test [OF tk2 _ e st2]) simp
  let ?p = "p\<lparr>p_threads := [t, u]\<rparr>"
  let ?s2 = "s\<lparr>tp_kernel := k2, tp_proc := (tp_proc s)(PROC_A := ?p)\<rparr>"
  have a1: "attach_thread PROC_A ''thread_a1'' (entry 0) 10 ?s = ?s1" using t(1) p(6) by simp
  have a2: "attach_thread PROC_A ''thread_a2'' (entry 1) 20 ?s1 = ?s2" using u(1) by simp
  have "verify ?p = Inr ()" unfolding verify_iff using t(3-6) u(3-6) t(7) p(4,5) pid by simp
  then have "ownership_test entry s = Inr ?s2"
    using p(1) t(4) u(4) drop_nothing [OF own] by (simp add: ownership_test_def a1 a2 [unfolded One_nat_def] Let_def verify_static_def)
  then show thesis
    using p t u by (intro that [of ?s2 ?p t u "Y \<union> Z"]) (simp_all add: made_thread_def Un_assoc add.assoc)
qed

lemma run_procs:
  assumes "pair_spec a b main (view s) = Inr (MainT, m')" and "procs_ready sites pos s MainT s"
  obtains s' where "run_co (switch_procs sites pos) (\<lambda>t. proc_code (pending a b t)) (proc_code main) s = Inr s'"
    and "procs_ready sites pos s MainT s'" and "view s' = m'"
  using proc_switch.run_spec [OF assms(1) [unfolded pair_spec_def] assms(2) refl] by blast

subsection \<open>The switching steps\<close>

text \<open>The test's own process: one thread, on the processor, in the kernel's address space.\<close>

definition main_ready :: "u64 \<Rightarrow> test_procs \<Rightarrow> bool" where
  "main_ready root s \<longleftrightarrow> p_space (tp_proc s MAIN_PROC) = \<lparr>as_id = 0, root_page = root, owns_root = False\<rparr>
     \<and> (\<exists>t. p_threads (tp_proc s MAIN_PROC) = [t] \<and> t_id t = 0 \<and> t_state t = TRunning)"

lemma inj_pos: "inj same_pos" "inj cross_pos"
  by (auto simp: inj_def same_pos_def cross_pos_def split: tid.splits)

lemma all_tid: "(\<forall>t. P t) \<longleftrightarrow> P MainT \<and> P FirstT \<and> P SecondT"
  by (metis tid.exhaust)

lemma procs_ready_start:
  assumes sites: "\<And>n. valid_site (sites n)" and pl: "places pos s" and main: "t_id (threads_at pos s MainT) = 0" "t_state (threads_at pos s MainT) = TRunning"
    and t: "made_thread (threads_at pos s FirstT) i pid" "made_thread (threads_at pos s SecondT) (i + 1) pid'" and i: "i \<noteq> 0" "i + 1 \<noteq> 0"
  shows "procs_ready sites pos s MainT s"
proof -
  have "t = u" if "t_id (threads_at pos s t) = t_id (threads_at pos s u)" for t u
    using that main t i by (cases t; cases u) (auto simp: made_thread_def)
  moreover have "switchable (threads_at pos s t)" if "t \<noteq> MainT" for t using that t by (cases t) (auto simp: made_thread_def)
  moreover have "t_state (threads_at pos s t) = TRunning \<longleftrightarrow> t = MainT" for t using main t by (cases t) (auto simp: made_thread_def)
  ultimately show ?thesis using sites pl by (simp add: procs_ready_def threads_ready_def)
qed

text \<open>What a run leaves: the kernel up to what \<^verbatim>\<open>activate\<close> changes, the processes up to the states of their threads.\<close>

lemma main_ready_after:
  assumes r: "procs_ready sites pos s MainT s'" and m: "main_ready root s" and pos: "pos MainT = (MAIN_PROC, 0)"
    and sp: "p_space (tp_proc s' MAIN_PROC) = p_space (tp_proc s MAIN_PROC)"
  shows "main_ready root s'"
proof -
  have sh: "same_shape s s'" and st: "t_state (threads_at pos s' MainT) = TRunning" using r by (simp_all add: procs_ready_def threads_ready_def)
  obtain t where "p_threads (tp_proc s MAIN_PROC) = [t]" "t_id t = 0" using m by (auto simp: main_ready_def)
  then have "map t_id (p_threads (tp_proc s' MAIN_PROC)) = [0]" using same_shapeD(5) [OF sh, of MAIN_PROC] by simp
  then show ?thesis using st m sp by (auto simp: main_ready_def threads_at_def pos)
qed

lemma same_process_test_passes:
  assumes sites: "\<And>n. valid_site (sites n)" and root: "root_pml4_phys (k_vmm (tp_kernel s)) = root"
    and own: "\<not> owns_root (p_space (tp_proc s MAIN_PROC))" and th: "p_threads (tp_proc s PROC_A) = [t, u]"
    and made: "made_thread t i pid" "made_thread u (i + 1) pid" and i: "i \<noteq> 0" "i + 1 \<noteq> 0"
  obtains s' where "same_process_test sites s = Inr s'" and "tp_kernel s' = tp_kernel s" and "main_ready root s'"
    and "p_space (tp_proc s' PROC_A) = p_space (tp_proc s PROC_A)" and "p_space (tp_proc s' PROC_B) = p_space (tp_proc s PROC_B)" and "test_switch_stage s' = 1"
proof -
  define main where "main = bootstrap_process (tp_kernel s)"
  have mp: "p_threads main = [bootstrap_thread\<lparr>process_id := 0\<rparr>]" "p_space main = as_bootstrap (k_as (tp_kernel s))"
    by (simp_all add: main_def bootstrap_process_def)
  let ?s = "assign_process MAIN_PROC main s"
  have eq: "?s = s\<lparr>tp_proc := (tp_proc s)(MAIN_PROC := main)\<rparr>" by (simp add: assign_process_def drop_nothing [OF own])
  have pl: "places same_pos ?s" using th by (simp add: places_def inj_pos all_tid same_pos_def eq mp)
  have m: "main_ready root ?s" using root by (simp add: main_ready_def eq mp bootstrap_thread_def as_bootstrap_def)
  have "procs_ready sites same_pos ?s MainT ?s"
    by (rule procs_ready_start [OF sites pl, of i pid pid])
      (use th made i in \<open>simp_all add: threads_at_def same_pos_def eq mp bootstrap_thread_def\<close>)
  with same_process_spec obtain s' where r: "run_co (switch_procs sites same_pos) (\<lambda>t. proc_code (pending test_same_proc_thread_a1 test_same_proc_thread_a2 t)) (proc_code same_main) ?s = Inr s'"
    "procs_ready sites same_pos ?s MainT s'" "view s' = (view ?s)\<lparr>pv_stage := 1\<rparr>" by (rule run_procs)
  have v: "test_switch_stage s' = 1" "k_as (tp_kernel s') = k_as (tp_kernel ?s)" "\<And>x. p_space (tp_proc s' x) = p_space (tp_proc ?s x)"
    using r(3) by (simp_all add: view_def fun_eq_iff)
  have sh: "same_shape ?s s'" using r(2) by (simp add: procs_ready_def)
  have "tp_kernel s' = tp_kernel s" using same_shapeD(1) [OF sh] unfolding v(2) by (simp add: eq)
  moreover have "main_ready root s'" by (rule main_ready_after [OF r(2) m]) (simp_all add: same_pos_def v)
  ultimately show thesis using r(1) v by (intro that [of s']) (simp_all add: same_process_test_def main_def [symmetric] eq)
qed

lemma activate_test:
  fixes a :: address_space and k :: kernel
  assumes "spaces_in_use R X as (k_as k)" and "process_room n m k" and "root_pml4_phys (k_vmm k) = root"
  defines "k' \<equiv> k\<lparr>k_as := as_activate a (k_as k)\<rparr>"
  shows "spaces_in_use R X as (k_as k')" and "process_room n m k'" and "root_pml4_phys (k_vmm k') = root" and "root_page a \<noteq> 0 \<Longrightarrow> cr3 (k_vmm k') = root_page a"
proof -
  note a = as_activate_in_use [OF assms(1), of a]
  have f: "next_dynamic_addr (k_vmm k') = next_dynamic_addr (k_vmm k)" "vmm_region_count (k_vmm k') = vmm_region_count (k_vmm k)"
    "root_pml4_phys (k_vmm k') = root_pml4_phys (k_vmm k)" "vmm_pmm (k_vmm k') = vmm_pmm (k_vmm k)"
    unfolding k'_def by (simp, subst a(3), simp)+
  show "process_room n m k'" by (rule room_same [OF f(1,2) assms(2)]) (use assms(2) f(4) in \<open>simp add: process_room_def\<close>)
  show "spaces_in_use R X as (k_as k')" "root_pml4_phys (k_vmm k') = root" "root_page a \<noteq> 0 \<Longrightarrow> cr3 (k_vmm k') = root_page a"
    using a(1,4) f(3) assms(3) by (simp_all add: k'_def)
qed

lemma kernel_root_nonzero: "test_kernel R X as n m root k \<Longrightarrow> root \<noteq> 0"
  using spaces_in_useD(2) by (auto simp: test_kernel_def kernel_ok_def)

lemma activations_test:
  assumes tk: "test_kernel R X as n m root k" and sh: "k' = k\<lparr>k_as := k_as k'\<rparr>"
    and a: "k_as k' = as_activate a4 (as_activate a3 (as_activate a2 (as_activate a1 (k_as k))))" and r: "root_page a4 = root"
  shows "test_kernel R X as n m root k'"
proof -
  note t = test_kernelD [OF tk] and root = kernel_root_nonzero [OF tk]
  note 1 = activate_test [OF t(1,2,4), of a1]
  note 2 = activate_test [OF 1(1-3), of a2]
  note 3 = activate_test [OF 2(1-3), of a3]
  note 4 = activate_test [OF 3(1-3), of a4]
  have k: "k' = k\<lparr>k_as := as_activate a4 (as_activate a3 (as_activate a2 (as_activate a1 (k_as k))))\<rparr>" using sh a by simp
  show ?thesis using 4 r root t(3) by (simp add: test_kernel_def k)
qed

lemma cross_process_test_passes:
  assumes sites: "\<And>n. valid_site (sites n)" and e: "\<And>i. entry_ok (entry i)" and m: "main_ready root s" and own: "\<not> owns_root (p_space (tp_proc s PROC_B))"
    and tk: "test_kernel R X (p_space (tp_proc s PROC_A) # as) (Suc (Suc n)) (Suc (Suc m)) root (tp_kernel s)"
    and i: "next_thread_id (tp_kernel s) \<noteq> 0" "next_thread_id (tp_kernel s) + 1 \<noteq> 0"
    and pid: "next_pid (tp_kernel s) \<noteq> 0" "next_pid (tp_kernel s) + 1 \<noteq> 0"
  obtains s' a b t Y where "cross_process_test sites entry s = Inr s'" and "test_switch_stage s' = 3" and "main_ready root s'"
    and "test_kernel (insert (root_page b) (insert (root_page a) R - {root_page (p_space (tp_proc s PROC_A))})) (X \<union> Y) (b # a # as) n m root (tp_kernel s')"
    and "root_page a \<notin> R" and "root_page b \<notin> insert (root_page a) R - {root_page (p_space (tp_proc s PROC_A))}"
    and "p_space (tp_proc s' PROC_A) = a" and "p_space (tp_proc s' PROC_B) = b"
    and "p_threads (tp_proc s' PROC_B) = [t]" and "process_id t = p_id (tp_proc s' PROC_B)" and "p_id (tp_proc s' PROC_B) \<noteq> 0"
    and "next_pid (tp_kernel s') = next_pid (tp_kernel s) + 2" and "next_thread_id (tp_kernel s') = next_thread_id (tp_kernel s) + 2"
proof -
  let ?old = "tp_proc s PROC_A"
  obtain a k where a: "new_static PROC_A ''proc_a'' ''Process proc_a creation failed'' s
      = Inr (s\<lparr>tp_kernel := drop_process (tp_proc s PROC_A) k, tp_proc := (tp_proc s)(PROC_A := a)\<rparr>)"
    "test_kernel (insert (root_page (p_space a)) R) X (p_space a # p_space ?old # as) (Suc (Suc n)) (Suc m) root k" "root_page (p_space a) \<notin> R"
    "p_id a = next_pid (tp_kernel s)" "p_state a = PCreated" "p_threads a = []" "next_pid k = next_pid (tp_kernel s) + 1" "next_thread_id k = next_thread_id (tp_kernel s)"
    by (rule new_static_test [OF tk])
  let ?R = "insert (root_page (p_space a)) R - {root_page (p_space ?old)}"
  let ?s1 = "s\<lparr>tp_kernel := drop_process ?old k, tp_proc := (tp_proc s)(PROC_A := a)\<rparr>"
  have "test_kernel (insert (root_page (p_space a)) R) X ([p_space a] @ p_space ?old # as) (Suc (Suc n)) (Suc m) root k" using a(2) by simp
  note d = drop_process_test [OF this]
  have tk1: "test_kernel ?R X (p_space a # as) (Suc (Suc n)) (Suc m) root (tp_kernel ?s1)" using d(1) by simp
  obtain b k1 where b: "new_static PROC_B ''proc_b'' ''Process proc_b creation failed'' ?s1
      = Inr (?s1\<lparr>tp_kernel := drop_process (tp_proc ?s1 PROC_B) k1, tp_proc := (tp_proc ?s1)(PROC_B := b)\<rparr>)"
    "test_kernel (insert (root_page (p_space b)) ?R) X (p_space b # p_space a # as) (Suc (Suc n)) m root k1" "root_page (p_space b) \<notin> ?R"
    "p_id b = next_pid (tp_kernel ?s1)" "p_state b = PCreated" "p_threads b = []" "next_pid k1 = next_pid (tp_kernel ?s1) + 1" "next_thread_id k1 = next_thread_id (tp_kernel ?s1)"
    by (rule new_static_test [OF tk1])
  let ?R2 = "insert (root_page (p_space b)) ?R" and ?as = "p_space b # p_space a # as"
  let ?s2 = "s\<lparr>tp_kernel := k1, tp_proc := (tp_proc s)(PROC_A := a, PROC_B := b)\<rparr>"
  have b1: "new_static PROC_B ''proc_b'' ''Process proc_b creation failed'' ?s1 = Inr ?s2" using b(1) by (simp add: drop_nothing [OF own])
  have tk2: "test_kernel ?R2 X ?as (Suc (Suc n)) m root (tp_kernel ?s2)" and st2: "p_state (tp_proc ?s2 PROC_A) \<noteq> PTerminated" using b(2) a(5) by simp_all
  obtain t k2 Y where t: "attach_thread PROC_A ''thread_a1'' (entry 2) 100 ?s2 = ?s2\<lparr>tp_kernel := k2, tp_proc := (tp_proc ?s2)(PROC_A := (tp_proc ?s2 PROC_A)\<lparr>p_threads := p_threads (tp_proc ?s2 PROC_A) @ [t]\<rparr>)\<rparr>"
    "test_kernel ?R2 (X \<union> Y) ?as (Suc n) m root k2" "t_id t = next_thread_id (tp_kernel ?s2)"
    "process_id t = p_id (tp_proc ?s2 PROC_A)" "switchable t" "t_state t = TCreated" "next_thread_id k2 = next_thread_id (tp_kernel ?s2) + 1" "next_pid k2 = next_pid (tp_kernel ?s2)"
    by (rule attach_thread_test [OF tk2 _ e st2]) simp
  let ?s3 = "s\<lparr>tp_kernel := k2, tp_proc := (tp_proc s)(PROC_A := a\<lparr>p_threads := [t]\<rparr>, PROC_B := b)\<rparr>"
  have t1: "attach_thread PROC_A ''thread_a1'' (entry 2) 100 ?s2 = ?s3" using t(1) a(6) by (simp add: fun_upd_twist)
  have tk3: "test_kernel ?R2 (X \<union> Y) ?as (Suc n) m root (tp_kernel ?s3)" and st3: "p_state (tp_proc ?s3 PROC_B) \<noteq> PTerminated" using t(2) b(5) by simp_all
  obtain u k3 Z where u: "attach_thread PROC_B ''thread_b1'' (entry 3) 200 ?s3 = ?s3\<lparr>tp_kernel := k3, tp_proc := (tp_proc ?s3)(PROC_B := (tp_proc ?s3 PROC_B)\<lparr>p_threads := p_threads (tp_proc ?s3 PROC_B) @ [u]\<rparr>)\<rparr>"
    "test_kernel ?R2 ((X \<union> Y) \<union> Z) ?as n m root k3" "t_id u = next_thread_id (tp_kernel ?s3)"
    "process_id u = p_id (tp_proc ?s3 PROC_B)" "switchable u" "t_state u = TCreated" "next_thread_id k3 = next_thread_id (tp_kernel ?s3) + 1" "next_pid k3 = next_pid (tp_kernel ?s3)"
    by (rule attach_thread_test [OF tk3 _ e st3]) simp
  let ?s4 = "s\<lparr>tp_kernel := k3, tp_proc := (tp_proc s)(PROC_A := a\<lparr>p_threads := [t]\<rparr>, PROC_B := b\<lparr>p_threads := [u]\<rparr>)\<rparr>"
  have u1: "attach_thread PROC_B ''thread_b1'' (entry 3) 200 ?s3 = ?s4" using u(1) b(6) by simp
  have ids: "p_id b = next_pid (tp_kernel s) + 1" "next_thread_id k1 = next_thread_id (tp_kernel s)" "next_pid k1 = next_pid (tp_kernel s) + 2"
    using b(4,7,8) d(2,3) a(7,8) by (simp_all add: add.assoc)
  have ver: "verify_static PROC_A msg ?s4 = Inr ?s4" "verify_static PROC_B msg ?s4 = Inr ?s4" for msg
  proof -
    have "verify (tp_proc ?s4 PROC_A) = Inr ()" unfolding verify_iff using t(4) a(4,5) pid by simp
    moreover have "verify (tp_proc ?s4 PROC_B) = Inr ()" unfolding verify_iff using u(4) b(5) ids pid by simp
    ultimately show "verify_static PROC_A msg ?s4 = Inr ?s4" "verify_static PROC_B msg ?s4 = Inr ?s4" by (simp_all add: verify_static_def)
  qed
  have m4: "main_ready root ?s4" using m by (simp add: main_ready_def)
  obtain w where w: "p_threads (tp_proc s MAIN_PROC) = [w]" "t_id w = 0" "t_state w = TRunning" using m by (auto simp: main_ready_def)
  have pl: "places cross_pos ?s4" using w by (simp add: places_def inj_pos all_tid cross_pos_def)
  have "procs_ready sites cross_pos ?s4 MainT ?s4"
    by (rule procs_ready_start [OF sites pl, of "next_thread_id (tp_kernel s)" "p_id a" "p_id b"])
      (use w t(3-7) u(3-6) ids i in \<open>simp_all add: threads_at_def cross_pos_def made_thread_def\<close>)
  with cross_process_spec obtain s' where r: "run_co (switch_procs sites cross_pos) (\<lambda>t. proc_code (pending test_cross_proc_thread_a1 test_cross_proc_thread_b1 t)) (proc_code cross_main) ?s4 = Inr s'"
    "procs_ready sites cross_pos ?s4 MainT s'" "view s' = (view ?s4)\<lparr>pv_stage := 3,
     pv_as := as_activate (pv_space (view ?s4) MAIN_PROC) (as_activate (pv_space (view ?s4) PROC_A) (as_activate (pv_space (view ?s4) PROC_B)
       (as_activate (pv_space (view ?s4) PROC_A) (pv_as (view ?s4)))))\<rparr>" by (rule run_procs)
  have v: "test_switch_stage s' = 3" "k_as (tp_kernel s') = as_activate (p_space (tp_proc s MAIN_PROC)) (as_activate (p_space a) (as_activate (p_space b) (as_activate (p_space a) (k_as k3))))"
    "\<And>x. p_space (tp_proc s' x) = p_space (tp_proc ?s4 x)"
    using r(3) by (simp_all add: view_def fun_eq_iff)
  have sh: "same_shape ?s4 s'" using r(2) by (simp add: procs_ready_def)
  have ks: "tp_kernel s' = k3\<lparr>k_as := k_as (tp_kernel s')\<rparr>" using same_shapeD(1) [OF sh] by simp
  have tkf: "test_kernel ?R2 ((X \<union> Y) \<union> Z) ?as n m root (tp_kernel s')"
    by (rule activations_test [OF u(2) ks v(2)]) (use m in \<open>simp add: main_ready_def\<close>)
  have nx: "next_pid (tp_kernel s') = next_pid k3" "next_thread_id (tp_kernel s') = next_thread_id k3" by (subst ks, simp)+
  have "map process_id (p_threads (tp_proc s' PROC_B)) = [p_id b]" "p_id (tp_proc s' PROC_B) = p_id b"
    using same_shapeD(6) [OF sh, of PROC_B] same_shapeD(2) [OF sh, of PROC_B] u(4) by simp_all
  then obtain t' where t': "p_threads (tp_proc s' PROC_B) = [t']" "process_id t' = p_id (tp_proc s' PROC_B)" "p_id (tp_proc s' PROC_B) \<noteq> 0"
    using ids(1) pid(2) by auto
  have mf: "main_ready root s'" by (rule main_ready_after [OF r(2) m4]) (simp_all add: cross_pos_def v)
  have run: "cross_process_test sites entry s = Inr s'"
    using a(1) by (simp add: cross_process_test_def b1 t1 u1 ver r(1) Let_def)
  have nx': "next_pid (tp_kernel s') = next_pid (tp_kernel s) + 2" "next_thread_id (tp_kernel s') = next_thread_id (tp_kernel s) + 2"
    using nx u(7,8) t(7,8) ids by (simp_all add: add.assoc)
  have sp: "p_space (tp_proc s' PROC_A) = p_space a" "p_space (tp_proc s' PROC_B) = p_space b" using v(3) by simp_all
  show thesis by (rule that [OF run v(1) mf tkf [unfolded Un_assoc] a(3) b(3) sp t' nx'])
qed

subsection \<open>The test passes\<close>

lemma termination_test_passes:
  assumes "p_threads (tp_proc s PROC_B) = [t]" and "process_id t = p_id (tp_proc s PROC_B)" and "p_id (tp_proc s PROC_B) \<noteq> 0"
  shows "termination_test s = Inr (s\<lparr>tp_proc := (tp_proc s)(PROC_B := terminate (tp_proc s PROC_B))\<rparr>)"
proof -
  have "verify (terminate (tp_proc s PROC_B)) = Inr ()" unfolding verify_iff using assms by (simp add: terminate_def)
  then show ?thesis by (simp add: termination_test_def verify_static_def) (simp add: terminate_def)
qed

lemma counter_steps:
  fixes i :: u64
  assumes "i \<noteq> 0" and "unat i + 5 \<le> 2 ^ 64"
  shows "i + 1 \<noteq> 0" and "i + 2 \<noteq> 0" and "i + 3 \<noteq> 0" and "i + 4 \<noteq> 0"
proof -
  have "unat (i + 4) = unat i + 4" "unat (i + 3) = unat i + 3" "unat (i + 2) = unat i + 2" "unat (i + 1) = unat i + 1"
    using assms(2) by (simp_all add: unat_word_ariths)
  then show "i + 1 \<noteq> 0" "i + 2 \<noteq> 0" "i + 3 \<noteq> 0" "i + 4 \<noteq> 0" by (metis add_is_0 unat_0 zero_neq_numeral zero_neq_one)+
qed

lemma process_tests_run:
  assumes sites: "\<And>n. valid_site (sites n)" and e: "\<And>i. entry_ok (entry i)" and tk: "test_kernel R X [] 4 5 root k"
    and i: "next_thread_id k \<noteq> 0" "unat (next_thread_id k) + 5 \<le> 2 ^ 64" and pid: "next_pid k \<noteq> 0" "unat (next_pid k) + 5 \<le> 2 ^ 64"
  shows "\<exists>s' a b Y. process_self_tests sites entry (test_procs_init k) = Inr s' \<and> test_switch_stage s' = 3
    \<and> p_space (tp_proc s' PROC_A) = a \<and> p_space (tp_proc s' PROC_B) = b \<and> p_state (tp_proc s' PROC_B) = PTerminated \<and> verify (tp_proc s' PROC_B) = Inr ()
    \<and> test_kernel ({root_page a, root_page b} \<union> R) (X \<union> Y) [b, a] 0 0 root (tp_kernel s')
    \<and> next_pid (tp_kernel s') = next_pid k + 5 \<and> next_thread_id (tp_kernel s') = next_thread_id k + 4"
proof -
  note ci = counter_steps [OF i] and cp = counter_steps [OF pid]
  let ?s = "test_procs_init k"
  have tk0: "test_kernel R X [] 4 (Suc 4) root k" using tk by simp
  obtain alpha k1 where al: "process_new ''process_alpha'' k = (Inr alpha, k1)" "test_kernel (insert (root_page (p_space alpha)) R) X [p_space alpha] 4 4 root k1"
    "root_page (p_space alpha) \<notin> R" "p_id alpha = next_pid k" "next_pid k1 = next_pid k + 1" "next_thread_id k1 = next_thread_id k"
    by (rule process_new_test [OF tk0])
  let ?R1 = "insert (root_page (p_space alpha)) R"
  have tk1: "test_kernel ?R1 X [p_space alpha] 4 (Suc 3) root k1" using al(2) by simp
  obtain beta k2 where be: "process_new ''process_beta'' k1 = (Inr beta, k2)" "test_kernel (insert (root_page (p_space beta)) ?R1) X [p_space beta, p_space alpha] 4 3 root k2"
    "root_page (p_space beta) \<notin> ?R1" "p_id beta = next_pid k1" "next_pid k2 = next_pid k1 + 1" "next_thread_id k2 = next_thread_id k1"
    by (rule process_new_test [OF tk1])
  let ?R2 = "insert (root_page (p_space beta)) ?R1" and ?s2 = "?s\<lparr>tp_kernel := k2\<rparr>"
  have tk2: "test_kernel ?R2 X [p_space beta, p_space alpha] (Suc (Suc 2)) (Suc 2) root (tp_kernel ?s2)" using be(2) by (simp add: numeral_eq_Suc)
  have static: "\<not> owns_root (p_space (tp_proc ?s2 x))" for x by (cases x) (simp_all add: test_procs_init_def static_process_def)
  have pid2: "next_pid (tp_kernel ?s2) \<noteq> 0" using be(5) al(5) cp by (simp add: add.assoc)
  obtain s3 p t u Y where o: "ownership_test entry ?s2 = Inr s3" "tp_proc s3 = (tp_proc ?s2)(PROC_A := p)" "p_threads p = [t, u]"
    "made_thread t (next_thread_id (tp_kernel ?s2)) (p_id p)" "made_thread u (next_thread_id (tp_kernel ?s2) + 1) (p_id p)"
    "test_kernel (insert (root_page (p_space p)) ?R2) (X \<union> Y) (p_space p # [p_space beta, p_space alpha]) 2 2 root (tp_kernel s3)" "root_page (p_space p) \<notin> ?R2"
    "next_thread_id (tp_kernel s3) = next_thread_id (tp_kernel ?s2) + 2" "next_pid (tp_kernel s3) = next_pid (tp_kernel ?s2) + 1"
    by (rule ownership_test_passes [OF tk2 static e pid2])
  have own3: "\<not> owns_root (p_space (tp_proc s3 MAIN_PROC))" "\<not> owns_root (p_space (tp_proc s3 PROC_B))" and th3: "p_threads (tp_proc s3 PROC_A) = [t, u]"
    using static o(2,3) by simp_all
  have i2: "next_thread_id (tp_kernel ?s2) \<noteq> 0" "next_thread_id (tp_kernel ?s2) + 1 \<noteq> 0" using al(6) be(6) i(1) ci(1) by simp_all
  obtain s4 where sm: "same_process_test sites s3 = Inr s4" "tp_kernel s4 = tp_kernel s3" "main_ready root s4"
    "p_space (tp_proc s4 PROC_A) = p_space (tp_proc s3 PROC_A)" "p_space (tp_proc s4 PROC_B) = p_space (tp_proc s3 PROC_B)"
    by (rule same_process_test_passes [OF sites test_kernelD(4) [OF o(6)] own3(1) th3 o(4,5) i2])
  let ?R3 = "insert (root_page (p_space p)) ?R2"
  have sp4: "p_space (tp_proc s4 PROC_A) = p_space p" using sm(4) o(2) by simp
  have tk4: "test_kernel ?R3 (X \<union> Y) (p_space (tp_proc s4 PROC_A) # [p_space beta, p_space alpha]) (Suc (Suc 0)) (Suc (Suc 0)) root (tp_kernel s4)"
    using o(6) unfolding sp4 sm(2) by (simp add: numeral_eq_Suc)
  have own4: "\<not> owns_root (p_space (tp_proc s4 PROC_B))" using sm(5) own3(2) by simp
  have n4: "next_thread_id (tp_kernel s4) = next_thread_id k + 2" "next_pid (tp_kernel s4) = next_pid k + 3"
    using sm(2) o(8,9) al(5,6) be(5,6) by simp_all
  have i4: "next_thread_id (tp_kernel s4) \<noteq> 0" "next_thread_id (tp_kernel s4) + 1 \<noteq> 0" "next_pid (tp_kernel s4) \<noteq> 0" "next_pid (tp_kernel s4) + 1 \<noteq> 0"
    using n4 ci cp by (simp_all add: add.assoc)
  obtain s5 a b v Z where c: "cross_process_test sites entry s4 = Inr s5" "test_switch_stage s5 = 3"
    "test_kernel (insert (root_page b) (insert (root_page a) ?R3 - {root_page (p_space (tp_proc s4 PROC_A))})) ((X \<union> Y) \<union> Z) (b # a # [p_space beta, p_space alpha]) 0 0 root (tp_kernel s5)"
    "root_page a \<notin> ?R3" "root_page b \<notin> insert (root_page a) ?R3 - {root_page (p_space (tp_proc s4 PROC_A))}"
    "p_space (tp_proc s5 PROC_A) = a" "p_space (tp_proc s5 PROC_B) = b" "p_threads (tp_proc s5 PROC_B) = [v]" "process_id v = p_id (tp_proc s5 PROC_B)"
    "p_id (tp_proc s5 PROC_B) \<noteq> 0" "next_pid (tp_kernel s5) = next_pid (tp_kernel s4) + 2" "next_thread_id (tp_kernel s5) = next_thread_id (tp_kernel s4) + 2"
    by (rule cross_process_test_passes [OF sites e sm(3) own4 tk4 i4])
  let ?R5 = "insert (root_page b) (insert (root_page a) ?R3 - {root_page (p_space (tp_proc s4 PROC_A))})"
  have "test_kernel ?R5 ((X \<union> Y) \<union> Z) ([b, a] @ p_space beta # [p_space alpha]) 0 0 root (tp_kernel s5)" using c(3) by simp
  note d1 = drop_process_test [OF this]
  have "test_kernel (?R5 - {root_page (p_space beta)}) ((X \<union> Y) \<union> Z) ([b, a] @ p_space alpha # []) 0 0 root (drop_process beta (tp_kernel s5))" using d1(1) by simp
  note d2 = drop_process_test [OF this]
  have R: "?R5 - {root_page (p_space beta)} - {root_page (p_space alpha)} = {root_page a, root_page b} \<union> R"
    using al(3) be(3) o(7) c(4,5) sp4 by auto
  let ?s6 = "s5\<lparr>tp_proc := (tp_proc s5)(PROC_B := terminate (tp_proc s5 PROC_B)), tp_kernel := drop_process alpha (drop_process beta (tp_kernel s5))\<rparr>"
  have run: "process_self_tests sites entry ?s = Inr ?s6"
    using al(1,4,5) be(1,4) o(1) sm(1) c(1) termination_test_passes [OF c(8-10)]
    by (simp add: process_self_tests_def test_procs_init_def)
  have ver: "verify (terminate (tp_proc s5 PROC_B)) = Inr ()" "p_state (terminate (tp_proc s5 PROC_B)) = PTerminated" "p_space (terminate (tp_proc s5 PROC_B)) = b"
    unfolding verify_iff using c(7-10) by (simp_all add: terminate_def)
  have "test_kernel ({root_page a, root_page b} \<union> R) (X \<union> (Y \<union> Z)) [b, a] 0 0 root (tp_kernel ?s6)"
    using d2(1) unfolding R by (simp add: Un_assoc)
  moreover have "next_pid (tp_kernel ?s6) = next_pid k + 5" "next_thread_id (tp_kernel ?s6) = next_thread_id k + 4"
    using d1(2,3) d2(2,3) c(11,12) n4 by simp_all
  ultimately show ?thesis using run c(2,6) ver by (intro exI [of _ ?s6] exI [of _ a] exI [of _ b] exI [of _ "Y \<union> Z"]) simp
qed

text \<open>C7. The process self-test passes on every machine with room for its four stacks and five root tables.  Every switch, within a process
  and across processes with a change of CR3, resumes where the thread had left off; the terminated process passes its check.  At
  the end CR3 holds the kernel's root again and the address spaces alive are exactly those of the two processes the statics
  hold: the three other spaces the test created have been given back.\<close>
theorem process_self_tests_pass:
  assumes sites: "\<And>n. valid_site (sites n)" and e: "\<And>i. entry_ok (entry i)" and tk: "test_kernel R X [] 4 5 root k"
    and i: "next_thread_id k \<noteq> 0" "unat (next_thread_id k) + 5 \<le> 2 ^ 64" and pid: "next_pid k \<noteq> 0" "unat (next_pid k) + 5 \<le> 2 ^ 64"
  shows "\<exists>s' a b Y. process_self_tests sites entry (test_procs_init k) = Inr s' \<and> test_switch_stage s' = 3
    \<and> p_space (tp_proc s' PROC_A) = a \<and> p_space (tp_proc s' PROC_B) = b \<and> p_state (tp_proc s' PROC_B) = PTerminated \<and> verify (tp_proc s' PROC_B) = Inr ()
    \<and> test_kernel ({root_page a, root_page b} \<union> R) (X \<union> Y) [b, a] 0 0 root (tp_kernel s')
    \<and> next_pid (tp_kernel s') = next_pid k + 5 \<and> next_thread_id (tp_kernel s') = next_thread_id k + 4"
  using process_tests_run [OF assms] .

text \<open>The sample machine after \<^verbatim>\<open>vmm::init\<close>.\<close>

lemma booted_test_kernel:
  obtains v where "vmm_init boot_map 0xFEE00000 0xFEC00000 None boot_vm = (Inr (), v)"
    and "test_kernel {0x1000000} {} [] 8 16 0x1000000 (booted_kernel v)"
proof -
  obtain v where v: "vmm_init boot_map 0xFEE00000 0xFEC00000 None boot_vm = (Inr (), v)" "vm_ready {0x1000000} {} v" "255 \<le> frames_left v"
    "root_pml4_phys v = 0x1000000" "cr3 v = 0x1000000" "vmm_region_count v \<le> 131" "next_dynamic_addr v = DYNAMIC_VIRT_START" by (rule boot_ready)
  have "kernel_ok {0x1000000} v" by (rule ready_kernel_ok [OF v(2)]) (simp add: v(4))
  moreover have "process_room 8 16 (booted_kernel v)" using booted_stack_room [OF v(3,6,7), of 8] v(3) by (simp add: process_room_def)
  ultimately show thesis using that [OF v(1)] v(2,4,5) sample_entries by (simp add: test_kernel_def spaces_in_use_def)
qed

lemma sample_site: "valid_site (0x140002010, 0x8000)"
  by (simp add: valid_site_def is_canonical_def Let_def signed_drop_bit_word_numeral)

theorem process_self_tests_pass_witness:
  "\<exists>v s'. vmm_init boot_map 0xFEE00000 0xFEC00000 None boot_vm = (Inr (), v)
     \<and> process_self_tests (\<lambda>_. (0x140002010, 0x8000)) (\<lambda>_. 0x140002000) (test_procs_init (booted_kernel v)) = Inr s'
     \<and> test_switch_stage s' = 3 \<and> p_state (tp_proc s' PROC_B) = PTerminated"
proof -
  obtain v where v: "vmm_init boot_map 0xFEE00000 0xFEC00000 None boot_vm = (Inr (), v)"
    "test_kernel {0x1000000} {} [] 8 16 0x1000000 (booted_kernel v)" by (rule booted_test_kernel)
  let ?k = "booted_kernel v"
  have "test_kernel {0x1000000} {} [] 4 5 0x1000000 ?k" using v(2) by (simp add: test_kernel_def process_room_def stack_room_def)
  moreover have "next_thread_id ?k = 1" "next_pid ?k = 1" by simp_all
  ultimately show ?thesis
    using process_self_tests_pass [of "\<lambda>_. (0x140002010, 0x8000)" "\<lambda>_. 0x140002000" "{0x1000000}" "{}" "0x1000000" ?k] sample_site sample_entries(2) v(1)
    by auto
qed

end
