(* ===== verification/Process_Scenario.thy ===== *)
theory Process_Scenario
  imports Process_Tests
begin

text \<open>
  Concrete runs of the process and thread layer on the machine that \<^verbatim>\<open>vmm::init\<close> leaves: a second process with one thread beside the bootstrap
  process, whose thread is on the processor.  One of the two terminates the other, or itself.
\<close>

lemma two_processes:
  obtains s q t k where "sys_run {} 3 s" and "running s = Some (0, 0)" and "procs s = [0 \<mapsto> bootstrap_process k, 1 \<mapsto> q]"
    and "p_threads q = [t]" and "p_id q = 1" and "t_id t = 1" and "switchable t"
proof -
  obtain v where tk: "test_kernel {0x1000000} {} [] 8 16 0x1000000 (booted_kernel v)" by (rule booted_test_kernel)
  let ?k = "booted_kernel v"
  define s0 where "s0 = \<lparr>sys_kernel = ?k, procs = [0 \<mapsto> bootstrap_process ?k], running = Some (0, 0)\<rparr>"
  have r0: "sys_run {} 1 s0" unfolding s0_def by (rule boot) simp_all
  have "test_kernel {0x1000000} {} [] 8 (Suc 15) 0x1000000 ?k" using tk by simp
  then obtain p k1 where p: "process_new ''worker'' ?k = (Inr p, k1)"
    "test_kernel (insert (root_page (p_space p)) {0x1000000}) {} [p_space p] 8 15 0x1000000 k1" "root_page (p_space p) \<notin> {0x1000000}"
    "p_id p = next_pid ?k" "p_name p = ''worker''" "p_state p = PCreated" "p_threads p = []" "next_pid k1 = next_pid ?k + 1"
    "next_thread_id k1 = next_thread_id ?k"
    by (rule process_new_test)
  define s1 where "s1 = s0\<lparr>sys_kernel := k1, procs := [0 \<mapsto> bootstrap_process ?k, 1 \<mapsto> p]\<rparr>"
  have r1: "sys_run {} 2 s1"
    using spawn [OF r0, of 1 "''worker''" p k1] p(1) by (simp add: s0_def s1_def numeral_2_eq_2)
  note d = test_kernelD [OF p(2)]
  have "stack_room (Suc 7) k1" using d(2) by (simp add: process_room_def)
  then obtain t k2 where t: "thread_new_raw ''worker'' 0x140002000 0 k1 = (Inr t, k2)" "t_id t = next_thread_id k1" "switchable t"
    using thread_new_ready [OF spaces_in_useD(1) [OF d(1)] _ sample_entries(2) d(3), where name = "''worker''" and arg = 0 and n = 7] by metis
  define q where "q = p\<lparr>p_threads := [t\<lparr>process_id := p_id p\<rparr>]\<rparr>"
  have "create_thread ''worker'' 0x140002000 0 p k1 = (Inr (t_id t), q, k2)" using t(1) p(6,7) by (simp add: create_thread_def q_def)
  moreover have "procs s1 1 = Some p" "sys_kernel s1 = k1" by (simp_all add: s1_def)
  ultimately have "sys_run {} (2 + 1) (s1\<lparr>sys_kernel := k2, procs := (procs s1)(1 \<mapsto> q)\<rparr>)"
    using attach [OF r1, of 1 p "''worker''" "0x140002000" 0 "Inr (t_id t)" q k2] by simp
  moreover have "running (s1\<lparr>sys_kernel := k2, procs := (procs s1)(1 \<mapsto> q)\<rparr>) = Some (0, 0)"
    "procs (s1\<lparr>sys_kernel := k2, procs := (procs s1)(1 \<mapsto> q)\<rparr>) = [0 \<mapsto> bootstrap_process ?k, 1 \<mapsto> q]"
    by (simp_all add: s1_def s0_def)
  ultimately show thesis
    using that [of "s1\<lparr>sys_kernel := k2, procs := (procs s1)(1 \<mapsto> q)\<rparr>" ?k q "t\<lparr>process_id := p_id p\<rparr>"] t(2,3) p(4,9)
    by (simp add: q_def switchable_def)
qed

text \<open>The bootstrap thread terminates the other process, which passes its check with its thread Terminated.\<close>

theorem sys_run_consistent_witness:
  "\<exists>s q. sys_run {} 3 s \<and> procs s 1 = Some q \<and> p_state q = PTerminated \<and> verify q = Inr ()
     \<and> t_state (hd (p_threads q)) = TTerminated"
proof -
  obtain s q t k where s: "sys_run {} 3 s" "running s = Some (0, 0)" "procs s = [0 \<mapsto> bootstrap_process k, 1 \<mapsto> q]" "p_threads q = [t]" "p_id q = 1"
    by (rule two_processes)
  define s' where "s' = s\<lparr>procs := (procs s)(1 \<mapsto> terminate q)\<rparr>"
  have q: "procs s' 1 = Some (terminate q)" "p_state (terminate q) = PTerminated" "p_id (terminate q) \<notin> {}"
    "p_threads (terminate q) = [t\<lparr>t_state := TTerminated\<rparr>]" using s(4) by (simp_all add: s'_def terminate_def)
  have "sys_run {} 3 s'" using stop [OF s(1), of 1 q] s(2,3) by (simp add: s'_def runs_process_def)
  with sys_run_consistent [OF this] q show ?thesis by (intro exI [of _ s'] exI [of _ "terminate q"]) simp
qed

text \<open>The bootstrap thread terminates its own process, switches to the other and is switched back to.\<close>

theorem terminated_thread_revived_witness:
  "\<exists>s q. sys_run {0} 3 s \<and> running s = Some (0, 0) \<and> procs s 0 = Some q \<and> p_state q = PTerminated
     \<and> t_state (hd (p_threads q)) = TRunning \<and> verify q = Inl InvariantViolation"
proof -
  obtain s q t k where s: "sys_run {} 3 s" "running s = Some (0, 0)" "procs s = [0 \<mapsto> bootstrap_process k, 1 \<mapsto> q]" "p_threads q = [t]" "p_id q = 1"
    "t_id t = 1" "switchable t" by (rule two_processes)
  have p: "procs s 0 = Some (bootstrap_process k)" "present (procs s) (1, 0)" "thread_at (procs s) (1, 0) = t"
    "thread_at (procs s) (0, 0) = bootstrap_thread\<lparr>process_id := 0\<rparr>" "p_id (bootstrap_process k) = 0"
    using s(3,4) by (simp_all add: present_def thread_at_def owner_def bootstrap_process_def)
  then obtain ab where ab: "switch_to 0x140003000 0x8000 (thread_at (procs s) (0, 0)) (thread_at (procs s) (1, 0)) = Inr ab"
    using s(6,7) by (simp add: switch_to_def switchable_def bootstrap_thread_def)
  have c: "(0x8000 :: u64) \<noteq> 72" "is_canonical (0x8000 - 72)" "(0x140003000 :: u64) \<noteq> 0" "is_canonical 0x140003000"
    by (simp_all add: is_canonical_def Let_def signed_drop_bit_word_numeral)
  have "fst (1 :: nat, 0 :: nat) \<noteq> 0" by simp
  from terminated_thread_revived [OF s(1) _ s(2) p(1,2) this ab c, of "0x140003000" "0x8000"] obtain a b a' b' s3 where
    s3: "s3 = s\<lparr>procs := put_thread (0, 0) b' (put_thread (1, 0) a' (put_thread (1, 0) b (put_thread (0, 0) a ((procs s)(0 \<mapsto> terminate (bootstrap_process k)))))),
        running := Some (0, 0)\<rparr>"
      "sys_run {0} 3 s3" "t_state (thread_at (procs s3) (0, 0)) = TRunning" "p_state (owner (procs s3) (0, 0)) = PTerminated"
      "verify (owner (procs s3) (0, 0)) = Inl InvariantViolation"
    by (auto simp: Let_def p(5))
  have "procs s3 0 = Some (owner (procs s3) (0, 0))" "running s3 = Some (0, 0)" by (simp_all add: s3(1) put_thread_def owner_def)
  moreover have "p_threads (owner (procs s3) (0, 0)) \<noteq> []" by (simp add: s3(1) put_thread_def owner_def terminate_def bootstrap_process_def)
  ultimately show ?thesis
    using s3(2-5) by (intro exI [of _ s3] exI [of _ "owner (procs s3) (0, 0)"]) (simp add: thread_at_def hd_conv_nth)
qed

end
