(* ===== verification/Address_Space_Tests.thy ===== *)
theory Address_Space_Tests
  imports Address_Space_Use Memory_Tests
begin

text \<open>
  The boot-time test of address spaces, \<^verbatim>\<open>run_self_tests\<close> of \<^verbatim>\<open>src/src/address_space.rs\<close>: the same virtual address in two spaces leads to two
  frames, what the kernel maps is seen in both, addresses of shared slots are refused, and the teardown gives every frame back.

  Accesses go through the page tables that CR3 points to.  The payload of a heap block is read through the current root where that
  root translates its address as the kernel's own root does; anything else is a fault.  A halt, a panic or a fault is the left result with its
  message.  \<^const>\<open>None\<close> would be a walk over the block list that does not end.
\<close>

subsection \<open>Steps\<close>

definition on_mm :: "(vmm \<Rightarrow> ('e + 'a) \<times> vmm) \<Rightarrow> as_state \<Rightarrow> ('e + 'a) \<times> as_state" where
  "on_mm f s = (case f (as_vmm s) of (r, v) \<Rightarrow> (r, s\<lparr>as_vmm := v\<rparr>))"

definition take_frame :: "string \<Rightarrow> as_state \<Rightarrow> (string + phys_page) \<times> as_state" where
  "take_frame msg s =
     (case allocate_physical_page (vmm_pmm (as_vmm s)) of
        (None, p) \<Rightarrow> (Inl msg, s\<lparr>as_vmm := (as_vmm s)\<lparr>vmm_pmm := p\<rparr>\<rparr>)
      | (Some f, p) \<Rightarrow> (Inr f, s\<lparr>as_vmm := (as_vmm s)\<lparr>vmm_pmm := p\<rparr>\<rparr>))"

definition give_frame :: "phys_page \<Rightarrow> as_state \<Rightarrow> as_state" where
  "give_frame f s = s\<lparr>as_vmm := free_frame f (as_vmm s)\<rparr>"

definition test_va :: virt_addr where
  "test_va = 0x0000200010000000"

abbreviation DATA_FLAGS :: page_flags where
  "DATA_FLAGS \<equiv> FLAG_PRESENT OR FLAG_WRITABLE"

text \<open>Activate a space, compare its translation with the frame, write a word through it.\<close>

definition mark_space :: "address_space \<Rightarrow> phys_page \<Rightarrow> u64 \<Rightarrow> string \<Rightarrow> string \<Rightarrow> as_state \<Rightarrow> (string + unit) \<times> as_state" where
  "mark_space a frame word failed mismatch s =
     (let s = as_activate a s in
      case as_translate a test_va s of
        None \<Rightarrow> (Inl failed, s)
      | Some (pa, _) \<Rightarrow>
          and_then (ensure (pa = frame) mismatch s) (\<lambda>_ s.
          on_mm (store_word test_va word) s))"

definition check_mark :: "address_space \<Rightarrow> u64 \<Rightarrow> string \<Rightarrow> as_state \<Rightarrow> (string + unit) \<times> as_state" where
  "check_mark a word corrupted s =
     (let s = as_activate a s in
      and_then (on_mm (load_word test_va) s) (\<lambda>val s.
      ensure (val = word) corrupted s))"

definition isolation_test :: "as_state \<Rightarrow> (string + (address_space \<times> address_space \<times> phys_page \<times> phys_page)) \<times> as_state" where
  "isolation_test s =
     and_then (or_halt ''Failed to create AddressSpace A'' (as_new s)) (\<lambda>as_a s.
     and_then (or_halt ''Failed to create AddressSpace B'' (as_new s)) (\<lambda>as_b s.
     and_then (ensure (\<not> (as_id as_a = as_id as_b \<or> root_page as_a = root_page as_b)) ''Address spaces share identical IDs or root PML4s!'' s) (\<lambda>_ s.
     and_then (take_frame ''failed frame A'' s) (\<lambda>frame_a s.
     and_then (take_frame ''failed frame B'' s) (\<lambda>frame_b s.
     and_then (or_halt ''map AS A failed'' (as_map_page as_a test_va frame_a DATA_FLAGS s)) (\<lambda>_ s.
     and_then (or_halt ''map AS B failed'' (as_map_page as_b test_va frame_b DATA_FLAGS s)) (\<lambda>_ s.
     and_then (mark_space as_a frame_a 0x1111AAAA1111AAAA ''translation A failed'' ''AS A translation mismatch!'' s) (\<lambda>_ s.
     and_then (mark_space as_b frame_b 0x2222BBBB2222BBBB ''translation B failed'' ''AS B translation mismatch!'' s) (\<lambda>_ s.
     and_then (check_mark as_a 0x1111AAAA1111AAAA ''Isolation failed! AS A canary corrupted by AS B'' s) (\<lambda>_ s.
     and_then (check_mark as_b 0x2222BBBB2222BBBB ''Isolation failed! AS B canary corrupted'' s) (\<lambda>_ s.
     (Inr (as_a, as_b, frame_a, frame_b), as_activate (as_bootstrap s) s))))))))))))"

subsection \<open>The shared kernel half\<close>

record as_bench =
  ab_heap :: kheap
  ab_next_asid :: u64
  ab_current_asid :: u64

definition bench_spaces :: "as_bench \<Rightarrow> as_state" where
  "bench_spaces s = \<lparr>as_vmm = hp_vmm (ab_heap s), next_asid = ab_next_asid s, current_asid = ab_current_asid s\<rparr>"

definition put_spaces :: "as_state \<Rightarrow> as_bench \<Rightarrow> as_bench" where
  "put_spaces a s = s\<lparr>ab_heap := (ab_heap s)\<lparr>hp_vmm := as_vmm a\<rparr>, ab_next_asid := next_asid a, ab_current_asid := current_asid a\<rparr>"

type_synonym 'a bench_step = "((string + 'a) \<times> as_bench) option"

definition bench_then :: "'a bench_step \<Rightarrow> ('a \<Rightarrow> as_bench \<Rightarrow> 'b bench_step) \<Rightarrow> 'b bench_step" where
  "bench_then r k = (case r of None \<Rightarrow> None | Some (Inl e, s) \<Rightarrow> Some (Inl e, s) | Some (Inr a, s) \<Rightarrow> k a s)"

lemma bench_then_simps [simp]:
  "bench_then None k = None" "bench_then (Some (Inl e, s)) k = Some (Inl e, s)" "bench_then (Some (Inr a, s)) k = k a s"
  by (simp_all add: bench_then_def)

definition on_spaces :: "(as_state \<Rightarrow> (string + 'a) \<times> as_state) \<Rightarrow> as_bench \<Rightarrow> 'a bench_step" where
  "on_spaces f s = (case f (bench_spaces s) of (r, a) \<Rightarrow> Some (r, put_spaces a s))"

definition on_heap :: "(kheap \<Rightarrow> 'a heap_step) \<Rightarrow> as_bench \<Rightarrow> 'a bench_step" where
  "on_heap f s = (case f (ab_heap s) of None \<Rightarrow> None | Some (r, h) \<Rightarrow> Some (r, s\<lparr>ab_heap := h\<rparr>))"

definition bench_activate :: "address_space \<Rightarrow> as_bench \<Rightarrow> as_bench" where
  "bench_activate a s = put_spaces (as_activate a (bench_spaces s)) s"

definition load_heap :: "nat \<Rightarrow> kheap \<Rightarrow> u64 heap_step" where
  "load_heap p s =
     (let v = hp_vmm s in
      Some (if mmu_translate (vmm_mem v) (cr3 v) (of_nat p) = mmu_translate (vmm_mem v) (root_pml4_phys v) (of_nat p)
            then Inr (read_u64 (client_read p 8 s) 0) else Inl ''page fault'', s))"

definition sees_kernel :: "virt_addr \<Rightarrow> virt_addr \<Rightarrow> as_state \<Rightarrow> address_space \<Rightarrow> bool" where
  "sees_kernel heap_va late_va s a \<longleftrightarrow>
     (let kernel_root = root_pml4_phys (as_vmm s) in
      shares_kernel_half (root_page a) (as_vmm s)
      \<and> map_option fst (as_translate a heap_va s) = map_option fst (translate kernel_root heap_va (as_vmm s))
      \<and> map_option fst (as_translate a late_va s) = map_option fst (translate kernel_root late_va (as_vmm s)))"

definition shared_half_test :: "(nat \<Rightarrow> block_header) \<Rightarrow> address_space \<Rightarrow> address_space \<Rightarrow> address_space \<Rightarrow> as_bench \<Rightarrow> unit bench_step" where
  "shared_half_test junk as_a as_b boot_as s =
     bench_then (on_heap (alloc_or_halt 8 8 ''memory allocation failed'') s) (\<lambda>heap_probe s.
     let s = s\<lparr>ab_heap := client_write junk heap_probe (le_bytes 8 0xC0FFEE00C0FFEE00) (ab_heap s)\<rparr>;
         heap_va = of_nat heap_probe AND NOT (PAGE_SIZE - 1) in
     bench_then (on_spaces (\<lambda>a. or_halt ''late kernel region allocation failed'' (on_mm (allocate_and_map_region PAGE_SIZE PERM_KERNEL_DATA DynamicKernel) a)) s)
       (\<lambda>late_region s.
     bench_then (on_spaces (\<lambda>a. ensure (list_all (sees_kernel heap_va (vr_start late_region) a) [as_a, as_b]) ''ASID does not share kernel mappings!'' a) s) (\<lambda>_ s.
     bench_then (on_heap (load_heap heap_probe) (bench_activate as_a s)) (\<lambda>heap_word s.
     bench_then (on_spaces (on_mm (store_word (vr_start late_region) 0x5A5A5A5A5A5A5A5A)) s) (\<lambda>_ s.
     bench_then (on_spaces (on_mm (load_word (vr_start late_region))) (bench_activate as_b s)) (\<lambda>late_word s.
     bench_then (on_spaces (ensure (heap_word = 0xC0FFEE00C0FFEE00 \<and> late_word = 0x5A5A5A5A5A5A5A5A) ''Kernel heap or late kernel region unreadable after CR3 switch!'')
       (bench_activate boot_as s)) (\<lambda>_ s.
     let s = put_spaces (snd (on_mm (unmap_region late_region) (bench_spaces s))) s;
         s = s\<lparr>ab_heap := heap_deallocate heap_probe 8 (ab_heap s)\<rparr> in
     Some (Inr (), s))))))))"

subsection \<open>Rejections and teardown\<close>

definition reject_test :: "address_space \<Rightarrow> phys_page \<Rightarrow> as_state \<Rightarrow> (string + unit) \<times> as_state" where
  "reject_test as_a frame_a s =
     (case as_map_page as_a DYNAMIC_VIRT_START frame_a FLAG_PRESENT s of
        (r1, s) \<Rightarrow>
          if r1 \<noteq> Inl InvalidVirtualAddress then (Inl ''AddressSpace allowed a mapping into a shared PML4 slot!'', s)
          else case as_map_page as_a 0x40000000 frame_a FLAG_PRESENT s of
            (r2, s) \<Rightarrow> ensure (r2 = Inl InvalidVirtualAddress) ''AddressSpace allowed a mapping into a shared PML4 slot!'' s)"

definition cleanup_spaces :: "address_space \<Rightarrow> address_space \<Rightarrow> phys_page \<Rightarrow> phys_page \<Rightarrow> as_state \<Rightarrow> (address_space \<times> address_space) \<times> as_state" where
  "cleanup_spaces as_a as_b frame_a frame_b s =
     (let s = snd (as_unmap_page as_a test_va s);
          s = snd (as_unmap_page as_b test_va s);
          s = give_frame frame_b (give_frame frame_a s);
          (as_a, s) = as_destroy as_a s;
          (as_b, s) = as_destroy as_b s
      in ((as_a, as_b), s))"

definition leak_test :: "as_state \<Rightarrow> (string + unit) \<times> as_state" where
  "leak_test s =
     (let free_before = pmm_free (vmm_pmm (as_vmm s)) in
      and_then (or_halt ''Failed to create AddressSpace C'' (as_new s)) (\<lambda>as_c s.
      and_then (take_frame ''failed frame C'' s) (\<lambda>frame_c s.
      and_then (or_halt ''map AS C failed'' (as_map_page as_c test_va frame_c DATA_FLAGS s)) (\<lambda>_ s.
      let s = give_frame frame_c (snd (as_unmap_page as_c test_va s));
          s = snd (as_destroy as_c s)
      in ensure (pmm_free (vmm_pmm (as_vmm s)) = free_before) ''AddressSpace teardown leaked pages!'' s))))"

text \<open>At the end the three handles are dropped, the last declared first.\<close>

definition address_space_self_tests :: "(nat \<Rightarrow> block_header) \<Rightarrow> as_bench \<Rightarrow> unit bench_step" where
  "address_space_self_tests junk s =
     bench_then (on_spaces isolation_test s) (\<lambda>(as_a, as_b, frame_a, frame_b) s.
     let boot_as = as_bootstrap (bench_spaces s) in
     bench_then (shared_half_test junk as_a as_b boot_as s) (\<lambda>_ s.
     bench_then (on_spaces (reject_test as_a frame_a) s) (\<lambda>_ s.
     case cleanup_spaces as_a as_b frame_a frame_b (bench_spaces s) of
       ((as_a, as_b), a) \<Rightarrow>
         bench_then (on_spaces leak_test (put_spaces a s)) (\<lambda>_ s.
         Some (Inr (), put_spaces (snd (as_destroy as_a (snd (as_destroy as_b (snd (as_destroy boot_as (bench_spaces s))))))) s)))))"

subsection \<open>Frames\<close>

lemma vm_ready_pmm:
  assumes "vm_ready R X v" and "vm_ok R Y (v\<lparr>vmm_pmm := p\<rparr>)"
  shows "vm_ready R Y (v\<lparr>vmm_pmm := p\<rparr>)"
proof -
  have "regions_inv (v\<lparr>vmm_pmm := p\<rparr>)" "live_vregions (v\<lparr>vmm_pmm := p\<rparr>) = live_vregions v" "cursor_ok (v\<lparr>vmm_pmm := p\<rparr>)"
    using regions_cong [of "v\<lparr>vmm_pmm := p\<rparr>" v] cursor_cong [of "v\<lparr>vmm_pmm := p\<rparr>" v] vm_readyD(2,3) [OF assms(1)] by simp_all
  then show ?thesis using assms vm_readyD [OF assms(1)] by (auto simp: vm_ready_def simp del: walk.simps)
qed

lemma take_frame_in_use:
  assumes use: "spaces_in_use R X as s" and room: "0 < frames_left (as_vmm s)"
  obtains f p where "take_frame msg s = (Inr f, s\<lparr>as_vmm := (as_vmm s)\<lparr>vmm_pmm := p\<rparr>\<rparr>)"
    and "spaces_in_use R (insert f X) as (s\<lparr>as_vmm := (as_vmm s)\<lparr>vmm_pmm := p\<rparr>\<rparr>)" and "f \<in> free_addrs (vmm_pmm (as_vmm s))" and "f \<notin> X"
    and "free_addrs p = free_addrs (vmm_pmm (as_vmm s)) - {f}" and "managed_addrs p = managed_addrs (vmm_pmm (as_vmm s))" and "frame_addr f"
    and "f \<in> managed_addrs (vmm_pmm (as_vmm s))" and "card (free_addrs p) = frames_left (as_vmm s) - 1"
proof -
  let ?v = "as_vmm s"
  note u = spaces_in_useD [OF use] and d = vm_readyD [OF spaces_in_useD(1) [OF use]]
  have inv: "pmm_inv (vmm_pmm ?v)" using d(1) by (simp add: vm_ok_def)
  obtain r p where al: "allocate_physical_page (vmm_pmm ?v) = (r, p)" by fastforce
  have "free_addrs (vmm_pmm ?v) \<noteq> {}" using room by auto
  then obtain f where f: "r = Some f" using pmm_frames.alloc_None [OF inv, of p] al by (cases r) auto
  then have "alloc_loop allocate_physical_page free_physical_page 1 [] (vmm_pmm ?v) = (Some [f], p)" using al by simp
  note t = vm_ok_take_frames [OF d(1) this]
  have X: "f \<notin> X" using t(4) d(1) d(5) by (auto simp: vm_ok_def avail_def)
  have "spaces_in_use R (insert f X) as (s\<lparr>as_vmm := ?v\<lparr>vmm_pmm := p\<rparr>\<rparr>)"
    by (rule spaces_same_tables [OF use]) (use vm_ready_pmm [OF u(1)] t(1,6) in \<open>simp_all add: same_tables_mem\<close>)
  moreover have "f \<in> managed_addrs (vmm_pmm ?v)" using t(4) pmm_frames.frees_managed [OF inv] by auto
  ultimately show thesis using t X f al by (intro that [of f p]) (simp_all add: take_frame_def card_Diff_singleton)
qed

lemma give_frame_in_use:
  assumes use: "spaces_in_use R X as s" and f: "f \<in> X" "f \<in> managed_addrs (vmm_pmm (as_vmm s))"
  shows "spaces_in_use R (X - {f}) as (give_frame f s)" and "free_addrs (vmm_pmm (as_vmm (give_frame f s))) = insert f (free_addrs (vmm_pmm (as_vmm s)))"
    and "managed_addrs (vmm_pmm (as_vmm (give_frame f s))) = managed_addrs (vmm_pmm (as_vmm s))"
    and "give_frame f s = s\<lparr>as_vmm := (as_vmm s)\<lparr>vmm_pmm := vmm_pmm (as_vmm (give_frame f s))\<rparr>\<rparr>"
proof -
  let ?v = "as_vmm s" and ?p = "release_all free_physical_page [f] (vmm_pmm (as_vmm s))"
  note u = spaces_in_useD [OF use] and d = vm_readyD [OF spaces_in_useD(1) [OF use]]
  have ok: "vm_ok R ((X - {f}) \<union> set [f]) ?v" using d(1) f(1) by (simp add: insert_absorb)
  have "distinct [f]" "set [f] \<subseteq> managed_addrs (vmm_pmm ?v)" "set [f] \<inter> (X - {f}) = {}" using f by auto
  note g = vm_ok_give_frames [OF ok this]
  have inv: "pmm_inv (vmm_pmm ?v)" using d(1) by (simp add: vm_ok_def)
  have man: "managed_addrs ?p = managed_addrs (vmm_pmm ?v)" using pmm_frames.release_all_invar [OF inv, of "[f]"] by simp
  have e: "give_frame f s = s\<lparr>as_vmm := ?v\<lparr>vmm_pmm := ?p\<rparr>\<rparr>" by (simp add: give_frame_def free_frame_def)
  show "spaces_in_use R (X - {f}) as (give_frame f s)"
    by (rule spaces_same_tables [OF use]) (use vm_ready_pmm [OF u(1) g(1)] man in \<open>simp_all add: e same_tables_mem\<close>)
  show "free_addrs (vmm_pmm (as_vmm (give_frame f s))) = insert f (free_addrs (vmm_pmm ?v))"
    "managed_addrs (vmm_pmm (as_vmm (give_frame f s))) = managed_addrs (vmm_pmm ?v)"
    "give_frame f s = s\<lparr>as_vmm := ?v\<lparr>vmm_pmm := vmm_pmm (as_vmm (give_frame f s))\<rparr>\<rparr>"
    using g(2) man by (simp_all add: e)
qed

subsection \<open>One address in two spaces\<close>

lemma test_va_facts:
  "is_canonical test_va" "va_is_aligned test_va" "is_private_addr test_va" "page_offset test_va = 0" "length (va_path test_va) = 4"
  by (simp_all add: test_va_def is_private_addr_def pml4_index_def KERNEL_PML4_START_def is_canonical_def Let_def va_is_aligned_def
      page_offset_def va_path_def signed_drop_bit_word_numeral drop_bit_word_numeral)

lemma test_va_checks: "frame_addr f \<Longrightarrow> map_checks test_va f"
  using test_va_facts frame_addr_bits [of f] by (force simp: map_checks_def aligned_bits)

definition maps_test :: "vmm \<Rightarrow> address_space \<Rightarrow> phys_page \<Rightarrow> bool" where
  "maps_test v a f \<longleftrightarrow> xlate (vmm_mem v) (root_page a) (va_path test_va) = Some (pte_set f DATA_FLAGS, []) \<and> frame_addr f"

lemma maps_test_page: "maps_test v a f \<Longrightarrow> page_mapped (root_page a) test_va f DATA_FLAGS (vmm_mem v)"
  using test_va_facts by (simp add: maps_test_def page_mapped_def)

lemma data_flags: "flags_clean DATA_FLAGS" "DATA_FLAGS AND FLAG_WRITABLE \<noteq> 0" "is_present DATA_FLAGS"
  by (simp_all add: flags_clean_or) (simp add: kernel_consts)

lemma maps_test_translate:
  assumes "maps_test (as_vmm s) a f"
  shows "as_translate a test_va s = Some (f, DATA_FLAGS)"
proof -
  have x: "xlate (vmm_mem (as_vmm s)) (root_page a) (va_path test_va) = Some (pte_set f DATA_FLAGS, [])" "frame_addr f"
    using assms by (simp_all add: maps_test_def)
  then have "no_large_page (vmm_mem (as_vmm s)) (root_page a) test_va" by (simp add: no_large_page_def)
  from translate_mmu [OF this] mmu_leaf [OF test_va_facts(1) x(1) data_flags(1) x(2)] show ?thesis
    by (simp add: as_translate_def test_va_facts)
qed

text \<open>The spaces and the frames of the first steps.\<close>

definition marked :: "u64 set \<Rightarrow> u64 set \<Rightarrow> address_space \<Rightarrow> address_space \<Rightarrow> phys_page \<Rightarrow> phys_page \<Rightarrow> as_state \<Rightarrow> bool" where
  "marked R X a b fa fb s \<longleftrightarrow> spaces_in_use R X [b, a] s \<and> maps_test (as_vmm s) a fa \<and> maps_test (as_vmm s) b fb
     \<and> fa \<noteq> fb \<and> fa \<in> X \<and> fb \<in> X \<and> fa \<in> managed_addrs (vmm_pmm (as_vmm s)) \<and> fb \<in> managed_addrs (vmm_pmm (as_vmm s))"

lemma markedD:
  assumes "marked R X a b fa fb s"
  shows "spaces_in_use R X [b, a] s" and "maps_test (as_vmm s) a fa" and "maps_test (as_vmm s) b fb" and "fa \<noteq> fb" and "fa \<in> X" and "fb \<in> X"
    and "fa \<in> managed_addrs (vmm_pmm (as_vmm s))" and "fb \<in> managed_addrs (vmm_pmm (as_vmm s))"
    and "root_page a \<in> R" and "root_page b \<in> R" and "root_page a \<noteq> 0" and "root_page b \<noteq> 0"
  using assms spaces_in_useD(4) [of R X "[b, a]" s] by (auto simp: marked_def space_ok_def)

lemma marked_step:
  assumes m: "marked R X a b fa fb s" and use: "spaces_in_use R Y [b, a] s'" and Y: "fa \<in> Y" "fb \<in> Y"
    and man: "managed_addrs (vmm_pmm (as_vmm s')) = managed_addrs (vmm_pmm (as_vmm s))"
    and x: "\<And>r. r \<in> {root_page a, root_page b} \<Longrightarrow>
      xlate (vmm_mem (as_vmm s')) r (va_path test_va) = xlate (vmm_mem (as_vmm s)) r (va_path test_va)"
  shows "marked R Y a b fa fb s'"
  using assms by (simp add: marked_def maps_test_def)

lemma marked_activate:
  assumes m: "marked R X a b fa fb s"
  shows "marked R X a b fa fb (as_activate c s)"
proof -
  note k = as_activate_in_use [OF markedD(1) [OF m], of c]
  have "vmm_mem (as_vmm (as_activate c s)) = vmm_mem (as_vmm s)" "vmm_pmm (as_vmm (as_activate c s)) = vmm_pmm (as_vmm s)"
    by (subst k(3), simp)+
  then show ?thesis using marked_step [OF m k(1)] markedD [OF m] by simp
qed

lemma marked_write:
  assumes m: "marked R X a b fa fb s" and f: "f \<in> X"
  shows "marked R X a b fa fb (s\<lparr>as_vmm := (as_vmm s)\<lparr>vmm_mem := write_entry (vmm_mem (as_vmm s)) f 0 w\<rparr>\<rparr>)"
proof -
  let ?m = "write_entry (vmm_mem (as_vmm s)) f 0 w"
  note u = spaces_in_useD [OF markedD(1) [OF m]]
  have eq: "\<And>t. t \<notin> X \<Longrightarrow> ?m t = vmm_mem (as_vmm s) t" using f by (auto simp: write_entry_def)
  note ok = vm_readyD(1) [OF u(1)]
  have "spaces_in_use R X [b, a] (s\<lparr>as_vmm := (as_vmm s)\<lparr>vmm_mem := ?m\<rparr>\<rparr>)"
    by (rule spaces_same_tables [OF markedD(1) [OF m]]) (use ready_data [OF u(1) eq] same_tables_data [OF ok eq] in simp_all)
  then show ?thesis
    using vm_ok_data(2) [OF ok eq] test_va_facts(5) markedD [OF m] by (intro marked_step [OF m]) auto
qed

lemma access_test:
  assumes "maps_test (as_vmm s) c f" and "cr3 (as_vmm s) = root_page c"
  shows "on_mm (load_word test_va) s = (Inr (vmm_mem (as_vmm s) f 0), s)"
    and "on_mm (store_word test_va w) s = (Inr (), s\<lparr>as_vmm := (as_vmm s)\<lparr>vmm_mem := write_entry (vmm_mem (as_vmm s)) f 0 w\<rparr>\<rparr>)"
proof -
  have p: "page_mapped (cr3 (as_vmm s)) test_va f DATA_FLAGS (vmm_mem (as_vmm s))" "frame_addr f"
    using maps_test_page [OF assms(1)] assms by (simp_all add: maps_test_def)
  note a = page_access [OF p(1) data_flags(1) p(2)]
  show "on_mm (load_word test_va) s = (Inr (vmm_mem (as_vmm s) f 0), s)"
    "on_mm (store_word test_va w) s = (Inr (), s\<lparr>as_vmm := (as_vmm s)\<lparr>vmm_mem := write_entry (vmm_mem (as_vmm s)) f 0 w\<rparr>\<rparr>)"
    using a(1) a(2) [OF data_flags(2)] by (simp_all add: on_mm_def load_word_def store_word_def)
qed

text \<open>The parts of the state that the rest of the test depends on.\<close>

definition same_books :: "as_state \<Rightarrow> as_state \<Rightarrow> bool" where
  "same_books s s' \<longleftrightarrow> as_vmm s' = (as_vmm s)\<lparr>vmm_mem := vmm_mem (as_vmm s'), vmm_pmm := vmm_pmm (as_vmm s'),
     bootstrap_index := bootstrap_index (as_vmm s'), cr3 := cr3 (as_vmm s')\<rparr>"

lemma same_booksI: "as_vmm s' = (as_vmm s)\<lparr>vmm_mem := m, vmm_pmm := p, bootstrap_index := i, cr3 := c\<rparr> \<Longrightarrow> same_books s s'"
  by (simp add: same_books_def)

lemma same_books_trans [trans]: "same_books s s' \<Longrightarrow> same_books s' s'' \<Longrightarrow> same_books s s''"
  unfolding same_books_def by (cases "as_vmm s"; cases "as_vmm s'"; cases "as_vmm s''") simp

lemma same_books_activate: "same_books s (as_activate c s)"
  by (simp add: same_books_def as_activate_def Let_def)

lemma activate_same: "vmm_mem (as_vmm (as_activate c s)) = vmm_mem (as_vmm s)" "vmm_pmm (as_vmm (as_activate c s)) = vmm_pmm (as_vmm s)"
  by (simp_all add: as_activate_def Let_def)

lemma mark_space_passes:
  assumes m: "marked R X a b fa fb s" and c: "(c, f) \<in> {(a, fa), (b, fb)}"
  obtains s' where "mark_space c f w msg1 msg2 s = (Inr (), s')" and "marked R X a b fa fb s'" and "vmm_mem (as_vmm s') f 0 = w"
    and "\<forall>t. t \<noteq> f \<longrightarrow> vmm_mem (as_vmm s') t = vmm_mem (as_vmm s) t" and "same_books s s'" and "vmm_pmm (as_vmm s') = vmm_pmm (as_vmm s)"
    and "next_asid s' = next_asid s"
proof -
  let ?s = "as_activate c s"
  note k = as_activate_in_use [OF markedD(1) [OF m], of c]
  note m1 = marked_activate [OF m, of c]
  have cr: "cr3 (as_vmm ?s) = root_page c" using k(4) markedD(11,12) [OF m] c by auto
  have mp: "maps_test (as_vmm ?s) c f" and fX: "f \<in> X" using markedD [OF m1] c by auto
  have mem: "vmm_mem (as_vmm ?s) = vmm_mem (as_vmm s)" "vmm_pmm (as_vmm ?s) = vmm_pmm (as_vmm s)" by (subst k(3), simp)+
  let ?s' = "?s\<lparr>as_vmm := (as_vmm ?s)\<lparr>vmm_mem := write_entry (vmm_mem (as_vmm ?s)) f 0 w\<rparr>\<rparr>"
  have "mark_space c f w msg1 msg2 s = (Inr (), ?s')"
    using maps_test_translate [OF mp] access_test(2) [OF mp cr] by (simp add: mark_space_def Let_def)
  moreover have "same_books ?s ?s'" by (simp add: same_books_def)
  ultimately show thesis
    using marked_write [OF m1 fX] same_books_trans [OF same_books_activate] mem k(2)
    by (intro that [of ?s']) (auto simp: write_entry_def)
qed

lemma check_mark_passes:
  assumes m: "marked R X a b fa fb s" and c: "(c, f) \<in> {(a, fa), (b, fb)}" and w: "vmm_mem (as_vmm s) f 0 = w"
  shows "check_mark c w msg s = (Inr (), as_activate c s)"
proof -
  note k = as_activate_in_use [OF markedD(1) [OF m], of c]
  have cr: "cr3 (as_vmm (as_activate c s)) = root_page c" using k(4) markedD(11,12) [OF m] c by auto
  have mp: "maps_test (as_vmm (as_activate c s)) c f" using markedD [OF marked_activate [OF m, of c]] c by auto
  have "vmm_mem (as_vmm (as_activate c s)) = vmm_mem (as_vmm s)" by (subst k(3)) simp
  then show ?thesis using access_test(1) [OF mp cr] w by (simp add: check_mark_def Let_def)
qed

text \<open>Two new spaces with a page each at the test address.\<close>

lemma two_spaces:
  assumes use: "spaces_in_use R X [] s" and room: "10 \<le> frames_left (as_vmm s)"
  obtains a b fa fb s1 s2 s3 s4 s5 s6 where "as_new s = (Inr a, s1)" and "as_new s1 = (Inr b, s2)" and "as_id a \<noteq> as_id b" and "root_page a \<noteq> root_page b"
    and "take_frame ''failed frame A'' s2 = (Inr fa, s3)" and "take_frame ''failed frame B'' s3 = (Inr fb, s4)"
    and "as_map_page a test_va fa DATA_FLAGS s4 = (Inr (), s5)" and "as_map_page b test_va fb DATA_FLAGS s5 = (Inr (), s6)"
    and "marked (insert (root_page b) (insert (root_page a) R)) (insert fb (insert fa X)) a b fa fb s6"
    and "root_page a \<notin> R" and "root_page b \<notin> R" and "fa \<notin> X" and "fb \<notin> X"
    and "same_books s s6" and "next_asid s6 = next_asid s + 2" and "cr3 (as_vmm s6) = cr3 (as_vmm s)" and "frames_left (as_vmm s) \<le> frames_left (as_vmm s6) + 10"
    and "same_translations R (as_vmm s) (as_vmm s6)"
proof -
  have r0: "0 < frames_left (as_vmm s)" using room by simp
  obtain a s1 where a: "as_new s = (Inr a, s1)" "spaces_in_use (insert (root_page a) R) X [a] s1" "frames_left (as_vmm s1) = frames_left (as_vmm s) - 1"
    "as_id a = next_asid s" "next_asid s1 = next_asid s + 1" "root_page a \<notin> R"
    "as_vmm s1 = (as_vmm s)\<lparr>vmm_mem := vmm_mem (as_vmm s1), vmm_pmm := vmm_pmm (as_vmm s1)\<rparr>" "same_translations R (as_vmm s) (as_vmm s1)"
    "\<forall>q. length q = 4 \<longrightarrow> xlate (vmm_mem (as_vmm s1)) (root_page a) q =
      (if shared_slot (hd q) then xlate (vmm_mem (as_vmm s)) (root_pml4_phys (as_vmm s)) q else None)"
    by (rule as_new_in_use [OF use r0])
  have r1: "0 < frames_left (as_vmm s1)" using room a(3) by simp
  let ?R1 = "insert (root_page a) R"
  obtain b s2 where b: "as_new s1 = (Inr b, s2)" "spaces_in_use (insert (root_page b) ?R1) X [b, a] s2" "frames_left (as_vmm s2) = frames_left (as_vmm s1) - 1"
    "as_id b = next_asid s1" "next_asid s2 = next_asid s1 + 1" "root_page b \<notin> ?R1"
    "as_vmm s2 = (as_vmm s1)\<lparr>vmm_mem := vmm_mem (as_vmm s2), vmm_pmm := vmm_pmm (as_vmm s2)\<rparr>" "same_translations ?R1 (as_vmm s1) (as_vmm s2)"
    "\<forall>q. length q = 4 \<longrightarrow> xlate (vmm_mem (as_vmm s2)) (root_page b) q =
      (if shared_slot (hd q) then xlate (vmm_mem (as_vmm s1)) (root_pml4_phys (as_vmm s1)) q else None)"
    by (rule as_new_in_use [OF a(2) r1])
  let ?R2 = "insert (root_page b) ?R1"
  have priv: "\<not> shared_slot (hd (va_path test_va))" using test_va_facts(3) unfolding private_slot_iff by (simp add: va_path_def)
  have ua: "xlate (vmm_mem (as_vmm s2)) (root_page a) (va_path test_va) = None"
    using b(8) a(9) priv test_va_facts(5) by (simp add: same_translations_def)
  have ub: "xlate (vmm_mem (as_vmm s2)) (root_page b) (va_path test_va) = None" using b(9) priv test_va_facts(5) by simp
  have r2: "0 < frames_left (as_vmm s2)" using room a(3) b(3) by simp
  obtain fa p where fa: "take_frame ''failed frame A'' s2 = (Inr fa, s2\<lparr>as_vmm := (as_vmm s2)\<lparr>vmm_pmm := p\<rparr>\<rparr>)"
    "spaces_in_use ?R2 (insert fa X) [b, a] (s2\<lparr>as_vmm := (as_vmm s2)\<lparr>vmm_pmm := p\<rparr>\<rparr>)" "fa \<notin> X" "managed_addrs p = managed_addrs (vmm_pmm (as_vmm s2))" "frame_addr fa"
    "fa \<in> managed_addrs (vmm_pmm (as_vmm s2))" "card (free_addrs p) = frames_left (as_vmm s2) - 1"
    by (rule take_frame_in_use [OF b(2) r2])
  let ?s3 = "s2\<lparr>as_vmm := (as_vmm s2)\<lparr>vmm_pmm := p\<rparr>\<rparr>"
  have r3: "0 < frames_left (as_vmm ?s3)" using room a(3) b(3) fa(7) by simp
  obtain fb p' where fb: "take_frame ''failed frame B'' ?s3 = (Inr fb, ?s3\<lparr>as_vmm := (as_vmm ?s3)\<lparr>vmm_pmm := p'\<rparr>\<rparr>)"
    "spaces_in_use ?R2 (insert fb (insert fa X)) [b, a] (?s3\<lparr>as_vmm := (as_vmm ?s3)\<lparr>vmm_pmm := p'\<rparr>\<rparr>)" "fb \<notin> insert fa X" "managed_addrs p' = managed_addrs (vmm_pmm (as_vmm ?s3))"
    "frame_addr fb" "fb \<in> managed_addrs (vmm_pmm (as_vmm ?s3))" "card (free_addrs p') = frames_left (as_vmm ?s3) - 1"
    by (rule take_frame_in_use [OF fa(2) r3])
  let ?s4 = "s2\<lparr>as_vmm := (as_vmm s2)\<lparr>vmm_pmm := p'\<rparr>\<rparr>" and ?X = "insert fb (insert fa X)"
  have use4: "spaces_in_use ?R2 ?X [b, a] ?s4" and t4: "take_frame ''failed frame B'' ?s3 = (Inr fb, ?s4)" using fb(1,2) by simp_all
  have c4: "3 \<le> frames_left (as_vmm ?s4)" "frames_left (as_vmm s) \<le> frames_left (as_vmm ?s4) + 4" "6 \<le> frames_left (as_vmm ?s4)"
    using room a(3) b(3) fa(7) fb(7) by simp_all
  have mem: "a \<in> set [b, a]" "b \<in> set [b, a]" and ua4: "xlate (vmm_mem (as_vmm ?s4)) (root_page a) (va_path test_va) = None" using ua by simp_all
  obtain s5 where m5: "as_map_page a test_va fa DATA_FLAGS ?s4 = (Inr (), s5)" "spaces_in_use ?R2 ?X [b, a] s5"
    "\<forall>r\<in>?R2. \<forall>q. length q = 4 \<longrightarrow> xlate (vmm_mem (as_vmm s5)) r q =
      (if q = va_path test_va \<and> r = root_page a then Some (pte_set fa DATA_FLAGS, []) else xlate (vmm_mem (as_vmm ?s4)) r q)"
    "frames_left (as_vmm ?s4) \<le> frames_left (as_vmm s5) + 3" "s5 = ?s4\<lparr>as_vmm := as_vmm s5\<rparr>"
    "as_vmm s5 = (as_vmm ?s4)\<lparr>vmm_mem := vmm_mem (as_vmm s5), vmm_pmm := vmm_pmm (as_vmm s5), bootstrap_index := bootstrap_index (as_vmm s5)\<rparr>"
    "managed_addrs (vmm_pmm (as_vmm s5)) = managed_addrs (vmm_pmm (as_vmm ?s4))"
    by (rule space_map_in_use [OF use4 mem(1) test_va_facts(3) test_va_checks [OF fa(5)] data_flags(3) c4(1) ua4])
  have c5: "3 \<le> frames_left (as_vmm s5)" using c4(3) m5(4) by linarith
  have ub5: "xlate (vmm_mem (as_vmm s5)) (root_page b) (va_path test_va) = None"
    using m5(3) ub b(6) test_va_facts(5) by auto
  obtain s6 where m6: "as_map_page b test_va fb DATA_FLAGS s5 = (Inr (), s6)" "spaces_in_use ?R2 ?X [b, a] s6"
    "\<forall>r\<in>?R2. \<forall>q. length q = 4 \<longrightarrow> xlate (vmm_mem (as_vmm s6)) r q =
      (if q = va_path test_va \<and> r = root_page b then Some (pte_set fb DATA_FLAGS, []) else xlate (vmm_mem (as_vmm s5)) r q)"
    "frames_left (as_vmm s5) \<le> frames_left (as_vmm s6) + 3" "s6 = s5\<lparr>as_vmm := as_vmm s6\<rparr>"
    "as_vmm s6 = (as_vmm s5)\<lparr>vmm_mem := vmm_mem (as_vmm s6), vmm_pmm := vmm_pmm (as_vmm s6), bootstrap_index := bootstrap_index (as_vmm s6)\<rparr>"
    "managed_addrs (vmm_pmm (as_vmm s6)) = managed_addrs (vmm_pmm (as_vmm s5))"
    by (rule space_map_in_use [OF m5(2) mem(2) test_va_facts(3) test_va_checks [OF fb(5)] data_flags(3) c5 ub5])
  have "maps_test (as_vmm s6) a fa"
    using m6(3) m5(3) b(6) test_va_facts(5) fa(5) by (auto simp: maps_test_def)
  moreover have "maps_test (as_vmm s6) b fb" using m6(3) test_va_facts(5) fb(5) by (auto simp: maps_test_def)
  ultimately have mk: "marked ?R2 ?X a b fa fb s6"
    using m6(2,7) m5(7) fa(4,6) fb(3,4,6) by (auto simp: marked_def)
  have "same_books s s1" by (rule same_booksI [OF trans [OF a(7)], where c = "cr3 (as_vmm s)" and i = "bootstrap_index (as_vmm s)"]) simp
  also have "same_books s1 s2" by (rule same_booksI [OF trans [OF b(7)], where c = "cr3 (as_vmm s1)" and i = "bootstrap_index (as_vmm s1)"]) simp
  also have "same_books s2 ?s4" by (simp add: same_books_def)
  also have "same_books ?s4 s5" by (rule same_booksI [OF trans [OF m5(6)], where c = "cr3 (as_vmm ?s4)"]) simp
  also have "same_books s5 s6" by (rule same_booksI [OF trans [OF m6(6)], where c = "cr3 (as_vmm s5)"]) simp
  finally have bk: "same_books s s6" .
  have c: "cr3 (as_vmm s1) = cr3 (as_vmm s)" "cr3 (as_vmm s2) = cr3 (as_vmm s1)" "cr3 (as_vmm s5) = cr3 (as_vmm s2)" "cr3 (as_vmm s6) = cr3 (as_vmm s5)"
    by (subst a(7), simp) (subst b(7), simp, subst m5(6), simp, subst m6(6), simp)
  have n: "next_asid s5 = next_asid s2" "next_asid s6 = next_asid s5" by (subst m5(5), simp) (subst m6(5), simp)
  have tr: "same_translations R (as_vmm s) (as_vmm s6)"
    unfolding same_translations_def
  proof (intro ballI allI impI)
    fix r and q :: "pt_index list" assume q: "r \<in> R" "length q = 4"
    have "r \<noteq> root_page a" "r \<noteq> root_page b" using q(1) a(6) b(6) by auto
    then show "xlate (vmm_mem (as_vmm s6)) r q = xlate (vmm_mem (as_vmm s)) r q"
      using m6(3) m5(3) q b(8) a(8) by (simp add: same_translations_def)
  qed
  have fl: "frames_left (as_vmm s) \<le> frames_left (as_vmm s6) + 10" using c4(2) m5(4) m6(4) by linarith
  have id: "as_id a \<noteq> as_id b" using a(4,5) b(4) by simp
  have R: "root_page a \<noteq> root_page b" "root_page b \<notin> R" "fb \<notin> X" using b(6) fb(3) by auto
  have n6: "next_asid s6 = next_asid s + 2" using n a(5) b(5) by (simp add: add.assoc)
  show thesis
    by (rule that [OF a(1) b(1) id R(1) fa(1) t4 m5(1) m6(1) mk a(6) R(2) fa(3) R(3) bk n6 _ fl tr]) (use c in simp)
qed

lemma data_translations:
  assumes use: "spaces_in_use R X as s" and eq: "\<And>t. t \<notin> X \<Longrightarrow> vmm_mem (as_vmm s') t = vmm_mem (as_vmm s) t"
  shows "same_translations R (as_vmm s) (as_vmm s')"
  using vm_ok_data(2) [OF vm_readyD(1) [OF spaces_in_useD(1) [OF use]] eq] by (simp add: same_translations_def)

lemma same_translations_trans: "same_translations R v v' \<Longrightarrow> same_translations R v' v'' \<Longrightarrow> same_translations R v v''"
  by (simp add: same_translations_def)

lemma same_translations_mono: "same_translations R v v' \<Longrightarrow> R' \<subseteq> R \<Longrightarrow> same_translations R' v v'"
  by (auto simp: same_translations_def)

lemma isolation_test_passes:
  assumes use: "spaces_in_use R X [] s" and room: "10 \<le> frames_left (as_vmm s)"
  obtains a b fa fb s' where "isolation_test s = (Inr (a, b, fa, fb), s')"
    and "marked (insert (root_page b) (insert (root_page a) R)) (insert fb (insert fa X)) a b fa fb s'"
    and "root_page a \<noteq> root_page b" and "root_page a \<notin> R" and "root_page b \<notin> R" and "fa \<notin> X" and "fb \<notin> X"
    and "same_books s s'" and "next_asid s' = next_asid s + 2" and "cr3 (as_vmm s') = root_pml4_phys (as_vmm s)"
    and "frames_left (as_vmm s) \<le> frames_left (as_vmm s') + 10" and "same_translations R (as_vmm s) (as_vmm s')"
proof -
  obtain a b fa fb s1 s2 s3 s4 s5 s6 where t: "as_new s = (Inr a, s1)" "as_new s1 = (Inr b, s2)" "as_id a \<noteq> as_id b" "root_page a \<noteq> root_page b"
    "take_frame ''failed frame A'' s2 = (Inr fa, s3)" "take_frame ''failed frame B'' s3 = (Inr fb, s4)"
    "as_map_page a test_va fa DATA_FLAGS s4 = (Inr (), s5)" "as_map_page b test_va fb DATA_FLAGS s5 = (Inr (), s6)"
    "marked (insert (root_page b) (insert (root_page a) R)) (insert fb (insert fa X)) a b fa fb s6"
    "root_page a \<notin> R" "root_page b \<notin> R" "fa \<notin> X" "fb \<notin> X" "same_books s s6" "next_asid s6 = next_asid s + 2"
    "frames_left (as_vmm s) \<le> frames_left (as_vmm s6) + 10" "same_translations R (as_vmm s) (as_vmm s6)"
    by (rule two_spaces [OF use room])
  let ?R = "insert (root_page b) (insert (root_page a) R)" and ?X = "insert fb (insert fa X)"
  have pa: "(a, fa) \<in> {(a, fa), (b, fb)}" and pb: "(b, fb) \<in> {(a, fa), (b, fb)}" by simp_all
  obtain s7 where s7: "mark_space a fa 0x1111AAAA1111AAAA ''translation A failed'' ''AS A translation mismatch!'' s6 = (Inr (), s7)" "marked ?R ?X a b fa fb s7"
    "vmm_mem (as_vmm s7) fa 0 = 0x1111AAAA1111AAAA" "\<forall>x. x \<noteq> fa \<longrightarrow> vmm_mem (as_vmm s7) x = vmm_mem (as_vmm s6) x" "same_books s6 s7"
    "vmm_pmm (as_vmm s7) = vmm_pmm (as_vmm s6)" "next_asid s7 = next_asid s6"
    by (rule mark_space_passes [OF t(9) pa])
  obtain s8 where s8: "mark_space b fb 0x2222BBBB2222BBBB ''translation B failed'' ''AS B translation mismatch!'' s7 = (Inr (), s8)" "marked ?R ?X a b fa fb s8"
    "vmm_mem (as_vmm s8) fb 0 = 0x2222BBBB2222BBBB" "\<forall>x. x \<noteq> fb \<longrightarrow> vmm_mem (as_vmm s8) x = vmm_mem (as_vmm s7) x" "same_books s7 s8"
    "vmm_pmm (as_vmm s8) = vmm_pmm (as_vmm s7)" "next_asid s8 = next_asid s7"
    by (rule mark_space_passes [OF s7(2) pb])
  let ?s9 = "as_activate a s8"
  let ?s10 = "as_activate b ?s9"
  let ?s11 = "as_activate (as_bootstrap ?s10) ?s10"
  have "vmm_mem (as_vmm s8) fa 0 = 0x1111AAAA1111AAAA" using s8(4) s7(3) markedD(4) [OF t(9)] by simp
  note c9 = check_mark_passes [OF s8(2) pa this]
  note m9 = marked_activate [OF s8(2), of a]
  note k9 = as_activate_in_use [OF markedD(1) [OF s8(2)], of a]
  have mem9: "vmm_mem (as_vmm ?s9) = vmm_mem (as_vmm s8)" by (subst k9(3)) simp
  have "vmm_mem (as_vmm ?s9) fb 0 = 0x2222BBBB2222BBBB" using s8(3) mem9 by simp
  note c10 = check_mark_passes [OF m9 pb this]
  note m10 = marked_activate [OF m9, of b] and k10 = as_activate_in_use [OF markedD(1) [OF m9], of b]
  note m11 = marked_activate [OF m10, of "as_bootstrap ?s10"] and k11 = as_activate_in_use [OF markedD(1) [OF m10], of "as_bootstrap ?s10"]
  have "same_books s s6" by (rule t(14))
  also note s7(5)
  also note s8(5)
  also have "same_books s8 ?s9" by (rule same_books_activate)
  also have "same_books ?s9 ?s10" by (rule same_books_activate)
  finally have bk: "same_books s ?s10" .
  have bk11: "same_books s ?s11" by (rule same_books_trans [OF bk same_books_activate])
  have root: "root_pml4_phys (as_vmm ?s10) = root_pml4_phys (as_vmm s)" by (subst bk [unfolded same_books_def]) simp
  have "root_page (as_bootstrap ?s10) \<noteq> 0" using spaces_in_useD(2) [OF markedD(1) [OF m10]] by (simp add: as_bootstrap_def kernel_ok_def)
  then have cr: "cr3 (as_vmm ?s11) = root_pml4_phys (as_vmm s)" using k11(4) root by (simp add: as_bootstrap_def)
  have p: "vmm_pmm (as_vmm ?s11) = vmm_pmm (as_vmm s6)" "vmm_mem (as_vmm ?s11) = vmm_mem (as_vmm s8)"
    using s7(6) s8(6) activate_same by simp_all
  have n: "next_asid ?s11 = next_asid s + 2" using k11(2) k10(2) k9(2) s8(7) s7(7) t(15) by simp
  have "same_translations ?R (as_vmm s6) (as_vmm ?s11)"
    by (rule data_translations [OF markedD(1) [OF t(9)]]) (use p s8(4) s7(4) in auto)
  then have tr: "same_translations R (as_vmm s) (as_vmm ?s11)"
    using same_translations_trans [OF t(17)] same_translations_mono by blast
  have "isolation_test s = (Inr (a, b, fa, fb), ?s11)"
    using t(1-8) s7(1) s8(1) c9 c10 by (simp add: isolation_test_def)
  then show thesis
    by (rule that [OF _ m11 t(4,10-13) bk11 n cr _ tr]) (use t(16) p in simp)
qed

subsection \<open>The kernel half in both spaces\<close>

lemma high_not_private: "DYNAMIC_VIRT_START \<le> va \<Longrightarrow> \<not> is_private_addr va"
  using dynamic_range_high [of va] by (simp add: is_private_addr_def Let_def KERNEL_PML4_START_def va_path_def)

lemma shared_entry:
  assumes "spaces_in_use R X as s" and "a \<in> set as" and "shared_slot i"
  shows "vmm_mem (as_vmm s) (root_page a) i = vmm_mem (as_vmm s) (root_pml4_phys (as_vmm s)) i"
proof -
  note u = spaces_in_useD [OF assms(1)]
  have fo: "forest (vmm_mem (as_vmm s)) R (avail (as_vmm s) \<union> X)" using vm_readyD(1) [OF u(1)] by (simp add: vm_ok_def)
  show ?thesis
    by (rule forest_shared [OF fo _ _ assms(3)]) (use u(2) u(4) [OF assms(2)] in \<open>simp_all add: kernel_ok_def space_ok_def\<close>)
qed

lemma sees_kernel_high:
  assumes use: "spaces_in_use R X as s" and a: "a \<in> set as" and va: "\<not> is_private_addr va" "\<not> is_private_addr va'"
  shows "sees_kernel va va' s a"
proof -
  have e: "vmm_mem (as_vmm s) (root_page a) (pml4_index w) = vmm_mem (as_vmm s) (root_pml4_phys (as_vmm s)) (pml4_index w)"
    if "\<not> is_private_addr w" for w
    by (rule shared_entry [OF use a]) (use that in \<open>simp add: private_slot_iff\<close>)
  have "as_translate a w s = translate (root_pml4_phys (as_vmm s)) w (as_vmm s)" if "\<not> is_private_addr w" for w
    using e [OF that] by (simp add: as_translate_def translate_def)
  moreover have "shared_slot i" if "i \<in> set kernel_slots" for i using that set_kernel_slots by auto
  then have "shares_kernel_half (root_page a) (as_vmm s)"
    using shared_entry [OF use a] spaces_in_useD(2) [OF use] by (auto simp: shares_kernel_half_def list_all_iff kernel_ok_def)
  ultimately show ?thesis using va by (simp add: sees_kernel_def Let_def)
qed

lemma page_mapped_shared:
  assumes use: "spaces_in_use R X as s" and a: "a \<in> set as" and va: "\<not> is_private_addr va"
    and at: "page_mapped (root_pml4_phys (as_vmm s)) va f flags (vmm_mem (as_vmm s))"
  shows "page_mapped (root_page a) va f flags (vmm_mem (as_vmm s))"
proof -
  have "vmm_mem (as_vmm s) (root_page a) (pml4_index va) = vmm_mem (as_vmm s) (root_pml4_phys (as_vmm s)) (pml4_index va)"
    by (rule shared_entry [OF use a]) (use va in \<open>simp add: private_slot_iff\<close>)
  then show ?thesis using at by (simp add: page_mapped_def va_path_def)
qed

text \<open>A region of one page that is unmapped leaves the tables alone.\<close>

lemma same_tables_unmap_one:
  assumes held: "region_held R X r [g] v" and um: "unmap_region r v = (Inr (), v')"
  shows "same_tables R v v'"
proof -
  note h = held [unfolded region_held_def]
  have n: "unat (vr_size r div PAGE_SIZE) = 1" using h by simp
  let ?va = "region_page (vr_start r) 0" and ?root = "root_pml4_phys v"
  have g: "page_mapped ?root ?va g (to_page_flags (vr_permissions r)) (vmm_mem v)" "frame_addr g" using h by auto
  obtain v1 where u: "unmap_page ?root ?va v = (Inr g, v1)"
    using unmap_page_mapped [of ?va v ?root] g by (auto simp: page_mapped_def pte_phys_addr_set frame_addr_def)
  have nl: "no_large_page (vmm_mem v) ?root ?va" using g(1) by (simp add: page_mapped_def no_large_page_def)
  have ok: "vm_ok R X v" "?root \<in> R" using h by simp_all
  have s1: "same_tables R v v1" by (rule same_tables_unmap_page [OF ok nl u])
  let ?v2 = "unmap_owned_page ?root r 0 v"
  have v2: "?v2 = v1\<lparr>vmm_pmm := release_all free_physical_page [g] (vmm_pmm v1)\<rparr>" using u h by (simp add: unmap_owned_page_def)
  have ok1: "vm_ok R X v1" using unmap_page_Inr(3) [OF _ _ nl u] h by blast
  have man: "managed_addrs (vmm_pmm ?v2) = managed_addrs (vmm_pmm v1)"
    using pmm_frames.release_all_invar [of "vmm_pmm v1" "[g]"] ok1 by (simp add: v2 vm_ok_def)
  have e: "vmm_mem ?v2 = vmm_mem v1" "root_pml4_phys ?v2 = root_pml4_phys v1" unfolding v2 by simp_all
  have s2: "same_tables R v1 ?v2" by (rule same_tables_mem [OF e man])
  have ur: "unregister_region (vr_start r) ?v2 = (Inr (), v')" using um n by (simp add: unmap_region_def Let_def)
  have "root_pml4_phys v' = root_pml4_phys ?v2" using ur by (auto simp: unregister_region_def Let_def split: option.splits)
  then have "same_tables R ?v2 v'" using unregister_same_memory [OF ur] by (intro same_tables_mem) simp_all
  then show ?thesis using same_tables_trans [OF s1 same_tables_trans [OF s2]] by blast
qed

lemma late_region_steps:
  fixes w :: u64
  assumes m: "marked R X a b fa fb x" and room: "unat (next_dynamic_addr (as_vmm x)) + 4096 \<le> unat DYNAMIC_VIRT_END"
    "vmm_region_count (as_vmm x) < MAX_VIRT_REGIONS" "4 \<le> frames_left (as_vmm x)" and boot: "boot = as_bootstrap x"
  obtains r x1 x2 x3 where "on_mm (allocate_and_map_region PAGE_SIZE PERM_KERNEL_DATA DynamicKernel) x = (Inr r, x1)"
    and "\<forall>va. DYNAMIC_VIRT_START \<le> va \<longrightarrow> list_all (sees_kernel va (vr_start r) x1) [a, b]"
    and "\<forall>va. DYNAMIC_VIRT_START \<le> va \<longrightarrow> mmu_translate (vmm_mem (as_vmm x1)) (root_page a) va = mmu_translate (vmm_mem (as_vmm x1)) (root_pml4_phys (as_vmm x1)) va"
    and "on_mm (store_word (vr_start r) w) (as_activate a x1) = (Inr (), x2)" and "on_mm (load_word (vr_start r)) (as_activate b x2) = (Inr w, as_activate b x2)"
    and "snd (on_mm (unmap_region r) (as_activate boot (as_activate b x2))) = x3" and "marked R X a b fa fb x3"
    and "cr3 (as_vmm x3) = root_pml4_phys (as_vmm x)" and "root_pml4_phys (as_vmm x3) = root_pml4_phys (as_vmm x)"
    and "same_translations R (as_vmm x) (as_vmm x3)" and "next_asid x3 = next_asid x"
    and "next_dynamic_addr (as_vmm x3) = next_dynamic_addr (as_vmm x) + PAGE_SIZE" and "mset (live_vregions (as_vmm x3)) = mset (live_vregions (as_vmm x))"
    and "frames_left (as_vmm x) \<le> frames_left (as_vmm x3) + 4"
proof -
  let ?v = "as_vmm x" and ?root = "root_pml4_phys (as_vmm x)"
  note u = spaces_in_useD [OF markedD(1) [OF m]] and d = vm_readyD [OF spaces_in_useD(1) [OF markedD(1) [OF m]]]
  have n: "PAGE_SIZE \<noteq> 0" "PAGE_SIZE mod PAGE_SIZE = 0" "unat (PAGE_SIZE div PAGE_SIZE) \<le> 128" by simp_all
  obtain r v1 fs where al: "allocate_and_map_region PAGE_SIZE PERM_KERNEL_DATA DynamicKernel ?v = (Inr r, v1)" "vm_ready R (X \<union> set fs) v1"
    "region_held R (X \<union> set fs) r fs v1" "set fs \<inter> X = {}" "without_pages R ?root (region_paths r) (vmm_mem v1) (vmm_mem ?v)"
    "root_pml4_phys v1 = ?root" "managed_addrs (vmm_pmm v1) = managed_addrs (vmm_pmm ?v)" "vr_start r = next_dynamic_addr ?v" "vr_size r = PAGE_SIZE"
    "vr_permissions r = PERM_KERNEL_DATA" "live_vregions v1 = live_vregions ?v @ [r\<lparr>owns_physical_pages := False\<rparr>]" "next_dynamic_addr v1 = next_dynamic_addr ?v + PAGE_SIZE"
    "frames_left ?v \<le> frames_left v1 + 4 * unat (PAGE_SIZE div PAGE_SIZE)"
    by (rule ready_alloc [OF u(1) n, of PERM_KERNEL_DATA DynamicKernel]) (use room in simp_all)
  obtain g where g: "fs = [g]" using al(3,9) by (cases fs rule: remdups_adj.cases) (auto simp: region_held_def)
  let ?x1 = "x\<lparr>as_vmm := v1\<rparr>" and ?X = "X \<union> set fs"
  have use1: "spaces_in_use R ?X [b, a] ?x1" by (rule alloc_map_in_use(1) [OF markedD(1) [OF m] _ al(1,2,6)]) simp
  have priv: "page_path (vr_start r) j \<noteq> va_path test_va" if "j < 1" for j
  proof -
    have "DYNAMIC_VIRT_START \<le> vr_start r" using d(3) al(8) by (simp add: cursor_ok_def)
    then show ?thesis using private_below_cursor [OF test_va_facts(3)] that by (simp add: region_page_def)
  qed
  then have apart: "va_path test_va \<notin> region_paths r" using al(9) by auto
  have m1: "marked R ?X a b fa fb ?x1"
    by (rule marked_step [OF m use1]) (use markedD [OF m] al(7) without_pagesD [OF al(5)] apart test_va_facts(5) in auto)
  have high: "DYNAMIC_VIRT_START \<le> vr_start r" using d(3) al(8) by (simp add: cursor_ok_def)
  have sees: "list_all (sees_kernel va (vr_start r) ?x1) [a, b]" if "DYNAMIC_VIRT_START \<le> va" for va
    using sees_kernel_high [OF use1 _ high_not_private [OF that] high_not_private [OF high]] by simp
  have hp: "mmu_translate (vmm_mem v1) (root_page a) va = mmu_translate (vmm_mem v1) (root_pml4_phys v1) va" if "DYNAMIC_VIRT_START \<le> va" for va
    using space_sees_kernel [OF use1 _ high_not_private [OF that], of a] by simp
  let ?x2 = "as_activate a ?x1" and ?fl = "to_page_flags PERM_KERNEL_DATA"
  have w: "?fl AND FLAG_WRITABLE \<noteq> 0" by (simp add: to_page_flags_def PERM_KERNEL_DATA_def kernel_consts)
  have gX: "g \<in> ?X" "frame_addr g" using g al(3) by (auto simp: region_held_def)
  have start: "region_page (vr_start r) 0 = vr_start r" by (simp add: region_page_def)
  have at: "page_mapped ?root (vr_start r) g ?fl (vmm_mem v1)" using al(3,6,10) g start by (auto simp: region_held_def)
  note m2 = marked_activate [OF m1, of a]
  have k2: "vmm_mem (as_vmm ?x2) = vmm_mem v1" "root_pml4_phys (as_vmm ?x2) = ?root" "cr3 (as_vmm ?x2) = root_page a" "vmm_pmm (as_vmm ?x2) = vmm_pmm v1"
    using al(6) markedD(11) [OF m] by (simp_all add: as_activate_def Let_def)
  have "page_mapped (cr3 (as_vmm ?x2)) (vr_start r) g ?fl (vmm_mem (as_vmm ?x2))"
    using page_mapped_shared [OF markedD(1) [OF m2] _ high_not_private [OF high], of a g ?fl] at k2 by simp
  note acc2 = page_access(2) [OF this _ gX(2) w]
  let ?x3 = "?x2\<lparr>as_vmm := (as_vmm ?x2)\<lparr>vmm_mem := write_entry (vmm_mem (as_vmm ?x2)) g 0 w\<rparr>\<rparr>"
  have st: "on_mm (store_word (vr_start r) w) ?x2 = (Inr (), ?x3)" using acc2 by (simp add: on_mm_def store_word_def)
  note m3 = marked_write [OF m2 gX(1), of w]
  have eq: "\<And>t. t \<notin> ?X \<Longrightarrow> vmm_mem (as_vmm ?x3) t = vmm_mem v1 t" using gX(1) k2(1) by (auto simp: write_entry_def)
  have tr3: "same_translations R v1 (as_vmm ?x3)" using data_translations [OF use1, of ?x3] eq by simp
  let ?x4 = "as_activate b ?x3" and ?x5 = "as_activate boot (as_activate b ?x3)"
  note m4 = marked_activate [OF m3, of b]
  note m5 = marked_activate [OF m4, of boot]
  have k4: "vmm_mem (as_vmm ?x4) = vmm_mem (as_vmm ?x3)" "root_pml4_phys (as_vmm ?x4) = ?root" "cr3 (as_vmm ?x4) = root_page b"
    using k2(2) markedD(12) [OF m] by (simp_all add: as_activate_def Let_def)
  have l: "length (va_path va) = 4" for va by (simp add: va_path_def)
  have at3: "page_mapped ?root (vr_start r) g ?fl (vmm_mem (as_vmm ?x3))"
    using at tr3 d(4) l by (simp add: page_mapped_def same_translations_def)
  have "page_mapped (cr3 (as_vmm ?x4)) (vr_start r) g ?fl (vmm_mem (as_vmm ?x4))"
    using page_mapped_shared [OF markedD(1) [OF m4] _ high_not_private [OF high], of b g ?fl] at3 k4 by simp
  note acc4 = page_access(1) [OF this _ gX(2)]
  have "vmm_mem (as_vmm ?x4) g 0 = w" using k4(1) by (simp add: write_entry_def)
  then have ld: "on_mm (load_word (vr_start r)) ?x4 = (Inr w, ?x4)" using acc4 by (simp add: on_mm_def load_word_def)
  have root0: "?root \<noteq> 0" using u(2) by (simp add: kernel_ok_def)
  have k5: "vmm_mem (as_vmm ?x5) = vmm_mem (as_vmm ?x3)" "root_pml4_phys (as_vmm ?x5) = ?root" "cr3 (as_vmm ?x5) = ?root" "vmm_pmm (as_vmm ?x5) = vmm_pmm v1"
    "next_dynamic_addr (as_vmm ?x5) = next_dynamic_addr v1" "next_asid ?x5 = next_asid x" "vmm_regions (as_vmm ?x5) = vmm_regions v1" "vmm_region_count (as_vmm ?x5) = vmm_region_count v1"
    using al(6) root0 boot by (simp_all add: as_activate_def Let_def as_bootstrap_def)
  note use5 = markedD(1) [OF m5]
  have live5: "live_vregions (as_vmm ?x5) = live_vregions v1" using regions_cong [of "as_vmm ?x5" v1] k5(7,8) by simp
  have held5: "region_held R ?X r fs (as_vmm ?x5)"
  proof (rule region_held_step [OF al(3) vm_readyD(1) [OF spaces_in_useD(1) [OF use5]]])
    show "xlate (vmm_mem (as_vmm ?x5)) (root_pml4_phys v1) (page_path (vr_start r) j) = xlate (vmm_mem v1) (root_pml4_phys v1) (page_path (vr_start r) j)" for j
      using tr3 d(4) l al(6) unfolding k5(1) by (simp add: same_translations_def)
  qed (use k5 al(6) in simp_all)
  have lv5: "r\<lparr>owns_physical_pages := False\<rparr> \<in> set (live_vregions (as_vmm ?x5))" using live5 al(11) by simp
  obtain v6 where um: "unmap_region r (as_vmm ?x5) = (Inr (), v6)" "vm_ready R (?X - set fs) v6"
    "frames_left v6 = frames_left (as_vmm ?x5) + length fs"
    "without_pages R (root_pml4_phys (as_vmm ?x5)) (region_paths r) (vmm_mem (as_vmm ?x5)) (vmm_mem v6)"
    "mset (live_vregions (as_vmm ?x5)) = add_mset (r\<lparr>owns_physical_pages := False\<rparr>) (mset (live_vregions v6))"
    "root_pml4_phys v6 = root_pml4_phys (as_vmm ?x5)" "cr3 v6 = cr3 (as_vmm ?x5)"
    "managed_addrs (vmm_pmm v6) = managed_addrs (vmm_pmm (as_vmm ?x5))" "next_dynamic_addr v6 = next_dynamic_addr (as_vmm ?x5)"
    by (rule ready_unmap [OF spaces_in_useD(1) [OF use5] held5 lv5])
  let ?x6 = "?x5\<lparr>as_vmm := v6\<rparr>"
  have X: "?X - set fs = X" using al(4) by auto
  have "same_tables R (as_vmm ?x5) v6" by (rule same_tables_unmap_one [OF held5 [unfolded g] um(1)])
  then have use6: "spaces_in_use R X [b, a] ?x6" by (intro spaces_same_tables [OF use5]) (use um(2) X in simp_all)
  have m6: "marked R X a b fa fb ?x6"
    by (rule marked_step [OF m5 use6]) (use markedD [OF m] um(8) without_pagesD [OF um(4)] apart test_va_facts(5) in auto)
  have tr6: "same_translations R ?v v6"
    unfolding same_translations_def
  proof (intro ballI allI impI)
    fix r' and q :: "pt_index list" assume q: "r' \<in> R" "length q = 4"
    show "xlate (vmm_mem v6) r' q = xlate (vmm_mem ?v) r' q"
      using without_pagesD [OF um(4) q] without_pagesD [OF al(5) q] tr3 q unfolding k5(1,2) by (simp add: same_translations_def)
  qed
  have e1: "on_mm (allocate_and_map_region PAGE_SIZE PERM_KERNEL_DATA DynamicKernel) x = (Inr r, ?x1)" using al(1) by (simp add: on_mm_def)
  have e6: "snd (on_mm (unmap_region r) ?x5) = ?x6" using um(1) by (simp add: on_mm_def)
  show thesis
    by (rule that [of r ?x1 ?x3 ?x6])
      (use e1 sees hp st ld e6 m6 um(3,5-9) k5 tr6 live5 al(11-13) g in simp_all)
qed

end
