(* ===== verification/Address_Space_Checks.thy ===== *)
theory Address_Space_Checks
  imports Address_Space_Tests
begin

text \<open>
  The boot-time test of address spaces passes: the shared half, the refusals and the teardown, after the isolation of
  \<^verbatim>\<open>Address_Space_Tests\<close>.  The frames are counted: what the test takes, it gives back.
\<close>

subsection \<open>The heap and the spaces\<close>

lemma put_spaces_simps [simp]:
  "bench_spaces (put_spaces a s) = a" "ab_heap (put_spaces a s) = (ab_heap s)\<lparr>hp_vmm := as_vmm a\<rparr>" "put_spaces a (put_spaces a' s) = put_spaces a s"
  by (simp_all add: bench_spaces_def put_spaces_def)

lemma bench_heap:
  "hp_vmm h = hp_vmm (ab_heap s) \<Longrightarrow> bench_spaces (s\<lparr>ab_heap := h\<rparr>) = bench_spaces s"
  "put_spaces a s\<lparr>ab_heap := h\<rparr> = put_spaces (a\<lparr>as_vmm := hp_vmm h\<rparr>) (s\<lparr>ab_heap := h\<rparr>)"
  by (simp_all add: bench_spaces_def put_spaces_def)

lemma on_spaces_put: "on_spaces f (put_spaces a s) = (case f a of (r, a') \<Rightarrow> Some (r, put_spaces a' s))"
  by (simp add: on_spaces_def)

lemma bench_activate_put: "bench_activate c (put_spaces a s) = put_spaces (as_activate c a) s"
  by (simp add: bench_activate_def)

lemma heap_any_vmm:
  assumes "heap_ok h"
  shows "heap_ok (h\<lparr>hp_vmm := v\<rparr>)" and "heap_live (h\<lparr>hp_vmm := v\<rparr>) = heap_live h"
proof -
  have inv: "heap_inv (h\<lparr>hp_vmm := v\<rparr>) (heap_blocks h)" using assms by (simp add: heap_ok_def)
  show "heap_ok (h\<lparr>hp_vmm := v\<rparr>)" by (rule heap_okI [OF inv])
  show "heap_live (h\<lparr>hp_vmm := v\<rparr>) = heap_live h" using heap_live_inv [OF inv] by (simp add: heap_live_def)
qed

text \<open>A heap that lies in the kernel's dynamic range, with the blocks \<open>L\<close> in use and room for one more word.\<close>

definition heap_room :: "(nat \<times> nat) set \<Rightarrow> kheap \<Rightarrow> bool" where
  "heap_room L h \<longleftrightarrow> heap_ok h \<and> heap_live h = L \<and> unat DYNAMIC_VIRT_START \<le> hp_start h \<and> hp_current_end h \<le> unat DYNAMIC_VIRT_END
     \<and> (card L + 1) * (HEADER_SIZE + 16) + used_space L < hp_current_end h - hp_start h"

lemma heap_room_vmm: "heap_room L h \<Longrightarrow> heap_room L (h\<lparr>hp_vmm := v\<rparr>)"
  using heap_any_vmm [of h v] by (simp add: heap_room_def)

lemma live_high:
  assumes "heap_ok h" and "(p, m) \<in> heap_live h" and "unat DYNAMIC_VIRT_START \<le> hp_start h" and "hp_current_end h \<le> unat DYNAMIC_VIRT_END"
  shows "DYNAMIC_VIRT_START \<le> (of_nat p :: u64)" and "DYNAMIC_VIRT_START \<le> (of_nat p AND NOT (PAGE_SIZE - 1))"
proof -
  have "hp_start h < p" "p + m \<le> hp_current_end h" using live_in_heap [of h "heap_blocks h" p m] assms(1,2) by (simp_all add: heap_ok_def heap_live_def)
  then have p: "unat DYNAMIC_VIRT_START \<le> p" "p < 2 ^ 64" using assms(3,4) unat_u64_less [of DYNAMIC_VIRT_END] by linarith+
  then have u: "unat (of_nat p :: u64) = p" by (simp add: unat_of_nat take_bit_nat_eq_self)
  then show "DYNAMIC_VIRT_START \<le> (of_nat p :: u64)" using p(1) by (simp add: word_le_nat_alt)
  have al: "4096 dvd unat DYNAMIC_VIRT_START" by (simp add: kernel_consts)
  have "unat DYNAMIC_VIRT_START div 4096 * 4096 \<le> p div 4096 * 4096" using p(1) by (intro mult_le_mono div_le_mono) simp_all
  then have "unat DYNAMIC_VIRT_START \<le> p - p mod 4096" using al by (simp add: minus_mod_eq_div_mult)
  then show "DYNAMIC_VIRT_START \<le> (of_nat p AND NOT (PAGE_SIZE - 1))"
    unfolding page_floor_def [symmetric] word_le_nat_alt by (simp add: unat_page_floor u)
qed

lemma shared_half_test_passes:
  assumes hp: "heap_room L (ab_heap s)" and m: "marked R X a b fa fb (bench_spaces s)" and boot: "boot = as_bootstrap (bench_spaces s)"
    and room: "unat (next_dynamic_addr (hp_vmm (ab_heap s))) + 4096 \<le> unat DYNAMIC_VIRT_END"
    "vmm_region_count (hp_vmm (ab_heap s)) < MAX_VIRT_REGIONS" "4 \<le> frames_left (hp_vmm (ab_heap s))"
  obtains s' where "shared_half_test junk a b boot s = Some (Inr (), s')" and "heap_room L (ab_heap s')" and "marked R X a b fa fb (bench_spaces s')"
    and "cr3 (hp_vmm (ab_heap s')) = root_pml4_phys (hp_vmm (ab_heap s))" and "root_pml4_phys (hp_vmm (ab_heap s')) = root_pml4_phys (hp_vmm (ab_heap s))"
    and "same_translations R (hp_vmm (ab_heap s)) (hp_vmm (ab_heap s'))" and "ab_next_asid s' = ab_next_asid s"
    and "next_dynamic_addr (hp_vmm (ab_heap s')) = next_dynamic_addr (hp_vmm (ab_heap s)) + PAGE_SIZE"
    and "mset (live_vregions (hp_vmm (ab_heap s'))) = mset (live_vregions (hp_vmm (ab_heap s)))"
    and "frames_left (hp_vmm (ab_heap s)) \<le> frames_left (hp_vmm (ab_heap s')) + 4"
proof -
  let ?h = "ab_heap s" and ?x = "bench_spaces s" and ?w = "0x5A5A5A5A5A5A5A5A :: u64"
  note h = hp [unfolded heap_room_def]
  have set0: "settled ?h L ?h" using h by (simp add: settled_def)
  obtain p k h1 where al: "alloc_or_halt 8 8 ''memory allocation failed'' ?h = Some (Inr p, h1)" "settled ?h (insert (p, k) L) h1" "(p, k) \<notin> L" "8 \<le> k"
    by (rule alloc_settled [OF set0, of 8 8]) (use h in \<open>simp_all add: round16_values\<close>)
  let ?h2 = "client_write junk p (le_bytes 8 0xC0FFEE00C0FFEE00) h1"
  note w = write_settled [OF al(2), of p k 0 "le_bytes 8 0xC0FFEE00C0FFEE00"]
  have set2: "settled ?h (insert (p, k) L) ?h2" using w(1) al(4) by simp
  have "client_read p 8 ?h2 = le_bytes 8 0xC0FFEE00C0FFEE00" using w(3) al(4) by simp
  then have rd: "read_u64 (client_read p 8 ?h2) 0 = 0xC0FFEE00C0FFEE00"
    using read_u64_at [of 0 "le_bytes 8 0xC0FFEE00C0FFEE00" "0xC0FFEE00C0FFEE00" "[]"] by simp
  note s2 = set2 [unfolded settled_def]
  have hi: "DYNAMIC_VIRT_START \<le> (of_nat p :: u64)" "DYNAMIC_VIRT_START \<le> (of_nat p AND NOT (PAGE_SIZE - 1))"
    using live_high [of ?h2 p k] s2 h by simp_all
  have bs: "bench_spaces (s\<lparr>ab_heap := ?h2\<rparr>) = ?x" using s2 by (intro bench_heap(1)) simp
  have vm: "as_vmm ?x = hp_vmm ?h" by (simp add: bench_spaces_def)
  obtain r x1 x2 x3 where l: "on_mm (allocate_and_map_region PAGE_SIZE PERM_KERNEL_DATA DynamicKernel) ?x = (Inr r, x1)"
    "\<forall>va. DYNAMIC_VIRT_START \<le> va \<longrightarrow> list_all (sees_kernel va (vr_start r) x1) [a, b]"
    "\<forall>va. DYNAMIC_VIRT_START \<le> va \<longrightarrow> mmu_translate (vmm_mem (as_vmm x1)) (root_page a) va = mmu_translate (vmm_mem (as_vmm x1)) (root_pml4_phys (as_vmm x1)) va"
    "on_mm (store_word (vr_start r) ?w) (as_activate a x1) = (Inr (), x2)" "on_mm (load_word (vr_start r)) (as_activate b x2) = (Inr ?w, as_activate b x2)"
    "snd (on_mm (unmap_region r) (as_activate boot (as_activate b x2))) = x3" "marked R X a b fa fb x3"
    "cr3 (as_vmm x3) = root_pml4_phys (as_vmm ?x)" "root_pml4_phys (as_vmm x3) = root_pml4_phys (as_vmm ?x)"
    "same_translations R (as_vmm ?x) (as_vmm x3)" "next_asid x3 = next_asid ?x"
    "next_dynamic_addr (as_vmm x3) = next_dynamic_addr (as_vmm ?x) + PAGE_SIZE" "mset (live_vregions (as_vmm x3)) = mset (live_vregions (as_vmm ?x))"
    "frames_left (as_vmm ?x) \<le> frames_left (as_vmm x3) + 4"
    by (rule late_region_steps [OF m _ _ _ boot, of ?w]) (use room vm in simp_all)
  let ?s2 = "s\<lparr>ab_heap := ?h2\<rparr>" and ?h3 = "?h2\<lparr>hp_vmm := as_vmm x3\<rparr>"
  let ?s' = "(put_spaces x3 ?s2)\<lparr>ab_heap := heap_deallocate p 8 ?h3\<rparr>"
  have act: "vmm_mem (as_vmm (as_activate a x1)) = vmm_mem (as_vmm x1)" "cr3 (as_vmm (as_activate a x1)) = root_page a"
    "root_pml4_phys (as_vmm (as_activate a x1)) = root_pml4_phys (as_vmm x1)"
    using markedD(11) [OF m] by (simp_all add: as_activate_def Let_def)
  have "client_read p 8 (?h2\<lparr>hp_vmm := v\<rparr>) = client_read p 8 ?h2" for v by (simp add: client_read_def)
  then have ld: "on_heap (load_heap p) (put_spaces (as_activate a x1) ?s2) = Some (Inr 0xC0FFEE00C0FFEE00, put_spaces (as_activate a x1) ?s2)"
    using rd act l(3) hi(1) by (simp add: on_heap_def load_heap_def Let_def)
  have run: "shared_half_test junk a b boot s = Some (Inr (), ?s')"
    unfolding shared_half_test_def
    using al(1) l(1,2,4,5,6) hi(2) bs ld by (simp add: on_heap_def [of "alloc_or_halt 8 8 m" for m] on_spaces_put on_spaces_def [of _ ?s2]
        bench_activate_put Let_def)
  have set3: "settled ?h3 (insert (p, k) L) ?h3" using heap_any_vmm [of ?h2] s2 by (simp add: settled_def)
  have "settled ?h3 L (heap_deallocate p 8 ?h3)" using free_settled(1) [OF set3, of p k 8] al(3) by simp
  then have room': "heap_room L (ab_heap ?s')" and v': "hp_vmm (ab_heap ?s') = as_vmm x3" using h s2 by (simp_all add: settled_def heap_room_def)
  have b': "bench_spaces ?s' = x3" using v' by (simp add: bench_spaces_def put_spaces_def)
  have mk: "marked R X a b fa fb (bench_spaces ?s')" using l(7) b' by simp
  show thesis
    by (rule that [OF run room' mk]) (use l(8-14) v' vm in \<open>simp_all add: put_spaces_def bench_spaces_def\<close>)
qed

subsection \<open>Refusals\<close>

lemma reject_test_passes: "reject_test a f s = (Inr (), s)"
proof -
  have "\<not> is_private_addr DYNAMIC_VIRT_START" by (rule high_not_private) simp
  moreover have "\<not> is_private_addr 0x40000000"
    by (simp add: is_private_addr_def pml4_index_def KERNEL_PML4_START_def Let_def drop_bit_word_numeral)
  ultimately show ?thesis by (simp add: reject_test_def as_map_page_def)
qed

subsection \<open>Teardown\<close>

lemma pmm_free_card:
  assumes "pmm_inv p"
  shows "pmm_free p = card (free_addrs p)"
proof -
  have "inj_on from_page_number (free_frames p)"
    using free_frames_bound [OF pmm_inv_shape [OF assms]] by (intro inj_on_subset [OF inj_from_page_number]) auto
  then show ?thesis using assms by (simp add: pmm_inv_def free_addrs_def card_image)
qed

lemma destroyed_handle:
  assumes "as_destroy a s = (a', s')" and "space_ok R v a"
  shows "as_destroy a' x = (a', x)"
  using assms by (auto simp: as_destroy_def space_ok_def Let_def split: if_splits)

text \<open>A frame mapped at the test address, unmapped and given back.\<close>

lemma page_visit:
  assumes use: "spaces_in_use R X as s" and c: "c \<in> set as" and room: "4 \<le> frames_left (as_vmm s)"
    and un: "xlate (vmm_mem (as_vmm s)) (root_page c) (va_path test_va) = None"
  obtains f s1 s2 s3 where "take_frame msg s = (Inr f, s1)" and "as_map_page c test_va f DATA_FLAGS s1 = (Inr (), s2)" and "as_unmap_page c test_va s2 = (Inr f, s3)"
    and "spaces_in_use R X as (give_frame f s3)" and "same_books s (give_frame f s3)" and "next_asid (give_frame f s3) = next_asid s"
    and "cr3 (as_vmm (give_frame f s3)) = cr3 (as_vmm s)" and "same_translations R (as_vmm s) (as_vmm (give_frame f s3))"
    and "free_addrs (vmm_pmm (as_vmm (give_frame f s3))) \<union> held_frames (as_vmm (give_frame f s3)) c = free_addrs (vmm_pmm (as_vmm s)) \<union> held_frames (as_vmm s) c"
proof -
  have r0: "0 < frames_left (as_vmm s)" using room by simp
  obtain f p where f: "take_frame msg s = (Inr f, s\<lparr>as_vmm := (as_vmm s)\<lparr>vmm_pmm := p\<rparr>\<rparr>)"
    "spaces_in_use R (insert f X) as (s\<lparr>as_vmm := (as_vmm s)\<lparr>vmm_pmm := p\<rparr>\<rparr>)" "f \<in> free_addrs (vmm_pmm (as_vmm s))" "f \<notin> X"
    "free_addrs p = free_addrs (vmm_pmm (as_vmm s)) - {f}" "managed_addrs p = managed_addrs (vmm_pmm (as_vmm s))" "frame_addr f"
    "f \<in> managed_addrs (vmm_pmm (as_vmm s))" "card (free_addrs p) = frames_left (as_vmm s) - 1"
    by (rule take_frame_in_use [OF use r0])
  let ?s1 = "s\<lparr>as_vmm := (as_vmm s)\<lparr>vmm_pmm := p\<rparr>\<rparr>"
  have r1: "3 \<le> frames_left (as_vmm ?s1)" and un1: "xlate (vmm_mem (as_vmm ?s1)) (root_page c) (va_path test_va) = None" using room f(9) un by simp_all
  have cR: "root_page c \<in> R" using spaces_in_useD(4) [OF use c] by (simp add: space_ok_def)
  obtain s2 where m: "as_map_page c test_va f DATA_FLAGS ?s1 = (Inr (), s2)" "spaces_in_use R (insert f X) as s2"
    "\<forall>r\<in>R. \<forall>q. length q = 4 \<longrightarrow> xlate (vmm_mem (as_vmm s2)) r q =
      (if q = va_path test_va \<and> r = root_page c then Some (pte_set f DATA_FLAGS, []) else xlate (vmm_mem (as_vmm ?s1)) r q)"
    "s2 = ?s1\<lparr>as_vmm := as_vmm s2\<rparr>"
    "as_vmm s2 = (as_vmm ?s1)\<lparr>vmm_mem := vmm_mem (as_vmm s2), vmm_pmm := vmm_pmm (as_vmm s2), bootstrap_index := bootstrap_index (as_vmm s2)\<rparr>"
    "free_addrs (vmm_pmm (as_vmm s2)) \<union> held_frames (as_vmm s2) c = free_addrs (vmm_pmm (as_vmm ?s1)) \<union> held_frames (as_vmm ?s1) c"
    "managed_addrs (vmm_pmm (as_vmm s2)) = managed_addrs (vmm_pmm (as_vmm ?s1))"
    by (rule space_map_in_use [OF f(2) c test_va_facts(3) test_va_checks [OF f(7)] data_flags(3) r1 un1])
  have at: "page_mapped (root_page c) test_va f DATA_FLAGS (vmm_mem (as_vmm s2))"
    by (rule maps_test_page) (use m(3) cR f(7) test_va_facts(5) in \<open>simp add: maps_test_def\<close>)
  obtain s3 where u: "as_unmap_page c test_va s2 = (Inr f, s3)" "spaces_in_use R (insert f X) as s3"
    "\<forall>r\<in>R. \<forall>q. length q = 4 \<longrightarrow> xlate (vmm_mem (as_vmm s3)) r q =
      (if q = va_path test_va \<and> r = root_page c then None else xlate (vmm_mem (as_vmm s2)) r q)"
    "s3 = s2\<lparr>as_vmm := as_vmm s3\<rparr>" "as_vmm s3 = (as_vmm s2)\<lparr>vmm_mem := vmm_mem (as_vmm s3)\<rparr>" "same_tables R (as_vmm s2) (as_vmm s3)"
    by (rule space_unmap_in_use [OF m(2) c test_va_facts(3) at data_flags(1) f(7)])
  have p3: "vmm_pmm (as_vmm s3) = vmm_pmm (as_vmm s2)" by (subst u(5)) simp
  have fX: "f \<in> insert f X" "f \<in> managed_addrs (vmm_pmm (as_vmm s3))" using p3 m(7) f(6,8) by simp_all
  note g = give_frame_in_use [OF u(2) fX]
  let ?s4 = "give_frame f s3"
  have e4: "vmm_mem (as_vmm ?s4) = vmm_mem (as_vmm s3)" "cr3 (as_vmm ?s4) = cr3 (as_vmm s3)" "next_asid ?s4 = next_asid s3"
    by (simp_all add: give_frame_def free_frame_def)
  have "held_frames (as_vmm ?s4) c = held_frames (as_vmm s2) c" using held_frames_tables [OF u(6) cR] e4(1) by (simp add: held_frames_def)
  moreover have "held_frames (as_vmm ?s1) c = held_frames (as_vmm s) c" by (simp add: held_frames_def)
  ultimately have bal: "free_addrs (vmm_pmm (as_vmm ?s4)) \<union> held_frames (as_vmm ?s4) c = free_addrs (vmm_pmm (as_vmm s)) \<union> held_frames (as_vmm s) c"
    using m(6) g(2) p3 f(3,5) by auto
  have "same_books s ?s1" by (simp add: same_books_def)
  also have "same_books ?s1 s2" by (rule same_booksI [OF trans [OF m(5)], where c = "cr3 (as_vmm ?s1)"]) simp
  also have "same_books s2 s3" by (rule same_booksI [OF trans [OF u(5)], where c = "cr3 (as_vmm s2)" and p = "vmm_pmm (as_vmm s2)" and i = "bootstrap_index (as_vmm s2)"]) simp
  also have "same_books s3 ?s4" by (simp add: same_books_def give_frame_def free_frame_def)
  finally have bk: "same_books s ?s4" .
  have cr: "cr3 (as_vmm s2) = cr3 (as_vmm s)" "cr3 (as_vmm s3) = cr3 (as_vmm s2)" by (subst m(5), simp) (subst u(5), simp)
  have n: "next_asid s2 = next_asid s" "next_asid s3 = next_asid s2" by (subst m(4), simp) (subst u(4), simp)
  have tr: "same_translations R (as_vmm s) (as_vmm ?s4)" using u(3) m(3) un e4(1) by (simp add: same_translations_def)
  have use4: "spaces_in_use R X as ?s4" using g(1) f(4) by simp
  show thesis by (rule that [OF f(1) m(1) u(1) use4 bk _ _ tr bal]) (use cr n e4 in simp_all)
qed

lemma leak_test_passes:
  assumes use: "spaces_in_use R X [] s" and room: "5 \<le> frames_left (as_vmm s)" and cr: "cr3 (as_vmm s) = root_pml4_phys (as_vmm s)"
  obtains s' where "leak_test s = (Inr (), s')" and "spaces_in_use R X [] s'" and "free_addrs (vmm_pmm (as_vmm s')) = free_addrs (vmm_pmm (as_vmm s))"
    and "same_books s s'" and "next_asid s' = next_asid s + 1" and "same_translations R (as_vmm s) (as_vmm s')" and "cr3 (as_vmm s') = cr3 (as_vmm s)"
proof -
  have r0: "0 < frames_left (as_vmm s)" using room by simp
  obtain c s1 where c: "as_new s = (Inr c, s1)" "spaces_in_use (insert (root_page c) R) X [c] s1" "frames_left (as_vmm s1) = frames_left (as_vmm s) - 1"
    "next_asid s1 = next_asid s + 1" "root_page c \<notin> R"
    "as_vmm s1 = (as_vmm s)\<lparr>vmm_mem := vmm_mem (as_vmm s1), vmm_pmm := vmm_pmm (as_vmm s1)\<rparr>"
    "root_page c \<in> free_addrs (vmm_pmm (as_vmm s))" "free_addrs (vmm_pmm (as_vmm s1)) = free_addrs (vmm_pmm (as_vmm s)) - {root_page c}"
    "private_tables (vmm_mem (as_vmm s1)) (root_page c) = {}" "same_translations R (as_vmm s) (as_vmm s1)"
    "\<forall>q. length q = 4 \<longrightarrow> xlate (vmm_mem (as_vmm s1)) (root_page c) q =
      (if shared_slot (hd q) then xlate (vmm_mem (as_vmm s)) (root_pml4_phys (as_vmm s)) q else None)"
    by (rule as_new_in_use [OF use r0])
  let ?R = "insert (root_page c) R"
  have priv: "\<not> shared_slot (hd (va_path test_va))" using test_va_facts(3) unfolding private_slot_iff by (simp add: va_path_def)
  have un: "xlate (vmm_mem (as_vmm s1)) (root_page c) (va_path test_va) = None" using c(11) priv test_va_facts(5) by simp
  have r1: "4 \<le> frames_left (as_vmm s1)" and mem: "c \<in> set [c]" using room c(3) by simp_all
  obtain f s2 s3 s4 where v: "take_frame ''failed frame C'' s1 = (Inr f, s2)" "as_map_page c test_va f DATA_FLAGS s2 = (Inr (), s3)"
    "as_unmap_page c test_va s3 = (Inr f, s4)" "spaces_in_use ?R X [c] (give_frame f s4)" "same_books s1 (give_frame f s4)" "next_asid (give_frame f s4) = next_asid s1"
    "cr3 (as_vmm (give_frame f s4)) = cr3 (as_vmm s1)" "same_translations ?R (as_vmm s1) (as_vmm (give_frame f s4))"
    "free_addrs (vmm_pmm (as_vmm (give_frame f s4))) \<union> held_frames (as_vmm (give_frame f s4)) c = free_addrs (vmm_pmm (as_vmm s1)) \<union> held_frames (as_vmm s1) c"
    by (rule page_visit [OF c(2) mem r1 un])
  let ?s5 = "give_frame f s4"
  have use5: "spaces_in_use ?R X ([] @ c # []) ?s5" using v(4) by simp
  obtain c' s6 where d: "as_destroy c ?s5 = (c', s6)" "spaces_in_use (?R - {root_page c}) X ([] @ []) s6"
    "free_addrs (vmm_pmm (as_vmm s6)) = free_addrs (vmm_pmm (as_vmm ?s5)) \<union> held_frames (as_vmm ?s5) c" "next_asid s6 = next_asid ?s5"
    "as_vmm s6 = (as_vmm ?s5)\<lparr>vmm_mem := vmm_mem (as_vmm s6), vmm_pmm := vmm_pmm (as_vmm s6), cr3 := cr3 (as_vmm s6)\<rparr>"
    "same_translations (?R - {root_page c}) (as_vmm ?s5) (as_vmm s6)"
    "cr3 (as_vmm s6) = (if cr3 (as_vmm ?s5) AND NOT 0xFFF = root_page c then root_pml4_phys (as_vmm ?s5) else cr3 (as_vmm ?s5))"
    by (rule as_destroy_in_use [OF use5])
  have R: "?R - {root_page c} = R" using c(5) by simp
  have h1: "held_frames (as_vmm s1) c = {root_page c}" using c(9) by (simp add: held_frames_def)
  have free: "free_addrs (vmm_pmm (as_vmm s6)) = free_addrs (vmm_pmm (as_vmm s))" unfolding d(3) v(9) h1 using c(7,8) by auto
  have pf: "pmm_free (vmm_pmm (as_vmm x)) = card (free_addrs (vmm_pmm (as_vmm x)))" if "spaces_in_use Q Y as x" for Q Y as x
    using vm_readyD(1) [OF spaces_in_useD(1) [OF that]] by (intro pmm_free_card) (simp add: vm_ok_def)
  have run: "leak_test s = (Inr (), s6)"
    using c(1) v(1-3) d(1) pf [OF use] pf [OF d(2)] free by (simp add: leak_test_def Let_def)
  have "same_books s s1" by (rule same_booksI [OF trans [OF c(6)], where c = "cr3 (as_vmm s)" and i = "bootstrap_index (as_vmm s)"]) simp
  also note v(5)
  finally have bk5: "same_books s ?s5" .
  also have "same_books ?s5 s6" by (rule same_booksI [OF trans [OF d(5)], where i = "bootstrap_index (as_vmm ?s5)"]) simp
  finally have bk: "same_books s s6" .
  have "root_pml4_phys (as_vmm ?s5) = root_pml4_phys (as_vmm s)" by (subst bk5 [unfolded same_books_def]) simp
  moreover have "cr3 (as_vmm s1) = cr3 (as_vmm s)" by (subst c(6)) simp
  ultimately have cr6: "cr3 (as_vmm s6) = cr3 (as_vmm s)" using d(7) v(7) cr by simp
  have "same_translations R (as_vmm s1) (as_vmm ?s5)" by (rule same_translations_mono [OF v(8)]) blast
  from same_translations_trans [OF same_translations_trans [OF c(10) this]] have tr: "same_translations R (as_vmm s) (as_vmm s6)"
    using d(6) unfolding R .
  show thesis by (rule that [OF run _ free bk _ tr cr6]) (use d(2,4) R v(6) c(4) in simp_all)
qed

text \<open>The first two spaces and their frames.\<close>

lemma unmap_test_page:
  assumes use: "spaces_in_use R X as s" and c: "c \<in> set as" and at: "maps_test (as_vmm s) c f"
  obtains s' where "as_unmap_page c test_va s = (Inr f, s')" and "spaces_in_use R X as s'" and "vmm_pmm (as_vmm s') = vmm_pmm (as_vmm s)"
    and "\<forall>r\<in>R. \<forall>q. length q = 4 \<longrightarrow> r \<noteq> root_page c \<longrightarrow> xlate (vmm_mem (as_vmm s')) r q = xlate (vmm_mem (as_vmm s)) r q"
    and "same_books s s'" and "cr3 (as_vmm s') = cr3 (as_vmm s)" and "next_asid s' = next_asid s"
proof -
  have fr: "frame_addr f" using at by (simp add: maps_test_def)
  obtain s' where u: "as_unmap_page c test_va s = (Inr f, s')" "spaces_in_use R X as s'"
    "\<forall>r\<in>R. \<forall>q. length q = 4 \<longrightarrow> xlate (vmm_mem (as_vmm s')) r q = (if q = va_path test_va \<and> r = root_page c then None else xlate (vmm_mem (as_vmm s)) r q)"
    "s' = s\<lparr>as_vmm := as_vmm s'\<rparr>" "as_vmm s' = (as_vmm s)\<lparr>vmm_mem := vmm_mem (as_vmm s')\<rparr>"
    by (rule space_unmap_in_use [OF use c test_va_facts(3) maps_test_page [OF at] data_flags(1) fr])
  have e: "vmm_pmm (as_vmm s') = vmm_pmm (as_vmm s)" "cr3 (as_vmm s') = cr3 (as_vmm s)" by (subst u(5), simp)+
  have n: "next_asid s' = next_asid s" by (subst u(4)) simp
  have "same_books s s'"
    by (rule same_booksI [OF trans [OF u(5)], where c = "cr3 (as_vmm s)" and p = "vmm_pmm (as_vmm s)" and i = "bootstrap_index (as_vmm s)"]) simp
  then show thesis using that [OF u(1,2) e(1)] e(2) n u(3) by simp
qed

lemma give_frame_same:
  "vmm_mem (as_vmm (give_frame f s)) = vmm_mem (as_vmm s)" "cr3 (as_vmm (give_frame f s)) = cr3 (as_vmm s)"
  "next_asid (give_frame f s) = next_asid s" "same_books s (give_frame f s)" "root_pml4_phys (as_vmm (give_frame f s)) = root_pml4_phys (as_vmm s)"
  by (simp_all add: give_frame_def free_frame_def same_books_def)

lemma destroy_keeps_kernel:
  assumes use: "spaces_in_use R X (as @ a # as') s" and cr: "cr3 (as_vmm s) = root_pml4_phys (as_vmm s)"
  obtains a' s' where "as_destroy a s = (a', s')" and "spaces_in_use (R - {root_page a}) X (as @ as') s'" and "frames_left (as_vmm s) \<le> frames_left (as_vmm s')"
    and "next_asid s' = next_asid s" and "same_translations (R - {root_page a}) (as_vmm s) (as_vmm s')" and "cr3 (as_vmm s') = root_pml4_phys (as_vmm s')"
    and "same_books s s'" and "\<forall>x. as_destroy a' x = (a', x)"
proof -
  obtain a' s' where d: "as_destroy a s = (a', s')" "spaces_in_use (R - {root_page a}) X (as @ as') s'" "next_asid s' = next_asid s"
    "frames_left (as_vmm s) \<le> frames_left (as_vmm s')" "as_vmm s' = (as_vmm s)\<lparr>vmm_mem := vmm_mem (as_vmm s'), vmm_pmm := vmm_pmm (as_vmm s'), cr3 := cr3 (as_vmm s')\<rparr>"
    "same_translations (R - {root_page a}) (as_vmm s) (as_vmm s')"
    "cr3 (as_vmm s') = (if cr3 (as_vmm s) AND NOT 0xFFF = root_page a then root_pml4_phys (as_vmm s) else cr3 (as_vmm s))"
    by (rule as_destroy_in_use [OF use])
  have "root_pml4_phys (as_vmm s') = root_pml4_phys (as_vmm s)" by (subst d(5)) simp
  then have c: "cr3 (as_vmm s') = root_pml4_phys (as_vmm s')" using d(7) cr by simp
  have bk: "same_books s s'" by (rule same_booksI [OF trans [OF d(5)], where i = "bootstrap_index (as_vmm s)"]) simp
  have "space_ok R (as_vmm s) a" by (rule spaces_in_useD(4) [OF use]) simp
  from destroyed_handle [OF d(1) this] have "\<forall>x. as_destroy a' x = (a', x)" by simp
  then show thesis using that [OF d(1,2,4,3,6) c bk] by blast
qed

lemma cleanup_spaces_passes:
  assumes m: "marked R X a b fa fb s" and cr: "cr3 (as_vmm s) = root_pml4_phys (as_vmm s)"
  obtains a' b' s' where "cleanup_spaces a b fa fb s = ((a', b'), s')" and "spaces_in_use (R - {root_page a} - {root_page b}) (X - {fa} - {fb}) [] s'"
    and "\<forall>x. as_destroy a' x = (a', x)" and "\<forall>x. as_destroy b' x = (b', x)" and "frames_left (as_vmm s) \<le> frames_left (as_vmm s')" and "same_books s s'"
    and "next_asid s' = next_asid s" and "same_translations (R - {root_page a} - {root_page b}) (as_vmm s) (as_vmm s')" and "cr3 (as_vmm s') = root_pml4_phys (as_vmm s')"
proof -
  note md = markedD [OF m]
  have ab: "root_page a \<noteq> root_page b" using spaces_in_useD(3) [OF md(1)] by simp
  have mem: "a \<in> set [b, a]" "b \<in> set [b, a]" by simp_all
  obtain s1 where u1: "as_unmap_page a test_va s = (Inr fa, s1)" "spaces_in_use R X [b, a] s1" "vmm_pmm (as_vmm s1) = vmm_pmm (as_vmm s)"
    "\<forall>r\<in>R. \<forall>q. length q = 4 \<longrightarrow> r \<noteq> root_page a \<longrightarrow> xlate (vmm_mem (as_vmm s1)) r q = xlate (vmm_mem (as_vmm s)) r q" "same_books s s1"
    "cr3 (as_vmm s1) = cr3 (as_vmm s)" "next_asid s1 = next_asid s"
    by (rule unmap_test_page [OF md(1) mem(1) md(2)])
  have mb: "maps_test (as_vmm s1) b fb" using md(3,10) u1(4) ab test_va_facts(5) by (simp add: maps_test_def)
  obtain s2 where u2: "as_unmap_page b test_va s1 = (Inr fb, s2)" "spaces_in_use R X [b, a] s2" "vmm_pmm (as_vmm s2) = vmm_pmm (as_vmm s1)"
    "\<forall>r\<in>R. \<forall>q. length q = 4 \<longrightarrow> r \<noteq> root_page b \<longrightarrow> xlate (vmm_mem (as_vmm s2)) r q = xlate (vmm_mem (as_vmm s1)) r q" "same_books s1 s2"
    "cr3 (as_vmm s2) = cr3 (as_vmm s1)" "next_asid s2 = next_asid s1"
    by (rule unmap_test_page [OF u1(2) mem(2) mb])
  have f2: "fa \<in> managed_addrs (vmm_pmm (as_vmm s2))" "fb \<in> managed_addrs (vmm_pmm (as_vmm s2))" using md(7,8) u1(3) u2(3) by simp_all
  let ?s3 = "give_frame fa s2"
  note g3 = give_frame_in_use [OF u2(2) md(5) f2(1)]
  have fb: "fb \<in> X - {fa}" "fb \<in> managed_addrs (vmm_pmm (as_vmm ?s3))" using md(4,6) f2(2) g3(3) by auto
  let ?s4 = "give_frame fb ?s3"
  note g4 = give_frame_in_use [OF g3(1) fb]
  have fin: "finite (free_addrs p)" for p by (simp add: free_addrs_def)
  have f4: "frames_left (as_vmm s) \<le> frames_left (as_vmm ?s4)"
    using g4(2) g3(2) u1(3) u2(3) card_mono [OF fin, of "free_addrs (vmm_pmm (as_vmm s))" "vmm_pmm (as_vmm ?s4)"] by auto
  have bk4: "same_books s ?s4"
    by (rule same_books_trans [OF same_books_trans [OF u1(5) u2(5)] same_books_trans [OF give_frame_same(4) give_frame_same(4)]])
  have "root_pml4_phys (as_vmm ?s4) = root_pml4_phys (as_vmm s)" by (subst bk4 [unfolded same_books_def]) simp
  then have cr4: "cr3 (as_vmm ?s4) = root_pml4_phys (as_vmm ?s4)" using cr u1(6) u2(6) by (simp add: give_frame_same)
  have use4: "spaces_in_use R (X - {fa} - {fb}) ([b] @ a # []) ?s4" using g4(1) by simp
  obtain a' s5 where d5: "as_destroy a ?s4 = (a', s5)" "spaces_in_use (R - {root_page a}) (X - {fa} - {fb}) ([b] @ []) s5" "frames_left (as_vmm ?s4) \<le> frames_left (as_vmm s5)"
    "next_asid s5 = next_asid ?s4" "same_translations (R - {root_page a}) (as_vmm ?s4) (as_vmm s5)" "cr3 (as_vmm s5) = root_pml4_phys (as_vmm s5)" "same_books ?s4 s5"
    "\<forall>x. as_destroy a' x = (a', x)"
    by (rule destroy_keeps_kernel [OF use4 cr4])
  have use5: "spaces_in_use (R - {root_page a}) (X - {fa} - {fb}) ([] @ b # []) s5" using d5(2) by simp
  obtain b' s6 where d6: "as_destroy b s5 = (b', s6)" "spaces_in_use (R - {root_page a} - {root_page b}) (X - {fa} - {fb}) ([] @ []) s6" "frames_left (as_vmm s5) \<le> frames_left (as_vmm s6)"
    "next_asid s6 = next_asid s5" "same_translations (R - {root_page a} - {root_page b}) (as_vmm s5) (as_vmm s6)" "cr3 (as_vmm s6) = root_pml4_phys (as_vmm s6)" "same_books s5 s6"
    "\<forall>x. as_destroy b' x = (b', x)"
    by (rule destroy_keeps_kernel [OF use5 d5(6)])
  have run: "cleanup_spaces a b fa fb s = ((a', b'), s6)" using u1(1) u2(1) d5(1) d6(1) by (simp add: cleanup_spaces_def Let_def)
  have bk: "same_books s s6" by (rule same_books_trans [OF bk4 same_books_trans [OF d5(7) d6(7)]])
  have "same_translations (R - {root_page a} - {root_page b}) (as_vmm s) (as_vmm ?s4)"
    using u1(4) u2(4) by (simp add: same_translations_def give_frame_same)
  moreover have "same_translations (R - {root_page a} - {root_page b}) (as_vmm ?s4) (as_vmm s5)" by (rule same_translations_mono [OF d5(5)]) blast
  ultimately have tr: "same_translations (R - {root_page a} - {root_page b}) (as_vmm s) (as_vmm s6)"
    using same_translations_trans [OF same_translations_trans d6(5)] by blast
  have fl: "frames_left (as_vmm s) \<le> frames_left (as_vmm s6)" using f4 d5(3) d6(3) by linarith
  have n: "next_asid s6 = next_asid s" using d6(4) d5(4) u1(7) u2(7) by (simp add: give_frame_same)
  show thesis by (rule that [OF run _ d5(8) d6(8) fl bk n tr d6(6)]) (use d6(2) in simp)
qed

subsection \<open>The whole test\<close>

lemma same_books_fields:
  assumes "same_books s s'"
  shows "root_pml4_phys (as_vmm s') = root_pml4_phys (as_vmm s)" and "next_dynamic_addr (as_vmm s') = next_dynamic_addr (as_vmm s)"
    and "vmm_region_count (as_vmm s') = vmm_region_count (as_vmm s)" and "live_vregions (as_vmm s') = live_vregions (as_vmm s)"
proof -
  have e: "vmm_regions (as_vmm s') = vmm_regions (as_vmm s)" and c: "vmm_region_count (as_vmm s') = vmm_region_count (as_vmm s)"
    by (subst assms [unfolded same_books_def], simp)+
  show "root_pml4_phys (as_vmm s') = root_pml4_phys (as_vmm s)" "next_dynamic_addr (as_vmm s') = next_dynamic_addr (as_vmm s)"
    by (subst assms [unfolded same_books_def], simp)+
  show "vmm_region_count (as_vmm s') = vmm_region_count (as_vmm s)" by (rule c)
  show "live_vregions (as_vmm s') = live_vregions (as_vmm s)" using regions_cong [OF e c] by simp
qed

lemma bootstrap_not_destroyed: "as_destroy (as_bootstrap s) x = (as_bootstrap s, x)"
  by (simp add: as_destroy_def as_bootstrap_def)

lemma address_space_tests_run:
  assumes use: "spaces_in_use R X [] (bench_spaces s)" and hp: "heap_room L (ab_heap s)"
    and room: "unat (next_dynamic_addr (hp_vmm (ab_heap s))) + 4096 \<le> unat DYNAMIC_VIRT_END"
      "vmm_region_count (hp_vmm (ab_heap s)) < MAX_VIRT_REGIONS" "19 \<le> frames_left (hp_vmm (ab_heap s))"
  shows "\<exists>s'. address_space_self_tests junk s = Some (Inr (), s') \<and> spaces_in_use R X [] (bench_spaces s')
    \<and> heap_ok (ab_heap s') \<and> heap_live (ab_heap s') = L
    \<and> cr3 (hp_vmm (ab_heap s')) = root_pml4_phys (hp_vmm (ab_heap s)) \<and> same_translations R (hp_vmm (ab_heap s)) (hp_vmm (ab_heap s'))
    \<and> mset (live_vregions (hp_vmm (ab_heap s'))) = mset (live_vregions (hp_vmm (ab_heap s))) \<and> ab_next_asid s' = ab_next_asid s + 3
    \<and> root_pml4_phys (hp_vmm (ab_heap s')) = root_pml4_phys (hp_vmm (ab_heap s)) \<and> frames_left (hp_vmm (ab_heap s)) \<le> frames_left (hp_vmm (ab_heap s')) + 14
    \<and> next_dynamic_addr (hp_vmm (ab_heap s')) = next_dynamic_addr (hp_vmm (ab_heap s)) + PAGE_SIZE"
proof -
  let ?x = "bench_spaces s" and ?v = "hp_vmm (ab_heap s)"
  have x: "as_vmm ?x = ?v" "next_asid ?x = ab_next_asid s" by (simp_all add: bench_spaces_def)
  have r0: "10 \<le> frames_left (as_vmm ?x)" using room(3) x by simp
  obtain a b fa fb x1 where t1: "isolation_test ?x = (Inr (a, b, fa, fb), x1)"
    "marked (insert (root_page b) (insert (root_page a) R)) (insert fb (insert fa X)) a b fa fb x1"
    "root_page a \<noteq> root_page b" "root_page a \<notin> R" "root_page b \<notin> R" "fa \<notin> X" "fb \<notin> X" "same_books ?x x1" "next_asid x1 = next_asid ?x + 2"
    "frames_left (as_vmm ?x) \<le> frames_left (as_vmm x1) + 10" "same_translations R (as_vmm ?x) (as_vmm x1)"
    by (rule isolation_test_passes [OF use r0])
  let ?R = "insert (root_page b) (insert (root_page a) R)" and ?X = "insert fb (insert fa X)" and ?s1 = "put_spaces x1 s"
  note b1 = same_books_fields [OF t1(8)]
  have s1: "hp_vmm (ab_heap ?s1) = as_vmm x1" "ab_next_asid ?s1 = next_asid x1" by (simp_all add: put_spaces_def)
  have h1: "heap_room L (ab_heap ?s1)" using heap_room_vmm [OF hp] by simp
  have m1: "marked ?R ?X a b fa fb (bench_spaces ?s1)" using t1(2) by simp
  obtain s2 where t2: "shared_half_test junk a b (as_bootstrap (bench_spaces ?s1)) ?s1 = Some (Inr (), s2)" "heap_room L (ab_heap s2)" "marked ?R ?X a b fa fb (bench_spaces s2)"
    "cr3 (hp_vmm (ab_heap s2)) = root_pml4_phys (hp_vmm (ab_heap ?s1))" "root_pml4_phys (hp_vmm (ab_heap s2)) = root_pml4_phys (hp_vmm (ab_heap ?s1))"
    "same_translations ?R (hp_vmm (ab_heap ?s1)) (hp_vmm (ab_heap s2))" "ab_next_asid s2 = ab_next_asid ?s1"
    "mset (live_vregions (hp_vmm (ab_heap s2))) = mset (live_vregions (hp_vmm (ab_heap ?s1)))"
    "frames_left (hp_vmm (ab_heap ?s1)) \<le> frames_left (hp_vmm (ab_heap s2)) + 4"
    "next_dynamic_addr (hp_vmm (ab_heap s2)) = next_dynamic_addr (hp_vmm (ab_heap ?s1)) + PAGE_SIZE"
    by (rule shared_half_test_passes [OF h1 m1 refl]) (use s1 x b1 room t1(10) in simp_all)
  let ?x2 = "bench_spaces s2"
  have x2: "as_vmm ?x2 = hp_vmm (ab_heap s2)" "next_asid ?x2 = ab_next_asid s2" by (simp_all add: bench_spaces_def)
  have put2: "put_spaces ?x2 s2 = s2" by (simp add: put_spaces_def bench_spaces_def)
  have t3: "on_spaces (reject_test a fa) s2 = Some (Inr (), s2)" using put2 by (simp add: on_spaces_def reject_test_passes)
  have cr2: "cr3 (as_vmm ?x2) = root_pml4_phys (as_vmm ?x2)" using t2(4,5) x2 by simp
  obtain a' b' x3 where t4: "cleanup_spaces a b fa fb ?x2 = ((a', b'), x3)" "spaces_in_use (?R - {root_page a} - {root_page b}) (?X - {fa} - {fb}) [] x3"
    "\<forall>y. as_destroy a' y = (a', y)" "\<forall>y. as_destroy b' y = (b', y)" "frames_left (as_vmm ?x2) \<le> frames_left (as_vmm x3)" "same_books ?x2 x3"
    "next_asid x3 = next_asid ?x2" "same_translations (?R - {root_page a} - {root_page b}) (as_vmm ?x2) (as_vmm x3)" "cr3 (as_vmm x3) = root_pml4_phys (as_vmm x3)"
    by (rule cleanup_spaces_passes [OF t2(3) cr2])
  have R: "?R - {root_page a} - {root_page b} = R" and X: "?X - {fa} - {fb} = X" using t1(3-7) by auto
  have use3: "spaces_in_use R X [] x3" and tr3: "same_translations R (as_vmm ?x2) (as_vmm x3)" using t4(2,8) unfolding R X .
  have r3: "5 \<le> frames_left (as_vmm x3)" using room(3) t1(10) t2(9) t4(5) s1(1) x(1) x2(1) by simp
  obtain x4 where t5: "leak_test x3 = (Inr (), x4)" "spaces_in_use R X [] x4" "same_books x3 x4" "next_asid x4 = next_asid x3 + 1"
    "same_translations R (as_vmm x3) (as_vmm x4)" "cr3 (as_vmm x4) = cr3 (as_vmm x3)"
    "free_addrs (vmm_pmm (as_vmm x4)) = free_addrs (vmm_pmm (as_vmm x3))"
    by (rule leak_test_passes [OF use3 r3 t4(9)])
  let ?s' = "put_spaces x4 s2"
  have e1: "on_spaces isolation_test s = Some (Inr (a, b, fa, fb), ?s1)" using t1(1) by (simp add: on_spaces_def)
  have e5: "on_spaces leak_test (put_spaces x3 s2) = Some (Inr (), ?s')" using t5(1) by (simp add: on_spaces_def)
  have run: "address_space_self_tests junk s = Some (Inr (), ?s')"
    using e1 t2(1) t3 t4(1) e5 t4(3,4) by (simp add: address_space_self_tests_def Let_def bootstrap_not_destroyed)
  have s': "hp_vmm (ab_heap ?s') = as_vmm x4" "ab_next_asid ?s' = next_asid x4" by (simp_all add: put_spaces_def)
  note b3 = same_books_fields [OF t4(6)] and b4 = same_books_fields [OF t5(3)]
  have "heap_ok (ab_heap ?s')" "heap_live (ab_heap ?s') = L" using heap_room_vmm [OF t2(2), of "as_vmm x4"] by (simp_all add: heap_room_def)
  moreover have "cr3 (as_vmm x4) = root_pml4_phys ?v" using t5(6) t4(9) b3(1) x2(1) t2(5) s1(1) b1(1) x(1) by simp
  moreover have "same_translations R (as_vmm x1) (as_vmm ?x2)" unfolding s1(1) [symmetric] x2(1) by (rule same_translations_mono [OF t2(6)]) blast
  from same_translations_trans [OF same_translations_trans [OF t1(11) this] same_translations_trans [OF tr3 t5(5)]]
  have "same_translations R ?v (as_vmm x4)" unfolding x(1) .
  moreover have "mset (live_vregions (as_vmm x4)) = mset (live_vregions ?v)" using b4(4) b3(4) t2(8) b1(4) x(1) x2(1) s1(1) by simp
  moreover have "next_asid x4 = ab_next_asid s + 3" using t5(4) t4(7) x2(2) t2(7) s1(2) t1(9) x(2) by simp
  moreover have "root_pml4_phys (as_vmm x4) = root_pml4_phys ?v" using b4(1) b3(1) x2(1) t2(5) s1(1) b1(1) x(1) by simp
  moreover have "next_dynamic_addr (as_vmm x4) = next_dynamic_addr ?v + PAGE_SIZE" using b4(2) b3(2) x2(1) t2(10) s1(1) b1(2) x(1) by simp
  moreover have "frames_left ?v \<le> frames_left (as_vmm x4) + 14" using t1(10) t2(9) t4(5) t5(7) s1(1) x(1) x2(1) by simp
  ultimately show ?thesis using run t5(2) s' by (intro exI [of _ ?s']) simp
qed

text \<open>C8. The boot-time test of address spaces (\<^verbatim>\<open>run_self_tests\<close> of \<^verbatim>\<open>address_space.rs\<close>) passes.  On a kernel whose page tables are in order,
  with 19 free frames, an entry of the region table and a page of the dynamic range left, and a heap in that range with room for one more word, no comparison
  of the test fails, no access faults and no walk over the block list goes on for ever: two spaces keep their own words at one address, both
  read the heap and a region mapped after they were made, addresses of shared slots are refused, and tearing a space down gives back every frame.
  Afterwards CR3 holds the kernel's root again, the kernel translates every address as before, the regions and the blocks in use are the ones
  before the test, and no space is left.\<close>

theorem address_space_self_tests_pass:
  assumes use: "spaces_in_use R X [] (bench_spaces s)" and hp: "heap_room L (ab_heap s)"
    and room: "unat (next_dynamic_addr (hp_vmm (ab_heap s))) + 4096 \<le> unat DYNAMIC_VIRT_END"
      "vmm_region_count (hp_vmm (ab_heap s)) < MAX_VIRT_REGIONS" "19 \<le> frames_left (hp_vmm (ab_heap s))"
  shows "\<exists>s'. address_space_self_tests junk s = Some (Inr (), s') \<and> spaces_in_use R X [] (bench_spaces s')
    \<and> heap_ok (ab_heap s') \<and> heap_live (ab_heap s') = L
    \<and> cr3 (hp_vmm (ab_heap s')) = root_pml4_phys (hp_vmm (ab_heap s)) \<and> same_translations R (hp_vmm (ab_heap s)) (hp_vmm (ab_heap s'))
    \<and> mset (live_vregions (hp_vmm (ab_heap s'))) = mset (live_vregions (hp_vmm (ab_heap s))) \<and> ab_next_asid s' = ab_next_asid s + 3"
  using address_space_tests_run [OF assms] by blast

text \<open>The sample machine after \<^verbatim>\<open>vmm::init\<close> and \<^verbatim>\<open>heap::init\<close>.\<close>

lemma heap_ready_room:
  assumes "heap_ready R X h" and "heap_live h = {}" and "unat DYNAMIC_VIRT_START \<le> hp_start h" and "hp_current_end h \<le> unat DYNAMIC_VIRT_END"
    and "48 < hp_current_end h - hp_start h"
  shows "heap_room {} h"
  using assms heap_readyD(1) [OF assms(1)] by (simp add: heap_room_def kernel_consts)

theorem address_space_self_tests_pass_witness:
  "\<exists>v h s'. vmm_init boot_map 0xFEE00000 0xFEC00000 None boot_vm = (Inr (), v)
     \<and> heap_init (heap_state_new (\<lambda>_. poison_header) (\<lambda>_. 0) v) = (Inr (), h)
     \<and> address_space_self_tests (\<lambda>_. poison_header) \<lparr>ab_heap = h, ab_next_asid = 1, ab_current_asid = 0\<rparr> = Some (Inr (), s') \<and> ab_next_asid s' = 4"
proof -
  obtain v where v: "vmm_init boot_map 0xFEE00000 0xFEC00000 None boot_vm = (Inr (), v)" "vm_ready {0x1000000} {} v" "255 \<le> frames_left v"
    "root_pml4_phys v = 0x1000000" "vmm_region_count v \<le> 131" "next_dynamic_addr v = DYNAMIC_VIRT_START" by (rule boot_ready)
  obtain Y h where h: "heap_init (heap_state_new (\<lambda>_. poison_header) (\<lambda>_. 0) v) = (Inr (), h)" "heap_ready {0x1000000} ({} \<union> Y) h" "heap_live h = {}"
    "hp_start h = unat (next_dynamic_addr v)" "hp_current_end h = hp_start h + 131072" "unat (next_dynamic_addr (hp_vmm h)) = unat (next_dynamic_addr v) + 131072"
    "frames_left v \<le> frames_left (hp_vmm h) + 128" "root_pml4_phys (hp_vmm h) = root_pml4_phys v" "vmm_region_count (hp_vmm h) = vmm_region_count v + 1"
    by (rule heap_init_ready [OF v(2), of "\<lambda>_. poison_header" "\<lambda>_. 0"]) (use v(3,5,6) in \<open>auto simp: kernel_consts\<close>)
  let ?s = "\<lparr>ab_heap = h, ab_next_asid = 1, ab_current_asid = 0\<rparr>"
  have "heap_room {} h" by (rule heap_ready_room [OF h(2,3)]) (use h(4,5) v(6) in \<open>simp_all add: kernel_consts\<close>)
  moreover have "kernel_ok {0x1000000} (hp_vmm h)" by (rule ready_kernel_ok [OF heap_readyD(2) [OF h(2)]]) (simp add: h(8) v(4))
  then have "spaces_in_use {0x1000000} ({} \<union> Y) [] (bench_spaces ?s)" using heap_readyD(2) [OF h(2)] by (simp add: spaces_in_use_def bench_spaces_def)
  moreover have "unat (next_dynamic_addr (hp_vmm h)) + 4096 \<le> unat DYNAMIC_VIRT_END" "vmm_region_count (hp_vmm h) < MAX_VIRT_REGIONS" "19 \<le> frames_left (hp_vmm h)"
    using h(6,7,9) v(3,5,6) by (simp_all add: kernel_consts)
  ultimately show ?thesis
    using address_space_self_tests_pass [of "{0x1000000}" "{} \<union> Y" ?s "{}" "\<lambda>_. poison_header"] v(1) h(1) by auto
qed

end
