(* ===== verification/Kernel_Start.thy ===== *)
theory Kernel_Start
  imports Address_Space_Checks Process_Tests
begin

text \<open>
  \<^verbatim>\<open>initialize_vmm_and_heap\<close> of \<^verbatim>\<open>src/src/main.rs\<close>: the page tables and the heap come up, then the boot-time tests of all layers run one
  after the other on what the one before left behind.  A halt or a panic is the left result with its message; \<^const>\<open>None\<close> would be a walk over the
  heap's block list that does not end.  Each phase meets what the next one asks for, so the kernel gets past them all, given frames enough.

  The arrays of threads are lists here as in \<^verbatim>\<open>Process\<close>: their storage in the heap is not part of the model, and the state after the
  tests is that of the memory manager and the counters.
\<close>

text \<open>What the compiler decides about the code of the tests: the bytes around a written one, the return address and the stack pointer at each switch,
  the addresses of the functions, the stack they use and the registers of the inline assembly.\<close>

record test_code =
  tc_junk :: "nat \<Rightarrow> block_header"
  context_sites :: "nat \<Rightarrow> u64 \<times> u64"
  context_entries :: "nat \<Rightarrow> u64"
  context_depths :: "nat \<Rightarrow> u64"
  thread_sites :: "nat \<Rightarrow> u64 \<times> u64"
  thread_entries :: "nat \<Rightarrow> u64"
  process_sites :: "nat \<Rightarrow> u64 \<times> u64"
  process_entries :: "nat \<Rightarrow> u64"
  asm_out1 :: reg
  asm_out2 :: reg
  test_cpu :: cpu

definition layer_tests :: "test_code \<Rightarrow> kernel \<Rightarrow> string + kernel" where
  "layer_tests tc k =
     bind_sum (context_self_tests (context_sites tc) (context_entries tc) (context_depths tc) (asm_out1 tc) (asm_out2 tc) (test_cpu tc) (test_contexts_init k)) (\<lambda>s.
     bind_sum (thread_self_tests (thread_sites tc) (thread_entries tc) (asm_out1 tc) (asm_out2 tc) (test_cpu tc) (test_threads_init (ct_kernel s))) (\<lambda>s.
     bind_sum (process_self_tests (process_sites tc) (process_entries tc) (test_procs_init (tt_kernel s))) (\<lambda>s.
     Inr (tp_kernel s))))"

definition initialize_vmm_and_heap ::
    "test_code \<Rightarrow> header_store \<Rightarrow> (nat \<Rightarrow> u8) \<Rightarrow> physical_memory_map \<Rightarrow> u64 \<Rightarrow> u64 \<Rightarrow> (u64 \<times> u64) option \<Rightarrow> kernel \<Rightarrow> (string + kernel) option" where
  "initialize_vmm_and_heap tc hdr bytes mm lapic ioapic fb k =
     (case vmm_init mm lapic ioapic fb (k_vmm k) of
        (Inl e, _) \<Rightarrow> Some (Inl e)
      | (Inr _, v) \<Rightarrow>
          case heap_init (heap_state_new hdr bytes v) of
            (Inl e, _) \<Rightarrow> Some (Inl e)
          | (Inr _, h) \<Rightarrow>
              case memory_self_tests (tc_junk tc) h of
                None \<Rightarrow> None
              | Some (Inl e, _) \<Rightarrow> Some (Inl e)
              | Some (Inr _, h) \<Rightarrow>
                  case address_space_self_tests (tc_junk tc)
                         \<lparr>ab_heap = h, ab_next_asid = next_asid (k_as k), ab_current_asid = current_asid (k_as k)\<rparr> of
                    None \<Rightarrow> None
                  | Some (Inl e, _) \<Rightarrow> Some (Inl e)
                  | Some (Inr _, b) \<Rightarrow> Some (layer_tests tc (k\<lparr>k_as := bench_spaces b\<rparr>)))"

text \<open>Code the compiler can have produced: canonical addresses, functions within their stacks, outputs apart from the two registers the assembly sets.\<close>

definition valid_test_code :: "test_code \<Rightarrow> bool" where
  "valid_test_code tc \<longleftrightarrow> (\<forall>n. valid_site (thread_sites tc n)) \<and> (\<forall>n. valid_site (process_sites tc n))
     \<and> (\<forall>i. entry_ok (context_entries tc i)) \<and> (\<forall>i. entry_ok (thread_entries tc i)) \<and> (\<forall>i. entry_ok (process_entries tc i))
     \<and> (\<forall>i. unat (context_depths tc i) \<le> 0x4000) \<and> asm_out1 tc \<notin> {R12, R13} \<and> asm_out2 tc \<notin> {R12, R13} \<and> asm_out1 tc \<noteq> asm_out2 tc"

lemma valid_test_codeD:
  assumes "valid_test_code tc"
  shows "valid_site (thread_sites tc n)" and "valid_site (process_sites tc n)" and "entry_ok (context_entries tc i)" and "entry_ok (thread_entries tc i)"
    and "entry_ok (process_entries tc i)" and "unat (context_depths tc i) \<le> 0x4000" and "asm_out1 tc \<notin> {R12, R13}" and "asm_out2 tc \<notin> {R12, R13}"
    and "asm_out1 tc \<noteq> asm_out2 tc"
  using assms by (simp_all add: valid_test_code_def)

subsection \<open>Contexts, threads and processes\<close>

lemma layer_tests_pass:
  assumes tc: "valid_test_code tc" and vm: "vm_ready R X (k_vmm k)" and room: "stack_room 11 k" "181 \<le> frames_left (k_vmm k)"
    and root: "root_pml4_phys (k_vmm k) = root" "cr3 (k_vmm k) = root" "root \<noteq> 0" and e: "entry_ok (initial_context_entry k)"
    and ids: "next_thread_id k = 1" "next_pid k = 1"
  obtains k' a b Y where "layer_tests tc k = Inr k'" and "test_kernel ({root_page a, root_page b} \<union> R) (X \<union> Y) [b, a] 0 0 root k'"
    and "next_pid k' = 6" and "next_thread_id k' = 9"
proof -
  note t = valid_test_codeD [OF tc]
  have c: "vm_ready R X (k_vmm (ct_kernel (test_contexts_init k)))" "stack_room (8 + 3) (ct_kernel (test_contexts_init k))"
    using vm room(1) by (simp_all add: test_contexts_init_def)
  obtain s1 where s1: "context_self_tests (context_sites tc) (context_entries tc) (context_depths tc) (asm_out1 tc) (asm_out2 tc) (test_cpu tc) (test_contexts_init k) = Inr s1"
    "vm_ready R X (k_vmm (ct_kernel s1))" "stack_room 8 (ct_kernel s1)" "stacks_taken 3 (ct_kernel (test_contexts_init k)) (ct_kernel s1)"
    "next_thread_id (ct_kernel s1) = next_thread_id (ct_kernel (test_contexts_init k))"
    by (rule context_tests_run [OF c t(3,6-9)])
  let ?k1 = "ct_kernel s1" and ?s = "test_threads_init (ct_kernel s1)"
  have k1: "stacks_taken 3 k ?k1" "next_thread_id ?k1 = 1" using s1(4,5) ids(1) by (simp_all add: test_contexts_init_def)
  have tt: "tt_kernel ?s = ?k1" by (simp add: test_threads_init_def)
  have p: "vm_ready R X (k_vmm (tt_kernel ?s))" "stack_room (4 + 4) (tt_kernel ?s)" "entry_ok (initial_context_entry (tt_kernel ?s))"
    "next_thread_id (tt_kernel ?s) \<noteq> 0" "unat (next_thread_id (tt_kernel ?s)) + 4 \<le> 2 ^ 64"
    using s1(2,3) k1 e by (simp_all add: tt stacks_taken_def)
  obtain s2 Y where s2: "thread_self_tests (thread_sites tc) (thread_entries tc) (asm_out1 tc) (asm_out2 tc) (test_cpu tc) ?s = Inr s2"
    "vm_ready R (X \<union> Y) (k_vmm (tt_kernel s2))" "stack_room 4 (tt_kernel s2)" "stacks_taken 4 (tt_kernel ?s) (tt_kernel s2)"
    "next_thread_id (tt_kernel s2) = next_thread_id (tt_kernel ?s) + 4"
    by (rule thread_tests_run [OF t(1) p(1,2) t(4) p(3-5) t(7-9)])
  let ?k2 = "tt_kernel s2"
  have st: "stacks_taken (3 + 4) k ?k2" by (rule stacks_taken_trans [OF k1(1)]) (use s2(4) tt in simp)
  then have k2: "root_pml4_phys (k_vmm ?k2) = root" "cr3 (k_vmm ?k2) = root" "next_pid ?k2 = 1" "entry_ok (initial_context_entry ?k2)" "69 \<le> frames_left (k_vmm ?k2)"
    using root e ids(2) room(2) by (simp_all add: stacks_taken_def)
  have "kernel_ok R (k_vmm ?k2)" by (rule ready_kernel_ok [OF s2(2)]) (simp add: k2(1) root(3))
  then have tk: "test_kernel R (X \<union> Y) [] 4 5 root ?k2"
    using s2(2,3) k2 by (simp add: test_kernel_def spaces_in_use_def process_room_def)
  have n2: "next_thread_id ?k2 = 5" using s2(5) k1(2) tt by simp
  have i: "next_thread_id ?k2 \<noteq> 0" "unat (next_thread_id ?k2) + 5 \<le> 2 ^ 64" "next_pid ?k2 \<noteq> 0" "unat (next_pid ?k2) + 5 \<le> 2 ^ 64"
    using n2 k2(3) by simp_all
  obtain s3 a b Z where s3: "process_self_tests (process_sites tc) (process_entries tc) (test_procs_init ?k2) = Inr s3"
    "test_kernel ({root_page a, root_page b} \<union> R) ((X \<union> Y) \<union> Z) [b, a] 0 0 root (tp_kernel s3)"
    "next_pid (tp_kernel s3) = next_pid ?k2 + 5" "next_thread_id (tp_kernel s3) = next_thread_id ?k2 + 4"
    using process_tests_run [where sites = "process_sites tc" and entry = "process_entries tc", OF t(2,5) tk i] by blast
  have "layer_tests tc k = Inr (tp_kernel s3)" using s1(1) s2(1) s3(1) by (simp add: layer_tests_def)
  then show thesis
    by (rule that [where Y = "Y \<union> Z"]) (use s3(2-4) k2(3) n2 in \<open>simp_all add: Un_assoc\<close>)
qed

subsection \<open>From the page tables to the processes\<close>

lemma vmm_and_heap_run:
  fixes k :: kernel and mm :: physical_memory_map
  assumes mm: "memory_map_ok mm" "usable_nonoverlapping (live_regions mm)" "low_regions mm" and dev: "low_devices lapic ioapic fb"
    and frames: "845 \<le> card (free_addrs (pmm_init mm))" and pmm: "vmm_pmm (k_vmm k) = pmm_init mm"
    and pool: "pool_ok ((k_vmm k)\<lparr>is_bootstrapping := True\<rparr>)" "bootstrap_index (k_vmm k) = 0" "pool_base (k_vmm k) \<noteq> 0"
    and init: "length (vmm_regions (k_vmm k)) = MAX_VIRT_REGIONS" "vmm_region_count (k_vmm k) = 0" "next_dynamic_addr (k_vmm k) = DYNAMIC_VIRT_START"
    and ids: "next_thread_id k = 1" "next_pid k = 1" and entry: "entry_ok (initial_context_entry k)" and tc: "valid_test_code tc"
  shows "\<exists>v h. vmm_init mm lapic ioapic fb (k_vmm k) = (Inr (), v) \<and> heap_init (heap_state_new hdr bytes v) = (Inr (), h)
    \<and> (if even (vmm_mem (hp_vmm h) 0 0)
        then \<exists>k' a b X. initialize_vmm_and_heap tc hdr bytes mm lapic ioapic fb k = Some (Inr k')
          \<and> test_kernel {root_page a, root_page b, pool_base (k_vmm k)} X [b, a] 0 0 (pool_base (k_vmm k)) k' \<and> next_pid k' = 6 \<and> next_thread_id k' = 9
        else initialize_vmm_and_heap tc hdr bytes mm lapic ioapic fb k = Some (Inl ''Virtual address 0 (NULL page) is mapped!''))"
proof -
  let ?v = "k_vmm k" and ?root = "pool_base (k_vmm k)"
  have v: "?v\<lparr>vmm_pmm := pmm_init mm\<rparr> = ?v" using pmm by (metis vmm.surjective vmm.update_convs(2) vmm.select_convs(2))
  have v2: "?v\<lparr>vmm_pmm := pmm_init mm, is_bootstrapping := True\<rparr> = ?v\<lparr>is_bootstrapping := True\<rparr>" using v by simp
  have fr: "652 \<le> card (free_addrs (pmm_init mm))" and po: "pool_ok (?v\<lparr>vmm_pmm := pmm_init mm, is_bootstrapping := True\<rparr>)"
    using frames pool(1) unfolding v2 by simp_all
  obtain v' h X where h: "vmm_init mm lapic ioapic fb (?v\<lparr>vmm_pmm := pmm_init mm\<rparr>) = (Inr (), v')" "heap_init (heap_state_new hdr bytes v') = (Inr (), h)"
    "heap_ready {?root} X h" "heap_live h = {}" "test_room h" "card (free_addrs (pmm_init mm)) \<le> frames_left (hp_vmm h) + 384"
    "verify_null_page_unmapped (hp_vmm h) \<longleftrightarrow> even (vmm_mem (hp_vmm h) 0 0)" "root_pml4_phys (hp_vmm h) = ?root" "cr3 (hp_vmm h) = ?root"
    "hp_start h = unat DYNAMIC_VIRT_START" "hp_current_end h = hp_start h + 131072" "unat (next_dynamic_addr (hp_vmm h)) = unat DYNAMIC_VIRT_START + 131072"
    "vmm_region_count (hp_vmm h) \<le> 132"
    by (rule heap_at_boot [OF mm dev fr po pool(2,3) init])
  have i: "vmm_init mm lapic ioapic fb ?v = (Inr (), v')" using h(1) unfolding v .
  show ?thesis
  proof (cases "even (vmm_mem (hp_vmm h) 0 0)")
    case False
    then have "memory_self_tests (tc_junk tc) h = Some (Inl ''Virtual address 0 (NULL page) is mapped!'', h)"
      using memory_tests_null [OF h(3), of "tc_junk tc"] h(5,7) by (simp add: test_room_def)
    then have "initialize_vmm_and_heap tc hdr bytes mm lapic ioapic fb k = Some (Inl ''Virtual address 0 (NULL page) is mapped!'')"
      using i h(2) by (simp add: initialize_vmm_and_heap_def)
    then show ?thesis using i h(2) False by auto
  next
    case True
    have null: "verify_null_page_unmapped (hp_vmm h)" using h(7) True by simp
    obtain h' where m: "memory_self_tests (tc_junk tc) h = Some (Inr (), h')" "heap_live h' = {}" "hp_start h' = hp_start h" "hp_current_end h \<le> hp_current_end h'"
      "\<exists>Y. heap_ready {?root} (X \<union> Y) h'" "frames_left (hp_vmm h) \<le> frames_left (hp_vmm h') + 266" "root_pml4_phys (hp_vmm h') = root_pml4_phys (hp_vmm h)"
      "vmm_region_count (hp_vmm h') = vmm_region_count (hp_vmm h)" "unat (next_dynamic_addr (hp_vmm h')) \<le> unat (next_dynamic_addr (hp_vmm h)) + 274432"
      by (rule memory_tests_pass [OF h(3-5) null])
    from m(5) obtain Y where ready: "heap_ready {?root} (X \<union> Y) h'" by blast
    let ?b = "\<lparr>ab_heap = h', ab_next_asid = next_asid (k_as k), ab_current_asid = current_asid (k_as k)\<rparr>"
    have root: "root_pml4_phys (hp_vmm h') = ?root" using m(7) h(8) by simp
    have "kernel_ok {?root} (hp_vmm h')" by (rule ready_kernel_ok [OF heap_readyD(2) [OF ready]]) (simp add: root pool(3))
    then have use: "spaces_in_use {?root} (X \<union> Y) [] (bench_spaces ?b)" using heap_readyD(2) [OF ready] by (simp add: spaces_in_use_def bench_spaces_def)
    have cur: "unat (next_dynamic_addr (hp_vmm h')) \<le> unat DYNAMIC_VIRT_START + 405504" using m(9) h(12) by simp
    then have cend: "hp_current_end h' \<le> unat DYNAMIC_VIRT_END" using heap_readyD(5) [OF ready] by (simp add: kernel_consts)
    have hr: "heap_room {} (ab_heap ?b)"
      using heap_ready_room [OF ready m(2) _ cend] m(3,4) h(10,11) by simp
    have rm: "unat (next_dynamic_addr (hp_vmm (ab_heap ?b))) + 4096 \<le> unat DYNAMIC_VIRT_END" "vmm_region_count (hp_vmm (ab_heap ?b)) < MAX_VIRT_REGIONS"
      "19 \<le> frames_left (hp_vmm (ab_heap ?b))"
      using cur m(6,8) h(6,13) frames by (simp_all add: kernel_consts)
    obtain b where b: "address_space_self_tests (tc_junk tc) ?b = Some (Inr (), b)" "spaces_in_use {?root} (X \<union> Y) [] (bench_spaces b)"
      "cr3 (hp_vmm (ab_heap b)) = root_pml4_phys (hp_vmm h')" "mset (live_vregions (hp_vmm (ab_heap b))) = mset (live_vregions (hp_vmm h'))"
      "root_pml4_phys (hp_vmm (ab_heap b)) = root_pml4_phys (hp_vmm h')" "frames_left (hp_vmm h') \<le> frames_left (hp_vmm (ab_heap b)) + 14"
      "next_dynamic_addr (hp_vmm (ab_heap b)) = next_dynamic_addr (hp_vmm h') + PAGE_SIZE"
      using address_space_tests_run [OF use hr rm, of "tc_junk tc"] by auto
    let ?k = "k\<lparr>k_as := bench_spaces b\<rparr>"
    have kv: "k_vmm ?k = hp_vmm (ab_heap b)" by (simp add: bench_spaces_def)
    have vm: "vm_ready {?root} (X \<union> Y) (k_vmm ?k)" using spaces_in_useD(1) [OF b(2)] by simp
    have "unat (next_dynamic_addr (hp_vmm h') + PAGE_SIZE) = unat (next_dynamic_addr (hp_vmm h')) + 4096"
      using rm(1) unat_u64_less [of DYNAMIC_VIRT_END] by (intro unat_add_u64 [THEN trans]) auto
    moreover have "vmm_region_count (k_vmm ?k) = vmm_region_count (hp_vmm h')"
      using region_count_length [OF vm_readyD(2) [OF vm]] region_count_length [OF vm_readyD(2) [OF heap_readyD(2) [OF ready]]] mset_eq_length [OF b(4)] kv by simp
    ultimately have sr: "stack_room 11 ?k" and fl: "181 \<le> frames_left (k_vmm ?k)"
      using cur b(6,7) m(6,8) h(6,13) frames unfolding stack_room_def kv by (simp_all add: kernel_consts)
    obtain k' c d Z where "layer_tests tc ?k = Inr k'" "test_kernel ({root_page c, root_page d} \<union> {?root}) ((X \<union> Y) \<union> Z) [d, c] 0 0 ?root k'"
      "next_pid k' = 6" "next_thread_id k' = 9"
      by (rule layer_tests_pass [OF tc vm sr fl _ _ pool(3)]) (use b(3,5) kv root entry ids in simp_all)
    moreover from this(1) have "initialize_vmm_and_heap tc hdr bytes mm lapic ioapic fb k = Some (Inr k')"
      using i h(2) m(1) b(1) by (simp add: initialize_vmm_and_heap_def)
    ultimately show ?thesis
      using i h(2) True by (intro exI [of _ v'] exI [of _ h]) (auto simp: insert_commute)
  qed
qed

text \<open>C6. The kernel gets through its bring-up.  On a well-formed firmware map with 845 usable frames below 64 TiB, from the initial statics,
  \<^verbatim>\<open>vmm::init\<close> and \<^verbatim>\<open>heap::init\<close> succeed and then the boot-time tests of memory, address spaces, contexts, threads and processes all pass, each
  on the state the one before leaves, if and only if the word at physical address 0 is even; otherwise the machine halts in the null-page check, the
  only place where it can.  Afterwards CR3 holds the kernel's root, the tables are in order, and the address spaces alive are those of the
  two processes that the statics of the last test hold.\<close>

theorem initialize_vmm_and_heap_completes:
  fixes k :: kernel and mm :: physical_memory_map
  assumes mm: "memory_map_ok mm" "usable_nonoverlapping (live_regions mm)" "low_regions mm" and dev: "low_devices lapic ioapic fb"
    and frames: "845 \<le> card (free_addrs (pmm_init mm))" and pmm: "vmm_pmm (k_vmm k) = pmm_init mm"
    and pool: "pool_ok ((k_vmm k)\<lparr>is_bootstrapping := True\<rparr>)" "bootstrap_index (k_vmm k) = 0" "pool_base (k_vmm k) \<noteq> 0"
    and init: "length (vmm_regions (k_vmm k)) = MAX_VIRT_REGIONS" "vmm_region_count (k_vmm k) = 0" "next_dynamic_addr (k_vmm k) = DYNAMIC_VIRT_START"
    and ids: "next_thread_id k = 1" "next_pid k = 1" and entry: "entry_ok (initial_context_entry k)" and tc: "valid_test_code tc"
  shows "\<exists>v h. vmm_init mm lapic ioapic fb (k_vmm k) = (Inr (), v) \<and> heap_init (heap_state_new hdr bytes v) = (Inr (), h)
    \<and> (if even (vmm_mem (hp_vmm h) 0 0)
        then \<exists>k' a b X. initialize_vmm_and_heap tc hdr bytes mm lapic ioapic fb k = Some (Inr k')
          \<and> test_kernel {root_page a, root_page b, pool_base (k_vmm k)} X [b, a] 0 0 (pool_base (k_vmm k)) k' \<and> next_pid k' = 6 \<and> next_thread_id k' = 9
        else initialize_vmm_and_heap tc hdr bytes mm lapic ioapic fb k = Some (Inl ''Virtual address 0 (NULL page) is mapped!''))"
  by (rule vmm_and_heap_run [OF assms])

text \<open>The machine of \<open>test_map\<close>, with functions at \<^verbatim>\<open>0x140002000\<close>.\<close>

definition sample_code :: test_code where
  "sample_code = \<lparr>tc_junk = (\<lambda>_. poison_header), context_sites = (\<lambda>_. (0x140002010, 0x8000)), context_entries = (\<lambda>_. 0x140002000), context_depths = (\<lambda>_. 0x200),
     thread_sites = (\<lambda>_. (0x140002010, 0x8000)), thread_entries = (\<lambda>_. 0x140002000),
     process_sites = (\<lambda>_. (0x140002010, 0x8000)), process_entries = (\<lambda>_. 0x140002000),
     asm_out1 = RAX, asm_out2 = RCX, test_cpu = sample_cpu (\<lambda>_. 0)\<rparr>"

lemma sample_code_valid: "valid_test_code sample_code"
  using sample_site sample_entries(2) by (simp add: valid_test_code_def sample_code_def)

theorem initialize_vmm_and_heap_completes_witness:
  "\<exists>v h. vmm_init test_map 0xFEE00000 0xFEC00000 None (boot_vm\<lparr>vmm_pmm := pmm_init test_map\<rparr>) = (Inr (), v)
     \<and> heap_init (heap_state_new (\<lambda>_. poison_header) (\<lambda>_. 0) v) = (Inr (), h)
     \<and> (if even (vmm_mem (hp_vmm h) 0 0)
         then \<exists>k'. initialize_vmm_and_heap sample_code (\<lambda>_. poison_header) (\<lambda>_. 0) test_map 0xFEE00000 0xFEC00000 None
             (booted_kernel (boot_vm\<lparr>vmm_pmm := pmm_init test_map\<rparr>)) = Some (Inr k') \<and> next_pid k' = 6 \<and> next_thread_id k' = 9
         else initialize_vmm_and_heap sample_code (\<lambda>_. poison_header) (\<lambda>_. 0) test_map 0xFEE00000 0xFEC00000 None
             (booted_kernel (boot_vm\<lparr>vmm_pmm := pmm_init test_map\<rparr>)) = Some (Inl ''Virtual address 0 (NULL page) is mapped!''))"
proof -
  let ?v = "boot_vm\<lparr>vmm_pmm := pmm_init test_map\<rparr>"
  have m: "memory_map_ok test_map" "usable_nonoverlapping (live_regions test_map)" "low_regions test_map"
    using test_map_live by (simp_all add: memory_map_ok_def low_regions_def region_ok_def sum_bytes_def usable_nonoverlapping_def)
      (simp_all add: test_map_def kernel_consts)
  have d: "low_devices 0xFEE00000 0xFEC00000 None" by (simp add: low_devices_def)
  have f: "845 \<le> card (free_addrs (pmm_init test_map))" by (simp add: test_map_free)
  have pool: "pool_ok ((k_vmm (booted_kernel ?v))\<lparr>is_bootstrapping := True\<rparr>)" using boot_pool_any [of "pmm_init test_map"] test_map_free(2) by force
  have r: "vmm_pmm (k_vmm (booted_kernel ?v)) = pmm_init test_map" "bootstrap_index (k_vmm (booted_kernel ?v)) = 0" "pool_base (k_vmm (booted_kernel ?v)) \<noteq> 0"
    "length (vmm_regions (k_vmm (booted_kernel ?v))) = MAX_VIRT_REGIONS" "vmm_region_count (k_vmm (booted_kernel ?v)) = 0"
    "next_dynamic_addr (k_vmm (booted_kernel ?v)) = DYNAMIC_VIRT_START" "next_thread_id (booted_kernel ?v) = 1" "next_pid (booted_kernel ?v) = 1"
    by (simp_all add: boot_vm_def sample_vm_def kernel_consts)
  have k: "k_vmm (booted_kernel ?v) = ?v" by simp
  from initialize_vmm_and_heap_completes [OF m d f r(1) pool r(2-8) sample_entries(1) sample_code_valid, of "\<lambda>_. poison_header" "\<lambda>_. 0"]
  obtain v h where "vmm_init test_map 0xFEE00000 0xFEC00000 None ?v = (Inr (), v)" "heap_init (heap_state_new (\<lambda>_. poison_header) (\<lambda>_. 0) v) = (Inr (), h)"
    and c: "if even (vmm_mem (hp_vmm h) 0 0)
        then \<exists>k' a b X. initialize_vmm_and_heap sample_code (\<lambda>_. poison_header) (\<lambda>_. 0) test_map 0xFEE00000 0xFEC00000 None (booted_kernel ?v) = Some (Inr k')
          \<and> test_kernel {root_page a, root_page b, pool_base ?v} X [b, a] 0 0 (pool_base ?v) k' \<and> next_pid k' = 6 \<and> next_thread_id k' = 9
        else initialize_vmm_and_heap sample_code (\<lambda>_. poison_header) (\<lambda>_. 0) test_map 0xFEE00000 0xFEC00000 None (booted_kernel ?v)
          = Some (Inl ''Virtual address 0 (NULL page) is mapped!'')"
    unfolding k by blast
  then show ?thesis by (intro exI [of _ v] exI [of _ h]) (auto split: if_splits)
qed

end
