(* ===== verification/Platform.thy ===== *)
theory Platform
  imports Prelude
begin

text \<open>
  Access to the processor and its devices (\<^verbatim>\<open>src/src/platform.rs\<close>): ports, model-specific registers, control
  registers, the interrupt flag and the halt instruction.

  The devices are not part of the kernel, so they are a parameter: a \<open>hardware\<close> answers every read, and its
  answer may depend on all that has happened before.  What the kernel did is a list of events, oldest first.
  Operations are functions on the state record and on every record that extends it.
\<close>

subsection \<open>Events and devices\<close>

datatype io_event =
  InB u16 u8 | OutB u16 u8
| InW u16 u16 | OutW u16 u16
| InL u16 u32 | OutL u16 u32
| RdMsr u32 u32 u32 | WrMsr u32 u32 u32
| ReadCr3 u64 | WriteCr3 u64 | ReadCr2 u64 | Invlpg u64
| MmioRead u64 u32 | MmioWrite u64 u32
| EfiReset u64
| EfiOutput u64 "u16 list"
| Hlt

text \<open>\<^verbatim>\<open>rdmsr\<close> answers with the pair \<open>(eax, edx)\<close>; memory-mapped device registers are 32 bits wide.\<close>

record hardware =
  hw_inb :: "io_event list \<Rightarrow> u16 \<Rightarrow> u8"
  hw_inw :: "io_event list \<Rightarrow> u16 \<Rightarrow> u16"
  hw_inl :: "io_event list \<Rightarrow> u16 \<Rightarrow> u32"
  hw_rdmsr :: "io_event list \<Rightarrow> u32 \<Rightarrow> u32 \<times> u32"
  hw_mmio :: "io_event list \<Rightarrow> u64 \<Rightarrow> u32"
  hw_cr2 :: "io_event list \<Rightarrow> u64"
  hw_cr3 :: "io_event list \<Rightarrow> u64"

record platform =
  events :: "io_event list"
  rflags :: u64

definition emit :: "io_event \<Rightarrow> 'a platform_scheme \<Rightarrow> 'a platform_scheme" where
  "emit e s = s\<lparr>events := events s @ [e]\<rparr>"

subsection \<open>Ports\<close>

definition COM1_PORT :: u16 where
  "COM1_PORT = 0x3F8"

definition COM2_PORT :: u16 where
  "COM2_PORT = 0x2F8"

definition inb :: "hardware \<Rightarrow> u16 \<Rightarrow> 'a platform_scheme \<Rightarrow> u8 \<times> 'a platform_scheme" where
  "inb hw port s = (let v = hw_inb hw (events s) port in (v, emit (InB port v) s))"

definition outb :: "u16 \<Rightarrow> u8 \<Rightarrow> 'a platform_scheme \<Rightarrow> 'a platform_scheme" where
  "outb port v s = emit (OutB port v) s"

definition inw :: "hardware \<Rightarrow> u16 \<Rightarrow> 'a platform_scheme \<Rightarrow> u16 \<times> 'a platform_scheme" where
  "inw hw port s = (let v = hw_inw hw (events s) port in (v, emit (InW port v) s))"

definition outw :: "u16 \<Rightarrow> u16 \<Rightarrow> 'a platform_scheme \<Rightarrow> 'a platform_scheme" where
  "outw port v s = emit (OutW port v) s"

definition inl :: "hardware \<Rightarrow> u16 \<Rightarrow> 'a platform_scheme \<Rightarrow> u32 \<times> 'a platform_scheme" where
  "inl hw port s = (let v = hw_inl hw (events s) port in (v, emit (InL port v) s))"

definition outl :: "u16 \<Rightarrow> u32 \<Rightarrow> 'a platform_scheme \<Rightarrow> 'a platform_scheme" where
  "outl port v s = emit (OutL port v) s"

subsection \<open>Model-specific and control registers\<close>

definition IA32_APIC_BASE_MSR :: u32 where
  "IA32_APIC_BASE_MSR = 0x1B"

definition rdmsr :: "hardware \<Rightarrow> u32 \<Rightarrow> 'a platform_scheme \<Rightarrow> u64 \<times> 'a platform_scheme" where
  "rdmsr hw msr s =
     (let (low, high) = hw_rdmsr hw (events s) msr
      in (push_bit 32 (ucast high) OR ucast low, emit (RdMsr msr low high) s))"

definition wrmsr :: "u32 \<Rightarrow> u64 \<Rightarrow> 'a platform_scheme \<Rightarrow> 'a platform_scheme" where
  "wrmsr msr v s = (let low = ucast v; high = ucast (drop_bit 32 v) in emit (WrMsr msr low high) s)"

definition read_cr3 :: "hardware \<Rightarrow> 'a platform_scheme \<Rightarrow> u64 \<times> 'a platform_scheme" where
  "read_cr3 hw s = (let v = hw_cr3 hw (events s) in (v, emit (ReadCr3 v) s))"

definition write_cr3 :: "u64 \<Rightarrow> 'a platform_scheme \<Rightarrow> 'a platform_scheme" where
  "write_cr3 v s = emit (WriteCr3 v) s"

definition read_cr2 :: "hardware \<Rightarrow> 'a platform_scheme \<Rightarrow> u64 \<times> 'a platform_scheme" where
  "read_cr2 hw s = (let v = hw_cr2 hw (events s) in (v, emit (ReadCr2 v) s))"

definition invlpg :: "u64 \<Rightarrow> 'a platform_scheme \<Rightarrow> 'a platform_scheme" where
  "invlpg a s = emit (Invlpg a) s"

definition IA32_EFER :: u32 where
  "IA32_EFER = 0xC0000080"

definition NXE_BIT :: u64 where
  "NXE_BIT = push_bit 11 1"

definition enable_nxe :: "hardware \<Rightarrow> 'a platform_scheme \<Rightarrow> 'a platform_scheme" where
  "enable_nxe hw s =
     (let (current, s1) = rdmsr hw IA32_EFER s
      in if current AND NXE_BIT = 0 then wrmsr IA32_EFER (current OR NXE_BIT) s1 else s1)"

subsection \<open>Interrupt flag and halt\<close>

definition sti :: "'a platform_scheme \<Rightarrow> 'a platform_scheme" where
  "sti s = s\<lparr>rflags := rflags s OR push_bit 9 1\<rparr>"

definition cli :: "'a platform_scheme \<Rightarrow> 'a platform_scheme" where
  "cli s = s\<lparr>rflags := rflags s AND NOT (push_bit 9 1)\<rparr>"

definition are_interrupts_enabled :: "'a platform_scheme \<Rightarrow> bool" where
  "are_interrupts_enabled s \<longleftrightarrow> rflags s AND push_bit 9 1 \<noteq> 0"

definition without_interrupts ::
  "('a platform_scheme \<Rightarrow> 'r \<times> 'a platform_scheme) \<Rightarrow> 'a platform_scheme \<Rightarrow> 'r \<times> 'a platform_scheme" where
  "without_interrupts f s =
     (let enabled = are_interrupts_enabled s;
          s1 = (if enabled then cli s else s);
          (res, s2) = f s1
      in (res, if enabled then sti s2 else s2))"

definition hlt :: "'a platform_scheme \<Rightarrow> 'a platform_scheme" where
  "hlt s = emit Hlt s"

text \<open>\<^verbatim>\<open>halt\<close> has the type \<^verbatim>\<open>!\<close>: it loops for ever, which is the value \<^const>\<open>None\<close>.\<close>

partial_function (option) halt :: "'a platform_scheme \<Rightarrow> 'r option" where
  "halt s = halt (hlt s)"

lemma halt_never_returns: "halt s = (None :: 'r option)"
proof (cases "halt s :: 'r option")
  case (Some r)
  then have False by (rule halt.raw_induct [of "\<lambda>_ _. False", rotated 1]) blast
  then show ?thesis ..
qed

subsection \<open>Frame facts\<close>

lemma emit_simps [simp]:
  "events (emit e s) = events s @ [e]" "rflags (emit e s) = rflags s"
  "emit e s = emit e' s \<longleftrightarrow> e = e'" "platform.more (emit e s) = platform.more s"
  by (auto simp: emit_def dest: arg_cong [where f = events])

text \<open>Operations that only talk to devices change nothing but the list of events.\<close>

definition only_events :: "'a platform_scheme \<Rightarrow> 'a platform_scheme \<Rightarrow> bool" where
  "only_events s s' \<longleftrightarrow> s' = s\<lparr>events := events s'\<rparr>"

lemma only_events_refl [simp]: "only_events s s"
  by (simp add: only_events_def)

lemma only_events_emit [simp]: "only_events s (emit e s)"
  by (simp add: only_events_def emit_def)

lemma only_events_trans [trans]: "only_events s t \<Longrightarrow> only_events t u \<Longrightarrow> only_events s u"
  unfolding only_events_def by (metis platform.surjective platform.update_convs(1))

lemma only_events_fold: "(\<And>x s. only_events s (f x s)) \<Longrightarrow> only_events s (fold f xs s)"
  by (induction xs arbitrary: s) (auto intro: only_events_trans)

lemma inb_simps [simp]:
  "fst (inb hw port s) = hw_inb hw (events s) port"
  "snd (inb hw port s) = emit (InB port (hw_inb hw (events s) port)) s"
  by (simp_all add: inb_def Let_def)

lemma wrmsr_value: "push_bit 32 (ucast (ucast (drop_bit 32 v) :: u32)) OR ucast (ucast v :: u32) = v" for v :: u64
  by (rule bit_word_eqI) (auto simp: bit_or_iff bit_push_bit_iff bit_ucast_iff bit_drop_bit_eq)

lemma are_interrupts_enabled_bit: "are_interrupts_enabled s \<longleftrightarrow> bit (rflags s) 9"
  using and_exp_eq_0 [of 9 "rflags s"] by (simp add: are_interrupts_enabled_def)

lemma interrupt_flag_simps [simp]:
  "are_interrupts_enabled (sti s)" "\<not> are_interrupts_enabled (cli s)"
  "are_interrupts_enabled (emit e s) = are_interrupts_enabled s"
  "events (sti s) = events s" "events (cli s) = events s"
  unfolding are_interrupts_enabled_bit
  by (simp_all add: sti_def cli_def bit_simps bit_or_iff bit_and_iff bit_not_iff)

lemma exp_bit_absorb:
  fixes w :: u64
  shows "bit w k \<Longrightarrow> (w AND NOT (2 ^ k)) OR 2 ^ k = w" and "bit w k \<Longrightarrow> w OR 2 ^ k = w"
    and "\<not> bit w k \<Longrightarrow> w AND NOT (2 ^ k) = w"
  by (rule bit_word_eqI, auto simp: bit_or_exp bit_andnot_exp)+

lemma cli_then_sti: "are_interrupts_enabled s \<Longrightarrow> sti (cli s) = s"
  using exp_bit_absorb(1) [of "rflags s" 9] by (simp add: are_interrupts_enabled_bit sti_def cli_def)

lemma cli_idem: "\<not> are_interrupts_enabled s \<Longrightarrow> cli s = s"
  using exp_bit_absorb(3) [of "rflags s" 9] by (simp add: are_interrupts_enabled_bit cli_def)

text \<open>A critical section sees the flag clear and leaves it as it found it, and nested sections are one section.\<close>

definition keeps_masked :: "('a platform_scheme \<Rightarrow> 'r \<times> 'a platform_scheme) \<Rightarrow> bool" where
  "keeps_masked f \<longleftrightarrow> (\<forall>s. \<not> are_interrupts_enabled s \<longrightarrow> \<not> are_interrupts_enabled (snd (f s)))"

lemma without_interrupts_masked:
  "\<not> are_interrupts_enabled s \<Longrightarrow> without_interrupts f s = f s"
  by (simp add: without_interrupts_def Let_def)

lemma without_interrupts_nested:
  "without_interrupts (without_interrupts f) s = without_interrupts f s"
proof (cases "are_interrupts_enabled s")
  case True
  then show ?thesis
    using without_interrupts_masked [of "cli s" f]
    by (simp add: without_interrupts_def [of "without_interrupts f"]) (simp add: without_interrupts_def [of f s] Let_def)
qed (simp add: without_interrupts_masked)

lemma without_interrupts_restores:
  assumes "keeps_masked f"
  shows "are_interrupts_enabled (snd (without_interrupts f s)) = are_interrupts_enabled s"
  using assms by (cases "are_interrupts_enabled s") (auto simp: without_interrupts_def keeps_masked_def Let_def split: prod.split)

text \<open>After \<open>enable_nxe\<close> the register holds its old value with the bit set, whether or not a write was needed.\<close>

definition msr_value :: "u32 \<Rightarrow> u64 \<Rightarrow> io_event list \<Rightarrow> u64" where
  "msr_value msr v es =
     fold (\<lambda>e v. case e of WrMsr m low high \<Rightarrow> if m = msr then push_bit 32 (ucast high) OR ucast low else v | _ \<Rightarrow> v) es v"

lemma enable_nxe_sets_bit:
  assumes "fst (rdmsr hw IA32_EFER s) = msr_value IA32_EFER v (events s)"
  shows "msr_value IA32_EFER v (events (enable_nxe hw s)) = msr_value IA32_EFER v (events s) OR NXE_BIT"
proof -
  obtain cur s1 where r: "rdmsr hw IA32_EFER s = (cur, s1)" by (cases "rdmsr hw IA32_EFER s")
  have c: "cur = msr_value IA32_EFER v (events s)" using assms r by simp
  obtain low high where e: "events s1 = events s @ [RdMsr IA32_EFER low high]"
    using r by (auto simp: rdmsr_def Let_def split: prod.splits)
  have snoc: "msr_value IA32_EFER v (es @ [e]) = (case e of WrMsr m low high \<Rightarrow>
      if m = IA32_EFER then push_bit 32 (ucast high) OR ucast low else msr_value IA32_EFER v es | _ \<Rightarrow> msr_value IA32_EFER v es)" for es e
    by (cases e) (simp_all add: msr_value_def)
  show ?thesis
  proof (cases "cur AND NXE_BIT = 0")
    case True
    then have "events (enable_nxe hw s) =
        (events s @ [RdMsr IA32_EFER low high]) @ [WrMsr IA32_EFER (ucast (cur OR NXE_BIT)) (ucast (drop_bit 32 (cur OR NXE_BIT)))]"
      using r e by (simp add: enable_nxe_def wrmsr_def Let_def)
    then show ?thesis using wrmsr_value [of "cur OR NXE_BIT"] c by (simp only: snoc io_event.case if_True simp_thms)
  next
    case False
    then have "bit cur 11" using and_exp_eq_0 [of 11 cur] by (simp add: NXE_BIT_def)
    then have "cur OR NXE_BIT = cur" using exp_bit_absorb(2) [of cur 11] by (simp add: NXE_BIT_def)
    then show ?thesis using False r c e by (simp add: enable_nxe_def snoc)
  qed
qed

end
