(* ===== verification/Logger.thy ===== *)
theory Logger
  imports Platform Console
begin

text \<open>
  The kernel log (\<^verbatim>\<open>src/src/logger.rs\<close>) and the panic handler (\<^verbatim>\<open>src/src/panic.rs\<close>): every message goes to the
  serial port, to the framebuffer console once that is active, and to the firmware's console until boot
  services end.

  A \<^verbatim>\<open>str\<close> is the list of its code points; \<^verbatim>\<open>bytes\<close> is its UTF-8 encoding.  \<^verbatim>\<open>fmt::write\<close> hands the text to the
  writer in pieces whose boundaries Rust does not specify, so a message is a list of pieces, and the properties
  below hold for every division.
\<close>

subsection \<open>Strings\<close>

type_synonym str = "u32 list"

definition lit :: "string \<Rightarrow> str" where
  "lit s = map of_char s"

definition utf8 :: "u32 \<Rightarrow> u8 list" where
  "utf8 c =
     (if c < 0x80 then [ucast c]
      else if c < 0x800 then [0xC0 OR ucast (drop_bit 6 c), 0x80 OR (ucast c AND 0x3F)]
      else if c < 0x10000 then [0xE0 OR ucast (drop_bit 12 c), 0x80 OR (ucast (drop_bit 6 c) AND 0x3F), 0x80 OR (ucast c AND 0x3F)]
      else [0xF0 OR ucast (drop_bit 18 c), 0x80 OR (ucast (drop_bit 12 c) AND 0x3F), 0x80 OR (ucast (drop_bit 6 c) AND 0x3F),
            0x80 OR (ucast c AND 0x3F)])"

definition str_bytes :: "str \<Rightarrow> u8 list" where
  "str_bytes s = concat (map utf8 s)"

text \<open>The integer formats the kernel uses: \<^verbatim>\<open>{}\<close> and \<^verbatim>\<open>{:#0wx}\<close>, where the width counts the prefix.\<close>

definition digit :: "nat \<Rightarrow> u32" where
  "digit d = (if d < 10 then 0x30 + of_nat d else 0x57 + of_nat d)"

fun digits :: "nat \<Rightarrow> nat \<Rightarrow> str" where
  "digits base n = (if base < 2 \<or> n < base then [digit n] else digits base (n div base) @ [digit (n mod base)])"

definition fmt_dec :: "nat \<Rightarrow> str" where
  "fmt_dec n = digits 10 n"

definition fmt_hex :: "nat \<Rightarrow> nat \<Rightarrow> str" where
  "fmt_hex w n = lit ''0x'' @ replicate (w - 2 - length (digits 16 n)) 0x30 @ digits 16 n"

subsection \<open>State and set-up\<close>

record board = platform +
  con_out :: u64
  uefi_console_active :: bool
  screen :: console

definition logger_init :: "u64 \<Rightarrow> 'a board_scheme \<Rightarrow> 'a board_scheme" where
  "logger_init out s =
     outb (COM1_PORT + 4) 0x0B
      (outb (COM1_PORT + 2) 0xC7
        (outb (COM1_PORT + 3) 0x03
          (outb (COM1_PORT + 1) 0x00
            (outb (COM1_PORT + 0) 0x03
              (outb (COM1_PORT + 3) 0x80
                (outb (COM1_PORT + 1) 0x00 (s\<lparr>con_out := out\<rparr>)))))))"

definition disable_uefi_console :: "'a board_scheme \<Rightarrow> 'a board_scheme" where
  "disable_uefi_console s = s\<lparr>uefi_console_active := False\<rparr>"

subsection \<open>Output\<close>

fun serial_wait :: "hardware \<Rightarrow> nat \<Rightarrow> 'a platform_scheme \<Rightarrow> 'a platform_scheme" where
  "serial_wait hw timeout s =
     (let (v, s1) = inb hw (COM1_PORT + 5) s
      in if v AND 0x20 = 0 \<and> timeout > 0 then serial_wait hw (timeout - 1) s1 else s1)"

declare serial_wait.simps [simp del]

definition write_serial_byte :: "hardware \<Rightarrow> u8 \<Rightarrow> 'a platform_scheme \<Rightarrow> 'a platform_scheme" where
  "write_serial_byte hw byte s = outb COM1_PORT byte (serial_wait hw 10000 s)"

definition write_serial :: "hardware \<Rightarrow> u8 list \<Rightarrow> 'a platform_scheme \<Rightarrow> 'a platform_scheme" where
  "write_serial hw =
     fold (\<lambda>byte s. write_serial_byte hw byte (if byte = 0x0A then write_serial_byte hw 0x0D s else s))"

text \<open>\<^verbatim>\<open>ch as u16\<close> keeps the low 16 bits of the code point.\<close>

definition write_firmware :: "u64 \<Rightarrow> str \<Rightarrow> 'a platform_scheme \<Rightarrow> 'a platform_scheme" where
  "write_firmware out =
     fold (\<lambda>ch s. emit (EfiOutput out [ucast ch, 0]) (if ch = 0x0A then emit (EfiOutput out [0x0D, 0]) s else s))"

definition write_screen :: "u8 list \<Rightarrow> 'a board_scheme \<Rightarrow> unit \<times> 'a board_scheme" where
  "write_screen bs s = ((), s\<lparr>screen := fold console_write_byte bs (screen s)\<rparr>)"

definition write_str_raw :: "hardware \<Rightarrow> str \<Rightarrow> 'a board_scheme \<Rightarrow> 'a board_scheme" where
  "write_str_raw hw t s =
     (let s1 = write_serial hw (str_bytes t) s;
          s2 = (if con_active (screen s1) then snd (without_interrupts (write_screen (str_bytes t)) s1) else s1)
      in if uefi_console_active s2 \<and> con_out s2 \<noteq> 0 then write_firmware (con_out s2) t s2 else s2)"

definition klog :: "hardware \<Rightarrow> str list \<Rightarrow> 'a board_scheme \<Rightarrow> 'a board_scheme" where
  "klog hw pieces s = write_str_raw hw (lit [CHR 0x0D, CHR 0x0A]) (fold (write_str_raw hw) pieces s)"

text \<open>The panic handler, up to the final \<^const>\<open>halt\<close>: the pieces of the message and, where known, the file and line of
  the location.\<close>

definition CRLF :: str where
  "CRLF = lit [CHR 0x0D, CHR 0x0A]"

definition panic_report :: "hardware \<Rightarrow> str list \<Rightarrow> (str \<times> u32) option \<Rightarrow> 'a board_scheme \<Rightarrow> 'a board_scheme" where
  "panic_report hw message location s =
     (let s1 = write_str_raw hw (CRLF @ lit ''[KERNEL PANIC]'' @ CRLF) (cli s);
          s2 = write_str_raw hw (lit ''  message  : '') s1;
          s3 = write_str_raw hw CRLF (fold (write_str_raw hw) message s2);
          s4 = (case location of
                  None \<Rightarrow> s3
                | Some (file, line) \<Rightarrow>
                    fold (write_str_raw hw) [lit '':'', fmt_dec (unat line), CRLF]
                      (write_str_raw hw file (write_str_raw hw (lit ''  location : '') s3)))
      in write_str_raw hw CRLF s4)"

definition panic :: "hardware \<Rightarrow> str list \<Rightarrow> (str \<times> u32) option \<Rightarrow> 'a board_scheme \<Rightarrow> 'r option" where
  "panic hw message location s = halt (panic_report hw message location s)"

subsection \<open>What the log leaves behind\<close>

text \<open>The three transcripts: bytes sent to the serial port, units handed to the firmware's console, pixels on the screen.\<close>

definition serial_out :: "io_event list \<Rightarrow> u8 list" where
  "serial_out es = concat (map (\<lambda>e. case e of OutB port b \<Rightarrow> if port = COM1_PORT then [b] else [] | _ \<Rightarrow> []) es)"

definition firmware_out :: "io_event list \<Rightarrow> u16 list" where
  "firmware_out es = concat (map (\<lambda>e. case e of EfiOutput out us \<Rightarrow> takeWhile (\<lambda>u. u \<noteq> 0) us | _ \<Rightarrow> []) es)"

definition with_cr :: "'b \<Rightarrow> 'b \<Rightarrow> 'b list \<Rightarrow> 'b list" where
  "with_cr lf cr bs = concat (map (\<lambda>b. if b = lf then [cr, b] else [b]) bs)"

fun log_event :: "io_event \<Rightarrow> bool" where
  "log_event (InB port v) = (port = COM1_PORT + 5)"
| "log_event (OutB port v) = (port = COM1_PORT)"
| "log_event (EfiOutput out us) = True"
| "log_event _ = False"

definition firmware_listens :: "'a board_scheme \<Rightarrow> bool" where
  "firmware_listens s \<longleftrightarrow> uefi_console_active s \<and> con_out s \<noteq> 0"

definition shown :: "str \<Rightarrow> console \<Rightarrow> console" where
  "shown t sc = (if con_active sc then fold console_write_byte (str_bytes t) sc else sc)"

text \<open>A state \<open>s'\<close> that differs from \<open>s\<close> by the output of the text \<open>t\<close> and by nothing else.  A code point that is zero
  modulo \<open>2 ^ 16\<close> ends the firmware's string, as the zero unit does.\<close>

definition logged :: "str \<Rightarrow> 'a board_scheme \<Rightarrow> 'a board_scheme \<Rightarrow> bool" where
  "logged t s s' \<longleftrightarrow> (\<exists>es. s' = s\<lparr>events := events s @ es, screen := shown t (screen s)\<rparr>
     \<and> list_all log_event es \<and> serial_out es = with_cr 0x0A 0x0D (str_bytes t)
     \<and> firmware_out es = (if firmware_listens s then filter (\<lambda>u. u \<noteq> 0) (map ucast (with_cr 0x0A 0x0D t)) else []))"

lemma transcript_append [simp]:
  "serial_out (es @ fs) = serial_out es @ serial_out fs" "firmware_out (es @ fs) = firmware_out es @ firmware_out fs"
  "serial_out [] = []" "firmware_out [] = []"
  by (simp_all add: serial_out_def firmware_out_def)

lemma transcript_one [simp]:
  "serial_out [InB port v] = []" "serial_out [OutB port b] = (if port = COM1_PORT then [b] else [])" "serial_out [EfiOutput out us] = []"
  "firmware_out [InB port v] = []" "firmware_out [OutB port b] = []" "firmware_out [EfiOutput out us] = takeWhile (\<lambda>u. u \<noteq> 0) us"
  by (simp_all add: serial_out_def firmware_out_def)

lemma with_cr_simps [simp]:
  "with_cr lf cr [] = []" "with_cr lf cr (b # bs) = (if b = lf then [cr, b] else [b]) @ with_cr lf cr bs"
  "with_cr lf cr (bs @ cs) = with_cr lf cr bs @ with_cr lf cr cs"
  by (simp_all add: with_cr_def)

lemma str_bytes_append [simp]: "str_bytes [] = []" "str_bytes (t @ u) = str_bytes t @ str_bytes u"
  by (simp_all add: str_bytes_def)

text \<open>Polling ends after at most 10001 reads, whatever the line status says.\<close>

lemma serial_wait_effect:
  "\<exists>es. serial_wait hw n s = s\<lparr>events := events s @ es\<rparr> \<and> list_all log_event es \<and> serial_out es = [] \<and> firmware_out es = []
     \<and> length es \<le> n + 1"
proof (induction hw n s rule: serial_wait.induct)
  case (1 hw n s)
  let ?v = "hw_inb hw (events s) (COM1_PORT + 5)" 
  let ?s = "emit (InB (COM1_PORT + 5) ?v) s"
  have step: "serial_wait hw n s = (if ?v AND 0x20 = 0 \<and> n > 0 then serial_wait hw (n - 1) ?s else ?s)"
    unfolding serial_wait.simps [of hw n s] by (simp add: inb_def Let_def)
  show ?case
  proof (cases "?v AND 0x20 = 0 \<and> n > 0")
    case True
    with "1.IH" [of "(?v, ?s)" ?v ?s] obtain es where es: "serial_wait hw (n - 1) ?s = ?s\<lparr>events := events ?s @ es\<rparr>" "list_all log_event es"
      "serial_out es = []" "firmware_out es = []" "length es \<le> n - 1 + 1" by (auto simp: inb_def Let_def)
    show ?thesis
      by (rule exI [of _ "InB (COM1_PORT + 5) ?v # es"])
        (use True es step in \<open>auto simp: emit_def serial_out_def firmware_out_def\<close>)
  next
    case False
    then have "serial_wait hw n s = ?s" by (subst step) (rule if_not_P)
    then show ?thesis by (intro exI [of _ "[InB (COM1_PORT + 5) ?v]"]) (simp add: emit_def)
  qed
qed

lemma write_serial_byte_effect:
  "\<exists>es. write_serial_byte hw b s = s\<lparr>events := events s @ es\<rparr> \<and> list_all log_event es \<and> serial_out es = [b] \<and> firmware_out es = []
     \<and> length es \<le> 10002"
proof -
  obtain es where "serial_wait hw 10000 s = s\<lparr>events := events s @ es\<rparr>" "list_all log_event es" "serial_out es = []"
    "firmware_out es = []" "length es \<le> 10001" using serial_wait_effect [of hw 10000 s] by auto
  then show ?thesis
    by (intro exI [of _ "es @ [OutB COM1_PORT b]"]) (simp add: write_serial_byte_def outb_def emit_def)
qed

lemma write_serial_effect:
  "\<exists>es. write_serial hw bs s = s\<lparr>events := events s @ es\<rparr> \<and> list_all log_event es
     \<and> serial_out es = with_cr 0x0A 0x0D bs \<and> firmware_out es = [] \<and> length es \<le> 20004 * length bs"
proof (induction bs arbitrary: s)
  case Nil
  show ?case by (rule exI [of _ "[]"]) (simp add: write_serial_def)
next
  case (Cons b bs)
  let ?s = "if b = 0x0A then write_serial_byte hw 0x0D s else s"
  obtain e1 where e1: "?s = s\<lparr>events := events s @ e1\<rparr>" "list_all log_event e1" "serial_out e1 = (if b = 0x0A then [0x0D] else [])"
    "firmware_out e1 = []" "length e1 \<le> 10002"
  proof (cases "b = 0x0A")
    case True
    then show ?thesis using that write_serial_byte_effect [of hw "0x0D" s] by auto
  next
    case False
    then show ?thesis using that [of "[]"] by simp
  qed
  obtain e2 where e2: "write_serial_byte hw b ?s = ?s\<lparr>events := events ?s @ e2\<rparr>" "list_all log_event e2" "serial_out e2 = [b]"
    "firmware_out e2 = []" "length e2 \<le> 10002" using write_serial_byte_effect [of hw b ?s] by auto
  obtain e3 where e3: "write_serial hw bs (write_serial_byte hw b ?s) = (write_serial_byte hw b ?s)\<lparr>events := events (write_serial_byte hw b ?s) @ e3\<rparr>"
    "list_all log_event e3" "serial_out e3 = with_cr 0x0A 0x0D bs" "firmware_out e3 = []" "length e3 \<le> 20004 * length bs"
    using Cons.IH [of "write_serial_byte hw b ?s"] by auto
  have "write_serial hw (b # bs) s = write_serial hw bs (write_serial_byte hw b ?s)" by (simp add: write_serial_def)
  also have "\<dots> = s\<lparr>events := events s @ (e1 @ e2 @ e3)\<rparr>"
  proof -
    have "write_serial_byte hw b ?s = s\<lparr>events := events s @ e1 @ e2\<rparr>" unfolding e2(1) unfolding e1(1) by simp
    then show ?thesis using e3(1) by simp
  qed
  finally show ?case using e1(2-5) e2(2-5) e3(2-5) by (intro exI [of _ "e1 @ e2 @ e3"]) auto
qed

lemma write_firmware_effect:
  "\<exists>es. write_firmware out t s = s\<lparr>events := events s @ es\<rparr> \<and> list_all log_event es \<and> serial_out es = []
     \<and> firmware_out es = filter (\<lambda>u. u \<noteq> 0) (map ucast (with_cr 0x0A 0x0D t))"
proof (induction t arbitrary: s)
  case Nil
  show ?case by (rule exI [of _ "[]"]) (simp add: write_firmware_def)
next
  case (Cons ch t)
  define e1 where "e1 = (if ch = 0x0A then [EfiOutput out [0x0D, 0]] else []) @ [EfiOutput out [ucast ch, 0]]"
  let ?s = "s\<lparr>events := events s @ e1\<rparr>"
  obtain es where es: "write_firmware out t ?s = ?s\<lparr>events := events ?s @ es\<rparr>" "list_all log_event es" "serial_out es = []"
    "firmware_out es = filter (\<lambda>u. u \<noteq> 0) (map ucast (with_cr 0x0A 0x0D t))" using Cons.IH [of ?s] by auto
  have "write_firmware out (ch # t) s = write_firmware out t ?s" by (simp add: write_firmware_def e1_def emit_def)
  moreover have "firmware_out e1 = filter (\<lambda>u. u \<noteq> 0) (map ucast (if ch = 0x0A then [0x0D, ch] else [ch]))" "serial_out e1 = []" "list_all log_event e1"
    by (auto simp: e1_def)
  ultimately show ?case using es by (intro exI [of _ "e1 @ es"]) simp
qed

lemma screen_keeps_active: "con_active (fold console_write_byte bs sc) = con_active sc"
proof -
  have "con_active (console_write_byte b x) = con_active x" for b x
    by (auto simp: console_write_byte_def scroll_if_needed_def Let_def split: option.split)
  then show ?thesis by (induction bs arbitrary: sc) simp_all
qed

lemma logged_refl: "logged [] s s"
  unfolding logged_def by (rule exI [of _ "[]"]) (simp add: shown_def)

lemma logged_trans:
  assumes "logged t s s1" and "logged u s1 s2"
  shows "logged (t @ u) s s2"
proof -
  obtain es where es: "s1 = s\<lparr>events := events s @ es, screen := shown t (screen s)\<rparr>" "list_all log_event es"
    "serial_out es = with_cr 0x0A 0x0D (str_bytes t)"
    "firmware_out es = (if firmware_listens s then filter (\<lambda>u. u \<noteq> 0) (map ucast (with_cr 0x0A 0x0D t)) else [])"
    using assms(1) unfolding logged_def by blast
  obtain fs where fs: "s2 = s1\<lparr>events := events s1 @ fs, screen := shown u (screen s1)\<rparr>" "list_all log_event fs"
    "serial_out fs = with_cr 0x0A 0x0D (str_bytes u)"
    "firmware_out fs = (if firmware_listens s1 then filter (\<lambda>u. u \<noteq> 0) (map ucast (with_cr 0x0A 0x0D u)) else [])"
    using assms(2) unfolding logged_def by blast
  have l: "firmware_listens s1 = firmware_listens s" by (simp add: es(1) firmware_listens_def)
  have "shown u (shown t sc) = shown (t @ u) sc" for sc by (simp add: shown_def screen_keeps_active)
  then show ?thesis unfolding logged_def
    by (intro exI [of _ "es @ fs"]) (use es fs l in simp)
qed

text \<open>The screen is written with interrupts off, and the flag comes back as it was.\<close>

lemma write_screen_effect: "snd (without_interrupts (write_screen bs) s) = s\<lparr>screen := fold console_write_byte bs (screen s)\<rparr>"
proof (cases "are_interrupts_enabled s")
  case True
  have "sti (cli s\<lparr>screen := x\<rparr>) = (sti (cli s))\<lparr>screen := x\<rparr>" for x by (simp add: sti_def cli_def)
  moreover have "screen (cli s) = screen s" by (simp add: cli_def)
  ultimately show ?thesis using True cli_then_sti [OF True] by (simp add: without_interrupts_def write_screen_def Let_def)
qed (simp add: without_interrupts_masked write_screen_def)

lemma write_str_raw_logged: "logged t s (write_str_raw hw t s)"
proof -
  obtain es where es: "write_serial hw (str_bytes t) s = s\<lparr>events := events s @ es\<rparr>" "list_all log_event es"
    "serial_out es = with_cr 0x0A 0x0D (str_bytes t)" "firmware_out es = []"
    using write_serial_effect [of hw "str_bytes t" s] by blast
  let ?s = "s\<lparr>events := events s @ es, screen := shown t (screen s)\<rparr>"
  have w: "write_str_raw hw t s = (if firmware_listens s then write_firmware (con_out s) t ?s else ?s)"
    by (simp add: write_str_raw_def es(1) Let_def write_screen_effect firmware_listens_def shown_def)
  obtain fs where fs: "write_firmware (con_out s) t ?s = ?s\<lparr>events := events ?s @ fs\<rparr>" "list_all log_event fs" "serial_out fs = []"
    "firmware_out fs = filter (\<lambda>u. u \<noteq> 0) (map ucast (with_cr 0x0A 0x0D t))"
    using write_firmware_effect [of "con_out s" t ?s] by blast
  show ?thesis unfolding logged_def
    by (rule exI [of _ "es @ (if firmware_listens s then fs else [])"]) (use es fs w in simp)
qed

lemma write_pieces_logged: "logged (concat ps) s (fold (write_str_raw hw) ps s)"
proof (induction ps arbitrary: s)
  case (Cons p ps)
  then show ?case using logged_trans [OF write_str_raw_logged [of p s hw]] by simp
qed (simp add: logged_refl)

lemma klog_logged: "logged (concat ps @ CRLF) s (klog hw ps s)"
  using logged_trans [OF write_pieces_logged [of ps s hw] write_str_raw_logged] by (simp add: klog_def CRLF_def)

lemma loggedD:
  assumes "logged t s s'"
  shows "serial_out (events s') = serial_out (events s) @ with_cr 0x0A 0x0D (str_bytes t)"
    and "screen s' = shown t (screen s)" and "rflags s' = rflags s"
    and "firmware_out (events s') = firmware_out (events s) @
      (if firmware_listens s then filter (\<lambda>u. u \<noteq> 0) (map ucast (with_cr 0x0A 0x0D t)) else [])"
  using assms unfolding logged_def by auto

text \<open>A state after some output: the events of the log appended and the screen redrawn, every other part as before.\<close>

lemma loggedE:
  assumes "logged t s s'"
  obtains es sc where "s' = s\<lparr>events := events s @ es, screen := sc\<rparr>" "list_all log_event es"
  using assms unfolding logged_def by blast

lemma panic_report_logged:
  "logged (CRLF @ lit ''[KERNEL PANIC]'' @ CRLF @ lit ''  message  : '' @ concat message @ CRLF
     @ (case location of None \<Rightarrow> [] | Some (file, line) \<Rightarrow> lit ''  location : '' @ file @ lit '':'' @ fmt_dec (unat line) @ CRLF) @ CRLF)
   (cli s) (panic_report hw message location s)"
proof -
  define r1 where "r1 = write_str_raw hw (CRLF @ lit ''[KERNEL PANIC]'' @ CRLF) (cli s)"
  define r2 where "r2 = write_str_raw hw (lit ''  message  : '') r1"
  define r3 where "r3 = write_str_raw hw CRLF (fold (write_str_raw hw) message r2)"
  define loc where "loc = (case location of None \<Rightarrow> []
    | Some (file, line) \<Rightarrow> [lit ''  location : '', file, lit '':'', fmt_dec (unat line), CRLF])"
  have r: "panic_report hw message location s = write_str_raw hw CRLF (fold (write_str_raw hw) loc r3)"
    by (simp add: panic_report_def Let_def r1_def r2_def r3_def loc_def split: option.split)
  note w = write_str_raw_logged and t = logged_trans
  have "logged (((((CRLF @ lit ''[KERNEL PANIC]'' @ CRLF) @ lit ''  message  : '') @ concat message) @ CRLF) @ concat loc @ CRLF)
      (cli s) (panic_report hw message location s)"
    unfolding r r3_def r2_def r1_def
    by (rule t [OF t [OF t [OF t [OF w w] write_pieces_logged] w] t [OF write_pieces_logged w]])
  moreover have "concat loc = (case location of None \<Rightarrow> [] | Some (file, line) \<Rightarrow> lit ''  location : '' @ file @ lit '':'' @ fmt_dec (unat line) @ CRLF)"
    by (simp add: loc_def split: option.split)
  ultimately show ?thesis by simp
qed

subsection \<open>Properties\<close>

text \<open>C36. A kernel message reaches every output, whatever the devices answer and however the formatter divides the text:
  the serial port gets its UTF-8 bytes with a carriage return before every line feed, an active screen shows the
  bytes, a listening firmware console gets the code points, cut to 16 bits; the interrupt flag and the rest of the machine stay
  as they were.\<close>
theorem klog_reaches_every_output:
  fixes hw :: hardware and s :: "'a board_scheme" and pieces :: "str list"
  defines "s' \<equiv> klog hw pieces s" and "message \<equiv> concat pieces @ CRLF"
  shows "serial_out (events s') = serial_out (events s) @ with_cr 0x0A 0x0D (str_bytes message)
    \<and> screen s' = (if con_active (screen s) then fold console_write_byte (str_bytes message) (screen s) else screen s)
    \<and> firmware_out (events s') = firmware_out (events s) @
        (if uefi_console_active s \<and> con_out s \<noteq> 0 then filter (\<lambda>u. u \<noteq> 0) (map ucast (with_cr 0x0A 0x0D message)) else [])
    \<and> s' = s\<lparr>events := events s', screen := screen s'\<rparr>"
proof -
  have l: "logged message s s'" unfolding s'_def message_def by (rule klog_logged)
  obtain es sc where e: "s' = s\<lparr>events := events s @ es, screen := sc\<rparr>" using loggedE [OF l] by blast
  then have "events s' = events s @ es" "screen s' = sc" by simp_all
  then show ?thesis using loggedD [OF l] e by (simp only: firmware_listens_def shown_def)
qed

text \<open>The line end of a message already holds the carriage return, so the serial port receives two of them.\<close>

lemma klog_doubles_carriage_return: "with_cr 0x0A 0x0D (str_bytes CRLF) = [0x0D, 0x0D, 0x0A]"
  by (simp add: CRLF_def lit_def str_bytes_def utf8_def)

text \<open>A panic prints its banner, the message and the location to the serial port with interrupts off, and never returns.\<close>
theorem panic_reports_and_halts:
  "panic hw message location s = None
   \<and> \<not> are_interrupts_enabled (panic_report hw message location s)
   \<and> serial_out (events (panic_report hw message location s)) = serial_out (events s) @ with_cr 0x0A 0x0D (str_bytes
       (CRLF @ lit ''[KERNEL PANIC]'' @ CRLF @ lit ''  message  : '' @ concat message @ CRLF
        @ (case location of None \<Rightarrow> [] | Some (file, line) \<Rightarrow> lit ''  location : '' @ file @ lit '':'' @ fmt_dec (unat line) @ CRLF) @ CRLF))"
proof -
  note l = panic_report_logged [of message location s hw]
  have "\<not> are_interrupts_enabled (panic_report hw message location s)"
    using loggedD(3) [OF l] interrupt_flag_simps(2) [of s] by (simp only: are_interrupts_enabled_def simp_thms)
  then show ?thesis using loggedD(1) [OF l] by (simp add: panic_def halt_never_returns)
qed

end
