(* ===== verification/Gdt.thy ===== *)
theory Gdt
  imports Logger
begin

text \<open>
  Segment descriptors and the task state segment (\<^verbatim>\<open>src/src/gdt.rs\<close>).  \<open>gdt_init\<close> builds the table, loads it and
  reloads the segment registers; the checks the processor makes when a selector is loaded are written out, and a
  failed check (a general-protection fault) is \<^const>\<open>None\<close>.
\<close>

subsection \<open>Tables\<close>

definition KERNEL_CODE_SELECTOR :: u16 where
  "KERNEL_CODE_SELECTOR = 0x08"

definition KERNEL_DATA_SELECTOR :: u16 where
  "KERNEL_DATA_SELECTOR = 0x10"

definition USER_DATA_SELECTOR :: u16 where
  "USER_DATA_SELECTOR = 0x18 OR 3"

definition USER_CODE_SELECTOR :: u16 where
  "USER_CODE_SELECTOR = 0x20 OR 3"

definition TSS_SELECTOR :: u16 where
  "TSS_SELECTOR = 0x28"

lemmas selectors = KERNEL_CODE_SELECTOR_def KERNEL_DATA_SELECTOR_def USER_DATA_SELECTOR_def USER_CODE_SELECTOR_def TSS_SELECTOR_def

record task_state_segment =
  tss_reserved0 :: u32
  rsp0 :: u64
  rsp1 :: u64
  rsp2 :: u64
  tss_reserved1 :: u64
  tss_ist :: "u64 list"
  tss_reserved2 :: u64
  tss_reserved3 :: u16
  iomap_base :: u16

text \<open>The structure is packed: \<open>4 + 3 * 8 + 8 + 7 * 8 + 8 + 2 + 2\<close> bytes.\<close>

definition TSS_SIZE :: nat where
  "TSS_SIZE = 4 + 3 * 8 + 8 + 7 * 8 + 8 + 2 + 2"

definition tss_new :: task_state_segment where
  "tss_new = \<lparr>tss_reserved0 = 0, rsp0 = 0, rsp1 = 0, rsp2 = 0, tss_reserved1 = 0, tss_ist = replicate 7 0,
     tss_reserved2 = 0, tss_reserved3 = 0, iomap_base = of_nat TSS_SIZE\<rparr>"

record descriptor_table_pointer =
  dt_limit :: u16
  dt_base :: u64

definition gdt_new :: "u64 list" where
  "gdt_new = [0, 0x00AF9A000000FFFF, 0x00CF92000000FFFF, 0x00CFF2000000FFFF, 0x00AFFA000000FFFF, 0, 0]"

definition set_tss :: "u64 \<Rightarrow> u64 list \<Rightarrow> u64 list" where
  "set_tss base entries =
     (let limit = of_nat (TSS_SIZE - 1);
          low = (limit AND 0xFFFF)
             OR push_bit 16 (base AND 0x00FFFFFF)
             OR push_bit 40 0x89
             OR push_bit 48 (drop_bit 16 limit AND 0x0F)
             OR push_bit 56 (drop_bit 24 base AND 0xFF);
          high = drop_bit 32 base
      in entries[5 := low, 6 := high])"

text \<open>The table has seven entries and is aligned to 16 bytes, so its size is 64: the limit also covers eight bytes of padding.\<close>

definition gdt_pointer :: "u64 \<Rightarrow> descriptor_table_pointer" where
  "gdt_pointer addr = \<lparr>dt_limit = 64 - 1, dt_base = addr\<rparr>"

subsection \<open>Fields of a descriptor\<close>

definition seg_base :: "u64 \<Rightarrow> u64" where
  "seg_base d = (drop_bit 16 d AND 0xFFFFFF) OR push_bit 24 (drop_bit 56 d)"

definition seg_limit :: "u64 \<Rightarrow> u64" where
  "seg_limit d = (d AND 0xFFFF) OR push_bit 16 (drop_bit 48 d AND 0xF)"

definition seg_type :: "u64 \<Rightarrow> u64" where
  "seg_type d = drop_bit 40 d AND 0xF"

definition seg_dpl :: "u64 \<Rightarrow> u64" where
  "seg_dpl d = drop_bit 45 d AND 3"

definition system_base :: "u64 \<Rightarrow> u64 \<Rightarrow> u64" where
  "system_base low high = seg_base low OR push_bit 32 (high AND 0xFFFFFFFF)"

text \<open>The bits S (code or data), P (present), L (64-bit code), D and, in the type, executable, writable and accessed.\<close>

definition code_or_data :: "u64 \<Rightarrow> bool" where
  "code_or_data d = bit d 44"

definition present :: "u64 \<Rightarrow> bool" where
  "present d = bit d 47"

definition loadable_data :: "u64 \<Rightarrow> u64 \<Rightarrow> u64 \<Rightarrow> bool" where
  "loadable_data cpl rpl d \<longleftrightarrow> present d \<and> code_or_data d \<and> (\<not> bit d 43 \<or> bit d 41) \<and> max cpl rpl \<le> seg_dpl d"

definition loadable_stack :: "u64 \<Rightarrow> u64 \<Rightarrow> u64 \<Rightarrow> bool" where
  "loadable_stack cpl rpl d \<longleftrightarrow> present d \<and> code_or_data d \<and> \<not> bit d 43 \<and> bit d 41 \<and> rpl = cpl \<and> seg_dpl d = cpl"

definition loadable_code64 :: "u64 \<Rightarrow> u64 \<Rightarrow> u64 \<Rightarrow> bool" where
  "loadable_code64 cpl rpl d \<longleftrightarrow> present d \<and> code_or_data d \<and> bit d 43 \<and> \<not> bit d 42 \<and> bit d 53 \<and> \<not> bit d 54
     \<and> rpl = cpl \<and> seg_dpl d = cpl"

definition loadable_tss :: "u64 \<Rightarrow> bool" where
  "loadable_tss d \<longleftrightarrow> present d \<and> \<not> code_or_data d \<and> seg_type d = 9"

subsection \<open>The processor's table registers\<close>

record segments = board +
  gdt_entries :: "u64 list"
  tss_static :: task_state_segment
  gdtr :: descriptor_table_pointer
  seg_cs :: u16
  seg_ds :: u16
  seg_es :: u16
  seg_ss :: u16
  task_register :: u16

definition cpl :: "'a segments_scheme \<Rightarrow> u64" where
  "cpl s = ucast (seg_cs s AND 3)"

definition rpl :: "u16 \<Rightarrow> u64" where
  "rpl sel = ucast (sel AND 3)"

definition sel_index :: "u16 \<Rightarrow> nat" where
  "sel_index sel = unat (drop_bit 3 sel)"

definition lgdt :: "descriptor_table_pointer \<Rightarrow> 'a segments_scheme \<Rightarrow> 'a segments_scheme" where
  "lgdt p s = s\<lparr>gdtr := p\<rparr>"

text \<open>Loading a selector: all \<open>len\<close> bytes of the descriptor must lie within the limit, the descriptor must suit the use, and the processor marks
  the descriptor accessed (bit 40), or the task busy (bit 41).  A task descriptor has 16 bytes, the others 8.\<close>

definition load_selector :: "nat \<Rightarrow> u16 \<Rightarrow> (u64 \<Rightarrow> bool) \<Rightarrow> nat \<Rightarrow> 'a segments_scheme \<Rightarrow> 'a segments_scheme option" where
  "load_selector len sel ok mark s =
     (let i = sel_index sel in
      if 8 * i + len \<le> unat (dt_limit (gdtr s)) + 1 \<and> i < length (gdt_entries s) \<and> ok (gdt_entries s ! i)
      then Some (s\<lparr>gdt_entries := (gdt_entries s)[i := gdt_entries s ! i OR push_bit mark 1]\<rparr>) else None)"

definition mov_ds :: "u16 \<Rightarrow> 'a segments_scheme \<Rightarrow> 'a segments_scheme option" where
  "mov_ds sel s = map_option (\<lambda>s. s\<lparr>seg_ds := sel\<rparr>) (load_selector 8 sel (loadable_data (cpl s) (rpl sel)) 40 s)"

definition mov_es :: "u16 \<Rightarrow> 'a segments_scheme \<Rightarrow> 'a segments_scheme option" where
  "mov_es sel s = map_option (\<lambda>s. s\<lparr>seg_es := sel\<rparr>) (load_selector 8 sel (loadable_data (cpl s) (rpl sel)) 40 s)"

definition mov_ss :: "u16 \<Rightarrow> 'a segments_scheme \<Rightarrow> 'a segments_scheme option" where
  "mov_ss sel s = map_option (\<lambda>s. s\<lparr>seg_ss := sel\<rparr>) (load_selector 8 sel (loadable_stack (cpl s) (rpl sel)) 40 s)"

text \<open>\<^verbatim>\<open>push sel; push label; retfq\<close>: a far return to the next instruction.\<close>

definition retfq :: "u16 \<Rightarrow> 'a segments_scheme \<Rightarrow> 'a segments_scheme option" where
  "retfq sel s = map_option (\<lambda>s. s\<lparr>seg_cs := sel\<rparr>) (load_selector 8 sel (loadable_code64 (cpl s) (rpl sel)) 40 s)"

definition ltr :: "u16 \<Rightarrow> 'a segments_scheme \<Rightarrow> 'a segments_scheme option" where
  "ltr sel s = map_option (\<lambda>s. s\<lparr>task_register := sel\<rparr>) (load_selector 16 sel loadable_tss 41 s)"

text \<open>\<open>gdt_addr\<close> and \<open>tss_addr\<close> are the addresses of the two statics.\<close>

definition gdt_init :: "u64 \<Rightarrow> u64 \<Rightarrow> 'a segments_scheme \<Rightarrow> 'a segments_scheme option" where
  "gdt_init gdt_addr tss_addr s =
     (let s1 = s\<lparr>gdt_entries := set_tss tss_addr (gdt_entries s)\<rparr>;
          s2 = lgdt (gdt_pointer gdt_addr) s1
      in Option.bind (mov_ds KERNEL_DATA_SELECTOR s2)
          (\<lambda>s. Option.bind (mov_es KERNEL_DATA_SELECTOR s)
            (\<lambda>s. Option.bind (mov_ss KERNEL_DATA_SELECTOR s)
              (\<lambda>s. Option.bind (retfq KERNEL_CODE_SELECTOR s) (ltr TSS_SELECTOR)))))"

subsection \<open>The TSS descriptor\<close>

definition tss_low :: "u64 \<Rightarrow> u64" where
  "tss_low base = 103 OR push_bit 16 (take_bit 24 base) OR 0x890000000000 OR push_bit 56 (take_bit 8 (drop_bit 24 base))"

lemma mask_numerals:
  "w AND 0xFFFFFF = take_bit 24 w" "w AND 0xFF = take_bit 8 w" "w AND 0xFFFFFFFF = take_bit 32 w"
  "w AND 0xFFFF = take_bit 16 w" "w AND 0xF = take_bit 4 w" "w AND 3 = take_bit 2 w" for w :: "'a::len word"
  by (simp_all add: take_bit_eq_mask mask_eq_exp_minus_1)

lemma set_tss_entries: "set_tss base es = es[5 := tss_low base, 6 := drop_bit 32 base]"
  by (simp add: set_tss_def tss_low_def TSS_SIZE_def mask_numerals Let_def or.assoc)

lemma bit_limit_word: "bit (103 :: u64) n \<Longrightarrow> n < 7"
proof -
  assume b: "bit (103 :: u64) n"
  have e: "take_bit 7 (103 :: u64) = 103" by simp
  have "bit (take_bit 7 (103 :: u64)) n" using b by (simp only: e)
  then show ?thesis by (rule bit_take_bit_iff [THEN iffD1, THEN conjunct1])
qed

lemma bit_access_word: "bit (0x890000000000 :: u64) n \<Longrightarrow> 40 \<le> n \<and> n < 48"
proof -
  assume b: "bit (0x890000000000 :: u64) n"
  define k :: u64 where "k = 0x89"
  have e: "push_bit 40 (take_bit 8 k) = 0x890000000000" by (simp add: k_def)
  have "bit (push_bit 40 (take_bit 8 k)) n" using b by (simp only: e)
  then show ?thesis by (auto simp: bit_push_bit_iff bit_take_bit_iff)
qed

lemma bit_tss_low:
  "bit (tss_low base) n \<longleftrightarrow> bit (103 :: u64) n \<or> (16 \<le> n \<and> n < 40 \<and> bit base (n - 16)) \<or> bit (0x890000000000 :: u64) n
     \<or> (56 \<le> n \<and> n < 64 \<and> bit base (n - 32))"
  by (auto simp: tss_low_def bit_or_iff bit_push_bit_iff bit_take_bit_iff bit_drop_bit_eq)

lemma tss_base: "system_base (tss_low base) (drop_bit 32 base) = base"
proof (rule bit_word_eqI)
  fix n assume "n < LENGTH(64)"
  then have n: "n < 64" by simp
  have "bit (seg_base (tss_low base)) n \<longleftrightarrow> n < 32 \<and> bit base n"
  proof (cases "n < 24")
    case True
    then have "bit (seg_base (tss_low base)) n \<longleftrightarrow> bit (tss_low base) (16 + n)"
      by (simp add: seg_base_def mask_numerals bit_or_iff bit_push_bit_iff bit_take_bit_iff bit_drop_bit_eq)
    then show ?thesis using True bit_limit_word [of "16 + n"] bit_access_word [of "16 + n"] by (auto simp: bit_tss_low)
  next
    case False
    then have "bit (seg_base (tss_low base)) n \<longleftrightarrow> bit (tss_low base) (56 + (n - 24))"
      using n by (simp add: seg_base_def mask_numerals bit_or_iff bit_push_bit_iff bit_take_bit_iff bit_drop_bit_eq)
    also have "56 + (n - 24) = 32 + n" using False by simp
    finally show ?thesis using False bit_limit_word [of "32 + n"] bit_access_word [of "32 + n"] by (auto simp: bit_tss_low)
  qed
  then show "bit (system_base (tss_low base) (drop_bit 32 base)) n = bit base n"
    using n by (auto simp: system_base_def mask_numerals bit_or_iff bit_push_bit_iff bit_take_bit_iff bit_drop_bit_eq)
qed

lemma tss_limit: "seg_limit (tss_low base) = 103"
proof (rule bit_word_eqI)
  fix n assume "n < LENGTH(64)"
  then have n: "n < 64" by simp
  have "\<not> bit (tss_low base) (32 + n)" if "16 \<le> n" "n < 20"
    using that bit_limit_word [of "32 + n"] bit_access_word [of "32 + n"] by (auto simp: bit_tss_low)
  moreover have "bit (tss_low base) n \<longleftrightarrow> bit (103 :: u64) n" if "n < 16"
    using that bit_access_word [of n] by (auto simp: bit_tss_low)
  ultimately show "bit (seg_limit (tss_low base)) n = bit (103 :: u64) n"
    using n bit_limit_word [of n]
    by (auto simp: seg_limit_def mask_numerals bit_or_iff bit_push_bit_iff bit_take_bit_iff bit_drop_bit_eq add.commute)
qed

lemma bit_tss_access: "40 \<le> n \<Longrightarrow> n < 48 \<Longrightarrow> bit (tss_low base) n = bit (0x890000000000 :: u64) n"
  using bit_limit_word [of n] by (auto simp: bit_tss_low)

lemma tss_type: "seg_type (tss_low base) = 9"
proof -
  define k :: u64 where "k = 0x890000000000"
  have "seg_type (tss_low base) = seg_type k"
    unfolding seg_type_def mask_numerals
    by (rule bit_word_eqI) (auto simp: bit_take_bit_iff bit_drop_bit_eq bit_tss_access add.commute k_def [symmetric])
  then show ?thesis by (simp add: seg_type_def k_def)
qed

lemma tss_loadable: "loadable_tss (tss_low base)"
  by (simp add: loadable_tss_def tss_type present_def code_or_data_def bit_tss_access)

subsection \<open>Initialisation\<close>

text \<open>The static table, up to the accessed bits the processor sets.\<close>

definition gdt_ok :: "u64 list \<Rightarrow> bool" where
  "gdt_ok es \<longleftrightarrow> length es = 7 \<and> list_all (\<lambda>i. es ! i OR 2 ^ 40 = gdt_new ! i OR 2 ^ 40) [1, 2, 3, 4]"

lemma accessed_bits: "d OR 2 ^ 40 = c OR 2 ^ 40 \<Longrightarrow> n \<noteq> 40 \<Longrightarrow> bit d n = bit c n" for c d :: u64
  using bit_or_exp [of d 40 n] bit_or_exp [of c 40 n] by simp

lemma accessed_dpl: "d OR 2 ^ 40 = c OR 2 ^ 40 \<Longrightarrow> seg_dpl d = seg_dpl c"
proof -
  assume a: "d OR 2 ^ 40 = c OR 2 ^ 40"
  have "bit (seg_dpl d) n = bit (seg_dpl c) n" for n
    using accessed_bits [OF a, of "45 + n"] by (simp add: seg_dpl_def mask_numerals bit_take_bit_iff bit_drop_bit_eq)
  then show ?thesis by (simp add: bit_eq_iff)
qed

lemma loadable_cong:
  assumes "d OR 2 ^ 40 = c OR 2 ^ 40"
  shows "loadable_data l r d = loadable_data l r c" and "loadable_stack l r d = loadable_stack l r c"
    and "loadable_code64 l r d = loadable_code64 l r c"
  using accessed_bits [OF assms] accessed_dpl [OF assms]
  by (simp_all add: loadable_data_def loadable_stack_def loadable_code64_def present_def code_or_data_def)

lemma kernel_descriptors:
  "loadable_data 0 0 0x00CF92000000FFFF" "loadable_stack 0 0 0x00CF92000000FFFF" "loadable_code64 0 0 0x00AF9A000000FFFF"
  by (simp_all add: loadable_data_def loadable_stack_def loadable_code64_def present_def code_or_data_def seg_dpl_def)

text \<open>The selectors for ring 3 fit their descriptors: a return to user mode would accept them.\<close>

lemma user_descriptors:
  "loadable_stack 3 (rpl USER_DATA_SELECTOR) (gdt_new ! sel_index USER_DATA_SELECTOR)"
  "loadable_code64 3 (rpl USER_CODE_SELECTOR) (gdt_new ! sel_index USER_CODE_SELECTOR)"
  by (simp_all add: selectors loadable_stack_def loadable_code64_def present_def code_or_data_def seg_dpl_def rpl_def sel_index_def gdt_new_def)

lemma busy_base:
  assumes "40 \<le> k" and "k < 56"
  shows "system_base (d OR 2 ^ k) h = system_base d h"
proof -
  have "bit (seg_base (d OR 2 ^ k)) n = bit (seg_base d) n" for n
    using assms by (auto simp: seg_base_def mask_numerals bit_or_iff bit_push_bit_iff bit_take_bit_iff bit_drop_bit_eq bit_exp_u64)
  then have "seg_base (d OR 2 ^ k) = seg_base d" by (simp add: bit_eq_iff)
  then show ?thesis by (simp add: system_base_def)
qed

lemma gdt_init_effect:
  assumes "gdt_ok (gdt_entries s)" and "cpl s = 0"
  obtains e0 e1 e2 e3 e4 e5 e6 where "gdt_entries s = [e0, e1, e2, e3, e4, e5, e6]"
    and "gdt_init gdt_addr tss_addr s =
      Some (s\<lparr>gdt_entries := [e0, e1 OR 2 ^ 40, e2 OR 2 ^ 40, e3, e4, tss_low tss_addr OR 2 ^ 41, drop_bit 32 tss_addr],
        gdtr := \<lparr>dt_limit = 63, dt_base = gdt_addr\<rparr>, seg_ds := 0x10, seg_es := 0x10, seg_ss := 0x10, seg_cs := 8,
        task_register := 0x28\<rparr>)"
proof -
  have "length (gdt_entries s) = 7" using assms(1) by (simp add: gdt_ok_def)
  then obtain e0 e1 e2 e3 e4 e5 e6 where es: "gdt_entries s = [e0, e1, e2, e3, e4, e5, e6]"
    by (auto simp: length_Suc_conv numeral_eq_Suc)
  have c: "e1 OR 2 ^ 40 = 0x00AF9A000000FFFF OR 2 ^ 40" "e2 OR 2 ^ 40 = 0x00CF92000000FFFF OR 2 ^ 40"
    using assms(1) unfolding gdt_ok_def es by (simp_all add: gdt_new_def)
  then have c': "(e2 OR 2 ^ 40) OR 2 ^ 40 = 0x00CF92000000FFFF OR 2 ^ 40" by (simp add: or.assoc)
  have "loadable_data 0 0 e2" "loadable_data 0 0 (e2 OR 2 ^ 40)" "loadable_stack 0 0 (e2 OR 2 ^ 40)" "loadable_code64 0 0 e1"
    using loadable_cong [OF c(1)] loadable_cong [OF c(2)] loadable_cong [OF c'] kernel_descriptors by blast+
  note ok = this [simplified]
  show thesis
    by (rule that [OF es])
      (use assms(2) ok tss_loadable [of tss_addr] in \<open>simp add: gdt_init_def set_tss_entries es lgdt_def gdt_pointer_def mov_ds_def mov_es_def
         mov_ss_def retfq_def ltr_def load_selector_def selectors sel_index_def rpl_def cpl_def Let_def or.assoc\<close>)
qed

subsection \<open>Properties\<close>

text \<open>C33. Loading the descriptor tables is accepted by the processor: from ring 0 and with the static table, every selector
  load passes its checks, at whatever addresses the statics live.  Afterwards code runs in the 64-bit kernel code segment, data and stack in the
  kernel data segment, and the busy task descriptor decodes to the address and the size of the task state segment.\<close>
theorem gdt_init_loads:
  assumes "gdt_ok (gdt_entries s)" and "cpl s = 0"
  shows "\<exists>s'. gdt_init gdt_addr tss_addr s = Some s' \<and> gdt_ok (gdt_entries s') \<and> cpl s' = 0
    \<and> seg_cs s' = KERNEL_CODE_SELECTOR \<and> seg_ds s' = KERNEL_DATA_SELECTOR \<and> seg_es s' = KERNEL_DATA_SELECTOR
    \<and> seg_ss s' = KERNEL_DATA_SELECTOR \<and> task_register s' = TSS_SELECTOR \<and> dt_base (gdtr s') = gdt_addr
    \<and> (let i = sel_index TSS_SELECTOR; low = gdt_entries s' ! i; high = gdt_entries s' ! (i + 1) in
         system_base low high = tss_addr \<and> low = tss_low tss_addr OR 2 ^ 41 \<and> seg_limit (tss_low tss_addr) = of_nat (TSS_SIZE - 1))
    \<and> events s' = events s"
proof -
  obtain e0 e1 e2 e3 e4 e5 e6 where es: "gdt_entries s = [e0, e1, e2, e3, e4, e5, e6]"
    and i: "gdt_init gdt_addr tss_addr s =
      Some (s\<lparr>gdt_entries := [e0, e1 OR 2 ^ 40, e2 OR 2 ^ 40, e3, e4, tss_low tss_addr OR 2 ^ 41, drop_bit 32 tss_addr],
        gdtr := \<lparr>dt_limit = 63, dt_base = gdt_addr\<rparr>, seg_ds := 0x10, seg_es := 0x10, seg_ss := 0x10, seg_cs := 8,
        task_register := 0x28\<rparr>)"
    using gdt_init_effect [OF assms] .
  have "gdt_ok [e0, e1 OR 2 ^ 40, e2 OR 2 ^ 40, e3, e4, tss_low tss_addr OR 2 ^ 41, drop_bit 32 tss_addr]"
    using assms(1) unfolding gdt_ok_def es by (simp add: or.assoc)
  moreover have "system_base (tss_low tss_addr OR 2 ^ 41) (drop_bit 32 tss_addr) = tss_addr"
    using busy_base [of 41 "tss_low tss_addr"] tss_base by (simp del: push_bit_of_1)
  ultimately show ?thesis unfolding i
    by (simp add: selectors sel_index_def cpl_def tss_limit TSS_SIZE_def)
qed

text \<open>The state before the kernel's own tables are loaded: the firmware's registers in ring 0.\<close>

definition firmware_segments :: segments where
  "firmware_segments = \<lparr>events = [], rflags = 0x202, con_out = 0, uefi_console_active = False,
     screen = \<lparr>con_info = None, con_cols = 0, con_rows = 0, con_col = 0, con_row = 0, con_active = False, con_fb = (\<lambda>_. 0)\<rparr>,
     gdt_entries = gdt_new, tss_static = tss_new, gdtr = \<lparr>dt_limit = 0x4F, dt_base = 0x7EF00000\<rparr>, seg_cs = 0x38, seg_ds = 0x30,
     seg_es = 0x30, seg_ss = 0x30, task_register = 0\<rparr>"

theorem gdt_init_loads_witness:
  "\<exists>s'. gdt_init 0x140010000 0x140010040 firmware_segments = Some s' \<and> seg_cs s' = 8 \<and> task_register s' = 0x28"
proof -
  have "gdt_ok (gdt_entries firmware_segments)" "cpl firmware_segments = 0"
    by (simp_all add: firmware_segments_def gdt_ok_def gdt_new_def cpl_def)
  from gdt_init_loads [OF this, of "0x140010000" "0x140010040"] show ?thesis by (auto simp: selectors)
qed

end
