(* ===== verification/Idt.thy ===== *)
theory Idt
  imports Gdt
begin

text \<open>
  The interrupt descriptor table (\<^verbatim>\<open>src/src/idt.rs\<close>): gate encoding, the table and its initialisation.  The addresses of
  the assembly entry points are chosen by the linker, so they are a parameter.
\<close>

definition IRQ_BASE_VECTOR :: u8 where
  "IRQ_BASE_VECTOR = 32"

definition SPURIOUS_VECTOR :: u8 where
  "SPURIOUS_VECTOR = 255"

record idt_entry =
  offset_low :: u16
  selector :: u16
  gate_ist :: u8
  type_attr :: u8
  offset_mid :: u16
  offset_high :: u32
  gate_reserved :: u32

definition missing :: idt_entry where
  "missing = \<lparr>offset_low = 0, selector = 0, gate_ist = 0, type_attr = 0, offset_mid = 0, offset_high = 0, gate_reserved = 0\<rparr>"

definition set_handler :: "u64 \<Rightarrow> idt_entry \<Rightarrow> idt_entry" where
  "set_handler handler e =
     e\<lparr>offset_low := ucast (handler AND 0xFFFF),
       selector := KERNEL_CODE_SELECTOR,
       gate_ist := 0,
       type_attr := 0x8E,
       offset_mid := ucast (drop_bit 16 handler AND 0xFFFF),
       offset_high := ucast (drop_bit 32 handler),
       gate_reserved := 0\<rparr>"

definition idt_new :: "idt_entry list" where
  "idt_new = replicate 256 missing"

definition set_entry :: "nat \<Rightarrow> u64 \<Rightarrow> idt_entry list \<Rightarrow> idt_entry list" where
  "set_entry vector handler entries =
     (if vector < 256 then entries[vector := set_handler handler (entries ! vector)] else entries)"

text \<open>256 entries of 16 bytes.\<close>

definition idt_pointer :: "u64 \<Rightarrow> descriptor_table_pointer" where
  "idt_pointer addr = \<lparr>dt_limit = of_nat (256 * 16 - 1), dt_base = addr\<rparr>"

text \<open>The symbols of the assembly block and the two pointer tables it lays out.\<close>

record stub_symbols =
  sym_stub :: "nat \<Rightarrow> u64"
  sym_irq_stub :: "nat \<Rightarrow> u64"
  sym_generic_irq_stub :: u64
  sym_spurious_irq_stub :: u64

definition exception_stubs :: "stub_symbols \<Rightarrow> u64 list" where
  "exception_stubs syms = map (sym_stub syms) [0..<32]"

definition irq_stubs :: "stub_symbols \<Rightarrow> u64 list" where
  "irq_stubs syms = map (sym_irq_stub syms) [0..<16]"

record idt_tables = segments +
  idt_entries :: "idt_entry list"
  idtr :: descriptor_table_pointer

definition install_stubs :: "stub_symbols \<Rightarrow> idt_entry list \<Rightarrow> idt_entry list" where
  "install_stubs syms es =
     (let es1 = fold (\<lambda>vector. set_entry vector (exception_stubs syms ! vector)) [0..<32] es;
          es2 = fold (\<lambda>irq. set_entry (unat IRQ_BASE_VECTOR + irq) (irq_stubs syms ! irq)) [0..<16] es1;
          es3 = fold (\<lambda>vector. set_entry vector (sym_generic_irq_stub syms)) [48..<255] es2
      in set_entry (unat SPURIOUS_VECTOR) (sym_spurious_irq_stub syms) es3)"

definition idt_init :: "stub_symbols \<Rightarrow> u64 \<Rightarrow> 'a idt_tables_scheme \<Rightarrow> 'a idt_tables_scheme" where
  "idt_init syms idt_addr s =
     s\<lparr>idt_entries := install_stubs syms (idt_entries s), idtr := idt_pointer idt_addr\<rparr>"

subsection \<open>Gates\<close>

text \<open>How the processor reads a gate: the address of the handler, and bits P, DPL and type of the attribute byte.\<close>

definition gate_offset :: "idt_entry \<Rightarrow> u64" where
  "gate_offset e = ucast (offset_low e) OR push_bit 16 (ucast (offset_mid e)) OR push_bit 32 (ucast (offset_high e))"

definition kernel_interrupt_gate :: "idt_entry \<Rightarrow> bool" where
  "kernel_interrupt_gate e \<longleftrightarrow> bit (type_attr e) 7 \<and> drop_bit 5 (type_attr e) AND 3 = 0 \<and> type_attr e AND 0x1F = 0xE
     \<and> selector e = KERNEL_CODE_SELECTOR \<and> gate_ist e = 0"

lemma set_handler_offset [simp]: "gate_offset (set_handler h e) = h"
proof (rule bit_word_eqI)
  fix n assume "n < LENGTH(64)"
  then consider "n < 16" | "16 \<le> n" "n < 32" | "32 \<le> n" "n < 64" by (cases "n < 16"; cases "n < 32") auto
  then show "bit (gate_offset (set_handler h e)) n = bit h n"
    by cases (auto simp: gate_offset_def set_handler_def mask_numerals bit_or_iff bit_push_bit_iff bit_ucast_iff bit_take_bit_iff bit_drop_bit_eq)
qed

lemma set_handler_gate [simp]: "kernel_interrupt_gate (set_handler h e)"
  by (simp add: kernel_interrupt_gate_def set_handler_def)

definition gate_to :: "u64 \<Rightarrow> idt_entry \<Rightarrow> bool" where
  "gate_to h e \<longleftrightarrow> kernel_interrupt_gate e \<and> gate_offset e = h"

lemma length_set_entry [simp]: "length (set_entry v h es) = length es"
  by (simp add: set_entry_def)

lemma length_fold_set_entry [simp]: "length (fold (\<lambda>x. set_entry (f x) (g x)) xs es) = length es"
  by (induction xs arbitrary: es) simp_all

lemma fold_set_entry_other: "v \<notin> f ` set xs \<Longrightarrow> fold (\<lambda>x. set_entry (f x) (g x)) xs es ! v = es ! v"
  by (induction xs arbitrary: es) (auto simp: set_entry_def)

lemma fold_set_entry_gate:
  assumes "x \<in> set xs" and "f x < 256" and "length es = 256" and "inj_on f (set xs)" and "distinct xs"
  shows "gate_to (g x) (fold (\<lambda>x. set_entry (f x) (g x)) xs es ! f x)"
  using assms
proof (induction xs arbitrary: es)
  case (Cons y ys)
  show ?case
  proof (cases "x = y")
    case True
    then have "f x \<notin> f ` set ys" using Cons.prems(4,5) by (auto simp: inj_on_def)
    then have "fold (\<lambda>x. set_entry (f x) (g x)) (y # ys) es ! f x = set_entry (f y) (g y) es ! f y"
      using True by (simp add: fold_set_entry_other)
    moreover have "set_entry (f y) (g y) es ! f y = set_handler (g y) (es ! f y)"
      using True Cons.prems by (simp add: set_entry_def)
    ultimately show ?thesis using True by (simp only: gate_to_def set_handler_gate set_handler_offset simp_thms)
  next
    case False
    then show ?thesis using Cons.IH [of "set_entry (f y) (g y) es"] Cons.prems by (auto simp: inj_on_def)
  qed
qed simp

lemma fold_set_entry_range:
  assumes "a \<le> x" and "x < b" and "f x < 256" and "length es = 256" and "inj f"
  shows "gate_to (g x) (fold (\<lambda>x. set_entry (f x) (g x)) [a..<b] es ! f x)"
  by (rule fold_set_entry_gate) (use assms in \<open>auto intro: inj_on_subset\<close>)

lemma fold_set_entry_outside:
  assumes "\<And>x. a \<le> x \<Longrightarrow> x < b \<Longrightarrow> f x \<noteq> v"
  shows "fold (\<lambda>x. set_entry (f x) (g x)) [a..<b] es ! v = es ! v"
  by (rule fold_set_entry_other) (use assms in fastforce)

text \<open>Which entry point serves a vector.\<close>

definition entry_point :: "stub_symbols \<Rightarrow> nat \<Rightarrow> u64" where
  "entry_point syms v =
     (if v < 32 then sym_stub syms v else if v < 48 then sym_irq_stub syms (v - 32)
      else if v < 255 then sym_generic_irq_stub syms else sym_spurious_irq_stub syms)"

lemma install_stubs_gate:
  assumes "length es = 256" and "v < 256"
  shows "gate_to (entry_point syms v) (install_stubs syms es ! v)"
proof -
  define e1 where "e1 = fold (\<lambda>x. set_entry (id x) (exception_stubs syms ! x)) [0..<32] es"
  define e2 where "e2 = fold (\<lambda>x. set_entry (32 + x) (irq_stubs syms ! x)) [0..<16] e1"
  define e3 where "e3 = fold (\<lambda>x. set_entry (id x) (sym_generic_irq_stub syms)) [48..<255] e2"
  have len: "length e1 = 256" "length e2 = 256" "length e3 = 256" using assms(1) by (simp_all only: e1_def e2_def e3_def length_fold_set_entry)
  have i: "install_stubs syms es = set_entry 255 (sym_spurious_irq_stub syms) e3"
    by (simp add: install_stubs_def Let_def e1_def e2_def e3_def IRQ_BASE_VECTOR_def SPURIOUS_VECTOR_def id_def)
  have last: "install_stubs syms es ! v = e3 ! v" if "v \<noteq> 255" using that by (simp add: i set_entry_def)
  have g3: "e3 ! v = e2 ! v" if "v < 48" unfolding e3_def by (rule fold_set_entry_outside) (use that in simp)
  have g2: "e2 ! v = e1 ! v" if "v < 32" unfolding e2_def by (rule fold_set_entry_outside) (use that in simp)
  consider "v < 32" | "32 \<le> v" "v < 48" | "48 \<le> v" "v < 255" | "v = 255" using assms(2) by linarith
  then show ?thesis
  proof cases
    case 1
    have "gate_to (exception_stubs syms ! v) (e1 ! id v)" unfolding e1_def by (rule fold_set_entry_range) (use 1 assms in simp_all)
    then show ?thesis using 1 last g3 g2 by (simp add: entry_point_def exception_stubs_def)
  next
    case 2
    have "gate_to (irq_stubs syms ! (v - 32)) (e2 ! (32 + (v - 32)))"
      unfolding e2_def by (rule fold_set_entry_range) (use 2 len in \<open>simp_all add: inj_on_def\<close>)
    then show ?thesis using 2 last g3 by (simp add: entry_point_def irq_stubs_def)
  next
    case 3
    have "gate_to (sym_generic_irq_stub syms) (e3 ! id v)" unfolding e3_def by (rule fold_set_entry_range) (use 3 len in simp_all)
    then show ?thesis using 3 last by (simp add: entry_point_def)
  next
    case 4
    then show ?thesis using len by (simp add: i set_entry_def entry_point_def gate_to_def)
  qed
qed

lemma install_stubs_length: "length es = 256 \<Longrightarrow> length (install_stubs syms es) = 256"
  by (simp add: install_stubs_def Let_def)

subsection \<open>Properties\<close>

text \<open>C32. After initialisation no interrupt goes astray: each of the 256 vectors lies within the table's limit and has a present
  ring-0 interrupt gate into the kernel code segment, whose address is the exception stub, the IRQ stub, the generic stub or the
  spurious stub that belongs to the vector.\<close>
theorem idt_init_covers_every_vector:
  assumes "length (idt_entries s) = 256" and "v < 256"
  shows "let s' = idt_init syms idt_addr s; e = idt_entries s' ! v in
    kernel_interrupt_gate e \<and> 16 * v + 15 \<le> unat (dt_limit (idtr s')) \<and> dt_base (idtr s') = idt_addr
    \<and> gate_offset e = (if v < 32 then sym_stub syms v else if v < 48 then sym_irq_stub syms (v - 32)
         else if v < 255 then sym_generic_irq_stub syms else sym_spurious_irq_stub syms)"
  using install_stubs_gate [OF assms, of syms] assms(2)
  by (simp add: idt_init_def gate_to_def entry_point_def idt_pointer_def)

definition sample_symbols :: stub_symbols where
  "sample_symbols = \<lparr>sym_stub = (\<lambda>v. 0x140003000 + of_nat (16 * v)), sym_irq_stub = (\<lambda>i. 0x140003800 + of_nat (128 * i)),
     sym_generic_irq_stub = 0x140004000, sym_spurious_irq_stub = 0x140004100\<rparr>"

definition fresh_tables :: idt_tables where
  "fresh_tables = segments.extend firmware_segments
     (idt_tables.fields idt_new \<lparr>dt_limit = 0xFFF, dt_base = 0x7EF01000\<rparr>)"

theorem idt_init_covers_every_vector_witness:
  "gate_offset (idt_entries (idt_init sample_symbols 0x140020000 fresh_tables) ! 14) = 0x1400030E0
   \<and> gate_offset (idt_entries (idt_init sample_symbols 0x140020000 fresh_tables) ! 36) = 0x140003A00"
proof -
  have "length (idt_entries fresh_tables) = 256"
    by (simp add: fresh_tables_def idt_new_def segments.defs idt_tables.defs)
  from idt_init_covers_every_vector [OF this, of 14 sample_symbols "0x140020000"]
    idt_init_covers_every_vector [OF this, of 36 sample_symbols "0x140020000"]
  show ?thesis by (simp add: Let_def sample_symbols_def)
qed

end
