(* ===== verification/Apic.thy ===== *)
theory Apic
  imports Idt Acpi
begin

text \<open>
  The interrupt controllers (\<^verbatim>\<open>src/src/apic.rs\<close>): the local APIC of the processor and the I/O APIC that carries the ISA
  interrupt lines.  Both are memory-mapped devices, so a register access is an event at an address; what a read
  returns is up to the \<open>hardware\<close> parameter.
\<close>

subsection \<open>Constants and state\<close>

definition LAPIC_DEFAULT_BASE :: u64 where
  "LAPIC_DEFAULT_BASE = 0xFEE00000"

definition IOAPIC_DEFAULT_BASE :: u64 where
  "IOAPIC_DEFAULT_BASE = 0xFEC00000"

definition LAPIC_ID :: u32 where "LAPIC_ID = 0x20"
definition LAPIC_VER :: u32 where "LAPIC_VER = 0x30"
definition LAPIC_TPR :: u32 where "LAPIC_TPR = 0x80"
definition LAPIC_EOI :: u32 where "LAPIC_EOI = 0xB0"
definition LAPIC_LDR :: u32 where "LAPIC_LDR = 0xD0"
definition LAPIC_DFR :: u32 where "LAPIC_DFR = 0xE0"
definition LAPIC_SVR :: u32 where "LAPIC_SVR = 0xF0"
definition LAPIC_ESR :: u32 where "LAPIC_ESR = 0x280"
definition LAPIC_LVT_TIMER :: u32 where "LAPIC_LVT_TIMER = 0x320"
definition LAPIC_LVT_LINT0 :: u32 where "LAPIC_LVT_LINT0 = 0x350"
definition LAPIC_LVT_LINT1 :: u32 where "LAPIC_LVT_LINT1 = 0x360"
definition LAPIC_LVT_ERROR :: u32 where "LAPIC_LVT_ERROR = 0x370"
definition LAPIC_TIMER_ICR :: u32 where "LAPIC_TIMER_ICR = 0x380"
definition LAPIC_TIMER_CCR :: u32 where "LAPIC_TIMER_CCR = 0x390"
definition LAPIC_TIMER_DCR :: u32 where "LAPIC_TIMER_DCR = 0x3E0"

lemmas lapic_consts = LAPIC_ID_def LAPIC_VER_def LAPIC_TPR_def LAPIC_EOI_def LAPIC_LDR_def LAPIC_DFR_def LAPIC_SVR_def
  LAPIC_ESR_def LAPIC_LVT_TIMER_def LAPIC_LVT_LINT0_def LAPIC_LVT_LINT1_def LAPIC_LVT_ERROR_def LAPIC_TIMER_ICR_def
  LAPIC_TIMER_CCR_def LAPIC_TIMER_DCR_def

definition IOAPIC_REGSEL :: u64 where
  "IOAPIC_REGSEL = 0x00"

definition IOAPIC_IOWIN :: u64 where
  "IOAPIC_IOWIN = 0x10"

definition IOAPIC_ACTIVE_LOW :: u32 where
  "IOAPIC_ACTIVE_LOW = push_bit 13 1"

definition IOAPIC_LEVEL_TRIGGERED :: u32 where
  "IOAPIC_LEVEL_TRIGGERED = push_bit 15 1"

definition IOAPIC_MASKED :: u32 where
  "IOAPIC_MASKED = push_bit 16 1"

definition POLARITY_MASK :: u16 where
  "POLARITY_MASK = 0x3"

definition POLARITY_ACTIVE_LOW :: u16 where
  "POLARITY_ACTIVE_LOW = 0x3"

definition TRIGGER_MASK :: u16 where
  "TRIGGER_MASK = 0xC"

definition TRIGGER_LEVEL :: u16 where
  "TRIGGER_LEVEL = 0xC"

record apic = idt_tables +
  acpi :: acpi_state
  lapic_base :: u64
  ioapic_base :: u64
  ioapic_gsi_base :: u32

definition configure_from_acpi :: "hardware \<Rightarrow> 'a apic_scheme \<Rightarrow> 'a apic_scheme" where
  "configure_from_acpi hw s =
     (case madt (acpi s) of
        None \<Rightarrow>
          klog hw [lit ''[APIC WARN] No MADT, using default LAPIC '', fmt_hex 0 (unat LAPIC_DEFAULT_BASE),
                   lit '' / I/O APIC '', fmt_hex 0 (unat IOAPIC_DEFAULT_BASE)] s
      | Some info \<Rightarrow>
          let s1 = (if lapic_address info \<noteq> 0 then s\<lparr>lapic_base := lapic_address info\<rparr> else s) in
          fold (\<lambda>i s. if gsi_base (ioapics info ! i) = 0
                       then s\<lparr>ioapic_base := io_address (ioapics info ! i), ioapic_gsi_base := 0\<rparr> else s)
            [0..<ioapic_count info] s1)"

subsection \<open>Register access\<close>

definition mmio_read :: "hardware \<Rightarrow> u64 \<Rightarrow> 'a apic_scheme \<Rightarrow> u32 \<times> 'a apic_scheme" where
  "mmio_read hw a s = (let v = hw_mmio hw (events s) a in (v, emit (MmioRead a v) s))"

definition mmio_write :: "u64 \<Rightarrow> u32 \<Rightarrow> 'a apic_scheme \<Rightarrow> 'a apic_scheme" where
  "mmio_write a v s = emit (MmioWrite a v) s"

definition lapic_read :: "hardware \<Rightarrow> u32 \<Rightarrow> 'a apic_scheme \<Rightarrow> u32 \<times> 'a apic_scheme" where
  "lapic_read hw reg s = mmio_read hw (lapic_base s + ucast reg) s"

definition lapic_write :: "u32 \<Rightarrow> u32 \<Rightarrow> 'a apic_scheme \<Rightarrow> 'a apic_scheme" where
  "lapic_write reg v s = mmio_write (lapic_base s + ucast reg) v s"

definition ioapic_read :: "hardware \<Rightarrow> u8 \<Rightarrow> 'a apic_scheme \<Rightarrow> u32 \<times> 'a apic_scheme" where
  "ioapic_read hw reg s = mmio_read hw (ioapic_base s + IOAPIC_IOWIN) (mmio_write (ioapic_base s + IOAPIC_REGSEL) (ucast reg) s)"

definition ioapic_write :: "u8 \<Rightarrow> u32 \<Rightarrow> 'a apic_scheme \<Rightarrow> 'a apic_scheme" where
  "ioapic_write reg v s = mmio_write (ioapic_base s + IOAPIC_IOWIN) v (mmio_write (ioapic_base s + IOAPIC_REGSEL) (ucast reg) s)"

subsection \<open>The local APIC\<close>

definition disable_pic :: "'a platform_scheme \<Rightarrow> 'a platform_scheme" where
  "disable_pic s = outb 0xA1 0xFF (outb 0x21 0xFF s)"

definition init_lapic :: "hardware \<Rightarrow> 'a apic_scheme \<Rightarrow> 'a apic_scheme" where
  "init_lapic hw s =
     (let (apic_base, s1) = rdmsr hw IA32_APIC_BASE_MSR s;
          s2 = wrmsr IA32_APIC_BASE_MSR (apic_base OR push_bit 11 1) s1;
          s3 = lapic_write LAPIC_DFR 0xFFFFFFFF s2;
          (v, s4) = lapic_read hw LAPIC_ID s3;
          lapic_id = drop_bit 24 v AND 0xFF;
          s5 = lapic_write LAPIC_LDR (push_bit 24 lapic_id) s4;
          s6 = lapic_write LAPIC_TPR 0 s5;
          s7 = lapic_write LAPIC_LVT_TIMER 0x10000 s6;
          s8 = lapic_write LAPIC_LVT_LINT0 0x10000 s7;
          s9 = lapic_write LAPIC_LVT_LINT1 0x10000 s8;
          s10 = lapic_write LAPIC_LVT_ERROR 0x10000 s9;
          s11 = lapic_write LAPIC_SVR (0x100 OR 0xFF) s10
      in lapic_write LAPIC_EOI 0 s11)"

definition eoi :: "'a apic_scheme \<Rightarrow> 'a apic_scheme" where
  "eoi s = lapic_write LAPIC_EOI 0 s"

definition start_lapic_timer :: "u8 \<Rightarrow> u32 \<Rightarrow> u32 \<Rightarrow> 'a apic_scheme \<Rightarrow> 'a apic_scheme" where
  "start_lapic_timer vector initial_count divide_cfg s =
     lapic_write LAPIC_TIMER_ICR initial_count
      (lapic_write LAPIC_LVT_TIMER (0x20000 OR ucast vector)
        (lapic_write LAPIC_TIMER_DCR divide_cfg s))"

subsection \<open>The I/O APIC\<close>

definition inti_flags :: "u16 \<Rightarrow> u32" where
  "inti_flags flags =
     (if flags AND POLARITY_MASK = POLARITY_ACTIVE_LOW then IOAPIC_ACTIVE_LOW else 0)
     OR (if flags AND TRIGGER_MASK = TRIGGER_LEVEL then IOAPIC_LEVEL_TRIGGERED else 0)"

text \<open>\<^verbatim>\<open>(0x10 + 2 * pin) as u8\<close> keeps the low eight bits.\<close>

definition reg_low :: "u32 \<Rightarrow> u8" where
  "reg_low pin = ucast (0x10 + 2 * pin)"

definition reg_high :: "u32 \<Rightarrow> u8" where
  "reg_high pin = ucast (0x11 + 2 * pin)"

definition write_redirection :: "u32 \<Rightarrow> u8 \<Rightarrow> u8 \<Rightarrow> u32 \<Rightarrow> 'a apic_scheme \<Rightarrow> 'a apic_scheme" where
  "write_redirection pin vector dest_lapic_id bits s =
     ioapic_write (reg_high pin) (push_bit 24 (ucast dest_lapic_id))
       (ioapic_write (reg_low pin) (ucast vector OR bits) s)"

definition route_override :: "u32 \<Rightarrow> u32 \<Rightarrow> interrupt_override \<Rightarrow> 'a apic_scheme \<Rightarrow> 'a apic_scheme" where
  "route_override gsi_base' max_entries o' s =
     (if ov_gsi o' \<ge> gsi_base' \<and> ov_gsi o' - gsi_base' < max_entries
      then write_redirection (ov_gsi o' - gsi_base') (0x20 + isa_irq o') 0 (IOAPIC_MASKED OR inti_flags (ov_flags o')) s
      else s)"

definition init_ioapic :: "hardware \<Rightarrow> 'a apic_scheme \<Rightarrow> 'a apic_scheme" where
  "init_ioapic hw s =
     (let (ver, s1) = ioapic_read hw 0x01 s;
          max_entries = (drop_bit 16 ver AND 0xFF) + 1;
          gsi_base' = ioapic_gsi_base s1;
          s2 = fold (\<lambda>i. write_redirection (of_nat i) (0x20 + of_nat i) 0 IOAPIC_MASKED) [0..<unat max_entries] s1
      in case madt (acpi s2) of
           None \<Rightarrow> s2
         | Some info \<Rightarrow> fold (\<lambda>i. route_override gsi_base' max_entries (overrides info ! i)) [0..<override_count info] s2)"

definition isa_irq_pin :: "u8 \<Rightarrow> 'a apic_scheme \<Rightarrow> u32" where
  "isa_irq_pin irq s = fst (isa_irq_to_gsi irq (acpi s)) - ioapic_gsi_base s"

definition route_irq :: "u8 \<Rightarrow> u8 \<Rightarrow> u8 \<Rightarrow> bool \<Rightarrow> 'a apic_scheme \<Rightarrow> 'a apic_scheme" where
  "route_irq irq vector dest_lapic_id masked s =
     (let (_, flags) = isa_irq_to_gsi irq (acpi s);
          bits = inti_flags flags;
          bits = (if masked then bits OR IOAPIC_MASKED else bits)
      in write_redirection (isa_irq_pin irq s) vector dest_lapic_id bits s)"

definition unmask_irq :: "hardware \<Rightarrow> u8 \<Rightarrow> 'a apic_scheme \<Rightarrow> 'a apic_scheme" where
  "unmask_irq hw irq s =
     (let r = reg_low (isa_irq_pin irq s); (v, s1) = ioapic_read hw r s in ioapic_write r (v AND NOT IOAPIC_MASKED) s1)"

definition mask_irq :: "hardware \<Rightarrow> u8 \<Rightarrow> 'a apic_scheme \<Rightarrow> 'a apic_scheme" where
  "mask_irq hw irq s =
     (let r = reg_low (isa_irq_pin irq s); (v, s1) = ioapic_read hw r s in ioapic_write r (v OR IOAPIC_MASKED) s1)"

end
