(* ===== verification/Apic_Route.thy ===== *)
theory Apic_Route
  imports Apic
begin

text \<open>
  What the programming of the interrupt controllers achieves.  The I/O APIC's documented behaviour (a select register and a
  data window) turns the list of register accesses into the contents of its redirection table; the properties are
  stated over that table.
\<close>

subsection \<open>The device behind the window\<close>

text \<open>A write to the base address selects a register, a write to the window stores into the selected one.  The two
  read-only bits of a redirection entry, delivery status (12) and remote IRR (14), may read as anything.\<close>

fun ioapic_step :: "u64 \<Rightarrow> io_event \<Rightarrow> u8 \<times> (u8 \<Rightarrow> u32) \<Rightarrow> u8 \<times> (u8 \<Rightarrow> u32)" where
  "ioapic_step base (MmioWrite a v) (sel, rs) =
     (if a = base then (ucast v, rs) else if a = base + 0x10 then (sel, rs(sel := v)) else (sel, rs))"
| "ioapic_step base _ st = st"

definition ioapic_contents :: "u64 \<Rightarrow> (u8 \<Rightarrow> u32) \<Rightarrow> io_event list \<Rightarrow> u8 \<times> (u8 \<Rightarrow> u32)" where
  "ioapic_contents base r0 es = fold (ioapic_step base) es (0, r0)"

definition READ_ONLY :: u32 where
  "READ_ONLY = 0x5000"

definition ioapic_answers :: "hardware \<Rightarrow> u64 \<Rightarrow> (u8 \<Rightarrow> u32) \<Rightarrow> bool" where
  "ioapic_answers hw base r0 \<longleftrightarrow>
     (\<forall>es. let (sel, rs) = ioapic_contents base r0 es; v = hw_mmio hw es (base + 0x10) in
        if sel \<ge> 0x10 then v AND NOT READ_ONLY = rs sel AND NOT READ_ONLY else v = rs sel)"

text \<open>The redirection table: the low and the high word of a pin.\<close>

definition redirection :: "u64 \<Rightarrow> (u8 \<Rightarrow> u32) \<Rightarrow> io_event list \<Rightarrow> u32 \<Rightarrow> u32 \<times> u32" where
  "redirection base r0 es pin = (let rs = snd (ioapic_contents base r0 es) in (rs (reg_low pin), rs (reg_high pin)))"

lemma ucast_register [simp]: "ucast (ucast (r :: u8) :: u32) = r"
  by (rule bit_word_eqI) (simp add: bit_ucast_iff)

lemma ioapic_contents_snoc: "ioapic_contents base r0 (es @ [e]) = ioapic_step base e (ioapic_contents base r0 es)"
  by (simp add: ioapic_contents_def)

lemma ioapic_write_contents:
  "ioapic_contents (ioapic_base s) r0 (events (ioapic_write r v s)) =
     (r, (snd (ioapic_contents (ioapic_base s) r0 (events s)))(r := v))"
proof -
  obtain sel rs where c: "ioapic_contents (ioapic_base s) r0 (events s) = (sel, rs)" by (cases "ioapic_contents (ioapic_base s) r0 (events s)")
  have e: "events (ioapic_write r v s) = (events s @ [MmioWrite (ioapic_base s) (ucast r)]) @ [MmioWrite (ioapic_base s + 0x10) v]"
    by (simp add: ioapic_write_def mmio_write_def IOAPIC_REGSEL_def IOAPIC_IOWIN_def)
  show ?thesis unfolding e ioapic_contents_snoc c by simp
qed

lemma ioapic_read_effect:
  obtains v where "ioapic_read hw r s = (v, s\<lparr>events := events s @ [MmioWrite (ioapic_base s) (ucast r), MmioRead (ioapic_base s + 0x10) v]\<rparr>)"
    and "v = hw_mmio hw (events s @ [MmioWrite (ioapic_base s) (ucast r)]) (ioapic_base s + 0x10)"
  by (simp add: ioapic_read_def mmio_read_def mmio_write_def IOAPIC_REGSEL_def IOAPIC_IOWIN_def Let_def emit_def)

lemma ioapic_read_contents:
  "ioapic_contents base r0 (es @ [MmioWrite base (ucast r), MmioRead a v]) = (r, snd (ioapic_contents base r0 es))"
proof -
  obtain sel rs where c: "ioapic_contents base r0 es = (sel, rs)" by (cases "ioapic_contents base r0 es")
  have e: "es @ [MmioWrite base (ucast r), MmioRead a v] = (es @ [MmioWrite base (ucast r)]) @ [MmioRead a v]" by simp
  show ?thesis unfolding e ioapic_contents_snoc c by simp
qed

lemma ioapic_read_value:
  assumes "ioapic_answers hw (ioapic_base s) r0"
  shows "let v = fst (ioapic_read hw r s); old = snd (ioapic_contents (ioapic_base s) r0 (events s)) r in
    if r \<ge> 0x10 then v AND NOT READ_ONLY = old AND NOT READ_ONLY else v = old"
proof -
  obtain v where v: "fst (ioapic_read hw r s) = v" "v = hw_mmio hw (events s @ [MmioWrite (ioapic_base s) (ucast r)]) (ioapic_base s + 0x10)"
    using ioapic_read_effect [of hw r s] by (metis fst_conv)
  have "ioapic_contents (ioapic_base s) r0 (events s @ [MmioWrite (ioapic_base s) (ucast r)]) = (r, snd (ioapic_contents (ioapic_base s) r0 (events s)))"
    unfolding ioapic_contents_snoc by (cases "ioapic_contents (ioapic_base s) r0 (events s)") simp
  then show ?thesis
    using assms [unfolded ioapic_answers_def, rule_format, of "events s @ [MmioWrite (ioapic_base s) (ucast r)]"] v
    by (simp add: Let_def)
qed

text \<open>With at most 120 pins the register numbers do not wrap and the pins do not share registers.\<close>

lemma reg_numbers:
  assumes "pin < 120"
  shows "unat (reg_low pin) = 16 + 2 * unat pin" and "unat (reg_high pin) = 17 + 2 * unat pin"
proof -
  have p: "unat pin < 120" using assms by (simp add: word_less_nat_alt)
  have m: "unat (2 * pin) = 2 * unat pin" using p by (simp add: unat_word_ariths)
  have "unat (0x10 + 2 * pin) = 16 + 2 * unat pin" "unat (0x11 + 2 * pin) = 17 + 2 * unat pin"
    using p m by (simp_all add: unat_word_ariths)
  then show "unat (reg_low pin) = 16 + 2 * unat pin" "unat (reg_high pin) = 17 + 2 * unat pin"
    using p unfolding reg_low_def reg_high_def unsigned_ucast_eq by (simp_all add: take_bit_nat_eq_self)
qed

lemma reg_distinct:
  assumes "p < 120" and "q < 120"
  shows "reg_low p = reg_low q \<longleftrightarrow> p = q" and "reg_high p = reg_high q \<longleftrightarrow> p = q" and "reg_low p \<noteq> reg_high q"
    and "reg_high q \<noteq> reg_low p" and "0x10 \<le> reg_low p"
proof -
  note n = reg_numbers [OF assms(1)] reg_numbers [OF assms(2)]
  show "reg_low p = reg_low q \<longleftrightarrow> p = q" "reg_high p = reg_high q \<longleftrightarrow> p = q"
    using n by (metis add_left_cancel nat_mult_eq_cancel_disj word_unat_eq_iff zero_neq_numeral)+
  show "reg_low p \<noteq> reg_high q" using n by (metis (no_types, opaque_lifting) add.assoc add_left_cancel even_add even_mult_iff even_numeral odd_numeral)
  then show "reg_high q \<noteq> reg_low p" by metis
  show "0x10 \<le> reg_low p" using n by (simp add: word_le_nat_alt)
qed

subsection \<open>Frame facts\<close>

lemma only_events_ioapic_write [simp]: "only_events s (ioapic_write r v s)"
  by (simp add: ioapic_write_def mmio_write_def only_events_def emit_def)

lemma only_events_write_redirection [simp]: "only_events s (write_redirection pin v d b s)"
  by (simp add: write_redirection_def ioapic_write_def mmio_write_def only_events_def emit_def)

lemma only_events_apic:
  assumes "only_events s s'"
  shows "ioapic_base s' = ioapic_base s" and "acpi s' = acpi s" and "ioapic_gsi_base s' = ioapic_gsi_base s" and "lapic_base s' = lapic_base s"
proof -
  obtain es where e: "s' = s\<lparr>events := es\<rparr>" using assms unfolding only_events_def by blast
  show "ioapic_base s' = ioapic_base s" "acpi s' = acpi s" "ioapic_gsi_base s' = ioapic_gsi_base s" "lapic_base s' = lapic_base s"
    unfolding e by simp_all
qed

lemma write_redirection_table:
  assumes "pin < 120" and "q < 120"
  shows "redirection (ioapic_base s) r0 (events (write_redirection pin v d b s)) q =
    (if q = pin then (ucast v OR b, push_bit 24 (ucast d)) else redirection (ioapic_base s) r0 (events s) q)"
proof -
  let ?s = "ioapic_write (reg_low pin) (ucast v OR b) s"
  have "ioapic_base ?s = ioapic_base s" by (rule only_events_apic) simp
  then have "ioapic_contents (ioapic_base s) r0 (events (write_redirection pin v d b s)) =
      (reg_high pin, (snd (ioapic_contents (ioapic_base s) r0 (events s)))(reg_low pin := ucast v OR b, reg_high pin := push_bit 24 (ucast d)))"
    using ioapic_write_contents [of ?s r0 "reg_high pin" "push_bit 24 (ucast d)"] ioapic_write_contents [of s r0 "reg_low pin" "ucast v OR b"]
    by (simp add: write_redirection_def)
  then show ?thesis using reg_distinct [OF assms] reg_distinct [OF assms(2,1)] by (simp add: redirection_def Let_def)
qed

subsection \<open>Initial routing\<close>

lemma max_entries_bound: "(drop_bit 16 ver AND 0xFF) + 1 \<le> (256 :: u32)"
proof -
  have "unat (take_bit 8 (drop_bit 16 ver)) < 256"
    unfolding unsigned_take_bit_eq using take_bit_nat_less_exp [of 8 "unat (drop_bit 16 ver)"] by simp
  then have "unat (take_bit 8 (drop_bit 16 ver) + 1) \<le> 256" by (simp add: unat_word_ariths)
  then show ?thesis by (simp add: mask_numerals word_le_nat_alt)
qed

lemma identity_fold:
  assumes "n \<le> 120" and "q < 120"
  shows "redirection (ioapic_base s) r0 (events (fold (\<lambda>i. write_redirection (of_nat i) (0x20 + of_nat i) 0 IOAPIC_MASKED) [0..<n] s)) q =
      (if unat q < n then (ucast (0x20 + ucast q :: u8) OR IOAPIC_MASKED, 0) else redirection (ioapic_base s) r0 (events s) q)"
  using assms(1)
proof (induction n)
  case (Suc n)
  let ?f = "\<lambda>i. write_redirection (of_nat i) (0x20 + of_nat i) 0 IOAPIC_MASKED"
  let ?s = "fold ?f [0..<n] s"
  have n: "unat (of_nat n :: u32) = n" using Suc.prems by (simp add: unat_of_nat take_bit_nat_eq_self)
  then have n120: "(of_nat n :: u32) < 120" using Suc.prems by (simp add: word_less_nat_alt)
  have base: "ioapic_base ?s = ioapic_base s" by (intro only_events_apic only_events_fold) simp
  have q: "q = of_nat n \<longleftrightarrow> unat q = n" using n by (auto simp: word_unat_eq_iff)
  have "redirection (ioapic_base s) r0 (events (fold ?f [0..<Suc n] s)) q =
      (if q = of_nat n then (ucast (0x20 + of_nat n :: u8) OR IOAPIC_MASKED, 0) else redirection (ioapic_base s) r0 (events ?s) q)"
    using write_redirection_table [OF n120 assms(2), where s = ?s] base by simp
  moreover have "(ucast q :: u8) = of_nat n" if "unat q = n" unfolding that [symmetric] by simp
  ultimately show ?case using Suc.IH Suc.prems q by (auto simp: less_Suc_eq)
qed simp

text \<open>The last override that names a pin decides its entry.\<close>

definition pin_override :: "u32 \<Rightarrow> interrupt_override list \<Rightarrow> u32 \<Rightarrow> interrupt_override option" where
  "pin_override gb ovs pin = find (\<lambda>o'. gb \<le> ov_gsi o' \<and> ov_gsi o' - gb = pin) (rev ovs)"

definition override_entry :: "interrupt_override \<Rightarrow> u32 \<times> u32" where
  "override_entry o' = (ucast (0x20 + isa_irq o') OR (IOAPIC_MASKED OR inti_flags (ov_flags o')), 0)"

lemma only_events_route_override [simp]: "only_events s (route_override gb n o' s)"
  by (simp add: route_override_def)

lemma override_fold:
  assumes "n \<le> 120" and "q < n"
  shows "redirection (ioapic_base s) r0 (events (fold (route_override gb n) ovs s)) q =
    (case pin_override gb ovs q of None \<Rightarrow> redirection (ioapic_base s) r0 (events s) q | Some o' \<Rightarrow> override_entry o')"
proof (induction ovs rule: rev_induct)
  case (snoc o' ovs)
  let ?s = "fold (route_override gb n) ovs s"
  have base: "ioapic_base ?s = ioapic_base s" by (intro only_events_apic only_events_fold) simp
  have q: "q < 120" using assms by order
  show ?case
  proof (cases "gb \<le> ov_gsi o' \<and> ov_gsi o' - gb < n")
    case True
    then have "ov_gsi o' - gb < 120" using assms(1) by (auto elim: order_less_le_trans)
    from write_redirection_table [OF this q, where s = ?s] show ?thesis
      using True snoc.IH base by (auto simp: route_override_def [of gb n o'] pin_override_def override_entry_def)
  next
    case False
    then have "\<not> (gb \<le> ov_gsi o' \<and> ov_gsi o' - gb = q)" using assms(2) by auto
    moreover have "route_override gb n o' ?s = ?s" using False unfolding route_override_def [of gb n o'] by (rule if_not_P)
    ultimately show ?thesis using snoc.IH by (auto simp: pin_override_def)
  qed
qed (simp add: pin_override_def)

lemma fold_nth: "n \<le> length xs \<Longrightarrow> fold (\<lambda>i. f (xs ! i)) [0..<n] s = fold f (take n xs) s"
proof (induction n)
  case (Suc n)
  then show ?case by (simp add: take_Suc_conv_app_nth)
qed simp

definition pin_count :: "hardware \<Rightarrow> 'a apic_scheme \<Rightarrow> u32" where
  "pin_count hw s = (drop_bit 16 (fst (ioapic_read hw 1 s)) AND 0xFF) + 1"

definition valid_overrides :: "acpi_state \<Rightarrow> interrupt_override list" where
  "valid_overrides a = (case madt a of None \<Rightarrow> [] | Some info \<Rightarrow> take (override_count info) (overrides info))"

lemma init_ioapic_redirection:
  assumes "pin_count hw s \<le> 120" and "q < pin_count hw s"
    and "\<And>info. madt (acpi s) = Some info \<Longrightarrow> override_count info \<le> length (overrides info)"
  shows "redirection (ioapic_base s) r0 (events (init_ioapic hw s)) q =
      (case pin_override (ioapic_gsi_base s) (valid_overrides (acpi s)) q of
         None \<Rightarrow> (ucast (0x20 + ucast q :: u8) OR IOAPIC_MASKED, 0) | Some o' \<Rightarrow> override_entry o')"
    and "only_events s (init_ioapic hw s)"
proof -
  obtain ver where r: "ioapic_read hw 1 s = (ver, s\<lparr>events := events s @ [MmioWrite (ioapic_base s) (ucast (1 :: u8)), MmioRead (ioapic_base s + 0x10) ver]\<rparr>)"
    using ioapic_read_effect [of hw 1 s] by metis
  let ?s1 = "s\<lparr>events := events s @ [MmioWrite (ioapic_base s) (ucast (1 :: u8)), MmioRead (ioapic_base s + 0x10) ver]\<rparr>"
  let ?n = "pin_count hw s"
  have n: "(drop_bit 16 ver AND 0xFF) + 1 = ?n" by (simp add: pin_count_def r)
  define s2 where "s2 = fold (\<lambda>i. write_redirection (of_nat i) (0x20 + of_nat i) 0 IOAPIC_MASKED) [0..<unat ?n] ?s1"
  have o1: "only_events s ?s1" by (simp add: only_events_def)
  have o2: "only_events ?s1 s2" unfolding s2_def by (rule only_events_fold) simp
  have a2: "acpi s2 = acpi s" "ioapic_base s2 = ioapic_base s" using only_events_apic [OF o2] by simp_all
  have i: "init_ioapic hw s = fold (route_override (ioapic_gsi_base s) ?n) (valid_overrides (acpi s)) s2"
  proof (cases "madt (acpi s)")
    case None
    then show ?thesis using a2 unfolding init_ioapic_def r prod.case Let_def n s2_def [symmetric] by (simp add: valid_overrides_def)
  next
    case (Some info)
    then show ?thesis using a2 fold_nth [OF assms(3) [OF Some], of "route_override (ioapic_gsi_base s) ?n" s2]
      unfolding init_ioapic_def r prod.case Let_def n s2_def [symmetric] by (simp add: valid_overrides_def)
  qed
  have nn: "unat ?n \<le> 120" "q < 120" "unat q < unat ?n" using assms(1,2) by (simp_all add: word_le_nat_alt word_less_nat_alt)
  have "redirection (ioapic_base s) r0 (events s2) q = (ucast (0x20 + ucast q :: u8) OR IOAPIC_MASKED, 0)"
    using identity_fold [OF nn(1,2), where s = ?s1] nn(3) by (simp add: s2_def)
  then show "redirection (ioapic_base s) r0 (events (init_ioapic hw s)) q =
      (case pin_override (ioapic_gsi_base s) (valid_overrides (acpi s)) q of
         None \<Rightarrow> (ucast (0x20 + ucast q :: u8) OR IOAPIC_MASKED, 0) | Some o' \<Rightarrow> override_entry o')"
    using override_fold [OF assms(1,2), where s = s2] a2 unfolding i by (simp split: option.split)
  show "only_events s (init_ioapic hw s)"
    unfolding i by (rule only_events_trans [OF only_events_trans [OF o1 o2] only_events_fold]) simp
qed

subsection \<open>Masking\<close>

lemma bit_exp_u32: "bit (2 ^ k :: u32) i \<longleftrightarrow> i = k \<and> k < 32"
  by (auto simp: bit_exp_iff)

lemma bit_masked: "bit IOAPIC_MASKED n \<longleftrightarrow> n = 16"
  using bit_exp_u32 [of 16 n] by (simp add: IOAPIC_MASKED_def)

lemma bit_inti_bits: "bit IOAPIC_ACTIVE_LOW n \<longleftrightarrow> n = 13" "bit IOAPIC_LEVEL_TRIGGERED n \<longleftrightarrow> n = 15"
  using bit_exp_u32 [of 13 n] bit_exp_u32 [of 15 n] by (simp_all add: IOAPIC_ACTIVE_LOW_def IOAPIC_LEVEL_TRIGGERED_def)

lemma bit_read_only: "bit READ_ONLY n \<longleftrightarrow> n = 12 \<or> n = 14"
proof -
  have r: "READ_ONLY = 2 ^ 12 OR 2 ^ 14" by (simp add: READ_ONLY_def)
  show ?thesis unfolding r bit_or_iff bit_exp_u32 by simp
qed

lemma writable_bits:
  assumes "v AND NOT READ_ONLY = old AND NOT READ_ONLY" and "n \<noteq> 12" and "n \<noteq> 14" and "n < 32"
  shows "bit v n = bit old n"
  using assms(2-4) arg_cong [OF assms(1), where f = "\<lambda>w. bit w n"] by (simp add: bit_and_iff bit_not_iff bit_read_only)

text \<open>Reading an entry, changing its mask bit and writing it back changes that bit and, at most, the read-only bits.\<close>

lemma masked_update:
  assumes "v AND NOT READ_ONLY = old AND NOT READ_ONLY"
  shows "(v AND NOT IOAPIC_MASKED) AND NOT READ_ONLY = (old AND NOT IOAPIC_MASKED) AND NOT READ_ONLY"
    and "(v OR IOAPIC_MASKED) AND NOT READ_ONLY = (old OR IOAPIC_MASKED) AND NOT READ_ONLY"
proof -
  note b = writable_bits [OF assms]
  show "(v AND NOT IOAPIC_MASKED) AND NOT READ_ONLY = (old AND NOT IOAPIC_MASKED) AND NOT READ_ONLY"
    "(v OR IOAPIC_MASKED) AND NOT READ_ONLY = (old OR IOAPIC_MASKED) AND NOT READ_ONLY"
    by (rule bit_word_eqI, auto simp: bit_and_iff bit_or_iff bit_not_iff bit_read_only bit_masked b)+
qed

lemma read_modify_write:
  assumes "ioapic_answers hw (ioapic_base s) r0" and "pin < 120" and "q < 120"
    and "\<And>v old. v AND NOT READ_ONLY = old AND NOT READ_ONLY \<Longrightarrow> f v AND NOT READ_ONLY = f old AND NOT READ_ONLY"
  defines "s' \<equiv> (let (v, s1) = ioapic_read hw (reg_low pin) s in ioapic_write (reg_low pin) (f v) s1)"
  shows "only_events s s'"
    and "q \<noteq> pin \<Longrightarrow> redirection (ioapic_base s) r0 (events s') q = redirection (ioapic_base s) r0 (events s) q"
    and "fst (redirection (ioapic_base s) r0 (events s') pin) AND NOT READ_ONLY =
           f (fst (redirection (ioapic_base s) r0 (events s) pin)) AND NOT READ_ONLY"
    and "snd (redirection (ioapic_base s) r0 (events s') pin) = snd (redirection (ioapic_base s) r0 (events s) pin)"
proof -
  obtain v where r: "ioapic_read hw (reg_low pin) s =
      (v, s\<lparr>events := events s @ [MmioWrite (ioapic_base s) (ucast (reg_low pin)), MmioRead (ioapic_base s + 0x10) v]\<rparr>)"
    using ioapic_read_effect [of hw "reg_low pin" s] by metis
  let ?s1 = "s\<lparr>events := events s @ [MmioWrite (ioapic_base s) (ucast (reg_low pin)), MmioRead (ioapic_base s + 0x10) v]\<rparr>"
  have s': "s' = ioapic_write (reg_low pin) (f v) ?s1" by (simp add: s'_def r)
  have "only_events s ?s1" by (simp add: only_events_def)
  then show "only_events s s'" unfolding s' by (rule only_events_trans) simp
  have c: "snd (ioapic_contents (ioapic_base s) r0 (events s')) = (snd (ioapic_contents (ioapic_base s) r0 (events s)))(reg_low pin := f v)"
    using ioapic_write_contents [of ?s1 r0 "reg_low pin" "f v"] ioapic_read_contents [of "ioapic_base s" r0 "events s" "reg_low pin"]
    unfolding s' by simp
  note d = reg_distinct [OF assms(2,2)] reg_distinct [OF assms(2,3)] reg_distinct [OF assms(3,2)]
  show "redirection (ioapic_base s) r0 (events s') q = redirection (ioapic_base s) r0 (events s) q" if "q \<noteq> pin"
    using that d by (simp add: redirection_def c Let_def)
  show "snd (redirection (ioapic_base s) r0 (events s') pin) = snd (redirection (ioapic_base s) r0 (events s) pin)"
    using d by (simp add: redirection_def c Let_def)
  have "v AND NOT READ_ONLY = snd (ioapic_contents (ioapic_base s) r0 (events s)) (reg_low pin) AND NOT READ_ONLY"
    using ioapic_read_value [OF assms(1), of "reg_low pin"] d(5) r by (simp add: Let_def)
  from assms(4) [OF this] show "fst (redirection (ioapic_base s) r0 (events s') pin) AND NOT READ_ONLY =
      f (fst (redirection (ioapic_base s) r0 (events s) pin)) AND NOT READ_ONLY"
    by (simp add: redirection_def c Let_def)
qed

subsection \<open>Fields of an entry\<close>

definition entry_vector :: "u32 \<times> u32 \<Rightarrow> u8" where
  "entry_vector e = ucast (fst e)"

definition entry_masked :: "u32 \<times> u32 \<Rightarrow> bool" where
  "entry_masked e = bit (fst e) 16"

definition entry_active_low :: "u32 \<times> u32 \<Rightarrow> bool" where
  "entry_active_low e = bit (fst e) 13"

definition entry_level :: "u32 \<times> u32 \<Rightarrow> bool" where
  "entry_level e = bit (fst e) 15"

definition entry_destination :: "u32 \<times> u32 \<Rightarrow> u32" where
  "entry_destination e = drop_bit 24 (snd e)"

definition same_entry :: "u32 \<times> u32 \<Rightarrow> u32 \<times> u32 \<Rightarrow> bool" where
  "same_entry e e' \<longleftrightarrow> fst e AND NOT READ_ONLY = fst e' AND NOT READ_ONLY \<and> snd e = snd e'"

lemma same_entry_fields:
  assumes "same_entry e e'"
  shows "entry_vector e = entry_vector e'" and "entry_masked e = entry_masked e'" and "entry_active_low e = entry_active_low e'"
    and "entry_level e = entry_level e'" and "entry_destination e = entry_destination e'"
proof -
  have b: "bit (fst e) n = bit (fst e') n" if "n \<noteq> 12" "n \<noteq> 14" "n < 32" for n
    using that assms unfolding same_entry_def by (intro writable_bits) auto
  show "entry_vector e = entry_vector e'"
    unfolding entry_vector_def by (rule bit_word_eqI) (simp add: bit_ucast_iff b)
  show "entry_masked e = entry_masked e'" "entry_active_low e = entry_active_low e'" "entry_level e = entry_level e'"
    by (simp_all add: entry_masked_def entry_active_low_def entry_level_def b)
  show "entry_destination e = entry_destination e'" using assms by (simp add: same_entry_def entry_destination_def)
qed

lemma bit_inti_flags:
  "bit (inti_flags f) n \<longleftrightarrow> (n = 13 \<and> f AND 3 = 3) \<or> (n = 15 \<and> f AND 0xC = 0xC)"
  by (auto simp: inti_flags_def POLARITY_MASK_def POLARITY_ACTIVE_LOW_def TRIGGER_MASK_def TRIGGER_LEVEL_def bit_or_iff bit_inti_bits)

lemma entry_built:
  fixes v :: u8
  shows "entry_vector (ucast v OR (IOAPIC_MASKED OR inti_flags f), h) = v"
    and "entry_masked (ucast v OR (IOAPIC_MASKED OR inti_flags f), h)"
    and "entry_active_low (ucast v OR (IOAPIC_MASKED OR inti_flags f), h) = (f AND 3 = 3)"
    and "entry_level (ucast v OR (IOAPIC_MASKED OR inti_flags f), h) = (f AND 0xC = 0xC)"
  by (rule bit_word_eqI, auto simp: entry_vector_def bit_ucast_iff bit_or_iff bit_masked bit_inti_flags)
    (auto simp: entry_masked_def entry_active_low_def entry_level_def bit_ucast_iff bit_or_iff bit_masked bit_inti_flags
      dest: bit_imp_le_length)

lemma inti_flags_0 [simp]: "inti_flags 0 = 0"
  by (simp add: inti_flags_def POLARITY_MASK_def POLARITY_ACTIVE_LOW_def TRIGGER_MASK_def TRIGGER_LEVEL_def)

subsection \<open>Which pin serves an ISA interrupt\<close>

lemma find_unique: "x \<in> set xs \<Longrightarrow> P x \<Longrightarrow> (\<And>y. y \<in> set xs \<Longrightarrow> P y \<Longrightarrow> y = x) \<Longrightarrow> find P xs = Some x"
proof (induction xs)
  case (Cons a xs)
  show ?case
  proof (cases "P a")
    case True
    then show ?thesis using Cons.prems(3) [of a] by simp
  next
    case False
    then have "x \<in> set xs" using Cons.prems(1,2) by auto
    moreover have "y = x" if "y \<in> set xs" "P y" for y using that by (intro Cons.prems(3)) simp_all
    ultimately have "find P xs = Some x" using Cons.IH Cons.prems(2) by blast
    then show ?thesis using False by simp
  qed
qed simp

lemma isa_irq_to_gsi_overrides:
  "isa_irq_to_gsi irq a = (case find (\<lambda>o'. isa_irq o' = irq) (valid_overrides a) of
     Some o' \<Rightarrow> (ov_gsi o', ov_flags o') | None \<Rightarrow> (ucast irq, 0))"
  by (simp add: isa_irq_to_gsi_def valid_overrides_def split: option.split)

text \<open>The MADT describes the line of an ISA interrupt without ambiguity: no two overrides share a pin, and an interrupt
  without an override keeps the pin of its own number.\<close>

definition unambiguous :: "interrupt_override list \<Rightarrow> u8 \<Rightarrow> bool" where
  "unambiguous ovs irq \<longleftrightarrow> distinct (map ov_gsi ovs)
     \<and> (find (\<lambda>o'. isa_irq o' = irq) ovs = None \<longrightarrow> list_all (\<lambda>o'. ov_gsi o' \<noteq> ucast irq) ovs)"

lemma pin_override_of_irq:
  assumes "unambiguous ovs irq"
  shows "pin_override 0 ovs (case find (\<lambda>o'. isa_irq o' = irq) ovs of Some o' \<Rightarrow> ov_gsi o' | None \<Rightarrow> ucast irq)
    = find (\<lambda>o'. isa_irq o' = irq) ovs"
proof (cases "find (\<lambda>o'. isa_irq o' = irq) ovs")
  case None
  then have "\<forall>o' \<in> set ovs. ov_gsi o' \<noteq> ucast irq" using assms by (simp add: unambiguous_def list_all_iff)
  then have "find (\<lambda>x. ov_gsi x = ucast irq) (rev ovs) = None" by (auto simp: find_None_iff)
  then show ?thesis using None by (simp add: pin_override_def)
next
  case (Some o')
  then have "o' \<in> set ovs" by (auto simp: find_Some_iff)
  then have "find (\<lambda>x. ov_gsi x = ov_gsi o') (rev ovs) = Some o'"
    using assms by (intro find_unique) (auto simp: unambiguous_def distinct_map inj_on_def)
  then show ?thesis using Some by (simp add: pin_override_def)
qed

lemma only_events_unmask [simp]: "only_events s (unmask_irq hw irq s)"
  by (simp add: unmask_irq_def ioapic_read_def ioapic_write_def mmio_read_def mmio_write_def only_events_def emit_def Let_def)

lemma unmask_irq_redirection:
  assumes "ioapic_answers hw (ioapic_base s) r0" and "isa_irq_pin irq s < 120" and "q < 120"
  defines "t \<equiv> redirection (ioapic_base s) r0"
  shows "q \<noteq> isa_irq_pin irq s \<Longrightarrow> t (events (unmask_irq hw irq s)) q = t (events s) q"
    and "same_entry (t (events (unmask_irq hw irq s)) (isa_irq_pin irq s))
           (let (low, high) = t (events s) (isa_irq_pin irq s) in (low AND NOT IOAPIC_MASKED, high))"
proof -
  let ?p = "isa_irq_pin irq s" and ?f = "\<lambda>v. v AND NOT IOAPIC_MASKED"
  have u: "unmask_irq hw irq s = (let (v, s1) = ioapic_read hw (reg_low ?p) s in ioapic_write (reg_low ?p) (?f v) s1)"
    by (simp add: unmask_irq_def Let_def)
  note m = read_modify_write [OF assms(1,2), where f = ?f, OF _ masked_update(1), folded u]
  show "q \<noteq> ?p \<Longrightarrow> t (events (unmask_irq hw irq s)) q = t (events s) q" unfolding t_def by (rule m(2) [OF assms(3)])
  show "same_entry (t (events (unmask_irq hw irq s)) ?p) (let (low, high) = t (events s) ?p in (low AND NOT IOAPIC_MASKED, high))"
    using m(3,4) [OF assms(2)] by (simp add: same_entry_def t_def split: prod.split)
qed

subsection \<open>Properties\<close>

text \<open>Initialisation leaves no line open: on an I/O APIC of at most 120 pins every redirection entry is masked, goes to processor
  0, and carries the vector of its pin or, where ACPI moved an ISA interrupt to the pin, the vector, polarity and
  trigger mode of that interrupt.\<close>
theorem init_ioapic_masks_every_pin:
  fixes r0 :: "u8 \<Rightarrow> u32"
  assumes "pin_count hw s \<le> 120" and "pin < pin_count hw s"
    and "\<And>info. madt (acpi s) = Some info \<Longrightarrow> override_count info \<le> length (overrides info)"
  defines "e \<equiv> redirection (ioapic_base s) r0 (events (init_ioapic hw s)) pin"
  shows "entry_masked e \<and> entry_destination e = 0
    \<and> (case pin_override (ioapic_gsi_base s) (valid_overrides (acpi s)) pin of
         None \<Rightarrow> entry_vector e = 0x20 + ucast pin \<and> \<not> entry_active_low e \<and> \<not> entry_level e
       | Some o' \<Rightarrow> entry_vector e = 0x20 + isa_irq o' \<and> (entry_active_low e \<longleftrightarrow> ov_flags o' AND 3 = 3)
                     \<and> (entry_level e \<longleftrightarrow> ov_flags o' AND 0xC = 0xC))"
  using init_ioapic_redirection(1) [OF assms(1-3)] entry_built [where f = 0] entry_built
  by (simp add: e_def override_entry_def entry_destination_def split: option.split)

text \<open>C13. An enabled ISA interrupt arrives at its handler's vector, with at most 120 pins and a MADT that gives it a pin of its own: after initialisation and \<^verbatim>\<open>unmask_irq\<close>, the pin that ACPI assigns to the
  interrupt is unmasked with vector \<open>32 + irq\<close>, the polarity and trigger mode of the MADT and processor 0 as destination, and
  every other pin is still masked.\<close>
theorem unmasked_irq_is_delivered:
  assumes "ioapic_answers hw (ioapic_base s) r0" and "pin_count hw s \<le> 120" and "ioapic_gsi_base s = 0"
    and "\<And>info. madt (acpi s) = Some info \<Longrightarrow> override_count info \<le> length (overrides info)"
    and "unambiguous (valid_overrides (acpi s)) irq" and "isa_irq_pin irq s < pin_count hw s"
  defines "t \<equiv> redirection (ioapic_base s) r0 (events (unmask_irq hw irq (init_ioapic hw s)))"
  shows "entry_vector (t (isa_irq_pin irq s)) = IRQ_BASE_VECTOR + irq \<and> \<not> entry_masked (t (isa_irq_pin irq s))
    \<and> entry_destination (t (isa_irq_pin irq s)) = 0
    \<and> (let flags = snd (isa_irq_to_gsi irq (acpi s)) in
         (entry_active_low (t (isa_irq_pin irq s)) \<longleftrightarrow> flags AND 3 = 3) \<and> (entry_level (t (isa_irq_pin irq s)) \<longleftrightarrow> flags AND 0xC = 0xC))
    \<and> (\<forall>q. q < pin_count hw s \<and> q \<noteq> isa_irq_pin irq s \<longrightarrow> entry_masked (t q))"
proof -
  let ?s1 = "init_ioapic hw s" and ?ovs = "valid_overrides (acpi s)" and ?pin = "isa_irq_pin irq s"
  let ?o = "find (\<lambda>o'. isa_irq o' = irq) ?ovs"
  let ?flags = "snd (isa_irq_to_gsi irq (acpi s))"
  note init = init_ioapic_redirection(1) [OF assms(2) _ assms(4), where ?r0.0 = r0]
  have f: "ioapic_base ?s1 = ioapic_base s" "isa_irq_pin irq ?s1 = ?pin"
    using only_events_apic [OF init_ioapic_redirection(2) [OF assms(2,6,4)]] by (simp_all add: isa_irq_pin_def)
  have pin: "?pin = (case ?o of Some o' \<Rightarrow> ov_gsi o' | None \<Rightarrow> ucast irq)"
    by (simp add: isa_irq_pin_def isa_irq_to_gsi_overrides assms(3) split: option.split)
  have q120: "q < 120" if "q < pin_count hw s" for q using that assms(2) by order
  note unmask = unmask_irq_redirection [of hw ?s1 r0 irq, unfolded f, OF assms(1) q120 [OF assms(6)]]
  have old: "redirection (ioapic_base s) r0 (events ?s1) ?pin = (ucast (0x20 + irq) OR (IOAPIC_MASKED OR inti_flags ?flags), 0)"
  proof (cases ?o)
    case None
    then have "?pin = ucast irq" using pin by simp
    then show ?thesis using init [OF assms(6)] None pin_override_of_irq [OF assms(5)]
      by (simp add: assms(3) isa_irq_to_gsi_overrides)
  next
    case (Some o')
    then have "isa_irq o' = irq" by (auto simp: find_Some_iff)
    then show ?thesis using init [OF assms(6)] Some pin pin_override_of_irq [OF assms(5)]
      by (simp add: assms(3) isa_irq_to_gsi_overrides override_entry_def)
  qed
  have new: "same_entry (t ?pin) ((ucast (0x20 + irq) OR (IOAPIC_MASKED OR inti_flags ?flags)) AND NOT IOAPIC_MASKED, 0)"
    using unmask(2) [OF q120 [OF assms(6)]] by (simp add: t_def old)
  have fields: "entry_vector ((w OR (IOAPIC_MASKED OR x)) AND NOT IOAPIC_MASKED, 0) = entry_vector (w OR (IOAPIC_MASKED OR x), 0)"
    "entry_active_low ((w OR (IOAPIC_MASKED OR x)) AND NOT IOAPIC_MASKED, 0) = entry_active_low (w OR (IOAPIC_MASKED OR x), 0)"
    "entry_level ((w OR (IOAPIC_MASKED OR x)) AND NOT IOAPIC_MASKED, 0) = entry_level (w OR (IOAPIC_MASKED OR x), 0)"
    "\<not> entry_masked ((w OR (IOAPIC_MASKED OR x)) AND NOT IOAPIC_MASKED, 0)" for w x
    by (auto simp: entry_vector_def entry_active_low_def entry_level_def entry_masked_def bit_and_iff bit_or_iff bit_not_iff
        bit_masked bit_ucast_iff intro!: bit_word_eqI)
  have masked: "entry_masked (t q)" if "q < pin_count hw s" "q \<noteq> ?pin" for q
  proof -
    have "t q = redirection (ioapic_base s) r0 (events ?s1) q" unfolding t_def by (rule unmask(1) [OF q120 [OF that(1)] that(2)])
    then show ?thesis using init [OF that(1)] entry_built(2) [where f = 0] entry_built(2)
      by (simp add: override_entry_def split: option.split)
  qed
  show ?thesis using same_entry_fields [OF new] fields entry_built masked
    by (simp add: IRQ_BASE_VECTOR_def entry_destination_def Let_def)
qed

text \<open>The local APIC is enabled in the documented order: the global enable bit is added to what the base register held, the
  destination format is flat, every local interrupt source is masked before the APIC is software-enabled with
  255 as its spurious vector, and a last end-of-interrupt clears what was pending; nothing else of the machine changes.\<close>
theorem init_lapic_sequence:
  fixes hw :: hardware and s :: "'a apic_scheme"
  defines "base \<equiv> lapic_base s" and "s' \<equiv> init_lapic hw s"
  shows "\<exists>(msr :: u64) low high v. s' = s\<lparr>events := events s @
      [RdMsr 0x1B low high, WrMsr 0x1B (ucast msr) (ucast (drop_bit 32 msr)), MmioWrite (base + 0xE0) 0xFFFFFFFF,
       MmioRead (base + 0x20) v, MmioWrite (base + 0xD0) (v AND 0xFF000000), MmioWrite (base + 0x80) 0,
       MmioWrite (base + 0x320) 0x10000, MmioWrite (base + 0x350) 0x10000, MmioWrite (base + 0x360) 0x10000,
       MmioWrite (base + 0x370) 0x10000, MmioWrite (base + 0xF0) (ucast SPURIOUS_VECTOR OR 0x100), MmioWrite (base + 0xB0) 0]\<rparr>
    \<and> msr = (push_bit 32 (ucast high) OR ucast low) OR push_bit 11 1"
proof -
  have id: "push_bit 24 (drop_bit 24 v AND 0xFF) = v AND 0xFF000000" for v :: u32
  proof -
    have m: "(0xFF000000 :: u32) = push_bit 24 (mask 8)" by (simp add: mask_eq_exp_minus_1)
    show ?thesis unfolding m mask_numerals
      by (rule bit_word_eqI) (auto simp: bit_push_bit_iff bit_take_bit_iff bit_drop_bit_eq bit_and_iff bit_mask_iff simp del: push_bit_mask_eq)
  qed
  obtain low high where m: "hw_rdmsr hw (events s) 0x1B = (low, high)" by (cases "hw_rdmsr hw (events s) 0x1B")
  define msr where "msr = (push_bit 32 (ucast high) OR ucast low) OR push_bit 11 (1 :: u64)"
  define v where "v = hw_mmio hw (events s @ [RdMsr 0x1B low high, WrMsr 0x1B (ucast msr) (ucast (drop_bit 32 msr)),
    MmioWrite (base + 0xE0) 0xFFFFFFFF]) (base + 0x20)"
  have "rdmsr hw IA32_APIC_BASE_MSR s = (push_bit 32 (ucast high) OR ucast low, s\<lparr>events := events s @ [RdMsr 0x1B low high]\<rparr>)"
    by (simp only: rdmsr_def IA32_APIC_BASE_MSR_def m prod.case emit_def Let_def)
  then have "s' = s\<lparr>events := events s @
      [RdMsr 0x1B low high, WrMsr 0x1B (ucast msr) (ucast (drop_bit 32 msr)), MmioWrite (base + 0xE0) 0xFFFFFFFF,
       MmioRead (base + 0x20) v, MmioWrite (base + 0xD0) (push_bit 24 (drop_bit 24 v AND 0xFF)), MmioWrite (base + 0x80) 0,
       MmioWrite (base + 0x320) 0x10000, MmioWrite (base + 0x350) 0x10000, MmioWrite (base + 0x360) 0x10000,
       MmioWrite (base + 0x370) 0x10000, MmioWrite (base + 0xF0) (ucast SPURIOUS_VECTOR OR 0x100), MmioWrite (base + 0xB0) 0]\<rparr>"
    unfolding s'_def init_lapic_def
    by (simp add: msr_def [symmetric] wrmsr_def IA32_APIC_BASE_MSR_def lapic_read_def lapic_write_def mmio_read_def
        mmio_write_def lapic_consts emit_def Let_def SPURIOUS_VECTOR_def base_def v_def del: push_bit_and push_bit_of_1 drop_bit_or)
  then show ?thesis using msr_def unfolding id by (intro exI [of _ msr] exI [of _ low] exI [of _ high] exI [of _ v] conjI)
qed

text \<open>More than 120 pins are not handled: the register number of pin 120 wraps to that of the identification register.\<close>

lemma pin_120_is_not_a_redirection: "reg_low 120 = 0 \<and> reg_high 120 = 1"
  by (simp add: reg_low_def reg_high_def)

lemma route_irq_redirection:
  assumes "isa_irq_pin irq s < 120" and "q < 120"
  shows "redirection (ioapic_base s) r0 (events (route_irq irq v d masked s)) q =
    (if q = isa_irq_pin irq s
     then (ucast v OR (inti_flags (snd (isa_irq_to_gsi irq (acpi s))) OR (if masked then IOAPIC_MASKED else 0)), push_bit 24 (ucast d))
     else redirection (ioapic_base s) r0 (events s) q)"
  using write_redirection_table [OF assms, of s r0 v d]
  by (cases "isa_irq_to_gsi irq (acpi s)"; cases masked; cases "q = isa_irq_pin irq s") (simp_all add: route_irq_def)

subsection \<open>Concrete instances\<close>

text \<open>A machine as QEMU presents it: 24 pins, and the timer of IRQ 0 on pin 2.\<close>

definition qemu_registers :: "u8 \<Rightarrow> u32" where
  "qemu_registers r = (if r = 1 then 0x00170011 else 0)"

definition qemu_hardware :: hardware where
  "qemu_hardware = \<lparr>hw_inb = (\<lambda>_ _. 0x20), hw_inw = (\<lambda>_ _. 0), hw_inl = (\<lambda>_ _. 0), hw_rdmsr = (\<lambda>_ _. (0xFEE00900, 0)),
     hw_mmio = (\<lambda>es a. if a = 0xFEC00010 then let (sel, rs) = ioapic_contents 0xFEC00000 qemu_registers es in rs sel else 0),
     hw_cr2 = (\<lambda>_. 0), hw_cr3 = (\<lambda>_. 0)\<rparr>"

definition qemu_acpi :: acpi_state where
  "qemu_acpi = \<lparr>rsdp_address = 0xF5AF0, madt_static = madt_info_new\<lparr>lapic_address := 0xFEE00000, override_count := 1,
     overrides := (overrides madt_info_new)[0 := \<lparr>isa_irq = 0, ov_gsi = 2, ov_flags = 0\<rparr>]\<rparr>, madt_valid = True\<rparr>"

definition qemu_apic :: apic where
  "qemu_apic = idt_tables.extend fresh_tables (apic.fields qemu_acpi 0xFEE00000 0xFEC00000 0)"

lemma qemu_apic_fields [simp]:
  "events qemu_apic = []" "acpi qemu_apic = qemu_acpi" "lapic_base qemu_apic = 0xFEE00000" "ioapic_base qemu_apic = 0xFEC00000"
  "ioapic_gsi_base qemu_apic = 0"
  by (simp_all add: qemu_apic_def idt_tables.defs apic.defs fresh_tables_def segments.defs firmware_segments_def)

lemma qemu_answers: "ioapic_answers qemu_hardware 0xFEC00000 qemu_registers"
  by (auto simp: ioapic_answers_def qemu_hardware_def Let_def split: prod.split)

lemma qemu_pins: "pin_count qemu_hardware qemu_apic = 24"
  using ioapic_read_value [of qemu_hardware qemu_apic qemu_registers 1] qemu_answers
  by (simp add: pin_count_def Let_def ioapic_contents_def qemu_registers_def word_le_nat_alt)

lemma qemu_overrides: "madt qemu_acpi = Some info \<Longrightarrow> override_count info \<le> length (overrides info)"
  by (auto simp: madt_def qemu_acpi_def madt_info_new_def MAX_OVERRIDES_def)

lemma qemu_valid_overrides: "valid_overrides qemu_acpi = [\<lparr>isa_irq = 0, ov_gsi = 2, ov_flags = 0\<rparr>]"
  by (simp add: valid_overrides_def madt_def qemu_acpi_def madt_info_new_def MAX_OVERRIDES_def take_Suc hd_conv_nth)

theorem init_ioapic_masks_every_pin_witness:
  "entry_masked (redirection 0xFEC00000 qemu_registers (events (init_ioapic qemu_hardware qemu_apic)) 2)
   \<and> entry_vector (redirection 0xFEC00000 qemu_registers (events (init_ioapic qemu_hardware qemu_apic)) 2) = 0x20"
  using init_ioapic_masks_every_pin [of qemu_hardware qemu_apic 2 qemu_registers] qemu_overrides
  by (simp add: qemu_pins qemu_valid_overrides pin_override_def)

theorem unmasked_irq_is_delivered_witness:
  "entry_vector (redirection 0xFEC00000 qemu_registers (events (unmask_irq qemu_hardware 4 (init_ioapic qemu_hardware qemu_apic))) 4) = 36"
proof -
  have pin: "isa_irq_pin 4 qemu_apic = 4" by (simp add: isa_irq_pin_def isa_irq_to_gsi_overrides qemu_valid_overrides)
  have u: "unambiguous (valid_overrides (acpi qemu_apic)) 4" by (simp add: unambiguous_def qemu_valid_overrides)
  show ?thesis
    using unmasked_irq_is_delivered [of qemu_hardware qemu_apic qemu_registers 4, OF _ _ _ _ u] qemu_overrides qemu_answers
    by (simp add: qemu_pins pin IRQ_BASE_VECTOR_def)
qed

end
