(* ===== verification/Idt_Stubs.thy ===== *)
theory Idt_Stubs
  imports Machine Idt
begin

text \<open>
  The assembly entry points of \<^verbatim>\<open>src/src/idt.rs\<close> and what they do around a handler: how the processor enters a gate, how
  the stub lays out the \<^verbatim>\<open>ExceptionFrame\<close> its dispatcher reads, and that everything is back in place when the
  dispatcher has returned.
\<close>

subsection \<open>Frames\<close>

record registers =
  reg_r15 :: u64
  reg_r14 :: u64
  reg_r13 :: u64
  reg_r12 :: u64
  reg_r11 :: u64
  reg_r10 :: u64
  reg_r9 :: u64
  reg_r8 :: u64
  reg_rbp :: u64
  reg_rdi :: u64
  reg_rsi :: u64
  reg_rdx :: u64
  reg_rcx :: u64
  reg_rbx :: u64
  reg_rax :: u64

record exception_frame =
  frame_regs :: registers
  frame_vector :: u64
  frame_error_code :: u64
  frame_rip :: u64
  frame_cs :: u64
  frame_rflags :: u64
  frame_rsp :: u64
  frame_ss :: u64

text \<open>\<^verbatim>\<open>&ExceptionFrame\<close>: the fields of the \<^verbatim>\<open>repr(C)\<close> structure at their offsets.\<close>

definition exception_frame_at :: "bytes \<Rightarrow> u64 \<Rightarrow> exception_frame" where
  "exception_frame_at m p =
     \<lparr>frame_regs = \<lparr>reg_r15 = load64 m p, reg_r14 = load64 m (p + 8), reg_r13 = load64 m (p + 16), reg_r12 = load64 m (p + 24),
        reg_r11 = load64 m (p + 32), reg_r10 = load64 m (p + 40), reg_r9 = load64 m (p + 48), reg_r8 = load64 m (p + 56),
        reg_rbp = load64 m (p + 64), reg_rdi = load64 m (p + 72), reg_rsi = load64 m (p + 80), reg_rdx = load64 m (p + 88),
        reg_rcx = load64 m (p + 96), reg_rbx = load64 m (p + 104), reg_rax = load64 m (p + 112)\<rparr>,
      frame_vector = load64 m (p + 120), frame_error_code = load64 m (p + 128), frame_rip = load64 m (p + 136),
      frame_cs = load64 m (p + 144), frame_rflags = load64 m (p + 152), frame_rsp = load64 m (p + 160), frame_ss = load64 m (p + 168)\<rparr>"

subsection \<open>The stubs\<close>

definition save_all :: "instr list" where
  "save_all = map Push [RAX, RBX, RCX, RDX, RSI, RDI, RBP, R8, R9, R10, R11, R12, R13, R14, R15]"

definition restore_all :: "instr list" where
  "restore_all = map Pop [R15, R14, R13, R12, R11, R10, R9, R8, RBP, RDI, RSI, RDX, RCX, RBX, RAX]"

definition EXCEPTION_ERR :: "nat list" where
  "EXCEPTION_ERR = [8, 10, 11, 12, 13, 14, 17, 21, 30]"

text \<open>A stub is the code up to its call, whose return address is \<open>ret\<close>, and the code behind the call.\<close>

definition common_exception_entry :: "u64 \<Rightarrow> u64 \<Rightarrow> instr list" where
  "common_exception_entry dispatcher ret = save_all @ [MovReg RDI RSP, Call dispatcher ret]"

definition common_exception_exit :: "instr list" where
  "common_exception_exit = restore_all @ [AddImm RSP 16, Iretq]"

definition exception_stub :: "nat \<Rightarrow> u64 \<Rightarrow> u64 \<Rightarrow> instr list" where
  "exception_stub vector dispatcher ret =
     (if List.member EXCEPTION_ERR vector then [PushImm (of_nat vector)] else [PushImm 0, PushImm (of_nat vector)])
     @ common_exception_entry dispatcher ret"

definition irq_stub :: "nat \<Rightarrow> u64 \<Rightarrow> u64 \<Rightarrow> instr list" where
  "irq_stub irq dispatcher ret = save_all @ [MovImm RDI (of_nat irq), Call dispatcher ret]"

definition generic_irq_stub :: "u64 \<Rightarrow> u64 \<Rightarrow> instr list" where
  "generic_irq_stub dispatcher ret = save_all @ [Call dispatcher ret]"

definition irq_stub_exit :: "instr list" where
  "irq_stub_exit = restore_all @ [Iretq]"

definition spurious_irq_stub :: "instr list" where
  "spurious_irq_stub = [Iretq]"

subsection \<open>Entering a gate\<close>

text \<open>An interrupt in 64-bit mode through a gate without an interrupt stack: the stack is aligned to 16 bytes, ss, rsp,
  rflags, cs and rip are pushed, for some exceptions an error code follows, and TF, IF, NT, RF and VM are cleared.\<close>

text \<open>The exceptions for which the architecture pushes an error code (Intel SDM volume 3, table 6-1, and AMD APM volume 2, chapter 8): #DF, #TS, #NP,
  #SS, #GP, #PF, #AC, #CP, #VC and #SX.\<close>

definition pushes_error_code :: "nat \<Rightarrow> bool" where
  "pushes_error_code v \<longleftrightarrow> v \<in> {8, 10, 11, 12, 13, 14, 17, 21, 29, 30}"

definition deliver :: "idt_entry \<Rightarrow> u64 option \<Rightarrow> cpu \<Rightarrow> cpu" where
  "deliver g err c =
     (let c0 = put_reg RSP (regs c RSP AND NOT 0xF) c;
          ws = [ucast (cpu_ss c), regs c RSP, cpu_rflags c, ucast (cpu_cs c), cpu_rip c] @ (case err of None \<Rightarrow> [] | Some e \<Rightarrow> [e])
      in (fold push_word ws c0)\<lparr>cpu_rip := gate_offset g, cpu_cs := selector g, cpu_rflags := cpu_rflags c AND NOT 0x34300\<rparr>)"

definition saved_regs :: "reg list" where
  "saved_regs = [RAX, RBX, RCX, RDX, RSI, RDI, RBP, R8, R9, R10, R11, R12, R13, R14, R15]"

definition return_words :: "cpu \<Rightarrow> u64 list" where
  "return_words c = [ucast (cpu_ss c), regs c RSP, cpu_rflags c, ucast (cpu_cs c), cpu_rip c]"

lemma saved_regs_simps:
  "save_all = map Push saved_regs" "restore_all = map Pop (rev saved_regs)" "length saved_regs = 15" "RSP \<notin> set saved_regs"
  by (simp_all add: save_all_def restore_all_def saved_regs_def)

lemma saved_regs_all: "r = RSP \<or> r \<in> set saved_regs"
  by (cases r) (simp_all add: saved_regs_def)

lemma push_word_frame:
  "push_word v (c\<lparr>cpu_rip := a, cpu_cs := b, cpu_rflags := f\<rparr>) = (push_word v c)\<lparr>cpu_rip := a, cpu_cs := b, cpu_rflags := f\<rparr>"
  by (simp add: push_word_def put_reg_def Let_def)

lemma fold_push_frame:
  "fold push_word ws (c\<lparr>cpu_rip := a, cpu_cs := b, cpu_rflags := f\<rparr>) = (fold push_word ws c)\<lparr>cpu_rip := a, cpu_cs := b, cpu_rflags := f\<rparr>"
  by (induction ws arbitrary: c) (simp_all add: push_word_frame)

lemma fold_push_regs: "r \<noteq> RSP \<Longrightarrow> regs (fold push_word ws c) r = regs c r"
  by (induction ws arbitrary: c) (simp_all add: push_word_def put_reg_def Let_def)

lemma deliver_regs: "r \<noteq> RSP \<Longrightarrow> regs (deliver g err c) r = regs c r"
  by (simp add: deliver_def push_word_def put_reg_def Let_def split: option.split)

lemma exec_push_imms: "exec (map PushImm ws) c = fold push_word ws c"
  by (induction ws arbitrary: c) simp_all

text \<open>Everything up to the call: the words the processor and the stub push are on the stack, oldest at the highest address.\<close>

lemma entry_pushes:
  fixes c :: cpu and err :: "u64 option" and ws :: "u64 list"
  assumes "length ws \<le> 2"
  defines "all \<equiv> return_words c @ (case err of None \<Rightarrow> [] | Some e \<Rightarrow> [e]) @ ws @ map (regs c) saved_regs"
    and "stk \<equiv> regs c RSP AND NOT 0xF"
  obtains m where "exec (map PushImm ws @ save_all) (deliver g err c) =
      c\<lparr>regs := (regs c)(RSP := stk - of_nat (8 * length all)), cpu_rip := gate_offset g, cpu_cs := selector g,
        cpu_rflags := cpu_rflags c AND NOT 0x34300, cpu_mem := m\<rparr>"
    and "stack_words m (stk - of_nat (8 * length all)) (rev all)"
    and "\<And>x. x \<notin> span (stk - of_nat (8 * length all)) (8 * length all) \<Longrightarrow> m x = cpu_mem c x"
proof -
  let ?c0 = "put_reg RSP stk c"
  let ?hw = "return_words c @ (case err of None \<Rightarrow> [] | Some e \<Rightarrow> [e])"
  have len: "8 * length all \<le> 2 ^ 64" using assms(1) by (simp add: all_def return_words_def saved_regs_simps split: option.split)
  have d: "deliver g err c = (fold push_word ?hw ?c0)\<lparr>cpu_rip := gate_offset g, cpu_cs := selector g, cpu_rflags := cpu_rflags c AND NOT 0x34300\<rparr>"
    by (simp add: deliver_def return_words_def stk_def)
  have r: "map (regs (fold push_word (?hw @ ws) ?c0)) saved_regs = map (regs c) saved_regs"
  proof (rule map_cong [OF refl])
    fix r assume "r \<in> set saved_regs"
    then have "r \<noteq> RSP" using saved_regs_simps(4) by blast
    then show "regs (fold push_word (?hw @ ws) ?c0) r = regs c r" unfolding fold_push_regs [OF \<open>r \<noteq> RSP\<close>] by (simp add: put_reg_def)
  qed
  have "exec (map PushImm ws @ save_all) (deliver g err c) =
      exec save_all ((fold push_word (?hw @ ws) ?c0)\<lparr>cpu_rip := gate_offset g, cpu_cs := selector g, cpu_rflags := cpu_rflags c AND NOT 0x34300\<rparr>)"
    by (simp add: exec_push_imms d fold_push_frame)
  also have "\<dots> = (fold push_word all ?c0)\<lparr>cpu_rip := gate_offset g, cpu_cs := selector g, cpu_rflags := cpu_rflags c AND NOT 0x34300\<rparr>"
    using r by (simp add: saved_regs_simps(1) exec_pushes [OF saved_regs_simps(4)] fold_push_frame all_def del: map_eq_conv)
  finally have e: "exec (map PushImm ws @ save_all) (deliver g err c) = \<dots>" .
  obtain m where m: "fold push_word all ?c0 = ?c0\<lparr>regs := (regs ?c0)(RSP := stk - of_nat (8 * length all)), cpu_mem := m\<rparr>"
    "stack_words m (stk - of_nat (8 * length all)) (rev all)"
    "\<And>x. x \<notin> span (stk - of_nat (8 * length all)) (8 * length all) \<Longrightarrow> m x = cpu_mem ?c0 x"
    using fold_push_word [OF len, of ?c0] by (auto simp: put_reg_def)
  show thesis
  proof (rule that [OF _ m(2)])
    show "exec (map PushImm ws @ save_all) (deliver g err c) = c\<lparr>regs := (regs c)(RSP := stk - of_nat (8 * length all)),
        cpu_rip := gate_offset g, cpu_cs := selector g, cpu_rflags := cpu_rflags c AND NOT 0x34300, cpu_mem := m\<rparr>"
      unfolding e m(1) by (simp add: put_reg_def)
    show "m x = cpu_mem c x" if "x \<notin> span (stk - of_nat (8 * length all)) (8 * length all)" for x
      using m(3) [OF that] by (simp add: put_reg_def)
  qed
qed

lemma ucast_selector [simp]: "ucast (ucast (w :: u16) :: u64) = w"
  by (rule bit_word_eqI) (simp add: bit_ucast_iff)

lemma exec_restore:
  assumes "stack_words (cpu_mem c') (regs c' RSP) (rev (map (regs c) saved_regs) @ vs)"
  shows "exec restore_all c' = c'\<lparr>regs := (regs c)(RSP := regs c' RSP + 120)\<rparr>"
    and "stack_words (cpu_mem c') (regs c' RSP + 120) vs"
proof -
  have w: "stack_words (cpu_mem c') (regs c' RSP) (map (regs c) (rev saved_regs))"
    using assms by (simp add: stack_words_append rev_map)
  have "exec restore_all c' = c'\<lparr>regs := (\<lambda>r. if r = RSP then regs c' RSP + of_nat (8 * length (rev saved_regs))
      else if r \<in> set (rev saved_regs) then regs c r else regs c' r)\<rparr>"
    unfolding saved_regs_simps(2) by (rule exec_pops) (use w saved_regs_simps(4) in simp_all)
  moreover have "(\<lambda>r. if r = RSP then regs c' RSP + of_nat (8 * length (rev saved_regs)) else if r \<in> set (rev saved_regs) then regs c r else regs c' r)
      = (regs c)(RSP := regs c' RSP + 120)"
  proof (rule ext)
    fix r show "(if r = RSP then regs c' RSP + of_nat (8 * length (rev saved_regs)) else if r \<in> set (rev saved_regs) then regs c r else regs c' r)
        = ((regs c)(RSP := regs c' RSP + 120)) r"
      using saved_regs_all [of r] by (auto simp: saved_regs_simps(3))
  qed
  ultimately show "exec restore_all c' = c'\<lparr>regs := (regs c)(RSP := regs c' RSP + 120)\<rparr>" by simp
  show "stack_words (cpu_mem c') (regs c' RSP + 120) vs"
    using assms by (simp add: stack_words_append saved_regs_simps(3))
qed

definition resumed :: "cpu \<Rightarrow> cpu \<Rightarrow> cpu" where
  "resumed c c' = c'\<lparr>regs := regs c, cpu_rflags := cpu_rflags c, cpu_rip := cpu_rip c, cpu_cs := cpu_cs c, cpu_ss := cpu_ss c\<rparr>"

lemma exec_iretq:
  assumes "stack_words (cpu_mem c') (regs c' RSP) (rev (return_words c))" and "\<And>r. r \<noteq> RSP \<Longrightarrow> regs c' r = regs c r"
  shows "exec1 Iretq c' = resumed c c'"
proof -
  have "load64 (cpu_mem c') (regs c' RSP) = cpu_rip c" "load64 (cpu_mem c') (regs c' RSP + 8) = ucast (cpu_cs c)"
    "load64 (cpu_mem c') (regs c' RSP + 16) = cpu_rflags c" "load64 (cpu_mem c') (regs c' RSP + 24) = regs c RSP"
    "load64 (cpu_mem c') (regs c' RSP + 32) = ucast (cpu_ss c)"
    using assms(1) by (simp_all add: return_words_def stack_words_Cons add.assoc)
  then show ?thesis
    using assms(2) by (auto simp: resumed_def put_reg_def Let_def intro!: cpu.equality)
qed

text \<open>The two ways out: past a vector and an error code, or straight from the saved registers.\<close>

lemma exception_exit:
  assumes "stack_words (cpu_mem c') (regs c' RSP) (rev (map (regs c) saved_regs) @ [a, b] @ rev (return_words c))"
  shows "exec common_exception_exit c' = resumed c c'"
proof -
  note r = exec_restore [OF assms]
  have w: "stack_words (cpu_mem c') (regs c' RSP + 120 + 16) (rev (return_words c))" using r(2) by (simp add: stack_words_Cons add.assoc)
  let ?c = "exec1 (AddImm RSP 16) (c'\<lparr>regs := (regs c)(RSP := regs c' RSP + 120)\<rparr>)"
  have "exec1 Iretq ?c = resumed c ?c" by (rule exec_iretq) (use w in \<open>auto simp: put_reg_def\<close>)
  moreover have "resumed c ?c = resumed c c'" by (simp add: resumed_def put_reg_def)
  ultimately show ?thesis by (simp only: common_exception_exit_def exec_append r(1) exec.simps)
qed

lemma irq_exit:
  assumes "stack_words (cpu_mem c') (regs c' RSP) (rev (map (regs c) saved_regs) @ rev (return_words c))"
  shows "exec irq_stub_exit c' = resumed c c'"
proof -
  note r = exec_restore [OF assms]
  let ?c = "c'\<lparr>regs := (regs c)(RSP := regs c' RSP + 120)\<rparr>"
  have "exec1 Iretq ?c = resumed c ?c" by (rule exec_iretq) (use r(2) in auto)
  moreover have "resumed c ?c = resumed c c'" by (simp add: resumed_def)
  ultimately show ?thesis by (simp only: irq_stub_exit_def exec_append r(1) exec.simps)
qed

text \<open>A call leaves the frame above it alone.\<close>

lemma call_keeps_stack:
  assumes "stack_words (cpu_mem c) (regs c RSP) ws" and "8 * length ws \<le> 2 ^ 32"
  shows "stack_words (cpu_mem (push_word ret c)) (regs c RSP) ws"
proof -
  have "x \<notin> span (regs c RSP - 8) 8" if "x \<in> span (regs c RSP) (8 * length ws)" for x
    using that assms(2) mem_span_offset [of 8 "8 * length ws" x "regs c RSP - 8"] by (auto simp: span_def)
  then show ?thesis
    using assms stack_words_cong [of "regs c RSP" ws "cpu_mem (push_word ret c)" "cpu_mem c"]
    by (simp add: push_word_def put_reg_def Let_def store64_other)
qed

lemma align16_minus: "((t AND NOT 0xF) - n) mod 16 = (- n) mod (16 :: u64)"
proof -
  define a where "a = t AND NOT (mask 4)"
  have "take_bit 4 a = 0"
    by (rule bit_word_eqI) (auto simp: a_def bit_take_bit_iff bit_and_iff bit_not_iff bit_mask_iff)
  then have "unat a mod 16 = 0" using unsigned_take_bit_eq [of 4 a, where ?'a = nat] by (simp add: take_bit_eq_mod)
  then have "(unat a + unat (- n)) mod 16 = unat (- n) mod 16" by (metis add_cancel_left_left mod_add_eq mod_mod_trivial)
  then have "(unat a + unat (- n)) mod 2 ^ 64 mod 16 = unat (- n) mod 16" by (subst mod_mod_cancel) simp_all
  then have "unat ((a - n) mod 16) = unat ((- n) mod 16)"
    using unat_word_ariths(1) [of a "- n"] by (simp add: unat_mod)
  then have "(a - n) mod 16 = (- n) mod 16" by (simp only: word_unat_eq_iff)
  moreover have "a = t AND NOT 0xF" by (simp add: a_def mask_eq_exp_minus_1)
  ultimately show ?thesis by simp
qed

subsection \<open>A whole interrupt\<close>

record dispatchers =
  sym_exception_dispatcher :: u64
  sym_irq_dispatcher :: u64
  sym_generic_interrupt_dispatcher :: u64

text \<open>The code a vector runs before its dispatcher and after it, and the bytes on the stack in between.\<close>

definition vector_entry :: "dispatchers \<Rightarrow> u64 \<Rightarrow> nat \<Rightarrow> instr list" where
  "vector_entry d ret v =
     (if v < 32 then exception_stub v (sym_exception_dispatcher d) ret
      else if v < 48 then irq_stub (v - 32) (sym_irq_dispatcher d) ret
      else if v < 255 then generic_irq_stub (sym_generic_interrupt_dispatcher d) ret else [])"

definition vector_exit :: "nat \<Rightarrow> instr list" where
  "vector_exit v = (if v < 32 then common_exception_exit else if v < 255 then irq_stub_exit else spurious_irq_stub)"

definition frame_bytes :: "nat \<Rightarrow> nat" where
  "frame_bytes v = (if v < 32 then 176 else if v < 255 then 160 else 40)"

text \<open>The words in a frame, from the stack pointer up.\<close>

definition frame_words :: "nat \<Rightarrow> u64 option \<Rightarrow> cpu \<Rightarrow> u64 list" where
  "frame_words v err c =
     (if v < 255 then rev (map (regs c) saved_regs) else [])
     @ (if v < 32 then [of_nat v, case err of None \<Rightarrow> 0 | Some e \<Rightarrow> e] else []) @ rev (return_words c)"

lemma length_frame_words: "8 * length (frame_words v err c) = frame_bytes v"
  by (simp add: frame_words_def frame_bytes_def return_words_def saved_regs_simps(3))

lemma call_effect:
  "exec1 (Call d ret) c = c\<lparr>regs := (regs c)(RSP := regs c RSP - 8), cpu_rip := d, cpu_mem := store64 (cpu_mem c) (regs c RSP - 8) ret\<rparr>"
  by (simp add: push_word_def put_reg_def Let_def)

text \<open>What holds when the dispatcher begins.\<close>

definition entered :: "dispatchers \<Rightarrow> nat \<Rightarrow> u64 option \<Rightarrow> cpu \<Rightarrow> cpu \<Rightarrow> bool" where
  "entered d v err c e \<longleftrightarrow>
     (let sp = (regs c RSP AND NOT 0xF) - of_nat (frame_bytes v) in
      stack_words (cpu_mem e) sp (frame_words v err c)
      \<and> (\<forall>x. x \<notin> span (sp - 8) (frame_bytes v + 8) \<longrightarrow> cpu_mem e x = cpu_mem c x)
      \<and> regs e RSP = (if v < 255 then sp - 8 else sp)
      \<and> (v < 32 \<longrightarrow> cpu_rip e = sym_exception_dispatcher d \<and> regs e RDI = sp)
      \<and> (32 \<le> v \<and> v < 48 \<longrightarrow> cpu_rip e = sym_irq_dispatcher d \<and> regs e RDI = of_nat (v - 32))
      \<and> (48 \<le> v \<and> v < 255 \<longrightarrow> cpu_rip e = sym_generic_interrupt_dispatcher d))"

lemma spans_below:
  assumes "x \<notin> span (sp - 8) (n + 8)" and "n + 8 \<le> 2 ^ 64"
  shows "x \<notin> span (sp - 8) 8" and "x \<notin> span sp n"
  using assms span_sub [of x "sp - 8" 0 8 "n + 8"] span_sub [of x "sp - 8" 8 n "n + 8"] by auto

lemma call_after_pushes:
  fixes c e0 :: cpu
  defines "sp \<equiv> regs e0 RSP"
  assumes "stack_words (cpu_mem e0) sp ws" and "8 * length ws = n" and "n \<le> 2 ^ 32"
    and "\<And>x. x \<notin> span sp n \<Longrightarrow> cpu_mem e0 x = cpu_mem c x"
  shows "stack_words (cpu_mem (exec1 (Call d ret) e0)) sp ws"
    and "x \<notin> span (sp - 8) (n + 8) \<Longrightarrow> cpu_mem (exec1 (Call d ret) e0) x = cpu_mem c x"
proof -
  show "stack_words (cpu_mem (exec1 (Call d ret) e0)) sp ws"
    using call_keeps_stack [of e0 ws ret] assms by simp
  assume x: "x \<notin> span (sp - 8) (n + 8)"
  have "n + 8 \<le> 2 ^ 64" using assms(4) by simp
  from spans_below [OF x this] have "x \<notin> span (sp - 8) 8" "x \<notin> span sp n" by blast+
  then show "cpu_mem (exec1 (Call d ret) e0) x = cpu_mem c x"
    using assms(5) by (simp add: call_effect store64_other sp_def del: exec1.simps)
qed

lemma entry_with_call:
  fixes c :: cpu and err :: "u64 option" and ws :: "u64 list" and d ret :: u64 and v :: nat and i :: instr
  assumes "length ws \<le> 2" and "frame_words v err c = rev (return_words c @ (case err of None \<Rightarrow> [] | Some e \<Rightarrow> [e]) @ ws @ map (regs c) saved_regs)"
    and "\<And>e. exec1 i e = e\<lparr>regs := (regs e)(RDI := f (regs e))\<rparr>"
  defines "sp \<equiv> (regs c RSP AND NOT 0xF) - of_nat (frame_bytes v)" and "code \<equiv> map PushImm ws @ save_all @ [i, Call d ret]"
  shows "stack_words (cpu_mem (exec code (deliver g err c))) sp (frame_words v err c)"
    and "x \<notin> span (sp - 8) (frame_bytes v + 8) \<Longrightarrow> cpu_mem (exec code (deliver g err c)) x = cpu_mem c x"
    and "regs (exec code (deliver g err c)) RSP = sp - 8" and "cpu_rip (exec code (deliver g err c)) = d"
    and "regs (exec code (deliver g err c)) RDI = f ((regs c)(RSP := sp))"
proof -
  let ?all = "return_words c @ (case err of None \<Rightarrow> [] | Some e \<Rightarrow> [e]) @ ws @ map (regs c) saved_regs"
  have len: "8 * length ?all = frame_bytes v" using assms(2) length_frame_words [of v err c] by simp
  obtain m where e0: "exec (map PushImm ws @ save_all) (deliver g err c) =
      c\<lparr>regs := (regs c)(RSP := sp), cpu_rip := gate_offset g, cpu_cs := selector g,
        cpu_rflags := cpu_rflags c AND NOT 0x34300, cpu_mem := m\<rparr>"
    and w: "stack_words m sp (frame_words v err c)" and out: "\<And>x. x \<notin> span sp (frame_bytes v) \<Longrightarrow> m x = cpu_mem c x"
    using entry_pushes [OF assms(1), where c = c and err = err and g = g] unfolding len sp_def [symmetric] assms(2) [symmetric] by blast
  define e1 where "e1 = exec1 i (c\<lparr>regs := (regs c)(RSP := sp), cpu_rip := gate_offset g, cpu_cs := selector g,
        cpu_rflags := cpu_rflags c AND NOT 0x34300, cpu_mem := m\<rparr>)"
  have e1: "regs e1 = (regs c)(RSP := sp, RDI := f ((regs c)(RSP := sp)))" "cpu_mem e1 = m" "regs e1 RSP = sp"
    by (simp_all add: e1_def assms(3))
  have code: "exec code (deliver g err c) = exec1 (Call d ret) e1"
    using e0 by (simp add: code_def e1_def del: exec1.simps)
  have "frame_bytes v \<le> 2 ^ 32" by (simp add: frame_bytes_def)
  note call = call_after_pushes [of e1 "frame_words v err c" "frame_bytes v" c, OF _ length_frame_words this, unfolded e1(2,3), OF w out]
  show "stack_words (cpu_mem (exec code (deliver g err c))) sp (frame_words v err c)" unfolding code by (rule call(1))
  show "x \<notin> span (sp - 8) (frame_bytes v + 8) \<Longrightarrow> cpu_mem (exec code (deliver g err c)) x = cpu_mem c x"
    unfolding code by (rule call(2))
  show "regs (exec code (deliver g err c)) RSP = sp - 8" "cpu_rip (exec code (deliver g err c)) = d"
    "regs (exec code (deliver g err c)) RDI = f ((regs c)(RSP := sp))"
    unfolding code call_effect by (simp_all add: e1)
qed

text \<open>The stubs agree with the architecture on every vector but 29.\<close>

lemma stub_matches_hardware: "v \<noteq> 29 \<Longrightarrow> List.member EXCEPTION_ERR v \<longleftrightarrow> pushes_error_code v"
  by (auto simp: EXCEPTION_ERR_def pushes_error_code_def)

lemma error_vectors: "pushes_error_code v \<Longrightarrow> v < 32"
  by (auto simp: pushes_error_code_def)

lemma vector_entered:
  assumes "v < 256" and "v \<noteq> 29" and hw: "err \<noteq> None \<longleftrightarrow> pushes_error_code v"
  shows "entered d v err c (exec (vector_entry d ret v) (deliver g err c))"
proof -
  have e: "err \<noteq> None \<longleftrightarrow> List.member EXCEPTION_ERR v" using hw stub_matches_hardware [OF assms(2)] by simp
  consider "v < 32" | "32 \<le> v" "v < 48" | "48 \<le> v" "v < 255" | "v = 255" using assms(1) by linarith
  then show ?thesis
  proof cases
    case 1
    let ?ws = "if List.member EXCEPTION_ERR v then [of_nat v] else [0, of_nat v]"
    have "frame_words v err c = rev (return_words c @ (case err of None \<Rightarrow> [] | Some e \<Rightarrow> [e]) @ ?ws @ map (regs c) saved_regs)"
      using 1 e by (auto simp: frame_words_def split: option.split)
    note e = entry_with_call [OF _ this, of "MovReg RDI RSP" "\<lambda>r. r RSP"]
    have code: "vector_entry d ret v = map PushImm ?ws @ save_all @ [MovReg RDI RSP, Call (sym_exception_dispatcher d) ret]"
      using 1 by (simp add: vector_entry_def exception_stub_def common_exception_entry_def)
    show ?thesis using 1 e [where d = "sym_exception_dispatcher d" and ret = ret and g = g] unfolding code entered_def Let_def
      by (simp add: put_reg_def)
  next
    case 2
    then have n: "err = None" using hw error_vectors [of v] by fastforce
    then have "frame_words v err c = rev (return_words c @ (case err of None \<Rightarrow> [] | Some e \<Rightarrow> [e]) @ [] @ map (regs c) saved_regs)"
      using 2 by (simp add: frame_words_def)
    note e = entry_with_call [OF _ this, of "MovImm RDI (of_nat (v - 32))" "\<lambda>_. of_nat (v - 32)"]
    have code: "vector_entry d ret v = map PushImm [] @ save_all @ [MovImm RDI (of_nat (v - 32)), Call (sym_irq_dispatcher d) ret]"
      using 2 by (simp add: vector_entry_def irq_stub_def)
    show ?thesis using 2 e [where d = "sym_irq_dispatcher d" and ret = ret and g = g] unfolding code entered_def Let_def
      by (simp add: put_reg_def)
  next
    case 3
    then have n: "err = None" using hw error_vectors [of v] by fastforce
    then have "frame_words v err c = rev (return_words c @ (case err of None \<Rightarrow> [] | Some e \<Rightarrow> [e]) @ [] @ map (regs c) saved_regs)"
      using 3 by (simp add: frame_words_def)
    note e = entry_with_call [OF _ this, of "MovReg RDI RDI" "\<lambda>r. r RDI"]
    have nop: "exec1 (MovReg RDI RDI) x = x" for x by (auto simp: put_reg_def intro!: cpu.equality)
    have code: "exec (vector_entry d ret v) s = exec (map PushImm [] @ save_all @ [MovReg RDI RDI, Call (sym_generic_interrupt_dispatcher d) ret]) s" for s
      using 3 nop by (simp add: vector_entry_def generic_irq_stub_def del: exec1.simps)
    show ?thesis using 3 e [where d = "sym_generic_interrupt_dispatcher d" and ret = ret and g = g] unfolding code entered_def Let_def
      by (simp add: put_reg_def)
  next
    case 4
    then have n: "err = None" using hw error_vectors [of v] by fastforce
    let ?top = "regs c RSP AND NOT 0xF"
    obtain m where m: "fold push_word (return_words c) (put_reg RSP ?top c) =
        (put_reg RSP ?top c)\<lparr>regs := (regs (put_reg RSP ?top c))(RSP := ?top - 40), cpu_mem := m\<rparr>"
      "stack_words m (?top - 40) (rev (return_words c))" "\<And>x. x \<notin> span (?top - 40) 40 \<Longrightarrow> m x = cpu_mem c x"
      using fold_push_word [of "return_words c" "put_reg RSP ?top c"] by (auto simp: return_words_def put_reg_def)
    have "m x = cpu_mem c x" if "x \<notin> span (?top - 40 - 8) 48" for x
      using m(3) spans_below(2) [of x "?top - 40" 40] that by simp
    then show ?thesis using 4 n m(1,2)
      by (simp add: entered_def vector_entry_def deliver_def return_words_def [symmetric] frame_bytes_def frame_words_def put_reg_def Let_def)
  qed
qed

lemma frame_decodes:
  assumes "stack_words m p (rev (map (regs c) saved_regs) @ [a, b, d0, d1, d2, d3, d4])"
  shows "exception_frame_at m p =
    \<lparr>frame_regs = \<lparr>reg_r15 = regs c R15, reg_r14 = regs c R14, reg_r13 = regs c R13, reg_r12 = regs c R12, reg_r11 = regs c R11,
       reg_r10 = regs c R10, reg_r9 = regs c R9, reg_r8 = regs c R8, reg_rbp = regs c RBP, reg_rdi = regs c RDI, reg_rsi = regs c RSI,
       reg_rdx = regs c RDX, reg_rcx = regs c RCX, reg_rbx = regs c RBX, reg_rax = regs c RAX\<rparr>,
     frame_vector = a, frame_error_code = b, frame_rip = d0, frame_cs = d1, frame_rflags = d2, frame_rsp = d3, frame_ss = d4\<rparr>"
  using assms by (simp add: saved_regs_def stack_words_Cons exception_frame_at_def add.assoc)

lemma entered_frame:
  assumes "entered d v err c e" and "v < 32"
  shows "exception_frame_at (cpu_mem e) (regs e RDI) =
    \<lparr>frame_regs = \<lparr>reg_r15 = regs c R15, reg_r14 = regs c R14, reg_r13 = regs c R13, reg_r12 = regs c R12, reg_r11 = regs c R11,
       reg_r10 = regs c R10, reg_r9 = regs c R9, reg_r8 = regs c R8, reg_rbp = regs c RBP, reg_rdi = regs c RDI, reg_rsi = regs c RSI,
       reg_rdx = regs c RDX, reg_rcx = regs c RCX, reg_rbx = regs c RBX, reg_rax = regs c RAX\<rparr>,
     frame_vector = of_nat v, frame_error_code = (case err of None \<Rightarrow> 0 | Some x \<Rightarrow> x), frame_rip = cpu_rip c,
     frame_cs = ucast (cpu_cs c), frame_rflags = cpu_rflags c, frame_rsp = regs c RSP, frame_ss = ucast (cpu_ss c)\<rparr>"
proof -
  have "stack_words (cpu_mem e) (regs e RDI) (rev (map (regs c) saved_regs)
      @ [of_nat v, case err of None \<Rightarrow> 0 | Some x \<Rightarrow> x, cpu_rip c, ucast (cpu_cs c), cpu_rflags c, regs c RSP, ucast (cpu_ss c)])"
    using assms by (simp add: entered_def Let_def frame_words_def return_words_def)
  then show ?thesis by (rule frame_decodes)
qed

lemma entered_aligned:
  assumes "entered d v err c e" and "v < 255"
  shows "regs e RSP mod 16 = 8"
proof -
  let ?n = "of_nat (frame_bytes v) :: u64"
  have "regs e RSP = (regs c RSP AND NOT 0xF) - (?n + 8)" using assms by (simp add: entered_def Let_def algebra_simps)
  then have "regs e RSP mod 16 = (- (?n + 8)) mod 16" by (simp only: align16_minus)
  then show ?thesis using assms(2) by (simp add: frame_bytes_def split: if_splits)
qed

lemma exit_resumes:
  assumes "stack_words (cpu_mem c') (regs c' RSP) (frame_words v err c)" and "v < 256"
    and "v = 255 \<Longrightarrow> (\<forall>r. r \<noteq> RSP \<longrightarrow> regs c' r = regs c r)"
  shows "exec (vector_exit v) c' = resumed c c'"
proof -
  consider "v < 32" | "32 \<le> v" "v < 255" | "v = 255" using assms(2) by linarith
  then show ?thesis
  proof cases
    case 1
    then show ?thesis using assms(1) exception_exit [of c' c "of_nat v" "case err of None \<Rightarrow> 0 | Some e \<Rightarrow> e"]
      by (simp add: vector_exit_def frame_words_def)
  next
    case 2
    then show ?thesis using assms(1) irq_exit [of c' c] by (simp add: vector_exit_def frame_words_def)
  next
    case 3
    then show ?thesis using assms(1,3) exec_iretq [of c' c]
      by (simp add: vector_exit_def frame_words_def spurious_irq_stub_def del: exec1.simps)
  qed
qed

subsection \<open>Properties\<close>

text \<open>An exception handler sees the interrupted program: whatever the state of the processor, the entry stub calls the
  dispatcher with a pointer to a frame whose fields are exactly the interrupted registers, the vector, the error code (zero
  where the processor gives none), rip, cs, rflags, rsp and ss; the stack is aligned as the calling convention asks,
  and no byte at or above the interrupted stack pointer is written.\<close>
theorem exception_frame_shows_interrupted_state:
  fixes c :: cpu and g :: idt_entry and d :: dispatchers and ret :: u64
  assumes "v < 32" and "v \<noteq> 29" and "err \<noteq> None \<longleftrightarrow> pushes_error_code v"
  defines "e \<equiv> exec (exception_stub v (sym_exception_dispatcher d) ret) (deliver g err c)"
  shows "cpu_rip e = sym_exception_dispatcher d \<and> regs e RSP mod 16 = 8
    \<and> exception_frame_at (cpu_mem e) (regs e RDI) =
      \<lparr>frame_regs = \<lparr>reg_r15 = regs c R15, reg_r14 = regs c R14, reg_r13 = regs c R13, reg_r12 = regs c R12, reg_r11 = regs c R11,
         reg_r10 = regs c R10, reg_r9 = regs c R9, reg_r8 = regs c R8, reg_rbp = regs c RBP, reg_rdi = regs c RDI, reg_rsi = regs c RSI,
         reg_rdx = regs c RDX, reg_rcx = regs c RCX, reg_rbx = regs c RBX, reg_rax = regs c RAX\<rparr>,
       frame_vector = of_nat v, frame_error_code = (case err of None \<Rightarrow> 0 | Some x \<Rightarrow> x), frame_rip = cpu_rip c,
       frame_cs = ucast (cpu_cs c), frame_rflags = cpu_rflags c, frame_rsp = regs c RSP, frame_ss = ucast (cpu_ss c)\<rparr>
    \<and> (\<forall>x. x \<notin> span ((regs c RSP AND NOT 0xF) - 184) 184 \<longrightarrow> cpu_mem e x = cpu_mem c x)"
proof -
  have "entered d v err c (exec (vector_entry d ret v) (deliver g err c))" using assms(1-3) by (intro vector_entered) simp_all
  then have e: "entered d v err c e" using assms(1) by (simp add: e_def vector_entry_def)
  have "cpu_rip e = sym_exception_dispatcher d" "\<forall>x. x \<notin> span ((regs c RSP AND NOT 0xF) - 184) 184 \<longrightarrow> cpu_mem e x = cpu_mem c x"
    using e assms(1) by (simp_all add: entered_def Let_def frame_bytes_def)
  then show ?thesis using entered_frame [OF e assms(1)] entered_aligned [OF e] assms(1) by simp
qed

text \<open>C10. Interrupts are transparent: for each of the 256 vectors except 29, with an error code on the stack exactly where the architecture pushes
  one, if the dispatcher gives the stack pointer back and leaves the frame as it was pushed, then the code behind the call restores every
  register, the flags, the stack and the instruction pointer of the interrupted program.  The spurious vector 255 has no dispatcher.  For vector 29 see
  \<open>vc_frame_is_shifted\<close> below.\<close>
theorem interrupts_are_transparent:
  fixes c c' :: cpu and g :: idt_entry and d :: dispatchers and ret :: u64
  assumes "v < 256" and "v \<noteq> 29" and "err \<noteq> None \<longleftrightarrow> pushes_error_code v"
  defines "e \<equiv> exec (vector_entry d ret v) (deliver g err c)"
  defines "sp \<equiv> (if v < 255 then regs e RSP + 8 else regs e RSP)"
  assumes "if v < 255 then regs c' RSP = sp else c' = e" and "\<And>x. x \<in> span sp (frame_bytes v) \<Longrightarrow> cpu_mem c' x = cpu_mem e x"
  shows "exec (vector_exit v) c' = c'\<lparr>regs := regs c, cpu_rflags := cpu_rflags c, cpu_rip := cpu_rip c, cpu_cs := cpu_cs c, cpu_ss := cpu_ss c\<rparr>"
proof -
  have e: "entered d v err c e" unfolding e_def by (rule vector_entered) fact+
  have sp: "sp = (regs c RSP AND NOT 0xF) - of_nat (frame_bytes v)" using e by (simp add: entered_def sp_def Let_def)
  have w: "stack_words (cpu_mem e) sp (frame_words v err c)" using e unfolding sp by (simp add: entered_def Let_def)
  have rsp: "regs c' RSP = sp" using assms(6) by (auto simp: sp_def split: if_splits)
  have "frame_bytes v \<le> 2 ^ 64" by (simp add: frame_bytes_def)
  then have "stack_words (cpu_mem c') (regs c' RSP) (frame_words v err c)"
    using w assms(7) stack_words_cong [of sp "frame_words v err c" "cpu_mem c'" "cpu_mem e"]
    unfolding rsp length_frame_words by blast
  moreover have "regs c' r = regs c r" if "v = 255" "r \<noteq> RSP" for r
    using that assms(6) deliver_regs [of r g err c] by (simp add: e_def vector_entry_def)
  ultimately show ?thesis using exit_resumes [of c' v err c] assms(1) by (simp add: resumed_def)
qed

text \<open>The #VC exception (vector 29) of processors with encrypted guests pushes an error code, but its stub is one of those that push
  a zero: the frame is off by one word, and the handler finds the error code in the place of rip.\<close>

lemma vc_frame_is_shifted:
  fixes c :: cpu
  obtains p where "pushes_error_code 29" and "\<not> List.member EXCEPTION_ERR 29"
    and "regs (exec (map PushImm [0, 29] @ save_all) (deliver g (Some x) c)) RSP = p"
    and "frame_error_code (exception_frame_at (cpu_mem (exec (map PushImm [0, 29] @ save_all) (deliver g (Some x) c))) p) = 0"
    and "frame_rip (exception_frame_at (cpu_mem (exec (map PushImm [0, 29] @ save_all) (deliver g (Some x) c))) p) = x"
proof -
  define p where "p = (regs c RSP AND NOT 0xF) - of_nat (8 * length (return_words c @ [x] @ [0, 29] @ map (regs c) saved_regs))"
  have l: "length [0, 29 :: u64] \<le> 2" by simp
  obtain m where e: "exec (map PushImm [0, 29] @ save_all) (deliver g (Some x) c) =
      c\<lparr>regs := (regs c)(RSP := p), cpu_rip := gate_offset g, cpu_cs := selector g,
        cpu_rflags := cpu_rflags c AND NOT 0x34300, cpu_mem := m\<rparr>"
    and w: "stack_words m p (rev (return_words c @ [x] @ [0, 29] @ map (regs c) saved_regs))"
    using entry_pushes [OF l, where c = c and err = "Some x" and g = g, unfolded option.case] unfolding p_def [symmetric] by blast
  have "stack_words m p (rev (map (regs c) saved_regs) @ [29, 0, x, cpu_rip c, ucast (cpu_cs c), cpu_rflags c, regs c RSP])"
    using w by (simp add: return_words_def stack_words_append stack_words_Cons)
  from frame_decodes [OF this] show thesis by (intro that [of p]) (simp_all add: pushes_error_code_def EXCEPTION_ERR_def e del: exec_append map_eq_conv list.map)
qed

subsection \<open>Concrete instances\<close>

definition interrupted :: cpu where
  "interrupted = \<lparr>regs = (\<lambda>_. 7)(RSP := 0x8004), cpu_rflags = 0x202, cpu_rip = 0x1000, cpu_cs = 8, cpu_ss = 0x10, cpu_mem = (\<lambda>_. 0)\<rparr>"

definition sample_dispatchers :: dispatchers where
  "sample_dispatchers = \<lparr>sym_exception_dispatcher = 0x140005000, sym_irq_dispatcher = 0x140005100,
     sym_generic_interrupt_dispatcher = 0x140005200\<rparr>"

theorem exception_frame_shows_interrupted_state_witness:
  "\<exists>e. e = exec (exception_stub 14 0x140005000 0x140003200) (deliver (set_handler 0x140003000 missing) (Some 6) interrupted)
     \<and> frame_vector (exception_frame_at (cpu_mem e) (regs e RDI)) = 14
     \<and> frame_error_code (exception_frame_at (cpu_mem e) (regs e RDI)) = 6
     \<and> frame_rip (exception_frame_at (cpu_mem e) (regs e RDI)) = 0x1000"
  using exception_frame_shows_interrupted_state [of 14 "Some 6" sample_dispatchers "0x140003200" "set_handler 0x140003000 missing" interrupted]
  by (simp add: pushes_error_code_def sample_dispatchers_def) (simp add: interrupted_def)

theorem interrupts_are_transparent_witness:
  "\<exists>c'. regs (exec (vector_exit 14) c') RBX = 7 \<and> regs (exec (vector_exit 14) c') RSP = 0x8004
     \<and> cpu_rip (exec (vector_exit 14) c') = 0x1000 \<and> regs c' RBX = 0"
proof -
  define e where "e = exec (vector_entry sample_dispatchers 0x140003900 14) (deliver (set_handler 0x140003800 missing) (Some 6) interrupted)"
  let ?c = "e\<lparr>regs := (\<lambda>_. 0)(RSP := regs e RSP + 8)\<rparr>"
  have "exec (vector_exit 14) ?c = ?c\<lparr>regs := regs interrupted, cpu_rflags := cpu_rflags interrupted, cpu_rip := cpu_rip interrupted,
      cpu_cs := cpu_cs interrupted, cpu_ss := cpu_ss interrupted\<rparr>"
    using interrupts_are_transparent [of 14 "Some 6" ?c sample_dispatchers "0x140003900" "set_handler 0x140003800 missing" interrupted]
    by (simp add: pushes_error_code_def e_def [symmetric])
  then show ?thesis by (intro exI [of _ ?c]) (simp add: interrupted_def)
qed

end
