(* ===== verification/Irq.thy ===== *)
theory Irq
  imports Apic_Route Idt_Stubs
begin

text \<open>
  Interrupt dispatch (\<^verbatim>\<open>src/src/idt.rs\<close>): the table of IRQ handlers and the functions the entry stubs call.

  A handler is a function pointer, so the table holds code addresses; \<open>code\<close> says what the function at an address does to the state.
\<close>

type_synonym 's handler_code = "u64 \<Rightarrow> u8 \<Rightarrow> 's \<Rightarrow> 's"

record irq_state = apic +
  irq_handlers :: "u64 option list"
  unhandled_irq_count :: "u32 list"
  unexpected_count :: u32

subsection \<open>Registration\<close>

definition irq_range_error :: string where
  "irq_range_error = ''IRQ index out of valid range (0..15)''"

definition register_irq :: "u8 \<Rightarrow> u64 \<Rightarrow> 'a irq_state_scheme \<Rightarrow> (string + unit) \<times> 'a irq_state_scheme" where
  "register_irq irq handler s =
     (if unat irq \<ge> 16 then (Inl irq_range_error, s)
      else (Inr (), snd (without_interrupts
             (\<lambda>s. ((), s\<lparr>irq_handlers := (irq_handlers s)[unat irq := Some handler]\<rparr>)) s)))"

definition unregister_irq :: "u8 \<Rightarrow> 'a irq_state_scheme \<Rightarrow> (string + unit) \<times> 'a irq_state_scheme" where
  "unregister_irq irq s =
     (if unat irq \<ge> 16 then (Inl irq_range_error, s)
      else (Inr (), snd (without_interrupts
             (\<lambda>s. ((), s\<lparr>irq_handlers := (irq_handlers s)[unat irq := None]\<rparr>)) s)))"

subsection \<open>Dispatch\<close>

definition irq_dispatcher :: "hardware \<Rightarrow> 'a irq_state_scheme handler_code \<Rightarrow> u64 \<Rightarrow> 'a irq_state_scheme \<Rightarrow> 'a irq_state_scheme" where
  "irq_dispatcher hw code irq s =
     (let s1 =
        (if unat irq < 16 then
           (case irq_handlers s ! unat irq of
              Some h \<Rightarrow> code h (ucast irq) s
            | None \<Rightarrow>
                let count = unhandled_irq_count s ! unat irq;
                    s1 = s\<lparr>unhandled_irq_count := (unhandled_irq_count s)[unat irq := count + 1]\<rparr>
                in if count < 5 then klog hw [lit ''[IRQ] Unhandled hardware IRQ '', fmt_dec (unat irq)] s1 else s1)
         else s)
      in eoi s1)"

definition generic_interrupt_dispatcher :: "hardware \<Rightarrow> 'a irq_state_scheme \<Rightarrow> 'a irq_state_scheme" where
  "generic_interrupt_dispatcher hw s =
     (let count = unexpected_count s;
          s1 = s\<lparr>unexpected_count := count + 1\<rparr>;
          s2 = (if count < 5 then klog hw [lit ''[IRQ] Unexpected external interrupt received''] s1 else s1)
      in eoi s2)"

definition EXCEPTION_NAMES :: "string list" where
  "EXCEPTION_NAMES =
     [''Divide Error (#DE)'', ''Debug (#DB)'', ''Non-Maskable Interrupt (#NMI)'', ''Breakpoint (#BP)'', ''Overflow (#OF)'',
      ''Bound Range Exceeded (#BR)'', ''Invalid Opcode (#UD)'', ''Device Not Available (#NM)'', ''Double Fault (#DF)'',
      ''Coprocessor Segment Overrun'', ''Invalid TSS (#TS)'', ''Segment Not Present (#NP)'', ''Stack-Segment Fault (#SS)'',
      ''General Protection Fault (#GP)'', ''Page Fault (#PF)'', ''Reserved'', ''x87 Floating-Point Exception (#MF)'',
      ''Alignment Check (#AC)'', ''Machine Check (#MC)'', ''SIMD Floating-Point Exception (#XM)'',
      ''Virtualization Exception (#VE)'', ''Control Protection Exception (#CP)'', ''Reserved'', ''Reserved'', ''Reserved'',
      ''Reserved'', ''Reserved'', ''Reserved'', ''Hypervisor Injection Exception (#HV)'', ''VMM Communication Exception (#VC)'',
      ''Security Exception (#SX)'', ''Reserved'']"

definition exception_name :: "nat \<Rightarrow> string" where
  "exception_name vector = (if vector < length EXCEPTION_NAMES then EXCEPTION_NAMES ! vector else ''Unknown Exception'')"

definition hex18 :: "u64 \<Rightarrow> str" where
  "hex18 w = fmt_hex 18 (unat w)"

definition hex6 :: "u64 \<Rightarrow> str" where
  "hex6 w = fmt_hex 6 (unat w)"

definition breakpoint_lines :: "exception_frame \<Rightarrow> str list list" where
  "breakpoint_lines f =
     [[CRLF, lit ''[EXCEPTION] Breakpoint (#BP) trapped successfully''],
      [lit ''  RIP: '', hex18 (frame_rip f), lit ''  CS: '', hex6 (frame_cs f)],
      [lit ''  RFLAGS: '', hex18 (frame_rflags f), lit ''  RSP: '', hex18 (frame_rsp f)]]"

definition exception_lines :: "exception_frame \<Rightarrow> str list list" where
  "exception_lines f =
     (let r = frame_regs f; vector = unat (frame_vector f) in
     [[CRLF, lit ''[CPU EXCEPTION] '', lit (exception_name vector)],
      [lit ''  Vector:     '', fmt_dec vector],
      [lit ''  Error Code: '', hex18 (frame_error_code f)],
      [lit ''  RIP:        '', hex18 (frame_rip f), lit ''  CS: '', hex6 (frame_cs f)],
      [lit ''  RFLAGS:     '', hex18 (frame_rflags f), lit ''  SS: '', hex6 (frame_ss f)],
      [lit ''  RSP:        '', hex18 (frame_rsp f), lit ''  RBP: '', hex18 (reg_rbp r)],
      [lit ''  RAX: '', hex18 (reg_rax r), lit ''  RBX: '', hex18 (reg_rbx r)],
      [lit ''  RCX: '', hex18 (reg_rcx r), lit ''  RDX: '', hex18 (reg_rdx r)],
      [lit ''  RSI: '', hex18 (reg_rsi r), lit ''  RDI: '', hex18 (reg_rdi r)]])"

definition fault_bit :: "nat \<Rightarrow> u64 \<Rightarrow> str" where
  "fault_bit n code = fmt_dec (unat (drop_bit n code AND 1))"

definition page_fault_lines :: "u64 \<Rightarrow> exception_frame \<Rightarrow> str list list" where
  "page_fault_lines cr2 f =
     (let c = frame_error_code f in
     [[lit ''  CR2 (Faulting Address): '', hex18 cr2],
      [lit ''  Page Fault Flags: P='', fault_bit 0 c, lit '' W/R='', fault_bit 1 c, lit '' U/S='', fault_bit 2 c,
       lit '' RSVD='', fault_bit 3 c, lit '' I/D='', fault_bit 4 c]])"

text \<open>What the dispatcher has done when it returns (vector 3) or enters its final loop.\<close>

definition exception_report :: "hardware \<Rightarrow> exception_frame \<Rightarrow> 'a board_scheme \<Rightarrow> 'a board_scheme" where
  "exception_report hw f s =
     (let s1 = disable_uefi_console (cli s); vector = unat (frame_vector f) in
      if vector = 3 then fold (klog hw) (breakpoint_lines f) s1
      else
        let s2 = fold (klog hw) (exception_lines f) s1;
            s3 = (if vector = 14 then let (cr2, s3) = read_cr2 hw s2 in fold (klog hw) (page_fault_lines cr2 f) s3 else s2)
        in klog hw [lit ''[CPU EXCEPTION] Halting CPU safely.'', CRLF] s3)"

partial_function (option) halt_masked :: "'a platform_scheme \<Rightarrow> 'r option" where
  "halt_masked s = halt_masked (hlt (cli s))"

definition exception_dispatcher :: "hardware \<Rightarrow> exception_frame \<Rightarrow> 'a board_scheme \<Rightarrow> 'a board_scheme option" where
  "exception_dispatcher hw f s =
     (let s' = exception_report hw f s in if unat (frame_vector f) = 3 then Some s' else halt_masked s')"

subsection \<open>The serial-port self-test\<close>

definition com1_test_handler :: "hardware \<Rightarrow> u8 \<Rightarrow> 'a board_scheme \<Rightarrow> 'a board_scheme" where
  "com1_test_handler hw irq s =
     (let s1 = klog hw [lit ''[IRQ] Received hardware interrupt''] s;
          s2 = klog hw [lit ''  Source: COM1 UART (16550A)''] s1;
          s3 = klog hw [lit ''  IRQ:    '', fmt_dec (unat irq)] s2;
          s4 = klog hw [lit ''  Vector: '', fmt_hex 4 (unat (IRQ_BASE_VECTOR + irq)), lit '' (36)''] s3;
          (_, s5) = inb hw (COM1_PORT + 2) s4
      in outb (COM1_PORT + 1) 0x00 s5)"

definition test_hardware_irq :: "hardware \<Rightarrow> u64 \<Rightarrow> 'a irq_state_scheme \<Rightarrow> 'a irq_state_scheme" where
  "test_hardware_irq hw com1_test_handler_addr s =
     outb (COM1_PORT + 1) 0x02 (unmask_irq hw 4 (snd (register_irq 4 com1_test_handler_addr s)))"

subsection \<open>The handler table\<close>

lemma halt_masked_never_returns: "halt_masked s = (None :: 'r option)"
proof (cases "halt_masked s :: 'r option")
  case (Some r)
  then have False by (rule halt_masked.raw_induct [of "\<lambda>_ _. False", rotated 1]) blast
  then show ?thesis ..
qed

lemma handlers_update:
  "without_interrupts (\<lambda>s. ((), s\<lparr>irq_handlers := f (irq_handlers s)\<rparr>)) s = ((), s\<lparr>irq_handlers := f (irq_handlers s)\<rparr>)"
proof (cases "are_interrupts_enabled s")
  case True
  have "sti (cli s\<lparr>irq_handlers := x\<rparr>) = (sti (cli s))\<lparr>irq_handlers := x\<rparr>" for x by (simp add: sti_def cli_def)
  moreover have "irq_handlers (cli s) = irq_handlers s" by (simp add: cli_def)
  ultimately show ?thesis using True cli_then_sti [OF True] by (simp add: without_interrupts_def Let_def)
qed (simp add: without_interrupts_masked)

lemma register_irq_cases:
  "register_irq irq h s =
     (if unat irq \<ge> 16 then (Inl irq_range_error, s)
      else (Inr (), s\<lparr>irq_handlers := (irq_handlers s)[unat irq := Some h]\<rparr>))"
  "unregister_irq irq s =
     (if unat irq \<ge> 16 then (Inl irq_range_error, s)
      else (Inr (), s\<lparr>irq_handlers := (irq_handlers s)[unat irq := None]\<rparr>))"
  using handlers_update [of "\<lambda>hs. hs[unat irq := Some h]" s] handlers_update [of "\<lambda>hs. hs[unat irq := None]" s]
  by (simp_all add: register_irq_def unregister_irq_def)

lemma unat_irq: "unat (ucast (irq :: u8) :: u64) = unat irq"
proof -
  have "unat irq < 2 ^ 64" using unsigned_less [of irq, where ?'a = nat] by simp
  then show ?thesis by (simp add: unsigned_ucast_eq take_bit_nat_eq_self)
qed

lemma ucast_irq [simp]: "ucast (ucast (irq :: u8) :: u64) = irq"
  by (rule bit_word_eqI) (simp add: bit_ucast_iff)

lemma dispatch_registered:
  assumes "unat irq < 16" and "irq_handlers s ! unat irq = Some h"
  shows "irq_dispatcher hw code (ucast irq) s = eoi (code h irq s)"
  using assms by (simp add: irq_dispatcher_def unat_irq)

subsection \<open>End of interrupt\<close>

definition eoi_count :: "u64 \<Rightarrow> io_event list \<Rightarrow> nat" where
  "eoi_count base es = length (filter (\<lambda>e. e = MmioWrite (base + 0xB0) 0) es)"

lemma eoi_count_append [simp]: "eoi_count base (es @ fs) = eoi_count base es + eoi_count base fs"
  by (simp add: eoi_count_def)

lemma eoi_count_log: "list_all log_event es \<Longrightarrow> eoi_count base es = 0"
  by (induction es) (auto simp: eoi_count_def)

lemma eoi_effect: "eoi s = s\<lparr>events := events s @ [MmioWrite (lapic_base s + 0xB0) 0]\<rparr>"
  by (simp add: eoi_def lapic_write_def mmio_write_def emit_def lapic_consts)

text \<open>One unhandled interrupt.\<close>

definition unhandled_line :: "u64 \<Rightarrow> str" where
  "unhandled_line irq = lit ''[IRQ] Unhandled hardware IRQ '' @ fmt_dec (unat irq) @ CRLF"

lemma dispatch_unhandled:
  assumes "unat irq < 16" and "irq_handlers s ! unat irq = None"
  obtains es sc where "irq_dispatcher hw code irq s =
      s\<lparr>unhandled_irq_count := (unhandled_irq_count s)[unat irq := unhandled_irq_count s ! unat irq + 1],
        events := events s @ es, screen := sc\<rparr>"
    and "eoi_count (lapic_base s) es = 1"
    and "serial_out es = (if unhandled_irq_count s ! unat irq < 5 then with_cr 0x0A 0x0D (str_bytes (unhandled_line irq)) else [])"
proof -
  let ?n = "unhandled_irq_count s ! unat irq" and ?e = "MmioWrite (lapic_base s + 0xB0) 0"
  let ?s1 = "s\<lparr>unhandled_irq_count := (unhandled_irq_count s)[unat irq := ?n + 1]\<rparr>"
  let ?ps = "[lit ''[IRQ] Unhandled hardware IRQ '', fmt_dec (unat irq)]"
  have e: "eoi_count (lapic_base s) [?e] = 1" "serial_out [?e] = []" by (simp_all add: eoi_count_def serial_out_def)
  show thesis
  proof (cases "?n < 5")
    case True
    obtain es sc where l: "klog hw ?ps ?s1 = ?s1\<lparr>events := events ?s1 @ es, screen := sc\<rparr>" "list_all log_event es"
      using loggedE [OF klog_logged [of ?ps ?s1 hw]] by blast
    have "serial_out es = with_cr 0x0A 0x0D (str_bytes (concat ?ps @ CRLF))"
      using loggedD(1) [OF klog_logged [of ?ps ?s1 hw]] unfolding l(1) by simp
    then show ?thesis
      using True assms l by (intro that [where es = "es @ [?e]" and sc = sc])
        (simp_all add: irq_dispatcher_def eoi_effect Let_def e eoi_count_log unhandled_line_def)
  next
    case False
    then show ?thesis using assms e by (intro that [where es = "[?e]" and sc = "screen s"]) (simp_all add: irq_dispatcher_def eoi_effect Let_def)
  qed
qed

lemma dispatch_unhandled_many:
  fixes hw :: hardware and code :: "'a irq_state_scheme handler_code" and s :: "'a irq_state_scheme" and n :: nat
  assumes "unat irq < 16" and "irq_handlers s ! unat irq = None" and "unat irq < length (unhandled_irq_count s)"
    and "unhandled_irq_count s ! unat irq = 0" and "n < 2 ^ 32"
  defines "s' \<equiv> (irq_dispatcher hw code irq ^^ n) s"
  shows "irq_handlers s' = irq_handlers s \<and> lapic_base s' = lapic_base s \<and> unat irq < length (unhandled_irq_count s')
    \<and> unhandled_irq_count s' ! unat irq = of_nat n
    \<and> eoi_count (lapic_base s) (events s') = eoi_count (lapic_base s) (events s) + n
    \<and> serial_out (events s') = serial_out (events s) @ concat (replicate (min n 5) (with_cr 0x0A 0x0D (str_bytes (unhandled_line irq))))"
  using assms(5) unfolding s'_def
proof (induction n)
  case (Suc n)
  let ?t = "(irq_dispatcher hw code irq ^^ n) s"
  from Suc have ih: "irq_handlers ?t = irq_handlers s" "lapic_base ?t = lapic_base s" "unat irq < length (unhandled_irq_count ?t)"
    "unhandled_irq_count ?t ! unat irq = of_nat n" "eoi_count (lapic_base s) (events ?t) = eoi_count (lapic_base s) (events s) + n"
    "serial_out (events ?t) = serial_out (events s) @ concat (replicate (min n 5) (with_cr 0x0A 0x0D (str_bytes (unhandled_line irq))))"
    by simp_all
  have less: "(of_nat n :: u32) < 5 \<longleftrightarrow> n < 5" using Suc.prems by (simp add: word_less_nat_alt unat_of_nat take_bit_nat_eq_self)
  obtain es sc where d: "irq_dispatcher hw code irq ?t =
      ?t\<lparr>unhandled_irq_count := (unhandled_irq_count ?t)[unat irq := of_nat n + 1], events := events ?t @ es, screen := sc\<rparr>"
    "eoi_count (lapic_base s) es = 1" "serial_out es = (if n < 5 then with_cr 0x0A 0x0D (str_bytes (unhandled_line irq)) else [])"
    using dispatch_unhandled [OF assms(1), of ?t hw code] assms(2) ih less by metis
  have app: "concat (replicate (min n 5) xs) @ (if n < 5 then xs else []) = concat (replicate (min (Suc n) 5) xs)" for xs :: "u8 list"
    by (cases "n < 5") (simp_all add: min_def replicate_append_same [symmetric] del: replicate_append_same)
  show ?case using d ih app by (simp add: add.commute)
qed (use assms(2-4) in simp)

subsection \<open>Exception reports\<close>

definition lines_text :: "str list list \<Rightarrow> str" where
  "lines_text ls = concat (map (\<lambda>ps. concat ps @ CRLF) ls)"

lemma klogs_logged: "logged (lines_text ls) s (fold (klog hw) ls s)"
proof (induction ls arbitrary: s)
  case (Cons l ls)
  then show ?case using logged_trans [OF klog_logged [of l s hw]] by (simp add: lines_text_def)
qed (simp add: lines_text_def logged_refl)

text \<open>The text of a report; \<open>cr2\<close> only matters for page faults.\<close>

definition report_text :: "exception_frame \<Rightarrow> u64 \<Rightarrow> str" where
  "report_text f cr2 =
     (if frame_vector f = 3 then lines_text (breakpoint_lines f)
      else lines_text (exception_lines f @ (if frame_vector f = 14 then page_fault_lines cr2 f else [])
        @ [[lit ''[CPU EXCEPTION] Halting CPU safely.'', CRLF]]))"

lemma unat_vector: "unat (w :: u64) = 3 \<longleftrightarrow> w = 3" "unat (w :: u64) = 14 \<longleftrightarrow> w = 14"
  by (simp_all add: word_unat_eq_iff)

lemma exception_report_logged:
  assumes "frame_vector f \<noteq> 14"
  shows "logged (report_text f cr2) (disable_uefi_console (cli s)) (exception_report hw f s)"
proof -
  have v: "unat (frame_vector f) = 3 \<longleftrightarrow> frame_vector f = 3" "unat (frame_vector f) \<noteq> 14"
    using assms by (simp_all add: unat_vector)
  show ?thesis
    using v assms klogs_logged [of "breakpoint_lines f" "disable_uefi_console (cli s)" hw]
      klogs_logged [of "exception_lines f @ [[lit ''[CPU EXCEPTION] Halting CPU safely.'', CRLF]]" "disable_uefi_console (cli s)" hw]
    by (simp add: exception_report_def report_text_def Let_def)
qed

lemma page_fault_report:
  assumes "frame_vector f = 14"
  obtains es cr2 t1 t2 where "logged t1 (disable_uefi_console (cli s)) es"
    and "logged t2 (emit (ReadCr2 cr2) es) (exception_report hw f s)" and "t1 @ t2 = report_text f cr2"
proof -
  let ?s2 = "fold (klog hw) (exception_lines f) (disable_uefi_console (cli s))"
  let ?cr2 = "hw_cr2 hw (events ?s2)" and ?h = "[[lit ''[CPU EXCEPTION] Halting CPU safely.'', CRLF]]"
  have v: "unat (frame_vector f) = 14" using assms by simp
  have "exception_report hw f s = fold (klog hw) (page_fault_lines ?cr2 f @ ?h) (emit (ReadCr2 ?cr2) ?s2)"
    using v by (simp add: exception_report_def read_cr2_def Let_def)
  then have "logged (lines_text (page_fault_lines ?cr2 f @ ?h)) (emit (ReadCr2 ?cr2) ?s2) (exception_report hw f s)"
    by (simp only: klogs_logged)
  moreover have "lines_text (exception_lines f) @ lines_text (page_fault_lines ?cr2 f @ ?h) = report_text f ?cr2"
    using assms by (simp add: report_text_def lines_text_def)
  ultimately show thesis using that [OF klogs_logged] by blast
qed

lemma exception_report_effect:
  "\<exists>cr2. serial_out (events (exception_report hw f s)) = serial_out (events s) @ with_cr 0x0A 0x0D (str_bytes (report_text f cr2))
     \<and> firmware_out (events (exception_report hw f s)) = firmware_out (events s)
     \<and> rflags (exception_report hw f s) = rflags (cli s)"
proof -
  let ?s1 = "disable_uefi_console (cli s)"
  have s1: "events ?s1 = events s" "rflags ?s1 = rflags (cli s)" "\<not> firmware_listens ?s1"
    by (simp_all add: disable_uefi_console_def cli_def firmware_listens_def)
  show ?thesis
  proof (cases "frame_vector f = 14")
    case False
    note d = loggedD [OF exception_report_logged [OF False, of "0" s hw]]
    show ?thesis by (rule exI [of _ 0]) (use d s1 in simp)
  next
    case True
    obtain e cr2 t1 t2 where l: "logged t1 ?s1 e" "logged t2 (emit (ReadCr2 cr2) e) (exception_report hw f s)" "t1 @ t2 = report_text f cr2"
      by (rule page_fault_report [OF True])
    obtain es sc where "e = ?s1\<lparr>events := events ?s1 @ es, screen := sc\<rparr>" using loggedE [OF l(1)] by blast
    then have fl: "\<not> firmware_listens (emit (ReadCr2 cr2) e)"
      by (simp add: firmware_listens_def emit_def disable_uefi_console_def)
    have r: "serial_out [ReadCr2 cr2] = []" "firmware_out [ReadCr2 cr2] = []" by (simp_all add: serial_out_def firmware_out_def)
    note d = loggedD [OF l(1)] loggedD [OF l(2)]
    show ?thesis by (rule exI [of _ cr2], unfold l(3) [symmetric]) (use d s1 fl r in simp)
  qed
qed

subsection \<open>Properties\<close>

text \<open>C23. Handler registration: a line below 16 takes the handler, and until it is unregistered every interrupt on that line
  runs exactly this handler and then signals the end of interrupt; the other lines keep theirs, the interrupt flag is as
  before, and a line out of range is refused without any change.\<close>
theorem registered_handler_serves_its_line:
  assumes "length (irq_handlers s) = 16" and "register_irq irq h s = (r, s')"
  shows "if unat irq < 16 then r = Inr () \<and> s' = s\<lparr>irq_handlers := irq_handlers s'\<rparr>
      \<and> (\<forall>t. irq_handlers t = irq_handlers s' \<longrightarrow> irq_dispatcher hw code (ucast irq) t = eoi (code h irq t))
      \<and> (\<forall>other < 16. other \<noteq> unat irq \<longrightarrow> irq_handlers s' ! other = irq_handlers s ! other)
      \<and> irq_handlers (snd (unregister_irq irq s')) = (irq_handlers s)[unat irq := None]
    else r = Inl irq_range_error \<and> s' = s"
  using assms dispatch_registered [of irq _ h hw code]
  by (auto simp: register_irq_cases)

text \<open>Unhandled interrupts cannot flood the log: of any number of interrupts (below \<open>2 ^ 32\<close>) on a line without handler, the first
  five print a line, all are counted, and each one signals the end of interrupt exactly once.\<close>
theorem unhandled_irqs_log_five_lines:
  assumes "unat irq < 16" and "irq_handlers s ! unat irq = None" and "unat irq < length (unhandled_irq_count s)"
    and "unhandled_irq_count s ! unat irq = 0" and "n < 2 ^ 32" and "s' = (irq_dispatcher hw code irq ^^ n) s"
  shows "serial_out (events s') = serial_out (events s) @ concat (replicate (min n 5)
      (with_cr 0x0A 0x0D (str_bytes (lit ''[IRQ] Unhandled hardware IRQ '' @ fmt_dec (unat irq) @ CRLF))))
    \<and> unhandled_irq_count s' ! unat irq = of_nat n
    \<and> eoi_count (lapic_base s) (events s') = eoi_count (lapic_base s) (events s) + n"
  using dispatch_unhandled_many [OF assms(1-5), of hw code] unfolding assms(6) unhandled_line_def by blast

text \<open>A processor exception stops the machine, a breakpoint does not: the dispatcher returns exactly for vector 3; in every case
  interrupts are off, the report of the frame is on the serial port and the firmware is not called any more.\<close>
theorem exception_dispatcher_halts_unless_breakpoint:
  "(exception_dispatcher hw f s = (if frame_vector f = 3 then Some (exception_report hw f s) else None))
   \<and> \<not> are_interrupts_enabled (exception_report hw f s)
   \<and> firmware_out (events (exception_report hw f s)) = firmware_out (events s)
   \<and> (\<exists>cr2. serial_out (events (exception_report hw f s)) = serial_out (events s) @ with_cr 0x0A 0x0D (str_bytes (report_text f cr2)))"
proof -
  have "unat (frame_vector f) = 3 \<longleftrightarrow> frame_vector f = 3" by (simp add: unat_vector)
  moreover have "\<not> are_interrupts_enabled (exception_report hw f s)"
    using exception_report_effect [of hw f s] interrupt_flag_simps(2) [of s] unfolding are_interrupts_enabled_def by metis
  ultimately show ?thesis using exception_report_effect [of hw f s]
    by (auto simp: exception_dispatcher_def halt_masked_never_returns)
qed

subsection \<open>Concrete instances\<close>

definition sample_irq_state :: irq_state where
  "sample_irq_state = apic.extend qemu_apic (irq_state.fields (replicate 16 None) (replicate 16 0) 0)"

lemma sample_irq_fields [simp]:
  "irq_handlers sample_irq_state = replicate 16 None" "unhandled_irq_count sample_irq_state = replicate 16 0"
  "lapic_base sample_irq_state = 0xFEE00000" "events sample_irq_state = []"
  by (simp_all add: sample_irq_state_def apic.defs irq_state.defs qemu_apic_def idt_tables.defs fresh_tables_def segments.defs
      firmware_segments_def)

theorem registered_handler_serves_its_line_witness:
  "\<exists>s'. register_irq 4 0x140006000 sample_irq_state = (Inr (), s')
     \<and> irq_dispatcher qemu_hardware (\<lambda>h irq s. outb 0x80 irq s) 4 s' = eoi (outb 0x80 4 s')"
proof -
  obtain r s' where e: "register_irq 4 0x140006000 sample_irq_state = (r, s')" by (cases "register_irq 4 0x140006000 sample_irq_state")
  from registered_handler_serves_its_line [OF _ e, of qemu_hardware "\<lambda>h irq s. outb 0x80 irq s"]
  have "r = Inr () \<and> irq_dispatcher qemu_hardware (\<lambda>h irq s. outb 0x80 irq s) 4 s' = eoi (outb 0x80 4 s')" by simp blast
  then show ?thesis using e by blast
qed

theorem unhandled_irqs_log_five_lines_witness:
  "eoi_count 0xFEE00000 (events ((irq_dispatcher qemu_hardware (\<lambda>h irq s. s) 7 ^^ 1000) sample_irq_state)) = 1000
   \<and> serial_out (events ((irq_dispatcher qemu_hardware (\<lambda>h irq s. s) 7 ^^ 1000) sample_irq_state)) =
       concat (replicate 5 (with_cr 0x0A 0x0D (str_bytes (lit ''[IRQ] Unhandled hardware IRQ '' @ fmt_dec 7 @ CRLF))))"
proof -
  define n :: nat where "n = 1000"
  have "n < 2 ^ 32" "min n 5 = 5" by (simp_all add: n_def)
  with unhandled_irqs_log_five_lines [of 7 sample_irq_state n _ qemu_hardware "\<lambda>h irq s. s", OF _ _ _ _ _ refl]
  show ?thesis unfolding n_def [symmetric] by (simp add: eoi_count_def)
qed

end
