(* ===== verification/Timer.thy ===== *)
theory Timer
  imports Irq
begin

text \<open>
  The periodic timer (\<^verbatim>\<open>src/src/timer.rs\<close>): calibration of the local APIC timer against the programmable interval timer, the tick
  handler and the uptime.  The wait loop of the calibration counts its polls, so it is a total function.
\<close>

definition TIMER_IRQ :: u8 where
  "TIMER_IRQ = 0"

definition TIMER_VECTOR :: u8 where
  "TIMER_VECTOR = 32"

definition TIMER_HZ :: u64 where
  "TIMER_HZ = 100"

definition TIMER_DIVIDE_16 :: u32 where
  "TIMER_DIVIDE_16 = 0x03"

definition TIMER_FALLBACK_COUNT :: u32 where
  "TIMER_FALLBACK_COUNT = 0x00100000"

definition PIT_FREQUENCY_HZ :: u64 where
  "PIT_FREQUENCY_HZ = 1193182"

definition PIT_CALIBRATION_HZ :: u64 where
  "PIT_CALIBRATION_HZ = 20"

definition PIT_CHANNEL2_DATA :: u16 where
  "PIT_CHANNEL2_DATA = 0x42"

definition PIT_COMMAND :: u16 where
  "PIT_COMMAND = 0x43"

definition PIT_GATE_PORT :: u16 where
  "PIT_GATE_PORT = 0x61"

definition PIT_WAIT_LIMIT :: nat where
  "PIT_WAIT_LIMIT = 50000000"

lemmas timer_consts = TIMER_IRQ_def TIMER_VECTOR_def TIMER_HZ_def TIMER_DIVIDE_16_def TIMER_FALLBACK_COUNT_def
  PIT_FREQUENCY_HZ_def PIT_CALIBRATION_HZ_def PIT_CHANNEL2_DATA_def PIT_COMMAND_def PIT_GATE_PORT_def

record timer_state = irq_state +
  ticks :: u64
  initial_count :: u32

definition current_ticks :: "'a timer_state_scheme \<Rightarrow> u64" where
  "current_ticks s = ticks s"

definition uptime_ms :: "'a timer_state_scheme \<Rightarrow> u64" where
  "uptime_ms s = current_ticks s * 1000 div TIMER_HZ"

definition timer_irq_handler :: "hardware \<Rightarrow> u8 \<Rightarrow> 'a timer_state_scheme \<Rightarrow> 'a timer_state_scheme" where
  "timer_irq_handler hw irq s =
     (let t = ticks s + 1; s1 = s\<lparr>ticks := t\<rparr>
      in if t mod 100 = 0 then klog hw [lit ''[TIMER] tick: '', fmt_dec (unat t)] s1 else s1)"

subsection \<open>Calibration\<close>

function pit_wait :: "hardware \<Rightarrow> nat \<Rightarrow> 'a platform_scheme \<Rightarrow> bool \<times> 'a platform_scheme" where
  "pit_wait hw waited s =
     (let (v, s1) = inb hw PIT_GATE_PORT s in
      if v AND 0x20 = 0 then
        if waited + 1 > PIT_WAIT_LIMIT then (False, s1) else pit_wait hw (waited + 1) s1
      else (True, s1))"
  by pat_completeness auto
termination by (relation "measure (\<lambda>(hw, waited, s). PIT_WAIT_LIMIT - waited)") auto

declare pit_wait.simps [simp del]

definition calibrate_lapic_timer :: "hardware \<Rightarrow> 'a timer_state_scheme \<Rightarrow> u64 option \<times> 'a timer_state_scheme" where
  "calibrate_lapic_timer hw s =
     (let (v, s1) = inb hw PIT_GATE_PORT s;
          s2 = outb PIT_GATE_PORT ((v AND NOT 0x02) OR 0x01) s1;
          reload = (ucast (PIT_FREQUENCY_HZ div PIT_CALIBRATION_HZ) :: u16);
          s3 = outb PIT_COMMAND 0xB2 s2;
          s4 = outb PIT_CHANNEL2_DATA (ucast (reload AND 0xFF)) s3;
          s5 = outb PIT_CHANNEL2_DATA (ucast (drop_bit 8 reload)) s4;
          (v, s6) = inb hw PIT_GATE_PORT s5;
          gate = v AND NOT 0x01;
          s7 = outb PIT_GATE_PORT gate s6;
          s8 = outb PIT_GATE_PORT (gate OR 0x01) s7;
          s9 = lapic_write LAPIC_TIMER_DCR TIMER_DIVIDE_16 s8;
          s10 = lapic_write LAPIC_LVT_TIMER (0x10000 OR ucast TIMER_VECTOR) s9;
          s11 = lapic_write LAPIC_TIMER_ICR 0xFFFFFFFF s10;
          (done, s12) = pit_wait hw 0 s11
      in if \<not> done then (None, lapic_write LAPIC_TIMER_ICR 0 s12)
         else
           let (ccr, s13) = lapic_read hw LAPIC_TIMER_CCR s12;
               elapsed = 0xFFFFFFFF - ccr;
               s14 = lapic_write LAPIC_TIMER_ICR 0 s13
           in (if elapsed = 0 then None else Some (ucast elapsed * PIT_CALIBRATION_HZ), s14))"

definition clamp :: "u64 \<Rightarrow> u64 \<Rightarrow> u64 \<Rightarrow> u64" where
  "clamp low high v = (if v < low then low else if v > high then high else v)"

definition timer_init :: "hardware \<Rightarrow> u64 \<Rightarrow> 'a timer_state_scheme \<Rightarrow> 'a timer_state_scheme" where
  "timer_init hw timer_irq_handler_addr s =
     (let (_, s1) = register_irq TIMER_IRQ timer_irq_handler_addr s;
          (counts_per_sec, s2) = calibrate_lapic_timer hw s1;
          s3 = (case counts_per_sec of
                  Some rate \<Rightarrow>
                    klog hw [lit ''[TIMER] calibrated against PIT: '', fmt_dec (unat rate), lit '' LAPIC counts/s (divide 16)'']
                      (s2\<lparr>initial_count := ucast (clamp 1 0xFFFFFFFF (rate div TIMER_HZ))\<rparr>)
                | None \<Rightarrow>
                    klog hw [lit ''[TIMER WARN] PIT calibration failed, using fallback count '', fmt_hex 0 (unat TIMER_FALLBACK_COUNT)] s2);
          s4 = start_lapic_timer TIMER_VECTOR (initial_count s3) TIMER_DIVIDE_16 s3
      in klog hw [lit ''[TIMER] initialized (Local APIC periodic mode, '', fmt_dec (unat TIMER_HZ), lit '' Hz, initial count '',
                  fmt_dec (unat (initial_count s4)), lit '')''] s4)"

subsection \<open>Effects\<close>

lemma pit_wait_effect:
  assumes "w \<le> PIT_WAIT_LIMIT"
  shows "\<exists>b es. pit_wait hw w s = (b, s\<lparr>events := events s @ es\<rparr>) \<and> length es \<le> PIT_WAIT_LIMIT - w + 1
    \<and> list_all (\<lambda>e. \<exists>v. e = InB PIT_GATE_PORT v) es"
  using assms
proof (induction hw w s rule: pit_wait.induct)
  case (1 hw w s)
  let ?v = "hw_inb hw (events s) PIT_GATE_PORT"
  let ?s = "s\<lparr>events := events s @ [InB PIT_GATE_PORT ?v]\<rparr>"
  have i: "inb hw PIT_GATE_PORT s = (?v, ?s)" by (simp add: inb_def emit_def Let_def)
  have step: "pit_wait hw w s = (if ?v AND 0x20 = 0 then if w + 1 > PIT_WAIT_LIMIT then (False, ?s) else pit_wait hw (w + 1) ?s else (True, ?s))"
    by (subst pit_wait.simps) (simp add: i)
  show ?case
  proof (cases "?v AND 0x20 = 0 \<and> w + 1 \<le> PIT_WAIT_LIMIT")
    case True
    with "1.IH" [OF i [symmetric] refl] obtain b es where "pit_wait hw (w + 1) ?s = (b, ?s\<lparr>events := events ?s @ es\<rparr>)"
      "length es \<le> PIT_WAIT_LIMIT - (w + 1) + 1" "list_all (\<lambda>e. \<exists>v. e = InB PIT_GATE_PORT v) es" by auto
    then show ?thesis using True step by (intro exI [of _ b] exI [of _ "InB PIT_GATE_PORT ?v # es"]) auto
  next
    case False
    then have "\<exists>b. pit_wait hw w s = (b, ?s)" unfolding step by auto
    then show ?thesis by (auto intro!: exI [of _ "[InB PIT_GATE_PORT ?v]"])
  qed
qed

lemma calibrate_effect:
  obtains r es where "calibrate_lapic_timer hw s = (r, s\<lparr>events := events s @ es\<rparr>)"
    and "r = None \<or> (\<exists>e :: u32. e \<noteq> 0 \<and> r = Some (ucast e * 20))" and "length es \<le> PIT_WAIT_LIMIT + 14"
proof -
  define pre where "pre = (let v = hw_inb hw (events s) PIT_GATE_PORT;
      e5 = events s @ [InB PIT_GATE_PORT v, OutB PIT_GATE_PORT ((v AND NOT 0x02) OR 0x01), OutB PIT_COMMAND 0xB2,
        OutB PIT_CHANNEL2_DATA 0x0B, OutB PIT_CHANNEL2_DATA 0xE9]; v' = hw_inb hw e5 PIT_GATE_PORT in
    [InB PIT_GATE_PORT v, OutB PIT_GATE_PORT ((v AND NOT 0x02) OR 0x01), OutB PIT_COMMAND 0xB2,
     OutB PIT_CHANNEL2_DATA 0x0B, OutB PIT_CHANNEL2_DATA 0xE9, InB PIT_GATE_PORT v', OutB PIT_GATE_PORT (v' AND NOT 0x01),
     OutB PIT_GATE_PORT ((v' AND NOT 0x01) OR 0x01), MmioWrite (lapic_base s + 0x3E0) 3, MmioWrite (lapic_base s + 0x320) 0x10020,
     MmioWrite (lapic_base s + 0x380) 0xFFFFFFFF])"
  let ?s = "s\<lparr>events := events s @ pre\<rparr>"
  obtain b ws where w: "pit_wait hw 0 ?s = (b, ?s\<lparr>events := events ?s @ ws\<rparr>)" "length ws \<le> PIT_WAIT_LIMIT + 1"
    using pit_wait_effect [of 0 hw ?s] by auto
  have len: "length pre = 11" by (simp add: pre_def Let_def)
  let ?ccr = "hw_mmio hw (events s @ pre @ ws) (lapic_base s + 0x390)"
  define e where "e = 0xFFFFFFFF - ?ccr"
  have c: "calibrate_lapic_timer hw s =
      (if \<not> b then (None, s\<lparr>events := events s @ (pre @ ws @ [MmioWrite (lapic_base s + 0x380) 0])\<rparr>)
       else (if e = 0 then None else Some (ucast e * 20),
         s\<lparr>events := events s @ (pre @ ws @ [MmioRead (lapic_base s + 0x390) ?ccr, MmioWrite (lapic_base s + 0x380) 0])\<rparr>))"
  proof -
    have "calibrate_lapic_timer hw s = (let (done, s12) = pit_wait hw 0 ?s in
        if \<not> done then (None, lapic_write LAPIC_TIMER_ICR 0 s12)
        else let (ccr, s13) = lapic_read hw LAPIC_TIMER_CCR s12; elapsed = 0xFFFFFFFF - ccr; s14 = lapic_write LAPIC_TIMER_ICR 0 s13
          in (if elapsed = 0 then None else Some (ucast elapsed * PIT_CALIBRATION_HZ), s14))"
      unfolding calibrate_lapic_timer_def
      by (simp add: pre_def inb_def outb_def emit_def lapic_write_def mmio_write_def lapic_consts timer_consts Let_def)
    then show ?thesis unfolding w(1)
      by (simp add: lapic_read_def lapic_write_def mmio_read_def mmio_write_def emit_def lapic_consts PIT_CALIBRATION_HZ_def Let_def e_def)
  qed
  show thesis
  proof (cases b)
    case True
    show ?thesis
      by (rule that [where r = "if e = 0 then None else Some (ucast e * 20)"
            and es = "pre @ ws @ [MmioRead (lapic_base s + 0x390) ?ccr, MmioWrite (lapic_base s + 0x380) 0]"])
        (use True c len w(2) in auto)
  next
    case False
    show ?thesis
      by (rule that [where r = None and es = "pre @ ws @ [MmioWrite (lapic_base s + 0x380) 0]"]) (use False c len w(2) in simp_all)
  qed
qed

text \<open>Five counts of the 50 ms window (20 per second) make one count of a 10 ms tick; the upper clamp is never reached.\<close>

lemma period_of_elapsed:
  fixes e :: u32
  shows "unat (ucast (clamp 1 0xFFFFFFFF (ucast e * 20 div 100)) :: u32) = max 1 (unat e div 5)"
proof -
  have e: "unat e < 2 ^ 32" using unsigned_less [of e, where ?'a = nat] by simp
  have u: "unat (ucast e :: u64) = unat e" using e by (simp add: unsigned_ucast_eq take_bit_nat_eq_self)
  have "unat (ucast e * 20 :: u64) = unat e * 20" using e u by (subst unat_mult_u64) simp_all
  then have d: "unat (ucast e * 20 div 100 :: u64) = unat e div 5" by (simp add: unat_div div_mult2_eq [symmetric])
  let ?q = "ucast e * 20 div 100 :: u64"
  have "clamp 1 0xFFFFFFFF ?q = (if ?q < 1 then 1 else ?q)"
    using d e by (auto simp: clamp_def word_less_nat_alt)
  then have "unat (clamp 1 0xFFFFFFFF ?q) = max 1 (unat e div 5)" using d by (auto simp: word_less_nat_alt max_def)
  moreover have "max 1 (unat e div 5) < 2 ^ 32" using e by auto
  ultimately show ?thesis by (simp add: unsigned_ucast_eq take_bit_nat_eq_self)
qed

lemma start_lapic_timer_effect:
  "start_lapic_timer TIMER_VECTOR n TIMER_DIVIDE_16 s = s\<lparr>events := events s @
     [MmioWrite (lapic_base s + 0x3E0) 3, MmioWrite (lapic_base s + 0x320) 0x20020, MmioWrite (lapic_base s + 0x380) n]\<rparr>"
  by (simp add: start_lapic_timer_def lapic_write_def mmio_write_def emit_def lapic_consts timer_consts)

lemma klog_effect:
  obtains es sc where "klog hw ps s = s\<lparr>events := events s @ es, screen := sc\<rparr>" "list_all log_event es"
  using loggedE [OF klog_logged [of ps s hw]] by blast

lemma timer_init_effect:
  assumes "length (irq_handlers s) = 16"
  obtains n pre post sc where "timer_init hw h s = s\<lparr>irq_handlers := (irq_handlers s)[0 := Some h], initial_count := n,
      events := events s @ pre @ [MmioWrite (lapic_base s + 0x3E0) 3, MmioWrite (lapic_base s + 0x320) 0x20020,
        MmioWrite (lapic_base s + 0x380) n] @ post, screen := sc\<rparr>"
    and "n = initial_count s \<or> (\<exists>e :: u32. e \<noteq> 0 \<and> unat n = max 1 (unat e div 5))" and "list_all log_event post"
proof -
  let ?s1 = "s\<lparr>irq_handlers := (irq_handlers s)[0 := Some h]\<rparr>"
  have r: "register_irq TIMER_IRQ h s = (Inr (), ?s1)" by (simp add: register_irq_cases TIMER_IRQ_def)
  obtain c es where c: "calibrate_lapic_timer hw ?s1 = (c, ?s1\<lparr>events := events ?s1 @ es\<rparr>)"
    "c = None \<or> (\<exists>e :: u32. e \<noteq> 0 \<and> c = Some (ucast e * 20))" by (rule calibrate_effect)
  define n where "n = (case c of None \<Rightarrow> initial_count s | Some rate \<Rightarrow> ucast (clamp 1 0xFFFFFFFF (rate div 100)))"
  define ps where "ps = (case c of None \<Rightarrow> [lit ''[TIMER WARN] PIT calibration failed, using fallback count '', fmt_hex 0 (unat TIMER_FALLBACK_COUNT)]
    | Some rate \<Rightarrow> [lit ''[TIMER] calibrated against PIT: '', fmt_dec (unat rate), lit '' LAPIC counts/s (divide 16)''])"
  let ?s2 = "?s1\<lparr>events := events s @ es, initial_count := n\<rparr>"
  obtain l1 sc1 where l1: "klog hw ps ?s2 = ?s2\<lparr>events := events ?s2 @ l1, screen := sc1\<rparr>" by (rule klog_effect)
  let ?s3 = "?s2\<lparr>events := events ?s2 @ l1, screen := sc1\<rparr>"
  let ?s4 = "start_lapic_timer TIMER_VECTOR n TIMER_DIVIDE_16 ?s3"
  let ?ps = "[lit ''[TIMER] initialized (Local APIC periodic mode, '', fmt_dec (unat TIMER_HZ), lit '' Hz, initial count '', fmt_dec (unat n), lit '')'']"
  obtain l2 sc2 where l2: "klog hw ?ps ?s4 = ?s4\<lparr>events := events ?s4 @ l2, screen := sc2\<rparr>" "list_all log_event l2" by (rule klog_effect)
  have same: "?s2 = ?s1\<lparr>events := events s @ es\<rparr>" if "c = None"
    using that by (intro timer_state.equality) (simp_all add: n_def)
  have "(case c of Some rate \<Rightarrow>
        klog hw [lit ''[TIMER] calibrated against PIT: '', fmt_dec (unat rate), lit '' LAPIC counts/s (divide 16)'']
          (?s1\<lparr>events := events ?s1 @ es, initial_count := ucast (clamp 1 0xFFFFFFFF (rate div TIMER_HZ))\<rparr>)
      | None \<Rightarrow> klog hw [lit ''[TIMER WARN] PIT calibration failed, using fallback count '', fmt_hex 0 (unat TIMER_FALLBACK_COUNT)]
          (?s1\<lparr>events := events ?s1 @ es\<rparr>)) = klog hw ps ?s2"
  proof (cases c)
    case None
    show ?thesis unfolding same [OF None] by (simp add: None ps_def)
  qed (simp add: n_def ps_def TIMER_HZ_def)
  note log1 = this [unfolded l1]
  have n3: "initial_count ?s3 = n" "initial_count ?s4 = n" by (simp_all add: start_lapic_timer_effect)
  have "timer_init hw h s = klog hw ?ps ?s4"
    unfolding timer_init_def r c(1) prod.case Let_def log1 n3 ..
  also have "\<dots> = s\<lparr>irq_handlers := (irq_handlers s)[0 := Some h], initial_count := n,
      events := events s @ (es @ l1) @ [MmioWrite (lapic_base s + 0x3E0) 3, MmioWrite (lapic_base s + 0x320) 0x20020,
        MmioWrite (lapic_base s + 0x380) n] @ l2, screen := sc2\<rparr>"
    unfolding l2(1) by (simp add: start_lapic_timer_effect)
  finally show thesis
    using c(2) l2(2) period_of_elapsed by (intro that [where n = n and pre = "es @ l1" and post = l2 and sc = sc2]) (auto simp: n_def)
qed

text \<open>One tick, and many of them.\<close>

lemma timer_handler_effect:
  obtains es sc where "timer_irq_handler hw irq s = s\<lparr>ticks := ticks s + 1, events := events s @ es, screen := sc\<rparr>" "list_all log_event es"
proof (cases "(ticks s + 1) mod 100 = 0")
  case True
  let ?s1 = "s\<lparr>ticks := ticks s + 1\<rparr>" and ?ps = "[lit ''[TIMER] tick: '', fmt_dec (unat (ticks s + 1))]"
  obtain es sc where "klog hw ?ps ?s1 = ?s1\<lparr>events := events ?s1 @ es, screen := sc\<rparr>" "list_all log_event es" by (rule klog_effect)
  then show ?thesis using True by (intro that [where es = es and sc = sc]) (simp_all add: timer_irq_handler_def Let_def)
next
  case False
  show ?thesis
    by (rule that [where es = "[]" and sc = "screen s"]) (use False in \<open>simp_all add: timer_irq_handler_def Let_def\<close>)
qed

lemma timer_dispatches:
  fixes s :: "'a timer_state_scheme" and code :: "'a timer_state_scheme handler_code"
  assumes "irq_handlers s ! 0 = Some h" and "code h = timer_irq_handler hw"
  defines "f \<equiv> irq_dispatcher hw code 0"
  shows "irq_handlers ((f ^^ n) s) = irq_handlers s \<and> lapic_base ((f ^^ n) s) = lapic_base s \<and> ticks ((f ^^ n) s) = ticks s + of_nat n
    \<and> eoi_count (lapic_base s) (events ((f ^^ n) s)) = eoi_count (lapic_base s) (events s) + n"
proof (induction n)
  case (Suc n)
  let ?t = "(f ^^ n) s"
  obtain es sc where t: "timer_irq_handler hw 0 ?t = ?t\<lparr>ticks := ticks ?t + 1, events := events ?t @ es, screen := sc\<rparr>" "list_all log_event es"
    by (rule timer_handler_effect)
  have "f ?t = eoi (timer_irq_handler hw 0 ?t)"
    using dispatch_registered [of 0 ?t h hw code] assms Suc.IH by simp
  then show ?case using Suc.IH t eoi_count_log [OF t(2)] by (simp add: eoi_effect eoi_count_def)
qed simp

lemma uptime_exact: "unat (ticks s) * 1000 < 2 ^ 64 \<Longrightarrow> unat (uptime_ms s) = 10 * unat (ticks s)"
  by (simp add: uptime_ms_def current_ticks_def TIMER_HZ_def unat_div unat_mult_u64 div_mult2_eq [symmetric])

subsection \<open>Properties\<close>

text \<open>The timer always starts: initialisation ends whatever the devices answer (the calibration polls at most fifty million and one
  times), registers the tick handler for IRQ 0, and leaves the local APIC timer in periodic mode on vector \<open>32 = 32 + 0\<close> with a positive
  count, which is the measured one, a fifth of the counts of the 50 ms window, or the previous value when calibration failed.\<close>
theorem timer_init_starts_periodic_tick:
  fixes s :: "'a timer_state_scheme" and hw :: hardware and h :: u64
  assumes "length (irq_handlers s) = 16" and "initial_count s \<noteq> 0"
  defines "s' \<equiv> timer_init hw h s"
  shows "irq_handlers s' = (irq_handlers s)[unat TIMER_IRQ := Some h] \<and> ticks s' = ticks s \<and> initial_count s' \<noteq> 0
    \<and> (initial_count s' = initial_count s \<or> (\<exists>elapsed :: u32. elapsed \<noteq> 0 \<and> unat (initial_count s') = max 1 (unat elapsed div 5)))
    \<and> (\<exists>pre post. events s' = events s @ pre @
         [MmioWrite (lapic_base s + 0x3E0) TIMER_DIVIDE_16, MmioWrite (lapic_base s + 0x320) (0x20000 OR ucast (IRQ_BASE_VECTOR + TIMER_IRQ)),
          MmioWrite (lapic_base s + 0x380) (initial_count s')] @ post \<and> list_all log_event post)"
proof -
  obtain n pre post sc where t: "s' = s\<lparr>irq_handlers := (irq_handlers s)[0 := Some h], initial_count := n,
      events := events s @ pre @ [MmioWrite (lapic_base s + 0x3E0) 3, MmioWrite (lapic_base s + 0x320) 0x20020,
        MmioWrite (lapic_base s + 0x380) n] @ post, screen := sc\<rparr>"
    and n: "n = initial_count s \<or> (\<exists>e :: u32. e \<noteq> 0 \<and> unat n = max 1 (unat e div 5))" and l: "list_all log_event post"
    unfolding s'_def by (rule timer_init_effect [OF assms(1)])
  have "n \<noteq> 0" using n assms(2) by auto
  then show ?thesis using n l unfolding t by (auto simp: timer_consts IRQ_BASE_VECTOR_def)
qed

text \<open>C24. Time does not get lost: once the tick handler is registered, any number of timer interrupts advances the tick counter by exactly
  that number and signals as many ends of interrupt; while the millisecond product fits 64 bits the uptime is ten milliseconds per tick.\<close>
theorem timer_interrupts_are_counted:
  fixes s :: "'a timer_state_scheme" and code :: "'a timer_state_scheme handler_code"
  assumes "length (irq_handlers s) = 16" and "code h = timer_irq_handler hw" and "s0 = timer_init hw h s"
    and "s' = (irq_dispatcher hw code (ucast TIMER_IRQ) ^^ n) s0"
  shows "ticks s' = ticks s + of_nat n
    \<and> eoi_count (lapic_base s0) (events s') = eoi_count (lapic_base s0) (events s0) + n
    \<and> (unat (ticks s') * 1000 < 2 ^ 64 \<longrightarrow> unat (uptime_ms s') = 10 * unat (ticks s'))"
proof -
  have "irq_handlers s0 ! 0 = Some h \<and> ticks s0 = ticks s"
    unfolding assms(3) by (rule timer_init_effect [OF assms(1), of hw h]) (simp add: assms(1))
  then show ?thesis
    using timer_dispatches [of s0 h code hw n] assms(2) uptime_exact [of s'] unfolding assms(4) TIMER_IRQ_def by simp
qed

subsection \<open>Concrete instances\<close>

definition sample_timer_state :: timer_state where
  "sample_timer_state = irq_state.extend sample_irq_state (timer_state.fields 0 TIMER_FALLBACK_COUNT)"

lemma sample_timer_fields [simp]:
  "irq_handlers sample_timer_state = replicate 16 None" "ticks sample_timer_state = 0" "initial_count sample_timer_state = 0x100000"
  by (simp_all add: sample_timer_state_def irq_state.defs timer_state.defs sample_irq_state_def apic.defs TIMER_FALLBACK_COUNT_def)

theorem timer_init_starts_periodic_tick_witness:
  "initial_count (timer_init qemu_hardware 0x140006100 sample_timer_state) \<noteq> 0
   \<and> irq_handlers (timer_init qemu_hardware 0x140006100 sample_timer_state) ! 0 = Some 0x140006100"
  using timer_init_starts_periodic_tick [of sample_timer_state qemu_hardware "0x140006100"] by (simp add: TIMER_IRQ_def)

theorem timer_interrupts_are_counted_witness:
  "ticks ((irq_dispatcher qemu_hardware (\<lambda>h. timer_irq_handler qemu_hardware) 0 ^^ 250) (timer_init qemu_hardware 0x140006100 sample_timer_state)) = 250"
proof -
  define n :: nat where "n = 250"
  have "of_nat n = (250 :: u64)" by (simp add: n_def)
  with timer_interrupts_are_counted [of sample_timer_state "\<lambda>h. timer_irq_handler qemu_hardware" "0x140006100" qemu_hardware _ _ n, OF _ _ refl refl]
  show ?thesis unfolding n_def [symmetric] by (simp add: TIMER_IRQ_def)
qed

end
