(* ===== verification/Uefi.thy ===== *)
theory Uefi
  imports Timer Memory_Map
begin

text \<open>
  The firmware phase of the boot (\<^verbatim>\<open>src/src/main.rs\<close>): the kernel asks UEFI for the framebuffer, the ACPI root pointer and the memory
  map, leaves boot services and hands over to the kernel proper.  The firmware is a parameter: the tables it publishes and
  its answers to the protocol calls, which may differ from one attempt to the next.
\<close>

record efi_guid =
  guid_data1 :: u32
  guid_data2 :: u16
  guid_data3 :: u16
  guid_data4 :: "u8 list"

definition EFI_SUCCESS :: u64 where
  "EFI_SUCCESS = 0"

definition EFI_GRAPHICS_OUTPUT_PROTOCOL_GUID :: efi_guid where
  "EFI_GRAPHICS_OUTPUT_PROTOCOL_GUID = \<lparr>guid_data1 = 0x9042a9de, guid_data2 = 0x23dc, guid_data3 = 0x4a38,
     guid_data4 = [0x96, 0xfb, 0x7a, 0xde, 0xd0, 0x80, 0x51, 0x6a]\<rparr>"

definition EFI_ACPI_20_TABLE_GUID :: efi_guid where
  "EFI_ACPI_20_TABLE_GUID = \<lparr>guid_data1 = 0x8868e871, guid_data2 = 0xe4f1, guid_data3 = 0x11d3,
     guid_data4 = [0xbc, 0x22, 0x00, 0x80, 0xc7, 0x3c, 0x88, 0x81]\<rparr>"

definition EFI_ACPI_10_TABLE_GUID :: efi_guid where
  "EFI_ACPI_10_TABLE_GUID = \<lparr>guid_data1 = 0xeb9d2d30, guid_data2 = 0x2d88, guid_data3 = 0x11d3,
     guid_data4 = [0x9a, 0x16, 0x00, 0x90, 0x27, 0x3f, 0xc1, 0x4d]\<rparr>"

lemmas acpi_guids = EFI_ACPI_20_TABLE_GUID_def EFI_ACPI_10_TABLE_GUID_def

text \<open>The fields of the mode and of its information block that the kernel reads.\<close>

record efi_graphics_output_mode =
  frame_buffer_base :: u64
  frame_buffer_size :: u64
  horizontal_resolution :: u32
  vertical_resolution :: u32
  gop_pixel_format :: u32
  pixels_per_scan_line :: u32

record efi_memory_map_answer =
  mm_status :: u64
  mm_map_size :: nat
  mm_map_key :: u64
  mm_desc_size :: nat
  mm_bytes :: "u8 list"

record efi_configuration_table =
  vendor_guid :: efi_guid
  vendor_table :: u64

record firmware =
  fw_con_out :: u64
  fw_configuration_table :: "efi_configuration_table list"
  fw_locate_protocol :: "efi_guid \<Rightarrow> u64 \<times> u64"
  fw_gop_mode :: "u64 \<Rightarrow> efi_graphics_output_mode"
  fw_get_memory_map :: "nat \<Rightarrow> efi_memory_map_answer"
  fw_exit_boot_services :: "nat \<Rightarrow> u64 \<Rightarrow> u64"

record boot = timer_state +
  raw_mmap_buffer :: "u8 list"
  memory_map :: physical_memory_map

subsection \<open>Discovery\<close>

definition find_gop :: "hardware \<Rightarrow> firmware \<Rightarrow> 'a board_scheme \<Rightarrow> 'a board_scheme" where
  "find_gop hw fw s =
     (let (status, gop) = fw_locate_protocol fw EFI_GRAPHICS_OUTPUT_PROTOCOL_GUID in
      if status \<noteq> EFI_SUCCESS \<or> gop = 0 then
        klog hw [lit ''[BOOT WARN] UEFI GOP not found, screen output stops after ExitBootServices''] s
      else
        let mode = fw_gop_mode fw gop;
            fb = \<lparr>fb_phys_base = frame_buffer_base mode, fb_size_bytes = frame_buffer_size mode,
                  fb_width = unat (horizontal_resolution mode), fb_height = unat (vertical_resolution mode),
                  fb_stride = unat (pixels_per_scan_line mode), fb_format = pixel_format_from_uefi (gop_pixel_format mode)\<rparr>
        in klog hw [lit ''[BOOT] GOP framebuffer '', fmt_dec (fb_width fb), lit ''x'', fmt_dec (fb_height fb), lit '' '',
                    lit (pixel_format_name (fb_format fb)), lit '' at '', fmt_hex 0 (unat (fb_phys_base fb))]
             (s\<lparr>screen := set_info fb (screen s)\<rparr>))"

text \<open>The loop over the configuration table, with the pointer found so far.\<close>

fun rsdp_loop :: "efi_configuration_table list \<Rightarrow> u64 \<Rightarrow> u64" where
  "rsdp_loop [] rsdp = rsdp"
| "rsdp_loop (t # ts) rsdp =
     (if vendor_guid t = EFI_ACPI_20_TABLE_GUID then vendor_table t
      else if vendor_guid t = EFI_ACPI_10_TABLE_GUID \<and> rsdp = 0 then rsdp_loop ts (vendor_table t)
      else rsdp_loop ts rsdp)"

definition find_rsdp :: "hardware \<Rightarrow> firmware \<Rightarrow> 'a apic_scheme \<Rightarrow> 'a apic_scheme" where
  "find_rsdp hw fw s =
     (let rsdp = rsdp_loop (fw_configuration_table fw) 0 in
      if rsdp = 0 then klog hw [lit ''[BOOT WARN] ACPI RSDP not found in UEFI configuration table''] s
      else s\<lparr>acpi := set_rsdp rsdp (acpi s)\<rparr>)"

subsection \<open>Leaving boot services\<close>

definition overwrite :: "u8 list \<Rightarrow> u8 list \<Rightarrow> u8 list" where
  "overwrite bs buf = bs @ drop (length bs) buf"

text \<open>\<open>n\<close> attempts are left and \<open>k\<close> have been made.\<close>

fun exit_attempts :: "firmware \<Rightarrow> nat \<Rightarrow> nat \<Rightarrow> u8 list \<Rightarrow> (nat \<times> nat) option \<times> u8 list" where
  "exit_attempts fw 0 k buf = (None, buf)"
| "exit_attempts fw (Suc n) k buf =
     (let a = fw_get_memory_map fw k; buf = overwrite (mm_bytes a) buf in
      if mm_status a \<noteq> EFI_SUCCESS \<or> mm_desc_size a = 0 then (None, buf)
      else if fw_exit_boot_services fw k (mm_map_key a) = EFI_SUCCESS then (Some (mm_map_size a, mm_desc_size a), buf)
      else exit_attempts fw n (Suc k) buf)"

definition exit_boot_services :: "firmware \<Rightarrow> u8 list \<Rightarrow> (nat \<times> nat) option \<times> u8 list" where
  "exit_boot_services fw buf = exit_attempts fw 4 0 buf"

text \<open>\<^verbatim>\<open>efi_main\<close> up to the call of \<^verbatim>\<open>kernel_main\<close>; a failed hand-over halts and a map longer than the buffer is a slice panic, both
  \<^const>\<open>None\<close>.\<close>

definition efi_main :: "hardware \<Rightarrow> firmware \<Rightarrow> 'a boot_scheme \<Rightarrow> 'a boot_scheme option" where
  "efi_main hw fw s =
     (let out = fw_con_out fw;
          s1 = logger_init out (emit (EfiReset out) s);
          s2 = find_rsdp hw fw (find_gop hw fw s1);
          s3 = klog hw [lit ''[BOOT] Exiting UEFI boot services...''] s2
      in case exit_boot_services fw (raw_mmap_buffer s3) of
           (None, buf) \<Rightarrow> halt (klog hw [lit ''[BOOT PANIC] ExitBootServices failed!''] (s3\<lparr>raw_mmap_buffer := buf\<rparr>))
         | (Some (map_size, desc_size), buf) \<Rightarrow>
             let s4 = disable_uefi_console (cli (s3\<lparr>raw_mmap_buffer := buf\<rparr>));
                 (ok, sc) = console_init (screen s4);
                 s5 = s4\<lparr>screen := sc\<rparr>;
                 s6 = (if ok then s5 else klog hw [lit ''[BOOT WARN] No linear framebuffer, logging to COM1 only''] s5)
             in if map_size > length (raw_mmap_buffer s6)
                then panic hw [lit ''range end index '', fmt_dec map_size, lit '' out of range for slice of length '',
                               fmt_dec (length (raw_mmap_buffer s6))] None s6
                else Some (s6\<lparr>memory_map := init_from_uefi (take map_size (raw_mmap_buffer s6)) desc_size (map_size div desc_size)
                                             (memory_map s6)\<rparr>))"

subsection \<open>The root pointer\<close>

lemma rsdp_loop_spec:
  "rsdp_loop ts r0 =
     (case find (\<lambda>t. vendor_guid t = EFI_ACPI_20_TABLE_GUID) ts of
        Some t \<Rightarrow> vendor_table t
      | None \<Rightarrow>
          if r0 \<noteq> 0 then r0
          else case find (\<lambda>t. vendor_guid t = EFI_ACPI_10_TABLE_GUID \<and> vendor_table t \<noteq> 0) ts of Some t \<Rightarrow> vendor_table t | None \<Rightarrow> 0)"
proof (induction ts r0 rule: rsdp_loop.induct)
  case (2 t ts r0)
  then show ?case by (cases "vendor_guid t = EFI_ACPI_20_TABLE_GUID"; cases "vendor_guid t = EFI_ACPI_10_TABLE_GUID"; cases "r0 = 0";
        cases "vendor_table t = 0") (simp_all split: option.split)
qed simp

subsection \<open>The attempts to leave\<close>

definition map_ok :: "firmware \<Rightarrow> nat \<Rightarrow> bool" where
  "map_ok fw k \<longleftrightarrow> mm_status (fw_get_memory_map fw k) = EFI_SUCCESS \<and> mm_desc_size (fw_get_memory_map fw k) \<noteq> 0"

definition accepted :: "firmware \<Rightarrow> nat \<Rightarrow> bool" where
  "accepted fw k \<longleftrightarrow> map_ok fw k \<and> fw_exit_boot_services fw k (mm_map_key (fw_get_memory_map fw k)) = EFI_SUCCESS"

definition refused :: "firmware \<Rightarrow> nat \<Rightarrow> bool" where
  "refused fw k \<longleftrightarrow> map_ok fw k \<and> fw_exit_boot_services fw k (mm_map_key (fw_get_memory_map fw k)) \<noteq> EFI_SUCCESS"

lemma exit_attempts_Some:
  assumes "exit_attempts fw n k buf = (Some (map_size, desc_size), buf')"
  shows "\<exists>j. k \<le> j \<and> j < k + n \<and> accepted fw j \<and> (\<forall>i. k \<le> i \<and> i < j \<longrightarrow> refused fw i)
    \<and> map_size = mm_map_size (fw_get_memory_map fw j) \<and> desc_size = mm_desc_size (fw_get_memory_map fw j)
    \<and> (\<exists>rest. buf' = mm_bytes (fw_get_memory_map fw j) @ rest)"
  using assms
proof (induction fw n k buf rule: exit_attempts.induct)
  case (2 fw n k buf)
  let ?a = "fw_get_memory_map fw k"
  show ?case
  proof (cases "accepted fw k")
    case True
    then show ?thesis using "2.prems"
      by (intro exI [of _ k]) (auto simp: accepted_def map_ok_def overwrite_def Let_def)
  next
    case False
    then have r: "refused fw k" using "2.prems" by (auto simp: accepted_def refused_def map_ok_def Let_def split: if_splits)
    then have "exit_attempts fw n (Suc k) (overwrite (mm_bytes ?a) buf) = (Some (map_size, desc_size), buf')"
      using "2.prems" by (simp add: refused_def map_ok_def Let_def)
    with "2.IH" [OF refl refl] r obtain j where "Suc k \<le> j" "j < Suc k + n" "accepted fw j" "\<forall>i. Suc k \<le> i \<and> i < j \<longrightarrow> refused fw i"
      "map_size = mm_map_size (fw_get_memory_map fw j)" "desc_size = mm_desc_size (fw_get_memory_map fw j)"
      "\<exists>rest. buf' = mm_bytes (fw_get_memory_map fw j) @ rest"
      by (auto simp: refused_def map_ok_def)
    moreover have "refused fw i" if "k \<le> i" "i < j" for i
      using that r calculation(4) by (cases "i = k") auto
    ultimately show ?thesis by (intro exI [of _ j]) auto
  qed
qed simp

lemma exit_attempts_complete:
  assumes "k \<le> j" and "j < k + n" and "accepted fw j" and "\<And>i. k \<le> i \<Longrightarrow> i < j \<Longrightarrow> refused fw i"
  shows "fst (exit_attempts fw n k buf) \<noteq> None"
  using assms
proof (induction fw n k buf rule: exit_attempts.induct)
  case (2 fw n k buf)
  show ?case
  proof (cases "k = j")
    case True
    then show ?thesis using "2.prems"(3) by (simp add: accepted_def map_ok_def Let_def)
  next
    case False
    then have r: "refused fw k" using "2.prems" by simp
    then have "fst (exit_attempts fw n (Suc k) (overwrite (mm_bytes (fw_get_memory_map fw k)) buf)) \<noteq> None"
      using False "2.prems" by (intro "2.IH" [OF refl refl]) (auto simp: refused_def map_ok_def)
    then show ?thesis using r by (simp add: refused_def map_ok_def Let_def)
  qed
qed simp

subsection \<open>What each step of the hand-over changes\<close>

lemma klogE:
  obtains es sc where "klog hw ps s = s\<lparr>events := events s @ es, screen := sc\<rparr>" and "list_all log_event es"
  using loggedE [OF klog_logged] by blast

lemma find_gopE:
  obtains es sc where "find_gop hw fw s = s\<lparr>events := events s @ es, screen := sc\<rparr>"
proof -
  obtain status gop where l: "fw_locate_protocol fw EFI_GRAPHICS_OUTPUT_PROTOCOL_GUID = (status, gop)" by fastforce
  have "\<exists>m sc. find_gop hw fw s = klog hw m (s\<lparr>screen := sc\<rparr>)"
  proof (cases "status \<noteq> EFI_SUCCESS \<or> gop = 0")
    case True
    then have "find_gop hw fw s = klog hw [lit ''[BOOT WARN] UEFI GOP not found, screen output stops after ExitBootServices''] (s\<lparr>screen := screen s\<rparr>)"
      by (simp add: find_gop_def l)
    then show ?thesis by blast
  next
    case False
    then show ?thesis unfolding find_gop_def l Let_def by auto
  qed
  then obtain m sc0 where "find_gop hw fw s = klog hw m (s\<lparr>screen := sc0\<rparr>)" by blast
  moreover obtain es sc where "klog hw m (s\<lparr>screen := sc0\<rparr>) = s\<lparr>screen := sc0\<rparr>\<lparr>events := events (s\<lparr>screen := sc0\<rparr>) @ es, screen := sc\<rparr>"
    by (rule klogE)
  ultimately show thesis using that [where es = es and sc = sc] by simp
qed

definition acpi_root :: "firmware \<Rightarrow> acpi_state \<Rightarrow> acpi_state" where
  "acpi_root fw a = (let r = rsdp_loop (fw_configuration_table fw) 0 in if r = 0 then a else set_rsdp r a)"

lemma find_rsdpE:
  obtains es sc where "find_rsdp hw fw s = s\<lparr>events := events s @ es, screen := sc, acpi := acpi_root fw (acpi s)\<rparr>"
proof (cases "rsdp_loop (fw_configuration_table fw) 0 = 0")
  case True
  obtain es sc where "klog hw [lit ''[BOOT WARN] ACPI RSDP not found in UEFI configuration table''] s = s\<lparr>events := events s @ es, screen := sc\<rparr>"
    by (rule klogE)
  then show ?thesis using True that [where es = es and sc = sc] by (simp add: find_rsdp_def acpi_root_def)
next
  case False
  then show ?thesis using that [where es = "[]" and sc = "screen s"] by (simp add: find_rsdp_def acpi_root_def Let_def)
qed

lemma logger_init_effect: "\<exists>es. logger_init out (emit e s) = s\<lparr>events := events s @ es, con_out := out\<rparr>"
  unfolding logger_init_def outb_def emit_def
  by (rule exI [of _ "[e, OutB (COM1_PORT + 1) 0, OutB (COM1_PORT + 3) 0x80, OutB COM1_PORT 3, OutB (COM1_PORT + 1) 0,
       OutB (COM1_PORT + 3) 3, OutB (COM1_PORT + 2) 0xC7, OutB (COM1_PORT + 4) 0x0B]"]) simp

text \<open>Up to the attempts to leave, the kernel prints, records the display and the ACPI root, and touches nothing else.\<close>

lemma firmware_phaseE:
  fixes s :: "'a boot_scheme"
  obtains es sc where "klog hw m (find_rsdp hw fw (find_gop hw fw (logger_init (fw_con_out fw) (emit e s)))) =
    s\<lparr>events := es, con_out := fw_con_out fw, screen := sc, acpi := acpi_root fw (acpi s)\<rparr>"
proof -
  let ?s1 = "logger_init (fw_con_out fw) (emit e s)"
  obtain e1 where 1: "?s1 = s\<lparr>events := events s @ e1, con_out := fw_con_out fw\<rparr>"
    using logger_init_effect by blast
  obtain e2 sc2 where 2: "find_gop hw fw ?s1 = ?s1\<lparr>events := events ?s1 @ e2, screen := sc2\<rparr>" by (rule find_gopE)
  obtain e3 sc3 where 3: "find_rsdp hw fw (find_gop hw fw ?s1) =
      (find_gop hw fw ?s1)\<lparr>events := events (find_gop hw fw ?s1) @ e3, screen := sc3, acpi := acpi_root fw (acpi (find_gop hw fw ?s1))\<rparr>"
    by (rule find_rsdpE)
  obtain e4 sc4 where 4: "klog hw m (find_rsdp hw fw (find_gop hw fw ?s1)) =
      (find_rsdp hw fw (find_gop hw fw ?s1))\<lparr>events := events (find_rsdp hw fw (find_gop hw fw ?s1)) @ e4, screen := sc4\<rparr>"
    by (rule klogE)
  show thesis by (rule that [where es = "events s @ e1 @ e2 @ e3 @ e4" and sc = sc4]) (use 4 3 2 1 in simp)
qed

text \<open>What the UEFI specification says of \<^verbatim>\<open>GetMemoryMap\<close>: it writes no more than the buffer holds and, on success, reports the size of
  what it wrote.\<close>

definition honest_map :: "firmware \<Rightarrow> nat \<Rightarrow> bool" where
  "honest_map fw room \<longleftrightarrow> (\<forall>k. length (mm_bytes (fw_get_memory_map fw k)) \<le> room
     \<and> (map_ok fw k \<longrightarrow> mm_map_size (fw_get_memory_map fw k) = length (mm_bytes (fw_get_memory_map fw k))))"

lemma exit_first_accepted:
  assumes "j < 4" and "accepted fw j" and "\<And>i. i < j \<Longrightarrow> refused fw i" and "honest_map fw (length buf)"
  defines "a \<equiv> fw_get_memory_map fw j"
  obtains buf' where "exit_boot_services fw buf = (Some (length (mm_bytes a), mm_desc_size a), buf')"
    and "take (length (mm_bytes a)) buf' = mm_bytes a" and "length (mm_bytes a) \<le> length buf'" and "mm_desc_size a \<noteq> 0"
proof -
  have "fst (exit_attempts fw 4 0 buf) \<noteq> None"
    by (rule exit_attempts_complete [where j = j]) (use assms(1-3) in auto)
  then obtain ms ds buf' where e: "exit_attempts fw 4 0 buf = (Some (ms, ds), buf')" by (cases "exit_attempts fw 4 0 buf") auto
  obtain i rest where i: "accepted fw i" "\<And>l. l < i \<Longrightarrow> refused fw l" "ms = mm_map_size (fw_get_memory_map fw i)"
    "ds = mm_desc_size (fw_get_memory_map fw i)" "buf' = mm_bytes (fw_get_memory_map fw i) @ rest"
    using exit_attempts_Some [OF e] by auto
  have "i = j" using i(1,2) assms(2,3) by (cases i j rule: linorder_cases) (force simp: accepted_def refused_def)+
  then show thesis using that [of buf'] i e assms(2,4)
    by (simp add: exit_boot_services_def a_def honest_map_def accepted_def map_ok_def)
qed

lemma efi_main_leaves:
  fixes s :: "'a boot_scheme"
  assumes "j < 4" and "accepted fw j" and "\<And>i. i < j \<Longrightarrow> refused fw i" and "honest_map fw (length (raw_mmap_buffer s))"
  defines "a \<equiv> fw_get_memory_map fw j"
  obtains s' where "efi_main hw fw s = Some s'" and "\<not> are_interrupts_enabled s'" and "\<not> uefi_console_active s'"
    and "acpi s' = acpi_root fw (acpi s)" and "irq_handlers s' = irq_handlers s"
    and "memory_map s' = init_from_uefi (mm_bytes a) (mm_desc_size a) (length (mm_bytes a) div mm_desc_size a) (memory_map s)"
proof -
  let ?m = "[lit ''[BOOT] Exiting UEFI boot services...'']" and ?w = "[lit ''[BOOT WARN] No linear framebuffer, logging to COM1 only'']"
  define s3 where "s3 = klog hw ?m (find_rsdp hw fw (find_gop hw fw (logger_init (fw_con_out fw) (emit (EfiReset (fw_con_out fw)) s))))"
  obtain es sc where 3: "s3 = s\<lparr>events := es, con_out := fw_con_out fw, screen := sc, acpi := acpi_root fw (acpi s)\<rparr>"
    unfolding s3_def by (rule firmware_phaseE)
  obtain buf' where b: "exit_boot_services fw (raw_mmap_buffer s) = (Some (length (mm_bytes a), mm_desc_size a), buf')"
    "take (length (mm_bytes a)) buf' = mm_bytes a" "length (mm_bytes a) \<le> length buf'"
    unfolding a_def by (rule exit_first_accepted [OF assms(1-4)])
  define s4 where "s4 = disable_uefi_console (cli (s3\<lparr>raw_mmap_buffer := buf'\<rparr>))"
  obtain ok sc' where c: "console_init (screen s4) = (ok, sc')" by fastforce
  define s6 where "s6 = (if ok then s4\<lparr>screen := sc'\<rparr> else klog hw ?w (s4\<lparr>screen := sc'\<rparr>))"
  obtain es' sc'' where "klog hw ?w (s4\<lparr>screen := sc'\<rparr>) = s4\<lparr>screen := sc'\<rparr>\<lparr>events := events (s4\<lparr>screen := sc'\<rparr>) @ es', screen := sc''\<rparr>"
    by (rule klogE)
  then have "\<exists>es sc. s6 = s4\<lparr>events := es, screen := sc\<rparr>"
    by (cases ok) (simp_all add: s6_def, intro exI [of _ "events s4"], auto)
  then obtain e6 sc6 where 6: "s6 = s4\<lparr>events := e6, screen := sc6\<rparr>" by blast
  have f: "raw_mmap_buffer s6 = buf'" "memory_map s6 = memory_map s" "\<not> uefi_console_active s6" "acpi s6 = acpi_root fw (acpi s)"
    "irq_handlers s6 = irq_handlers s" "rflags s6 = rflags (cli s)"
    by (simp_all add: 6 s4_def disable_uefi_console_def cli_def 3)
  have b3: "exit_boot_services fw (raw_mmap_buffer s3) = (Some (length (mm_bytes a), mm_desc_size a), buf')" using b(1) by (simp add: 3)
  have m: "efi_main hw fw s = Some (s6\<lparr>memory_map := init_from_uefi (mm_bytes a) (mm_desc_size a)
      (length (mm_bytes a) div mm_desc_size a) (memory_map s)\<rparr>)"
    unfolding efi_main_def Let_def s3_def [symmetric] b3 prod.case option.case s4_def [symmetric] c s6_def [symmetric]
    using b(2,3) f(1,2) by simp
  show thesis by (rule that [OF m]) (use f interrupt_flag_simps(2) [of s] in \<open>simp_all add: are_interrupts_enabled_def\<close>)
qed

lemma efi_main_stays:
  assumes "\<And>j. j < 4 \<Longrightarrow> accepted fw j \<Longrightarrow> \<exists>i<j. \<not> refused fw i"
  shows "efi_main hw fw s = None"
proof -
  have "fst (exit_boot_services fw buf) = None" for buf
    using exit_attempts_Some [of fw 4 0 buf] assms unfolding exit_boot_services_def
    by (cases "exit_attempts fw 4 0 buf"; cases "fst (exit_attempts fw 4 0 buf)") fastforce+
  then have "\<exists>buf'. exit_boot_services fw buf = (None, buf')" for buf by (metis prod.collapse)
  then show ?thesis unfolding efi_main_def Let_def by (metis (no_types, lifting) case_prod_conv option.case(1) halt_never_returns)
qed

lemma kernel_start_state:
  fixes s :: "'a boot_scheme"
  assumes "j < 4" and "accepted fw j" and "\<And>i. i < j \<Longrightarrow> refused fw i" and "honest_map fw (length (raw_mmap_buffer s))"
    and "length (mm_regions (memory_map s)) = MAX_REGIONS" and "EFI_DESCRIPTOR_BYTES \<le> mm_desc_size (fw_get_memory_map fw j)"
    and "mm_bytes (fw_get_memory_map fw j) = concat (map (encode_descriptor (mm_desc_size (fw_get_memory_map fw j))) ds)"
  shows "\<exists>s'. efi_main hw fw s = Some s' \<and> \<not> are_interrupts_enabled s' \<and> \<not> uefi_console_active s' \<and> memory_map_ok (memory_map s')
    \<and> live_regions (memory_map s') = take MAX_REGIONS (List.map_filter region_of_descriptor ds)"
proof -
  let ?a = "fw_get_memory_map fw j" and ?m = "memory_map s"
  let ?reset = "?m\<lparr>mm_region_count := 0, total_memory_bytes := 0, usable_memory_bytes := 0, reserved_memory_bytes := 0\<rparr>"
  obtain s' where s': "efi_main hw fw s = Some s'" "\<not> are_interrupts_enabled s'" "\<not> uefi_console_active s'"
    "memory_map s' = init_from_uefi (mm_bytes ?a) (mm_desc_size ?a) (length (mm_bytes ?a) div mm_desc_size ?a) ?m"
    by (rule efi_main_leaves [OF assms(1-4)])
  have "length (mm_bytes ?a) = length ds * mm_desc_size ?a"
    using assms(6) by (simp add: assms(7) length_concat comp_def length_encode_descriptor sum_list_triv)
  moreover have "mm_desc_size ?a \<noteq> 0" using assms(2) by (simp add: accepted_def map_ok_def)
  ultimately have m: "memory_map s' = parse_descriptors (concat (map (encode_descriptor (mm_desc_size ?a)) ds)) (mm_desc_size ?a) (length ds) 0 ?reset"
    using s'(4) assms(7) by (simp add: init_from_uefi_def)
  have "live_regions (memory_map s') = take MAX_REGIONS (live_regions ?reset @ List.map_filter region_of_descriptor ds)"
    unfolding m by (rule parse_encoded [OF assms(6)]) (use assms(5) in simp_all)
  then show ?thesis using s'(1-3) parse_descriptors_ok [OF memory_map_ok_reset [OF assms(5)]] by (auto simp: m live_regions_def)
qed

subsection \<open>Properties\<close>

text \<open>The ACPI root pointer: the kernel takes the first ACPI 2.0 entry of the configuration table wherever it stands, and only when there
  is none the first non-null ACPI 1.0 entry; without either it keeps the state it had and says so.\<close>
theorem find_rsdp_prefers_acpi_2:
  fixes s :: "'a apic_scheme" and fw :: firmware
  defines "ts \<equiv> fw_configuration_table fw"
  shows "rsdp_address (acpi (find_rsdp hw fw s)) =
    (case find (\<lambda>t. vendor_guid t = EFI_ACPI_20_TABLE_GUID) ts of
       Some t \<Rightarrow> if vendor_table t = 0 then rsdp_address (acpi s) else vendor_table t
     | None \<Rightarrow> case find (\<lambda>t. vendor_guid t = EFI_ACPI_10_TABLE_GUID \<and> vendor_table t \<noteq> 0) ts of
         Some t \<Rightarrow> vendor_table t | None \<Rightarrow> rsdp_address (acpi s))"
proof -
  have "acpi (find_rsdp hw fw s) = acpi_root fw (acpi s)" by (rule find_rsdpE [of hw fw s]) simp
  moreover have "vendor_table t \<noteq> 0" if "find (\<lambda>t. vendor_guid t = EFI_ACPI_10_TABLE_GUID \<and> vendor_table t \<noteq> 0) ts = Some t" for t
    using that by (auto simp: find_Some_iff)
  ultimately show ?thesis by (auto simp: ts_def acpi_root_def rsdp_loop_spec set_rsdp_def split: option.split)
qed

text \<open>The hand-over: with a firmware that reports the size of the map it wrote, the kernel starts exactly when one of the first four
  attempts to leave is accepted with the key of the map read for that attempt, every earlier one being refused; otherwise it halts.\<close>
theorem efi_main_leaves_within_four_attempts:
  fixes s :: "'a boot_scheme"
  assumes "honest_map fw (length (raw_mmap_buffer s))"
  shows "efi_main hw fw s \<noteq> None \<longleftrightarrow> (\<exists>j<4. accepted fw j \<and> (\<forall>i<j. refused fw i))"
proof (cases "\<exists>j<4. accepted fw j \<and> (\<forall>i<j. refused fw i)")
  case True
  then obtain j where j: "j < 4" "accepted fw j" "\<And>i. i < j \<Longrightarrow> refused fw i" by blast
  obtain s' where "efi_main hw fw s = Some s'" by (rule efi_main_leaves [OF j assms])
  then show ?thesis using True by simp
next
  case False
  then have "efi_main hw fw s = None" by (intro efi_main_stays) blast
  then show ?thesis using False by simp
qed

text \<open>C20. What the kernel starts with: interrupts off, the firmware console closed, and a well-formed memory map whose regions are the
  accepted descriptors of the map whose key the firmware accepted, in their order, none of them from an earlier, stale attempt.\<close>
theorem kernel_starts_with_current_map:
  fixes s :: "'a boot_scheme"
  assumes "j < 4" and "accepted fw j" and "\<And>i. i < j \<Longrightarrow> refused fw i" and "honest_map fw (length (raw_mmap_buffer s))"
    and "length (mm_regions (memory_map s)) = MAX_REGIONS" and "EFI_DESCRIPTOR_BYTES \<le> mm_desc_size (fw_get_memory_map fw j)"
    and "mm_bytes (fw_get_memory_map fw j) = concat (map (encode_descriptor (mm_desc_size (fw_get_memory_map fw j))) ds)"
  shows "\<exists>s'. efi_main hw fw s = Some s' \<and> \<not> are_interrupts_enabled s' \<and> \<not> uefi_console_active s' \<and> memory_map_ok (memory_map s')
    \<and> live_regions (memory_map s') = take MAX_REGIONS (List.map_filter region_of_descriptor ds)"
  by (rule kernel_start_state [OF assms])

subsection \<open>Concrete instances\<close>

text \<open>A firmware whose first key goes stale: the second attempt is accepted.  It publishes both ACPI pointers, the old one first.\<close>

definition sample_descriptors :: "efi_memory_descriptor list" where
  "sample_descriptors =
     [\<lparr>memory_type = 7, desc_pad = 0, desc_physical_start = 0x100000, virtual_start = 0, number_of_pages = 16, attribute = 0xF\<rparr>,
      \<lparr>memory_type = 0, desc_pad = 0, desc_physical_start = 0x110000, virtual_start = 0, number_of_pages = 0, attribute = 0\<rparr>]"

definition sample_firmware :: firmware where
  "sample_firmware = \<lparr>fw_con_out = 0x7E001000,
     fw_configuration_table = [\<lparr>vendor_guid = EFI_ACPI_10_TABLE_GUID, vendor_table = 0xF5A00\<rparr>,
                               \<lparr>vendor_guid = EFI_ACPI_20_TABLE_GUID, vendor_table = 0x7F77E014\<rparr>],
     fw_locate_protocol = (\<lambda>_. (0x800000000000000E, 0)),
     fw_gop_mode = (\<lambda>_. \<lparr>frame_buffer_base = 0, frame_buffer_size = 0, horizontal_resolution = 0, vertical_resolution = 0,
                           gop_pixel_format = 0, pixels_per_scan_line = 0\<rparr>),
     fw_get_memory_map = (\<lambda>k. \<lparr>mm_status = 0, mm_map_size = 96, mm_map_key = 7 + of_nat k, mm_desc_size = 48,
                                mm_bytes = concat (map (encode_descriptor 48) sample_descriptors)\<rparr>),
     fw_exit_boot_services = (\<lambda>_ key. if key = 8 then 0 else 0x8000000000000002)\<rparr>"

definition fresh_boot :: boot where
  "fresh_boot = timer_state.extend sample_timer_state (boot.fields (replicate 16384 0) physical_memory_map_new)"

lemma fresh_boot_fields [simp]:
  "raw_mmap_buffer fresh_boot = replicate 16384 0" "memory_map fresh_boot = physical_memory_map_new"
  by (simp_all add: fresh_boot_def timer_state.defs boot.defs sample_timer_state_def irq_state.defs sample_irq_state_def apic.defs)

lemma sample_map_bytes [simp]: "length (concat (map (encode_descriptor 48) sample_descriptors)) = 96"
  by (simp add: sample_descriptors_def length_encode_descriptor EFI_DESCRIPTOR_BYTES_def)

lemma sample_firmware_honest: "honest_map sample_firmware (length (raw_mmap_buffer fresh_boot))"
  by (simp add: honest_map_def sample_firmware_def)

lemma sample_firmware_attempts: "accepted sample_firmware 1" "i < 1 \<Longrightarrow> refused sample_firmware i"
  by (simp_all add: accepted_def refused_def map_ok_def sample_firmware_def EFI_SUCCESS_def)

theorem efi_main_leaves_within_four_attempts_witness: "efi_main qemu_hardware sample_firmware fresh_boot \<noteq> None"
  using efi_main_leaves_within_four_attempts [OF sample_firmware_honest, of qemu_hardware] sample_firmware_attempts
  by (metis one_less_numeral_iff semiring_norm(76))

theorem kernel_starts_with_current_map_witness:
  "\<exists>s'. efi_main qemu_hardware sample_firmware fresh_boot = Some s' \<and> \<not> are_interrupts_enabled s'
     \<and> map physical_start (live_regions (memory_map s')) = [0x100000]"
proof -
  have f: "mm_desc_size (fw_get_memory_map sample_firmware 1) = 48"
    "mm_bytes (fw_get_memory_map sample_firmware 1) = concat (map (encode_descriptor 48) sample_descriptors)"
    by (simp_all add: sample_firmware_def)
  have r: "map physical_start (take MAX_REGIONS (List.map_filter region_of_descriptor sample_descriptors)) = [0x100000]"
    by (simp add: sample_descriptors_def List.map_filter_simps region_of_descriptor_def checked_mul_def checked_add_def classify_def
        MAX_REGIONS_def)
  show ?thesis
    using kernel_starts_with_current_map [of 1 sample_firmware fresh_boot sample_descriptors qemu_hardware,
        OF _ sample_firmware_attempts sample_firmware_honest] r
    by (auto simp: f physical_memory_map_new_def EFI_DESCRIPTOR_BYTES_def simp del: One_nat_def)
qed

end
