(* ===== verification/Boot.thy ===== *)
theory Boot
  imports Uefi Pmm
begin

text \<open>
  The start of the kernel (\<^verbatim>\<open>src/src/main.rs\<close>): the steps of \<^verbatim>\<open>kernel_main\<close> that set up logging, the ACPI information, the descriptor tables, the
  interrupt controllers and the timer, the report on the memory map, and the loop the kernel ends in.  \<^verbatim>\<open>kernel_main\<close> itself is in \<open>Kernel_Main\<close>.
\<close>

text \<open>The addresses the linker gives to the statics and to the assembly, and the tick handler's entry.\<close>

record image =
  gdt_address :: u64
  tss_address :: u64
  idt_address :: u64
  stub_table :: stub_symbols
  timer_handler :: u64

definition initialize_logging :: "hardware \<Rightarrow> 'a board_scheme \<Rightarrow> 'a board_scheme" where
  "initialize_logging hw = klog hw [lit ''[BOOT] Logging initialized'']"

definition initialize_platform :: "hardware \<Rightarrow> 'a board_scheme \<Rightarrow> 'a board_scheme" where
  "initialize_platform hw s =
     (let s1 = klog hw [lit ''[BOOT] Platform: x86_64 / UTM Q35 (UEFI boot services exited)''] s in
      case con_info (screen s1) of
        None \<Rightarrow> s1
      | Some fb \<Rightarrow>
          let (cols, rows) = console_size (screen s1) in
          klog hw [lit ''[BOOT] Framebuffer console: '', fmt_dec (fb_width fb), lit ''x'', fmt_dec (fb_height fb), lit '' pixels, '',
                   fmt_dec cols, lit ''x'', fmt_dec rows, lit '' text''] s1)"

text \<open>\<^verbatim>\<open>{:?}\<close> of an error prints its constructor.\<close>

fun acpi_error_name :: "acpi_error \<Rightarrow> string" where
  "acpi_error_name NoRsdp = ''NoRsdp''"
| "acpi_error_name BadRsdpChecksum = ''BadRsdpChecksum''"
| "acpi_error_name BadTableChecksum = ''BadTableChecksum''"
| "acpi_error_name NoMadt = ''NoMadt''"

text \<open>\<open>printed\<close> are the lines of \<^verbatim>\<open>acpi::init\<close>; \<^const>\<open>None\<close> is a walk over the table that does not end.\<close>

definition initialize_acpi :: "hardware \<Rightarrow> bytes \<Rightarrow> str list list \<Rightarrow> 'a apic_scheme \<Rightarrow> 'a apic_scheme option" where
  "initialize_acpi hw ram printed s =
     (case acpi_init ram (acpi s) of
        None \<Rightarrow> None
      | Some (r, a) \<Rightarrow>
          let s1 = fold (klog hw) printed (s\<lparr>acpi := a\<rparr>);
              s2 = (case r of
                      Inl e \<Rightarrow> klog hw [lit ''[ACPI WARN] ACPI init failed: '', lit (acpi_error_name e)] s1
                    | Inr _ \<Rightarrow> s1)
          in Some (configure_from_acpi hw s2))"

definition logged_region :: "memory_region \<Rightarrow> bool" where
  "logged_region r \<longleftrightarrow> is_usable r \<or> region_type r = LoaderCode \<or> region_type r = LoaderData"

definition log_region :: "hardware \<Rightarrow> memory_region \<Rightarrow> 'a board_scheme \<Rightarrow> 'a board_scheme" where
  "log_region hw r =
     klog hw [lit ''  ['', fmt_hex 18 (unat (physical_start r)), lit ''..'', fmt_hex 18 (unat (physical_end r)), lit ''] '',
              lit (memory_type_name (region_type r)), lit '' ('', fmt_dec (region_size_bytes r div 1024), lit '' KiB)'']"

definition log_total :: "hardware \<Rightarrow> string \<Rightarrow> u64 \<Rightarrow> 'a board_scheme \<Rightarrow> 'a board_scheme" where
  "log_total hw label n =
     klog hw [lit label, fmt_dec (unat (n div (1024 * 1024))), lit '' MiB ('', fmt_dec (unat n), lit '' bytes)'']"

definition log_diagnostics :: "hardware \<Rightarrow> 'a boot_scheme \<Rightarrow> 'a boot_scheme" where
  "log_diagnostics hw s =
     (let mm = memory_map s;
          s1 = klog hw [lit ''[MEM] UEFI physical memory map acquired''] s;
          s2 = klog hw [lit ''  Total regions   : '', fmt_dec (mm_region_count mm)] s1;
          s3 = log_total hw ''  Total physical  : '' (total_memory_bytes mm) s2;
          s4 = log_total hw ''  Usable memory   : '' (usable_memory_bytes mm) s3;
          s5 = log_total hw ''  Reserved/system : '' (reserved_memory_bytes mm) s4
      in fold (log_region hw) (take 6 (filter logged_region (take (mm_region_count mm) (mm_regions mm)))) s5)"

definition log_pmm_stats :: "hardware \<Rightarrow> allocator_stats \<Rightarrow> 'a board_scheme \<Rightarrow> 'a board_scheme" where
  "log_pmm_stats hw st s =
     fold (klog hw) [[lit ''[MEM] Physical page allocator initialized (Bitmap)''], [lit ''  Page size       : '', fmt_dec 4096, lit '' bytes''],
        [lit ''  Total pages     : '', fmt_dec (total_managed_pages st)], [lit ''  Usable pages    : '', fmt_dec (usable_pages st)],
        [lit ''  Free pages      : '', fmt_dec (free_pages st)], [lit ''  Used/reserved   : '', fmt_dec (used_pages st)]] s"

definition initialize_gdt :: "hardware \<Rightarrow> image \<Rightarrow> 'a segments_scheme \<Rightarrow> 'a segments_scheme option" where
  "initialize_gdt hw im s =
     map_option (\<lambda>s. klog hw [lit ''[BOOT] TSS initialized''] (klog hw [lit ''[BOOT] GDT initialized''] s))
       (gdt_init (gdt_address im) (tss_address im) s)"

definition initialize_idt :: "hardware \<Rightarrow> image \<Rightarrow> 'a idt_tables_scheme \<Rightarrow> 'a idt_tables_scheme" where
  "initialize_idt hw im s =
     klog hw [lit ''[BOOT] Exception handlers installed'']
       (klog hw [lit ''[BOOT] IDT initialized''] (idt_init (stub_table im) (idt_address im) s))"

definition initialize_apic :: "hardware \<Rightarrow> 'a apic_scheme \<Rightarrow> 'a apic_scheme" where
  "initialize_apic hw s =
     klog hw [lit ''[BOOT] Hardware IRQ routing enabled'']
       (klog hw [lit ''[BOOT] I/O APIC initialized'']
         (klog hw [lit ''[BOOT] Local APIC initialized''] (init_ioapic hw (init_lapic hw (disable_pic s)))))"

definition initialize_timer :: "hardware \<Rightarrow> image \<Rightarrow> 'a timer_state_scheme \<Rightarrow> 'a timer_state_scheme" where
  "initialize_timer hw im s = timer_init hw (timer_handler im) s"

partial_function (option) kernel_main_loop :: "'a platform_scheme \<Rightarrow> 'r option" where
  "kernel_main_loop s = kernel_main_loop (hlt s)"

lemma kernel_main_loop_never_returns: "kernel_main_loop s = (None :: 'r option)"
proof (cases "kernel_main_loop s :: 'r option")
  case (Some r)
  then have False by (rule kernel_main_loop.raw_induct [of "\<lambda>_ _. False", rotated 1]) blast
  then show ?thesis ..
qed

subsection \<open>Steps that only produce output\<close>

lemma con_info_shown: "con_info (shown t sc) = con_info sc"
proof -
  have "con_info (console_write_byte b c) = con_info c" for b c
    by (simp add: console_write_byte_def scroll_if_needed_def Let_def split: option.split)
  then have "con_info (fold console_write_byte bs c) = con_info c" for bs c by (induction bs arbitrary: c) simp_all
  then show ?thesis by (simp add: shown_def)
qed

definition adds_output :: "'a board_scheme \<Rightarrow> 'a board_scheme \<Rightarrow> bool" where
  "adds_output s s' \<longleftrightarrow> (\<exists>es sc. s' = s\<lparr>events := events s @ es, screen := sc\<rparr> \<and> con_info sc = con_info (screen s))"

lemma adds_output_refl [simp]: "adds_output s s"
  unfolding adds_output_def by (intro exI [of _ "[]"] exI [of _ "screen s"]) simp

lemma adds_output_trans: "adds_output s t \<Longrightarrow> adds_output t u \<Longrightarrow> adds_output s u"
  unfolding adds_output_def by fastforce

lemma adds_output_fold: "(\<And>x s. adds_output s (f x s)) \<Longrightarrow> adds_output s (fold f xs s)"
  by (induction xs arbitrary: s) (auto intro: adds_output_trans)

lemma adds_output_emit [simp]: "adds_output s (emit e s)"
  unfolding adds_output_def emit_def by (intro exI [of _ "[e]"] exI [of _ "screen s"]) simp

lemma adds_output_klog: "adds_output s t \<Longrightarrow> adds_output s (klog hw ps t)"
proof (rule adds_output_trans)
  obtain es where "klog hw ps t = t\<lparr>events := events t @ es, screen := shown (concat ps @ CRLF) (screen t)\<rparr>"
    using klog_logged [of ps t hw] unfolding logged_def by blast
  then show "adds_output t (klog hw ps t)"
    unfolding adds_output_def by (intro exI [of _ es] exI [of _ "shown (concat ps @ CRLF) (screen t)"]) (simp add: con_info_shown)
qed

lemma adds_output_device:
  assumes "adds_output s t"
  shows "adds_output s (emit e t)" and "adds_output s (mmio_write a v t)" and "adds_output s (lapic_write r v t)"
    and "adds_output s (snd (lapic_read hw r t))" and "adds_output s (snd (ioapic_read hw i t))" and "adds_output s (ioapic_write i v t)"
    and "adds_output s (outb port b t)" and "adds_output s (snd (rdmsr hw m t))" and "adds_output s (wrmsr m w t)"
proof -
  note e = adds_output_trans [OF _ adds_output_emit]
  show "adds_output s (emit e t)" by (rule e [OF assms])
  show "adds_output s (mmio_write a v t)" "adds_output s (lapic_write r v t)" "adds_output s (ioapic_write i v t)" "adds_output s (outb port b t)"
    "adds_output s (wrmsr m w t)"
    by (auto simp: mmio_write_def lapic_write_def ioapic_write_def outb_def wrmsr_def intro: e assms)
  show "adds_output s (snd (lapic_read hw r t))" "adds_output s (snd (ioapic_read hw i t))" "adds_output s (snd (rdmsr hw m t))"
    by (auto simp: mmio_read_def lapic_read_def ioapic_read_def mmio_write_def rdmsr_def Let_def split: prod.split intro: e assms)
qed

lemma adds_output_redirection: "adds_output s (write_redirection pin v d b s)"
  unfolding write_redirection_def by (intro adds_output_device adds_output_refl)

lemma adds_output_init_ioapic: "adds_output s (init_ioapic hw s)"
proof -
  obtain ver s1 where r: "ioapic_read hw 0x01 s = (ver, s1)" by fastforce
  have s1: "adds_output s s1" using adds_output_device(5) [OF adds_output_refl, of s hw "0x01"] by (simp add: r)
  have "adds_output t (route_override g n o' t)" for t :: "'a apic_scheme" and g n o'
    by (simp add: route_override_def adds_output_redirection)
  note w = this
  define n where "n = (drop_bit 16 ver AND 0xFF) + 1"
  define s2 where "s2 = fold (\<lambda>i. write_redirection (of_nat i) (0x20 + of_nat i) 0 IOAPIC_MASKED) [0..<unat n] s1"
  have "adds_output s1 s2" unfolding s2_def by (rule adds_output_fold) (rule adds_output_redirection)
  moreover have "adds_output s2 (init_ioapic hw s)"
    unfolding init_ioapic_def r prod.case Let_def n_def [symmetric] s2_def [symmetric]
    by (cases "madt (acpi s2)") (simp_all only: option.case adds_output_refl, rule adds_output_fold, rule w)
  ultimately show ?thesis by (blast intro: s1 adds_output_trans)
qed

lemma adds_outputD:
  assumes "adds_output s s'"
  obtains es sc where "s' = s\<lparr>events := events s @ es, screen := sc\<rparr>"
  using assms unfolding adds_output_def by blast

subsection \<open>The order of the start\<close>

text \<open>Enabling the local APIC comes before anything else the interrupt setup does to it.\<close>

lemma initialize_apicE:
  obtains pre mid sc where "initialize_apic hw s = s\<lparr>events := events s @ pre @ MmioWrite (lapic_base s + 0xF0) 0x1FF # mid, screen := sc\<rparr>"
proof -
  have "\<exists>t. init_lapic hw (disable_pic s) = lapic_write LAPIC_EOI 0 (lapic_write LAPIC_SVR (0x100 OR 0xFF) t) \<and> adds_output s t"
    unfolding init_lapic_def Let_def case_prod_unfold disable_pic_def
    by (rule exI, rule conjI, rule refl) (intro adds_output_device adds_output_refl)
  then obtain t where t: "init_lapic hw (disable_pic s) = lapic_write LAPIC_EOI 0 (lapic_write LAPIC_SVR (0x100 OR 0xFF) t)" "adds_output s t" by blast
  obtain pre sc0 where p: "t = s\<lparr>events := events s @ pre, screen := sc0\<rparr>" using t(2) by (rule adds_outputD)
  have l: "init_lapic hw (disable_pic s) = s\<lparr>events := events s @ pre @ [MmioWrite (lapic_base s + 0xF0) 0x1FF, MmioWrite (lapic_base s + 0xB0) 0],
      screen := sc0\<rparr>"
    by (simp add: t(1) p lapic_write_def mmio_write_def emit_def lapic_consts)
  have "adds_output (init_lapic hw (disable_pic s)) (initialize_apic hw s)"
    unfolding initialize_apic_def by (intro adds_output_klog adds_output_init_ioapic)
  then obtain es sc where "initialize_apic hw s = (init_lapic hw (disable_pic s))\<lparr>events := events (init_lapic hw (disable_pic s)) @ es, screen := sc\<rparr>"
    by (rule adds_outputD)
  then show thesis using that [where pre = pre and mid = "MmioWrite (lapic_base s + 0xB0) 0 # es" and sc = sc] by (simp add: l)
qed

lemma initialize_gdtE:
  assumes "gdt_ok (gdt_entries s)" and "cpl s = 0"
  obtains es evs sc where "initialize_gdt hw im s = Some (s\<lparr>gdt_entries := es, gdtr := \<lparr>dt_limit = 63, dt_base = gdt_address im\<rparr>,
      seg_ds := 0x10, seg_es := 0x10, seg_ss := 0x10, seg_cs := 8, task_register := 0x28, events := events s @ evs, screen := sc\<rparr>)"
    and "loadable_code64 0 0 (es ! 1)" and "length es = 7"
proof -
  obtain e0 e1 e2 e3 e4 e5 e6 where es: "gdt_entries s = [e0, e1, e2, e3, e4, e5, e6]"
    and i: "gdt_init (gdt_address im) (tss_address im) s =
      Some (s\<lparr>gdt_entries := [e0, e1 OR 2 ^ 40, e2 OR 2 ^ 40, e3, e4, tss_low (tss_address im) OR 2 ^ 41, drop_bit 32 (tss_address im)],
        gdtr := \<lparr>dt_limit = 63, dt_base = gdt_address im\<rparr>, seg_ds := 0x10, seg_es := 0x10, seg_ss := 0x10, seg_cs := 8,
        task_register := 0x28\<rparr>)" (is "_ = Some ?s")
    using gdt_init_effect [OF assms] .
  define c where "c = e1 OR 2 ^ 40"
  have "c OR 2 ^ 40 = 0x00AF9A000000FFFF OR 2 ^ 40" using assms(1) unfolding gdt_ok_def es by (simp add: gdt_new_def c_def or.assoc)
  from loadable_cong(3) [OF this] have c: "loadable_code64 0 0 c" using kernel_descriptors by blast
  have "adds_output ?s (klog hw [lit ''[BOOT] TSS initialized''] (klog hw [lit ''[BOOT] GDT initialized''] ?s))"
    by (intro adds_output_klog adds_output_refl)
  then obtain evs sc where k: "klog hw [lit ''[BOOT] TSS initialized''] (klog hw [lit ''[BOOT] GDT initialized''] ?s) =
      ?s\<lparr>events := events ?s @ evs, screen := sc\<rparr>" by (rule adds_outputD)
  show thesis
    by (rule that [where es = "[e0, c, e2 OR 2 ^ 40, e3, e4, tss_low (tss_address im) OR 2 ^ 41, drop_bit 32 (tss_address im)]" and evs = evs and sc = sc])
      (use c k in \<open>simp_all add: initialize_gdt_def i c_def\<close>)
qed

lemma initialize_idtE:
  obtains evs sc where "initialize_idt hw im s = s\<lparr>idt_entries := install_stubs (stub_table im) (idt_entries s),
    idtr := idt_pointer (idt_address im), events := events s @ evs, screen := sc\<rparr>"
proof -
  let ?s = "idt_init (stub_table im) (idt_address im) s"
  have "adds_output ?s (initialize_idt hw im s)" unfolding initialize_idt_def by (intro adds_output_klog adds_output_refl)
  then obtain evs sc where "initialize_idt hw im s = ?s\<lparr>events := events ?s @ evs, screen := sc\<rparr>" by (rule adds_outputD)
  then show thesis using that [where evs = evs and sc = sc] by (simp add: idt_init_def)
qed

text \<open>All 256 gates lead through a loadable kernel code segment to their stubs.\<close>

definition gates_in_place :: "image \<Rightarrow> 'a idt_tables_scheme \<Rightarrow> bool" where
  "gates_in_place im s \<longleftrightarrow> list_all (\<lambda>v. gate_to (entry_point (stub_table im) v) (idt_entries s ! v)) [0..<256]
     \<and> idtr s = \<lparr>dt_limit = 4095, dt_base = idt_address im\<rparr> \<and> dt_base (gdtr s) = gdt_address im
     \<and> seg_cs s = KERNEL_CODE_SELECTOR \<and> loadable_code64 0 0 (gdt_entries s ! sel_index KERNEL_CODE_SELECTOR)"

lemma initialize_idt_gates:
  assumes "length (idt_entries s) = 256" and "dt_base (gdtr s) = gdt_address im" and "seg_cs s = KERNEL_CODE_SELECTOR"
    and "loadable_code64 0 0 (gdt_entries s ! sel_index KERNEL_CODE_SELECTOR)"
  shows "gates_in_place im (initialize_idt hw im s)"
proof -
  obtain evs sc where i: "initialize_idt hw im s = s\<lparr>idt_entries := install_stubs (stub_table im) (idt_entries s),
      idtr := idt_pointer (idt_address im), events := events s @ evs, screen := sc\<rparr>" by (rule initialize_idtE)
  have "gate_to (entry_point (stub_table im) v) (install_stubs (stub_table im) (idt_entries s) ! v)" if "v < 256" for v
    by (rule install_stubs_gate [OF assms(1) that])
  then have "list_all (\<lambda>v. gate_to (entry_point (stub_table im) v) (install_stubs (stub_table im) (idt_entries s) ! v)) [0..<256]"
    by (auto simp: list_all_iff simp del: upt_conv_Cons)
  then show ?thesis using assms(2-4) unfolding i gates_in_place_def by (simp add: idt_pointer_def del: upt_conv_Cons)
qed

subsection \<open>A concrete start\<close>

definition sample_image :: image where
  "sample_image = \<lparr>gdt_address = 0x140010000, tss_address = 0x140010040, idt_address = 0x140020000, stub_table = sample_symbols,
     timer_handler = 0x140006100\<rparr>"

lemma fresh_boot_tables:
  "gdt_ok (gdt_entries fresh_boot)" "cpl fresh_boot = 0" "length (idt_entries fresh_boot) = 256" "length (irq_handlers fresh_boot) = 16"
  "initial_count fresh_boot \<noteq> 0"
  by (simp_all add: fresh_boot_def sample_timer_state_def sample_irq_state_def qemu_apic_def fresh_tables_def firmware_segments_def segments.defs
      idt_tables.defs apic.defs irq_state.defs timer_state.defs boot.defs idt_new_def gdt_ok_def gdt_new_def cpl_def TIMER_FALLBACK_COUNT_def)

end
