(* ===== verification/Kernel_Main.thy ===== *)
theory Kernel_Main
  imports Kernel_Start Boot
begin

text \<open>
  \<^verbatim>\<open>kernel_main\<close> of \<^verbatim>\<open>src/src/main.rs\<close>, statement by statement, on the whole machine: the devices with the kernel's device statics, and the memory
  with the allocator, the page tables and the counters.  A run is recorded with the state before each statement.

  The memory layers reach the devices through \<^verbatim>\<open>klog!\<close> and through single instructions (CR3, \<^verbatim>\<open>invlpg\<close>, the MSR of \<^verbatim>\<open>enable_nxe\<close>).  Which lines
  they print and which of these instructions they issue is a parameter, so what follows holds whatever they are; what they do to memory is
  the model of their theories.  Inside the self-tests of contexts, threads and processes the functions under test run with the flags of their own frame,
  which have the interrupt flag set (\<open>fresh_context_starts\<close>); the run records states between statements only.
\<close>

subsection \<open>The machine\<close>

record machine =
  devices :: boot
  memory :: kernel

text \<open>What the code under the kernel does to devices.\<close>

datatype side_effect = Prints "str list" | Accesses io_event

fun perform :: "hardware \<Rightarrow> side_effect \<Rightarrow> 'a board_scheme \<Rightarrow> 'a board_scheme" where
  "perform hw (Prints line) s = klog hw line s"
| "perform hw (Accesses e) s = emit e s"

text \<open>What is outside the kernel's source: the devices, the link addresses, the compiler's choices for the tests, the bytes of physical memory that hold
  the firmware's tables and the first content of the heap; and the output of ACPI, of the allocator's test and of the memory phase.\<close>

record surroundings =
  hw_of :: hardware
  image_of :: image
  code_of :: test_code
  ram_of :: bytes
  headers_of :: header_store
  bytes_of :: "nat \<Rightarrow> u8"
  acpi_lines :: "str list list"
  pmm_effects :: "side_effect list"
  memory_effects :: "side_effect list"

text \<open>A statement gives the next state, a halt with its message, or (\<^const>\<open>None\<close>) does not come to an end.\<close>

type_synonym statement = "machine \<Rightarrow> (string + machine) option"

definition on_devices :: "(boot \<Rightarrow> boot) \<Rightarrow> statement" where
  "on_devices f m = Some (Inr (m\<lparr>devices := f (devices m)\<rparr>))"

definition on_devices_option :: "(boot \<Rightarrow> boot option) \<Rightarrow> statement" where
  "on_devices_option f m = map_option (\<lambda>d. Inr (m\<lparr>devices := d\<rparr>)) (f (devices m))"

abbreviation put_pmm :: "pmm \<Rightarrow> kernel \<Rightarrow> kernel" where
  "put_pmm p k \<equiv> k\<lparr>k_as := (k_as k)\<lparr>as_vmm := (k_vmm k)\<lparr>vmm_pmm := p\<rparr>\<rparr>\<rparr>"

definition initialize_pmm :: "surroundings \<Rightarrow> statement" where
  "initialize_pmm w m =
     (let d1 = log_diagnostics (hw_of w) (devices m);
          p = pmm_init (memory_map d1);
          d2 = log_pmm_stats (hw_of w) (pmm_stats p) d1;
          d3 = fold (perform (hw_of w)) (pmm_effects w) d2
      in case test_pmm_hardened p of
           (Inl msg, _) \<Rightarrow> Some (Inl msg)
         | (Inr _, p) \<Rightarrow> Some (Inr (m\<lparr>devices := d3, memory := put_pmm p (memory m)\<rparr>)))"

definition bring_up_memory :: "surroundings \<Rightarrow> statement" where
  "bring_up_memory w m =
     (let d = devices m; fb = map_option (\<lambda>i. (fb_phys_base i, fb_size_bytes i)) (con_info (screen d)) in
      case initialize_vmm_and_heap (code_of w) (headers_of w) (bytes_of w) (memory_map d) (lapic_base d) (ioapic_base d) fb (memory m) of
        None \<Rightarrow> None
      | Some (Inl msg) \<Rightarrow> Some (Inl msg)
      | Some (Inr k) \<Rightarrow> Some (Inr (m\<lparr>devices := fold (perform (hw_of w)) (memory_effects w) d, memory := k\<rparr>)))"

subsection \<open>The function\<close>

definition kernel_main_body :: "surroundings \<Rightarrow> (string \<times> statement) list" where
  "kernel_main_body w =
     (let hw = hw_of w; im = image_of w in
      [(''cli'', on_devices cli),
       (''klog'', on_devices (klog hw [lit ''[BOOT] Ventura kernel starting (x86_64)''])),
       (''initialize_logging'', on_devices (initialize_logging hw)),
       (''initialize_platform'', on_devices (initialize_platform hw)),
       (''initialize_acpi'', on_devices_option (initialize_acpi hw (ram_of w) (acpi_lines w))),
       (''initialize_pmm'', initialize_pmm w),
       (''initialize_gdt'', on_devices_option (initialize_gdt hw im)),
       (''initialize_idt'', on_devices (initialize_idt hw im)),
       (''initialize_vmm_and_heap'', bring_up_memory w),
       (''initialize_apic'', on_devices (initialize_apic hw)),
       (''initialize_timer'', on_devices (initialize_timer hw im)),
       (''sti'', on_devices sti),
       (''klog'', on_devices (klog hw [lit ''[BOOT] Kernel initialization complete''])),
       (''klog'', on_devices (klog hw [lit ''[KERNEL] entering main loop'']))])"

text \<open>Running statements: the state before each one that is reached, and the outcome.\<close>

fun run_body :: "(string \<times> statement) list \<Rightarrow> machine \<Rightarrow> (string \<times> machine) list \<times> (string + machine) option" where
  "run_body [] m = ([], Some (Inr m))"
| "run_body ((label, f) # fs) m =
     (case f m of
        Some (Inr m') \<Rightarrow> (let (tr, r) = run_body fs m' in ((label, m) # tr, r))
      | r \<Rightarrow> ([(label, m)], r))"

definition kernel_main :: "surroundings \<Rightarrow> machine \<Rightarrow> 'r option" where
  "kernel_main w m =
     (case snd (run_body (kernel_main_body w) m) of
        Some (Inr m') \<Rightarrow> kernel_main_loop (devices m')
      | Some (Inl _) \<Rightarrow> halt (devices m)
      | None \<Rightarrow> None)"

lemma kernel_main_never_returns: "kernel_main w m = None"
  by (simp add: kernel_main_def kernel_main_loop_never_returns halt_never_returns split: option.split sum.split)

subsection \<open>Invariants of a run\<close>


subsection \<open>What the statements leave alone\<close>












subsection \<open>The stages of the start\<close>
















subsection \<open>A start that succeeds\<close>











subsection \<open>A concrete start\<close>








end
