(* ===== verification/Spec2Isabelle.thy ===== *)
theory Spec2Isabelle
  imports Heap_Run Acpi_Parse Console_Text Process_Scenario Kernel_Main
begin

text \<open>
  A verification development for Ventura, an x86\_64 UEFI kernel written in Rust (\<^verbatim>\<open>src/src/\<close>).

  \<^bold>\<open>The program.\<close>  The firmware's memory map is turned into a table of regions (\<^verbatim>\<open>memory.rs\<close>), from which a
  bitmap allocator hands out 4 KiB frames (\<^verbatim>\<open>pmm.rs\<close>).  The virtual memory manager (\<^verbatim>\<open>vmm.rs\<close>) builds and
  edits four-level page tables in such frames, keeps a table of virtual regions, and brings the kernel onto
  its own tables at boot.  The kernel heap (\<^verbatim>\<open>heap.rs\<close>) is a linked list of blocks in a mapped region that
  grows on demand.  Address spaces (\<^verbatim>\<open>address_space.rs\<close>) share the kernel's top-level slots and own the
  tables below the others.  Execution contexts (\<^verbatim>\<open>context.rs\<close>) are stacks with a saved frame and two pieces
  of assembly that switch between them; threads (\<^verbatim>\<open>thread.rs\<close>) and processes (\<^verbatim>\<open>process.rs\<close>) give them
  identities, states and address spaces.  The interrupt topology comes from the ACPI tables (\<^verbatim>\<open>acpi.rs\<close>); the descriptor
  tables (\<^verbatim>\<open>gdt.rs\<close>, \<^verbatim>\<open>idt.rs\<close>), the interrupt controllers (\<^verbatim>\<open>apic.rs\<close>) and the timer (\<^verbatim>\<open>timer.rs\<close>) are set up by it.  Text
  goes to the serial port, the firmware console and a console on the framebuffer (\<^verbatim>\<open>logger.rs\<close>, \<^verbatim>\<open>panic.rs\<close>,
  \<^verbatim>\<open>framebuffer.rs\<close>, \<^verbatim>\<open>font.rs\<close>).  \<^verbatim>\<open>main.rs\<close> leaves the firmware and runs the initialisation in order; single
  instructions are in \<^verbatim>\<open>platform.rs\<close>.

  \<^bold>\<open>Theories and code.\<close>
  \<^item> \<open>Prelude\<close>: machine integers, Rust's checked and saturating operations, results with state, bit and
    list lemmas, little-endian reads.
  \<^item> \<open>Memory_Map\<close> (\<^verbatim>\<open>memory.rs\<close>): classification and normalisation of the UEFI descriptors, and the parse of
    the raw descriptor buffer.
  \<^item> \<open>Frame_Allocator\<close>: the locale of frame allocators (what allocation and release promise about the set of
    free frames), with the loops that take and give back several frames; \<open>Pmm\<close> (\<^verbatim>\<open>pmm.rs\<close>) models the bitmap
    and interprets the locale.
  \<^item> \<open>Paging\<close>, \<open>Page_Forest\<close>, \<open>Vmm_Map\<close> (\<^verbatim>\<open>vmm.rs\<close>): addresses and entries; the walk of the hardware and
    the invariant that live page tables form a forest whose trees share only the shared slots and avoid the
    free frames; \<^verbatim>\<open>map_page\<close>, \<^verbatim>\<open>map_2mb_huge_page\<close>, \<^verbatim>\<open>unmap_page\<close>, \<^verbatim>\<open>translate\<close>.
  \<^item> \<open>Vmm_Regions\<close>, \<open>Vmm_Ops\<close>, \<open>Vmm_Boot\<close> (\<^verbatim>\<open>vmm.rs\<close>): the region table; mapping, allocating and unmapping
    whole regions; \<^verbatim>\<open>init\<close> and the checks.
  \<^item> \<open>Heap\<close> (\<^verbatim>\<open>heap.rs\<close>): the block headers as a store, \<^verbatim>\<open>init\<close>, \<^verbatim>\<open>expand_heap\<close>, \<^verbatim>\<open>allocate\<close>, \<^verbatim>\<open>deallocate\<close>,
    \<^verbatim>\<open>verify_invariants\<close>; \<open>Heap_Lists\<close>, \<open>Heap_Refine\<close>, \<open>Heap_Ops\<close>: the abstract block list and the refinement;
    \<open>Heap_Allocator\<close>: the locale of block allocators and its interpretation; \<open>Heap_Run\<close>: runs of the heap.
  \<^item> \<open>Address_Space\<close>, \<open>Address_Space_Tables\<close>, \<open>Address_Space_Ops\<close>, \<open>Isolation\<close> (\<^verbatim>\<open>address_space.rs\<close>): creation,
    activation, mapping and teardown of address spaces, and their isolation.
  \<^item> \<open>Machine\<close>: byte memory, registers and the instructions that the kernel's assembly uses; \<open>Context\<close>,
    \<open>Context_Switch\<close> (\<^verbatim>\<open>context.rs\<close>): stacks, contexts and the switch.
  \<^item> \<open>Registry\<close>: the locale of fixed-size registries, interpreted by \<open>Thread\<close> (\<^verbatim>\<open>thread.rs\<close>) and \<open>Process\<close>
    (\<^verbatim>\<open>process.rs\<close>); \<open>Process_Run\<close>: runs of the process and thread layer, with terminations and drops at any moment; \<open>Process_Scenario\<close>: concrete runs.
  \<^item> \<open>Acpi\<close>, \<open>Acpi_Parse\<close> (\<^verbatim>\<open>acpi.rs\<close>): the root tables and the MADT parser against an encoder of the table format.
  \<^item> \<open>Console\<close>, \<open>Console_Text\<close> (\<^verbatim>\<open>framebuffer.rs\<close>, \<^verbatim>\<open>font.rs\<close>): glyphs, scrolling and the cursor, and the text grid
    they display.

  \<^item> \<open>Platform\<close> (\<^verbatim>\<open>platform.rs\<close>): ports, model-specific and control registers, the interrupt flag, halting; \<open>Logger\<close>
    (\<^verbatim>\<open>logger.rs\<close>, \<^verbatim>\<open>panic.rs\<close>): the log, its three outputs and the panic report.
  \<^item> \<open>Gdt\<close> (\<^verbatim>\<open>gdt.rs\<close>) and \<open>Idt\<close> (\<^verbatim>\<open>idt.rs\<close>): the descriptor tables and how the processor reads them; \<open>Idt_Stubs\<close>: the
    entry stubs as code of \<open>Machine\<close>; \<open>Irq\<close>: handler registration and the three dispatchers.
  \<^item> \<open>Apic\<close>, \<open>Apic_Route\<close> (\<^verbatim>\<open>apic.rs\<close>): the local and the I/O APIC, and the redirection table their accesses leave;
    \<open>Timer\<close> (\<^verbatim>\<open>timer.rs\<close>): calibration, the tick and the periodic start.
  \<^item> \<open>Uefi\<close>, \<open>Boot\<close> (\<^verbatim>\<open>main.rs\<close>): the firmware phase up to \<^verbatim>\<open>kernel_main\<close>, and the steps of the kernel's start;
    \<open>Memory_Start\<close>: the allocator, the page tables and the heap brought up one after the other.
  \<^item> \<open>Vmm_Use\<close>: accesses through the page tables, and a memory manager in use with nothing mapped above its cursor; \<open>Vmm_Tests\<close>
    (\<^verbatim>\<open>vmm.rs\<close>): \<^verbatim>\<open>test_vmm_hardened\<close>; \<open>Heap_Space\<close>: the bound on the fragmentation of the heap, and its growth; \<open>Heap_Tests\<close> (\<^verbatim>\<open>heap.rs\<close>):
    \<^verbatim>\<open>test_heap_hardened\<close> with the boxes, vectors and strings it uses; \<open>Memory_Tests\<close> (\<^verbatim>\<open>memory.rs\<close>): the rollback and stress tests and
    \<^verbatim>\<open>run_self_tests\<close>.
  \<^item> \<open>Coroutine\<close>: functions that hand the processor over by explicit switches, and the locale of a switch operation; it is interpreted by
    \<open>Context_Tests\<close> (\<^verbatim>\<open>context.rs\<close>), \<open>Thread_Tests\<close> (\<^verbatim>\<open>thread.rs\<close>) and \<open>Process_Tests\<close> (\<^verbatim>\<open>process.rs\<close>), each the \<^verbatim>\<open>run_self_tests\<close> of its file;
    \<open>Address_Space_Use\<close>: several address spaces alive beside the kernel's root; \<open>Address_Space_Tests\<close>, \<open>Address_Space_Checks\<close>
    (\<^verbatim>\<open>address_space.rs\<close>): its \<^verbatim>\<open>run_self_tests\<close>, on the heap and the page tables together, and the proof that it passes.
  \<^item> \<open>Kernel_Start\<close> (\<^verbatim>\<open>main.rs\<close>): \<^verbatim>\<open>initialize_vmm_and_heap\<close>, the bring-up of page tables and heap followed by the self-tests of all five layers;
    \<open>Kernel_Main\<close> (\<^verbatim>\<open>main.rs\<close>): \<^verbatim>\<open>kernel_main\<close> statement by statement, on the record \<open>machine\<close> of the device state and the memory state.

  \<^bold>\<open>State.\<close>  Page tables are a map from table addresses to functions from the 512 indices to entries; this
  \<open>phys_mem\<close>, the frame allocator, the bootstrap pool, the region table and CR3 are the record \<open>vmm\<close>.  An
  \<open>as_state\<close> adds the address-space counters, a \<open>kernel\<close> the bytes of kernel memory and the counters for
  contexts, threads and processes.  Rust's statics behind \<^verbatim>\<open>SyncCell\<close> become fields of these records; the
  closures that run with interrupts disabled are plain calls, since one processor runs the code.  The device side has a
  chain of records, each adding the statics of a module: \<open>platform\<close> (the history of device accesses and RFLAGS),
  \<open>board\<close>, \<open>segments\<close>, \<open>idt_tables\<close>, \<open>apic\<close>, \<open>irq_state\<close>, \<open>timer_state\<close>, \<open>boot\<close>.  What devices answer is the parameter
  \<open>hardware\<close>, a function of the history; what the firmware answers is the parameter \<open>firmware\<close>, a function of the attempt.

  \<^bold>\<open>What the lemmas show.\<close>
  \<^item> Frames: allocation is first fit, every error branch of release is exact, the statistics agree with the
    bitmap, and the self-check accepts exactly the consistent states.
  \<^item> Page tables: a successful mapping changes the translations of exactly one page, in every root that
    shares the slot; a failed one changes none; unmapping is the inverse; \<^verbatim>\<open>translate\<close> agrees with the
    hardware walk off large pages, and differs on them.
  \<^item> Regions and boot: regions never overlap, \<^verbatim>\<open>allocate_and_map_region\<close> maps fresh frames or reports why not,
    \<^verbatim>\<open>unmap_region\<close> undoes it, and \<^verbatim>\<open>vmm::init\<close> completes with 256 free frames and establishes the invariant.
  \<^item> Heap: allocation and release refine first fit with coalescing on an abstract list of blocks; in every run
    the blocks handed out are live, aligned to 16, inside the heap and disjoint, and a double free is
    harmless; a request that the fragmentation bound leaves room for is served, and an empty heap is one block again.
  \<^item> Address spaces: a new space sees the kernel's mappings only, mappings in one are invisible in the others,
    and destroying one gives back exactly its root and its private tables.
  \<^item> Contexts: the assembly of \<^verbatim>\<open>switch_context\<close> saves and restores every callee-saved register, flags, stack
    pointer and resume address, and starts a fresh context in its entry stub.
  \<^item> Threads and processes: a new thread owns a fresh stack; in every run identities are unique, at most the thread on the processor is
    Running, and a process fails its own check exactly when it is terminated and its thread runs on, which takes a termination by its own
    thread; that this can happen is shown too.
  \<^item> ACPI: parsing inverts the encoding of the table, ends, and stays within its arrays.
  \<^item> Console: the framebuffer is at every moment the rendering of the text written so far, and nothing outside the
    screen is touched, on a screen of at least one cell.
  \<^item> Logging: every line reaches all three outputs whatever the devices answer; a panic reports and never returns.
  \<^item> Interrupts: the processor accepts every descriptor; all 256 gates lead to their stubs; an interrupt is transparent to
    the code it interrupts for every vector but 29, and the frame shown to the exception handler is the interrupted state; a registered
    handler serves its line and no other, with one end of interrupt each.
  \<^item> Controllers and timer: after initialisation every pin is masked with the routing of the MADT, unmasking opens exactly
    one; timer interrupts are counted exactly.
  \<^item> Boot: the kernel takes over with the map whose key the firmware accepted, from which the frame allocator, the page tables and
    the heap come up (\<open>firmware_to_heap\<close> below); between the statements of \<^verbatim>\<open>kernel_main\<close> interrupts stay off until their handlers are in place; with
    enough memory the main loop is reached with interrupts on (\<open>kernel_main_enters_loop\<close>).
  \<^item> Self-tests of the memory layers: after the bring-up they pass, all of them, exactly when the word at physical address 0 is even, which is
    what the check of the null page reads.
  \<^item> Self-tests of contexts, threads and processes: they pass on every machine with room for their stacks and tables; what each leaves
    behind is stated exactly (nothing, four stacks, and two address spaces with four stacks).
  \<^item> Self-test of address spaces: it passes on every kernel in order with 19 free frames, and leaves translations, regions and heap blocks as they were.
  \<^item> The whole memory phase: \<^verbatim>\<open>initialize_vmm_and_heap\<close> gets through to its end, each layer's test running on what the one before left, with 845
    usable frames and exactly when the word at physical address 0 is even.

  \<^bold>\<open>Loops.\<close>  Bounded loops are folds or structural recursions over index lists.  Loops that follow pointers or
  lengths found in memory (the heap's block walks, the MADT entries) are \<open>partial_function (option)\<close>, and the
  properties that they return are proved: on well-formed lists for the heap, on tables that do not wrap for
  the MADT.  The device loops are bounded in the code and recurse on the bound: 10000 polls of the serial port, 50000000 of the
  PIT, four attempts to leave the firmware, one step per I/O APIC pin (at most 120 in the properties, above which register
  numbers wrap).  Halting is \<open>partial_function (option)\<close> with the value \<^const>\<open>None\<close>.  No fuel is used.  \<^verbatim>\<open>usize\<close> counters are natural numbers, bounded by the invariants; addresses,
  entries and identities are words and wrap as in a release build.

  \<^bold>\<open>Not modelled.\<close>  The TLB (\<^verbatim>\<open>invlpg\<close> and CR3 reloads flush it; the model translates by the tables), interrupts between
  two instructions of the memory and process layers, the storage of their lists of threads in the heap, the text of the log lines of those layers and of \<^verbatim>\<open>acpi::init\<close> (a parameter of
  \<open>kernel_main\<close>), the interrupt flag inside the self-tests (new contexts run with it set), the functions that execute one faulting
  instruction (\<^verbatim>\<open>test_divide_by_zero\<close> and its siblings), the \<^verbatim>\<open>GlobalAlloc\<close> wrapper and \<^verbatim>\<open>Layout\<close>, which pass size and alignment on.
\<close>

section \<open>From the firmware's map to the kernel heap\<close>

definition usable_frames :: "memory_region list \<Rightarrow> nat set" where
  "usable_frames rs = {i \<in> set (usable_page_list rs). 0 < i \<and> i < managed_total rs}"

lemma pmm_init_regions: "live_regions mm = live_regions mm' \<Longrightarrow> pmm_init mm = pmm_init mm'"
  by (simp add: pmm_init_def)

lemma card_usable_frames: "card (free_addrs (pmm_init mm)) = card (usable_frames (live_regions mm))"
proof -
  have "managed_total (live_regions mm) \<le> MAX_MANAGED_PAGES" by (simp add: managed_total_def)
  then have "inj_on from_page_number (free_frames (pmm_init mm))"
    by (intro inj_on_subset [OF inj_from_page_number]) (auto simp: pmm_init_free_frames kernel_consts)
  then show ?thesis by (simp add: free_addrs_def card_image pmm_init_free_frames usable_frames_def)
qed

text \<open>C5. The way from the firmware to the heap: when the firmware accepts one of the first four attempts to leave, and the accepted
  descriptors of the map of that attempt have usable regions that do not overlap, lie below 64 TiB and hold 384
  frames apart from the bootstrap pool, then the kernel takes over with interrupts off, and the frame allocator built from that map,
  the page tables built on the allocator and the heap built on the page tables all come up and satisfy their invariants.\<close>
theorem firmware_to_heap:
  fixes s :: "'a boot_scheme" and v :: vmm and ds :: "efi_memory_descriptor list" and fw :: firmware and j :: nat
  defines "a \<equiv> fw_get_memory_map fw j" and "rs \<equiv> take MAX_REGIONS (List.map_filter region_of_descriptor ds)"
  assumes "j < 4" and "accepted fw j" and "\<And>i. i < j \<Longrightarrow> refused fw i" and "honest_map fw (length (raw_mmap_buffer s))"
    and "length (mm_regions (memory_map s)) = MAX_REGIONS" and "EFI_DESCRIPTOR_BYTES \<le> mm_desc_size a"
    and "mm_bytes a = concat (map (encode_descriptor (mm_desc_size a)) ds)"
    and "usable_nonoverlapping rs" and "list_all (\<lambda>r. unat (physical_end r) \<le> 2 ^ 46) rs" and "384 \<le> card (usable_frames rs)"
    and "\<And>mm. live_regions mm = rs \<Longrightarrow> pool_ok (v\<lparr>vmm_pmm := pmm_init mm, is_bootstrapping := True\<rparr>)" and "bootstrap_index v = 0"
    and "length (vmm_regions v) = MAX_VIRT_REGIONS" and "vmm_region_count v = 0" and "next_dynamic_addr v = DYNAMIC_VIRT_START"
    and "low_devices lapic ioapic fb"
  shows "\<exists>s' v' h. efi_main hw fw s = Some s' \<and> \<not> are_interrupts_enabled s' \<and> live_regions (memory_map s') = rs
    \<and> pmm_verify_invariants (pmm_init (memory_map s')) = Inr ()
    \<and> vmm_init (memory_map s') lapic ioapic fb (v\<lparr>vmm_pmm := pmm_init (memory_map s')\<rparr>) = (Inr (), v') \<and> cr3 v' = pool_base v
    \<and> heap_init (heap_state_new hdr bytes v') = (Inr (), h) \<and> heap_verify_invariants h = Some (Inr ())"
proof -
  from kernel_start_state [OF assms(3-6) assms(7) assms(8,9) [unfolded a_def], of hw] obtain s' where
    s': "efi_main hw fw s = Some s'" "\<not> are_interrupts_enabled s'" "memory_map_ok (memory_map s')" "live_regions (memory_map s') = rs"
    unfolding rs_def by blast
  let ?mm = "memory_map s'"
  have inv: "pmm_inv (pmm_init ?mm)" by (rule pmm_init_inv) (use assms(10) s'(4) in simp)
  have "low_regions ?mm" using assms(11) s'(4) by (simp add: low_regions_def)
  moreover have "384 \<le> card (free_addrs (pmm_init ?mm))" using assms(12) s'(4) by (simp add: card_usable_frames)
  ultimately obtain v' h where "vmm_init ?mm lapic ioapic fb (v\<lparr>vmm_pmm := pmm_init ?mm\<rparr>) = (Inr (), v')" "cr3 v' = pool_base v"
    "heap_init (heap_state_new hdr bytes v') = (Inr (), h)" "heap_verify_invariants h = Some (Inr ())"
    using memory_comes_up [OF s'(3) _ _ assms(18) _ assms(13) assms(14-17), of hdr bytes] assms(10) s'(4) by auto
  then show ?thesis using s' pmm_verify_iff [OF pmm_init_shape] inv by blast
qed

subsection \<open>A machine on which it happens\<close>

definition boot_descriptor :: efi_memory_descriptor where
  "boot_descriptor = \<lparr>memory_type = 7, desc_pad = 0, desc_physical_start = 0, virtual_start = 0, number_of_pages = 512, attribute = 0xF\<rparr>"

definition boot_firmware :: firmware where
  "boot_firmware = sample_firmware\<lparr>fw_get_memory_map := (\<lambda>k. \<lparr>mm_status = 0, mm_map_size = 48, mm_map_key = 7 + of_nat k, mm_desc_size = 48,
     mm_bytes = encode_descriptor 48 boot_descriptor\<rparr>)\<rparr>"

theorem firmware_to_heap_witness:
  "\<exists>s' v' h. efi_main qemu_hardware boot_firmware fresh_boot = Some s'
     \<and> vmm_init (memory_map s') 0xFEE00000 0xFEC00000 None (boot_vm\<lparr>vmm_pmm := pmm_init (memory_map s')\<rparr>) = (Inr (), v')
     \<and> heap_init (heap_state_new (\<lambda>_. poison_header) (\<lambda>_. 0) v') = (Inr (), h) \<and> heap_verify_invariants h = Some (Inr ())"
proof -
  have fw: "accepted boot_firmware 1" "\<And>i. i < 1 \<Longrightarrow> refused boot_firmware i" "honest_map boot_firmware (length (raw_mmap_buffer fresh_boot))"
    by (simp_all add: accepted_def refused_def map_ok_def honest_map_def boot_firmware_def sample_firmware_def EFI_SUCCESS_def
        length_encode_descriptor EFI_DESCRIPTOR_BYTES_def)
  have a: "mm_desc_size (fw_get_memory_map boot_firmware 1) = 48"
    "mm_bytes (fw_get_memory_map boot_firmware 1) = concat (map (encode_descriptor 48) [boot_descriptor])"
    by (simp_all add: boot_firmware_def)
  have rs: "take MAX_REGIONS (List.map_filter region_of_descriptor [boot_descriptor]) = live_regions boot_map"
    by (simp add: boot_live boot_descriptor_def List.map_filter_simps region_of_descriptor_def checked_mul_def checked_add_def classify_def MAX_REGIONS_def)
  have pool: "pool_ok (boot_vm\<lparr>vmm_pmm := pmm_init mm, is_bootstrapping := True\<rparr>)" if "live_regions mm = live_regions boot_map" for mm
  proof -
    have "boot_vm\<lparr>vmm_pmm := pmm_init boot_map\<rparr> = boot_vm" by (simp add: boot_vm_def)
    then show ?thesis using boot_pool pmm_init_regions [OF that] by simp
  qed
  have r: "length (vmm_regions boot_vm) = MAX_VIRT_REGIONS" "vmm_region_count boot_vm = 0" "next_dynamic_addr boot_vm = DYNAMIC_VIRT_START"
    "bootstrap_index boot_vm = 0"
    by (simp_all add: boot_vm_def sample_vm_def kernel_consts)
  have f: "384 \<le> card (usable_frames (live_regions boot_map))" using boot_free_card by (simp add: card_usable_frames)
  have u: "usable_nonoverlapping (live_regions boot_map)" "list_all (\<lambda>r. unat (physical_end r) \<le> 2 ^ 46) (live_regions boot_map)"
    by (simp_all add: boot_live usable_nonoverlapping_def)
  have d: "low_devices 0xFEE00000 0xFEC00000 None" by (simp add: low_devices_def)
  show ?thesis
    using firmware_to_heap [of 1 boot_firmware fresh_boot "[boot_descriptor]" boot_vm "0xFEE00000" "0xFEC00000" None qemu_hardware
        "\<lambda>_. poison_header" "\<lambda>_. 0", unfolded rs a, OF _ fw _ _ _ u f pool r(4,1-3) d]
    by (auto simp: physical_memory_map_new_def EFI_DESCRIPTOR_BYTES_def)
qed

end
